(* ===== verification/Gea_Prelude.thy ===== *)
theory Gea_Prelude
  imports Complex_Main "HOL-Library.Word" "HOL-Library.Multiset"
begin

unbundle bit_operations_syntax

text \<open>
  Shared material of the development.

  The theorem collections: \<open>time_simps\<close> holds the equations that reduce the operators of
  \<^verbatim>\<open>gea::AbsTime\<close> and \<^verbatim>\<open>gea::Duration\<close> to words; \<open>handle_simps\<close> the equations of the
  handle store; \<open>loop_simps\<close> those of the event loop.

  The generic material: a stable sorted insertion (what \<^verbatim>\<open>std::multimap::insert\<close> and the
  sorted linked lists of the program do), truncation as the C++ cast from a floating point number
  to an integer does it, and C++ integer division.

  A C++ \<^verbatim>\<open>double\<close> is a rational number here: every finite double is one and comparing
  doubles is comparing rationals; the rounding of a sum or product to 53 bits is not modelled.
\<close>

named_theorems time_simps
named_theorems handle_simps
named_theorems loop_simps

type_synonym byte = "8 word"
type_synonym u16 = "16 word"
type_synonym u32 = "32 word"
type_synonym u64 = "64 word"
type_synonym double = rat

section \<open>Casts and division of the language\<close>

text \<open>\<^verbatim>\<open>static_cast<integer>(x)\<close> for a floating point \<open>x\<close>: the fraction is cut off.\<close>

definition trunc :: "double \<Rightarrow> int" where
  "trunc x = (if 0 \<le> x then \<lfloor>x\<rfloor> else - \<lfloor>- x\<rfloor>)"

text \<open>Integer division rounds towards zero.\<close>

definition c_div :: "int \<Rightarrow> int \<Rightarrow> int" where
  "c_div a b = sgn a * sgn b * (\<bar>a\<bar> div \<bar>b\<bar>)"

lemma trunc_nonneg: "0 \<le> x \<Longrightarrow> trunc x = \<lfloor>x\<rfloor>"
  by (simp add: trunc_def)

lemma trunc_of_int [simp]: "trunc (of_int n) = n"
  by (simp add: trunc_def)

lemma c_div_nonneg: "0 \<le> a \<Longrightarrow> 0 < b \<Longrightarrow> c_div a b = a div b"
  by (cases "a = 0") (auto simp: c_div_def)

section \<open>Words read as signed integers\<close>

lemma sint_injectD: "sint a = sint b \<Longrightarrow> a = b"
  by (rule signed_word_eqI)

lemma sint_add_in_range:
  fixes a b :: u64
  assumes "- (2 ^ 63) \<le> sint a + sint b" "sint a + sint b < 2 ^ 63"
  shows "sint (a + b) = sint a + sint b"
  using assms by (simp add: sint_word_ariths signed_take_bit_int_eq_self)

lemma sint_sub_in_range:
  fixes a b :: u64
  assumes "- (2 ^ 63) \<le> sint a - sint b" "sint a - sint b < 2 ^ 63"
  shows "sint (a - b) = sint a - sint b"
  using assms by (simp add: sint_word_ariths signed_take_bit_int_eq_self)

lemma sint_word_of_int_in_range:
  assumes "- (2 ^ 63) \<le> n" "n < 2 ^ 63"
  shows "sint (word_of_int n :: u64) = n"
  using assms by transfer (simp add: signed_take_bit_int_eq_self)

section \<open>Stable insertion into a sorted list\<close>

text \<open>
  Insert \<open>x\<close> before the first element whose key is greater, so after every element with the
  same key: first in, first out among equal keys.
\<close>

fun insert_upper :: "('a \<Rightarrow> 'k::linorder) \<Rightarrow> 'a \<Rightarrow> 'a list \<Rightarrow> 'a list" where
  "insert_upper f x [] = [x]"
| "insert_upper f x (y # ys) = (if f x < f y then x # y # ys else y # insert_upper f x ys)"

abbreviation sorted_key :: "('a \<Rightarrow> 'k::linorder) \<Rightarrow> 'a list \<Rightarrow> bool" where
  "sorted_key f xs \<equiv> sorted (map f xs)"

lemma mset_insert_upper [simp]: "mset (insert_upper f x xs) = add_mset x (mset xs)"
  by (induction xs) auto

lemma set_insert_upper [simp]: "set (insert_upper f x xs) = insert x (set xs)"
  by (induction xs) auto

lemma length_insert_upper [simp]: "length (insert_upper f x xs) = Suc (length xs)"
  by (induction xs) auto

lemma insert_upper_not_Nil [simp]: "insert_upper f x xs \<noteq> []"
  by (cases xs) auto

lemma sorted_insert_upper [simp]: "sorted_key f xs \<Longrightarrow> sorted_key f (insert_upper f x xs)"
  by (induction xs) (auto simp: less_imp_le)

text \<open>On a sorted list the insertion splits it at the key: everything up to and including the
  key stays in front, everything greater behind.\<close>

lemma insert_upper_split:
  "sorted_key f xs \<Longrightarrow>
    insert_upper f x xs = filter (\<lambda>y. f y \<le> f x) xs @ x # filter (\<lambda>y. f x < f y) xs"
proof (induction xs)
  case (Cons y ys)
  show ?case
  proof (cases "f x < f y")
    case True
    with Cons.prems have "\<forall>z \<in> set (y # ys). f x < f z" by auto
    then have "filter (\<lambda>z. f z \<le> f x) (y # ys) = []" "filter (\<lambda>z. f x < f z) (y # ys) = y # ys"
      by (auto simp: filter_empty_conv filter_id_conv not_le)
    with True show ?thesis by simp
  qed (use Cons in auto)
qed simp

lemma insert_upper_behind_head:
  "f y \<le> f x \<Longrightarrow> insert_upper f x (y # ys) = y # insert_upper f x ys"
  by auto

lemma insert_upper_filter:
  "sorted_key f xs \<Longrightarrow>
    filter P (insert_upper f x xs) = (if P x then insert_upper f x (filter P xs) else filter P xs)"
proof (induction xs)
  case (Cons y ys)
  have flt: "filter P (y # ys) = (if P y then y # filter P ys else filter P ys)" by simp
  show ?case
  proof (cases "f x < f y")
    case True
    with Cons.prems have "\<forall>z \<in> set (filter P (y # ys)). f x < f z" by auto
    then have "insert_upper f x (filter P (y # ys)) = x # filter P (y # ys)"
      by (cases "filter P (y # ys)") auto
    with True show ?thesis by (simp del: filter.simps(2) add: flt) (auto simp: flt)
  qed (use Cons in auto)
qed simp

lemma sorted_key_filter [simp]: "sorted_key f xs \<Longrightarrow> sorted_key f (filter P xs)"
  by (rule sorted_filter)

lemma sorted_key_hd: "sorted_key f (x # xs) \<Longrightarrow> y \<in> set (x # xs) \<Longrightarrow> f x \<le> f y"
  by auto

section \<open>Folding an update over a list\<close>

text \<open>An invariant that every step keeps is kept by the fold.\<close>

lemma fold_invariant:
  "P s \<Longrightarrow> (\<And>x s. x \<in> set xs \<Longrightarrow> P s \<Longrightarrow> P (f x s)) \<Longrightarrow> P (fold f xs s)"
  by (induction xs arbitrary: s) auto

section \<open>Results with errors\<close>

text \<open>
  What ends the program instead of a result: a null or dangling pointer is followed, an
  \<^verbatim>\<open>assert\<close> or \<^verbatim>\<open>abort\<close> stops it, an access leaves its buffer, or a loop of the model has
  used up its fuel.
\<close>

datatype gea_error = NullPointer | AssertFailed string | BufferOverflow | OutOfFuel | InvalidIterator | DivisionByZero

type_synonym 'a result = "gea_error + 'a"

definition bindE :: "'a result \<Rightarrow> ('a \<Rightarrow> 'b result) \<Rightarrow> 'b result" where
  "bindE r f = (case r of Inl e \<Rightarrow> Inl e | Inr x \<Rightarrow> f x)"

definition assertE :: "string \<Rightarrow> bool \<Rightarrow> unit result" where
  "assertE msg b = (if b then Inr () else Inl (AssertFailed msg))"

definition derefE :: "'a option \<Rightarrow> 'a result" where
  "derefE p = (case p of None \<Rightarrow> Inl NullPointer | Some x \<Rightarrow> Inr x)"

fun foldE :: "('x \<Rightarrow> 's \<Rightarrow> 's result) \<Rightarrow> 'x list \<Rightarrow> 's \<Rightarrow> 's result" where
  "foldE f [] s = Inr s"
| "foldE f (x # xs) s = bindE (f x s) (foldE f xs)"

lemma bindE_Inl [simp]: "bindE (Inl e) f = Inl e"
  and bindE_Inr [simp]: "bindE (Inr x) f = f x"
  by (simp_all add: bindE_def)

lemma bindE_eq_Inr: "bindE r f = Inr y \<longleftrightarrow> (\<exists>x. r = Inr x \<and> f x = Inr y)"
  by (cases r) auto

lemma assertE_True [simp]: "assertE msg True = Inr ()"
  and assertE_False [simp]: "assertE msg False = Inl (AssertFailed msg)"
  and assertE_eq_Inr: "assertE msg b = Inr u \<longleftrightarrow> b"
  by (simp_all add: assertE_def)

lemma derefE_Some [simp]: "derefE (Some x) = Inr x"
  and derefE_None [simp]: "derefE None = Inl NullPointer"
  and derefE_eq_Inr: "derefE p = Inr x \<longleftrightarrow> p = Some x"
  by (simp_all add: derefE_def split: option.splits)

lemmas resultE = bindE_eq_Inr assertE_eq_Inr derefE_eq_Inr

lemma foldE_append: "foldE f (xs @ ys) s = bindE (foldE f xs s) (foldE f ys)"
  by (induction xs arbitrary: s) (simp_all add: bindE_def split: sum.splits)

lemma foldE_invariant:
  "foldE f xs s = Inr s' \<Longrightarrow> P s \<Longrightarrow> (\<And>x s s'. x \<in> set xs \<Longrightarrow> P s \<Longrightarrow> f x s = Inr s' \<Longrightarrow> P s') \<Longrightarrow> P s'"
  by (induction xs arbitrary: s) (auto simp: bindE_eq_Inr)

text \<open>A fold returns when every step returns and keeps what the next step needs.\<close>

lemma foldE_total:
  "P s \<Longrightarrow> (\<And>x s. x \<in> set xs \<Longrightarrow> P s \<Longrightarrow> \<exists>s'. f x s = Inr s' \<and> P s') \<Longrightarrow> \<exists>s'. foldE f xs s = Inr s' \<and> P s'"
proof (induction xs arbitrary: s)
  case (Cons x xs)
  from Cons.prems obtain s1 where "f x s = Inr s1" "P s1" by auto
  with Cons.IH [of s1] Cons.prems(2) show ?case by auto
qed auto

end
