(* ===== verification/Ns_Route.thy ===== *)
theory Ns_Route
  imports Gea_Prelude
begin

text \<open>
  The routes of the simulated network, the flat part of the class \<^verbatim>\<open>RouteLogic\<close> of
  \<^verbatim>\<open>ns2-gea/ns-2/routing/route.h\<close> and \<^verbatim>\<open>route.cc\<close>: a square table of link costs that grows as links are
  inserted, and the computation of the next hops from every node to every other.

  The arrays \<^verbatim>\<open>adj_\<close> and \<^verbatim>\<open>route_\<close> are lists of \<open>n * n\<close> entries, addressed by \<open>INDEX\<close>; a null
  pointer is \<open>None\<close>. The local arrays \<^verbatim>\<open>parent\<close> and \<^verbatim>\<open>hopcnt\<close> of the computation are functions; what
  \<^verbatim>\<open>hopcnt\<close> holds before it is written is a parameter. Nodes are numbered from 1, as in the code.
  A \<^verbatim>\<open>void*\<close> is a number, with 0 for the null pointer. The hierarchical routes and their address
  strings are not modelled.
\<close>

section \<open>The table of links\<close>

definition INFINITY :: double where "INFINITY = 0x3fff"

definition INDEX :: "nat \<Rightarrow> nat \<Rightarrow> nat \<Rightarrow> nat" where
  "INDEX i j N = N * i + j"

record adj_entry =
  cost :: double
  aentry :: nat

record route_entry =
  next_hop :: nat
  rentry :: nat

record RouteLogic =
  rsize :: nat
  adj :: "adj_entry list option"
  routes :: "route_entry list option"

definition new_RouteLogic :: RouteLogic where
  "new_RouteLogic = \<lparr>rsize = 0, adj = None, routes = None\<rparr>"

definition reset_all :: "RouteLogic \<Rightarrow> RouteLogic" where
  "reset_all L = L\<lparr>adj := None, routes := None, rsize := 0\<rparr>"

definition alloc :: "nat \<Rightarrow> RouteLogic \<Rightarrow> RouteLogic" where
  "alloc n L = L\<lparr>rsize := n, adj := Some (replicate (n * n) \<lparr>cost = INFINITY, aentry = 0\<rparr>)\<rparr>"

function grow :: "nat \<Rightarrow> nat \<Rightarrow> nat" where
  "grow m n = (if 0 < m \<and> m \<le> n then grow (2 * m) n else m)"
  by pat_completeness auto
termination by (relation "measure (\<lambda>(m, n). Suc n - m)") auto

declare grow.simps [simp del]

text \<open>The loops of \<^verbatim>\<open>check\<close> that copy the costs, and only the costs, of the old table into the new one.\<close>

definition copy_costs :: "adj_entry list \<Rightarrow> nat \<Rightarrow> nat \<Rightarrow> adj_entry list \<Rightarrow> adj_entry list" where
  "copy_costs old osize m a =
     foldl (\<lambda>a i. foldl (\<lambda>a j. a[INDEX i j m := (a ! INDEX i j m)\<lparr>cost := cost (old ! INDEX i j osize)\<rparr>]) a [0..<osize])
       a [0..<osize]"

definition check :: "nat \<Rightarrow> RouteLogic \<Rightarrow> RouteLogic" where
  "check n L =
     (if n < rsize L then L
      else
        let old = (case adj L of None \<Rightarrow> [] | Some a \<Rightarrow> a); osize = rsize L;
            m = grow (if osize = 0 then 16 else osize) n; L1 = alloc m L
        in L1\<lparr>adj := map_option (copy_costs old osize m) (adj L1)\<rparr>)"

definition set_adj :: "nat \<Rightarrow> nat \<Rightarrow> (adj_entry \<Rightarrow> adj_entry) \<Rightarrow> RouteLogic \<Rightarrow> RouteLogic result" where
  "set_adj i j f L =
     bindE (derefE (adj L)) (\<lambda>a.
       let p = INDEX i j (rsize L) in
       if p < length a then Inr (L\<lparr>adj := Some (a[p := f (a ! p)])\<rparr>) else Inl BufferOverflow)"

definition insert_link :: "nat \<Rightarrow> nat \<Rightarrow> double \<Rightarrow> RouteLogic \<Rightarrow> RouteLogic result" where
  "insert_link src dst c L = set_adj src dst (\<lambda>x. x\<lparr>cost := c\<rparr>) (check dst (check src L))"

definition insert_link_entry :: "nat \<Rightarrow> nat \<Rightarrow> double \<Rightarrow> nat \<Rightarrow> RouteLogic \<Rightarrow> RouteLogic result" where
  "insert_link_entry src dst c p L = set_adj src dst (\<lambda>x. x\<lparr>cost := c, aentry := p\<rparr>) (check dst (check src L))"

definition reset_link :: "nat \<Rightarrow> nat \<Rightarrow> RouteLogic \<Rightarrow> RouteLogic result" where
  "reset_link src dst L =
     (if \<not> src < rsize L then Inl (AssertFailed ''src < size_'')
      else if \<not> dst < rsize L then Inl (AssertFailed ''dst < size_'')
      else set_adj src dst (\<lambda>x. x\<lparr>cost := INFINITY\<rparr>) L)"

section \<open>The computation of routes\<close>

definition ADJ :: "adj_entry list \<Rightarrow> nat \<Rightarrow> nat \<Rightarrow> nat \<Rightarrow> double" where
  "ADJ a n i j = cost (a ! INDEX i j n)"

definition ADJ_ENTRY :: "adj_entry list \<Rightarrow> nat \<Rightarrow> nat \<Rightarrow> nat \<Rightarrow> nat" where
  "ADJ_ENTRY a n i j = aentry (a ! INDEX i j n)"

text \<open>The state of the computation: \<^verbatim>\<open>hopcnt\<close>, \<^verbatim>\<open>parent\<close> and \<^verbatim>\<open>route_\<close>.\<close>

record search =
  hopcnt :: "nat \<Rightarrow> double"
  parent :: "nat \<Rightarrow> nat"
  rtab :: "route_entry list"

text \<open>The route for all neighbours of \<open>k\<close> first.\<close>

definition first_hops :: "adj_entry list \<Rightarrow> nat \<Rightarrow> nat \<Rightarrow> search \<Rightarrow> search" where
  "first_hops a n k S =
     foldl (\<lambda>S v. if parent S v \<noteq> k then
         let S1 = S\<lparr>hopcnt := (hopcnt S)(v := ADJ a n k v)\<rparr> in
         if hopcnt S1 v \<noteq> INFINITY then S1\<lparr>rtab := (rtab S1)[INDEX k v n := \<lparr>next_hop = v, rentry = ADJ_ENTRY a n k v\<rparr>]\<rparr>
         else S1
       else S) S [1..<n]"

text \<open>The nearest node that is not routed yet, or 0.\<close>

definition nearest :: "nat \<Rightarrow> nat \<Rightarrow> search \<Rightarrow> nat" where
  "nearest n k S = foldl (\<lambda>o' w. if parent S w \<noteq> k \<and> hopcnt S w < hopcnt S o' then w else o') 0 [1..<n]"

definition relax :: "adj_entry list \<Rightarrow> nat \<Rightarrow> nat \<Rightarrow> nat \<Rightarrow> search \<Rightarrow> search" where
  "relax a n k u S =
     foldl (\<lambda>S w. if parent S w \<noteq> k \<and> hopcnt S u + ADJ a n u w < hopcnt S w then
         S\<lparr>rtab := (rtab S)[INDEX k w n := rtab S ! INDEX k u n], hopcnt := (hopcnt S)(w := hopcnt S u + ADJ a n u w)\<rparr>
       else S) S [1..<n]"

definition route_round :: "adj_entry list \<Rightarrow> nat \<Rightarrow> nat \<Rightarrow> search \<Rightarrow> search" where
  "route_round a n k S =
     (let S1 = S\<lparr>hopcnt := (hopcnt S)(0 := INFINITY)\<rparr>; u = nearest n k S1; S2 = S1\<lparr>parent := (parent S1)(u := k)\<rparr>
      in if u = 0 then S2 else relax a n k u S2)"

definition route_source :: "adj_entry list \<Rightarrow> nat \<Rightarrow> search \<Rightarrow> nat \<Rightarrow> search" where
  "route_source a n S k = (route_round a n k ^^ (n - 1)) (first_hops a n k (S\<lparr>parent := \<lambda>v. v\<rparr>))"

definition own_route :: "nat \<Rightarrow> route_entry list \<Rightarrow> nat \<Rightarrow> route_entry list" where
  "own_route n r k = r[INDEX k k n := \<lparr>next_hop = k, rentry = 0\<rparr>]"

definition route_table :: "(nat \<Rightarrow> double) \<Rightarrow> adj_entry list \<Rightarrow> nat \<Rightarrow> route_entry list" where
  "route_table raw a n =
     foldl (own_route n)
       (rtab (foldl (route_source a n) \<lparr>hopcnt = raw, parent = \<lambda>v. v, rtab = replicate (n * n) \<lparr>next_hop = 0, rentry = 0\<rparr>\<rparr> [1..<n]))
       [1..<n]"

definition compute_routes :: "(nat \<Rightarrow> double) \<Rightarrow> RouteLogic \<Rightarrow> RouteLogic result" where
  "compute_routes raw L =
     bindE (if rsize L \<le> 1 then Inr [] else derefE (adj L)) (\<lambda>a. Inr (L\<lparr>routes := Some (route_table raw a (rsize L))\<rparr>))"

section \<open>Commands and lookups\<close>

text \<open>The commands \<^verbatim>\<open>compute\<close>, \<^verbatim>\<open>insert\<close> and \<^verbatim>\<open>reset\<close> with their numbers read; \<open>Inr None\<close> is \<^verbatim>\<open>TCL_ERROR\<close>.\<close>

definition cmd_compute :: "(nat \<Rightarrow> double) \<Rightarrow> RouteLogic \<Rightarrow> RouteLogic result" where
  "cmd_compute raw L = (if adj L = None then Inr L else compute_routes raw L)"

definition cmd_insert :: "int \<Rightarrow> int \<Rightarrow> double option \<Rightarrow> RouteLogic \<Rightarrow> RouteLogic option result" where
  "cmd_insert s d c L =
     (let src = s + 1; dst = d + 1 in
      if src \<le> 0 \<or> dst \<le> 0 then Inr None
      else bindE (insert_link (nat src) (nat dst) (case c of Some x \<Rightarrow> x | None \<Rightarrow> 1) L) (\<lambda>L'. Inr (Some L')))"

definition cmd_reset :: "int \<Rightarrow> int \<Rightarrow> RouteLogic \<Rightarrow> RouteLogic option result" where
  "cmd_reset s d L =
     (let src = s + 1; dst = d + 1 in
      if src \<le> 0 \<or> dst \<le> 0 then Inr None
      else bindE (reset_link (nat src) (nat dst) L) (\<lambda>L'. Inr (Some L')))"

text \<open>-1 when there are no routes yet, -2 for a number out of range; a negative number addresses memory before
  the table.\<close>

definition lookup_flat :: "int \<Rightarrow> int \<Rightarrow> RouteLogic \<Rightarrow> int result" where
  "lookup_flat sid did L =
     (let src = sid + 1; dst = did + 1 in
      case routes L of
        None \<Rightarrow> Inr (-1)
      | Some r \<Rightarrow>
          if src \<ge> int (rsize L) \<or> dst \<ge> int (rsize L) then Inr (-2)
          else let p = int (rsize L) * src + dst in
            if p < 0 \<or> p \<ge> int (length r) then Inl BufferOverflow else Inr (int (next_hop (r ! nat p)) - 1))"

text \<open>The lookup for Tcl, where the two failures are \<^verbatim>\<open>TCL_ERROR\<close>.\<close>

definition lookup_flat_tcl :: "int \<Rightarrow> int \<Rightarrow> RouteLogic \<Rightarrow> int option result" where
  "lookup_flat_tcl sid did L =
     (case routes L of
        None \<Rightarrow> Inr None
      | Some r \<Rightarrow>
          if sid + 1 \<ge> int (rsize L) \<or> did + 1 \<ge> int (rsize L) then Inr None
          else bindE (lookup_flat sid did L) (\<lambda>h. Inr (Some h)))"

end
