(* ===== verification/Ns_RouteProps.thy ===== *)
theory Ns_RouteProps
  imports Ns_Route
begin

text \<open>
  The routes are shortest: the next hop from one node to another is the first step of a walk of least
  cost, and there is none exactly if no walk costs less than \<open>INFINITY\<close>; following the next hops
  from node to node arrives.
\<close>

section \<open>Addressing the tables\<close>

lemma INDEX_less: "i < n \<Longrightarrow> j < n \<Longrightarrow> INDEX i j n < n * n"
proof -
  assume "i < n" "j < n"
  then have "n * i + j < n * i + n" by simp
  also have "\<dots> \<le> n * n" using \<open>i < n\<close> by (metis Suc_leI mult_Suc_right add.commute mult_le_mono2)
  finally show ?thesis by (simp add: INDEX_def)
qed

lemma INDEX_eq: "j < n \<Longrightarrow> j' < n \<Longrightarrow> INDEX i j n = INDEX i' j' n \<longleftrightarrow> i = i' \<and> j = j'"
proof
  assume "j < n" "j' < n" "INDEX i j n = INDEX i' j' n"
  then have "n * i + j = n * i' + j'" by (simp add: INDEX_def)
  then have "(n * i + j) div n = (n * i' + j') div n" "(n * i + j) mod n = (n * i' + j') mod n" by simp_all
  then show "i = i' \<and> j = j'" using \<open>j < n\<close> \<open>j' < n\<close> by simp
qed simp

lemma table_upd:
  "length r = n * n \<Longrightarrow> i < n \<Longrightarrow> j < n \<Longrightarrow> j' < n \<Longrightarrow>
   r[INDEX i j n := x] ! INDEX i' j' n = (if i' = i \<and> j' = j then x else r ! INDEX i' j' n)"
  using INDEX_less [of i n j] INDEX_eq [of j n j' i i'] by (auto simp: nth_list_update)

lemma upt_last: "1 \<le> m \<Longrightarrow> [1..<Suc m] = [1..<m] @ [m]"
  by simp

section \<open>Walks\<close>

text \<open>A walk from \<open>k\<close> with its first step, its end and its cost.\<close>

inductive walk :: "(nat \<Rightarrow> nat \<Rightarrow> double) \<Rightarrow> nat \<Rightarrow> nat \<Rightarrow> nat \<Rightarrow> nat \<Rightarrow> double \<Rightarrow> bool" for c n where
  walk_edge: "k \<in> {1..<n} \<Longrightarrow> v \<in> {1..<n} \<Longrightarrow> c k v < INFINITY \<Longrightarrow> walk c n k v v (c k v)"
| walk_step: "walk c n k h u d \<Longrightarrow> w \<in> {1..<n} \<Longrightarrow> c u w < INFINITY \<Longrightarrow> walk c n k h w (d + c u w)"

lemma walk_ends: "walk c n k h v d \<Longrightarrow> k \<in> {1..<n} \<and> h \<in> {1..<n} \<and> v \<in> {1..<n} \<and> c k h < INFINITY"
  by (induction rule: walk.induct) auto

lemma walk_rest: "walk c n k h v d \<Longrightarrow> h = v \<and> d = c k h \<or> (\<exists>h'. walk c n h h' v (d - c k h))"
proof (induction rule: walk.induct)
  case (walk_step k h u d w)
  from walk_step.IH show ?case
  proof
    assume eq: "h = u \<and> d = c k h"
    have "walk c n h w w (c u w)" using walk_ends [OF walk_step.hyps(1)] walk_step.hyps(2,3) eq by (auto intro: walk_edge)
    then show ?case using eq by (intro disjI2 exI [of _ w]) simp
  next
    assume "\<exists>h'. walk c n h h' u (d - c k h)"
    then obtain h' where "walk c n h h' u (d - c k h)" by blast
    then have "walk c n h h' w (d - c k h + c u w)" by (rule walk.walk_step) (use walk_step.hyps(2,3) in auto)
    then show ?case by (intro disjI2 exI [of _ h']) (simp add: algebra_simps)
  qed
qed simp

lemma walk_pos: "walk c n k h v d \<Longrightarrow> \<forall>i \<in> {1..<n}. \<forall>j \<in> {1..<n}. 0 \<le> c i j \<Longrightarrow> 0 \<le> d"
proof (induction rule: walk.induct)
  case (walk_step k h u d w)
  then show ?case using walk_ends [OF walk_step.hyps(1)] by (simp add: add_nonneg_nonneg)
qed auto

section \<open>The loops\<close>

text \<open>The entries of row \<open>k\<close> only are written.\<close>

definition other_rows :: "nat \<Rightarrow> nat \<Rightarrow> route_entry list \<Rightarrow> route_entry list \<Rightarrow> bool" where
  "other_rows n k r r' \<longleftrightarrow> length r' = length r \<and> (\<forall>i j. i \<noteq> k \<and> j < n \<longrightarrow> r' ! INDEX i j n = r ! INDEX i j n)"

lemma other_rows_refl [simp]: "other_rows n k r r"
  by (simp add: other_rows_def)

lemma other_rows_trans: "other_rows n k r r' \<Longrightarrow> other_rows n k r' r'' \<Longrightarrow> other_rows n k r r''"
  by (simp add: other_rows_def)

lemma other_rows_upd:
  "length r = n * n \<Longrightarrow> k < n \<Longrightarrow> j < n \<Longrightarrow> other_rows n k r (r[INDEX k j n := x])"
  by (simp add: other_rows_def table_upd)

lemma first_hops_ok:
  fixes a :: "adj_entry list"
  assumes len: "length (rtab S) = n * n" and k: "1 \<le> k" "k < n" and par: "parent S = (\<lambda>v. v)"
  defines "T \<equiv> first_hops a n k S"
  shows "parent T = (\<lambda>v. v)" and "other_rows n k (rtab S) (rtab T)"
    and "hopcnt T = (\<lambda>v. if 1 \<le> v \<and> v < n \<and> v \<noteq> k then ADJ a n k v else hopcnt S v)"
    and "v < n \<Longrightarrow> rtab T ! INDEX k v n =
      (if 1 \<le> v \<and> v \<noteq> k \<and> ADJ a n k v \<noteq> INFINITY then \<lparr>next_hop = v, rentry = ADJ_ENTRY a n k v\<rparr> else rtab S ! INDEX k v n)"
proof -
  define step where "step = (\<lambda>(S :: search) v. if parent S v \<noteq> k then
         let S1 = S\<lparr>hopcnt := (hopcnt S)(v := ADJ a n k v)\<rparr> in
         if hopcnt S1 v \<noteq> INFINITY then S1\<lparr>rtab := (rtab S1)[INDEX k v n := \<lparr>next_hop = v, rentry = ADJ_ENTRY a n k v\<rparr>]\<rparr>
         else S1
       else S)"
  have "parent (foldl step S [1..<m]) = (\<lambda>v. v) \<and> other_rows n k (rtab S) (rtab (foldl step S [1..<m]))
    \<and> hopcnt (foldl step S [1..<m]) = (\<lambda>v. if 1 \<le> v \<and> v < m \<and> v \<noteq> k then ADJ a n k v else hopcnt S v)
    \<and> (\<forall>v < n. rtab (foldl step S [1..<m]) ! INDEX k v n =
      (if 1 \<le> v \<and> v < m \<and> v \<noteq> k \<and> ADJ a n k v \<noteq> INFINITY then \<lparr>next_hop = v, rentry = ADJ_ENTRY a n k v\<rparr> else rtab S ! INDEX k v n))"
    if "1 \<le> m" "m \<le> n" for m
    using that
  proof (induction m rule: nat_induct_at_least)
    case base
    then show ?case using par by auto
  next
    case (Suc m)
    define U where "U = foldl step S [1..<m]"
    have IH: "parent U = (\<lambda>v. v)" "other_rows n k (rtab S) (rtab U)"
        "hopcnt U = (\<lambda>v. if 1 \<le> v \<and> v < m \<and> v \<noteq> k then ADJ a n k v else hopcnt S v)"
        "\<forall>v < n. rtab U ! INDEX k v n =
      (if 1 \<le> v \<and> v < m \<and> v \<noteq> k \<and> ADJ a n k v \<noteq> INFINITY then \<lparr>next_hop = v, rentry = ADJ_ENTRY a n k v\<rparr> else rtab S ! INDEX k v n)"
      using Suc by (auto simp: U_def)
    have lenU: "length (rtab U) = n * n" using IH(2) len by (simp add: other_rows_def)
    have m: "m < n" using Suc.prems by simp
    have st: "foldl step S [1..<Suc m] = step U m" using Suc.hyps by (simp add: U_def)
    consider (skip) "m = k" | (none) "m \<noteq> k" "ADJ a n k m = INFINITY" | (link) "m \<noteq> k" "ADJ a n k m \<noteq> INFINITY" by blast
    then show ?case
    proof cases
      case skip
      then have "step U m = U" using IH(1) by (simp add: step_def)
      then show ?thesis unfolding st using IH skip by (auto simp: fun_eq_iff less_Suc_eq)
    next
      case none
      then have "step U m = U\<lparr>hopcnt := (hopcnt U)(m := ADJ a n k m)\<rparr>" using IH(1) by (simp add: step_def)
      then show ?thesis unfolding st using IH none Suc.hyps by (auto simp: fun_eq_iff less_Suc_eq)
    next
      case link
      then have "step U m = U\<lparr>hopcnt := (hopcnt U)(m := ADJ a n k m),
          rtab := (rtab U)[INDEX k m n := \<lparr>next_hop = m, rentry = ADJ_ENTRY a n k m\<rparr>]\<rparr>" using IH(1) by (simp add: step_def)
      then show ?thesis unfolding st
        using IH link Suc.hyps k m other_rows_trans [OF IH(2) other_rows_upd [OF lenU k(2) m]]
        by (auto simp: table_upd [OF lenU] fun_eq_iff less_Suc_eq)
    qed
  qed
  from this [of n] k show "parent T = (\<lambda>v. v)" and "other_rows n k (rtab S) (rtab T)"
    and "hopcnt T = (\<lambda>v. if 1 \<le> v \<and> v < n \<and> v \<noteq> k then ADJ a n k v else hopcnt S v)"
    and "v < n \<Longrightarrow> rtab T ! INDEX k v n =
      (if 1 \<le> v \<and> v \<noteq> k \<and> ADJ a n k v \<noteq> INFINITY then \<lparr>next_hop = v, rentry = ADJ_ENTRY a n k v\<rparr> else rtab S ! INDEX k v n)"
    by (simp_all add: T_def first_hops_def step_def)
qed

lemma nearest_ok:
  assumes "1 \<le> n"
  shows "(nearest n k S = 0 \<or> 1 \<le> nearest n k S \<and> nearest n k S < n \<and> parent S (nearest n k S) \<noteq> k
      \<and> hopcnt S (nearest n k S) < hopcnt S 0)"
    and "\<And>w. 1 \<le> w \<Longrightarrow> w < n \<Longrightarrow> parent S w \<noteq> k \<Longrightarrow> hopcnt S (nearest n k S) \<le> hopcnt S w"
proof -
  define step where "step = (\<lambda>o' w. if parent S w \<noteq> k \<and> hopcnt S w < hopcnt S o' then w else o')"
  have *: "(let q = foldl step 0 [1..<m] in (q = 0 \<or> 1 \<le> q \<and> q < m \<and> parent S q \<noteq> k \<and> hopcnt S q < hopcnt S 0)
      \<and> (\<forall>w. 1 \<le> w \<and> w < m \<and> parent S w \<noteq> k \<longrightarrow> hopcnt S q \<le> hopcnt S w))" if "1 \<le> m" for m
    using that
  proof (induction m rule: nat_induct_at_least)
    case (Suc m)
    have "foldl step 0 [1..<Suc m] = step (foldl step 0 [1..<m]) m" using Suc.hyps by simp
    then show ?case using Suc by (auto simp: Let_def step_def less_Suc_eq)
  qed simp
  have "nearest n k S = foldl step 0 [1..<n]" by (simp add: nearest_def step_def)
  with * [OF assms] show "(nearest n k S = 0 \<or> 1 \<le> nearest n k S \<and> nearest n k S < n \<and> parent S (nearest n k S) \<noteq> k
      \<and> hopcnt S (nearest n k S) < hopcnt S 0)"
    and "\<And>w. 1 \<le> w \<Longrightarrow> w < n \<Longrightarrow> parent S w \<noteq> k \<Longrightarrow> hopcnt S (nearest n k S) \<le> hopcnt S w"
    by (auto simp: Let_def)
qed

lemma relax_ok:
  fixes a :: "adj_entry list"
  assumes len: "length (rtab S) = n * n" and k: "1 \<le> k" "k < n" and u: "1 \<le> u" "u < n" "parent S u = k"
  defines "T \<equiv> relax a n k u S"
    and "better \<equiv> \<lambda>w. 1 \<le> w \<and> w < n \<and> parent S w \<noteq> k \<and> hopcnt S u + ADJ a n u w < hopcnt S w"
  shows "parent T = parent S" and "other_rows n k (rtab S) (rtab T)"
    and "hopcnt T = (\<lambda>w. if better w then hopcnt S u + ADJ a n u w else hopcnt S w)"
    and "w < n \<Longrightarrow> rtab T ! INDEX k w n = (if better w then rtab S ! INDEX k u n else rtab S ! INDEX k w n)"
proof -
  define step where "step = (\<lambda>(S :: search) w. if parent S w \<noteq> k \<and> hopcnt S u + ADJ a n u w < hopcnt S w then
         S\<lparr>rtab := (rtab S)[INDEX k w n := rtab S ! INDEX k u n], hopcnt := (hopcnt S)(w := hopcnt S u + ADJ a n u w)\<rparr>
       else S)"
  have nu: "\<not> better u" using u by (simp add: better_def)
  have "parent (foldl step S [1..<m]) = parent S \<and> other_rows n k (rtab S) (rtab (foldl step S [1..<m]))
    \<and> hopcnt (foldl step S [1..<m]) = (\<lambda>w. if w < m \<and> better w then hopcnt S u + ADJ a n u w else hopcnt S w)
    \<and> (\<forall>w < n. rtab (foldl step S [1..<m]) ! INDEX k w n
        = (if w < m \<and> better w then rtab S ! INDEX k u n else rtab S ! INDEX k w n))"
    if "1 \<le> m" "m \<le> n" for m
    using that
  proof (induction m rule: nat_induct_at_least)
    case base
    then show ?case by (auto simp: better_def fun_eq_iff)
  next
    case (Suc m)
    define U where "U = foldl step S [1..<m]"
    have IH: "parent U = parent S" "other_rows n k (rtab S) (rtab U)"
        "hopcnt U = (\<lambda>w. if w < m \<and> better w then hopcnt S u + ADJ a n u w else hopcnt S w)"
        "\<forall>w < n. rtab U ! INDEX k w n = (if w < m \<and> better w then rtab S ! INDEX k u n else rtab S ! INDEX k w n)"
      using Suc by (auto simp: U_def)
    have lenU: "length (rtab U) = n * n" using IH(2) len by (simp add: other_rows_def)
    have m: "m < n" using Suc.prems by simp
    have st: "foldl step S [1..<Suc m] = step U m" using Suc.hyps by (simp add: U_def)
    have hu: "hopcnt U u = hopcnt S u" "hopcnt U m = hopcnt S m" "rtab U ! INDEX k u n = rtab S ! INDEX k u n"
      using IH(3,4) nu u by auto
    show ?case
    proof (cases "better m")
      case True
      then have "step U m = U\<lparr>rtab := (rtab U)[INDEX k m n := rtab S ! INDEX k u n],
          hopcnt := (hopcnt U)(m := hopcnt S u + ADJ a n u m)\<rparr>"
        using hu IH(1) by (simp add: step_def better_def)
      then show ?thesis unfolding st
        using IH True k m other_rows_trans [OF IH(2) other_rows_upd [OF lenU k(2) m]]
        by (auto simp: table_upd [OF lenU] fun_eq_iff less_Suc_eq)
    next
      case False
      then have "step U m = U" using hu IH(1) m Suc.hyps by (auto simp: step_def better_def)
      then show ?thesis unfolding st using IH False by (auto simp: fun_eq_iff less_Suc_eq)
    qed
  qed
  from this [of n] k have *: "parent T = parent S" "other_rows n k (rtab S) (rtab T)"
      "hopcnt T = (\<lambda>w. if w < n \<and> better w then hopcnt S u + ADJ a n u w else hopcnt S w)"
      "\<forall>w < n. rtab T ! INDEX k w n = (if w < n \<and> better w then rtab S ! INDEX k u n else rtab S ! INDEX k w n)"
    by (simp_all add: T_def relax_def step_def)
  show "parent T = parent S" "other_rows n k (rtab S) (rtab T)" by (rule * (1,2))+
  show "hopcnt T = (\<lambda>w. if better w then hopcnt S u + ADJ a n u w else hopcnt S w)"
    using *(3) by (auto simp: better_def fun_eq_iff)
  show "w < n \<Longrightarrow> rtab T ! INDEX k w n = (if better w then rtab S ! INDEX k u n else rtab S ! INDEX k w n)"
    using *(4) by auto
qed

section \<open>The search from one source\<close>

definition costs_ok :: "(nat \<Rightarrow> nat \<Rightarrow> double) \<Rightarrow> nat \<Rightarrow> bool" where
  "costs_ok c n \<longleftrightarrow> (\<forall>i \<in> {1..<n}. \<forall>j \<in> {1..<n}. 0 \<le> c i j \<and> c i j \<le> INFINITY)"

definition nh :: "nat \<Rightarrow> nat \<Rightarrow> search \<Rightarrow> nat \<Rightarrow> route_entry" where
  "nh n k S w = rtab S ! INDEX k w n"

text \<open>What holds of a node that is not the source, and of one that is routed.\<close>

definition node_ok :: "adj_entry list \<Rightarrow> nat \<Rightarrow> nat \<Rightarrow> search \<Rightarrow> nat \<Rightarrow> bool" where
  "node_ok a n k S w \<longleftrightarrow> 0 \<le> hopcnt S w \<and> hopcnt S w \<le> INFINITY \<and> hopcnt S w \<le> ADJ a n k w
     \<and> (hopcnt S w < INFINITY \<longrightarrow> walk (ADJ a n) n k (next_hop (nh n k S w)) w (hopcnt S w)
          \<and> rentry (nh n k S w) = ADJ_ENTRY a n k (next_hop (nh n k S w)))
     \<and> (hopcnt S w = INFINITY \<longrightarrow> next_hop (nh n k S w) = 0)"

definition routed_ok :: "adj_entry list \<Rightarrow> nat \<Rightarrow> nat \<Rightarrow> search \<Rightarrow> nat \<Rightarrow> bool" where
  "routed_ok a n k S u \<longleftrightarrow> hopcnt S u < INFINITY
     \<and> (\<forall>w. 1 \<le> w \<and> w < n \<and> w \<noteq> k \<longrightarrow> hopcnt S w \<le> hopcnt S u + ADJ a n u w \<and> (parent S w \<noteq> k \<longrightarrow> hopcnt S u \<le> hopcnt S w))"

definition search_inv :: "adj_entry list \<Rightarrow> nat \<Rightarrow> nat \<Rightarrow> search \<Rightarrow> bool" where
  "search_inv a n k S \<longleftrightarrow> length (rtab S) = n * n \<and> parent S k = k
     \<and> (\<forall>w. 1 \<le> w \<and> w < n \<and> w \<noteq> k \<longrightarrow> node_ok a n k S w)
     \<and> (\<forall>u. 1 \<le> u \<and> u < n \<and> u \<noteq> k \<and> parent S u = k \<longrightarrow> routed_ok a n k S u)"

definition routed :: "nat \<Rightarrow> nat \<Rightarrow> search \<Rightarrow> nat set" where
  "routed n k S = {w. 1 \<le> w \<and> w < n \<and> parent S w = k}"

definition exhausted :: "nat \<Rightarrow> nat \<Rightarrow> search \<Rightarrow> bool" where
  "exhausted n k S \<longleftrightarrow> (\<forall>w. 1 \<le> w \<and> w < n \<and> parent S w \<noteq> k \<longrightarrow> hopcnt S w = INFINITY)"

lemma search_inv_cong:
  assumes "search_inv a n k S" and "k \<noteq> 0" and "rtab T = rtab S"
    and "\<And>w. 1 \<le> w \<Longrightarrow> hopcnt T w = hopcnt S w" and "\<And>w. 1 \<le> w \<Longrightarrow> parent T w = parent S w"
  shows "search_inv a n k T"
proof -
  have "1 \<le> k" using assms(2) by simp
  then show ?thesis using assms by (auto simp: search_inv_def node_ok_def routed_ok_def nh_def)
qed

lemma route_round_stop:
  assumes inv: "search_inv a n k S" and k: "1 \<le> k" "k < n" and n0: "nearest n k (S\<lparr>hopcnt := (hopcnt S)(0 := INFINITY)\<rparr>) = 0"
  defines "T \<equiv> route_round a n k S"
  shows "search_inv a n k T" and "rtab T = rtab S" and "exhausted n k T" and "routed n k T = routed n k S"
proof -
  let ?S1 = "S\<lparr>hopcnt := (hopcnt S)(0 := INFINITY)\<rparr>"
  have T: "T = ?S1\<lparr>parent := (parent S)(0 := k)\<rparr>" by (simp add: T_def route_round_def n0)
  show "search_inv a n k T" by (rule search_inv_cong [OF inv]) (use k in \<open>auto simp: T\<close>)
  show "rtab T = rtab S" and "routed n k T = routed n k S" by (auto simp: T routed_def)
  show "exhausted n k T" unfolding exhausted_def
  proof (intro allI impI)
    fix w
    assume w: "1 \<le> w \<and> w < n \<and> parent T w \<noteq> k"
    have "INFINITY \<le> hopcnt S w" using nearest_ok(2) [of n w ?S1 k] w k n0 by (auto simp: T)
    moreover have "w \<noteq> k" using w inv by (auto simp: search_inv_def T split: if_splits)
    ultimately show "hopcnt T w = INFINITY" using inv w by (auto simp: search_inv_def node_ok_def T)
  qed
qed

lemma exhausted_stops:
  assumes "search_inv a n k S" and "1 \<le> k" "k < n" and "exhausted n k S"
  shows "nearest n k (S\<lparr>hopcnt := (hopcnt S)(0 := INFINITY)\<rparr>) = 0"
  using nearest_ok(1) [of n k "S\<lparr>hopcnt := (hopcnt S)(0 := INFINITY)\<rparr>"] assms by (auto simp: exhausted_def)

lemma route_round_next:
  assumes inv: "search_inv a n k S" and costs: "costs_ok (ADJ a n) n" and k: "1 \<le> k" "k < n"
    and u: "nearest n k (S\<lparr>hopcnt := (hopcnt S)(0 := INFINITY)\<rparr>) = u" "u \<noteq> 0"
  defines "T \<equiv> route_round a n k S"
  shows "search_inv a n k T" and "other_rows n k (rtab S) (rtab T)" and "routed n k T = insert u (routed n k S)" and "u \<notin> routed n k S"
proof -
  let ?S1 = "S\<lparr>hopcnt := (hopcnt S)(0 := INFINITY)\<rparr>"
  define S2 where "S2 = ?S1\<lparr>parent := (parent S)(u := k)\<rparr>"
  have T: "T = relax a n k u S2" using u by (simp add: T_def route_round_def S2_def)
  have un: "1 \<le> u" "u < n" "parent S u \<noteq> k" "hopcnt S u < INFINITY"
    using nearest_ok(1) [of n k ?S1] u k by auto
  have least: "hopcnt S u \<le> hopcnt S w" if "1 \<le> w" "w < n" "parent S w \<noteq> k" for w
    using nearest_ok(2) [of n w ?S1 k] that k u by auto
  have pk: "parent S k = k" and len: "length (rtab S) = n * n" using inv by (simp_all add: search_inv_def)
  have uk: "u \<noteq> k" using un(3) pk by auto
  have node: "node_ok a n k S w" if "1 \<le> w" "w < n" "w \<noteq> k" for w using inv that by (simp add: search_inv_def)
  have settled: "routed_ok a n k S w" if "1 \<le> w" "w < n" "w \<noteq> k" "parent S w = k" for w using inv that by (simp add: search_inv_def)
  have S2: "length (rtab S2) = n * n" "parent S2 u = k" using len by (simp_all add: S2_def)
  define better where "better = (\<lambda>w. 1 \<le> w \<and> w < n \<and> w \<noteq> u \<and> parent S w \<noteq> k \<and> hopcnt S u + ADJ a n u w < hopcnt S w)"
  note r = relax_ok [OF S2(1) k un(1,2) S2(2), where a = a, folded T]
  have par: "parent T = (parent S)(u := k)" using r(1) by (simp add: S2_def)
  have hop: "hopcnt T w = (if better w then hopcnt S u + ADJ a n u w else hopcnt S w)" if "1 \<le> w" for w
    using that un k unfolding r(3) by (auto simp: S2_def better_def)
  have nhT: "nh n k T w = (if better w then nh n k S u else nh n k S w)" if "1 \<le> w" "w < n" for w
    using r(4) [OF that(2)] that un by (auto simp: S2_def better_def nh_def)
  have c: "0 \<le> ADJ a n u w" "ADJ a n u w \<le> INFINITY" if "1 \<le> w" "w < n" for w using costs un that by (auto simp: costs_ok_def)
  have pos: "0 \<le> hopcnt S w" "hopcnt S w \<le> INFINITY" if "1 \<le> w" "w < n" "w \<noteq> k" for w using node [OF that] by (simp_all add: node_ok_def)
  have hu: "hopcnt T u = hopcnt S u" using hop [OF un(1)] by (simp add: better_def)
  have le: "hopcnt T w \<le> hopcnt S w" if "1 \<le> w" for w using hop [OF that] by (auto simp: better_def)
  have ge: "hopcnt S u \<le> hopcnt T w" if "1 \<le> w" "w < n" "parent S w \<noteq> k" for w
    using hop [OF that(1)] least [OF that] c [OF that(1,2)] by (auto simp: better_def)
  show "other_rows n k (rtab S) (rtab T)" using r(2) by (simp add: S2_def)
  show "routed n k T = insert u (routed n k S)" using un by (auto simp: routed_def par)
  show "u \<notin> routed n k S" using un(3) by (simp add: routed_def)
  have "node_ok a n k T w" if w: "1 \<le> w" "w < n" "w \<noteq> k" for w
  proof (cases "better w")
    case True
    have nu: "walk (ADJ a n) n k (next_hop (nh n k S u)) u (hopcnt S u)" "rentry (nh n k S u) = ADJ_ENTRY a n k (next_hop (nh n k S u))"
      using node [OF un(1,2) uk] un(4) by (simp_all add: node_ok_def)
    have lt: "hopcnt S u + ADJ a n u w < INFINITY" using True pos [OF w] by (simp add: better_def)
    then have "ADJ a n u w < INFINITY" using pos [OF un(1,2) uk] by simp
    then have "walk (ADJ a n) n k (next_hop (nh n k S u)) w (hopcnt S u + ADJ a n u w)"
      by (intro walk_step [OF nu(1)]) (use w in simp_all)
    moreover have "hopcnt S u + ADJ a n u w \<le> ADJ a n k w" using True node [OF w] by (simp add: better_def node_ok_def)
    ultimately show ?thesis using True hop [OF w(1)] nhT [OF w(1,2)] nu(2) lt pos(1) [OF un(1,2) uk] c(1) [OF w(1,2)]
      by (simp add: node_ok_def)
  next
    case False
    then show ?thesis using hop [OF w(1)] nhT [OF w(1,2)] node [OF w] by (simp add: node_ok_def)
  qed
  moreover have "routed_ok a n k T v" if v: "1 \<le> v" "v < n" "v \<noteq> k" "parent T v = k" for v
  proof (cases "v = u")
    case True
    have "hopcnt T w \<le> hopcnt S u + ADJ a n u w" if w: "1 \<le> w" "w < n" "w \<noteq> k" for w
    proof (cases "parent S w = k")
      case True
      then have "hopcnt S w \<le> hopcnt S u" using settled [OF w] un uk by (auto simp: routed_ok_def)
      then show ?thesis using le [OF w(1)] c(1) [OF w(1,2)] by simp
    next
      case False
      then show ?thesis using hop [OF w(1)] w c(1) [OF w(1,2)] by (auto simp: better_def)
    qed
    then show ?thesis using True un(4) hu ge par by (auto simp: routed_ok_def)
  next
    case False
    then have ps: "parent S v = k" using v(4) par by simp
    note d = settled [OF v(1-3) ps]
    have hv: "hopcnt T v = hopcnt S v" using hop [OF v(1)] ps by (simp add: better_def)
    have "hopcnt S v \<le> hopcnt S u" using d un uk by (auto simp: routed_ok_def)
    then have "hopcnt S v \<le> hopcnt T w" if "1 \<le> w" "w < n" "parent S w \<noteq> k" for w using ge [OF that] by simp
    moreover have "hopcnt T w \<le> hopcnt S v + ADJ a n v w" if "1 \<le> w" "w < n" "w \<noteq> k" for w
      using d that le [OF that(1)] by (fastforce simp: routed_ok_def)
    ultimately show ?thesis using d hv par by (auto simp: routed_ok_def)
  qed
  moreover have "length (rtab T) = n * n" using r(2) S2(1) by (simp add: other_rows_def)
  ultimately show "search_inv a n k T" using pk uk par by (simp add: search_inv_def)
qed

lemma routed_card: "card (routed n k S) \<le> n - 1" and finite_routed [simp]: "finite (routed n k S)"
proof -
  have sub: "routed n k S \<subseteq> {1..<n}" by (auto simp: routed_def)
  then show "finite (routed n k S)" using finite_subset by blast
  show "card (routed n k S) \<le> n - 1" using card_mono [OF _ sub] by simp
qed

text \<open>Each round routes one more node until the others cannot be reached.\<close>

lemma rounds:
  assumes inv: "search_inv a n k S" and costs: "costs_ok (ADJ a n) n" and k: "1 \<le> k" "k < n"
  shows "search_inv a n k ((route_round a n k ^^ r) S) \<and> other_rows n k (rtab S) (rtab ((route_round a n k ^^ r) S))
    \<and> (exhausted n k ((route_round a n k ^^ r) S) \<or> r + card (routed n k S) \<le> card (routed n k ((route_round a n k ^^ r) S)))"
proof (induction r)
  case 0
  then show ?case using inv by simp
next
  case (Suc r)
  define T where "T = (route_round a n k ^^ r) S"
  have IH: "search_inv a n k T" "other_rows n k (rtab S) (rtab T)" "exhausted n k T \<or> r + card (routed n k S) \<le> card (routed n k T)"
    using Suc by (simp_all add: T_def)
  have eq: "(route_round a n k ^^ Suc r) S = route_round a n k T" by (simp add: T_def)
  show ?case
  proof (cases "nearest n k (T\<lparr>hopcnt := (hopcnt T)(0 := INFINITY)\<rparr>) = 0")
    case True
    then show ?thesis unfolding eq using route_round_stop [OF IH(1) k True] IH(2) by simp
  next
    case False
    note s = route_round_next [OF IH(1) costs k refl False]
    have "\<not> exhausted n k T" using exhausted_stops [OF IH(1) k] False by blast
    then show ?thesis unfolding eq using s IH(3) other_rows_trans [OF IH(2) s(2)] by simp
  qed
qed

lemma exhausted_optimal:
  assumes "walk (ADJ a n) n k h v d" and "search_inv a n k T" and "exhausted n k T" and "costs_ok (ADJ a n) n"
  shows "INFINITY \<le> d \<or> parent T v = k \<and> (v \<noteq> k \<longrightarrow> hopcnt T v \<le> d)"
  using assms
proof (induction rule: walk.induct)
  case (walk_edge k v)
  have "node_ok a n k T v" if "v \<noteq> k" using walk_edge that by (simp add: search_inv_def)
  moreover have "hopcnt T v = INFINITY" if "parent T v \<noteq> k" using walk_edge that by (simp add: exhausted_def)
  moreover have "parent T k = k" using walk_edge by (simp add: search_inv_def)
  ultimately show ?case using walk_edge.hyps(3) by (cases "v = k"; cases "parent T v = k") (auto simp: node_ok_def)
next
  case (walk_step k h u d w)
  note inv = walk_step.prems(1) and ex = walk_step.prems(2) and costs = walk_step.prems(3)
  have V: "k \<in> {1..<n}" "u \<in> {1..<n}" "w \<in> {1..<n}" using walk_ends [OF walk_step.hyps(1)] walk_step.hyps(2) by auto
  have c: "0 \<le> ADJ a n u w" using costs V by (simp add: costs_ok_def)
  have far: "INFINITY \<le> hopcnt T w" if "parent T w \<noteq> k" using ex V that by (simp add: exhausted_def)
  have pk: "parent T k = k" using inv by (simp add: search_inv_def)
  have d0: "0 \<le> d" using walk_pos [OF walk_step.hyps(1)] costs by (simp add: costs_ok_def)
  show ?case
  proof (cases "INFINITY \<le> d \<or> w = k")
    case True
    then show ?thesis using c pk by auto
  next
    case False
    then have u: "parent T u = k" "u \<noteq> k \<longrightarrow> hopcnt T u \<le> d" using walk_step.IH [OF inv ex costs] by simp_all
    have "hopcnt T w \<le> d + ADJ a n u w"
    proof (cases "u = k")
      case True
      have "node_ok a n k T w" using inv V False by (simp add: search_inv_def)
      then show ?thesis using True d0 by (simp add: node_ok_def)
    next
      case uk: False
      have "routed_ok a n k T u" using inv V u uk by (simp add: search_inv_def)
      then have "hopcnt T w \<le> hopcnt T u + ADJ a n u w" using V False by (simp add: routed_ok_def)
      then show ?thesis using u uk by simp
    qed
    then show ?thesis using far by fastforce
  qed
qed

text \<open>The first step of a cheapest walk.\<close>

definition first_step :: "(nat \<Rightarrow> nat \<Rightarrow> double) \<Rightarrow> nat \<Rightarrow> nat \<Rightarrow> nat \<Rightarrow> nat \<Rightarrow> bool" where
  "first_step c n k v h \<longleftrightarrow> (\<exists>d. walk c n k h v d \<and> d < INFINITY \<and> (\<forall>h' d'. walk c n k h' v d' \<longrightarrow> d \<le> d'))"

definition route_ok :: "adj_entry list \<Rightarrow> nat \<Rightarrow> nat \<Rightarrow> nat \<Rightarrow> route_entry \<Rightarrow> bool" where
  "route_ok a n k v r \<longleftrightarrow>
     (if next_hop r = 0 then \<forall>h d. walk (ADJ a n) n k h v d \<longrightarrow> INFINITY \<le> d
      else first_step (ADJ a n) n k v (next_hop r) \<and> rentry r = ADJ_ENTRY a n k (next_hop r))"

lemma route_source_ok:
  assumes len: "length (rtab S) = n * n" and zero: "\<forall>v < n. next_hop (rtab S ! INDEX k v n) = 0"
    and costs: "costs_ok (ADJ a n) n" and k: "1 \<le> k" "k < n"
  defines "T \<equiv> route_source a n S k"
  shows "other_rows n k (rtab S) (rtab T)"
    and "1 \<le> v \<Longrightarrow> v < n \<Longrightarrow> v \<noteq> k \<Longrightarrow> route_ok a n k v (rtab T ! INDEX k v n)"
proof -
  define S1 where "S1 = S\<lparr>parent := \<lambda>v. v\<rparr>"
  define F where "F = first_hops a n k S1"
  have "length (rtab S1) = n * n" "parent S1 = (\<lambda>v. v)" using len by (simp_all add: S1_def)
  note f = first_hops_ok [OF this(1) k this(2), where a = a, folded F_def]
  have c: "0 \<le> ADJ a n k w" "ADJ a n k w \<le> INFINITY" if "1 \<le> w" "w < n" for w using costs k that by (auto simp: costs_ok_def)
  have "node_ok a n k F w" if w: "1 \<le> w" "w < n" "w \<noteq> k" for w
    using f(3) f(4) [OF w(2)] c [OF w(1,2)] w k zero
    by (auto simp: node_ok_def nh_def S1_def intro: walk.walk_edge)
  then have inv: "search_inv a n k F" using f(1,2) len by (auto simp: search_inv_def other_rows_def S1_def)
  note r = rounds [OF inv costs k, of "n - 1"]
  have T: "T = (route_round a n k ^^ (n - 1)) F" by (simp add: T_def route_source_def F_def S1_def)
  show "other_rows n k (rtab S) (rtab T)"
    using other_rows_trans [OF f(2)] r by (simp add: T S1_def)
  have "k \<in> routed n k F" using f(1) k by (simp add: routed_def)
  then have "0 < card (routed n k F)" by (auto simp: card_gt_0_iff)
  then have "\<not> n - 1 + card (routed n k F) \<le> card (routed n k T)" using routed_card [of n k T] by simp
  then have ex: "exhausted n k T" and invT: "search_inv a n k T" using r by (simp_all add: T)
  assume v: "1 \<le> v" "v < n" "v \<noteq> k"
  have node: "node_ok a n k T v" using invT v by (simp add: search_inv_def)
  show "route_ok a n k v (rtab T ! INDEX k v n)"
  proof (cases "hopcnt T v = INFINITY")
    case True
    have "INFINITY \<le> d" if "walk (ADJ a n) n k h v d" for h d
      using exhausted_optimal [OF that invT ex costs] v True by auto
    then show ?thesis using node True by (simp add: route_ok_def node_ok_def nh_def)
  next
    case False
    then have lt: "hopcnt T v < INFINITY" using node by (simp add: node_ok_def)
    then have w: "walk (ADJ a n) n k (next_hop (nh n k T v)) v (hopcnt T v)" using node by (simp add: node_ok_def)
    moreover have "hopcnt T v \<le> d" if "walk (ADJ a n) n k h v d" for h d
      using exhausted_optimal [OF that invT ex costs] v lt by auto
    ultimately have "first_step (ADJ a n) n k v (next_hop (nh n k T v))" using lt by (auto simp: first_step_def)
    moreover have "next_hop (nh n k T v) \<noteq> 0" using walk_ends [OF w] by auto
    ultimately show ?thesis using node lt by (simp add: route_ok_def node_ok_def nh_def)
  qed
qed

section \<open>The table\<close>

lemma sources_ok:
  assumes costs: "costs_ok (ADJ a n) n" and "1 \<le> m" "m \<le> n"
    and len: "length (rtab S) = n * n" and zero: "\<forall>i v. i < n \<and> v < n \<longrightarrow> next_hop (rtab S ! INDEX i v n) = 0"
  defines "T \<equiv> foldl (route_source a n) S [1..<m]"
  shows "length (rtab T) = n * n \<and> (\<forall>k v. 1 \<le> k \<and> k < m \<and> 1 \<le> v \<and> v < n \<and> v \<noteq> k \<longrightarrow> route_ok a n k v (rtab T ! INDEX k v n))
    \<and> (\<forall>i v. m \<le> i \<and> i < n \<and> v < n \<longrightarrow> next_hop (rtab T ! INDEX i v n) = 0)"
  unfolding T_def using assms(2,3)
proof (induction m rule: nat_induct_at_least)
  case base
  then show ?case using len zero by simp
next
  case (Suc m)
  define U where "U = foldl (route_source a n) S [1..<m]"
  have st: "foldl (route_source a n) S [1..<Suc m] = route_source a n U m" using Suc.hyps by (simp add: U_def)
  have m: "m < n" "1 \<le> m" using Suc by simp_all
  have IH: "length (rtab U) = n * n"
      "\<forall>k v. 1 \<le> k \<and> k < m \<and> 1 \<le> v \<and> v < n \<and> v \<noteq> k \<longrightarrow> route_ok a n k v (rtab U ! INDEX k v n)"
      "\<forall>i v. m \<le> i \<and> i < n \<and> v < n \<longrightarrow> next_hop (rtab U ! INDEX i v n) = 0"
    using Suc m by (simp_all add: U_def)
  have "\<forall>v < n. next_hop (rtab U ! INDEX m v n) = 0" using IH(3) m by simp
  note r = route_source_ok [OF IH(1) this costs m(2,1)]
  show ?case unfolding st using IH r m by (auto simp: other_rows_def less_Suc_eq)
qed

lemma own_routes:
  assumes "length r = n * n" and "1 \<le> m" "m \<le> n"
  shows "length (foldl (own_route n) r [1..<m]) = n * n \<and> (\<forall>i j. i < n \<and> j < n \<longrightarrow> foldl (own_route n) r [1..<m] ! INDEX i j n
    = (if i = j \<and> 1 \<le> i \<and> i < m then \<lparr>next_hop = i, rentry = 0\<rparr> else r ! INDEX i j n))"
  using assms(2,3)
proof (induction m rule: nat_induct_at_least)
  case base
  then show ?case using assms(1) by simp
next
  case (Suc m)
  define U where "U = foldl (own_route n) r [1..<m]"
  have st: "foldl (own_route n) r [1..<Suc m] = own_route n U m" using Suc.hyps by (simp add: U_def)
  have IH: "length U = n * n" "\<forall>i j. i < n \<and> j < n \<longrightarrow> U ! INDEX i j n
    = (if i = j \<and> 1 \<le> i \<and> i < m then \<lparr>next_hop = i, rentry = 0\<rparr> else r ! INDEX i j n)" and m: "m < n"
    using Suc by (simp_all add: U_def)
  have "own_route n U m = U[INDEX m m n := \<lparr>next_hop = m, rentry = 0\<rparr>]" by (simp add: own_route_def)
  then show ?case unfolding st using IH m Suc.hyps by (auto simp: table_upd [OF IH(1) m m] less_Suc_eq)
qed

lemma route_table_ok:
  assumes costs: "costs_ok (ADJ a n) n"
  shows "length (route_table raw a n) = n * n"
    and "1 \<le> k \<Longrightarrow> k < n \<Longrightarrow> 1 \<le> v \<Longrightarrow> v < n \<Longrightarrow> v \<noteq> k \<Longrightarrow> route_ok a n k v (route_table raw a n ! INDEX k v n)"
    and "1 \<le> k \<Longrightarrow> k < n \<Longrightarrow> next_hop (route_table raw a n ! INDEX k k n) = k"
proof -
  define S where "S = \<lparr>hopcnt = raw, parent = \<lambda>v. v, rtab = replicate (n * n) \<lparr>next_hop = 0, rentry = 0\<rparr>\<rparr>"
  have S: "length (rtab S) = n * n" "\<forall>i v. i < n \<and> v < n \<longrightarrow> next_hop (rtab S ! INDEX i v n) = 0"
    by (simp_all add: S_def INDEX_less)
  define R where "R = rtab (foldl (route_source a n) S [1..<n])"
  have eq: "route_table raw a n = foldl (own_route n) R [1..<n]" by (simp add: route_table_def R_def S_def)
  have all: "length (foldl (own_route n) R [1..<n]) = n * n
    \<and> (\<forall>k v. 1 \<le> k \<and> k < n \<and> 1 \<le> v \<and> v < n \<and> v \<noteq> k \<longrightarrow> route_ok a n k v (foldl (own_route n) R [1..<n] ! INDEX k v n))
    \<and> (\<forall>k. 1 \<le> k \<and> k < n \<longrightarrow> next_hop (foldl (own_route n) R [1..<n] ! INDEX k k n) = k)"
  proof (cases "1 \<le> n")
    case True
    note s = sources_ok [OF costs True order_refl S, folded R_def]
    note o = own_routes [of R n n, OF _ True order_refl]
    show ?thesis using s o by simp
  next
    case False
    then show ?thesis by (simp add: R_def S_def)
  qed
  then show "length (route_table raw a n) = n * n"
    and "1 \<le> k \<Longrightarrow> k < n \<Longrightarrow> 1 \<le> v \<Longrightarrow> v < n \<Longrightarrow> v \<noteq> k \<Longrightarrow> route_ok a n k v (route_table raw a n ! INDEX k v n)"
    and "1 \<le> k \<Longrightarrow> k < n \<Longrightarrow> next_hop (route_table raw a n ! INDEX k k n) = k"
    by (simp_all add: eq)
qed

section \<open>The table of links\<close>

definition table_ok :: "RouteLogic \<Rightarrow> bool" where
  "table_ok L \<longleftrightarrow> (case adj L of None \<Rightarrow> rsize L = 0 | Some a \<Rightarrow> length a = rsize L * rsize L)"

text \<open>The cost of a link; nodes beyond the table have none.\<close>

definition link_cost :: "RouteLogic \<Rightarrow> nat \<Rightarrow> nat \<Rightarrow> double" where
  "link_cost L i j = (case adj L of None \<Rightarrow> INFINITY
     | Some a \<Rightarrow> if i < rsize L \<and> j < rsize L then ADJ a (rsize L) i j else INFINITY)"

lemma table_upd_adj:
  "length (r :: adj_entry list) = n * n \<Longrightarrow> i < n \<Longrightarrow> j < n \<Longrightarrow> j' < n \<Longrightarrow>
   r[INDEX i j n := x] ! INDEX i' j' n = (if i' = i \<and> j' = j then x else r ! INDEX i' j' n)"
  using INDEX_less [of i n j] INDEX_eq [of j n j' i i'] by (auto simp: nth_list_update)

lemma grow_ok: "0 < m \<Longrightarrow> m \<le> grow m n \<and> n < grow m n"
proof (induction m n rule: grow.induct)
  case (1 m n)
  show ?case
  proof (cases "m \<le> n")
    case True
    then have "2 * m \<le> grow (2 * m) n \<and> n < grow (2 * m) n" using 1 by simp
    then show ?thesis using 1(2) True by (simp add: grow.simps [of m n])
  next
    case False
    then show ?thesis by (simp add: grow.simps [of m n])
  qed
qed

lemma copy_row:
  fixes a old :: "adj_entry list" and osize :: nat
  assumes "length a = m * m" and "i < m" and "q \<le> m"
  defines "b \<equiv> foldl (\<lambda>a j. a[INDEX i j m := (a ! INDEX i j m)\<lparr>cost := cost (old ! INDEX i j osize)\<rparr>]) a [0..<q]"
  shows "length b = m * m \<and> (\<forall>i' j'. i' < m \<and> j' < m \<longrightarrow> b ! INDEX i' j' m
    = (if i' = i \<and> j' < q then (a ! INDEX i' j' m)\<lparr>cost := cost (old ! INDEX i j' osize)\<rparr> else a ! INDEX i' j' m))"
  unfolding b_def using assms(3)
proof (induction q)
  case (Suc q)
  define U where "U = foldl (\<lambda>a j. a[INDEX i j m := (a ! INDEX i j m)\<lparr>cost := cost (old ! INDEX i j osize)\<rparr>]) a [0..<q]"
  have IH: "length U = m * m" "\<forall>i' j'. i' < m \<and> j' < m \<longrightarrow> U ! INDEX i' j' m
    = (if i' = i \<and> j' < q then (a ! INDEX i' j' m)\<lparr>cost := cost (old ! INDEX i j' osize)\<rparr> else a ! INDEX i' j' m)"
    and q: "q < m" using Suc by (simp_all add: U_def)
  have "U ! INDEX i q m = a ! INDEX i q m" using IH(2) assms(2) q by simp
  then show ?case using IH assms(2) q
    by (auto simp: U_def [symmetric] table_upd_adj [OF IH(1) assms(2) q] less_Suc_eq)
qed (use assms in simp)

lemma copy_costs_rows:
  fixes a old :: "adj_entry list"
  assumes "length a = m * m" and "osize \<le> m" and "p \<le> osize"
  defines "b \<equiv> foldl (\<lambda>a i. foldl (\<lambda>a j. a[INDEX i j m := (a ! INDEX i j m)\<lparr>cost := cost (old ! INDEX i j osize)\<rparr>]) a [0..<osize]) a [0..<p]"
  shows "length b = m * m \<and> (\<forall>i' j'. i' < m \<and> j' < m \<longrightarrow> b ! INDEX i' j' m
    = (if i' < p \<and> j' < osize then (a ! INDEX i' j' m)\<lparr>cost := cost (old ! INDEX i' j' osize)\<rparr> else a ! INDEX i' j' m))"
  unfolding b_def using assms(3)
proof (induction p)
  case (Suc p)
  define U where "U = foldl (\<lambda>a i. foldl (\<lambda>a j. a[INDEX i j m := (a ! INDEX i j m)\<lparr>cost := cost (old ! INDEX i j osize)\<rparr>]) a [0..<osize]) a [0..<p]"
  have IH: "length U = m * m" "\<forall>i' j'. i' < m \<and> j' < m \<longrightarrow> U ! INDEX i' j' m
    = (if i' < p \<and> j' < osize then (a ! INDEX i' j' m)\<lparr>cost := cost (old ! INDEX i' j' osize)\<rparr> else a ! INDEX i' j' m)"
    and p: "p < m" using Suc assms(2) by (simp_all add: U_def)
  note row = copy_row [OF IH(1) p assms(2), where old = old and osize = osize]
  show ?case using row IH(2) p by (auto simp: U_def [symmetric] less_Suc_eq)
qed (use assms in simp)

lemma check_ok:
  assumes "table_ok L"
  shows "table_ok (check n L)" and "n < rsize (check n L)" and "rsize L \<le> rsize (check n L)" and "link_cost (check n L) = link_cost L"
    and "adj (check n L) \<noteq> None" and "routes (check n L) = routes L"
proof -
  have "table_ok (check n L) \<and> n < rsize (check n L) \<and> rsize L \<le> rsize (check n L) \<and> link_cost (check n L) = link_cost L
    \<and> adj (check n L) \<noteq> None \<and> routes (check n L) = routes L"
  proof (cases "n < rsize L")
    case True
    then show ?thesis using assms by (auto simp: check_def table_ok_def split: option.splits)
  next
    case False
    define old where "old = (case adj L of None \<Rightarrow> [] | Some a \<Rightarrow> a)"
    define m where "m = grow (if rsize L = 0 then 16 else rsize L) n"
    have m: "rsize L \<le> m" "n < m" using grow_ok [of "if rsize L = 0 then 16 else rsize L" n] by (auto simp: m_def split: if_splits)
    let ?z = "replicate (m * m) \<lparr>cost = INFINITY, aentry = 0\<rparr>"
    have eq: "check n L = L\<lparr>rsize := m, adj := Some (copy_costs old (rsize L) m ?z)\<rparr>"
      using False by (simp add: check_def alloc_def Let_def old_def m_def)
    have c: "length (copy_costs old (rsize L) m ?z) = m * m" "\<forall>i j. i < m \<and> j < m \<longrightarrow> copy_costs old (rsize L) m ?z ! INDEX i j m
      = (if i < rsize L \<and> j < rsize L then (?z ! INDEX i j m)\<lparr>cost := cost (old ! INDEX i j (rsize L))\<rparr> else ?z ! INDEX i j m)"
      using copy_costs_rows [where a = ?z and m = m and osize = "rsize L" and p = "rsize L" and old = old] m by (simp_all add: copy_costs_def)
    have "link_cost (check n L) i j = link_cost L i j" for i j
      using c(2) m assms INDEX_less [of i m j]
      by (auto simp: eq link_cost_def ADJ_def old_def table_ok_def split: option.splits)
    then show ?thesis using c(1) m by (auto simp: eq table_ok_def fun_eq_iff)
  qed
  then show "table_ok (check n L)" and "n < rsize (check n L)" and "rsize L \<le> rsize (check n L)" and "link_cost (check n L) = link_cost L"
    and "adj (check n L) \<noteq> None" and "routes (check n L) = routes L" by simp_all
qed

lemma set_adj_ok:
  assumes "table_ok L" and "adj L \<noteq> None" and "i < rsize L" and "j < rsize L"
  shows "\<exists>L'. set_adj i j f L = Inr L' \<and> table_ok L' \<and> rsize L' = rsize L \<and> routes L' = routes L
    \<and> ((\<forall>x. cost (f x) = c) \<longrightarrow> link_cost L' = (link_cost L)(i := (link_cost L i)(j := c)))"
proof -
  obtain a where a: "adj L = Some a" "length a = rsize L * rsize L" using assms by (auto simp: table_ok_def)
  define L' where "L' = L\<lparr>adj := Some (a[INDEX i j (rsize L) := f (a ! INDEX i j (rsize L))])\<rparr>"
  have "set_adj i j f L = Inr L'" using a INDEX_less [OF assms(3,4)] by (simp add: set_adj_def L'_def Let_def derefE_def)
  moreover have "table_ok L' \<and> rsize L' = rsize L \<and> routes L' = routes L" using a by (simp add: L'_def table_ok_def)
  moreover have "link_cost L' = (link_cost L)(i := (link_cost L i)(j := c))" if "\<forall>x. cost (f x) = c"
    using that a assms(3,4) table_upd_adj [OF a(2) assms(3,4)]
    by (auto simp: L'_def link_cost_def fun_eq_iff ADJ_def)
  ultimately show ?thesis by blast
qed

lemma insert_ok:
  assumes "table_ok L"
  shows "\<exists>L'. insert_link s d c L = Inr L' \<and> table_ok L' \<and> s < rsize L' \<and> d < rsize L' \<and> rsize L \<le> rsize L' \<and> routes L' = routes L
    \<and> link_cost L' = (link_cost L)(s := (link_cost L s)(d := c))"
proof -
  note 1 = check_ok [OF assms, of s]
  note 2 = check_ok [OF 1(1), of d]
  have "s < rsize (check d (check s L))" using 1(2) 2(3) by simp
  from set_adj_ok [OF 2(1) 2(5) this 2(2), of "\<lambda>x. x\<lparr>cost := c\<rparr>" c] show ?thesis
    using 1 2 by (auto simp: insert_link_def)
qed

text \<open>C39. Inserting a link grows the table as far as needed and sets exactly the cost of that link: every other cost,
  also of nodes the table did not have before, is what it was. Resetting a link makes exactly its cost \<^verbatim>\<open>INFINITY\<close>,
  and fails for nodes beyond the table.\<close>

theorem link_table_is_map:
  assumes "table_ok L"
  shows "(\<exists>L'. insert_link s d c L = Inr L' \<and> table_ok L' \<and> s < rsize L' \<and> d < rsize L'
      \<and> link_cost L' = (link_cost L)(s := (link_cost L s)(d := c)))
    \<and> (if s < rsize L \<and> d < rsize L
       then \<exists>L'. reset_link s d L = Inr L' \<and> table_ok L' \<and> link_cost L' = (link_cost L)(s := (link_cost L s)(d := INFINITY))
       else \<exists>msg. reset_link s d L = Inl (AssertFailed msg))"
proof
  show "\<exists>L'. insert_link s d c L = Inr L' \<and> table_ok L' \<and> s < rsize L' \<and> d < rsize L'
      \<and> link_cost L' = (link_cost L)(s := (link_cost L s)(d := c))"
    using insert_ok [OF assms, of s d c] by blast
  show "if s < rsize L \<and> d < rsize L
       then \<exists>L'. reset_link s d L = Inr L' \<and> table_ok L' \<and> link_cost L' = (link_cost L)(s := (link_cost L s)(d := INFINITY))
       else \<exists>msg. reset_link s d L = Inl (AssertFailed msg)"
  proof (cases "s < rsize L \<and> d < rsize L")
    case True
    then have "adj L \<noteq> None" using assms by (auto simp: table_ok_def split: option.splits)
    from set_adj_ok [OF assms this, of s d "\<lambda>x. x\<lparr>cost := INFINITY\<rparr>" INFINITY] show ?thesis
      using True by (auto simp: reset_link_def)
  qed (auto simp: reset_link_def)
qed

lemma new_table_ok: "table_ok new_RouteLogic" and new_link_cost [simp]: "link_cost new_RouteLogic = (\<lambda>_ _. INFINITY)"
  by (simp_all add: table_ok_def new_RouteLogic_def link_cost_def fun_eq_iff)

theorem link_table_is_map_witness:
  "\<exists>L'. insert_link 1 40 3 new_RouteLogic = Inr L' \<and> 40 < rsize L' \<and> link_cost L' 1 40 = 3 \<and> link_cost L' 40 1 = INFINITY"
  using link_table_is_map [OF new_table_ok, of 1 40 3] by auto

section \<open>Lookups\<close>

lemma walk_mono: "walk c n k h v d \<Longrightarrow> \<forall>i \<in> {1..<n}. \<forall>j \<in> {1..<n}. c' i j = c i j \<Longrightarrow> walk c' n k h v d"
proof (induction rule: walk.induct)
  case (walk_edge k v)
  then show ?case using walk.walk_edge [of k n v c'] by simp
next
  case (walk_step k h u d w)
  then have "c' u w = c u w" using walk_ends [OF walk_step.hyps(1)] by simp
  then show ?case using walk.walk_step [of c' n k h u d w] walk_step by simp
qed

lemma walk_cong: "\<forall>i \<in> {1..<n}. \<forall>j \<in> {1..<n}. c' i j = c i j \<Longrightarrow> walk c' n = walk c n"
  using walk_mono [of c n _ _ _ _ c'] walk_mono [of c' n _ _ _ _ c] by (intro ext iffI) auto

definition cheapest_hop :: "(nat \<Rightarrow> nat \<Rightarrow> double) \<Rightarrow> nat \<Rightarrow> nat \<Rightarrow> nat \<Rightarrow> int \<Rightarrow> bool" where
  "cheapest_hop c n s d h \<longleftrightarrow>
     (if h = -1 then \<forall>g x. walk c n (s + 1) g (d + 1) x \<longrightarrow> INFINITY \<le> x
      else 0 \<le> h \<and> first_step c n (s + 1) (d + 1) (nat h + 1))"

lemma compute_total: "table_ok L \<Longrightarrow> \<exists>r. compute_routes raw L = Inr (L\<lparr>routes := Some r\<rparr>)"
  by (auto simp: compute_routes_def table_ok_def split: option.splits)

lemma lookup_ok:
  assumes L: "table_ok L" and costs: "costs_ok (link_cost L) (rsize L)" and comp: "compute_routes raw L = Inr L'"
    and s: "s + 1 < rsize L" and d: "d + 1 < rsize L"
  shows "\<exists>h. lookup_flat (int s) (int d) L' = Inr h \<and> (if s = d then h = int s else cheapest_hop (link_cost L) (rsize L) s d h)"
proof -
  define n where "n = rsize L"
  obtain a where a: "adj L = Some a" using L s by (auto simp: table_ok_def split: option.splits)
  have n: "s + 1 < n" "d + 1 < n" "\<not> n \<le> 1" using s d by (simp_all add: n_def)
  have eq: "\<forall>i \<in> {1..<n}. \<forall>j \<in> {1..<n}. link_cost L i j = ADJ a n i j" by (simp add: link_cost_def a n_def)
  then have c: "costs_ok (ADJ a n) n" using costs by (simp add: costs_ok_def n_def)
  note w = walk_cong [OF eq]
  define r where "r = route_table raw a n"
  have L': "L' = L\<lparr>routes := Some r\<rparr>" using comp a n by (simp add: compute_routes_def r_def n_def)
  have len: "length r = n * n" using route_table_ok(1) [OF c] by (simp add: r_def)
  have i: "INDEX (s + 1) (d + 1) n < n * n" by (rule INDEX_less) (use n in auto)
  have p: "int n * (int s + 1) + (int d + 1) = int (INDEX (s + 1) (d + 1) n)" by (simp add: INDEX_def algebra_simps)
  have j: "int (INDEX (s + 1) (d + 1) n) < int n * int n" using i by (metis of_nat_less_iff of_nat_mult)
  have look: "lookup_flat (int s) (int d) L' = Inr (int (next_hop (r ! INDEX (s + 1) (d + 1) n)) - 1)"
    using n i j len p unfolding n_def [symmetric] by (simp add: L' lookup_flat_def n_def [symmetric] Let_def)
  show ?thesis
  proof (cases "s = d")
    case True
    then show ?thesis using look route_table_ok(3) [OF c, of "s + 1" raw] n by (simp add: r_def)
  next
    case False
    then have "route_ok a n (s + 1) (d + 1) (r ! INDEX (s + 1) (d + 1) n)"
      using route_table_ok(2) [OF c, of "s + 1" "d + 1" raw] n by (simp add: r_def)
    moreover have "nat (int h - 1) + 1 = h" if "h \<noteq> 0" for h using that by simp
    ultimately have "cheapest_hop (link_cost L) n s d (int (next_hop (r ! INDEX (s + 1) (d + 1) n)) - 1)"
      using w by (auto simp: cheapest_hop_def route_ok_def first_step_def split: if_splits)
    then show ?thesis using look False by (simp add: n_def)
  qed
qed

text \<open>C11. When the costs of links lie between 0 and \<^verbatim>\<open>INFINITY\<close>, the route that the lookup finds after \<^verbatim>\<open>compute_routes\<close> is the first step of a walk of least cost from the
  source to the destination, and it is -1 exactly if every walk costs at least \<^verbatim>\<open>INFINITY\<close>; a node's route to itself
  is itself. The computation always succeeds, and what the array \<^verbatim>\<open>hopcnt\<close> holds initially does not matter.\<close>

theorem lookup_is_first_step:
  assumes "table_ok L" and "costs_ok (link_cost L) (rsize L)" and "s + 1 < rsize L" and "d + 1 < rsize L"
  shows "\<exists>L' h. compute_routes raw L = Inr L' \<and> lookup_flat (int s) (int d) L' = Inr h
    \<and> (if s = d then h = int s else cheapest_hop (link_cost L) (rsize L) s d h)"
  using compute_total [OF assms(1), of raw] lookup_ok [OF assms(1,2) _ assms(3,4), of raw] by blast

lemma lookup_is_first_step_witness:
  "\<exists>L L'. insert_link 1 2 3 new_RouteLogic = Inr L \<and> compute_routes (\<lambda>_. 0) L = Inr L' \<and> lookup_flat 0 1 L' = Inr 1"
proof -
  from insert_ok [OF new_table_ok, of 1 2 3] obtain L where L: "insert_link 1 2 3 new_RouteLogic = Inr L" "table_ok L"
      "2 < rsize L" "link_cost L = (\<lambda>_ _. INFINITY)(1 := (\<lambda>_. INFINITY)(2 := 3))" by auto
  have c: "costs_ok (link_cost L) (rsize L)" by (auto simp: costs_ok_def L(4) INFINITY_def)
  from lookup_is_first_step [OF L(2) c, of 0 1 "\<lambda>_. 0"] L(3) obtain L' h where L': "compute_routes (\<lambda>_. 0) L = Inr L'"
      "lookup_flat 0 1 L' = Inr h" "cheapest_hop (link_cost L) (rsize L) 0 1 h" by auto
  have "walk (link_cost L) (rsize L) 1 2 2 (link_cost L 1 2)" by (rule walk_edge) (use L in \<open>auto simp: INFINITY_def\<close>)
  then have w: "walk (link_cost L) (rsize L) 1 2 2 3" by (simp add: L(4))
  have "h \<noteq> -1"
  proof
    assume "h = -1"
    then have "\<forall>g x. walk (link_cost L) (rsize L) 1 g 2 x \<longrightarrow> INFINITY \<le> x" using L'(3) by (simp add: cheapest_hop_def numeral_2_eq_2)
    with w show False by (fastforce simp: INFINITY_def)
  qed
  then obtain x where "0 \<le> h" "walk (link_cost L) (rsize L) 1 (nat h + 1) 2 x"
    using L'(3) by (auto simp: cheapest_hop_def first_step_def numeral_2_eq_2)
  then have "h = 1" using walk_ends [of "link_cost L" "rsize L" 1 "nat h + 1" 2 x] by (auto simp: L(4) split: if_splits)
  then show ?thesis using L(1) L'(1,2) by blast
qed

section \<open>Forwarding\<close>

lemma descend:
  fixes \<mu> :: "'a \<Rightarrow> rat"
  assumes A: "finite A" and step: "\<And>k. k \<in> A \<Longrightarrow> P k \<Longrightarrow> k \<noteq> v \<Longrightarrow> f k \<in> A \<and> P (f k) \<and> \<mu> (f k) < \<mu> k"
  shows "k \<in> A \<Longrightarrow> P k \<Longrightarrow> \<exists>m \<le> card {u \<in> A. \<mu> u < \<mu> k}. (f ^^ m) k = v"
proof (induction "card {u \<in> A. \<mu> u < \<mu> k}" arbitrary: k rule: less_induct)
  case less
  show ?case
  proof (cases "k = v")
    case False
    note s = step [OF less.prems False]
    have "{u \<in> A. \<mu> u < \<mu> (f k)} \<subset> {u \<in> A. \<mu> u < \<mu> k}" using s by auto
    then have lt: "card {u \<in> A. \<mu> u < \<mu> (f k)} < card {u \<in> A. \<mu> u < \<mu> k}" using A by (intro psubset_card_mono) auto
    from less.hyps [OF this] s obtain m where "m \<le> card {u \<in> A. \<mu> u < \<mu> (f k)}" "(f ^^ m) (f k) = v" by blast
    then show ?thesis using lt by (intro exI [of _ "Suc m"]) (simp add: funpow_swap1)
  qed (auto intro: exI [of _ 0])
qed

text \<open>The least cost of a walk to \<open>v\<close>.\<close>

definition least_cost :: "(nat \<Rightarrow> nat \<Rightarrow> double) \<Rightarrow> nat \<Rightarrow> nat \<Rightarrow> nat \<Rightarrow> double \<Rightarrow> bool" where
  "least_cost c n v k x \<longleftrightarrow> (\<exists>h. walk c n k h v x) \<and> (\<forall>h y. walk c n k h v y \<longrightarrow> x \<le> y)"

definition dist :: "(nat \<Rightarrow> nat \<Rightarrow> double) \<Rightarrow> nat \<Rightarrow> nat \<Rightarrow> nat \<Rightarrow> double" where
  "dist c n v k = (if k = v then 0 else (THE x. least_cost c n v k x))"

lemma dist_eq: "least_cost c n v k x \<Longrightarrow> k \<noteq> v \<Longrightarrow> dist c n v k = x"
proof -
  assume x: "least_cost c n v k x" and k: "k \<noteq> v"
  have "y = x" if "least_cost c n v k y" for y
    using x that unfolding least_cost_def by (elim conjE exE) (rule order_antisym; blast)
  then have "(THE x. least_cost c n v k x) = x" using x by (rule the_equality [rotated])
  then show ?thesis using k by (simp add: dist_def)
qed

lemma first_step_least: "first_step c n k v h \<longleftrightarrow> (\<exists>x. walk c n k h v x \<and> x < INFINITY \<and> least_cost c n v k x)"
  by (auto simp: first_step_def least_cost_def)

lemma first_step_closer:
  assumes k: "first_step c n k v h" "k \<noteq> v" and pos: "\<forall>i \<in> {1..<n}. \<forall>j \<in> {1..<n}. 0 < c i j"
  shows "h = v \<or> (\<exists>g y. walk c n h g v y \<and> y < INFINITY)" and "h = v \<or> (\<exists>g. first_step c n h v g) \<Longrightarrow> dist c n v h < dist c n v k"
proof -
  obtain x where x: "walk c n k h v x" "x < INFINITY" "least_cost c n v k x" using k(1) by (auto simp: first_step_least)
  have ckh: "0 < c k h" using walk_ends [OF x(1)] pos by auto
  note rest = walk_rest [OF x(1)]
  then show "h = v \<or> (\<exists>g y. walk c n h g v y \<and> y < INFINITY)"
  proof
    assume "\<exists>g. walk c n h g v (x - c k h)"
    moreover have "x - c k h < INFINITY" using x(2) ckh by simp
    ultimately show ?thesis by blast
  qed simp
  have dk: "dist c n v k = x" by (rule dist_eq [OF x(3) k(2)])
  show "dist c n v h < dist c n v k" if near: "h = v \<or> (\<exists>g. first_step c n h v g)"
  proof (cases "h = v")
    case True
    have "0 < x"
      using rest ckh walk_pos [of c n h _ v "x - c k h"] pos by (fastforce simp: less_imp_le)
    then show ?thesis unfolding dk by (simp add: True dist_def)
  next
    case False
    then obtain g y where y: "walk c n h g v y" "least_cost c n v h y" using near by (auto simp: first_step_least)
    obtain g' where "walk c n h g' v (x - c k h)" using rest False by auto
    then have "y \<le> x - c k h" using y(2) by (simp add: least_cost_def)
    then show ?thesis using dist_eq [OF y(2) False] ckh by (simp add: dk)
  qed
qed

definition next_hop_of :: "RouteLogic \<Rightarrow> int \<Rightarrow> int \<Rightarrow> int" where
  "next_hop_of L d x = (case lookup_flat x d L of Inr h \<Rightarrow> h | Inl _ \<Rightarrow> -1)"

text \<open>C12. With links of positive cost, none above \<^verbatim>\<open>INFINITY\<close>, handing a packet from node to node, each looking up the next hop for the
  destination, brings it there in fewer steps than there are nodes, if the first lookup finds a route at all.\<close>

theorem forwarding_arrives:
  assumes L: "table_ok L" and costs: "costs_ok (link_cost L) (rsize L)"
    and pos: "\<forall>i \<in> {1..<rsize L}. \<forall>j \<in> {1..<rsize L}. 0 < link_cost L i j"
    and comp: "compute_routes raw L = Inr L'" and s: "s + 1 < rsize L" and d: "d + 1 < rsize L"
    and route: "lookup_flat (int s) (int d) L' \<noteq> Inr (-1)"
  shows "\<exists>m < rsize L. (next_hop_of L' (int d) ^^ m) (int s) = int d"
proof -
  define n where "n = rsize L"
  define A where "A = int ` {0..<n - 1}"
  define P where "P = (\<lambda>x. next_hop_of L' (int d) x \<noteq> -1)"
  define \<mu> where "\<mu> = (\<lambda>x. dist (link_cost L) n (d + 1) (nat x + 1))"
  note look = lookup_ok [OF L costs comp _ d, folded n_def]
  have f: "next_hop_of L' (int d) (int k) = int d" if "k = d" for k
    using look [of d] that d by (auto simp: next_hop_of_def n_def)
  have fn: "cheapest_hop (link_cost L) n k d (next_hop_of L' (int d) (int k))" if "k + 1 < n" "k \<noteq> d" for k
    using look [of k] that by (auto simp: next_hop_of_def)
  have step: "next_hop_of L' (int d) x \<in> A \<and> P (next_hop_of L' (int d) x) \<and> \<mu> (next_hop_of L' (int d) x) < \<mu> x"
    if x: "x \<in> A" "P x" "x \<noteq> int d" for x
  proof -
    from x obtain k where k: "x = int k" "k + 1 < n" "k \<noteq> d" by (auto simp: A_def)
    define h where "h = nat (next_hop_of L' (int d) x)"
    have hop: "next_hop_of L' (int d) x = int h" "first_step (link_cost L) n (k + 1) (d + 1) (h + 1)"
      using fn [OF k(2,3)] x(2) by (auto simp: cheapest_hop_def P_def h_def k(1))
    then obtain y where "walk (link_cost L) n (k + 1) (h + 1) (d + 1) y" by (auto simp: first_step_def)
    then have h: "h + 1 < n" using walk_ends by fastforce
    note closer = first_step_closer [OF hop(2) _ pos [folded n_def]]
    have P: "P (int h)"
    proof (cases "h = d")
      case False
      then obtain g y where "walk (link_cost L) n (h + 1) g (d + 1) y" "y < INFINITY" using closer(1) k(3) by auto
      then have "\<not> (\<forall>g x. walk (link_cost L) n (h + 1) g (d + 1) x \<longrightarrow> INFINITY \<le> x)" by fastforce
      then show ?thesis using fn [OF h False] by (auto simp: P_def cheapest_hop_def)
    qed (simp add: P_def f)
    have "h + 1 = d + 1 \<or> (\<exists>g. first_step (link_cost L) n (h + 1) (d + 1) g)"
    proof (cases "h = d")
      case False
      then show ?thesis using fn [OF h False] P by (auto simp: P_def cheapest_hop_def)
    qed simp
    then have "\<mu> (int h) < \<mu> x" using closer(2) k(1,3) by (simp add: \<mu>_def)
    moreover have "int h \<in> A" using h by (auto simp: A_def)
    ultimately show ?thesis using P by (simp add: hop(1))
  qed
  have "int s \<in> A" "P (int s)" using s route f look [of s] by (auto simp: A_def n_def P_def next_hop_of_def split: sum.splits)
  from descend [of A P "int d" "next_hop_of L' (int d)" \<mu>, OF _ step this] obtain m where
    m: "m \<le> card {u \<in> A. \<mu> u < \<mu> (int s)}" "(next_hop_of L' (int d) ^^ m) (int s) = int d" by (auto simp: A_def)
  have "card {u \<in> A. \<mu> u < \<mu> (int s)} \<le> card A" by (rule card_mono) (auto simp: A_def)
  also have "\<dots> = n - 1" by (simp add: A_def card_image)
  finally show ?thesis using m s by (intro exI [of _ m]) (auto simp: n_def)
qed

lemma forwarding_arrives_witness:
  "\<exists>L L' m. insert_link 1 2 3 new_RouteLogic = Inr L \<and> compute_routes (\<lambda>_. 0) L = Inr L' \<and> (next_hop_of L' 1 ^^ m) 0 = 1"
proof -
  from insert_ok [OF new_table_ok, of 1 2 3] obtain L where L: "insert_link 1 2 3 new_RouteLogic = Inr L" "table_ok L"
      "2 < rsize L" "link_cost L = (\<lambda>_ _. INFINITY)(1 := (\<lambda>_. INFINITY)(2 := 3))" by auto
  have c: "costs_ok (link_cost L) (rsize L)" and p: "\<forall>i \<in> {1..<rsize L}. \<forall>j \<in> {1..<rsize L}. 0 < link_cost L i j"
    by (auto simp: costs_ok_def L(4) INFINITY_def)
  obtain L' where L': "compute_routes (\<lambda>_. 0) L = Inr L'" using compute_total [OF L(2)] by blast
  have w: "walk (link_cost L) (rsize L) 1 2 2 3"
    using walk_edge [of 1 "rsize L" 2 "link_cost L"] L(3) by (simp add: L(4) INFINITY_def)
  from lookup_ok [OF L(2) c L', of 0 1] L(3) obtain h where h: "lookup_flat (int 0) (int 1) L' = Inr h"
      "cheapest_hop (link_cost L) (rsize L) 0 1 h" by auto
  have "h \<noteq> -1"
  proof
    assume "h = -1"
    then have "\<forall>g x. walk (link_cost L) (rsize L) 1 g 2 x \<longrightarrow> INFINITY \<le> x" using h(2) by (simp add: cheapest_hop_def numeral_2_eq_2)
    with w show False by (fastforce simp: INFINITY_def)
  qed
  then have "lookup_flat (int 0) (int 1) L' \<noteq> Inr (-1)" using h(1) by simp
  from forwarding_arrives [OF L(2) c p L' _ _ this] L(1,3) L' show ?thesis by auto
qed

text \<open>The costs survive when the table grows, the pointers stored with \<^verbatim>\<open>insert\<close> do not.\<close>

lemma growing_loses_entries:
  assumes "table_ok L" and "rsize L \<le> n" and "i < rsize (check n L)" and "j < rsize (check n L)"
  shows "\<exists>a. adj (check n L) = Some a \<and> ADJ_ENTRY a (rsize (check n L)) i j = 0"
proof -
  define old where "old = (case adj L of None \<Rightarrow> [] | Some a \<Rightarrow> a)"
  define m where "m = grow (if rsize L = 0 then 16 else rsize L) n"
  let ?z = "replicate (m * m) \<lparr>cost = INFINITY, aentry = 0\<rparr>"
  have m: "rsize L \<le> m" using grow_ok [of "if rsize L = 0 then 16 else rsize L" n] by (auto simp: m_def split: if_splits)
  have eq: "check n L = L\<lparr>rsize := m, adj := Some (copy_costs old (rsize L) m ?z)\<rparr>"
    using assms(2) by (simp add: check_def alloc_def Let_def old_def m_def)
  have "i < m" "j < m" using assms(3,4) by (simp_all add: eq)
  then show ?thesis
    using copy_costs_rows [where a = ?z and m = m and osize = "rsize L" and p = "rsize L" and old = old] m INDEX_less [of i m j]
    by (simp add: eq ADJ_ENTRY_def copy_costs_def)
qed

section \<open>Routes older than the table\<close>

lemma foldl_keeps_length:
  "(\<And>S x. length (g (f S x)) = length (g S)) \<Longrightarrow> length (g (foldl f S xs)) = length (g S)"
  by (induction xs arbitrary: S) simp_all

lemma length_rtab [simp]:
  "length (rtab (first_hops a n k S)) = length (rtab S)"
  "length (rtab (relax a n k u S)) = length (rtab S)"
  "length (rtab (route_round a n k S)) = length (rtab S)"
proof -
  show "length (rtab (first_hops a n k S)) = length (rtab S)"
    unfolding first_hops_def by (rule foldl_keeps_length) (simp add: Let_def)
  show r: "length (rtab (relax a n k u S)) = length (rtab S)" for u S
    unfolding relax_def by (rule foldl_keeps_length) simp
  show "length (rtab (route_round a n k S)) = length (rtab S)" by (simp add: route_round_def Let_def r)
qed

lemma length_rounds [simp]: "length (rtab ((route_round a n k ^^ m) S)) = length (rtab S)"
  by (induction m) simp_all

lemma length_route_table: "length (route_table raw a n) = n * n"
proof -
  have *: "length (rtab (foldl (route_source a n) S xs)) = length (rtab S)" for S xs
    by (rule foldl_keeps_length) (simp add: route_source_def)
  have "length (id (foldl (own_route n) r xs)) = length (id r)" for r xs
    by (rule foldl_keeps_length) (simp add: own_route_def)
  then show ?thesis by (simp add: route_table_def *)
qed

lemma table_ok_routes [simp]: "table_ok (L\<lparr>routes := r\<rparr>) \<longleftrightarrow> table_ok L"
  by (simp add: table_ok_def split: option.split)

lemma routes_eq: "L\<lparr>routes := x\<rparr> = L\<lparr>routes := y\<rparr> \<longleftrightarrow> x = y"
proof
  assume "L\<lparr>routes := x\<rparr> = L\<lparr>routes := y\<rparr>"
  then have "routes (L\<lparr>routes := x\<rparr>) = routes (L\<lparr>routes := y\<rparr>)" by (rule arg_cong)
  then show "x = y" by simp
qed simp

lemma insert_size: "insert_link s d c L = Inr L' \<Longrightarrow> rsize L' = rsize (check d (check s L))"
  by (auto simp: insert_link_def set_adj_def bindE_eq_Inr Let_def split: if_splits)

lemma check_size: "rsize (check n L) = (if n < rsize L then rsize L else grow (if rsize L = 0 then 16 else rsize L) n)"
  by (simp add: check_def alloc_def Let_def)

text \<open>C40. A link inserted after the routes were computed, to a node beyond the table, makes the table of links grow
  but not the routes: until they are computed again, the lookup of a route from a new node that passes the test
  of the range reads beyond the end of \<^verbatim>\<open>route_\<close>.\<close>

theorem old_routes_are_overrun:
  assumes "table_ok L" and "compute_routes raw L = Inr L1" and "insert_link i j c L1 = Inr L2"
    and "rsize L \<le> s + 1" and "s + 1 < rsize L2" and "d + 1 < rsize L2"
  shows "lookup_flat (int s) (int d) L2 = Inl BufferOverflow"
proof -
  from compute_total [OF assms(1), of raw] obtain r where L1: "L1 = L\<lparr>routes := Some r\<rparr>" using assms(2) by auto
  then have r: "length r = rsize L * rsize L"
    using assms(2) by (auto simp: compute_routes_def routes_eq length_route_table bindE_eq_Inr split: if_splits)
  have "table_ok L1" using assms(1) by (simp add: L1)
  from insert_ok [OF this, of i j c] have L2: "routes L2 = Some r" "rsize L \<le> rsize L2" using assms(3) by (auto simp: L1)
  have "rsize L * rsize L \<le> rsize L2 * (s + 1)" by (rule mult_le_mono [OF L2(2) assms(4)])
  then have "rsize L * rsize L \<le> rsize L2 * (s + 1) + (d + 1)" by (rule trans_le_add1)
  moreover have "int (rsize L2) * (int s + 1) + (int d + 1) = int (rsize L2 * (s + 1) + (d + 1))" by (simp add: algebra_simps)
  ultimately have "int (length r) \<le> int (rsize L2) * (int s + 1) + (int d + 1)" unfolding r by (simp only: of_nat_le_iff)
  then show ?thesis using assms(5,6) by (simp add: lookup_flat_def L2(1) Let_def)
qed

lemma old_routes_are_overrun_witness:
  "\<exists>L L1 L2. insert_link 1 2 3 new_RouteLogic = Inr L \<and> compute_routes (\<lambda>_. 0) L = Inr L1 \<and> insert_link 1 20 1 L1 = Inr L2
    \<and> lookup_flat 19 0 L2 = Inl BufferOverflow"
proof -
  from insert_ok [OF new_table_ok, of 1 2 3] obtain L where L: "insert_link 1 2 3 new_RouteLogic = Inr L" "table_ok L" by auto
  have n: "rsize L = 16" using insert_size [OF L(1)] by (simp add: check_size new_RouteLogic_def grow.simps)
  obtain r where L1: "compute_routes (\<lambda>_. 0) L = Inr (L\<lparr>routes := Some r\<rparr>)" using compute_total [OF L(2)] by blast
  have "table_ok (L\<lparr>routes := Some r\<rparr>)" using L(2) by simp
  from insert_ok [OF this, of 1 20 1] obtain L2 where L2: "insert_link 1 20 1 (L\<lparr>routes := Some r\<rparr>) = Inr L2" "20 < rsize L2" by auto
  show ?thesis using old_routes_are_overrun [OF L(2) L1 L2(1), of 19 0] n L2 L(1) L1 by auto
qed

end
