(* ===== verification/Ns_RngMat.thy ===== *)
theory Ns_RngMat
  imports Gea_Prelude
begin

text \<open>
  The arithmetic of the random number generator, the anonymous namespace of
  \<^verbatim>\<open>ns2-gea/ns-2/tools/rng.cc\<close>: products modulo \<open>m\<close>, products and powers of matrices, and the
  constant matrices that jump ahead in the two components of the generator.

  The generator keeps integers in variables of type \<^verbatim>\<open>double\<close>. They are integers here; the lemma
  on \<open>MultModM_values\<close> shows that no value that is used exceeds \<open>2\<^sup>5\<^sup>3\<close>, below which the arithmetic of
  doubles is exact on integers. Only the test whether \<^verbatim>\<open>a*s+c\<close> is too large looks at a larger
  value. An array of three numbers is a \<open>vec3\<close>, a matrix a \<open>mat3\<close>.

  A matrix is used through its action \<open>act\<close> on vectors modulo \<open>m\<close>: the routines compute products and
  powers of actions, and the constants of the source are the powers they are named after.
\<close>

section \<open>Constants\<close>

definition m1 :: int where "m1 = 4294967087"
definition m2 :: int where "m2 = 4294944443"
definition norm01 :: double where "norm01 = 1 / (of_int m1 + 1)"
definition a12 :: int where "a12 = 1403580"
definition a13n :: int where "a13n = 810728"
definition a21 :: int where "a21 = 527612"
definition a23n :: int where "a23n = 1370589"
definition two17 :: int where "two17 = 131072"
definition two53 :: int where "two53 = 9007199254740992"
definition fact24 :: double where "fact24 = 59604644775390625 / 10 ^ 24"
definition MAXINT :: int where "MAXINT = 2147483647"

datatype vec3 = Vec3 int int int
datatype mat3 = Mat3 vec3 vec3 vec3

definition InvA1 :: mat3 where
  "InvA1 = Mat3 (Vec3 184888585 0 1945170933) (Vec3 1 0 0) (Vec3 0 1 0)"

definition InvA2 :: mat3 where
  "InvA2 = Mat3 (Vec3 0 360363334 4225571728) (Vec3 1 0 0) (Vec3 0 1 0)"

definition A1p0 :: mat3 where
  "A1p0 = Mat3 (Vec3 0 1 0) (Vec3 0 0 1) (Vec3 (-810728) 1403580 0)"

definition A2p0 :: mat3 where
  "A2p0 = Mat3 (Vec3 0 1 0) (Vec3 0 0 1) (Vec3 (-1370589) 0 527612)"

definition A1p76 :: mat3 where
  "A1p76 = Mat3 (Vec3 82758667 1871391091 4127413238) (Vec3 3672831523 69195019 1871391091)
     (Vec3 3672091415 3528743235 69195019)"

definition A2p76 :: mat3 where
  "A2p76 = Mat3 (Vec3 1511326704 3759209742 1610795712) (Vec3 4292754251 1511326704 3889917532)
     (Vec3 3859662829 4292754251 3708466080)"

definition A1p127 :: mat3 where
  "A1p127 = Mat3 (Vec3 2427906178 3580155704 949770784) (Vec3 226153695 1230515664 3580155704)
     (Vec3 1988835001 986791581 1230515664)"

definition A2p127 :: mat3 where
  "A2p127 = Mat3 (Vec3 1464411153 277697599 1610723613) (Vec3 32183930 1464411153 1022607788)
     (Vec3 2824425944 32183930 2093834863)"

section \<open>Arithmetic modulo m\<close>

definition MultModM :: "int \<Rightarrow> int \<Rightarrow> int \<Rightarrow> int \<Rightarrow> int" where
  "MultModM a s c m =
     (let v = a * s + c;
          v1 = (if v \<ge> two53 \<or> v \<le> - two53 then
                  let a1 = c_div a two17; a2 = a - a1 * two17; v2 = a1 * s; k = c_div v2 m
                  in (v2 - k * m) * two17 + a2 * s + c
                else v);
          v3 = v1 - c_div v1 m * m
      in if v3 < 0 then v3 + m else v3)"

text \<open>The values of the double expressions of \<open>MultModM\<close>, in the order in which they are computed, but for the sum
  that is tested when the test finds it too large: that one is rounded and then thrown away, and \<open>MultModM_test_exact\<close>
  shows that the test does not depend on the rounding.\<close>

definition MultModM_values :: "int \<Rightarrow> int \<Rightarrow> int \<Rightarrow> int \<Rightarrow> int list" where
  "MultModM_values a s c m =
     (let v = a * s + c in
      if v \<ge> two53 \<or> v \<le> - two53 then
        let a1 = c_div a two17; a2 = a - a1 * two17; v2 = a1 * s; k = c_div v2 m;
            v1 = (v2 - k * m) * two17 + a2 * s + c
        in [a1 * two17, a2, v2, k * m, v2 - k * m, (v2 - k * m) * two17, a2 * s, (v2 - k * m) * two17 + a2 * s, v1,
            c_div v1 m * m, v1 - c_div v1 m * m, v1 - c_div v1 m * m + m]
      else [a * s, v, c_div v m * m, v - c_div v m * m, v - c_div v m * m + m])"

primrec dot :: "vec3 \<Rightarrow> vec3 \<Rightarrow> int \<Rightarrow> int" where
  "dot (Vec3 a0 a1 a2) s m =
     (case s of Vec3 s0 s1 s2 \<Rightarrow> MultModM a2 s2 (MultModM a1 s1 (MultModM a0 s0 0 m) m) m)"

primrec MatVecModM :: "mat3 \<Rightarrow> vec3 \<Rightarrow> int \<Rightarrow> vec3" where
  "MatVecModM (Mat3 r0 r1 r2) s m = Vec3 (dot r0 s m) (dot r1 s m) (dot r2 s m)"

fun column :: "mat3 \<Rightarrow> nat \<Rightarrow> vec3" where
  "column (Mat3 (Vec3 a0 a1 a2) (Vec3 b0 b1 b2) (Vec3 c0 c1 c2)) j =
     (if j = 0 then Vec3 a0 b0 c0 else if j = 1 then Vec3 a1 b1 c1 else Vec3 a2 b2 c2)"

fun of_columns :: "vec3 \<Rightarrow> vec3 \<Rightarrow> vec3 \<Rightarrow> mat3" where
  "of_columns (Vec3 a0 b0 c0) (Vec3 a1 b1 c1) (Vec3 a2 b2 c2) =
     Mat3 (Vec3 a0 a1 a2) (Vec3 b0 b1 b2) (Vec3 c0 c1 c2)"

definition MatMatModM :: "mat3 \<Rightarrow> mat3 \<Rightarrow> int \<Rightarrow> mat3" where
  "MatMatModM A B m =
     of_columns (MatVecModM A (column B 0) m) (MatVecModM A (column B 1) m) (MatVecModM A (column B 2) m)"

text \<open>The exponent is a natural number; the source counts with an \<^verbatim>\<open>int\<close> up to a \<^verbatim>\<open>long\<close>, which are the same below \<open>2\<^sup>3\<^sup>1\<close>.\<close>

fun MatTwoPowModM :: "mat3 \<Rightarrow> int \<Rightarrow> nat \<Rightarrow> mat3" where
  "MatTwoPowModM B m 0 = B"
| "MatTwoPowModM B m (Suc e) = MatTwoPowModM (MatMatModM B B m) m e"

definition identity3 :: mat3 where
  "identity3 = Mat3 (Vec3 1 0 0) (Vec3 0 1 0) (Vec3 0 0 1)"

text \<open>The loop of \<^verbatim>\<open>MatPowModM\<close> over the binary digits of \<open>n\<close>.\<close>

function MatPow_loop :: "mat3 \<Rightarrow> mat3 \<Rightarrow> int \<Rightarrow> nat \<Rightarrow> mat3" where
  "MatPow_loop W B m n =
     (if n > 0 then MatPow_loop (MatMatModM W W m) (if n mod 2 = 1 then MatMatModM W B m else B) m (n div 2) else B)"
  by pat_completeness auto
termination by (relation "measure (\<lambda>(W, B, m, n). n)") auto

declare MatPow_loop.simps [simp del]

definition MatPowModM :: "mat3 \<Rightarrow> int \<Rightarrow> nat \<Rightarrow> mat3" where
  "MatPowModM A m n = MatPow_loop A identity3 m n"

section \<open>Products of integer matrices\<close>

text \<open>The reference: products of vectors and matrices over the integers, and reduction modulo \<open>m\<close>.\<close>

primrec ip :: "vec3 \<Rightarrow> vec3 \<Rightarrow> int" where
  "ip (Vec3 a0 a1 a2) s = (case s of Vec3 s0 s1 s2 \<Rightarrow> a0 * s0 + a1 * s1 + a2 * s2)"

primrec mv :: "mat3 \<Rightarrow> vec3 \<Rightarrow> vec3" where
  "mv (Mat3 r0 r1 r2) s = Vec3 (ip r0 s) (ip r1 s) (ip r2 s)"

primrec vmod :: "int \<Rightarrow> vec3 \<Rightarrow> vec3" where
  "vmod m (Vec3 a b c) = Vec3 (a mod m) (b mod m) (c mod m)"

definition act :: "int \<Rightarrow> mat3 \<Rightarrow> vec3 \<Rightarrow> vec3" where
  "act m A s = vmod m (mv A s)"

lemma c_div_rem:
  assumes "0 < m"
  shows "(if v - c_div v m * m < 0 then v - c_div v m * m + m else v - c_div v m * m) = v mod m"
proof (cases "v < 0")
  case True
  have rem: "- v div m * m + - v mod m = - v" by (rule div_mult_mod_eq)
  have "c_div v m * m = - (- v div m * m)" using True assms by (simp add: c_div_def)
  with rem have "v - c_div v m * m = - (- v mod m)" by linarith
  moreover have "- v mod m = 0 \<or> 0 < - v mod m" using pos_mod_sign [OF assms, of "- v"] by linarith
  ultimately show ?thesis using zmod_zminus1_eq_if [of "- v" m] by auto
next
  case False
  then have "v - c_div v m * m = v mod m" using assms by (simp add: c_div_nonneg minus_div_mult_eq_mod)
  then show ?thesis using assms by (simp add: not_less)
qed

lemma MultModM_mod:
  assumes "0 < m"
  shows "MultModM a s c m = (a * s + c) mod m"
proof -
  define a1 where "a1 = c_div a two17"
  define k where "k = c_div (a1 * s) m"
  have "(a1 * s - k * m) * two17 + (a - a1 * two17) * s + c = a * s + c + (- k * two17) * m"
    by (simp add: algebra_simps)
  then have "((a1 * s - k * m) * two17 + (a - a1 * two17) * s + c) mod m = (a * s + c) mod m"
    by (simp only: mod_mult_self1)
  then show ?thesis
    using c_div_rem [OF assms] by (simp add: MultModM_def Let_def a1_def k_def)
qed

lemma dot_mod: "0 < m \<Longrightarrow> dot r s m = ip r s mod m"
  by (cases r; cases s) (simp add: MultModM_mod mod_simps algebra_simps)

lemma MatVecModM_act: "0 < m \<Longrightarrow> MatVecModM A s m = act m A s"
  by (cases A) (simp add: act_def dot_mod)

lemma ip_mv: "ip (Vec3 (ip r (column B 0)) (ip r (column B 1)) (ip r (column B 2))) s = ip r (mv B s)"
  by (cases r; cases B; cases s; cases "case B of Mat3 x y z \<Rightarrow> x"; cases "case B of Mat3 x y z \<Rightarrow> y";
      cases "case B of Mat3 x y z \<Rightarrow> z") (simp add: algebra_simps)

lemma act_vmod: "act m A (vmod m s) = act m A s"
proof -
  have "ip r (vmod m s) mod m = ip r s mod m" for r
  proof (cases r; cases s)
    fix a b c x y z assume "r = Vec3 a b c" "s = Vec3 x y z"
    moreover have "(a * (x mod m) + b * (y mod m) + c * (z mod m)) mod m = (a * x + b * y + c * z) mod m"
      by (intro mod_add_cong mod_mult_cong) simp_all
    ultimately show ?thesis by simp
  qed
  then show ?thesis by (cases A) (simp add: act_def)
qed

lemma vmod_vmod [simp]: "vmod m (vmod m s) = vmod m s"
  by (cases s) simp

lemma vmod_act [simp]: "vmod m (act m A s) = act m A s"
  by (simp add: act_def)

text \<open>The product of two matrices acts like one after the other.\<close>

lemma act_MatMat:
  assumes "0 < m"
  shows "act m (MatMatModM A B m) s = act m A (act m B s)"
proof -
  obtain r0 r1 r2 where A: "A = Mat3 r0 r1 r2" by (cases A)
  have *: "ip (Vec3 (ip r (column B 0) mod m) (ip r (column B 1) mod m) (ip r (column B 2) mod m)) s mod m
      = ip r (mv B s) mod m" for r
  proof -
    obtain x y z where s: "s = Vec3 x y z" by (cases s)
    have "(a mod m * x + b mod m * y + c mod m * z) mod m = (a * x + b * y + c * z) mod m" for a b c
      by (intro mod_add_cong mod_mult_cong) simp_all
    then show ?thesis by (simp add: s ip_mv [of r B "Vec3 x y z", symmetric])
  qed
  have "act m (MatMatModM A B m) s = vmod m (mv A (mv B s))"
    using * assms by (simp add: act_def MatMatModM_def A dot_mod)
  also have "\<dots> = act m A (act m B s)"
    using act_vmod [of m A "mv B s"] by (simp add: act_def)
  finally show ?thesis .
qed

lemma act_compose: "0 < m \<Longrightarrow> act m (MatMatModM A B m) = (\<lambda>s. act m A (act m B s))"
  by (rule ext) (simp add: act_MatMat)

lemma funpow_twice: "(\<lambda>x. f (f x)) ^^ n = f ^^ (2 * n)"
  using funpow_mult [of n 2 f] by (simp add: numeral_2_eq_2 mult.commute o_def)

lemma act_MatTwoPow: "0 < m \<Longrightarrow> act m (MatTwoPowModM A m e) = act m A ^^ (2 ^ e)"
  by (induction e arbitrary: A) (simp_all add: act_compose funpow_twice)

lemma act_identity: "act m identity3 s = vmod m s"
  by (cases s) (simp add: act_def identity3_def)

lemma act_MatPow_loop:
  "0 < m \<Longrightarrow> act m (MatPow_loop W B m n) s = (act m W ^^ n) (act m B s)"
proof (induction W B m n rule: MatPow_loop.induct)
  case (1 W B m n)
  show ?case
  proof (cases "n = 0")
    case False
    have "act m (MatPow_loop W B m n) s
        = (act m W ^^ (2 * (n div 2))) (act m (if n mod 2 = 1 then MatMatModM W B m else B) s)"
      using 1 False by (subst MatPow_loop.simps) (simp add: act_compose funpow_twice)
    also have "\<dots> = (act m W ^^ (2 * (n div 2) + n mod 2)) (act m B s)"
    proof (cases "odd n")
      case True
      then obtain k where "n = 2 * k + 1" by (rule oddE)
      then show ?thesis using 1(2) by (simp add: act_MatMat funpow_swap1)
    qed (use 1(2) in simp)
    finally show ?thesis by simp
  qed (simp add: MatPow_loop.simps)
qed

lemma act_MatPow: "0 < m \<Longrightarrow> act m (MatPowModM A m n) s = (act m A ^^ n) (vmod m s)"
  by (simp add: MatPowModM_def act_MatPow_loop act_identity)

section \<open>The constant matrices\<close>

lemma m1_pos [simp]: "0 < m1" and m2_pos [simp]: "0 < m2"
  by (simp_all add: m1_def m2_def)

text \<open>
  The two matrices are companion matrices, so each power of one is a combination of its powers 0, 1
  and 2. The coefficients of the combination are squared instead of the matrix; the reduction modulo
  \<open>2\<^sup>3\<^sup>2 - k\<close> replaces \<open>2\<^sup>3\<^sup>2\<close> by \<open>k\<close>.
\<close>

definition red32 :: "int \<Rightarrow> int \<Rightarrow> int" where
  "red32 k x = k * drop_bit 32 x + take_bit 32 x"

definition red_sum :: "int \<Rightarrow> int \<Rightarrow> int" where
  "red_sum k x = red32 k (red32 k x) mod (4294967296 - k)"

fun psq :: "int \<Rightarrow> vec3 \<Rightarrow> vec3 \<Rightarrow> vec3 \<Rightarrow> vec3" where
  "psq k (Vec3 b a e) (Vec3 b' a' e') (Vec3 c0 c1 c2) =
     (let d3 = red_sum k (2 * c1 * c2); d4 = red_sum k (c2 * c2) in
      Vec3 (red_sum k (c0 * c0 + b * d3 + b' * d4)) (red_sum k (2 * c0 * c1 + a * d3 + a' * d4))
        (red_sum k (2 * c0 * c2 + c1 * c1 + e * d3 + e' * d4)))"

definition comb :: "mat3 \<Rightarrow> vec3 \<Rightarrow> vec3 \<Rightarrow> vec3" where
  "comb A c s =
     (case c of Vec3 c0 c1 c2 \<Rightarrow> case s of Vec3 x y z \<Rightarrow> case mv A s of Vec3 x' y' z' \<Rightarrow>
        case mv A (mv A s) of Vec3 x'' y'' z'' \<Rightarrow>
          Vec3 (c0 * x + c1 * x' + c2 * x'') (c0 * y + c1 * y' + c2 * y'') (c0 * z + c1 * z' + c2 * z''))"

definition x3_1 :: vec3 where "x3_1 = Vec3 4294156359 1403580 0"
definition x4_1 :: vec3 where "x4_1 = Vec3 0 4294156359 1403580"
definition x3_2 :: vec3 where "x3_2 = Vec3 4293573854 0 527612"
definition x4_2 :: vec3 where "x4_2 = Vec3 2706407399 4293573854 3497978192"

lemma red32_mod: "red32 k x mod (4294967296 - k) = x mod (4294967296 - k)"
proof -
  have "x = drop_bit 32 x * 4294967296 + take_bit 32 x"
    by (simp add: drop_bit_eq_div take_bit_eq_mod)
  then have "x = red32 k x + drop_bit 32 x * (4294967296 - k)"
    by (simp add: red32_def algebra_simps)
  then show ?thesis by (metis mod_mult_self1)
qed

lemma fmod_mod: "red_sum k x = x mod (4294967296 - k)"
  by (simp add: red_sum_def red32_mod)

lemma comb_vmod_coeff: "vmod m (comb A (vmod m c) s) = vmod m (comb A c s)"
proof -
  have "(a mod m * x + b mod m * y + d mod m * z) mod m = (a * x + b * y + d * z) mod m" for a b d x y z
    by (intro mod_add_cong mod_mult_cong) simp_all
  then show ?thesis by (simp add: comb_def split: vec3.splits)
qed

lemma comb_vmod: "vmod m (comb A c (vmod m s)) = vmod m (comb A c s)"
proof -
  have mv: "vmod m (mv A (vmod m s)) = vmod m (mv A s)" for s using act_vmod by (simp add: act_def)
  then have mv2: "vmod m (mv A (mv A (vmod m s))) = vmod m (mv A (mv A s))"
    by (metis mv)
  obtain c0 c1 c2 x y z x' y' z' x'' y'' z'' where
    "c = Vec3 c0 c1 c2" "s = Vec3 x y z" "mv A s = Vec3 x' y' z'" "mv A (mv A s) = Vec3 x'' y'' z''"
    by (metis vec3.exhaust)
  moreover obtain u' v' w' u'' v'' w'' where
    "mv A (vmod m s) = Vec3 u' v' w'" "mv A (mv A (vmod m s)) = Vec3 u'' v'' w''"
    by (metis vec3.exhaust)
  ultimately show ?thesis using mv [of s] mv2
    by (auto simp: comb_def intro!: mod_add_cong mod_mult_cong)
qed

lemma comb_square_1:
  "comb A1p0 (Vec3 c0 c1 c2) (comb A1p0 (Vec3 c0 c1 c2) s) =
     comb A1p0 (Vec3 (c0 * c0 - 810728 * (2 * c1 * c2)) (2 * c0 * c1 + 1403580 * (2 * c1 * c2) - 810728 * (c2 * c2))
       (2 * c0 * c2 + c1 * c1 + 1403580 * (c2 * c2))) s"
  by (cases s) (simp add: comb_def A1p0_def algebra_simps)

lemma comb_square_2:
  "comb A2p0 (Vec3 c0 c1 c2) (comb A2p0 (Vec3 c0 c1 c2) s) =
     comb A2p0 (Vec3 (c0 * c0 - 1370589 * (2 * c1 * c2) - 527612 * 1370589 * (c2 * c2)) (2 * c0 * c1 - 1370589 * (c2 * c2))
       (2 * c0 * c2 + c1 * c1 + 527612 * (2 * c1 * c2) + 527612 * 527612 * (c2 * c2))) s"
  by (cases s) (simp add: comb_def A2p0_def algebra_simps)

definition pact :: "int \<Rightarrow> mat3 \<Rightarrow> vec3 \<Rightarrow> vec3 \<Rightarrow> vec3" where
  "pact m A c s = vmod m (comb A c s)"

lemma moduli: "4294967296 - 209 = m1" "4294967296 - 22853 = m2"
  by (simp_all add: m1_def m2_def)

lemma psq_1:
  "psq 209 x3_1 x4_1 (Vec3 c0 c1 c2) =
     vmod m1 (Vec3 (c0 * c0 + (-810728) * (2 * c1 * c2) + 0 * (c2 * c2))
       (2 * c0 * c1 + 1403580 * (2 * c1 * c2) + (-810728) * (c2 * c2))
       (2 * c0 * c2 + c1 * c1 + 0 * (2 * c1 * c2) + 1403580 * (c2 * c2)))"
  unfolding x3_1_def x4_1_def psq.simps Let_def fmod_mod moduli vmod.simps vec3.inject
  by (intro conjI mod_add_cong mod_mult_cong) (simp_all add: m1_def)

lemma psq_2:
  "psq 22853 x3_2 x4_2 (Vec3 c0 c1 c2) =
     vmod m2 (Vec3 (c0 * c0 + (-1370589) * (2 * c1 * c2) + (- 527612 * 1370589) * (c2 * c2))
       (2 * c0 * c1 + 0 * (2 * c1 * c2) + (-1370589) * (c2 * c2))
       (2 * c0 * c2 + c1 * c1 + 527612 * (2 * c1 * c2) + 527612 * 527612 * (c2 * c2)))"
  unfolding x3_2_def x4_2_def psq.simps Let_def fmod_mod moduli vmod.simps vec3.inject
  by (intro conjI mod_add_cong mod_mult_cong) (simp_all add: m2_def)

lemma pact_psq_1: "pact m1 A1p0 (psq 209 x3_1 x4_1 c) s = pact m1 A1p0 c (pact m1 A1p0 c s)"
  by (cases c) (simp add: pact_def comb_vmod comb_square_1 psq_1 comb_vmod_coeff del: vmod.simps)

lemma pact_psq_2: "pact m2 A2p0 (psq 22853 x3_2 x4_2 c) s = pact m2 A2p0 c (pact m2 A2p0 c s)"
  by (cases c) (simp add: pact_def comb_vmod comb_square_2 psq_2 comb_vmod_coeff del: vmod.simps)

lemma pact_pow:
  assumes "\<And>c s. pact m A (sq c) s = pact m A c (pact m A c s)"
  shows "pact m A ((sq ^^ e) c) = pact m A c ^^ (2 ^ e)"
proof (induction e)
  case (Suc e)
  have "pact m A ((sq ^^ Suc e) c) = (\<lambda>s. pact m A ((sq ^^ e) c) (pact m A ((sq ^^ e) c) s))"
    using assms by auto
  then show ?case using Suc funpow_mult [of 2 "2 ^ e" "pact m A c"]
    by (simp add: numeral_2_eq_2 o_def fun_eq_iff)
qed simp

lemma pact_act: "pact m A (Vec3 0 1 0) s = act m A s"
  by (simp add: pact_def comb_def act_def split: vec3.splits)

lemma squarings_1:
  "(psq 209 x3_1 x4_1 ^^ 38) (Vec3 0 1 0) = Vec3 3214147257 1434230503 2944821434"
  "(psq 209 x3_1 x4_1 ^^ 38) (Vec3 3214147257 1434230503 2944821434) = Vec3 82758667 1871391091 4127413238"
  "(psq 209 x3_1 x4_1 ^^ 51) (Vec3 82758667 1871391091 4127413238) = Vec3 2427906178 3580155704 949770784"
  by code_simp+

lemma squarings_2:
  "(psq 22853 x3_2 x4_2 ^^ 38) (Vec3 0 1 0) = Vec3 4093947334 3454015638 2815567716"
  "(psq 22853 x3_2 x4_2 ^^ 38) (Vec3 4093947334 3454015638 2815567716) = Vec3 1511326704 3759209742 1610795712"
  "(psq 22853 x3_2 x4_2 ^^ 51) (Vec3 1511326704 3759209742 1610795712) = Vec3 1464411153 277697599 1610723613"
  by code_simp+

lemma funpow_split: "(f ^^ i) x = y \<Longrightarrow> (f ^^ j) y = z \<Longrightarrow> (f ^^ (j + i)) x = z"
  by (simp add: funpow_add)

lemmas powers_1 = funpow_split [OF squarings_1(1) squarings_1(2), simplified]
  funpow_split [OF funpow_split [OF squarings_1(1) squarings_1(2)] squarings_1(3), simplified]

lemmas powers_2 = funpow_split [OF squarings_2(1) squarings_2(2), simplified]
  funpow_split [OF funpow_split [OF squarings_2(1) squarings_2(2)] squarings_2(3), simplified]

text \<open>A matrix that is congruent to a combination of powers of \<open>A\<close> acts like it.\<close>

lemma act_pact:
  assumes "\<And>s. vmod m (mv B s) = vmod m (comb A c s)"
  shows "act m B = pact m A c"
  by (rule ext) (simp add: act_def pact_def assms)

lemma act_A1p76: "act m1 A1p76 = act m1 A1p0 ^^ (2 ^ 76)"
proof -
  have "act m1 A1p76 = pact m1 A1p0 (Vec3 82758667 1871391091 4127413238)"
  proof (rule act_pact)
    fix s show "vmod m1 (mv A1p76 s) = vmod m1 (comb A1p0 (Vec3 82758667 1871391091 4127413238) s)"
      by (cases s) (simp add: comb_def A1p0_def A1p76_def m1_def mod_eq_dvd_iff algebra_simps)
  qed
  then show ?thesis using pact_pow [of m1 A1p0 "psq 209 x3_1 x4_1" 76 "Vec3 0 1 0"] pact_psq_1 powers_1(1)
    by (simp add: pact_act [abs_def])
qed

lemma act_A1p127: "act m1 A1p127 = act m1 A1p0 ^^ (2 ^ 127)"
proof -
  have "act m1 A1p127 = pact m1 A1p0 (Vec3 2427906178 3580155704 949770784)"
  proof (rule act_pact)
    fix s show "vmod m1 (mv A1p127 s) = vmod m1 (comb A1p0 (Vec3 2427906178 3580155704 949770784) s)"
      by (cases s) (simp add: comb_def A1p0_def A1p127_def m1_def mod_eq_dvd_iff algebra_simps)
  qed
  then show ?thesis using pact_pow [of m1 A1p0 "psq 209 x3_1 x4_1" 127 "Vec3 0 1 0"] pact_psq_1 powers_1(2)
    by (simp add: pact_act [abs_def])
qed

lemma act_A2p76: "act m2 A2p76 = act m2 A2p0 ^^ (2 ^ 76)"
proof -
  have "act m2 A2p76 = pact m2 A2p0 (Vec3 1511326704 3759209742 1610795712)"
  proof (rule act_pact)
    fix s show "vmod m2 (mv A2p76 s) = vmod m2 (comb A2p0 (Vec3 1511326704 3759209742 1610795712) s)"
      by (cases s) (simp add: comb_def A2p0_def A2p76_def m2_def mod_eq_dvd_iff algebra_simps)
  qed
  then show ?thesis using pact_pow [of m2 A2p0 "psq 22853 x3_2 x4_2" 76 "Vec3 0 1 0"] pact_psq_2 powers_2(1)
    by (simp add: pact_act [abs_def])
qed

lemma act_A2p127: "act m2 A2p127 = act m2 A2p0 ^^ (2 ^ 127)"
proof -
  have "act m2 A2p127 = pact m2 A2p0 (Vec3 1464411153 277697599 1610723613)"
  proof (rule act_pact)
    fix s show "vmod m2 (mv A2p127 s) = vmod m2 (comb A2p0 (Vec3 1464411153 277697599 1610723613) s)"
      by (cases s) (simp add: comb_def A2p0_def A2p127_def m2_def mod_eq_dvd_iff algebra_simps)
  qed
  then show ?thesis using pact_pow [of m2 A2p0 "psq 22853 x3_2 x4_2" 127 "Vec3 0 1 0"] pact_psq_2 powers_2(2)
    by (simp add: pact_act [abs_def])
qed

lemma InvA1_correct: "MatMatModM A1p0 InvA1 m1 = identity3" "MatMatModM InvA1 A1p0 m1 = identity3"
  by code_simp+

lemma InvA2_correct: "MatMatModM A2p0 InvA2 m2 = identity3" "MatMatModM InvA2 A2p0 m2 = identity3"
  by code_simp+

lemma act_Inv:
  "act m1 A1p0 (act m1 InvA1 s) = vmod m1 s" "act m2 A2p0 (act m2 InvA2 s) = vmod m2 s"
  "act m1 InvA1 (act m1 A1p0 s) = vmod m1 s" "act m2 InvA2 (act m2 A2p0 s) = vmod m2 s"
  by (simp_all add: act_MatMat [symmetric] InvA1_correct InvA2_correct act_identity)

section \<open>Values that are exact as doubles\<close>

lemma c_div_bounds:
  assumes "0 < m"
  shows "\<bar>v - c_div v m * m\<bar> < m" and "\<bar>c_div v m * m\<bar> \<le> \<bar>v\<bar>"
proof -
  have pos: "0 \<le> w - w div m * m \<and> w - w div m * m < m \<and> 0 \<le> w div m * m" if "0 \<le> w" for w
    using assms that by (simp add: minus_div_mult_eq_mod pos_imp_zdiv_nonneg_iff)
  have "c_div v m * m = (if 0 \<le> v then v div m * m else - (- v div m * m))"
    using assms by (cases "v = 0") (auto simp: c_div_def)
  with pos [of v] pos [of "- v"] show "\<bar>v - c_div v m * m\<bar> < m" "\<bar>c_div v m * m\<bar> \<le> \<bar>v\<bar>"
    by (auto simp: abs_if split: if_splits)
qed

lemma abs_mult_le: "\<bar>x\<bar> \<le> a \<Longrightarrow> \<bar>y\<bar> \<le> b \<Longrightarrow> \<bar>x * y\<bar> \<le> a * b" for a b x y :: int
  unfolding abs_mult by (rule mult_mono) auto

text \<open>For arguments of the size the generator uses, no value of \<open>MultModM\<close> exceeds \<open>2\<^sup>5\<^sup>3\<close>.\<close>

lemma MultModM_values_exact:
  assumes a: "-2097152 \<le> a" "a \<le> 4294967296" and s: "0 \<le> s" "s \<le> 4294967296"
    and c: "0 \<le> c" "c \<le> 4294967296" and m: "0 < m" "m \<le> 4294967296"
  shows "\<forall>v \<in> set (MultModM_values a s c m). \<bar>v\<bar> \<le> two53"
proof (cases "a * s + c \<ge> two53 \<or> a * s + c \<le> - two53")
  case False
  have "-2097152 * 4294967296 \<le> a * s"
    using mult_right_mono [OF a(1) s(1)] s(2) by simp
  then have as: "\<bar>a * s\<bar> \<le> two53" "\<bar>a * s + c\<bar> \<le> two53" using False c by (auto simp: two53_def)
  with c_div_bounds [OF m(1), of "a * s + c"] m(2) False show ?thesis
    by (auto simp: MultModM_values_def Let_def two53_def)
next
  case True
  define a1 where "a1 = c_div a two17"
  define a2 where "a2 = a - a1 * two17"
  define w where "w = a1 * s - c_div (a1 * s) m * m"
  define v where "v = w * two17 + a2 * s + c"
  have a12: "\<bar>a2\<bar> \<le> two17" "\<bar>a1 * two17\<bar> \<le> 4294967296"
    using c_div_bounds [of two17 a] a by (auto simp: a1_def a2_def two17_def)
  then have a1: "\<bar>a1\<bar> \<le> 32768" by (simp add: two17_def)
  have s': "\<bar>s\<bar> \<le> 4294967296" using s by simp
  have v2: "\<bar>a1 * s\<bar> \<le> 32768 * 4294967296" by (rule abs_mult_le [OF a1 s'])
  have as: "\<bar>a2 * s\<bar> \<le> two17 * 4294967296" by (rule abs_mult_le [OF a12(1) s'])
  have w: "\<bar>w\<bar> < m" "\<bar>c_div (a1 * s) m * m\<bar> \<le> \<bar>a1 * s\<bar>" using c_div_bounds [OF m(1)] by (simp_all add: w_def)
  then have wt: "\<bar>w * two17\<bar> \<le> 4294967296 * two17" using m(2) by (intro abs_mult_le) (simp_all add: two17_def)
  then have v: "\<bar>w * two17 + a2 * s\<bar> \<le> 2 * 4294967296 * two17" "\<bar>v\<bar> \<le> 2 * 4294967296 * two17 + 4294967296"
    using as c by (auto simp: v_def two17_def)
  have list: "MultModM_values a s c m = [a1 * two17, a2, a1 * s, c_div (a1 * s) m * m, w, w * two17, a2 * s,
      w * two17 + a2 * s, v, c_div v m * m, v - c_div v m * m, v - c_div v m * m + m]"
    using True by (simp add: MultModM_values_def Let_def a1_def a2_def w_def v_def)
  have "\<bar>v - c_div v m * m + m\<bar> \<le> two53"
    using c_div_bounds(1) [OF m(1), of v] m(2) unfolding two53_def by linarith
  then show ?thesis
    unfolding list using a12 v2 as w wt v c_div_bounds [OF m(1), of v] m(2) by (auto simp: two53_def two17_def)
qed

lemma MultModM_in_values: "MultModM a s c m \<in> set (MultModM_values a s c m)"
  by (simp add: MultModM_def MultModM_values_def Let_def)

text \<open>Whatever the rounding \<open>fl\<close> of doubles does beyond \<open>2\<^sup>5\<^sup>3\<close>, as long as it is monotonic.\<close>

lemma MultModM_test_exact:
  fixes fl :: "int \<Rightarrow> int"
  assumes fl: "mono fl" "\<And>v. \<bar>v\<bar> \<le> two53 \<Longrightarrow> fl v = v" and as: "- two53 \<le> a * s" and c: "0 \<le> c"
  shows "fl (fl (a * s) + c) \<ge> two53 \<or> fl (fl (a * s) + c) \<le> - two53 \<longleftrightarrow> a * s + c \<ge> two53 \<or> a * s + c \<le> - two53"
proof (cases "fl (a * s) + c \<ge> two53")
  case True
  have "two53 \<le> fl (fl (a * s) + c)" using monoD [OF fl(1) True] fl(2) [of two53] by (simp add: two53_def)
  moreover have "two53 \<le> a * s + c"
  proof (rule ccontr)
    assume "\<not> two53 \<le> a * s + c"
    then show False using True fl(2) [of "a * s"] as c by simp
  qed
  ultimately show ?thesis by simp
next
  case False
  have "a * s < two53"
  proof (rule ccontr)
    assume "\<not> a * s < two53"
    then have "two53 \<le> fl (a * s)" using monoD [OF fl(1), of two53 "a * s"] fl(2) [of two53] by (simp add: two53_def)
    then show False using False c by simp
  qed
  then have "fl (a * s) = a * s" using as by (intro fl(2)) simp
  moreover have "fl (a * s + c) = a * s + c" using False as c calculation by (intro fl(2)) simp
  ultimately show ?thesis by simp
qed

section \<open>Fast jumps\<close>

text \<open>The power of a matrix applied to a vector, by squaring coefficients and reducing with
  \<open>red_sum\<close>. It is used to evaluate the generator far from its seed.\<close>

definition act32 :: "int \<Rightarrow> mat3 \<Rightarrow> vec3 \<Rightarrow> vec3" where
  "act32 k A s = (case mv A s of Vec3 x y z \<Rightarrow> Vec3 (red_sum k x) (red_sum k y) (red_sum k z))"

lemma act32_act: "act32 k A s = act (4294967296 - k) A s"
  by (simp add: act32_def act_def fmod_mod split: vec3.split)

fun pfast :: "int \<Rightarrow> (vec3 \<Rightarrow> vec3) \<Rightarrow> vec3 \<Rightarrow> vec3 \<Rightarrow> vec3" where
  "pfast k f (Vec3 c0 c1 c2) s =
     (case s of Vec3 x y z \<Rightarrow> case f s of Vec3 x' y' z' \<Rightarrow> case f (f s) of Vec3 x'' y'' z'' \<Rightarrow>
        Vec3 (red_sum k (c0 * x + c1 * x' + c2 * x'')) (red_sum k (c0 * y + c1 * y' + c2 * y''))
          (red_sum k (c0 * z + c1 * z' + c2 * z'')))"

primrec of_bits :: "bool list \<Rightarrow> nat" where
  "of_bits [] = 0"
| "of_bits (b # bs) = (if b then 1 else 0) + 2 * of_bits bs"

primrec fast_jump :: "int \<Rightarrow> (vec3 \<Rightarrow> vec3) \<Rightarrow> (vec3 \<Rightarrow> vec3) \<Rightarrow> bool list \<Rightarrow> vec3 \<Rightarrow> vec3 \<Rightarrow> vec3" where
  "fast_jump k f sq [] c s = s"
| "fast_jump k f sq (b # bs) c s = fast_jump k f sq bs (sq c) (if b then pfast k f c s else s)"

lemma pfast_pact:
  assumes "m = 4294967296 - k" and "\<And>s. f s = act m A s"
  shows "pfast k f c s = pact m A c s"
proof -
  obtain c0 c1 c2 x y z where c: "c = Vec3 c0 c1 c2" and s: "s = Vec3 x y z" by (metis vec3.exhaust)
  obtain x' y' z' where y: "mv A s = Vec3 x' y' z'" by (metis vec3.exhaust)
  obtain x'' y'' z'' where z: "mv A (mv A s) = Vec3 x'' y'' z''" by (metis vec3.exhaust)
  have "f (f s) = vmod m (mv A (mv A s))" using assms(2) act_vmod by (simp add: act_def)
  then have ff: "f (f s) = Vec3 (x'' mod m) (y'' mod m) (z'' mod m)" "f s = Vec3 (x' mod m) (y' mod m) (z' mod m)"
    using assms(2) [of s] z by (simp_all add: y act_def)
  show ?thesis
    unfolding c s pfast.simps pact_def comb_def y [unfolded s] z [unfolded s y [unfolded s]] ff(2) [unfolded s]
      ff(1) [unfolded s ff(2) [unfolded s]] vec3.case
      fmod_mod assms(1) [symmetric] vmod.simps vec3.inject
    by (auto intro!: mod_add_cong mod_mult_cong)
qed

lemma fast_jump_pact:
  assumes "m = 4294967296 - k" and "\<And>s. f s = act m A s" and "\<And>c s. pact m A (sq c) s = pact m A c (pact m A c s)"
  shows "fast_jump k f sq bs c s = (pact m A c ^^ of_bits bs) s"
proof (induction bs arbitrary: c s)
  case (Cons b bs)
  have "pact m A (sq c) = (\<lambda>s. pact m A c (pact m A c s))" using assms(3) by blast
  with Cons show ?case by (simp add: pfast_pact [OF assms(1,2)] funpow_twice funpow_swap1)
qed simp

end
