(* ===== verification/Ns_Rng.thy ===== *)
theory Ns_Rng
  imports Ns_RngMat "HOL-Library.Power_By_Squaring"
begin

text \<open>
  The random number generator of the simulator, the class \<^verbatim>\<open>RNG\<close> of \<^verbatim>\<open>ns2-gea/ns-2/tools/rng.h\<close>
  and \<^verbatim>\<open>rng.cc\<close>: the combined multiple recursive generator with its streams, substreams and seeds,
  and the multiplicative generator that \<^verbatim>\<open>OLD_RNG\<close> selects.

  The six numbers of a state are two \<open>vec3\<close>, one for each component of the generator. The static
  \<^verbatim>\<open>next_seed_\<close> and \<^verbatim>\<open>heuristic_sequence\<close> are the record \<open>statics\<close>, which is passed along; the
  readings of \<^verbatim>\<open>gettimeofday\<close> are a parameter. The numbers returned are rationals. The
  distributions that need logarithms and powers are not modelled.
\<close>

section \<open>The generator\<close>

type_synonym seed6 = "vec3 \<times> vec3"

record RNG =
  Cg :: seed6
  Bg :: seed6
  Ig :: seed6
  anti :: bool
  inc_prec :: bool
  name :: string

record statics =
  next_seed :: seed6
  heuristic_sequence :: int
  readings :: nat

definition initial_statics :: statics where
  "initial_statics = \<lparr>next_seed = (Vec3 12345 12345 12345, Vec3 12345 12345 12345), heuristic_sequence = 0, readings = 0\<rparr>"

text \<open>One step of each component; the last number is the new one.\<close>

primrec step1 :: "vec3 \<Rightarrow> vec3" where
  "step1 (Vec3 c0 c1 c2) =
     (let p = a12 * c1 - a13n * c0; k = c_div p m1; p1 = p - k * m1
      in Vec3 c1 c2 (if p1 < 0 then p1 + m1 else p1))"

primrec step2 :: "vec3 \<Rightarrow> vec3" where
  "step2 (Vec3 c3 c4 c5) =
     (let p = a21 * c5 - a23n * c3; k = c_div p m2; p2 = p - k * m2
      in Vec3 c4 c5 (if p2 < 0 then p2 + m2 else p2))"

primrec newest :: "vec3 \<Rightarrow> int" where
  "newest (Vec3 a b c) = c"

primrec oldest :: "vec3 \<Rightarrow> int" where
  "oldest (Vec3 a b c) = a"

definition U01 :: "RNG \<Rightarrow> double \<times> RNG" where
  "U01 R =
     (let s1 = step1 (fst (Cg R)); s2 = step2 (snd (Cg R)); p1 = newest s1; p2 = newest s2;
          u = (if p1 > p2 then of_int (p1 - p2) * norm01 else of_int (p1 - p2 + m1) * norm01)
      in (if \<not> anti R then u else 1 - u, R\<lparr>Cg := (s1, s2)\<rparr>))"

definition U01d :: "RNG \<Rightarrow> double \<times> RNG" where
  "U01d R =
     (let (u, R1) = U01 R; (v, R2) = U01 R1 in
      if anti R then let w = u + (v - 1) * fact24 in (if w < 0 then w + 1 else w, R2)
      else let w = u + v * fact24 in (if w < 1 then w else w - 1, R2))"

definition rand_u01 :: "RNG \<Rightarrow> double \<times> RNG" where
  "rand_u01 R = (if inc_prec R then U01d R else U01 R)"

text \<open>\<^verbatim>\<open>long\<close> and \<^verbatim>\<open>unsigned long\<close> have 64 bits.\<close>

definition rand_int :: "int \<Rightarrow> int \<Rightarrow> RNG \<Rightarrow> int \<times> RNG" where
  "rand_int low high R =
     (let (u, R1) = rand_u01 R; n = uint (word_of_int (high - low + 1) :: u64)
      in (sint (word_of_int (low + \<lfloor>of_int n * u\<rfloor>) :: u64), R1))"

definition rng_next :: "RNG \<Rightarrow> int \<times> RNG" where
  "rng_next R = rand_int 0 MAXINT R"

definition uniform_positive_int :: "RNG \<Rightarrow> int \<times> RNG" where
  "uniform_positive_int R = (let (k, R1) = rng_next R in (sint (word_of_int k :: u32), R1))"

text \<open>\<^verbatim>\<open>uniform(0)\<close> divides by zero.\<close>

definition uniform_int :: "int \<Rightarrow> RNG \<Rightarrow> (int \<times> RNG) result" where
  "uniform_int k R =
     (let (n, R1) = uniform_positive_int R; d = uint (word_of_int k :: u32)
      in if d = 0 then Inl DivisionByZero
         else Inr (sint (word_of_int (uint (word_of_int n :: u32) mod d) :: u32), R1))"

definition uniform_between :: "double \<Rightarrow> double \<Rightarrow> RNG \<Rightarrow> double \<times> RNG" where
  "uniform_between a b R = (let (u, R1) = rand_u01 R in (a + (b - a) * u, R1))"

section \<open>Streams and seeds\<close>

definition jump :: "mat3 \<Rightarrow> mat3 \<Rightarrow> seed6 \<Rightarrow> seed6" where
  "jump A1 A2 s = (MatVecModM A1 (fst s) m1, MatVecModM A2 (snd s) m2)"

definition init :: "statics \<Rightarrow> RNG \<Rightarrow> statics \<times> RNG" where
  "init st R =
     (let s = next_seed st
      in (st\<lparr>next_seed := jump A1p127 A2p127 s\<rparr>, R\<lparr>anti := False, inc_prec := False, Bg := s, Cg := s, Ig := s\<rparr>))"

definition reset_start_stream :: "RNG \<Rightarrow> RNG" where
  "reset_start_stream R = R\<lparr>Cg := Ig R, Bg := Ig R\<rparr>"

definition reset_start_substream :: "RNG \<Rightarrow> RNG" where
  "reset_start_substream R = R\<lparr>Cg := Bg R\<rparr>"

definition reset_next_substream :: "RNG \<Rightarrow> RNG" where
  "reset_next_substream R = (let b = jump A1p76 A2p76 (Bg R) in R\<lparr>Bg := b, Cg := b\<rparr>)"

text \<open>The seed of a vector of \<^verbatim>\<open>unsigned long\<close>; the result is 0 or -1 as in the code.\<close>

fun CheckSeed :: "seed6 \<Rightarrow> int" where
  "CheckSeed (Vec3 s0 s1 s2, Vec3 s3 s4 s5) =
     (if s0 \<ge> m1 \<or> s1 \<ge> m1 \<or> s2 \<ge> m1 then -1
      else if s3 \<ge> m2 \<or> s4 \<ge> m2 \<or> s5 \<ge> m2 then -1
      else if s0 = 0 \<and> s1 = 0 \<and> s2 = 0 then -1
      else if s3 = 0 \<and> s4 = 0 \<and> s5 = 0 then -1
      else 0)"

definition rng_abort :: gea_error where
  "rng_abort = AssertFailed ''abort''"

definition set_package_seed :: "seed6 \<Rightarrow> statics \<Rightarrow> statics result" where
  "set_package_seed s st = (if CheckSeed s \<noteq> 0 then Inl rng_abort else Inr (st\<lparr>next_seed := s\<rparr>))"

definition set_seed6 :: "seed6 \<Rightarrow> RNG \<Rightarrow> RNG result" where
  "set_seed6 s R = (if CheckSeed s \<noteq> 0 then Inl rng_abort else Inr (R\<lparr>Cg := s, Bg := s, Ig := s\<rparr>))"

definition advance_state :: "int \<Rightarrow> int \<Rightarrow> RNG \<Rightarrow> RNG" where
  "advance_state e c R =
     (let B1 = (if e > 0 then MatTwoPowModM A1p0 m1 (nat e) else MatTwoPowModM InvA1 m1 (nat (- e)));
          B2 = (if e > 0 then MatTwoPowModM A2p0 m2 (nat e) else MatTwoPowModM InvA2 m2 (nat (- e)));
          C1 = (if c \<ge> 0 then MatPowModM A1p0 m1 (nat c) else MatPowModM InvA1 m1 (nat (- c)));
          C2 = (if c \<ge> 0 then MatPowModM A2p0 m2 (nat c) else MatPowModM InvA2 m2 (nat (- c)));
          D1 = (if e \<noteq> 0 then MatMatModM B1 C1 m1 else C1);
          D2 = (if e \<noteq> 0 then MatMatModM B2 C2 m2 else C2)
      in R\<lparr>Cg := jump D1 D2 (Cg R)\<rparr>)"

definition get_state :: "RNG \<Rightarrow> seed6" where
  "get_state R = Cg R"

definition seed :: "RNG \<Rightarrow> int" where
  "seed R = oldest (fst (get_state R))"

definition predef_seeds :: "int list" where
  "predef_seeds =
     [1973272912, 188312339, 1072664641, 694388766, 2009044369, 934100682, 1972392646, 1936856304,
      1598189534, 1822174485, 1871883252, 558746720, 605846893, 1384311643, 2081634991, 1644999263,
      773370613, 358485174, 1996632795, 1000004583, 1769370802, 1895218768, 186872697, 1859168769,
      349544396, 1996610406, 222735214, 1334983095, 144443207, 720236707, 762772169, 437720306,
      939612284, 425414105, 1998078925, 981631283, 1024155645, 822780843, 701857417, 960703545,
      2101442385, 2125204119, 2041095833, 89865291, 898723423, 1859531344, 764283187, 1349341884,
      678622600, 778794064, 1319566104, 1277478588, 538474442, 683102175, 999157082, 985046914,
      722594620, 1695858027, 1700738670, 1995749838, 1147024708, 346983590, 565528207, 513791680]"

datatype RNGSources = RAW_SEED_SOURCE | PREDEF_SEED_SOURCE | HEURISTIC_SEED_SOURCE

text \<open>The switch of \<^verbatim>\<open>set_seed(source, seed)\<close>: the seed to use. \<open>tv\<close> are the readings of
  \<^verbatim>\<open>gettimeofday\<close> in seconds and microseconds.\<close>

fun source_seed :: "(nat \<Rightarrow> int \<times> int) \<Rightarrow> RNGSources \<Rightarrow> int \<Rightarrow> statics \<Rightarrow> (int \<times> statics) result" where
  "source_seed tv RAW_SEED_SOURCE s st = (if s \<le> 0 \<or> s \<ge> MAXINT then Inl rng_abort else Inr (s, st))"
| "source_seed tv PREDEF_SEED_SOURCE s st =
     (if s < 0 \<or> s \<ge> 64 then Inl rng_abort else Inr (predef_seeds ! nat s, st))"
| "source_seed tv HEURISTIC_SEED_SOURCE s st =
     (let (sec, usec) = tv (readings st); h = heuristic_sequence st + 1
      in Inr (((sec XOR usec) XOR push_bit 8 h) AND 0x7fffffff,
           st\<lparr>heuristic_sequence := h, readings := Suc (readings st)\<rparr>))"

text \<open>\<^verbatim>\<open>set_seed(long)\<close> asks for a heuristic seed when it is given 0, and \<^verbatim>\<open>set_seed(source, seed)\<close>
  calls it; with heuristic seeds that are 0 again they would call each other for ever, so they take
  fuel.\<close>

fun set_seed_long and set_seed_source where
  "set_seed_long tv 0 s st R = Inl OutOfFuel"
| "set_seed_long tv (Suc n) s st R =
     (if s = 0 then set_seed_source tv n HEURISTIC_SEED_SOURCE 0 st R
      else let v = uint (word_of_int s :: u64) in
        bindE (set_package_seed (Vec3 v v v, Vec3 v v v) st) (\<lambda>st1. Inr (init st1 R)))"
| "set_seed_source tv 0 src s st R = Inl OutOfFuel"
| "set_seed_source tv (Suc n) src s st R =
     bindE (source_seed tv src s st) (\<lambda>(s1, st1).
       bindE (set_seed_long tv n (if s1 < 0 then - s1 else s1) st1 R) (\<lambda>(st2, R2).
         Inr (st2, if src = HEURISTIC_SEED_SOURCE then ((\<lambda>R. snd (rng_next R)) ^^ 128) R2 else R2)))"

text \<open>The constructors. That for a name copies at most 99 characters but then writes
  \<^verbatim>\<open>name_[100]\<close>, behind the end of the array.\<close>

definition new_RNG_name :: "string \<Rightarrow> statics \<Rightarrow> RNG \<Rightarrow> (statics \<times> RNG) result" where
  "new_RNG_name s st R =
     (if length s > 99 then Inl BufferOverflow else let (st1, R1) = init st R in Inr (st1, R1\<lparr>name := s\<rparr>))"

definition new_RNG_seed :: "(nat \<Rightarrow> int \<times> int) \<Rightarrow> nat \<Rightarrow> int \<Rightarrow> statics \<Rightarrow> RNG \<Rightarrow> (statics \<times> RNG) result" where
  "new_RNG_seed tv n s st R = bindE (set_seed_long tv n s st R) (\<lambda>(st1, R1). Inr (init st1 R1))"

definition new_RNG_source ::
    "(nat \<Rightarrow> int \<times> int) \<Rightarrow> nat \<Rightarrow> RNGSources \<Rightarrow> int \<Rightarrow> statics \<Rightarrow> RNG \<Rightarrow> (statics \<times> RNG) result" where
  "new_RNG_source tv n src s st R = set_seed_source tv n src s st R"

section \<open>The old generator\<close>

definition old_A :: int where "old_A = 16807"

definition old_next :: "int \<Rightarrow> int" where
  "old_next s =
     (let L = old_A * (s AND 0xffff); H = old_A * drop_bit 16 s;
          s1 = push_bit 16 (H AND 0x7fff) + L; s2 = s1 - 0x7fffffff; s3 = s2 + drop_bit 15 H
      in if s3 \<le> 0 then s3 + 0x7fffffff else s3)"

section \<open>Steps and jumps\<close>

primrec in_range :: "int \<Rightarrow> vec3 \<Rightarrow> bool" where
  "in_range m (Vec3 a b c) = (0 \<le> a \<and> a < m \<and> 0 \<le> b \<and> b < m \<and> 0 \<le> c \<and> c < m)"

definition seed_ok :: "seed6 \<Rightarrow> bool" where
  "seed_ok s \<longleftrightarrow> in_range m1 (fst s) \<and> in_range m2 (snd s)"

definition rng_ok :: "RNG \<Rightarrow> bool" where
  "rng_ok R \<longleftrightarrow> seed_ok (Cg R) \<and> seed_ok (Bg R) \<and> seed_ok (Ig R)"

definition step :: "seed6 \<Rightarrow> seed6" where
  "step s = (step1 (fst s), step2 (snd s))"

lemma in_range_vmod: "0 < m \<Longrightarrow> in_range m (vmod m s)"
  by (cases s) simp

lemma vmod_in_range: "in_range m s \<Longrightarrow> vmod m s = s"
  by (cases s) simp

lemma in_range_act: "0 < m \<Longrightarrow> in_range m (act m A s)"
  by (simp add: act_def in_range_vmod)

text \<open>The recurrences of the generator are the actions of the two matrices.\<close>

lemma step1_act: "in_range m1 s \<Longrightarrow> step1 s = act m1 A1p0 s"
  using c_div_rem [of m1] by (cases s) (simp add: act_def A1p0_def a12_def a13n_def Let_def algebra_simps)

lemma step2_act: "in_range m2 s \<Longrightarrow> step2 s = act m2 A2p0 s"
  using c_div_rem [of m2] by (cases s) (simp add: act_def A2p0_def a21_def a23n_def Let_def algebra_simps)

lemma step_act: "seed_ok s \<Longrightarrow> step s = (act m1 A1p0 (fst s), act m2 A2p0 (snd s))"
  by (simp add: seed_ok_def step_def step1_act step2_act)

lemma step_ok: "seed_ok s \<Longrightarrow> seed_ok (step s)"
  by (simp add: step_act) (simp add: seed_ok_def in_range_act)

lemma funpow_ok: "seed_ok s \<Longrightarrow> seed_ok ((step ^^ n) s)"
  by (induction n) (simp_all add: step_ok)

lemma funpow_step: "seed_ok s \<Longrightarrow> (step ^^ n) s = ((act m1 A1p0 ^^ n) (fst s), (act m2 A2p0 ^^ n) (snd s))"
proof (induction n)
  case (Suc n)
  with funpow_ok [OF Suc.prems, of n] show ?case by (simp add: step_act)
qed simp

lemma jump_act: "jump A B s = (act m1 A (fst s), act m2 B (snd s))"
  by (simp add: jump_def MatVecModM_act)

lemma jump_ok: "seed_ok (jump A B s)"
  by (simp add: jump_act seed_ok_def in_range_act)

lemma jump_76: "seed_ok s \<Longrightarrow> jump A1p76 A2p76 s = (step ^^ (2 ^ 76)) s"
  by (simp add: jump_act funpow_step act_A1p76 act_A2p76)

lemma jump_127: "seed_ok s \<Longrightarrow> jump A1p127 A2p127 s = (step ^^ (2 ^ 127)) s"
  by (simp add: jump_act funpow_step act_A1p127 act_A2p127)

text \<open>Jumping by \<^verbatim>\<open>advance_state\<close>: how many steps forward its arguments ask for, and how many
  back.\<close>

definition steps_forward :: "int \<Rightarrow> int \<Rightarrow> nat" where
  "steps_forward e c = (if e > 0 then 2 ^ nat e else 0) + (if c \<ge> 0 then nat c else 0)"

definition steps_back :: "int \<Rightarrow> int \<Rightarrow> nat" where
  "steps_back e c = (if e < 0 then 2 ^ nat (- e) else 0) + (if c < 0 then nat (- c) else 0)"

lemma funpow_cancel:
  assumes "\<And>s. P s \<Longrightarrow> f (g s) = s" and "\<And>s. P s \<Longrightarrow> P (g s)" and "P s"
  shows "(f ^^ n) ((g ^^ n) s) = s"
proof -
  have P: "P ((g ^^ n) s)" for n using assms(2,3) by (induction n) auto
  show ?thesis
  proof (induction n)
    case (Suc n)
    have "(f ^^ Suc n) ((g ^^ Suc n) s) = (f ^^ n) (f (g ((g ^^ n) s)))" by (simp add: funpow_swap1)
    with assms(1) [OF P] Suc show ?case by simp
  qed simp
qed

lemma in_range_funpow: "0 < m \<Longrightarrow> in_range m s \<Longrightarrow> in_range m ((act m A ^^ n) s)"
  by (cases n) (simp_all add: in_range_act)

lemma advance_component:
  assumes m: "0 < m" and s: "in_range m s" and inv: "\<And>s. act m A (act m I s) = vmod m s"
    and B: "act m B = (if e > 0 then act m A ^^ (2 ^ nat e) else act m I ^^ (2 ^ nat (- e)))"
    and C: "act m C s = (if c \<ge> 0 then (act m A ^^ nat c) s else (act m I ^^ nat (- c)) s)"
  shows "(act m A ^^ steps_back e c) (act m (if e \<noteq> 0 then MatMatModM B C m else C) s) = (act m A ^^ steps_forward e c) s"
proof -
  have cancel: "(act m A ^^ n) ((act m I ^^ n) s') = s'" if "in_range m s'" for n s'
    by (rule funpow_cancel [where P = "in_range m"]) (use that m inv in \<open>simp_all add: in_range_act vmod_in_range\<close>)
  have commute: "(act m A ^^ i) ((act m A ^^ j) s') = (act m A ^^ j) ((act m A ^^ i) s')" for i j s'
    by (metis add.commute comp_apply funpow_add)
  note r = in_range_funpow [OF m]
  consider "e = 0" | "0 < e" "0 \<le> c" | "0 < e" "c < 0" | "e < 0" "0 \<le> c" | "e < 0" "c < 0" by linarith
  then show ?thesis
  proof cases
    case 1
    then show ?thesis using C cancel [OF s] by (simp add: steps_back_def steps_forward_def)
  next
    case 2
    then show ?thesis using B C by (simp add: steps_back_def steps_forward_def act_MatMat m funpow_add)
  next
    case 3
    then have "act m (MatMatModM B C m) s = (act m A ^^ (2 ^ nat e)) ((act m I ^^ nat (- c)) s)"
      using B C by (simp add: act_MatMat m)
    with 3 cancel [OF s, of "nat (- c)"] commute [of "nat (- c)" "2 ^ nat e" "(act m I ^^ nat (- c)) s"] show ?thesis
      by (simp add: steps_back_def steps_forward_def)
  next
    case 4
    then have "act m (MatMatModM B C m) s = (act m I ^^ (2 ^ nat (- e))) ((act m A ^^ nat c) s)"
      using B C by (simp add: act_MatMat m)
    with 4 cancel [OF r [OF s]] show ?thesis by (simp add: steps_back_def steps_forward_def)
  next
    case 5
    then have "act m (MatMatModM B C m) s = (act m I ^^ (2 ^ nat (- e))) ((act m I ^^ nat (- c)) s)"
      using B C by (simp add: act_MatMat m)
    with 5 cancel [OF r [OF s]] cancel [OF s] commute show ?thesis
      by (simp add: steps_back_def steps_forward_def funpow_add)
  qed
qed

lemma advance_steps:
  assumes "seed_ok (Cg R)"
  shows "seed_ok (Cg (advance_state e c R)) \<and>
    (step ^^ steps_back e c) (Cg (advance_state e c R)) = (step ^^ steps_forward e c) (Cg R)"
proof -
  have ok: "seed_ok (Cg (advance_state e c R))" by (simp add: advance_state_def Let_def jump_ok)
  have r: "in_range m1 (fst (Cg R))" "in_range m2 (snd (Cg R))" using assms by (simp_all add: seed_ok_def)
  note one = advance_component [OF m1_pos r(1) act_Inv(1), where e = e and c = c]
  note two = advance_component [OF m2_pos r(2) act_Inv(2), where e = e and c = c]
  show ?thesis
    using ok r by (simp add: funpow_step assms) (simp add: advance_state_def Let_def jump_act one two
      act_MatTwoPow act_MatPow vmod_in_range)
qed

section \<open>The numbers\<close>

lemma newest_range: "in_range m s \<Longrightarrow> 0 \<le> newest s \<and> newest s < m"
  by (cases s) simp

lemma U01_state: "Cg (snd (U01 R)) = step (Cg R)" "Bg (snd (U01 R)) = Bg R" "Ig (snd (U01 R)) = Ig R"
  "anti (snd (U01 R)) = anti R" "inc_prec (snd (U01 R)) = inc_prec R"
  by (simp_all add: U01_def Let_def step_def)

lemma U01_fraction:
  assumes "seed_ok (Cg R)"
  obtains k where "1 \<le> k" "k \<le> m1" "fst (U01 R) = of_int k / (of_int m1 + 1)"
proof -
  let ?p1 = "newest (step1 (fst (Cg R)))" and ?p2 = "newest (step2 (snd (Cg R)))"
  define d where "d = (if ?p1 > ?p2 then ?p1 - ?p2 else ?p1 - ?p2 + m1)"
  have "0 \<le> ?p1 \<and> ?p1 < m1" "0 \<le> ?p2 \<and> ?p2 < m2"
    using step_ok [OF assms] newest_range [of m1 "step1 (fst (Cg R))"] newest_range [of m2 "step2 (snd (Cg R))"]
    by (simp_all add: seed_ok_def step_def)
  then have d: "1 \<le> d" "d \<le> m1" by (auto simp: d_def m1_def m2_def)
  have u: "fst (U01 R) = (if \<not> anti R then of_int d * norm01 else 1 - of_int d * norm01)"
    by (simp add: U01_def Let_def d_def)
  show thesis
  proof (cases "anti R")
    case True
    then have "fst (U01 R) = of_int (m1 + 1 - d) / (of_int m1 + 1)"
      using u by (simp add: norm01_def field_simps m1_def)
    with d show thesis by (intro that [of "m1 + 1 - d"]) auto
  next
    case False
    then have "fst (U01 R) = of_int d / (of_int m1 + 1)" using u by (simp add: norm01_def)
    with d show thesis by (rule that)
  qed
qed

lemma U01_bounds: "seed_ok (Cg R) \<Longrightarrow> 0 < fst (U01 R) \<and> fst (U01 R) < 1"
  by (erule U01_fraction) (auto simp: field_simps m1_def)

lemma U01d_bounds:
  assumes "seed_ok (Cg R)"
  shows "0 \<le> fst (U01d R) \<and> fst (U01d R) < 1" and "Cg (snd (U01d R)) = step (step (Cg R))"
proof -
  have u: "0 < fst (U01 R) \<and> fst (U01 R) < 1" by (rule U01_bounds [OF assms])
  have v: "0 < fst (U01 (snd (U01 R))) \<and> fst (U01 (snd (U01 R))) < 1"
    by (rule U01_bounds) (simp add: U01_state step_ok assms)
  show "0 \<le> fst (U01d R) \<and> fst (U01d R) < 1"
    using u v by (auto simp: U01d_def Let_def split_beta fact24_def field_simps)
  show "Cg (snd (U01d R)) = step (step (Cg R))"
    by (simp add: U01d_def Let_def split_beta U01_state)
qed

lemma rand_u01_bounds:
  assumes "seed_ok (Cg R)"
  shows "0 \<le> fst (rand_u01 R) \<and> fst (rand_u01 R) < 1"
    and "Cg (snd (rand_u01 R)) = (step ^^ (if inc_prec R then 2 else 1)) (Cg R)"
  using U01_bounds [OF assms] U01d_bounds [OF assms] by (auto simp: rand_u01_def U01_state numeral_2_eq_2)

lemma uint_in_range: "0 \<le> n \<Longrightarrow> n < 2 ^ 64 \<Longrightarrow> uint (word_of_int n :: u64) = n"
  by (simp add: uint_word_of_int)

lemma rand_int_range:
  assumes ok: "seed_ok (Cg R)" and "low \<le> high" and "- (2 ^ 63) \<le> low" and "high < 2 ^ 63" and n: "high - low + 1 < 2 ^ 63"
  shows "low \<le> fst (rand_int low high R) \<and> fst (rand_int low high R) \<le> high"
proof -
  define u where "u = fst (rand_u01 R)"
  have u: "0 \<le> u" "u < 1" using rand_u01_bounds [OF ok] by (simp_all add: u_def)
  have "uint (word_of_int (high - low + 1) :: u64) = high - low + 1"
    by (rule uint_in_range) (use assms in auto)
  moreover define k where "k = \<lfloor>of_int (high - low + 1) * u\<rfloor>"
  moreover have k: "0 \<le> k" "k < high - low + 1"
  proof -
    show "0 \<le> k" using u assms(2) by (simp add: k_def)
    have "of_int (high - low + 1) * u < of_int (high - low + 1) * 1"
      by (rule mult_strict_left_mono) (use u assms(2) in simp_all)
    then show "k < high - low + 1" unfolding k_def floor_less_iff by simp
  qed
  moreover have "sint (word_of_int (low + k) :: u64) = low + k"
    by (rule sint_word_of_int_in_range) (use k assms in linarith)+
  ultimately show ?thesis by (simp add: rand_int_def split_beta u_def [symmetric])
qed

lemma uniform_positive_int_range:
  assumes "seed_ok (Cg R)"
  shows "uniform_positive_int R = rng_next R" and "0 \<le> fst (rng_next R) \<and> fst (rng_next R) \<le> MAXINT"
proof -
  show r: "0 \<le> fst (rng_next R) \<and> fst (rng_next R) \<le> MAXINT"
    using rand_int_range [OF assms, of 0 MAXINT] by (simp add: rng_next_def MAXINT_def)
  have "sint (word_of_int k :: u32) = k" if "0 \<le> k" "k \<le> MAXINT" for k
    using that by transfer (simp add: MAXINT_def signed_take_bit_int_eq_self)
  with r show "uniform_positive_int R = rng_next R"
    by (simp add: uniform_positive_int_def split_beta)
qed

lemma uniform_int_range:
  assumes "seed_ok (Cg R)" and "0 < k" and "k \<le> MAXINT"
  shows "\<exists>x R'. uniform_int k R = Inr (x, R') \<and> 0 \<le> x \<and> x < k"
proof -
  have u: "uint (word_of_int j :: u32) = j" and s: "sint (word_of_int j :: u32) = j" if "0 \<le> j" "j \<le> MAXINT" for j
    using that by (transfer, simp add: MAXINT_def take_bit_int_eq_self signed_take_bit_int_eq_self)+
  have r: "0 \<le> fst (rng_next R)" "fst (rng_next R) \<le> MAXINT" using uniform_positive_int_range [OF assms(1)] by auto
  have "fst (rng_next R) mod k < k" "0 \<le> fst (rng_next R) mod k" using assms(2) by simp_all
  with u [OF r] u [of k] s [of "fst (rng_next R) mod k"] assms show ?thesis
    by (simp add: uniform_int_def split_beta uniform_positive_int_range [OF assms(1)])
qed

section \<open>Seeds\<close>

lemma set_seed_positive:
  assumes "0 < s" and "s < m2"
  shows "set_seed_long tv (Suc n) s st R =
    Inr (st\<lparr>next_seed := (step ^^ (2 ^ 127)) (Vec3 s s s, Vec3 s s s)\<rparr>,
      R\<lparr>anti := False, inc_prec := False, Bg := (Vec3 s s s, Vec3 s s s), Cg := (Vec3 s s s, Vec3 s s s), Ig := (Vec3 s s s, Vec3 s s s)\<rparr>)"
proof -
  have u: "uint (word_of_int s :: u64) = s" by (rule uint_in_range) (use assms in \<open>auto simp: m2_def\<close>)
  have ok: "seed_ok (Vec3 s s s, Vec3 s s s)" "CheckSeed (Vec3 s s s, Vec3 s s s) = 0"
    using assms by (auto simp: seed_ok_def m1_def m2_def)
  then show ?thesis
    using assms(1) by (simp add: u set_package_seed_def init_def Let_def jump_127 del: CheckSeed.simps)
qed

section \<open>The old generator is multiplication modulo a prime\<close>

lemma and_65535: "s AND 65535 = s mod 65536" and and_32767: "s AND 32767 = s mod 32768" for s :: int
  using take_bit_eq_mask [of 16 s] take_bit_eq_mask [of 15 s] by (simp_all add: take_bit_eq_mod mask_eq_exp_minus_1)

lemma old_next_mod:
  assumes "0 < s" and "s < 2147483647"
  shows "old_next s = 16807 * s mod 2147483647" and "0 < old_next s \<and> old_next s < 2147483647"
proof -
  define sl sh where "sl = s mod 65536" and "sh = s div 65536"
  define L H where "L = 16807 * sl" and "H = 16807 * sh"
  define hl hh where "hl = H mod 32768" and "hh = H div 32768"
  define x where "x = hl * 65536 + L + hh"
  have sr: "0 \<le> sl" "sl \<le> 65535" "0 \<le> sh" "sh \<le> 32767" "s = sh * 65536 + sl"
    using assms by (auto simp: sl_def sh_def)
  have hr: "0 \<le> hl" "hl \<le> 32767" "0 \<le> hh" "hh \<le> 16807" "H = hh * 32768 + hl"
    using sr by (auto simp: hl_def hh_def H_def)
  have x: "0 < x" "x < 2 * 2147483647"
    using sr hr assms by (auto simp: x_def L_def H_def)
  have As: "16807 * s = x + hh * 2147483647"
    using sr(5) hr(5) by (simp add: x_def L_def H_def algebra_simps)
  have nx: "old_next s = (if x - 2147483647 \<le> 0 then x else x - 2147483647)"
    by (simp add: old_next_def Let_def old_A_def x_def L_def H_def hl_def hh_def sl_def sh_def drop_bit_eq_div push_bit_eq_mult
      and_65535 and_32767)
  have "x \<noteq> 2147483647"
  proof
    assume "x = 2147483647"
    with As have "2147483647 dvd 16807 * s" by (metis dvd_triv_right distrib_right mult_1)
    moreover have "coprime (2147483647 :: int) 16807" by code_simp
    ultimately have "2147483647 dvd s" using coprime_dvd_mult_right_iff by blast
    with assms show False using zdvd_imp_le by fastforce
  qed
  with x nx show r: "0 < old_next s \<and> old_next s < 2147483647" by (auto split: if_splits)
  have "x mod 2147483647 = old_next s"
  proof (cases "x \<le> 2147483647")
    case False
    then have "x mod 2147483647 = (x - 2147483647) mod 2147483647" by (intro mod_pos_geq) simp_all
    also have "\<dots> = x - 2147483647" using x False by (intro mod_pos_pos_trivial) simp_all
    finally show ?thesis using nx False by simp
  qed (use r nx in simp)
  with As show "old_next s = 16807 * s mod 2147483647" by simp
qed

lemma old_next_power: "(old_next ^^ n) 1 = efficient_funpow (\<lambda>x y. x * y mod 2147483647) 1 16807 n"
proof -
  have "(old_next ^^ n) 1 = ((\<lambda>y. 16807 * y mod 2147483647) ^^ n) 1 \<and> 0 < (old_next ^^ n) 1 \<and> (old_next ^^ n) 1 < 2147483647"
    using old_next_mod by (induction n) auto
  moreover have "efficient_funpow (\<lambda>x y. x * y mod 2147483647) 1 16807 n = ((\<lambda>y. 16807 * y mod 2147483647) ^^ n) (1 :: int)"
    by (subst efficient_funpow_correct) (simp_all add: mod_simps mult.assoc)
  ultimately show ?thesis by simp
qed

section \<open>The numbers of the self test\<close>

text \<open>The state after as many steps as the bits say, evaluated by fast jumps.\<close>

definition far :: "bool list \<Rightarrow> seed6 \<Rightarrow> seed6" where
  "far bs s = (fast_jump 209 (act32 209 A1p0) (psq 209 x3_1 x4_1) bs (Vec3 0 1 0) (fst s),
     fast_jump 22853 (act32 22853 A2p0) (psq 22853 x3_2 x4_2) bs (Vec3 0 1 0) (snd s))"

lemma far_step:
  assumes "seed_ok s"
  shows "(step ^^ of_bits bs) s = far bs s"
proof -
  have f: "act32 209 A1p0 s = act m1 A1p0 s" "act32 22853 A2p0 s = act m2 A2p0 s" for s
    by (simp_all only: act32_act moduli)
  show ?thesis
    by (simp add: far_def funpow_step [OF assms] pact_act [abs_def]
      fast_jump_pact [OF moduli(1) [symmetric] f(1) pact_psq_1] fast_jump_pact [OF moduli(2) [symmetric] f(2) pact_psq_2])
qed

definition bits_9999 :: "bool list" where
  "bits_9999 = [True, True, True, True, False, False, False, False, True, True, True, False, False, True]"

lemma far_9999: "far bits_9999 (Vec3 1 1 1, Vec3 1 1 1)
    = (Vec3 2929631057 3156087053 3161523738, Vec3 3722186960 630459621 1854191534)"
  by code_simp

text \<open>What \<^verbatim>\<open>uniform_positive_int\<close> returns at the n-th call.\<close>

definition nth_number :: "nat \<Rightarrow> RNG \<Rightarrow> int" where
  "nth_number n R = fst (uniform_positive_int (((\<lambda>R. snd (uniform_positive_int R)) ^^ (n - 1)) R))"

lemma uniform_positive_int_state:
  "Cg (snd (uniform_positive_int R)) = Cg (snd (rand_u01 R))"
  by (simp add: uniform_positive_int_def rng_next_def rand_int_def split_beta)

lemma plain_steps:
  assumes "seed_ok (Cg R)" and "\<not> inc_prec R" and "\<not> anti R"
  shows "let R' = ((\<lambda>R. snd (uniform_positive_int R)) ^^ n) R in
    Cg R' = (step ^^ n) (Cg R) \<and> \<not> inc_prec R' \<and> \<not> anti R'"
proof (induction n)
  case 0
  then show ?case using assms by (simp add: Let_def)
next
  case (Suc n)
  then show ?case
    by (simp add: Let_def uniform_positive_int_def rng_next_def rand_int_def rand_u01_def split_beta U01_state)
qed

definition difference :: "seed6 \<Rightarrow> int" where
  "difference s = (if newest (fst s) > newest (snd s) then newest (fst s) - newest (snd s)
     else newest (fst s) - newest (snd s) + m1)"

lemma number_of_state:
  assumes "\<not> inc_prec R" and "\<not> anti R"
  shows "fst (rng_next R) = sint (word_of_int (2147483648 * difference (step (Cg R)) div (m1 + 1)) :: u64)"
proof -
  let ?d = "difference (step (Cg R))"
  have "of_int 2147483648 * (of_int ?d * norm01) = (of_int (2147483648 * ?d) / of_int (m1 + 1) :: double)"
    by (simp add: norm01_def)
  then have fl: "\<lfloor>of_int 2147483648 * (of_int ?d * norm01)\<rfloor> = 2147483648 * ?d div (m1 + 1)"
    by (simp only: floor_divide_of_int_eq)
  have u: "fst (rand_u01 R) = of_int ?d * norm01"
    using assms by (simp add: rand_u01_def U01_def Let_def difference_def step_def)
  show ?thesis
    using fl by (simp add: rng_next_def rand_int_def split_beta u MAXINT_def)
qed

lemma nth_number_state:
  assumes "seed_ok (Cg R)" and "\<not> inc_prec R" and "\<not> anti R"
  shows "nth_number (Suc n) R = sint (word_of_int (2147483648 * difference (step ((step ^^ n) (Cg R))) div (m1 + 1)) :: u64)"
proof -
  let ?R = "((\<lambda>R. snd (uniform_positive_int R)) ^^ n) R"
  have "Cg ?R = (step ^^ n) (Cg R)" "\<not> inc_prec ?R" "\<not> anti ?R"
    using plain_steps [OF assms, of n] by (simp_all add: Let_def)
  with funpow_ok [OF assms(1), of n] show ?thesis
    by (simp add: nth_number_def uniform_positive_int_range(1) number_of_state)
qed

definition bits_541246 :: "bool list" where
  "bits_541246 = [False, True, True, True, True, True, False, False, False, True, False, False, False, False, True,
     False, False, False, False, True]"

lemma far_551245: "far bits_541246 (Vec3 2929631057 3156087053 3161523738, Vec3 3722186960 630459621 1854191534)
    = (Vec3 1921100923 2539533446 886542235, Vec3 1814441572 1995934929 389804282)"
  by code_simp

lemma outputs_of_states:
  "2147483648 * difference (step (Vec3 2929631057 3156087053 3161523738, Vec3 3722186960 630459621 1854191534)) div (m1 + 1) = 1179983147"
  "2147483648 * difference (step (Vec3 1921100923 2539533446 886542235, Vec3 1814441572 1995934929 389804282)) div (m1 + 1) = 817829295"
  by code_simp+

section \<open>Properties\<close>

text \<open>C10. The self test of the repository holds of the model: from the seed 1, the 10000th number is
  1179983147 and the 551246th is 817829295.\<close>

theorem self_test:
  "\<exists>st' R. new_RNG_source tv (Suc (Suc n)) RAW_SEED_SOURCE 1 st R0 = Inr (st', R)
    \<and> nth_number 10000 R = 1179983147 \<and> nth_number 551246 R = 817829295"
proof -
  let ?s = "(Vec3 1 1 1, Vec3 1 1 1)"
  obtain st' R where R: "new_RNG_source tv (Suc (Suc n)) RAW_SEED_SOURCE 1 st R0 = Inr (st', R)"
    "Cg R = ?s" "\<not> inc_prec R" "\<not> anti R"
    using set_seed_positive [of 1 tv n st R0]
    by (auto simp: new_RNG_source_def MAXINT_def m2_def simp del: set_seed_long.simps)
  have ok: "seed_ok ?s" by (simp add: seed_ok_def m1_def m2_def)
  have bits: "9999 = of_bits bits_9999" "551245 = of_bits bits_541246 + of_bits bits_9999"
    by (simp_all add: bits_9999_def bits_541246_def)
  have "(step ^^ 9999) ?s = (Vec3 2929631057 3156087053 3161523738, Vec3 3722186960 630459621 1854191534)"
    unfolding bits far_step [OF ok] by (rule far_9999)
  moreover from this have "(step ^^ 551245) ?s = (Vec3 1921100923 2539533446 886542235, Vec3 1814441572 1995934929 389804282)"
    using far_551245 far_step [OF funpow_ok [OF ok], of bits_541246 9999] unfolding bits(2)
    by (simp add: funpow_add bits(1) [symmetric] del: of_bits.simps)
  ultimately show ?thesis
    using nth_number_state [of R 9999] nth_number_state [of R 551245] R ok
    by (intro exI [of _ st'] exI [of _ R]) (simp add: outputs_of_states)
qed

text \<open>C13. \<^verbatim>\<open>advance_state(e, c)\<close> jumps as far as documented, in both directions: by \<open>2\<^sup>e\<close> or
  \<open>- 2\<^sup>-\<^sup>e\<close> steps, or none if \<open>e = 0\<close>, plus \<open>c\<close> steps. As steps cannot be undone one by one, it is stated
  for the state from which the steps back lead to where the steps forward lead from the old one; and
  it leaves the starts of the stream and of the substream alone.\<close>

theorem advance_state_jumps:
  assumes "rng_ok R"
  shows "(step ^^ steps_back e c) (Cg (advance_state e c R)) = (step ^^ steps_forward e c) (Cg R)
    \<and> rng_ok (advance_state e c R) \<and> Bg (advance_state e c R) = Bg R \<and> Ig (advance_state e c R) = Ig R"
  using assms advance_steps [of R e c] by (auto simp: rng_ok_def) (simp_all add: advance_state_def Let_def)

definition demo_rng :: RNG where
  "demo_rng = \<lparr>Cg = next_seed initial_statics, Bg = next_seed initial_statics, Ig = next_seed initial_statics,
     anti = False, inc_prec = False, name = []\<rparr>"

lemma demo_rng_ok: "rng_ok demo_rng"
  by (simp add: demo_rng_def initial_statics_def rng_ok_def seed_ok_def m1_def m2_def)

theorem advance_state_jumps_witness:
  "(step ^^ 2) (Cg (advance_state (-1) 5 demo_rng)) = (step ^^ 5) (Cg demo_rng)"
  using advance_state_jumps [OF demo_rng_ok, of "-1" 5] by (simp add: steps_back_def steps_forward_def)

text \<open>C37. The streams are \<open>2\<^sup>1\<^sup>2\<^sup>7\<close> steps apart and the substreams of a stream \<open>2\<^sup>7\<^sup>6\<close>: a new generator
  starts where the next one is to start, and moves that by \<open>2\<^sup>1\<^sup>2\<^sup>7\<close> steps; \<^verbatim>\<open>reset_next_substream\<close> moves the
  start of the substream by \<open>2\<^sup>7\<^sup>6\<close> and goes there; the other resets go back to the starts.\<close>

theorem streams_spaced:
  assumes "seed_ok (next_seed st)" and "rng_ok R"
  shows "(case init st R of (st', R') \<Rightarrow> next_seed st' = (step ^^ (2 ^ 127)) (next_seed st)
      \<and> Ig R' = next_seed st \<and> Bg R' = next_seed st \<and> Cg R' = next_seed st \<and> rng_ok R' \<and> seed_ok (next_seed st'))
    \<and> (let R' = reset_next_substream R in Bg R' = (step ^^ (2 ^ 76)) (Bg R) \<and> Cg R' = Bg R' \<and> Ig R' = Ig R \<and> rng_ok R')
    \<and> Cg (reset_start_substream R) = Bg R \<and> Cg (reset_start_stream R) = Ig R \<and> Bg (reset_start_stream R) = Ig R"
  using assms jump_76 [of "Bg R"] jump_127 [of "next_seed st"]
  by (auto simp: init_def Let_def reset_next_substream_def reset_start_substream_def reset_start_stream_def rng_ok_def funpow_ok)

theorem streams_spaced_witness:
  "next_seed (fst (init initial_statics demo_rng)) = (step ^^ (2 ^ 127)) (next_seed initial_statics)"
proof -
  have "seed_ok (next_seed initial_statics)" using demo_rng_ok by (simp add: demo_rng_def rng_ok_def)
  from streams_spaced [OF this demo_rng_ok] show ?thesis by (auto split: prod.splits)
qed

text \<open>The numbers: with single precision \<^verbatim>\<open>rand_u01\<close> is a positive multiple of \<open>1 / (2\<^sup>3\<^sup>2 - 208)\<close> below 1 and
  takes one step, with increased precision it is at least 0 and below 1 and takes two; integers are in the range asked for,
  and those of \<^verbatim>\<open>uniform_positive_int\<close> between 0 and \<^verbatim>\<open>MAXINT\<close>.\<close>

theorem numbers_in_range:
  assumes "seed_ok (Cg R)"
  shows "(\<exists>k. 1 \<le> k \<and> k < 2 ^ 32 - 208 \<and> fst (U01 R) = of_int k / of_int (2 ^ 32 - 208))
    \<and> 0 \<le> fst (rand_u01 R) \<and> fst (rand_u01 R) < 1
    \<and> Cg (snd (rand_u01 R)) = (step ^^ (if inc_prec R then 2 else 1)) (Cg R)
    \<and> (\<forall>low high. - (2 ^ 63) \<le> low \<and> low \<le> high \<and> high < 2 ^ 63 \<and> high - low + 1 < 2 ^ 63 \<longrightarrow>
        low \<le> fst (rand_int low high R) \<and> fst (rand_int low high R) \<le> high)
    \<and> 0 \<le> fst (uniform_positive_int R) \<and> fst (uniform_positive_int R) \<le> MAXINT
    \<and> (\<forall>k. 0 < k \<and> k \<le> MAXINT \<longrightarrow> (\<exists>x R'. uniform_int k R = Inr (x, R') \<and> 0 \<le> x \<and> x < k))"
proof -
  obtain k where k: "1 \<le> k" "k \<le> m1" "fst (U01 R) = of_int k / (of_int m1 + 1)" by (rule U01_fraction [OF assms])
  then have "\<exists>k. 1 \<le> k \<and> k < 2 ^ 32 - 208 \<and> fst (U01 R) = of_int k / of_int (2 ^ 32 - 208)"
    by (intro exI [of _ k]) (simp add: m1_def)
  then show ?thesis
    using rand_u01_bounds [OF assms] rand_int_range [OF assms] uniform_positive_int_range [OF assms] uniform_int_range [OF assms]
    by (intro conjI) auto
qed

theorem numbers_in_range_witness:
  "0 \<le> fst (rand_u01 demo_rng) \<and> fst (rand_u01 demo_rng) < 1 \<and> 3 \<le> fst (rand_int 3 7 demo_rng) \<and> fst (rand_int 3 7 demo_rng) \<le> 7"
  using numbers_in_range [of demo_rng] demo_rng_ok by (simp add: rng_ok_def)

text \<open>With increased precision the number can be 0, which the documentation excludes and of which
  \<^verbatim>\<open>exponential\<close> takes the logarithm: there are seeds that \<^verbatim>\<open>set_seed\<close> accepts and that give it.\<close>

theorem increased_precision_may_be_zero:
  "\<exists>R'. set_seed6 (Vec3 0 0 4100629002, Vec3 0 1 0) (R\<lparr>inc_prec := True, anti := False\<rparr>) = Inr R' \<and> fst (rand_u01 R') = 0"
proof -
  have s: "step1 (Vec3 0 0 4100629002) = Vec3 0 4100629002 0" "step1 (Vec3 0 4100629002 0) = Vec3 4100629002 0 15383983"
    "step2 (Vec3 0 1 0) = Vec3 1 0 0" "step2 (Vec3 1 0 0) = Vec3 0 0 4293573854"
    by code_simp+
  define R1 where "R1 = R\<lparr>inc_prec := True, anti := False, Cg := (Vec3 0 0 4100629002, Vec3 0 1 0),
    Bg := (Vec3 0 0 4100629002, Vec3 0 1 0), Ig := (Vec3 0 0 4100629002, Vec3 0 1 0)\<rparr>"
  have seed: "set_seed6 (Vec3 0 0 4100629002, Vec3 0 1 0) (R\<lparr>inc_prec := True, anti := False\<rparr>) = Inr R1"
    by (simp add: set_seed6_def m1_def m2_def R1_def)
  have "fst (U01 R1) = of_int m1 * norm01" "fst (U01 (snd (U01 R1))) = of_int (15383983 - 4293573854 + m1) * norm01"
    by (simp_all add: U01_def Let_def s R1_def del: step1.simps step2.simps)
  then have "fst (rand_u01 R1) = 0"
    by (simp add: R1_def rand_u01_def U01d_def split_beta Let_def) (simp add: U01_state m1_def norm01_def fact24_def)
  with seed show ?thesis by blast
qed

text \<open>The values of the double expressions of \<^verbatim>\<open>U01\<close>.\<close>

fun U01_values :: "seed6 \<Rightarrow> int list" where
  "U01_values (Vec3 c0 c1 c2, Vec3 c3 c4 c5) =
     (let p = a12 * c1 - a13n * c0; q = a21 * c5 - a23n * c3;
          p1 = newest (step1 (Vec3 c0 c1 c2)); p2 = newest (step2 (Vec3 c3 c4 c5)) in
      [a12 * c1, a13n * c0, p, c_div p m1 * m1, p - c_div p m1 * m1, p1, a21 * c5, a23n * c3, q, c_div q m2 * m2,
       q - c_div q m2 * m2, p2, p1 - p2, p1 - p2 + m1])"

text \<open>C38. Keeping integers in doubles loses nothing: the values of \<^verbatim>\<open>U01\<close> and, for matrix entries and
  vectors of the size that occurs, of \<^verbatim>\<open>MultModM\<close> are at most \<open>2\<^sup>5\<^sup>3\<close>, the result among them; the sum that \<^verbatim>\<open>MultModM\<close> tests
  first may be larger, but the test comes out the same for every monotonic rounding; and \<^verbatim>\<open>MultModM\<close> computes the product
  and sum modulo \<open>m\<close>.\<close>

theorem doubles_exact:
  assumes "seed_ok s" and "- a23n \<le> a \<and> a < 2 ^ 32" and "0 \<le> x \<and> x < m" and "0 \<le> c \<and> c < m" and "m = m1 \<or> m = m2"
  shows "(\<forall>v \<in> set (U01_values s). \<bar>v\<bar> \<le> 2 ^ 53) \<and> (\<forall>v \<in> set (MultModM_values a x c m). \<bar>v\<bar> \<le> 2 ^ 53)
    \<and> MultModM a x c m \<in> set (MultModM_values a x c m)
    \<and> (\<forall>fl :: int \<Rightarrow> int. mono fl \<and> (\<forall>v. \<bar>v\<bar> \<le> two53 \<longrightarrow> fl v = v) \<longrightarrow>
        (fl (fl (a * x) + c) \<ge> two53 \<or> fl (fl (a * x) + c) \<le> - two53) = (a * x + c \<ge> two53 \<or> a * x + c \<le> - two53))
    \<and> MultModM a x c m = (a * x + c) mod m"
proof (intro conjI)
  show "MultModM a x c m \<in> set (MultModM_values a x c m)" by (rule MultModM_in_values)
  have "- a23n * x \<le> a * x" using assms(2,3) by (intro mult_right_mono) auto
  then have ax: "- two53 \<le> a * x" using assms(3,5) by (auto simp: a23n_def two53_def m1_def m2_def)
  show "\<forall>fl :: int \<Rightarrow> int. mono fl \<and> (\<forall>v. \<bar>v\<bar> \<le> two53 \<longrightarrow> fl v = v) \<longrightarrow>
      (fl (fl (a * x) + c) \<ge> two53 \<or> fl (fl (a * x) + c) \<le> - two53) = (a * x + c \<ge> two53 \<or> a * x + c \<le> - two53)"
    using MultModM_test_exact [OF _ _ ax] assms(4) by blast
  have m: "0 < m" "m \<le> 4294967296" using assms(5) by (auto simp: m1_def m2_def)
  then show "MultModM a x c m = (a * x + c) mod m" by (simp add: MultModM_mod)
  have "\<forall>v \<in> set (MultModM_values a x c m). \<bar>v\<bar> \<le> two53"
    by (rule MultModM_values_exact) (use assms m in \<open>auto simp: a23n_def\<close>)
  then show "\<forall>v \<in> set (MultModM_values a x c m). \<bar>v\<bar> \<le> 2 ^ 53" by (simp add: two53_def)
  obtain c0 c1 c2 c3 c4 c5 where s: "s = (Vec3 c0 c1 c2, Vec3 c3 c4 c5)" by (metis surj_pair vec3.exhaust)
  have r: "0 \<le> c0" "c0 < m1" "0 \<le> c1" "c1 < m1" "0 \<le> c3" "c3 < m2" "0 \<le> c5" "c5 < m2"
    using assms(1) by (simp_all add: s seed_ok_def)
  have n: "0 \<le> newest (step1 (Vec3 c0 c1 c2))" "newest (step1 (Vec3 c0 c1 c2)) < m1"
    "0 \<le> newest (step2 (Vec3 c3 c4 c5))" "newest (step2 (Vec3 c3 c4 c5)) < m2"
    using newest_range [of m1] newest_range [of m2] step_ok [OF assms(1)]
    by (simp_all add: s seed_ok_def step_def del: step1.simps step2.simps)
  define p where "p = a12 * c1 - a13n * c0"
  define q where "q = a21 * c5 - a23n * c3"
  have pq: "\<bar>p\<bar> \<le> 2 ^ 53 - 2 ^ 33" "\<bar>q\<bar> \<le> 2 ^ 53 - 2 ^ 33"
    using r by (auto simp: p_def q_def a12_def a13n_def a21_def a23n_def m1_def m2_def)
  show "\<forall>v \<in> set (U01_values s). \<bar>v\<bar> \<le> 2 ^ 53"
    using c_div_bounds [OF m1_pos, of p] c_div_bounds [OF m2_pos, of q] pq r n
    unfolding s U01_values.simps Let_def p_def [symmetric] q_def [symmetric]
    by (auto simp: a12_def a13n_def a21_def a23n_def m1_def m2_def simp del: step1.simps step2.simps)
qed

theorem doubles_exact_witness:
  "\<bar>a12 * 12345 - a13n * 12345\<bar> \<le> (2 ^ 53 :: int) \<and> MultModM (-810728) 5 7 m1 = (-810728 * 5 + 7) mod m1"
proof -
  have "seed_ok (next_seed initial_statics)" using demo_rng_ok by (simp add: demo_rng_def rng_ok_def)
  from doubles_exact [OF this, of "-810728" 5 m1 7] show ?thesis
    by (simp add: initial_statics_def a23n_def m1_def Let_def)
qed

text \<open>The old generator, which does without 64-bit products, is multiplication by 16807 modulo the
  prime \<open>2\<^sup>3\<^sup>1 - 1\<close>: from a seed in the range it never leaves it, and it passes the tests that its comment
  gives.\<close>

theorem old_generator:
  "(\<forall>s. 0 < s \<and> s < 2 ^ 31 - 1 \<longrightarrow> old_next s = 16807 * s mod (2 ^ 31 - 1) \<and> 0 < old_next s \<and> old_next s < 2 ^ 31 - 1)
    \<and> (old_next ^^ 10000) 1 = 1043618065 \<and> (old_next ^^ 551246) 1 = 1003
    \<and> old_next 1973272912 = 1207871363 \<and> old_next 1207871363 = 531082850 \<and> old_next 531082850 = 967423018"
proof (intro conjI allI impI)
  show "(old_next ^^ 10000) 1 = 1043618065" "(old_next ^^ 551246) 1 = 1003"
    unfolding old_next_power by (simp_all add: efficient_funpow_code)
  show "old_next 1973272912 = 1207871363" "old_next 1207871363 = 531082850" "old_next 531082850 = 967423018"
    by (simp_all add: old_next_mod(1))
qed (use old_next_mod in auto)

text \<open>A generator constructed with a seed does not start at the seed: \<^verbatim>\<open>set_seed\<close> has already started
  it there, and the constructor starts it again \<open>2\<^sup>1\<^sup>2\<^sup>7\<close> steps further, while the constructor with a source
  starts it at the seed.\<close>

theorem seed_constructor_skips_stream:
  assumes "0 < s" and "s < m2" and "s < MAXINT"
  shows "\<exists>st1 R1 st2 R2. new_RNG_seed tv (Suc n) s st R = Inr (st1, R1)
    \<and> new_RNG_source tv (Suc (Suc n)) RAW_SEED_SOURCE s st R = Inr (st2, R2)
    \<and> Cg R2 = (Vec3 s s s, Vec3 s s s) \<and> Cg R1 = (step ^^ (2 ^ 127)) (Cg R2)"
  using assms set_seed_positive [OF assms(1,2), of tv n]
  by (auto simp: new_RNG_seed_def new_RNG_source_def init_def Let_def simp del: set_seed_long.simps)

end
