(* ===== verification/Tcp_Rq.thy ===== *)
theory Tcp_Rq
  imports Gea_Prelude
begin

text \<open>
  The reassembly queue of the TCP agents, \<^verbatim>\<open>ns2-gea/ns-2/tcp/rq.h\<close> and \<^verbatim>\<open>rq.cc\<close>: the segments that
  have arrived, merged into blocks, in the order of their sequence numbers (the FIFO) and in the
  order of their arrival (the LIFO, from which SACK blocks are made).

  A block lives at an address of the store \<open>seg\<close>. The doubly linked FIFO and LIFO are the lists of
  their addresses from \<^verbatim>\<open>head_\<close> and from \<^verbatim>\<open>top_\<close>: \<^verbatim>\<open>next_\<close> and \<^verbatim>\<open>prev_\<close> of a block are its
  neighbours in the list. A block inserted between \<^verbatim>\<open>p\<close> and \<^verbatim>\<open>q\<close> makes these its neighbours,
  whatever was between them before (\<open>splice\<close>). \<open>free\<close> is the list of unused blocks
  \<^verbatim>\<open>freelist_\<close>, and \<open>fresh\<close> the address the allocator gives next. The sequence number \<^verbatim>\<open>rcv_nxt_\<close>
  that the queue refers to is part of its state. Sequence numbers are integers; that
  the \<^verbatim>\<open>int\<close>s of the simulator overflow is not modelled. \<^verbatim>\<open>dumplist\<close> only prints.
\<close>

section \<open>The queue\<close>

type_synonym flags = u32

record seginfo =
  startseq :: int
  endseq :: int
  pflags :: flags
  rqflags :: flags
  cnt :: int

record rq =
  fifo :: "nat list"
  lifo :: "nat list"
  hint :: "nat option"
  total_bytes :: int
  rcv_nxt :: int
  seg :: "nat \<Rightarrow> seginfo"
  free :: "nat list"
  fresh :: nat

definition new_rq :: "int \<Rightarrow> rq" where
  "new_rq r = \<lparr>fifo = [], lifo = [], hint = None, total_bytes = 0, rcv_nxt = r,
     seg = \<lambda>_. \<lparr>startseq = 0, endseq = 0, pflags = 0, rqflags = 0, cnt = 0\<rparr>, free = [], fresh = 0\<rparr>"

definition rq_empty :: "rq \<Rightarrow> bool" where
  "rq_empty R = (fifo R = [])"

definition maxseq :: "rq \<Rightarrow> int" where
  "maxseq R = (if fifo R = [] then -1 else endseq (seg R (last (fifo R))))"

definition minseq :: "rq \<Rightarrow> int" where
  "minseq R = (case fifo R of [] \<Rightarrow> -1 | a # _ \<Rightarrow> startseq (seg R a))"

definition newseginfo :: "rq \<Rightarrow> nat \<times> rq" where
  "newseginfo R =
     (case free R of [] \<Rightarrow> (fresh R, R\<lparr>fresh := Suc (fresh R)\<rparr>) | a # as \<Rightarrow> (a, R\<lparr>free := as\<rparr>))"

definition deleteseginfo :: "nat \<Rightarrow> rq \<Rightarrow> rq" where
  "deleteseginfo a R = R\<lparr>free := a # free R\<rparr>"

definition fremove :: "nat \<Rightarrow> rq \<Rightarrow> rq" where
  "fremove a R = R\<lparr>hint := (if hint R = Some a then None else hint R), fifo := remove1 a (fifo R)\<rparr>"

definition sremove :: "nat \<Rightarrow> rq \<Rightarrow> rq" where
  "sremove a R = R\<lparr>hint := (if hint R = Some a then None else hint R), lifo := remove1 a (lifo R)\<rparr>"

definition push :: "nat \<Rightarrow> rq \<Rightarrow> rq" where
  "push a R = R\<lparr>lifo := a # lifo R\<rparr>"

definition set_seg :: "nat \<Rightarrow> (seginfo \<Rightarrow> seginfo) \<Rightarrow> rq \<Rightarrow> rq" where
  "set_seg a f R = R\<lparr>seg := (seg R)(a := f (seg R a))\<rparr>"

definition seg_size :: "rq \<Rightarrow> nat \<Rightarrow> int" where
  "seg_size R a = endseq (seg R a) - startseq (seg R a)"

text \<open>\<^verbatim>\<open>cnts\<close>, from the given place of the FIFO on.\<close>

definition cnts :: "rq \<Rightarrow> nat list \<Rightarrow> int \<times> int" where
  "cnts R as = (int (length as), sum_list (map (seg_size R) as))"

definition clear :: "rq \<Rightarrow> rq" where
  "clear R = R\<lparr>lifo := [], hint := None, fifo := [], free := rev (fifo R) @ free R, total_bytes := 0\<rparr>"

definition init :: "int \<Rightarrow> rq \<Rightarrow> rq" where
  "init r R = clear (R\<lparr>rcv_nxt := r\<rparr>)"

fun clearto_loop :: "nat list \<Rightarrow> int \<Rightarrow> flags \<Rightarrow> rq \<Rightarrow> flags \<times> rq" where
  "clearto_loop [] s f R = (f, R)"
| "clearto_loop (p # ps) s f R =
     (if endseq (seg R p) \<le> s then
        clearto_loop ps s (f OR pflags (seg R p))
          (deleteseginfo p (fremove p (sremove p (R\<lparr>total_bytes := total_bytes R - seg_size R p\<rparr>))))
      else if startseq (seg R p) \<le> s \<and> endseq (seg R p) > s then
        (f OR pflags (seg R p),
         set_seg p (\<lambda>b. b\<lparr>startseq := s\<rparr>) (R\<lparr>total_bytes := total_bytes R - (s - startseq (seg R p))\<rparr>))
      else (f, R))"

definition clearto :: "int \<Rightarrow> rq \<Rightarrow> flags \<times> rq" where
  "clearto s R = clearto_loop (fifo R) s 0 R"

definition cleartonxt :: "rq \<Rightarrow> flags \<times> rq" where
  "cleartonxt R = clearto (rcv_nxt R) R"

definition gensack :: "nat \<Rightarrow> rq \<Rightarrow> (int \<times> int) list" where
  "gensack maxsblock R = map (\<lambda>a. (startseq (seg R a), endseq (seg R a))) (take maxsblock (lifo R))"

fun nexthole_loop :: "nat list \<Rightarrow> int \<Rightarrow> rq \<Rightarrow> int \<times> int \<times> int" where
  "nexthole_loop [] s R = (-1, -1, -1)"
| "nexthole_loop (p # ps) s R =
     (if startseq (seg R p) > s then (s, cnts R (p # ps))
      else if startseq (seg R p) \<le> s \<and> endseq (seg R p) \<ge> s then
        (endseq (seg R p), if ps \<noteq> [] then cnts R ps else (-1, -1))
      else nexthole_loop ps s R)"

text \<open>The next hole, and the number of blocks and bytes above it.\<close>

definition nexthole :: "int \<Rightarrow> rq \<Rightarrow> (int \<times> int \<times> int) \<times> rq" where
  "nexthole s R = (nexthole_loop (fifo R) s R, R\<lparr>hint := (case fifo R of [] \<Rightarrow> None | a # _ \<Rightarrow> Some a)\<rparr>)"

section \<open>Adding a segment\<close>

text \<open>The neighbours of an address in a list.\<close>

fun next_of :: "nat \<Rightarrow> nat list \<Rightarrow> nat option" where
  "next_of a [] = None"
| "next_of a (x # xs) = (if x = a then (case xs of [] \<Rightarrow> None | y # _ \<Rightarrow> Some y) else next_of a xs)"

definition prev_of :: "nat \<Rightarrow> nat list \<Rightarrow> nat option" where
  "prev_of a xs = next_of a (rev xs)"

definition splice :: "nat option \<Rightarrow> nat \<Rightarrow> nat option \<Rightarrow> nat list \<Rightarrow> nat list" where
  "splice p n q xs =
     (case p of None \<Rightarrow> [] | Some a \<Rightarrow> takeWhile (\<lambda>x. x \<noteq> a) xs @ [a]) @ n #
     (case q of None \<Rightarrow> [] | Some b \<Rightarrow> dropWhile (\<lambda>x. x \<noteq> b) xs)"

text \<open>The end of \<^verbatim>\<open>coalesce\<close>, with \<^verbatim>\<open>p\<close> the block that was extended.\<close>

definition advance_nxt :: "nat option \<Rightarrow> rq \<Rightarrow> rq result" where
  "advance_nxt p R =
     bindE (derefE p) (\<lambda>a. Inr (if rcv_nxt R \<ge> startseq (seg R a) then R\<lparr>rcv_nxt := endseq (seg R a)\<rparr> else R))"

definition coalesce :: "nat option \<Rightarrow> nat \<Rightarrow> nat option \<Rightarrow> rq \<Rightarrow> (flags \<times> rq) result" where
  "coalesce p n q R =
     (let N = seg R n;
          joins_p = (case p of None \<Rightarrow> False | Some a \<Rightarrow> endseq (seg R a) = startseq N);
          joins_q = (case q of None \<Rightarrow> False | Some b \<Rightarrow> endseq N = startseq (seg R b))
      in
        if joins_p \<and> joins_q then
          let a = the p; b = the q; B = seg R b;
              R1 = fremove b (sremove b (fremove n (sremove n R)));
              R2 = set_seg a (\<lambda>x. x\<lparr>endseq := endseq B, cnt := cnt x + (cnt N + cnt B), pflags := pflags x OR pflags N\<rparr>) R1
          in bindE (advance_nxt p (deleteseginfo b (deleteseginfo n R2))) (\<lambda>R3. Inr (pflags (seg R2 a), R3))
        else if joins_p then
          let a = the p; R1 = fremove n (sremove n R);
              R2 = set_seg a (\<lambda>x. x\<lparr>endseq := endseq N, pflags := pflags x OR pflags N, cnt := cnt x + cnt N\<rparr>) R1
          in bindE (advance_nxt p (deleteseginfo n R2)) (\<lambda>R3. Inr (pflags (seg R2 a), R3))
        else if joins_q then
          let b = the q; R1 = fremove n (sremove n R);
              R2 = set_seg b (\<lambda>x. x\<lparr>startseq := startseq N, pflags := pflags x OR pflags N, cnt := cnt x + cnt N\<rparr>) R1
          in bindE (advance_nxt q (deleteseginfo n R2)) (\<lambda>R3. Inr (pflags (seg R2 b), R3))
        else bindE (advance_nxt p R) (\<lambda>R3. Inr (0, R3)))"

text \<open>The end of \<^verbatim>\<open>add\<close> at the label \<^verbatim>\<open>endfast\<close>.\<close>

definition endfast ::
    "int \<Rightarrow> int \<Rightarrow> flags \<Rightarrow> flags \<Rightarrow> int \<Rightarrow> bool \<Rightarrow> nat option \<Rightarrow> nat option \<Rightarrow> rq \<Rightarrow> (flags \<times> rq) result" where
  "endfast s e f g c needmerge p q R =
     (let (n, R1) = newseginfo R;
          R2 = set_seg n (\<lambda>_. \<lparr>startseq = s, endseq = e, pflags = f, rqflags = g, cnt = c\<rparr>) R1;
          R3 = push n R2;
          R4 = R3\<lparr>fifo := splice p n q (fifo R3), total_bytes := total_bytes R3 + (e - s)\<rparr>
      in if needmerge then coalesce p n q R4
         else Inr (f, if rcv_nxt R4 \<ge> s then R4\<lparr>rcv_nxt := e\<rparr> else R4))"

text \<open>The loop that removes what the new segment covers: an exact match ends \<^verbatim>\<open>add\<close> with the flags of
  the block; otherwise the flags and counts are gathered.\<close>

fun kill :: "int \<Rightarrow> int \<Rightarrow> nat list \<Rightarrow> flags \<Rightarrow> int \<Rightarrow> bool \<Rightarrow> rq \<Rightarrow> (flags \<times> rq) + (flags \<times> int \<times> bool \<times> rq)" where
  "kill s e [] f c altered R = Inr (f, c, altered, R)"
| "kill s e (r # rs) f c altered R =
     (if s = startseq (seg R r) \<and> e = endseq (seg R r) then
        let R1 = set_seg r (\<lambda>x. x\<lparr>pflags := pflags x OR f\<rparr>) R in Inl (pflags (seg R1 r), R1)
      else if s \<le> startseq (seg R r) \<and> e \<ge> endseq (seg R r) then
        kill s e rs (f OR pflags (seg R r)) (c + cnt (seg R r)) True
          (deleteseginfo r (sremove r (fremove r (R\<lparr>total_bytes := total_bytes R - seg_size R r\<rparr>))))
      else kill s e rs f c altered R)"

text \<open>The merges with the blocks that overlap on one side. The results are the new end of the
  segment on that side, the counts and the neighbour.\<close>

definition left_merge ::
    "int \<Rightarrow> flags \<Rightarrow> int \<Rightarrow> nat option \<Rightarrow> rq \<Rightarrow> (int \<times> int \<times> bool \<times> nat option \<times> rq) result" where
  "left_merge s f c p R =
     bindE (case p of None \<Rightarrow> Inr True
              | Some a \<Rightarrow> bindE (derefE (next_of a (fifo R))) (\<lambda>b. Inr (startseq (seg R b) < s)))
       (\<lambda>merge.
          if \<not> merge then Inr (s, c, False, p, R)
          else
            let p1 = (case p of None \<Rightarrow> (case fifo R of [] \<Rightarrow> None | x # _ \<Rightarrow> Some x) | Some a \<Rightarrow> next_of a (fifo R)) in
            bindE (derefE p1) (\<lambda>b.
              let R1 = (if s < startseq (seg R b)
                        then set_seg b (\<lambda>x. x\<lparr>startseq := s\<rparr>) (R\<lparr>total_bytes := total_bytes R + (startseq (seg R b) - s)\<rparr>)
                        else R);
                  R2 = set_seg b (\<lambda>x. x\<lparr>pflags := pflags x OR f, cnt := cnt x + 1\<rparr>) R1
              in Inr (endseq (seg R2 b), c - 1, True, p1, R2)))"

definition right_merge ::
    "int \<Rightarrow> flags \<Rightarrow> nat option \<Rightarrow> rq \<Rightarrow> (int \<times> bool \<times> nat option \<times> rq) result" where
  "right_merge e f q R =
     bindE (case q of None \<Rightarrow> Inr True
              | Some b \<Rightarrow> bindE (derefE (prev_of b (fifo R))) (\<lambda>a. Inr (endseq (seg R a) > e)))
       (\<lambda>merge.
          if \<not> merge then Inr (e, False, q, R)
          else
            let q1 = (case q of None \<Rightarrow> (case rev (fifo R) of [] \<Rightarrow> None | x # _ \<Rightarrow> Some x) | Some b \<Rightarrow> prev_of b (fifo R)) in
            bindE (derefE q1) (\<lambda>a.
              let R1 = (if e > endseq (seg R a)
                        then set_seg a (\<lambda>x. x\<lparr>endseq := e\<rparr>) (R\<lparr>total_bytes := total_bytes R + (e - endseq (seg R a))\<rparr>)
                        else R);
                  R2 = set_seg a (\<lambda>x. x\<lparr>pflags := pflags x OR f\<rparr>) R1
              in Inr (startseq (seg R2 a), True, q1, R2)))"

text \<open>\<^verbatim>\<open>add\<close> from the left-side merge to the label \<^verbatim>\<open>endfast\<close>. The count \<^verbatim>\<open>q->cnt_++\<close> of the right merge is
  behind a test of \<^verbatim>\<open>needmerge\<close>, which has just been set, and never happens.\<close>

definition add_merge ::
    "int \<Rightarrow> int \<Rightarrow> flags \<Rightarrow> flags \<Rightarrow> int \<Rightarrow> nat option \<Rightarrow> nat option \<Rightarrow> rq \<Rightarrow> (flags \<times> rq) result" where
  "add_merge s e f g c p q R =
     bindE (left_merge s f c p R) (\<lambda>(s2, c2, m1, p2, R2).
       bindE (right_merge e f q R2) (\<lambda>(e2, m2, q2, R3).
         if e2 \<le> s2 then
           (case fifo R3 of
              [] \<Rightarrow> Inl NullPointer
            | h # _ \<Rightarrow> Inr (f, if rcv_nxt R3 \<ge> startseq (seg R3 h)
                then R3\<lparr>rcv_nxt := endseq (seg R3 h)\<rparr> else R3))
         else if m1 \<or> m2 then endfast s2 e2 f g c2 True p2 q2 R3
         else bindE (derefE p2) (\<lambda>a.
           if next_of a (fifo R3) \<noteq> q2 then endfast s2 e2 f g c2 False p2 q2 R3
           else if \<not> endseq (seg R3 a) \<le> s2 then endfast s2 e2 f g c2 False p2 q2 R3
           else bindE (derefE q2) (\<lambda>b.
             endfast s2 e2 f g c2 (startseq (seg R3 b) \<ge> e2 \<and>
               (endseq (seg R3 a) = s2 \<or> startseq (seg R3 b) = e2)) p2 q2 R3))))"

text \<open>The blocks the loop that removes goes through.\<close>

definition kill_range :: "nat option \<Rightarrow> nat option \<Rightarrow> nat list \<Rightarrow> nat list" where
  "kill_range p q as =
     (let bs = (case p of None \<Rightarrow> as | Some a \<Rightarrow> dropWhile (\<lambda>x. x \<noteq> a) as)
      in case q of None \<Rightarrow> bs | Some b \<Rightarrow> takeWhile (\<lambda>x. x \<noteq> b) bs)"

text \<open>\<^verbatim>\<open>add\<close> from the label \<^verbatim>\<open>again2\<close> on, for a FIFO that is not empty.\<close>

fun again2 :: "nat \<Rightarrow> int \<Rightarrow> int \<Rightarrow> flags \<Rightarrow> flags \<Rightarrow> int \<Rightarrow> rq \<Rightarrow> (flags \<times> rq) result" where
  "again2 0 s e f g c R = Inl OutOfFuel"
| "again2 (Suc fuel) s e f g c R =
     (case fifo R of
        [] \<Rightarrow> Inl NullPointer
      | h # _ \<Rightarrow>
        let t = last (fifo R) in
        if s \<ge> endseq (seg R t) then endfast s e f g c (s = endseq (seg R t)) (Some t) None R
        else if e \<le> startseq (seg R h) then endfast s e f g c (e = startseq (seg R h)) None (Some h) R
        else
          let q = find (\<lambda>a. startseq (seg R a) \<ge> e) (fifo R);
              p = find (\<lambda>a. endseq (seg R a) \<le> s) (rev (fifo R))
          in case kill s e (kill_range p q (fifo R)) f c False R of
               Inl (fl, R1) \<Rightarrow> Inr (fl, R1)
             | Inr (f1, c1, altered, R1) \<Rightarrow>
                 if rq_empty R1 then endfast s e f1 g c1 False p q R1
                 else if altered then again2 fuel s e f1 g c1 R1
                 else add_merge s e f1 g c1 p q R1)"

definition rq_add :: "int \<Rightarrow> int \<Rightarrow> flags \<Rightarrow> flags \<Rightarrow> rq \<Rightarrow> (flags \<times> rq) result" where
  "rq_add s e f g R =
     (if e < s then Inl (AssertFailed ''ReassemblyQueue::add() - end before start'')
      else if fifo R = [] then
        if lifo R \<noteq> [] then Inl (AssertFailed ''ReassemblyQueue::add() - problem: FIFO empty, LIFO not'')
        else
          let (n, R1) = newseginfo R;
              R2 = set_seg n (\<lambda>_. \<lparr>startseq = s, endseq = e, pflags = f, rqflags = g, cnt = 1\<rparr>) R1;
              R3 = R2\<lparr>fifo := [n], lifo := [n], total_bytes := e - s\<rparr>
          in Inr (f, if rcv_nxt R3 \<ge> s then R3\<lparr>rcv_nxt := e\<rparr> else R3)
      else again2 (Suc (length (fifo R))) s e f g 1 R)"

section \<open>What is in the queue\<close>

definition bytes :: "rq \<Rightarrow> int set" where
  "bytes R = (\<Union>a \<in> set (fifo R). {startseq (seg R a) ..< endseq (seg R a)})"

text \<open>The blocks are apart from each other, in order and not empty; both lists hold the same blocks, none of
  them free; the total is right; and every block begins after \<^verbatim>\<open>rcv_nxt_\<close> or ends there.\<close>

definition blocks_ok :: "(nat \<Rightarrow> seginfo) \<Rightarrow> nat list \<Rightarrow> bool" where
  "blocks_ok S as \<longleftrightarrow> sorted_wrt (\<lambda>a b. endseq (S a) < startseq (S b)) as \<and> (\<forall>a \<in> set as. startseq (S a) < endseq (S a))"

definition lists_ok :: "rq \<Rightarrow> bool" where
  "lists_ok R \<longleftrightarrow> distinct (fifo R) \<and> distinct (lifo R) \<and> set (lifo R) = set (fifo R) \<and> distinct (free R)
     \<and> set (free R) \<inter> set (fifo R) = {} \<and> (\<forall>a \<in> set (fifo R) \<union> set (free R). a < fresh R)"

definition rcv_ok :: "rq \<Rightarrow> bool" where
  "rcv_ok R \<longleftrightarrow> (\<forall>a \<in> set (fifo R). rcv_nxt R < startseq (seg R a) \<or> endseq (seg R a) = rcv_nxt R)"

definition rq_inv :: "rq \<Rightarrow> bool" where
  "rq_inv R \<longleftrightarrow> lists_ok R \<and> blocks_ok (seg R) (fifo R) \<and> total_bytes R = sum_list (map (seg_size R) (fifo R)) \<and> rcv_ok R"

lemmas rq_ops = fremove_def sremove_def push_def set_seg_def deleteseginfo_def

text \<open>The bytes of a list of blocks, and how they and the order depend on the store.\<close>

definition tot :: "(nat \<Rightarrow> seginfo) \<Rightarrow> nat list \<Rightarrow> int" where
  "tot S as = (\<Sum>a \<leftarrow> as. endseq (S a) - startseq (S a))"

lemma tot_simps [simp]: "tot S [] = 0" "tot S (a # as) = endseq (S a) - startseq (S a) + tot S as"
    "tot S (as @ bs) = tot S as + tot S bs"
  by (simp_all add: tot_def)

lemma tot_upd [simp]: "a \<notin> set as \<Longrightarrow> tot (S(a := x)) as = tot S as"
  by (induction as) auto

lemma tot_remove1: "a \<in> set as \<Longrightarrow> tot S (remove1 a as) = tot S as - (endseq (S a) - startseq (S a))"
  by (induction as) auto

lemma tot_seg_size: "sum_list (map (seg_size R) as) = tot (seg R) as"
  by (induction as) (simp_all add: seg_size_def)

lemma blocks_ok_simps [simp]: "blocks_ok S []"
    "blocks_ok S (a # as) \<longleftrightarrow> startseq (S a) < endseq (S a) \<and> (\<forall>b \<in> set as. endseq (S a) < startseq (S b)) \<and> blocks_ok S as"
    "blocks_ok S (as @ bs) \<longleftrightarrow> blocks_ok S as \<and> blocks_ok S bs \<and> (\<forall>a \<in> set as. \<forall>b \<in> set bs. endseq (S a) < startseq (S b))"
  by (auto simp: blocks_ok_def sorted_wrt_append)

lemma blocks_ok_upd [simp]: "a \<notin> set as \<Longrightarrow> blocks_ok (S(a := x)) as = blocks_ok S as"
  by (induction as) auto

lemma blocks_ok_filter: "blocks_ok S as \<Longrightarrow> blocks_ok S (List.filter Q as)"
  by (induction as) auto

definition cover :: "(nat \<Rightarrow> seginfo) \<Rightarrow> nat list \<Rightarrow> int set" where
  "cover S as = (\<Union>a \<in> set as. {startseq (S a) ..< endseq (S a)})"

lemma cover_simps [simp]: "cover S [] = {}" "cover S (a # as) = {startseq (S a) ..< endseq (S a)} \<union> cover S as"
    "cover S (as @ bs) = cover S as \<union> cover S bs"
  by (simp_all add: cover_def)

lemma cover_upd [simp]: "a \<notin> set as \<Longrightarrow> cover (S(a := x)) as = cover S as"
  by (induction as) auto

lemma bytes_cover: "bytes R = cover (seg R) (fifo R)"
  by (simp add: bytes_def cover_def)

text \<open>The blocks a segment meets are next to each other.\<close>

lemma blocks_split:
  assumes "blocks_ok S as" and "s < e"
  obtains P M Q where "as = P @ M @ Q" and "\<forall>a \<in> set P. endseq (S a) \<le> s"
    and "\<forall>a \<in> set M. s < endseq (S a) \<and> startseq (S a) < e" and "\<forall>a \<in> set Q. e \<le> startseq (S a)"
proof -
  have "\<exists>P M Q. as = P @ M @ Q \<and> (\<forall>a \<in> set P. endseq (S a) \<le> s)
      \<and> (\<forall>a \<in> set M. s < endseq (S a) \<and> startseq (S a) < e) \<and> (\<forall>a \<in> set Q. e \<le> startseq (S a))"
    using assms(1)
  proof (induction as)
    case (Cons x xs)
    then obtain P M Q where IH: "xs = P @ M @ Q" "\<forall>a \<in> set P. endseq (S a) \<le> s"
        "\<forall>a \<in> set M. s < endseq (S a) \<and> startseq (S a) < e" "\<forall>a \<in> set Q. e \<le> startseq (S a)"
      by auto
    consider "endseq (S x) \<le> s" | "s < endseq (S x)" "startseq (S x) < e" | "e \<le> startseq (S x)" by linarith
    then show ?case
    proof cases
      case 1
      then show ?thesis using IH by (intro exI [of _ "x # P"] exI [of _ M] exI [of _ Q]) auto
    next
      case 2
      have "P = []" using 2 IH(1,2) Cons.prems by (cases P) auto
      then show ?thesis using 2 IH by (intro exI [of _ "[]"] exI [of _ "x # M"] exI [of _ Q]) auto
    next
      case 3
      have "P = []" using 3 IH(1,2) Cons.prems assms(2) by (cases P) auto
      moreover have "M = []" using 3 IH(1,3) Cons.prems assms(2) by (cases M) auto
      ultimately show ?thesis using 3 IH by (intro exI [of _ "[]"] exI [of _ "[]"] exI [of _ "x # Q"]) auto
    qed
  qed simp
  then show ?thesis using that by blast
qed

text \<open>The first and the last block of a list as pointers.\<close>

definition hd_of :: "nat list \<Rightarrow> nat option" where
  "hd_of as = (case as of [] \<Rightarrow> None | a # _ \<Rightarrow> Some a)"

definition last_of :: "nat list \<Rightarrow> nat option" where
  "last_of as = (if as = [] then None else Some (List.last as))"

lemma hd_last_of_simps [simp]: "hd_of [] = None" "hd_of (a # as) = Some a" "last_of [] = None" "last_of (as @ [a]) = Some a"
  by (simp_all add: hd_of_def last_of_def)

lemma splice_split: "distinct (P @ Q) \<Longrightarrow> splice (last_of P) n (hd_of Q) (P @ Q) = P @ n # Q"
  by (cases P rule: rev_cases; cases Q) (auto simp: splice_def takeWhile_append dropWhile_append)

lemma next_of_split: "a \<notin> set P \<Longrightarrow> next_of a (P @ a # Q) = hd_of Q"
  by (induction P) (auto simp: hd_of_def split: list.splits)

lemma prev_of_split: "a \<notin> set Q \<Longrightarrow> prev_of a (P @ a # Q) = last_of P"
  using next_of_split [of a "rev Q" "rev P"] by (cases P rule: rev_cases) (auto simp: prev_of_def)

section \<open>Inserting a block\<close>

definition rq_added :: "int set \<Rightarrow> rq \<Rightarrow> rq \<Rightarrow> bool" where
  "rq_added B R R' \<longleftrightarrow>
     rq_inv R' \<and> bytes R' = B \<and> rcv_nxt R \<le> rcv_nxt R' \<and> {rcv_nxt R ..< rcv_nxt R'} \<subseteq> B"

lemma newseginfo_ok:
  assumes "lists_ok R"
  obtains n fr k where "newseginfo R = (n, R\<lparr>free := fr, fresh := k\<rparr>)" and "n \<notin> set (fifo R)" and "n \<notin> set fr" and "n < k"
    and "distinct fr" and "set fr \<inter> set (fifo R) = {}" and "\<forall>a \<in> set (fifo R) \<union> set fr. a < k"
proof (cases "free R")
  case Nil
  then show ?thesis using assms that [where n = "fresh R" and fr = "[]" and k = "Suc (fresh R)"]
    by (force simp: newseginfo_def lists_ok_def less_Suc_eq)
next
  case (Cons a as)
  then show ?thesis using assms that [where n = a and fr = as and k = "fresh R"]
    by (auto simp: newseginfo_def lists_ok_def)
qed

lemma lifo_set: "lists_ok R \<Longrightarrow> set (lifo R) = set (fifo R)"
  by (simp add: lists_ok_def)

lemma blocks_ok_order:
  "blocks_ok S as \<Longrightarrow> a \<in> set as \<Longrightarrow> b \<in> set as \<Longrightarrow> a \<noteq> b \<Longrightarrow> endseq (S a) < startseq (S b) \<or> endseq (S b) < startseq (S a)"
  by (induction as) auto

lemma blocks_ok_nonempty: "blocks_ok S as \<Longrightarrow> a \<in> set as \<Longrightarrow> startseq (S a) < endseq (S a)"
  by (induction as) auto

text \<open>A state reached from another by changing one block, with \<^verbatim>\<open>rcv_nxt_\<close> set from that block.\<close>

lemma rq_added_mk:
  assumes wf: "lists_ok R'" and bl: "blocks_ok (seg R') (fifo R')" and tb: "total_bytes R' = tot (seg R') (fifo R')"
    and B: "bytes R' = B" and m: "m \<in> set (fifo R')" and le: "rcv_nxt R \<le> endseq (seg R' m)"
    and v: "rcv_nxt R' = (if startseq (seg R' m) \<le> rcv_nxt R then endseq (seg R' m) else rcv_nxt R)"
    and rest: "\<And>a. a \<in> set (fifo R') \<Longrightarrow> a \<noteq> m \<Longrightarrow> rcv_nxt R < startseq (seg R' a) \<or> endseq (seg R' a) = rcv_nxt R"
  shows "rq_added B R R'"
proof -
  have "rcv_nxt R' < startseq (seg R' a) \<or> endseq (seg R' a) = rcv_nxt R'" if a: "a \<in> set (fifo R')" for a
  proof (cases "a = m")
    case True
    then show ?thesis using v by auto
  next
    case False
    then show ?thesis using rest [OF a False] blocks_ok_order [OF bl a m False] blocks_ok_nonempty [OF bl a] v
      by (auto split: if_splits)
  qed
  then have "rcv_ok R'" by (simp add: rcv_ok_def)
  moreover have "{rcv_nxt R ..< rcv_nxt R'} \<subseteq> B" using v m B by (auto simp: bytes_def split: if_splits)
  ultimately show ?thesis using wf bl tb B le v by (simp add: rq_added_def rq_inv_def tot_seg_size)
qed

lemma rq_ops_sel [simp]:
  "fifo (fremove a R) = remove1 a (fifo R)" "lifo (fremove a R) = lifo R" "seg (fremove a R) = seg R"
  "free (fremove a R) = free R" "fresh (fremove a R) = fresh R" "total_bytes (fremove a R) = total_bytes R"
  "rcv_nxt (fremove a R) = rcv_nxt R"
  "fifo (sremove a R) = fifo R" "lifo (sremove a R) = remove1 a (lifo R)" "seg (sremove a R) = seg R"
  "free (sremove a R) = free R" "fresh (sremove a R) = fresh R" "total_bytes (sremove a R) = total_bytes R"
  "rcv_nxt (sremove a R) = rcv_nxt R"
  "fifo (deleteseginfo a R) = fifo R" "lifo (deleteseginfo a R) = lifo R" "seg (deleteseginfo a R) = seg R"
  "free (deleteseginfo a R) = a # free R" "fresh (deleteseginfo a R) = fresh R"
  "total_bytes (deleteseginfo a R) = total_bytes R" "rcv_nxt (deleteseginfo a R) = rcv_nxt R"
  "fifo (set_seg a h R) = fifo R" "lifo (set_seg a h R) = lifo R" "seg (set_seg a h R) = (seg R)(a := h (seg R a))"
  "free (set_seg a h R) = free R" "fresh (set_seg a h R) = fresh R"
  "total_bytes (set_seg a h R) = total_bytes R" "rcv_nxt (set_seg a h R) = rcv_nxt R"
  by (simp_all add: rq_ops)

text \<open>The three ways to coalesce, as what they leave in each field.\<close>

lemma coalesce_both:
  assumes "endseq (seg R a) = startseq (seg R n)" and "endseq (seg R n) = startseq (seg R b)"
  shows "\<exists>fl R' A. coalesce (Some a) n (Some b) R = Inr (fl, R') \<and> fifo R' = remove1 b (remove1 n (fifo R))
      \<and> lifo R' = remove1 b (remove1 n (lifo R)) \<and> seg R' = (seg R)(a := A) \<and> free R' = b # n # free R
      \<and> fresh R' = fresh R \<and> total_bytes R' = total_bytes R \<and> startseq A = startseq (seg R a) \<and> endseq A = endseq (seg R b)
      \<and> rcv_nxt R' = (if startseq (seg R a) \<le> rcv_nxt R then endseq (seg R b) else rcv_nxt R)"
  using assms by (auto simp: coalesce_def advance_nxt_def Let_def)

lemma coalesce_left:
  assumes "endseq (seg R a) = startseq (seg R n)" and "\<And>b. q = Some b \<Longrightarrow> endseq (seg R n) \<noteq> startseq (seg R b)"
  shows "\<exists>fl R' A. coalesce (Some a) n q R = Inr (fl, R') \<and> fifo R' = remove1 n (fifo R)
      \<and> lifo R' = remove1 n (lifo R) \<and> seg R' = (seg R)(a := A) \<and> free R' = n # free R
      \<and> fresh R' = fresh R \<and> total_bytes R' = total_bytes R \<and> startseq A = startseq (seg R a) \<and> endseq A = endseq (seg R n)
      \<and> rcv_nxt R' = (if startseq (seg R a) \<le> rcv_nxt R then endseq (seg R n) else rcv_nxt R)"
  using assms by (auto simp: coalesce_def advance_nxt_def Let_def split: option.splits)

lemma coalesce_right:
  assumes "\<And>a. p = Some a \<Longrightarrow> endseq (seg R a) \<noteq> startseq (seg R n)" and "endseq (seg R n) = startseq (seg R b)"
  shows "\<exists>fl R' B. coalesce p n (Some b) R = Inr (fl, R') \<and> fifo R' = remove1 n (fifo R)
      \<and> lifo R' = remove1 n (lifo R) \<and> seg R' = (seg R)(b := B) \<and> free R' = n # free R
      \<and> fresh R' = fresh R \<and> total_bytes R' = total_bytes R \<and> startseq B = startseq (seg R n) \<and> endseq B = endseq (seg R b)
      \<and> rcv_nxt R' = (if startseq (seg R n) \<le> rcv_nxt R then endseq (seg R b) else rcv_nxt R)"
  using assms by (auto simp: coalesce_def advance_nxt_def Let_def split: option.splits)

text \<open>Only the last block before a segment and the first after it can touch it.\<close>

lemma neighbours:
  assumes bl: "blocks_ok S (P @ Q)" and P: "\<forall>a \<in> set P. endseq (S a) \<le> s" and Q: "\<forall>a \<in> set Q. e \<le> startseq (S a)"
    and touch: "(\<exists>a \<in> set P. endseq (S a) = s) \<or> (\<exists>b \<in> set Q. startseq (S b) = e)"
  shows "(\<exists>P0 a b Q0. P = P0 @ [a] \<and> Q = b # Q0 \<and> endseq (S a) = s \<and> startseq (S b) = e)
    \<or> (\<exists>P0 a. P = P0 @ [a] \<and> endseq (S a) = s \<and> (\<forall>b \<in> set Q. e < startseq (S b)))
    \<or> (\<exists>b Q0. Q = b # Q0 \<and> startseq (S b) = e \<and> (\<forall>a \<in> set P. endseq (S a) < s))"
proof -
  have p: "(\<exists>P0 a. P = P0 @ [a] \<and> endseq (S a) = s) \<or> (\<forall>a \<in> set P. endseq (S a) < s)"
    using bl P by (cases P rule: rev_cases) force+
  have q: "(\<exists>b Q0. Q = b # Q0 \<and> startseq (S b) = e) \<or> (\<forall>b \<in> set Q. e < startseq (S b))"
    using bl Q by (cases Q) force+
  show ?thesis using p q touch by (elim disjE exE conjE) (simp_all, blast+)
qed

text \<open>A block that lies between its neighbours, with \<open>needmerge\<close> as \<^verbatim>\<open>add\<close> sets it.\<close>

lemma endfast_ok:
  assumes inv: "rq_inv R" and F: "fifo R = P @ Q" and se: "s < e" and rcv: "rcv_nxt R \<le> s"
    and P: "\<forall>a \<in> set P. endseq (seg R a) \<le> s" and Q: "\<forall>a \<in> set Q. e \<le> startseq (seg R a)"
    and nm: "needmerge \<longleftrightarrow> (\<exists>a \<in> set P. endseq (seg R a) = s) \<or> (\<exists>b \<in> set Q. startseq (seg R b) = e)"
  shows "\<exists>fl R'. endfast s e f g c needmerge (last_of P) (hd_of Q) R = Inr (fl, R')
      \<and> rq_added (bytes R \<union> {s ..< e}) R R'"
proof -
  have wf: "lists_ok R" and bl: "blocks_ok (seg R) (P @ Q)" and tb: "total_bytes R = tot (seg R) (P @ Q)" and rc: "rcv_ok R"
    using inv F by (simp_all add: rq_inv_def tot_seg_size)
  obtain n fr k where new: "newseginfo R = (n, R\<lparr>free := fr, fresh := k\<rparr>)" "n \<notin> set (fifo R)" "n \<notin> set fr" "n < k"
      "distinct fr" "set fr \<inter> set (fifo R) = {}" "\<forall>a \<in> set (fifo R) \<union> set fr. a < k"
    by (rule newseginfo_ok [OF wf])
  have ds: "distinct (P @ Q)" using wf F by (simp add: lists_ok_def)
  have rcPQ: "\<forall>a \<in> set P \<union> set Q. rcv_nxt R < startseq (seg R a) \<or> endseq (seg R a) = rcv_nxt R"
    using rc F by (simp add: rcv_ok_def)
  have L: "distinct (lifo R)" "set (lifo R) = set P \<union> set Q" using wf F by (simp_all add: lists_ok_def)
  define I where "I = R\<lparr>free := fr, fresh := k, seg := (seg R)(n := \<lparr>startseq = s, endseq = e, pflags = f, rqflags = g, cnt = c\<rparr>),
      lifo := n # lifo R, fifo := P @ n # Q, total_bytes := total_bytes R + (e - s)\<rparr>"
  have ef: "endfast s e f g c needmerge (last_of P) (hd_of Q) R
      = (if needmerge then coalesce (last_of P) n (hd_of Q) I else Inr (f, if rcv_nxt I \<ge> s then I\<lparr>rcv_nxt := e\<rparr> else I))"
  proof -
    have "splice (last_of P) n (hd_of Q) (fifo R) = P @ n # Q" using splice_split [OF ds] F by simp
    then show ?thesis unfolding endfast_def new(1) prod.case Let_def rq_ops I_def by simp
  qed
  show ?thesis
  proof (cases needmerge)
    case False
    then have "\<forall>a \<in> set P. endseq (seg R a) < s" "\<forall>b \<in> set Q. e < startseq (seg R b)"
      using nm P Q by force+
    note strict = this
    have "endseq (seg R a) \<noteq> rcv_nxt R" if "a \<in> set P" "s \<le> rcv_nxt R" for a using strict that rcv by force
    let ?R = "if rcv_nxt I \<ge> s then I\<lparr>rcv_nxt := e\<rparr> else I"
    have "rq_added (bytes R \<union> {s ..< e}) R ?R"
    proof (rule rq_added_mk [where m = n])
      show "lists_ok ?R" using wf new F by (auto simp: lists_ok_def I_def)
      show "blocks_ok (seg ?R) (fifo ?R)" using bl strict new(2) F se by (auto simp: I_def)
      show "total_bytes ?R = tot (seg ?R) (fifo ?R)" using tb new(2) F by (simp add: I_def)
      show "bytes ?R = bytes R \<union> {s ..< e}" using new(2) F by (auto simp: bytes_cover I_def)
    qed (use rcPQ new(2) F rcv se in \<open>auto simp: I_def split: if_splits\<close>)
    then show ?thesis using False ef by simp
  next
    case True
    consider (both) P0 a b Q0 where "P = P0 @ [a]" "Q = b # Q0" "endseq (seg R a) = s" "startseq (seg R b) = e"
      | (left) P0 a where "P = P0 @ [a]" "endseq (seg R a) = s" "\<forall>b \<in> set Q. e < startseq (seg R b)"
      | (right) b Q0 where "Q = b # Q0" "startseq (seg R b) = e" "\<forall>a \<in> set P. endseq (seg R a) < s"
      using neighbours [OF bl P Q nm [THEN iffD1, OF True]] by blast
    then show ?thesis
    proof cases
      case both
      have neq: "a \<noteq> n" "b \<noteq> n" "a \<noteq> b" "n \<notin> set P0" "n \<notin> set Q0" "a \<notin> set P0" "a \<notin> set Q0" "b \<notin> set P0" "b \<notin> set Q0"
        using new(2) F both(1,2) ds by auto
      obtain fl R' A where R': "coalesce (Some a) n (Some b) I = Inr (fl, R')" "fifo R' = remove1 b (remove1 n (fifo I))"
          "lifo R' = remove1 b (remove1 n (lifo I))" "seg R' = (seg I)(a := A)" "free R' = b # n # free I" "fresh R' = fresh I"
          "total_bytes R' = total_bytes I" "startseq A = startseq (seg I a)" "endseq A = endseq (seg I b)"
          "rcv_nxt R' = (if startseq (seg I a) \<le> rcv_nxt I then endseq (seg I b) else rcv_nxt I)"
        using coalesce_both [of I a n b] both neq by (auto simp: I_def)
      have "rq_added (bytes R \<union> {s ..< e}) R R'"
      proof (rule rq_added_mk [where m = a])
        show "lists_ok R'" using wf new F both neq by (auto simp: lists_ok_def I_def R' remove1_append)
        show "blocks_ok (seg R') (fifo R')" using bl both neq se by (auto simp: I_def R' remove1_append)
        show "total_bytes R' = tot (seg R') (fifo R')" using tb both neq by (simp add: I_def R' remove1_append)
        show "bytes R' = bytes R \<union> {s ..< e}" using bl F both neq by (auto simp: bytes_cover I_def R' remove1_append)
      qed (use rcPQ F rcv se both neq bl in \<open>auto simp: I_def R' remove1_append split: if_splits\<close>)
      then show ?thesis using True ef R' both by simp
    next
      case left
      have neq: "a \<noteq> n" "n \<notin> set P0" "n \<notin> set Q" "a \<notin> set P0" "a \<notin> set Q"
        using new(2) F left(1) ds by auto
      have "endseq (seg I n) \<noteq> startseq (seg I b)" if "hd_of Q = Some b" for b
        using left(3) that neq(3) by (cases Q) (auto simp: I_def)
      then obtain fl R' A where R': "coalesce (Some a) n (hd_of Q) I = Inr (fl, R')" "fifo R' = remove1 n (fifo I)"
          "lifo R' = remove1 n (lifo I)" "seg R' = (seg I)(a := A)" "free R' = n # free I" "fresh R' = fresh I"
          "total_bytes R' = total_bytes I" "startseq A = startseq (seg I a)" "endseq A = endseq (seg I n)"
          "rcv_nxt R' = (if startseq (seg I a) \<le> rcv_nxt I then endseq (seg I n) else rcv_nxt I)"
        using coalesce_left [of I a n "hd_of Q"] left neq by (auto simp: I_def)
      have "rq_added (bytes R \<union> {s ..< e}) R R'"
      proof (rule rq_added_mk [where m = a])
        show "lists_ok R'" using wf new F left neq by (auto simp: lists_ok_def I_def R' remove1_append)
        show "blocks_ok (seg R') (fifo R')" using bl left neq se by (auto simp: I_def R' remove1_append)
        show "total_bytes R' = tot (seg R') (fifo R')" using tb left neq by (simp add: I_def R' remove1_append)
        show "bytes R' = bytes R \<union> {s ..< e}" using bl F left neq se by (auto simp: bytes_cover I_def R' remove1_append)
      qed (use rcPQ F rcv se left neq in \<open>auto simp: I_def R' remove1_append split: if_splits\<close>)
      then show ?thesis using True ef R' left by simp
    next
      case right
      have neq: "b \<noteq> n" "n \<notin> set Q0" "n \<notin> set P" "b \<notin> set Q0" "b \<notin> set P"
        using new(2) F right(1) ds by auto
      have "endseq (seg I a) \<noteq> startseq (seg I n)" if "last_of P = Some a" for a
        using right(3) that neq(3) by (cases P rule: rev_cases) (auto simp: I_def)
      then obtain fl R' B where R': "coalesce (last_of P) n (Some b) I = Inr (fl, R')" "fifo R' = remove1 n (fifo I)"
          "lifo R' = remove1 n (lifo I)" "seg R' = (seg I)(b := B)" "free R' = n # free I" "fresh R' = fresh I"
          "total_bytes R' = total_bytes I" "startseq B = startseq (seg I n)" "endseq B = endseq (seg I b)"
          "rcv_nxt R' = (if startseq (seg I n) \<le> rcv_nxt I then endseq (seg I b) else rcv_nxt I)"
        using coalesce_right [of "last_of P" I n b] right neq by (auto simp: I_def)
      have "rq_added (bytes R \<union> {s ..< e}) R R'"
      proof (rule rq_added_mk [where m = b])
        show "lists_ok R'" using wf new F right neq by (auto simp: lists_ok_def I_def R' remove1_append)
        show "blocks_ok (seg R') (fifo R')" using bl right neq se by (auto simp: I_def R' remove1_append)
        show "total_bytes R' = tot (seg R') (fifo R')" using tb right neq by (simp add: I_def R' remove1_append)
        show "bytes R' = bytes R \<union> {s ..< e}" using bl F right neq se by (auto simp: bytes_cover I_def R' remove1_append)
      qed (use rcPQ F rcv se right neq bl in \<open>auto simp: I_def R' remove1_append split: if_splits\<close>)
      then show ?thesis using True ef R' right by simp
    qed
  qed
qed

section \<open>Removing what a segment covers\<close>

lemma lists_ok_del:
  "lists_ok R \<Longrightarrow> r \<in> set (fifo R) \<Longrightarrow> lists_ok (deleteseginfo r (sremove r (fremove r (R\<lparr>total_bytes := x\<rparr>))))"
  by (auto simp: lists_ok_def)

text \<open>With an exact match nothing is removed.\<close>

lemma kill_exact:
  assumes "r \<in> set rs" and "startseq (seg R r) = s" and "endseq (seg R r) = e"
    and "\<forall>a \<in> set rs. s \<le> startseq (seg R a) \<and> endseq (seg R a) \<le> e \<longrightarrow> startseq (seg R a) = s \<and> endseq (seg R a) = e"
  shows "\<exists>fl a. a \<in> set rs \<and> kill s e rs f c altered R = Inl (fl, set_seg a (\<lambda>x. x\<lparr>pflags := pflags x OR f\<rparr>) R)"
  using assms(1,4)
proof (induction rs)
  case (Cons x xs)
  show ?case
  proof (cases "s = startseq (seg R x) \<and> e = endseq (seg R x)")
    case True
    then show ?thesis by (auto simp: Let_def)
  next
    case False
    then have "\<not> (s \<le> startseq (seg R x) \<and> endseq (seg R x) \<le> e)" using Cons.prems(2) by auto
    moreover have "r \<in> set xs" using False Cons.prems(1) assms(2,3) by auto
    ultimately show ?thesis using Cons.IH Cons.prems(2) False by auto
  qed
qed simp

lemma kill_none:
  "\<forall>a \<in> set rs. \<not> (s \<le> startseq (seg R a) \<and> endseq (seg R a) \<le> e) \<Longrightarrow> kill s e rs f c altered R = Inr (f, c, altered, R)"
  by (induction rs) auto

lemma kill_other:
  assumes "\<forall>a \<in> set rs. \<not> (startseq (seg R a) = s \<and> endseq (seg R a) = e)"
    and "distinct rs" and "set rs \<subseteq> set (fifo R)" and "lists_ok R" and "total_bytes R = tot (seg R) (fifo R)"
  shows "\<exists>f' c' R'. kill s e rs f c altered R
        = Inr (f', c', altered \<or> (\<exists>a \<in> set rs. s \<le> startseq (seg R a) \<and> endseq (seg R a) \<le> e), R')
      \<and> fifo R' = List.filter (\<lambda>a. \<not> (a \<in> set rs \<and> s \<le> startseq (seg R a) \<and> endseq (seg R a) \<le> e)) (fifo R)
      \<and> seg R' = seg R \<and> rcv_nxt R' = rcv_nxt R \<and> lists_ok R' \<and> total_bytes R' = tot (seg R') (fifo R')"
  using assms
proof (induction rs arbitrary: f c altered R)
  case (Cons x xs)
  show ?case
  proof (cases "s \<le> startseq (seg R x) \<and> endseq (seg R x) \<le> e")
    case True
    let ?R = "deleteseginfo x (sremove x (fremove x (R\<lparr>total_bytes := total_bytes R - seg_size R x\<rparr>)))"
    have F: "fifo ?R = List.filter (\<lambda>a. a \<noteq> x) (fifo R)"
      using Cons.prems(4) by (simp add: lists_ok_def distinct_remove1_removeAll removeAll_filter_not_eq) (metis)
    have "total_bytes ?R = tot (seg ?R) (fifo ?R)"
      using Cons.prems(3,5) by (simp add: tot_remove1 seg_size_def)
    then have "\<exists>f' c' R'. kill s e xs (f OR pflags (seg R x)) (c + cnt (seg R x)) True ?R
        = Inr (f', c', True \<or> (\<exists>a \<in> set xs. s \<le> startseq (seg ?R a) \<and> endseq (seg ?R a) \<le> e), R')
      \<and> fifo R' = List.filter (\<lambda>a. \<not> (a \<in> set xs \<and> s \<le> startseq (seg ?R a) \<and> endseq (seg ?R a) \<le> e)) (fifo ?R)
      \<and> seg R' = seg ?R \<and> rcv_nxt R' = rcv_nxt ?R \<and> lists_ok R' \<and> total_bytes R' = tot (seg R') (fifo R')"
      using Cons.prems F by (intro Cons.IH lists_ok_del) auto
    moreover have "List.filter (\<lambda>a. \<not> (a \<in> set xs \<and> s \<le> startseq (seg R a) \<and> endseq (seg R a) \<le> e)) (List.filter (\<lambda>a. a \<noteq> x) (fifo R))
        = List.filter (\<lambda>a. \<not> (a \<in> set (x # xs) \<and> s \<le> startseq (seg R a) \<and> endseq (seg R a) \<le> e)) (fifo R)"
      using True by (auto simp: filter_filter intro!: filter_cong)
    ultimately show ?thesis using True Cons.prems(1) F by auto
  next
    case False
    have "List.filter (\<lambda>a. \<not> (a \<in> set xs \<and> s \<le> startseq (seg R a) \<and> endseq (seg R a) \<le> e)) (fifo R)
        = List.filter (\<lambda>a. \<not> (a \<in> set (x # xs) \<and> s \<le> startseq (seg R a) \<and> endseq (seg R a) \<le> e)) (fifo R)"
      using False by (auto intro!: filter_cong)
    then show ?thesis using Cons.IH [of R f c altered] Cons.prems False by auto
  qed
qed simp

lemma kill_range_split:
  assumes "distinct (P @ M @ Q)"
  shows "set (kill_range (last_of P) (hd_of Q) (P @ M @ Q)) \<subseteq> set P \<union> set M"
    and "set M \<subseteq> set (kill_range (last_of P) (hd_of Q) (P @ M @ Q))"
    and "distinct (kill_range (last_of P) (hd_of Q) (P @ M @ Q))"
  using assms by (cases P rule: rev_cases; cases Q; auto simp: kill_range_def takeWhile_append dropWhile_append)+

lemma find_hd: "(\<forall>a \<in> set as. \<not> p a) \<Longrightarrow> (\<forall>a \<in> set bs. p a) \<Longrightarrow> find p (as @ bs) = hd_of bs"
  by (induction as) (auto simp: hd_of_def split: list.splits)

lemma find_last: "(\<forall>a \<in> set as. p a) \<Longrightarrow> (\<forall>a \<in> set bs. \<not> p a) \<Longrightarrow> find p (rev (as @ bs)) = last_of as"
  using find_hd [of "rev bs" p "rev as"] by (cases as rule: rev_cases) auto

section \<open>Merging with the blocks a segment overlaps\<close>

text \<open>One block is changed in place.\<close>

definition block_set :: "nat \<Rightarrow> seginfo \<Rightarrow> rq \<Rightarrow> rq \<Rightarrow> bool" where
  "block_set x A R R' \<longleftrightarrow> fifo R' = fifo R \<and> lifo R' = lifo R \<and> free R' = free R \<and> fresh R' = fresh R \<and> rcv_nxt R' = rcv_nxt R
     \<and> seg R' = (seg R)(x := A) \<and> total_bytes R' = total_bytes R + (endseq A - startseq A) - seg_size R x"

lemma block_set_trans: "block_set x A R R' \<Longrightarrow> block_set x B R' R'' \<Longrightarrow> block_set x B R R''"
  by (auto simp: block_set_def seg_size_def)

lemma block_set_same:
  assumes "block_set x A R R'" and "startseq A = startseq (seg R x)" and "endseq A = endseq (seg R x)" and "rq_inv R"
  shows "rq_inv R'" and "bytes R' = bytes R" and "rcv_nxt R' = rcv_nxt R" and "fifo R' = fifo R"
    and "startseq (seg R' a) = startseq (seg R a)" and "endseq (seg R' a) = endseq (seg R a)"
proof -
  have eq: "startseq (seg R' b) = startseq (seg R b)" "endseq (seg R' b) = endseq (seg R b)" for b
    using assms(1-3) by (auto simp: block_set_def)
  have F: "fifo R' = fifo R" "lifo R' = lifo R" "free R' = free R" "fresh R' = fresh R" "rcv_nxt R' = rcv_nxt R"
      "total_bytes R' = total_bytes R"
    using assms(1-3) by (auto simp: block_set_def seg_size_def)
  have "seg_size R' = seg_size R" by (simp add: fun_eq_iff seg_size_def eq)
  then show "rq_inv R'" using assms(4) by (simp add: rq_inv_def lists_ok_def blocks_ok_def rcv_ok_def F eq)
  show "bytes R' = bytes R" by (simp add: bytes_def F eq)
qed (use assms in \<open>auto simp: block_set_def\<close>)

lemma left_merge_into:
  assumes "distinct (fifo R)" and "fifo R = P @ x # Q" and "P = [] \<or> startseq (seg R x) < s"
  shows "\<exists>A R'. left_merge s f c (last_of P) R = Inr (endseq (seg R x), c - 1, True, Some x, R') \<and> block_set x A R R'
    \<and> startseq A = min s (startseq (seg R x)) \<and> endseq A = endseq (seg R x)"
proof (cases P rule: rev_cases)
  case Nil
  then show ?thesis using assms(2) by (auto simp: left_merge_def Let_def block_set_def seg_size_def rq_ops)
next
  case (snoc P0 a)
  have "next_of a (fifo R) = Some x" using assms(1,2) snoc next_of_split [of a P0 "x # Q"] by auto
  then show ?thesis using assms(3) snoc by (auto simp: left_merge_def Let_def block_set_def seg_size_def rq_ops)
qed

lemma left_merge_skip:
  assumes "distinct (fifo R)" and "fifo R = P @ x # Q" and "P \<noteq> []" and "\<not> startseq (seg R x) < s"
  shows "left_merge s f c (last_of P) R = Inr (s, c, False, last_of P, R)"
proof (cases P rule: rev_cases)
  case (snoc P0 a)
  have "next_of a (fifo R) = Some x" using assms(1,2) snoc next_of_split [of a P0 "x # Q"] by auto
  then show ?thesis using assms(4) snoc by (simp add: left_merge_def)
qed (use assms in simp)

lemma right_merge_into:
  assumes "distinct (fifo R)" and "fifo R = P @ x # Q" and "Q = [] \<or> e < endseq (seg R x)"
  shows "\<exists>A R'. right_merge e f (hd_of Q) R = Inr (startseq (seg R x), True, Some x, R') \<and> block_set x A R R'
    \<and> startseq A = startseq (seg R x) \<and> endseq A = max e (endseq (seg R x))"
proof (cases Q)
  case Nil
  then show ?thesis using assms(2) by (auto simp: right_merge_def Let_def block_set_def seg_size_def rq_ops)
next
  case (Cons b Q0)
  have "prev_of b (fifo R) = Some x" using assms(1,2) Cons prev_of_split [of b Q0 "P @ [x]"] by auto
  then show ?thesis using assms(3) Cons by (auto simp: right_merge_def Let_def block_set_def seg_size_def rq_ops)
qed

lemma right_merge_skip:
  assumes "distinct (fifo R)" and "fifo R = P @ x # Q" and "Q \<noteq> []" and "\<not> e < endseq (seg R x)"
  shows "right_merge e f (hd_of Q) R = Inr (e, False, hd_of Q, R)"
proof (cases Q)
  case (Cons b Q0)
  have "prev_of b (fifo R) = Some x" using assms(1,2) Cons prev_of_split [of b Q0 "P @ [x]"] by auto
  then show ?thesis using assms(4) Cons by (simp add: right_merge_def)
qed (use assms in simp)

text \<open>The return of \<^verbatim>\<open>add\<close> after the merges, where one block now holds the segment.\<close>

lemma merge_return:
  assumes inv: "rq_inv R" and F: "fifo R = P @ m # Q" and ms: "block_set m A R R3"
    and A: "startseq A = min s (startseq (seg R m))" "endseq A = max e (endseq (seg R m))"
    and P: "\<forall>a \<in> set P. startseq (seg R m) \<le> s" and Q: "\<forall>a \<in> set Q. e \<le> endseq (seg R m)"
    and se: "s < e" "s < endseq (seg R m)" "startseq (seg R m) < e" and rcv: "rcv_nxt R \<le> s"
  shows "\<exists>R'. (case fifo R3 of [] \<Rightarrow> Inl NullPointer
      | h # _ \<Rightarrow> Inr (f, if rcv_nxt R3 \<ge> startseq (seg R3 h) then R3\<lparr>rcv_nxt := endseq (seg R3 h)\<rparr> else R3)) = Inr (f, R')
      \<and> rq_added (bytes R \<union> {s ..< e}) R R'"
proof -
  have wf: "lists_ok R" and bl: "blocks_ok (seg R) (P @ m # Q)" and tb: "total_bytes R = tot (seg R) (P @ m # Q)" and rc: "rcv_ok R"
    using inv F by (simp_all add: rq_inv_def tot_seg_size seg_size_def)
  have ds: "m \<notin> set P" "m \<notin> set Q" using wf F by (auto simp: lists_ok_def)
  obtain h as where h: "P @ m # Q = h # as" by (cases P) auto
  have sel: "fifo R3 = P @ m # Q" "seg R3 = (seg R)(m := A)" "rcv_nxt R3 = rcv_nxt R"
      "total_bytes R3 = total_bytes R + (endseq A - startseq A) - (endseq (seg R m) - startseq (seg R m))"
    and wf3: "lists_ok R3"
    using ms wf by (auto simp: block_set_def F lists_ok_def seg_size_def)
  let ?R = "if rcv_nxt R3 \<ge> startseq (seg R3 h) then R3\<lparr>rcv_nxt := endseq (seg R3 h)\<rparr> else R3"
  have hP: "h \<in> set (P @ m # Q)" using h by simp
  have P': "\<forall>a \<in> set P. startseq A = startseq (seg R m)" and Q': "\<forall>a \<in> set Q. endseq A = endseq (seg R m)"
    using P Q A by auto
  have rcP: "\<And>a. a \<in> set P \<or> a \<in> set Q \<or> a = m \<Longrightarrow> rcv_nxt R < startseq (seg R a) \<or> endseq (seg R a) = rcv_nxt R"
    using rc F by (auto simp: rcv_ok_def)
  have rcm: "rcv_nxt R < startseq (seg R m)" using rcP [of m] se rcv by auto
  have "rq_added (bytes R \<union> {s ..< e}) R ?R"
  proof (rule rq_added_mk [where m = h])
    show "lists_ok ?R" using wf3 by (simp add: lists_ok_def)
    show "blocks_ok (seg ?R) (fifo ?R)" using bl ds P' Q' A se by (auto simp: sel)
    show "total_bytes ?R = tot (seg ?R) (fifo ?R)" using tb ds A by (simp add: sel)
    have "{startseq A ..< endseq A} = {startseq (seg R m) ..< endseq (seg R m)} \<union> {s ..< e}"
      using A se by auto
    then show "bytes ?R = bytes R \<union> {s ..< e}" using ds F by (auto simp: bytes_cover sel)
    show "h \<in> set (fifo ?R)" using hP by (simp add: sel)
    show "rcv_nxt R \<le> endseq (seg ?R h)"
      using hP rcP [of h] blocks_ok_nonempty [OF bl hP] rcv se A by (auto simp: sel)
    show "rcv_nxt ?R = (if startseq (seg ?R h) \<le> rcv_nxt R then endseq (seg ?R h) else rcv_nxt R)" by (simp add: sel)
  next
    fix a assume a: "a \<in> set (fifo ?R)" "a \<noteq> h"
    show "rcv_nxt R < startseq (seg ?R a) \<or> endseq (seg ?R a) = rcv_nxt R"
    proof (cases "a = m")
      case True
      then have "P \<noteq> []" using a(2) h by (cases P) auto
      then show ?thesis using P' True rcm by (cases P) (auto simp: sel)
    next
      case False
      then show ?thesis using a(1) rcP [of a] by (auto simp: sel split: if_splits)
    qed
  qed
  then show ?thesis using h sel(1) by simp
qed

lemma rq_added_from:
  "rq_added B R R' \<Longrightarrow> rcv_nxt R = rcv_nxt R0 \<Longrightarrow> B = B0 \<Longrightarrow> rq_added B0 R0 R'"
  by (simp add: rq_added_def)

text \<open>No block overlaps: the segment lies between its neighbours.\<close>

lemma add_merge_between:
  assumes ds: "distinct ((P0 @ [a]) @ b # Q0)" and F: "fifo R = P0 @ a # b # Q0" and se: "s < e"
    and ab: "endseq (seg R a) \<le> s" "e \<le> startseq (seg R b)"
  shows "add_merge s e f g c (Some a) (Some b) R
    = endfast s e f g c (endseq (seg R a) = s \<or> startseq (seg R b) = e) (Some a) (Some b) R"
proof -
  have ds: "distinct (fifo R)" using ds F by simp
  have l: "left_merge s f c (Some a) R = Inr (s, c, False, Some a, R)"
    using left_merge_skip [OF ds, of "P0 @ [a]" b Q0 s f c] F ab se by auto
  have r: "right_merge e f (Some b) R = Inr (e, False, Some b, R)"
    using right_merge_skip [OF ds, of P0 a "b # Q0" e f] F ab se by auto
  have nx: "next_of a (fifo R) = Some b" using next_of_split [of a P0 "b # Q0"] ds F by auto
  show ?thesis unfolding add_merge_def l r bindE_Inr prod.case using se ab nx by simp
qed

lemma add_merge_none:
  assumes inv: "rq_inv R" and F: "fifo R = P @ Q" and ne: "P \<noteq> []" "Q \<noteq> []" and se: "s < e" and rcv: "rcv_nxt R \<le> s"
    and P: "\<forall>a \<in> set P. endseq (seg R a) \<le> s" and Q: "\<forall>a \<in> set Q. e \<le> startseq (seg R a)"
  shows "\<exists>fl R'. add_merge s e f g c (last_of P) (hd_of Q) R = Inr (fl, R') \<and> rq_added (bytes R \<union> {s ..< e}) R R'"
proof -
  obtain P0 a where a: "P = P0 @ [a]" using ne(1) by (cases P rule: rev_cases) auto
  obtain b Q0 where b: "Q = b # Q0" using ne(2) by (cases Q) auto
  have ds: "distinct ((P0 @ [a]) @ b # Q0)" and bl: "blocks_ok (seg R) (P @ Q)" using inv F a b by (auto simp: rq_inv_def lists_ok_def)
  have *: "add_merge s e f g c (last_of P) (hd_of Q) R
      = endfast s e f g c (endseq (seg R a) = s \<or> startseq (seg R b) = e) (last_of P) (hd_of Q) R"
    using add_merge_between [OF ds, of R s e f g c] F se P Q a b by simp
  have nm: "(endseq (seg R a) = s \<or> startseq (seg R b) = e) \<longleftrightarrow> (\<exists>a \<in> set P. endseq (seg R a) = s) \<or> (\<exists>b \<in> set Q. startseq (seg R b) = e)"
    using neighbours [OF bl P Q] a b by fastforce
  show ?thesis unfolding * by (rule endfast_ok [OF inv F se rcv P Q nm])
qed

lemma bytes_widen:
  "m \<in> set (fifo R) \<Longrightarrow> {startseq (seg R m) ..< endseq (seg R m)} \<union> X = {startseq (seg R m) ..< endseq (seg R m)} \<union> Y
    \<Longrightarrow> bytes R \<union> X = bytes R \<union> Y"
  unfolding bytes_def by blast

text \<open>One block overlaps.\<close>

lemma add_merge_one:
  assumes inv: "rq_inv R" and F: "fifo R = P @ m # Q" and se: "s < e" and rcv: "rcv_nxt R \<le> s"
    and P: "\<forall>a \<in> set P. endseq (seg R a) \<le> s" and Q: "\<forall>a \<in> set Q. e \<le> startseq (seg R a)"
    and m: "s < endseq (seg R m)" "startseq (seg R m) < e" and nc: "\<not> (s \<le> startseq (seg R m) \<and> endseq (seg R m) \<le> e)"
  shows "\<exists>fl R'. add_merge s e f g c (last_of P) (hd_of Q) R = Inr (fl, R') \<and> rq_added (bytes R \<union> {s ..< e}) R R'"
proof -
  have ds: "distinct (fifo R)" and bl: "blocks_ok (seg R) (P @ m # Q)"
    using inv F by (auto simp: rq_inv_def lists_ok_def)
  consider (in_both) "P = [] \<or> startseq (seg R m) < s" "Q = [] \<or> e < endseq (seg R m)"
    | (left) "P = [] \<or> startseq (seg R m) < s" "Q \<noteq> []" "\<not> e < endseq (seg R m)"
    | (right) "P \<noteq> []" "\<not> startseq (seg R m) < s" using nc by linarith
  then show ?thesis
  proof cases
    case in_both
    obtain A R2 where l: "left_merge s f c (last_of P) R = Inr (endseq (seg R m), c - 1, True, Some m, R2)"
        "block_set m A R R2" "startseq A = min s (startseq (seg R m))" "endseq A = endseq (seg R m)"
      using left_merge_into [OF ds F in_both(1)] by blast
    have R2: "seg R2 m = A" "fifo R2 = fifo R" using l(2) by (auto simp: block_set_def)
    obtain B R3 where r: "right_merge e f (hd_of Q) R2 = Inr (startseq A, True, Some m, R3)"
        "block_set m B R2 R3" "startseq B = startseq A" "endseq B = max e (endseq A)"
      using right_merge_into [of R2 P m Q e f] ds F in_both(2) l(4) R2 by auto
    have le: "startseq A \<le> endseq (seg R m)" using l(3) m by simp
    have B: "startseq B = min s (startseq (seg R m))" "endseq B = max e (endseq (seg R m))" using l(3,4) r(3,4) by simp_all
    show ?thesis unfolding add_merge_def l(1) bindE_Inr prod.case r(1) if_P [OF le]
      using merge_return [OF inv F block_set_trans [OF l(2) r(2)] B _ _ se m rcv, of f] in_both by fastforce
  next
    case left
    obtain A R2 where l: "left_merge s f c (last_of P) R = Inr (endseq (seg R m), c - 1, True, Some m, R2)"
        "block_set m A R R2" "startseq A = min s (startseq (seg R m))" "endseq A = endseq (seg R m)"
      using left_merge_into [OF ds F left(1)] by blast
    have A: "startseq A = startseq (seg R m)" and ms: "startseq (seg R m) < s" using l(3) left(3) nc by auto
    note R2 = block_set_same [OF l(2) A l(4) inv]
    have r: "right_merge e f (hd_of Q) R2 = Inr (e, False, hd_of Q, R2)"
      using right_merge_skip [of R2 P m Q e f] ds F left R2(4,6) by simp
    show ?thesis
    proof (cases "e \<le> endseq (seg R m)")
      case True
      have "startseq A = min s (startseq (seg R m))" "endseq A = max e (endseq (seg R m))" using l(3,4) True by simp_all
      then show ?thesis unfolding add_merge_def l(1) bindE_Inr prod.case r(1) if_P [OF True]
        using merge_return [OF inv F l(2) _ _ _ _ se m rcv, of f] ms True by fastforce
    next
      case False
      have *: "add_merge s e f g c (last_of P) (hd_of Q) R
          = endfast (endseq (seg R m)) e f g (c - 1) True (Some m) (hd_of Q) R2"
        unfolding add_merge_def l(1) bindE_Inr prod.case r(1) using False by simp
      have "\<exists>fl R'. endfast (endseq (seg R m)) e f g (c - 1) True (last_of (P @ [m])) (hd_of Q) R2 = Inr (fl, R')
          \<and> rq_added (bytes R2 \<union> {endseq (seg R m) ..< e}) R2 R'"
        by (rule endfast_ok [OF R2(1)]) (use F R2(3,4) rcv m bl False P Q ms in \<open>auto simp: R2(5,6)\<close>)
      moreover have "bytes R2 \<union> {endseq (seg R m) ..< e} = bytes R \<union> {s ..< e}"
        unfolding R2(2) by (rule bytes_widen [of m]) (use F m ms in auto)
      ultimately show ?thesis unfolding * using rq_added_from R2(3) by fastforce
    qed
  next
    case right
    have em: "e < endseq (seg R m)" using right(2) nc by auto
    have l: "left_merge s f c (last_of P) R = Inr (s, c, False, last_of P, R)"
      by (rule left_merge_skip [OF ds F right])
    obtain B R3 where r: "right_merge e f (hd_of Q) R = Inr (startseq (seg R m), True, Some m, R3)"
        "block_set m B R R3" "startseq B = startseq (seg R m)" "endseq B = max e (endseq (seg R m))"
      using right_merge_into [OF ds F] em by blast
    have B: "endseq B = endseq (seg R m)" using r(4) em by simp
    note R3 = block_set_same [OF r(2,3) B inv]
    show ?thesis
    proof (cases "startseq (seg R m) \<le> s")
      case True
      have "startseq B = min s (startseq (seg R m))" using r(3) right(2) True by simp
      then show ?thesis unfolding add_merge_def l bindE_Inr prod.case r(1) if_P [OF True]
        using merge_return [OF inv F r(2) _ r(4) _ _ se m rcv, of f] em True by fastforce
    next
      case False
      have *: "add_merge s e f g c (last_of P) (hd_of Q) R = endfast s (startseq (seg R m)) f g c True (last_of P) (Some m) R3"
        unfolding add_merge_def l bindE_Inr prod.case r(1) using False by simp
      have "\<exists>fl R'. endfast s (startseq (seg R m)) f g c True (last_of P) (hd_of (m # Q)) R3 = Inr (fl, R')
          \<and> rq_added (bytes R3 \<union> {s ..< startseq (seg R m)}) R3 R'"
        by (rule endfast_ok [OF R3(1)]) (use F R3(3,4) rcv m bl False P Q in \<open>auto simp: R3(5,6)\<close>)
      moreover have "bytes R3 \<union> {s ..< startseq (seg R m)} = bytes R \<union> {s ..< e}"
        unfolding R3(2) by (rule bytes_widen [of m]) (use F m em in auto)
      ultimately show ?thesis unfolding * using rq_added_from R3(3) by fastforce
    qed
  qed
qed

text \<open>One block overlaps, or two.\<close>

lemma add_merge_some:
  assumes inv: "rq_inv R" and F: "fifo R = P @ M @ Q" and ne: "M \<noteq> []" and se: "s < e" and rcv: "rcv_nxt R \<le> s"
    and P: "\<forall>a \<in> set P. endseq (seg R a) \<le> s" and Q: "\<forall>a \<in> set Q. e \<le> startseq (seg R a)"
    and M: "\<forall>a \<in> set M. s < endseq (seg R a) \<and> startseq (seg R a) < e
      \<and> \<not> (s \<le> startseq (seg R a) \<and> endseq (seg R a) \<le> e)"
  shows "\<exists>fl R'. add_merge s e f g c (last_of P) (hd_of Q) R = Inr (fl, R') \<and> rq_added (bytes R \<union> {s ..< e}) R R'"
proof -
  have ds: "distinct (P @ M @ Q)" and bl: "blocks_ok (seg R) (P @ M @ Q)"
    using inv F by (auto simp: rq_inv_def lists_ok_def)
  consider (one) m where "M = [m]" | (two) ml mr where "M = [ml, mr]"
  proof -
    have "length M \<le> 2"
    proof (rule ccontr)
      assume "\<not> length M \<le> 2"
      then obtain x y z zs where "M = x # y # z # zs" by (cases M rule: remdups_adj.cases) (auto, metis list.exhaust list.size(3,4) not_less_eq_eq le0 numeral_2_eq_2)
      then show False using bl M by auto
    qed
    then show thesis using that ne by (cases M rule: remdups_adj.cases) auto
  qed
  then show ?thesis
  proof cases
    case one
    show ?thesis using add_merge_one [OF inv _ se rcv P Q] F M one by auto
  next
    case two
    have m: "startseq (seg R ml) < s" "s < endseq (seg R ml)" "endseq (seg R ml) < startseq (seg R mr)"
        "startseq (seg R mr) < e" "e < endseq (seg R mr)" "ml \<noteq> mr"
      using M bl two ds by auto
    obtain A R2 where l: "left_merge s f c (last_of P) R = Inr (endseq (seg R ml), c - 1, True, Some ml, R2)"
        "block_set ml A R R2" "startseq A = min s (startseq (seg R ml))" "endseq A = endseq (seg R ml)"
      using left_merge_into [of R P ml "mr # Q" s f c] F two ds m(1) by auto
    note R2 = block_set_same [OF l(2) _ l(4) inv]
    have A: "startseq A = startseq (seg R ml)" using l(3) m(1) by simp
    obtain B R3 where r: "right_merge e f (hd_of Q) R2 = Inr (startseq (seg R2 mr), True, Some mr, R3)"
        "block_set mr B R2 R3" "startseq B = startseq (seg R2 mr)" "endseq B = max e (endseq (seg R2 mr))"
      using right_merge_into [of R2 "P @ [ml]" mr Q e f] F two ds m(5) R2(4,6) [OF A] by auto
    have B: "endseq B = endseq (seg R2 mr)" using r(4) m(5) R2(6) [OF A] by simp
    note R3 = block_set_same [OF r(2) r(3) B R2(1) [OF A]]
    have eqs: "startseq (seg R3 a) = startseq (seg R a)" "endseq (seg R3 a) = endseq (seg R a)" for a
      using R3(5,6) R2(5,6) [OF A] by simp_all
    have *: "add_merge s e f g c (last_of P) (hd_of Q) R
        = endfast (endseq (seg R ml)) (startseq (seg R mr)) f g (c - 1) True (Some ml) (Some mr) R3"
      unfolding add_merge_def l(1) bindE_Inr prod.case r(1) using m R2(5) [OF A] by simp
    have "\<exists>fl R'. endfast (endseq (seg R ml)) (startseq (seg R mr)) f g (c - 1) True (last_of (P @ [ml])) (hd_of (mr # Q)) R3 = Inr (fl, R')
        \<and> rq_added (bytes R3 \<union> {endseq (seg R ml) ..< startseq (seg R mr)}) R3 R'"
      by (rule endfast_ok [OF R3(1)]) (use F two R3(3,4) R2(3,4) [OF A] rcv m bl in \<open>auto simp: eqs\<close>)
    moreover have "bytes R3 \<union> {endseq (seg R ml) ..< startseq (seg R mr)} = bytes R \<union> {s ..< e}"
      using R3(2) R2(2) [OF A] F two m by (auto simp: bytes_cover)
    ultimately show ?thesis unfolding * using rq_added_from R3(3) R2(3) [OF A] by fastforce
  qed
qed

section \<open>Adding\<close>

lemma find_neighbours:
  assumes "blocks_ok (seg R) (P @ M @ Q)" and "s < e" and P: "\<forall>a \<in> set P. endseq (seg R a) \<le> s"
    and M: "\<forall>a \<in> set M. s < endseq (seg R a) \<and> startseq (seg R a) < e" and Q: "\<forall>a \<in> set Q. e \<le> startseq (seg R a)"
  shows "find (\<lambda>a. e \<le> startseq (seg R a)) (P @ M @ Q) = hd_of Q"
    and "find (\<lambda>a. endseq (seg R a) \<le> s) (rev (P @ M @ Q)) = last_of P"
proof -
  have "\<not> e \<le> startseq (seg R a)" if "a \<in> set (P @ M)" for a
    using that assms(2) blocks_ok_nonempty [OF assms(1), of a] bspec [OF P, of a] bspec [OF M, of a] by auto
  then have "\<forall>a \<in> set (P @ M). \<not> e \<le> startseq (seg R a)" by blast
  then show "find (\<lambda>a. e \<le> startseq (seg R a)) (P @ M @ Q) = hd_of Q"
    using find_hd [of "P @ M" "\<lambda>a. e \<le> startseq (seg R a)" Q] Q by simp
  have "\<not> endseq (seg R a) \<le> s" if "a \<in> set (M @ Q)" for a
    using that assms(2) blocks_ok_nonempty [OF assms(1), of a] bspec [OF Q, of a] bspec [OF M, of a] by auto
  then have "\<forall>a \<in> set (M @ Q). \<not> endseq (seg R a) \<le> s" by blast
  then show "find (\<lambda>a. endseq (seg R a) \<le> s) (rev (P @ M @ Q)) = last_of P"
    using find_last [of P "\<lambda>a. endseq (seg R a) \<le> s" "M @ Q"] P by simp
qed

text \<open>One round, given what the loop that removes does.\<close>

lemma again2_inside:
  assumes F: "fifo R = P @ M @ Q" and bl: "blocks_ok (seg R) (P @ M @ Q)" and se: "s < e"
    and P: "\<forall>a \<in> set P. endseq (seg R a) \<le> s" and M: "\<forall>a \<in> set M. s < endseq (seg R a) \<and> startseq (seg R a) < e"
    and Q: "\<forall>a \<in> set Q. e \<le> startseq (seg R a)" and ins: "M \<noteq> [] \<or> P \<noteq> [] \<and> Q \<noteq> []"
  shows "again2 (Suc fuel) s e f g c R =
    (case kill s e (kill_range (last_of P) (hd_of Q) (fifo R)) f c False R of
       Inl (fl, R1) \<Rightarrow> Inr (fl, R1)
     | Inr (f1, c1, altered, R1) \<Rightarrow>
         if rq_empty R1 then endfast s e f1 g c1 False (last_of P) (hd_of Q) R1
         else if altered then again2 fuel s e f1 g c1 R1
         else add_merge s e f1 g c1 (last_of P) (hd_of Q) R1)"
proof -
  obtain h t where h: "fifo R = h # t"
  proof (cases "fifo R")
    case Nil
    then show thesis using F ins by simp
  qed (rule that)
  have "h \<in> set P \<union> set M" using h F ins by (cases P; cases M) auto
  then have "startseq (seg R h) < e" using bspec [OF P, of h] bspec [OF M, of h] se blocks_ok_nonempty [OF bl, of h] by auto
  moreover have "List.last (fifo R) \<in> set M \<union> set Q" using F ins by (cases Q rule: rev_cases; cases M rule: rev_cases) auto
  then have "s < endseq (seg R (List.last (fifo R)))"
    using bspec [OF Q, of "List.last (fifo R)"] bspec [OF M, of "List.last (fifo R)"] se
      blocks_ok_nonempty [OF bl, of "List.last (fifo R)"] by auto
  ultimately show ?thesis
    using find_neighbours [OF bl se P M Q] h by (simp add: F [symmetric] Let_def)
qed

lemma again2_tail:
  "fifo R = P @ [a] \<Longrightarrow> endseq (seg R a) \<le> s \<Longrightarrow>
   again2 (Suc fuel) s e f g c R = endfast s e f g c (s = endseq (seg R a)) (Some a) None R"
  by (cases P) (simp_all add: Let_def)

lemma again2_ok:
  "rq_inv R \<Longrightarrow> fifo R \<noteq> [] \<Longrightarrow> s < e \<Longrightarrow> rcv_nxt R \<le> s \<Longrightarrow> length (fifo R) < fuel \<Longrightarrow>
   \<exists>fl R'. again2 fuel s e f g c R = Inr (fl, R') \<and> rq_added (bytes R \<union> {s ..< e}) R R'"
proof (induction fuel arbitrary: f c R)
  case (Suc fuel)
  note inv = Suc.prems(1) and ne = Suc.prems(2) and se = Suc.prems(3) and rcv = Suc.prems(4)
  have ds: "distinct (fifo R)" and bl0: "blocks_ok (seg R) (fifo R)" and wf: "lists_ok R"
      and tb: "total_bytes R = tot (seg R) (fifo R)" and rc: "rcv_ok R"
    using inv by (auto simp: rq_inv_def lists_ok_def tot_seg_size)
  obtain P M Q where F: "fifo R = P @ M @ Q" and P: "\<forall>a \<in> set P. endseq (seg R a) \<le> s"
      and M: "\<forall>a \<in> set M. s < endseq (seg R a) \<and> startseq (seg R a) < e" and Q: "\<forall>a \<in> set Q. e \<le> startseq (seg R a)"
    by (rule blocks_split [OF bl0 se])
  note bl = bl0 [unfolded F]
  consider (tail) "M = []" "Q = []" | (head) "M = []" "P = []" | (ins) "M \<noteq> [] \<or> P \<noteq> [] \<and> Q \<noteq> []" by blast
  then show ?case
  proof cases
    case tail
    obtain P0 a where a: "fifo R = P0 @ [a]" using ne by (cases "fifo R" rule: rev_cases) auto
    have Pa: "P = P0 @ [a]" using F tail a by simp
    have lt: "\<forall>x \<in> set P0. endseq (seg R x) \<noteq> s" using bl Pa bspec [OF P, of a] by fastforce
    have nm: "(s = endseq (seg R a)) \<longleftrightarrow> (\<exists>x \<in> set P. endseq (seg R x) = s) \<or> (\<exists>b \<in> set []. startseq (seg R b) = e)"
      using lt Pa by auto
    have "again2 (Suc fuel) s e f g c R = endfast s e f g c (s = endseq (seg R a)) (last_of P) (hd_of []) R"
      using again2_tail [OF a] bspec [OF P, of a] Pa by simp
    then show ?thesis using endfast_ok [OF inv _ se rcv P _ nm] F tail by simp
  next
    case head
    obtain b Q0 where b: "fifo R = b # Q0" using ne by (cases "fifo R") auto
    have Qb: "Q = b # Q0" using F head b by simp
    have "List.last (fifo R) \<in> set Q" using b Qb by simp
    then have l: "\<not> endseq (seg R (List.last (fifo R))) \<le> s"
      using bspec [OF Q, of "List.last (fifo R)"] se blocks_ok_nonempty [OF bl0 List.last_in_set [OF ne]] by linarith
    have gt: "\<forall>x \<in> set Q0. startseq (seg R x) \<noteq> e" using bl Qb bspec [OF Q, of b] by fastforce
    have nm: "(e = startseq (seg R b)) \<longleftrightarrow> (\<exists>x \<in> set []. endseq (seg R x) = s) \<or> (\<exists>b \<in> set Q. startseq (seg R b) = e)"
      using gt Qb by auto
    have "again2 (Suc fuel) s e f g c R = endfast s e f g c (e = startseq (seg R b)) (last_of []) (hd_of Q) R"
      using b l bspec [OF Q, of b] Qb by (simp add: Let_def)
    then show ?thesis using endfast_ok [OF inv _ se rcv _ Q nm] F head by simp
  next
    case ins
    note step = again2_inside [OF F bl se P M Q ins]
    let ?rs = "kill_range (last_of P) (hd_of Q) (fifo R)"
    let ?cov = "\<lambda>a. s \<le> startseq (seg R a) \<and> endseq (seg R a) \<le> e"
    have rs: "set ?rs \<subseteq> set P \<union> set M" "set M \<subseteq> set ?rs" "distinct ?rs"
      using kill_range_split [of P M Q] ds F by simp_all
    have Pnc: "\<not> s \<le> startseq (seg R a)" if "a \<in> set P" for a
      using bspec [OF P that] blocks_ok_nonempty [OF bl0, of a] F that by simp
    have bytesM: "{s ..< e} \<union> bytes R = {s ..< e} \<union> (\<Union>a \<in> {a \<in> set (fifo R). \<not> (a \<in> set ?rs \<and> ?cov a)}. {startseq (seg R a) ..< endseq (seg R a)})"
      by (fastforce simp: bytes_def)
    consider (exact) r where "r \<in> set M" "startseq (seg R r) = s" "endseq (seg R r) = e"
      | (covered) r where "r \<in> set ?rs" "?cov r" "\<forall>a \<in> set ?rs. \<not> (startseq (seg R a) = s \<and> endseq (seg R a) = e)"
      | (none) "\<forall>a \<in> set ?rs. \<not> ?cov a"
      using rs Pnc by blast
    then show ?thesis
    proof cases
      case exact
      have rF: "r \<in> set (fifo R)" and rr: "r \<in> set ?rs" using exact(1) F rs(2) by auto
      have "startseq (seg R a) = s \<and> endseq (seg R a) = e" if "a \<in> set ?rs" "?cov a" for a
      proof (cases "a = r")
        case False
        have "a \<in> set (fifo R)" using that(1) rs(1) F by auto
        then show ?thesis
          using blocks_ok_order [OF bl0 _ rF False] blocks_ok_nonempty [OF bl0, of a] that(2) exact(2,3) by auto
      qed (use exact in simp)
      then obtain fl a where k: "a \<in> set ?rs"
          "kill s e ?rs f c False R = Inl (fl, set_seg a (\<lambda>x. x\<lparr>pflags := pflags x OR f\<rparr>) R)"
        using kill_exact [OF rr exact(2,3), of f c False] by blast
      let ?R1 = "set_seg a (\<lambda>x. x\<lparr>pflags := pflags x OR f\<rparr>) R"
      have bs: "block_set a (seg R a\<lparr>pflags := pflags (seg R a) OR f\<rparr>) R ?R1" by (simp add: block_set_def seg_size_def)
      note R1 = block_set_same [OF bs _ _ inv, simplified]
      have "bytes R \<union> {s ..< e} = bytes R" using rF exact(2,3) by (auto simp: bytes_def)
      then show ?thesis unfolding step k(2) using R1(1,2) by (simp add: rq_added_def)
    next
      case covered
      have sub: "set ?rs \<subseteq> set (fifo R)" using rs(1) F by auto
      have ex: "(False \<or> (\<exists>a \<in> set ?rs. ?cov a)) = True" using covered(1,2) by blast
      obtain f' c' R1 where k: "kill s e ?rs f c False R = Inr (f', c', True, R1)"
          "fifo R1 = List.filter (\<lambda>a. \<not> (a \<in> set ?rs \<and> ?cov a)) (fifo R)"
          "seg R1 = seg R" "rcv_nxt R1 = rcv_nxt R" "lists_ok R1" "total_bytes R1 = tot (seg R1) (fifo R1)"
        using kill_other [OF covered(3) rs(3) sub wf tb, of f c False, unfolded ex] by blast
      have inv1: "rq_inv R1"
        using k blocks_ok_filter [OF bl0] rc by (auto simp: rq_inv_def tot_seg_size rcv_ok_def)
      have B: "bytes R1 \<union> {s ..< e} = bytes R \<union> {s ..< e}" using bytesM by (auto simp: bytes_def [of R1] k(2,3))
      have rcv1: "rcv_nxt R1 \<le> s" using rcv k(4) by simp
      show ?thesis
      proof (cases "fifo R1 = []")
        case True
        have "a \<notin> set P \<union> set Q" for a
          using True rs(1) Pnc [of a] ds F filter_empty_conv [THEN iffD1, OF True [unfolded k(2)]] by auto
        then have "\<forall>a. a \<notin> set P \<union> set Q" by (intro allI)
        then have "set P \<union> set Q = {}" by (simp only: all_not_in_conv)
        then have PQ: "P = []" "Q = []" by simp_all
        have "again2 (Suc fuel) s e f g c R = endfast s e f' g c' False (last_of []) (hd_of []) R1"
          unfolding step k(1) using True PQ by (simp add: rq_empty_def)
        then show ?thesis
          using endfast_ok [OF inv1 _ se rcv1, of "[]" "[]" False f' g c'] True rq_added_from [OF _ k(4) B] by auto
      next
        case False
        have "again2 (Suc fuel) s e f g c R = again2 fuel s e f' g c' R1"
          unfolding step k(1) using False by (simp add: rq_empty_def)
        moreover have "length (fifo R1) < length (fifo R)"
          unfolding k(2) using covered(1,2) sub by (intro length_filter_less [where x = r]) auto
        ultimately show ?thesis
          using Suc.IH [OF inv1 False se rcv1, of f' c'] Suc.prems(5) rq_added_from [OF _ k(4) B] by auto
      qed
    next
      case none
      have k: "kill s e ?rs f c False R = Inr (f, c, False, R)" by (rule kill_none [OF none])
      have eq: "again2 (Suc fuel) s e f g c R = add_merge s e f g c (last_of P) (hd_of Q) R"
        unfolding step k using ne by (simp add: rq_empty_def)
      show ?thesis
      proof (cases "M = []")
        case True
        then show ?thesis unfolding eq using add_merge_none [OF inv _ _ _ se rcv P Q] F ins by simp
      next
        case False
        have "\<forall>a \<in> set M. s < endseq (seg R a) \<and> startseq (seg R a) < e \<and> \<not> ?cov a" using M none rs(2) by blast
        then show ?thesis unfolding eq by (rule add_merge_some [OF inv F False se rcv P Q])
      qed
    qed
  qed
qed simp

end
