(* ===== verification/Tcp_RqProps.thy ===== *)
theory Tcp_RqProps
  imports Tcp_Rq
begin

text \<open>
  What the reassembly queue promises: \<open>rq_add\<close> adds the bytes of a segment and moves \<^verbatim>\<open>rcv_nxt_\<close> to the first
  missing byte, \<open>clearto\<close> drops the bytes below a number, \<open>nexthole\<close> finds the first missing byte
  at or above a number, and \<open>gensack\<close> lists blocks that are whole runs of received bytes.
\<close>

section \<open>Adding a segment\<close>

lemma rcv_not_in_bytes: "rq_inv R \<Longrightarrow> rcv_nxt R \<notin> bytes R"
  by (auto simp: rq_inv_def rcv_ok_def bytes_def)

lemma rq_add_added:
  assumes inv: "rq_inv R" and rcv: "rcv_nxt R \<le> s" and se: "s < e"
  shows "\<exists>fl R'. rq_add s e f g R = Inr (fl, R') \<and> rq_added (bytes R \<union> {s ..< e}) R R'"
proof (cases "fifo R = []")
  case False
  then show ?thesis using again2_ok [OF inv False se rcv, of "Suc (length (fifo R))" f g 1] se by (simp add: rq_add_def)
next
  case True
  have wf: "lists_ok R" using inv by (simp add: rq_inv_def)
  then have L: "lifo R = []" using True by (simp add: lists_ok_def)
  obtain n fr k where new: "newseginfo R = (n, R\<lparr>free := fr, fresh := k\<rparr>)" "n \<notin> set (fifo R)" "n \<notin> set fr" "n < k"
      "distinct fr" "set fr \<inter> set (fifo R) = {}" "\<forall>a \<in> set (fifo R) \<union> set fr. a < k"
    by (rule newseginfo_ok [OF wf])
  let ?R3 = "set_seg n (\<lambda>_. \<lparr>startseq = s, endseq = e, pflags = f, rqflags = g, cnt = 1\<rparr>)
    (R\<lparr>free := fr, fresh := k\<rparr>)\<lparr>fifo := [n], lifo := [n], total_bytes := e - s\<rparr>"
  let ?R' = "if rcv_nxt ?R3 \<ge> s then ?R3\<lparr>rcv_nxt := e\<rparr> else ?R3"
  have "rq_add s e f g R = Inr (f, ?R')" using se True L by (simp add: rq_add_def new(1))
  moreover have "rq_added (bytes R \<union> {s ..< e}) R ?R'"
    by (rule rq_added_mk [where m = n])
      (use True new se rcv in \<open>auto simp: lists_ok_def bytes_cover split: if_splits\<close>)
  ultimately show ?thesis by blast
qed

lemma rq_add_cases:
  assumes "rq_inv R" and "rcv_nxt R \<le> s" and "s < e"
  obtains fl R' where "rq_add s e f g R = Inr (fl, R')" and "rq_inv R'" and "bytes R' = bytes R \<union> {s ..< e}"
    and "rcv_nxt R \<le> rcv_nxt R'" and "{rcv_nxt R ..< rcv_nxt R'} \<subseteq> bytes R'" and "rcv_nxt R' \<notin> bytes R'"
proof -
  obtain fl R' where R': "rq_add s e f g R = Inr (fl, R')" "rq_added (bytes R \<union> {s ..< e}) R R'"
    using rq_add_added [OF assms, of f g] by blast
  then have *: "rq_inv R'" "bytes R' = bytes R \<union> {s ..< e}" "rcv_nxt R \<le> rcv_nxt R'" "{rcv_nxt R ..< rcv_nxt R'} \<subseteq> bytes R'"
    by (simp_all add: rq_added_def)
  show thesis by (rule that [OF R'(1) * rcv_not_in_bytes [OF *(1)]])
qed

text \<open>C4. Adding a segment that begins at or above \<^verbatim>\<open>rcv_nxt_\<close>, over whatever blocks it covers, overlaps or touches,
  always returns. The queue then holds exactly the bytes it held and those of the segment, in separate
  ordered blocks, with \<^verbatim>\<open>total_\<close> their number; and \<^verbatim>\<open>rcv_nxt_\<close> has moved over received
  bytes to the first byte that is missing.\<close>

theorem rq_add_adds:
  assumes "rq_inv R" and "rcv_nxt R \<le> s" and "s < e"
  shows "\<exists>fl R'. rq_add s e f g R = Inr (fl, R') \<and> rq_inv R' \<and> bytes R' = bytes R \<union> {s ..< e}
    \<and> rcv_nxt R \<le> rcv_nxt R' \<and> {rcv_nxt R ..< rcv_nxt R'} \<subseteq> bytes R' \<and> rcv_nxt R' \<notin> bytes R'"
  by (rule rq_add_cases [OF assms, of f g]) blast

lemma new_rq_inv: "rq_inv (new_rq r)" and bytes_new_rq [simp]: "bytes (new_rq r) = {}"
    and rcv_new_rq [simp]: "rcv_nxt (new_rq r) = r"
  by (simp_all add: rq_inv_def new_rq_def lists_ok_def rcv_ok_def bytes_def)

theorem rq_add_adds_witness:
  "\<exists>fl R'. rq_add 3 7 0 0 (new_rq 0) = Inr (fl, R') \<and> rq_inv R' \<and> bytes R' = bytes (new_rq 0) \<union> {3 ..< 7}
    \<and> rcv_nxt (new_rq 0) \<le> rcv_nxt R' \<and> {rcv_nxt (new_rq 0) ..< rcv_nxt R'} \<subseteq> bytes R' \<and> rcv_nxt R' \<notin> bytes R'"
  by (rule rq_add_adds) (simp_all add: new_rq_inv)

section \<open>What the users of the queue rely on\<close>

text \<open>A store of received bytes that knows the first one that is missing. The sender's score board and the
  receiver's stream are clients.\<close>

locale byte_store =
  fixes ok :: "'q \<Rightarrow> bool" and held :: "'q \<Rightarrow> int set" and expected :: "'q \<Rightarrow> int"
    and add :: "int \<times> int \<Rightarrow> 'q \<Rightarrow> 'q result"
  assumes expected_missing: "ok Q \<Longrightarrow> expected Q \<notin> held Q"
    and add_bytes: "ok Q \<Longrightarrow> expected Q \<le> l \<Longrightarrow> l < r \<Longrightarrow>
      \<exists>Q'. add (l, r) Q = Inr Q' \<and> ok Q' \<and> held Q' = held Q \<union> {l ..< r} \<and> expected Q \<le> expected Q'
        \<and> {expected Q ..< expected Q'} \<subseteq> held Q'"
begin

text \<open>Bytes beyond the expected one leave it expected.\<close>

lemma add_beyond:
  assumes "ok Q" and "expected Q < l" and "l < r"
  shows "\<exists>Q'. add (l, r) Q = Inr Q' \<and> ok Q' \<and> held Q' = held Q \<union> {l ..< r} \<and> expected Q' = expected Q"
proof -
  obtain Q' where Q': "add (l, r) Q = Inr Q'" "ok Q'" "held Q' = held Q \<union> {l ..< r}" "expected Q \<le> expected Q'"
      "{expected Q ..< expected Q'} \<subseteq> held Q'"
    using add_bytes [OF assms(1) order.strict_implies_order [OF assms(2)] assms(3)] by blast
  have "expected Q \<notin> held Q'" using Q'(3) expected_missing [OF assms(1)] assms(2) by auto
  then have "\<not> expected Q < expected Q'" using subsetD [OF Q'(5), of "expected Q"] by auto
  then show ?thesis using Q' by (intro exI [of _ Q']) simp
qed

lemma add_all_beyond:
  assumes "ok Q" and "\<forall>(l, r) \<in> set bs. expected Q < l \<and> l < r"
  shows "\<exists>Q'. foldE add bs Q = Inr Q' \<and> ok Q' \<and> held Q' = held Q \<union> (\<Union>(l, r) \<in> set bs. {l ..< r}) \<and> expected Q' = expected Q"
  using assms
proof (induction bs arbitrary: Q)
  case (Cons b bs)
  obtain l r where b: "b = (l, r)" by (cases b)
  have lr: "expected Q < l" "l < r" using Cons.prems(2) b by simp_all
  obtain Q1 where Q1: "add (l, r) Q = Inr Q1" "ok Q1" "held Q1 = held Q \<union> {l ..< r}" "expected Q1 = expected Q"
    using add_beyond [OF Cons.prems(1) lr] by blast
  have "\<forall>(l, r) \<in> set bs. expected Q1 < l \<and> l < r" using Cons.prems(2) Q1(4) by simp
  then obtain Q2 where "foldE add bs Q1 = Inr Q2" "ok Q2" "held Q2 = held Q1 \<union> (\<Union>(l, r) \<in> set bs. {l ..< r})"
      "expected Q2 = expected Q1"
    using Cons.IH [OF Q1(2)] by blast
  then show ?case using Q1 b by (auto simp: Un_assoc)
qed simp

end

text \<open>Adding a segment with given flags, without what \<^verbatim>\<open>add\<close> returns.\<close>

definition add_block :: "flags \<Rightarrow> int \<times> int \<Rightarrow> rq \<Rightarrow> rq result" where
  "add_block f b R = bindE (rq_add (fst b) (snd b) f 0 R) (\<lambda>(_, R'). Inr R')"

interpretation rqs: byte_store rq_inv bytes rcv_nxt "add_block f" for f
proof
  fix R :: rq and l r :: int
  assume "rq_inv R" and "rcv_nxt R \<le> l" and "l < r"
  then show "\<exists>R'. add_block f (l, r) R = Inr R' \<and> rq_inv R' \<and> bytes R' = bytes R \<union> {l ..< r} \<and> rcv_nxt R \<le> rcv_nxt R'
      \<and> {rcv_nxt R ..< rcv_nxt R'} \<subseteq> bytes R'"
    by (rule rq_add_cases [where f = f and g = 0]) (auto simp: add_block_def)
qed (rule rcv_not_in_bytes)

lemma rq_add_beyond:
  assumes "rq_inv R" and "rcv_nxt R < l" and "l < r"
  obtains fl R' where "rq_add l r f 0 R = Inr (fl, R')" and "rq_inv R'" and "bytes R' = bytes R \<union> {l ..< r}"
    and "rcv_nxt R' = rcv_nxt R"
  using rqs.add_beyond [OF assms, of f] by (auto simp: add_block_def bindE_eq_Inr)

section \<open>Dropping what has been passed on\<close>

lemma tot_card: "blocks_ok S as \<Longrightarrow> tot S as = int (card (cover S as)) \<and> finite (cover S as)"
proof (induction as)
  case (Cons a as)
  then have "{startseq (S a) ..< endseq (S a)} \<inter> cover S as = {}" by (auto simp: cover_def)
  then show ?case using Cons by (simp add: card_Un_disjoint)
qed simp

lemma total_card: "rq_inv R \<Longrightarrow> total_bytes R = int (card (bytes R))" and finite_bytes: "rq_inv R \<Longrightarrow> finite (bytes R)"
  using tot_card [of "seg R" "fifo R"] by (auto simp: rq_inv_def tot_seg_size bytes_cover)

lemma clearto_loop_ok:
  "rq_inv R \<Longrightarrow> rq_inv (snd (clearto_loop (fifo R) s f R))
     \<and> bytes (snd (clearto_loop (fifo R) s f R)) = bytes R \<inter> {s ..}
     \<and> rcv_nxt (snd (clearto_loop (fifo R) s f R)) = rcv_nxt R"
proof (induction "fifo R" arbitrary: f R)
  case Nil
  then show ?case by (simp add: bytes_def)
next
  case (Cons p ps)
  note inv = Cons.prems and F = Cons.hyps(2) [symmetric]
  have wf: "lists_ok R" and bl: "blocks_ok (seg R) (p # ps)" and tb: "total_bytes R = tot (seg R) (p # ps)" and rc: "rcv_ok R"
    using inv F by (simp_all add: rq_inv_def tot_seg_size seg_size_def)
  have p: "p \<notin> set ps" using wf F by (auto simp: lists_ok_def)
  show ?case
  proof (cases "endseq (seg R p) \<le> s")
    case True
    let ?R = "deleteseginfo p (fremove p (sremove p (R\<lparr>total_bytes := total_bytes R - seg_size R p\<rparr>)))"
    have F': "fifo ?R = ps" using F by simp
    have "lists_ok ?R" using wf F by (auto simp: lists_ok_def)
    then have inv': "rq_inv ?R" using bl tb rc F by (auto simp: rq_inv_def tot_seg_size seg_size_def rcv_ok_def)
    have "bytes ?R \<inter> {s ..} = bytes R \<inter> {s ..}" using True F by (auto simp: bytes_cover)
    then show ?thesis using Cons.hyps(1) [OF F' [symmetric] inv', of "f OR pflags (seg R p)"] True F F' by simp
  next
    case False
    show ?thesis
    proof (cases "startseq (seg R p) \<le> s")
      case True
      have "rcv_ok (set_seg p (\<lambda>b. b\<lparr>startseq := s\<rparr>) (R\<lparr>total_bytes := total_bytes R - (s - startseq (seg R p))\<rparr>))"
        using rc True F by (auto simp: rcv_ok_def)
      moreover have "s \<le> x" if "x \<in> cover (seg R) ps" for x using that bl False by (fastforce simp: cover_def)
      ultimately show ?thesis using True False F p wf bl tb
        by (auto simp: rq_inv_def tot_seg_size seg_size_def bytes_cover lists_ok_def)
    next
      case False
      have "s \<le> x" if "x \<in> cover (seg R) (p # ps)" for x
        using that bl False by (fastforce simp: cover_def)
      then show ?thesis using False \<open>\<not> endseq (seg R p) \<le> s\<close> F inv by (auto simp: bytes_cover)
    qed
  qed
qed

text \<open>Clearing the queue up to a number keeps exactly the received bytes from that number on, splitting the block
  that holds it, and keeps the queue well formed and \<^verbatim>\<open>rcv_nxt_\<close>; \<^verbatim>\<open>total_\<close> is the number of bytes kept.\<close>

theorem clearto_keeps_the_rest:
  assumes "rq_inv R"
  shows "rq_inv (snd (clearto s R)) \<and> bytes (snd (clearto s R)) = bytes R \<inter> {s ..} \<and> rcv_nxt (snd (clearto s R)) = rcv_nxt R
    \<and> total_bytes (snd (clearto s R)) = int (card (bytes R \<inter> {s ..}))"
  using clearto_loop_ok [OF assms, of s 0] total_card [of "snd (clearto s R)"] by (simp add: clearto_def)

lemma queue_3_7:
  obtains R where "rq_inv R" and "bytes R = {3 ..< 7}" and "rcv_nxt R = 0"
proof -
  obtain fl R where R: "rq_add 3 7 0 0 (new_rq 0) = Inr (fl, R)" "rq_inv R" "bytes R = bytes (new_rq 0) \<union> {3 ..< 7}"
      "rcv_nxt (new_rq 0) \<le> rcv_nxt R" "{rcv_nxt (new_rq 0) ..< rcv_nxt R} \<subseteq> bytes R"
    by (rule rq_add_cases [OF new_rq_inv, of 0 3 7 0 0]) simp_all
  have "\<not> 0 < rcv_nxt R" using subsetD [OF R(5), of 0] R(3) by auto
  then show thesis using that R by simp
qed

theorem clearto_keeps_the_rest_witness:
  "\<exists>R. bytes R = {3 ..< 7} \<and> bytes (snd (clearto 5 R)) = {5 ..< 7} \<and> total_bytes (snd (clearto 5 R)) = 2"
proof -
  obtain R where R: "rq_inv R" "bytes R = {3 ..< 7}" by (rule queue_3_7)
  have "{3 ..< 7} \<inter> {5 ..} = {5 ..< 7 :: int}" by auto
  then show ?thesis using clearto_keeps_the_rest [OF R(1), of 5] R(2) by auto
qed

lemma clearto_facts:
  assumes "rq_inv R"
  shows "rq_inv (snd (clearto s R))" and "bytes (snd (clearto s R)) = bytes R \<inter> {s ..}" and "rcv_nxt (snd (clearto s R)) = rcv_nxt R"
  using clearto_loop_ok [OF assms, of s 0] by (simp_all add: clearto_def)

section \<open>Holes\<close>

lemma cnts_tot: "cnts R as = (int (length as), tot (seg R) as)"
  by (simp add: cnts_def tot_seg_size)

text \<open>What the search for a hole returns, over the blocks it still has to look at.\<close>

definition hole_spec :: "rq \<Rightarrow> nat list \<Rightarrow> int \<Rightarrow> int \<times> int \<times> int \<Rightarrow> bool" where
  "hole_spec R as s r \<longleftrightarrow>
     (if \<forall>a \<in> set as. endseq (seg R a) < s then r = (-1, -1, -1)
      else case r of (h, n, b) \<Rightarrow>
        s \<le> h \<and> h \<notin> cover (seg R) as \<and> {s ..< h} \<subseteq> cover (seg R) as
        \<and> n = (let above = List.filter (\<lambda>a. h < startseq (seg R a)) as in if above = [] then -1 else int (length above))
        \<and> b = (let above = List.filter (\<lambda>a. h < startseq (seg R a)) as in if above = [] then -1 else tot (seg R) above))"

lemma nexthole_loop_ok: "blocks_ok (seg R) as \<Longrightarrow> hole_spec R as s (nexthole_loop as s R)"
proof (induction as)
  case (Cons p ps)
  have bl: "startseq (seg R p) < endseq (seg R p)" "\<forall>b \<in> set ps. endseq (seg R p) < startseq (seg R b)" "blocks_ok (seg R) ps"
    using Cons.prems by simp_all
  note ne = blocks_ok_nonempty [OF bl(3)]
  consider (before) "s < startseq (seg R p)" | (inside) "startseq (seg R p) \<le> s" "s \<le> endseq (seg R p)"
    | (after) "endseq (seg R p) < s" using bl(1) by linarith
  then show ?case
  proof cases
    case before
    have all: "List.filter (\<lambda>a. s < startseq (seg R a)) (p # ps) = p # ps"
      using before bl(1,2) by (intro filter_True) force
    have "s \<notin> cover (seg R) (p # ps)" using before bl(1,2) by (force simp: cover_def)
    then show ?thesis using before bl(1) all by (auto simp: hole_spec_def cnts_tot)
  next
    case inside
    have all: "List.filter (\<lambda>a. endseq (seg R p) < startseq (seg R a)) ps = ps"
      using bl(2) by (intro filter_True) simp
    have "endseq (seg R p) \<notin> cover (seg R) (p # ps)" using bl by (force simp: cover_def)
    then show ?thesis using inside bl(1) all by (auto simp: hole_spec_def cnts_tot Let_def)
  next
    case after
    have eq: "nexthole_loop (p # ps) s R = nexthole_loop ps s R" using after bl(1) by simp
    show ?thesis
    proof (cases "\<forall>a \<in> set ps. endseq (seg R a) < s")
      case True
      then show ?thesis using Cons.IH [OF bl(3)] after eq by (simp add: hole_spec_def)
    next
      case False
      obtain h n b where r: "nexthole_loop ps s R = (h, n, b)" by (cases "nexthole_loop ps s R")
      have IH: "hole_spec R ps s (h, n, b)" using Cons.IH [OF bl(3)] r by simp
      then have h: "s \<le> h" using False by (simp add: hole_spec_def)
      then have "List.filter (\<lambda>a. h < startseq (seg R a)) (p # ps) = List.filter (\<lambda>a. h < startseq (seg R a)) ps"
        using after bl(1) by simp
      then show ?thesis using IH False h after unfolding eq r by (auto simp: hole_spec_def)
    qed
  qed
qed (simp add: hole_spec_def)

lemma blocks_reach: "blocks_ok S as \<Longrightarrow> (\<forall>a \<in> set as. endseq (S a) < s) \<longleftrightarrow> (\<forall>x \<in> cover S as. x + 1 < s)"
proof (induction as)
  case (Cons a as)
  have "endseq (S a) < s \<longleftrightarrow> (\<forall>x \<in> {startseq (S a) ..< endseq (S a)}. x + 1 < s)"
    using Cons.prems by (auto dest: bspec [where x = "endseq (S a) - 1"])
  then show ?case using Cons by auto
qed simp

text \<open>The blocks above a byte that is missing hold the bytes above it.\<close>

lemma above_missing:
  assumes "blocks_ok S as" and "h \<notin> cover S as"
  shows "cover S (List.filter (\<lambda>a. h < startseq (S a)) as) = cover S as \<inter> {h <..}"
    and "List.filter (\<lambda>a. h < startseq (S a)) as = [] \<longleftrightarrow> cover S as \<inter> {h <..} = {}"
proof -
  show 1: "cover S (List.filter (\<lambda>a. h < startseq (S a)) as) = cover S as \<inter> {h <..}"
    using assms(2) by (fastforce simp: cover_def)
  have "cover S bs = {} \<longleftrightarrow> bs = []" if "blocks_ok S bs" for bs using that by (cases bs) auto
  then show "List.filter (\<lambda>a. h < startseq (S a)) as = [] \<longleftrightarrow> cover S as \<inter> {h <..} = {}"
    using blocks_ok_filter [OF assms(1)] 1 by metis
qed

lemma nexthole_first_missing:
  assumes "rq_inv R"
  shows "case fst (nexthole s R) of (h, n, b) \<Rightarrow>
    if \<forall>x \<in> bytes R. x + 1 < s then h = -1 \<and> n = -1 \<and> b = -1
    else s \<le> h \<and> h \<notin> bytes R \<and> {s ..< h} \<subseteq> bytes R
      \<and> (if bytes R \<inter> {h <..} = {} then n = -1 \<and> b = -1
         else n = int (length (List.filter (\<lambda>a. h < startseq (seg R a)) (fifo R))) \<and> b = int (card (bytes R \<inter> {h <..})))"
proof -
  obtain h n b where r: "nexthole_loop (fifo R) s R = (h, n, b)" by (cases "nexthole_loop (fifo R) s R")
  have bl: "blocks_ok (seg R) (fifo R)" using assms by (simp add: rq_inv_def)
  have spec: "hole_spec R (fifo R) s (h, n, b)" using nexthole_loop_ok [OF bl, of s] r by simp
  show ?thesis
  proof (cases "\<forall>x \<in> bytes R. x + 1 < s")
    case True
    then show ?thesis using spec r blocks_reach [OF bl, of s] by (simp add: hole_spec_def nexthole_def bytes_cover)
  next
    case False
    then have nf: "\<not> (\<forall>a \<in> set (fifo R). endseq (seg R a) < s)" using blocks_reach [OF bl, of s] by (simp add: bytes_cover)
    note found = spec [unfolded hole_spec_def if_not_P [OF nf] prod.case]
    have h: "s \<le> h" "h \<notin> bytes R" "{s ..< h} \<subseteq> bytes R" using found by (simp_all add: bytes_cover)
    let ?above = "List.filter (\<lambda>a. h < startseq (seg R a)) (fifo R)"
    note above = above_missing [OF bl, of h, folded bytes_cover, OF h(2)]
    have "n = (if ?above = [] then -1 else int (length ?above)) \<and> b = (if ?above = [] then -1 else tot (seg R) ?above)"
      using found by (simp add: Let_def)
    then show ?thesis using h False r above tot_card [OF blocks_ok_filter [OF bl], of "\<lambda>a. h < startseq (seg R a)"]
      by (auto simp: nexthole_def)
  qed
qed

text \<open>C33. \<^verbatim>\<open>nexthole\<close> returns the first byte at or above the given one that is missing, with the number of blocks and of bytes
  received above it, or -1 for both where nothing has been received above it; and -1 three times when
  everything received ends below the given byte.\<close>

theorem nexthole_finds_first_missing:
  assumes "rq_inv R"
  shows "case fst (nexthole s R) of (h, n, b) \<Rightarrow>
    if \<forall>x \<in> bytes R. x + 1 < s then h = -1 \<and> n = -1 \<and> b = -1
    else s \<le> h \<and> h \<notin> bytes R \<and> {s ..< h} \<subseteq> bytes R
      \<and> (if bytes R \<inter> {h <..} = {} then n = -1 \<and> b = -1
         else n = int (length (List.filter (\<lambda>a. h < startseq (seg R a)) (fifo R))) \<and> b = int (card (bytes R \<inter> {h <..})))"
  by (rule nexthole_first_missing [OF assms])

theorem nexthole_finds_first_missing_witness:
  "\<exists>R h n b. bytes R = {3 ..< 7} \<and> fst (nexthole 3 R) = (h, n, b) \<and> h = 7 \<and> n = -1 \<and> b = -1"
proof -
  obtain R where R: "rq_inv R" "bytes R = {3 ..< 7}" by (rule queue_3_7)
  obtain h n b where h: "fst (nexthole 3 R) = (h, n, b)" by (cases "fst (nexthole 3 R)")
  have far: "\<not> (\<forall>x \<in> bytes R. x + 1 < 3)" using R(2) by force
  note found = nexthole_finds_first_missing [OF R(1), of 3, unfolded h prod.case if_not_P [OF far], unfolded R(2)]
  have "\<not> 7 < h" using found subsetD [of "{3 ..< h}" "{3 ..< 7}" 7] by auto
  then have "h = 7" using found by auto
  moreover from this have "{3 ..< 7} \<inter> {h <..} = {}" by auto
  ultimately show ?thesis using found h R(2) by auto
qed

section \<open>Blocks for a selective acknowledgement\<close>

lemma block_run:
  assumes "blocks_ok S as" and "a \<in> set as"
  shows "{startseq (S a) ..< endseq (S a)} \<subseteq> cover S as" and "startseq (S a) - 1 \<notin> cover S as" and "endseq (S a) \<notin> cover S as"
proof -
  show "{startseq (S a) ..< endseq (S a)} \<subseteq> cover S as" using assms(2) by (auto simp: cover_def)
  have "\<not> (startseq (S b) \<le> startseq (S a) - 1 \<and> startseq (S a) - 1 < endseq (S b))"
    and "\<not> (startseq (S b) \<le> endseq (S a) \<and> endseq (S a) < endseq (S b))" if "b \<in> set as" for b
    using blocks_ok_order [OF assms(1) assms(2) that] blocks_ok_nonempty [OF assms(1) that] blocks_ok_nonempty [OF assms]
    by (cases "a = b"; auto)+
  then show "startseq (S a) - 1 \<notin> cover S as" and "endseq (S a) \<notin> cover S as" by (auto simp: cover_def)
qed

text \<open>C34. Every block \<^verbatim>\<open>gensack\<close> reports is a whole run of received bytes, with the byte before it and the byte after it
  missing; at most as many are reported as asked for, no two alike; and asking for enough reports every
  byte received.\<close>

theorem sack_blocks_are_runs:
  assumes "rq_inv R"
  shows "(\<forall>(l, r) \<in> set (gensack n R). l < r \<and> {l ..< r} \<subseteq> bytes R \<and> l - 1 \<notin> bytes R \<and> r \<notin> bytes R)
    \<and> length (gensack n R) = min n (length (fifo R)) \<and> distinct (gensack n R)
    \<and> (length (fifo R) \<le> n \<longrightarrow> (\<Union>(l, r) \<in> set (gensack n R). {l ..< r}) = bytes R)"
proof (intro conjI impI)
  have bl: "blocks_ok (seg R) (fifo R)" and L: "distinct (lifo R)" "set (lifo R) = set (fifo R)" "distinct (fifo R)"
    using assms by (auto simp: rq_inv_def lists_ok_def)
  have len: "length (lifo R) = length (fifo R)" using L distinct_card by metis
  show "\<forall>(l, r) \<in> set (gensack n R). l < r \<and> {l ..< r} \<subseteq> bytes R \<and> l - 1 \<notin> bytes R \<and> r \<notin> bytes R"
  proof clarify
    fix l r
    assume "(l, r) \<in> set (gensack n R)"
    then obtain a where "a \<in> set (fifo R)" "l = startseq (seg R a)" "r = endseq (seg R a)"
      using L(2) by (auto simp: gensack_def dest: in_set_takeD)
    then show "l < r \<and> {l ..< r} \<subseteq> bytes R \<and> l - 1 \<notin> bytes R \<and> r \<notin> bytes R"
      using block_run [OF bl] blocks_ok_nonempty [OF bl] unfolding bytes_cover by blast
  qed
  show "length (gensack n R) = min n (length (fifo R))" using len by (simp add: gensack_def min.commute)
  have "inj_on (\<lambda>a. (startseq (seg R a), endseq (seg R a))) (set (fifo R))"
    using blocks_ok_order [OF bl] blocks_ok_nonempty [OF bl] by (fastforce simp: inj_on_def)
  then show "distinct (gensack n R)"
    using L by (auto simp: gensack_def distinct_map elim: inj_on_subset dest!: in_set_takeD)
  assume "length (fifo R) \<le> n"
  then show "(\<Union>(l, r) \<in> set (gensack n R). {l ..< r}) = bytes R" using len L(2) by (auto simp: gensack_def bytes_def)
qed

theorem sack_blocks_are_runs_witness:
  "\<exists>R l r. bytes R = {3 ..< 7} \<and> (l, r) \<in> set (gensack 1 R) \<and> l = 3 \<and> r = 7"
proof -
  obtain R where R: "rq_inv R" "bytes R = {3 ..< 7}" by (rule queue_3_7)
  note runs = sack_blocks_are_runs [OF R(1), of 1, unfolded R(2)]
  have "fifo R \<noteq> []" using R(2) by (auto simp: bytes_def)
  then have "length (gensack 1 R) = 1" using runs by (cases "fifo R") auto
  then obtain l r where lr: "(l, r) \<in> set (gensack 1 R)" by (cases "gensack 1 R") auto
  then have *: "l < r" "{l ..< r} \<subseteq> {3 ..< 7}" "l - 1 \<notin> {3 ..< 7}" "r \<notin> {3 ..< 7}" using runs by auto
  have "l \<in> {3 ..< 7}" "r - 1 \<in> {3 ..< 7}" using *(1) subsetD [OF *(2), of l] subsetD [OF *(2), of "r - 1"] by auto
  then have "l = 3" "r = 7" using *(3,4) by auto
  then show ?thesis using lr R(2) by blast
qed

end
