(* ===== verification/Tcp_Recv.thy ===== *)
theory Tcp_Recv
  imports Tcp_RqProps
begin

unbundle bit_operations_syntax

text \<open>
  The way of a data segment through \<^verbatim>\<open>FullTcpAgent::recv\<close> (\<^verbatim>\<open>ns2-gea/ns-2/tcp/tcp-full.cc\<close>): duplicate data is
  trimmed from its front, then it is either accepted at once or given to the reassembly queue, and what has become
  in-order is passed to the application. The stages of \<^verbatim>\<open>recv\<close> between the two and after them (timestamps,
  acknowledgements, the change of state by a FIN) are not modelled: the TCP state is a parameter here.
\<close>

section \<open>The stages\<close>

definition TH_FIN :: flags where "TH_FIN = 1"
definition TH_SYN :: flags where "TH_SYN = 2"

definition TCPS_CLOSED :: int where "TCPS_CLOSED = 0"
definition TCPS_SYN_RECEIVED :: int where "TCPS_SYN_RECEIVED = 3"
definition TCPS_ESTABLISHED :: int where "TCPS_ESTABLISHED = 4"
definition TCPS_CLOSE_WAIT :: int where "TCPS_CLOSE_WAIT = 5"
definition TCPS_CLOSING :: int where "TCPS_CLOSING = 7"

definition TCPS_HAVERCVDFIN :: "int \<Rightarrow> bool" where
  "TCPS_HAVERCVDFIN s = (s = TCPS_CLOSING \<or> s = TCPS_CLOSED \<or> s = TCPS_CLOSE_WAIT)"

definition TCPS_HAVERCVDSYN :: "int \<Rightarrow> bool" where
  "TCPS_HAVERCVDSYN s = (s \<ge> TCPS_SYN_RECEIVED)"

lemmas tcp_consts = TH_FIN_def TH_SYN_def TCPS_CLOSED_def TCPS_SYN_RECEIVED_def TCPS_ESTABLISHED_def TCPS_CLOSE_WAIT_def
  TCPS_CLOSING_def TCPS_HAVERCVDFIN_def TCPS_HAVERCVDSYN_def

text \<open>The sequence number, the size of the packet less its header, the data length, the flags, and whether the segment is a complete
  duplicate. \<^verbatim>\<open>size\<close> and \<^verbatim>\<open>datalen\<close> start equal; a SYN takes one from the first only.\<close>

definition trim :: "int \<Rightarrow> int \<Rightarrow> int \<Rightarrow> flags \<Rightarrow> int \<times> int \<times> int \<times> flags \<times> bool" where
  "trim rcv seqno datalen tiflags =
     (let todrop = rcv - seqno in
      if todrop > 0 \<and> (tiflags AND TH_SYN \<noteq> 0 \<or> datalen > 0) then
        let syn = tiflags AND TH_SYN \<noteq> 0;
            fl = (if syn then tiflags AND NOT TH_SYN else tiflags);
            seqno1 = (if syn then seqno + 1 else seqno);
            psize = (if syn then datalen - 1 else datalen);
            todrop1 = (if syn then todrop - 1 else todrop);
            dup = (todrop1 > datalen \<or> todrop1 = datalen \<and> fl AND TH_FIN = 0);
            todrop2 = (if dup then datalen else todrop1)
        in (seqno1 + todrop2, psize - todrop2, datalen - todrop2, if dup then fl AND NOT TH_FIN else fl, dup)
      else (seqno, datalen, datalen, tiflags, False))"

definition reass :: "int \<Rightarrow> int \<Rightarrow> int \<Rightarrow> flags \<Rightarrow> rq \<Rightarrow> (flags \<times> rq) result" where
  "reass st seqno psize tiflags R =
     (let e = seqno + psize; fillshole = (seqno = rcv_nxt R) in
      if seqno = e \<and> tiflags AND TH_FIN = 0
      then Inl (AssertFailed ''reass() -- bad condition - adding non-FIN zero-len seg'')
      else bindE (rq_add seqno e tiflags 0 R) (\<lambda>(fl, R1).
        if \<not> TCPS_HAVERCVDSYN st \<or> \<not> fillshole then Inr (0, R1)
        else if st = TCPS_SYN_RECEIVED \<and> e > seqno then Inr (0, R1)
        else let (f2, R2) = cleartonxt R1 in Inr (fl OR f2, R2)))"

text \<open>The number of bytes passed on is the sum of the arguments of \<^verbatim>\<open>recvBytes\<close>. \<open>tiflags\<close> are the flags left by \<open>trim\<close> and
  \<open>pflags\<close> those in the packet.\<close>

definition in_data ::
    "int \<Rightarrow> flags \<Rightarrow> flags \<Rightarrow> int \<Rightarrow> int \<Rightarrow> int \<Rightarrow> rq \<Rightarrow> int \<Rightarrow> (flags \<times> rq \<times> int) result" where
  "in_data st tiflags pfl seqno psize datalen R d =
     (if (datalen > 0 \<or> tiflags AND TH_FIN \<noteq> 0) \<and> \<not> TCPS_HAVERCVDFIN st then
        if seqno = rcv_nxt R \<and> rq_empty R then
          Inr (pfl AND TH_FIN, R\<lparr>rcv_nxt := rcv_nxt R + datalen\<rparr>, d + datalen)
        else bindE (reass st seqno psize pfl R) (\<lambda>(fl, R1).
          Inr (fl, R1, if rcv_nxt R1 > rcv_nxt R then d + (rcv_nxt R1 - rcv_nxt R) else d))
      else Inr (tiflags AND NOT TH_FIN, R, d))"

text \<open>A data segment of a connection whose state does not change: the queue, the number of bytes passed on and the flags that
  have been reported.\<close>

definition receive :: "int \<Rightarrow> int \<times> int \<times> flags \<Rightarrow> rq \<times> int \<times> flags \<Rightarrow> (rq \<times> int \<times> flags) result" where
  "receive st p x =
     (case (p, x) of ((seqno, datalen, pfl), (R, d, seen)) \<Rightarrow>
        case trim (rcv_nxt R) seqno datalen pfl of (sq, ps, dl, fl, dup) \<Rightarrow>
          bindE (in_data st fl pfl sq ps dl R d) (\<lambda>(fl', R', d'). Inr (R', d', seen OR fl')))"

section \<open>The byte stream\<close>

text \<open>\<open>B\<close> are the bytes that have arrived, from the first number \<open>r\<close> on.\<close>

definition stream_inv :: "int \<Rightarrow> int set \<Rightarrow> rq \<Rightarrow> int \<Rightarrow> bool" where
  "stream_inv r B R d \<longleftrightarrow> rq_inv R \<and> r \<le> rcv_nxt R \<and> {r ..< rcv_nxt R} \<subseteq> B \<and> rcv_nxt R \<notin> B
     \<and> bytes R = B \<inter> {rcv_nxt R ..} \<and> d = rcv_nxt R - r"

lemma stream_step:
  fixes v :: int
  assumes "{r ..< v} \<subseteq> B" and "C = B \<inter> {v ..}" and "v \<le> v'" and "{v ..< v'} \<subseteq> C \<union> S" and "v' \<notin> C \<union> S"
  shows "{r ..< v'} \<subseteq> B \<union> S" and "v' \<notin> B \<union> S" and "(C \<union> S) \<inter> {v' ..} = (B \<union> S) \<inter> {v' ..}"
proof -
  show "{r ..< v'} \<subseteq> B \<union> S"
  proof
    fix x
    assume "x \<in> {r ..< v'}"
    then consider "x \<in> {r ..< v}" | "x \<in> {v ..< v'}" by fastforce
    then show "x \<in> B \<union> S" using assms(1,2,4) by cases blast+
  qed
qed (use assms(2,3,5) in auto)

lemma reass_stream:
  assumes inv: "stream_inv r B R d" and s: "rcv_nxt R \<le> s" "0 < n" and st: "TCPS_HAVERCVDSYN st" "st \<noteq> TCPS_SYN_RECEIVED"
  shows "\<exists>fl R'. reass st s n f R = Inr (fl, R') \<and> rcv_nxt R \<le> rcv_nxt R'
    \<and> stream_inv r (B \<union> {s ..< s + n}) R' (d + (rcv_nxt R' - rcv_nxt R))"
proof -
  have R: "rq_inv R" "r \<le> rcv_nxt R" "{r ..< rcv_nxt R} \<subseteq> B" "rcv_nxt R \<notin> B" "bytes R = B \<inter> {rcv_nxt R ..}" "d = rcv_nxt R - r"
    using inv by (simp_all add: stream_inv_def)
  show ?thesis
  proof (cases "s = rcv_nxt R")
    case True
    obtain fl R1 where a: "rq_add s (s + n) f 0 R = Inr (fl, R1)" "rq_inv R1" "bytes R1 = bytes R \<union> {s ..< s + n}"
        "rcv_nxt R \<le> rcv_nxt R1" "{rcv_nxt R ..< rcv_nxt R1} \<subseteq> bytes R1" "rcv_nxt R1 \<notin> bytes R1"
      by (rule rq_add_cases [OF R(1) s(1), of "s + n" f 0]) (use s in auto)
    note c = clearto_facts [OF a(2), of "rcv_nxt R1"]
    obtain f2 where f2: "cleartonxt R1 = (f2, snd (clearto (rcv_nxt R1) R1))"
      by (cases "clearto (rcv_nxt R1) R1") (simp add: cleartonxt_def)
    have "reass st s n f R = Inr (fl OR f2, snd (clearto (rcv_nxt R1) R1))"
      using a(1) f2 st s True by (simp add: reass_def Let_def)
    moreover have "stream_inv r (B \<union> {s ..< s + n}) (snd (clearto (rcv_nxt R1) R1)) (d + (rcv_nxt R1 - rcv_nxt R))"
      unfolding stream_inv_def
      using stream_step [OF R(3,5) a(4), of "{s ..< s + n}"] a(3-6) c R(2,6) by simp
    ultimately show ?thesis using a(4) c(3) by auto
  next
    case False
    then have beyond: "rcv_nxt R < s" "s < s + n" using s by simp_all
    obtain fl R1 where a: "rq_add s (s + n) f 0 R = Inr (fl, R1)" "rq_inv R1" "bytes R1 = bytes R \<union> {s ..< s + n}"
        "rcv_nxt R1 = rcv_nxt R"
      by (rule rq_add_beyond [OF R(1) beyond, of f])
    have "reass st s n f R = Inr (0, R1)" using a(1) s False by (simp add: reass_def Let_def)
    moreover have "(B \<union> {s ..< s + n}) \<inter> {rcv_nxt R ..} = B \<inter> {rcv_nxt R ..} \<union> {s ..< s + n}" using s by auto
    ultimately show ?thesis using a(2-4) R s False by (auto simp: stream_inv_def)
  qed
qed

lemma in_data_stream:
  assumes inv: "stream_inv r B R d" and s: "rcv_nxt R \<le> s" "0 < n"
    and st: "TCPS_HAVERCVDSYN st" "st \<noteq> TCPS_SYN_RECEIVED" "\<not> TCPS_HAVERCVDFIN st"
  shows "\<exists>fl R' d'. in_data st f f s n n R d = Inr (fl, R', d') \<and> stream_inv r (B \<union> {s ..< s + n}) R' d'"
proof (cases "s = rcv_nxt R \<and> rq_empty R")
  case True
  have "bytes R = {}" using True by (simp add: rq_empty_def bytes_def)
  then have "B \<inter> {rcv_nxt R ..} = {}" using inv by (simp add: stream_inv_def)
  then have "\<forall>x \<in> B. x < rcv_nxt R" by force
  then have "stream_inv r (B \<union> {s ..< s + n}) (R\<lparr>rcv_nxt := rcv_nxt R + n\<rparr>) (d + n)"
    using inv True s
    by (fastforce simp: stream_inv_def rq_inv_def lists_ok_def rcv_ok_def rq_empty_def bytes_def seg_size_def)
  then show ?thesis using True s st by (simp add: in_data_def)
next
  case False
  obtain fl R' where "reass st s n f R = Inr (fl, R')" "rcv_nxt R \<le> rcv_nxt R'"
      "stream_inv r (B \<union> {s ..< s + n}) R' (d + (rcv_nxt R' - rcv_nxt R))"
    using reass_stream [OF inv s st(1,2), of f] by blast
  then show ?thesis using False s st by (auto simp: in_data_def)
qed

lemma receive_stream:
  assumes inv: "stream_inv r B R d" and n: "0 < n" and f: "f AND (TH_FIN OR TH_SYN) = 0"
    and st: "TCPS_HAVERCVDSYN st" "st \<noteq> TCPS_SYN_RECEIVED" "\<not> TCPS_HAVERCVDFIN st"
  shows "\<exists>R' d' seen'. receive st (q, n, f) (R, d, seen) = Inr (R', d', seen') \<and> stream_inv r (B \<union> {q ..< q + n} \<inter> {r ..}) R' d'"
proof -
  have f0: "f AND TH_FIN = 0" "f AND TH_SYN = 0"
    using f by (metis and.assoc bit.conj_zero_right bit.conj_disj_distrib or_eq_0_iff)+
  have R: "r \<le> rcv_nxt R" "{r ..< rcv_nxt R} \<subseteq> B" using inv by (simp_all add: stream_inv_def)
  have f1: "(f AND NOT TH_FIN) AND TH_FIN = 0" by (rule bit_eqI) (simp add: bit_simps)
  consider (dup) "q + n \<le> rcv_nxt R" | (over) "q < rcv_nxt R" "rcv_nxt R < q + n" | (new) "rcv_nxt R \<le> q" by linarith
  then show ?thesis
  proof cases
    case dup
    have "B \<union> {q ..< q + n} \<inter> {r ..} = B" using dup R(2) by force
    then show ?thesis using dup n f0 f1 inv st by (auto simp: receive_def trim_def Let_def in_data_def)
  next
    case over
    have t: "trim (rcv_nxt R) q n f = (rcv_nxt R, q + n - rcv_nxt R, q + n - rcv_nxt R, f, False)"
      using over n f0 by (simp add: trim_def Let_def)
    have "B \<union> {q ..< q + n} \<inter> {r ..} = B \<union> {rcv_nxt R ..< rcv_nxt R + (q + n - rcv_nxt R)}" using over R by force
    then show ?thesis using in_data_stream [OF inv order_refl _ st, of "q + n - rcv_nxt R" f] over
      by (auto simp: receive_def t)
  next
    case new
    have t: "trim (rcv_nxt R) q n f = (q, n, n, f, False)" using new by (simp add: trim_def Let_def)
    have "B \<union> {q ..< q + n} \<inter> {r ..} = B \<union> {q ..< q + n}" using new R by auto
    then show ?thesis using in_data_stream [OF inv new n st, of f] by (auto simp: receive_def t)
  qed
qed

lemma receive_all_stream:
  assumes "stream_inv r B R d" and "\<forall>(q, n, f) \<in> set segs. 0 < n \<and> f AND (TH_FIN OR TH_SYN) = 0"
    and "TCPS_HAVERCVDSYN st" "st \<noteq> TCPS_SYN_RECEIVED" "\<not> TCPS_HAVERCVDFIN st"
  shows "\<exists>R' d' seen'. foldE (receive st) segs (R, d, seen) = Inr (R', d', seen')
    \<and> stream_inv r (B \<union> (\<Union>(q, n, f) \<in> set segs. {q ..< q + n}) \<inter> {r ..}) R' d'"
  using assms(1,2)
proof (induction segs arbitrary: B R d seen)
  case (Cons p segs)
  obtain q n f where p: "p = (q, n, f)" by (cases p)
  have pf: "0 < n" "f AND (TH_FIN OR TH_SYN) = 0" using Cons.prems(2) p by simp_all
  obtain R1 d1 seen1 where 1: "receive st p (R, d, seen) = Inr (R1, d1, seen1)"
      "stream_inv r (B \<union> {q ..< q + n} \<inter> {r ..}) R1 d1"
    using receive_stream [OF Cons.prems(1) pf assms(3-5)] p by blast
  have "\<forall>(q, n, f) \<in> set segs. 0 < n \<and> f AND (TH_FIN OR TH_SYN) = 0" using Cons.prems(2) by simp
  then obtain R2 d2 seen2 where 2: "foldE (receive st) segs (R1, d1, seen1) = Inr (R2, d2, seen2)"
      "stream_inv r (B \<union> {q ..< q + n} \<inter> {r ..} \<union> (\<Union>(q, n, f) \<in> set segs. {q ..< q + n}) \<inter> {r ..}) R2 d2"
    using Cons.IH [OF 1(2)] by blast
  have "B \<union> {q ..< q + n} \<inter> {r ..} \<union> (\<Union>(q, n, f) \<in> set segs. {q ..< q + n}) \<inter> {r ..}
      = B \<union> (\<Union>(q, n, f) \<in> set (p # segs). {q ..< q + n}) \<inter> {r ..}" using p by auto
  then show ?case using 1(1) 2 by auto
qed simp

lemma stream_start: "stream_inv r {} (new_rq r) 0"
  by (simp add: stream_inv_def new_rq_inv)

text \<open>C5. Data segments may arrive in any order, overlap, and be repeated. Once they have all been received,
  \<^verbatim>\<open>rcv_nxt_\<close> is the first byte that has not arrived; as many bytes have been passed to the
  application as lie below it, each once; and the reassembly queue holds exactly the bytes that arrived beyond it.\<close>

theorem stream_is_reassembled:
  assumes "\<forall>(q, n, f) \<in> set segs. 0 < n \<and> f AND (TH_FIN OR TH_SYN) = 0"
    and "TCPS_HAVERCVDSYN st" and "st \<noteq> TCPS_SYN_RECEIVED" and "\<not> TCPS_HAVERCVDFIN st"
  shows "\<exists>R d seen. foldE (receive st) segs (new_rq r, 0, 0) = Inr (R, d, seen) \<and> r \<le> rcv_nxt R \<and> d = rcv_nxt R - r
    \<and> {r ..< rcv_nxt R} \<subseteq> (\<Union>(q, n, f) \<in> set segs. {q ..< q + n}) \<and> rcv_nxt R \<notin> (\<Union>(q, n, f) \<in> set segs. {q ..< q + n})
    \<and> bytes R = (\<Union>(q, n, f) \<in> set segs. {q ..< q + n}) \<inter> {rcv_nxt R ..}"
proof -
  let ?U = "\<Union>(q, n, f) \<in> set segs. {q ..< q + n}"
  obtain R d seen where R: "foldE (receive st) segs (new_rq r, 0, 0) = Inr (R, d, seen)" "stream_inv r ({} \<union> ?U \<inter> {r ..}) R d"
    using receive_all_stream [OF stream_start assms, of r 0] by blast
  then have "?U \<inter> {r ..} \<inter> {rcv_nxt R ..} = ?U \<inter> {rcv_nxt R ..}" by (auto simp: stream_inv_def)
  then show ?thesis using R by (simp add: stream_inv_def) blast
qed

text \<open>Three segments of ten bytes, the last first, the second twice.\<close>

theorem stream_is_reassembled_witness:
  "\<exists>R d seen. foldE (receive TCPS_ESTABLISHED) [(20, 10, 0x10), (10, 10, 0x10), (5, 15, 0x10), (0, 10, 0x10)] (new_rq 0, 0, 0)
      = Inr (R, d, seen) \<and> rcv_nxt R = 30 \<and> d = 30"
proof -
  let ?segs = "[(20, 10, 0x10), (10, 10, 0x10), (5, 15, 0x10), (0, 10, 0x10)] :: (int \<times> int \<times> flags) list"
  obtain R d seen where R: "foldE (receive TCPS_ESTABLISHED) ?segs (new_rq 0, 0, 0) = Inr (R, d, seen)" "0 \<le> rcv_nxt R" "d = rcv_nxt R - 0"
      "{0 ..< rcv_nxt R} \<subseteq> (\<Union>(q, n, f) \<in> set ?segs. {q ..< q + n})" "rcv_nxt R \<notin> (\<Union>(q, n, f) \<in> set ?segs. {q ..< q + n})"
    using stream_is_reassembled [of ?segs TCPS_ESTABLISHED 0] by (auto simp: tcp_consts)
  have U: "(\<Union>(q, n, f) \<in> set ?segs. {q ..< q + n}) = {0 ..< 30}" by auto
  have "rcv_nxt R \<le> 30" using R(4) subsetD [OF R(4), of 30] unfolding U by force
  then have "rcv_nxt R = 30" using R(2,5) unfolding U by simp
  then show ?thesis using R(1,3) by auto
qed

section \<open>Flags\<close>

lemma or_and_eq_0: "(x OR y) AND (m :: flags) = 0 \<longleftrightarrow> x AND m = 0 \<and> y AND m = 0"
  by (simp only: bit.conj_disj_distrib2 or_eq_0_iff)

text \<open>Clearing reports the flags of the blocks it removes or cuts, and no others.\<close>

lemma clearto_loop_keeps_flags: "f AND m \<noteq> 0 \<Longrightarrow> fst (clearto_loop ps s f R) AND m \<noteq> 0"
  by (induction ps s f R rule: clearto_loop.induct) (auto simp: or_and_eq_0)

lemma clearto_loop_reports:
  assumes "blocks_ok (seg R) ps" and "b \<in> set ps" and "endseq (seg R b) \<le> s" and "pflags (seg R b) AND m \<noteq> 0"
  shows "fst (clearto_loop ps s f R) AND m \<noteq> 0"
  using assms
proof (induction ps s f R rule: clearto_loop.induct)
  case (2 p ps s f R)
  have "endseq (seg R p) \<le> s"
    using "2.prems" blocks_ok_order [OF "2.prems"(1), of p b] blocks_ok_nonempty [OF "2.prems"(1), of b] by (cases "p = b") auto
  then show ?case
    using "2.IH"(1) "2.prems" clearto_loop_keeps_flags [of "f OR pflags (seg R p)" m] by (cases "p = b") (auto simp: or_and_eq_0)
qed simp

lemma clearto_loop_none:
  "\<forall>a \<in> set ps. pflags (seg R a) AND m = 0 \<Longrightarrow> f AND m = 0 \<Longrightarrow> fst (clearto_loop ps s f R) AND m = 0"
  by (induction ps s f R rule: clearto_loop.induct) (auto simp: or_and_eq_0)

lemma rq_add_fills_hole:
  assumes inv: "rq_inv R" and F: "fifo R = P @ a # b # Q" and s: "endseq (seg R a) = s" and e: "startseq (seg R b) = e"
  shows "\<exists>R' n. rq_add s e f g R = Inr (pflags (seg R a) OR f, R') \<and> fifo R' = P @ a # Q \<and> n \<notin> set (P @ a # Q)
    \<and> (\<forall>x. x \<noteq> a \<longrightarrow> x \<noteq> n \<longrightarrow> seg R' x = seg R x) \<and> startseq (seg R' a) = startseq (seg R a) \<and> endseq (seg R' a) = endseq (seg R b)
    \<and> pflags (seg R' a) = pflags (seg R a) OR f"
proof -
  have ds: "distinct ((P @ [a]) @ b # Q)" and bl: "blocks_ok (seg R) ((P @ [a]) @ [] @ b # Q)" and wf: "lists_ok R"
    using inv F by (auto simp: rq_inv_def lists_ok_def)
  have se: "s < e" and P: "\<forall>x \<in> set (P @ [a]). endseq (seg R x) \<le> s" and Q: "\<forall>x \<in> set (b # Q). e \<le> startseq (seg R x)"
    using bl s e by fastforce+
  have F': "fifo R = (P @ [a]) @ [] @ b # Q" using F by simp
  have rs: "set (kill_range (last_of (P @ [a])) (hd_of (b # Q)) (fifo R)) \<subseteq> set (P @ [a])"
    using kill_range_split(1) [of "P @ [a]" "[]" "b # Q"] ds F' by simp
  have "\<not> s \<le> startseq (seg R x)" if "x \<in> set (P @ [a])" for x
    using bspec [OF P that] blocks_ok_nonempty [OF bl, of x] that by auto
  then have k: "kill s e (kill_range (last_of (P @ [a])) (hd_of (b # Q)) (fifo R)) f 1 False R = Inr (f, 1, False, R)"
    using rs by (intro kill_none) blast
  have "again2 (Suc fuel) s e f g 1 R = add_merge s e f g 1 (last_of (P @ [a])) (hd_of (b # Q)) R" for fuel
    using again2_inside [OF F' bl se P _ Q, of fuel f g 1] k F by (simp add: rq_empty_def)
  moreover have "add_merge s e f g 1 (last_of (P @ [a])) (hd_of (b # Q)) R = endfast s e f g 1 True (Some a) (Some b) R"
    using add_merge_between [OF ds, of R s e f g 1] F s e se by simp
  ultimately have add: "rq_add s e f g R = endfast s e f g 1 True (Some a) (Some b) R"
    using F se by (simp add: rq_add_def)
  obtain n fr k where new: "newseginfo R = (n, R\<lparr>free := fr, fresh := k\<rparr>)" "n \<notin> set (fifo R)"
    by (rule newseginfo_ok [OF wf])
  have sp: "splice (Some a) n (Some b) (fifo R) = P @ a # n # b # Q"
    using splice_split [OF ds, of n] F by simp
  have neq: "a \<noteq> n" "b \<noteq> n" "a \<noteq> b" "n \<notin> set P" "n \<notin> set Q" "b \<notin> set P" "b \<notin> set Q" "n \<notin> set (P @ a # Q)"
    using new(2) F ds by auto
  let ?I = "(R\<lparr>free := fr, fresh := k, seg := (seg R)(n := \<lparr>startseq = s, endseq = e, pflags = f, rqflags = g, cnt = 1\<rparr>),
      lifo := n # lifo R, fifo := P @ a # n # b # Q, total_bytes := total_bytes R + (e - s)\<rparr>)"
  have "endfast s e f g 1 True (Some a) (Some b) R = coalesce (Some a) n (Some b) ?I"
    unfolding endfast_def new(1) prod.case Let_def rq_ops using sp by simp
  moreover have "\<exists>R'. coalesce (Some a) n (Some b) ?I = Inr (pflags (seg R a) OR f, R') \<and> fifo R' = P @ a # Q
      \<and> (\<forall>x. x \<noteq> a \<longrightarrow> x \<noteq> n \<longrightarrow> seg R' x = seg R x) \<and> startseq (seg R' a) = startseq (seg R a)
      \<and> endseq (seg R' a) = endseq (seg R b) \<and> pflags (seg R' a) = pflags (seg R a) OR f"
    using neq s e by (auto simp: coalesce_def advance_nxt_def Let_def remove1_append)
  ultimately show ?thesis using add neq(8) by auto
qed

text \<open>C32. A FIN is lost where a hole between two blocks is filled exactly. Let \<open>b\<close> carry a FIN and let no other block, nor the
  segment that fills the hole between \<open>a\<close> and \<open>b\<close>, carry one. Before the segment arrives, clearing the queue to the end of
  \<open>b\<close> reports the FIN. The segment is accepted and \<open>a\<close> reaches to the end of \<open>b\<close>, but it has not got the flags of \<open>b\<close>: the
  FIN is not reported then, nor by clearing the queue to any number afterwards.\<close>

theorem filling_a_hole_loses_the_fin:
  assumes "rq_inv R" and "fifo R = P @ a # b # Q" and "endseq (seg R a) = s" and "startseq (seg R b) = e"
    and "pflags (seg R b) AND TH_FIN \<noteq> 0" and "f AND TH_FIN = 0" and "\<forall>x \<in> set (P @ a # Q). pflags (seg R x) AND TH_FIN = 0"
  shows "fst (clearto (endseq (seg R b)) R) AND TH_FIN \<noteq> 0
    \<and> (\<exists>fl R'. rq_add s e f g R = Inr (fl, R') \<and> fl AND TH_FIN = 0 \<and> fifo R' = P @ a # Q
        \<and> startseq (seg R' a) = startseq (seg R a) \<and> endseq (seg R' a) = endseq (seg R b)
        \<and> (\<forall>n. fst (clearto n R') AND TH_FIN = 0))"
proof -
  have "blocks_ok (seg R) (fifo R)" "b \<in> set (fifo R)" using assms(1,2) by (auto simp: rq_inv_def)
  then have before: "fst (clearto (endseq (seg R b)) R) AND TH_FIN \<noteq> 0"
    using clearto_loop_reports [of R "fifo R" b _ TH_FIN 0] assms(5) by (simp add: clearto_def)
  obtain R' n where R': "rq_add s e f g R = Inr (pflags (seg R a) OR f, R')" "fifo R' = P @ a # Q" "n \<notin> set (P @ a # Q)"
    "\<forall>x. x \<noteq> a \<longrightarrow> x \<noteq> n \<longrightarrow> seg R' x = seg R x" "startseq (seg R' a) = startseq (seg R a)"
    "endseq (seg R' a) = endseq (seg R b)" "pflags (seg R' a) = pflags (seg R a) OR f"
    using rq_add_fills_hole [OF assms(1-4), of f g] by blast
  have "pflags (seg R' x) AND TH_FIN = 0" if "x \<in> set (fifo R')" for x
  proof (cases "x = a")
    case True
    then show ?thesis using R'(7) assms(6,7) by (simp add: or_and_eq_0)
  next
    case False
    then have "seg R' x = seg R x" using that R'(2-4) by metis
    then show ?thesis using assms(7) that R'(2) by metis
  qed
  then have "fst (clearto n R') AND TH_FIN = 0" for n
    using clearto_loop_none [of "fifo R'" R' TH_FIN 0 n] by (simp add: clearto_def)
  then show ?thesis using before R' assms(6,7) by (auto simp: or_and_eq_0)
qed

definition demo_hole :: rq where
  "demo_hole = \<lparr>fifo = [0, 1], lifo = [0, 1], hint = None, total_bytes = 5, rcv_nxt = 0,
     seg = (\<lambda>a. if a = 0 then \<lparr>startseq = 1, endseq = 3, pflags = 0x10, rqflags = 0, cnt = 1\<rparr>
               else \<lparr>startseq = 5, endseq = 8, pflags = 0x11, rqflags = 0, cnt = 1\<rparr>), free = [], fresh = 2\<rparr>"

theorem filling_a_hole_loses_the_fin_witness:
  "fst (clearto 8 demo_hole) AND TH_FIN \<noteq> 0
    \<and> (\<exists>fl R'. rq_add 3 5 0x10 0 demo_hole = Inr (fl, R') \<and> fifo R' = [0] \<and> endseq (seg R' 0) = 8 \<and> fst (clearto 8 R') AND TH_FIN = 0)"
proof -
  have "rq_inv demo_hole" "fifo demo_hole = [] @ 0 # 1 # []" "endseq (seg demo_hole 0) = 3" "startseq (seg demo_hole 1) = 5"
    "pflags (seg demo_hole 1) AND TH_FIN \<noteq> 0" "(0x10 :: flags) AND TH_FIN = 0"
    "\<forall>x \<in> set ([] @ 0 # []). pflags (seg demo_hole x) AND TH_FIN = 0" "endseq (seg demo_hole 1) = 8"
    by (simp_all add: demo_hole_def rq_inv_def lists_ok_def rcv_ok_def seg_size_def TH_FIN_def)
  with filling_a_hole_loses_the_fin [OF this(1-7), of 0] show ?thesis by auto
qed

text \<open>Of four segments, of which the one with the FIN comes first and the start of the
  stream last, all bytes are passed on, the queue is empty, and no FIN has been reported; in another order
  of the same segments it is.\<close>

theorem fin_lost_in_one_order:
  "(case foldE (receive TCPS_ESTABLISHED) [(5, 1, TH_FIN), (3, 1, 0), (4, 1, 0), (0, 3, 0)] (new_rq 0, 0, 0) of
      Inl _ \<Rightarrow> False | Inr (R, d, seen) \<Rightarrow> rcv_nxt R = 6 \<and> d = 6 \<and> rq_empty R \<and> seen AND TH_FIN = 0)
   \<and> (case foldE (receive TCPS_ESTABLISHED) [(3, 1, 0), (4, 1, 0), (5, 1, TH_FIN), (0, 3, 0)] (new_rq 0, 0, 0) of
      Inl _ \<Rightarrow> False | Inr (R, d, seen) \<Rightarrow> rcv_nxt R = 6 \<and> d = 6 \<and> rq_empty R \<and> seen AND TH_FIN = TH_FIN)"
  by code_simp

end
