(* ===== verification/Tcp_ScoreBoard.thy ===== *)
theory Tcp_ScoreBoard
  imports Tcp_RqProps
begin

text \<open>
  The score board of a SACK sender over the reassembly queue, \<^verbatim>\<open>ns2-gea/ns-2/tcp/scoreboard-rq.h\<close> and
  \<^verbatim>\<open>scoreboard-rq.cc\<close>: the packets that have been acknowledged selectively. The member
  \<^verbatim>\<open>sack_min\<close> is what the queue's \<^verbatim>\<open>rcv_nxt_\<close> refers to and is \<open>rcv_nxt\<close> of the queue here. Of the acknowledgement
  the code uses the list of SACK blocks. \<^verbatim>\<open>Dump\<close> only prints.
\<close>

section \<open>The score board\<close>

record scoreboard =
  h_seqno :: int
  sacked :: rq
  changed :: bool

definition new_scoreboard :: scoreboard where
  "new_scoreboard = \<lparr>h_seqno = -1, sacked = new_rq (-1), changed = False\<rparr>"

definition ClearScoreBoard :: "scoreboard \<Rightarrow> scoreboard" where
  "ClearScoreBoard S = S\<lparr>sacked := clear (sacked S), h_seqno := -1\<rparr>"

definition MarkRetran :: "int \<Rightarrow> scoreboard \<Rightarrow> scoreboard" where
  "MarkRetran n S = (if n \<ge> h_seqno S then S\<lparr>h_seqno := n + 1\<rparr> else S)"

definition CheckUpdate :: "scoreboard \<Rightarrow> bool" where
  "CheckUpdate S = changed S"

text \<open>Not implemented: these end the simulator.\<close>

definition IsEmpty :: "scoreboard \<Rightarrow> int result" where
  "IsEmpty S = Inl (AssertFailed ''ScoreBoardRQ::IsEmpty not implemented'')"

definition CheckSndNxt :: "scoreboard \<Rightarrow> int result" where
  "CheckSndNxt S = Inl (AssertFailed ''ScoreBoardRQ::CheckSndNxt not implemented'')"

definition GetNextUnacked :: "int \<Rightarrow> scoreboard \<Rightarrow> int \<times> scoreboard" where
  "GetNextUnacked n S = (let ((h, _, _), R) = nexthole n (sacked S) in (h, S\<lparr>sacked := R\<rparr>))"

definition GetNextRetran :: "scoreboard \<Rightarrow> int \<times> scoreboard" where
  "GetNextRetran S =
     (let S1 = (if h_seqno S < rcv_nxt (sacked S) then S\<lparr>h_seqno := rcv_nxt (sacked S)\<rparr> else S);
          ((h, fcnt, _), R) = nexthole (h_seqno S1) (sacked S1);
          S2 = S1\<lparr>sacked := R\<rparr>
      in if h > 0 then
           if fcnt \<le> 0 then (-1, S2)
           else (h, if h > h_seqno S2 then S2\<lparr>h_seqno := h\<rparr> else S2)
         else (-1, S2))"

definition UpdateScoreBoard :: "int \<Rightarrow> (int \<times> int) list \<Rightarrow> scoreboard \<Rightarrow> scoreboard result" where
  "UpdateScoreBoard last_ack sacks S =
     (let (c, R) =
        (if rcv_nxt (sacked S) \<le> last_ack then
           let R0 = (sacked S)\<lparr>rcv_nxt := last_ack + 1\<rparr>
           in if \<not> rq_empty R0 then (True, snd (cleartonxt R0)) else (False, R0)
         else (False, sacked S))
      in bindE (foldE (add_block 0) sacks R) (\<lambda>R'.
           Inr (S\<lparr>sacked := R', changed := (c \<or> total_bytes (sacked S) \<noteq> total_bytes R')\<rparr>)))"

section \<open>Keeping the board\<close>

text \<open>Moving \<^verbatim>\<open>sack_min\<close> up to a packet that has not been acknowledged selectively, and clearing below it.\<close>

lemma clearto_loop_rcv:
  "snd (clearto_loop as s f (R\<lparr>rcv_nxt := n\<rparr>)) = (snd (clearto_loop as s f R))\<lparr>rcv_nxt := n\<rparr>"
proof (induction as arbitrary: f R)
  case (Cons p ps)
  have "deleteseginfo p (fremove p (sremove p (R\<lparr>rcv_nxt := n, total_bytes := x\<rparr>)))
      = (deleteseginfo p (fremove p (sremove p (R\<lparr>total_bytes := x\<rparr>))))\<lparr>rcv_nxt := n\<rparr>" for x
    by (simp add: rq_ops)
  moreover have "seg_size (R\<lparr>rcv_nxt := n\<rparr>) p = seg_size R p" by (simp add: seg_size_def)
  ultimately show ?case using Cons.IH by (simp add: set_seg_def)
qed simp

lemma rq_inv_rcv:
  assumes "rq_inv R" and "bytes R \<subseteq> {n <..}"
  shows "rq_inv (R\<lparr>rcv_nxt := n\<rparr>)"
proof -
  have "n < startseq (seg R a)" if "a \<in> set (fifo R)" for a
  proof -
    have "startseq (seg R a) \<in> bytes R" using assms(1) that by (auto simp: bytes_def rq_inv_def blocks_ok_def)
    then show ?thesis using assms(2) by auto
  qed
  moreover have "seg_size (R\<lparr>rcv_nxt := n\<rparr>) = seg_size R" by (simp add: seg_size_def fun_eq_iff)
  ultimately show ?thesis using assms(1) by (simp add: rq_inv_def lists_ok_def rcv_ok_def)
qed

lemma advance_sack_min:
  assumes inv: "rq_inv R" and free: "n \<notin> bytes R"
  shows "rq_inv (snd (cleartonxt (R\<lparr>rcv_nxt := n\<rparr>)))" and "rcv_nxt (snd (cleartonxt (R\<lparr>rcv_nxt := n\<rparr>))) = n"
    and "bytes (snd (cleartonxt (R\<lparr>rcv_nxt := n\<rparr>))) = bytes R \<inter> {n ..}"
proof -
  note c = clearto_facts [OF inv, of n]
  have eq: "snd (cleartonxt (R\<lparr>rcv_nxt := n\<rparr>)) = (snd (clearto n R))\<lparr>rcv_nxt := n\<rparr>"
    by (simp add: cleartonxt_def clearto_def clearto_loop_rcv)
  have "bytes R \<inter> {n ..} \<subseteq> {n <..}" using free by (auto simp: order_less_le)
  then show "rq_inv (snd (cleartonxt (R\<lparr>rcv_nxt := n\<rparr>)))" unfolding eq by (intro rq_inv_rcv) (simp_all add: c)
  show "rcv_nxt (snd (cleartonxt (R\<lparr>rcv_nxt := n\<rparr>))) = n" unfolding eq by simp
  show "bytes (snd (cleartonxt (R\<lparr>rcv_nxt := n\<rparr>))) = bytes R \<inter> {n ..}" unfolding eq c(2) [symmetric] by (simp add: bytes_def)
qed

lemma empty_bytes: "rq_inv R \<Longrightarrow> rq_empty R \<longleftrightarrow> bytes R = {}"
  by (cases "fifo R") (auto simp: rq_empty_def bytes_cover rq_inv_def)

definition board_ok :: "scoreboard \<Rightarrow> bool" where
  "board_ok S \<longleftrightarrow> rq_inv (sacked S) \<and> bytes (sacked S) \<subseteq> {rcv_nxt (sacked S) <..}"

lemma update_board:
  assumes ok: "board_ok S" and m: "m = max (rcv_nxt (sacked S)) (last_ack + 1)" and free: "m \<notin> bytes (sacked S)"
    and sacks: "\<forall>(l, r) \<in> set sacks. m < l \<and> l < r"
  shows "\<exists>S'. UpdateScoreBoard last_ack sacks S = Inr S' \<and> board_ok S' \<and> rcv_nxt (sacked S') = m \<and> h_seqno S' = h_seqno S
    \<and> bytes (sacked S') = bytes (sacked S) \<inter> {m <..} \<union> (\<Union>(l, r) \<in> set sacks. {l ..< r})
    \<and> (changed S' \<longleftrightarrow> rcv_nxt (sacked S) \<le> last_ack \<and> bytes (sacked S) \<noteq> {} \<or> bytes (sacked S') \<noteq> bytes (sacked S))"
proof -
  let ?R = "sacked S"
  let ?B = "\<Union>(l, r) \<in> set sacks. {l ..< r}"
  have inv: "rq_inv ?R" and sub: "bytes ?R \<subseteq> {rcv_nxt ?R <..}" using ok by (simp_all add: board_ok_def)
  define R0 where "R0 = (if rcv_nxt ?R \<le> last_ack then
      if \<not> rq_empty ?R then snd (cleartonxt (?R\<lparr>rcv_nxt := m\<rparr>)) else ?R\<lparr>rcv_nxt := m\<rparr> else ?R)"
  let ?c = "rcv_nxt ?R \<le> last_ack \<and> \<not> rq_empty ?R"
  have m': "rcv_nxt ?R \<le> last_ack \<Longrightarrow> m = last_ack + 1" and m'': "\<not> rcv_nxt ?R \<le> last_ack \<Longrightarrow> m = rcv_nxt ?R" using m by auto
  have R0: "rq_inv R0" "rcv_nxt R0 = m" "bytes R0 = bytes ?R \<inter> {m <..}"
  proof -
    have "bytes ?R \<inter> {m ..} = bytes ?R \<inter> {m <..}" using free by (auto simp: order_less_le)
    moreover have "rq_empty ?R \<Longrightarrow> rq_inv (?R\<lparr>rcv_nxt := m\<rparr>)" using empty_bytes [OF inv] by (intro rq_inv_rcv inv) simp
    moreover have "bytes (?R\<lparr>rcv_nxt := m\<rparr>) = bytes ?R" by (simp add: bytes_def)
    ultimately show "rq_inv R0" "rcv_nxt R0 = m" "bytes R0 = bytes ?R \<inter> {m <..}"
      using inv sub advance_sack_min [OF inv free] empty_bytes [OF inv] m'' by (auto simp: R0_def)
  qed
  obtain R' where R': "foldE (add_block 0) sacks R0 = Inr R'" "rq_inv R'" "rcv_nxt R' = m" "bytes R' = bytes ?R \<inter> {m <..} \<union> ?B"
    using rqs.add_all_beyond [OF R0(1), of sacks 0] sacks R0(2,3) by auto
  have "UpdateScoreBoard last_ack sacks S = Inr (S\<lparr>sacked := R', changed := (?c \<or> total_bytes ?R \<noteq> total_bytes R')\<rparr>)"
    using R'(1) m' by (simp add: UpdateScoreBoard_def R0_def rq_empty_def Let_def split: if_splits)
  moreover have "bytes R' \<subseteq> {m <..}" using sacks R'(4) by fastforce
  moreover have eq: "total_bytes ?R = total_bytes R' \<longleftrightarrow> bytes ?R = bytes R'" if "\<not> ?c"
  proof -
    have "bytes ?R \<subseteq> bytes R'" using that R'(4) sub m'' empty_bytes [OF inv] by auto
    then show ?thesis using card_subset_eq [OF finite_bytes [OF R'(2)]] total_card [OF inv] total_card [OF R'(2)] by auto
  qed
  moreover have "?c \<or> total_bytes ?R \<noteq> total_bytes R'
      \<longleftrightarrow> rcv_nxt ?R \<le> last_ack \<and> bytes ?R \<noteq> {} \<or> bytes R' \<noteq> bytes ?R"
    using eq empty_bytes [OF inv] by (cases ?c) auto
  ultimately show ?thesis using R'(2-4) by (simp add: board_ok_def)
qed


text \<open>C35. An acknowledgement that does not cover a packet it reports as received, nor one reported before, is recorded:
  the board then holds the packets reported now and those known before that are beyond the packet expected next, and
  \<^verbatim>\<open>changed_\<close> tells whether it holds anything different, or had something to clear.\<close>

theorem UpdateScoreBoard_records_sacks:
  assumes "board_ok S" and "m = max (rcv_nxt (sacked S)) (last_ack + 1)" and "m \<notin> bytes (sacked S)"
    and "\<forall>(l, r) \<in> set sacks. m < l \<and> l < r"
  shows "\<exists>S'. UpdateScoreBoard last_ack sacks S = Inr S' \<and> board_ok S' \<and> rcv_nxt (sacked S') = m \<and> h_seqno S' = h_seqno S
    \<and> bytes (sacked S') = bytes (sacked S) \<inter> {m <..} \<union> (\<Union>(l, r) \<in> set sacks. {l ..< r})
    \<and> (changed S' \<longleftrightarrow> rcv_nxt (sacked S) \<le> last_ack \<and> bytes (sacked S) \<noteq> {} \<or> bytes (sacked S') \<noteq> bytes (sacked S))"
  by (rule update_board [OF assms])

lemma new_scoreboard_ok: "board_ok new_scoreboard" and new_scoreboard_simps [simp]: "bytes (sacked new_scoreboard) = {}"
    "rcv_nxt (sacked new_scoreboard) = -1" "h_seqno new_scoreboard = -1"
  by (simp_all add: board_ok_def new_scoreboard_def new_rq_inv)

theorem UpdateScoreBoard_records_sacks_witness:
  "\<exists>S'. UpdateScoreBoard 4 [(8, 9), (6, 7)] new_scoreboard = Inr S' \<and> rcv_nxt (sacked S') = 5 \<and> 8 \<in> bytes (sacked S') \<and> changed S'"
proof -
  obtain S' where "UpdateScoreBoard 4 [(8, 9), (6, 7)] new_scoreboard = Inr S'" "rcv_nxt (sacked S') = 5"
      "bytes (sacked S') = bytes (sacked new_scoreboard) \<inter> {5 <..} \<union> (\<Union>(l, r) \<in> set [(8, 9), (6, 7)]. {l ..< r})"
      "changed S' \<longleftrightarrow> rcv_nxt (sacked new_scoreboard) \<le> 4 \<and> bytes (sacked new_scoreboard) \<noteq> {}
        \<or> bytes (sacked S') \<noteq> bytes (sacked new_scoreboard)"
    using UpdateScoreBoard_records_sacks [OF new_scoreboard_ok, of 5 4 "[(8, 9), (6, 7)]"] by auto
  then show ?thesis by auto
qed

section \<open>Choosing what to send again\<close>

text \<open>The search begins at the packet after the last one sent again, or at the packet expected next.\<close>

definition search_from :: "scoreboard \<Rightarrow> int" where
  "search_from S = max (h_seqno S) (rcv_nxt (sacked S))"

lemma nexthole_fields: "snd (nexthole s R) = R\<lparr>hint := hd_of (fifo R)\<rparr>"
  by (simp add: nexthole_def hd_of_def)

lemma hint_irrelevant: "bytes (R\<lparr>hint := x\<rparr>) = bytes R" "rq_inv (R\<lparr>hint := x\<rparr>) = rq_inv R"
proof -
  have "seg_size (R\<lparr>hint := x\<rparr>) = seg_size R" by (simp add: seg_size_def fun_eq_iff)
  then show "bytes (R\<lparr>hint := x\<rparr>) = bytes R" "rq_inv (R\<lparr>hint := x\<rparr>) = rq_inv R"
    by (simp_all add: bytes_def rq_inv_def lists_ok_def rcv_ok_def)
qed

lemma GetNextRetran_value:
  "GetNextRetran S =
    (case nexthole_loop (fifo (sacked S)) (search_from S) (sacked S) of (h, n, b) \<Rightarrow>
       (if 0 < h \<and> 0 < n then h else -1,
        S\<lparr>sacked := (sacked S)\<lparr>hint := hd_of (fifo (sacked S))\<rparr>,
          h_seqno := (if 0 < h \<and> 0 < n then max h (search_from S) else search_from S)\<rparr>))"
  by (cases S) (auto simp: GetNextRetran_def search_from_def nexthole_def hd_of_def Let_def max_def split: prod.split)

lemma next_retran:
  assumes ok: "board_ok S" and r: "GetNextRetran S = (n, S')"
  shows "board_ok S' \<and> bytes (sacked S') = bytes (sacked S) \<and> rcv_nxt (sacked S') = rcv_nxt (sacked S)
    \<and> (if n = -1 then h_seqno S' = search_from S
         \<and> (0 < search_from S \<longrightarrow> (\<forall>k x. search_from S \<le> k \<and> k \<notin> bytes (sacked S) \<and> x \<in> bytes (sacked S) \<longrightarrow> x < k))
       else h_seqno S' = n \<and> search_from S \<le> n \<and> n \<notin> bytes (sacked S) \<and> {search_from S ..< n} \<subseteq> bytes (sacked S)
         \<and> (\<exists>x \<in> bytes (sacked S). n < x))"
proof -
  let ?R = "sacked S" and ?s = "search_from S"
  have inv: "rq_inv ?R" and bl: "blocks_ok (seg ?R) (fifo ?R)" using ok by (simp_all add: board_ok_def rq_inv_def)
  obtain h c b where l: "nexthole_loop (fifo ?R) ?s ?R = (h, c, b)" by (cases "nexthole_loop (fifo ?R) ?s ?R")
  let ?go = "0 < h \<and> 0 < c"
  have n: "n = (if ?go then h else -1)" and S': "S' = S\<lparr>sacked := ?R\<lparr>hint := hd_of (fifo ?R)\<rparr>,
      h_seqno := (if ?go then max h ?s else ?s)\<rparr>"
    using r [unfolded GetNextRetran_value l prod.case] by auto
  have same: "board_ok S' \<and> bytes (sacked S') = bytes ?R \<and> rcv_nxt (sacked S') = rcv_nxt ?R"
    using ok S' by (simp add: board_ok_def hint_irrelevant)
  have spec: "if \<forall>x \<in> bytes ?R. x + 1 < ?s then h = -1 \<and> c = -1 \<and> b = -1
    else ?s \<le> h \<and> h \<notin> bytes ?R \<and> {?s ..< h} \<subseteq> bytes ?R
      \<and> (if bytes ?R \<inter> {h <..} = {} then c = -1 \<and> b = -1
         else c = int (length (List.filter (\<lambda>a. h < startseq (seg ?R a)) (fifo ?R))) \<and> b = int (card (bytes ?R \<inter> {h <..})))"
    using nexthole_first_missing [OF inv, of ?s] l by (simp add: nexthole_def)
  show ?thesis
  proof (cases ?go)
    case True
    have far: "\<not> (\<forall>x \<in> bytes ?R. x + 1 < ?s)"
    proof
      assume "\<forall>x \<in> bytes ?R. x + 1 < ?s"
      from spec [unfolded if_P [OF this]] show False using True by simp
    qed
    note found = spec [unfolded if_not_P [OF far]]
    then have "?s \<le> h" "h \<notin> bytes ?R" "{?s ..< h} \<subseteq> bytes ?R" "bytes ?R \<inter> {h <..} \<noteq> {}"
      using True by (auto split: if_splits)
    then show ?thesis using same n S' True by auto
  next
    case False
    have "x < k" if "0 < ?s" "?s \<le> k" "k \<notin> bytes ?R" "x \<in> bytes ?R" for k x
    proof (cases "\<forall>x \<in> bytes ?R. x + 1 < ?s")
      case True
      then show ?thesis using that by force
    next
      case far: False
      note found = spec [unfolded if_not_P [OF far]]
      then have h: "?s \<le> h" "h \<notin> bytes ?R" "{?s ..< h} \<subseteq> bytes ?R" by simp_all
      have "bytes ?R \<inter> {h <..} = {}"
      proof (rule ccontr)
        assume "\<not> ?thesis"
        then have "0 < c" using found above_missing(2) [OF bl, of h] h(2) by (simp add: bytes_cover split: if_splits)
        then show False using False that(1) h(1) by simp
      qed
      moreover have "h \<le> k" using h(3) that(2,3) by (meson atLeastLessThan_iff not_le subsetD)
      ultimately show ?thesis using that(4) h(2) by (metis disjoint_iff greaterThan_iff linorder_neqE_linordered_idom order.strict_trans2)
    qed
    then show ?thesis using same n S' False by auto
  qed
qed

text \<open>C36. The packet chosen to be sent again has not been acknowledged, every packet from where the search began up to it has been,
  and some packet beyond it has; the search will go on from it. If none is chosen, and the search began above
  packet 0, then no packet that is missing has an acknowledged one beyond it.\<close>

theorem GetNextRetran_finds_a_hole:
  assumes "board_ok S" and "GetNextRetran S = (n, S')"
  shows "board_ok S' \<and> bytes (sacked S') = bytes (sacked S) \<and> rcv_nxt (sacked S') = rcv_nxt (sacked S)
    \<and> (if n = -1 then h_seqno S' = search_from S
         \<and> (0 < search_from S \<longrightarrow> (\<forall>k x. search_from S \<le> k \<and> k \<notin> bytes (sacked S) \<and> x \<in> bytes (sacked S) \<longrightarrow> x < k))
       else h_seqno S' = n \<and> search_from S \<le> n \<and> n \<notin> bytes (sacked S) \<and> {search_from S ..< n} \<subseteq> bytes (sacked S)
         \<and> (\<exists>x \<in> bytes (sacked S). n < x))"
  by (rule next_retran [OF assms])

theorem GetNextRetran_finds_a_hole_witness:
  "\<exists>S S'. UpdateScoreBoard 0 [(2, 6)] new_scoreboard = Inr S \<and> GetNextRetran S = (1, S') \<and> h_seqno S' = 1"
proof -
  obtain S where S: "UpdateScoreBoard 0 [(2, 6)] new_scoreboard = Inr S" "board_ok S" "rcv_nxt (sacked S) = 1"
      "h_seqno S = -1" "bytes (sacked S) = {2 ..< 6}"
    using update_board [OF new_scoreboard_ok, of 1 0 "[(2, 6)]"] by auto
  obtain n S' where r: "GetNextRetran S = (n, S')" by (cases "GetNextRetran S")
  have s: "search_from S = 1" using S(3,4) by (simp add: search_from_def)
  note hole = GetNextRetran_finds_a_hole [OF S(2) r, unfolded S(5) s]
  have "n \<noteq> -1"
  proof
    assume "n = -1"
    then have "\<forall>k x. 1 \<le> k \<and> k \<notin> {2 ..< 6} \<and> x \<in> {2 ..< 6} \<longrightarrow> x < (k :: int)" using hole by simp
    from spec [OF spec [OF this, of 1], of 2] show False by simp
  qed
  then have n: "1 \<le> n" "{1 ..< n} \<subseteq> {2 ..< 6}" "h_seqno S' = n" using hole by simp_all
  then have "\<not> 1 < n" using subsetD [OF n(2), of 1] by auto
  then have "n = 1" using n(1) by simp
  then show ?thesis using S(1) r n(3) by auto
qed

text \<open>Packet 0 is never chosen: \<^verbatim>\<open>GetNextRetran\<close> tests whether the hole is above 0, where holes begin at 0. With packet
  0 lost and packets 1 to 4 acknowledged selectively it answers that there is nothing to send again; with
  all numbers one higher it answers with the lost packet.\<close>

theorem first_packet_not_chosen:
  "(case UpdateScoreBoard (-1) [(1, 5)] new_scoreboard of Inl _ \<Rightarrow> False | Inr S \<Rightarrow>
      rcv_nxt (sacked S) = 0 \<and> fst (nexthole 0 (sacked S)) = (0, 1, 4) \<and> fst (GetNextRetran S) = -1)
   \<and> (case UpdateScoreBoard 0 [(2, 6)] new_scoreboard of Inl _ \<Rightarrow> False | Inr S \<Rightarrow>
      rcv_nxt (sacked S) = 1 \<and> fst (nexthole 1 (sacked S)) = (1, 1, 4) \<and> fst (GetNextRetran S) = 1)"
  by code_simp

end
