(* ===== verification/Aodv_Packet.thy ===== *)
theory Aodv_Packet
  imports Gea_Prelude
begin

text \<open>
  Packets of the simulator as the AODV agent sees them (common/packet.h, common/ip.h,
  aodv/aodv_packet.h): the common header, the IP header and the AODV headers, the pool of packets
  with its free list (\<^verbatim>\<open>Packet::alloc\<close>, \<^verbatim>\<open>free\<close>, \<^verbatim>\<open>copy\<close>), \<^verbatim>\<open>Connector::drop\<close>, and the
  log of what a component did to the rest of the simulator.

  A packet pointer is an address into \<open>pk\<close>; \<open>pk_next\<close> is the link field that queues and the free
  list share.  \<open>queued\<close> is the condition \<^verbatim>\<open>uid_ > 0\<close> of the scheduler: the packet is an event
  waiting in the event queue.  The AODV headers overlay the same bytes; the type byte says which
  one is there, so they are one datatype.
\<close>

section \<open>Headers\<close>

type_synonym nsaddr_t = "32 word"
type_synonym paddr = nat

definition IP_BROADCAST :: nsaddr_t where
  "IP_BROADCAST = - 1"

definition RT_PORT :: "32 word" where
  "RT_PORT = 255"

definition IP_HDR_LEN :: int where
  "IP_HDR_LEN = 20"

datatype packet_t =
  PT_TCP | PT_TELNET | PT_CBR | PT_AUDIO | PT_VIDEO | PT_ACK | PT_SCTP | PT_SCTP_APP1
  | PT_AODV | PT_OTHER nat

fun DATA_PACKET :: "packet_t \<Rightarrow> bool" where
  "DATA_PACKET PT_AODV = False"
| "DATA_PACKET (PT_OTHER n) = False"
| "DATA_PACKET t = True"

datatype dir_t = DOWN | NONE | UP

datatype ns_af_enum = NS_AF_NONE | NS_AF_ILINK | NS_AF_INET

definition AODV_MAX_ERRORS :: nat where
  "AODV_MAX_ERRORS = 100"

record hdr_aodv_request =
  rq_hop_count :: byte
  rq_bcast_id :: u32
  rq_dst :: nsaddr_t
  rq_dst_seqno :: u32
  rq_src :: nsaddr_t
  rq_src_seqno :: u32
  rq_timestamp :: double

record hdr_aodv_reply =
  rp_hop_count :: byte
  rp_dst :: nsaddr_t
  rp_dst_seqno :: u32
  rp_src :: nsaddr_t
  rp_lifetime :: double
  rp_timestamp :: double

record hdr_aodv_error =
  DestCount :: byte
  unreachable_dst :: "nsaddr_t list"
  unreachable_dst_seqno :: "u32 list"

datatype hdr_aodv =
  AODVTYPE_HELLO hdr_aodv_reply
  | AODVTYPE_RREQ hdr_aodv_request
  | AODVTYPE_RREP hdr_aodv_reply
  | AODVTYPE_RERR hdr_aodv_error
  | AODVTYPE_INVALID byte

definition request_size :: int where
  "request_size = 7 * 4"

definition reply_size :: int where
  "reply_size = 6 * 4"

definition error_size :: "hdr_aodv_error \<Rightarrow> int" where
  "error_size re = (uint (DestCount re) * 2 + 1) * 4"

text \<open>An error header of a fresh packet: the header bytes are zero.\<close>

definition blank_error :: hdr_aodv_error where
  "blank_error = \<lparr>DestCount = 0, unreachable_dst = replicate AODV_MAX_ERRORS 0,
     unreachable_dst_seqno = replicate AODV_MAX_ERRORS 0\<rparr>"

text \<open>\<^verbatim>\<open>re->unreachable_dst[re->DestCount] = d\<close>, the same for the sequence number, and
  \<^verbatim>\<open>re->DestCount += 1\<close>.  The arrays have a fixed length.\<close>

definition add_unreachable :: "nsaddr_t \<Rightarrow> u32 \<Rightarrow> hdr_aodv_error \<Rightarrow> hdr_aodv_error result" where
  "add_unreachable d n re =
    (if unat (DestCount re) < AODV_MAX_ERRORS
     then Inr (re\<lparr>unreachable_dst := (unreachable_dst re)[unat (DestCount re) := d],
            unreachable_dst_seqno := (unreachable_dst_seqno re)[unat (DestCount re) := n],
            DestCount := DestCount re + 1\<rparr>)
     else Inl BufferOverflow)"

section \<open>Packets\<close>

record Packet =
  pk_next :: "paddr option"
  fflag :: bool
  ref_count :: nat
  queued :: bool
  ch_ptype :: packet_t
  ch_size :: int
  ch_error :: int
  ch_ts :: double
  ch_iface :: int
  ch_direction :: dir_t
  ch_prev_hop :: nsaddr_t
  ch_next_hop :: nsaddr_t
  ch_last_hop :: nsaddr_t
  ch_addr_type :: ns_af_enum
  ch_xmit_failure :: bool
  ch_num_forwards :: int
  ih_saddr :: nsaddr_t
  ih_sport :: "32 word"
  ih_daddr :: nsaddr_t
  ih_dport :: "32 word"
  ih_ttl :: int
  ah :: hdr_aodv

text \<open>What is done to the rest of the simulator.  \<open>Sent a p base spread\<close> is
  \<^verbatim>\<open>Scheduler::schedule(target_, a, base + spread * Random::uniform())\<close> with the packet as it was
  then; \<open>Repair a p t\<close> is \<^verbatim>\<open>schedule(&lrtimer, a, t)\<close>.\<close>

datatype timer_id = btimer | htimer | ntimer | rtimer

datatype action =
  Sent paddr Packet double double
  | Dropped paddr Packet string
  | Delivered paddr Packet
  | Repair paddr Packet double
  | TimerSet timer_id double double

record world =
  pk :: "paddr \<Rightarrow> Packet"
  free_head :: "paddr option"
  pk_brk :: nat
  sim_clock :: double
  trace :: "action list"

definition log_action :: "action \<Rightarrow> world \<Rightarrow> world" where
  "log_action e w = w\<lparr>trace := trace w @ [e]\<rparr>"

definition pk_upd :: "paddr \<Rightarrow> (Packet \<Rightarrow> Packet) \<Rightarrow> world \<Rightarrow> world" where
  "pk_upd a f w = w\<lparr>pk := (pk w)(a := f (pk w a))\<rparr>"

text \<open>\<^verbatim>\<open>Packet::init\<close>: all header bytes zero.  Type 0 is TCP and direction 0 is none.\<close>

definition Packet_init :: "Packet \<Rightarrow> Packet" where
  "Packet_init p = p\<lparr>ch_ptype := PT_TCP, ch_size := 0, ch_error := 0, ch_ts := 0, ch_iface := 0,
     ch_direction := NONE, ch_prev_hop := 0, ch_next_hop := 0, ch_last_hop := 0,
     ch_addr_type := NS_AF_NONE, ch_xmit_failure := False, ch_num_forwards := 0, ih_saddr := 0,
     ih_sport := 0, ih_daddr := 0, ih_dport := 0, ih_ttl := 0, ah := AODVTYPE_INVALID 0\<rparr>"

definition new_header :: "Packet \<Rightarrow> Packet" where
  "new_header p = (Packet_init p)\<lparr>ch_next_hop := - 2, ch_last_hop := - 2, fflag := True,
     ch_direction := DOWN, pk_next := None\<rparr>"

definition Packet_alloc :: "world \<Rightarrow> (paddr \<times> world) result" where
  "Packet_alloc w = (case free_head w of
     Some a \<Rightarrow>
       bindE (assertE ''fflag_ == FALSE'' (\<not> fflag (pk w a))) (\<lambda>_.
       Inr (a, pk_upd a (\<lambda>p. new_header (p\<lparr>queued := False\<rparr>)) (w\<lparr>free_head := pk_next (pk w a)\<rparr>)))
   | None \<Rightarrow>
       Inr (pk_brk w, pk_upd (pk_brk w) (\<lambda>p. new_header (p\<lparr>queued := False, ref_count := 0\<rparr>))
         (w\<lparr>pk_brk := Suc (pk_brk w)\<rparr>)))"

definition Packet_free :: "paddr \<Rightarrow> world \<Rightarrow> world result" where
  "Packet_free a w =
    (if fflag (pk w a) then
       if ref_count (pk w a) = 0 then
         bindE (assertE ''uid_ <= 0'' (\<not> queued (pk w a))) (\<lambda>_.
         Inr (pk_upd a (\<lambda>p. (Packet_init p)\<lparr>pk_next := free_head w, fflag := False\<rparr>)
                (w\<lparr>free_head := Some a\<rparr>)))
       else Inr (pk_upd a (\<lambda>p. p\<lparr>ref_count := ref_count p - 1\<rparr>) w)
     else Inr w)"

text \<open>\<^verbatim>\<open>Packet::copy\<close>: all headers are copied, the link, flag, count and event number are those
  of the new packet.\<close>

definition Packet_copy :: "paddr \<Rightarrow> world \<Rightarrow> (paddr \<times> world) result" where
  "Packet_copy a w = bindE (Packet_alloc w) (\<lambda>(b, w1).
     Inr (b, pk_upd b (\<lambda>q. (pk w1 a)\<lparr>pk_next := pk_next q, fflag := fflag q, ref_count := ref_count q,
       queued := queued q\<rparr>) w1))"

text \<open>\<^verbatim>\<open>Connector::drop(p, s)\<close>: \<open>has_target\<close> is \<^verbatim>\<open>drop_ != 0\<close>; the target then owns the packet.\<close>

definition Connector_drop :: "bool \<Rightarrow> paddr \<Rightarrow> string \<Rightarrow> world \<Rightarrow> world result" where
  "Connector_drop has_target a reason w =
    (let w1 = log_action (Dropped a (pk w a) reason) w in if has_target then Inr w1 else Packet_free a w1)"

text \<open>\<^verbatim>\<open>Scheduler::schedule\<close> of a packet: it must not be in the event queue already.\<close>

definition enter_queue :: "paddr \<Rightarrow> world \<Rightarrow> world result" where
  "enter_queue a w =
    bindE (assertE ''Scheduler: Event UID not valid!'' (\<not> queued (pk w a))) (\<lambda>_.
    Inr (pk_upd a (\<lambda>p. p\<lparr>queued := True\<rparr>) w))"

section \<open>Chains of packets and the pool\<close>

fun chain :: "(paddr \<Rightarrow> Packet) \<Rightarrow> paddr option \<Rightarrow> paddr list \<Rightarrow> bool" where
  "chain m p [] = (p = None)"
| "chain m p (a # as) = (p = Some a \<and> chain m (pk_next (m a)) as)"

text \<open>The free list is a chain of packets that are not in use, and every packet in use was
  allocated.\<close>

definition pool_inv :: "world \<Rightarrow> bool" where
  "pool_inv w \<longleftrightarrow> (\<exists>fs. chain (pk w) (free_head w) fs \<and> distinct fs \<and>
     (\<forall>a \<in> set fs. a < pk_brk w \<and> \<not> fflag (pk w a) \<and> ref_count (pk w a) = 0)) \<and>
     (\<forall>a. fflag (pk w a) \<longrightarrow> a < pk_brk w)"

text \<open>A packet the program may hand on or release: in use, not shared, not in the event queue.\<close>

definition owned :: "world \<Rightarrow> paddr \<Rightarrow> bool" where
  "owned w a \<longleftrightarrow> fflag (pk w a) \<and> ref_count (pk w a) = 0 \<and> \<not> queued (pk w a)"

text \<open>What an operation on other packets leaves of a packet that is in use.\<close>

definition same_live :: "paddr set \<Rightarrow> world \<Rightarrow> world \<Rightarrow> bool" where
  "same_live A w w' \<longleftrightarrow> (\<forall>a. fflag (pk w a) \<and> a \<notin> A \<longrightarrow> pk w' a = pk w a) \<and> sim_clock w' = sim_clock w \<and>
     pk_brk w \<le> pk_brk w'"

lemma chain_cong: "chain m p as \<Longrightarrow> (\<And>a. a \<in> set as \<Longrightarrow> pk_next (m' a) = pk_next (m a)) \<Longrightarrow> chain m' p as"
  by (induction as arbitrary: p) auto

lemma chain_unique: "chain m p as \<Longrightarrow> chain m p bs \<Longrightarrow> as = bs"
proof (induction as arbitrary: p bs)
  case Nil
  then show ?case by (cases bs) auto
next
  case (Cons a as)
  then show ?case by (cases bs) auto
qed

lemma pool_invI:
  "chain (pk w) (free_head w) fs \<Longrightarrow> distinct fs \<Longrightarrow>
    (\<And>a. a \<in> set fs \<Longrightarrow> a < pk_brk w \<and> \<not> fflag (pk w a) \<and> ref_count (pk w a) = 0) \<Longrightarrow>
    (\<And>a. fflag (pk w a) \<Longrightarrow> a < pk_brk w) \<Longrightarrow> pool_inv w"
  unfolding pool_inv_def by blast

lemma pool_invE:
  assumes "pool_inv w"
  obtains fs where "chain (pk w) (free_head w) fs" "distinct fs"
    "\<And>a. a \<in> set fs \<Longrightarrow> a < pk_brk w \<and> \<not> fflag (pk w a) \<and> ref_count (pk w a) = 0"
    "\<And>a. fflag (pk w a) \<Longrightarrow> a < pk_brk w"
  using assms unfolding pool_inv_def by blast

lemma chain_append: "chain m p (as @ b # bs) \<Longrightarrow> chain m (Some b) (b # bs)"
  by (induction as arbitrary: p) auto

lemma pk_upd_simps [simp]:
  "pk (pk_upd a f w) = (pk w)(a := f (pk w a))" "free_head (pk_upd a f w) = free_head w"
  "pk_brk (pk_upd a f w) = pk_brk w" "sim_clock (pk_upd a f w) = sim_clock w" "trace (pk_upd a f w) = trace w"
  by (simp_all add: pk_upd_def)

lemma log_action_simps [simp]:
  "pk (log_action e w) = pk w" "free_head (log_action e w) = free_head w" "pk_brk (log_action e w) = pk_brk w"
  "sim_clock (log_action e w) = sim_clock w" "trace (log_action e w) = trace w @ [e]"
  by (simp_all add: log_action_def)

lemma Packet_init_simps [simp]:
  "pk_next (Packet_init p) = pk_next p" "fflag (Packet_init p) = fflag p" "ref_count (Packet_init p) = ref_count p"
  "queued (Packet_init p) = queued p"
  by (simp_all add: Packet_init_def)

lemma new_header_simps [simp]:
  "pk_next (new_header p) = None" "fflag (new_header p)" "ref_count (new_header p) = ref_count p"
  "queued (new_header p) = queued p" "ch_direction (new_header p) = DOWN"
  "ih_daddr (new_header p) = 0"
  by (simp_all add: new_header_def Packet_init_def)

lemma pool_inv_log [simp]: "pool_inv (log_action e w) = pool_inv w"
  by (simp add: pool_inv_def)

lemma owned_log [simp]: "owned (log_action e w) = owned w"
  by (simp add: owned_def fun_eq_iff)

lemma same_live_refl [simp]: "same_live A w w"
  by (simp add: same_live_def)

lemma same_live_log [simp]: "same_live A w (log_action e w') = same_live A w w'"
  by (simp add: same_live_def)

text \<open>A change of the headers of a packet in use keeps the pool.\<close>

lemma pool_inv_upd:
  assumes "pool_inv w" "fflag (pk w a)" "fflag (f (pk w a))"
  shows "pool_inv (pk_upd a f w)"
proof -
  obtain fs where fs: "chain (pk w) (free_head w) fs" "distinct fs"
    "\<And>b. b \<in> set fs \<Longrightarrow> b < pk_brk w \<and> \<not> fflag (pk w b) \<and> ref_count (pk w b) = 0"
    and live: "\<And>b. fflag (pk w b) \<Longrightarrow> b < pk_brk w"
    by (rule pool_invE [OF assms(1)]) blast
  from fs(3) assms(2) have na: "a \<notin> set fs" by blast
  then have "chain (pk (pk_upd a f w)) (free_head w) fs"
    by (intro chain_cong [OF fs(1)]) (auto simp: pk_upd_def)
  moreover have "\<forall>b \<in> set fs. b < pk_brk w \<and> \<not> fflag (pk (pk_upd a f w) b) \<and> ref_count (pk (pk_upd a f w) b) = 0"
    using fs(3) na by (auto simp: pk_upd_def)
  ultimately show ?thesis
    using fs(2) live assms(2) by (intro pool_invI [of _ fs]) (auto split: if_splits)
qed

lemma alloc_ok:
  assumes "pool_inv w"
  obtains a w' where "Packet_alloc w = Inr (a, w')" "pool_inv w'" "\<not> fflag (pk w a)"
    "pk w' a = new_header ((pk w a)\<lparr>queued := False, ref_count := 0\<rparr>)"
    "same_live {} w w'" "trace w' = trace w" "owned w' a"
proof -
  obtain fs where fs: "chain (pk w) (free_head w) fs" "distinct fs"
    "\<And>b. b \<in> set fs \<Longrightarrow> b < pk_brk w \<and> \<not> fflag (pk w b) \<and> ref_count (pk w b) = 0"
    and live: "\<And>b. fflag (pk w b) \<Longrightarrow> b < pk_brk w"
    by (rule pool_invE [OF assms]) blast
  show thesis
  proof (cases fs)
    case Nil
    define w' where "w' = pk_upd (pk_brk w) (\<lambda>p. new_header (p\<lparr>queued := False, ref_count := 0\<rparr>))
         (w\<lparr>pk_brk := Suc (pk_brk w)\<rparr>)"
    have hd: "free_head w = None" using fs(1) Nil by simp
    have nf: "\<not> fflag (pk w (pk_brk w))" using live [of "pk_brk w"] by auto
    have "Packet_alloc w = Inr (pk_brk w, w')" by (simp add: Packet_alloc_def hd w'_def)
    moreover have "pool_inv w'"
      using live hd by (auto simp: pool_inv_def w'_def less_Suc_eq intro: exI [of _ "[]"])
    ultimately show thesis
      using that [of "pk_brk w" w'] nf by (auto simp: w'_def same_live_def owned_def)
  next
    case (Cons a gs)
    define w' where "w' = pk_upd a (\<lambda>p. new_header (p\<lparr>queued := False\<rparr>)) (w\<lparr>free_head := pk_next (pk w a)\<rparr>)"
    have a: "free_head w = Some a" "\<not> fflag (pk w a)" "a < pk_brk w" "ref_count (pk w a) = 0" "a \<notin> set gs"
      using fs Cons by auto
    have ch: "chain (pk w) (pk_next (pk w a)) gs" using fs(1) Cons by simp
    have "chain (pk w') (free_head w') gs"
      unfolding w'_def using a(5) by (auto intro: chain_cong [OF ch])
    moreover have "\<forall>b \<in> set gs. b < pk_brk w' \<and> \<not> fflag (pk w' b) \<and> ref_count (pk w' b) = 0"
      using fs(3) Cons a(5) by (auto simp: w'_def)
    ultimately have "pool_inv w'"
      using fs(2) Cons live a(3) by (intro pool_invI [of _ gs]) (auto simp: w'_def split: if_splits)
    moreover have "Packet_alloc w = Inr (a, w')" by (simp add: Packet_alloc_def a w'_def)
    moreover have "pk w' a = new_header ((pk w a)\<lparr>queued := False, ref_count := 0\<rparr>)"
      using a(4) by (cases "pk w a") (simp add: w'_def)
    ultimately show thesis
      using that [of a w'] a by (auto simp: w'_def same_live_def owned_def)
  qed
qed

lemma free_ok:
  assumes "pool_inv w" "owned w a"
  obtains w' where "Packet_free a w = Inr w'" "pool_inv w'" "same_live {a} w w'" "trace w' = trace w"
    "\<not> fflag (pk w' a)" "ih_daddr (pk w' a) = 0"
proof -
  obtain fs where fs: "chain (pk w) (free_head w) fs" "distinct fs"
    "\<And>b. b \<in> set fs \<Longrightarrow> b < pk_brk w \<and> \<not> fflag (pk w b) \<and> ref_count (pk w b) = 0"
    and live: "\<And>b. fflag (pk w b) \<Longrightarrow> b < pk_brk w"
    by (rule pool_invE [OF assms(1)]) blast
  define w' where "w' = pk_upd a (\<lambda>p. (Packet_init p)\<lparr>pk_next := free_head w, fflag := False\<rparr>)
                (w\<lparr>free_head := Some a\<rparr>)"
  have na: "a \<notin> set fs" using fs(3) assms(2) by (auto simp: owned_def)
  have "chain (pk w') (free_head w) fs"
    using na by (auto simp: w'_def intro: chain_cong [OF fs(1)])
  then have "chain (pk w') (free_head w') (a # fs)" by (simp add: w'_def)
  moreover have "\<forall>b \<in> set (a # fs). b < pk_brk w' \<and> \<not> fflag (pk w' b) \<and> ref_count (pk w' b) = 0"
    using fs(3) na live assms(2) by (auto simp: w'_def owned_def)
  ultimately have "pool_inv w'"
    using fs(2) na live by (intro pool_invI [of _ "a # fs"]) (auto simp: w'_def split: if_splits)
  moreover have "Packet_free a w = Inr w'" using assms(2) by (simp add: Packet_free_def owned_def w'_def)
  ultimately show thesis
    using that by (auto simp: w'_def same_live_def Packet_init_def)
qed

text \<open>After \<^verbatim>\<open>drop\<close> the packet is not the program's any more; all others are as they were.\<close>

lemma drop_ok:
  assumes "pool_inv w" "owned w a"
  obtains w' where "Connector_drop t a r w = Inr w'" "pool_inv w'" "same_live {a} w w'"
    "trace w' = trace w @ [Dropped a (pk w a) r]" "t \<or> \<not> fflag (pk w' a)"
proof (cases t)
  case True
  then show thesis using that assms by (simp add: Connector_drop_def)
next
  case False
  obtain w' where "Packet_free a (log_action (Dropped a (pk w a) r) w) = Inr w'" "pool_inv w'"
    "same_live {a} (log_action (Dropped a (pk w a) r) w) w'" "trace w' = trace (log_action (Dropped a (pk w a) r) w)"
    "\<not> fflag (pk w' a)"
    using assms by (auto intro: free_ok [of "log_action (Dropped a (pk w a) r) w" a])
  then show thesis using that False by (simp add: Connector_drop_def same_live_def)
qed

lemma same_live_trans:
  assumes "same_live A w w1" "same_live B w1 w2"
  shows "same_live (A \<union> B) w w2"
proof -
  have "pk w2 a = pk w a" if "fflag (pk w a)" "a \<notin> A \<union> B" for a
  proof -
    have "pk w1 a = pk w a" using assms(1) that by (auto simp: same_live_def)
    then show ?thesis using assms(2) that by (auto simp: same_live_def)
  qed
  then show ?thesis using assms by (auto simp: same_live_def)
qed

lemma same_live_mono: "same_live A w w' \<Longrightarrow> A \<subseteq> B \<Longrightarrow> same_live B w w'"
  by (auto simp: same_live_def)

lemma same_liveD: "same_live A w w' \<Longrightarrow> fflag (pk w a) \<Longrightarrow> a \<notin> A \<Longrightarrow> pk w' a = pk w a"
  by (simp add: same_live_def)

lemma same_live_now: "same_live A w w' \<Longrightarrow> sim_clock w' = sim_clock w"
  by (simp add: same_live_def)

lemma owned_same_live: "owned w a \<Longrightarrow> same_live A w w' \<Longrightarrow> a \<notin> A \<Longrightarrow> owned w' a"
  by (auto simp: owned_def same_live_def)

end
