(* ===== verification/Aodv_Table.thy ===== *)
theory Aodv_Table
  imports Aodv_Packet
begin

text \<open>
  The routing table of the AODV agent (aodv/aodv_rtable.h, aodv_rtable.cc).

  A \<^verbatim>\<open>LIST_HEAD\<close> list is the list of its elements, first element first.  The key \<^verbatim>\<open>rt_dst\<close>
  of an entry is written once, by \<^verbatim>\<open>rt_add\<close>, which asserts that no entry has it, and entries are
  never deleted while one of their pointers is held, so an \<^verbatim>\<open>aodv_rt_entry*\<close> is represented by
  the key of the entry it points to: \<open>rt_lookup\<close> reads through it, \<open>rt_write\<close> writes through it.
  Flags and counters keep their widths.
\<close>

section \<open>Data\<close>

definition INFINITY2 :: u16 where
  "INFINITY2 = 0xff"

definition RTF_DOWN :: byte where "RTF_DOWN = 0"
definition RTF_UP :: byte where "RTF_UP = 1"
definition RTF_IN_REPAIR :: byte where "RTF_IN_REPAIR = 2"

lemma flags_distinct [simp]:
  "RTF_DOWN \<noteq> RTF_UP" "RTF_UP \<noteq> RTF_DOWN" "RTF_DOWN \<noteq> RTF_IN_REPAIR" "RTF_IN_REPAIR \<noteq> RTF_DOWN"
  "RTF_UP \<noteq> RTF_IN_REPAIR" "RTF_IN_REPAIR \<noteq> RTF_UP"
  by (simp_all add: RTF_DOWN_def RTF_UP_def RTF_IN_REPAIR_def)

definition MAX_HISTORY :: nat where
  "MAX_HISTORY = 3"

text \<open>A quotient of doubles: a division by zero gives an infinity or not-a-number.\<close>

datatype quotient = Finite double | PosInf | NegInf | NaN

definition quot :: "double \<Rightarrow> double \<Rightarrow> quotient" where
  "quot x y = (if y \<noteq> 0 then Finite (x / y)
     else if x > 0 then PosInf else if x < 0 then NegInf else NaN)"

fun quot_positive :: "quotient \<Rightarrow> bool" where
  "quot_positive (Finite x) = (x > 0)"
| "quot_positive PosInf = True"
| "quot_positive NegInf = False"
| "quot_positive NaN = False"

record AODV_Neighbor =
  nb_addr :: nsaddr_t
  nb_expire :: double

record aodv_rt_entry =
  rt_req_timeout :: double
  rt_req_cnt :: byte
  rt_dst :: nsaddr_t
  rt_seqno :: u32
  rt_hops :: u16
  rt_last_hop_count :: int
  rt_nexthop :: nsaddr_t
  rt_pclist :: "nsaddr_t list"
  rt_expire :: double
  rt_flags :: byte
  rt_disc_latency :: "quotient list"
  hist_indx :: byte
  rt_req_last_ttl :: int
  rt_nblist :: "AODV_Neighbor list"

type_synonym aodv_rtable = "aodv_rt_entry list"

definition new_rt_entry :: aodv_rt_entry where
  "new_rt_entry = \<lparr>rt_req_timeout = 0, rt_req_cnt = 0, rt_dst = 0, rt_seqno = 0, rt_hops = INFINITY2,
     rt_last_hop_count = uint INFINITY2, rt_nexthop = 0, rt_pclist = [], rt_expire = 0,
     rt_flags = RTF_DOWN, rt_disc_latency = replicate MAX_HISTORY (Finite 0), hist_indx = 0,
     rt_req_last_ttl = 0, rt_nblist = []\<rparr>"

section \<open>Neighbours and precursors of an entry\<close>

definition rt_nb_insert :: "nsaddr_t \<Rightarrow> aodv_rt_entry \<Rightarrow> aodv_rt_entry" where
  "rt_nb_insert i rt = rt\<lparr>rt_nblist := \<lparr>nb_addr = i, nb_expire = 0\<rparr> # rt_nblist rt\<rparr>"

fun nb_find :: "nsaddr_t \<Rightarrow> AODV_Neighbor list \<Rightarrow> AODV_Neighbor option" where
  "nb_find i [] = None"
| "nb_find i (nb # nbs) = (if nb_addr nb = i then Some nb else nb_find i nbs)"

definition rt_nb_lookup :: "nsaddr_t \<Rightarrow> aodv_rt_entry \<Rightarrow> AODV_Neighbor option" where
  "rt_nb_lookup i rt = nb_find i (rt_nblist rt)"

fun pc_find :: "nsaddr_t \<Rightarrow> nsaddr_t list \<Rightarrow> nsaddr_t option" where
  "pc_find i [] = None"
| "pc_find i (pc # pcs) = (if pc = i then Some pc else pc_find i pcs)"

definition pc_lookup :: "nsaddr_t \<Rightarrow> aodv_rt_entry \<Rightarrow> nsaddr_t option" where
  "pc_lookup i rt = pc_find i (rt_pclist rt)"

definition pc_insert :: "nsaddr_t \<Rightarrow> aodv_rt_entry \<Rightarrow> aodv_rt_entry" where
  "pc_insert i rt = (if pc_lookup i rt = None then rt\<lparr>rt_pclist := i # rt_pclist rt\<rparr> else rt)"

fun pc_unlink :: "nsaddr_t \<Rightarrow> nsaddr_t list \<Rightarrow> nsaddr_t list" where
  "pc_unlink i [] = []"
| "pc_unlink i (pc # pcs) = (if pc = i then pcs else pc # pc_unlink i pcs)"

definition pc_delete :: "nsaddr_t \<Rightarrow> aodv_rt_entry \<Rightarrow> aodv_rt_entry" where
  "pc_delete i rt = rt\<lparr>rt_pclist := pc_unlink i (rt_pclist rt)\<rparr>"

definition pc_delete_all :: "aodv_rt_entry \<Rightarrow> aodv_rt_entry" where
  "pc_delete_all rt = rt\<lparr>rt_pclist := []\<rparr>"

definition pc_empty :: "aodv_rt_entry \<Rightarrow> bool" where
  "pc_empty rt = (case rt_pclist rt of [] \<Rightarrow> True | _ \<Rightarrow> False)"

section \<open>The table\<close>

fun rt_lookup :: "nsaddr_t \<Rightarrow> aodv_rtable \<Rightarrow> aodv_rt_entry option" where
  "rt_lookup i [] = None"
| "rt_lookup i (rt # rts) = (if rt_dst rt = i then Some rt else rt_lookup i rts)"

fun rt_delete :: "nsaddr_t \<Rightarrow> aodv_rtable \<Rightarrow> aodv_rtable" where
  "rt_delete i [] = []"
| "rt_delete i (rt # rts) = (if rt_dst rt = i then rts else rt # rt_delete i rts)"

definition rt_add :: "nsaddr_t \<Rightarrow> aodv_rtable \<Rightarrow> aodv_rtable result" where
  "rt_add i rts = bindE (assertE ''rt_lookup(id) == 0'' (rt_lookup i rts = None)) (\<lambda>_.
     Inr (new_rt_entry\<lparr>rt_dst := i\<rparr> # rts))"

text \<open>An assignment to fields of the entry a pointer points to.\<close>

fun rt_write :: "nsaddr_t \<Rightarrow> (aodv_rt_entry \<Rightarrow> aodv_rt_entry) \<Rightarrow> aodv_rtable \<Rightarrow> aodv_rtable" where
  "rt_write i f [] = []"
| "rt_write i f (rt # rts) = (if rt_dst rt = i then f rt # rts else rt # rt_write i f rts)"

section \<open>Laws\<close>

lemma new_rt_entry_simps [simp]:
  "rt_dst (new_rt_entry\<lparr>rt_dst := i\<rparr>) = i" "rt_flags new_rt_entry = RTF_DOWN"
  "rt_hops new_rt_entry = INFINITY2" "rt_seqno new_rt_entry = 0" "rt_pclist new_rt_entry = []"
  "rt_last_hop_count new_rt_entry = 255" "rt_req_last_ttl new_rt_entry = 0"
  "rt_req_timeout new_rt_entry = 0" "rt_req_cnt new_rt_entry = 0"
  by (simp_all add: new_rt_entry_def INFINITY2_def)

lemma rt_lookup_dst: "rt_lookup i rts = Some rt \<Longrightarrow> rt_dst rt = i"
  by (induction rts) (auto split: if_splits)

lemma rt_lookup_in: "rt_lookup i rts = Some rt \<Longrightarrow> rt \<in> set rts"
  by (induction rts) (auto split: if_splits)

lemma rt_lookup_None: "rt_lookup i rts = None \<longleftrightarrow> i \<notin> rt_dst ` set rts"
  by (induction rts) auto

lemma rt_lookup_member: "distinct (map rt_dst rts) \<Longrightarrow> rt \<in> set rts \<Longrightarrow> rt_lookup (rt_dst rt) rts = Some rt"
  by (induction rts) (auto simp: image_iff)

lemma rt_lookup_write:
  "(\<And>rt. rt_dst rt = i \<Longrightarrow> rt_dst (f rt) = i) \<Longrightarrow>
    rt_lookup j (rt_write i f rts) = (if j = i then map_option f (rt_lookup i rts) else rt_lookup j rts)"
  by (induction rts) auto

lemma dsts_write:
  "(\<And>rt. rt_dst rt = i \<Longrightarrow> rt_dst (f rt) = i) \<Longrightarrow> map rt_dst (rt_write i f rts) = map rt_dst rts"
  by (induction rts) auto

lemma set_rt_write:
  assumes "rt \<in> set (rt_write i f rts)"
  obtains "rt \<in> set rts" | rt0 where "rt_lookup i rts = Some rt0" "rt = f rt0"
  using assms by (induction rts) (auto split: if_splits)

lemma rt_add_new: "rt_lookup i rts = None \<Longrightarrow> rt_add i rts = Inr (new_rt_entry\<lparr>rt_dst := i\<rparr> # rts)"
  by (simp add: rt_add_def)

lemma pc_find_None: "pc_find i pcs = None \<longleftrightarrow> i \<notin> set pcs"
  by (induction pcs) auto

lemma pc_unlink_remove1: "pc_unlink i pcs = remove1 i pcs"
  by (induction pcs) auto

lemma pc_insert_simps [simp]:
  "rt_dst (pc_insert i rt) = rt_dst rt" "rt_flags (pc_insert i rt) = rt_flags rt"
  "rt_hops (pc_insert i rt) = rt_hops rt" "rt_seqno (pc_insert i rt) = rt_seqno rt"
  "rt_nexthop (pc_insert i rt) = rt_nexthop rt" "rt_expire (pc_insert i rt) = rt_expire rt"
  "set (rt_pclist (pc_insert i rt)) = insert i (set (rt_pclist rt))"
  by (auto simp: pc_insert_def pc_lookup_def pc_find_None)

lemma pc_delete_simps [simp]:
  "rt_dst (pc_delete i rt) = rt_dst rt" "rt_flags (pc_delete i rt) = rt_flags rt"
  "rt_hops (pc_delete i rt) = rt_hops rt" "rt_seqno (pc_delete i rt) = rt_seqno rt"
  "rt_nexthop (pc_delete i rt) = rt_nexthop rt"
  by (simp_all add: pc_delete_def)

lemma pc_delete_all_simps [simp]:
  "rt_dst (pc_delete_all rt) = rt_dst rt" "rt_flags (pc_delete_all rt) = rt_flags rt"
  "rt_hops (pc_delete_all rt) = rt_hops rt" "rt_seqno (pc_delete_all rt) = rt_seqno rt"
  "rt_nexthop (pc_delete_all rt) = rt_nexthop rt"
  by (simp_all add: pc_delete_all_def)

end
