(* ===== verification/Aodv_Queue.thy ===== *)
theory Aodv_Queue
  imports Aodv_Packet
begin

text \<open>
  The send buffer of the AODV agent (aodv/aodv_rqueue.h, aodv_rqueue.cc): a drop-front queue of
  packets linked through their \<^verbatim>\<open>next_\<close> fields, with the pointers \<^verbatim>\<open>head_\<close> and \<^verbatim>\<open>tail_\<close>, the
  length, the limit and the time a packet may wait.

  The operations follow the pointers.  A loop over the links gets as fuel the number of packets
  that exist: a chain that ends visits no packet twice, so a loop that uses it up would never end.
  The lemmas below relate every operation to one on the list of the buffered packets.
\<close>

section \<open>State and operations\<close>

record aodv_rqueue =
  rq_head :: "paddr option"
  rq_tail :: "paddr option"
  rq_len :: int
  rq_limit :: int
  rq_timeout :: double
  rq_drop_target :: bool

definition AODV_RTQ_MAX_LEN :: int where
  "AODV_RTQ_MAX_LEN = 64"

definition AODV_RTQ_TIMEOUT :: double where
  "AODV_RTQ_TIMEOUT = 30"

definition new_rqueue :: "bool \<Rightarrow> aodv_rqueue" where
  "new_rqueue t = \<lparr>rq_head = None, rq_tail = None, rq_len = 0, rq_limit = AODV_RTQ_MAX_LEN,
     rq_timeout = AODV_RTQ_TIMEOUT, rq_drop_target = t\<rparr>"

text \<open>\<^verbatim>\<open>remove_head\<close>: \<open>head_->next_\<close> is read when the queue does not look like one of at most one
  packet.\<close>

definition remove_head :: "aodv_rqueue \<Rightarrow> world \<Rightarrow> (paddr option \<times> aodv_rqueue) result" where
  "remove_head q w =
    bindE (if rq_head q = rq_tail q then Inr (q\<lparr>rq_head := None, rq_tail := None\<rparr>)
           else bindE (derefE (rq_head q)) (\<lambda>a. Inr (q\<lparr>rq_head := pk_next (pk w a)\<rparr>))) (\<lambda>q1.
    Inr (rq_head q, if rq_head q = None then q1 else q1\<lparr>rq_len := rq_len q1 - 1\<rparr>))"

text \<open>The search loop of \<^verbatim>\<open>findPacketWithDst\<close> and \<^verbatim>\<open>findAgedPacket\<close>: the packet found and the
  one before it.\<close>

fun find_loop ::
  "nat \<Rightarrow> (Packet \<Rightarrow> bool) \<Rightarrow> (paddr \<Rightarrow> Packet) \<Rightarrow> paddr option \<Rightarrow> paddr option
    \<Rightarrow> (paddr option \<times> paddr option) result" where
  "find_loop n P m None prev = Inr (None, prev)"
| "find_loop 0 P m (Some a) prev = Inl OutOfFuel"
| "find_loop (Suc n) P m (Some a) prev =
    (if P (m a) then Inr (Some a, prev) else find_loop n P m (pk_next (m a)) (Some a))"

definition findPacketWithDst ::
  "nsaddr_t \<Rightarrow> aodv_rqueue \<Rightarrow> world \<Rightarrow> (paddr option \<times> paddr option) result" where
  "findPacketWithDst dst q w = find_loop (pk_brk w) (\<lambda>p. ih_daddr p = dst) (pk w) (rq_head q) None"

definition findAgedPacket :: "aodv_rqueue \<Rightarrow> world \<Rightarrow> (paddr option \<times> paddr option) result" where
  "findAgedPacket q w = find_loop (pk_brk w) (\<lambda>p. ch_ts p < sim_clock w) (pk w) (rq_head q) None"

fun verify_loop ::
  "nat \<Rightarrow> (paddr \<Rightarrow> Packet) \<Rightarrow> paddr option \<Rightarrow> paddr option \<Rightarrow> int \<Rightarrow> (paddr option \<times> int) result" where
  "verify_loop n m None prev cnt = Inr (prev, cnt)"
| "verify_loop 0 m (Some a) prev cnt = Inl OutOfFuel"
| "verify_loop (Suc n) m (Some a) prev cnt = verify_loop n m (pk_next (m a)) (Some a) (cnt + 1)"

definition verifyQueue :: "aodv_rqueue \<Rightarrow> world \<Rightarrow> unit result" where
  "verifyQueue q w =
    bindE (verify_loop (pk_brk w) (pk w) (rq_head q) None 0) (\<lambda>(prev, cnt).
    bindE (assertE ''cnt == len_'' (cnt = rq_len q)) (\<lambda>_.
    assertE ''prev == tail_'' (prev = rq_tail q)))"

text \<open>The statements that unlink the packet \<open>a\<close> found behind \<open>prev\<close>, which \<^verbatim>\<open>deque(dst)\<close> and
  \<^verbatim>\<open>purge\<close> share, with the assertion in front of them.\<close>

definition rq_unlink ::
  "paddr \<Rightarrow> paddr option \<Rightarrow> aodv_rqueue \<Rightarrow> world \<Rightarrow> (aodv_rqueue \<times> world) result" where
  "rq_unlink a prev q w =
    bindE (if Some a = rq_head q \<and> prev = None then Inr ()
           else bindE (derefE prev) (\<lambda>b. assertE ''prev->next_ == p'' (pk_next (pk w b) = Some a))) (\<lambda>_.
    if Some a = rq_head q then bindE (remove_head q w) (\<lambda>(_, q1). Inr (q1, w))
    else bindE (derefE prev) (\<lambda>b.
      if Some a = rq_tail q
      then Inr (q\<lparr>rq_tail := prev, rq_len := rq_len q - 1\<rparr>, pk_upd b (\<lambda>p. p\<lparr>pk_next := None\<rparr>) w)
      else Inr (q\<lparr>rq_len := rq_len q - 1\<rparr>, pk_upd b (\<lambda>p. p\<lparr>pk_next := pk_next (pk w a)\<rparr>) w)))"

text \<open>\<^verbatim>\<open>purge\<close>: packets that have waited too long are unlinked.\<close>

fun rq_purge_loop :: "nat \<Rightarrow> aodv_rqueue \<Rightarrow> world \<Rightarrow> (aodv_rqueue \<times> world) result" where
  "rq_purge_loop n q w =
    bindE (findAgedPacket q w) (\<lambda>(p, prev).
    case p of
      None \<Rightarrow> Inr (q, w)
    | Some a \<Rightarrow> (case n of 0 \<Rightarrow> Inl OutOfFuel
      | Suc m \<Rightarrow>
        bindE (rq_unlink a prev q w) (\<lambda>(q1, w1).
        bindE (verifyQueue q1 w1) (\<lambda>_. rq_purge_loop m q1 w1))))"

definition rq_purge :: "aodv_rqueue \<Rightarrow> world \<Rightarrow> (aodv_rqueue \<times> world) result" where
  "rq_purge q w = rq_purge_loop (pk_brk w) q w"

definition make_room :: "aodv_rqueue \<Rightarrow> world \<Rightarrow> (aodv_rqueue \<times> world) result" where
  "make_room q w =
    (if rq_len q = rq_limit q then
       bindE (remove_head q w) (\<lambda>(p0, q1).
       bindE (case p0 of None \<Rightarrow> Inl (AssertFailed ''p0'') | Some a \<Rightarrow> Inr a) (\<lambda>a.
       bindE (Connector_drop (rq_drop_target q1) a (if ch_ts (pk w a) > sim_clock w then ''IFQ'' else ''TOUT'') w) (\<lambda>w1.
       Inr (q1, w1))))
     else Inr (q, w))"

definition append_tail :: "paddr \<Rightarrow> aodv_rqueue \<Rightarrow> world \<Rightarrow> (aodv_rqueue \<times> world) result" where
  "append_tail a q w =
    (if rq_head q = None then Inr (q\<lparr>rq_head := Some a, rq_tail := Some a, rq_len := rq_len q + 1\<rparr>, w)
     else bindE (derefE (rq_tail q)) (\<lambda>t.
       Inr (q\<lparr>rq_tail := Some a, rq_len := rq_len q + 1\<rparr>, pk_upd t (\<lambda>p. p\<lparr>pk_next := Some a\<rparr>) w)))"

definition rq_enque :: "paddr \<Rightarrow> aodv_rqueue \<Rightarrow> world \<Rightarrow> (aodv_rqueue \<times> world) result" where
  "rq_enque a q w =
    bindE (rq_purge q w) (\<lambda>(q1, w1).
    bindE (make_room q1 (pk_upd a (\<lambda>p. p\<lparr>pk_next := None, ch_ts := sim_clock w1 + rq_timeout q1\<rparr>) w1)) (\<lambda>(q2, w2).
    bindE (append_tail a q2 w2) (\<lambda>(q3, w3).
    bindE (verifyQueue q3 w3) (\<lambda>_. Inr (q3, w3)))))"

definition rq_deque_head :: "aodv_rqueue \<Rightarrow> world \<Rightarrow> (paddr option \<times> aodv_rqueue \<times> world) result" where
  "rq_deque_head q w =
    bindE (rq_purge q w) (\<lambda>(q1, w1).
    bindE (remove_head q1 w1) (\<lambda>(p, q2).
    bindE (verifyQueue q2 w1) (\<lambda>_. Inr (p, q2, w1))))"

definition rq_deque :: "nsaddr_t \<Rightarrow> aodv_rqueue \<Rightarrow> world \<Rightarrow> (paddr option \<times> aodv_rqueue \<times> world) result" where
  "rq_deque dst q w =
    bindE (rq_purge q w) (\<lambda>(q1, w1).
    bindE (findPacketWithDst dst q1 w1) (\<lambda>(p, prev).
    case p of
      None \<Rightarrow> Inr (None, q1, w1)
    | Some a \<Rightarrow>
      bindE (rq_unlink a prev q1 w1) (\<lambda>(q2, w2).
      bindE (verifyQueue q2 w2) (\<lambda>_. Inr (Some a, q2, w2)))))"

definition rq_find :: "nsaddr_t \<Rightarrow> aodv_rqueue \<Rightarrow> world \<Rightarrow> bool result" where
  "rq_find dst q w = bindE (findPacketWithDst dst q w) (\<lambda>(p, _). Inr (p \<noteq> None))"


section \<open>The buffer as a list\<close>

text \<open>\<open>xs\<close> is the list of the buffered packets: the chain from the head, without repetition, ending
  at the tail, of the counted length, and every packet of it belongs to the buffer alone.\<close>

definition rq_inv :: "aodv_rqueue \<Rightarrow> world \<Rightarrow> paddr list \<Rightarrow> bool" where
  "rq_inv q w xs \<longleftrightarrow> chain (pk w) (rq_head q) xs \<and> distinct xs \<and>
     rq_tail q = (if xs = [] then None else Some (last xs)) \<and> rq_len q = int (length xs) \<and>
     (\<forall>a \<in> set xs. owned w a)"

definition same_settings :: "aodv_rqueue \<Rightarrow> aodv_rqueue \<Rightarrow> bool" where
  "same_settings q q' \<longleftrightarrow> rq_limit q' = rq_limit q \<and> rq_timeout q' = rq_timeout q \<and>
     rq_drop_target q' = rq_drop_target q"

text \<open>Only link fields of packets in \<open>A\<close> differ.\<close>

definition relink :: "paddr set \<Rightarrow> world \<Rightarrow> world \<Rightarrow> bool" where
  "relink A w w' \<longleftrightarrow> (\<forall>a. \<exists>n. pk w' a = (pk w a)\<lparr>pk_next := n\<rparr> \<and> (a \<notin> A \<longrightarrow> n = pk_next (pk w a))) \<and>
     free_head w' = free_head w \<and> pk_brk w' = pk_brk w \<and> sim_clock w' = sim_clock w \<and> trace w' = trace w"

definition aged :: "world \<Rightarrow> paddr \<Rightarrow> bool" where
  "aged w a \<longleftrightarrow> ch_ts (pk w a) < sim_clock w"

definition fresh :: "world \<Rightarrow> paddr list \<Rightarrow> paddr list" where
  "fresh w xs = filter (\<lambda>a. \<not> aged w a) xs"

subsection \<open>Links\<close>

lemma relink_fields:
  assumes "relink A w w'"
  shows "fflag (pk w' a) = fflag (pk w a)" "ref_count (pk w' a) = ref_count (pk w a)"
    "queued (pk w' a) = queued (pk w a)" "ih_daddr (pk w' a) = ih_daddr (pk w a)"
    "ch_ts (pk w' a) = ch_ts (pk w a)" "sim_clock w' = sim_clock w" "pk_brk w' = pk_brk w"
    "trace w' = trace w" "(pk w' a)\<lparr>pk_next := n\<rparr> = (pk w a)\<lparr>pk_next := n\<rparr>"
proof -
  from assms obtain k where "pk w' a = (pk w a)\<lparr>pk_next := k\<rparr>" unfolding relink_def by blast
  then show "fflag (pk w' a) = fflag (pk w a)" "ref_count (pk w' a) = ref_count (pk w a)"
    "queued (pk w' a) = queued (pk w a)" "ih_daddr (pk w' a) = ih_daddr (pk w a)"
    "ch_ts (pk w' a) = ch_ts (pk w a)" "(pk w' a)\<lparr>pk_next := n\<rparr> = (pk w a)\<lparr>pk_next := n\<rparr>"
    by simp_all
qed (use assms in \<open>simp_all add: relink_def\<close>)

lemma relink_owned: "relink A w w' \<Longrightarrow> owned w' = owned w"
  by (auto simp: owned_def fun_eq_iff relink_fields)

lemma relink_aged: "relink A w w' \<Longrightarrow> aged w' = aged w"
  by (auto simp: aged_def fun_eq_iff relink_fields)

lemma relink_outside: "relink A w w' \<Longrightarrow> a \<notin> A \<Longrightarrow> pk w' a = pk w a"
  unfolding relink_def by (metis (no_types, lifting) Packet.surjective Packet.update_convs(1))

lemma pk_next_self: "p\<lparr>pk_next := pk_next p\<rparr> = p"
  by (cases p) simp

lemma relink_refl [simp]: "relink A w w"
  unfolding relink_def by (auto intro: pk_next_self [symmetric])

lemma relink_upd: "a \<in> A \<Longrightarrow> relink A w (pk_upd a (\<lambda>p. p\<lparr>pk_next := n\<rparr>) w)"
  unfolding relink_def by auto (metis (no_types, lifting) Packet.surjective Packet.update_convs(1))

lemma relink_trans:
  assumes "relink A w w1" "relink A w1 w2"
  shows "relink A w w2"
proof -
  have "\<exists>n. pk w2 a = (pk w a)\<lparr>pk_next := n\<rparr> \<and> (a \<notin> A \<longrightarrow> n = pk_next (pk w a))" for a
  proof -
    obtain n where n: "pk w1 a = (pk w a)\<lparr>pk_next := n\<rparr>" "a \<notin> A \<longrightarrow> n = pk_next (pk w a)"
      using assms(1) unfolding relink_def by blast
    obtain k where k: "pk w2 a = (pk w1 a)\<lparr>pk_next := k\<rparr>" "a \<notin> A \<longrightarrow> k = pk_next (pk w1 a)"
      using assms(2) unfolding relink_def by blast
    show ?thesis using n k by auto
  qed
  then show ?thesis using assms by (simp add: relink_def)
qed

lemma relink_mono: "relink A w w' \<Longrightarrow> A \<subseteq> B \<Longrightarrow> relink B w w'"
  unfolding relink_def by blast

lemma relink_same_live: "relink A w w' \<Longrightarrow> same_live A w w'"
  by (auto simp: same_live_def relink_outside relink_fields)

lemma relink_pool:
  assumes "relink A w w'" "pool_inv w" "\<And>a. a \<in> A \<Longrightarrow> fflag (pk w a)"
  shows "pool_inv w'"
proof -
  obtain fs where fs: "chain (pk w) (free_head w) fs" "distinct fs"
    "\<And>a. a \<in> set fs \<Longrightarrow> a < pk_brk w \<and> \<not> fflag (pk w a) \<and> ref_count (pk w a) = 0"
    and live: "\<And>a. fflag (pk w a) \<Longrightarrow> a < pk_brk w"
    by (rule pool_invE [OF assms(2)]) blast
  have "chain (pk w') (free_head w) fs"
    using fs(3) assms(3) by (intro chain_cong [OF fs(1)]) (metis relink_outside [OF assms(1)])
  moreover have "free_head w' = free_head w" using assms(1) by (simp add: relink_def)
  ultimately show ?thesis
    using fs(2,3) live by (intro pool_invI [of _ fs]) (auto simp: relink_fields [OF assms(1)])
qed

lemma rq_inv_cong:
  "rq_inv q w xs \<Longrightarrow> (\<And>a. a \<in> set xs \<Longrightarrow> pk w' a = pk w a) \<Longrightarrow> rq_inv q w' xs"
  by (auto simp: rq_inv_def owned_def intro: chain_cong)

lemma rq_inv_same_live:
  "rq_inv q w xs \<Longrightarrow> same_live A w w' \<Longrightarrow> A \<inter> set xs = {} \<Longrightarrow> rq_inv q w' xs"
  by (rule rq_inv_cong, assumption) (auto simp: rq_inv_def owned_def same_live_def)

lemma chain_bound:
  assumes "pool_inv w" "rq_inv q w xs"
  shows "length xs \<le> pk_brk w"
proof -
  obtain fs where "\<And>a. fflag (pk w a) \<Longrightarrow> a < pk_brk w" by (rule pool_invE [OF assms(1)]) blast
  then have "set xs \<subseteq> {..<pk_brk w}" using assms(2) by (auto simp: rq_inv_def owned_def)
  then have "card (set xs) \<le> card {..<pk_brk w}" by (intro card_mono) auto
  then show ?thesis using assms(2) by (simp add: rq_inv_def distinct_card)
qed


subsection \<open>The loops\<close>

text \<open>The packet a search finds and the one in front of it.\<close>

definition before_in :: "'a list \<Rightarrow> 'a option \<Rightarrow> 'a option" where
  "before_in ys prev = (if ys = [] then prev else Some (last ys))"

lemma before_in_Cons [simp]: "before_in (a # ys) prev = before_in ys (Some a)"
  by (simp add: before_in_def)

lemma before_in_Nil [simp]: "before_in [] prev = prev"
  by (simp add: before_in_def)

lemma find_loop_none:
  "chain m p xs \<Longrightarrow> length xs \<le> n \<Longrightarrow> (\<And>a. a \<in> set xs \<Longrightarrow> \<not> P (m a)) \<Longrightarrow>
    find_loop n P m p prev = Inr (None, before_in xs prev)"
proof (induction xs arbitrary: n p prev)
  case (Cons a xs)
  then obtain k where "n = Suc k" by (cases n) auto
  with Cons show ?case by auto
qed simp

lemma find_loop_found:
  "chain m p (ys @ a # zs) \<Longrightarrow> length ys < n \<Longrightarrow> (\<And>b. b \<in> set ys \<Longrightarrow> \<not> P (m b)) \<Longrightarrow> P (m a) \<Longrightarrow>
    find_loop n P m p prev = Inr (Some a, before_in ys prev)"
proof (induction ys arbitrary: n p prev)
  case Nil
  then obtain k where "n = Suc k" by (cases n) auto
  with Nil show ?case by auto
next
  case (Cons b ys)
  then obtain k where "n = Suc k" by (cases n) auto
  with Cons show ?case by auto
qed

lemma verify_loop_chain:
  "chain m p xs \<Longrightarrow> length xs \<le> n \<Longrightarrow>
    verify_loop n m p prev cnt = Inr (before_in xs prev, cnt + int (length xs))"
proof (induction xs arbitrary: n p prev cnt)
  case (Cons a xs)
  then obtain k where "n = Suc k" by (cases n) auto
  with Cons show ?case by auto
qed simp

lemma verifyQueue_ok: "pool_inv w \<Longrightarrow> rq_inv q w xs \<Longrightarrow> verifyQueue q w = Inr ()"
  using chain_bound [of w q xs] verify_loop_chain [of "pk w" "rq_head q" xs "pk_brk w" None 0]
  by (simp add: verifyQueue_def rq_inv_def before_in_def)

lemma remove_head_empty: "rq_inv q w [] \<Longrightarrow> \<exists>q'. remove_head q w = Inr (None, q') \<and> rq_inv q' w [] \<and> same_settings q q'"
  by (simp add: remove_head_def rq_inv_def same_settings_def)

lemma remove_head_Cons:
  assumes "rq_inv q w (a # xs)"
  obtains q' where "remove_head q w = Inr (Some a, q')" "rq_inv q' w xs" "same_settings q q'"
proof (cases "xs = []")
  case True
  show thesis
    by (rule that [of "q\<lparr>rq_head := None, rq_tail := None, rq_len := rq_len q - 1\<rparr>"])
      (use True assms in \<open>simp_all add: remove_head_def rq_inv_def same_settings_def\<close>)
next
  case False
  then have "last xs \<noteq> a" using assms by (auto simp: rq_inv_def)
  show thesis
    by (rule that [of "q\<lparr>rq_head := pk_next (pk w a), rq_len := rq_len q - 1\<rparr>"])
      (use \<open>last xs \<noteq> a\<close> False assms in \<open>simp_all add: remove_head_def rq_inv_def same_settings_def\<close>)
qed

text \<open>Writing the link of the last packet of a segment.\<close>

lemma chain_relink_last:
  assumes "chain m p (ys @ b # zs)" "distinct (ys @ b # zs)" "chain m n ws" "b \<notin> set ws"
    and m': "pk_next (m' b) = n" "\<And>a. a \<noteq> b \<Longrightarrow> pk_next (m' a) = pk_next (m a)"
  shows "chain m' p (ys @ b # ws)"
proof -
  have "chain m' n ws"
    by (rule chain_cong [OF assms(3)]) (metis assms(4) m'(2))
  then show ?thesis using assms(1,2)
  proof (induction ys arbitrary: p)
    case (Cons c ys)
    then have "pk_next (m' c) = pk_next (m c)" by (auto intro: m'(2))
    with Cons show ?case by simp
  qed (simp add: m'(1))
qed

text \<open>Unlinking a packet that a search has found.\<close>

lemma rq_unlink_ok:
  assumes inv: "rq_inv q w (ys @ a # zs)"
  obtains q' w' where "rq_unlink a (before_in ys None) q w = Inr (q', w')" "rq_inv q' w' (ys @ zs)"
    "relink (set ys) w w'" "same_settings q q'"
proof (cases ys rule: rev_cases)
  case Nil
  obtain q' where "remove_head q w = Inr (Some a, q')" "rq_inv q' w zs" "same_settings q q'"
    by (rule remove_head_Cons [of q w a zs]) (use inv Nil in simp_all)
  moreover have "rq_head q = Some a" using inv Nil by (simp add: rq_inv_def)
  ultimately show thesis using that [of q' w] Nil by (simp add: rq_unlink_def)
next
  case (snoc us b)
  have ch: "chain (pk w) (rq_head q) (us @ b # a # zs)" and di: "distinct (us @ b # a # zs)"
    and tl: "rq_tail q = Some (last (a # zs))" and ln: "rq_len q = int (length us + length zs + 2)"
    and ow: "\<forall>c \<in> set (us @ b # a # zs). owned w c"
    using inv snoc by (auto simp: rq_inv_def)
  have ba: "pk_next (pk w b) = Some a" and za: "chain (pk w) (pk_next (pk w a)) zs"
    using chain_append [OF ch] by simp_all
  have hd: "rq_head q \<noteq> Some a"
    using ch di by (cases us) auto
  define n where "n = pk_next (pk w a)"
  define w' where "w' = pk_upd b (\<lambda>p. p\<lparr>pk_next := n\<rparr>) w"
  have rl: "relink (set ys) w w'" using snoc by (auto simp: w'_def intro: relink_upd)
  have cz: "chain (pk w') (rq_head q) (us @ b # zs)"
    using di za by (intro chain_relink_last [OF ch _ _]) (auto simp: w'_def n_def)
  have ow': "\<forall>c \<in> set (us @ b # zs). owned w' c" using ow by (simp add: relink_owned [OF rl])
  show thesis
  proof (cases "zs = []")
    case True
    then have nn: "n = None" and at: "rq_tail q = Some a" using za tl by (simp_all add: n_def)
    have "rq_unlink a (before_in ys None) q w = Inr (q\<lparr>rq_tail := Some b, rq_len := rq_len q - 1\<rparr>, w')"
      using hd at ba snoc nn by (simp add: rq_unlink_def before_in_def w'_def)
    moreover have "rq_inv (q\<lparr>rq_tail := Some b, rq_len := rq_len q - 1\<rparr>) w' (ys @ zs)"
      using cz di ow' ln True snoc by (simp add: rq_inv_def)
    ultimately show thesis using that rl by (simp add: same_settings_def)
  next
    case False
    then have at: "rq_tail q \<noteq> Some a" using tl di by auto
    have "rq_unlink a (before_in ys None) q w = Inr (q\<lparr>rq_len := rq_len q - 1\<rparr>, w')"
      using hd at ba snoc by (simp add: rq_unlink_def before_in_def w'_def n_def)
    moreover have "rq_inv (q\<lparr>rq_len := rq_len q - 1\<rparr>) w' (ys @ zs)"
      using cz di ow' ln tl False snoc by (simp add: rq_inv_def)
    ultimately show thesis using that rl by (simp add: same_settings_def)
  qed
qed

lemma same_settings_trans: "same_settings p q \<Longrightarrow> same_settings q r \<Longrightarrow> same_settings p r"
  by (simp add: same_settings_def)

lemma same_settings_refl [simp]: "same_settings q q"
  by (simp add: same_settings_def)

lemma findAged_none:
  "pool_inv w \<Longrightarrow> rq_inv q w xs \<Longrightarrow> (\<And>a. a \<in> set xs \<Longrightarrow> \<not> aged w a) \<Longrightarrow>
    findAgedPacket q w = Inr (None, before_in xs None)"
  unfolding findAgedPacket_def
  using chain_bound [of w q xs]
  by (intro find_loop_none [where xs = xs]) (auto simp: rq_inv_def aged_def)

lemma findAged_found:
  "pool_inv w \<Longrightarrow> rq_inv q w (ys @ a # zs) \<Longrightarrow> (\<And>b. b \<in> set ys \<Longrightarrow> \<not> aged w b) \<Longrightarrow> aged w a \<Longrightarrow>
    findAgedPacket q w = Inr (Some a, before_in ys None)"
  unfolding findAgedPacket_def
  using chain_bound [of w q "ys @ a # zs"]
  by (intro find_loop_found [where zs = zs]) (auto simp: rq_inv_def aged_def)

text \<open>\<^verbatim>\<open>purge\<close> leaves the packets that may still wait, in their order.\<close>

lemma rq_purge_loop_ok:
  assumes "pool_inv w" "rq_inv q w xs" "length xs \<le> n"
  shows "\<exists>q' w'. rq_purge_loop n q w = Inr (q', w') \<and> rq_inv q' w' (fresh w xs) \<and>
    relink (set xs) w w' \<and> same_settings q q' \<and> pool_inv w'"
  using assms
proof (induction n arbitrary: q w xs)
  case 0
  then have "findAgedPacket q w = Inr (None, before_in xs None)" using findAged_none [of w q xs] by auto
  with 0 show ?case by (simp add: fresh_def)
next
  case (Suc n)
  show ?case
  proof (cases "\<exists>a \<in> set xs. aged w a")
    case False
    then have "findAgedPacket q w = Inr (None, before_in xs None)"
      using findAged_none [OF Suc.prems(1,2)] by auto
    moreover have "fresh w xs = xs" using False by (simp add: fresh_def filter_id_conv)
    ultimately show ?thesis using Suc.prems by simp
  next
    case True
    then obtain ys a zs where xs: "xs = ys @ a # zs" "aged w a" "\<forall>b \<in> set ys. \<not> aged w b"
      using split_list_first_prop [of xs "aged w"] by auto
    have fa: "findAgedPacket q w = Inr (Some a, before_in ys None)"
      using findAged_found [OF Suc.prems(1)] Suc.prems(2) xs by blast
    obtain q1 w1 where u: "rq_unlink a (before_in ys None) q w = Inr (q1, w1)" "rq_inv q1 w1 (ys @ zs)"
      "relink (set ys) w w1" "same_settings q q1"
      using rq_unlink_ok Suc.prems(2) xs(1) by metis
    have rl: "relink (set xs) w w1" using u(3) xs(1) by (auto intro: relink_mono)
    have pl: "pool_inv w1"
      using rl Suc.prems by (auto intro: relink_pool simp: rq_inv_def owned_def)
    have fr: "fresh w1 (ys @ zs) = fresh w xs"
      using xs by (simp add: fresh_def relink_aged [OF rl])
    obtain q2 w2 where r: "rq_purge_loop n q1 w1 = Inr (q2, w2)" "rq_inv q2 w2 (fresh w xs)"
      "relink (set (ys @ zs)) w1 w2" "same_settings q1 q2" "pool_inv w2"
      using Suc.IH [OF pl u(2)] Suc.prems(3) xs(1) fr by auto
    have "relink (set xs) w w2" using rl r(3) xs(1) by (auto intro: relink_trans relink_mono)
    then show ?thesis
      using fa u r verifyQueue_ok [OF pl u(2)] by (auto intro: same_settings_trans)
  qed
qed

lemma rq_purge_ok:
  assumes "pool_inv w" "rq_inv q w xs"
  obtains q' w' where "rq_purge q w = Inr (q', w')" "rq_inv q' w' (fresh w xs)"
    "relink (set xs) w w'" "same_settings q q'" "pool_inv w'"
  using rq_purge_loop_ok [OF assms chain_bound [OF assms]] that by (auto simp: rq_purge_def)


subsection \<open>The operations on the list\<close>

definition first_for :: "world \<Rightarrow> nsaddr_t \<Rightarrow> paddr list \<Rightarrow> paddr option" where
  "first_for w dst xs = List.find (\<lambda>a. ih_daddr (pk w a) = dst) xs"

definition without :: "paddr option \<Rightarrow> paddr list \<Rightarrow> paddr list" where
  "without p xs = (case p of None \<Rightarrow> xs | Some a \<Rightarrow> remove1 a xs)"

text \<open>The oldest packet makes room when the buffer is full.\<close>

definition overflow :: "aodv_rqueue \<Rightarrow> paddr list \<Rightarrow> bool" where
  "overflow q xs \<longleftrightarrow> int (length xs) = rq_limit q"

lemma findPacketWithDst_ok:
  assumes "pool_inv w" "rq_inv q w xs"
  shows "\<exists>prev. findPacketWithDst dst q w = Inr (first_for w dst xs, prev) \<and>
    (\<forall>a. first_for w dst xs = Some a \<longrightarrow> (\<exists>ys zs. xs = ys @ a # zs \<and> a \<notin> set ys \<and> prev = before_in ys None))"
proof (cases "\<exists>a \<in> set xs. ih_daddr (pk w a) = dst")
  case False
  then have "first_for w dst xs = None" by (auto simp: first_for_def find_None_iff)
  moreover have "findPacketWithDst dst q w = Inr (None, before_in xs None)"
    unfolding findPacketWithDst_def
    by (rule find_loop_none [where xs = xs]) (use assms chain_bound [OF assms] False in \<open>auto simp: rq_inv_def\<close>)
  ultimately show ?thesis by simp
next
  case True
  then obtain ys a zs where xs: "xs = ys @ a # zs" "ih_daddr (pk w a) = dst" "\<forall>b \<in> set ys. ih_daddr (pk w b) \<noteq> dst"
    using split_list_first_prop [of xs "\<lambda>a. ih_daddr (pk w a) = dst"] by auto
  have "findPacketWithDst dst q w = Inr (Some a, before_in ys None)"
    unfolding findPacketWithDst_def
    by (rule find_loop_found [where zs = zs]) (use assms chain_bound [OF assms] xs in \<open>auto simp: rq_inv_def\<close>)
  moreover have "first_for w dst xs = Some a"
  proof -
    have "List.find (\<lambda>a. ih_daddr (pk w a) = dst) ys = None" using xs(3) by (auto simp: find_None_iff)
    then show ?thesis unfolding first_for_def xs(1) using xs(2) by (induction ys) (auto split: if_splits)
  qed
  moreover have "a \<notin> set ys" using xs by auto
  ultimately show ?thesis
    using xs(1) by (intro exI [of _ "before_in ys None"] conjI allI impI) (simp, metis option.inject)
qed

lemma rq_find_ok:
  assumes "pool_inv w" "rq_inv q w xs"
  shows "rq_find dst q w = Inr (\<exists>a \<in> set xs. ih_daddr (pk w a) = dst)"
proof -
  obtain prev where "findPacketWithDst dst q w = Inr (first_for w dst xs, prev)"
    using findPacketWithDst_ok [OF assms] by blast
  moreover have "first_for w dst xs \<noteq> None \<longleftrightarrow> (\<exists>a \<in> set xs. ih_daddr (pk w a) = dst)"
    by (auto simp: first_for_def find_None_iff)
  ultimately show ?thesis by (simp add: rq_find_def)
qed

lemma relink_first_for: "relink A w w' \<Longrightarrow> first_for w' = first_for w"
  by (simp add: first_for_def fun_eq_iff relink_fields)

lemma rq_deque_ok:
  assumes "pool_inv w" "rq_inv q w xs"
  obtains q' w' where "rq_deque dst q w = Inr (first_for w dst (fresh w xs), q', w')"
    "rq_inv q' w' (without (first_for w dst (fresh w xs)) (fresh w xs))"
    "relink (set xs) w w'" "same_settings q q'" "pool_inv w'"
proof -
  obtain q1 w1 where p: "rq_purge q w = Inr (q1, w1)" "rq_inv q1 w1 (fresh w xs)"
    "relink (set xs) w w1" "same_settings q q1" "pool_inv w1"
    by (rule rq_purge_ok [OF assms])
  have ff: "first_for w1 = first_for w" by (rule relink_first_for [OF p(3)])
  obtain prev where f: "findPacketWithDst dst q1 w1 = Inr (first_for w dst (fresh w xs), prev)"
    "\<forall>a. first_for w dst (fresh w xs) = Some a \<longrightarrow>
      (\<exists>ys zs. fresh w xs = ys @ a # zs \<and> a \<notin> set ys \<and> prev = before_in ys None)"
    using findPacketWithDst_ok [OF p(5,2), of dst] unfolding ff by blast
  show thesis
  proof (cases "first_for w dst (fresh w xs)")
    case None
    then show thesis using that [of q1 w1] p f by (simp add: rq_deque_def without_def)
  next
    case (Some a)
    then obtain ys zs where ys: "fresh w xs = ys @ a # zs" "a \<notin> set ys" "prev = before_in ys None"
      using f(2) by blast
    obtain q2 w2 where u: "rq_unlink a (before_in ys None) q1 w1 = Inr (q2, w2)" "rq_inv q2 w2 (ys @ zs)"
      "relink (set ys) w1 w2" "same_settings q1 q2"
      using p(2) unfolding ys(1) by (rule rq_unlink_ok)
    have sub: "set ys \<subseteq> set xs" using ys(1) unfolding fresh_def by (metis Un_upper1 filter_is_subset order_trans set_append)
    have rl: "relink (set xs) w w2" using p(3) relink_mono [OF u(3) sub] by (rule relink_trans)
    have pl: "pool_inv w2" by (rule relink_pool [OF rl assms(1)]) (use assms(2) in \<open>auto simp: rq_inv_def owned_def\<close>)
    have "without (Some a) (fresh w xs) = ys @ zs" using ys by (simp add: without_def remove1_append)
    then show thesis
      using that [of q2 w2] p f Some ys u rl pl verifyQueue_ok [OF pl u(2)]
      by (simp add: rq_deque_def same_settings_trans [OF p(4) u(4)])
  qed
qed


lemma make_room_ok:
  assumes "pool_inv w" "rq_inv q w xs" "0 < rq_limit q"
  obtains q' w' where "make_room q w = Inr (q', w')"
    "rq_inv q' w' (if overflow q xs then tl xs else xs)" "same_settings q q'" "pool_inv w'"
    "same_live (if overflow q xs then {hd xs} else {}) w w'"
    "trace w' = trace w @ (if overflow q xs
       then [Dropped (hd xs) (pk w (hd xs)) (if ch_ts (pk w (hd xs)) > sim_clock w then ''IFQ'' else ''TOUT'')] else [])"
proof (cases "overflow q xs")
  case False
  then show thesis using that [of q w] assms by (simp add: make_room_def overflow_def rq_inv_def)
next
  case True
  then obtain a ys where xs: "xs = a # ys" using assms(3) by (cases xs) (auto simp: overflow_def)
  obtain q' where q': "remove_head q w = Inr (Some a, q')" "rq_inv q' w ys" "same_settings q q'"
    using assms(2) unfolding xs by (rule remove_head_Cons)
  have oa: "owned w a" and na: "a \<notin> set ys" using assms(2) xs by (auto simp: rq_inv_def)
  define r where "r = (if ch_ts (pk w a) > sim_clock w then ''IFQ'' else ''TOUT'')"
  obtain w' where d: "Connector_drop (rq_drop_target q') a r w = Inr w'" "pool_inv w'" "same_live {a} w w'"
    "trace w' = trace w @ [Dropped a (pk w a) r]"
    by (rule drop_ok [OF assms(1) oa])
  have "rq_inv q' w' ys" by (rule rq_inv_same_live [OF q'(2) d(3)]) (use na in simp)
  moreover have "rq_len q = rq_limit q" using True assms(2) by (simp add: overflow_def rq_inv_def)
  ultimately show thesis
    using that [of q' w'] q' d True xs by (simp add: make_room_def r_def)
qed

lemma append_tail_ok:
  assumes "rq_inv q w xs" "a \<notin> set xs" "owned w a" "pk_next (pk w a) = None"
  obtains q' w' where "append_tail a q w = Inr (q', w')" "rq_inv q' w' (xs @ [a])"
    "relink (set xs) w w'" "same_settings q q'"
proof (cases xs rule: rev_cases)
  case Nil
  show thesis
    by (rule that [of "q\<lparr>rq_head := Some a, rq_tail := Some a, rq_len := rq_len q + 1\<rparr>" w])
      (use Nil assms in \<open>simp_all add: append_tail_def rq_inv_def same_settings_def\<close>)
next
  case (snoc ys t)
  define w' where "w' = pk_upd t (\<lambda>p. p\<lparr>pk_next := Some a\<rparr>) w"
  have rl: "relink (set xs) w w'" using snoc by (auto simp: w'_def intro: relink_upd)
  have hd: "rq_head q \<noteq> None" and tl: "rq_tail q = Some t" and ch: "chain (pk w) (rq_head q) (ys @ t # [])"
    and di: "distinct (ys @ t # [])"
    using assms(1) snoc by (cases ys; simp add: rq_inv_def)+
  have "chain (pk w') (rq_head q) (ys @ t # [a])"
    by (rule chain_relink_last [OF ch di, of "Some a"]) (use assms snoc in \<open>auto simp: w'_def\<close>)
  then have "rq_inv (q\<lparr>rq_tail := Some a, rq_len := rq_len q + 1\<rparr>) w' (xs @ [a])"
    using assms snoc di by (auto simp: rq_inv_def relink_owned [OF rl])
  then show thesis
    using that [of "q\<lparr>rq_tail := Some a, rq_len := rq_len q + 1\<rparr>" w'] hd tl rl
    by (simp add: append_tail_def w'_def same_settings_def)
qed

lemma rq_enque_ok:
  assumes "pool_inv w" "rq_inv q w xs" "0 < rq_limit q" "owned w a" "a \<notin> set xs"
  defines "ys \<equiv> fresh w xs"
  obtains q' w' where "rq_enque a q w = Inr (q', w')"
    "rq_inv q' w' ((if overflow q ys then tl ys else ys) @ [a])" "same_settings q q'" "pool_inv w'"
    "same_live (insert a (set xs)) w w'"
    "\<forall>b \<in> set (if overflow q ys then tl ys else ys). \<exists>n. pk w' b = (pk w b)\<lparr>pk_next := n\<rparr>"
    "pk w' a = (pk w a)\<lparr>pk_next := None, ch_ts := sim_clock w + rq_timeout q\<rparr>"
    "\<exists>ds. trace w' = trace w @ ds \<and> (\<forall>e \<in> set ds. \<exists>p r. e = Dropped (hd ys) p r) \<and>
      length ds = (if overflow q ys then 1 else 0)"
proof -
  obtain q1 w1 where p: "rq_purge q w = Inr (q1, w1)" "rq_inv q1 w1 ys"
    "relink (set xs) w w1" "same_settings q q1" "pool_inv w1"
    unfolding ys_def by (rule rq_purge_ok [OF assms(1,2)])
  have ay: "a \<notin> set ys" and sub: "set ys \<subseteq> set xs" using assms(5) by (auto simp: ys_def fresh_def)
  define w2 where "w2 = pk_upd a (\<lambda>p. p\<lparr>pk_next := None, ch_ts := sim_clock w1 + rq_timeout q1\<rparr>) w1"
  have ow1: "owned w1 a" using assms(4) relink_owned [OF p(3)] by simp
  have pl2: "pool_inv w2" unfolding w2_def by (rule pool_inv_upd [OF p(5)]) (use ow1 in \<open>simp_all add: owned_def\<close>)
  have i2: "rq_inv q1 w2 ys" by (rule rq_inv_cong [OF p(2)]) (use ay in \<open>auto simp: w2_def\<close>)
  have ow2: "owned w2 a" using ow1 by (simp add: owned_def w2_def)
  have ov: "overflow q1 ys = overflow q ys" using p(4) by (simp add: overflow_def same_settings_def)
  have l1: "0 < rq_limit q1" using assms(3) p(4) by (simp add: same_settings_def)
  obtain q3 w3 where m: "make_room q1 w2 = Inr (q3, w3)"
    "rq_inv q3 w3 (if overflow q ys then tl ys else ys)" "same_settings q1 q3" "pool_inv w3"
    "same_live (if overflow q ys then {hd ys} else {}) w2 w3"
    "trace w3 = trace w2 @ (if overflow q ys then [Dropped (hd ys) (pk w2 (hd ys))
       (if ch_ts (pk w2 (hd ys)) > sim_clock w2 then ''IFQ'' else ''TOUT'')] else [])"
    using make_room_ok [OF pl2 i2 l1, unfolded ov] by blast
  let ?zs = "if overflow q ys then tl ys else ys"
  have nz: "overflow q ys \<Longrightarrow> ys \<noteq> []" using assms(3) by (auto simp: overflow_def)
  have az: "a \<notin> set ?zs" using ay list.set_sel(2) [of ys] nz by auto
  have a3: "pk w3 a = pk w2 a"
    by (rule same_liveD [OF m(5)]) (use ow2 ay nz in \<open>auto simp: owned_def\<close>)
  have ow3: "owned w3 a" "pk_next (pk w3 a) = None" using ow2 a3 by (simp_all add: owned_def w2_def)
  obtain q4 w4 where t: "append_tail a q3 w3 = Inr (q4, w4)" "rq_inv q4 w4 (?zs @ [a])"
    "relink (set ?zs) w3 w4" "same_settings q3 q4"
    by (rule append_tail_ok [OF m(2) az ow3])
  have pl4: "pool_inv w4" by (rule relink_pool [OF t(3) m(4)]) (use m(2) in \<open>auto simp: rq_inv_def owned_def\<close>)
  have zy: "set ?zs \<subseteq> set ys" using nz by (auto intro: list.set_sel(2))
  have hz: "b \<noteq> hd ys" if "b \<in> set ?zs" "overflow q ys" for b
    using that p(2) nz by (cases ys) (auto simp: rq_inv_def)
  have s12: "same_live {a} w1 w2" by (simp add: same_live_def w2_def)
  have sl: "same_live (set xs \<union> {a} \<union> (if overflow q ys then {hd ys} else {}) \<union> set ?zs) w w4"
    by (rule same_live_trans [OF same_live_trans [OF same_live_trans [OF relink_same_live [OF p(3)] s12] m(5)]
        relink_same_live [OF t(3)]])
  have "same_live (insert a (set xs)) w w4"
    by (rule same_live_mono [OF sl]) (use sub zy nz in \<open>auto simp: subset_eq\<close>)
  moreover have "\<exists>n. pk w4 b = (pk w b)\<lparr>pk_next := n\<rparr>" if b: "b \<in> set ?zs" for b
  proof -
    obtain n1 where n1: "pk w1 b = (pk w b)\<lparr>pk_next := n1\<rparr>" using p(3) unfolding relink_def by blast
    have fl: "fflag (pk w2 b)" using i2 b zy by (auto simp: rq_inv_def owned_def)
    have "pk w3 b = pk w2 b" by (rule same_liveD [OF m(5) fl]) (use hz [OF b] in auto)
    moreover have "pk w2 b = pk w1 b" using b az by (auto simp: w2_def)
    moreover obtain n2 where "pk w4 b = (pk w3 b)\<lparr>pk_next := n2\<rparr>" using t(3) unfolding relink_def by blast
    ultimately show ?thesis using n1 by (intro exI [of _ n2]) simp
  qed
  moreover have "pk w4 a = (pk w a)\<lparr>pk_next := None, ch_ts := sim_clock w + rq_timeout q\<rparr>"
  proof -
    have "pk w4 a = pk w2 a" using relink_outside [OF t(3) az] a3 by simp
    moreover have "pk w1 a = pk w a" by (rule relink_outside [OF p(3) assms(5)])
    ultimately show ?thesis using p(3,4) by (simp add: w2_def relink_fields same_settings_def)
  qed
  moreover have "trace w4 = trace w @ (if overflow q ys then [Dropped (hd ys) (pk w2 (hd ys))
       (if ch_ts (pk w2 (hd ys)) > sim_clock w2 then ''IFQ'' else ''TOUT'')] else [])"
    using m(6) relink_fields(8) [OF t(3)] relink_fields(8) [OF p(3)] by (simp add: w2_def)
  moreover have "rq_enque a q w = Inr (q4, w4)"
    using p m t verifyQueue_ok [OF pl4 t(2)] by (simp add: rq_enque_def w2_def)
  moreover have "same_settings q q4"
    using p(4) m(3) t(4) by (simp add: same_settings_def)
  ultimately show thesis using that [of q4 w4] t(2) pl4 by auto
qed

section \<open>The buffer as an abstract queue\<close>

text \<open>What the send buffer promises: a queue of packets with their destinations and the times until which
  they may wait.  Every operation first forgets the packets whose time is over.\<close>

type_synonym buffer = "(paddr \<times> nsaddr_t \<times> double) list"

definition buffered :: "world \<Rightarrow> paddr list \<Rightarrow> buffer" where
  "buffered w xs = map (\<lambda>a. (a, ih_daddr (pk w a), ch_ts (pk w a))) xs"

definition spec_purge :: "double \<Rightarrow> buffer \<Rightarrow> buffer" where
  "spec_purge t b = filter (\<lambda>(a, d, x). t \<le> x) b"

definition spec_enque :: "int \<Rightarrow> double \<Rightarrow> double \<Rightarrow> paddr \<Rightarrow> nsaddr_t \<Rightarrow> buffer \<Rightarrow> buffer" where
  "spec_enque maxlen wait t a d b =
    (let b1 = spec_purge t b in (if int (length b1) = maxlen then tl b1 else b1) @ [(a, d, t + wait)])"

definition spec_deque :: "double \<Rightarrow> (nsaddr_t \<Rightarrow> bool) \<Rightarrow> buffer \<Rightarrow> paddr option \<times> buffer" where
  "spec_deque t P b =
    (let b1 = spec_purge t b in
     case List.find (\<lambda>(a, d, x). P d) b1 of None \<Rightarrow> (None, b1) | Some x \<Rightarrow> (Some (fst x), remove1 x b1))"

definition spec_find :: "nsaddr_t \<Rightarrow> buffer \<Rightarrow> bool" where
  "spec_find d b \<longleftrightarrow> (\<exists>(a, e, x) \<in> set b. e = d)"

lemma buffered_purge: "spec_purge (sim_clock w) (buffered w xs) = buffered w (fresh w xs)"
  by (simp add: spec_purge_def buffered_def fresh_def aged_def filter_map o_def not_less)

lemma buffered_length [simp]: "length (buffered w xs) = length xs"
  by (simp add: buffered_def)

lemma buffered_cong:
  "(\<And>a. a \<in> set xs \<Longrightarrow> \<exists>n. pk w' a = (pk w a)\<lparr>pk_next := n\<rparr>) \<Longrightarrow> buffered w' xs = buffered w xs"
  by (force simp: buffered_def)

lemma buffered_relink: "relink A w w' \<Longrightarrow> buffered w' xs = buffered w xs"
  by (auto simp: buffered_def relink_fields)

lemma find_buffered:
  "List.find (\<lambda>(a, d, x). P d) (buffered w xs) =
    map_option (\<lambda>a. (a, ih_daddr (pk w a), ch_ts (pk w a))) (List.find (\<lambda>a. P (ih_daddr (pk w a))) xs)"
  by (induction xs) (auto simp: buffered_def)

lemma remove_buffered:
  "remove1 (a, ih_daddr (pk w a), ch_ts (pk w a)) (buffered w xs) = buffered w (remove1 a xs)"
  by (induction xs) (auto simp: buffered_def)

lemma spec_deque_buffered:
  "spec_deque (sim_clock w) (\<lambda>d. d = dst) (buffered w xs) =
    (first_for w dst (fresh w xs), buffered w (without (first_for w dst (fresh w xs)) (fresh w xs)))"
  by (simp add: spec_deque_def Let_def buffered_purge find_buffered first_for_def without_def remove_buffered
      split: option.splits)

lemma spec_deque_head_buffered:
  "spec_deque (sim_clock w) (\<lambda>d. True) (buffered w xs) =
    (case fresh w xs of [] \<Rightarrow> (None, []) | a # ys \<Rightarrow> (Some a, buffered w ys))"
  by (cases "fresh w xs") (simp_all add: spec_deque_def Let_def buffered_purge, simp_all add: buffered_def)

lemma rq_deque_head_ok:
  assumes "pool_inv w" "rq_inv q w xs"
  shows "\<exists>q' w' ys p. rq_deque_head q w = Inr (p, q', w') \<and> pool_inv w' \<and> rq_inv q' w' ys \<and>
    (p, buffered w' ys) = spec_deque (sim_clock w) (\<lambda>d. True) (buffered w xs)"
proof -
  obtain q1 w1 where p: "rq_purge q w = Inr (q1, w1)" "rq_inv q1 w1 (fresh w xs)" "relink (set xs) w w1" "pool_inv w1"
    by (rule rq_purge_ok [OF assms])
  show ?thesis
  proof (cases "fresh w xs")
    case Nil
    then obtain q2 where q2: "remove_head q1 w1 = Inr (None, q2)" "rq_inv q2 w1 []" using remove_head_empty p(2) by auto
    then have "rq_deque_head q w = Inr (None, q2, w1)" using p verifyQueue_ok [OF p(4) q2(2)] by (simp add: rq_deque_head_def)
    moreover have "(None, buffered w1 []) = spec_deque (sim_clock w) (\<lambda>d. True) (buffered w xs)"
      by (simp add: spec_deque_head_buffered Nil) (simp add: buffered_def)
    ultimately show ?thesis using q2(2) p(4) by blast
  next
    case (Cons a ys)
    obtain q2 where q2: "remove_head q1 w1 = Inr (Some a, q2)" "rq_inv q2 w1 ys"
      using p(2) unfolding Cons by (rule remove_head_Cons)
    then have "rq_deque_head q w = Inr (Some a, q2, w1)" using p verifyQueue_ok [OF p(4) q2(2)] by (simp add: rq_deque_head_def)
    then show ?thesis using q2 p(4) Cons buffered_relink [OF p(3), of ys] by (auto simp: spec_deque_head_buffered)
  qed
qed

lemma rq_enque_refines:
  assumes "pool_inv w" "rq_inv q w xs" "0 < rq_limit q" "owned w a" "a \<notin> set xs"
  shows "\<exists>q' w' ys. rq_enque a q w = Inr (q', w') \<and> pool_inv w' \<and> rq_inv q' w' ys \<and>
      buffered w' ys = spec_enque (rq_limit q) (rq_timeout q) (sim_clock w) a (ih_daddr (pk w a)) (buffered w xs)"
proof -
  let ?ys = "fresh w xs"
  let ?zs = "if overflow q ?ys then tl ?ys else ?ys"
  obtain q' w' where e: "rq_enque a q w = Inr (q', w')" "rq_inv q' w' (?zs @ [a])" "pool_inv w'"
    "\<forall>b \<in> set ?zs. \<exists>n. pk w' b = (pk w b)\<lparr>pk_next := n\<rparr>"
    "pk w' a = (pk w a)\<lparr>pk_next := None, ch_ts := sim_clock w + rq_timeout q\<rparr>"
    by (rule rq_enque_ok [OF assms]) blast
  have "buffered w' ?zs = buffered w ?zs" by (rule buffered_cong) (use e(4) in blast)
  then have "buffered w' (?zs @ [a]) = buffered w ?zs @ [(a, ih_daddr (pk w a), sim_clock w + rq_timeout q)]"
    using e(5) by (simp add: buffered_def)
  also have "buffered w ?zs = (if overflow q ?ys then tl (buffered w ?ys) else buffered w ?ys)"
    by (simp add: buffered_def map_tl)
  finally have "buffered w' (?zs @ [a]) =
      spec_enque (rq_limit q) (rq_timeout q) (sim_clock w) a (ih_daddr (pk w a)) (buffered w xs)"
    by (simp add: spec_enque_def Let_def buffered_purge overflow_def)
  with e(1-3) show ?thesis by blast
qed

lemma rq_deque_refines:
  assumes "pool_inv w" "rq_inv q w xs"
  shows "\<exists>q' w' ys p. rq_deque dst q w = Inr (p, q', w') \<and> pool_inv w' \<and> rq_inv q' w' ys \<and>
      (p, buffered w' ys) = spec_deque (sim_clock w) (\<lambda>d. d = dst) (buffered w xs)"
proof -
  let ?ys = "fresh w xs"
  obtain q1 w1 where d: "rq_deque dst q w = Inr (first_for w dst ?ys, q1, w1)"
    "rq_inv q1 w1 (without (first_for w dst ?ys) ?ys)" "relink (set xs) w w1" "pool_inv w1"
    by (rule rq_deque_ok [OF assms(1,2)])
  then show ?thesis using buffered_relink [OF d(3)] by (auto simp: spec_deque_buffered)
qed

text \<open>C7. The linked send buffer implements the abstract queue: buffering a packet, taking the first packet,
  taking the first packet for a destination and looking for one never abort, keep the buffer well formed,
  and do to the list of waiting packets what the abstract operations do: packets that have waited too
  long are forgotten, a full buffer gives up its oldest packet, and packets for one destination leave in
  the order they came.\<close>

theorem rqueue_refines_queue:
  assumes "pool_inv w" "rq_inv q w xs" "0 < rq_limit q" "owned w a" "a \<notin> set xs"
  shows "(\<exists>q' w' ys. rq_enque a q w = Inr (q', w') \<and> pool_inv w' \<and> rq_inv q' w' ys \<and>
      buffered w' ys = spec_enque (rq_limit q) (rq_timeout q) (sim_clock w) a (ih_daddr (pk w a)) (buffered w xs)) \<and>
    (\<exists>q' w' ys p. rq_deque dst q w = Inr (p, q', w') \<and> pool_inv w' \<and> rq_inv q' w' ys \<and>
      (p, buffered w' ys) = spec_deque (sim_clock w) (\<lambda>d. d = dst) (buffered w xs)) \<and>
    (\<exists>q' w' ys p. rq_deque_head q w = Inr (p, q', w') \<and> pool_inv w' \<and> rq_inv q' w' ys \<and>
      (p, buffered w' ys) = spec_deque (sim_clock w) (\<lambda>d. True) (buffered w xs)) \<and>
    rq_find dst q w = Inr (spec_find dst (buffered w xs))"
proof (intro conjI)
  show "rq_find dst q w = Inr (spec_find dst (buffered w xs))"
    using rq_find_ok [OF assms(1,2), of dst] by (auto simp: spec_find_def buffered_def)
qed (rule rq_enque_refines [OF assms] rq_deque_refines [OF assms(1,2)] rq_deque_head_ok [OF assms(1,2)])+

text \<open>Two packets in a buffer for the examples.\<close>

definition demo_pk :: "paddr \<Rightarrow> Packet" where
  "demo_pk a = \<lparr>pk_next = (if a = 0 then Some 1 else None), fflag = a < 3, ref_count = 0, queued = False, ch_ptype = PT_CBR,
     ch_size = 0, ch_error = 0, ch_ts = (if a = 0 then 12 else 40), ch_iface = 0, ch_direction = DOWN, ch_prev_hop = 0,
     ch_next_hop = 0, ch_last_hop = 0, ch_addr_type = NS_AF_NONE, ch_xmit_failure = False, ch_num_forwards = 0,
     ih_saddr = 5, ih_sport = 0, ih_daddr = 9, ih_dport = 0, ih_ttl = 30, ah = AODVTYPE_INVALID 0\<rparr>"

definition demo_buffer_world :: world where
  "demo_buffer_world = \<lparr>pk = demo_pk, free_head = None, pk_brk = 3, sim_clock = 20, trace = []\<rparr>"

definition demo_rqueue :: aodv_rqueue where
  "demo_rqueue = (new_rqueue False)\<lparr>rq_head := Some 0, rq_tail := Some 1, rq_len := 2\<rparr>"

lemma demo_buffer_inv:
  "pool_inv demo_buffer_world" "rq_inv demo_rqueue demo_buffer_world [0, 1]" "0 < rq_limit demo_rqueue"
  "owned demo_buffer_world 2"
  by (rule pool_invI [of _ "[]"])
    (simp_all add: demo_buffer_world_def demo_pk_def rq_inv_def demo_rqueue_def new_rqueue_def owned_def AODV_RTQ_MAX_LEN_def)

theorem rqueue_refines_queue_witness:
  "\<exists>q' w' ys. rq_enque 2 demo_rqueue demo_buffer_world = Inr (q', w') \<and> rq_inv q' w' ys \<and>
    buffered w' ys = [(1, 9, 40), (2, 9, 50)]"
proof -
  have "spec_enque (rq_limit demo_rqueue) (rq_timeout demo_rqueue) (sim_clock demo_buffer_world) 2
      (ih_daddr (pk demo_buffer_world 2)) (buffered demo_buffer_world [0, 1]) = [(1, 9, 40), (2, 9, 50)]"
    by (simp add: spec_enque_def spec_purge_def buffered_def demo_rqueue_def new_rqueue_def demo_buffer_world_def demo_pk_def
        AODV_RTQ_MAX_LEN_def AODV_RTQ_TIMEOUT_def)
  moreover have "2 \<notin> set [0, 1 :: paddr]" by simp
  ultimately show ?thesis using rqueue_refines_queue [OF demo_buffer_inv, of 9] by metis
qed

text \<open>A packet that has waited too long is lost: the next operation unlinks it, but it is neither dropped
  nor released; it stays in use and is in no queue.\<close>

theorem rqueue_purge_leaks:
  assumes "pool_inv w" "rq_inv q w xs" "a \<in> set xs" "ch_ts (pk w a) < sim_clock w" "rq_deque dst q w = Inr (p, q', w')"
  shows "p \<noteq> Some a \<and> fflag (pk w' a) \<and> trace w' = trace w \<and> (\<exists>ys. rq_inv q' w' ys \<and> a \<notin> set ys)"
proof -
  obtain q1 w1 where d: "rq_deque dst q w = Inr (first_for w dst (fresh w xs), q1, w1)"
    "rq_inv q1 w1 (without (first_for w dst (fresh w xs)) (fresh w xs))" "relink (set xs) w w1"
    by (rule rq_deque_ok [OF assms(1,2)])
  have eq: "p = first_for w dst (fresh w xs)" "q' = q1" "w' = w1" using d(1) assms(5) by simp_all
  have na: "a \<notin> set (fresh w xs)" using assms(4) by (simp add: fresh_def aged_def)
  then have "p \<noteq> Some a" unfolding eq by (auto simp: first_for_def find_Some_iff)
  moreover have "a \<notin> set (without (first_for w dst (fresh w xs)) (fresh w xs))"
    using na by (auto simp: without_def split: option.splits dest: notin_set_remove1)
  moreover have "fflag (pk w' a)" using assms(2,3) d(3) eq by (simp add: relink_fields(1) rq_inv_def owned_def)
  ultimately show ?thesis using d(2,3) eq by (auto simp: relink_fields(8))
qed

theorem rqueue_purge_leaks_witness:
  "\<exists>q' w'. rq_deque 9 demo_rqueue demo_buffer_world = Inr (Some 1, q', w') \<and> fflag (pk w' 0) \<and> trace w' = []"
proof -
  obtain q' w' p where e: "rq_deque 9 demo_rqueue demo_buffer_world = Inr (p, q', w')"
    "p = first_for demo_buffer_world 9 (fresh demo_buffer_world [0, 1])"
    by (rule rq_deque_ok [OF demo_buffer_inv(1,2), of 9]) simp
  moreover have "p = Some 1"
    unfolding e(2) by (simp add: first_for_def fresh_def aged_def demo_buffer_world_def demo_pk_def)
  moreover have "fflag (pk w' 0) \<and> trace w' = trace demo_buffer_world"
    using rqueue_purge_leaks [OF demo_buffer_inv(1,2) _ _ e(1), of 0] by (simp add: demo_buffer_world_def demo_pk_def)
  ultimately show ?thesis by (simp add: demo_buffer_world_def)
qed

end
