(* ===== verification/Aodv_Agent.thy ===== *)
theory Aodv_Agent
  imports Aodv_Table Aodv_Queue
begin

text \<open>
  The AODV routing agent of the simulator (aodv/aodv.h, aodv.cc): its state, the handlers of
  packets, timers and link failures, and the packets they send.

  A handler takes the agent and gives the agent afterwards, or the error that ends the simulator:
  a failed assertion, a null pointer, a write behind the error arrays, a packet scheduled twice.
  What it does to the rest of the simulator is appended to the trace of the \<open>net\<close>.  An entry of the
  routing table is named by its destination (theory \<open>Aodv_Table\<close>).  The options compiled in are
  those of aodv.h: local repair, link layer detection.  The functions of aodv_logs.cc return at
  once (\<^verbatim>\<open>verbose\<close> is 0) and have no counterpart.
\<close>

section \<open>Constants and state\<close>

definition MY_ROUTE_TIMEOUT :: u32 where "MY_ROUTE_TIMEOUT = 10"
definition ACTIVE_ROUTE_TIMEOUT :: double where "ACTIVE_ROUTE_TIMEOUT = 10"
definition REV_ROUTE_LIFE :: double where "REV_ROUTE_LIFE = 6"
definition BCAST_ID_SAVE :: double where "BCAST_ID_SAVE = 6"
definition RREQ_RETRIES :: byte where "RREQ_RETRIES = 3"
definition MAX_RREQ_TIMEOUT :: double where "MAX_RREQ_TIMEOUT = 10"
definition TTL_START :: int where "TTL_START = 5"
definition TTL_THRESHOLD :: int where "TTL_THRESHOLD = 7"
definition TTL_INCREMENT :: int where "TTL_INCREMENT = 2"
definition NODE_TRAVERSAL_TIME :: double where "NODE_TRAVERSAL_TIME = 3 / 100"
definition NETWORK_DIAMETER :: int where "NETWORK_DIAMETER = 30"
definition DELAY :: double where "DELAY = 1"
definition NO_DELAY :: double where "NO_DELAY = - 1"
definition ARP_DELAY :: double where "ARP_DELAY = 1 / 100"
definition HELLO_INTERVAL :: double where "HELLO_INTERVAL = 1"
definition ALLOWED_HELLO_LOSS :: double where "ALLOWED_HELLO_LOSS = 3"
definition MaxHelloInterval :: double where "MaxHelloInterval = 5 / 4 * HELLO_INTERVAL"
definition MinHelloInterval :: double where "MinHelloInterval = 3 / 4 * HELLO_INTERVAL"
definition FREQUENCY :: double where "FREQUENCY = 1 / 2"

record BroadcastID =
  bi_src :: nsaddr_t
  bi_id :: u32
  bi_expire :: double

text \<open>The agent.  \<open>ifqueue\<close> is the list of the packets in the interface queue, \<open>dmux\<close>, \<open>target\<close> and
  \<open>ag_drop\<close> say that the pointers \<^verbatim>\<open>dmux_\<close>, \<^verbatim>\<open>target_\<close> and \<^verbatim>\<open>drop_\<close> are set, \<open>armed\<close> which timers wait
  in the event queue.\<close>

record AODV =
  index :: nsaddr_t
  seqno :: u32
  bid :: int
  rtable :: aodv_rtable
  nbhead :: "AODV_Neighbor list"
  bihead :: "BroadcastID list"
  rqueue :: aodv_rqueue
  ifqueue :: "paddr list option"
  dmux :: bool
  target :: bool
  ag_drop :: bool
  here_addr :: nsaddr_t
  armed :: "timer_id set"
  net :: world

definition new_AODV :: "nsaddr_t \<Rightarrow> nsaddr_t \<Rightarrow> world \<Rightarrow> AODV" where
  "new_AODV i here w = \<lparr>index = i, seqno = 2, bid = 1, rtable = [], nbhead = [], bihead = [],
     rqueue = new_rqueue False, ifqueue = None, dmux = False, target = False, ag_drop = False,
     here_addr = here, armed = {}, net = w\<rparr>"

section \<open>Calls of the rest of the simulator\<close>

definition with_net :: "(world \<Rightarrow> world result) \<Rightarrow> AODV \<Rightarrow> AODV result" where
  "with_net f s = bindE (f (net s)) (\<lambda>w. Inr (s\<lparr>net := w\<rparr>))"

abbreviation pkt :: "AODV \<Rightarrow> paddr \<Rightarrow> Packet" where
  "pkt s a \<equiv> pk (net s) a"

abbreviation CURRENT_TIME :: "AODV \<Rightarrow> double" where
  "CURRENT_TIME s \<equiv> sim_clock (net s)"

definition set_pkt :: "paddr \<Rightarrow> (Packet \<Rightarrow> Packet) \<Rightarrow> AODV \<Rightarrow> AODV" where
  "set_pkt a f s = s\<lparr>net := pk_upd a f (net s)\<rparr>"

definition set_rt :: "nsaddr_t \<Rightarrow> (aodv_rt_entry \<Rightarrow> aodv_rt_entry) \<Rightarrow> AODV \<Rightarrow> AODV" where
  "set_rt d f s = s\<lparr>rtable := rt_write d f (rtable s)\<rparr>"

definition agent_drop :: "paddr \<Rightarrow> string \<Rightarrow> AODV \<Rightarrow> AODV result" where
  "agent_drop a reason s = with_net (Connector_drop (ag_drop s) a reason) s"

text \<open>\<^verbatim>\<open>Scheduler::instance().schedule(target_, p, base + spread * Random::uniform())\<close>\<close>

definition schedule_target :: "paddr \<Rightarrow> double \<Rightarrow> double \<Rightarrow> AODV \<Rightarrow> AODV result" where
  "schedule_target a base spread s =
    bindE (assertE ''Scheduler: attempt to schedule an event with a NULL handler.'' (target s)) (\<lambda>_.
    with_net (\<lambda>w. enter_queue a (log_action (Sent a (pk w a) base spread) w)) s)"

definition schedule_timer :: "timer_id \<Rightarrow> double \<Rightarrow> double \<Rightarrow> AODV \<Rightarrow> AODV result" where
  "schedule_timer t base spread s =
    bindE (assertE ''Scheduler: Event UID not valid!'' (t \<notin> armed s)) (\<lambda>_.
    Inr (s\<lparr>armed := insert t (armed s), net := log_action (TimerSet t base spread) (net s)\<rparr>))"

text \<open>\<^verbatim>\<open>rqueue.enque(p)\<close>, \<^verbatim>\<open>rqueue.deque(dst)\<close> and \<^verbatim>\<open>rqueue.find(dst)\<close>\<close>

definition buffer_packet :: "paddr \<Rightarrow> AODV \<Rightarrow> AODV result" where
  "buffer_packet a s =
    bindE (rq_enque a (rqueue s) (net s)) (\<lambda>(q, w). Inr (s\<lparr>rqueue := q, net := w\<rparr>))"

definition take_packet :: "nsaddr_t \<Rightarrow> AODV \<Rightarrow> (paddr option \<times> AODV) result" where
  "take_packet d s =
    bindE (rq_deque d (rqueue s) (net s)) (\<lambda>(p, q, w). Inr (p, s\<lparr>rqueue := q, net := w\<rparr>))"

text \<open>The loop \<^verbatim>\<open>while ((p = rqueue.deque(dst))) ...\<close>; the body also updates a delay.\<close>

fun drain ::
  "nat \<Rightarrow> nsaddr_t \<Rightarrow> (paddr \<Rightarrow> double \<Rightarrow> AODV \<Rightarrow> (double \<times> AODV) result) \<Rightarrow> double \<Rightarrow> AODV
    \<Rightarrow> (double \<times> AODV) result" where
  "drain n d body delay s =
    bindE (take_packet d s) (\<lambda>(p, s1).
    case p of
      None \<Rightarrow> Inr (delay, s1)
    | Some a \<Rightarrow> (case n of 0 \<Rightarrow> Inl OutOfFuel
      | Suc m \<Rightarrow> bindE (body a delay s1) (\<lambda>(delay1, s2). drain m d body delay1 s2)))"

definition drain_all ::
  "nsaddr_t \<Rightarrow> (paddr \<Rightarrow> double \<Rightarrow> AODV \<Rightarrow> (double \<times> AODV) result) \<Rightarrow> double \<Rightarrow> AODV
    \<Rightarrow> (double \<times> AODV) result" where
  "drain_all d body delay s = drain (pk_brk (net s)) d body delay s"

definition drop_buffered :: "nsaddr_t \<Rightarrow> AODV \<Rightarrow> AODV result" where
  "drop_buffered d s =
    bindE (drain_all d (\<lambda>a delay s. bindE (agent_drop a ''NRTE'' s) (\<lambda>s1. Inr (delay, s1))) 0 s) (\<lambda>(_, s1). Inr s1)"

text \<open>\<^verbatim>\<open>PriQueue::filter(id)\<close> takes the first packet for the next hop out of the interface queue.\<close>

fun PriQueue_filter :: "nsaddr_t \<Rightarrow> (paddr \<Rightarrow> Packet) \<Rightarrow> paddr list \<Rightarrow> paddr option \<times> paddr list" where
  "PriQueue_filter i m [] = (None, [])"
| "PriQueue_filter i m (a # as) =
    (if ch_next_hop (m a) = i then (Some a, as)
     else (case PriQueue_filter i m as of (p, bs) \<Rightarrow> (p, a # bs)))"

fun drop_filtered_loop :: "nat \<Rightarrow> nsaddr_t \<Rightarrow> AODV \<Rightarrow> AODV result" where
  "drop_filtered_loop n i s =
    bindE (derefE (ifqueue s)) (\<lambda>qs.
    case PriQueue_filter i (pk (net s)) qs of (p, qs1) \<Rightarrow>
    (case p of
      None \<Rightarrow> Inr s
    | Some a \<Rightarrow> (case n of 0 \<Rightarrow> Inl OutOfFuel
      | Suc m \<Rightarrow> bindE (agent_drop a ''CBK'' (s\<lparr>ifqueue := Some qs1\<rparr>)) (drop_filtered_loop m i))))"

definition drop_filtered :: "nsaddr_t \<Rightarrow> AODV \<Rightarrow> AODV result" where
  "drop_filtered i s = drop_filtered_loop (case ifqueue s of None \<Rightarrow> 0 | Some qs \<Rightarrow> length qs) i s"

section \<open>Broadcast identifiers and history\<close>

definition id_insert :: "nsaddr_t \<Rightarrow> u32 \<Rightarrow> AODV \<Rightarrow> AODV" where
  "id_insert i b s = s\<lparr>bihead := \<lparr>bi_src = i, bi_id = b, bi_expire = CURRENT_TIME s + BCAST_ID_SAVE\<rparr> # bihead s\<rparr>"

fun id_find :: "nsaddr_t \<Rightarrow> u32 \<Rightarrow> BroadcastID list \<Rightarrow> bool" where
  "id_find i b [] = False"
| "id_find i b (x # xs) = (if bi_src x = i \<and> bi_id x = b then True else id_find i b xs)"

definition id_lookup :: "nsaddr_t \<Rightarrow> u32 \<Rightarrow> AODV \<Rightarrow> bool" where
  "id_lookup i b s = id_find i b (bihead s)"

fun id_purge_list :: "double \<Rightarrow> BroadcastID list \<Rightarrow> BroadcastID list" where
  "id_purge_list t [] = []"
| "id_purge_list t (x # xs) = (if bi_expire x \<le> t then id_purge_list t xs else x # id_purge_list t xs)"

definition id_purge :: "AODV \<Rightarrow> AODV" where
  "id_purge s = s\<lparr>bihead := id_purge_list (CURRENT_TIME s) (bihead s)\<rparr>"

fun quot_add :: "quotient \<Rightarrow> quotient \<Rightarrow> quotient" where
  "quot_add (Finite x) (Finite y) = Finite (x + y)"
| "quot_add NaN y = NaN"
| "quot_add x NaN = NaN"
| "quot_add PosInf NegInf = NaN"
| "quot_add NegInf PosInf = NaN"
| "quot_add PosInf y = PosInf"
| "quot_add NegInf y = NegInf"
| "quot_add x PosInf = PosInf"
| "quot_add x NegInf = NegInf"

fun quot_div :: "quotient \<Rightarrow> nat \<Rightarrow> quotient" where
  "quot_div (Finite x) n = Finite (x / of_nat n)"
| "quot_div q n = q"

fun latency_loop :: "quotient list \<Rightarrow> nat \<Rightarrow> quotient \<Rightarrow> nat \<times> quotient" where
  "latency_loop [] n acc = (n, acc)"
| "latency_loop (x # xs) n acc =
    (if quot_positive x then latency_loop xs (Suc n) (quot_add acc x) else latency_loop xs n acc)"

definition PerHopTime :: "aodv_rt_entry option \<Rightarrow> quotient" where
  "PerHopTime rt = (case rt of
     None \<Rightarrow> Finite NODE_TRAVERSAL_TIME
   | Some e \<Rightarrow> (case latency_loop (rt_disc_latency e) 0 (Finite 0) of (n, acc) \<Rightarrow>
       if n > 0 then quot_div acc n else Finite NODE_TRAVERSAL_TIME))"

section \<open>Routes\<close>

definition rt_update :: "u32 \<Rightarrow> u16 \<Rightarrow> nsaddr_t \<Rightarrow> double \<Rightarrow> aodv_rt_entry \<Rightarrow> aodv_rt_entry" where
  "rt_update seqnum metric nexthop expire_time rt =
    rt\<lparr>rt_seqno := seqnum, rt_hops := metric, rt_flags := RTF_UP, rt_nexthop := nexthop,
       rt_expire := expire_time\<rparr>"

definition rt_down :: "aodv_rt_entry \<Rightarrow> aodv_rt_entry" where
  "rt_down rt =
    (if rt_flags rt = RTF_DOWN then rt
     else rt\<lparr>rt_last_hop_count := uint (rt_hops rt), rt_hops := INFINITY2, rt_flags := RTF_DOWN,
       rt_nexthop := 0, rt_expire := 0\<rparr>)"

section \<open>Packet transmission\<close>

text \<open>\<^verbatim>\<open>forward\<close>: \<open>rt\<close> is the route, none for a broadcast.  The guard of the second branch groups as
  the language groups it: a packet for this node is delivered whatever its type and direction.\<close>

definition forward_deliver :: "paddr \<Rightarrow> AODV \<Rightarrow> bool" where
  "forward_deliver a s \<longleftrightarrow>
    (ch_ptype (pkt s a) \<noteq> PT_AODV \<and> ch_direction (pkt s a) = UP \<and> ih_daddr (pkt s a) = IP_BROADCAST)
      \<or> ih_daddr (pkt s a) = here_addr s"

definition forward_header :: "nsaddr_t option \<Rightarrow> paddr \<Rightarrow> AODV \<Rightarrow> AODV result" where
  "forward_header rt a s = (case rt of
     Some d \<Rightarrow>
       bindE (derefE (rt_lookup d (rtable s))) (\<lambda>e.
       bindE (assertE ''rt->rt_flags == RTF_UP'' (rt_flags e = RTF_UP)) (\<lambda>_.
       Inr (set_pkt a (\<lambda>p. p\<lparr>ch_next_hop := rt_nexthop e, ch_addr_type := NS_AF_INET, ch_direction := DOWN\<rparr>)
         (set_rt d (\<lambda>e. e\<lparr>rt_expire := CURRENT_TIME s + ACTIVE_ROUTE_TIMEOUT\<rparr>) s))))
   | None \<Rightarrow>
       bindE (assertE ''ih->daddr() == IP_BROADCAST'' (ih_daddr (pkt s a) = IP_BROADCAST)) (\<lambda>_.
       Inr (set_pkt a (\<lambda>p. p\<lparr>ch_addr_type := NS_AF_NONE, ch_direction := DOWN\<rparr>) s)))"

definition forward :: "nsaddr_t option \<Rightarrow> paddr \<Rightarrow> double \<Rightarrow> AODV \<Rightarrow> AODV result" where
  "forward rt a delay s =
    (if ih_ttl (pkt s a) = 0 then agent_drop a ''TTL'' s
     else if forward_deliver a s
     then bindE (derefE (if dmux s then Some () else None)) (\<lambda>_.
       Inr (s\<lparr>net := log_action (Delivered a (pkt s a)) (net s)\<rparr>))
     else
       bindE (forward_header rt a s) (\<lambda>s1.
       if ih_daddr (pkt s1 a) = IP_BROADCAST
       then bindE (assertE ''rt == 0'' (rt = None)) (\<lambda>_. schedule_target a 0 (1 / 100) s1)
       else if delay > 0 then schedule_target a delay 0 s1 else schedule_target a 0 0 s1))"

text \<open>The time-out of a request: \<open>2 * ttl\<close> times the time per hop, times the number of network-wide
  searches, from now, at most \<^verbatim>\<open>MAX_RREQ_TIMEOUT\<close> from now.\<close>

definition request_timeout :: "int \<Rightarrow> byte \<Rightarrow> quotient \<Rightarrow> double \<Rightarrow> double" where
  "request_timeout ttl cnt per_hop t = (case per_hop of
     Finite x \<Rightarrow>
       (let y = 2 * of_int ttl * x;
            z = (if cnt > 0 then y * of_nat (unat cnt) else y) + t
        in if z > t + MAX_RREQ_TIMEOUT then t + MAX_RREQ_TIMEOUT else z)
   | _ \<Rightarrow> t + MAX_RREQ_TIMEOUT)"

text \<open>The entry after the time to live and the time-out of a request are chosen, and that time to
  live.\<close>

definition request_entry :: "double \<Rightarrow> aodv_rt_entry \<Rightarrow> int \<times> aodv_rt_entry" where
  "request_entry t rt =
    (let last = max (rt_req_last_ttl rt) (rt_last_hop_count rt);
         (ttl, cnt) =
           (if last = 0 then (TTL_START, rt_req_cnt rt)
            else if last < TTL_THRESHOLD then (last + TTL_INCREMENT, rt_req_cnt rt)
            else (NETWORK_DIAMETER, rt_req_cnt rt + 1))
     in (ttl, rt\<lparr>rt_req_cnt := cnt, rt_req_last_ttl := ttl,
          rt_req_timeout := request_timeout ttl cnt (PerHopTime (Some rt)) t, rt_expire := 0\<rparr>))"

definition sendRequest :: "nsaddr_t \<Rightarrow> AODV \<Rightarrow> AODV result" where
  "sendRequest dst s =
    bindE (Packet_alloc (net s)) (\<lambda>(a, w).
    let s = s\<lparr>net := w\<rparr>; t = sim_clock w in
    bindE (case rt_lookup dst (rtable s) of None \<Rightarrow> Inl (AssertFailed ''rt'') | Some rt \<Rightarrow> Inr rt) (\<lambda>rt.
    if rt_flags rt = RTF_UP
    then bindE (assertE ''rt->rt_hops != INFINITY2'' (rt_hops rt \<noteq> INFINITY2)) (\<lambda>_. with_net (Packet_free a) s)
    else if rt_req_timeout rt > t then with_net (Packet_free a) s
    else if rt_req_cnt rt > RREQ_RETRIES
    then bindE (drop_buffered dst
           (set_rt dst (\<lambda>rt. rt\<lparr>rt_req_timeout := t + MAX_RREQ_TIMEOUT, rt_req_cnt := 0\<rparr>) s)) (with_net (Packet_free a))
    else
      (case request_entry t rt of (ttl, rt1) \<Rightarrow>
       let s1 = (set_rt dst (\<lambda>_. rt1) s)\<lparr>bid := bid s + 1, seqno := seqno s + 2\<rparr> in
       bindE (assertE ''(seqno%2) == 0'' (even (unat (seqno s1)))) (\<lambda>_.
       schedule_target a 0 0
         (set_pkt a (\<lambda>p. p\<lparr>ch_ptype := PT_AODV, ch_size := IP_HDR_LEN + request_size, ch_iface := - 2,
            ch_error := 0, ch_addr_type := NS_AF_NONE, ch_prev_hop := index s, ih_saddr := index s,
            ih_daddr := IP_BROADCAST, ih_sport := RT_PORT, ih_dport := RT_PORT, ih_ttl := ttl,
            ah := AODVTYPE_RREQ \<lparr>rq_hop_count = 1, rq_bcast_id = word_of_int (bid s), rq_dst = dst,
              rq_dst_seqno = rt_seqno rt, rq_src = index s, rq_src_seqno = seqno s1, rq_timestamp = t\<rparr>\<rparr>) s1)))))"

definition sendReply :: "nsaddr_t \<Rightarrow> u32 \<Rightarrow> nsaddr_t \<Rightarrow> u32 \<Rightarrow> u32 \<Rightarrow> double \<Rightarrow> AODV \<Rightarrow> AODV result" where
  "sendReply ipdst hop_count rpdst rpseq lifetime timestamp s =
    bindE (Packet_alloc (net s)) (\<lambda>(a, w).
    let s = s\<lparr>net := w\<rparr> in
    bindE (case rt_lookup ipdst (rtable s) of None \<Rightarrow> Inl (AssertFailed ''rt'') | Some rt \<Rightarrow> Inr rt) (\<lambda>rt.
    schedule_target a 0 0
      (set_pkt a (\<lambda>p. p\<lparr>ch_ptype := PT_AODV, ch_size := IP_HDR_LEN + reply_size, ch_iface := - 2,
         ch_error := 0, ch_addr_type := NS_AF_INET, ch_next_hop := rt_nexthop rt, ch_prev_hop := index s,
         ch_direction := DOWN, ih_saddr := index s, ih_daddr := ipdst, ih_sport := RT_PORT,
         ih_dport := RT_PORT, ih_ttl := NETWORK_DIAMETER,
         ah := AODVTYPE_RREP \<lparr>rp_hop_count = ucast hop_count, rp_dst = rpdst, rp_dst_seqno = rpseq,
           rp_src = index s, rp_lifetime = of_nat (unat lifetime), rp_timestamp = timestamp\<rparr>\<rparr>) s)))"

text \<open>\<open>re\<close> is the error header that the caller has filled.\<close>

definition sendError :: "paddr \<Rightarrow> hdr_aodv_error \<Rightarrow> bool \<Rightarrow> AODV \<Rightarrow> AODV result" where
  "sendError a re jitter s =
    schedule_target a 0 (if jitter then 1 / 100 else 0)
      (set_pkt a (\<lambda>p. p\<lparr>ch_ptype := PT_AODV, ch_size := IP_HDR_LEN + error_size re, ch_iface := - 2,
         ch_error := 0, ch_addr_type := NS_AF_NONE, ch_next_hop := 0, ch_prev_hop := index s,
         ch_direction := DOWN, ih_saddr := index s, ih_daddr := IP_BROADCAST, ih_sport := RT_PORT,
         ih_dport := RT_PORT, ih_ttl := 1, ah := AODVTYPE_RERR re\<rparr>) s)"

definition sendHello :: "AODV \<Rightarrow> AODV result" where
  "sendHello s =
    bindE (Packet_alloc (net s)) (\<lambda>(a, w).
    let s = s\<lparr>net := w\<rparr> in
    schedule_target a 0 0
      (set_pkt a (\<lambda>p. p\<lparr>ch_ptype := PT_AODV, ch_size := IP_HDR_LEN + reply_size, ch_iface := - 2,
         ch_error := 0, ch_addr_type := NS_AF_NONE, ch_prev_hop := index s, ih_saddr := index s,
         ih_daddr := IP_BROADCAST, ih_sport := RT_PORT, ih_dport := RT_PORT, ih_ttl := 1,
         ah := AODVTYPE_HELLO \<lparr>rp_hop_count = 1, rp_dst = index s, rp_dst_seqno = seqno s, rp_src = 0,
           rp_lifetime = (1 + ALLOWED_HELLO_LOSS) * HELLO_INTERVAL, rp_timestamp = 0\<rparr>\<rparr>) s))"


section \<open>Neighbours and link failures\<close>

text \<open>One round of the loop of \<^verbatim>\<open>handle_link_failure\<close>, for the entry of destination \<open>d\<close>.\<close>

definition link_failure_step ::
  "nsaddr_t \<Rightarrow> nsaddr_t \<Rightarrow> hdr_aodv_error \<times> AODV \<Rightarrow> (hdr_aodv_error \<times> AODV) result" where
  "link_failure_step i d x = (case x of (re, s) \<Rightarrow>
    bindE (derefE (rt_lookup d (rtable s))) (\<lambda>rt.
    bindE (if rt_hops rt \<noteq> INFINITY2 \<and> rt_nexthop rt = i then
         bindE (assertE ''rt->rt_flags == RTF_UP'' (rt_flags rt = RTF_UP)) (\<lambda>_.
         bindE (assertE ''(rt->rt_seqno%2) == 0'' (even (unat (rt_seqno rt)))) (\<lambda>_.
         bindE (add_unreachable d (rt_seqno rt + 1) re) (\<lambda>re1.
         Inr (re1, set_rt d (\<lambda>rt. rt_down (rt\<lparr>rt_seqno := rt_seqno rt + 1\<rparr>)) s))))
       else Inr (re, s)) (\<lambda>(re1, s1).
    Inr (re1, set_rt d (pc_delete i) s1))))"

definition handle_link_failure :: "nsaddr_t \<Rightarrow> AODV \<Rightarrow> AODV result" where
  "handle_link_failure i s =
    bindE (Packet_alloc (net s)) (\<lambda>(a, w).
    let s = s\<lparr>net := w\<rparr> in
    bindE (foldE (link_failure_step i) (map rt_dst (rtable s)) (blank_error, s)) (\<lambda>(re, s1).
    if DestCount re > 0 then sendError a re False s1 else with_net (Packet_free a) s1))"

definition nb_insert :: "nsaddr_t \<Rightarrow> AODV \<Rightarrow> AODV result" where
  "nb_insert i s =
    (let s1 = s\<lparr>nbhead := \<lparr>nb_addr = i, nb_expire = CURRENT_TIME s + 3 / 2 * ALLOWED_HELLO_LOSS * HELLO_INTERVAL\<rparr> # nbhead s,
       seqno := seqno s + 2\<rparr>
     in bindE (assertE ''(seqno%2) == 0'' (even (unat (seqno s1)))) (\<lambda>_. Inr s1))"

definition nb_lookup :: "nsaddr_t \<Rightarrow> AODV \<Rightarrow> AODV_Neighbor option" where
  "nb_lookup i s = nb_find i (nbhead s)"

fun nb_unlink :: "nsaddr_t \<Rightarrow> AODV_Neighbor list \<Rightarrow> AODV_Neighbor list" where
  "nb_unlink i [] = []"
| "nb_unlink i (nb # nbs) = (if nb_addr nb = i then nbs else nb # nb_unlink i nbs)"

definition nb_delete :: "nsaddr_t \<Rightarrow> AODV \<Rightarrow> AODV result" where
  "nb_delete i s =
    (let s1 = s\<lparr>seqno := seqno s + 2\<rparr> in
     bindE (assertE ''(seqno%2) == 0'' (even (unat (seqno s1)))) (\<lambda>_.
     handle_link_failure i (s1\<lparr>nbhead := nb_unlink i (nbhead s1)\<rparr>)))"

text \<open>The loop of \<^verbatim>\<open>nb_purge\<close> saves the next pointer before it deletes; what it deletes is the
  neighbour it looks at.\<close>

definition nb_purge :: "AODV \<Rightarrow> AODV result" where
  "nb_purge s = foldE (\<lambda>nb s1. if nb_expire nb \<le> CURRENT_TIME s then nb_delete (nb_addr nb) s1 else Inr s1) (nbhead s) s"

fun nb_refresh :: "nsaddr_t \<Rightarrow> double \<Rightarrow> AODV_Neighbor list \<Rightarrow> AODV_Neighbor list" where
  "nb_refresh i t [] = []"
| "nb_refresh i t (nb # nbs) = (if nb_addr nb = i then nb\<lparr>nb_expire := t\<rparr> # nbs else nb # nb_refresh i t nbs)"

section \<open>Packet reception\<close>

definition recvHello :: "paddr \<Rightarrow> hdr_aodv_reply \<Rightarrow> AODV \<Rightarrow> AODV result" where
  "recvHello a rp s =
    bindE (case nb_lookup (rp_dst rp) s of
        None \<Rightarrow> nb_insert (rp_dst rp) s
      | Some nb \<Rightarrow> Inr (s\<lparr>nbhead := nb_refresh (rp_dst rp)
          (CURRENT_TIME s + 3 / 2 * ALLOWED_HELLO_LOSS * HELLO_INTERVAL) (nbhead s)\<rparr>)) (with_net (Packet_free a))"

text \<open>\<^verbatim>\<open>rt_lookup\<close> and, if there is no entry, \<^verbatim>\<open>rt_add\<close>.\<close>

definition ensure_rt :: "nsaddr_t \<Rightarrow> AODV \<Rightarrow> AODV result" where
  "ensure_rt d s = (case rt_lookup d (rtable s) of
     None \<Rightarrow> bindE (rt_add d (rtable s)) (\<lambda>t. Inr (s\<lparr>rtable := t\<rparr>))
   | Some _ \<Rightarrow> Inr s)"

definition get_rt :: "nsaddr_t \<Rightarrow> AODV \<Rightarrow> aodv_rt_entry result" where
  "get_rt d s = derefE (rt_lookup d (rtable s))"

text \<open>\<^verbatim>\<open>(u_int32_t) (rt->rt_expire - CURRENT_TIME)\<close>: the fraction is cut off and the integer taken
  modulo \<open>2 ^ 32\<close>, which is what the compiled code does for a negative number too.\<close>

definition lifetime_left :: "double \<Rightarrow> double \<Rightarrow> u32" where
  "lifetime_left expire t = word_of_int (trunc (expire - t))"

text \<open>The reverse route of a request.\<close>

definition better_route :: "u32 \<Rightarrow> byte \<Rightarrow> aodv_rt_entry \<Rightarrow> bool" where
  "better_route n hops rt \<longleftrightarrow> n > rt_seqno rt \<or> n = rt_seqno rt \<and> (ucast hops :: u16) < rt_hops rt"

definition reverse_entry ::
  "hdr_aodv_request \<Rightarrow> nsaddr_t \<Rightarrow> double \<Rightarrow> aodv_rt_entry \<Rightarrow> aodv_rt_entry" where
  "reverse_entry rq saddr t rt =
    (let rt1 = rt_update (rq_src_seqno rq) (ucast (rq_hop_count rq)) saddr
                 (max (rt_expire rt) (t + REV_ROUTE_LIFE)) rt
     in if rt_req_timeout rt1 > 0
        then rt1\<lparr>rt_req_cnt := 0, rt_req_timeout := 0, rt_req_last_ttl := uint (rq_hop_count rq),
               rt_expire := t + ACTIVE_ROUTE_TIMEOUT\<rparr>
        else rt1)"

definition reverse_forward :: "nsaddr_t \<Rightarrow> paddr \<Rightarrow> double \<Rightarrow> AODV \<Rightarrow> (double \<times> AODV) result" where
  "reverse_forward d b delay s =
    bindE (get_rt d s) (\<lambda>rt.
    if rt_flags rt = RTF_UP
    then bindE (assertE ''rt0->rt_hops != INFINITY2'' (rt_hops rt \<noteq> INFINITY2)) (\<lambda>_.
      bindE (forward (Some d) b NO_DELAY s) (\<lambda>s1. Inr (delay, s1)))
    else Inr (delay, s))"

definition reverse_route :: "hdr_aodv_request \<Rightarrow> nsaddr_t \<Rightarrow> AODV \<Rightarrow> AODV result" where
  "reverse_route rq saddr s =
    bindE (ensure_rt (rq_src rq) s) (\<lambda>s1.
    let t = CURRENT_TIME s1;
        s2 = set_rt (rq_src rq) (\<lambda>rt. rt\<lparr>rt_expire := max (rt_expire rt) (t + REV_ROUTE_LIFE)\<rparr>) s1 in
    bindE (get_rt (rq_src rq) s2) (\<lambda>rt0.
    if better_route (rq_src_seqno rq) (rq_hop_count rq) rt0
    then
      (let s3 = set_rt (rq_src rq) (reverse_entry rq saddr t) s2 in
       bindE (get_rt (rq_src rq) s3) (\<lambda>rt1.
       bindE (assertE ''rt0->rt_flags == RTF_UP'' (rt_flags rt1 = RTF_UP)) (\<lambda>_.
       bindE (drain_all (rq_src rq) (reverse_forward (rq_src rq)) 0 s3) (\<lambda>(_, s4). Inr s4))))
    else Inr s2))"

text \<open>The three answers to a request: this node is the destination, it has a fresh route, or the
  request goes on.\<close>

definition reply_as_destination :: "paddr \<Rightarrow> hdr_aodv_request \<Rightarrow> AODV \<Rightarrow> AODV result" where
  "reply_as_destination a rq s =
    (let n = max (seqno s) (rq_dst_seqno rq) + 1;
         s1 = s\<lparr>seqno := (if odd (unat n) then n + 1 else n)\<rparr>
     in bindE (sendReply (rq_src rq) 1 (index s1) (seqno s1) MY_ROUTE_TIMEOUT (rq_timestamp rq) s1)
          (with_net (Packet_free a)))"

definition reply_from_route :: "paddr \<Rightarrow> hdr_aodv_request \<Rightarrow> aodv_rt_entry \<Rightarrow> AODV \<Rightarrow> AODV result" where
  "reply_from_route a rq rt s =
    bindE (assertE ''rq->rq_dst == rt->rt_dst'' (rq_dst rq = rt_dst rt)) (\<lambda>_.
    bindE (sendReply (rq_src rq) (ucast (rt_hops rt) + 1) (rq_dst rq) (rt_seqno rt)
        (lifetime_left (rt_expire rt) (CURRENT_TIME s)) (rq_timestamp rq) s) (\<lambda>s1.
    bindE (get_rt (rq_src rq) s1) (\<lambda>rt0.
    let s2 = set_rt (rq_dst rq) (pc_insert (rt_nexthop rt0)) s1;
        s3 = set_rt (rq_src rq) (pc_insert (rt_nexthop rt)) s2
    in with_net (Packet_free a) s3)))"

definition forward_request :: "paddr \<Rightarrow> hdr_aodv_request \<Rightarrow> aodv_rt_entry option \<Rightarrow> AODV \<Rightarrow> AODV result" where
  "forward_request a rq rt s =
    forward None a DELAY
      (set_pkt a (\<lambda>p. p\<lparr>ih_saddr := index s, ih_daddr := IP_BROADCAST,
         ah := AODVTYPE_RREQ (rq\<lparr>rq_hop_count := rq_hop_count rq + 1,
           rq_dst_seqno := (case rt of None \<Rightarrow> rq_dst_seqno rq
             | Some e \<Rightarrow> max (rt_seqno e) (rq_dst_seqno rq))\<rparr>)\<rparr>) s)"

definition answer_request :: "paddr \<Rightarrow> hdr_aodv_request \<Rightarrow> AODV \<Rightarrow> AODV result" where
  "answer_request a rq s =
    (if rq_dst rq = index s then reply_as_destination a rq s
     else (case rt_lookup (rq_dst rq) (rtable s) of
         None \<Rightarrow> forward_request a rq None s
       | Some rt \<Rightarrow>
           if rt_hops rt \<noteq> INFINITY2 \<and> rt_seqno rt \<ge> rq_dst_seqno rq
           then reply_from_route a rq rt s
           else forward_request a rq (Some rt) s))"

definition recvRequest :: "paddr \<Rightarrow> hdr_aodv_request \<Rightarrow> AODV \<Rightarrow> AODV result" where
  "recvRequest a rq s =
    (if rq_src rq = index s then with_net (Packet_free a) s
     else if id_lookup (rq_src rq) (rq_bcast_id rq) s then with_net (Packet_free a) s
     else bindE (reverse_route rq (ih_saddr (pkt s a)) (id_insert (rq_src rq) (rq_bcast_id rq) s)) (answer_request a rq))"

text \<open>The entry a reply makes, and the discovery latency at the source.\<close>

definition reply_entry :: "hdr_aodv_reply \<Rightarrow> double \<Rightarrow> aodv_rt_entry \<Rightarrow> aodv_rt_entry" where
  "reply_entry rp t rt =
    (rt_update (rp_dst_seqno rp) (ucast (rp_hop_count rp)) (rp_src rp) (t + rp_lifetime rp) rt)
      \<lparr>rt_req_cnt := 0, rt_req_timeout := 0, rt_req_last_ttl := uint (rp_hop_count rp)\<rparr>"

definition record_latency :: "quotient \<Rightarrow> aodv_rt_entry \<Rightarrow> aodv_rt_entry result" where
  "record_latency x rt =
    (if unat (hist_indx rt) < MAX_HISTORY
     then Inr (rt\<lparr>rt_disc_latency := (rt_disc_latency rt)[unat (hist_indx rt) := x],
            hist_indx := (hist_indx rt + 1) mod 3\<rparr>)
     else Inl BufferOverflow)"

definition reply_forward :: "nsaddr_t \<Rightarrow> paddr \<Rightarrow> double \<Rightarrow> AODV \<Rightarrow> (double \<times> AODV) result" where
  "reply_forward d b delay s =
    bindE (get_rt d s) (\<lambda>rt.
    if rt_hops rt \<noteq> INFINITY2
    then bindE (assertE ''rt->rt_flags == RTF_UP'' (rt_flags rt = RTF_UP)) (\<lambda>_.
      bindE (forward (Some d) b delay s) (\<lambda>s1. Inr (delay + ARP_DELAY, s1)))
    else Inr (delay, s))"

definition accept_reply :: "hdr_aodv_reply \<Rightarrow> bool \<Rightarrow> AODV \<Rightarrow> AODV result" where
  "accept_reply rp for_me s =
    (let d = rp_dst rp; t = CURRENT_TIME s; s1 = set_rt d (reply_entry rp t) s in
     bindE (if for_me then
         bindE (get_rt d s1) (\<lambda>rt.
         bindE (record_latency (quot (t - rp_timestamp rp) (of_nat (unat (rp_hop_count rp)))) rt) (\<lambda>rt1.
         Inr (set_rt d (\<lambda>_. rt1) s1)))
       else Inr s1) (\<lambda>s2.
     bindE (drain_all d (reply_forward d) 0 s2) (\<lambda>(_, s3). Inr s3)))"

definition forward_reply :: "paddr \<Rightarrow> hdr_aodv_reply \<Rightarrow> AODV \<Rightarrow> AODV result" where
  "forward_reply a rp s =
    (case rt_lookup (ih_daddr (pkt s a)) (rtable s) of
      None \<Rightarrow> agent_drop a ''NRTE'' s
    | Some rt0 \<Rightarrow>
      if rt_hops rt0 \<noteq> INFINITY2 then
        bindE (assertE ''rt0->rt_flags == RTF_UP'' (rt_flags rt0 = RTF_UP)) (\<lambda>_.
        bindE (forward (Some (rt_dst rt0)) a NO_DELAY
            (set_pkt a (\<lambda>p. p\<lparr>ah := AODVTYPE_RREP (rp\<lparr>rp_hop_count := rp_hop_count rp + 1, rp_src := index s\<rparr>)\<rparr>) s)) (\<lambda>s1.
        bindE (get_rt (rt_dst rt0) s1) (\<lambda>rt1.
        Inr (set_rt (rp_dst rp) (pc_insert (rt_nexthop rt1)) s1))))
      else agent_drop a ''NRTE'' s)"

definition recvReply :: "paddr \<Rightarrow> hdr_aodv_reply \<Rightarrow> AODV \<Rightarrow> AODV result" where
  "recvReply a rp s =
    bindE (ensure_rt (rp_dst rp) s) (\<lambda>s1.
    bindE (get_rt (rp_dst rp) s1) (\<lambda>rt.
    let for_me = (ih_daddr (pkt s1 a) = index s1) in
    if better_route (rp_dst_seqno rp) (rp_hop_count rp) rt
    then bindE (accept_reply rp for_me s1) (\<lambda>s2.
      if for_me then with_net (Packet_free a) s2 else forward_reply a rp s2)
    else with_net (Packet_free a) s1))"

text \<open>One unreachable destination of a received error; \<open>nre\<close> is the error to be sent.\<close>

definition recvError_step ::
  "nsaddr_t \<Rightarrow> hdr_aodv_error \<Rightarrow> nat \<Rightarrow> hdr_aodv_error \<times> AODV \<Rightarrow> (hdr_aodv_error \<times> AODV) result" where
  "recvError_step saddr re i x = (case x of (nre, s) \<Rightarrow>
    if i < length (unreachable_dst re) \<and> i < length (unreachable_dst_seqno re) then
      (let d = unreachable_dst re ! i; n = unreachable_dst_seqno re ! i in
       case rt_lookup d (rtable s) of
         None \<Rightarrow> Inr (nre, s)
       | Some rt \<Rightarrow>
         if rt_hops rt \<noteq> INFINITY2 \<and> rt_nexthop rt = saddr \<and> rt_seqno rt \<le> n then
           bindE (assertE ''rt->rt_flags == RTF_UP'' (rt_flags rt = RTF_UP)) (\<lambda>_.
           bindE (assertE ''(rt->rt_seqno%2) == 0'' (even (unat (rt_seqno rt)))) (\<lambda>_.
           bindE (drop_filtered saddr (set_rt d (\<lambda>rt. rt_down (rt\<lparr>rt_seqno := n\<rparr>)) s)) (\<lambda>s1.
           bindE (get_rt d s1) (\<lambda>rt1.
           if \<not> pc_empty rt1
           then bindE (add_unreachable d (rt_seqno rt1) nre) (\<lambda>nre1. Inr (nre1, set_rt d pc_delete_all s1))
           else Inr (nre, s1)))))
         else Inr (nre, s))
    else Inl BufferOverflow)"

definition recvError :: "paddr \<Rightarrow> hdr_aodv_error \<Rightarrow> AODV \<Rightarrow> AODV result" where
  "recvError a re s =
    bindE (Packet_alloc (net s)) (\<lambda>(b, w).
    bindE (foldE (recvError_step (ih_saddr (pkt s a)) re) [0..<unat (DestCount re)] (blank_error, s\<lparr>net := w\<rparr>)) (\<lambda>(nre, s1).
    bindE (if DestCount nre > 0 then sendError b nre True s1 else with_net (Packet_free b) s1)
      (with_net (Packet_free a))))"

definition recvAODV :: "paddr \<Rightarrow> AODV \<Rightarrow> AODV result" where
  "recvAODV a s =
    bindE (assertE ''HDR_IP (p)->sport() == RT_PORT'' (ih_sport (pkt s a) = RT_PORT)) (\<lambda>_.
    bindE (assertE ''HDR_IP (p)->dport() == RT_PORT'' (ih_dport (pkt s a) = RT_PORT)) (\<lambda>_.
    case ah (pkt s a) of
      AODVTYPE_RREQ rq \<Rightarrow> recvRequest a rq s
    | AODVTYPE_RREP rp \<Rightarrow> recvReply a rp s
    | AODVTYPE_RERR re \<Rightarrow> recvError a re s
    | AODVTYPE_HELLO rp \<Rightarrow> recvHello a rp s
    | AODVTYPE_INVALID t \<Rightarrow> Inl (AssertFailed ''Invalid AODV type'')))"

text \<open>A packet for a destination: forward it, or buffer it and look for a route, or report that
  there is none.\<close>

definition report_no_route :: "paddr \<Rightarrow> aodv_rt_entry \<Rightarrow> AODV \<Rightarrow> AODV result" where
  "report_no_route a rt s =
    bindE (Packet_alloc (net s)) (\<lambda>(b, w).
    bindE (assertE ''rt->rt_flags == RTF_DOWN'' (rt_flags rt = RTF_DOWN)) (\<lambda>_.
    bindE (add_unreachable (rt_dst rt) (rt_seqno rt) blank_error) (\<lambda>re.
    bindE (sendError b re False (s\<lparr>net := w\<rparr>)) (agent_drop a ''NRTE''))))"

definition rt_resolve :: "paddr \<Rightarrow> AODV \<Rightarrow> AODV result" where
  "rt_resolve a s =
    (let d = ih_daddr (pkt s a) in
     bindE (ensure_rt d (set_pkt a (\<lambda>p. p\<lparr>ch_xmit_failure := True\<rparr>) s)) (\<lambda>s1.
     bindE (get_rt d s1) (\<lambda>rt.
     if rt_flags rt = RTF_UP
     then bindE (assertE ''rt->rt_hops != INFINITY2'' (rt_hops rt \<noteq> INFINITY2)) (\<lambda>_. forward (Some d) a NO_DELAY s1)
     else if ih_saddr (pkt s1 a) = index s1 then bindE (buffer_packet a s1) (sendRequest (rt_dst rt))
     else if rt_flags rt = RTF_IN_REPAIR then buffer_packet a s1
     else report_no_route a rt s1)))"

definition recv :: "paddr \<Rightarrow> AODV \<Rightarrow> AODV result" where
  "recv a s =
    bindE (assertE ''initialized()'' (target s)) (\<lambda>_.
    if ch_ptype (pkt s a) = PT_AODV then recvAODV a (set_pkt a (\<lambda>p. p\<lparr>ih_ttl := ih_ttl p - 1\<rparr>) s)
    else
      (let resolve = (\<lambda>s. if ih_daddr (pkt s a) \<noteq> IP_BROADCAST then rt_resolve a s else forward None a NO_DELAY s) in
       if ih_saddr (pkt s a) = index s \<and> ch_num_forwards (pkt s a) = 0
       then resolve (set_pkt a (\<lambda>p. p\<lparr>ch_size := ch_size p + IP_HDR_LEN,
              ih_ttl := (if ih_daddr p \<noteq> IP_BROADCAST then NETWORK_DIAMETER else ih_ttl p)\<rparr>) s)
       else if ih_saddr (pkt s a) = index s then agent_drop a ''LOOP'' s
       else
         (let s1 = set_pkt a (\<lambda>p. p\<lparr>ih_ttl := ih_ttl p - 1\<rparr>) s in
          if ih_ttl (pkt s1 a) = 0 then agent_drop a ''TTL'' s1 else resolve s1)))"

section \<open>Failures of the link layer and timers\<close>

text \<open>\<^verbatim>\<open>local_rt_repair\<close>: the copy is made after the packet was buffered and the request sent, and the
  timer gets the time-out of the request as its delay.\<close>

definition local_rt_repair :: "nsaddr_t \<Rightarrow> paddr \<Rightarrow> AODV \<Rightarrow> AODV result" where
  "local_rt_repair d a s =
    bindE (buffer_packet a s) (\<lambda>s1.
    bindE (sendRequest d (set_rt d (\<lambda>rt. rt\<lparr>rt_flags := RTF_IN_REPAIR\<rparr>) s1)) (\<lambda>s2.
    bindE (Packet_copy a (net s2)) (\<lambda>(b, w).
    let s3 = s2\<lparr>net := w\<rparr> in
    bindE (get_rt d s3) (\<lambda>rt.
    with_net (\<lambda>w. enter_queue b (log_action (Repair b (pk w b) (rt_req_timeout rt)) w)) s3))))"

definition rt_ll_failed :: "paddr \<Rightarrow> AODV \<Rightarrow> AODV result" where
  "rt_ll_failed a s =
    (let broken_nbr = ch_next_hop (pkt s a) in
     if \<not> DATA_PACKET (ch_ptype (pkt s a)) \<or> ih_daddr (pkt s a) = IP_BROADCAST then agent_drop a ''CBK'' s
     else (case rt_lookup (ih_daddr (pkt s a)) (rtable s) of
         None \<Rightarrow> agent_drop a ''CBK'' s
       | Some rt \<Rightarrow>
         if ch_num_forwards (pkt s a) > uint (rt_hops rt) then local_rt_repair (rt_dst rt) a s
         else
           bindE (agent_drop a ''CBK'' s) (\<lambda>s1.
           bindE (drop_filtered broken_nbr s1) (nb_delete broken_nbr))))"

text \<open>One entry of the loop of \<^verbatim>\<open>rt_purge\<close>; the delay runs on from entry to entry.\<close>

definition purge_forward :: "nsaddr_t \<Rightarrow> paddr \<Rightarrow> double \<Rightarrow> AODV \<Rightarrow> (double \<times> AODV) result" where
  "purge_forward d b delay s = bindE (forward (Some d) b delay s) (\<lambda>s1. Inr (delay + ARP_DELAY, s1))"

definition rt_purge_step :: "nsaddr_t \<Rightarrow> double \<times> AODV \<Rightarrow> (double \<times> AODV) result" where
  "rt_purge_step d x = (case x of (delay, s) \<Rightarrow>
    bindE (get_rt d s) (\<lambda>rt.
    if rt_flags rt = RTF_UP \<and> rt_expire rt < CURRENT_TIME s then
      bindE (assertE ''rt->rt_hops != INFINITY2'' (rt_hops rt \<noteq> INFINITY2)) (\<lambda>_.
      bindE (drop_buffered d s) (\<lambda>s1.
      bindE (assertE ''rt->rt_seqno%2'' (odd (unat (rt_seqno rt + 1)))) (\<lambda>_.
      Inr (delay, set_rt d (\<lambda>rt. rt_down (rt\<lparr>rt_seqno := rt_seqno rt + 1\<rparr>)) s1))))
    else if rt_flags rt = RTF_UP then
      bindE (assertE ''rt->rt_hops != INFINITY2'' (rt_hops rt \<noteq> INFINITY2)) (\<lambda>_.
      drain_all d (purge_forward d) delay s)
    else
      bindE (rq_find d (rqueue s) (net s)) (\<lambda>found.
      if found then bindE (sendRequest d s) (\<lambda>s1. Inr (delay, s1)) else Inr (delay, s))))"

definition rt_purge :: "AODV \<Rightarrow> AODV result" where
  "rt_purge s = bindE (foldE rt_purge_step (map rt_dst (rtable s)) (0, s)) (\<lambda>(_, s1). Inr s1)"

definition BroadcastTimer_handle :: "AODV \<Rightarrow> AODV result" where
  "BroadcastTimer_handle s = schedule_timer btimer BCAST_ID_SAVE 0 (id_purge s)"

definition HelloTimer_handle :: "AODV \<Rightarrow> AODV result" where
  "HelloTimer_handle s =
    bindE (sendHello s) (schedule_timer htimer MinHelloInterval (MaxHelloInterval - MinHelloInterval))"

definition NeighborTimer_handle :: "AODV \<Rightarrow> AODV result" where
  "NeighborTimer_handle s = bindE (nb_purge s) (schedule_timer ntimer HELLO_INTERVAL 0)"

definition RouteCacheTimer_handle :: "AODV \<Rightarrow> AODV result" where
  "RouteCacheTimer_handle s = bindE (rt_purge s) (schedule_timer rtimer FREQUENCY 0)"

definition LocalRepairTimer_handle :: "paddr \<Rightarrow> AODV \<Rightarrow> AODV result" where
  "LocalRepairTimer_handle a s =
    (let d = ih_daddr (pkt s a) in
     with_net (Packet_free a)
       (case rt_lookup d (rtable s) of
          None \<Rightarrow> s
        | Some rt \<Rightarrow> if rt_flags rt \<noteq> RTF_UP then set_rt d rt_down s else s))"

section \<open>Tcl commands\<close>

text \<open>\<open>strncasecmp(a, b, n) == 0\<close>, and the outcome of a command: a result for the interpreter or the
  command of the base class.  \<open>found\<close> is \<^verbatim>\<open>TclObject::lookup(argv[2]) != 0\<close>; for the interface queue
  the packets in it are given.\<close>

definition lower :: "char \<Rightarrow> char" where
  "lower c = (if 65 \<le> (of_char c :: nat) \<and> (of_char c :: nat) \<le> 90 then char_of ((of_char c :: nat) + 32) else c)"

definition strncaseeq :: "string \<Rightarrow> string \<Rightarrow> nat \<Rightarrow> bool" where
  "strncaseeq x y n \<longleftrightarrow> take n (map lower x) = take n (map lower y)"

datatype aodv_status = AODV_ID nsaddr_t | AODV_OK | AODV_ERROR | AGENT_COMMAND

definition AODV_command2 :: "string \<Rightarrow> AODV \<Rightarrow> (aodv_status \<times> AODV) result" where
  "AODV_command2 arg s =
    (if strncaseeq arg ''id'' 2 then Inr (AODV_ID (index s), s)
     else if strncaseeq arg ''start'' 2
     then bindE (BroadcastTimer_handle s) (\<lambda>s1. bindE (RouteCacheTimer_handle s1) (\<lambda>s2. Inr (AODV_OK, s2)))
     else Inr (AGENT_COMMAND, s))"

definition AODV_command3 ::
  "string \<Rightarrow> nsaddr_t \<Rightarrow> bool \<Rightarrow> paddr list \<Rightarrow> AODV \<Rightarrow> (aodv_status \<times> AODV) result" where
  "AODV_command3 arg num found ifq s =
    (if arg = ''index'' then Inr (AODV_OK, s\<lparr>index := num\<rparr>)
     else if arg = ''log-target'' \<or> arg = ''tracetarget'' then Inr (if found then AODV_OK else AODV_ERROR, s)
     else if arg = ''drop-target'' then
       (let s1 = s\<lparr>rqueue := (rqueue s)\<lparr>rq_drop_target := found\<rparr>\<rparr> in
        if found then Inr (AODV_OK, s1\<lparr>ag_drop := True\<rparr>) else Inr (AODV_ERROR, s1))
     else if arg = ''if-queue'' then
       (if found then Inr (AODV_OK, s\<lparr>ifqueue := Some ifq\<rparr>) else Inr (AODV_ERROR, s\<lparr>ifqueue := None\<rparr>))
     else if arg = ''port-dmux'' then Inr (if found then AODV_OK else AODV_ERROR, s\<lparr>dmux := found\<rparr>)
     else Inr (AGENT_COMMAND, s))"

section \<open>Events\<close>

text \<open>What calls the agent: a packet arrives, the link layer reports that a packet could not be sent,
  a timer expires, the timer of a local repair expires.\<close>

datatype aodv_event = Recv paddr | LinkFailed paddr | Expired timer_id | RepairExpired paddr

primrec aodv_timer_handle :: "timer_id \<Rightarrow> AODV \<Rightarrow> AODV result" where
  "aodv_timer_handle btimer s = BroadcastTimer_handle s"
| "aodv_timer_handle htimer s = HelloTimer_handle s"
| "aodv_timer_handle ntimer s = NeighborTimer_handle s"
| "aodv_timer_handle rtimer s = RouteCacheTimer_handle s"

primrec aodv_dispatch :: "aodv_event \<Rightarrow> AODV \<Rightarrow> AODV result" where
  "aodv_dispatch (Recv a) s = recv a s"
| "aodv_dispatch (LinkFailed a) s = rt_ll_failed a s"
| "aodv_dispatch (Expired t) s = aodv_timer_handle t (s\<lparr>armed := armed s - {t}\<rparr>)"
| "aodv_dispatch (RepairExpired a) s = LocalRepairTimer_handle a s"

end
