(* ===== verification/Aodv_Frame.thy ===== *)
theory Aodv_Frame
  imports Aodv_Agent
begin

text \<open>
  The invariant of the AODV agent and what its handlers keep.

  \<open>aodv_inv b H s\<close> holds of an agent that is set up and has the packets \<open>H\<close> in hand: the pool of
  packets, the send buffer and the interface queue are well formed and disjoint, and so is \<open>H\<close>;
  destinations are unique in the routing table; a route that can be used has an even sequence
  number other than 0, which stands for none; with \<open>b\<close> false no route is under repair.

  \<open>step R b H s r\<close> says that the result \<open>r\<close> of an operation started in \<open>s\<close> is no error, that the agent
  keeps its invariant, with the packets \<open>H\<close> in hand, and is related by \<open>R\<close> to \<open>s\<close>.  The relation is
  \<open>quiet\<close> for operations that leave all routes alone and \<open>evolves\<close> for all: no route gets
  older, or longer at the same age.  The locale \<open>frame_rel\<close> has the rules for composing operations.
\<close>

section \<open>Invariant\<close>

definition usable :: "aodv_rt_entry \<Rightarrow> bool" where
  "usable rt \<longleftrightarrow> rt_hops rt \<noteq> INFINITY2"

definition entry_inv :: "bool \<Rightarrow> aodv_rt_entry \<Rightarrow> bool" where
  "entry_inv b rt \<longleftrightarrow> (rt_flags rt = RTF_UP \<longrightarrow> usable rt) \<and> (usable rt \<longrightarrow> even (unat (rt_seqno rt)) \<and> rt_seqno rt \<noteq> 0) \<and>
     (rt_flags rt = RTF_DOWN \<longrightarrow> \<not> usable rt) \<and>
     (rt_flags rt = RTF_UP \<or> rt_flags rt = RTF_DOWN \<or> b \<and> rt_flags rt = RTF_IN_REPAIR) \<and>
     unat (hist_indx rt) < MAX_HISTORY"

definition aodv_rep :: "bool \<Rightarrow> paddr set \<Rightarrow> AODV \<Rightarrow> paddr list \<Rightarrow> paddr list \<Rightarrow> bool" where
  "aodv_rep b H s xs ys \<longleftrightarrow> pool_inv (net s) \<and> rq_inv (rqueue s) (net s) xs \<and> 0 < rq_limit (rqueue s) \<and>
     (\<forall>a \<in> set xs. ih_daddr (pkt s a) \<noteq> IP_BROADCAST) \<and>
     ifqueue s = Some ys \<and> distinct ys \<and> set xs \<inter> set ys = {} \<and> H \<inter> (set xs \<union> set ys) = {} \<and>
     (\<forall>a \<in> H \<union> set ys. owned (net s) a) \<and>
     distinct (map rt_dst (rtable s)) \<and> (\<forall>rt \<in> set (rtable s). entry_inv b rt) \<and>
     even (unat (seqno s)) \<and> target s \<and> dmux s"

definition aodv_inv :: "bool \<Rightarrow> paddr set \<Rightarrow> AODV \<Rightarrow> bool" where
  "aodv_inv b H s \<longleftrightarrow> (\<exists>xs ys. aodv_rep b H s xs ys)"

section \<open>Relations of a state before and after\<close>

definition frame :: "paddr set \<Rightarrow> AODV \<Rightarrow> AODV \<Rightarrow> bool" where
  "frame H s s' \<longleftrightarrow> index s' = index s \<and> here_addr s' = here_addr s \<and> armed s' = armed s \<and> CURRENT_TIME s' = CURRENT_TIME s \<and>
     (\<forall>a \<in> H. pkt s' a = pkt s a) \<and> (\<exists>es. trace (net s') = trace (net s) @ es) \<and>
     (\<forall>x \<in> set (bihead s). bi_expire x \<le> CURRENT_TIME s \<or> x \<in> set (bihead s'))"

definition core :: "aodv_rt_entry \<Rightarrow> nsaddr_t \<times> byte \<times> u16 \<times> u32 \<times> nsaddr_t \<times> byte" where
  "core rt = (rt_dst rt, rt_flags rt, rt_hops rt, rt_seqno rt, rt_nexthop rt, hist_indx rt)"

definition quiet :: "paddr set \<Rightarrow> AODV \<Rightarrow> AODV \<Rightarrow> bool" where
  "quiet H s s' \<longleftrightarrow> frame H s s' \<and> map core (rtable s') = map core (rtable s)"

text \<open>A route is as good as another if it is newer, or as new and not longer.\<close>

definition as_good :: "aodv_rt_entry \<Rightarrow> aodv_rt_entry \<Rightarrow> bool" where
  "as_good rt rt' \<longleftrightarrow> rt_seqno rt < rt_seqno rt' \<or> rt_seqno rt = rt_seqno rt' \<and> rt_hops rt' \<le> rt_hops rt"

definition improves :: "aodv_rtable \<Rightarrow> aodv_rtable \<Rightarrow> bool" where
  "improves t t' \<longleftrightarrow> (\<forall>d rt. rt_lookup d t = Some rt \<longrightarrow>
     (\<exists>rt'. rt_lookup d t' = Some rt' \<and> as_good rt rt'))"

definition evolves :: "paddr set \<Rightarrow> AODV \<Rightarrow> AODV \<Rightarrow> bool" where
  "evolves H s s' \<longleftrightarrow> frame H s s' \<and> improves (rtable s) (rtable s')"

definition step ::
  "(paddr set \<Rightarrow> AODV \<Rightarrow> AODV \<Rightarrow> bool) \<Rightarrow> bool \<Rightarrow> paddr set \<Rightarrow> AODV \<Rightarrow> AODV result \<Rightarrow> bool" where
  "step R b H s r \<longleftrightarrow> (\<exists>s'. r = Inr s' \<and> aodv_inv b H s' \<and> R H s s')"

text \<open>The same for an operation with a second result.\<close>

definition step2 ::
  "(paddr set \<Rightarrow> AODV \<Rightarrow> AODV \<Rightarrow> bool) \<Rightarrow> bool \<Rightarrow> paddr set \<Rightarrow> AODV \<Rightarrow> ('a \<times> AODV) result \<Rightarrow> bool" where
  "step2 R b H s r \<longleftrightarrow> (\<exists>x s'. r = Inr (x, s') \<and> aodv_inv b H s' \<and> R H s s')"

locale frame_rel =
  fixes R :: "paddr set \<Rightarrow> AODV \<Rightarrow> AODV \<Rightarrow> bool"
  assumes R_refl: "R H s s"
    and R_trans: "R H s s1 \<Longrightarrow> R H' s1 s2 \<Longrightarrow> H' \<subseteq> H \<Longrightarrow> R H' s s2"
begin

lemma step_Inr: "aodv_inv b H s' \<Longrightarrow> R H s s' \<Longrightarrow> step R b H s (Inr s')"
  by (simp add: step_def)

lemma step_same: "aodv_inv b H s \<Longrightarrow> step R b H s (Inr s)"
  by (simp add: step_def R_refl)

lemma step_bind:
  assumes "step R b H s r" "H' \<subseteq> H"
    and "\<And>s1. aodv_inv b H s1 \<Longrightarrow> R H s s1 \<Longrightarrow> step R b' H' s1 (f s1)"
  shows "step R b' H' s (bindE r f)"
proof -
  obtain s1 where s1: "r = Inr s1" "aodv_inv b H s1" "R H s s1" using assms(1) by (auto simp: step_def)
  obtain s2 where "f s1 = Inr s2" "aodv_inv b' H' s2" "R H' s1 s2"
    using assms(3) [OF s1(2,3)] by (auto simp: step_def)
  with s1 assms(2) show ?thesis by (auto simp: step_def intro: R_trans)
qed

lemma step2_bind:
  assumes "step2 R b H s r" "H' \<subseteq> H"
    and "\<And>x s1. aodv_inv b H s1 \<Longrightarrow> R H s s1 \<Longrightarrow> step R b' H' s1 (f (x, s1))"
  shows "step R b' H' s (bindE r f)"
proof -
  obtain x s1 where s1: "r = Inr (x, s1)" "aodv_inv b H s1" "R H s s1" using assms(1) by (auto simp: step2_def)
  obtain s2 where "f (x, s1) = Inr s2" "aodv_inv b' H' s2" "R H' s1 s2"
    using assms(3) [OF s1(2,3)] by (auto simp: step_def)
  with s1 assms(2) show ?thesis by (auto simp: step_def intro: R_trans)
qed

lemma step_step2:
  assumes "step R b H s r" "H' \<subseteq> H"
    and "\<And>s1. aodv_inv b H s1 \<Longrightarrow> R H s s1 \<Longrightarrow> step2 R b' H' s1 (f s1)"
  shows "step2 R b' H' s (bindE r f)"
proof -
  obtain s1 where s1: "r = Inr s1" "aodv_inv b H s1" "R H s s1" using assms(1) by (auto simp: step_def)
  obtain x s2 where "f s1 = Inr (x, s2)" "aodv_inv b' H' s2" "R H' s1 s2"
    using assms(3) [OF s1(2,3)] by (auto simp: step2_def)
  with s1 assms(2) show ?thesis by (auto simp: step2_def intro: R_trans)
qed

lemma step2_step2:
  assumes "step2 R b H s r" "H' \<subseteq> H"
    and "\<And>x s1. aodv_inv b H s1 \<Longrightarrow> R H s s1 \<Longrightarrow> step2 R b' H' s1 (f (x, s1))"
  shows "step2 R b' H' s (bindE r f)"
proof -
  obtain x s1 where s1: "r = Inr (x, s1)" "aodv_inv b H s1" "R H s s1" using assms(1) by (auto simp: step2_def)
  obtain y s2 where "f (x, s1) = Inr (y, s2)" "aodv_inv b' H' s2" "R H' s1 s2"
    using assms(3) [OF s1(2,3), of x] by (auto simp: step2_def)
  with s1 assms(2) show ?thesis by (auto simp: step2_def intro: R_trans)
qed

lemma step2_Inr: "aodv_inv b H s' \<Longrightarrow> R H s s' \<Longrightarrow> step2 R b H s (Inr (x, s'))"
  by (simp add: step2_def)

lemma R_mono: "R H s s' \<Longrightarrow> H' \<subseteq> H \<Longrightarrow> R H' s s'"
  by (rule R_trans [OF _ R_refl])

text \<open>A state change in front of an operation.\<close>

lemma step_after: "R H s s1 \<Longrightarrow> step R b H' s1 r \<Longrightarrow> H' \<subseteq> H \<Longrightarrow> step R b H' s r"
  by (auto simp: step_def intro: R_trans)

lemma step2_after: "R H s s1 \<Longrightarrow> step2 R b H' s1 r \<Longrightarrow> H' \<subseteq> H \<Longrightarrow> step2 R b H' s r"
  by (auto simp: step2_def intro: R_trans)

text \<open>A loop over a list whose rounds are such steps.\<close>

lemma foldE_step:
  assumes "aodv_inv b H s" "\<And>x s1. x \<in> set xs \<Longrightarrow> aodv_inv b H s1 \<Longrightarrow> R H s s1 \<Longrightarrow> step R b H s1 (f x s1)"
  shows "step R b H s (foldE f xs s)"
proof -
  have "\<exists>s'. foldE f xs s = Inr s' \<and> aodv_inv b H s' \<and> R H s s'"
  proof (rule foldE_total)
    fix x s1 assume x: "x \<in> set xs" and s1: "aodv_inv b H s1 \<and> R H s s1"
    then obtain s2 where "f x s1 = Inr s2" "aodv_inv b H s2" "R H s1 s2"
      using assms(2) [OF x] by (auto simp: step_def)
    with s1 show "\<exists>s2. f x s1 = Inr s2 \<and> aodv_inv b H s2 \<and> R H s s2" by (blast intro: R_trans)
  qed (use assms(1) R_refl in simp)
  then show ?thesis by (simp add: step_def)
qed

end

lemma frame_trans: "frame H s s1 \<Longrightarrow> frame H' s1 s2 \<Longrightarrow> H' \<subseteq> H \<Longrightarrow> frame H' s s2"
  by (auto simp: frame_def)

lemma frame_refl [simp]: "frame H s s"
  by (simp add: frame_def)

interpretation quiet: frame_rel quiet
proof
  show "quiet H s s" for H s by (simp add: quiet_def)
  show "quiet H' s s2" if "quiet H s s1" "quiet H' s1 s2" "H' \<subseteq> H" for H s s1 H' s2
    using that by (auto simp: quiet_def intro: frame_trans)
qed

lemma as_good_refl [simp]: "as_good rt rt"
  by (simp add: as_good_def)

lemma as_good_trans: "as_good r1 r2 \<Longrightarrow> as_good r2 r3 \<Longrightarrow> as_good r1 r3"
  by (auto simp: as_good_def)

lemma as_good_core: "core rt' = core rt \<Longrightarrow> as_good rt rt'"
  by (simp add: as_good_def core_def)

lemma improves_refl [simp]: "improves t t"
  by (simp add: improves_def)

lemma improves_trans: "improves t t1 \<Longrightarrow> improves t1 t2 \<Longrightarrow> improves t t2"
  unfolding improves_def by (meson as_good_trans)

interpretation evolves: frame_rel evolves
proof
  show "evolves H s s" for H s by (simp add: evolves_def)
  show "evolves H' s s2" if "evolves H s s1" "evolves H' s1 s2" "H' \<subseteq> H" for H s s1 H' s2
    using that by (auto simp: evolves_def intro: frame_trans improves_trans)
qed

text \<open>Routes are found in tables with the same core.\<close>

lemma core_lookup:
  "map core t' = map core t \<Longrightarrow> map_option core (rt_lookup d t') = map_option core (rt_lookup d t)"
proof (induction t arbitrary: t')
  case (Cons rt t)
  then obtain rt' u where "t' = rt' # u" "core rt' = core rt" "map core u = map core t" by (cases t') auto
  moreover from this have "rt_dst rt' = rt_dst rt" by (simp add: core_def)
  ultimately show ?case using Cons.IH [of u] by simp
qed simp

lemma core_lookup_Some:
  assumes "map core t' = map core t" "rt_lookup d t = Some rt"
  obtains rt' where "rt_lookup d t' = Some rt'" "core rt' = core rt"
  using core_lookup [OF assms(1), of d] assms(2) by (cases "rt_lookup d t'") auto

lemma quiet_evolves: "quiet H s s' \<Longrightarrow> evolves H s s'"
  unfolding quiet_def evolves_def improves_def
  by (auto intro: as_good_core elim!: core_lookup_Some [of "rtable s'" "rtable s"])

lemma step_quiet: "step quiet b H s r \<Longrightarrow> step evolves b H s r"
  by (auto simp: step_def intro: quiet_evolves)

lemma step2_quiet: "step2 quiet b H s r \<Longrightarrow> step2 evolves b H s r"
  by (auto simp: step2_def intro: quiet_evolves)

lemma aodv_inv_mono: "aodv_inv b H s \<Longrightarrow> H' \<subseteq> H \<Longrightarrow> aodv_inv b H' s"
  unfolding aodv_inv_def aodv_rep_def by blast


text \<open>Operations that leave the send buffer alone too.\<close>

definition still :: "paddr set \<Rightarrow> AODV \<Rightarrow> AODV \<Rightarrow> bool" where
  "still H s s' \<longleftrightarrow> quiet H s s' \<and> rqueue s' = rqueue s"

interpretation still: frame_rel still
proof
  show "still H s s" for H s by (simp add: still_def quiet.R_refl)
  show "still H' s s2" if "still H s s1" "still H' s1 s2" "H' \<subseteq> H" for H s s1 H' s2
    using that by (auto simp: still_def intro: quiet.R_trans)
qed

lemma step_still: "step still b H s r \<Longrightarrow> step quiet b H s r"
  by (auto simp: step_def still_def)

lemma step2_still: "step2 still b H s r \<Longrightarrow> step2 quiet b H s r"
  by (auto simp: step2_def still_def)

section \<open>Primitive operations\<close>

lemma aodv_invE:
  assumes "aodv_inv b H s"
  obtains xs ys where "aodv_rep b H s xs ys"
  using assms by (auto simp: aodv_inv_def)

lemma aodv_inv_owned: "aodv_inv b H s \<Longrightarrow> a \<in> H \<Longrightarrow> owned (net s) a"
  by (auto simp: aodv_inv_def aodv_rep_def)

lemma aodv_inv_pool: "aodv_inv b H s \<Longrightarrow> pool_inv (net s)"
  by (auto simp: aodv_inv_def aodv_rep_def)

lemma aodv_inv_target: "aodv_inv b H s \<Longrightarrow> target s" "aodv_inv b H s \<Longrightarrow> dmux s"
  by (auto simp: aodv_inv_def aodv_rep_def)

lemma aodv_inv_seqno: "aodv_inv b H s \<Longrightarrow> even (unat (seqno s))"
  by (auto simp: aodv_inv_def aodv_rep_def)

lemma aodv_inv_entry: "aodv_inv b H s \<Longrightarrow> rt_lookup d (rtable s) = Some rt \<Longrightarrow> entry_inv b rt"
  by (auto simp: aodv_inv_def aodv_rep_def dest: rt_lookup_in)

lemma aodv_inv_distinct: "aodv_inv b H s \<Longrightarrow> distinct (map rt_dst (rtable s))"
  by (auto simp: aodv_inv_def aodv_rep_def)

text \<open>A change of packets that nobody here has, or of what is in hand.\<close>

lemma aodv_rep_net:
  assumes "aodv_rep b H s xs ys" "pool_inv w" "same_live A (net s) w" "A \<inter> (set xs \<union> set ys \<union> H') = {}" "H' \<subseteq> H"
  shows "aodv_rep b H' (s\<lparr>net := w\<rparr>) xs ys"
proof -
  have ow: "\<And>a. a \<in> set xs \<union> set ys \<union> H' \<Longrightarrow> owned (net s) a"
    using assms(1,5) by (auto simp: aodv_rep_def rq_inv_def)
  have eq: "pk w a = pkt s a" if "a \<in> set xs \<union> set ys \<union> H'" for a
    by (rule same_liveD [OF assms(3)]) (use ow [OF that] assms(4) that in \<open>auto simp: owned_def\<close>)
  have "rq_inv (rqueue s) w xs"
    by (rule rq_inv_cong [of _ "net s"]) (use assms(1) eq in \<open>auto simp: aodv_rep_def\<close>)
  moreover have "\<forall>a \<in> H' \<union> set ys. owned w a" using ow eq by (auto simp: owned_def)
  moreover have "\<forall>a \<in> set xs. ih_daddr (pk w a) \<noteq> IP_BROADCAST" using assms(1) eq by (auto simp: aodv_rep_def)
  ultimately show ?thesis using assms(1,2,5) by (auto simp: aodv_rep_def)
qed

lemma still_net:
  assumes "aodv_inv b H s" "same_live A (net s) w" "A \<inter> H' = {}" "H' \<subseteq> H" "trace w = trace (net s) @ es"
  shows "still H' s (s\<lparr>net := w\<rparr>)"
proof -
  have "pk w a = pkt s a" if "a \<in> H'" for a
    by (rule same_liveD [OF assms(2)]) (use that assms aodv_inv_owned [OF assms(1)] in \<open>auto simp: owned_def\<close>)
  then show ?thesis using assms by (auto simp: still_def quiet_def frame_def same_live_now)
qed

lemma alloc_step:
  assumes "aodv_inv b H s"
  obtains a w where "Packet_alloc (net s) = Inr (a, w)" "aodv_inv b (insert a H) (s\<lparr>net := w\<rparr>)"
    "still H s (s\<lparr>net := w\<rparr>)" "a \<notin> H" "ch_direction (pk w a) = DOWN"
proof -
  obtain xs ys where r: "aodv_rep b H s xs ys" by (rule aodv_invE [OF assms])
  obtain a w where w: "Packet_alloc (net s) = Inr (a, w)" "pool_inv w" "\<not> fflag (pkt s a)"
    "pk w a = new_header ((pkt s a)\<lparr>queued := False, ref_count := 0\<rparr>)"
    "same_live {} (net s) w" "trace w = trace (net s)" "owned w a"
    by (rule alloc_ok [OF aodv_inv_pool [OF assms]])
  have na: "a \<notin> set xs \<union> set ys \<union> H" using w(3) r by (auto simp: aodv_rep_def rq_inv_def owned_def)
  have "aodv_rep b H (s\<lparr>net := w\<rparr>) xs ys" by (rule aodv_rep_net [OF r w(2,5)]) auto
  then have "aodv_rep b (insert a H) (s\<lparr>net := w\<rparr>) xs ys" using na w(7) by (simp add: aodv_rep_def)
  moreover have "still H s (s\<lparr>net := w\<rparr>)" by (rule still_net [OF assms w(5), where es = "[]"]) (use w(6) in auto)
  ultimately show thesis using that w na by (auto simp: aodv_inv_def)
qed

text \<open>An operation that gives a packet in hand away.\<close>

lemma give_away:
  assumes "aodv_inv b (insert a H) s" "a \<notin> H" "pool_inv w" "same_live {a} (net s) w" "trace w = trace (net s) @ es"
  shows "step still b H s (Inr (s\<lparr>net := w\<rparr>))"
proof -
  obtain xs ys where r: "aodv_rep b (insert a H) s xs ys" by (rule aodv_invE [OF assms(1)])
  have "aodv_rep b H (s\<lparr>net := w\<rparr>) xs ys"
    by (rule aodv_rep_net [OF r assms(3,4)]) (use r assms(2) in \<open>auto simp: aodv_rep_def\<close>)
  moreover have "still H s (s\<lparr>net := w\<rparr>)"
    by (rule still_net [OF assms(1,4) _ _ assms(5)]) (use assms(2) in auto)
  ultimately show ?thesis by (auto simp: step_def aodv_inv_def)
qed

lemma free_step:
  assumes "aodv_inv b (insert a H) s" "a \<notin> H"
  shows "step still b H s (with_net (Packet_free a) s)"
proof -
  obtain w where "Packet_free a (net s) = Inr w" "pool_inv w" "same_live {a} (net s) w" "trace w = trace (net s)"
    by (rule free_ok [OF aodv_inv_pool [OF assms(1)] aodv_inv_owned [OF assms(1) insertI1]])
  then show ?thesis using give_away [OF assms, of w "[]"] by (simp add: with_net_def)
qed

lemma agent_drop_step:
  assumes "aodv_inv b (insert a H) s" "a \<notin> H"
  shows "step still b H s (agent_drop a r s)"
proof -
  obtain w where "Connector_drop (ag_drop s) a r (net s) = Inr w" "pool_inv w" "same_live {a} (net s) w"
    "trace w = trace (net s) @ [Dropped a (pkt s a) r]"
    by (rule drop_ok [OF aodv_inv_pool [OF assms(1)] aodv_inv_owned [OF assms(1) insertI1]])
  then show ?thesis using give_away [OF assms, of w] by (simp add: with_net_def agent_drop_def)
qed

lemma enter_queue_step:
  assumes "aodv_inv b (insert a H) s" "a \<notin> H"
  shows "step still b H s (with_net (\<lambda>w. enter_queue a (log_action (e w) w)) s)"
proof -
  have ow: "owned (net s) a" by (rule aodv_inv_owned [OF assms(1) insertI1])
  define w where "w = pk_upd a (\<lambda>p. p\<lparr>queued := True\<rparr>) (log_action (e (net s)) (net s))"
  have "pool_inv w" unfolding w_def
    by (rule pool_inv_upd) (use ow aodv_inv_pool [OF assms(1)] in \<open>simp_all add: owned_def\<close>)
  moreover have "same_live {a} (net s) w" by (simp add: w_def same_live_def)
  moreover have "with_net (\<lambda>w. enter_queue a (log_action (e w) w)) s = Inr (s\<lparr>net := w\<rparr>)"
    using ow by (simp add: with_net_def enter_queue_def w_def owned_def)
  ultimately show ?thesis
    using give_away [OF assms, of w "[e (net s)]"] by (simp add: w_def)
qed

lemma schedule_target_step:
  "aodv_inv b (insert a H) s \<Longrightarrow> a \<notin> H \<Longrightarrow> step still b H s (schedule_target a base spread s)"
  using enter_queue_step [of b a H s "\<lambda>w. Sent a (pk w a) base spread"] aodv_inv_target(1) [of b "insert a H" s]
  by (simp add: schedule_target_def)

text \<open>A change of the headers of a packet in hand.\<close>

definition header_change :: "(Packet \<Rightarrow> Packet) \<Rightarrow> bool" where
  "header_change f \<longleftrightarrow> (\<forall>p. fflag (f p) = fflag p \<and> ref_count (f p) = ref_count p \<and> queued (f p) = queued p)"

lemma set_pkt_inv:
  assumes "aodv_inv b (insert a H) s" "header_change f" "a \<notin> H"
  shows "aodv_inv b (insert a H) (set_pkt a f s)" "still H s (set_pkt a f s)"
proof -
  obtain xs ys where r: "aodv_rep b (insert a H) s xs ys" by (rule aodv_invE [OF assms(1)])
  have ow: "owned (net s) a" by (rule aodv_inv_owned [OF assms(1) insertI1])
  have hc: "fflag (f p) = fflag p" "ref_count (f p) = ref_count p" "queued (f p) = queued p" for p
    using assms(2) by (simp_all add: header_change_def)
  have pl: "pool_inv (pk_upd a f (net s))"
    by (rule pool_inv_upd [OF aodv_inv_pool [OF assms(1)]]) (use ow in \<open>simp_all add: owned_def hc\<close>)
  have sl: "same_live {a} (net s) (pk_upd a f (net s))" by (simp add: same_live_def)
  have "aodv_rep b H (set_pkt a f s) xs ys" unfolding set_pkt_def
    by (rule aodv_rep_net [OF r pl sl]) (use r assms(3) in \<open>auto simp: aodv_rep_def\<close>)
  then have "aodv_rep b (insert a H) (set_pkt a f s) xs ys"
    using r ow by (simp add: aodv_rep_def owned_def set_pkt_def hc)
  then show "aodv_inv b (insert a H) (set_pkt a f s)" by (auto simp: aodv_inv_def)
  show "still H s (set_pkt a f s)" unfolding set_pkt_def
    by (rule still_net [OF assms(1) sl, where es = "[]"]) (use assms(3) in auto)
qed


subsection \<open>Changes of routes\<close>

lemma entry_inv_mono: "entry_inv b rt \<Longrightarrow> (b \<Longrightarrow> b') \<Longrightarrow> entry_inv b' rt"
  by (auto simp: entry_inv_def)

lemma entry_inv_core: "core rt' = core rt \<Longrightarrow> entry_inv b rt \<Longrightarrow> entry_inv b rt'"
  by (simp add: entry_inv_def usable_def core_def)

lemma aodv_inv_weaken: "aodv_inv b H s \<Longrightarrow> (b \<Longrightarrow> b') \<Longrightarrow> aodv_inv b' H s"
  unfolding aodv_inv_def aodv_rep_def by (blast intro: entry_inv_mono)

lemma set_rt_inv:
  assumes "aodv_inv b H s" "\<And>rt. rt_dst rt = d \<Longrightarrow> rt_dst (f rt) = d"
    and "\<And>rt. rt_lookup d (rtable s) = Some rt \<Longrightarrow> entry_inv b (f rt)"
  shows "aodv_inv b H (set_rt d f s)"
proof -
  obtain xs ys where r: "aodv_rep b H s xs ys" by (rule aodv_invE [OF assms(1)])
  have "entry_inv b rt" if "rt \<in> set (rt_write d f (rtable s))" for rt
    using that by (rule set_rt_write) (use r assms(3) in \<open>auto simp: aodv_rep_def\<close>)
  then have "aodv_rep b H (set_rt d f s) xs ys"
    using r by (simp add: aodv_rep_def set_rt_def dsts_write [OF assms(2)])
  then show ?thesis by (auto simp: aodv_inv_def)
qed

lemma core_write:
  "(\<And>rt. rt_lookup d t = Some rt \<Longrightarrow> core (f rt) = core rt) \<Longrightarrow> map core (rt_write d f t) = map core t"
  by (induction t) auto

lemma frame_set_rt [simp]: "frame H s (set_rt d f s)"
  by (simp add: frame_def set_rt_def)

lemma set_rt_still:
  "(\<And>rt. rt_lookup d (rtable s) = Some rt \<Longrightarrow> core (f rt) = core rt) \<Longrightarrow> still H s (set_rt d f s)"
  by (simp add: still_def quiet_def core_write) (simp add: set_rt_def core_write)

lemma set_rt_core:
  assumes "aodv_inv b H s" "\<And>rt. rt_dst rt = d \<Longrightarrow> rt_dst (f rt) = d"
    and "\<And>rt. rt_lookup d (rtable s) = Some rt \<Longrightarrow> core (f rt) = core rt"
  shows "aodv_inv b H (set_rt d f s)" "still H s (set_rt d f s)"
proof -
  show "aodv_inv b H (set_rt d f s)"
  proof (rule set_rt_inv [OF assms(1,2)])
    show "entry_inv b (f rt)" if "rt_lookup d (rtable s) = Some rt" for rt
      by (rule entry_inv_core [OF assms(3) [OF that] aodv_inv_entry [OF assms(1) that]])
  qed
  show "still H s (set_rt d f s)" by (rule set_rt_still [OF assms(3)])
qed

lemma lookup_set_rt:
  "(\<And>rt. rt_dst rt = d \<Longrightarrow> rt_dst (f rt) = d) \<Longrightarrow>
    rt_lookup e (rtable (set_rt d f s)) = (if e = d then map_option f (rt_lookup d (rtable s)) else rt_lookup e (rtable s))"
  by (simp add: set_rt_def rt_lookup_write)

lemma set_rt_evolves:
  assumes "\<And>rt. rt_dst rt = d \<Longrightarrow> rt_dst (f rt) = d"
    and "\<And>rt. rt_lookup d (rtable s) = Some rt \<Longrightarrow> as_good rt (f rt)"
  shows "evolves H s (set_rt d f s)"
proof -
  have "\<exists>rt'. rt_lookup e (rtable (set_rt d f s)) = Some rt' \<and> as_good rt rt'"
    if "rt_lookup e (rtable s) = Some rt" for e rt
    using that assms(2) [of rt] by (cases "e = d") (simp_all add: lookup_set_rt [OF assms(1)])
  then show ?thesis by (simp add: evolves_def improves_def)
qed

subsection \<open>The send buffer\<close>

lemma aodv_rep_queue:
  assumes "aodv_rep b H s xs ys" "pool_inv w" "rq_inv q w xs'" "0 < rq_limit q"
    and "same_live A (net s) w" "A \<inter> (set ys \<union> H') = {}" "H' \<subseteq> H" "set xs' \<inter> (set ys \<union> H') = {}"
    and "\<forall>a \<in> set xs'. ih_daddr (pk w a) \<noteq> IP_BROADCAST"
  shows "aodv_rep b H' (s\<lparr>rqueue := q, net := w\<rparr>) xs' ys"
proof -
  have "owned w a" if "a \<in> H' \<union> set ys" for a
    by (rule owned_same_live [OF _ assms(5)]) (use assms(1,6,7) that in \<open>auto simp: aodv_rep_def\<close>)
  then show ?thesis using assms by (auto simp: aodv_rep_def)
qed

lemma quiet_queue:
  assumes "aodv_inv b H s" "same_live A (net s) w" "A \<inter> H' = {}" "H' \<subseteq> H" "trace w = trace (net s) @ es"
  shows "quiet H' s (s\<lparr>rqueue := q, net := w\<rparr>)"
  using still_net [OF assms] by (simp add: still_def quiet_def frame_def)

lemma buffer_packet_step:
  assumes "aodv_inv b (insert a H) s" "a \<notin> H" "ih_daddr (pkt s a) \<noteq> IP_BROADCAST"
  shows "step quiet b H s (buffer_packet a s)"
proof -
  obtain xs ys where r: "aodv_rep b (insert a H) s xs ys" by (rule aodv_invE [OF assms(1)])
  let ?fr = "fresh (net s) xs"
  let ?zs = "if overflow (rqueue s) ?fr then tl ?fr else ?fr"
  obtain q w es where e: "rq_enque a (rqueue s) (net s) = Inr (q, w)" "rq_inv q w (?zs @ [a])"
    "same_settings (rqueue s) q" "pool_inv w" "same_live (insert a (set xs)) (net s) w"
    "\<forall>c \<in> set ?zs. \<exists>n. pk w c = (pkt s c)\<lparr>pk_next := n\<rparr>"
    "pk w a = (pkt s a)\<lparr>pk_next := None, ch_ts := CURRENT_TIME s + rq_timeout (rqueue s)\<rparr>"
    "trace w = trace (net s) @ es"
    using r by (auto simp: aodv_rep_def intro: rq_enque_ok [of "net s" "rqueue s" xs a])
  have zs: "set ?zs \<subseteq> set xs"
    by (auto simp: fresh_def dest: list.set_sel(2) [rotated] split: if_splits)
      (metis (no_types, lifting) filter_is_subset list.sel(2) list.set_sel(2) subsetD)
  have da: "\<forall>c \<in> set (?zs @ [a]). ih_daddr (pk w c) \<noteq> IP_BROADCAST"
  proof
    fix c assume "c \<in> set (?zs @ [a])"
    then consider "c \<in> set ?zs" | "c = a" by auto
    then show "ih_daddr (pk w c) \<noteq> IP_BROADCAST"
    proof cases
      case 1
      then obtain n where "pk w c = (pkt s c)\<lparr>pk_next := n\<rparr>" using e(6) by blast
      with 1 zs r show ?thesis by (auto simp: aodv_rep_def)
    qed (use e(7) assms(3) in simp)
  qed
  have "aodv_rep b H (s\<lparr>rqueue := q, net := w\<rparr>) (?zs @ [a]) ys"
    by (rule aodv_rep_queue [OF r e(4,2) _ e(5) _ _ _ da])
      (use r zs assms(2) e(3) in \<open>auto simp: aodv_rep_def same_settings_def\<close>)
  moreover have "quiet H s (s\<lparr>rqueue := q, net := w\<rparr>)"
    by (rule quiet_queue [OF assms(1) e(5) _ _ e(8)]) (use r assms(2) in \<open>auto simp: aodv_rep_def\<close>)
  ultimately show ?thesis by (auto simp: step_def buffer_packet_def e(1) aodv_inv_def)
qed


lemma rq_len_length: "aodv_rep b H s xs ys \<Longrightarrow> rq_len (rqueue s) = int (length xs)"
  by (simp add: aodv_rep_def rq_inv_def)

lemma take_packet_step:
  assumes "aodv_inv b H s"
  obtains s' where "take_packet d s = Inr (None, s')" "aodv_inv b H s'" "quiet H s s'"
  | a s' where "take_packet d s = Inr (Some a, s')" "aodv_inv b (insert a H) s'" "a \<notin> H" "quiet H s s'"
    "ih_daddr (pkt s' a) = d" "d \<noteq> IP_BROADCAST" "0 \<le> rq_len (rqueue s')" "rq_len (rqueue s') < rq_len (rqueue s)"
proof -
  obtain xs ys where r: "aodv_rep b H s xs ys" by (rule aodv_invE [OF assms])
  have pl: "pool_inv (net s)" and rq: "rq_inv (rqueue s) (net s) xs" using r by (simp_all add: aodv_rep_def)
  let ?p = "first_for (net s) d (fresh (net s) xs)"
  obtain q w where e: "rq_deque d (rqueue s) (net s) = Inr (?p, q, w)"
    "rq_inv q w (without ?p (fresh (net s) xs))" "relink (set xs) (net s) w" "same_settings (rqueue s) q" "pool_inv w"
    by (rule rq_deque_ok [OF pl rq])
  let ?s = "s\<lparr>rqueue := q, net := w\<rparr>"
  have fx: "set (fresh (net s) xs) \<subseteq> set xs" by (auto simp: fresh_def)
  have wx: "set (without ?p (fresh (net s) xs)) \<subseteq> set xs"
    using fx by (auto simp: without_def split: option.splits dest: notin_set_remove1)
  have da: "ih_daddr (pk w c) \<noteq> IP_BROADCAST" if "c \<in> set xs" for c
    using that r by (simp add: aodv_rep_def relink_fields(4) [OF e(3)])
  have rep: "aodv_rep b H ?s (without ?p (fresh (net s) xs)) ys"
    by (rule aodv_rep_queue [OF r e(5,2) _ relink_same_live [OF e(3)]])
      (use r wx da e(4) in \<open>auto simp: aodv_rep_def same_settings_def\<close>)
  have qt: "quiet H s ?s"
    by (rule quiet_queue [OF assms relink_same_live [OF e(3)], where es = "[]"])
      (use r relink_fields(8) [OF e(3)] in \<open>auto simp: aodv_rep_def\<close>)
  show thesis
  proof (cases ?p)
    case None
    then show thesis using that(1) [of ?s] e(1) rep qt by (auto simp: take_packet_def aodv_inv_def)
  next
    case (Some a)
    then have a: "a \<in> set (fresh (net s) xs)" "ih_daddr (pkt s a) = d"
      by (auto simp: first_for_def find_Some_iff)
    then have ax: "a \<in> set xs" using fx by blast
    have dx: "distinct (fresh (net s) xs)" using rq by (simp add: rq_inv_def fresh_def)
    have "owned w a" using rq ax by (simp add: rq_inv_def relink_owned [OF e(3)])
    moreover have "a \<notin> H" "a \<notin> set ys" using r ax by (auto simp: aodv_rep_def)
    moreover have "a \<notin> set (without ?p (fresh (net s) xs))" using Some dx by (simp add: without_def)
    ultimately have inv: "aodv_inv b (insert a H) ?s" using rep by (auto simp: aodv_inv_def aodv_rep_def)
    have "length (without ?p (fresh (net s) xs)) < length (fresh (net s) xs)"
      using Some a(1) length_pos_if_in_set [OF a(1)] by (simp add: without_def length_remove1)
    also have "\<dots> \<le> length xs" by (simp add: fresh_def)
    finally have "rq_len (rqueue ?s) < rq_len (rqueue s)"
      using rq_len_length [OF r] rq_len_length [OF rep] by simp
    then show thesis
      using that(2) [of a ?s] Some e(1) inv \<open>a \<notin> H\<close> qt a(2) da [OF ax] rq_len_length [OF rep]
      by (simp add: take_packet_def relink_fields(4) [OF e(3)])
  qed
qed

text \<open>The loop over the buffered packets of a destination ends, whatever is done to them, as long as
  that keeps the buffer.\<close>

lemma drain_step:
  assumes "aodv_inv b H s" "rq_len (rqueue s) \<le> int n"
    and body: "\<And>a delay s1. aodv_inv b (insert a H) s1 \<Longrightarrow> a \<notin> H \<Longrightarrow> quiet H s s1 \<Longrightarrow> ih_daddr (pkt s1 a) = d \<Longrightarrow>
      d \<noteq> IP_BROADCAST \<Longrightarrow> step2 still b H s1 (body a delay s1)"
  shows "step2 quiet b H s (drain n d body delay s)"
  using assms
proof (induction n arbitrary: s delay)
  case 0
  show ?case
  proof (cases rule: take_packet_step [OF 0(1), of d])
    case (1 s')
    then show ?thesis by (simp add: step2_def)
  next
    case (2 a s')
    with 0(2) show ?thesis by simp
  qed
next
  case (Suc n)
  show ?case
  proof (cases rule: take_packet_step [OF Suc.prems(1), of d])
    case (1 s')
    then show ?thesis by (simp add: step2_def)
  next
    case (2 a s')
    have "step2 still b H s' (body a delay s')" by (rule Suc.prems(3) [OF 2(2,3,4,5,6)])
    then obtain delay1 s2 where s2: "body a delay s' = Inr (delay1, s2)" "aodv_inv b H s2" "still H s' s2"
      by (auto simp: step2_def)
    have q2: "quiet H s s2" using 2(4) s2(3) by (auto simp: still_def intro: quiet.R_trans)
    have "step2 quiet b H s2 (drain n d body delay1 s2)"
    proof (rule Suc.IH [OF s2(2)])
      show "rq_len (rqueue s2) \<le> int n" using 2(8) Suc.prems(2) s2(3) by (simp add: still_def)
      show "step2 still b H s1 (body c del s1)"
        if "aodv_inv b (insert c H) s1" "c \<notin> H" "quiet H s2 s1" "ih_daddr (pkt s1 c) = d" "d \<noteq> IP_BROADCAST" for c del s1
        by (rule Suc.prems(3) [OF that(1,2) quiet.R_trans [OF q2 that(3) order_refl] that(4,5)])
    qed
    then have "step2 quiet b H s (drain n d body delay1 s2)" by (rule quiet.step2_after [OF q2 _ order_refl])
    then show ?thesis using 2(1) s2(1) by simp
  qed
qed

lemma drain_all_step:
  assumes "aodv_inv b H s"
    and "\<And>a delay s1. aodv_inv b (insert a H) s1 \<Longrightarrow> a \<notin> H \<Longrightarrow> quiet H s s1 \<Longrightarrow> ih_daddr (pkt s1 a) = d \<Longrightarrow>
      d \<noteq> IP_BROADCAST \<Longrightarrow> step2 still b H s1 (body a delay s1)"
  shows "step2 quiet b H s (drain_all d body delay s)"
proof -
  obtain xs ys where r: "aodv_rep b H s xs ys" by (rule aodv_invE [OF assms(1)])
  then have "length xs \<le> pk_brk (net s)" using chain_bound [of "net s" "rqueue s" xs] by (simp add: aodv_rep_def)
  then have n: "rq_len (rqueue s) \<le> int (pk_brk (net s))" using rq_len_length [OF r] by simp
  show ?thesis unfolding drain_all_def by (rule drain_step [OF assms(1) n assms(2)])
qed

lemma drop_buffered_step: "aodv_inv b H s \<Longrightarrow> step quiet b H s (drop_buffered d s)"
  unfolding drop_buffered_def
proof (rule quiet.step2_bind)
  assume inv: "aodv_inv b H s"
  show "step2 quiet b H s (drain_all d (\<lambda>a delay s. bindE (agent_drop a ''NRTE'' s) (\<lambda>s1. Inr (delay, s1))) 0 s)"
  proof (rule drain_all_step [OF inv])
    show "step2 still b H s1 (bindE (agent_drop a ''NRTE'' s1) (\<lambda>s2. Inr (delay, s2)))"
      if "aodv_inv b (insert a H) s1" "a \<notin> H" for a delay s1
      by (rule still.step_step2 [OF agent_drop_step [OF that] order_refl]) (simp add: step2_def still.R_refl)
  qed
qed (auto simp: step_def quiet.R_refl)

subsection \<open>Sending\<close>

text \<open>\<^verbatim>\<open>forward\<close> does not abort when a route is given that is up, for a packet to a node, or none for
  a broadcast.\<close>

definition can_forward :: "nsaddr_t option \<Rightarrow> paddr \<Rightarrow> AODV \<Rightarrow> bool" where
  "can_forward rt a s \<longleftrightarrow> (case rt of
     None \<Rightarrow> ih_daddr (pkt s a) = IP_BROADCAST
   | Some d \<Rightarrow> ih_daddr (pkt s a) \<noteq> IP_BROADCAST \<and> (\<exists>e. rt_lookup d (rtable s) = Some e \<and> rt_flags e = RTF_UP))"

lemma forward_header_step:
  assumes "aodv_inv b (insert a H) s" "a \<notin> H" "can_forward rt a s"
  shows "\<exists>s1. forward_header rt a s = Inr s1 \<and> aodv_inv b (insert a H) s1 \<and> still H s s1 \<and>
    ih_daddr (pkt s1 a) = ih_daddr (pkt s a)"
proof (cases rt)
  case None
  have "header_change (\<lambda>p. p\<lparr>ch_addr_type := NS_AF_NONE, ch_direction := DOWN\<rparr>)" by (simp add: header_change_def)
  from set_pkt_inv [OF assms(1) this assms(2)] show ?thesis
    using None assms(3) by (simp add: forward_header_def can_forward_def) (simp add: set_pkt_def)
next
  case (Some d)
  then obtain e where e: "rt_lookup d (rtable s) = Some e" "rt_flags e = RTF_UP" using assms(3) by (auto simp: can_forward_def)
  let ?s1 = "set_rt d (\<lambda>e. e\<lparr>rt_expire := CURRENT_TIME s + ACTIVE_ROUTE_TIMEOUT\<rparr>) s"
  have s1: "aodv_inv b (insert a H) ?s1" "still H s ?s1"
    using set_rt_core [OF assms(1), of d "\<lambda>e. e\<lparr>rt_expire := CURRENT_TIME s + ACTIVE_ROUTE_TIMEOUT\<rparr>"]
      set_rt_still [of d s "\<lambda>e. e\<lparr>rt_expire := CURRENT_TIME s + ACTIVE_ROUTE_TIMEOUT\<rparr>" H]
    by (simp_all add: core_def)
  have hc: "header_change (\<lambda>p. p\<lparr>ch_next_hop := rt_nexthop e, ch_addr_type := NS_AF_INET, ch_direction := DOWN\<rparr>)"
    by (simp add: header_change_def)
  from set_pkt_inv [OF s1(1) hc assms(2)] s1(2) show ?thesis
    using Some e by (simp add: forward_header_def) (auto simp: set_pkt_def set_rt_def intro: still.R_trans)
qed

lemma forward_step:
  assumes "aodv_inv b (insert a H) s" "a \<notin> H" "can_forward rt a s"
  shows "step still b H s (forward rt a delay s)"
proof -
  obtain s1 where s1: "forward_header rt a s = Inr s1" "aodv_inv b (insert a H) s1" "still H s s1"
    "ih_daddr (pkt s1 a) = ih_daddr (pkt s a)"
    using forward_header_step [OF assms] by blast
  have snd: "step still b H s (schedule_target a x y s1)" for x y
    by (rule still.step_after [OF s1(3) schedule_target_step [OF s1(2) assms(2)] order_refl])
  have del: "step still b H s (Inr (s\<lparr>net := log_action e (net s)\<rparr>))" for e
    using give_away [OF assms(1,2), of "log_action e (net s)" "[e]"] aodv_inv_pool [OF assms(1)] by simp
  have "ih_daddr (pkt s1 a) = IP_BROADCAST \<Longrightarrow> rt = None" using assms(3) s1(4) by (auto simp: can_forward_def split: option.splits)
  then show ?thesis
    using agent_drop_step [OF assms(1,2)] snd del aodv_inv_target(2) [OF assms(1)]
    by (auto simp: forward_def s1(1))
qed

subsection \<open>Requests, replies and errors\<close>

lemma even_inc2:
  fixes n :: u32
  assumes "even (unat n)"
  shows "even (unat (n + 2))"
proof -
  have "unat (n + 2) = (unat n + 2) mod 2 ^ 32" by (simp add: unat_word_ariths)
  then show ?thesis using assms by (simp add: dvd_mod_iff)
qed

lemma even_less_inc:
  fixes n :: u32
  assumes "even (unat n)"
  shows "n < n + 1" "odd (unat (n + 1))"
proof -
  have "unat n < 2 ^ 32" using unsigned_less [of n] by simp
  moreover have "unat n \<noteq> 2 ^ 32 - 1" using assms by auto
  ultimately have u: "unat (n + 1) = unat n + 1" by (simp add: unat_word_ariths)
  show "n < n + 1" by (simp add: word_less_nat_alt u)
  show "odd (unat (n + 1))" using assms by (simp add: u)
qed

lemma set_pkt_send:
  assumes "aodv_inv b (insert a H) s" "a \<notin> H" "header_change f"
  shows "step still b H s (schedule_target a x y (set_pkt a f s))"
  by (rule still.step_after [OF set_pkt_inv(2) [OF assms(1,3,2)] schedule_target_step order_refl])
    (use set_pkt_inv(1) [OF assms(1,3,2)] assms(2) in simp_all)

lemma aodv_inv_fields:
  "aodv_inv b H s \<Longrightarrow> even (unat n) \<Longrightarrow> aodv_inv b H (s\<lparr>bid := i, seqno := n\<rparr>)"
  "aodv_inv b H s \<Longrightarrow> even (unat n) \<Longrightarrow> aodv_inv b H (s\<lparr>seqno := n\<rparr>)"
  "aodv_inv b H s \<Longrightarrow> aodv_inv b H (s\<lparr>nbhead := nbs\<rparr>)"
  "aodv_inv b H s \<Longrightarrow> aodv_inv b H (s\<lparr>bihead := bis\<rparr>)"
  "aodv_inv b H s \<Longrightarrow> aodv_inv b H (s\<lparr>armed := ts\<rparr>)"
  by (simp_all add: aodv_inv_def aodv_rep_def) blast+

lemma still_fields [simp]:
  "still H s (s\<lparr>bid := i, seqno := n\<rparr>)" "still H s (s\<lparr>seqno := n\<rparr>)" "still H s (s\<lparr>nbhead := nbs\<rparr>)"
  by (simp_all add: still_def quiet_def frame_def)

lemma id_insert_still: "still H s (id_insert i n s)"
  by (simp add: still_def quiet_def frame_def id_insert_def)

lemma request_entry_core:
  "request_entry t rt = (ttl, rt1) \<Longrightarrow> core rt1 = core rt \<and> rt_dst rt1 = rt_dst rt"
  by (auto simp: request_entry_def core_def Let_def split: if_splits prod.splits)

lemma sendRequest_step:
  assumes "aodv_inv b H s" "rt_lookup dst (rtable s) = Some rt"
  shows "step quiet b H s (sendRequest dst s)"
proof -
  obtain a w where a: "Packet_alloc (net s) = Inr (a, w)" "aodv_inv b (insert a H) (s\<lparr>net := w\<rparr>)"
    "still H s (s\<lparr>net := w\<rparr>)" "a \<notin> H"
    by (rule alloc_step [OF assms(1)])
  let ?s = "s\<lparr>net := w\<rparr>"
  have q: "quiet H s ?s" using a(3) by (simp add: still_def)
  have fr: "step quiet b H ?s (with_net (Packet_free a) ?s)" by (rule step_still [OF free_step [OF a(2,4)]])
  have up: "rt_flags rt = RTF_UP \<Longrightarrow> rt_hops rt \<noteq> INFINITY2"
    using aodv_inv_entry [OF assms] by (simp add: entry_inv_def usable_def)
  let ?s2 = "set_rt dst (\<lambda>rt. rt\<lparr>rt_req_timeout := sim_clock w + MAX_RREQ_TIMEOUT, rt_req_cnt := 0\<rparr>) ?s"
  have s2: "aodv_inv b (insert a H) ?s2" "still H ?s ?s2"
    using set_rt_core [OF a(2), of dst "\<lambda>rt. rt\<lparr>rt_req_timeout := sim_clock w + MAX_RREQ_TIMEOUT, rt_req_cnt := 0\<rparr>"]
      set_rt_still [of dst ?s "\<lambda>rt. rt\<lparr>rt_req_timeout := sim_clock w + MAX_RREQ_TIMEOUT, rt_req_cnt := 0\<rparr>" H]
    by (simp_all add: core_def)
  have dr: "step quiet b H ?s (bindE (drop_buffered dst ?s2) (with_net (Packet_free a)))"
  proof (rule quiet.step_after [OF _ _ order_refl])
    show "quiet H ?s ?s2" using s2(2) by (simp add: still_def)
    show "step quiet b H ?s2 (bindE (drop_buffered dst ?s2) (with_net (Packet_free a)))"
      by (rule quiet.step_bind [OF drop_buffered_step [OF s2(1)] subset_insertI])
        (rule step_still, rule free_step, assumption, rule a(4))
  qed
  obtain ttl rt1 where e: "request_entry (sim_clock w) rt = (ttl, rt1)" by fastforce
  let ?s3 = "(set_rt dst (\<lambda>_. rt1) ?s)\<lparr>bid := bid s + 1, seqno := seqno s + 2\<rparr>"
  have ev: "even (unat (seqno s + 2))" by (rule even_inc2 [OF aodv_inv_seqno [OF assms(1)]])
  have d1: "rt_dst rt1 = dst" using request_entry_core [OF e] rt_lookup_dst [OF assms(2)] by simp
  have s3: "aodv_inv b (insert a H) ?s3" "still H ?s ?s3"
  proof -
    have c: "aodv_inv b (insert a H) (set_rt dst (\<lambda>_. rt1) ?s)" "still H ?s (set_rt dst (\<lambda>_. rt1) ?s)"
      using set_rt_core [OF a(2), of dst "\<lambda>_. rt1"] set_rt_still [of dst ?s "\<lambda>_. rt1" H] d1 assms(2) request_entry_core [OF e]
      by simp_all
    show "aodv_inv b (insert a H) ?s3" by (rule aodv_inv_fields(1) [OF c(1) ev])
    show "still H ?s ?s3" by (rule still.R_trans [OF c(2) still_fields(1) order_refl])
  qed
  have sn: "step quiet b H ?s (schedule_target a 0 0 (set_pkt a f ?s3))" if "header_change f" for f
    by (rule step_still [OF still.step_after [OF s3(2) set_pkt_send [OF s3(1) a(4) that] order_refl]])
  have "step quiet b H ?s (sendRequest dst s)"
    using fr up dr sn ev assms(2)
    by (auto simp: sendRequest_def a(1) Let_def e header_change_def)
  then show ?thesis by (rule quiet.step_after [OF q _ order_refl])
qed

lemma sendReply_step:
  assumes "aodv_inv b H s" "rt_lookup ipdst (rtable s) = Some rt"
  shows "step still b H s (sendReply ipdst hc d n lt ts s)"
proof -
  obtain a w where a: "Packet_alloc (net s) = Inr (a, w)" "aodv_inv b (insert a H) (s\<lparr>net := w\<rparr>)"
    "still H s (s\<lparr>net := w\<rparr>)" "a \<notin> H"
    by (rule alloc_step [OF assms(1)])
  have "step still b H (s\<lparr>net := w\<rparr>) (sendReply ipdst hc d n lt ts s)"
    using assms(2) by (simp add: sendReply_def a(1) Let_def) (intro set_pkt_send [OF a(2,4)], simp add: header_change_def)
  then show ?thesis by (rule still.step_after [OF a(3) _ order_refl])
qed

lemma sendError_step:
  "aodv_inv b (insert a H) s \<Longrightarrow> a \<notin> H \<Longrightarrow> step still b H s (sendError a re j s)"
  unfolding sendError_def by (rule set_pkt_send) (simp_all add: header_change_def)

lemma sendHello_step:
  assumes "aodv_inv b H s"
  shows "step still b H s (sendHello s)"
proof -
  obtain a w where a: "Packet_alloc (net s) = Inr (a, w)" "aodv_inv b (insert a H) (s\<lparr>net := w\<rparr>)"
    "still H s (s\<lparr>net := w\<rparr>)" "a \<notin> H"
    by (rule alloc_step [OF assms(1)])
  have "step still b H (s\<lparr>net := w\<rparr>) (sendHello s)"
    by (simp add: sendHello_def a(1) Let_def) (intro set_pkt_send [OF a(2,4)], simp add: header_change_def)
  then show ?thesis by (rule still.step_after [OF a(3) _ order_refl])
qed

end
