(* ===== verification/Aodv_Safe.thy ===== *)
theory Aodv_Safe
  imports Aodv_Frame
begin

text \<open>
  The handlers of the AODV agent keep its invariant: requests, replies, errors, lost links, repairs
  and timers.  Each lemma is a \<open>step\<close> of theory \<open>Aodv_Frame\<close>: the handler does not abort, keeps the
  invariant and lets the routes evolve.  What is needed of a received packet is that its sender was
  well-behaved (\<open>honest\<close>).
\<close>

section \<open>Handlers\<close>

subsection \<open>Route requests\<close>

lemma new_entry_inv: "entry_inv b (new_rt_entry\<lparr>rt_dst := d\<rparr>)"
  by (simp add: entry_inv_def usable_def new_rt_entry_def MAX_HISTORY_def)

lemma ensure_rt_step:
  assumes "aodv_inv b H s"
  obtains s' rt where "ensure_rt d s = Inr s'" "aodv_inv b H s'" "evolves H s s'" "rt_lookup d (rtable s') = Some rt"
    "net s' = net s" "rqueue s' = rqueue s"
proof (cases "rt_lookup d (rtable s)")
  case None
  let ?s = "s\<lparr>rtable := new_rt_entry\<lparr>rt_dst := d\<rparr> # rtable s\<rparr>"
  obtain xs ys where r: "aodv_rep b H s xs ys" by (rule aodv_invE [OF assms])
  have "aodv_rep b H ?s xs ys" using r None new_entry_inv [of b d] by (simp add: aodv_rep_def rt_lookup_None)
  then have inv: "aodv_inv b H ?s" by (auto simp: aodv_inv_def)
  have ev: "evolves H s ?s" using None by (auto simp: evolves_def improves_def frame_def)
  show thesis by (rule that [of ?s "new_rt_entry\<lparr>rt_dst := d\<rparr>"])
    (use None inv ev in \<open>simp_all add: ensure_rt_def rt_add_new\<close>)
next
  case (Some rt)
  show thesis by (rule that [of s rt]) (use Some assms evolves.R_refl in \<open>simp_all add: ensure_rt_def\<close>)
qed

lemma evolves_lookup:
  assumes "evolves H s s'" "rt_lookup d (rtable s) = Some rt"
  obtains rt' where "rt_lookup d (rtable s') = Some rt'" "as_good rt rt'"
  using assms by (auto simp: evolves_def improves_def)

lemma quiet_lookup:
  assumes "quiet H s s'" "rt_lookup d (rtable s) = Some rt"
  obtains rt' where "rt_lookup d (rtable s') = Some rt'" "core rt' = core rt"
  using assms by (auto simp: quiet_def elim: core_lookup_Some)

lemma evolves_frame: "evolves H s s' \<Longrightarrow> frame H s s'"
  by (simp add: evolves_def)

text \<open>A request that a well-behaved node has sent: its own even sequence number and a hop count
  that is not the infinite one.\<close>

definition honest_request :: "hdr_aodv_request \<Rightarrow> bool" where
  "honest_request rq \<longleftrightarrow> even (unat (rq_src_seqno rq)) \<and> rq_src_seqno rq \<noteq> 0 \<and> rq_hop_count rq \<noteq> 255"

lemma unat_hops:
  fixes h :: byte
  shows "unat (ucast h :: u16) = unat h"
  by (rule bit_eqI) (auto simp: bit_simps dest: bit_imp_le_length)

lemma hops_finite:
  fixes h :: byte
  assumes "h \<noteq> 255"
  shows "(ucast h :: u16) \<noteq> INFINITY2"
proof
  assume "(ucast h :: u16) = INFINITY2"
  then have "unat (ucast h :: u16) = unat (255 :: u16)" by (simp add: INFINITY2_def)
  then have "unat h = unat (255 :: byte)" by (simp add: unat_hops)
  then show False using assms by (simp add: word_unat_eq_iff)
qed

lemma reverse_entry_core:
  "rt_dst (reverse_entry rq x t rt) = rt_dst rt" "rt_flags (reverse_entry rq x t rt) = RTF_UP"
  "rt_hops (reverse_entry rq x t rt) = ucast (rq_hop_count rq)" "rt_seqno (reverse_entry rq x t rt) = rq_src_seqno rq"
  "hist_indx (reverse_entry rq x t rt) = hist_indx rt"
  by (simp_all add: reverse_entry_def rt_update_def Let_def)

lemma better_as_good:
  "better_route n h rt \<Longrightarrow> rt_seqno rt' = n \<Longrightarrow> rt_hops rt' = ucast h \<Longrightarrow> as_good rt rt'"
  by (auto simp: better_route_def as_good_def)

text \<open>Forwarding the buffered packets of a destination over a route that is up.\<close>

lemma forward_buffered:
  assumes "rt_lookup d (rtable s) = Some rt" "rt_flags rt = RTF_UP" "quiet H s s1"
    and "aodv_inv b (insert a H) s1" "a \<notin> H" "ih_daddr (pkt s1 a) = d" "d \<noteq> IP_BROADCAST"
  shows "\<exists>rt1. rt_lookup d (rtable s1) = Some rt1 \<and> rt_flags rt1 = RTF_UP \<and> rt_hops rt1 \<noteq> INFINITY2"
    "step still b H s1 (forward (Some d) a delay s1)"
proof -
  obtain rt1 where r: "rt_lookup d (rtable s1) = Some rt1" "core rt1 = core rt"
    by (rule quiet_lookup [OF assms(3,1)])
  then have up: "rt_flags rt1 = RTF_UP" using assms(2) by (simp add: core_def)
  show "\<exists>rt1. rt_lookup d (rtable s1) = Some rt1 \<and> rt_flags rt1 = RTF_UP \<and> rt_hops rt1 \<noteq> INFINITY2"
    using r up aodv_inv_entry [OF assms(4) r(1)] by (simp add: entry_inv_def usable_def)
  show "step still b H s1 (forward (Some d) a delay s1)"
    by (rule forward_step [OF assms(4,5)]) (use r up assms(6,7) in \<open>simp add: can_forward_def\<close>)
qed

lemma reverse_drain:
  assumes "aodv_inv b H s" "rt_lookup d (rtable s) = Some rt" "rt_flags rt = RTF_UP"
  shows "step2 quiet b H s (drain_all d (reverse_forward d) x s)"
proof (rule drain_all_step [OF assms(1)])
  fix a delay s1
  assume p: "aodv_inv b (insert a H) s1" "a \<notin> H" "quiet H s s1" "ih_daddr (pkt s1 a) = d" "d \<noteq> IP_BROADCAST"
  note f = forward_buffered [OF assms(2,3) p(3,1,2,4,5)]
  obtain rt1 where "rt_lookup d (rtable s1) = Some rt1" "rt_flags rt1 = RTF_UP" "rt_hops rt1 \<noteq> INFINITY2" using f(1) by blast
  then show "step2 still b H s1 (reverse_forward d a delay s1)"
    using still.step_step2 [OF f(2) order_refl, of b "\<lambda>s2. Inr (delay, s2)" NO_DELAY]
    by (simp add: reverse_forward_def get_rt_def step2_def still.R_refl)
qed

lemma reverse_route_step:
  assumes "aodv_inv b H s" "honest_request rq"
  obtains s' rt where "reverse_route rq x s = Inr s'" "aodv_inv b H s'" "evolves H s s'"
    "rt_lookup (rq_src rq) (rtable s') = Some rt"
proof -
  let ?d = "rq_src rq" and ?t = "CURRENT_TIME s"
  obtain s1 rt1 where s1: "ensure_rt ?d s = Inr s1" "aodv_inv b H s1" "evolves H s s1"
    "rt_lookup ?d (rtable s1) = Some rt1" "net s1 = net s"
    by (rule ensure_rt_step [OF assms(1)])
  let ?e = "\<lambda>rt. rt\<lparr>rt_expire := max (rt_expire rt) (?t + REV_ROUTE_LIFE)\<rparr>"
  let ?s2 = "set_rt ?d ?e s1"
  have s2: "aodv_inv b H ?s2" "still H s1 ?s2"
    using set_rt_core [OF s1(2), of ?d ?e] by (simp_all add: core_def)
  have l2: "rt_lookup ?d (rtable ?s2) = Some (?e rt1)" using s1(4) by (simp add: lookup_set_rt)
  have e2: "evolves H s ?s2"
    by (rule evolves.R_trans [OF s1(3) quiet_evolves order_refl]) (use s2(2) in \<open>simp add: still_def\<close>)
  show thesis
  proof (cases "better_route (rq_src_seqno rq) (rq_hop_count rq) (?e rt1)")
    case False
    show thesis by (rule that [of ?s2]) (use False s1 s2 e2 l2 in \<open>simp_all add: reverse_route_def Let_def get_rt_def\<close>)
  next
    case True
    let ?s3 = "set_rt ?d (reverse_entry rq x ?t) ?s2"
    have l3: "rt_lookup ?d (rtable ?s3) = Some (reverse_entry rq x ?t (?e rt1))"
      using s1(4) by (simp add: lookup_set_rt reverse_entry_core)
    have i3: "aodv_inv b H ?s3"
    proof (rule set_rt_inv [OF s2(1)])
      fix rt assume "rt_lookup ?d (rtable ?s2) = Some rt"
      then have "entry_inv b rt" by (rule aodv_inv_entry [OF s2(1)])
      then show "entry_inv b (reverse_entry rq x ?t rt)"
        using assms(2) hops_finite [of "rq_hop_count rq"]
        by (simp add: entry_inv_def usable_def reverse_entry_core honest_request_def)
    qed (simp add: reverse_entry_core)
    have "evolves H ?s2 ?s3"
      by (rule set_rt_evolves) (use True l2 in \<open>auto simp: reverse_entry_core intro: better_as_good\<close>)
    then have e3: "evolves H s ?s3" by (rule evolves.R_trans [OF e2 _ order_refl])
    have "step2 quiet b H ?s3 (drain_all ?d (reverse_forward ?d) 0 ?s3)"
      by (rule reverse_drain [OF i3 l3]) (simp add: reverse_entry_core)
    then obtain y s4 where s4: "drain_all ?d (reverse_forward ?d) 0 ?s3 = Inr (y, s4)" "aodv_inv b H s4" "quiet H ?s3 s4"
      by (auto simp: step2_def)
    have e4: "evolves H s s4" by (rule evolves.R_trans [OF e3 quiet_evolves [OF s4(3)] order_refl])
    obtain rt4 where l4: "rt_lookup ?d (rtable s4) = Some rt4" by (rule quiet_lookup [OF s4(3) l3])
    show thesis
      by (rule that [OF _ s4(2) e4 l4])
        (use True s1 l2 l3 s4(1) in \<open>simp add: reverse_route_def Let_def get_rt_def reverse_entry_core(2)\<close>)
  qed
qed

lemma sendReply_free:
  assumes "aodv_inv b (insert a H) s" "a \<notin> H" "rt_lookup d (rtable s) = Some rt"
  shows "step still b H s (bindE (sendReply d hc e n lt ts s) (with_net (Packet_free a)))"
  by (rule still.step_bind [OF sendReply_step [OF assms(1,3)] subset_insertI]) (rule free_step [OF _ assms(2)])

lemma even_round_up:
  fixes n :: u32
  shows "even (unat (if odd (unat n) then n + 1 else n))"
proof -
  have "unat (n + 1) = (unat n + 1) mod 2 ^ 32" by (simp add: unat_word_ariths)
  then have "odd (unat n) \<Longrightarrow> even (unat (n + 1))" by (simp add: dvd_mod_iff)
  then show ?thesis by simp
qed

lemma reply_as_destination_step:
  assumes "aodv_inv b (insert a H) s" "a \<notin> H" "rt_lookup (rq_src rq) (rtable s) = Some rt"
  shows "step still b H s (reply_as_destination a rq s)"
proof -
  let ?n = "max (seqno s) (rq_dst_seqno rq) + 1"
  let ?s = "s\<lparr>seqno := (if odd (unat ?n) then ?n + 1 else ?n)\<rparr>"
  have "aodv_inv b (insert a H) ?s" by (rule aodv_inv_fields(2) [OF assms(1) even_round_up])
  then have "step still b H ?s (reply_as_destination a rq s)"
    unfolding reply_as_destination_def Let_def by (rule sendReply_free [OF _ assms(2)]) (use assms(3) in simp)
  then show ?thesis by (rule still.step_after [OF still_fields(2) _ order_refl])
qed

lemma pc_insert_inv:
  assumes "aodv_inv b H s"
  shows "aodv_inv b H (set_rt d (pc_insert i) s)" "still H s (set_rt d (pc_insert i) s)"
proof -
  have "hist_indx (pc_insert i rt) = hist_indx rt" for rt by (simp add: pc_insert_def)
  then have "core (pc_insert i rt) = core rt" for rt by (simp add: core_def)
  then show "aodv_inv b H (set_rt d (pc_insert i) s)" "still H s (set_rt d (pc_insert i) s)"
    using set_rt_core [OF assms, of d "pc_insert i"] by simp_all
qed

lemma reply_from_route_step:
  assumes "aodv_inv b (insert a H) s" "a \<notin> H" "rt_lookup (rq_src rq) (rtable s) = Some rt0"
    and "rt_lookup (rq_dst rq) (rtable s) = Some rt"
  shows "step still b H s (reply_from_route a rq rt s)"
proof -
  have d: "rq_dst rq = rt_dst rt" using rt_lookup_dst [OF assms(4)] by simp
  note sr = sendReply_step [OF assms(1,3)]
  have "step still b H s (bindE (sendReply (rq_src rq) (ucast (rt_hops rt) + 1) (rq_dst rq) (rt_seqno rt)
        (lifetime_left (rt_expire rt) (CURRENT_TIME s)) (rq_timestamp rq) s) (\<lambda>s1.
    bindE (get_rt (rq_src rq) s1) (\<lambda>rt0.
    with_net (Packet_free a) (set_rt (rq_src rq) (pc_insert (rt_nexthop rt)) (set_rt (rq_dst rq) (pc_insert (rt_nexthop rt0)) s1)))))"
  proof (rule still.step_bind [OF sr subset_insertI])
    fix s1 assume s1: "aodv_inv b (insert a H) s1" "still (insert a H) s s1"
    obtain rt1 where r1: "rt_lookup (rq_src rq) (rtable s1) = Some rt1"
      by (rule quiet_lookup [OF _ assms(3), of "insert a H" s1]) (use s1(2) in \<open>simp add: still_def\<close>)
    let ?s2 = "set_rt (rq_dst rq) (pc_insert (rt_nexthop rt1)) s1"
    note i2 = pc_insert_inv [OF s1(1), of "rq_dst rq" "rt_nexthop rt1"]
    note i3 = pc_insert_inv [OF i2(1), of "rq_src rq" "rt_nexthop rt"]
    have st: "still (insert a H) s1 (set_rt (rq_src rq) (pc_insert (rt_nexthop rt)) ?s2)"
      by (rule still.R_trans [OF i2(2) i3(2) order_refl])
    show "step still b H s1 (bindE (get_rt (rq_src rq) s1) (\<lambda>rt0. with_net (Packet_free a)
        (set_rt (rq_src rq) (pc_insert (rt_nexthop rt)) (set_rt (rq_dst rq) (pc_insert (rt_nexthop rt0)) s1))))"
      using still.step_after [OF st free_step [OF i3(1) assms(2)] subset_insertI] r1 by (simp add: get_rt_def)
  qed
  then show ?thesis using d by (simp add: reply_from_route_def Let_def)
qed

lemma forward_request_step:
  assumes "aodv_inv b (insert a H) s" "a \<notin> H"
  shows "step still b H s (forward_request a rq rt s)"
  unfolding forward_request_def
proof (rule still.step_after [OF set_pkt_inv(2) [OF assms(1) _ assms(2)] forward_step order_refl])
  let ?f = "\<lambda>p. p\<lparr>ih_saddr := index s, ih_daddr := IP_BROADCAST,
    ah := AODVTYPE_RREQ (rq\<lparr>rq_hop_count := rq_hop_count rq + 1, rq_dst_seqno := (case rt of None \<Rightarrow> rq_dst_seqno rq
      | Some e \<Rightarrow> max (rt_seqno e) (rq_dst_seqno rq))\<rparr>)\<rparr>"
  show hc: "header_change ?f" by (simp add: header_change_def)
  show "aodv_inv b (insert a H) (set_pkt a ?f s)" by (rule set_pkt_inv(1) [OF assms(1) hc assms(2)])
  show "can_forward None a (set_pkt a ?f s)" by (simp add: can_forward_def set_pkt_def)
qed (use assms(2) in simp_all)

lemma answer_request_step:
  assumes "aodv_inv b (insert a H) s" "a \<notin> H" "rt_lookup (rq_src rq) (rtable s) = Some rt0"
  shows "step still b H s (answer_request a rq s)"
  using reply_as_destination_step [OF assms] reply_from_route_step [OF assms] forward_request_step [OF assms(1,2)]
  by (auto simp: answer_request_def split: option.splits)

text \<open>A request that is new: it is remembered, then answered.\<close>

lemma new_request_step:
  assumes "aodv_inv b (insert a H) s" "a \<notin> H" "honest_request rq"
    and "rq_src rq \<noteq> index s" "\<not> id_lookup (rq_src rq) (rq_bcast_id rq) s"
  shows "step evolves b H (id_insert (rq_src rq) (rq_bcast_id rq) s) (recvRequest a rq s)"
proof -
  let ?s0 = "id_insert (rq_src rq) (rq_bcast_id rq) s"
  have i0: "aodv_inv b (insert a H) ?s0" unfolding id_insert_def by (rule aodv_inv_fields(4) [OF assms(1)])
  obtain s1 rt0 where s1: "reverse_route rq (ih_saddr (pkt s a)) ?s0 = Inr s1" "aodv_inv b (insert a H) s1"
    "evolves (insert a H) ?s0 s1" "rt_lookup (rq_src rq) (rtable s1) = Some rt0"
    by (rule reverse_route_step [OF i0 assms(3)])
  have "step evolves b H s1 (answer_request a rq s1)"
    by (rule step_quiet [OF step_still [OF answer_request_step [OF s1(2) assms(2) s1(4)]]])
  then show ?thesis
    using evolves.step_after [OF s1(3) _ subset_insertI] s1(1) assms(4,5) by (simp add: recvRequest_def)
qed

lemma recvRequest_step:
  assumes "aodv_inv b (insert a H) s" "a \<notin> H" "honest_request rq"
  shows "step evolves b H s (recvRequest a rq s)"
proof (cases "rq_src rq = index s \<or> id_lookup (rq_src rq) (rq_bcast_id rq) s")
  case True
  have "step evolves b H s (with_net (Packet_free a) s)"
    by (rule step_quiet [OF step_still [OF free_step [OF assms(1,2)]]])
  then show ?thesis using True by (auto simp: recvRequest_def)
next
  case False
  have "evolves H s (id_insert (rq_src rq) (rq_bcast_id rq) s)"
    by (rule quiet_evolves) (use id_insert_still in \<open>simp add: still_def\<close>)
  from evolves.step_after [OF this new_request_step [OF assms] order_refl] show ?thesis using False by simp
qed

subsection \<open>Route replies\<close>

definition honest_reply :: "hdr_aodv_reply \<Rightarrow> bool" where
  "honest_reply rp \<longleftrightarrow> even (unat (rp_dst_seqno rp)) \<and> rp_dst_seqno rp \<noteq> 0 \<and> rp_hop_count rp \<noteq> 255"

lemma reply_entry_core:
  "rt_dst (reply_entry rp t rt) = rt_dst rt" "rt_flags (reply_entry rp t rt) = RTF_UP"
  "rt_hops (reply_entry rp t rt) = ucast (rp_hop_count rp)" "rt_seqno (reply_entry rp t rt) = rp_dst_seqno rp"
  "hist_indx (reply_entry rp t rt) = hist_indx rt"
  by (simp_all add: reply_entry_def rt_update_def)

lemma reply_drain:
  assumes "aodv_inv b H s" "rt_lookup d (rtable s) = Some rt" "rt_flags rt = RTF_UP"
  shows "step2 quiet b H s (drain_all d (reply_forward d) x s)"
proof (rule drain_all_step [OF assms(1)])
  fix a delay s1
  assume p: "aodv_inv b (insert a H) s1" "a \<notin> H" "quiet H s s1" "ih_daddr (pkt s1 a) = d" "d \<noteq> IP_BROADCAST"
  note f = forward_buffered [OF assms(2,3) p(3,1,2,4,5)]
  obtain rt1 where "rt_lookup d (rtable s1) = Some rt1" "rt_flags rt1 = RTF_UP" "rt_hops rt1 \<noteq> INFINITY2" using f(1) by blast
  then show "step2 still b H s1 (reply_forward d a delay s1)"
    using still.step_step2 [OF f(2) order_refl, of b "\<lambda>s2. Inr (delay + ARP_DELAY, s2)" delay]
    by (simp add: reply_forward_def get_rt_def step2_def still.R_refl)
qed

lemma history_index:
  fixes h :: byte
  shows "unat ((h + 1) mod 3) < MAX_HISTORY"
  by (simp add: MAX_HISTORY_def unat_mod)

text \<open>The entry of the destination of an accepted reply, with the latency when it is for this node.\<close>

lemma accept_reply_step:
  assumes "aodv_inv b H s" "honest_reply rp" "rt_lookup (rp_dst rp) (rtable s) = Some rt"
    and "better_route (rp_dst_seqno rp) (rp_hop_count rp) rt"
  shows "step evolves b H s (accept_reply rp for_me s)"
proof -
  let ?d = "rp_dst rp" and ?t = "CURRENT_TIME s"
  let ?q = "quot (?t - rp_timestamp rp) (of_nat (unat (rp_hop_count rp)))"
  let ?s1 = "set_rt ?d (reply_entry rp ?t) s"
  let ?r1 = "reply_entry rp ?t rt"
  have l1: "rt_lookup ?d (rtable ?s1) = Some ?r1" using assms(3) by (simp add: lookup_set_rt reply_entry_core)
  have ok: "entry_inv b (reply_entry rp ?t r)" if "entry_inv b r" for r
    using that assms(2) hops_finite [of "rp_hop_count rp"]
    by (simp add: entry_inv_def usable_def reply_entry_core honest_reply_def)
  have i1: "aodv_inv b H ?s1"
    by (rule set_rt_inv [OF assms(1)]) (auto simp: reply_entry_core intro: ok aodv_inv_entry [OF assms(1)])
  have e1: "evolves H s ?s1"
    by (rule set_rt_evolves) (use assms(3,4) in \<open>auto simp: reply_entry_core intro: better_as_good\<close>)
  define r2 where "r2 = ?r1\<lparr>rt_disc_latency := (rt_disc_latency ?r1)[unat (hist_indx ?r1) := ?q],
    hist_indx := (hist_indx ?r1 + 1) mod 3\<rparr>"
  have hi: "unat (hist_indx ?r1) < MAX_HISTORY" using aodv_inv_entry [OF i1 l1] by (simp add: entry_inv_def)
  let ?s2 = "if for_me then set_rt ?d (\<lambda>_. r2) ?s1 else ?s1"
  have d2: "rt_dst r2 = ?d" using rt_lookup_dst [OF l1] by (simp add: r2_def)
  have r2: "entry_inv b r2" "rt_flags r2 = RTF_UP" "as_good ?r1 r2"
    using aodv_inv_entry [OF i1 l1] history_index [of "hist_indx ?r1"]
    by (simp_all add: r2_def entry_inv_def usable_def as_good_def reply_entry_core(2))
  have i2: "aodv_inv b H ?s2"
    using i1 set_rt_inv [OF i1, of ?d "\<lambda>_. r2"] r2(1) d2 by simp
  have e2: "evolves H s ?s2"
    using e1 evolves.R_trans [OF e1 set_rt_evolves [of ?d "\<lambda>_. r2" ?s1 H] order_refl] r2(3) l1 d2 by simp
  have l2: "\<exists>r. rt_lookup ?d (rtable ?s2) = Some r \<and> rt_flags r = RTF_UP"
    using l1 r2(2) d2 by (simp add: lookup_set_rt reply_entry_core(2))
  then obtain r where r: "rt_lookup ?d (rtable ?s2) = Some r" "rt_flags r = RTF_UP" by blast
  have "step evolves b H ?s2 (bindE (drain_all ?d (reply_forward ?d) 0 ?s2) (\<lambda>(_, s3). Inr s3))"
    by (rule evolves.step2_bind [OF step2_quiet [OF reply_drain [OF i2 r]] order_refl]) (simp add: step_def evolves.R_refl)
  then have "step evolves b H s (bindE (drain_all ?d (reply_forward ?d) 0 ?s2) (\<lambda>(_, s3). Inr s3))"
    by (rule evolves.step_after [OF e2 _ order_refl])
  moreover have "accept_reply rp for_me s = bindE (drain_all ?d (reply_forward ?d) 0 ?s2) (\<lambda>(_, s3). Inr s3)"
    using l1 hi by (simp add: accept_reply_def Let_def get_rt_def record_latency_def r2_def)
  ultimately show ?thesis by simp
qed

lemma usable_up: "entry_inv False rt \<Longrightarrow> rt_hops rt \<noteq> INFINITY2 \<Longrightarrow> rt_flags rt = RTF_UP"
  by (auto simp: entry_inv_def usable_def)

lemma forward_reply_step:
  assumes "aodv_inv False (insert a H) s" "a \<notin> H" "ih_daddr (pkt s a) \<noteq> IP_BROADCAST"
  shows "step still False H s (forward_reply a rp s)"
proof (cases "rt_lookup (ih_daddr (pkt s a)) (rtable s)")
  case None
  then show ?thesis using agent_drop_step [OF assms(1,2)] by (simp add: forward_reply_def)
next
  case (Some rt0)
  show ?thesis
  proof (cases "rt_hops rt0 = INFINITY2")
    case True
    then show ?thesis using Some agent_drop_step [OF assms(1,2)] by (simp add: forward_reply_def)
  next
    case False
    have up: "rt_flags rt0 = RTF_UP" by (rule usable_up [OF aodv_inv_entry [OF assms(1) Some] False])
    let ?f = "\<lambda>p. p\<lparr>ah := AODVTYPE_RREP (rp\<lparr>rp_hop_count := rp_hop_count rp + 1, rp_src := index s\<rparr>)\<rparr>"
    let ?s1 = "set_pkt a ?f s" and ?d = "rt_dst rt0"
    have d: "?d = ih_daddr (pkt s a)" by (rule rt_lookup_dst [OF Some])
    have hc: "header_change ?f" by (simp add: header_change_def)
    have l1: "rt_lookup ?d (rtable ?s1) = Some rt0" using Some d by (simp add: set_pkt_def)
    have cf: "can_forward (Some ?d) a ?s1" using l1 up assms(3) by (simp add: can_forward_def) (simp add: set_pkt_def)
    have "step still False H ?s1 (bindE (forward (Some ?d) a NO_DELAY ?s1) (\<lambda>s2. bindE (get_rt ?d s2)
        (\<lambda>rt1. Inr (set_rt (rp_dst rp) (pc_insert (rt_nexthop rt1)) s2))))"
    proof (rule still.step_bind [OF forward_step [OF set_pkt_inv(1) [OF assms(1) hc assms(2)] assms(2) cf] order_refl])
      fix s2 assume s2: "aodv_inv False H s2" "still H ?s1 s2"
      obtain rt1 where "rt_lookup ?d (rtable s2) = Some rt1"
        by (rule quiet_lookup [OF _ l1, of H s2]) (use s2(2) in \<open>simp add: still_def\<close>)
      then show "step still False H s2 (bindE (get_rt ?d s2) (\<lambda>rt1. Inr (set_rt (rp_dst rp) (pc_insert (rt_nexthop rt1)) s2)))"
        using pc_insert_inv [OF s2(1), of "rp_dst rp" "rt_nexthop rt1"] by (simp add: get_rt_def step_def)
    qed
    then have "step still False H s (bindE (forward (Some ?d) a NO_DELAY ?s1) (\<lambda>s2. bindE (get_rt ?d s2)
        (\<lambda>rt1. Inr (set_rt (rp_dst rp) (pc_insert (rt_nexthop rt1)) s2))))"
      by (rule still.step_after [OF set_pkt_inv(2) [OF assms(1) hc assms(2)] _ order_refl])
    then show ?thesis using Some False up by (simp add: forward_reply_def)
  qed
qed

lemma recvReply_step:
  assumes "aodv_inv False (insert a H) s" "a \<notin> H" "honest_reply rp" "ih_daddr (pkt s a) \<noteq> IP_BROADCAST"
  shows "step evolves False H s (recvReply a rp s)"
proof -
  obtain s1 rt where s1: "ensure_rt (rp_dst rp) s = Inr s1" "aodv_inv False (insert a H) s1" "evolves (insert a H) s s1"
    "rt_lookup (rp_dst rp) (rtable s1) = Some rt" "net s1 = net s"
    by (rule ensure_rt_step [OF assms(1)])
  have fr: "step evolves False H s2 (with_net (Packet_free a) s2)" if "aodv_inv False (insert a H) s2" for s2
    by (rule step_quiet [OF step_still [OF free_step [OF that assms(2)]]])
  let ?me = "ih_daddr (pkt s1 a) = index s1"
  have acc: "step evolves False H s1 (bindE (accept_reply rp ?me s1) (\<lambda>s2.
      if ?me then with_net (Packet_free a) s2 else forward_reply a rp s2))"
    if "better_route (rp_dst_seqno rp) (rp_hop_count rp) rt"
  proof (rule evolves.step_bind [OF accept_reply_step [OF s1(2) assms(3) s1(4) that] subset_insertI])
    fix s2 assume s2: "aodv_inv False (insert a H) s2" "evolves (insert a H) s1 s2"
    have "pkt s2 a = pkt s1 a" using evolves_frame [OF s2(2)] by (simp add: frame_def)
    then have nb: "ih_daddr (pkt s2 a) \<noteq> IP_BROADCAST" using assms(4) s1(5) by simp
    show "step evolves False H s2 (if ?me then with_net (Packet_free a) s2 else forward_reply a rp s2)"
      using fr [OF s2(1)] step_quiet [OF step_still [OF forward_reply_step [OF s2(1) assms(2) nb]]] by simp
  qed
  have "step evolves False H s1 (recvReply a rp s)"
    using acc fr [OF s1(2)] s1 by (auto simp: recvReply_def get_rt_def Let_def)
  then show ?thesis by (rule evolves.step_after [OF s1(3) _ subset_insertI])
qed

subsection \<open>Lost links and route errors\<close>

lemma PriQueue_filter_result:
  "PriQueue_filter i m qs = (None, qs) \<or>
    (\<exists>a \<in> set qs. ch_next_hop (m a) = i \<and> PriQueue_filter i m qs = (Some a, remove1 a qs))"
proof (induction qs)
  case (Cons c qs)
  then show ?case by auto
qed simp

lemma drop_filtered_loop_step:
  "aodv_inv b H s \<Longrightarrow> ifqueue s = Some qs \<Longrightarrow> length qs \<le> n \<Longrightarrow> step still b H s (drop_filtered_loop n i s)"
proof (induction n arbitrary: s qs)
  case 0
  then show ?case by (simp add: still.step_same)
next
  case (Suc n)
  consider "PriQueue_filter i (pk (net s)) qs = (None, qs)"
    | a where "a \<in> set qs" "PriQueue_filter i (pk (net s)) qs = (Some a, remove1 a qs)"
    using PriQueue_filter_result [of i "pk (net s)" qs] by blast
  then show ?case
  proof cases
    case 1
    then show ?thesis using Suc.prems by (simp add: still.step_same)
  next
    case (2 a)
    obtain xs ys where r: "aodv_rep b H s xs ys" by (rule aodv_invE [OF Suc.prems(1)])
    let ?s1 = "s\<lparr>ifqueue := Some (remove1 a qs)\<rparr>"
    have qs: "ys = qs" "distinct qs" using r Suc.prems(2) by (simp_all add: aodv_rep_def)
    have "aodv_rep b (insert a H) ?s1 xs (remove1 a qs)"
      using r 2(1) qs by (auto simp: aodv_rep_def)
    then have i1: "aodv_inv b (insert a H) ?s1" by (auto simp: aodv_inv_def)
    have na: "a \<notin> H" using r 2(1) qs by (auto simp: aodv_rep_def)
    have st: "still H s ?s1" by (simp add: still_def quiet_def frame_def)
    have "step still b H ?s1 (bindE (agent_drop a ''CBK'' ?s1) (drop_filtered_loop n i))"
    proof -
      obtain s2 where s2: "agent_drop a ''CBK'' ?s1 = Inr s2" "aodv_inv b H s2" "still H ?s1 s2"
        using agent_drop_step [OF i1 na] by (auto simp: step_def)
      have "ifqueue s2 = Some (remove1 a qs)"
        using s2(1) by (auto simp: agent_drop_def with_net_def bindE_def split: sum.splits)
      moreover have "length (remove1 a qs) \<le> n" using Suc.prems(3) 2(1) by (simp add: length_remove1)
      ultimately have "step still b H s2 (drop_filtered_loop n i s2)" by (rule Suc.IH [OF s2(2)])
      then show ?thesis using still.step_after [OF s2(3) _ order_refl] s2(1) by simp
    qed
    then have "step still b H s (bindE (agent_drop a ''CBK'' ?s1) (drop_filtered_loop n i))"
      by (rule still.step_after [OF st _ order_refl])
    then show ?thesis using Suc.prems(2) 2(2) by simp
  qed
qed

lemma drop_filtered_step:
  assumes "aodv_inv b H s"
  shows "step still b H s (drop_filtered i s)"
proof -
  obtain xs ys where "aodv_rep b H s xs ys" by (rule aodv_invE [OF assms])
  then have "ifqueue s = Some ys" by (simp add: aodv_rep_def)
  then show ?thesis unfolding drop_filtered_def using drop_filtered_loop_step [OF assms] by simp
qed

text \<open>The error header under construction: the count of destinations in it never passes the arrays.\<close>

lemma add_unreachable_room:
  assumes "unat (DestCount re) < AODV_MAX_ERRORS"
  obtains re' where "add_unreachable d n re = Inr re'" "unat (DestCount re') = unat (DestCount re) + 1"
proof -
  have "unat (DestCount re + 1) = unat (DestCount re) + 1"
    using assms by (simp add: AODV_MAX_ERRORS_def unat_word_ariths)
  then show thesis using that assms by (simp add: add_unreachable_def)
qed

lemma blank_error_count [simp]: "DestCount blank_error = 0"
  by (simp add: blank_error_def)

text \<open>Bringing a usable route down with a newer sequence number.\<close>

lemma rt_down_simps:
  "rt_dst (rt_down rt) = rt_dst rt" "rt_seqno (rt_down rt) = rt_seqno rt" "hist_indx (rt_down rt) = hist_indx rt"
  "rt_flags (rt_down rt) = RTF_DOWN"
  "rt_flags rt = RTF_UP \<Longrightarrow> rt_hops (rt_down rt) = INFINITY2"
  by (simp_all add: rt_down_def)

lemma down_inv:
  assumes "aodv_inv b H s" "rt_lookup d (rtable s) = Some rt" "rt_flags rt = RTF_UP" "rt_seqno rt < n"
  shows "aodv_inv b H (set_rt d (\<lambda>rt. rt_down (rt\<lparr>rt_seqno := n\<rparr>)) s)"
    "evolves H s (set_rt d (\<lambda>rt. rt_down (rt\<lparr>rt_seqno := n\<rparr>)) s)"
proof -
  have "entry_inv b rt" by (rule aodv_inv_entry [OF assms(1,2)])
  then have "entry_inv b (rt_down (rt\<lparr>rt_seqno := n\<rparr>))"
    using assms(3) by (simp add: entry_inv_def usable_def rt_down_def)
  then show "aodv_inv b H (set_rt d (\<lambda>rt. rt_down (rt\<lparr>rt_seqno := n\<rparr>)) s)"
    by (intro set_rt_inv [OF assms(1)]) (use assms(2) in \<open>auto simp: rt_down_simps\<close>)
  show "evolves H s (set_rt d (\<lambda>rt. rt_down (rt\<lparr>rt_seqno := n\<rparr>)) s)"
    by (rule set_rt_evolves) (use assms(2,4) in \<open>auto simp: rt_down_simps as_good_def\<close>)
qed

lemma set_rt_expand: "set_rt d (\<lambda>rt. f (rt\<lparr>rt_seqno := rt_seqno rt + 1\<rparr>)) s =
    set_rt d (\<lambda>rt. f (rt\<lparr>rt_seqno := n\<rparr>)) s"
  if "rt_lookup d (rtable s) = Some rt" "n = rt_seqno rt + 1"
proof -
  have "rt_write d (\<lambda>rt. f (rt\<lparr>rt_seqno := rt_seqno rt + 1\<rparr>)) t = rt_write d (\<lambda>rt. f (rt\<lparr>rt_seqno := n\<rparr>)) t"
    if "rt_lookup d t = Some rt" for t
    using that \<open>n = rt_seqno rt + 1\<close> by (induction t) auto
  then show ?thesis using that(1) by (simp add: set_rt_def)
qed

lemma pc_inv:
  assumes "aodv_inv b H s"
  shows "aodv_inv b H (set_rt d (pc_delete i) s)" "still H s (set_rt d (pc_delete i) s)"
    "aodv_inv b H (set_rt d pc_delete_all s)" "still H s (set_rt d pc_delete_all s)"
proof -
  have "core (pc_delete i rt) = core rt" "core (pc_delete_all rt) = core rt" for rt
    by (simp_all add: core_def) (simp_all add: pc_delete_def pc_delete_all_def)
  then show "aodv_inv b H (set_rt d (pc_delete i) s)" "still H s (set_rt d (pc_delete i) s)"
    "aodv_inv b H (set_rt d pc_delete_all s)" "still H s (set_rt d pc_delete_all s)"
    using set_rt_core [OF assms, of d "pc_delete i"] set_rt_core [OF assms, of d pc_delete_all] by simp_all
qed

definition honest_error :: "hdr_aodv_error \<Rightarrow> bool" where
  "honest_error re \<longleftrightarrow> unat (DestCount re) \<le> AODV_MAX_ERRORS \<and> length (unreachable_dst re) = AODV_MAX_ERRORS \<and>
     length (unreachable_dst_seqno re) = AODV_MAX_ERRORS \<and>
     (\<forall>i < unat (DestCount re). odd (unat (unreachable_dst_seqno re ! i)) \<or> unreachable_dst_seqno re ! i = 0)"

lemma recvError_step_ok:
  assumes "aodv_inv False H s" "honest_error re" "i < unat (DestCount re)" "unat (DestCount nre) < AODV_MAX_ERRORS"
  obtains nre' s' where "recvError_step x re i (nre, s) = Inr (nre', s')" "aodv_inv False H s'" "evolves H s s'"
    "unat (DestCount nre') \<le> unat (DestCount nre) + 1"
proof -
  let ?d = "unreachable_dst re ! i" and ?n = "unreachable_dst_seqno re ! i"
  have len: "i < length (unreachable_dst re)" "i < length (unreachable_dst_seqno re)"
    using assms(2,3) by (simp_all add: honest_error_def)
  show thesis
  proof (cases "rt_lookup ?d (rtable s)")
    case None
    show thesis by (rule that [of nre s]) (use None len assms(1) evolves.R_refl in \<open>simp_all add: recvError_step_def Let_def\<close>)
  next
    case (Some rt)
    show thesis
    proof (cases "rt_hops rt \<noteq> INFINITY2 \<and> rt_nexthop rt = x \<and> rt_seqno rt \<le> ?n")
      case False
      show thesis by (rule that [of nre s])
        (use Some False len assms(1) evolves.R_refl in \<open>auto simp: recvError_step_def Let_def\<close>)
    next
      case True
      have inv: "entry_inv False rt" by (rule aodv_inv_entry [OF assms(1) Some])
      have up: "rt_flags rt = RTF_UP" by (rule usable_up [OF inv]) (use True in simp)
      have ev: "even (unat (rt_seqno rt))" "rt_seqno rt \<noteq> 0" using inv True by (auto simp: entry_inv_def usable_def)
      have "?n \<noteq> 0" using True ev(2) by (metis word_le_0_iff)
      then have "odd (unat ?n)" using assms(2,3) by (auto simp: honest_error_def)
      then have "?n \<noteq> rt_seqno rt" using ev(1) by auto
      then have lt: "rt_seqno rt < ?n" using True by (simp add: order_less_le)
      let ?s1 = "set_rt ?d (\<lambda>rt. rt_down (rt\<lparr>rt_seqno := ?n\<rparr>)) s"
      note d1 = down_inv [OF assms(1) Some up lt]
      obtain s2 where s2: "drop_filtered x ?s1 = Inr s2" "aodv_inv False H s2" "still H ?s1 s2"
        using drop_filtered_step [OF d1(1)] by (auto simp: step_def)
      have l1: "rt_lookup ?d (rtable ?s1) = Some (rt_down (rt\<lparr>rt_seqno := ?n\<rparr>))"
        using Some by (simp add: lookup_set_rt rt_down_simps)
      have "quiet H ?s1 s2" using s2(3) by (simp add: still_def)
      then obtain rt2 where l2: "rt_lookup ?d (rtable s2) = Some rt2" by (rule quiet_lookup [OF _ l1])
      have e2: "evolves H s s2"
        by (rule evolves.R_trans [OF d1(2) quiet_evolves order_refl]) (use s2(3) in \<open>simp add: still_def\<close>)
      show thesis
      proof (cases "pc_empty rt2")
        case True
        show thesis by (rule that [of nre s2])
          (use True Some \<open>rt_hops rt \<noteq> INFINITY2 \<and> _\<close> len up ev s2 l2 e2 in \<open>simp_all add: recvError_step_def Let_def get_rt_def\<close>)
      next
        case False
        obtain nre' where a: "add_unreachable ?d (rt_seqno rt2) nre = Inr nre'" "unat (DestCount nre') = unat (DestCount nre) + 1"
          by (rule add_unreachable_room [OF assms(4)])
        note p = pc_inv(3,4) [OF s2(2), of ?d]
        have "evolves H s (set_rt ?d pc_delete_all s2)"
          by (rule evolves.R_trans [OF e2 quiet_evolves order_refl]) (use p(2) in \<open>simp add: still_def\<close>)
        then show thesis
          by (intro that [of nre' "set_rt ?d pc_delete_all s2"])
            (use False Some \<open>rt_hops rt \<noteq> INFINITY2 \<and> _\<close> len up ev s2 l2 p(1) a in \<open>simp_all add: recvError_step_def Let_def get_rt_def\<close>)
      qed
    qed
  qed
qed

lemma recvError_loop:
  "aodv_inv False H s \<Longrightarrow> honest_error re \<Longrightarrow> set is \<subseteq> {..<unat (DestCount re)} \<Longrightarrow>
    unat (DestCount nre) + length is \<le> AODV_MAX_ERRORS \<Longrightarrow>
    step2 evolves False H s (foldE (recvError_step x re) is (nre, s))"
proof (induction "is" arbitrary: nre s)
  case Nil
  then show ?case by (simp add: step2_def evolves.R_refl)
next
  case (Cons i "is")
  obtain nre' s' where s': "recvError_step x re i (nre, s) = Inr (nre', s')" "aodv_inv False H s'" "evolves H s s'"
    "unat (DestCount nre') \<le> unat (DestCount nre) + 1"
    by (rule recvError_step_ok [OF Cons.prems(1,2), of i nre x]) (use Cons.prems in auto)
  have "step2 evolves False H s' (foldE (recvError_step x re) is (nre', s'))"
    by (rule Cons.IH [OF s'(2) Cons.prems(2)]) (use Cons.prems s'(4) in auto)
  then show ?case using evolves.step2_after [OF s'(3) _ order_refl] s'(1) by simp
qed

lemma recvError_ok:
  assumes "aodv_inv False (insert a H) s" "a \<notin> H" "honest_error re"
  shows "step evolves False H s (recvError a re s)"
proof -
  obtain c w where c: "Packet_alloc (net s) = Inr (c, w)" "aodv_inv False (insert c (insert a H)) (s\<lparr>net := w\<rparr>)"
    "still (insert a H) s (s\<lparr>net := w\<rparr>)" "c \<notin> insert a H"
    by (rule alloc_step [OF assms(1)])
  have e0: "evolves (insert a H) s (s\<lparr>net := w\<rparr>)" using c(3) by (auto simp: still_def intro: quiet_evolves)
  have loop: "step2 evolves False (insert c (insert a H)) (s\<lparr>net := w\<rparr>)
     (foldE (recvError_step (ih_saddr (pkt s a)) re) [0..<unat (DestCount re)] (blank_error, s\<lparr>net := w\<rparr>))"
    by (rule recvError_loop [OF c(2) assms(3)]) (use assms(3) in \<open>auto simp: honest_error_def\<close>)
  have "step evolves False H (s\<lparr>net := w\<rparr>) (recvError a re s)"
    unfolding recvError_def c(1) bindE_Inr prod.case
  proof (rule evolves.step2_bind [OF loop])
    show "H \<subseteq> insert c (insert a H)" by auto
    fix nre s1 assume s1: "aodv_inv False (insert c (insert a H)) s1"
    have "step still False (insert a H) s1 (if DestCount nre > 0 then sendError c nre True s1 else with_net (Packet_free c) s1)"
      using sendError_step [OF s1 c(4)] free_step [OF s1 c(4)] by simp
    then have "step still False H s1 (bindE (if DestCount nre > 0 then sendError c nre True s1 else with_net (Packet_free c) s1) (with_net (Packet_free a)))"
      by (rule still.step_bind [OF _ subset_insertI]) (rule free_step [OF _ assms(2)])
    then show "step evolves False H s1 (case (nre, s1) of (nre, s1) \<Rightarrow>
        bindE (if DestCount nre > 0 then sendError c nre True s1 else with_net (Packet_free c) s1) (with_net (Packet_free a)))"
      by (simp add: step_quiet step_still)
  qed
  then show ?thesis by (rule evolves.step_after [OF e0 _ subset_insertI])
qed

text \<open>The routes that use a neighbour.\<close>

definition uses :: "nsaddr_t \<Rightarrow> aodv_rt_entry \<Rightarrow> bool" where
  "uses i rt \<longleftrightarrow> rt_hops rt \<noteq> INFINITY2 \<and> rt_nexthop rt = i"

definition via :: "nsaddr_t \<Rightarrow> aodv_rtable \<Rightarrow> nsaddr_t \<Rightarrow> bool" where
  "via i t d \<longleftrightarrow> (case rt_lookup d t of None \<Rightarrow> False | Some rt \<Rightarrow> uses i rt)"

definition routes_via :: "nsaddr_t \<Rightarrow> aodv_rtable \<Rightarrow> nat" where
  "routes_via i t = length (filter (uses i) t)"

lemma routes_via_dsts:
  assumes "distinct (map rt_dst t)"
  shows "length (filter (via i t) (map rt_dst t)) = routes_via i t"
proof -
  have "via i t (rt_dst rt) = uses i rt" if "rt \<in> set t" for rt
    using rt_lookup_member [OF assms that] by (simp add: via_def)
  then have "filter (\<lambda>rt. via i t (rt_dst rt)) t = filter (uses i) t" by (auto intro: filter_cong)
  then show ?thesis by (simp add: routes_via_def filter_map o_def)
qed

lemma link_failure_step_ok:
  assumes "aodv_inv False H s" "rt_lookup d (rtable s) = Some rt"
    and "via i (rtable s) d \<Longrightarrow> unat (DestCount re) < AODV_MAX_ERRORS"
  obtains re' s' where "link_failure_step i d (re, s) = Inr (re', s')" "aodv_inv False H s'" "evolves H s s'"
    "unat (DestCount re') = unat (DestCount re) + (if via i (rtable s) d then 1 else 0)"
    "\<forall>e. e \<noteq> d \<longrightarrow> rt_lookup e (rtable s') = rt_lookup e (rtable s)"
    "map rt_dst (rtable s') = map rt_dst (rtable s)"
proof (cases "uses i rt")
  case True
  then have v: "via i (rtable s) d" using assms(2) by (simp add: via_def)
  have inv: "entry_inv False rt" by (rule aodv_inv_entry [OF assms(1,2)])
  have up: "rt_flags rt = RTF_UP" by (rule usable_up [OF inv]) (use True in \<open>simp add: uses_def\<close>)
  have ev: "even (unat (rt_seqno rt))" using inv True by (auto simp: entry_inv_def usable_def uses_def)
  note lt = even_less_inc(1) [OF ev]
  let ?s1 = "set_rt d (\<lambda>rt. rt_down (rt\<lparr>rt_seqno := rt_seqno rt + 1\<rparr>)) s"
  have eq: "?s1 = set_rt d (\<lambda>r. rt_down (r\<lparr>rt_seqno := rt_seqno rt + 1\<rparr>)) s"
    by (rule set_rt_expand [OF assms(2) refl])
  have d1: "aodv_inv False H ?s1" "evolves H s ?s1"
    unfolding eq using down_inv [OF assms(1,2) up lt] by simp_all
  obtain re' where a: "add_unreachable d (rt_seqno rt + 1) re = Inr re'" "unat (DestCount re') = unat (DestCount re) + 1"
    by (rule add_unreachable_room [OF assms(3) [OF v]])
  note p = pc_inv(1,2) [OF d1(1), of d i]
  have e2: "evolves H s (set_rt d (pc_delete i) ?s1)"
    by (rule evolves.R_trans [OF d1(2) quiet_evolves order_refl]) (use p(2) in \<open>simp add: still_def\<close>)
  have fr: "\<forall>e. e \<noteq> d \<longrightarrow> rt_lookup e (rtable (set_rt d (pc_delete i) ?s1)) = rt_lookup e (rtable s)"
    by (simp add: lookup_set_rt rt_down_simps)
  have ds: "map rt_dst (rtable (set_rt d (pc_delete i) ?s1)) = map rt_dst (rtable s)"
    by (simp add: set_rt_def dsts_write rt_down_simps)
  show thesis
    by (rule that [OF _ p(1) e2 _ fr ds])
      (use True v up ev a assms(2) in \<open>simp_all add: link_failure_step_def uses_def\<close>)
next
  case False
  then have v: "\<not> via i (rtable s) d" using assms(2) by (simp add: via_def)
  note p = pc_inv(1,2) [OF assms(1), of d i]
  have e2: "evolves H s (set_rt d (pc_delete i) s)" by (rule quiet_evolves) (use p(2) in \<open>simp add: still_def\<close>)
  have fr: "\<forall>e. e \<noteq> d \<longrightarrow> rt_lookup e (rtable (set_rt d (pc_delete i) s)) = rt_lookup e (rtable s)"
    by (simp add: lookup_set_rt)
  have ds: "map rt_dst (rtable (set_rt d (pc_delete i) s)) = map rt_dst (rtable s)"
    by (simp add: set_rt_def dsts_write)
  show thesis
    by (rule that [OF _ p(1) e2 _ fr ds]) (use False v assms(2) in \<open>auto simp: link_failure_step_def uses_def\<close>)
qed

text \<open>The loop ends well exactly when the routes that are lost fit into the error packet.\<close>

lemma link_failure_loop:
  "aodv_inv False H s \<Longrightarrow> distinct ds \<Longrightarrow> (\<And>d. d \<in> set ds \<Longrightarrow> rt_lookup d (rtable s) \<noteq> None) \<Longrightarrow>
    unat (DestCount re) \<le> AODV_MAX_ERRORS \<Longrightarrow>
    (if unat (DestCount re) + length (filter (via i (rtable s)) ds) \<le> AODV_MAX_ERRORS
     then \<exists>re' s'. foldE (link_failure_step i) ds (re, s) = Inr (re', s') \<and> aodv_inv False H s' \<and> evolves H s s' \<and>
        map rt_dst (rtable s') = map rt_dst (rtable s)
     else foldE (link_failure_step i) ds (re, s) = Inl BufferOverflow)"
proof (induction ds arbitrary: re s)
  case Nil
  then show ?case by (simp add: evolves.R_refl)
next
  case (Cons d ds)
  then obtain rt where l: "rt_lookup d (rtable s) = Some rt" by fastforce
  show ?case
  proof (cases "via i (rtable s) d \<and> unat (DestCount re) = AODV_MAX_ERRORS")
    case True
    then have u: "uses i rt" using l by (simp add: via_def)
    have inv: "entry_inv False rt" by (rule aodv_inv_entry [OF Cons.prems(1) l])
    have "rt_flags rt = RTF_UP" by (rule usable_up [OF inv]) (use u in \<open>simp add: uses_def\<close>)
    moreover have "even (unat (rt_seqno rt))" using inv u by (auto simp: entry_inv_def usable_def uses_def)
    ultimately have "link_failure_step i d (re, s) = Inl BufferOverflow"
      using True l u by (simp add: link_failure_step_def uses_def add_unreachable_def)
    then show ?thesis using True by simp
  next
    case False
    obtain re' s' where s': "link_failure_step i d (re, s) = Inr (re', s')" "aodv_inv False H s'" "evolves H s s'"
      "unat (DestCount re') = unat (DestCount re) + (if via i (rtable s) d then 1 else 0)"
      "\<forall>e. e \<noteq> d \<longrightarrow> rt_lookup e (rtable s') = rt_lookup e (rtable s)" "map rt_dst (rtable s') = map rt_dst (rtable s)"
      by (rule link_failure_step_ok [OF Cons.prems(1) l, of i re]) (use False Cons.prems(4) in auto)
    have other: "rt_lookup e (rtable s') = rt_lookup e (rtable s)" if "e \<in> set ds" for e
      using s'(5) that Cons.prems(2) by auto
    have len: "length (filter (via i (rtable s')) ds) = length (filter (via i (rtable s)) ds)"
      by (rule arg_cong [of _ _ length], rule filter_cong [OF refl]) (simp add: via_def other)
    have ih: "if unat (DestCount re') + length (filter (via i (rtable s')) ds) \<le> AODV_MAX_ERRORS
     then \<exists>re'' s''. foldE (link_failure_step i) ds (re', s') = Inr (re'', s'') \<and> aodv_inv False H s'' \<and> evolves H s' s'' \<and>
        map rt_dst (rtable s'') = map rt_dst (rtable s')
     else foldE (link_failure_step i) ds (re', s') = Inl BufferOverflow"
      by (rule Cons.IH [OF s'(2)]) (use Cons.prems other s'(4) False in auto)
    have tr: "evolves H s s''" if "evolves H s' s''" for s'' by (rule evolves.R_trans [OF s'(3) that order_refl])
    from ih show ?thesis using s'(1,4,6) tr by (auto simp: len split: if_splits)
  qed
qed

lemma handle_link_failure_step:
  assumes "aodv_inv False H s" "routes_via i (rtable s) \<le> AODV_MAX_ERRORS"
  obtains s' where "handle_link_failure i s = Inr s'" "aodv_inv False H s'" "evolves H s s'"
    "length (rtable s') = length (rtable s)"
proof -
  obtain c w where c: "Packet_alloc (net s) = Inr (c, w)" "aodv_inv False (insert c H) (s\<lparr>net := w\<rparr>)"
    "still H s (s\<lparr>net := w\<rparr>)" "c \<notin> H"
    by (rule alloc_step [OF assms(1)])
  have dd: "distinct (map rt_dst (rtable s))" by (rule aodv_inv_distinct [OF assms(1)])
  obtain re s1 where s1: "foldE (link_failure_step i) (map rt_dst (rtable s)) (blank_error, s\<lparr>net := w\<rparr>) = Inr (re, s1)"
    "aodv_inv False (insert c H) s1" "evolves (insert c H) (s\<lparr>net := w\<rparr>) s1" "map rt_dst (rtable s1) = map rt_dst (rtable s)"
    using link_failure_loop [OF c(2), of "map rt_dst (rtable s)" blank_error i] dd assms(2) routes_via_dsts [OF dd, of i]
    by (auto simp: rt_lookup_None)
  have "step still False H s1 (if DestCount re > 0 then sendError c re False s1 else with_net (Packet_free c) s1)"
    using sendError_step [OF s1(2) c(4)] free_step [OF s1(2) c(4)] by simp
  then obtain s2 where s2: "(if DestCount re > 0 then sendError c re False s1 else with_net (Packet_free c) s1) = Inr s2"
    "aodv_inv False H s2" "still H s1 s2"
    by (auto simp: step_def)
  have "evolves H s (s\<lparr>net := w\<rparr>)" "evolves H s1 s2"
    using c(3) s2(3) by (simp_all add: still_def quiet_evolves)
  then have e: "evolves H s s2"
    using s1(3) by (blast intro: evolves.R_trans)
  have "length (rtable s2) = length (rtable s1)" using s2(3) by (auto simp: still_def quiet_def dest: map_eq_imp_length_eq)
  moreover have "length (rtable s1) = length (rtable s)" using s1(4) by (rule map_eq_imp_length_eq)
  ultimately show thesis
    using that [of s2] c(1) s1(1) s2 e by (simp add: handle_link_failure_def Let_def)
qed

lemma nb_delete_step:
  assumes "aodv_inv False H s" "routes_via i (rtable s) \<le> AODV_MAX_ERRORS"
  obtains s' where "nb_delete i s = Inr s'" "aodv_inv False H s'" "evolves H s s'" "length (rtable s') = length (rtable s)"
proof -
  let ?s1 = "s\<lparr>seqno := seqno s + 2, nbhead := nb_unlink i (nbhead s)\<rparr>"
  have ev: "even (unat (seqno s + 2))" by (rule even_inc2 [OF aodv_inv_seqno [OF assms(1)]])
  have i1: "aodv_inv False H ?s1" by (rule aodv_inv_fields(3) [OF aodv_inv_fields(2) [OF assms(1) ev]])
  have e1: "evolves H s ?s1" by (rule quiet_evolves) (simp add: quiet_def frame_def)
  obtain s' where s': "handle_link_failure i ?s1 = Inr s'" "aodv_inv False H s'" "evolves H ?s1 s'"
    "length (rtable s') = length (rtable ?s1)"
    by (rule handle_link_failure_step [OF i1]) (use assms(2) in simp)
  show thesis
    by (rule that [OF _ s'(2) evolves.R_trans [OF e1 s'(3) order_refl]]) (use s' ev in \<open>simp_all add: nb_delete_def Let_def\<close>)
qed

lemma routes_via_le: "routes_via i t \<le> length t"
  by (simp add: routes_via_def)

lemma nb_purge_step:
  assumes "aodv_inv False H s" "length (rtable s) \<le> AODV_MAX_ERRORS"
  shows "step evolves False H s (nb_purge s)"
proof -
  have "\<exists>s'. nb_purge s = Inr s' \<and> (aodv_inv False H s' \<and> evolves H s s' \<and> length (rtable s') = length (rtable s))"
    unfolding nb_purge_def
  proof (rule foldE_total)
    fix nb s1 assume s1: "aodv_inv False H s1 \<and> evolves H s s1 \<and> length (rtable s1) = length (rtable s)"
    have "routes_via (nb_addr nb) (rtable s1) \<le> AODV_MAX_ERRORS"
      using routes_via_le [of "nb_addr nb" "rtable s1"] s1 assms(2) by simp
    then obtain s2 where "nb_delete (nb_addr nb) s1 = Inr s2" "aodv_inv False H s2" "evolves H s1 s2"
      "length (rtable s2) = length (rtable s1)"
      using s1 by (blast intro: nb_delete_step)
    then show "\<exists>s2. (if nb_expire nb \<le> CURRENT_TIME s then nb_delete (nb_addr nb) s1 else Inr s1) = Inr s2 \<and>
        (aodv_inv False H s2 \<and> evolves H s s2 \<and> length (rtable s2) = length (rtable s))"
      using s1 by (auto intro: evolves.R_trans)
  qed (use assms(1) evolves.R_refl in simp)
  then show ?thesis by (auto simp: step_def)
qed

subsection \<open>Reception\<close>

lemma recvHello_step:
  assumes "aodv_inv b (insert a H) s" "a \<notin> H"
  shows "step still b H s (recvHello a rp s)"
proof -
  have ev: "even (unat (seqno s + 2))" by (rule even_inc2 [OF aodv_inv_seqno [OF assms(1)]])
  have ins: "step still b (insert a H) s (nb_insert d s)" for d
    using aodv_inv_fields(2) [OF aodv_inv_fields(3) [OF assms(1)] ev] ev
    by (simp add: nb_insert_def Let_def step_def still_def quiet_def frame_def)
  have ref: "step still b (insert a H) s (Inr (s\<lparr>nbhead := nbs\<rparr>))" for nbs
    by (rule still.step_Inr [OF aodv_inv_fields(3) [OF assms(1)] still_fields(3)])
  show ?thesis unfolding recvHello_def
    by (rule still.step_bind [OF _ subset_insertI free_step [OF _ assms(2)]])
      (use ins ref in \<open>auto split: option.splits\<close>)
qed

lemma report_no_route_step:
  assumes "aodv_inv b (insert a H) s" "a \<notin> H" "rt_flags rt = RTF_DOWN"
  shows "step still b H s (report_no_route a rt s)"
proof -
  obtain c w where c: "Packet_alloc (net s) = Inr (c, w)" "aodv_inv b (insert c (insert a H)) (s\<lparr>net := w\<rparr>)"
    "still (insert a H) s (s\<lparr>net := w\<rparr>)" "c \<notin> insert a H"
    by (rule alloc_step [OF assms(1)])
  obtain re where re: "add_unreachable (rt_dst rt) (rt_seqno rt) blank_error = Inr re"
    by (rule add_unreachable_room [of blank_error]) (simp_all add: AODV_MAX_ERRORS_def)
  have "step still b H (s\<lparr>net := w\<rparr>) (bindE (sendError c re False (s\<lparr>net := w\<rparr>)) (agent_drop a ''NRTE''))"
    by (rule still.step_bind [OF sendError_step [OF c(2,4)] subset_insertI]) (rule agent_drop_step [OF _ assms(2)])
  then have "step still b H (s\<lparr>net := w\<rparr>) (report_no_route a rt s)"
    using c(1) re assms(3) by (simp add: report_no_route_def)
  then show ?thesis by (rule still.step_after [OF c(3) _ subset_insertI])
qed

lemma rt_resolve_step:
  assumes "aodv_inv b (insert a H) s" "a \<notin> H" "ih_daddr (pkt s a) \<noteq> IP_BROADCAST"
  shows "step evolves b H s (rt_resolve a s)"
proof -
  let ?f = "\<lambda>p. p\<lparr>ch_xmit_failure := True\<rparr>"
  let ?s0 = "set_pkt a ?f s" and ?d = "ih_daddr (pkt s a)"
  have hc: "header_change ?f" by (simp add: header_change_def)
  note s0 = set_pkt_inv [OF assms(1) hc assms(2)]
  obtain s1 rt where s1: "ensure_rt ?d ?s0 = Inr s1" "aodv_inv b (insert a H) s1" "evolves (insert a H) ?s0 s1"
    "rt_lookup ?d (rtable s1) = Some rt" "net s1 = net ?s0"
    by (rule ensure_rt_step [OF s0(1)])
  have da: "ih_daddr (pkt s1 a) = ?d" using s1(5) by (simp add: set_pkt_def)
  have inv: "entry_inv b rt" by (rule aodv_inv_entry [OF s1(2,4)])
  have rd: "rt_dst rt = ?d" by (rule rt_lookup_dst [OF s1(4)])
  have e: "evolves H s s1"
    by (rule evolves.R_trans [OF quiet_evolves evolves.R_mono [OF s1(3) subset_insertI] order_refl])
      (use s0(2) in \<open>simp add: still_def\<close>)
  have "step quiet b H s1 (
     if rt_flags rt = RTF_UP
     then bindE (assertE ''rt->rt_hops != INFINITY2'' (rt_hops rt \<noteq> INFINITY2)) (\<lambda>_. forward (Some ?d) a NO_DELAY s1)
     else if ih_saddr (pkt s1 a) = index s1 then bindE (buffer_packet a s1) (sendRequest (rt_dst rt))
     else if rt_flags rt = RTF_IN_REPAIR then buffer_packet a s1
     else report_no_route a rt s1)" (is "step quiet b H s1 ?r")
  proof -
    have buf: "step quiet b H s1 (buffer_packet a s1)"
      by (rule buffer_packet_step [OF s1(2) assms(2)]) (use da assms(3) in simp)
    have req: "step quiet b H s1 (bindE (buffer_packet a s1) (sendRequest (rt_dst rt)))"
    proof (rule quiet.step_bind [OF buf order_refl])
      fix s2 assume s2: "aodv_inv b H s2" "quiet H s1 s2"
      obtain rt2 where "rt_lookup ?d (rtable s2) = Some rt2" by (rule quiet_lookup [OF s2(2) s1(4)])
      then show "step quiet b H s2 (sendRequest (rt_dst rt) s2)" unfolding rd by (rule sendRequest_step [OF s2(1)])
    qed
    have fwd: "step quiet b H s1 (forward (Some ?d) a NO_DELAY s1)" if "rt_flags rt = RTF_UP"
      by (rule step_still [OF forward_step [OF s1(2) assms(2)]])
        (use that s1(4) da assms(3) in \<open>simp add: can_forward_def\<close>)
    have rep: "step quiet b H s1 (report_no_route a rt s1)" if "rt_flags rt = RTF_DOWN"
      by (rule step_still [OF report_no_route_step [OF s1(2) assms(2) that]])
    show ?thesis using buf req fwd rep inv by (auto simp: entry_inv_def usable_def)
  qed
  moreover have "rt_resolve a s = ?r" using s1(1,4) by (simp add: rt_resolve_def Let_def get_rt_def)
  ultimately show ?thesis using evolves.step_after [OF e step_quiet order_refl] by simp
qed

text \<open>A packet that a well-behaved node may have sent.\<close>

definition honest :: "Packet \<Rightarrow> bool" where
  "honest p \<longleftrightarrow> (ch_ptype p = PT_AODV \<longrightarrow> ih_sport p = RT_PORT \<and> ih_dport p = RT_PORT \<and>
     (case ah p of
       AODVTYPE_RREQ rq \<Rightarrow> honest_request rq
     | AODVTYPE_RREP rp \<Rightarrow> honest_reply rp \<and> ih_daddr p \<noteq> IP_BROADCAST
     | AODVTYPE_RERR re \<Rightarrow> honest_error re
     | AODVTYPE_HELLO rp \<Rightarrow> True
     | AODVTYPE_INVALID t \<Rightarrow> False))"

lemma recvAODV_step:
  assumes "aodv_inv False (insert a H) s" "a \<notin> H" "honest (pkt s a)" "ch_ptype (pkt s a) = PT_AODV"
  shows "step evolves False H s (recvAODV a s)"
proof -
  have "step evolves False H s (recvHello a rp s)" for rp
    by (rule step_quiet [OF step_still [OF recvHello_step [OF assms(1,2)]]])
  then show ?thesis
    using recvRequest_step [OF assms(1,2)] recvReply_step [OF assms(1,2)] recvError_ok [OF assms(1,2)] assms(3,4)
    by (auto simp: recvAODV_def honest_def split: hdr_aodv.splits)
qed

lemma recv_step:
  assumes "aodv_inv False (insert a H) s" "a \<notin> H" "honest (pkt s a)"
  shows "step evolves False H s (recv a s)"
proof -
  have res: "step evolves False H s1
      (if ih_daddr (pkt s1 a) \<noteq> IP_BROADCAST then rt_resolve a s1 else forward None a NO_DELAY s1)"
    if "aodv_inv False (insert a H) s1" for s1
    using rt_resolve_step [OF that assms(2)] step_quiet [OF step_still [OF forward_step [OF that assms(2), of None]]]
    by (simp add: can_forward_def)
  have dr: "step evolves False H s1 (agent_drop a r s1)" if "aodv_inv False (insert a H) s1" for s1 r
    by (rule step_quiet [OF step_still [OF agent_drop_step [OF that assms(2)]]])
  have ch: "aodv_inv False (insert a H) (set_pkt a f s)" "evolves H s (set_pkt a f s)" if "header_change f" for f
    using set_pkt_inv [OF assms(1) that assms(2)] by (simp_all add: still_def quiet_evolves)
  let ?ttl = "\<lambda>p. p\<lparr>ih_ttl := ih_ttl p - 1\<rparr>"
  let ?org = "\<lambda>p. p\<lparr>ch_size := ch_size p + IP_HDR_LEN, ih_ttl := (if ih_daddr p \<noteq> IP_BROADCAST then NETWORK_DIAMETER else ih_ttl p)\<rparr>"
  have hc: "header_change ?ttl" "header_change ?org" by (simp_all add: header_change_def)
  show ?thesis
  proof (cases "ch_ptype (pkt s a) = PT_AODV")
    case True
    have "step evolves False H (set_pkt a ?ttl s) (recvAODV a (set_pkt a ?ttl s))"
      by (rule recvAODV_step [OF ch(1) [OF hc(1)] assms(2)])
        (use assms(3) True in \<open>auto simp: set_pkt_def honest_def split: hdr_aodv.splits\<close>)
    then have "step evolves False H s (recvAODV a (set_pkt a ?ttl s))"
      by (rule evolves.step_after [OF ch(2) [OF hc(1)] _ order_refl])
    then show ?thesis using True aodv_inv_target(1) [OF assms(1)] by (simp add: recv_def)
  next
    case False
    note r1 = evolves.step_after [OF ch(2) [OF hc(2)] res [OF ch(1) [OF hc(2)]] order_refl]
    note r2 = evolves.step_after [OF ch(2) [OF hc(1)] res [OF ch(1) [OF hc(1)]] order_refl]
    note r3 = evolves.step_after [OF ch(2) [OF hc(1)] dr [OF ch(1) [OF hc(1)]] order_refl]
    show ?thesis
      using False aodv_inv_target(1) [OF assms(1)] r1 r2 r3 dr [OF assms(1)]
      unfolding recv_def Let_def by (auto simp: assertE_def)
  qed
qed

subsection \<open>Link layer feedback and repair\<close>

lemma Packet_copy_step:
  assumes "aodv_inv b H s"
  obtains c w where "Packet_copy a (net s) = Inr (c, w)" "aodv_inv b (insert c H) (s\<lparr>net := w\<rparr>)" "still H s (s\<lparr>net := w\<rparr>)" "c \<notin> H"
proof -
  obtain c w where c: "Packet_alloc (net s) = Inr (c, w)" "aodv_inv b (insert c H) (s\<lparr>net := w\<rparr>)"
    "still H s (s\<lparr>net := w\<rparr>)" "c \<notin> H"
    by (rule alloc_step [OF assms])
  let ?f = "\<lambda>q. (pk w a)\<lparr>pk_next := pk_next q, fflag := fflag q, ref_count := ref_count q, queued := queued q\<rparr>"
  have hc: "header_change ?f" by (simp add: header_change_def)
  have eq: "set_pkt c ?f (s\<lparr>net := w\<rparr>) = s\<lparr>net := pk_upd c ?f w\<rparr>" by (simp add: set_pkt_def)
  have "aodv_inv b (insert c H) (s\<lparr>net := pk_upd c ?f w\<rparr>)" "still H (s\<lparr>net := w\<rparr>) (s\<lparr>net := pk_upd c ?f w\<rparr>)"
    using set_pkt_inv [OF c(2) hc c(4)] unfolding eq by simp_all
  then show thesis
    using that [of c "pk_upd c ?f w"] c still.R_trans [OF c(3) _ order_refl] by (simp add: Packet_copy_def)
qed

text \<open>A local repair never aborts, but the route is under repair then.\<close>

lemma buffer_packet_rtable: "buffer_packet a s = Inr s' \<Longrightarrow> rtable s' = rtable s"
  by (auto simp: buffer_packet_def resultE)

lemma local_rt_repair_ok:
  assumes "aodv_inv b (insert a H) s" "a \<notin> H" "ih_daddr (pkt s a) \<noteq> IP_BROADCAST" "rt_lookup d (rtable s) = Some rt"
  obtains s2 s3 s' rt' c p where "local_rt_repair d a s = Inr s'" "aodv_inv True H s'" "evolves H s s'"
    "rt_lookup d (rtable s') = Some rt'" "core rt' = core (rt\<lparr>rt_flags := RTF_IN_REPAIR\<rparr>)"
    "last (trace (net s')) = Repair c p (rt_req_timeout rt')"
    "rt_lookup d (rtable s2) = Some (rt\<lparr>rt_flags := RTF_IN_REPAIR\<rparr>)" "CURRENT_TIME s2 = CURRENT_TIME s"
    "sendRequest d s2 = Inr s3" "rtable s' = rtable s3" "aodv_inv True H s2"
proof -
  obtain s1 where s1: "buffer_packet a s = Inr s1" "aodv_inv b H s1" "quiet H s s1"
    using buffer_packet_step [OF assms(1-3)] by (auto simp: step_def)
  have l1: "rt_lookup d (rtable s1) = Some rt" using buffer_packet_rtable [OF s1(1)] assms(4) by simp
  let ?f = "\<lambda>rt. rt\<lparr>rt_flags := RTF_IN_REPAIR\<rparr>"
  let ?s2 = "set_rt d ?f s1"
  have t1: "aodv_inv True H s1" by (rule aodv_inv_weaken [OF s1(2)]) simp
  have i2: "aodv_inv True H ?s2"
    by (rule set_rt_inv [OF t1]) (use aodv_inv_entry [OF t1] in \<open>auto simp: entry_inv_def usable_def\<close>)
  have e2: "evolves H s1 ?s2" by (rule set_rt_evolves) (auto simp: as_good_def)
  have l2: "rt_lookup d (rtable ?s2) = Some (?f rt)" using l1 by (simp add: lookup_set_rt)
  have t2: "CURRENT_TIME ?s2 = CURRENT_TIME s" using s1(3) by (simp add: quiet_def frame_def set_rt_def)
  obtain s3 where s3: "sendRequest d ?s2 = Inr s3" "aodv_inv True H s3" "quiet H ?s2 s3"
    using sendRequest_step [OF i2 l2] by (auto simp: step_def)
  obtain rt3 where l3: "rt_lookup d (rtable s3) = Some rt3" "core rt3 = core (?f rt)" by (rule quiet_lookup [OF s3(3) l2])
  obtain c w where c: "Packet_copy a (net s3) = Inr (c, w)" "aodv_inv True (insert c H) (s3\<lparr>net := w\<rparr>)"
    "still H s3 (s3\<lparr>net := w\<rparr>)" "c \<notin> H"
    by (rule Packet_copy_step [OF s3(2)])
  let ?r = "with_net (\<lambda>w. enter_queue c (log_action (Repair c (pk w c) (rt_req_timeout rt3)) w)) (s3\<lparr>net := w\<rparr>)"
  have e3: "evolves H s (s3\<lparr>net := w\<rparr>)"
  proof -
    have "evolves H s3 (s3\<lparr>net := w\<rparr>)" using c(3) by (simp add: still_def quiet_evolves)
    then have "evolves H ?s2 (s3\<lparr>net := w\<rparr>)" by (rule evolves.R_trans [OF quiet_evolves [OF s3(3)] _ order_refl])
    then have "evolves H s1 (s3\<lparr>net := w\<rparr>)" by (rule evolves.R_trans [OF e2 _ order_refl])
    then show ?thesis by (rule evolves.R_trans [OF quiet_evolves [OF s1(3)] _ order_refl])
  qed
  have "step evolves True H (s3\<lparr>net := w\<rparr>) ?r"
    by (rule step_quiet [OF step_still [OF enter_queue_step [OF c(2,4)]]])
  then obtain s' where s': "?r = Inr s'" "aodv_inv True H s'" "evolves H s s'"
    using evolves.step_after [OF e3 _ order_refl] by (auto simp: step_def)
  have res: "last (trace (net s')) = Repair c (pk w c) (rt_req_timeout rt3)" "rtable s' = rtable s3"
    using s'(1) by (auto simp: with_net_def enter_queue_def resultE)
  have "local_rt_repair d a s = ?r"
    using s1(1) s3(1) c(1) l3 by (simp add: local_rt_repair_def get_rt_def)
  then show thesis using that [of s' rt3 c "pk w c" ?s2 s3] s' res l3 l2 t2 s3(1) i2 by simp
qed

lemma local_rt_repair_step:
  assumes "aodv_inv b (insert a H) s" "a \<notin> H" "ih_daddr (pkt s a) \<noteq> IP_BROADCAST" "rt_lookup d (rtable s) = Some rt"
  shows "step evolves True H s (local_rt_repair d a s)"
proof -
  obtain s' where "local_rt_repair d a s = Inr s'" "aodv_inv True H s'" "evolves H s s'"
    by (rule local_rt_repair_ok [OF assms])
  then show ?thesis by (simp add: step_def)
qed

lemma step_weaken: "step R b H s r \<Longrightarrow> step R True H s r"
  by (auto simp: step_def intro: aodv_inv_weaken)

lemma routes_via_core: "map core t' = map core t \<Longrightarrow> routes_via i t' = routes_via i t"
proof (induction t arbitrary: t')
  case (Cons rt t)
  then obtain rt' u where "t' = rt' # u" "core rt' = core rt" "map core u = map core t" by (cases t') auto
  moreover from this have "uses i rt' = uses i rt" by (simp add: core_def uses_def)
  ultimately show ?case using Cons.IH [of u] by (simp add: routes_via_def)
qed simp

lemma rt_ll_failed_step:
  assumes "aodv_inv False (insert a H) s" "a \<notin> H"
    and "routes_via (ch_next_hop (pkt s a)) (rtable s) \<le> AODV_MAX_ERRORS"
  shows "step evolves True H s (rt_ll_failed a s)"
proof -
  let ?n = "ch_next_hop (pkt s a)"
  have dr: "step evolves True H s (agent_drop a r s)" for r
    by (rule step_weaken [OF step_quiet [OF step_still [OF agent_drop_step [OF assms(1,2)]]]])
  obtain s1 where s1: "agent_drop a ''CBK'' s = Inr s1" "aodv_inv False H s1" "still H s s1"
    using agent_drop_step [OF assms(1,2)] by (auto simp: step_def)
  obtain s2 where s2: "drop_filtered ?n s1 = Inr s2" "aodv_inv False H s2" "still H s1 s2"
    using drop_filtered_step [OF s1(2)] by (auto simp: step_def)
  have q: "quiet H s s2" using s1(3) s2(3) by (auto simp: still_def intro: quiet.R_trans)
  then have "routes_via ?n (rtable s2) \<le> AODV_MAX_ERRORS"
    using assms(3) routes_via_core [of "rtable s2" "rtable s" ?n] by (simp add: quiet_def)
  then obtain s3 where s3: "nb_delete ?n s2 = Inr s3" "aodv_inv False H s3" "evolves H s2 s3"
    by (rule nb_delete_step [OF s2(2)])
  have "step evolves False H s (bindE (agent_drop a ''CBK'' s) (\<lambda>s1. bindE (drop_filtered ?n s1) (nb_delete ?n)))"
    using s1(1) s2(1) s3 evolves.R_trans [OF quiet_evolves [OF q] s3(3) order_refl] by (simp add: step_def)
  then have del: "step evolves True H s (bindE (agent_drop a ''CBK'' s) (\<lambda>s1. bindE (drop_filtered ?n s1) (nb_delete ?n)))"
    by (rule step_weaken)
  have rep: "step evolves True H s (local_rt_repair (rt_dst rt) a s)"
    if "rt_lookup (ih_daddr (pkt s a)) (rtable s) = Some rt" "ih_daddr (pkt s a) \<noteq> IP_BROADCAST" for rt
    using local_rt_repair_step [OF assms(1,2) that(2,1)] rt_lookup_dst [OF that(1)] by simp
  show ?thesis using dr del rep by (auto simp: rt_ll_failed_def Let_def split: option.splits)
qed

lemma LocalRepairTimer_step:
  assumes "aodv_inv b (insert a H) s" "a \<notin> H"
  obtains s' where "LocalRepairTimer_handle a s = Inr s'" "aodv_inv b H s'" "frame H s s'"
proof -
  let ?d = "ih_daddr (pkt s a)"
  let ?s1 = "case rt_lookup ?d (rtable s) of None \<Rightarrow> s | Some rt \<Rightarrow> if rt_flags rt \<noteq> RTF_UP then set_rt ?d rt_down s else s"
  have "aodv_inv b (insert a H) (set_rt ?d rt_down s)"
    if "rt_lookup ?d (rtable s) = Some rt" "rt_flags rt \<noteq> RTF_UP" for rt
  proof (rule set_rt_inv [OF assms(1)])
    fix rt assume "rt_lookup ?d (rtable s) = Some rt"
    then have "entry_inv b rt" by (rule aodv_inv_entry [OF assms(1)])
    then show "entry_inv b (rt_down rt)" by (auto simp: entry_inv_def usable_def rt_down_def)
  qed (simp add: rt_down_simps)
  then have i1: "aodv_inv b (insert a H) ?s1" using assms(1) by (auto split: option.splits)
  have "frame H s ?s1" by (auto split: option.splits)
  moreover obtain s' where s': "with_net (Packet_free a) ?s1 = Inr s'" "aodv_inv b H s'" "still H ?s1 s'"
    using free_step [OF i1 assms(2)] by (auto simp: step_def)
  ultimately have "frame H s s'" by (auto simp: still_def quiet_def intro: frame_trans)
  then show thesis using that s' by (simp add: LocalRepairTimer_handle_def Let_def)
qed

subsection \<open>Timers\<close>

lemma purge_drain:
  assumes "aodv_inv b H s" "rt_lookup d (rtable s) = Some rt" "rt_flags rt = RTF_UP"
  shows "step2 quiet b H s (drain_all d (purge_forward d) x s)"
proof (rule drain_all_step [OF assms(1)])
  fix a delay s1
  assume p: "aodv_inv b (insert a H) s1" "a \<notin> H" "quiet H s s1" "ih_daddr (pkt s1 a) = d" "d \<noteq> IP_BROADCAST"
  note f = forward_buffered(2) [OF assms(2,3) p(3,1,2,4,5)]
  show "step2 still b H s1 (purge_forward d a delay s1)"
    unfolding purge_forward_def
    by (rule still.step_step2 [OF f order_refl]) (simp add: step2_def still.R_refl)
qed

lemma rt_purge_step_ok:
  assumes "aodv_inv b H s" "rt_lookup d (rtable s) = Some rt"
  shows "step2 evolves b H s (rt_purge_step d (delay, s))"
proof -
  have inv: "entry_inv b rt" by (rule aodv_inv_entry [OF assms])
  obtain xs ys where rep: "aodv_rep b H s xs ys" by (rule aodv_invE [OF assms(1)])
  obtain found where fnd: "rq_find d (rqueue s) (net s) = Inr found"
    using rep rq_find_ok [of "net s" "rqueue s" xs d] by (auto simp: aodv_rep_def)
  have req: "step2 evolves b H s (bindE (sendRequest d s) (\<lambda>s1. Inr (delay, s1)))"
    by (rule evolves.step_step2 [OF step_quiet [OF sendRequest_step [OF assms]] order_refl]) (simp add: step2_def evolves.R_refl)
  have same: "step2 evolves b H s (Inr (delay, s))" using assms(1) evolves.R_refl by (simp add: step2_def)
  have exp: "step2 evolves b H s (bindE (drop_buffered d s) (\<lambda>s1.
      bindE (assertE ''rt->rt_seqno%2'' (odd (unat (rt_seqno rt + 1)))) (\<lambda>_.
      Inr (delay, set_rt d (\<lambda>rt. rt_down (rt\<lparr>rt_seqno := rt_seqno rt + 1\<rparr>)) s1))))"
    if up: "rt_flags rt = RTF_UP"
  proof -
    obtain s1 where s1: "drop_buffered d s = Inr s1" "aodv_inv b H s1" "quiet H s s1"
      using drop_buffered_step [OF assms(1)] by (auto simp: step_def)
    obtain rt1 where l1: "rt_lookup d (rtable s1) = Some rt1" "core rt1 = core rt" by (rule quiet_lookup [OF s1(3) assms(2)])
    have f1: "rt_flags rt1 = RTF_UP" "rt_seqno rt1 = rt_seqno rt" using l1(2) up by (simp_all add: core_def)
    have ev: "even (unat (rt_seqno rt))" using inv up by (auto simp: entry_inv_def)
    let ?s2 = "set_rt d (\<lambda>rt. rt_down (rt\<lparr>rt_seqno := rt_seqno rt + 1\<rparr>)) s1"
    have eq: "?s2 = set_rt d (\<lambda>r. rt_down (r\<lparr>rt_seqno := rt_seqno rt + 1\<rparr>)) s1"
      by (rule set_rt_expand [OF l1(1)]) (simp add: f1(2))
    have "aodv_inv b H ?s2" "evolves H s1 ?s2"
      unfolding eq using down_inv [OF s1(2) l1(1) f1(1), of "rt_seqno rt + 1"] even_less_inc(1) [OF ev] f1(2) by simp_all
    then show ?thesis
      using s1(1) even_less_inc(2) [OF ev] evolves.R_trans [OF quiet_evolves [OF s1(3)] _ order_refl] by (simp add: step2_def)
  qed
  have up: "rt_flags rt = RTF_UP \<Longrightarrow> rt_hops rt \<noteq> INFINITY2" using inv by (simp add: entry_inv_def usable_def)
  show ?thesis
    using exp up step2_quiet [OF purge_drain [OF assms]] req same fnd assms(2)
    by (auto simp: rt_purge_step_def get_rt_def)
qed

lemma rt_purge_loop:
  "aodv_inv b H s \<Longrightarrow> (\<And>d. d \<in> set ds \<Longrightarrow> rt_lookup d (rtable s) \<noteq> None) \<Longrightarrow>
    step2 evolves b H s (foldE rt_purge_step ds (delay, s))"
proof (induction ds arbitrary: delay s)
  case Nil
  then show ?case by (simp add: step2_def evolves.R_refl)
next
  case (Cons d ds)
  then obtain rt where l: "rt_lookup d (rtable s) = Some rt" by fastforce
  obtain delay1 s1 where s1: "rt_purge_step d (delay, s) = Inr (delay1, s1)" "aodv_inv b H s1" "evolves H s s1"
    using rt_purge_step_ok [OF Cons.prems(1) l, of delay] by (auto simp: step2_def)
  have "step2 evolves b H s1 (foldE rt_purge_step ds (delay1, s1))"
  proof (rule Cons.IH [OF s1(2)])
    fix e assume "e \<in> set ds"
    then obtain r where "rt_lookup e (rtable s) = Some r" using Cons.prems(2) [of e] by auto
    then show "rt_lookup e (rtable s1) \<noteq> None" by (rule evolves_lookup [OF s1(3)]) simp
  qed
  then show ?case using evolves.step2_after [OF s1(3) _ order_refl] s1(1) by simp
qed

lemma rt_purge_ok:
  assumes "aodv_inv b H s"
  shows "step evolves b H s (rt_purge s)"
  unfolding rt_purge_def
  by (rule evolves.step2_bind [OF rt_purge_loop [OF assms] order_refl])
    (auto simp: rt_lookup_None step_def evolves.R_refl)

end
