(* ===== verification/Aodv_Props.thy ===== *)
theory Aodv_Props
  imports Aodv_Safe
begin

text \<open>
  What the AODV agent guarantees, over its events: it never aborts and keeps its invariant while no
  route is under repair; its routes never get older, or longer at the same age; a request is
  answered or passed on once; the send buffer is a bounded queue with time-outs.  And where it does
  not: local repair leaves routes in a state that the rest of the agent does not expect.
\<close>

section \<open>Events\<close>

primrec packets :: "aodv_event \<Rightarrow> paddr set" where
  "packets (Recv a) = {a}"
| "packets (LinkFailed a) = {a}"
| "packets (Expired t) = {}"
| "packets (RepairExpired a) = {a}"

text \<open>What is assumed of an event: the packet is one a well-behaved node may have sent, and the routes
  over a lost link fit into one error packet.\<close>

primrec event_ok :: "aodv_event \<Rightarrow> AODV \<Rightarrow> bool" where
  "event_ok (Recv a) s = honest (pkt s a)"
| "event_ok (LinkFailed a) s = (routes_via (ch_next_hop (pkt s a)) (rtable s) \<le> AODV_MAX_ERRORS)"
| "event_ok (Expired t) s = (t = ntimer \<longrightarrow> length (rtable s) \<le> AODV_MAX_ERRORS)"
| "event_ok (RepairExpired a) s = True"

lemma schedule_timer_ok:
  assumes "aodv_inv b H s" "t \<notin> armed s"
  shows "\<exists>s'. schedule_timer t base spread s = Inr s' \<and> aodv_inv b H s' \<and> rtable s' = rtable s"
proof -
  let ?w = "log_action (TimerSet t base spread) (net s)"
  obtain xs ys where r: "aodv_rep b H s xs ys" by (rule aodv_invE [OF assms(1)])
  have "aodv_rep b H (s\<lparr>net := ?w\<rparr>) xs ys"
    by (rule aodv_rep_net [OF r, where A = "{}"]) (use aodv_inv_pool [OF assms(1)] in simp_all)
  then have "aodv_inv b H (s\<lparr>armed := insert t (armed s), net := ?w\<rparr>)" by (auto simp: aodv_inv_def aodv_rep_def)
  then show ?thesis using assms(2) by (simp add: schedule_timer_def)
qed

text \<open>A timer that has expired does its work and is set again.\<close>

lemma rearm:
  assumes "step evolves b H s r" "t \<notin> armed s"
  shows "\<exists>s'. bindE r (schedule_timer t base spread) = Inr s' \<and> aodv_inv b H s' \<and> improves (rtable s) (rtable s')"
proof -
  obtain s1 where s1: "r = Inr s1" "aodv_inv b H s1" "evolves H s s1" using assms(1) by (auto simp: step_def)
  then have "t \<notin> armed s1" using assms(2) evolves_frame [OF s1(3)] by (simp add: frame_def)
  then obtain s' where "schedule_timer t base spread s1 = Inr s'" "aodv_inv b H s'" "rtable s' = rtable s1"
    using schedule_timer_ok [OF s1(2), of t base spread] by blast
  then show ?thesis using s1 by (auto simp: evolves_def)
qed

lemma aodv_timer_handle_ok:
  assumes "aodv_inv b H s" "t \<notin> armed s" "t = ntimer \<longrightarrow> \<not> b \<and> length (rtable s) \<le> AODV_MAX_ERRORS"
  shows "\<exists>s'. aodv_timer_handle t s = Inr s' \<and> aodv_inv b H s' \<and> improves (rtable s) (rtable s')"
proof (cases t)
  case btimer
  have "aodv_inv b H (id_purge s)" "rtable (id_purge s) = rtable s" "armed (id_purge s) = armed s"
    using aodv_inv_fields(4) [OF assms(1)] by (simp_all add: id_purge_def)
  then show ?thesis
    using schedule_timer_ok [of b H "id_purge s" btimer] assms(2) btimer by (fastforce simp: BroadcastTimer_handle_def)
next
  case htimer
  then show ?thesis
    using rearm [OF step_quiet [OF step_still [OF sendHello_step [OF assms(1)]]] assms(2)] by (simp add: HelloTimer_handle_def)
next
  case ntimer
  then show ?thesis using rearm [OF nb_purge_step] assms by (simp add: NeighborTimer_handle_def)
next
  case rtimer
  then show ?thesis using rearm [OF rt_purge_ok [OF assms(1)] assms(2)] by (simp add: RouteCacheTimer_handle_def)
qed

lemma step_packet:
  "step evolves b {} s r \<Longrightarrow> \<exists>s'. r = Inr s' \<and> aodv_inv b {} s' \<and> improves (rtable s) (rtable s')"
  by (auto simp: step_def evolves_def)

lemma dispatch_ok:
  assumes "aodv_inv False (packets e) s" "event_ok e s"
  shows "\<exists>s'. aodv_dispatch e s = Inr s' \<and> aodv_inv True {} s' \<and>
    ((\<forall>a. e \<noteq> LinkFailed a) \<longrightarrow> aodv_inv False {} s') \<and>
    ((\<forall>a. e \<noteq> RepairExpired a) \<longrightarrow> improves (rtable s) (rtable s'))"
proof (cases e)
  case (Recv a)
  have "step evolves False {} s (recv a s)" by (rule recv_step) (use assms Recv in simp_all)
  from step_packet [OF this] show ?thesis using Recv by (auto intro: aodv_inv_weaken)
next
  case (LinkFailed a)
  have "step evolves True {} s (rt_ll_failed a s)" by (rule rt_ll_failed_step) (use assms LinkFailed in simp_all)
  from step_packet [OF this] show ?thesis using LinkFailed by auto
next
  case (Expired t)
  have "aodv_inv False {} (s\<lparr>armed := armed s - {t}\<rparr>)" by (rule aodv_inv_fields(5)) (use assms Expired in simp)
  from aodv_timer_handle_ok [OF this, of t] show ?thesis using assms(2) Expired by (auto intro: aodv_inv_weaken)
next
  case (RepairExpired a)
  obtain s' where "LocalRepairTimer_handle a s = Inr s'" "aodv_inv False {} s'"
    by (rule LocalRepairTimer_step [of False a "{}" s]) (use assms RepairExpired in simp_all)
  then show ?thesis using RepairExpired by (auto intro: aodv_inv_weaken)
qed

section \<open>Small agents\<close>

text \<open>Agents with given packets and routes, for applying the theorems.\<close>

definition blank_packet :: Packet where
  "blank_packet = \<lparr>pk_next = None, fflag = False, ref_count = 0, queued = False, ch_ptype = PT_TCP, ch_size = 0,
     ch_error = 0, ch_ts = 0, ch_iface = 0, ch_direction = NONE, ch_prev_hop = 0, ch_next_hop = 0, ch_last_hop = 0,
     ch_addr_type = NS_AF_NONE, ch_xmit_failure = False, ch_num_forwards = 0, ih_saddr = 0, ih_sport = 0, ih_daddr = 0,
     ih_dport = 0, ih_ttl = 0, ah = AODVTYPE_INVALID 0\<rparr>"

definition demo_agent :: "Packet list \<Rightarrow> aodv_rtable \<Rightarrow> AODV" where
  "demo_agent ps t = (new_AODV 5 5 \<lparr>pk = (\<lambda>a. if a < length ps then ps ! a else blank_packet), free_head = None,
     pk_brk = length ps, sim_clock = 20, trace = []\<rparr>)\<lparr>rtable := t, ifqueue := Some [], dmux := True, target := True\<rparr>"

definition live :: "Packet \<Rightarrow> bool" where
  "live p \<longleftrightarrow> fflag p \<and> ref_count p = 0 \<and> \<not> queued p"

lemma demo_agent_inv:
  assumes "\<forall>p \<in> set ps. live p" "distinct (map rt_dst t)" "\<forall>rt \<in> set t. entry_inv b rt" "H \<subseteq> {..<length ps}"
  shows "aodv_inv b H (demo_agent ps t)"
proof -
  let ?w = "net (demo_agent ps t)"
  have "pool_inv ?w"
    by (rule pool_invI [of _ "[]"]) (auto simp: demo_agent_def new_AODV_def blank_packet_def split: if_splits)
  moreover have "rq_inv (rqueue (demo_agent ps t)) ?w []"
    by (simp add: rq_inv_def demo_agent_def new_AODV_def new_rqueue_def)
  moreover have "\<forall>a \<in> H. owned ?w a"
    using assms(1,4) by (auto simp: owned_def demo_agent_def new_AODV_def live_def)
  ultimately have "aodv_rep b H (demo_agent ps t) [] []"
    using assms(2,3) by (auto simp: aodv_rep_def demo_agent_def new_AODV_def new_rqueue_def AODV_RTQ_MAX_LEN_def)
  then show ?thesis by (auto simp: aodv_inv_def)
qed

lemma demo_agent_simps [simp]:
  "a < length ps \<Longrightarrow> pkt (demo_agent ps t) a = ps ! a" "rtable (demo_agent ps t) = t" "index (demo_agent ps t) = 5"
  "CURRENT_TIME (demo_agent ps t) = 20" "bihead (demo_agent ps t) = []"
  by (simp_all add: demo_agent_def new_AODV_def)

definition demo_request :: hdr_aodv_request where
  "demo_request = \<lparr>rq_hop_count = 2, rq_bcast_id = 7, rq_dst = 9, rq_dst_seqno = 0, rq_src = 3, rq_src_seqno = 4, rq_timestamp = 19\<rparr>"

definition demo_request_packet :: Packet where
  "demo_request_packet = blank_packet\<lparr>fflag := True, ch_ptype := PT_AODV, ih_saddr := 4, ih_daddr := IP_BROADCAST,
     ih_sport := RT_PORT, ih_dport := RT_PORT, ih_ttl := 10, ah := AODVTYPE_RREQ demo_request\<rparr>"

definition demo_route :: "nsaddr_t \<Rightarrow> nsaddr_t \<Rightarrow> aodv_rt_entry" where
  "demo_route d n = new_rt_entry\<lparr>rt_dst := d, rt_seqno := 2, rt_hops := 6, rt_nexthop := n, rt_expire := 25, rt_flags := RTF_UP\<rparr>"

lemma demo_request_honest: "honest demo_request_packet" "live demo_request_packet" "honest_request demo_request"
  by (simp_all add: honest_def demo_request_packet_def blank_packet_def honest_request_def demo_request_def live_def)

lemma demo_route_inv: "entry_inv b (demo_route d n)"
  by (simp add: entry_inv_def usable_def demo_route_def INFINITY2_def MAX_HISTORY_def new_rt_entry_def)

section \<open>Safety\<close>

text \<open>C3. While no route is under local repair, no packet of a well-behaved node, no report of the link
  layer about a neighbour over which at most 100 routes lead, and no timer, that of the neighbours with at most 100 routes
  in the table, makes the agent abort, follow a null pointer, write behind the error arrays, loop
  for ever or schedule or free a packet it does not own; its invariant holds afterwards, and only a
  report of the link layer can leave a route under repair. 100 is the room of an error packet, which the code does not
  check (\<open>Aodv_Discovery.link_failure_overflows\<close>). A well-behaved node (\<open>honest\<close>) sends requests and replies with even
  sequence numbers other than 0 and less than 255 hops, and errors with odd ones or 0.\<close>

theorem aodv_safe:
  assumes "aodv_inv False (packets e) s" "event_ok e s"
  shows "\<exists>s'. aodv_dispatch e s = Inr s' \<and> aodv_inv True {} s' \<and> ((\<forall>a. e \<noteq> LinkFailed a) \<longrightarrow> aodv_inv False {} s')"
  using dispatch_ok [OF assms] by blast

theorem aodv_safe_witness:
  "\<exists>s'. aodv_dispatch (Recv 0) (demo_agent [demo_request_packet] [demo_route 3 4]) = Inr s' \<and> aodv_inv False {} s'"
proof -
  have "aodv_inv False (packets (Recv 0)) (demo_agent [demo_request_packet] [demo_route 3 4])"
    by (rule demo_agent_inv) (simp_all add: demo_request_honest demo_route_inv)
  from aodv_safe [OF this] show ?thesis by (auto simp: demo_request_honest)
qed

text \<open>C6. While no route is under local repair, the route to a destination does not get worse by any event but the time-out of
  a repair, as long as the packets received are those of well-behaved nodes, whose errors announce odd sequence numbers or 0,
  and the limits of 100 routes of \<open>aodv_safe\<close> are kept: the event keeps the entry of a destination and leaves it with a
  greater sequence number, or with the same one and not more hops. An error with the even number of the entry, which
  a node sends after a local repair that failed, leaves the same number with 255 hops.
  The comparisons are those of the 32-bit numbers, so no sequence number wraps.\<close>

theorem aodv_routes_improve:
  assumes "aodv_inv False (packets e) s" "event_ok e s" "\<forall>a. e \<noteq> RepairExpired a"
    and "aodv_dispatch e s = Inr s'" "rt_lookup d (rtable s) = Some rt"
  shows "\<exists>rt'. rt_lookup d (rtable s') = Some rt' \<and>
    (rt_seqno rt < rt_seqno rt' \<or> rt_seqno rt = rt_seqno rt' \<and> rt_hops rt' \<le> rt_hops rt)"
  using dispatch_ok [OF assms(1,2)] assms(3-5) by (auto simp: improves_def as_good_def)

theorem aodv_routes_improve_witness:
  "\<exists>s' rt'. aodv_dispatch (Recv 0) (demo_agent [demo_request_packet] [demo_route 3 4]) = Inr s' \<and>
    rt_lookup 3 (rtable s') = Some rt' \<and> (2 < rt_seqno rt' \<or> 2 = rt_seqno rt' \<and> rt_hops rt' \<le> 6)"
proof -
  let ?s = "demo_agent [demo_request_packet] [demo_route 3 4]"
  have i: "aodv_inv False (packets (Recv 0)) ?s"
    by (rule demo_agent_inv) (simp_all add: demo_request_honest demo_route_inv)
  have o: "event_ok (Recv 0) ?s" by (simp add: demo_request_honest)
  obtain s' where s': "aodv_dispatch (Recv 0) ?s = Inr s'" using dispatch_ok [OF i o] by blast
  have l: "rt_lookup 3 (rtable ?s) = Some (demo_route 3 4)" by (simp add: demo_route_def)
  obtain rt' where "rt_lookup 3 (rtable s') = Some rt'" "rt_seqno (demo_route 3 4) < rt_seqno rt' \<or>
     rt_seqno (demo_route 3 4) = rt_seqno rt' \<and> rt_hops rt' \<le> rt_hops (demo_route 3 4)"
    using aodv_routes_improve [OF i o _ s' l] by auto
  then show ?thesis using s' by (auto simp: demo_route_def)
qed

section \<open>Requests\<close>

lemma id_find_set: "id_find i n xs \<longleftrightarrow> (\<exists>x \<in> set xs. bi_src x = i \<and> bi_id x = n)"
  by (induction xs) auto

text \<open>A request is treated once: after the agent has handled a request, another copy of it with the
  same source and identifier is released and has no other effect.\<close>

theorem duplicate_request_ignored:
  assumes "aodv_inv b {a} s" "honest_request rq" "recvRequest a rq s = Inr s'"
  shows "recvRequest c rq s' = with_net (Packet_free c) s'"
proof (cases "rq_src rq = index s \<or> id_lookup (rq_src rq) (rq_bcast_id rq) s")
  case True
  then obtain w where "s' = s\<lparr>net := w\<rparr>" using assms(3) by (auto simp: recvRequest_def with_net_def resultE split: if_splits)
  then show ?thesis using True by (auto simp: recvRequest_def id_lookup_def)
next
  case False
  let ?s0 = "id_insert (rq_src rq) (rq_bcast_id rq) s"
  have "step evolves b {} ?s0 (recvRequest a rq s)"
    by (rule new_request_step) (use assms False in simp_all)
  then have "frame {} ?s0 s'" using assms(3) by (auto simp: step_def evolves_def)
  moreover have "\<lparr>bi_src = rq_src rq, bi_id = rq_bcast_id rq, bi_expire = CURRENT_TIME s + BCAST_ID_SAVE\<rparr> \<in> set (bihead ?s0)"
    by (simp add: id_insert_def)
  moreover have "CURRENT_TIME ?s0 = CURRENT_TIME s" by (simp add: id_insert_def)
  ultimately have "\<lparr>bi_src = rq_src rq, bi_id = rq_bcast_id rq, bi_expire = CURRENT_TIME s + BCAST_ID_SAVE\<rparr> \<in> set (bihead s')"
    by (force simp: frame_def BCAST_ID_SAVE_def)
  then have "id_lookup (rq_src rq) (rq_bcast_id rq) s'" by (force simp: id_lookup_def id_find_set)
  then show ?thesis by (simp add: recvRequest_def)
qed

theorem duplicate_request_ignored_witness:
  "\<exists>s'. recvRequest 0 demo_request (demo_agent [demo_request_packet, demo_request_packet] [demo_route 3 4]) = Inr s' \<and>
    recvRequest 1 demo_request s' = with_net (Packet_free 1) s'"
proof -
  let ?s = "demo_agent [demo_request_packet, demo_request_packet] [demo_route 3 4]"
  have i: "aodv_inv False {0} ?s" by (rule demo_agent_inv) (simp_all add: demo_request_honest demo_route_inv)
  then obtain s' where "recvRequest 0 demo_request ?s = Inr s'"
    using recvRequest_step [of False 0 "{}" ?s demo_request] by (auto simp: step_def demo_request_honest)
  with duplicate_request_ignored [OF i demo_request_honest(3) this, of 1] show ?thesis by blast
qed

section \<open>Local repair\<close>

subsection \<open>A route under repair\<close>

lemma link_failure_other:
  "link_failure_step i d (re, s) = Inr (re', s') \<Longrightarrow> e \<noteq> d \<Longrightarrow> rt_lookup e (rtable s') = rt_lookup e (rtable s)"
  by (auto simp: link_failure_step_def resultE lookup_set_rt rt_down_simps split: if_splits)

lemma link_failure_not_up:
  assumes "rt_lookup d (rtable s) = Some rt" "uses i rt" "rt_flags rt \<noteq> RTF_UP" "d \<in> set ds"
  shows "\<exists>e. foldE (link_failure_step i) ds (re, s) = Inl e"
  using assms(1,4)
proof (induction ds arbitrary: re s)
  case (Cons c ds)
  show ?case
  proof (cases "link_failure_step i c (re, s)")
    case (Inr x)
    obtain re1 s1 where x: "x = (re1, s1)" by (cases x)
    have "c \<noteq> d"
      using Inr Cons.prems(1) assms(2,3) by (auto simp: link_failure_step_def uses_def)
    then have "rt_lookup d (rtable s1) = Some rt" "d \<in> set ds"
      using link_failure_other [of i c re s re1 s1 d] Inr x Cons.prems by auto
    from Cons.IH [OF this] show ?thesis using Inr x by simp
  qed simp
qed simp

text \<open>C24. Local repair marks the route but leaves its hop count and next hop, and the assertion in
  \<^verbatim>\<open>handle_link_failure\<close> demands that every such route be up: when a packet starts the local
  repair of a route over a neighbour and then the link to that neighbour is given up, for a packet that
  is not worth a repair, the simulator aborts.\<close>

theorem repair_then_link_failure_aborts:
  assumes "aodv_inv b {a} s" "ih_daddr (pkt s a) \<noteq> IP_BROADCAST" "rt_lookup d (rtable s) = Some rt"
    and "rt_hops rt \<noteq> INFINITY2" "rt_nexthop rt = i" "local_rt_repair d a s = Inr s'"
  shows "\<exists>e. nb_delete i s' = Inl e"
proof -
  obtain s2 rt' where r: "local_rt_repair d a s = Inr s2" "aodv_inv True {} s2" "rt_lookup d (rtable s2) = Some rt'"
    "core rt' = core (rt\<lparr>rt_flags := RTF_IN_REPAIR\<rparr>)"
    by (rule local_rt_repair_ok [OF assms(1) _ assms(2,3)]) simp_all
  have s2: "s2 = s'" using r(1) assms(6) by simp
  have u: "uses i rt'" "rt_flags rt' \<noteq> RTF_UP" using r(4) assms(4,5) by (simp_all add: core_def uses_def)
  let ?s1 = "s'\<lparr>seqno := seqno s' + 2, nbhead := nb_unlink i (nbhead s')\<rparr>"
  have d: "d \<in> set (map rt_dst (rtable s'))"
    using r(3) s2 by (metis list.set_map option.distinct(1) rt_lookup_None)
  have "\<exists>e. handle_link_failure i ?s1 = Inl e"
  proof (cases "Packet_alloc (net s')")
    case (Inr x)
    obtain c w where "x = (c, w)" by (cases x)
    moreover obtain e where "foldE (link_failure_step i) (map rt_dst (rtable s')) (blank_error, ?s1\<lparr>net := w\<rparr>) = Inl e"
      using link_failure_not_up [OF _ u d, of "?s1\<lparr>net := w\<rparr>"] r(3) s2 by auto
    ultimately show ?thesis using Inr by (simp add: handle_link_failure_def Let_def)
  qed (simp add: handle_link_failure_def)
  moreover have "even (unat (seqno s' + 2))" using even_inc2 [OF aodv_inv_seqno [OF r(2)]] s2 by simp
  ultimately show ?thesis by (simp add: nb_delete_def Let_def)
qed

definition demo_data_packet :: Packet where
  "demo_data_packet = blank_packet\<lparr>fflag := True, ch_ptype := PT_CBR, ch_next_hop := 4, ch_num_forwards := 8,
     ih_saddr := 2, ih_daddr := 3, ih_ttl := 10\<rparr>"

lemma demo_data_live: "live demo_data_packet"
  by (simp add: demo_data_packet_def live_def blank_packet_def)

lemma demo_repair:
  obtains s' where "local_rt_repair 3 0 (demo_agent [demo_data_packet] [demo_route 3 4]) = Inr s'"
proof -
  have "aodv_inv False (insert 0 {}) (demo_agent [demo_data_packet] [demo_route 3 4])"
    by (rule demo_agent_inv) (simp_all add: demo_data_live demo_route_inv)
  then show thesis
    by (rule local_rt_repair_ok [of False 0 "{}" _ 3 "demo_route 3 4"])
      (simp_all add: demo_data_packet_def blank_packet_def IP_BROADCAST_def demo_route_def that)
qed

theorem repair_then_link_failure_aborts_witness:
  "\<exists>s' e. local_rt_repair 3 0 (demo_agent [demo_data_packet] [demo_route 3 4]) = Inr s' \<and> nb_delete 4 s' = Inl e"
proof -
  let ?s = "demo_agent [demo_data_packet] [demo_route 3 4]"
  have i: "aodv_inv False {0} ?s" by (rule demo_agent_inv) (simp_all add: demo_data_live demo_route_inv)
  obtain s' where s': "local_rt_repair 3 0 ?s = Inr s'" by (rule demo_repair)
  have "\<exists>e. nb_delete 4 s' = Inl e"
    by (rule repair_then_link_failure_aborts [OF i _ _ _ _ s', of "demo_route 3 4"])
      (simp_all add: demo_data_packet_def blank_packet_def IP_BROADCAST_def demo_route_def INFINITY2_def)
  then show ?thesis using s' by blast
qed

subsection \<open>The repair timer\<close>

lemma drain_rtable:
  assumes "drain n d body delay s = Inr (x, s')"
    and "\<And>a delay s1 y s2. body a delay s1 = Inr (y, s2) \<Longrightarrow> rtable s2 = rtable s1"
  shows "rtable s' = rtable s"
  using assms(1)
proof (induction n arbitrary: delay s)
  case 0
  then show ?case by (auto simp: resultE take_packet_def split: option.splits prod.splits)
next
  case (Suc n)
  then obtain p q w where t: "rq_deque d (rqueue s) (net s) = Inr (p, q, w)" by (auto simp: resultE take_packet_def)
  show ?case
  proof (cases p)
    case None
    then show ?thesis using Suc.prems t by (auto simp: take_packet_def)
  next
    case (Some a)
    let ?s1 = "s\<lparr>rqueue := q, net := w\<rparr>"
    obtain delay1 s2 where b: "body a delay ?s1 = Inr (delay1, s2)" "drain n d body delay1 s2 = Inr (x, s')"
      using Suc.prems t Some by (auto simp: take_packet_def resultE)
    then show ?thesis using Suc.IH [OF b(2)] assms(2) [OF b(1)] by simp
  qed
qed

lemma agent_drop_rtable: "agent_drop a r s = Inr s' \<Longrightarrow> rtable s' = rtable s"
  by (auto simp: agent_drop_def with_net_def resultE)

lemma drop_buffered_rtable:
  assumes "drop_buffered d s = Inr s'"
  shows "rtable s' = rtable s"
proof -
  let ?body = "\<lambda>a delay s. bindE (agent_drop a ''NRTE'' s) (\<lambda>s1. Inr (delay, s1))"
  obtain x where "drain (pk_brk (net s)) d ?body 0 s = Inr (x, s')"
    using assms by (auto simp: drop_buffered_def drain_all_def resultE simp del: drain.simps)
  then show ?thesis by (rule drain_rtable) (auto simp: resultE dest: agent_drop_rtable)
qed

definition positive_latency :: "nat \<times> quotient \<Rightarrow> bool" where
  "positive_latency x \<longleftrightarrow> (case x of (n, acc) \<Rightarrow>
     n = 0 \<and> acc = Finite 0 \<or> 0 < n \<and> (acc = PosInf \<or> (\<exists>y > 0. acc = Finite y)))"

lemma latency_loop_positive: "positive_latency (n, acc) \<Longrightarrow> positive_latency (latency_loop xs n acc)"
proof (induction xs arbitrary: n acc)
  case (Cons x xs)
  have "positive_latency (Suc n, quot_add acc x)" if "quot_positive x"
    using that Cons.prems by (cases x; cases acc) (auto simp: positive_latency_def intro: add_pos_pos)
  then show ?case using Cons by simp
qed simp

lemma PerHopTime_positive: "PerHopTime rt = PosInf \<or> (\<exists>y > 0. PerHopTime rt = Finite y)"
proof (cases rt)
  case None
  then have "PerHopTime rt = Finite NODE_TRAVERSAL_TIME" by (simp add: PerHopTime_def)
  moreover have "0 < NODE_TRAVERSAL_TIME" by (simp add: NODE_TRAVERSAL_TIME_def)
  ultimately show ?thesis by blast
next
  case (Some e)
  obtain n acc where l: "latency_loop (rt_disc_latency e) 0 (Finite 0) = (n, acc)" by fastforce
  have "positive_latency (n, acc)"
    using latency_loop_positive [of 0 "Finite 0" "rt_disc_latency e"] l by (simp add: positive_latency_def)
  moreover have "0 < NODE_TRAVERSAL_TIME" by (simp add: NODE_TRAVERSAL_TIME_def)
  ultimately show ?thesis using Some l by (auto simp: PerHopTime_def positive_latency_def)
qed

lemma request_timeout_bounds:
  assumes "0 < ttl"
  shows "t < request_timeout ttl cnt (PerHopTime rt) t" "request_timeout ttl cnt (PerHopTime rt) t \<le> t + MAX_RREQ_TIMEOUT"
proof -
  consider "PerHopTime rt = PosInf" | y where "0 < y" "PerHopTime rt = Finite y" using PerHopTime_positive by blast
  then have "t < request_timeout ttl cnt (PerHopTime rt) t \<and> request_timeout ttl cnt (PerHopTime rt) t \<le> t + MAX_RREQ_TIMEOUT"
  proof cases
    case 1
    then show ?thesis by (simp add: request_timeout_def MAX_RREQ_TIMEOUT_def)
  next
    case (2 y)
    let ?x = "2 * of_int ttl * y"
    have x: "0 < ?x" using assms 2(1) by simp
    have "0 < ?x * of_nat (unat cnt)" if "0 < cnt"
    proof (rule mult_pos_pos [OF x])
      have "0 < unat cnt" using that by (simp add: word_less_nat_alt)
      then show "0 < (of_nat (unat cnt) :: rat)" by (simp only: of_nat_0_less_iff)
    qed
    then show ?thesis using x 2(2) by (simp add: request_timeout_def Let_def MAX_RREQ_TIMEOUT_def)
  qed
  then show "t < request_timeout ttl cnt (PerHopTime rt) t" "request_timeout ttl cnt (PerHopTime rt) t \<le> t + MAX_RREQ_TIMEOUT"
    by simp_all
qed

lemma request_entry_timeout:
  assumes "request_entry t rt = (ttl, rt1)" "0 \<le> rt_last_hop_count rt"
  shows "t < rt_req_timeout rt1" "rt_req_timeout rt1 \<le> t + MAX_RREQ_TIMEOUT"
proof -
  have "0 < ttl" "rt_req_last_ttl rt1 = ttl" "\<exists>cnt. rt_req_timeout rt1 = request_timeout ttl cnt (PerHopTime (Some rt)) t"
    using assms by (auto simp: request_entry_def Let_def TTL_START_def TTL_INCREMENT_def NETWORK_DIAMETER_def split: if_splits)
  then show "t < rt_req_timeout rt1" "rt_req_timeout rt1 \<le> t + MAX_RREQ_TIMEOUT"
    using request_timeout_bounds [of ttl] by auto
qed

lemma sendRequest_timeout:
  assumes "sendRequest d s = Inr s'" "rt_lookup d (rtable s) = Some rt" "rt_flags rt \<noteq> RTF_UP" "0 \<le> rt_last_hop_count rt"
    and "aodv_inv b H s"
  shows "\<exists>rt'. rt_lookup d (rtable s') = Some rt' \<and> CURRENT_TIME s < rt_req_timeout rt' \<and>
    rt_req_timeout rt' \<le> max (rt_req_timeout rt) (CURRENT_TIME s + MAX_RREQ_TIMEOUT)"
proof -
  obtain a w where a: "Packet_alloc (net s) = Inr (a, w)" "still H s (s\<lparr>net := w\<rparr>)" by (rule alloc_step [OF assms(5)])
  have t: "sim_clock w = CURRENT_TIME s" using a(2) by (simp add: still_def quiet_def frame_def)
  obtain ttl rt1 where e: "request_entry (CURRENT_TIME s) rt = (ttl, rt1)" by fastforce
  note to = request_entry_timeout [OF e assms(4)]
  have d1: "rt_dst rt1 = d" using request_entry_core [OF e] rt_lookup_dst [OF assms(2)] by simp
  show ?thesis
  proof (cases "rt_req_timeout rt > CURRENT_TIME s")
    case True
    then have "rtable s' = rtable s" using assms(1,3) a(1) t assms(2) by (auto simp: sendRequest_def with_net_def resultE)
    then show ?thesis using True assms(2) by simp
  next
    case False
    show ?thesis
    proof (cases "rt_req_cnt rt > RREQ_RETRIES")
      case True
      let ?f = "\<lambda>rt. rt\<lparr>rt_req_timeout := CURRENT_TIME s + MAX_RREQ_TIMEOUT, rt_req_cnt := 0\<rparr>"
      obtain s1 where "drop_buffered d (set_rt d ?f (s\<lparr>net := w\<rparr>)) = Inr s1" "rtable s' = rtable s1"
        using assms(1,2,3) False True a(1) t by (auto simp: sendRequest_def with_net_def resultE)
      then have "rtable s' = rtable (set_rt d ?f (s\<lparr>net := w\<rparr>))" by (simp add: drop_buffered_rtable)
      then show ?thesis using assms(2) by (simp add: lookup_set_rt MAX_RREQ_TIMEOUT_def)
    next
      case False2: False
      have "rtable s' = rtable (set_rt d (\<lambda>_. rt1) s)"
        using assms(1,2,3) False False2 a(1) t e
        by (auto simp: sendRequest_def schedule_target_def with_net_def resultE Let_def set_pkt_def set_rt_def)
      then show ?thesis using to d1 assms(2) by (simp add: lookup_set_rt)
    qed
  qed
qed

text \<open>The timer of a local repair is scheduled with the time-out of the request as its delay, but that
  time-out is a point in time: the delay is greater than the clock, so the timer expires only when more
  than twice the time the simulation has run so far is over.\<close>

theorem repair_timer_too_late:
  assumes "aodv_inv b {a} s" "ih_daddr (pkt s a) \<noteq> IP_BROADCAST" "rt_lookup d (rtable s) = Some rt"
    and "0 \<le> rt_last_hop_count rt" "local_rt_repair d a s = Inr s'"
  shows "\<exists>c p delay. last (trace (net s')) = Repair c p delay \<and> CURRENT_TIME s < delay"
proof -
  obtain s2 s3 s4 rt' c p where r: "local_rt_repair d a s = Inr s4" "rt_lookup d (rtable s4) = Some rt'"
    "last (trace (net s4)) = Repair c p (rt_req_timeout rt')"
    "rt_lookup d (rtable s2) = Some (rt\<lparr>rt_flags := RTF_IN_REPAIR\<rparr>)" "CURRENT_TIME s2 = CURRENT_TIME s"
    "sendRequest d s2 = Inr s3" "rtable s4 = rtable s3" "aodv_inv True {} s2"
    by (rule local_rt_repair_ok [OF assms(1) _ assms(2,3)]) simp_all
  have "CURRENT_TIME s < rt_req_timeout rt'"
    using sendRequest_timeout [OF r(6,4) _ _ r(8)] assms(4) r(2,5,7) by auto
  then show ?thesis using r(1,3) assms(5) by auto
qed

theorem repair_timer_too_late_witness:
  "\<exists>s' c p delay. local_rt_repair 3 0 (demo_agent [demo_data_packet] [demo_route 3 4]) = Inr s' \<and>
    last (trace (net s')) = Repair c p delay \<and> 20 < delay"
proof -
  let ?s = "demo_agent [demo_data_packet] [demo_route 3 4]"
  have i: "aodv_inv False {0} ?s" by (rule demo_agent_inv) (simp_all add: demo_data_live demo_route_inv)
  obtain s' where s': "local_rt_repair 3 0 ?s = Inr s'" by (rule demo_repair)
  have "\<exists>c p delay. last (trace (net s')) = Repair c p delay \<and> CURRENT_TIME ?s < delay"
    by (rule repair_timer_too_late [OF i _ _ _ s', of "demo_route 3 4"])
      (simp_all add: demo_data_packet_def blank_packet_def IP_BROADCAST_def demo_route_def)
  then show ?thesis using s' by auto
qed

end
