(* ===== verification/Aodv_Discovery.thy ===== *)
theory Aodv_Discovery
  imports Aodv_Props
begin

text \<open>
  What the AODV agent sends: the error packets that announce lost routes and the requests that look
  for new ones, with the limits on both; and what the end of a local repair leaves behind.
\<close>

section \<open>Error packets\<close>

text \<open>The destinations and sequence numbers that an error header announces.\<close>

definition err_dsts :: "hdr_aodv_error \<Rightarrow> nsaddr_t list" where
  "err_dsts re = take (unat (DestCount re)) (unreachable_dst re)"

definition err_seqnos :: "hdr_aodv_error \<Rightarrow> u32 list" where
  "err_seqnos re = take (unat (DestCount re)) (unreachable_dst_seqno re)"

definition err_wf :: "hdr_aodv_error \<Rightarrow> bool" where
  "err_wf re \<longleftrightarrow> length (unreachable_dst re) = AODV_MAX_ERRORS \<and> length (unreachable_dst_seqno re) = AODV_MAX_ERRORS"

lemma take_snoc_update: "n < length xs \<Longrightarrow> take (Suc n) (xs[n := x]) = take n xs @ [x]"
  by (simp add: take_Suc_conv_app_nth)

lemma add_unreachable_announces:
  assumes "add_unreachable d n re = Inr re'" "err_wf re"
  shows "err_wf re'" "err_dsts re' = err_dsts re @ [d]" "err_seqnos re' = err_seqnos re @ [n]" "0 < DestCount re'"
proof -
  have lt: "unat (DestCount re) < AODV_MAX_ERRORS" using assms(1) by (auto simp: add_unreachable_def split: if_splits)
  obtain re1 where "add_unreachable d n re = Inr re1" "unat (DestCount re1) = unat (DestCount re) + 1"
    by (rule add_unreachable_room [OF lt])
  then have c: "unat (DestCount re') = Suc (unat (DestCount re))" using assms(1) by simp
  have re': "unreachable_dst re' = (unreachable_dst re)[unat (DestCount re) := d]"
    "unreachable_dst_seqno re' = (unreachable_dst_seqno re)[unat (DestCount re) := n]"
    using assms(1) lt by (auto simp: add_unreachable_def)
  show "err_wf re'" using assms(2) re' by (simp add: err_wf_def)
  show "err_dsts re' = err_dsts re @ [d]" "err_seqnos re' = err_seqnos re @ [n]"
    unfolding err_dsts_def err_seqnos_def c re' using assms(2) lt by (simp_all add: take_snoc_update err_wf_def)
  show "0 < DestCount re'" using c by (simp add: word_less_nat_alt)
qed

text \<open>One entry of the loop over the table when a neighbour is lost.\<close>

lemma link_failure_entry:
  assumes "link_failure_step i d (re, s) = Inr (re', s')" "rt_lookup d (rtable s) = Some rt" "err_wf re"
  shows "if uses i rt
    then err_wf re' \<and> err_dsts re' = err_dsts re @ [d] \<and> err_seqnos re' = err_seqnos re @ [rt_seqno rt + 1] \<and>
      (\<exists>rt'. rt_lookup d (rtable s') = Some rt' \<and> rt_flags rt' = RTF_DOWN \<and> rt_hops rt' = INFINITY2 \<and> rt_seqno rt' = rt_seqno rt + 1)
    else re' = re \<and> rt_lookup d (rtable s') = Some (pc_delete i rt)"
proof (cases "uses i rt")
  case True
  let ?f = "\<lambda>rt. rt_down (rt\<lparr>rt_seqno := rt_seqno rt + 1\<rparr>)"
  have a: "add_unreachable d (rt_seqno rt + 1) re = Inr re'" "rt_flags rt = RTF_UP"
    "s' = set_rt d (pc_delete i) (set_rt d ?f s)"
    using assms(1,2) True by (auto simp: link_failure_step_def uses_def resultE)
  have "rt_lookup d (rtable s') = Some (pc_delete i (?f rt))"
    unfolding a(3) using assms(2) by (simp add: lookup_set_rt rt_down_simps)
  moreover have "rt_flags (pc_delete i (?f rt)) = RTF_DOWN \<and> rt_hops (pc_delete i (?f rt)) = INFINITY2 \<and>
      rt_seqno (pc_delete i (?f rt)) = rt_seqno rt + 1"
    using a(2) by (simp add: rt_down_def pc_delete_def RTF_UP_def RTF_DOWN_def)
  ultimately show ?thesis using True add_unreachable_announces [OF a(1) assms(3)] by simp
next
  case False
  then have "re' = re" "s' = set_rt d (pc_delete i) s"
    using assms(1,2) by (auto simp: link_failure_step_def uses_def resultE)
  then show ?thesis using False assms(2) by (simp add: lookup_set_rt)
qed
definition announced :: "nsaddr_t \<Rightarrow> aodv_rtable \<Rightarrow> nsaddr_t list" where
  "announced i t = filter (via i t) (map rt_dst t)"

definition next_seqno :: "aodv_rtable \<Rightarrow> nsaddr_t \<Rightarrow> u32" where
  "next_seqno t d = (case rt_lookup d t of None \<Rightarrow> 0 | Some rt \<Rightarrow> rt_seqno rt + 1)"

definition taken_down :: "nsaddr_t \<Rightarrow> u32 \<Rightarrow> aodv_rtable \<Rightarrow> bool" where
  "taken_down d n t \<longleftrightarrow> (\<exists>rt. rt_lookup d t = Some rt \<and> rt_flags rt = RTF_DOWN \<and> rt_hops rt = INFINITY2 \<and> rt_seqno rt = n)"

lemma link_failure_net: "link_failure_step i d (re, s) = Inr (re', s') \<Longrightarrow> net s' = net s"
  by (auto simp: link_failure_step_def resultE set_rt_def split: if_splits)

lemma link_failure_fold:
  "foldE (link_failure_step i) ds (re, s) = Inr (re', s') \<Longrightarrow> distinct ds \<Longrightarrow> err_wf re \<Longrightarrow>
    (\<And>d. d \<in> set ds \<Longrightarrow> rt_lookup d (rtable s) \<noteq> None) \<Longrightarrow>
    net s' = net s \<and> err_dsts re' = err_dsts re @ filter (via i (rtable s)) ds \<and>
    err_seqnos re' = err_seqnos re @ map (next_seqno (rtable s)) (filter (via i (rtable s)) ds) \<and>
    (\<forall>d. d \<notin> set ds \<longrightarrow> rt_lookup d (rtable s') = rt_lookup d (rtable s)) \<and>
    (\<forall>d \<in> set ds. if via i (rtable s) d then taken_down d (next_seqno (rtable s) d) (rtable s')
       else rt_lookup d (rtable s') = map_option (pc_delete i) (rt_lookup d (rtable s)))"
proof (induction ds arbitrary: re s)
  case (Cons d ds)
  obtain re1 s1 where st: "link_failure_step i d (re, s) = Inr (re1, s1)" "foldE (link_failure_step i) ds (re1, s1) = Inr (re', s')"
    using Cons.prems(1) by (auto simp: resultE)
  obtain rt where l: "rt_lookup d (rtable s) = Some rt" using Cons.prems(4) by fastforce
  have v: "via i (rtable s) d \<longleftrightarrow> uses i rt" "next_seqno (rtable s) d = rt_seqno rt + 1"
    using l by (simp_all add: via_def next_seqno_def)
  note e = link_failure_entry [OF st(1) l Cons.prems(3)]
  have other: "rt_lookup c (rtable s1) = rt_lookup c (rtable s)" if "c \<noteq> d" for c
    by (rule link_failure_other [OF st(1) that])
  have look: "rt_lookup c (rtable s1) = rt_lookup c (rtable s)" if "c \<in> set ds" for c
    by (rule other) (use that Cons.prems(2) in auto)
  have same: "via i (rtable s1) c = via i (rtable s) c" "next_seqno (rtable s1) c = next_seqno (rtable s) c" if "c \<in> set ds" for c
    using look [OF that] by (simp_all add: via_def next_seqno_def)
  have fl: "filter (via i (rtable s1)) ds = filter (via i (rtable s)) ds"
    by (rule filter_cong) (simp_all add: same)
  have mp: "map (next_seqno (rtable s1)) (filter (via i (rtable s)) ds) = map (next_seqno (rtable s)) (filter (via i (rtable s)) ds)"
    by (rule map_cong) (simp_all add: same)
  have wf: "err_wf re1" using e Cons.prems(3) by (auto split: if_splits)
  have ih: "net s' = net s1 \<and> err_dsts re' = err_dsts re1 @ filter (via i (rtable s1)) ds \<and>
    err_seqnos re' = err_seqnos re1 @ map (next_seqno (rtable s1)) (filter (via i (rtable s1)) ds) \<and>
    (\<forall>d. d \<notin> set ds \<longrightarrow> rt_lookup d (rtable s') = rt_lookup d (rtable s1)) \<and>
    (\<forall>d \<in> set ds. if via i (rtable s1) d then taken_down d (next_seqno (rtable s1) d) (rtable s')
       else rt_lookup d (rtable s') = map_option (pc_delete i) (rt_lookup d (rtable s1)))"
    by (rule Cons.IH [OF st(2) _ wf]) (use Cons.prems(2,4) in \<open>simp_all add: look\<close>)
  have d: "rt_lookup d (rtable s') = rt_lookup d (rtable s1)" using ih Cons.prems(2) by simp
  have "net s' = net s" using ih link_failure_net [OF st(1)] by simp
  moreover have "err_dsts re' = err_dsts re @ filter (via i (rtable s)) (d # ds)"
    "err_seqnos re' = err_seqnos re @ map (next_seqno (rtable s)) (filter (via i (rtable s)) (d # ds))"
    using ih e v unfolding fl mp by (auto split: if_splits)
  moreover have "\<forall>c. c \<notin> set (d # ds) \<longrightarrow> rt_lookup c (rtable s') = rt_lookup c (rtable s)" using ih other by auto
  moreover have "\<forall>c \<in> set (d # ds). if via i (rtable s) c then taken_down c (next_seqno (rtable s) c) (rtable s')
       else rt_lookup c (rtable s') = map_option (pc_delete i) (rt_lookup c (rtable s))"
  proof
    fix c assume "c \<in> set (d # ds)"
    then consider "c = d" | "c \<in> set ds" by auto
    then show "if via i (rtable s) c then taken_down c (next_seqno (rtable s) c) (rtable s')
       else rt_lookup c (rtable s') = map_option (pc_delete i) (rt_lookup c (rtable s))"
    proof cases
      case 1
      then show ?thesis using e v d l by (auto simp: taken_down_def split: if_splits)
    next
      case 2
      then have "if via i (rtable s1) c then taken_down c (next_seqno (rtable s1) c) (rtable s')
         else rt_lookup c (rtable s') = map_option (pc_delete i) (rt_lookup c (rtable s1))" using ih by blast
      then show ?thesis unfolding same [OF 2] look [OF 2] .
    qed
  qed
  ultimately show ?case by blast
qed (auto simp: resultE)

lemma Packet_alloc_trace: "Packet_alloc w = Inr (a, w') \<Longrightarrow> trace w' = trace w"
  by (auto simp: Packet_alloc_def resultE pk_upd_def split: option.splits)

lemma err_blank: "err_wf blank_error" "err_dsts blank_error = []" "err_seqnos blank_error = []"
  by (simp_all add: err_wf_def err_dsts_def err_seqnos_def blank_error_def)

text \<open>C22. When the link to a neighbour is lost while no route is under local repair, and at least one but not more than 100
  routes lead over it, exactly these are taken down, each with the next sequence
  number, and every other entry keeps all but the neighbour in its list of precursors; one error packet goes to all
  neighbours: it announces exactly these destinations, in the
  order of the table, with these sequence numbers.\<close>

theorem lost_link_is_announced:
  assumes "aodv_inv False H s" "0 < routes_via i (rtable s)" "routes_via i (rtable s) \<le> AODV_MAX_ERRORS"
  shows "\<exists>s' a p re. handle_link_failure i s = Inr s' \<and> trace (net s') = trace (net s) @ [Sent a p 0 0] \<and>
    ih_daddr p = IP_BROADCAST \<and> ah p = AODVTYPE_RERR re \<and> err_dsts re = announced i (rtable s) \<and>
    err_seqnos re = map (next_seqno (rtable s)) (announced i (rtable s)) \<and>
    (\<forall>d. if d \<in> set (announced i (rtable s)) then taken_down d (next_seqno (rtable s) d) (rtable s')
       else rt_lookup d (rtable s') = map_option (pc_delete i) (rt_lookup d (rtable s)))"
proof -
  obtain c w where c: "Packet_alloc (net s) = Inr (c, w)" "aodv_inv False (insert c H) (s\<lparr>net := w\<rparr>)" "c \<notin> H"
    by (rule alloc_step [OF assms(1)])
  let ?ds = "map rt_dst (rtable s)"
  have dd: "distinct ?ds" by (rule aodv_inv_distinct [OF assms(1)])
  obtain re s1 where f: "foldE (link_failure_step i) ?ds (blank_error, s\<lparr>net := w\<rparr>) = Inr (re, s1)"
    "aodv_inv False (insert c H) s1"
    using link_failure_loop [OF c(2), of ?ds blank_error i] dd assms(3) routes_via_dsts [OF dd, of i]
    by (auto simp: rt_lookup_None)
  have fold: "net s1 = w \<and> err_dsts re = err_dsts blank_error @ filter (via i (rtable s)) ?ds \<and>
    err_seqnos re = err_seqnos blank_error @ map (next_seqno (rtable s)) (filter (via i (rtable s)) ?ds) \<and>
    (\<forall>d. d \<notin> set ?ds \<longrightarrow> rt_lookup d (rtable s1) = rt_lookup d (rtable s)) \<and>
    (\<forall>d \<in> set ?ds. if via i (rtable s) d then taken_down d (next_seqno (rtable s) d) (rtable s1)
       else rt_lookup d (rtable s1) = map_option (pc_delete i) (rt_lookup d (rtable s)))"
    using link_failure_fold [OF f(1) dd err_blank(1)] by (auto simp: rt_lookup_None)
  then have r: "net s1 = w" "err_dsts re = announced i (rtable s)"
    "err_seqnos re = map (next_seqno (rtable s)) (announced i (rtable s))"
    by (simp_all add: err_blank announced_def)
  have entries: "if d \<in> set (announced i (rtable s)) then taken_down d (next_seqno (rtable s) d) (rtable s1)
       else rt_lookup d (rtable s1) = map_option (pc_delete i) (rt_lookup d (rtable s))" for d
  proof (cases "d \<in> set ?ds")
    case True
    then have "if via i (rtable s) d then taken_down d (next_seqno (rtable s) d) (rtable s1)
       else rt_lookup d (rtable s1) = map_option (pc_delete i) (rt_lookup d (rtable s))" using fold by blast
    moreover have "d \<in> set (announced i (rtable s)) \<longleftrightarrow> via i (rtable s) d" using True by (simp add: announced_def)
    ultimately show ?thesis by simp
  next
    case False
    then have "rt_lookup d (rtable s) = None" by (simp add: rt_lookup_None)
    then show ?thesis using fold False by (simp add: announced_def)
  qed
  have "announced i (rtable s) \<noteq> []" using routes_via_dsts [OF dd, of i] assms(2) by (metis announced_def length_0_conv less_irrefl)
  then have n: "0 < DestCount re" using r(2) by (auto simp: err_dsts_def word_neq_0_conv [symmetric])
  obtain s2 where s2: "sendError c re False s1 = Inr s2"
    using sendError_step [OF f(2) c(3), of re False] by (auto simp: step_def)
  then have "handle_link_failure i s = Inr s2" "rtable s2 = rtable s1"
    using c(1) f(1) n by (auto simp: handle_link_failure_def sendError_def schedule_target_def with_net_def resultE set_pkt_def)
  moreover obtain p where "trace (net s2) = trace (net s) @ [Sent c p 0 0]" "ih_daddr p = IP_BROADCAST" "ah p = AODVTYPE_RERR re"
    using s2 r(1) Packet_alloc_trace [OF c(1)]
    by (auto simp: sendError_def schedule_target_def with_net_def resultE set_pkt_def enter_queue_def log_action_def pk_upd_def)
  ultimately show ?thesis using r(2,3) entries by (intro exI [of _ s2] exI [of _ c] exI [of _ p] exI [of _ re]) simp
qed

definition demo_routes :: "nat \<Rightarrow> aodv_rtable" where
  "demo_routes n = map (\<lambda>k. demo_route (of_nat k) 4) [0..<n]"

lemma demo_routes_dst: "map rt_dst (demo_routes n) = map of_nat [0..<n]"
  by (simp add: demo_routes_def demo_route_def o_def)

lemma demo_routes_distinct: "n \<le> 2 ^ 32 \<Longrightarrow> distinct (map rt_dst (demo_routes n))"
  unfolding demo_routes_dst distinct_map
  by (auto simp: inj_on_def unsigned_of_nat take_bit_nat_eq_self dest!: arg_cong [where f = unat])

lemma demo_routes_via: "routes_via 4 (demo_routes n) = n"
  by (simp add: routes_via_def demo_routes_def uses_def demo_route_def INFINITY2_def filter_map o_def)

lemma demo_routes_inv: "n \<le> 2 ^ 32 \<Longrightarrow> aodv_inv False {} (demo_agent [] (demo_routes n))"
  by (rule demo_agent_inv) (auto simp: demo_routes_distinct, auto simp: demo_routes_def demo_route_inv)

theorem lost_link_is_announced_witness:
  "\<exists>s' a p re. handle_link_failure 4 (demo_agent [] (demo_routes 2)) = Inr s' \<and> trace (net s') = [Sent a p 0 0] \<and>
    ah p = AODVTYPE_RERR re \<and> err_dsts re = [0, 1] \<and> err_seqnos re = [3, 3]"
proof -
  have e: "announced 4 (demo_routes 2) = [0, 1]" "map (next_seqno (demo_routes 2)) [0, 1] = [3, 3]"
    "trace (net (demo_agent [] (demo_routes 2))) = []"
    by (simp_all add: announced_def via_def demo_routes_def upt_rec uses_def demo_route_def INFINITY2_def next_seqno_def
        demo_agent_def new_AODV_def)
  have "aodv_inv False {} (demo_agent [] (demo_routes 2))" by (rule demo_routes_inv) simp
  from lost_link_is_announced [OF this, of 4] show ?thesis
    unfolding demo_agent_simps e by (force simp: demo_routes_via AODV_MAX_ERRORS_def)
qed

text \<open>An error packet has room for 100 destinations and nothing checks it: when more routes than that lead
  over a lost neighbour, \<^verbatim>\<open>handle_link_failure\<close> writes behind its arrays.\<close>

theorem link_failure_overflows:
  assumes "aodv_inv False H s" "AODV_MAX_ERRORS < routes_via i (rtable s)"
  shows "handle_link_failure i s = Inl BufferOverflow"
proof -
  obtain c w where c: "Packet_alloc (net s) = Inr (c, w)" "aodv_inv False (insert c H) (s\<lparr>net := w\<rparr>)"
    by (rule alloc_step [OF assms(1)])
  have dd: "distinct (map rt_dst (rtable s))" by (rule aodv_inv_distinct [OF assms(1)])
  have "foldE (link_failure_step i) (map rt_dst (rtable s)) (blank_error, s\<lparr>net := w\<rparr>) = Inl BufferOverflow"
    using link_failure_loop [OF c(2), of "map rt_dst (rtable s)" blank_error i] dd assms(2) routes_via_dsts [OF dd, of i]
    by (auto simp: rt_lookup_None)
  then show ?thesis using c(1) by (simp add: handle_link_failure_def)
qed

theorem link_failure_overflows_witness:
  "handle_link_failure 4 (demo_agent [] (demo_routes 101)) = Inl BufferOverflow"
proof (rule link_failure_overflows)
  show "aodv_inv False {} (demo_agent [] (demo_routes 101))" by (rule demo_routes_inv) simp
qed (simp add: demo_routes_via AODV_MAX_ERRORS_def)

section \<open>Requests\<close>

lemma schedule_target_trace:
  "schedule_target a x y s = Inr s' \<Longrightarrow> trace (net s') = trace (net s) @ [Sent a (pkt s a) x y] \<and> rtable s' = rtable s \<and>
    rqueue s' = rqueue s \<and> bid s' = bid s"
  by (auto simp: schedule_target_def with_net_def resultE enter_queue_def log_action_def pk_upd_def)

lemma free_trace: "with_net (Packet_free a) s = Inr s' \<Longrightarrow> trace (net s') = trace (net s) \<and> rtable s' = rtable s"
  by (auto simp: with_net_def resultE Packet_free_def pk_upd_def split: if_splits)

text \<open>What \<^verbatim>\<open>sendRequest\<close> sends when it may send.\<close>

definition request_for :: "nsaddr_t \<Rightarrow> aodv_rt_entry \<Rightarrow> AODV \<Rightarrow> hdr_aodv_request" where
  "request_for d rt s = \<lparr>rq_hop_count = 1, rq_bcast_id = word_of_int (bid s), rq_dst = d, rq_dst_seqno = rt_seqno rt,
     rq_src = index s, rq_src_seqno = seqno s + 2, rq_timestamp = CURRENT_TIME s\<rparr>"

lemma sendRequest_sends:
  assumes "aodv_inv b H s" "rt_lookup d (rtable s) = Some rt" "rt_flags rt \<noteq> RTF_UP"
    and "rt_req_timeout rt \<le> CURRENT_TIME s" "rt_req_cnt rt \<le> RREQ_RETRIES" "request_entry (CURRENT_TIME s) rt = (ttl, rt1)"
  obtains s' a p where "sendRequest d s = Inr s'" "trace (net s') = trace (net s) @ [Sent a p 0 0]"
    "ah p = AODVTYPE_RREQ (request_for d rt s)" "ih_daddr p = IP_BROADCAST" "ih_ttl p = ttl" "rqueue s' = rqueue s"
    "rt_lookup d (rtable s') = Some rt1" "bid s' = bid s + 1"
proof -
  obtain a w where a: "Packet_alloc (net s) = Inr (a, w)" "still H s (s\<lparr>net := w\<rparr>)" by (rule alloc_step [OF assms(1)])
  have t: "sim_clock w = CURRENT_TIME s" using a(2) by (simp add: still_def quiet_def frame_def)
  obtain s' where s': "sendRequest d s = Inr s'" using sendRequest_step [OF assms(1,2)] by (auto simp: step_def)
  let ?f = "\<lambda>p. p\<lparr>ch_ptype := PT_AODV, ch_size := IP_HDR_LEN + request_size, ch_iface := - 2,
            ch_error := 0, ch_addr_type := NS_AF_NONE, ch_prev_hop := index s, ih_saddr := index s,
            ih_daddr := IP_BROADCAST, ih_sport := RT_PORT, ih_dport := RT_PORT, ih_ttl := ttl,
            ah := AODVTYPE_RREQ (request_for d rt s)\<rparr>"
  let ?s1 = "set_pkt a ?f ((set_rt d (\<lambda>_. rt1) (s\<lparr>net := w\<rparr>))\<lparr>bid := bid s + 1, seqno := seqno s + 2\<rparr>)"
  have "schedule_target a 0 0 ?s1 = Inr s'"
    using s' assms(2-6) a(1) t by (auto simp: sendRequest_def resultE Let_def request_for_def split: if_splits)
  note tr = schedule_target_trace [OF this]
  have d1: "rt_dst rt1 = d" using request_entry_core [OF assms(6)] rt_lookup_dst [OF assms(2)] by simp
  show thesis
    by (rule that [OF s', of a "?f (pk w a)"])
      (use tr d1 assms(2) Packet_alloc_trace [OF a(1)] in
        \<open>simp_all add: set_pkt_def pk_upd_def set_rt_def rt_lookup_write\<close>)
qed

lemma aodv_inv_clock: "aodv_inv b H s \<Longrightarrow> aodv_inv b H (s\<lparr>net := (net s)\<lparr>sim_clock := t\<rparr>\<rparr>)"
  by (auto simp: aodv_inv_def aodv_rep_def pool_inv_def rq_inv_def owned_def)

text \<open>C23. Requests for a route are rate limited: after a call of \<^verbatim>\<open>sendRequest\<close> for a destination, the
  time-out of its entry is in the future, and until then further calls send nothing and drop nothing;
  and unless an older time-out was still running it is at most \<^verbatim>\<open>MAX_RREQ_TIMEOUT\<close> away.\<close>

theorem request_rate_limited:
  assumes "aodv_inv b H s" "rt_lookup d (rtable s) = Some rt" "rt_flags rt \<noteq> RTF_UP" "0 \<le> rt_last_hop_count rt"
    and "sendRequest d s = Inr s'"
  shows "\<exists>rt'. rt_lookup d (rtable s') = Some rt' \<and> CURRENT_TIME s < rt_req_timeout rt' \<and>
    rt_req_timeout rt' \<le> max (rt_req_timeout rt) (CURRENT_TIME s + MAX_RREQ_TIMEOUT) \<and>
    (\<forall>t < rt_req_timeout rt'. \<exists>s2. sendRequest d (s'\<lparr>net := (net s')\<lparr>sim_clock := t\<rparr>\<rparr>) = Inr s2 \<and>
       trace (net s2) = trace (net s') \<and> rtable s2 = rtable s')"
proof -
  obtain rt' where rt': "rt_lookup d (rtable s') = Some rt'" "CURRENT_TIME s < rt_req_timeout rt'"
    "rt_req_timeout rt' \<le> max (rt_req_timeout rt) (CURRENT_TIME s + MAX_RREQ_TIMEOUT)"
    using sendRequest_timeout [OF assms(5,2,3,4,1)] by blast
  have q: "aodv_inv b H s'" "quiet H s s'" using sendRequest_step [OF assms(1,2)] assms(5) by (auto simp: step_def)
  obtain rt2 where rt2: "rt_lookup d (rtable s') = Some rt2" "core rt2 = core rt"
    by (rule core_lookup_Some [of "rtable s'" "rtable s"]) (use q(2) assms(2) in \<open>simp_all add: quiet_def\<close>)
  then have fl: "rt_flags rt' \<noteq> RTF_UP" using rt'(1) assms(3) by (simp add: core_def)
  have "\<exists>s2. sendRequest d (s'\<lparr>net := (net s')\<lparr>sim_clock := t\<rparr>\<rparr>) = Inr s2 \<and> trace (net s2) = trace (net s') \<and> rtable s2 = rtable s'"
    if t: "t < rt_req_timeout rt'" for t
  proof -
    let ?s = "s'\<lparr>net := (net s')\<lparr>sim_clock := t\<rparr>\<rparr>"
    have inv: "aodv_inv b H ?s" by (rule aodv_inv_clock [OF q(1)])
    obtain c w where c: "Packet_alloc (net ?s) = Inr (c, w)" "still H ?s (?s\<lparr>net := w\<rparr>)" by (rule alloc_step [OF inv])
    have ck: "sim_clock w = t" using c(2) by (simp add: still_def quiet_def frame_def)
    obtain s2 where s2: "sendRequest d ?s = Inr s2" using sendRequest_step [OF inv, of d rt'] rt'(1) by (auto simp: step_def)
    then have "with_net (Packet_free c) (?s\<lparr>net := w\<rparr>) = Inr s2"
      using c(1) ck rt'(1) fl t by (auto simp: sendRequest_def Let_def)
    from free_trace [OF this] show ?thesis using s2 Packet_alloc_trace [OF c(1)] by simp
  qed
  then show ?thesis using rt' by blast
qed

definition unknown_route :: "nsaddr_t \<Rightarrow> aodv_rt_entry" where
  "unknown_route d = new_rt_entry\<lparr>rt_dst := d\<rparr>"

lemma unknown_route_simps [simp]:
  "rt_dst (unknown_route d) = d" "rt_flags (unknown_route d) = RTF_DOWN" "rt_last_hop_count (unknown_route d) = 255"
  "rt_req_timeout (unknown_route d) = 0" "rt_req_cnt (unknown_route d) = 0" "rt_seqno (unknown_route d) = 0"
  "rt_req_last_ttl (unknown_route d) = 0"
  by (simp_all add: unknown_route_def new_rt_entry_def INFINITY2_def)

theorem request_rate_limited_witness:
  "\<exists>s' rt'. sendRequest 9 (demo_agent [] [unknown_route 9]) = Inr s' \<and> rt_lookup 9 (rtable s') = Some rt' \<and>
    20 < rt_req_timeout rt' \<and> rt_req_timeout rt' \<le> 30 \<and>
    (\<exists>s2. sendRequest 9 (s'\<lparr>net := (net s')\<lparr>sim_clock := 20\<rparr>\<rparr>) = Inr s2 \<and> trace (net s2) = trace (net s'))"
proof -
  let ?s = "demo_agent [] [unknown_route 9]"
  have i: "aodv_inv False {} ?s" by (rule demo_agent_inv) (simp_all add: new_entry_inv unknown_route_def)
  obtain s' where s': "sendRequest 9 ?s = Inr s'" using sendRequest_step [OF i, of 9 "unknown_route 9"] by (auto simp: step_def)
  from request_rate_limited [OF i _ _ _ s', of "unknown_route 9"] s' show ?thesis
    by (fastforce simp: MAX_RREQ_TIMEOUT_def)
qed

subsection \<open>The first packet to a destination\<close>

lemma rq_enque_tail: "rq_enque a q w = Inr (q', w') \<Longrightarrow> rq_tail q' = Some a"
  by (auto simp: rq_enque_def append_tail_def resultE Let_def split: if_splits option.splits)

lemma buffer_packet_tail: "buffer_packet a s = Inr s' \<Longrightarrow> rq_tail (rqueue s') = Some a \<and> bid s' = bid s \<and> seqno s' = seqno s"
  by (auto simp: buffer_packet_def resultE dest: rq_enque_tail)

text \<open>A node that has a packet for a destination it has never heard of buffers the packet and sends one
  request for the destination, with a new identifier and sequence number, through the whole network.  The
  small first search with \<^verbatim>\<open>TTL_START\<close> hops never happens: a new entry has the last hop count
  \<^verbatim>\<open>INFINITY2\<close>, and that counts as the reach of an earlier search.\<close>

theorem first_packet_asks_everyone:
  assumes "aodv_inv b {a} s" "0 \<le> CURRENT_TIME s" "ch_ptype (pkt s a) \<noteq> PT_AODV" "ih_saddr (pkt s a) = index s"
    and "ch_num_forwards (pkt s a) = 0" "ih_daddr (pkt s a) = d" "d \<noteq> IP_BROADCAST" "rt_lookup d (rtable s) = None"
  shows "\<exists>s' c p. recv a s = Inr s' \<and> rq_tail (rqueue s') = Some a \<and> last (trace (net s')) = Sent c p 0 0 \<and>
    ih_daddr p = IP_BROADCAST \<and> ih_ttl p = NETWORK_DIAMETER \<and>
    ah p = AODVTYPE_RREQ \<lparr>rq_hop_count = 1, rq_bcast_id = word_of_int (bid s), rq_dst = d, rq_dst_seqno = 0,
      rq_src = index s, rq_src_seqno = seqno s + 2, rq_timestamp = CURRENT_TIME s\<rparr>"
proof -
  let ?f = "\<lambda>p. p\<lparr>ch_size := ch_size p + IP_HDR_LEN, ih_ttl := (if ih_daddr p \<noteq> IP_BROADCAST then NETWORK_DIAMETER else ih_ttl p)\<rparr>"
  let ?g = "\<lambda>p. p\<lparr>ch_xmit_failure := True\<rparr>"
  let ?s0 = "set_pkt a ?g (set_pkt a ?f s)"
  have hc: "header_change ?f" "header_change ?g" by (simp_all add: header_change_def)
  note i0 = set_pkt_inv(1) [OF set_pkt_inv(1) [OF assms(1) hc(1)] hc(2)]
  let ?s1 = "?s0\<lparr>rtable := unknown_route d # rtable s\<rparr>"
  have r: "ensure_rt d ?s0 = Inr ?s1"
    using assms(8) by (simp add: ensure_rt_def rt_add_def set_pkt_def unknown_route_def)
  obtain s1' rt' where "ensure_rt d ?s0 = Inr s1'" "aodv_inv b (insert a {}) s1'" 
    by (rule ensure_rt_step [OF i0]) simp_all
  then have i1: "aodv_inv b (insert a {}) ?s1" using r by simp
  have p1: "ih_daddr (pkt ?s1 a) = d" "ih_saddr (pkt ?s1 a) = index s" "index ?s1 = index s" "bid ?s1 = bid s" "seqno ?s1 = seqno s"
    "CURRENT_TIME ?s1 = CURRENT_TIME s"
    using assms(4,6) by (simp_all add: set_pkt_def pk_upd_def)
  obtain s2 where s2: "buffer_packet a ?s1 = Inr s2" "aodv_inv b {} s2" "quiet {} ?s1 s2"
    using buffer_packet_step [OF i1] p1(1) assms(7) by (auto simp: step_def)
  note t2 = buffer_packet_tail [OF s2(1)] and rt2 = buffer_packet_rtable [OF s2(1)]
  have f2: "index s2 = index s" "CURRENT_TIME s2 = CURRENT_TIME s" using s2(3) p1 by (simp_all add: quiet_def frame_def)
  obtain rt1 where e: "request_entry (CURRENT_TIME s2) (unknown_route d) = (NETWORK_DIAMETER, rt1)"
    by (simp add: request_entry_def Let_def TTL_THRESHOLD_def)
  have l2: "rt_lookup d (rtable s2) = Some (unknown_route d)" unfolding rt2 by simp
  obtain s3 c p where s3: "sendRequest d s2 = Inr s3" "trace (net s3) = trace (net s2) @ [Sent c p 0 0]"
    "ah p = AODVTYPE_RREQ (request_for d (unknown_route d) s2)" "ih_daddr p = IP_BROADCAST" "ih_ttl p = NETWORK_DIAMETER"
    "rqueue s3 = rqueue s2"
    by (rule sendRequest_sends [OF s2(2) l2 _ _ _ e]) (use assms(2) f2 in simp_all)
  have "rt_resolve a (set_pkt a ?f s) = Inr s3"
    using r s2(1) s3(1) p1 assms(4,6) by (simp add: rt_resolve_def get_rt_def Let_def set_pkt_def pk_upd_def)
  then have "recv a s = Inr s3"
    using aodv_inv_target(1) [OF assms(1)] assms(3-7) by (simp add: recv_def Let_def set_pkt_def pk_upd_def)
  then show ?thesis using s3 t2 f2 p1 by (simp add: request_for_def)
qed

definition demo_own_packet :: Packet where
  "demo_own_packet = blank_packet\<lparr>fflag := True, ch_ptype := PT_CBR, ih_saddr := 5, ih_daddr := 9\<rparr>"

theorem first_packet_asks_everyone_witness:
  "\<exists>s' c p. recv 0 (demo_agent [demo_own_packet] []) = Inr s' \<and> rq_tail (rqueue s') = Some 0 \<and>
    last (trace (net s')) = Sent c p 0 0 \<and> ih_ttl p = NETWORK_DIAMETER"
proof -
  let ?s = "demo_agent [demo_own_packet] []"
  have i: "aodv_inv False {0} ?s"
    by (rule demo_agent_inv) (simp_all add: demo_own_packet_def live_def blank_packet_def)
  have "\<exists>s' c p. recv 0 ?s = Inr s' \<and> rq_tail (rqueue s') = Some 0 \<and> last (trace (net s')) = Sent c p 0 0 \<and>
    ih_daddr p = IP_BROADCAST \<and> ih_ttl p = NETWORK_DIAMETER \<and>
    ah p = AODVTYPE_RREQ \<lparr>rq_hop_count = 1, rq_bcast_id = word_of_int (bid ?s), rq_dst = 9, rq_dst_seqno = 0,
      rq_src = index ?s, rq_src_seqno = seqno ?s + 2, rq_timestamp = CURRENT_TIME ?s\<rparr>"
    by (rule first_packet_asks_everyone [OF i]) (simp_all add: demo_own_packet_def blank_packet_def IP_BROADCAST_def)
  then show ?thesis by blast
qed

section \<open>The end of a local repair\<close>

text \<open>When a local repair has not succeeded in time, the route is taken down, but with the sequence
  number it had, and with no error packet.  So a route to the destination that is no newer is accepted
  afterwards, however long it is.\<close>

theorem failed_repair_reopens_route:
  assumes "aodv_inv b {a} s" "rt_lookup (ih_daddr (pkt s a)) (rtable s) = Some rt" "rt_flags rt = RTF_IN_REPAIR"
  shows "\<exists>s' rt'. LocalRepairTimer_handle a s = Inr s' \<and> trace (net s') = trace (net s) \<and>
    rt_lookup (ih_daddr (pkt s a)) (rtable s') = Some rt' \<and> rt_flags rt' = RTF_DOWN \<and> rt_seqno rt' = rt_seqno rt \<and>
    (\<forall>hops < 255. better_route (rt_seqno rt) hops rt')"
proof -
  let ?d = "ih_daddr (pkt s a)"
  obtain s' where s': "LocalRepairTimer_handle a s = Inr s'"
    by (rule LocalRepairTimer_step [of b a "{}" s]) (use assms(1) in simp_all)
  have f: "with_net (Packet_free a) (set_rt ?d rt_down s) = Inr s'"
    using s' assms(2,3) by (simp add: LocalRepairTimer_handle_def Let_def RTF_UP_def RTF_IN_REPAIR_def)
  have l: "rt_lookup ?d (rtable s') = Some (rt_down rt)"
    using free_trace [OF f] assms(2) by (simp add: lookup_set_rt rt_down_simps(1))
  have "rt_hops (rt_down rt) = 255" using assms(3) by (simp add: rt_down_def RTF_DOWN_def RTF_IN_REPAIR_def INFINITY2_def)
  moreover have "(ucast hops :: u16) < 255" if "hops < 255" for hops :: byte
    using that by (simp add: word_less_nat_alt unat_hops)
  ultimately have "\<forall>hops < 255. better_route (rt_seqno rt) hops (rt_down rt)"
    by (simp add: better_route_def rt_down_simps(2))
  then show ?thesis using s' l free_trace [OF f] by (simp add: rt_down_simps set_rt_def)
qed

theorem failed_repair_reopens_route_witness:
  "\<exists>s' rt'. LocalRepairTimer_handle 0 (demo_agent [demo_data_packet] [(demo_route 3 4)\<lparr>rt_flags := RTF_IN_REPAIR\<rparr>]) = Inr s' \<and>
    rt_lookup 3 (rtable s') = Some rt' \<and> better_route 2 200 rt'"
proof -
  let ?r = "(demo_route 3 4)\<lparr>rt_flags := RTF_IN_REPAIR\<rparr>"
  have "aodv_inv True {0} (demo_agent [demo_data_packet] [?r])"
    by (rule demo_agent_inv)
      (simp_all add: demo_data_live entry_inv_def usable_def demo_route_def INFINITY2_def MAX_HISTORY_def new_rt_entry_def
        RTF_UP_def RTF_IN_REPAIR_def RTF_DOWN_def)
  from failed_repair_reopens_route [OF this, of ?r] show ?thesis
    by (auto simp: demo_data_packet_def demo_route_def)
qed

section \<open>Replies\<close>

text \<open>The actions that send a list of packets to the next hop, the first after the given delay and each
  one \<^verbatim>\<open>ARP_DELAY\<close> after the one before.\<close>

fun releases :: "nsaddr_t \<Rightarrow> double \<Rightarrow> paddr list \<Rightarrow> action list \<Rightarrow> bool" where
  "releases n t [] es \<longleftrightarrow> es = []"
| "releases n t (a # as) es \<longleftrightarrow> (\<exists>p es'. es = Sent a p t 0 # es' \<and> ch_next_hop p = n \<and> releases n (t + ARP_DELAY) as es')"

lemma find_sat: "List.find P xs = Some a \<Longrightarrow> P a"
  by (induction xs) (auto split: if_splits)

lemma filter_find:
  "filter P xs = (case List.find P xs of None \<Rightarrow> [] | Some a \<Rightarrow> a # filter P (remove1 a xs))"
  by (induction xs) (auto split: option.splits dest: find_sat)

lemma forward_sends:
  assumes "forward (Some d) a x s = Inr s'" "rt_lookup d (rtable s) = Some rt" "ih_ttl (pkt s a) \<noteq> 0"
    and "ih_daddr (pkt s a) = d" "d \<noteq> IP_BROADCAST" "d \<noteq> here_addr s" "0 \<le> x"
  shows "\<exists>p. trace (net s') = trace (net s) @ [Sent a p x 0] \<and> ch_next_hop p = rt_nexthop rt"
    "\<forall>c. c \<noteq> a \<longrightarrow> pkt s' c = pkt s c" "rqueue s' = rqueue s" "here_addr s' = here_addr s" "CURRENT_TIME s' = CURRENT_TIME s"
    "rt_lookup d (rtable s') = Some (rt\<lparr>rt_expire := CURRENT_TIME s + ACTIVE_ROUTE_TIMEOUT\<rparr>)"
proof -
  let ?f = "\<lambda>p. p\<lparr>ch_next_hop := rt_nexthop rt, ch_addr_type := NS_AF_INET, ch_direction := DOWN\<rparr>"
  let ?s1 = "set_pkt a ?f (set_rt d (\<lambda>e. e\<lparr>rt_expire := CURRENT_TIME s + ACTIVE_ROUTE_TIMEOUT\<rparr>) s)"
  have "forward_header (Some d) a s = Inr ?s1"
    using assms(1-6) by (auto simp: forward_def forward_deliver_def forward_header_def resultE split: if_splits)
  moreover have "ih_daddr (pkt ?s1 a) = d" using assms(4) by (simp add: set_pkt_def pk_upd_def set_rt_def)
  ultimately have "schedule_target a (if 0 < x then x else 0) 0 ?s1 = Inr s'"
    using assms(1,3-6) by (auto simp: forward_def forward_deliver_def split: if_splits)
  moreover have "(if 0 < x then x else 0) = x" using assms(7) by simp
  ultimately have s': "schedule_target a x 0 ?s1 = Inr s'" by simp
  note t = schedule_target_trace [OF s']
  show "\<exists>p. trace (net s') = trace (net s) @ [Sent a p x 0] \<and> ch_next_hop p = rt_nexthop rt"
    using t by (simp add: set_pkt_def pk_upd_def set_rt_def)
  show "\<forall>c. c \<noteq> a \<longrightarrow> pkt s' c = pkt s c" "rqueue s' = rqueue s" "here_addr s' = here_addr s" "CURRENT_TIME s' = CURRENT_TIME s"
    using s' by (auto simp: schedule_target_def with_net_def resultE enter_queue_def log_action_def pk_upd_def set_pkt_def set_rt_def)
  have "rtable s' = rtable (set_rt d (\<lambda>e. e\<lparr>rt_expire := CURRENT_TIME s + ACTIVE_ROUTE_TIMEOUT\<rparr>) s)"
    using t by (simp add: set_pkt_def)
  then show "rt_lookup d (rtable s') = Some (rt\<lparr>rt_expire := CURRENT_TIME s + ACTIVE_ROUTE_TIMEOUT\<rparr>)"
    using assms(2) by (simp add: lookup_set_rt)
qed

text \<open>What the send buffer holds for a destination, oldest packet first.\<close>

definition waiting :: "nsaddr_t \<Rightarrow> world \<Rightarrow> paddr list \<Rightarrow> paddr list" where
  "waiting d w xs = filter (\<lambda>c. ih_daddr (pk w c) = d) (fresh w xs)"

lemma waiting_cong:
  assumes "sim_clock w' = sim_clock w" "\<And>c. c \<in> set xs \<Longrightarrow> ih_daddr (pk w' c) = ih_daddr (pk w c) \<and> ch_ts (pk w' c) = ch_ts (pk w c)"
  shows "waiting d w' xs = waiting d w xs"
  unfolding waiting_def fresh_def filter_filter by (rule filter_cong) (use assms in \<open>auto simp: aged_def\<close>)

lemma waiting_fresh [simp]: "waiting d w (fresh w xs) = waiting d w xs"
  by (simp add: waiting_def fresh_def)

lemma waiting_first:
  "waiting d w xs = (case first_for w d (fresh w xs) of None \<Rightarrow> [] | Some a \<Rightarrow> a # waiting d w (remove1 a (fresh w xs)))"
proof (cases "first_for w d (fresh w xs)")
  case (Some a)
  have "fresh w (remove1 a (fresh w xs)) = remove1 a (fresh w xs)"
    by (auto simp: fresh_def filter_id_conv dest: notin_set_remove1)
  then show ?thesis using Some filter_find [of "\<lambda>c. ih_daddr (pk w c) = d" "fresh w xs"] by (simp add: waiting_def first_for_def)
qed (use filter_find [of "\<lambda>c. ih_daddr (pk w c) = d" "fresh w xs"] in \<open>simp add: waiting_def first_for_def\<close>)

lemma take_packet_exact:
  assumes "aodv_inv b H s" "rq_inv (rqueue s) (net s) xs" "\<forall>c \<in> set xs. ih_daddr (pkt s c) = d \<longrightarrow> ih_ttl (pkt s c) \<noteq> 0"
  obtains s1 where "take_packet d s = Inr (None, s1)" "waiting d (net s) xs = []" "trace (net s1) = trace (net s)"
  | a s1 ys where "take_packet d s = Inr (Some a, s1)" "aodv_inv b (insert a H) s1" "a \<notin> H" "rtable s1 = rtable s"
    "here_addr s1 = here_addr s" "rq_inv (rqueue s1) (net s1) ys" "waiting d (net s) xs = a # waiting d (net s1) ys" "a \<notin> set ys"
    "\<forall>c \<in> set ys. ih_daddr (pkt s1 c) = d \<longrightarrow> ih_ttl (pkt s1 c) \<noteq> 0" "ih_daddr (pkt s1 a) = d" "ih_ttl (pkt s1 a) \<noteq> 0"
    "d \<noteq> IP_BROADCAST" "trace (net s1) = trace (net s)"
proof -
  have pl: "pool_inv (net s)" by (rule aodv_inv_pool [OF assms(1)])
  let ?fr = "fresh (net s) xs"
  obtain q w where e: "rq_deque d (rqueue s) (net s) = Inr (first_for (net s) d ?fr, q, w)"
    "rq_inv q w (without (first_for (net s) d ?fr) ?fr)" "relink (set xs) (net s) w"
    by (rule rq_deque_ok [OF pl assms(2)])
  let ?s1 = "s\<lparr>rqueue := q, net := w\<rparr>"
  have ttl: "ih_ttl (pk w c) = ih_ttl (pkt s c)" for c
  proof -
    obtain k where "pk w c = (pkt s c)\<lparr>pk_next := k\<rparr>" using e(3) unfolding relink_def by blast
    then show ?thesis by simp
  qed
  have tr: "trace w = trace (net s)" by (rule relink_fields(8) [OF e(3)])
  show thesis
  proof (cases "first_for (net s) d ?fr")
    case None
    then show ?thesis using that(1) [of ?s1] e(1) tr by (simp add: take_packet_def waiting_first)
  next
    case (Some a)
    let ?ys = "remove1 a ?fr"
    have fr: "set ?fr \<subseteq> set xs" "distinct ?fr" using assms(2) by (auto simp: fresh_def rq_inv_def)
    have ys: "set ?ys \<subseteq> set xs" using fr(1) set_remove1_subset [of a ?fr] by blast
    have t: "take_packet d s = Inr (Some a, ?s1)" using e(1) Some by (simp add: take_packet_def)
    then have i: "aodv_inv b (insert a H) ?s1" "a \<notin> H" "ih_daddr (pkt ?s1 a) = d" "d \<noteq> IP_BROADCAST"
      by (auto intro: take_packet_step [OF assms(1), of d])
    have "a \<in> set ?fr" "ih_daddr (pkt s a) = d"
      using Some find_sat by (auto simp: first_for_def find_Some_iff)
    then have a: "a \<in> set xs" "ih_daddr (pkt s a) = d" "a \<notin> set ?ys" using fr by auto
    have w: "waiting d (net s) xs = a # waiting d w ?ys"
      using Some waiting_cong [of w "net s" ?ys d] relink_fields(4-6) [OF e(3)] by (simp add: waiting_first [of d "net s" xs])
    show ?thesis
      by (rule that(2) [of a ?s1 ?ys])
        (use t i a w e(2) Some tr assms(3) ttl ys relink_fields(4) [OF e(3)] in \<open>auto simp: without_def\<close>)
  qed
qed

lemma drain_releases:
  "drain k d (reply_forward d) x s = Inr (y, s') \<Longrightarrow> aodv_inv b H s \<Longrightarrow> rq_inv (rqueue s) (net s) xs \<Longrightarrow>
    rt_lookup d (rtable s) = Some rt \<Longrightarrow> rt_flags rt = RTF_UP \<Longrightarrow> rt_nexthop rt = n \<Longrightarrow> d \<noteq> here_addr s \<Longrightarrow> 0 \<le> x \<Longrightarrow>
    \<forall>c \<in> set xs. ih_daddr (pkt s c) = d \<longrightarrow> ih_ttl (pkt s c) \<noteq> 0 \<Longrightarrow>
    \<exists>es. trace (net s') = trace (net s) @ es \<and> releases n x (waiting d (net s) xs) es"
proof (induction k arbitrary: x s xs rt)
  case 0
  show ?case by (rule take_packet_exact [OF "0.prems"(2,3,9)]) (use "0.prems"(1) in auto)
next
  case (Suc k)
  show ?case
  proof (rule take_packet_exact [OF Suc.prems(2,3,9)])
    fix s1 assume "take_packet d s = Inr (None, s1)" "waiting d (net s) xs = []" "trace (net s1) = trace (net s)"
    then show ?thesis using Suc.prems(1) by auto
  next
    fix a s1 ys
    assume t: "take_packet d s = Inr (Some a, s1)" and i: "aodv_inv b (insert a H) s1" "a \<notin> H" "rtable s1 = rtable s"
      "here_addr s1 = here_addr s" and q: "rq_inv (rqueue s1) (net s1) ys" "waiting d (net s) xs = a # waiting d (net s1) ys" "a \<notin> set ys"
      and p: "\<forall>c \<in> set ys. ih_daddr (pkt s1 c) = d \<longrightarrow> ih_ttl (pkt s1 c) \<noteq> 0" "ih_daddr (pkt s1 a) = d" "ih_ttl (pkt s1 a) \<noteq> 0"
      "d \<noteq> IP_BROADCAST" "trace (net s1) = trace (net s)"
    have l1: "rt_lookup d (rtable s1) = Some rt" using i(3) Suc.prems(4) by simp
    have inf: "rt_hops rt \<noteq> INFINITY2" using aodv_inv_entry [OF i(1) l1] Suc.prems(5) by (simp add: entry_inv_def usable_def)
    obtain s2 where s2: "forward (Some d) a x s1 = Inr s2" "aodv_inv b H s2"
      using forward_step [OF i(1,2), of "Some d" x] l1 Suc.prems(5) p(2,4) by (auto simp: step_def can_forward_def)
    note f = forward_sends [OF s2(1) l1 p(3,2,4)]
    have nh: "d \<noteq> here_addr s1" using i(4) Suc.prems(7) by simp
    note f = f [OF nh Suc.prems(8)]
    have b: "reply_forward d a x s1 = Inr (x + ARP_DELAY, s2)"
      using l1 inf Suc.prems(5) s2(1) by (simp add: reply_forward_def get_rt_def)
    have same: "pkt s2 c = pkt s1 c" if "c \<in> set ys" for c using f(2) that q(3) by auto
    have "\<exists>es. trace (net s') = trace (net s2) @ es \<and> releases n (x + ARP_DELAY) (waiting d (net s2) ys) es"
    proof (rule Suc.IH [OF _ s2(2) _ f(6)])
      show "drain k d (reply_forward d) (x + ARP_DELAY) s2 = Inr (y, s')" using Suc.prems(1) t b by simp
      show "rq_inv (rqueue s2) (net s2) ys" unfolding f(3) by (rule rq_inv_cong [OF q(1) same])
      show "0 \<le> x + ARP_DELAY" using Suc.prems(8) by (simp add: ARP_DELAY_def)
    qed (use f i(4) Suc.prems(5,6,7) p(1) same in simp_all)
    moreover have "waiting d (net s2) ys = waiting d (net s1) ys"
      by (rule waiting_cong) (simp_all add: f(5) same)
    ultimately show ?thesis using f(1) q(2) p(5) Suc.prems(6) by auto
  qed
qed

text \<open>C21. When a reply with a better route comes to the node that asked, all packets that wait for the
  destination, and only they, are sent to the neighbour the reply came from: in the order they were
  buffered, each \<^verbatim>\<open>ARP_DELAY\<close> after the one before; the reply is then released.\<close>

theorem reply_releases_packets:
  assumes "aodv_inv False {a} s" "honest_reply rp" "ih_daddr (pkt s a) = index s" "index s \<noteq> IP_BROADCAST"
    and "rq_inv (rqueue s) (net s) xs" "\<forall>c \<in> set xs. ih_daddr (pkt s c) = rp_dst rp \<longrightarrow> ih_ttl (pkt s c) \<noteq> 0"
    and "rt_lookup (rp_dst rp) (rtable s) = Some rt" "better_route (rp_dst_seqno rp) (rp_hop_count rp) rt" "rp_dst rp \<noteq> here_addr s"
  shows "\<exists>s' es. recvReply a rp s = Inr s' \<and> trace (net s') = trace (net s) @ es \<and>
    releases (rp_src rp) 0 (waiting (rp_dst rp) (net s) xs) es"
proof -
  let ?d = "rp_dst rp" and ?t = "CURRENT_TIME s"
  obtain s' where s': "recvReply a rp s = Inr s'"
    using recvReply_step [of a "{}" s rp] assms(1-4) by (auto simp: step_def)
  then obtain s3 where s3: "accept_reply rp True s = Inr s3" "with_net (Packet_free a) s3 = Inr s'"
    using assms(3,7,8) by (auto simp: recvReply_def ensure_rt_def get_rt_def Let_def resultE)
  let ?r1 = "reply_entry rp ?t rt" and ?q = "quot (?t - rp_timestamp rp) (of_nat (unat (rp_hop_count rp)))"
  define r2 where "r2 = ?r1\<lparr>rt_disc_latency := (rt_disc_latency ?r1)[unat (hist_indx ?r1) := ?q],
    hist_indx := (hist_indx ?r1 + 1) mod 3\<rparr>"
  have r2: "rt_dst r2 = ?d" "rt_flags r2 = RTF_UP" "rt_nexthop r2 = rp_src rp" "rt_hops r2 = ucast (rp_hop_count rp)"
      "rt_seqno r2 = rp_dst_seqno rp" "unat (hist_indx r2) < MAX_HISTORY"
    using history_index [of "hist_indx ?r1"] rt_lookup_dst [OF assms(7)] by (simp_all add: r2_def reply_entry_def rt_update_def)
  have l1: "rt_lookup ?d (rtable (set_rt ?d (reply_entry rp ?t) s)) = Some ?r1"
    using assms(7) by (simp add: lookup_set_rt reply_entry_core)
  have hi: "unat (hist_indx ?r1) < MAX_HISTORY"
    using aodv_inv_entry [OF assms(1,7)] by (simp add: entry_inv_def reply_entry_core)
  let ?s2 = "set_rt ?d (\<lambda>_. r2) (set_rt ?d (reply_entry rp ?t) s)"
  have "accept_reply rp True s = bindE (drain_all ?d (reply_forward ?d) 0 ?s2) (\<lambda>(_, s3). Inr s3)"
    using l1 hi by (simp add: accept_reply_def Let_def get_rt_def record_latency_def r2_def)
  with s3(1) have "bindE (drain_all ?d (reply_forward ?d) 0 ?s2) (\<lambda>(_, s3). Inr s3) = Inr s3" by simp
  then obtain y where "drain_all ?d (reply_forward ?d) 0 ?s2 = Inr (y, s3)" by (auto simp: resultE)
  then have dr: "drain (pk_brk (net ?s2)) ?d (reply_forward ?d) 0 ?s2 = Inr (y, s3)" by (simp only: drain_all_def)
  have i1: "aodv_inv False {a} (set_rt ?d (reply_entry rp ?t) s)"
    using assms(2) hops_finite [of "rp_hop_count rp"]
    by (intro set_rt_inv [OF assms(1)]) (auto simp: reply_entry_core entry_inv_def usable_def honest_reply_def dest: aodv_inv_entry [OF assms(1)])
  have "entry_inv False r2"
    using r2 assms(2) hops_finite [of "rp_hop_count rp"] by (auto simp: entry_inv_def usable_def honest_reply_def)
  then have i2: "aodv_inv False {a} ?s2" by (intro set_rt_inv [OF i1]) (simp_all add: r2)
  have l2: "rt_lookup ?d (rtable ?s2) = Some r2" using assms(7) r2(1) by (simp add: lookup_set_rt reply_entry_core)
  have n2: "net ?s2 = net s" "rqueue ?s2 = rqueue s" "here_addr ?s2 = here_addr s" by (simp_all add: set_rt_def)
  obtain es where "trace (net s3) = trace (net s) @ es" "releases (rp_src rp) 0 (waiting ?d (net s) xs) es"
    using drain_releases [OF dr i2 _ l2 r2(2,3), of xs] assms(5,6,9) unfolding n2 by auto
  then show ?thesis using s' free_trace [OF s3(2)] by auto
qed

definition demo_reply :: hdr_aodv_reply where
  "demo_reply = \<lparr>rp_hop_count = 2, rp_dst = 9, rp_dst_seqno = 4, rp_src = 4, rp_lifetime = 10, rp_timestamp = 19\<rparr>"

definition demo_reply_packet :: Packet where
  "demo_reply_packet = blank_packet\<lparr>fflag := True, ch_ptype := PT_AODV, ih_saddr := 9, ih_daddr := 5,
     ih_sport := RT_PORT, ih_dport := RT_PORT, ih_ttl := 10, ah := AODVTYPE_RREP demo_reply\<rparr>"

definition demo_waiting :: AODV where
  "demo_waiting = (demo_agent [demo_reply_packet, demo_own_packet\<lparr>ih_ttl := 30, ch_ts := 40\<rparr>] [unknown_route 9])
     \<lparr>rqueue := (new_rqueue False)\<lparr>rq_head := Some 1, rq_tail := Some 1, rq_len := 1\<rparr>\<rparr>"

lemma demo_waiting_inv:
  "aodv_inv False {0} demo_waiting" "rq_inv (rqueue demo_waiting) (net demo_waiting) [1]"
proof -
  let ?s = "demo_agent [demo_reply_packet, demo_own_packet\<lparr>ih_ttl := 30, ch_ts := 40\<rparr>] [unknown_route 9]"
  have "aodv_inv False {0, 1} ?s"
    by (rule demo_agent_inv)
      (simp_all add: demo_own_packet_def demo_reply_packet_def live_def blank_packet_def new_entry_inv unknown_route_def)
  then obtain xs ys where r: "aodv_rep False {0, 1} ?s xs ys" by (rule aodv_invE)
  have q: "rq_inv (rqueue demo_waiting) (net demo_waiting) [1]"
    by (simp add: rq_inv_def demo_waiting_def new_rqueue_def demo_agent_def new_AODV_def owned_def demo_own_packet_def blank_packet_def)
  have "aodv_rep False {0} demo_waiting [1] ys"
    using r q unfolding aodv_rep_def
    by (auto simp: demo_waiting_def demo_own_packet_def IP_BROADCAST_def new_rqueue_def AODV_RTQ_MAX_LEN_def)
  then show "aodv_inv False {0} demo_waiting" by (auto simp: aodv_inv_def)
  show "rq_inv (rqueue demo_waiting) (net demo_waiting) [1]" by (rule q)
qed

theorem reply_releases_packets_witness:
  "\<exists>s' p. recvReply 0 demo_reply demo_waiting = Inr s' \<and> trace (net s') = [Sent 1 p 0 0] \<and> ch_next_hop p = 4"
proof -
  have d: "rp_dst demo_reply = 9" "rp_src demo_reply = 4" "honest_reply demo_reply" "trace (net demo_waiting) = []"
    "pkt demo_waiting 1 = demo_own_packet\<lparr>ih_ttl := 30, ch_ts := 40\<rparr>" "waiting 9 (net demo_waiting) [1] = [1]"
    by (simp_all add: demo_reply_def honest_reply_def demo_waiting_def demo_agent_def new_AODV_def waiting_def fresh_def aged_def
        demo_own_packet_def)
  have "\<exists>s' es. recvReply 0 demo_reply demo_waiting = Inr s' \<and> trace (net s') = trace (net demo_waiting) @ es \<and>
    releases (rp_src demo_reply) 0 (waiting (rp_dst demo_reply) (net demo_waiting) [1]) es"
    by (rule reply_releases_packets [OF demo_waiting_inv(1) d(3) _ _ demo_waiting_inv(2), of "unknown_route 9"])
      (simp_all add: d(1,5), simp_all add: demo_waiting_def demo_agent_def new_AODV_def demo_reply_packet_def demo_reply_def
        IP_BROADCAST_def better_route_def)
  then show ?thesis unfolding d by auto
qed

end
