(* ===== verification/Gea_Time.thy ===== *)
theory Gea_Time
  imports Gea_Prelude
begin

unbundle bit_operations_syntax

text \<open>
  Points in time and durations: \<^verbatim>\<open>gea/include/gea/Time.h\<close>, the POSIX clock
  \<^verbatim>\<open>gea/src/Time.cc\<close> and the conversion for \<^verbatim>\<open>select\<close> of
  \<^verbatim>\<open>gea/src/ShadowEventHandler.cc\<close>.

  A \<^verbatim>\<open>FixNum\<close> is a signed 64-bit count of ticks of \<open>2\<^sup>-\<^sup>2\<^sup>8\<close> seconds. It is a 64-bit word read
  as a signed number, so that sums and differences wrap the way the machine's do; \<open>AbsTime\<close> and
  \<open>Duration\<close> are its two subclasses, each linearly ordered by the signed comparison.
\<close>

section \<open>FixNum\<close>

type_synonym StoreType = u64

definition FixNum_offset :: StoreType where
  "FixNum_offset = 0x10000000"

definition FixNum_size :: nat where
  "FixNum_size = 8"

text \<open>
  \<open>toArray\<close> walks down from the end of the buffer and stores the low byte of what is left of the
  value. The memory is a list of bytes and \<open>p\<close> the position the pointer argument points to.
\<close>

fun toArray_loop :: "nat \<Rightarrow> nat \<Rightarrow> StoreType \<Rightarrow> byte list \<Rightarrow> byte list" where
  "toArray_loop 0 buf temp mem = mem"
| "toArray_loop (Suc i) buf temp mem =
     toArray_loop i (buf - 1) (drop_bit 8 temp) (mem[buf - 1 := ucast temp])"

definition toArray :: "StoreType \<Rightarrow> nat \<Rightarrow> byte list \<Rightarrow> byte list" where
  "toArray v p mem = toArray_loop FixNum_size (p + FixNum_size) v mem"

fun fromArray_loop :: "nat \<Rightarrow> nat \<Rightarrow> byte list \<Rightarrow> StoreType \<Rightarrow> StoreType" where
  "fromArray_loop 0 i mem v = v"
| "fromArray_loop (Suc n) i mem v = fromArray_loop n (Suc i) mem (push_bit 8 v OR ucast (mem ! i))"

definition fromArray :: "nat \<Rightarrow> byte list \<Rightarrow> StoreType" where
  "fromArray p mem = fromArray_loop FixNum_size p mem 0"

section \<open>AbsTime and Duration\<close>

datatype AbsTime = AbsTime (abs_v: StoreType)

datatype Duration = Duration (dur_v: StoreType)

lemma AbsTime_sint_inject: "sint (abs_v a) = sint (abs_v b) \<Longrightarrow> a = b"
  by (cases a; cases b) (auto dest: sint_injectD)

lemma Duration_sint_inject: "sint (dur_v a) = sint (dur_v b) \<Longrightarrow> a = b"
  by (cases a; cases b) (auto dest: sint_injectD)

text \<open>The comparison operators of \<^verbatim>\<open>FixNum\<close> compare the stored values as signed numbers.\<close>

definition FixNum_le :: "StoreType \<Rightarrow> StoreType \<Rightarrow> bool" where
  [simp]: "FixNum_le a b = (sint a \<le> sint b)"

definition FixNum_lt :: "StoreType \<Rightarrow> StoreType \<Rightarrow> bool" where
  [simp]: "FixNum_lt a b = (sint a < sint b)"

instantiation AbsTime :: linorder
begin

definition less_eq_AbsTime :: "AbsTime \<Rightarrow> AbsTime \<Rightarrow> bool" where
  "less_eq_AbsTime a b = FixNum_le (abs_v a) (abs_v b)"

definition less_AbsTime :: "AbsTime \<Rightarrow> AbsTime \<Rightarrow> bool" where
  "less_AbsTime a b = FixNum_lt (abs_v a) (abs_v b)"

instance
  by standard (auto simp: less_eq_AbsTime_def less_AbsTime_def dest!: AbsTime_sint_inject)

end

instantiation Duration :: linorder
begin

definition less_eq_Duration :: "Duration \<Rightarrow> Duration \<Rightarrow> bool" where
  "less_eq_Duration a b = FixNum_le (dur_v a) (dur_v b)"

definition less_Duration :: "Duration \<Rightarrow> Duration \<Rightarrow> bool" where
  "less_Duration a b = FixNum_lt (dur_v a) (dur_v b)"

instance
  by standard (auto simp: less_eq_Duration_def less_Duration_def dest!: Duration_sint_inject)

end

definition AbsTime_t0 :: AbsTime where
  "AbsTime_t0 = AbsTime 0"

definition Duration_of_double :: "double \<Rightarrow> Duration" where
  "Duration_of_double t = Duration (word_of_int (trunc (t * of_int (sint FixNum_offset) + 1 / 2)))"

text \<open>The constructor from a rational number; a zero denominator traps.\<close>

definition Duration_of_ratio :: "u64 \<Rightarrow> u64 \<Rightarrow> Duration option" where
  "Duration_of_ratio a b =
     (if b = 0 then None else Some (Duration (word_of_int (c_div (sint (a * FixNum_offset)) (sint b)))))"

definition Duration_to_double :: "Duration \<Rightarrow> double" where
  "Duration_to_double d = of_int (sint (dur_v d)) / of_int (sint FixNum_offset)"

definition time_diff :: "AbsTime \<Rightarrow> AbsTime \<Rightarrow> Duration" where
  "time_diff a b = Duration (abs_v a - abs_v b)"

definition time_add :: "AbsTime \<Rightarrow> Duration \<Rightarrow> AbsTime" where
  "time_add a b = AbsTime (abs_v a + dur_v b)"

definition time_sub :: "AbsTime \<Rightarrow> Duration \<Rightarrow> AbsTime" where
  "time_sub a b = AbsTime (abs_v a - dur_v b)"

section \<open>The POSIX clock and the timeout for select\<close>

record timeval =
  tv_sec :: int
  tv_usec :: int

text \<open>\<^verbatim>\<open>PosixApiIface::getCurrentTime\<close> from what \<^verbatim>\<open>gettimeofday\<close> returned.\<close>

definition getCurrentTime :: "timeval \<Rightarrow> AbsTime" where
  "getCurrentTime tv =
     AbsTime (word_of_int (tv_sec tv) * FixNum_offset
       + word_of_int (tv_usec tv) * word_of_int (c_div (sint FixNum_offset) 1000000))"

definition double2Timeval :: "double \<Rightarrow> timeval" where
  "double2Timeval t =
     \<lparr>tv_sec = trunc (of_int \<lfloor>t\<rfloor>), tv_usec = trunc ((t - of_int \<lfloor>t\<rfloor>) * 1000000)\<rparr>"

section \<open>Lemmas\<close>

lemmas [time_simps] =
  less_eq_AbsTime_def less_AbsTime_def less_eq_Duration_def less_Duration_def
  time_diff_def time_add_def time_sub_def AbsTime_t0_def

lemma sint_FixNum_offset [simp]: "sint FixNum_offset = 268435456"
  by (simp add: FixNum_offset_def)

lemma ticks_per_usec: "c_div (sint FixNum_offset) 1000000 = 268"
  by (simp add: c_div_def)

subsection \<open>The byte layout\<close>

fun le_bytes :: "nat \<Rightarrow> StoreType \<Rightarrow> byte list" where
  "le_bytes 0 v = []"
| "le_bytes (Suc n) v = ucast v # le_bytes n (drop_bit 8 v)"

abbreviation shift_in :: "byte \<Rightarrow> StoreType \<Rightarrow> StoreType" where
  "shift_in b v \<equiv> push_bit 8 v OR ucast b"

lemma length_le_bytes [simp]: "length (le_bytes n v) = n"
  by (induction n arbitrary: v) auto

lemma foldr_shift_in_le_bytes: "foldr shift_in (le_bytes n v) 0 = take_bit (8 * n) v"
proof (induction n arbitrary: v)
  case (Suc n)
  have "shift_in (ucast v) (take_bit (8 * n) (drop_bit 8 v)) = take_bit (8 * Suc n) v"
    by (rule bit_word_eqI) (auto simp: bit_simps)
  with Suc show ?case by simp
qed simp

lemma foldr_shift_in_bit: "bit (foldr shift_in bs 0) k \<Longrightarrow> k < 8 * length bs"
proof (induction bs arbitrary: k)
  case (Cons b bs)
  then show ?case
    by (cases "k < 8") (auto simp: bit_simps dest: Cons.IH bit_imp_le_length)
qed simp

lemma le_bytes_foldr_shift_in: "length bs \<le> 8 \<Longrightarrow> le_bytes (length bs) (foldr shift_in bs 0) = bs"
proof (induction bs)
  case (Cons b bs)
  let ?v = "foldr shift_in bs 0"
  have "ucast (shift_in b ?v) = b"
    by (rule bit_word_eqI) (auto simp: bit_simps)
  moreover have "drop_bit 8 (shift_in b ?v) = ?v"
    by (rule bit_word_eqI) (use Cons.prems in \<open>auto simp: bit_simps dest: foldr_shift_in_bit bit_imp_le_length\<close>)
  ultimately show ?case using Cons by simp
qed simp

lemma fromArray_loop_fold:
  "i + n \<le> length mem \<Longrightarrow> fromArray_loop n i mem v = fold shift_in (take n (drop i mem)) v"
proof (induction n arbitrary: i v)
  case (Suc n)
  then have "take (Suc n) (drop i mem) = mem ! i # take n (drop (Suc i) mem)"
    by (simp add: Cons_nth_drop_Suc [symmetric])
  with Suc show ?case by simp
qed simp

lemma fromArray_foldr:
  "p + FixNum_size \<le> length mem \<Longrightarrow>
    fromArray p mem = foldr shift_in (rev (take FixNum_size (drop p mem))) 0"
  by (simp add: fromArray_def fromArray_loop_fold foldr_conv_fold)

lemma toArray_loop_layout:
  "p + n \<le> length mem \<Longrightarrow>
    toArray_loop n (p + n) v mem = take p mem @ rev (le_bytes n v) @ drop (p + n) mem"
proof (induction n arbitrary: v mem)
  case (Suc n)
  let ?mem = "mem[p + n := ucast v]"
  have "toArray_loop (Suc n) (p + Suc n) v mem = toArray_loop n (p + n) (drop_bit 8 v) ?mem"
    by simp
  also have "\<dots> = take p ?mem @ rev (le_bytes n (drop_bit 8 v)) @ drop (p + n) ?mem"
    using Suc by simp
  also have "drop (p + n) ?mem = ucast v # drop (p + Suc n) mem"
    using Suc.prems by (simp add: drop_update_swap Cons_nth_drop_Suc [symmetric])
  finally show ?case by simp
qed simp

lemma toArray_layout:
  "p + FixNum_size \<le> length mem \<Longrightarrow>
    toArray v p mem = take p mem @ rev (le_bytes FixNum_size v) @ drop (p + FixNum_size) mem"
  by (simp add: toArray_def toArray_loop_layout)

subsection \<open>Rounding\<close>

lemma getCurrentTime_ticks:
  assumes "0 \<le> tv_sec tv" "tv_sec tv < 2 ^ 34" "0 \<le> tv_usec tv" "tv_usec tv < 1000000"
  shows "sint (abs_v (getCurrentTime tv)) = tv_sec tv * 268435456 + tv_usec tv * 268"
proof -
  have "abs_v (getCurrentTime tv) = word_of_int (tv_sec tv * 268435456 + tv_usec tv * 268)"
    by (simp add: getCurrentTime_def ticks_per_usec del: sint_FixNum_offset) (simp add: FixNum_offset_def)
  moreover have "sint (word_of_int (tv_sec tv * 268435456 + tv_usec tv * 268) :: u64) =
      tv_sec tv * 268435456 + tv_usec tv * 268"
    by (rule sint_word_of_int_in_range) (use assms in simp_all)
  ultimately show ?thesis by simp
qed

lemma Duration_of_double_ticks:
  assumes "0 \<le> t" "t < 2 ^ 34"
  shows "sint (dur_v (Duration_of_double t)) = \<lfloor>t * 268435456 + 1 / 2\<rfloor>"
proof -
  have "\<lfloor>t * 268435456 + 1 / 2\<rfloor> < (2 ^ 63 :: int)"
    using assms by (simp add: floor_less_iff)
  moreover have "(0::int) \<le> \<lfloor>t * 268435456 + 1 / 2\<rfloor>"
    using assms by simp
  ultimately have "sint (word_of_int \<lfloor>t * 268435456 + 1 / 2\<rfloor> :: u64) = \<lfloor>t * 268435456 + 1 / 2\<rfloor>"
    by (intro sint_word_of_int_in_range) linarith+
  with assms show ?thesis
    by (simp add: Duration_of_double_def trunc_nonneg)
qed

lemma Duration_to_double_ticks: "Duration_to_double d * 268435456 = of_int (sint (dur_v d))"
  by (simp add: Duration_to_double_def)

section \<open>Properties\<close>

text \<open>C31. Storing a time stamp with \<open>toArray\<close> and loading it with \<open>fromArray\<close> gives the value back,
  loading and storing gives the memory back, and \<open>toArray\<close> touches no byte outside its eight.\<close>

theorem FixNum_array_roundtrip:
  assumes "p + FixNum_size \<le> length mem"
  shows "fromArray p (toArray v p mem) = v
    \<and> toArray (fromArray p mem) p mem = mem
    \<and> take p (toArray v p mem) = take p mem
    \<and> drop (p + FixNum_size) (toArray v p mem) = drop (p + FixNum_size) mem"
proof (intro conjI)
  have "fromArray p (toArray v p mem) = foldr shift_in (le_bytes FixNum_size v) 0"
    using assms by (subst fromArray_foldr) (simp_all add: toArray_layout)
  also have "\<dots> = v"
    by (simp add: foldr_shift_in_le_bytes FixNum_size_def) (rule bit_word_eqI, simp add: bit_simps)
  finally show "fromArray p (toArray v p mem) = v" .
  let ?bs = "take FixNum_size (drop p mem)"
  have "length (rev ?bs) = 8"
    using assms by (simp add: FixNum_size_def)
  then have "le_bytes FixNum_size (fromArray p mem) = rev ?bs"
    using le_bytes_foldr_shift_in [of "rev ?bs"] assms
    by (simp only: fromArray_foldr FixNum_size_def order_refl)
  then have "toArray (fromArray p mem) p mem = take p mem @ ?bs @ drop (p + FixNum_size) mem"
    using assms by (simp add: toArray_layout)
  also have "\<dots> = mem"
    by (metis append_take_drop_id drop_drop add.commute)
  finally show "toArray (fromArray p mem) p mem = mem" .
qed (use assms in \<open>simp_all add: toArray_layout\<close>)

theorem FixNum_array_roundtrip_witness:
  "1 + FixNum_size \<le> length (replicate 10 (7::byte))
    \<and> fromArray 1 (toArray 0x0123456789ABCDEF 1 (replicate 10 7)) = 0x0123456789ABCDEF
    \<and> toArray 0x0123456789ABCDEF 1 (replicate 10 7) =
        [7, 0x01, 0x23, 0x45, 0x67, 0x89, 0xAB, 0xCD, 0xEF, 7]"
proof -
  have len: "1 + FixNum_size \<le> length (replicate 10 (7::byte))"
    by (simp add: FixNum_size_def)
  have "toArray 0x0123456789ABCDEF 1 (replicate 10 7) =
      [7, 0x01, 0x23, 0x45, 0x67, 0x89, 0xAB, 0xCD, 0xEF, 7]"
    by code_simp
  with len FixNum_array_roundtrip [OF len] show ?thesis by blast
qed

text \<open>The clock never runs ahead of \<^verbatim>\<open>gettimeofday\<close> and lags behind it by less than
  \<open>435456\<close> ticks (1.63 ms): \<^verbatim>\<open>offset / 1000000\<close> is the integer 268, not 268.435456.\<close>

theorem getCurrentTime_lag:
  assumes "0 \<le> tv_sec tv" "tv_sec tv < 2 ^ 34" "0 \<le> tv_usec tv" "tv_usec tv < 1000000"
  defines "exact \<equiv> (of_int (tv_sec tv) + of_int (tv_usec tv) / 1000000) * 268435456 :: rat"
  shows "of_int (sint (abs_v (getCurrentTime tv))) \<le> exact
    \<and> exact - of_int (sint (abs_v (getCurrentTime tv))) = of_int (tv_usec tv) * 435456 / 1000000"
proof -
  have "exact - of_int (sint (abs_v (getCurrentTime tv))) = of_int (tv_usec tv) * 435456 / 1000000"
    using getCurrentTime_ticks [OF assms(1-4)] by (simp add: exact_def field_simps)
  moreover have "(0::rat) \<le> of_int (tv_usec tv) * 435456 / 1000000"
    using assms(3) by simp
  ultimately show ?thesis by simp
qed

theorem getCurrentTime_lag_witness:
  "of_int (sint (abs_v (getCurrentTime \<lparr>tv_sec = 10, tv_usec = 500000\<rparr>))) \<le> (21 / 2 * 268435456 :: rat)"
  using getCurrentTime_lag [of "\<lparr>tv_sec = 10, tv_usec = 500000\<rparr>"] by simp

text \<open>The clock is strictly monotonic: a later reading of \<^verbatim>\<open>gettimeofday\<close> is a later
  \<open>AbsTime\<close>, across second boundaries too.\<close>

theorem getCurrentTime_mono:
  assumes "0 \<le> tv_sec a" "tv_sec b < 2 ^ 34" "0 \<le> tv_usec a" "tv_usec a < 1000000"
    and "0 \<le> tv_usec b" "tv_usec b < 1000000"
    and "tv_sec a < tv_sec b \<or> tv_sec a = tv_sec b \<and> tv_usec a < tv_usec b"
  shows "getCurrentTime a < getCurrentTime b"
  using assms by (auto simp: less_AbsTime_def getCurrentTime_ticks)

theorem getCurrentTime_mono_witness:
  "getCurrentTime \<lparr>tv_sec = 10, tv_usec = 999999\<rparr> < getCurrentTime \<lparr>tv_sec = 11, tv_usec = 0\<rparr>"
  by (rule getCurrentTime_mono) simp_all

text \<open>Building a duration from a non-negative number of seconds rounds to the nearest tick, and
  converting it back is off by at most half a tick.\<close>

theorem Duration_double_nearest:
  assumes "0 \<le> t" "t < 2 ^ 34"
  shows "\<bar>of_int (sint (dur_v (Duration_of_double t))) - t * 268435456\<bar> \<le> 1 / 2
    \<and> \<bar>Duration_to_double (Duration_of_double t) - t\<bar> * 268435456 \<le> 1 / 2"
proof (intro conjI)
  let ?n = "sint (dur_v (Duration_of_double t))"
  have "of_int ?n \<le> t * 268435456 + 1 / 2" "t * 268435456 + 1 / 2 < of_int ?n + 1"
    using floor_correct [of "t * 268435456 + 1 / 2"] by (simp_all only: Duration_of_double_ticks [OF assms] of_int_add of_int_1)
  then show *: "\<bar>of_int ?n - t * 268435456\<bar> \<le> 1 / 2"
    by linarith
  have "\<bar>Duration_to_double (Duration_of_double t) - t\<bar> * 268435456 =
      \<bar>(Duration_to_double (Duration_of_double t) - t) * 268435456\<bar>"
    by (simp only: abs_mult abs_numeral)
  also have "\<dots> = \<bar>of_int ?n - t * 268435456\<bar>"
    by (simp only: left_diff_distrib Duration_to_double_ticks)
  finally have "\<bar>Duration_to_double (Duration_of_double t) - t\<bar> * 268435456 = \<bar>of_int ?n - t * 268435456\<bar>" .
  with * show "\<bar>Duration_to_double (Duration_of_double t) - t\<bar> * 268435456 \<le> 1 / 2"
    by simp
qed

theorem Duration_double_nearest_witness:
  "\<bar>of_int (sint (dur_v (Duration_of_double (1 / 3)))) - 1 / 3 * 268435456\<bar> \<le> (1 / 2 :: rat)"
  using Duration_double_nearest [of "1 / 3"] by simp

text \<open>For a negative number of seconds the cast truncates towards zero, so the added half tick
  rounds the wrong way: a whole number of seconds is not represented exactly but one tick too
  large.\<close>

theorem Duration_double_negative_off_by_one:
  assumes "0 < n" "n < 2 ^ 34"
  shows "sint (dur_v (Duration_of_double (- of_int n))) = - (n * 268435456) + 1"
proof -
  have "trunc (- of_int n * 268435456 + 1 / 2) = - (n * 268435456) + 1"
  proof -
    have "\<lfloor>of_int n * 268435456 - 1 / 2 :: rat\<rfloor> = n * 268435456 - 1"
      by (rule floor_unique) simp_all
    moreover have "\<not> (0::rat) \<le> - of_int n * 268435456 + 1 / 2"
    proof -
      have "(1::rat) \<le> of_int n" using assms(1) by simp
      then show ?thesis by linarith
    qed
    ultimately show ?thesis by (simp add: trunc_def)
  qed
  moreover have "sint (word_of_int (- (n * 268435456) + 1) :: u64) = - (n * 268435456) + 1"
    by (rule sint_word_of_int_in_range) (use assms in simp_all)
  ultimately show ?thesis by (simp add: Duration_of_double_def)
qed

theorem Duration_double_negative_off_by_one_witness:
  "sint (dur_v (Duration_of_double (- of_int 1))) = - 268435455"
  using Duration_double_negative_off_by_one [of 1] by simp

text \<open>\<open>double2Timeval\<close> gives \<^verbatim>\<open>select\<close> a well-formed timeout for every non-negative sleep
  time: the microseconds are below a million and the represented time is the sleep time cut to a
  microsecond.\<close>

theorem double2Timeval_wellformed:
  assumes "0 \<le> t"
  shows "0 \<le> tv_sec (double2Timeval t) \<and> 0 \<le> tv_usec (double2Timeval t)
    \<and> tv_usec (double2Timeval t) < 1000000
    \<and> of_int (tv_sec (double2Timeval t) * 1000000 + tv_usec (double2Timeval t)) \<le> t * 1000000
    \<and> t * 1000000 < of_int (tv_sec (double2Timeval t) * 1000000 + tv_usec (double2Timeval t)) + 1"
proof (intro conjI)
  let ?f = "(t - of_int \<lfloor>t\<rfloor>) * 1000000"
  have f: "0 \<le> ?f" "?f < 1000000"
    using floor_correct [of t] by simp_all
  then have usec: "tv_usec (double2Timeval t) = \<lfloor>?f\<rfloor>"
    by (simp add: double2Timeval_def trunc_nonneg)
  have sec: "tv_sec (double2Timeval t) = \<lfloor>t\<rfloor>" by (simp add: double2Timeval_def)
  show "0 \<le> tv_sec (double2Timeval t)" using assms by (simp add: sec)
  show "0 \<le> tv_usec (double2Timeval t)" "tv_usec (double2Timeval t) < 1000000"
    using f by (simp_all add: usec floor_less_iff)
  show "of_int (tv_sec (double2Timeval t) * 1000000 + tv_usec (double2Timeval t)) \<le> t * 1000000"
    and "t * 1000000 < of_int (tv_sec (double2Timeval t) * 1000000 + tv_usec (double2Timeval t)) + 1"
    using floor_correct [of ?f] by (simp_all add: usec sec algebra_simps)
qed

theorem double2Timeval_wellformed_witness: "tv_usec (double2Timeval (5 / 4)) < 1000000"
  using double2Timeval_wellformed [of "5 / 4"] by simp

end
