(* ===== verification/Gea_ObjRepository.thy ===== *)
theory Gea_ObjRepository
  imports Gea_Prelude
begin

text \<open>
  The global object repository, \<^verbatim>\<open>gea/include/gea/ObjRepository.h\<close> and
  \<^verbatim>\<open>gea/src/ObjRepository.cc\<close>: a \<^verbatim>\<open>std::map\<close> from (node, name) to (type, pointer), and
  the macros the modules use. A pointer is a natural number, 0 the null pointer. The node comes
  from the plugged-in \<^verbatim>\<open>GEA_apiIface\<close> and is an argument of every operation; it is a
  64-bit \<^verbatim>\<open>long\<close> that each operation stores in an \<^verbatim>\<open>int\<close> first.

  The locale \<open>named_store\<close> is the contract the modules rely on; the repository is interpreted
  into it, and the modules' facts (first registration wins, registrations of different names are
  independent) are proved from it.
\<close>

section \<open>The repository\<close>

type_synonym ptr = nat
type_synonym RepKey = "int \<times> string"
type_synonym RepValue = "string \<times> ptr"
type_synonym Rep = "RepKey \<rightharpoonup> RepValue"

text \<open>\<^verbatim>\<open>int node = whichNode()\<close>: the \<^verbatim>\<open>long\<close> is cut to 32 bits.\<close>

definition whichNode :: "u64 \<Rightarrow> int" where
  "whichNode currentNode = sint (ucast currentNode :: u32)"

definition insertObj :: "u64 \<Rightarrow> string \<Rightarrow> string \<Rightarrow> ptr \<Rightarrow> Rep \<Rightarrow> Rep \<times> bool" where
  "insertObj nd name ty obj rep =
     (let key = (whichNode nd, name); val = (ty, obj) in
      case rep key of
        None \<Rightarrow> (rep(key \<mapsto> val), True)
      | Some _ \<Rightarrow> (rep, False))"

definition getObj :: "u64 \<Rightarrow> string \<Rightarrow> Rep \<Rightarrow> ptr" where
  "getObj nd name rep =
     (case rep (whichNode nd, name) of None \<Rightarrow> 0 | Some v \<Rightarrow> snd v)"

definition getType :: "u64 \<Rightarrow> string \<Rightarrow> Rep \<Rightarrow> string option" where
  "getType nd name rep =
     (case rep (whichNode nd, name) of None \<Rightarrow> None | Some v \<Rightarrow> Some (fst v))"

definition removeObject :: "u64 \<Rightarrow> string \<Rightarrow> Rep \<Rightarrow> Rep \<times> bool" where
  "removeObject nd name rep =
     (let key = (whichNode nd, name) in (rep(key := None), rep key \<noteq> None))"

text \<open>The single instance is made on first use; \<open>None\<close> is the null \<^verbatim>\<open>inst\<close>.\<close>

definition repository_instance :: "Rep option \<Rightarrow> Rep" where
  "repository_instance inst = (case inst of None \<Rightarrow> Map.empty | Some rep \<Rightarrow> rep)"

text \<open>The macros: the insertion drops the result, the lookup is unchecked.\<close>

definition REP_INSERT_OBJ :: "u64 \<Rightarrow> string \<Rightarrow> string \<Rightarrow> ptr \<Rightarrow> Rep option \<Rightarrow> Rep option" where
  "REP_INSERT_OBJ nd ty name val inst = Some (fst (insertObj nd name ty val (repository_instance inst)))"

definition REP_MAP_OBJ :: "u64 \<Rightarrow> string \<Rightarrow> Rep option \<Rightarrow> Rep option \<times> ptr" where
  "REP_MAP_OBJ nd name inst = (Some (repository_instance inst), getObj nd name (repository_instance inst))"

section \<open>The contract of a named store\<close>

text \<open>
  \<open>lookup\<close> reads the type and object under a name on a node, \<open>put\<close> and \<open>del\<close> change the store
  and say whether they did. \<open>same\<close> says when two nodes are the same one to the store.
\<close>

locale named_store =
  fixes lookup :: "'n \<Rightarrow> 'k \<Rightarrow> 's \<Rightarrow> 'v option"
    and put :: "'n \<Rightarrow> 'k \<Rightarrow> 'v \<Rightarrow> 's \<Rightarrow> 's \<times> bool"
    and del :: "'n \<Rightarrow> 'k \<Rightarrow> 's \<Rightarrow> 's \<times> bool"
    and same :: "'n \<Rightarrow> 'n \<Rightarrow> bool"
  assumes put_result: "snd (put n k v s) \<longleftrightarrow> lookup n k s = None"
    and lookup_put: "lookup m j (fst (put n k v s)) =
      (if same m n \<and> j = k \<and> lookup n k s = None then Some v else lookup m j s)"
    and del_result: "snd (del n k s) \<longleftrightarrow> lookup n k s \<noteq> None"
    and lookup_del: "lookup m j (fst (del n k s)) = (if same m n \<and> j = k then None else lookup m j s)"
    and same_refl: "same n n"
    and same_lookup: "same m n \<Longrightarrow> lookup m k s = lookup n k s"
begin

lemma first_wins: "lookup n k (fst (put n k w (fst (put n k v s)))) = lookup n k (fst (put n k v s))"
  by (simp add: lookup_put same_refl)

lemma second_refused: "\<not> snd (put n k w (fst (put n k v s)))"
  by (simp add: put_result lookup_put same_refl)

lemma put_del_put: "lookup n k (fst (put n k w (fst (del n k s)))) = Some w"
  by (simp add: lookup_put lookup_del same_refl)

lemma put_after_put_other:
  "j \<noteq> k \<or> \<not> same m n \<Longrightarrow> lookup m j (fst (put n k v s)) = lookup m j s"
  by (auto simp: lookup_put)

text \<open>Two registrations under different names commute.\<close>

lemma put_put_commute:
  assumes "j \<noteq> k"
  shows "lookup l i (fst (put m j v (fst (put n k w s)))) = lookup l i (fst (put n k w (fst (put m j v s))))"
  using assms by (auto simp: lookup_put)

lemma del_put_restores:
  "lookup n k s = None \<Longrightarrow> lookup m j (fst (del n k (fst (put n k v s)))) = lookup m j s"
  by (auto simp: lookup_put lookup_del same_lookup)

end

section \<open>The repository is a named store\<close>

definition rep_lookup :: "u64 \<Rightarrow> string \<Rightarrow> Rep \<Rightarrow> RepValue option" where
  "rep_lookup nd name rep = rep (whichNode nd, name)"

definition rep_put :: "u64 \<Rightarrow> string \<Rightarrow> RepValue \<Rightarrow> Rep \<Rightarrow> Rep \<times> bool" where
  "rep_put nd name v rep = insertObj nd name (fst v) (snd v) rep"

lemmas rep_defs = rep_lookup_def rep_put_def insertObj_def removeObject_def getObj_def getType_def

interpretation repository: named_store rep_lookup rep_put removeObject "\<lambda>m n. whichNode m = whichNode n"
  by unfold_locales (auto simp: rep_defs Let_def split: option.splits)

lemma getObj_lookup: "getObj nd name rep = (case rep_lookup nd name rep of None \<Rightarrow> 0 | Some v \<Rightarrow> snd v)"
  by (simp add: rep_defs)

lemma getType_lookup: "getType nd name rep = map_option fst (rep_lookup nd name rep)"
  by (auto simp: rep_defs split: option.splits)

lemma insertObj_put: "insertObj nd name t obj rep = rep_put nd name (t, obj) rep"
  by (simp add: rep_put_def)

section \<open>Properties\<close>

text \<open>An object is found under its name with its type after it was registered, exactly the first
  registration of a name on a node succeeds, a later one leaves the first in place, and after a
  removal the name is free again.\<close>

theorem repository_first_registration_wins:
  "(let (r, ok) = insertObj nd name t obj rep in
      ok = (getType nd name rep = None)
      \<and> (ok \<longrightarrow> getObj nd name r = obj \<and> getType nd name r = Some t)
      \<and> \<not> snd (insertObj nd name t' obj' r)
      \<and> fst (insertObj nd name t' obj' r) = r
      \<and> getObj nd name (fst (insertObj nd name t' obj' (fst (removeObject nd name r)))) = obj')"
proof -
  let ?r = "fst (rep_put nd name (t, obj) rep)"
  have "rep_lookup nd name ?r \<noteq> None"
    by (cases "rep_lookup nd name rep") (simp_all add: repository.lookup_put)
  then have "fst (rep_put nd name (t', obj') ?r) = ?r"
    by (auto simp: rep_defs Let_def split: option.splits)
  then show ?thesis
    by (auto simp: insertObj_put getObj_lookup getType_lookup split_beta repository.put_result
      repository.lookup_put repository.lookup_del repository.second_refused split: option.splits)
qed

theorem repository_first_registration_wins_witness:
  "getObj 3 ''foo'' (fst (insertObj 3 ''foo'' ''Foo *'' 42 Map.empty)) = 42"
  using repository_first_registration_wins [of 3 "''foo''" "''Foo *''" 42 Map.empty]
  by (simp add: split_beta insertObj_def getType_def)

text \<open>Registering or removing a name leaves every other name, and every name of a node with a
  different 32-bit number, as it was.\<close>

theorem repository_frame:
  assumes "other \<noteq> name \<or> whichNode m \<noteq> whichNode n"
  shows "getObj m other (fst (insertObj n name t obj rep)) = getObj m other rep
    \<and> getType m other (fst (insertObj n name t obj rep)) = getType m other rep
    \<and> getObj m other (fst (removeObject n name rep)) = getObj m other rep
    \<and> getType m other (fst (removeObject n name rep)) = getType m other rep"
proof -
  have "rep_lookup m other (fst (rep_put n name (t, obj) rep)) = rep_lookup m other rep"
    using assms by (intro repository.put_after_put_other) auto
  moreover have "rep_lookup m other (fst (removeObject n name rep)) = rep_lookup m other rep"
    using assms by (auto simp: repository.lookup_del)
  ultimately show ?thesis
    by (simp add: insertObj_put getObj_lookup getType_lookup)
qed

theorem repository_frame_witness:
  "getObj 1 ''a'' (fst (insertObj 2 ''a'' ''T *'' 9 Map.empty)) = 0"
  using repository_frame [of "''a''" "''a''" 1 2 "''T *''" 9 Map.empty]
  by (simp add: whichNode_def getObj_def)

text \<open>The cut to \<^verbatim>\<open>int\<close> makes two nodes whose numbers agree modulo \<open>2\<^sup>3\<^sup>2\<close> share their
  names.\<close>

theorem repository_node_aliasing:
  "getObj (n + 0x100000000) name (fst (insertObj n name t obj Map.empty)) = obj"
proof -
  have "(ucast (n + 0x100000000) :: u32) = ucast n"
    by transfer (simp add: take_bit_eq_mod mod_mod_cancel)
  then show ?thesis
    by (simp add: getObj_def insertObj_def whichNode_def)
qed

end
