(* ===== verification/Gea_Handle.thy ===== *)
theory Gea_Handle
  imports Gea_Time
begin

text \<open>
  Handles and the objects behind them, for the POSIX implementation of GEA:
  \<^verbatim>\<open>gea/include/gea/Handle.h\<close>, \<^verbatim>\<open>posix/ShadowHandle.h\<close>, \<^verbatim>\<open>Blocker\<close>,
  \<^verbatim>\<open>DependHandle\<close>, \<^verbatim>\<open>UnixFdHandle\<close> and the \<^verbatim>\<open>create\<close>/\<^verbatim>\<open>destroy\<close> members of
  \<^verbatim>\<open>PosixApiIface\<close> in \<^verbatim>\<open>gea/src/ShadowHandle.cc\<close>, \<^verbatim>\<open>ShadowBlocker.cc\<close>,
  \<^verbatim>\<open>ShadowDependHandle.cc\<close>.

  The heap is an explicit store: a partial map from addresses to handles and one from addresses to
  \<^verbatim>\<open>ShadowDepend\<close> objects, and the next free address. A field of an object that the
  constructor does not set is \<open>None\<close>. Following an address that is not allocated is the error
  \<open>NullPointer\<close>.
\<close>

section \<open>Handle and ShadowHandle\<close>

type_synonym addr = nat

datatype Status = Undefined | Error | Blocked | Timeout | Ready

datatype PosixHandleMode = PosixModeRead | PosixModeWrite | PosixModeException

datatype HandleType = TypeUnixFdHandle | TypeBlocker | TypeDepend | TypeUdpHandle

record ShadowHandle =
  unixFd :: "int option"
  unixMode :: "PosixHandleMode option"
  handleType :: "HandleType option"

record Handle =
  shadowHandle :: "ShadowHandle option"
  status :: "Status option"
  subDepend :: "addr option"
  subUdpHandle :: "addr option"

record ShadowDepend =
  master :: addr
  triggered :: bool

record heap =
  handles :: "addr \<rightharpoonup> Handle"
  depends :: "addr \<rightharpoonup> ShadowDepend"
  next_addr :: addr

definition isUnixFdHandle :: "ShadowHandle \<Rightarrow> bool" where
  "isUnixFdHandle sh = (handleType sh = Some TypeUnixFdHandle)"

definition isUdpHandle :: "ShadowHandle \<Rightarrow> bool" where
  "isUdpHandle sh = (handleType sh = Some TypeUdpHandle)"

definition isBlocker :: "ShadowHandle \<Rightarrow> bool" where
  "isBlocker sh = (handleType sh = Some TypeBlocker)"

definition isDepend :: "ShadowHandle \<Rightarrow> bool" where
  "isDepend sh = (handleType sh = Some TypeDepend)"

section \<open>Access through pointers\<close>

definition get_handle :: "addr \<Rightarrow> heap \<Rightarrow> Handle result" where
  "get_handle h hp = derefE (handles hp h)"

definition get_shadow :: "addr \<Rightarrow> heap \<Rightarrow> ShadowHandle result" where
  "get_shadow h hp = bindE (get_handle h hp) (\<lambda>x. derefE (shadowHandle x))"

definition upd_handle :: "addr \<Rightarrow> (Handle \<Rightarrow> Handle) \<Rightarrow> heap \<Rightarrow> heap result" where
  "upd_handle h f hp = bindE (get_handle h hp) (\<lambda>x. Inr (hp\<lparr>handles := (handles hp)(h \<mapsto> f x)\<rparr>))"

definition upd_shadow :: "addr \<Rightarrow> (ShadowHandle \<Rightarrow> ShadowHandle) \<Rightarrow> heap \<Rightarrow> heap result" where
  "upd_shadow h f hp =
     bindE (get_shadow h hp) (\<lambda>sh. upd_handle h (\<lambda>x. x\<lparr>shadowHandle := Some (f sh)\<rparr>) hp)"

definition set_status :: "addr \<Rightarrow> Status \<Rightarrow> heap \<Rightarrow> heap result" where
  "set_status h st = upd_handle h (\<lambda>x. x\<lparr>status := Some st\<rparr>)"

section \<open>Constructors and destructors\<close>

definition createShadowHandle :: "addr \<Rightarrow> heap \<Rightarrow> heap result" where
  "createShadowHandle h =
     upd_handle h (\<lambda>x. x\<lparr>shadowHandle := Some \<lparr>unixFd = None, unixMode = None, handleType = None\<rparr>\<rparr>)"

definition destroyShadowHandle :: "addr \<Rightarrow> heap \<Rightarrow> heap result" where
  "destroyShadowHandle h = upd_handle h (\<lambda>x. x\<lparr>shadowHandle := None\<rparr>)"

text \<open>\<^verbatim>\<open>Handle::Handle\<close>: the object is allocated and gets its shadow; its status is not set.\<close>

definition new_Handle :: "heap \<Rightarrow> (heap \<times> addr) result" where
  "new_Handle hp =
     (let h = next_addr hp;
          hp1 = hp\<lparr>handles := (handles hp)(h \<mapsto>
                    \<lparr>shadowHandle = None, status = None, subDepend = None, subUdpHandle = None\<rparr>),
                   next_addr := Suc h\<rparr>
      in bindE (createShadowHandle h hp1) (\<lambda>hp2. Inr (hp2, h)))"

definition delete_Handle :: "addr \<Rightarrow> heap \<Rightarrow> heap result" where
  "delete_Handle h hp =
     bindE (destroyShadowHandle h hp) (\<lambda>hp1. Inr (hp1\<lparr>handles := (handles hp1)(h := None)\<rparr>))"

definition createSubBlocker :: "addr \<Rightarrow> heap \<Rightarrow> heap result" where
  "createSubBlocker h = upd_shadow h (\<lambda>sh. sh\<lparr>handleType := Some TypeBlocker\<rparr>)"

definition destroySubBlocker :: "addr \<Rightarrow> heap \<Rightarrow> heap result" where
  "destroySubBlocker h hp = Inr hp"

definition new_Blocker :: "heap \<Rightarrow> (heap \<times> addr) result" where
  "new_Blocker hp =
     bindE (new_Handle hp) (\<lambda>(hp1, h). bindE (createSubBlocker h hp1) (\<lambda>hp2. Inr (hp2, h)))"

definition delete_Blocker :: "addr \<Rightarrow> heap \<Rightarrow> heap result" where
  "delete_Blocker h hp = bindE (destroySubBlocker h hp) (delete_Handle h)"

text \<open>Reading or writing a blocker or a dependency never succeeds.\<close>

definition Blocker_write :: "byte list \<Rightarrow> int \<Rightarrow> int" where
  "Blocker_write buf sz = -1"

definition Blocker_read :: "int \<Rightarrow> int \<times> byte list" where
  "Blocker_read sz = (-1, [])"

definition DependHandle_write :: "byte list \<Rightarrow> int \<Rightarrow> int" where
  "DependHandle_write buf sz = -1"

definition DependHandle_read :: "int \<Rightarrow> int \<times> byte list" where
  "DependHandle_read sz = (-1, [])"

text \<open>
  \<^verbatim>\<open>createSubDepend\<close> allocates a \<^verbatim>\<open>ShadowDepend\<close> and overwrites the handle's pointer to it.
\<close>

definition createSubDepend :: "addr \<Rightarrow> heap \<Rightarrow> heap result" where
  "createSubDepend h hp =
     bindE (upd_shadow h (\<lambda>sh. sh\<lparr>handleType := Some TypeDepend\<rparr>) hp) (\<lambda>hp1.
       let d = next_addr hp1;
           hp2 = hp1\<lparr>depends := (depends hp1)(d \<mapsto> \<lparr>master = h, triggered = False\<rparr>), next_addr := Suc d\<rparr>
       in upd_handle h (\<lambda>x. x\<lparr>subDepend := Some d\<rparr>) hp2)"

definition destroySubDepend :: "addr \<Rightarrow> heap \<Rightarrow> heap result" where
  "destroySubDepend h hp =
     bindE (get_handle h hp) (\<lambda>x.
     bindE (assertE ''dh->subDepend'' (subDepend x \<noteq> None)) (\<lambda>_.
       Inr (hp\<lparr>depends := (depends hp)(the (subDepend x) := None)\<rparr>)))"

definition new_DependHandle :: "heap \<Rightarrow> (heap \<times> addr) result" where
  "new_DependHandle hp =
     bindE (new_Handle hp) (\<lambda>(hp1, h). bindE (createSubDepend h hp1) (\<lambda>hp2. Inr (hp2, h)))"

text \<open>The destructor calls \<^verbatim>\<open>createSubDepend\<close> once more, as the source does.\<close>

definition delete_DependHandle :: "addr \<Rightarrow> heap \<Rightarrow> heap result" where
  "delete_DependHandle h hp = bindE (createSubDepend h hp) (delete_Handle h)"

definition get_depend :: "addr \<Rightarrow> heap \<Rightarrow> ShadowDepend result" where
  "get_depend h hp =
     bindE (get_handle h hp) (\<lambda>x. bindE (derefE (subDepend x)) (\<lambda>d. derefE (depends hp d)))"

definition set_triggered :: "addr \<Rightarrow> bool \<Rightarrow> heap \<Rightarrow> heap result" where
  "set_triggered h b hp =
     bindE (get_handle h hp) (\<lambda>x. bindE (derefE (subDepend x)) (\<lambda>d.
     bindE (derefE (depends hp d)) (\<lambda>sd.
       Inr (hp\<lparr>depends := (depends hp)(d \<mapsto> sd\<lparr>triggered := b\<rparr>)\<rparr>))))"

text \<open>\<^verbatim>\<open>DependHandle::complied\<close>, that is \<^verbatim>\<open>ShadowDepend::complied\<close>.\<close>

definition complied :: "addr \<Rightarrow> heap \<Rightarrow> heap result" where
  "complied h hp =
     bindE (set_triggered h True hp) (\<lambda>hp1.
     bindE (get_depend h hp1) (\<lambda>sd. set_status (master sd) Ready hp1))"

definition new_UnixFdHandle :: "int \<Rightarrow> PosixHandleMode \<Rightarrow> heap \<Rightarrow> (heap \<times> addr) result" where
  "new_UnixFdHandle fd mode hp =
     bindE (new_Handle hp) (\<lambda>(hp1, h).
     bindE (upd_shadow h (\<lambda>sh. sh\<lparr>handleType := Some TypeUnixFdHandle, unixMode := Some mode,
                                  unixFd := Some fd\<rparr>) hp1) (\<lambda>hp2. Inr (hp2, h)))"

definition delete_UnixFdHandle :: "addr \<Rightarrow> heap \<Rightarrow> heap result" where
  "delete_UnixFdHandle h hp =
     bindE (upd_shadow h (\<lambda>sh. sh\<lparr>unixFd := Some 0\<rparr>) hp) (delete_Handle h)"

text \<open>Reading and writing hand over to the system call on the stored descriptor, which is an
  argument of the model.\<close>

definition UnixFdHandle_write ::
    "(int \<Rightarrow> byte list \<Rightarrow> int \<Rightarrow> int) \<Rightarrow> addr \<Rightarrow> byte list \<Rightarrow> int \<Rightarrow> heap \<Rightarrow> int result" where
  "UnixFdHandle_write sys_write h buf sz hp =
     bindE (get_handle h hp) (\<lambda>x.
     bindE (assertE ''status == Ready'' (status x = Some Ready)) (\<lambda>_.
     bindE (get_shadow h hp) (\<lambda>sh.
     bindE (assertE ''isUnixFdHandle()'' (isUnixFdHandle sh)) (\<lambda>_.
     bindE (derefE (unixFd sh)) (\<lambda>fd. Inr (sys_write fd buf sz))))))"

definition UnixFdHandle_read ::
    "(int \<Rightarrow> int \<Rightarrow> int \<times> byte list) \<Rightarrow> addr \<Rightarrow> int \<Rightarrow> heap \<Rightarrow> (int \<times> byte list) result" where
  "UnixFdHandle_read sys_read h sz hp =
     bindE (get_handle h hp) (\<lambda>x.
     bindE (assertE ''status == Ready'' (status x = Some Ready)) (\<lambda>_.
     bindE (get_shadow h hp) (\<lambda>sh.
     bindE (derefE (unixFd sh)) (\<lambda>fd. Inr (sys_read fd sz)))))"

section \<open>Well-formed heaps\<close>

text \<open>
  Every allocated address is below the next free one; every handle has a shadow with its type set;
  a dependency handle owns a \<^verbatim>\<open>ShadowDepend\<close> whose master it is; a descriptor handle has its
  descriptor and mode; a UDP handle has a descriptor handle behind it.
\<close>

definition wf_fd :: "ShadowHandle \<Rightarrow> bool" where
  "wf_fd sh = (unixFd sh \<noteq> None \<and> unixMode sh \<noteq> None)"

definition is_fd_handle :: "heap \<Rightarrow> addr \<Rightarrow> bool" where
  "is_fd_handle hp a =
     (case handles hp a of None \<Rightarrow> False
      | Some x \<Rightarrow> (case shadowHandle x of None \<Rightarrow> False
                   | Some sh \<Rightarrow> handleType sh = Some TypeUnixFdHandle \<and> wf_fd sh))"

definition wf_handle :: "heap \<Rightarrow> addr \<Rightarrow> Handle \<Rightarrow> bool" where
  "wf_handle hp h x =
     (case shadowHandle x of None \<Rightarrow> False
      | Some sh \<Rightarrow>
          (case handleType sh of
             None \<Rightarrow> False
           | Some TypeBlocker \<Rightarrow> True
           | Some TypeUnixFdHandle \<Rightarrow> wf_fd sh
           | Some TypeDepend \<Rightarrow>
               (case subDepend x of None \<Rightarrow> False
                | Some d \<Rightarrow> (case depends hp d of None \<Rightarrow> False | Some sd \<Rightarrow> master sd = h))
           | Some TypeUdpHandle \<Rightarrow>
               (case subUdpHandle x of None \<Rightarrow> False | Some a \<Rightarrow> is_fd_handle hp a)))"

definition wf_heap :: "heap \<Rightarrow> bool" where
  "wf_heap hp \<longleftrightarrow>
     (\<forall>h x. handles hp h = Some x \<longrightarrow> h < next_addr hp \<and> wf_handle hp h x)
     \<and> (\<forall>d sd. depends hp d = Some sd \<longrightarrow> d < next_addr hp)"

section \<open>What the event loop never changes\<close>

text \<open>The shape of a heap is everything but the statuses and the triggers.\<close>

definition shape ::
    "heap \<Rightarrow> (addr \<rightharpoonup> ShadowHandle option \<times> addr option \<times> addr option) \<times> (addr \<rightharpoonup> addr) \<times> addr" where
  "shape hp =
     ((\<lambda>h. map_option (\<lambda>x. (shadowHandle x, subDepend x, subUdpHandle x)) (handles hp h)),
      (\<lambda>d. map_option master (depends hp d)), next_addr hp)"

lemmas access_defs = get_handle_def get_shadow_def upd_handle_def upd_shadow_def set_status_def
  get_depend_def set_triggered_def

lemma shape_eqD:
  assumes "shape hp = shape hp'"
  shows "map_option (\<lambda>x. (shadowHandle x, subDepend x, subUdpHandle x)) (handles hp h) =
      map_option (\<lambda>x. (shadowHandle x, subDepend x, subUdpHandle x)) (handles hp' h)"
    and "map_option master (depends hp d) = map_option master (depends hp' d)"
    and "next_addr hp = next_addr hp'"
  using assms by (auto simp: shape_def dest: fun_cong)

lemma shape_get_shadow: "shape hp = shape hp' \<Longrightarrow> get_shadow h hp = get_shadow h hp'"
  using shape_eqD(1) [of hp hp' h]
  by (cases "handles hp h"; cases "handles hp' h") (auto simp: access_defs)

lemma shape_handle_live: "shape hp = shape hp' \<Longrightarrow> handles hp h = None \<longleftrightarrow> handles hp' h = None"
  using shape_eqD(1) [of hp hp' h] by (cases "handles hp h"; cases "handles hp' h") auto

lemma shape_is_fd_handle: "shape hp = shape hp' \<Longrightarrow> is_fd_handle hp a = is_fd_handle hp' a"
  using shape_eqD(1) [of hp hp' a]
  by (cases "handles hp a"; cases "handles hp' a") (auto simp: is_fd_handle_def)

lemma shape_wf_handle:
  assumes "shape hp = shape hp'" "handles hp h = Some x" "handles hp' h = Some x'"
  shows "wf_handle hp h x = wf_handle hp' h x'"
proof -
  have *: "shadowHandle x = shadowHandle x'" "subDepend x = subDepend x'" "subUdpHandle x = subUdpHandle x'"
    using shape_eqD(1) [OF assms(1), of h] assms(2,3) by auto
  have deps: "(case depends hp d of None \<Rightarrow> False | Some sd \<Rightarrow> master sd = h) =
      (case depends hp' d of None \<Rightarrow> False | Some sd \<Rightarrow> master sd = h)" for d
    using shape_eqD(2) [OF assms(1), of d] by (cases "depends hp d"; cases "depends hp' d") auto
  show ?thesis
    unfolding wf_handle_def * shape_is_fd_handle [OF assms(1)] deps ..
qed

lemma wf_heap_shape:
  assumes "shape hp = shape hp'" "wf_heap hp"
  shows "wf_heap hp'"
  unfolding wf_heap_def
proof (intro conjI allI impI)
  fix h x' assume x': "handles hp' h = Some x'"
  then obtain x where x: "handles hp h = Some x"
    using shape_handle_live [OF assms(1), of h] by (cases "handles hp h") auto
  show "h < next_addr hp'" "wf_handle hp' h x'"
    using x assms(2) shape_eqD(3) [OF assms(1)] shape_wf_handle [OF assms(1) x x']
    by (auto simp: wf_heap_def)
next
  fix d sd assume "depends hp' d = Some sd"
  then show "d < next_addr hp'"
    using shape_eqD(2) [OF assms(1), of d] shape_eqD(3) [OF assms(1)] assms(2)
    by (cases "depends hp d") (auto simp: wf_heap_def)
qed

lemma set_status_shape [handle_simps]: "set_status h st hp = Inr hp' \<Longrightarrow> shape hp' = shape hp"
  by (auto simp: access_defs resultE shape_def fun_eq_iff)

lemma set_triggered_shape [handle_simps]: "set_triggered h b hp = Inr hp' \<Longrightarrow> shape hp' = shape hp"
  by (auto simp: access_defs resultE shape_def fun_eq_iff)

lemma complied_shape [handle_simps]: "complied h hp = Inr hp' \<Longrightarrow> shape hp' = shape hp"
  by (auto simp: complied_def bindE_eq_Inr handle_simps)

lemma set_status_live: "handles hp h \<noteq> None \<Longrightarrow> \<exists>hp'. set_status h st hp = Inr hp'"
  by (auto simp: access_defs)

lemma wf_depend_handle:
  assumes "wf_heap hp" "get_shadow h hp = Inr sh" "isDepend sh"
  obtains x d sd where "handles hp h = Some x" "subDepend x = Some d" "depends hp d = Some sd"
    "master sd = h" "shadowHandle x = Some sh"
proof -
  from assms(2) obtain x where x: "handles hp h = Some x" "shadowHandle x = Some sh"
    by (auto simp: access_defs resultE)
  with assms have "wf_handle hp h x" "handleType sh = Some TypeDepend"
    by (auto simp: wf_heap_def isDepend_def)
  with x show thesis
    by (auto simp: wf_handle_def split: option.splits intro: that)
qed

lemma wf_heapD: "wf_heap hp \<Longrightarrow> handles hp h = Some x \<Longrightarrow> wf_handle hp h x"
  by (simp add: wf_heap_def)

lemma wf_get_shadow: "wf_heap hp \<Longrightarrow> handles hp h \<noteq> None \<Longrightarrow> \<exists>sh. get_shadow h hp = Inr sh"
  by (auto simp: access_defs wf_handle_def dest!: wf_heapD split: option.splits)

lemma wf_heap_fresh: "wf_heap hp \<Longrightarrow> next_addr hp \<le> a \<Longrightarrow> handles hp a = None \<and> depends hp a = None"
  unfolding wf_heap_def using leD by (metis not_None_eq)

lemma wf_heap_dependsD: "wf_heap hp \<Longrightarrow> depends hp d = Some sd \<Longrightarrow> d < next_addr hp"
  by (simp add: wf_heap_def)

section \<open>Effect of the operations on one handle\<close>

lemma set_status_eq:
  "handles hp h = Some x \<Longrightarrow>
    set_status h st hp = Inr (hp\<lparr>handles := (handles hp)(h \<mapsto> x\<lparr>status := Some st\<rparr>)\<rparr>)"
  by (simp add: access_defs)

lemma set_triggered_eq:
  "handles hp h = Some x \<Longrightarrow> subDepend x = Some d \<Longrightarrow> depends hp d = Some sd \<Longrightarrow>
    set_triggered h b hp = Inr (hp\<lparr>depends := (depends hp)(d \<mapsto> sd\<lparr>triggered := b\<rparr>)\<rparr>)"
  by (simp add: access_defs)

lemma complied_eq:
  assumes "handles hp h = Some x" "subDepend x = Some d" "depends hp d = Some sd" "master sd = h"
  shows "complied h hp = Inr (hp\<lparr>depends := (depends hp)(d \<mapsto> sd\<lparr>triggered := True\<rparr>),
      handles := (handles hp)(h \<mapsto> x\<lparr>status := Some Ready\<rparr>)\<rparr>)"
  using assms by (simp add: complied_def set_triggered_eq [OF assms(1-3)] access_defs)

text \<open>Allocation is at a fresh address, so the objects already there keep their meaning.\<close>

lemma wf_handle_extend:
  assumes "wf_handle hp h x"
    and "\<And>d sd. depends hp d = Some sd \<Longrightarrow> depends hp' d = Some sd"
    and "\<And>a. is_fd_handle hp a \<Longrightarrow> is_fd_handle hp' a"
  shows "wf_handle hp' h x"
  using assms by (auto simp: wf_handle_def split: option.splits HandleType.splits)

lemma wf_heap_alloc:
  assumes "wf_heap hp" "handles hp h = None" "h < n" "next_addr hp \<le> n"
    and "\<And>d. d < next_addr hp \<Longrightarrow> deps d = depends hp d" "\<And>d sd. deps d = Some sd \<Longrightarrow> d < n"
    and "wf_handle (hp\<lparr>handles := (handles hp)(h \<mapsto> x), depends := deps, next_addr := n\<rparr>) h x"
  shows "wf_heap (hp\<lparr>handles := (handles hp)(h \<mapsto> x), depends := deps, next_addr := n\<rparr>)"
    (is "wf_heap ?hp'")
proof -
  have ext: "wf_handle ?hp' k y" if "handles hp k = Some y" for k y
  proof (rule wf_handle_extend)
    show "wf_handle hp k y" using that assms(1) by (simp add: wf_heap_def)
    show "depends ?hp' d = Some sd" if "depends hp d = Some sd" for d sd
      using that assms(1,5) by (auto simp: wf_heap_def)
    show "is_fd_handle ?hp' a" if "is_fd_handle hp a" for a
      using that assms(2) by (cases "a = h") (auto simp: is_fd_handle_def)
  qed
  show ?thesis
    using assms ext by (auto simp: wf_heap_def split: if_splits) fastforce+
qed

text \<open>The heap each constructor leaves.\<close>

abbreviation alloc_handle :: "Handle \<Rightarrow> (addr \<rightharpoonup> ShadowDepend) \<Rightarrow> addr \<Rightarrow> heap \<Rightarrow> heap" where
  "alloc_handle x deps n hp \<equiv>
     hp\<lparr>handles := (handles hp)(next_addr hp \<mapsto> x), depends := deps, next_addr := n\<rparr>"

lemma new_Handle_eq:
  "new_Handle hp = Inr (alloc_handle \<lparr>shadowHandle = Some \<lparr>unixFd = None, unixMode = None, handleType = None\<rparr>,
     status = None, subDepend = None, subUdpHandle = None\<rparr> (depends hp) (Suc (next_addr hp)) hp, next_addr hp)"
  by (simp add: new_Handle_def createShadowHandle_def access_defs Let_def)

lemma new_Blocker_eq:
  "new_Blocker hp = Inr (alloc_handle \<lparr>shadowHandle = Some \<lparr>unixFd = None, unixMode = None,
     handleType = Some TypeBlocker\<rparr>, status = None, subDepend = None, subUdpHandle = None\<rparr>
     (depends hp) (Suc (next_addr hp)) hp, next_addr hp)"
  by (simp add: new_Blocker_def new_Handle_eq createSubBlocker_def access_defs)

lemma new_UnixFdHandle_eq:
  "new_UnixFdHandle fd mode hp = Inr (alloc_handle \<lparr>shadowHandle = Some \<lparr>unixFd = Some fd,
     unixMode = Some mode, handleType = Some TypeUnixFdHandle\<rparr>, status = None, subDepend = None,
     subUdpHandle = None\<rparr> (depends hp) (Suc (next_addr hp)) hp, next_addr hp)"
  by (simp add: new_UnixFdHandle_def new_Handle_eq access_defs)

lemma new_DependHandle_eq:
  "new_DependHandle hp = Inr (alloc_handle \<lparr>shadowHandle = Some \<lparr>unixFd = None, unixMode = None,
     handleType = Some TypeDepend\<rparr>, status = None, subDepend = Some (Suc (next_addr hp)),
     subUdpHandle = None\<rparr>
     ((depends hp)(Suc (next_addr hp) \<mapsto> \<lparr>master = next_addr hp, triggered = False\<rparr>))
     (Suc (Suc (next_addr hp))) hp, next_addr hp)"
  by (simp add: new_DependHandle_def new_Handle_eq createSubDepend_def access_defs Let_def)

lemmas ctor_eqs = new_Blocker_eq new_UnixFdHandle_eq new_DependHandle_eq

lemma wf_new_Blocker:
  assumes "wf_heap hp" "new_Blocker hp = Inr (hp', h)"
  shows "wf_heap hp'"
proof -
  have "hp' = fst (projr (new_Blocker hp))" using assms(2) by simp
  also have "wf_heap \<dots>" unfolding new_Blocker_eq sum.sel fst_conv
    by (rule wf_heap_alloc [OF assms(1)])
      (use assms(1) in \<open>auto simp: wf_heap_fresh wf_handle_def less_SucI dest: wf_heap_dependsD\<close>)
  finally show ?thesis .
qed

lemma wf_new_UnixFdHandle:
  assumes "wf_heap hp" "new_UnixFdHandle fd mode hp = Inr (hp', h)"
  shows "wf_heap hp'"
proof -
  have "hp' = fst (projr (new_UnixFdHandle fd mode hp))" using assms(2) by simp
  also have "wf_heap \<dots>" unfolding new_UnixFdHandle_eq sum.sel fst_conv
    by (rule wf_heap_alloc [OF assms(1)])
      (use assms(1) in \<open>auto simp: wf_heap_fresh wf_handle_def wf_fd_def less_SucI dest: wf_heap_dependsD\<close>)
  finally show ?thesis .
qed

lemma wf_new_DependHandle:
  assumes "wf_heap hp" "new_DependHandle hp = Inr (hp', h)"
  shows "wf_heap hp'"
proof -
  have "hp' = fst (projr (new_DependHandle hp))" using assms(2) by simp
  also have "wf_heap \<dots>" unfolding new_DependHandle_eq sum.sel fst_conv
    by (rule wf_heap_alloc [OF assms(1)])
      (use assms(1) in \<open>auto simp: wf_heap_fresh wf_handle_def less_SucI dest: wf_heap_dependsD split: if_splits\<close>)
  finally show ?thesis .
qed

section \<open>Properties\<close>

text \<open>On a well-formed heap every handle constructor succeeds, gives a fresh address with the
  right handle type, and keeps the heap well-formed.\<close>

theorem handle_constructors_wf:
  assumes "wf_heap hp"
  shows "\<exists>hp1 hp2 hp3 a b c sa sb sc.
      new_Blocker hp = Inr (hp1, a) \<and> new_DependHandle hp = Inr (hp2, b)
      \<and> new_UnixFdHandle fd mode hp = Inr (hp3, c)
      \<and> wf_heap hp1 \<and> wf_heap hp2 \<and> wf_heap hp3
      \<and> handles hp a = None \<and> handles hp b = None \<and> handles hp c = None
      \<and> get_shadow a hp1 = Inr sa \<and> isBlocker sa
      \<and> get_shadow b hp2 = Inr sb \<and> isDepend sb
      \<and> get_shadow c hp3 = Inr sc \<and> isUnixFdHandle sc \<and> unixFd sc = Some fd \<and> unixMode sc = Some mode"
proof -
  have "handles hp (next_addr hp) = None"
    using assms by (simp add: wf_heap_fresh)
  moreover note wf_new_Blocker [OF assms new_Blocker_eq] wf_new_DependHandle [OF assms new_DependHandle_eq]
    wf_new_UnixFdHandle [OF assms new_UnixFdHandle_eq]
  ultimately show ?thesis
    by (simp add: ctor_eqs access_defs isBlocker_def isDepend_def isUnixFdHandle_def)
qed

definition empty_heap :: heap where
  "empty_heap = \<lparr>handles = Map.empty, depends = Map.empty, next_addr = 0\<rparr>"

lemma wf_empty_heap [simp]: "wf_heap empty_heap"
  by (simp add: wf_heap_def empty_heap_def)

theorem handle_constructors_wf_witness: "\<exists>hp a. new_Blocker empty_heap = Inr (hp, a) \<and> wf_heap hp"
  using handle_constructors_wf [of empty_heap 0 PosixModeRead] by auto

text \<open>Destroying a dependency handle frees nothing: the destructor calls
  \<^verbatim>\<open>createSubDepend\<close> where \<^verbatim>\<open>destroySubDepend\<close> is meant, so after the lifetime of one handle two
  \<^verbatim>\<open>ShadowDepend\<close> objects are left on the heap that were not there before.\<close>

theorem DependHandle_lifetime_leaks:
  assumes "wf_heap hp" "new_DependHandle hp = Inr (hp1, h)" "delete_DependHandle h hp1 = Inr hp2"
  shows "handles hp2 h = None
    \<and> dom (depends hp2) = dom (depends hp) \<union> {Suc h, Suc (Suc h)}
    \<and> card (dom (depends hp2) - dom (depends hp)) = 2"
proof -
  have h: "h = next_addr hp" and "depends hp (Suc h) = None" "depends hp (Suc (Suc h)) = None"
    using assms(1,2) by (auto simp: new_DependHandle_eq wf_heap_fresh)
  moreover have "handles hp2 h = None \<and> dom (depends hp2) = dom (depends hp) \<union> {Suc h, Suc (Suc h)}"
    using assms(2,3) by (auto simp: new_DependHandle_eq delete_DependHandle_def createSubDepend_def
      delete_Handle_def destroyShadowHandle_def access_defs Let_def)
  ultimately show ?thesis
    by (auto simp: insert_Diff_if domIff)
qed

theorem DependHandle_lifetime_leaks_witness:
  "\<exists>hp1 h hp2. new_DependHandle empty_heap = Inr (hp1, h) \<and> delete_DependHandle h hp1 = Inr hp2
    \<and> card (dom (depends hp2)) = 2"
proof -
  obtain hp1 h where 1: "new_DependHandle empty_heap = Inr (hp1, h)"
    by (simp add: new_DependHandle_eq)
  moreover obtain hp2 where 2: "delete_DependHandle h hp1 = Inr hp2"
    using 1 by (auto simp: new_DependHandle_eq delete_DependHandle_def createSubDepend_def
      delete_Handle_def destroyShadowHandle_def access_defs Let_def)
  ultimately show ?thesis
    using DependHandle_lifetime_leaks [OF wf_empty_heap 1 2] by (auto simp: empty_heap_def)
qed

end
