(* ===== verification/Gea_EventLoop.thy ===== *)
theory Gea_EventLoop
  imports Gea_Handle
begin

text \<open>
  The event loop of the POSIX implementation, \<^verbatim>\<open>gea/src/ShadowEventHandler.cc\<close>.

  The state is the heap of handles, the \<^verbatim>\<open>multimap\<close> of waiting events as a list in its
  iteration order, the time of the last event, counters of the clock readings and
  \<^verbatim>\<open>select\<close> calls made so far, and the state of the application. What the loop gets from
  outside is the environment: the clock, \<^verbatim>\<open>select\<close>, and the callbacks. A callback is
  application code; it sees the handles and its own state and makes calls of the GEA interface
  (\<open>waitFor\<close>, \<open>complied\<close>). Event functions and data are addresses, 0 is the null pointer.
  Handles stay allocated while the loop runs.

  The loops that need not end (\<^verbatim>\<open>select\<close> interrupted again and again, dependencies that
  keep triggering each other, the main loop itself) take fuel.
\<close>

section \<open>State and environment\<close>

record EventDescr =
  ed_h :: addr
  ed_data :: nat
  ed_e :: nat

type_synonym EventList = "(AbsTime \<times> EventDescr) list"

record EventCall =
  ec_t :: AbsTime
  ec_h :: addr
  ec_e :: nat
  ec_d :: nat

type_synonym fd_sets = "PosixHandleMode \<Rightarrow> int set"

datatype api_call = CallWaitFor addr AbsTime nat nat | CallComplied addr

datatype select_result = SelTimeout | SelReady fd_sets | SelEINTR timeval | SelError

record 'a gea =
  heap :: heap
  eventList :: EventList
  lastEventTime :: AbsTime
  nowReads :: nat
  selCalls :: nat
  app :: 'a

record 'a env =
  clk :: "nat \<Rightarrow> AbsTime"
  sel :: "nat \<Rightarrow> int \<Rightarrow> fd_sets \<Rightarrow> timeval \<Rightarrow> select_result"
  callback :: "nat \<Rightarrow> addr \<Rightarrow> AbsTime \<Rightarrow> nat \<Rightarrow> heap \<Rightarrow> 'a \<Rightarrow> 'a \<times> api_call list"

section \<open>Registering and calling\<close>

definition waitFor :: "addr \<Rightarrow> AbsTime \<Rightarrow> nat \<Rightarrow> nat \<Rightarrow> 'a gea \<Rightarrow> 'a gea result" where
  "waitFor h timeout e data s =
     bindE (set_status h Blocked (heap s)) (\<lambda>hp.
     bindE (assertE ''e'' (e \<noteq> 0)) (\<lambda>_.
       Inr (s\<lparr>heap := hp,
              eventList := insert_upper fst (timeout, \<lparr>ed_h = h, ed_data = data, ed_e = e\<rparr>)
                             (eventList s)\<rparr>)))"

fun api_do :: "api_call \<Rightarrow> 'a gea \<Rightarrow> 'a gea result" where
  "api_do (CallWaitFor h t e d) s = waitFor h t e d s"
| "api_do (CallComplied h) s = bindE (complied h (heap s)) (\<lambda>hp. Inr (s\<lparr>heap := hp\<rparr>))"

definition call_event :: "'a env \<Rightarrow> nat \<Rightarrow> addr \<Rightarrow> AbsTime \<Rightarrow> nat \<Rightarrow> 'a gea \<Rightarrow> 'a gea result" where
  "call_event env e h t d s =
     (let (a, calls) = callback env e h t d (heap s) (app s) in foldE api_do calls (s\<lparr>app := a\<rparr>))"

text \<open>\<^verbatim>\<open>AbsTime::now()\<close>\<close>

definition now :: "'a env \<Rightarrow> 'a gea \<Rightarrow> AbsTime \<times> 'a gea" where
  "now env s = (clk env (nowReads s), s\<lparr>nowReads := Suc (nowReads s)\<rparr>)"

section \<open>The descriptor sets\<close>

text \<open>
  The descriptor handle behind a waiting handle: itself, the one a UDP handle owns, or none.
\<close>

definition unixHandle :: "addr \<Rightarrow> heap \<Rightarrow> addr option result" where
  "unixHandle h hp =
     bindE (get_shadow h hp) (\<lambda>sh.
       if isUnixFdHandle sh then Inr (Some h)
       else if isUdpHandle sh then
         bindE (get_handle h hp) (\<lambda>x. bindE (derefE (subUdpHandle x)) (\<lambda>u. Inr (Some u)))
       else Inr None)"

definition add_fd :: "heap \<Rightarrow> AbsTime \<times> EventDescr \<Rightarrow> fd_sets \<times> int \<Rightarrow> (fd_sets \<times> int) result" where
  "add_fd hp i acc =
     bindE (unixHandle (ed_h (snd i)) hp) (\<lambda>uh.
       case uh of None \<Rightarrow> Inr acc
       | Some u \<Rightarrow>
           bindE (get_shadow u hp) (\<lambda>sh.
           bindE (derefE (unixFd sh)) (\<lambda>fd.
             case unixMode sh of
               None \<Rightarrow> Inl (AssertFailed ''undefined handle mode'')
             | Some m \<Rightarrow> Inr ((fst acc)(m := insert fd (fst acc m)),
                              if snd acc > fd then snd acc else fd))))"

definition fill_fd_sets :: "heap \<Rightarrow> EventList \<Rightarrow> (fd_sets \<times> int) result" where
  "fill_fd_sets hp evs = foldE (add_fd hp) evs (\<lambda>_. {}, 0)"

section \<open>Predicates that collect the events to call\<close>

definition collect :: "'a env \<Rightarrow> AbsTime \<times> EventDescr \<Rightarrow> 'a gea \<times> EventCall list \<Rightarrow>
    (bool \<times> 'a gea \<times> EventCall list) result" where
  "collect env i acc =
     bindE (set_status (ed_h (snd i)) Ready (heap (fst acc))) (\<lambda>hp.
       let (t, s) = now env ((fst acc)\<lparr>heap := hp\<rparr>) in
       Inr (True, s, snd acc @ [\<lparr>ec_t = t, ec_h = ed_h (snd i), ec_e = ed_e (snd i), ec_d = ed_data (snd i)\<rparr>]))"

definition activeFd :: "fd_sets \<Rightarrow> heap \<Rightarrow> EventDescr \<Rightarrow> bool result" where
  "activeFd sets hp ed =
     bindE (unixHandle (ed_h ed) hp) (\<lambda>uh.
       case uh of None \<Rightarrow> Inr False
       | Some u \<Rightarrow>
           bindE (get_shadow u hp) (\<lambda>sh.
           bindE (derefE (unixFd sh)) (\<lambda>fd.
           bindE (derefE (unixMode sh)) (\<lambda>m. Inr (fd \<in> sets m)))))"

definition activeDep :: "heap \<Rightarrow> EventDescr \<Rightarrow> bool result" where
  "activeDep hp ed =
     bindE (get_shadow (ed_h ed) hp) (\<lambda>sh.
       if isDepend sh then bindE (get_depend (ed_h ed) hp) (\<lambda>sd. Inr (triggered sd)) else Inr False)"

definition activeFdHandlePred :: "'a env \<Rightarrow> fd_sets \<Rightarrow> AbsTime \<times> EventDescr \<Rightarrow>
    'a gea \<times> EventCall list \<Rightarrow> (bool \<times> 'a gea \<times> EventCall list) result" where
  "activeFdHandlePred env sets i acc =
     bindE (activeFd sets (heap (fst acc)) (snd i)) (\<lambda>b. if b then collect env i acc else Inr (False, acc))"

definition activeDepPred :: "'a env \<Rightarrow> AbsTime \<times> EventDescr \<Rightarrow>
    'a gea \<times> EventCall list \<Rightarrow> (bool \<times> 'a gea \<times> EventCall list) result" where
  "activeDepPred env i acc =
     bindE (activeDep (heap (fst acc)) (snd i)) (\<lambda>b. if b then collect env i acc else Inr (False, acc))"

text \<open>The \<^verbatim>\<open>remove_if\<close> for maps: what is left, whether something was removed, and what the
  predicate made of its state.\<close>

fun remove_if :: "('i \<Rightarrow> 's \<Rightarrow> (bool \<times> 's) result) \<Rightarrow> 'i list \<Rightarrow> 's \<Rightarrow> ('i list \<times> bool \<times> 's) result" where
  "remove_if pred [] s = Inr ([], False, s)"
| "remove_if pred (i # is) s =
     bindE (pred i s) (\<lambda>(b, s1).
     bindE (remove_if pred is s1) (\<lambda>(rest, modified, s2).
       Inr (if b then rest else i # rest, b \<or> modified, s2)))"

definition callECList :: "'a env \<Rightarrow> EventCall \<Rightarrow> 'a gea \<Rightarrow> 'a gea result" where
  "callECList env ec s = call_event env (ec_e ec) (ec_h ec) (ec_t ec) (ec_d ec) (s\<lparr>lastEventTime := ec_t ec\<rparr>)"

definition resetDepTrigger :: "EventCall \<Rightarrow> 'a gea \<Rightarrow> 'a gea result" where
  "resetDepTrigger ec s =
     bindE (get_shadow (ec_h ec) (heap s)) (\<lambda>sh.
     bindE (assertE ''isDepend()'' (isDepend sh)) (\<lambda>_.
     bindE (set_triggered (ec_h ec) False (heap s)) (\<lambda>hp. Inr (s\<lparr>heap := hp\<rparr>))))"

section \<open>The main loop\<close>

fun select_loop :: "'a env \<Rightarrow> nat \<Rightarrow> int \<Rightarrow> fd_sets \<Rightarrow> timeval \<Rightarrow> 'a gea \<Rightarrow> ('a gea \<times> fd_sets option) result" where
  "select_loop env 0 nfds sets tv s = Inl OutOfFuel"
| "select_loop env (Suc n) nfds sets tv s =
     (let s1 = s\<lparr>selCalls := Suc (selCalls s)\<rparr> in
      case sel env (selCalls s) nfds sets tv of
        SelTimeout \<Rightarrow> Inr (s1, None)
      | SelReady ready \<Rightarrow> Inr (s1, Some ready)
      | SelEINTR tv' \<Rightarrow> select_loop env n nfds sets tv' s1
      | SelError \<Rightarrow> Inl (AssertFailed ''sel_ret != -1''))"

definition sleep_time :: "AbsTime \<Rightarrow> AbsTime \<Rightarrow> Duration" where
  "sleep_time first t =
     (let d = time_diff first t in
      if d < Duration_of_double 0 then Duration_of_double 0 else d)"

text \<open>The timeout branch: the first event is called and then whatever is first is erased.\<close>

definition handle_timeout :: "'a env \<Rightarrow> 'a gea \<Rightarrow> 'a gea result" where
  "handle_timeout env s =
     (case eventList s of [] \<Rightarrow> Inl NullPointer
      | (t, ed) # _ \<Rightarrow>
          bindE (set_status (ed_h ed) Timeout (heap s)) (\<lambda>hp.
          bindE (call_event env (ed_e ed) (ed_h ed) t (ed_data ed) (s\<lparr>heap := hp, lastEventTime := t\<rparr>)) (\<lambda>s1.
            case eventList s1 of [] \<Rightarrow> Inl NullPointer
            | _ # rest \<Rightarrow> Inr (s1\<lparr>eventList := rest\<rparr>))))"

definition handle_io :: "'a env \<Rightarrow> fd_sets \<Rightarrow> 'a gea \<Rightarrow> 'a gea result" where
  "handle_io env ready s =
     bindE (remove_if (activeFdHandlePred env ready) (eventList s) (s, [])) (\<lambda>(rest, modified, s1, elist).
       foldE (callECList env) elist (s1\<lparr>eventList := rest\<rparr>))"

fun handle_depends :: "'a env \<Rightarrow> nat \<Rightarrow> 'a gea \<Rightarrow> 'a gea result" where
  "handle_depends env 0 s = Inl OutOfFuel"
| "handle_depends env (Suc n) s =
     bindE (remove_if (activeDepPred env) (eventList s) (s, [])) (\<lambda>(rest, modified, s1, elist).
       let s2 = s1\<lparr>eventList := rest\<rparr> in
       if modified then
         bindE (assertE ''elist.size() > 0'' (elist \<noteq> [])) (\<lambda>_.
         bindE (foldE (callECList env) elist s2) (\<lambda>s3.
         bindE (foldE resetDepTrigger elist s3) (handle_depends env n)))
       else Inr s2)"

definition run_iteration :: "'a env \<Rightarrow> nat \<Rightarrow> 'a gea \<Rightarrow> 'a gea result" where
  "run_iteration env n s =
     (case eventList s of [] \<Rightarrow> Inl NullPointer
      | (first, _) # _ \<Rightarrow>
         (let (t, s1) = now env s;
              tv = double2Timeval (Duration_to_double (sleep_time first t))
          in bindE (fill_fd_sets (heap s1) (eventList s1)) (\<lambda>(sets, max_fd).
             bindE (select_loop env n (max_fd + 1) sets tv s1) (\<lambda>(s2, ready).
             bindE (case ready of None \<Rightarrow> handle_timeout env s2 | Some r \<Rightarrow> handle_io env r s2)
               (handle_depends env n)))))"

fun run :: "'a env \<Rightarrow> nat \<Rightarrow> nat \<Rightarrow> 'a gea \<Rightarrow> 'a gea result" where
  "run env 0 n s = Inl OutOfFuel"
| "run env (Suc k) n s =
     (if eventList s = [] then Inr s else bindE (run_iteration env n s) (run env k n))"

section \<open>The invariant\<close>

text \<open>
  The heap is well-formed, the multimap is in the order of its keys, and every waiting event has an
  allocated handle and a function to call.
\<close>

definition live_event :: "heap \<Rightarrow> EventDescr \<Rightarrow> bool" where
  "live_event hp ed \<longleftrightarrow> handles hp (ed_h ed) \<noteq> None \<and> ed_e ed \<noteq> 0"

definition gea_inv :: "'a gea \<Rightarrow> bool" where
  "gea_inv s \<longleftrightarrow> wf_heap (heap s) \<and> sorted_key fst (eventList s)
     \<and> (\<forall>i \<in> set (eventList s). live_event (heap s) (snd i))"

text \<open>What the application must not do: wait on a handle that does not exist, pass a null
  function, or trigger a handle that is not a dependency.\<close>

fun api_ok :: "heap \<Rightarrow> api_call \<Rightarrow> bool" where
  "api_ok hp (CallWaitFor h t e d) = (handles hp h \<noteq> None \<and> e \<noteq> 0)"
| "api_ok hp (CallComplied h) = (case get_shadow h hp of Inl _ \<Rightarrow> False | Inr sh \<Rightarrow> isDepend sh)"

definition callbacks_ok :: "'a env \<Rightarrow> bool" where
  "callbacks_ok env \<longleftrightarrow>
     (\<forall>e h t d hp a c. wf_heap hp \<longrightarrow> c \<in> set (snd (callback env e h t d hp a)) \<longrightarrow> api_ok hp c)"

lemma shape_live_event: "shape hp = shape hp' \<Longrightarrow> live_event hp ed = live_event hp' ed"
  using shape_handle_live [of hp hp' "ed_h ed"] by (simp add: live_event_def)

lemma shape_api_ok:
  assumes "shape hp = shape hp'"
  shows "api_ok hp c = api_ok hp' c"
  using shape_handle_live [OF assms] shape_get_shadow [OF assms] by (cases c) auto

lemma gea_inv_upd [simp]:
  "gea_inv (s\<lparr>app := a\<rparr>) = gea_inv s" "gea_inv (s\<lparr>lastEventTime := t\<rparr>) = gea_inv s"
  "gea_inv (s\<lparr>nowReads := n\<rparr>) = gea_inv s" "gea_inv (s\<lparr>selCalls := n\<rparr>) = gea_inv s"
  by (simp_all add: gea_inv_def)

lemma gea_inv_heap:
  assumes "gea_inv s" "shape (heap s') = shape (heap s)" "eventList s' = eventList s"
  shows "gea_inv s'"
  using assms wf_heap_shape [of "heap s" "heap s'"] by (auto simp: gea_inv_def shape_live_event [OF assms(2)])

lemma gea_inv_filter:
  assumes "gea_inv s" "shape (heap s') = shape (heap s)" "eventList s' = filter P (eventList s)"
  shows "gea_inv s'"
  using assms wf_heap_shape [of "heap s" "heap s'"] by (auto simp: gea_inv_def shape_live_event [OF assms(2)])

lemma gea_inv_tl:
  assumes "gea_inv s" "eventList s = i # rest"
  shows "gea_inv (s\<lparr>eventList := rest\<rparr>)"
  using assms by (auto simp: gea_inv_def)

subsection \<open>The calls of the application\<close>

lemma waitFor_result:
  assumes "waitFor h t e d s = Inr s'"
  shows "shape (heap s') = shape (heap s) \<and> (gea_inv s \<longrightarrow> gea_inv s')
    \<and> eventList s' = insert_upper fst (t, \<lparr>ed_h = h, ed_data = d, ed_e = e\<rparr>) (eventList s)
    \<and> app s' = app s \<and> depends (heap s') = depends (heap s)"
proof -
  from assms obtain hp where hp: "set_status h Blocked (heap s) = Inr hp" "e \<noteq> 0"
    and s': "s' = s\<lparr>heap := hp, eventList := insert_upper fst (t, \<lparr>ed_h = h, ed_data = d, ed_e = e\<rparr>) (eventList s)\<rparr>"
    by (auto simp: waitFor_def resultE)
  have sh: "shape hp = shape (heap s)" using hp(1) by (rule set_status_shape)
  have "handles hp h \<noteq> None" "depends hp = depends (heap s)"
    using hp(1) by (auto simp: access_defs resultE)
  then show ?thesis
    using sh hp(2) wf_heap_shape [of "heap s" hp]
    by (auto simp: s' gea_inv_def live_event_def shape_handle_live [OF sh])
qed

lemma complied_result:
  assumes "complied h (heap s) = Inr hp"
  shows "shape hp = shape (heap s) \<and> (gea_inv s \<longrightarrow> gea_inv (s\<lparr>heap := hp\<rparr>))"
  using complied_shape [OF assms] gea_inv_heap [of s "s\<lparr>heap := hp\<rparr>"] by simp

lemma api_do_result:
  "api_do c s = Inr s' \<Longrightarrow> shape (heap s') = shape (heap s) \<and> (gea_inv s \<longrightarrow> gea_inv s')"
  by (cases c) (auto simp: bindE_eq_Inr dest: waitFor_result complied_result)

lemma api_do_total:
  assumes "gea_inv s" "api_ok (heap s) c"
  shows "\<exists>s'. api_do c s = Inr s' \<and> gea_inv s' \<and> shape (heap s') = shape (heap s)"
proof -
  have "\<exists>s'. api_do c s = Inr s'"
  proof (cases c)
    case (CallWaitFor h t e d)
    with assms(2) show ?thesis
      using set_status_live [of "heap s" h Blocked] by (auto simp: waitFor_def)
  next
    case (CallComplied h)
    then obtain sh where "get_shadow h (heap s) = Inr sh" "isDepend sh"
      using assms(2) by (auto split: sum.splits)
    then obtain x dd sd where "handles (heap s) h = Some x" "subDepend x = Some dd"
        "depends (heap s) dd = Some sd" "master sd = h"
      using assms(1) by (auto simp: gea_inv_def elim: wf_depend_handle)
    then show ?thesis using CallComplied by (simp add: complied_eq)
  qed
  then show ?thesis using api_do_result assms(1) by blast
qed

lemma call_event_total:
  assumes "callbacks_ok env" "gea_inv s"
  shows "\<exists>s'. call_event env e h t d s = Inr s' \<and> gea_inv s' \<and> shape (heap s') = shape (heap s)"
proof -
  obtain a calls where cb: "callback env e h t d (heap s) (app s) = (a, calls)" by fastforce
  let ?P = "\<lambda>s'. gea_inv s' \<and> shape (heap s') = shape (heap s)"
  have "\<exists>s'. foldE api_do calls (s\<lparr>app := a\<rparr>) = Inr s' \<and> ?P s'"
  proof (rule foldE_total)
    show "?P (s\<lparr>app := a\<rparr>)" using assms(2) by simp
  next
    fix c s1 assume c: "c \<in> set calls" and P: "?P s1"
    from assms cb c have "api_ok (heap s) c"
      unfolding callbacks_ok_def gea_inv_def by (metis snd_conv)
    with P have "api_ok (heap s1) c" using shape_api_ok by blast
    with P show "\<exists>s'. api_do c s1 = Inr s' \<and> ?P s'" using api_do_total [of s1 c] by auto
  qed
  then show ?thesis by (simp add: call_event_def cb)
qed

lemma callECList_total:
  assumes "callbacks_ok env" "gea_inv s"
  shows "\<exists>s'. callECList env ec s = Inr s' \<and> gea_inv s' \<and> shape (heap s') = shape (heap s)"
  unfolding callECList_def
  using call_event_total [OF assms(1), of "s\<lparr>lastEventTime := ec_t ec\<rparr>"] assms(2) by simp

lemma callECLists_total:
  assumes "callbacks_ok env" "gea_inv s"
  shows "\<exists>s'. foldE (callECList env) ecs s = Inr s' \<and> gea_inv s' \<and> shape (heap s') = shape (heap s)"
  using foldE_total [of "\<lambda>s'. gea_inv s' \<and> shape (heap s') = shape (heap s)" s ecs "callECList env"]
    callECList_total [OF assms(1)] assms(2) by fastforce

subsection \<open>Removing while collecting\<close>

text \<open>
  A rule for \<open>remove_if\<close>: if the predicate always returns, answers \<open>P\<close> and advances \<open>J\<close> from
  the elements done so far to one more, the elements with \<open>P\<close> are gone and \<open>J\<close> holds for all.
\<close>

lemma remove_if_rule:
  assumes "J done s"
    and "\<And>done' i s. i \<in> set is \<Longrightarrow> J done' s \<Longrightarrow> \<exists>s1. pred i s = Inr (P i, s1) \<and> J (done' @ [i]) s1"
  shows "\<exists>s'. remove_if pred is s = Inr (filter (\<lambda>i. \<not> P i) is, (\<exists>i \<in> set is. P i), s') \<and> J (done @ is) s'"
  using assms
proof (induction "is" arbitrary: "done" s)
  case (Cons i "is")
  obtain s1 where s1: "pred i s = Inr (P i, s1)" "J (done @ [i]) s1"
    using Cons.prems(2) [of i "done" s] Cons.prems(1) by auto
  obtain s2 where "remove_if pred is s1 = Inr (filter (\<lambda>i. \<not> P i) is, (\<exists>i \<in> set is. P i), s2)"
      "J ((done @ [i]) @ is) s2"
    using Cons.IH [OF s1(2)] Cons.prems(2) by (metis list.set_intros(2))
  then show ?case using s1(1) by simp
qed simp

abbreviation descr_of :: "EventDescr \<Rightarrow> addr \<times> nat \<times> nat" where
  "descr_of ed \<equiv> (ed_h ed, ed_e ed, ed_data ed)"

abbreviation call_of :: "EventCall \<Rightarrow> addr \<times> nat \<times> nat" where
  "call_of ec \<equiv> (ec_h ec, ec_e ec, ec_d ec)"

text \<open>What collecting the handles \<open>hs\<close> does to the handle store.\<close>

definition mark_ready :: "addr set \<Rightarrow> (addr \<rightharpoonup> Handle) \<Rightarrow> addr \<rightharpoonup> Handle" where
  "mark_ready hs m = (\<lambda>h. if h \<in> hs then map_option (\<lambda>x. x\<lparr>status := Some Ready\<rparr>) (m h) else m h)"

definition collected :: "'a env \<Rightarrow> 'a gea \<Rightarrow> EventDescr list \<Rightarrow> 'a gea \<times> EventCall list \<Rightarrow> bool" where
  "collected env s eds acc \<longleftrightarrow>
     map call_of (snd acc) = map descr_of eds
     \<and> map ec_t (snd acc) = map (clk env) [nowReads s ..< nowReads s + length eds]
     \<and> fst acc = s\<lparr>heap := (heap s)\<lparr>handles := mark_ready (ed_h ` set eds) (handles (heap s))\<rparr>,
                    nowReads := nowReads s + length eds\<rparr>"

lemma collect_collected:
  assumes "collected env s eds acc" "handles (heap s) (ed_h (snd i)) \<noteq> None"
  shows "\<exists>acc'. collect env i acc = Inr (True, acc') \<and> collected env s (eds @ [snd i]) acc'"
proof -
  obtain s1 elist where acc: "acc = (s1, elist)" by fastforce
  obtain x where x: "handles (heap s) (ed_h (snd i)) = Some x" using assms(2) by auto
  have "(mark_ready (ed_h ` set eds) (handles (heap s)))(ed_h (snd i) \<mapsto>
      (if ed_h (snd i) \<in> ed_h ` set eds then x\<lparr>status := Some Ready\<rparr> else x)\<lparr>status := Some Ready\<rparr>) =
      mark_ready (ed_h ` set (eds @ [snd i])) (handles (heap s))"
    using x by (auto simp: mark_ready_def fun_eq_iff)
  moreover have "mark_ready (ed_h ` set eds) (handles (heap s)) (ed_h (snd i)) =
      Some (if ed_h (snd i) \<in> ed_h ` set eds then x\<lparr>status := Some Ready\<rparr> else x)"
    using x by (simp add: mark_ready_def)
  ultimately show ?thesis
    using assms(1) by (auto simp: acc collected_def collect_def set_status_eq now_def)
qed

lemma shape_mark_ready [simp]: "shape (hp\<lparr>handles := mark_ready hs (handles hp)\<rparr>) = shape hp"
  by (auto simp: shape_def mark_ready_def fun_eq_iff option.map_comp o_def)

lemma collected_frame:
  assumes "collected env s eds acc"
  shows "shape (heap (fst acc)) = shape (heap s)" "depends (heap (fst acc)) = depends (heap s)"
    "eventList (fst acc) = eventList s" "app (fst acc) = app s" "lastEventTime (fst acc) = lastEventTime s"
  using assms by (simp_all add: collected_def)

text \<open>
  The contract of the two predicates the loop passes to \<open>remove_if\<close>: a test that looks at types,
  descriptors and triggers but not at statuses, and that is defined for every allocated handle.
\<close>

locale event_test =
  fixes test :: "heap \<Rightarrow> EventDescr \<Rightarrow> bool result"
    and pred :: "'a env \<Rightarrow> AbsTime \<times> EventDescr \<Rightarrow> 'a gea \<times> EventCall list \<Rightarrow>
      (bool \<times> 'a gea \<times> EventCall list) result"
  assumes pred_test: "pred env i acc =
      bindE (test (heap (fst acc)) (snd i)) (\<lambda>b. if b then collect env i acc else Inr (False, acc))"
    and test_cong: "shape hp = shape hp' \<Longrightarrow> depends hp = depends hp' \<Longrightarrow> test hp ed = test hp' ed"
    and test_total: "wf_heap hp \<Longrightarrow> handles hp (ed_h ed) \<noteq> None \<Longrightarrow> \<exists>b. test hp ed = Inr b"
begin

text \<open>One pass over the waiting events removes exactly those the test accepts, and collects a call
  for each of them in the order of their time-outs.\<close>

lemma remove_if_pass:
  assumes "gea_inv s"
  shows "\<exists>acc. remove_if (pred env) (eventList s) (s, []) =
      Inr (filter (\<lambda>i. test (heap s) (snd i) \<noteq> Inr True) (eventList s),
           (\<exists>i \<in> set (eventList s). test (heap s) (snd i) = Inr True), acc)
    \<and> collected env s (map snd (filter (\<lambda>i. test (heap s) (snd i) = Inr True) (eventList s))) acc"
proof -
  let ?P = "\<lambda>i. test (heap s) (snd i) = Inr True"
  let ?J = "\<lambda>(done :: EventList) acc. collected env s (map snd (filter ?P done)) acc"
  have "\<exists>s'. remove_if (pred env) (eventList s) (s, []) =
      Inr (filter (\<lambda>i. \<not> ?P i) (eventList s), (\<exists>i \<in> set (eventList s). ?P i), s')
      \<and> ?J ([] @ eventList s) s'"
  proof (rule remove_if_rule)
    show "?J [] (s, [])" by (simp add: collected_def mark_ready_def)
  next
    fix don :: EventList and i acc
    assume i: "i \<in> set (eventList s)" and J: "?J don acc"
    have live: "handles (heap s) (ed_h (snd i)) \<noteq> None" and "wf_heap (heap s)"
      using assms i by (auto simp: gea_inv_def live_event_def)
    then obtain b where b: "test (heap s) (snd i) = Inr b" using test_total by blast
    then have b': "test (heap (fst acc)) (snd i) = Inr b"
      using test_cong [OF collected_frame(1,2) [OF J]] by simp
    show "\<exists>s1. pred env i acc = Inr (?P i, s1) \<and> ?J (don @ [i]) s1"
      using J b b' collect_collected [OF J live] by (cases b) (auto simp: pred_test)
  qed
  then show ?thesis by simp
qed

end

lemma unixHandle_shape:
  assumes "shape hp = shape hp'"
  shows "unixHandle h hp = unixHandle h hp'"
proof -
  have sub: "bindE (get_handle h hp) (\<lambda>x. bindE (derefE (subUdpHandle x)) f) =
      bindE (get_handle h hp') (\<lambda>x. bindE (derefE (subUdpHandle x)) f)" for f :: "addr \<Rightarrow> addr option result"
    using shape_eqD(1) [OF assms, of h]
    by (cases "handles hp h"; cases "handles hp' h") (auto simp: get_handle_def)
  show ?thesis
    unfolding unixHandle_def shape_get_shadow [OF assms] sub ..
qed

lemma is_fd_handle_shadow:
  assumes "is_fd_handle hp u"
  obtains sh fd m where "get_shadow u hp = Inr sh" "unixFd sh = Some fd" "unixMode sh = Some m"
  using assms by (auto simp: is_fd_handle_def wf_fd_def access_defs split: option.splits)

lemma unixHandle_total:
  assumes "wf_heap hp" "handles hp h \<noteq> None"
  shows "\<exists>uh. unixHandle h hp = Inr uh \<and> (\<forall>u. uh = Some u \<longrightarrow> is_fd_handle hp u)"
proof -
  obtain x where x: "handles hp h = Some x" using assms(2) by auto
  then have wf: "wf_handle hp h x" using assms(1) by (rule wf_heapD [rotated])
  then obtain sh where sh: "shadowHandle x = Some sh" by (auto simp: wf_handle_def split: option.splits)
  show ?thesis
    using wf x sh
    by (auto simp: unixHandle_def access_defs isUnixFdHandle_def isUdpHandle_def wf_handle_def
      is_fd_handle_def split: option.splits HandleType.splits)
qed

lemma activeFd_total:
  assumes "wf_heap hp" "handles hp (ed_h ed) \<noteq> None"
  shows "\<exists>b. activeFd sets hp ed = Inr b"
proof -
  obtain uh where uh: "unixHandle (ed_h ed) hp = Inr uh" "\<forall>u. uh = Some u \<longrightarrow> is_fd_handle hp u"
    using unixHandle_total [OF assms] by auto
  show ?thesis
  proof (cases uh)
    case (Some u)
    then have "is_fd_handle hp u" using uh by simp
    then show ?thesis using uh Some by (auto simp: activeFd_def elim!: is_fd_handle_shadow)
  qed (use uh in \<open>auto simp: activeFd_def\<close>)
qed

lemma activeDep_total:
  assumes "wf_heap hp" "handles hp (ed_h ed) \<noteq> None"
  shows "\<exists>b. activeDep hp ed = Inr b"
proof -
  obtain sh where sh: "get_shadow (ed_h ed) hp = Inr sh" using wf_get_shadow [OF assms] by auto
  show ?thesis
  proof (cases "isDepend sh")
    case True
    obtain x d sd where "handles hp (ed_h ed) = Some x" "subDepend x = Some d" "depends hp d = Some sd"
      by (rule wf_depend_handle [OF assms(1) sh True])
    then show ?thesis using True sh by (simp add: activeDep_def get_depend_def get_handle_def)
  qed (use sh in \<open>auto simp: activeDep_def\<close>)
qed

lemma get_depend_cong:
  assumes "shape hp = shape hp'" "depends hp = depends hp'"
  shows "get_depend h hp = get_depend h hp'"
  using shape_eqD(1) [OF assms(1), of h] assms(2)
  by (cases "handles hp h"; cases "handles hp' h") (auto simp: access_defs)

interpretation fd_test: event_test "activeFd sets" "\<lambda>env. activeFdHandlePred env sets"
  for sets :: fd_sets
proof unfold_locales
  fix hp hp' :: heap and ed
  assume sh: "shape hp = shape hp'"
  show "activeFd sets hp ed = activeFd sets hp' ed"
    unfolding activeFd_def unixHandle_shape [OF sh] shape_get_shadow [OF sh] ..
qed (simp_all add: activeFdHandlePred_def activeFd_total)

interpretation dep_test: event_test activeDep activeDepPred
proof unfold_locales
  fix hp hp' :: heap and ed
  assume sh: "shape hp = shape hp'" "depends hp = depends hp'"
  show "activeDep hp ed = activeDep hp' ed"
    unfolding activeDep_def shape_get_shadow [OF sh(1)] get_depend_cong [OF sh] ..
qed (simp_all add: activeDepPred_def activeDep_total)

subsection \<open>One iteration never crashes\<close>

lemma activeDep_isDepend:
  "activeDep hp ed = Inr True \<Longrightarrow> \<exists>sh. get_shadow (ed_h ed) hp = Inr sh \<and> isDepend sh"
  by (auto simp: activeDep_def bindE_eq_Inr split: if_splits)

lemma resetDepTrigger_total:
  assumes "gea_inv s" "get_shadow (ec_h ec) (heap s) = Inr sh" "isDepend sh"
  shows "\<exists>s'. resetDepTrigger ec s = Inr s' \<and> gea_inv s' \<and> shape (heap s') = shape (heap s)
    \<and> eventList s' = eventList s"
proof -
  have "wf_heap (heap s)" using assms(1) by (simp add: gea_inv_def)
  from wf_depend_handle [OF this assms(2,3)] obtain x d sd where
    x: "handles (heap s) (ec_h ec) = Some x" "subDepend x = Some d" "depends (heap s) d = Some sd" .
  then obtain hp where hp: "set_triggered (ec_h ec) False (heap s) = Inr hp"
    by (simp add: set_triggered_eq)
  moreover have "shape hp = shape (heap s)" using hp by (rule set_triggered_shape)
  ultimately show ?thesis
    using assms gea_inv_heap [of s "s\<lparr>heap := hp\<rparr>"] by (auto simp: resetDepTrigger_def)
qed

lemma collected_calls:
  assumes "collected env s eds acc" "ec \<in> set (snd acc)"
  obtains ed where "ed \<in> set eds" "ec_h ec = ed_h ed" "ec_e ec = ed_e ed" "ec_d ec = ed_data ed"
proof -
  have "call_of ec \<in> set (map call_of (snd acc))" using assms(2) by simp
  also have "\<dots> = descr_of ` set eds" using assms(1) by (simp add: collected_def)
  finally show thesis using that by auto
qed

lemma resetDepTriggers_total:
  assumes "gea_inv s" "\<And>ec. ec \<in> set ecs \<Longrightarrow> \<exists>sh. get_shadow (ec_h ec) (heap s) = Inr sh \<and> isDepend sh"
  shows "\<exists>s'. foldE resetDepTrigger ecs s = Inr s' \<and> gea_inv s' \<and> shape (heap s') = shape (heap s)"
proof (rule foldE_total)
  fix ec s1
  assume ec: "ec \<in> set ecs" and P: "gea_inv s1 \<and> shape (heap s1) = shape (heap s)"
  then have "get_shadow (ec_h ec) (heap s1) = get_shadow (ec_h ec) (heap s)"
    by (intro shape_get_shadow) simp
  with P assms(2) [OF ec] show "\<exists>s'. resetDepTrigger ec s1 = Inr s' \<and> gea_inv s' \<and> shape (heap s') = shape (heap s)"
    using resetDepTrigger_total [of s1 ec] by auto
qed (use assms(1) in simp)

definition no_crash :: "'a gea \<Rightarrow> 'a gea result \<Rightarrow> bool" where
  "no_crash s r \<longleftrightarrow>
     (case r of Inr s' \<Rightarrow> gea_inv s' \<and> shape (heap s') = shape (heap s)
      | Inl e \<Rightarrow> e = OutOfFuel \<or> e = AssertFailed ''sel_ret != -1'')"

lemma no_crash_Inr: "no_crash s (Inr s') \<longleftrightarrow> gea_inv s' \<and> shape (heap s') = shape (heap s)"
  by (simp add: no_crash_def)

lemma no_crash_shape: "shape (heap s) = shape (heap s0) \<Longrightarrow> no_crash s r = no_crash s0 r"
  by (simp add: no_crash_def split: sum.splits)

lemma no_crash_bind:
  assumes "no_crash s r" "\<And>s'. gea_inv s' \<Longrightarrow> shape (heap s') = shape (heap s) \<Longrightarrow> no_crash s (f s')"
  shows "no_crash s (bindE r f)"
  using assms by (cases r) (auto simp: no_crash_def)

lemma handle_timeout_no_crash:
  assumes "callbacks_ok env" "gea_inv s" "eventList s \<noteq> []"
    and "\<And>e h t d s s'. call_event env e h t d s = Inr s' \<Longrightarrow> eventList s \<noteq> [] \<Longrightarrow> eventList s' \<noteq> []"
  shows "no_crash s (handle_timeout env s)"
proof -
  obtain t ed rest where ev: "eventList s = (t, ed) # rest" using assms(3) by (cases "eventList s") auto
  then have "handles (heap s) (ed_h ed) \<noteq> None"
    using assms(2) by (auto simp: gea_inv_def live_event_def)
  then obtain hp where hp: "set_status (ed_h ed) Timeout (heap s) = Inr hp" using set_status_live by blast
  let ?s = "s\<lparr>heap := hp, lastEventTime := t\<rparr>"
  have sh: "shape hp = shape (heap s)" using hp by (rule set_status_shape)
  then have "gea_inv ?s" using gea_inv_heap [OF assms(2), of ?s] by simp
  then obtain s1 where s1: "call_event env (ed_e ed) (ed_h ed) t (ed_data ed) ?s = Inr s1"
      "gea_inv s1" "shape (heap s1) = shape (heap s)"
    using call_event_total [OF assms(1), of ?s "ed_e ed" "ed_h ed" t "ed_data ed"] sh by auto
  then obtain i rest' where "eventList s1 = i # rest'"
    using assms(4) [OF s1(1)] ev by (cases "eventList s1") auto
  then show ?thesis
    using s1 by (simp add: handle_timeout_def ev hp no_crash_Inr gea_inv_tl)
qed

lemma waitFor_nonempty: "waitFor h t e d s = Inr s' \<Longrightarrow> eventList s' \<noteq> []"
  by (auto simp: waitFor_def resultE)

lemma call_event_nonempty:
  "call_event env e h t d s = Inr s' \<Longrightarrow> eventList s \<noteq> [] \<Longrightarrow> eventList s' \<noteq> []"
proof -
  assume a: "call_event env e h t d s = Inr s'" "eventList s \<noteq> []"
  obtain ap calls where cb: "callback env e h t d (heap s) (app s) = (ap, calls)" by fastforce
  have "eventList s2 \<noteq> []" if "api_do c s1 = Inr s2" "eventList s1 \<noteq> []" for c and s1 s2 :: "'a gea"
    using that by (cases c) (auto simp: bindE_eq_Inr dest: waitFor_nonempty)
  then show "eventList s' \<noteq> []"
    using a foldE_invariant [where P = "\<lambda>s. eventList s \<noteq> []" and f = api_do and xs = calls
        and s = "s\<lparr>app := ap\<rparr>" and s' = s'] by (auto simp: call_event_def cb)
qed

lemma handle_io_no_crash:
  assumes "callbacks_ok env" "gea_inv s"
  shows "no_crash s (handle_io env ready s)"
proof -
  obtain acc where acc: "remove_if (activeFdHandlePred env ready) (eventList s) (s, []) =
      Inr (filter (\<lambda>i. activeFd ready (heap s) (snd i) \<noteq> Inr True) (eventList s),
           (\<exists>i \<in> set (eventList s). activeFd ready (heap s) (snd i) = Inr True), acc)"
    and col: "collected env s (map snd (filter (\<lambda>i. activeFd ready (heap s) (snd i) = Inr True) (eventList s))) acc"
    using fd_test.remove_if_pass [OF assms(2), of env ready] by blast
  let ?s = "(fst acc)\<lparr>eventList := filter (\<lambda>i. activeFd ready (heap s) (snd i) \<noteq> Inr True) (eventList s)\<rparr>"
  have "gea_inv ?s" using gea_inv_filter [OF assms(2), of ?s] collected_frame(1) [OF col] by simp
  then show ?thesis
    using callECLists_total [OF assms(1), of ?s "snd acc"] collected_frame(1) [OF col]
    by (auto simp: handle_io_def acc split_beta no_crash_Inr)
qed

text \<open>A round with a triggered dependency, and a round without one.\<close>

abbreviation dep_active :: "'a gea \<Rightarrow> AbsTime \<times> EventDescr \<Rightarrow> bool" where
  "dep_active s i \<equiv> activeDep (heap s) (snd i) = Inr True"

lemma depends_round:
  assumes "callbacks_ok env" "gea_inv s" "\<exists>i \<in> set (eventList s). dep_active s i"
  obtains acc s3 s4 where "collected env s (map snd (filter (dep_active s) (eventList s))) acc"
    and "foldE (callECList env) (snd acc)
      ((fst acc)\<lparr>eventList := filter (\<lambda>i. \<not> dep_active s i) (eventList s)\<rparr>) = Inr s3"
    and "shape (heap s3) = shape (heap s)" and "foldE resetDepTrigger (snd acc) s3 = Inr s4"
    and "gea_inv s4" and "shape (heap s4) = shape (heap s)"
    and "handle_depends env (Suc n) s = handle_depends env n s4"
proof -
  obtain acc where acc: "remove_if (activeDepPred env) (eventList s) (s, []) =
      Inr (filter (\<lambda>i. \<not> dep_active s i) (eventList s), True, acc)"
    and col: "collected env s (map snd (filter (dep_active s) (eventList s))) acc"
    using dep_test.remove_if_pass [OF assms(2), of env] assms(3) by auto
  let ?s = "(fst acc)\<lparr>eventList := filter (\<lambda>i. \<not> dep_active s i) (eventList s)\<rparr>"
  have sh: "shape (heap ?s) = shape (heap s)" using collected_frame(1) [OF col] by simp
  have inv: "gea_inv ?s" using gea_inv_filter [OF assms(2), of ?s] sh by simp
  have "snd acc \<noteq> []"
  proof
    assume "snd acc = []"
    then have "filter (dep_active s) (eventList s) = []" using col by (simp add: collected_def)
    then show False using assms(3) by (auto simp: filter_empty_conv)
  qed
  moreover obtain s3 where s3: "foldE (callECList env) (snd acc) ?s = Inr s3" "gea_inv s3"
      "shape (heap s3) = shape (heap s)"
    using callECLists_total [OF assms(1) inv] sh by auto
  moreover have "\<exists>sh. get_shadow (ec_h ec) (heap s3) = Inr sh \<and> isDepend sh" if ec: "ec \<in> set (snd acc)" for ec
  proof -
    from collected_calls [OF col ec] obtain ed where
      "ed \<in> set (map snd (filter (dep_active s) (eventList s)))" "ec_h ec = ed_h ed" by blast
    then show ?thesis
      using activeDep_isDepend [of "heap s" ed] shape_get_shadow [OF s3(3), of "ed_h ed"] by auto
  qed
  then obtain s4 where s4: "foldE resetDepTrigger (snd acc) s3 = Inr s4" "gea_inv s4"
      "shape (heap s4) = shape (heap s)"
    using resetDepTriggers_total [OF s3(2)] s3(3) by auto
  ultimately have "handle_depends env (Suc n) s = handle_depends env n s4"
    using acc by (simp add: split_beta Let_def)
  then show thesis using that col s3(1,3) s4 by blast
qed

lemma depends_idle:
  assumes "gea_inv s" "\<not> (\<exists>i \<in> set (eventList s). dep_active s i)"
  shows "handle_depends env (Suc n) s = Inr s"
proof -
  have none: "filter (dep_active s) (eventList s) = []" "filter (\<lambda>i. \<not> dep_active s i) (eventList s) = eventList s"
    using assms(2) by (auto simp: filter_empty_conv filter_id_conv)
  obtain acc where "remove_if (activeDepPred env) (eventList s) (s, []) = Inr (eventList s, False, acc)"
    and "collected env s [] acc"
    using dep_test.remove_if_pass [OF assms(1), of env] assms(2) none by auto
  moreover from this have "fst acc = s" by (simp add: collected_def mark_ready_def)
  ultimately show ?thesis by (simp add: split_beta Let_def)
qed

lemma handle_depends_no_crash:
  assumes "callbacks_ok env" "gea_inv s"
  shows "no_crash s (handle_depends env n s)"
  using assms(2)
proof (induction n arbitrary: s)
  case (Suc n)
  show ?case
  proof (cases "\<exists>i \<in> set (eventList s). dep_active s i")
    case True
    obtain acc s3 s4 where "gea_inv s4" "shape (heap s4) = shape (heap s)"
        "handle_depends env (Suc n) s = handle_depends env n s4"
      by (rule depends_round [OF assms(1) Suc.prems True, of n]) blast
    then show ?thesis using Suc.IH no_crash_shape by metis
  next
    case False
    then show ?thesis using depends_idle [OF Suc.prems] Suc.prems by (simp add: no_crash_Inr del: handle_depends.simps)
  qed
qed (simp add: no_crash_def)

lemma fill_fd_sets_total:
  assumes "wf_heap hp" "\<And>i. i \<in> set evs \<Longrightarrow> handles hp (ed_h (snd i)) \<noteq> None"
  shows "\<exists>r. foldE (add_fd hp) evs acc = Inr r"
proof -
  have "\<exists>r. add_fd hp i acc = Inr r" if "i \<in> set evs" for i acc
  proof -
    have live: "handles hp (ed_h (snd i)) \<noteq> None" using that by (rule assms(2))
    obtain uh where uh: "unixHandle (ed_h (snd i)) hp = Inr uh" "\<forall>u. uh = Some u \<longrightarrow> is_fd_handle hp u"
      using unixHandle_total [OF assms(1) live] by auto
    show ?thesis
    proof (cases uh)
      case (Some u)
      then have "is_fd_handle hp u" using uh by simp
      then show ?thesis using uh Some by (auto simp: add_fd_def elim!: is_fd_handle_shadow)
    qed (use uh in \<open>auto simp: add_fd_def\<close>)
  qed
  then show ?thesis using foldE_total [of "\<lambda>_. True" acc evs "add_fd hp"] by auto
qed

lemma select_loop_result:
  "select_loop env n nfds sets tv s = Inr (s', ready) \<Longrightarrow> \<exists>k. s' = s\<lparr>selCalls := k\<rparr>"
proof (induction n arbitrary: tv s)
  case (Suc n)
  then show ?case by (fastforce simp: Let_def split: select_result.splits)
qed simp

lemma select_loop_errors:
  "select_loop env n nfds sets tv s = Inl e \<Longrightarrow> e = OutOfFuel \<or> e = AssertFailed ''sel_ret != -1''"
  by (induction n arbitrary: tv s) (auto simp: Let_def split: select_result.splits)

lemma run_iteration_no_crash:
  assumes "callbacks_ok env" "gea_inv s" "eventList s \<noteq> []"
  shows "no_crash s (run_iteration env n s)"
proof -
  obtain first ed rest where ev: "eventList s = (first, ed) # rest" using assms(3) by (cases "eventList s") auto
  let ?s1 = "s\<lparr>nowReads := Suc (nowReads s)\<rparr>"
  let ?tv = "double2Timeval (Duration_to_double (sleep_time first (clk env (nowReads s))))"
  obtain sets max_fd where fill: "fill_fd_sets (heap s) (eventList s) = Inr (sets, max_fd)"
    using fill_fd_sets_total [of "heap s" "eventList s" "(\<lambda>_. {}, 0)"] assms(2)
    by (auto simp: fill_fd_sets_def gea_inv_def live_event_def)
  show ?thesis
  proof (cases "select_loop env n (max_fd + 1) sets ?tv ?s1")
    case (Inl e)
    then show ?thesis
      using select_loop_errors [OF Inl] fill by (simp add: run_iteration_def ev now_def no_crash_def)
  next
    case (Inr r)
    then obtain s2 ready where r: "r = (s2, ready)" by (cases r) auto
    then obtain k where s2: "s2 = ?s1\<lparr>selCalls := k\<rparr>" using Inr select_loop_result by blast
    have inv: "gea_inv s2" "shape (heap s2) = shape (heap s)" "eventList s2 \<noteq> []"
      using assms(2) by (simp_all add: s2 ev)
    have "no_crash s2 (case ready of None \<Rightarrow> handle_timeout env s2 | Some r \<Rightarrow> handle_io env r s2)"
      using handle_timeout_no_crash [OF assms(1) inv(1,3) call_event_nonempty]
        handle_io_no_crash [OF assms(1) inv(1)] by (cases ready) auto
    then have "no_crash s (bindE (case ready of None \<Rightarrow> handle_timeout env s2 | Some r \<Rightarrow> handle_io env r s2)
        (handle_depends env n))"
      using handle_depends_no_crash [OF assms(1)] no_crash_shape [OF inv(2)]
      by (intro no_crash_bind) (auto dest: no_crash_shape)
    then show ?thesis
      using Inr r fill by (simp add: run_iteration_def ev now_def)
  qed
qed

lemma run_no_crash: "callbacks_ok env \<Longrightarrow> gea_inv s \<Longrightarrow> no_crash s (run env k n s)"
proof (induction k arbitrary: s)
  case (Suc k)
  show ?case
  proof (cases "eventList s = []")
    case False
    have "no_crash s (bindE (run_iteration env n s) (run env k n))"
      using Suc run_iteration_no_crash [OF Suc.prems False] no_crash_shape by (intro no_crash_bind) blast+
    then show ?thesis using False by simp
  qed (use Suc.prems in \<open>simp add: no_crash_Inr\<close>)
qed (simp add: no_crash_def)

subsection \<open>The time-out branch\<close>

lemma api_do_events:
  assumes "api_do c s = Inr s'"
  shows "eventList s' = (case c of CallWaitFor h t e d \<Rightarrow>
      insert_upper fst (t, \<lparr>ed_h = h, ed_data = d, ed_e = e\<rparr>) (eventList s) | CallComplied h \<Rightarrow> eventList s)"
  using assms by (cases c) (auto simp: bindE_eq_Inr dest: waitFor_result)

text \<open>The events a list of calls registers, put into a list one after the other.\<close>

fun register :: "api_call list \<Rightarrow> EventList \<Rightarrow> EventList" where
  "register [] evs = evs"
| "register (CallWaitFor h t e d # cs) evs =
     register cs (insert_upper fst (t, \<lparr>ed_h = h, ed_data = d, ed_e = e\<rparr>) evs)"
| "register (CallComplied h # cs) evs = register cs evs"

lemma foldE_api_do_events: "foldE api_do cs s = Inr s' \<Longrightarrow> eventList s' = register cs (eventList s)"
proof (induction cs arbitrary: s)
  case (Cons c cs)
  then show ?case by (cases c) (auto simp: bindE_eq_Inr dest: waitFor_result)
qed simp

definition no_earlier :: "AbsTime \<Rightarrow> api_call list \<Rightarrow> bool" where
  "no_earlier t cs = list_all (\<lambda>c. case c of CallWaitFor h t' e d \<Rightarrow> t \<le> t' | CallComplied h \<Rightarrow> True) cs"

lemma register_behind_head:
  "no_earlier t cs \<Longrightarrow> register cs ((t, ed) # rest) = (t, ed) # register cs rest"
proof (induction cs arbitrary: rest)
  case (Cons c cs)
  then show ?case by (cases c) (auto simp: no_earlier_def leD)
qed simp

lemma foldE_api_do_heap: "foldE api_do cs s = Inr s' \<Longrightarrow> lastEventTime s' = lastEventTime s \<and> app s' = app s"
proof (induction cs arbitrary: s)
  case (Cons c cs)
  then show ?case by (cases c) (auto simp: bindE_eq_Inr waitFor_def resultE)
qed simp

lemma handle_timeout_eq:
  assumes "gea_inv s" "eventList s = (t, ed) # rest" "set_status (ed_h ed) Timeout (heap s) = Inr hp"
    and "callback env (ed_e ed) (ed_h ed) t (ed_data ed) hp (app s) = (a, calls)"
    and "handle_timeout env s = Inr s'"
  shows "eventList s' = tl (register calls (eventList s))
    \<and> lastEventTime s' = t \<and> app s' = a"
proof -
  let ?s = "s\<lparr>heap := hp, lastEventTime := t, app := a\<rparr>"
  from assms(2-5) obtain s1 where s1: "foldE api_do calls ?s = Inr s1"
      "(case eventList s1 of [] \<Rightarrow> Inl NullPointer | _ # rest \<Rightarrow> Inr (s1\<lparr>eventList := rest\<rparr>)) = Inr s'"
    by (auto simp: handle_timeout_def call_event_def bindE_eq_Inr)
  then have "s' = s1\<lparr>eventList := tl (eventList s1)\<rparr>"
    by (cases "eventList s1") auto
  then show ?thesis
    using foldE_api_do_events [OF s1(1)] foldE_api_do_heap [OF s1(1)] by simp
qed

subsection \<open>The descriptor sets\<close>

text \<open>The descriptor and mode an event waits for, if it waits for one.\<close>

definition waits_on :: "heap \<Rightarrow> EventDescr \<Rightarrow> (int \<times> PosixHandleMode) option" where
  "waits_on hp ed =
     (case unixHandle (ed_h ed) hp of
        Inr (Some u) \<Rightarrow>
          (case get_shadow u hp of
             Inr sh \<Rightarrow> (case (unixFd sh, unixMode sh) of (Some fd, Some m) \<Rightarrow> Some (fd, m) | _ \<Rightarrow> None)
           | Inl _ \<Rightarrow> None)
      | _ \<Rightarrow> None)"

lemma add_fd_result:
  assumes "add_fd hp i acc = Inr r"
  shows "r = (case waits_on hp (snd i) of None \<Rightarrow> acc
    | Some (fd, m) \<Rightarrow> ((fst acc)(m := insert fd (fst acc m)), max (snd acc) fd))"
  using assms
  by (auto simp: add_fd_def waits_on_def resultE max_def split: option.splits sum.splits if_splits)

lemma fill_fd_sets_result:
  assumes "foldE (add_fd hp) evs acc = Inr (sets, max_fd)"
  shows "(\<forall>m. sets m = fst acc m \<union> {fd. \<exists>i \<in> set evs. waits_on hp (snd i) = Some (fd, m)})
    \<and> max_fd = Max (insert (snd acc) {fd. \<exists>i \<in> set evs. \<exists>m. waits_on hp (snd i) = Some (fd, m)})"
  using assms
proof (induction evs arbitrary: acc)
  case (Cons i evs)
  then obtain acc1 where acc1: "add_fd hp i acc = Inr acc1" "foldE (add_fd hp) evs acc1 = Inr (sets, max_fd)"
    by (auto simp: bindE_eq_Inr)
  let ?S = "\<lambda>evs. {fd. \<exists>i \<in> set evs. \<exists>m. waits_on hp (snd i) = Some (fd, m)}"
  have fin: "finite (?S evs)"
  proof (rule finite_subset)
    show "?S evs \<subseteq> (\<lambda>i. fst (the (waits_on hp (snd i)))) ` set evs" by force
  qed simp
  show ?case
  proof (cases "waits_on hp (snd i)")
    case None
    then have "acc1 = acc" using add_fd_result [OF acc1(1)] by simp
    moreover have "?S (i # evs) = ?S evs" using None by auto
    ultimately show ?thesis using Cons.IH [OF acc1(2)] None by simp
  next
    case (Some p)
    obtain fd m where p: "p = (fd, m)" by fastforce
    then have a1: "acc1 = ((fst acc)(m := insert fd (fst acc m)), max (snd acc) fd)"
      using add_fd_result [OF acc1(1)] Some by simp
    have S: "?S (i # evs) = insert fd (?S evs)" using Some p by auto
    have "max_fd = Max (insert (snd acc) (?S (i # evs)))"
      using Cons.IH [OF acc1(2)] fin unfolding S a1
      by (cases "?S evs = {}") (simp_all add: max.assoc max.commute max.left_commute)
    moreover have "sets m' = fst acc m' \<union> {fd. \<exists>i \<in> set (i # evs). waits_on hp (snd i) = Some (fd, m')}" for m'
      using Cons.IH [OF acc1(2)] Some p a1 by auto
    ultimately show ?thesis by blast
  qed
qed simp

lemma activeFd_waits_on:
  assumes "wf_heap hp" "handles hp (ed_h ed) \<noteq> None"
  shows "activeFd sets hp ed = Inr True \<longleftrightarrow> (\<exists>fd m. waits_on hp ed = Some (fd, m) \<and> fd \<in> sets m)"
proof -
  obtain uh where uh: "unixHandle (ed_h ed) hp = Inr uh" "\<forall>u. uh = Some u \<longrightarrow> is_fd_handle hp u"
    using unixHandle_total [OF assms] by auto
  show ?thesis
  proof (cases uh)
    case (Some u)
    then have "is_fd_handle hp u" using uh by simp
    then show ?thesis using uh Some by (auto simp: activeFd_def waits_on_def elim!: is_fd_handle_shadow)
  qed (use uh in \<open>auto simp: activeFd_def waits_on_def\<close>)
qed

subsection \<open>Rounds of triggered dependencies\<close>

definition pending_triggers :: "heap \<Rightarrow> addr set" where
  "pending_triggers hp = {d. \<exists>sd. depends hp d = Some sd \<and> triggered sd}"

definition never_complies :: "'a env \<Rightarrow> bool" where
  "never_complies env \<longleftrightarrow> (\<forall>e h t d hp a k. CallComplied k \<notin> set (snd (callback env e h t d hp a)))"

lemma callECList_depends:
  assumes "never_complies env" "callECList env ec s = Inr s'"
  shows "depends (heap s') = depends (heap s)"
proof -
  let ?s = "s\<lparr>lastEventTime := ec_t ec\<rparr>"
  obtain a calls where cb: "callback env (ec_e ec) (ec_h ec) (ec_t ec) (ec_d ec) (heap ?s) (app ?s) = (a, calls)"
    by fastforce
  have nc: "CallComplied k \<notin> set calls" for k
    using assms(1) cb unfolding never_complies_def by (metis snd_conv)
  have "foldE api_do calls (?s\<lparr>app := a\<rparr>) = Inr s'"
    using assms(2) cb by (simp add: callECList_def call_event_def)
  then show ?thesis
  proof (rule foldE_invariant [where P = "\<lambda>s1. depends (heap s1) = depends (heap s)"])
    fix c and s1 s2 :: "'a gea"
    assume "c \<in> set calls" "depends (heap s1) = depends (heap s)" "api_do c s1 = Inr s2"
    then show "depends (heap s2) = depends (heap s)"
      using nc by (cases c rule: api_call.exhaust) (auto dest: waitFor_result)
  qed simp
qed

lemma resetDepTrigger_pending:
  assumes "resetDepTrigger ec s = Inr s'" "handles (heap s) (ec_h ec) = Some x" "subDepend x = Some d"
  shows "pending_triggers (heap s') = pending_triggers (heap s) - {d}"
  using assms by (auto simp: resetDepTrigger_def access_defs resultE pending_triggers_def split: if_splits)

lemma resetDepTrigger_mono:
  "resetDepTrigger ec s = Inr s' \<Longrightarrow> pending_triggers (heap s') \<subseteq> pending_triggers (heap s)"
  by (auto simp: resetDepTrigger_def access_defs resultE pending_triggers_def split: if_splits)

lemma resetDepTriggers_mono:
  "foldE resetDepTrigger ecs s = Inr s' \<Longrightarrow> pending_triggers (heap s') \<subseteq> pending_triggers (heap s)"
  by (induction ecs arbitrary: s) (auto simp: bindE_eq_Inr dest!: resetDepTrigger_mono)

lemma resetDepTrigger_shape: "resetDepTrigger ec s = Inr s' \<Longrightarrow> shape (heap s') = shape (heap s)"
  by (auto simp: resetDepTrigger_def bindE_eq_Inr dest: set_triggered_shape)

text \<open>Whatever the callbacks did, after a round none of the called handles is triggered.\<close>

lemma resetDepTriggers_clears:
  assumes "foldE resetDepTrigger ecs s = Inr s'" "ec \<in> set ecs"
    and "handles (heap s) (ec_h ec) = Some x" "subDepend x = Some d"
  shows "d \<notin> pending_triggers (heap s')"
  using assms
proof (induction ecs arbitrary: s x)
  case (Cons e ecs)
  then obtain s1 where s1: "resetDepTrigger e s = Inr s1" "foldE resetDepTrigger ecs s1 = Inr s'"
    by (auto simp: bindE_eq_Inr)
  show ?case
  proof (cases "ec = e")
    case True
    then have "d \<notin> pending_triggers (heap s1)"
      using resetDepTrigger_pending [OF s1(1)] Cons.prems by simp
    then show ?thesis using resetDepTriggers_mono [OF s1(2)] by blast
  next
    case False
    have "map_option (\<lambda>x. (shadowHandle x, subDepend x, subUdpHandle x)) (handles (heap s1) (ec_h ec)) =
        Some (shadowHandle x, subDepend x, subUdpHandle x)"
      using shape_eqD(1) [OF resetDepTrigger_shape [OF s1(1)], of "ec_h ec"] Cons.prems(3) by simp
    then obtain x1 where "handles (heap s1) (ec_h ec) = Some x1" "subDepend x1 = Some d"
      using Cons.prems(4) by auto
    then show ?thesis using Cons.IH [OF s1(2)] Cons.prems(2) False by simp
  qed
qed simp

lemma callECLists_depends:
  "never_complies env \<Longrightarrow> foldE (callECList env) ecs s = Inr s' \<Longrightarrow> depends (heap s') = depends (heap s)"
  by (induction ecs arbitrary: s) (auto simp: bindE_eq_Inr dest: callECList_depends)

text \<open>A round without new triggers uses up at least one.\<close>

lemma round_progress:
  assumes "never_complies env" "gea_inv s"
    and "collected env s (map snd (filter (\<lambda>i. activeDep (heap s) (snd i) = Inr True) (eventList s))) acc"
    and "i \<in> set (eventList s)" "activeDep (heap s) (snd i) = Inr True"
    and "foldE (callECList env) (snd acc) ((fst acc)\<lparr>eventList := evs\<rparr>) = Inr s3" "shape (heap s3) = shape (heap s)"
    and "foldE resetDepTrigger (snd acc) s3 = Inr s4"
  shows "pending_triggers (heap s4) \<subset> pending_triggers (heap s)"
proof -
  obtain sh where sh: "get_shadow (ed_h (snd i)) (heap s) = Inr sh" "isDepend sh"
    using activeDep_isDepend [OF assms(5)] by blast
  have "wf_heap (heap s)" using assms(2) by (simp add: gea_inv_def)
  from wf_depend_handle [OF this sh] obtain x d sd where
    x: "handles (heap s) (ed_h (snd i)) = Some x" "subDepend x = Some d" "depends (heap s) d = Some sd" .
  then have d: "d \<in> pending_triggers (heap s)"
    using assms(5) sh by (auto simp: activeDep_def access_defs pending_triggers_def)
  have "depends (heap s3) = depends (heap s)"
    using callECLists_depends [OF assms(1,6)] collected_frame(2) [OF assms(3)] by simp
  then have s3: "pending_triggers (heap s3) = pending_triggers (heap s)" by (simp add: pending_triggers_def)
  have "descr_of (snd i) \<in> set (map call_of (snd acc))"
    using assms(3-5) by (force simp: collected_def)
  then obtain ec where ec: "ec \<in> set (snd acc)" "ec_h ec = ed_h (snd i)" by auto
  obtain x3 where "handles (heap s3) (ed_h (snd i)) = Some x3" "subDepend x3 = Some d"
    using shape_eqD(1) [OF assms(7), of "ed_h (snd i)"] x by auto
  then have "d \<notin> pending_triggers (heap s4)"
    using resetDepTriggers_clears [OF assms(8) ec(1)] ec(2) by simp
  with d s3 resetDepTriggers_mono [OF assms(8)] show ?thesis by blast
qed

lemma handle_depends_terminates:
  assumes "callbacks_ok env" "never_complies env" "gea_inv s" "finite (pending_triggers (heap s))"
    and "card (pending_triggers (heap s)) < n"
  shows "\<exists>s'. handle_depends env n s = Inr s'"
  using assms(3-5)
proof (induction n arbitrary: s)
  case (Suc n)
  show ?case
  proof (cases "\<exists>i \<in> set (eventList s). dep_active s i")
    case True
    then obtain i where i: "i \<in> set (eventList s)" "dep_active s i" by blast
    obtain acc s3 s4 where col: "collected env s (map snd (filter (dep_active s) (eventList s))) acc"
      and s3: "foldE (callECList env) (snd acc)
        ((fst acc)\<lparr>eventList := filter (\<lambda>i. \<not> dep_active s i) (eventList s)\<rparr>) = Inr s3" "shape (heap s3) = shape (heap s)"
      and s4: "foldE resetDepTrigger (snd acc) s3 = Inr s4" "gea_inv s4"
        "handle_depends env (Suc n) s = handle_depends env n s4"
      by (rule depends_round [OF assms(1) Suc.prems(1) True, of n]) blast
    have less: "pending_triggers (heap s4) \<subset> pending_triggers (heap s)"
      by (rule round_progress [OF assms(2) Suc.prems(1) col i s3 s4(1)])
    then have "card (pending_triggers (heap s4)) < card (pending_triggers (heap s))"
      using Suc.prems(2) by (rule psubset_card_mono [rotated])
    then show ?thesis
      using Suc.IH [OF s4(2)] Suc.prems(2,3) less s4(3) by (metis finite_subset less_Suc_eq_le order_less_le_trans psubset_imp_subset)
  next
    case False
    then show ?thesis using depends_idle [OF Suc.prems(1)] by blast
  qed
qed simp

section \<open>Properties\<close>

text \<open>C26. From a state that satisfies the invariant (well-formed heap, multimap in key order, every
  waiting event on an allocated handle), with callbacks that use the interface on existing handles
  only, the event loop never follows a null or dangling pointer and no assertion fails but the one
  on a failing \<^verbatim>\<open>select\<close>: every run ends in a state with the invariant again and the same
  handles, unless it has not ended yet.\<close>

theorem event_loop_safe:
  assumes "callbacks_ok env" "gea_inv s"
  shows "case run env k n s of
      Inr s' \<Rightarrow> gea_inv s' \<and> shape (heap s') = shape (heap s) \<and> eventList s' = []
    | Inl e \<Rightarrow> e = OutOfFuel \<or> e = AssertFailed ''sel_ret != -1''"
proof -
  have "run env k n s = Inr s' \<Longrightarrow> eventList s' = []" for s'
    by (induction k arbitrary: s) (auto simp: bindE_eq_Inr split: if_splits)
  then show ?thesis
    using run_no_crash [OF assms, of k n] by (auto simp: no_crash_def split: sum.splits)
qed

text \<open>A concrete system for the witnesses: blockers at addresses 0 and 1, a dependency at address 2,
  events waiting on two of them, and callbacks given by what they call.\<close>

definition demo_heap :: heap where
  "demo_heap = fst (projr (new_DependHandle (fst (projr (new_Blocker (fst (projr (new_Blocker empty_heap))))))))"

definition demo_gea :: "unit gea" where
  "demo_gea = \<lparr>heap = demo_heap,
     eventList = [(AbsTime 100, \<lparr>ed_h = 0, ed_data = 5, ed_e = 3\<rparr>), (AbsTime 200, \<lparr>ed_h = 2, ed_data = 6, ed_e = 4\<rparr>)],
     lastEventTime = AbsTime 0, nowReads = 0, selCalls = 0, app = ()\<rparr>"

definition demo_env :: "(nat \<Rightarrow> api_call list) \<Rightarrow> unit env" where
  "demo_env f = \<lparr>clk = (\<lambda>n. AbsTime (of_nat n)), sel = (\<lambda>_ _ _ _. SelTimeout),
     callback = (\<lambda>e h t d hp a. (a, if handles hp 0 \<noteq> None then f e else []))\<rparr>"

abbreviation demo_blocker :: Handle where
  "demo_blocker \<equiv> \<lparr>shadowHandle = Some \<lparr>unixFd = None, unixMode = None, handleType = Some TypeBlocker\<rparr>,
     status = None, subDepend = None, subUdpHandle = None\<rparr>"

abbreviation demo_depend :: "Status option \<Rightarrow> Handle" where
  "demo_depend st \<equiv> \<lparr>shadowHandle = Some \<lparr>unixFd = None, unixMode = None, handleType = Some TypeDepend\<rparr>,
     status = st, subDepend = Some 3, subUdpHandle = None\<rparr>"

lemma demo_heap_eq:
  "demo_heap = \<lparr>handles = [0 \<mapsto> demo_blocker, Suc 0 \<mapsto> demo_blocker, 2 \<mapsto> demo_depend None],
     depends = [3 \<mapsto> \<lparr>master = 2, triggered = False\<rparr>], next_addr = 4\<rparr>"
  by (simp add: demo_heap_def new_Blocker_eq new_DependHandle_eq empty_heap_def eval_nat_numeral)

lemma wf_demo_heap: "wf_heap demo_heap"
  unfolding demo_heap_def
  by (metis fst_conv new_Blocker_eq new_DependHandle_eq sum.sel(2) wf_empty_heap wf_new_Blocker wf_new_DependHandle)

lemma demo_inv: "gea_inv demo_gea"
  using wf_demo_heap
  by (simp add: gea_inv_def demo_gea_def live_event_def less_eq_AbsTime_def) (simp add: demo_heap_eq)

theorem event_loop_safe_witness:
  "\<exists>s'. run (demo_env (\<lambda>_. [])) 3 3 demo_gea = Inr s' \<and> gea_inv s' \<and> eventList s' = []"
proof -
  have "callbacks_ok (demo_env (\<lambda>_. []))" by (simp add: callbacks_ok_def demo_env_def)
  moreover have "\<exists>s'. run (demo_env (\<lambda>_. [])) 3 3 demo_gea = Inr s'"
    by (simp add: demo_gea_def demo_heap_eq demo_env_def eval_nat_numeral run_iteration_def now_def
      fill_fd_sets_def add_fd_def unixHandle_def access_defs isUnixFdHandle_def isUdpHandle_def isDepend_def
      handle_timeout_def call_event_def activeDepPred_def activeDep_def)
  ultimately show ?thesis
    using event_loop_safe [of "demo_env (\<lambda>_. [])" demo_gea 3 3] demo_inv by auto
qed

text \<open>C28. When \<^verbatim>\<open>select\<close> times out, the callback of the earliest event is called with its handle
  marked as timed out, at its deadline; and if the callback registers nothing with an earlier
  deadline, exactly that event leaves the list and everything registered stays.\<close>

theorem timeout_removes_fired_event:
  assumes "gea_inv s" "eventList s = (t, ed) # rest" "set_status (ed_h ed) Timeout (heap s) = Inr hp"
    and "callback env (ed_e ed) (ed_h ed) t (ed_data ed) hp (app s) = (a, calls)"
    and "no_earlier t calls" and "handle_timeout env s = Inr s'"
  shows "eventList s' = register calls rest \<and> lastEventTime s' = t \<and> app s' = a
    \<and> (\<forall>i \<in> set rest. t \<le> fst i)"
  using handle_timeout_eq [OF assms(1-4,6)] register_behind_head [OF assms(5)] assms(1,2)
  by (auto simp: gea_inv_def)

theorem timeout_removes_fired_event_witness:
  "\<exists>s'. handle_timeout (demo_env (\<lambda>e. [CallWaitFor 0 (AbsTime 150) 3 5])) demo_gea = Inr s'
    \<and> map fst (eventList s') = [AbsTime 150, AbsTime 200]"
proof -
  let ?env = "demo_env (\<lambda>e. [CallWaitFor 0 (AbsTime 150) 3 5])"
  obtain hp where hp: "set_status 0 Timeout (heap demo_gea) = Inr hp" "handles hp 0 \<noteq> None"
    by (simp add: demo_gea_def demo_heap_eq access_defs)
  then obtain s' where s': "handle_timeout ?env demo_gea = Inr s'"
    by (auto simp: demo_gea_def demo_env_def handle_timeout_def call_event_def waitFor_def access_defs
      less_AbsTime_def)
  moreover have "eventList demo_gea = (AbsTime 100, \<lparr>ed_h = 0, ed_data = 5, ed_e = 3\<rparr>) #
      [(AbsTime 200, \<lparr>ed_h = 2, ed_data = 6, ed_e = 4\<rparr>)]" by (simp add: demo_gea_def)
  moreover have "no_earlier (AbsTime 100) [CallWaitFor 0 (AbsTime 150) 3 5]"
    by (simp add: no_earlier_def less_eq_AbsTime_def)
  ultimately have "eventList s' = register [CallWaitFor 0 (AbsTime 150) 3 5]
      [(AbsTime 200, \<lparr>ed_h = 2, ed_data = 6, ed_e = 4\<rparr>)]"
    using timeout_removes_fired_event [OF demo_inv, of "AbsTime 100"
        "\<lparr>ed_h = 0, ed_data = 5, ed_e = 3\<rparr>" _ hp ?env "()" "[CallWaitFor 0 (AbsTime 150) 3 5]" s'] hp
    by (simp add: demo_env_def)
  with s' show ?thesis by (simp add: less_AbsTime_def)
qed

text \<open>C29. If the callback of a timed-out event registers an event with an earlier deadline, the loop
  erases that new event and keeps the one it has just called, which will be called again.\<close>

theorem timeout_erases_wrong_event:
  assumes "gea_inv s" "eventList s = (t, ed) # rest" "set_status (ed_h ed) Timeout (heap s) = Inr hp"
    and "callback env (ed_e ed) (ed_h ed) t (ed_data ed) hp (app s) = (a, [CallWaitFor h t' e d])"
    and "t' < t" and "handle_timeout env s = Inr s'"
  shows "eventList s' = eventList s"
  using handle_timeout_eq [OF assms(1-4,6)] assms(2,5) by simp

theorem timeout_erases_wrong_event_witness:
  "\<exists>s'. handle_timeout (demo_env (\<lambda>e. [CallWaitFor 0 (AbsTime 50) 3 5])) demo_gea = Inr s'
    \<and> eventList s' = eventList demo_gea"
proof -
  let ?env = "demo_env (\<lambda>e. [CallWaitFor 0 (AbsTime 50) 3 5])"
  obtain hp where hp: "set_status 0 Timeout (heap demo_gea) = Inr hp" "handles hp 0 \<noteq> None"
    by (simp add: demo_gea_def demo_heap_eq access_defs)
  then obtain s' where s': "handle_timeout ?env demo_gea = Inr s'"
    by (auto simp: demo_gea_def demo_env_def handle_timeout_def call_event_def waitFor_def access_defs
      less_AbsTime_def)
  moreover have "eventList demo_gea = (AbsTime 100, \<lparr>ed_h = 0, ed_data = 5, ed_e = 3\<rparr>) #
      [(AbsTime 200, \<lparr>ed_h = 2, ed_data = 6, ed_e = 4\<rparr>)]" by (simp add: demo_gea_def)
  ultimately have "eventList s' = eventList demo_gea"
    using timeout_erases_wrong_event [OF demo_inv, of "AbsTime 100"
        "\<lparr>ed_h = 0, ed_data = 5, ed_e = 3\<rparr>" _ hp ?env "()" 0 "AbsTime 50" 3 5 s'] hp
    by (simp add: demo_env_def less_AbsTime_def)
  with s' show ?thesis by simp
qed

text \<open>The sets handed to \<^verbatim>\<open>select\<close> hold exactly the descriptors that some waiting event waits
  for, each in the set of its mode, and \<^verbatim>\<open>max_fd\<close> is the greatest of them, or 0.\<close>

theorem fill_fd_sets_exact:
  assumes "gea_inv s"
  shows "\<exists>sets max_fd. fill_fd_sets (heap s) (eventList s) = Inr (sets, max_fd)
    \<and> (\<forall>m fd. fd \<in> sets m \<longleftrightarrow> (\<exists>i \<in> set (eventList s). waits_on (heap s) (snd i) = Some (fd, m)))
    \<and> max_fd = Max (insert 0 (\<Union>m. sets m))"
proof -
  obtain sets max_fd where r: "fill_fd_sets (heap s) (eventList s) = Inr (sets, max_fd)"
    using fill_fd_sets_total [of "heap s" "eventList s" "(\<lambda>_. {}, 0)"] assms
    by (auto simp: fill_fd_sets_def gea_inv_def live_event_def)
  note res = fill_fd_sets_result [OF r [unfolded fill_fd_sets_def]]
  then have "(\<Union>m. sets m) = {fd. \<exists>i \<in> set (eventList s). \<exists>m. waits_on (heap s) (snd i) = Some (fd, m)}"
    by auto
  with r res show ?thesis by auto
qed

definition demo_io :: "unit gea" where
  "demo_io = \<lparr>heap = fst (projr (new_UnixFdHandle 7 PosixModeRead empty_heap)),
     eventList = [(AbsTime 100, \<lparr>ed_h = 0, ed_data = 5, ed_e = 3\<rparr>)],
     lastEventTime = AbsTime 0, nowReads = 0, selCalls = 0, app = ()\<rparr>"

lemma demo_io_inv: "gea_inv demo_io"
  using wf_new_UnixFdHandle [OF wf_empty_heap new_UnixFdHandle_eq, of 7 PosixModeRead]
  by (simp add: gea_inv_def demo_io_def live_event_def new_UnixFdHandle_eq) (simp add: empty_heap_def)

theorem fill_fd_sets_exact_witness:
  "\<exists>sets max_fd. fill_fd_sets (heap demo_io) (eventList demo_io) = Inr (sets, max_fd) \<and> 7 \<in> sets PosixModeRead"
proof -
  have "waits_on (heap demo_io) \<lparr>ed_h = 0, ed_data = 5, ed_e = 3\<rparr> = Some (7, PosixModeRead)"
    by (simp add: demo_io_def new_UnixFdHandle_eq empty_heap_def waits_on_def unixHandle_def access_defs isUnixFdHandle_def)
  then show ?thesis
    using fill_fd_sets_exact [OF demo_io_inv] by (auto simp: demo_io_def)
qed

text \<open>C27. After \<^verbatim>\<open>select\<close> reported descriptors, exactly the events waiting for one of them in its
  mode are called, once each, in the order of their deadlines, with their handles marked ready and
  the clock read at collection as their time; all other events keep waiting.\<close>

theorem io_calls_ready_events:
  fixes s :: "'a gea" and ready :: fd_sets
  assumes "gea_inv s"
  defines "active \<equiv> \<lambda>i. \<exists>fd m. waits_on (heap s) (snd i) = Some (fd, m) \<and> fd \<in> ready m"
  shows "\<exists>s1 elist. handle_io env ready s = foldE (callECList env) elist s1
    \<and> map call_of elist = map (\<lambda>i. descr_of (snd i)) (filter active (eventList s))
    \<and> map ec_t elist = map (clk env) [nowReads s ..< nowReads s + length elist]
    \<and> eventList s1 = filter (\<lambda>i. \<not> active i) (eventList s)
    \<and> (\<forall>i \<in> set (eventList s). active i \<longrightarrow>
        map_option status (handles (heap s1) (ed_h (snd i))) = Some (Some Ready))"
proof -
  have act: "activeFd ready (heap s) (snd i) = Inr True \<longleftrightarrow> active i" if "i \<in> set (eventList s)" for i
    unfolding active_def using assms(1) that
    by (intro activeFd_waits_on) (auto simp: gea_inv_def live_event_def)
  then have flt: "filter (\<lambda>i. activeFd ready (heap s) (snd i) = Inr True) (eventList s) = filter active (eventList s)"
      "filter (\<lambda>i. activeFd ready (heap s) (snd i) \<noteq> Inr True) (eventList s) = filter (\<lambda>i. \<not> active i) (eventList s)"
    by (auto intro: filter_cong)
  obtain acc where acc: "remove_if (activeFdHandlePred env ready) (eventList s) (s, []) =
      Inr (filter (\<lambda>i. \<not> active i) (eventList s),
           (\<exists>i \<in> set (eventList s). activeFd ready (heap s) (snd i) = Inr True), acc)"
    and col: "collected env s (map snd (filter active (eventList s))) acc"
    using fd_test.remove_if_pass [OF assms(1), of env ready] unfolding flt by blast
  let ?s1 = "(fst acc)\<lparr>eventList := filter (\<lambda>i. \<not> active i) (eventList s)\<rparr>"
  have "handle_io env ready s = foldE (callECList env) (snd acc) ?s1"
    using acc by (simp add: handle_io_def split_beta)
  moreover have calls: "map call_of (snd acc) = map descr_of (map snd (filter active (eventList s)))"
    and times: "map ec_t (snd acc) = map (clk env) [nowReads s ..< nowReads s + length (filter active (eventList s))]"
    and hp: "handles (heap (fst acc)) = mark_ready (ed_h ` set (map snd (filter active (eventList s)))) (handles (heap s))"
    using col by (simp_all add: collected_def)
  moreover have "length (snd acc) = length (filter active (eventList s))"
    using arg_cong [OF calls, of length] by simp
  moreover have "map_option status (handles (heap ?s1) (ed_h (snd i))) = Some (Some Ready)"
    if i: "i \<in> set (eventList s)" "active i" for i
  proof -
    have "ed_h (snd i) \<in> ed_h ` set (map snd (filter active (eventList s)))" using i by auto
    moreover obtain x where "handles (heap s) (ed_h (snd i)) = Some x"
      using assms(1) i(1) by (auto simp: gea_inv_def live_event_def)
    ultimately show ?thesis using hp by (simp add: mark_ready_def)
  qed
  ultimately show ?thesis
    by (intro exI [of _ ?s1] exI [of _ "snd acc"] conjI) simp_all
qed

theorem io_calls_ready_events_witness:
  "\<exists>s1 elist. handle_io (demo_env (\<lambda>_. [])) (\<lambda>m. {7}) demo_io = foldE (callECList (demo_env (\<lambda>_. []))) elist s1
    \<and> map call_of elist = [(0, 3, 5)] \<and> eventList s1 = []"
proof -
  have "waits_on (heap demo_io) \<lparr>ed_h = 0, ed_data = 5, ed_e = 3\<rparr> = Some (7, PosixModeRead)"
    by (simp add: demo_io_def new_UnixFdHandle_eq empty_heap_def waits_on_def unixHandle_def access_defs isUnixFdHandle_def)
  then have "filter (\<lambda>i. \<exists>fd m. waits_on (heap demo_io) (snd i) = Some (fd, m) \<and> fd \<in> {7}) (eventList demo_io) =
      eventList demo_io" "eventList demo_io = [(AbsTime 100, \<lparr>ed_h = 0, ed_data = 5, ed_e = 3\<rparr>)]"
    "filter (\<lambda>i. \<not> (\<exists>fd m. waits_on (heap demo_io) (snd i) = Some (fd, m) \<and> fd \<in> {7})) (eventList demo_io) = []"
    by (simp_all add: demo_io_def)
  moreover obtain s1 elist where
    "handle_io (demo_env (\<lambda>_. [])) (\<lambda>m. {7}) demo_io = foldE (callECList (demo_env (\<lambda>_. []))) elist s1"
    "map call_of elist = map (\<lambda>i. descr_of (snd i)) (filter (\<lambda>i. \<exists>fd m. waits_on (heap demo_io) (snd i) = Some (fd, m) \<and> fd \<in> {7})
      (eventList demo_io))"
    "eventList s1 = filter (\<lambda>i. \<not> (\<exists>fd m. waits_on (heap demo_io) (snd i) = Some (fd, m) \<and> fd \<in> {7})) (eventList demo_io)"
    using io_calls_ready_events [OF demo_io_inv, of "demo_env (\<lambda>_. [])" "\<lambda>m. {7}"] by blast
  ultimately show ?thesis
    by (intro exI [of _ s1] exI [of _ elist] conjI) simp_all
qed

text \<open>The loop over triggered dependencies ends when callbacks do not trigger dependencies
  themselves: as many rounds as there are triggered dependencies, and one more, are enough.\<close>

theorem depend_loop_terminates:
  assumes "callbacks_ok env" "never_complies env" "gea_inv s" "finite (pending_triggers (heap s))"
    and "card (pending_triggers (heap s)) < n"
  shows "\<exists>s'. handle_depends env n s = Inr s' \<and> gea_inv s'
    \<and> (\<forall>i \<in> set (eventList s'). activeDep (heap s') (snd i) = Inr False)"
proof -
  have idle: "handle_depends env n s = Inr s' \<Longrightarrow> gea_inv s \<Longrightarrow> \<not> (\<exists>i \<in> set (eventList s'). dep_active s' i)" for s'
  proof (induction n arbitrary: s)
    case (Suc n)
    show ?case
    proof (cases "\<exists>i \<in> set (eventList s). dep_active s i")
      case True
      obtain acc s3 s4 where "gea_inv s4" "handle_depends env (Suc n) s = handle_depends env n s4"
        by (rule depends_round [OF assms(1) Suc.prems(2) True, of n]) blast
      then show ?thesis using Suc by metis
    next
      case False
      then show ?thesis using depends_idle [OF Suc.prems(2) False, of env n] Suc.prems(1) by simp
    qed
  qed simp
  obtain s' where s': "handle_depends env n s = Inr s'" using handle_depends_terminates [OF assms] by blast
  then have inv: "gea_inv s'" using handle_depends_no_crash [OF assms(1,3), of n] by (simp add: no_crash_Inr)
  have "activeDep (heap s') (snd i) = Inr False" if "i \<in> set (eventList s')" for i
    using activeDep_total [of "heap s'" "snd i"] idle [OF s' assms(3)] inv that
    by (auto simp: gea_inv_def live_event_def)
  with s' inv show ?thesis by blast
qed

definition demo_triggered :: "unit gea" where
  "demo_triggered = demo_gea\<lparr>heap := projr (complied 2 demo_heap)\<rparr>"

lemma demo_complied:
  "complied 2 demo_heap = Inr \<lparr>handles = [0 \<mapsto> demo_blocker, Suc 0 \<mapsto> demo_blocker, 2 \<mapsto> demo_depend (Some Ready)],
     depends = [3 \<mapsto> \<lparr>master = 2, triggered = True\<rparr>], next_addr = 4\<rparr>"
  by (simp add: complied_def demo_heap_eq access_defs)

lemma demo_triggered_inv: "gea_inv demo_triggered"
  using gea_inv_heap [OF demo_inv, of demo_triggered] complied_shape [OF demo_complied]
  by (simp add: demo_triggered_def demo_complied demo_gea_def)

theorem depend_loop_terminates_witness:
  "\<exists>s'. handle_depends (demo_env (\<lambda>_. [])) 2 demo_triggered = Inr s' \<and> gea_inv s'"
proof -
  have "callbacks_ok (demo_env (\<lambda>_. []))" "never_complies (demo_env (\<lambda>_. []))"
    by (simp_all add: callbacks_ok_def never_complies_def demo_env_def)
  moreover have "pending_triggers (heap demo_triggered) = {3}"
    by (auto simp: demo_triggered_def demo_complied pending_triggers_def split: if_splits)
  ultimately show ?thesis
    using depend_loop_terminates [of "demo_env (\<lambda>_. [])" demo_triggered 2] demo_triggered_inv by auto
qed

text \<open>A trigger that a callback sets on a handle dispatched in the same round is lost: after
  the round no dispatched handle is triggered, whatever the callbacks did, and an event that waits
  on it is not called.\<close>

theorem trigger_during_round_lost:
  assumes "foldE resetDepTrigger ecs s = Inr s'" "ec \<in> set ecs"
    and "handles (heap s) (ec_h ec) = Some x" "subDepend x = Some d"
    and "wf_heap (heap s)" "depends (heap s) d = Some sd" "triggered sd" "ed_h ed = ec_h ec"
  shows "activeDep (heap s') ed = Inr False"
proof -
  have sh: "shape (heap s') = shape (heap s)"
    using foldE_invariant [where P = "\<lambda>s1. shape (heap s1) = shape (heap s)", OF assms(1)]
      resetDepTrigger_shape by (metis)
  have "d \<notin> pending_triggers (heap s')" by (rule resetDepTriggers_clears [OF assms(1-4)])
  moreover obtain sd' where "depends (heap s') d = Some sd'"
    using shape_eqD(2) [OF sh, of d] assms(6) by auto
  moreover obtain x' where "handles (heap s') (ec_h ec) = Some x'" "subDepend x' = Some d"
      "shadowHandle x' = shadowHandle x"
    using shape_eqD(1) [OF sh, of "ec_h ec"] assms(3,4) by auto
  moreover have "\<exists>sh. get_shadow (ec_h ec) (heap s) = Inr sh"
    using wf_get_shadow [OF assms(5)] assms(3) by simp
  ultimately show ?thesis
    using assms(3,8) by (auto simp: activeDep_def access_defs pending_triggers_def)
qed

theorem trigger_during_round_lost_witness:
  "\<exists>s'. foldE resetDepTrigger [\<lparr>ec_t = AbsTime 1, ec_h = 2, ec_e = 4, ec_d = 6\<rparr>] demo_triggered = Inr s'
    \<and> activeDep (heap s') \<lparr>ed_h = 2, ed_data = 6, ed_e = 4\<rparr> = Inr False"
proof -
  let ?ec = "\<lparr>ec_t = AbsTime 1, ec_h = 2, ec_e = 4, ec_d = 6\<rparr>"
  obtain s' where s': "foldE resetDepTrigger [?ec] demo_triggered = Inr s'"
    by (simp add: resetDepTrigger_def demo_triggered_def demo_complied access_defs isDepend_def)
  have "wf_heap (heap demo_triggered)" using demo_triggered_inv by (simp add: gea_inv_def)
  then show ?thesis
    using s' trigger_during_round_lost [OF s', of ?ec _ 3 "\<lparr>master = 2, triggered = True\<rparr>"
        "\<lparr>ed_h = 2, ed_data = 6, ed_e = 4\<rparr>"]
    by (simp add: demo_triggered_def demo_complied)
qed

end
