(* ===== verification/Gea_PendList.thy ===== *)
theory Gea_PendList
  imports Gea_Handle
begin

text \<open>
  \<^verbatim>\<open>ShadowDepend::PendList\<close> (gea/include/gea/posix/ShadowDependHandle.h): a linked queue of events that
  wait to be called, with pointers to its first and last element.  The events are in a store of
  their own; the queue after an operation is related to a list.
\<close>

section \<open>Operations\<close>

record PendEvent =
  pe_next :: "addr option"
  pe_h :: addr
  pe_e :: nat
  pe_data :: nat
  pe_t :: AbsTime

record store =
  cells :: "addr \<rightharpoonup> PendEvent"
  fresh_cell :: addr

record PendList =
  first :: "addr option"
  last_ptr :: "addr option"

definition new_PendList :: PendList where
  "new_PendList = \<lparr>first = None, last_ptr = None\<rparr>"

definition isEmpty :: "PendList \<Rightarrow> bool" where
  "isEmpty pl \<longleftrightarrow> first pl = None"

definition set_next :: "addr option \<Rightarrow> addr option \<Rightarrow> store \<Rightarrow> store result" where
  "set_next p n st =
    bindE (derefE p) (\<lambda>a. bindE (derefE (cells st a)) (\<lambda>c. Inr (st\<lparr>cells := (cells st)(a \<mapsto> c\<lparr>pe_next := n\<rparr>)\<rparr>)))"

definition pl_append :: "addr \<Rightarrow> nat \<Rightarrow> nat \<Rightarrow> AbsTime \<Rightarrow> PendList \<Rightarrow> store \<Rightarrow> (PendList \<times> store) result" where
  "pl_append h e d t pl st =
    (let p = fresh_cell st;
         st1 = st\<lparr>cells := (cells st)(p \<mapsto> \<lparr>pe_next = None, pe_h = h, pe_e = e, pe_data = d, pe_t = t\<rparr>), fresh_cell := Suc p\<rparr>
     in if isEmpty pl then Inr (pl\<lparr>first := Some p, last_ptr := Some p\<rparr>, st1)
        else bindE (set_next (last_ptr pl) (Some p) st1) (\<lambda>st2. Inr (pl\<lparr>last_ptr := Some p\<rparr>, st2)))"

text \<open>\<^verbatim>\<open>this->moveTo(pl)\<close>: the lists \<open>this\<close> and \<open>pl\<close> afterwards.\<close>

definition pl_moveTo :: "PendList \<Rightarrow> PendList \<Rightarrow> store \<Rightarrow> (PendList \<times> PendList \<times> store) result" where
  "pl_moveTo this pl st =
    bindE (if isEmpty pl then Inr (pl\<lparr>first := first this\<rparr>, st)
           else bindE (set_next (last_ptr pl) (first this) st) (\<lambda>st1. Inr (pl, st1))) (\<lambda>(pl1, st1).
    Inr (new_PendList, pl1\<lparr>last_ptr := last_ptr this\<rparr>, st1))"

definition pl_pop :: "PendList \<Rightarrow> store \<Rightarrow> (addr option \<times> PendList) result" where
  "pl_pop pl st = (case first pl of
     None \<Rightarrow> Inr (None, pl)
   | Some a \<Rightarrow> bindE (derefE (cells st a)) (\<lambda>c. Inr (Some a, pl\<lparr>first := pe_next c\<rparr>)))"

section \<open>The queue as a list\<close>

fun path :: "(addr \<rightharpoonup> PendEvent) \<Rightarrow> addr option \<Rightarrow> addr list \<Rightarrow> addr option \<Rightarrow> bool" where
  "path m p [] q \<longleftrightarrow> p = q"
| "path m p (a # as) q \<longleftrightarrow> p = Some a \<and> (\<exists>c. m a = Some c \<and> path m (pe_next c) as q)"

text \<open>\<open>last_ptr\<close> is right while the queue has elements; when the last one is popped it is left behind.\<close>

definition queue_of :: "store \<Rightarrow> PendList \<Rightarrow> addr list \<Rightarrow> bool" where
  "queue_of st pl xs \<longleftrightarrow> path (cells st) (first pl) xs None \<and> distinct xs \<and> (\<forall>a \<in> set xs. a < fresh_cell st) \<and>
     (xs \<noteq> [] \<longrightarrow> last_ptr pl = Some (last xs))"

lemma path_append: "path m p (xs @ ys) q \<longleftrightarrow> (\<exists>r. path m p xs r \<and> path m r ys q)"
  by (induction xs arbitrary: p) auto

lemma path_other: "path m p xs q \<Longrightarrow> a \<notin> set xs \<Longrightarrow> path (m(a \<mapsto> c)) p xs q"
  by (induction xs arbitrary: p) auto

lemma path_member: "path m p xs q \<Longrightarrow> a \<in> set xs \<Longrightarrow> m a \<noteq> None"
  by (induction xs arbitrary: p) auto

text \<open>Redirecting the last pointer of a path.\<close>

lemma path_redirect:
  assumes "path m p (xs @ [a]) q" "a \<notin> set xs" "m a = Some c"
  shows "path (m(a \<mapsto> c\<lparr>pe_next := r\<rparr>)) p (xs @ [a]) r"
  using assms by (auto simp: path_append intro: path_other)

lemma queue_of_Nil: "queue_of st pl [] \<longleftrightarrow> first pl = None"
  by (auto simp: queue_of_def)

lemma queue_of_first: "queue_of st pl xs \<Longrightarrow> first pl = (case xs of [] \<Rightarrow> None | a # _ \<Rightarrow> Some a)"
  by (cases xs) (auto simp: queue_of_def)

lemma set_next_last:
  assumes "queue_of st pl xs" "xs \<noteq> []"
  obtains c where "set_next (last_ptr pl) n st = Inr (st\<lparr>cells := (cells st)(last xs \<mapsto> c\<lparr>pe_next := n\<rparr>)\<rparr>)"
    "cells st (last xs) = Some c" "path ((cells st)(last xs \<mapsto> c\<lparr>pe_next := n\<rparr>)) (first pl) xs n"
proof -
  have p: "path (cells st) (first pl) xs None" "last_ptr pl = Some (last xs)" "distinct xs"
    using assms by (simp_all add: queue_of_def)
  obtain ys where ys: "xs = ys @ [last xs]" using assms(2) append_butlast_last_id by metis
  obtain c where c: "cells st (last xs) = Some c" using path_member [OF p(1), of "last xs"] assms(2) by auto
  have "last xs \<notin> set ys" using p(3) by (subst (asm) ys) simp
  then have "path ((cells st)(last xs \<mapsto> c\<lparr>pe_next := n\<rparr>)) (first pl) (ys @ [last xs]) n"
    using p(1) c by (subst (asm) ys) (rule path_redirect)
  then show thesis using that [of c] c p(2) ys by (simp add: set_next_def)
qed

lemma pl_append_queue:
  assumes "queue_of st pl xs"
  shows "\<exists>pl' st'. pl_append h e d t pl st = Inr (pl', st') \<and> queue_of st' pl' (xs @ [fresh_cell st]) \<and>
    (\<forall>a \<in> set xs. \<forall>c. cells st a = Some c \<longrightarrow> (\<exists>n. cells st' a = Some (c\<lparr>pe_next := n\<rparr>)))"
proof -
  let ?p = "fresh_cell st"
  let ?c = "\<lparr>pe_next = None, pe_h = h, pe_e = e, pe_data = d, pe_t = t\<rparr>"
  let ?st1 = "st\<lparr>cells := (cells st)(?p \<mapsto> ?c), fresh_cell := Suc ?p\<rparr>"
  have n: "?p \<notin> set xs" using assms by (auto simp: queue_of_def)
  have q1: "queue_of ?st1 pl xs" using assms n by (auto simp: queue_of_def less_Suc_eq intro: path_other)
  show ?thesis
  proof (cases "xs = []")
    case True
    then show ?thesis using assms by (simp add: queue_of_Nil pl_append_def isEmpty_def Let_def) (simp add: queue_of_def)
  next
    case False
    then have e: "\<not> isEmpty pl" using queue_of_first [OF assms] by (auto simp: isEmpty_def split: list.splits)
    obtain c where c: "set_next (last_ptr pl) (Some ?p) ?st1 = Inr (?st1\<lparr>cells := (cells ?st1)(last xs \<mapsto> c\<lparr>pe_next := Some ?p\<rparr>)\<rparr>)"
      "cells ?st1 (last xs) = Some c" "path ((cells ?st1)(last xs \<mapsto> c\<lparr>pe_next := Some ?p\<rparr>)) (first pl) xs (Some ?p)"
      by (rule set_next_last [OF q1 False])
    let ?st2 = "?st1\<lparr>cells := (cells ?st1)(last xs \<mapsto> c\<lparr>pe_next := Some ?p\<rparr>)\<rparr>"
    have lp: "last xs \<noteq> ?p" using False n by (metis last_in_set)
    have "queue_of ?st2 (pl\<lparr>last_ptr := Some ?p\<rparr>) (xs @ [?p])"
      using q1 c(3) n lp by (auto simp: queue_of_def path_append)
    moreover have "\<forall>a \<in> set xs. \<forall>c. cells st a = Some c \<longrightarrow> (\<exists>n. cells ?st2 a = Some (c\<lparr>pe_next := n\<rparr>))"
      using c(2) n lp by auto (metis PendEvent.surjective PendEvent.update_convs(1))
    ultimately show ?thesis using e c(1) by (simp add: pl_append_def Let_def)
  qed
qed

lemma pl_pop_queue:
  "queue_of st pl (a # xs) \<Longrightarrow> \<exists>pl'. pl_pop pl st = Inr (Some a, pl') \<and> queue_of st pl' xs"
  by (auto simp: queue_of_def pl_pop_def split: if_splits)

lemma pl_moveTo_queue:
  assumes "queue_of st this xs" "queue_of st pl ys" "xs \<noteq> []" "set xs \<inter> set ys = {}"
  shows "\<exists>this' pl' st'. pl_moveTo this pl st = Inr (this', pl', st') \<and> queue_of st' this' [] \<and> queue_of st' pl' (ys @ xs)"
proof (cases "ys = []")
  case True
  then show ?thesis using assms by (auto simp: pl_moveTo_def isEmpty_def queue_of_Nil new_PendList_def) (auto simp: queue_of_def)
next
  case False
  then have e: "\<not> isEmpty pl" using queue_of_first [OF assms(2)] by (auto simp: isEmpty_def split: list.splits)
  obtain c where c: "set_next (last_ptr pl) (first this) st = Inr (st\<lparr>cells := (cells st)(last ys \<mapsto> c\<lparr>pe_next := first this\<rparr>)\<rparr>)"
    "path ((cells st)(last ys \<mapsto> c\<lparr>pe_next := first this\<rparr>)) (first pl) ys (first this)"
    by (rule set_next_last [OF assms(2) False])
  have "last ys \<notin> set xs" using False assms(4) by (metis disjoint_iff last_in_set)
  then have "path ((cells st)(last ys \<mapsto> c\<lparr>pe_next := first this\<rparr>)) (first this) xs None"
    using assms(1) by (auto simp: queue_of_def intro: path_other)
  then show ?thesis using e c assms by (auto simp: pl_moveTo_def queue_of_Nil new_PendList_def queue_of_def path_append)
qed

text \<open>The linked list of pending events is a first-in first-out queue: appending puts an event behind
  all others, popping takes the oldest, and moving a list that is not empty to another puts its events
  behind those of the other.\<close>

theorem pendlist_is_queue:
  assumes "queue_of st pl (a # xs)" "queue_of st other ys" "set (a # xs) \<inter> set ys = {}"
  shows "(\<exists>pl' st'. pl_append h e d t pl st = Inr (pl', st') \<and> queue_of st' pl' (a # xs @ [fresh_cell st])) \<and>
    (\<exists>pl'. pl_pop pl st = Inr (Some a, pl') \<and> queue_of st pl' xs) \<and>
    (\<exists>pl' other' st'. pl_moveTo pl other st = Inr (pl', other', st') \<and> queue_of st' pl' [] \<and> queue_of st' other' (ys @ a # xs))"
  using pl_append_queue [OF assms(1), of h e d t] pl_pop_queue [OF assms(1)] pl_moveTo_queue [OF assms(1,2) _ assms(3)] by auto

definition demo_cell :: "addr option \<Rightarrow> PendEvent" where
  "demo_cell n = \<lparr>pe_next = n, pe_h = 0, pe_e = 0, pe_data = 0, pe_t = AbsTime 0\<rparr>"

definition demo_store :: store where
  "demo_store = \<lparr>cells = [0 \<mapsto> demo_cell (Some 1), 1 \<mapsto> demo_cell None, 2 \<mapsto> demo_cell None], fresh_cell = 3\<rparr>"

lemma demo_queues:
  "queue_of demo_store \<lparr>first = Some 0, last_ptr = Some 1\<rparr> [0, 1]" "queue_of demo_store \<lparr>first = Some 2, last_ptr = Some 2\<rparr> [2]"
  by (simp_all add: queue_of_def demo_store_def demo_cell_def)

theorem pendlist_is_queue_witness:
  "\<exists>pl' other' st'. pl_moveTo \<lparr>first = Some 0, last_ptr = Some 1\<rparr> \<lparr>first = Some 2, last_ptr = Some 2\<rparr> demo_store = Inr (pl', other', st') \<and>
    queue_of st' other' [2, 0, 1]"
  using pendlist_is_queue [OF demo_queues, of 0 0 0 "AbsTime 0"] by auto

text \<open>Moving an empty list to one that is not empty destroys the latter's last pointer: the next append
  follows a null pointer.\<close>

theorem move_empty_breaks_append:
  assumes "queue_of st this []" "last_ptr this = None" "queue_of st pl (a # xs)"
  shows "\<exists>this' pl' st'. pl_moveTo this pl st = Inr (this', pl', st') \<and> pl_append h e d t pl' st' = Inl NullPointer"
proof -
  have f: "first this = None" "first pl = Some a" using assms by (auto simp: queue_of_def)
  obtain st1 where "set_next (last_ptr pl) None st = Inr st1" by (rule set_next_last [OF assms(3)]) auto
  then show ?thesis using f assms(2) by (simp add: pl_moveTo_def isEmpty_def pl_append_def Let_def set_next_def)
qed

theorem move_empty_breaks_append_witness:
  "\<exists>this' pl' st'. pl_moveTo new_PendList \<lparr>first = Some 2, last_ptr = Some 2\<rparr> demo_store = Inr (this', pl', st') \<and>
    pl_append 0 0 0 (AbsTime 0) pl' st' = Inl NullPointer"
  by (rule move_empty_breaks_append [OF _ _ demo_queues(2)]) (simp_all add: queue_of_Nil new_PendList_def)

end
