(* ===== verification/Gea_Udp.thy ===== *)
theory Gea_Udp
  imports Gea_Prelude
begin

text \<open>
  UDP addresses: \<^verbatim>\<open>gea::UdpAddress\<close> of \<^verbatim>\<open>src/gea/include/gea/UdpHandle.h\<close> and
  \<^verbatim>\<open>src/gea/src/UdpHandle.cc\<close>, shared by both implementations of the interface.
\<close>

record UdpAddress =
  ip :: u32
  port :: u16
  isBroadcast :: bool

definition IPADDR_ANY :: u32 where
  "IPADDR_ANY = 0"

definition IPADDR_BROADCAST :: u32 where
  "IPADDR_BROADCAST = 0xffffffff"

definition setIP :: "u32 \<Rightarrow> UdpAddress \<Rightarrow> UdpAddress" where
  "setIP i a = a\<lparr>ip := i, isBroadcast := (i = IPADDR_BROADCAST)\<rparr>"

definition setPort :: "u16 \<Rightarrow> UdpAddress \<Rightarrow> UdpAddress" where
  "setPort p a = a\<lparr>port := p\<rparr>"

definition new_UdpAddress :: "u32 \<Rightarrow> u16 \<Rightarrow> UdpAddress" where
  "new_UdpAddress i p = setPort p (setIP i \<lparr>ip = 0, port = 0, isBroadcast = False\<rparr>)"

text \<open>The flag is that of the address after every constructor and setter.\<close>

definition address_ok :: "UdpAddress \<Rightarrow> bool" where
  "address_ok a \<longleftrightarrow> (isBroadcast a \<longleftrightarrow> ip a = IPADDR_BROADCAST)"

lemma address_ok_new [simp]: "address_ok (new_UdpAddress i p)"
  and address_ok_setIP [simp]: "address_ok (setIP i a)"
  and address_ok_setPort [simp]: "address_ok (setPort p a) = address_ok a"
  by (simp_all add: address_ok_def new_UdpAddress_def setIP_def setPort_def)

lemma new_UdpAddress_simps [simp]: "ip (new_UdpAddress i p) = i" "port (new_UdpAddress i p) = p"
  by (simp_all add: new_UdpAddress_def setIP_def setPort_def)

end
