(* ===== verification/Gea_Socket.thy ===== *)
theory Gea_Socket
  imports Gea_Handle Gea_Udp
begin

text \<open>
  UDP handles of the POSIX implementation (gea/src/ShadowUdpHandle.cc): the socket calls they make, with
  the addresses in network byte order, and the source address they report.

  The kernel is a table from descriptors to sockets; a new socket gets the lowest free descriptor.
  Whether \<^verbatim>\<open>bind\<close> succeeds is a parameter, as is what \<^verbatim>\<open>sendto\<close> and \<^verbatim>\<open>recvfrom\<close> answer: a list of
  outcomes, of which an interrupted call uses up one.  The machine is little-endian.
\<close>

section \<open>Byte order\<close>

definition htons :: "u16 \<Rightarrow> u16" where
  "htons x = push_bit 8 x OR drop_bit 8 x"

definition htonl :: "u32 \<Rightarrow> u32" where
  "htonl x = push_bit 24 x OR push_bit 8 (x AND 0xFF00) OR drop_bit 8 (x AND 0xFF0000) OR drop_bit 24 x"

lemma htons_htons [simp]: "htons (htons x) = x"
  by (rule bit_word_eqI) (auto simp: htons_def bit_simps)

text \<open>A bit of the result is a bit of the argument, in the same place of the mirrored byte.\<close>

lemma bit_htonl: "n < 32 \<Longrightarrow> bit (htonl x) n = bit x (8 * (3 - n div 8) + n mod 8)"
proof -
  assume n: "n < 32"
  have hi: "\<not> bit x m" if "32 \<le> m" for m using that bit_imp_le_length [of x m] by auto
  have "\<forall>n \<in> set [0..<32]. bit (htonl x) n = bit x (8 * (3 - n div 8) + n mod 8)"
    by (simp add: htonl_def upt_rec bit_simps hi) (simp add: numeral_eq_Suc)
  then show ?thesis using n by simp
qed

lemma htonl_htonl [simp]: "htonl (htonl x) = x"
proof (rule bit_word_eqI)
  fix n assume "n < LENGTH(32)"
  then have n: "n < 32" by simp
  let ?m = "8 * (3 - n div 8) + n mod 8"
  have d: "n div 8 \<le> 3" using n by (simp add: less_mult_imp_div_less [of n 4 8, simplified])
  then have m: "?m < 32" "?m div 8 = 3 - n div 8" "?m mod 8 = n mod 8" by auto
  have "8 * (3 - ?m div 8) + ?m mod 8 = n" using d unfolding m(2,3) by simp
  then show "bit (htonl (htonl x)) n = bit x n" by (simp add: bit_htonl n m(1))
qed

section \<open>The kernel\<close>

record sockaddr_in =
  sin_addr :: u32
  sin_port :: u16

record sock =
  bound :: "sockaddr_in option"
  so_broadcast :: bool
  so_reuse :: bool

record datagram =
  dg_fd :: nat
  dg_dest :: sockaddr_in
  dg_data :: "byte list"

record kernel =
  files :: "nat \<rightharpoonup> sock"
  fd_limit :: nat
  sent :: "datagram list"

definition new_sock :: sock where
  "new_sock = \<lparr>bound = None, so_broadcast = False, so_reuse = False\<rparr>"

definition sys_socket :: "kernel \<Rightarrow> nat option \<times> kernel" where
  "sys_socket k = (case List.find (\<lambda>fd. files k fd = None) [0..<fd_limit k] of
     None \<Rightarrow> (None, k)
   | Some fd \<Rightarrow> (Some fd, k\<lparr>files := (files k)(fd \<mapsto> new_sock)\<rparr>))"

definition sys_close :: "nat \<Rightarrow> kernel \<Rightarrow> kernel" where
  "sys_close fd k = k\<lparr>files := (files k)(fd := None)\<rparr>"

text \<open>\<^verbatim>\<open>dup2(old, new)\<close>: the descriptor \<open>new\<close> becomes one for the socket of \<open>old\<close>; the two are not used at
  the same time afterwards, so the socket is copied.  With a bad \<open>old\<close> nothing happens.\<close>

definition sys_dup2 :: "nat \<Rightarrow> nat \<Rightarrow> kernel \<Rightarrow> kernel" where
  "sys_dup2 old new k = (case files k old of None \<Rightarrow> k | Some s \<Rightarrow> k\<lparr>files := (files k)(new \<mapsto> s)\<rparr>)"

definition upd_sock :: "nat \<Rightarrow> (sock \<Rightarrow> sock) \<Rightarrow> kernel \<Rightarrow> kernel" where
  "upd_sock fd f k = (case files k fd of None \<Rightarrow> k | Some s \<Rightarrow> k\<lparr>files := (files k)(fd \<mapsto> f s)\<rparr>)"

definition sys_bind :: "(sock \<Rightarrow> sockaddr_in \<Rightarrow> bool) \<Rightarrow> nat \<Rightarrow> sockaddr_in \<Rightarrow> kernel \<Rightarrow> int \<times> kernel" where
  "sys_bind can_bind fd sa k = (case files k fd of
     None \<Rightarrow> (- 1, k)
   | Some s \<Rightarrow> if can_bind s sa then (0, upd_sock fd (\<lambda>s. s\<lparr>bound := Some sa\<rparr>) k) else (- 1, k))"

section \<open>The handle\<close>

record ShadowUdp =
  su_fd :: nat
  su_mode :: PosixHandleMode
  su_addr :: UdpAddress
  su_src :: UdpAddress
  already_bound :: bool

definition to_sockaddr :: "UdpAddress \<Rightarrow> sockaddr_in" where
  "to_sockaddr a = \<lparr>sin_addr = htonl (ip a), sin_port = htons (port a)\<rparr>"

definition su_setDest :: "UdpAddress \<Rightarrow> ShadowUdp \<Rightarrow> kernel \<Rightarrow> ShadowUdp \<times> kernel" where
  "su_setDest dest_addr h k =
    (h\<lparr>su_addr := dest_addr\<rparr>,
     if isBroadcast dest_addr then upd_sock (su_fd h) (\<lambda>s. s\<lparr>so_broadcast := True\<rparr>) k else k)"

definition su_getDest :: "ShadowUdp \<Rightarrow> UdpAddress" where
  "su_getDest h = su_addr h"

definition su_getSrc :: "ShadowUdp \<Rightarrow> UdpAddress" where
  "su_getSrc h = su_src h"

text \<open>\<^verbatim>\<open>setSrc\<close>: the result of \<^verbatim>\<open>bind\<close>.  A handle that is bound already first gets a new socket under its
  old descriptor; the result of \<^verbatim>\<open>socket\<close> is not checked.\<close>

definition renew_socket :: "nat \<Rightarrow> kernel \<Rightarrow> kernel" where
  "renew_socket fd k = (case sys_socket k of
     (None, k1) \<Rightarrow> k1
   | (Some new_socket, k1) \<Rightarrow> sys_close new_socket (sys_dup2 new_socket fd k1))"

definition su_setSrc ::
  "(sock \<Rightarrow> sockaddr_in \<Rightarrow> bool) \<Rightarrow> UdpAddress \<Rightarrow> ShadowUdp \<Rightarrow> kernel \<Rightarrow> int \<times> ShadowUdp \<times> kernel" where
  "su_setSrc can_bind src_addr h k =
    (let k1 = (if already_bound h then renew_socket (su_fd h) k else k);
         k2 = upd_sock (su_fd h) (\<lambda>s. s\<lparr>so_reuse := True\<rparr>) k1;
         (ret, k3) = sys_bind can_bind (su_fd h) (to_sockaddr src_addr) k2
     in (ret, h\<lparr>su_src := src_addr, already_bound := True\<rparr>, k3))"

text \<open>The constructor: the descriptor must be there, and the result of \<^verbatim>\<open>setSrc\<close> is not looked at.\<close>

definition new_ShadowUdp ::
  "(sock \<Rightarrow> sockaddr_in \<Rightarrow> bool) \<Rightarrow> PosixHandleMode \<Rightarrow> UdpAddress \<Rightarrow> kernel \<Rightarrow> (ShadowUdp \<times> kernel) result" where
  "new_ShadowUdp can_bind mode addr k = (case sys_socket k of
     (None, k1) \<Rightarrow> Inl (AssertFailed ''udp_socket >= 0'')
   | (Some udp_socket, k1) \<Rightarrow>
     (let h = \<lparr>su_fd = udp_socket, su_mode = mode, su_addr = addr, su_src = new_UdpAddress IPADDR_ANY 0, already_bound = False\<rparr>;
          (h1, k2) = su_setDest addr h k1
      in if mode = PosixModeRead then Inr (snd (su_setSrc can_bind addr h1 k2)) else Inr (h1, k2)))"

definition delete_ShadowUdp :: "ShadowUdp \<Rightarrow> kernel \<Rightarrow> kernel" where
  "delete_ShadowUdp h k = (if su_fd h > 0 then sys_close (su_fd h) k else k)"

text \<open>The loops around \<^verbatim>\<open>sendto\<close> and \<^verbatim>\<open>recvfrom\<close>.  \<open>None\<close> is that the call has not come back yet.\<close>

datatype 'a outcome = Interrupted | Failed | Done 'a

fun retry :: "'a outcome list \<Rightarrow> 'a option option" where
  "retry [] = None"
| "retry (Interrupted # os) = retry os"
| "retry (Failed # os) = Some None"
| "retry (Done x # os) = Some (Some x)"

definition su_write :: "byte list \<Rightarrow> nat outcome list \<Rightarrow> ShadowUdp \<Rightarrow> kernel \<Rightarrow> (int \<times> kernel) result option" where
  "su_write buf os h k =
    (if su_mode h \<noteq> PosixModeWrite then Some (Inl (AssertFailed ''unixMode == PosixModeWrite''))
     else (case retry os of
         None \<Rightarrow> None
       | Some None \<Rightarrow> Some (Inr (- 1, k))
       | Some (Some n) \<Rightarrow> Some (Inr (int n,
           k\<lparr>sent := sent k @ [\<lparr>dg_fd = su_fd h, dg_dest = to_sockaddr (su_addr h), dg_data = take n buf\<rparr>]\<rparr>))))"

text \<open>\<open>junk\<close> is what the address on the stack holds when \<^verbatim>\<open>recvfrom\<close> has not filled it.\<close>

definition su_read ::
  "sockaddr_in \<Rightarrow> nat \<Rightarrow> (sockaddr_in \<times> byte list) outcome list \<Rightarrow> ShadowUdp \<Rightarrow> (int \<times> byte list \<times> ShadowUdp) result option" where
  "su_read junk sz os h =
    (if su_mode h \<noteq> PosixModeRead then Some (Inl (AssertFailed ''unixMode == PosixModeRead''))
     else (case retry os of
         None \<Rightarrow> None
       | Some r \<Rightarrow>
         (let (ret, bs, sa) = (case r of None \<Rightarrow> (- 1, [], junk) | Some (sa, bs) \<Rightarrow> (int (length (take sz bs)), take sz bs, sa));
              src = setPort (htons (sin_port sa)) (setIP (htonl (sin_addr sa)) (su_src h))
          in Some (Inr (ret, bs, h\<lparr>su_src := src\<rparr>)))))"

section \<open>Sockets of handles\<close>

lemma sys_socket_ok:
  "sys_socket k = (Some fd, k1) \<Longrightarrow> files k fd = None \<and> k1 = k\<lparr>files := (files k)(fd \<mapsto> new_sock)\<rparr>"
  by (auto simp: sys_socket_def find_Some_iff split: option.splits)

lemma upd_sock_files: "files (upd_sock fd f k) g = (if g = fd then map_option f (files k fd) else files k g)"
  by (simp add: upd_sock_def split: option.splits)

lemma sys_bind_ok:
  "files k fd = Some s \<Longrightarrow> can_bind s sa \<Longrightarrow> sys_bind can_bind fd sa k = (0, upd_sock fd (\<lambda>s. s\<lparr>bound := Some sa\<rparr>) k)"
  by (simp add: sys_bind_def)

lemma renew_socket_files:
  assumes "sys_socket k = (Some n, k1)" "files k fd = Some s"
  shows "files (renew_socket fd k) g = (if g = fd then Some new_sock else files k g)"
  using sys_socket_ok [OF assms(1)] assms by (auto simp: renew_socket_def sys_close_def sys_dup2_def)

text \<open>A handle for receiving gets a descriptor that was free; its socket is bound to the address in
  network byte order, may share the address, and may receive broadcasts exactly if the address is the
  broadcast address; no other descriptor is touched.\<close>

theorem udp_receiver_bound:
  assumes "sys_socket k = (Some fd, k1)" "\<forall>s. can_bind s (to_sockaddr a)"
  shows "\<exists>h k'. new_ShadowUdp can_bind PosixModeRead a k = Inr (h, k') \<and> su_fd h = fd \<and> files k fd = None \<and>
    files k' fd = Some \<lparr>bound = Some (to_sockaddr a), so_broadcast = isBroadcast a, so_reuse = True\<rparr> \<and>
    (\<forall>g. g \<noteq> fd \<longrightarrow> files k' g = files k g) \<and> su_getSrc h = a \<and> su_getDest h = a"
proof -
  note k1 = sys_socket_ok [OF assms(1)]
  define k2 where "k2 = (if isBroadcast a then upd_sock fd (\<lambda>s. s\<lparr>so_broadcast := True\<rparr>) k1 else k1)"
  let ?k3 = "upd_sock fd (\<lambda>s. s\<lparr>so_reuse := True\<rparr>) k2" and ?f = "\<lambda>s. s\<lparr>bound := Some (to_sockaddr a)\<rparr>"
  let ?h = "\<lparr>su_fd = fd, su_mode = PosixModeRead, su_addr = a, su_src = a, already_bound = True\<rparr>"
  have "files ?k3 fd \<noteq> None" using k1 by (simp add: k2_def upd_sock_files)
  then have b: "sys_bind can_bind fd (to_sockaddr a) ?k3 = (0, upd_sock fd ?f ?k3)"
    using assms(2) by (auto intro: sys_bind_ok)
  have n: "new_ShadowUdp can_bind PosixModeRead a k = Inr (?h, upd_sock fd ?f ?k3)"
    using b by (cases "isBroadcast a") (simp_all add: new_ShadowUdp_def assms(1) su_setDest_def su_setSrc_def Let_def k2_def)
  have "files (upd_sock fd ?f ?k3) fd = Some \<lparr>bound = Some (to_sockaddr a), so_broadcast = isBroadcast a, so_reuse = True\<rparr>"
    "\<forall>g. g \<noteq> fd \<longrightarrow> files (upd_sock fd ?f ?k3) g = files k g"
    using k1 by (simp_all add: k2_def upd_sock_files new_sock_def)
  then show ?thesis using n k1 by (intro exI [of _ ?h] exI [of _ "upd_sock fd ?f ?k3"]) (simp add: su_getSrc_def su_getDest_def)
qed

definition demo_kernel :: kernel where
  "demo_kernel = \<lparr>files = [0 \<mapsto> new_sock, 1 \<mapsto> new_sock], fd_limit = 4, sent = []\<rparr>"

lemma demo_socket: "sys_socket demo_kernel = (Some 2, demo_kernel\<lparr>files := (files demo_kernel)(2 \<mapsto> new_sock)\<rparr>)"
  by (simp add: sys_socket_def demo_kernel_def upt_rec numeral_2_eq_2)

theorem udp_receiver_bound_witness:
  "\<exists>h k'. new_ShadowUdp (\<lambda>s sa. True) PosixModeRead (new_UdpAddress IPADDR_BROADCAST 698) demo_kernel = Inr (h, k') \<and> su_fd h = 2 \<and>
    files k' 2 = Some \<lparr>bound = Some (to_sockaddr (new_UdpAddress IPADDR_BROADCAST 698)), so_broadcast = True, so_reuse = True\<rparr>"
  using udp_receiver_bound [OF demo_socket, of "\<lambda>s sa. True" "new_UdpAddress IPADDR_BROADCAST 698"]
  by (auto simp: new_UdpAddress_def setIP_def setPort_def)

text \<open>Binding a handle a second time gives it a new socket without the options of the old one: after
  \<^verbatim>\<open>setSrc\<close> a handle whose destination is the broadcast address can no longer send to it, although
  its destination is unchanged.  The descriptor stays the same and none is lost.\<close>

theorem udp_rebind_loses_broadcast:
  assumes "already_bound h" "files k (su_fd h) = Some s" "sys_socket k = (Some n, k1)" "\<forall>s. can_bind s (to_sockaddr a)"
  shows "\<exists>h' k'. su_setSrc can_bind a h k = (0, h', k') \<and> su_fd h' = su_fd h \<and> su_getDest h' = su_getDest h \<and>
    files k' (su_fd h) = Some \<lparr>bound = Some (to_sockaddr a), so_broadcast = False, so_reuse = True\<rparr> \<and>
    (\<forall>g. g \<noteq> su_fd h \<longrightarrow> files k' g = files k g)"
proof -
  note r = renew_socket_files [OF assms(3,2)]
  let ?k2 = "upd_sock (su_fd h) (\<lambda>s. s\<lparr>so_reuse := True\<rparr>) (renew_socket (su_fd h) k)"
  have "files ?k2 (su_fd h) = Some \<lparr>bound = None, so_broadcast = False, so_reuse = True\<rparr>"
    by (simp add: upd_sock_files r new_sock_def)
  moreover from this have "sys_bind can_bind (su_fd h) (to_sockaddr a) ?k2 =
      (0, upd_sock (su_fd h) (\<lambda>s. s\<lparr>bound := Some (to_sockaddr a)\<rparr>) ?k2)"
    using assms(4) by (intro sys_bind_ok) auto
  ultimately show ?thesis
    using assms(1) by (simp add: su_setSrc_def Let_def su_getDest_def) (simp add: upd_sock_files r)
qed

definition demo_udp :: ShadowUdp where
  "demo_udp = \<lparr>su_fd = 1, su_mode = PosixModeWrite, su_addr = new_UdpAddress IPADDR_BROADCAST 698,
     su_src = new_UdpAddress 0x0A000007 698, already_bound = True\<rparr>"

theorem udp_rebind_loses_broadcast_witness:
  "\<exists>h' k' s. su_setSrc (\<lambda>s sa. True) (new_UdpAddress 0x0A000007 699) demo_udp demo_kernel = (0, h', k') \<and>
    isBroadcast (su_getDest h') \<and> files k' 1 = Some s \<and> \<not> so_broadcast s"
  using udp_rebind_loses_broadcast [OF _ _ demo_socket, of demo_udp new_sock "\<lambda>s sa. True" "new_UdpAddress 0x0A000007 699"]
  by (auto simp: demo_udp_def demo_kernel_def su_getDest_def new_UdpAddress_def setIP_def setPort_def)

text \<open>What one handle sends arrives at another as it was sent, interrupted calls included: the data are
  the same, and the source address that the receiver reports is the one the sender is bound to, in the
  byte order of the host.\<close>

theorem udp_source_roundtrip:
  assumes "su_mode hs = PosixModeWrite" "su_mode hr = PosixModeRead" "address_ok a" "files k (su_fd hs) = Some s"
    and "bound s = Some (to_sockaddr a)" "retry os = Some (Some (length buf))" "length buf \<le> sz"
  shows "\<exists>k' dg hr'. su_write buf os hs k = Some (Inr (int (length buf), k')) \<and> sent k' = sent k @ [dg] \<and>
    dg_dest dg = to_sockaddr (su_getDest hs) \<and> files k' (dg_fd dg) = Some s \<and>
    su_read junk sz [Interrupted, Done (to_sockaddr a, dg_data dg)] hr = Some (Inr (int (length buf), buf, hr')) \<and>
    su_getSrc hr' = a"
  using assms
  by (auto simp: su_write_def su_read_def su_getDest_def su_getSrc_def to_sockaddr_def setIP_def setPort_def address_ok_def)

theorem udp_source_roundtrip_witness:
  "\<exists>k' dg hr'. su_write [1, 2] [Interrupted, Done 2] demo_udp
      (demo_kernel\<lparr>files := [1 \<mapsto> new_sock\<lparr>bound := Some (to_sockaddr (new_UdpAddress 0x0A000007 698))\<rparr>]\<rparr>) = Some (Inr (2, k')) \<and>
    sent k' = [dg] \<and> su_read \<lparr>sin_addr = 0, sin_port = 0\<rparr> 10 [Interrupted, Done (to_sockaddr (new_UdpAddress 0x0A000007 698), dg_data dg)]
      (demo_udp\<lparr>su_mode := PosixModeRead\<rparr>) = Some (Inr (2, [1, 2], hr')) \<and> su_getSrc hr' = new_UdpAddress 0x0A000007 698"
  using udp_source_roundtrip [of demo_udp "demo_udp\<lparr>su_mode := PosixModeRead\<rparr>" "new_UdpAddress 0x0A000007 698"
      "demo_kernel\<lparr>files := [1 \<mapsto> new_sock\<lparr>bound := Some (to_sockaddr (new_UdpAddress 0x0A000007 698))\<rparr>]\<rparr>"
      "new_sock\<lparr>bound := Some (to_sockaddr (new_UdpAddress 0x0A000007 698))\<rparr>" "[Interrupted, Done 2]" "[1, 2]" 10
      "\<lparr>sin_addr = 0, sin_port = 0\<rparr>"]
  by (auto simp: demo_udp_def demo_kernel_def)

end
