(* ===== verification/Gea_Iface.thy ===== *)
theory Gea_Iface
  imports Gea_Prelude
begin

text \<open>
  The choice of the network interface whose address a node uses (gea/src/guess_iface.cc, and
  \<^verbatim>\<open>PosixApiIface::getIpAddr\<close> in ShadowUdpHandle.cc).

  The interfaces that the system reports are a list; a field that is \<open>None\<close> is an \<^verbatim>\<open>ioctl\<close> that fails.
  The outer loop may run for ever, so it is a partial function: \<open>None\<close> is not to return.  Its counter is
  an unbounded integer here; the program's wraps only after it has counted down from 5 through all
  levels that an interface can have.
\<close>

section \<open>Addresses as text\<close>

type_synonym in_addr = "byte \<times> byte \<times> byte \<times> byte"

definition digit :: "nat \<Rightarrow> char" where
  "digit n = char_of (48 + n)"

fun dec :: "nat \<Rightarrow> string" where
  "dec n = (if n < 10 then [digit n] else dec (n div 10) @ [digit (n mod 10)])"

declare dec.simps [simp del]

text \<open>\<^verbatim>\<open>inet_ntoa\<close>\<close>

fun inet_ntoa :: "in_addr \<Rightarrow> string" where
  "inet_ntoa (a, b, c, d) = dec (unat a) @ ''.'' @ dec (unat b) @ ''.'' @ dec (unat c) @ ''.'' @ dec (unat d)"

text \<open>\<^verbatim>\<open>strstr(s, p) == s\<close> and \<^verbatim>\<open>strstr(s, p) != 0\<close>\<close>

definition starts_with :: "string \<Rightarrow> string \<Rightarrow> bool" where
  "starts_with p s \<longleftrightarrow> take (length p) s = p"

fun contains :: "string \<Rightarrow> string \<Rightarrow> bool" where
  "contains p [] \<longleftrightarrow> p = []"
| "contains p (c # s) \<longleftrightarrow> starts_with p (c # s) \<or> contains p s"

section \<open>Guessing\<close>

record ifreq =
  ifr_name :: string
  ifr_flags :: "u16 option"
  ifr_addr :: "in_addr option"

definition IFF_UP :: u16 where "IFF_UP = 0x1"
definition IFF_BROADCAST :: u16 where "IFF_BROADCAST = 0x2"
definition IFF_LOOPBACK :: u16 where "IFF_LOOPBACK = 0x8"

definition MAX_DEV :: nat where
  "MAX_DEV = 12"

text \<open>The body of the loop over the interfaces: what is left of the level after the points of the
  interface are taken off, and its address.\<close>

definition level_left :: "int \<Rightarrow> ifreq \<Rightarrow> (int \<times> string) result" where
  "level_left level d =
    (let lev = (if contains ''wlan'' (ifr_name d) then level - 1 else level) in
     bindE (case ifr_flags d of None \<Rightarrow> Inl (AssertFailed ''ret >= 0'') | Some f \<Rightarrow> Inr f) (\<lambda>flags.
     let lev1 = (if flags AND IFF_UP \<noteq> 0 then lev - 1 else lev);
         lev2 = (if flags AND IFF_BROADCAST \<noteq> 0 then lev1 - 1 else lev1);
         lev3 = (if flags AND IFF_LOOPBACK \<noteq> 0 then lev2 + 1 else lev2) in
     bindE (case ifr_addr d of None \<Rightarrow> Inl (AssertFailed ''ret >= 0'') | Some a \<Rightarrow> Inr a) (\<lambda>addr.
     let s = inet_ntoa addr;
         lev4 = (if starts_with ''10.'' s then lev3 - 1 else lev3);
         lev5 = (if starts_with ''192.168.'' s then lev4 - 1 else lev4) in
     Inr (lev5, s))))"

fun guess_devs :: "int \<Rightarrow> ifreq list \<Rightarrow> string option result" where
  "guess_devs level [] = Inr None"
| "guess_devs level (d # ds) =
    bindE (level_left level d) (\<lambda>(lev, s). if lev = 0 then Inr (Some s) else guess_devs level ds)"

text \<open>\<open>conf\<close> is what \<^verbatim>\<open>ioctl(fd, SIOCGIFCONF, ...)\<close> gives, \<open>None\<close> if the socket or the call fails; at most
  \<^verbatim>\<open>MAX_DEV\<close> entries fit.\<close>

definition guess_level :: "ifreq list option \<Rightarrow> int \<Rightarrow> string option result" where
  "guess_level conf level =
    (case conf of None \<Rightarrow> Inl (AssertFailed ''ret >= 0'') | Some ds \<Rightarrow> guess_devs level (take MAX_DEV ds))"

partial_function (option) guess_loop :: "ifreq list option \<Rightarrow> int \<Rightarrow> string result option" where
  "guess_loop conf lvl =
    (case guess_level conf lvl of
       Inl e \<Rightarrow> Some (Inl e)
     | Inr (Some s) \<Rightarrow> Some (Inr s)
     | Inr None \<Rightarrow> guess_loop conf (lvl - 1))"

definition guess_iface :: "ifreq list option \<Rightarrow> string result option" where
  "guess_iface conf = guess_loop conf 5"

text \<open>\<^verbatim>\<open>getIpAddr\<close>: the address set by the user, or that of the guessed interface, read back from a buffer
  of 20 bytes by \<^verbatim>\<open>inet_addr\<close>, a parameter.\<close>

definition getIpAddr :: "(string \<Rightarrow> u32) \<Rightarrow> u32 \<Rightarrow> ifreq list option \<Rightarrow> u32 result option" where
  "getIpAddr inet_addr ipAddr conf =
    (if ipAddr \<noteq> 0 then Some (Inr ipAddr)
     else map_option (\<lambda>r. bindE r (\<lambda>s. if length s < 20 then Inr (inet_addr s) else Inl BufferOverflow)) (guess_iface conf))"

section \<open>Points\<close>

text \<open>The points of an interface.\<close>

definition complete :: "ifreq \<Rightarrow> bool" where
  "complete d \<longleftrightarrow> ifr_flags d \<noteq> None \<and> ifr_addr d \<noteq> None"

definition address :: "ifreq \<Rightarrow> in_addr" where
  "address d = (case ifr_addr d of None \<Rightarrow> (0, 0, 0, 0) | Some a \<Rightarrow> a)"

definition flagged :: "ifreq \<Rightarrow> u16 \<Rightarrow> bool" where
  "flagged d m \<longleftrightarrow> (case ifr_flags d of None \<Rightarrow> False | Some f \<Rightarrow> f AND m \<noteq> 0)"

fun private_net :: "in_addr \<Rightarrow> bool" where
  "private_net (a, b, c, d) \<longleftrightarrow> a = 10 \<or> a = 192 \<and> b = 168"

definition points :: "ifreq \<Rightarrow> int" where
  "points d = of_bool (contains ''wlan'' (ifr_name d)) + of_bool (flagged d IFF_UP) + of_bool (flagged d IFF_BROADCAST)
     - of_bool (flagged d IFF_LOOPBACK) + of_bool (private_net (address d))"

lemma points_range: "- 1 \<le> points d \<and> points d \<le> 4"
  by (simp add: points_def of_bool_def)

subsection \<open>The text of an address\<close>

definition undec :: "string \<Rightarrow> nat" where
  "undec s = foldl (\<lambda>v c. 10 * v + (of_char c - 48)) 0 s"

lemma digit_simps: "n < 10 \<Longrightarrow> of_char (digit n) = 48 + n" "n < 10 \<Longrightarrow> digit n \<noteq> CHR ''.''"
proof -
  assume n: "n < 10"
  show d: "of_char (digit n) = 48 + n" using n by (simp add: digit_def)
  have "of_char (CHR ''.'') = (46 :: nat)" by simp
  then show "digit n \<noteq> CHR ''.''" using d by auto
qed

lemma undec_dec [simp]: "undec (dec n) = n"
proof (induction n rule: dec.induct)
  case (1 n)
  show ?case
    by (cases "n < 10") (use 1 in \<open>simp_all add: dec.simps [of n] undec_def digit_simps\<close>)
qed

lemma dec_inject [simp]: "dec m = dec n \<longleftrightarrow> m = n"
  by (metis undec_dec)

lemma dec_no_dot: "CHR ''.'' \<notin> set (dec n)"
proof (induction n rule: dec.induct)
  case (1 n)
  have "digit (n mod 10) \<noteq> CHR ''.''" "n < 10 \<Longrightarrow> digit n \<noteq> CHR ''.''" by (simp_all add: digit_simps)
  then show ?case using 1 by (subst dec.simps) auto
qed

lemma dec_length: "n < 1000 \<Longrightarrow> length (dec n) \<le> 3"
  by (simp add: dec.simps [of n] dec.simps [of "n div 10"] dec.simps [of "n div 10 div 10"]) 

lemma starts_with_field:
  "CHR ''.'' \<notin> set x \<Longrightarrow> CHR ''.'' \<notin> set p \<Longrightarrow>
    starts_with (p @ CHR ''.'' # q) (x @ CHR ''.'' # y) \<longleftrightarrow> x = p \<and> starts_with q y"
proof (induction p arbitrary: x)
  case Nil
  then show ?case by (cases x) (auto simp: starts_with_def)
next
  case (Cons c p)
  then show ?case by (cases x) (auto simp: starts_with_def)
qed

lemma dec_values: "''10'' = dec 10" "''192'' = dec 192" "''168'' = dec 168"
  by (simp_all add: dec.simps digit_def char_of_def bit_0)

lemma inet_ntoa_prefix:
  "starts_with ''10.'' (inet_ntoa (a, b, c, d)) \<longleftrightarrow> a = 10"
  "starts_with ''192.168.'' (inet_ntoa (a, b, c, d)) \<longleftrightarrow> a = 192 \<and> b = 168"
proof -
  have n: "starts_with [] s" for s by (simp add: starts_with_def)
  have "starts_with (dec 10 @ CHR ''.'' # []) (inet_ntoa (a, b, c, d)) \<longleftrightarrow> unat a = 10"
    by (simp add: starts_with_field dec_no_dot n)
  moreover have "unat a = 10 \<longleftrightarrow> a = 10" by (simp add: word_unat_eq_iff)
  ultimately show "starts_with ''10.'' (inet_ntoa (a, b, c, d)) \<longleftrightarrow> a = 10" by (simp add: dec_values(1) [symmetric])
  have "starts_with (dec 192 @ CHR ''.'' # dec 168 @ CHR ''.'' # []) (inet_ntoa (a, b, c, d)) \<longleftrightarrow> unat a = 192 \<and> unat b = 168"
    by (simp add: starts_with_field dec_no_dot n)
  moreover have "unat a = 192 \<longleftrightarrow> a = 192" "unat b = 168 \<longleftrightarrow> b = 168" by (simp_all add: word_unat_eq_iff)
  ultimately show "starts_with ''192.168.'' (inet_ntoa (a, b, c, d)) \<longleftrightarrow> a = 192 \<and> b = 168"
    by (simp add: dec_values(2,3) [symmetric])
qed

lemma inet_ntoa_length: "length (inet_ntoa a) \<le> 15"
proof -
  obtain w x y z where a: "a = (w, x, y, z)" by (cases a) auto
  have "length (dec (unat v)) \<le> 3" for v :: byte
  proof (rule dec_length)
    have "unat v < 2 ^ LENGTH(8)" by (rule unsigned_less)
    then show "unat v < 1000" by simp
  qed
  from this [of w] this [of x] this [of y] this [of z] show ?thesis by (simp add: a)
qed

subsection \<open>One level\<close>

lemma level_left_complete:
  assumes "complete d"
  shows "level_left level d = Inr (level - points d, inet_ntoa (address d))"
proof -
  obtain f a b e g where "ifr_flags d = Some f" "ifr_addr d = Some (a, b, e, g)" using assms by (auto simp: complete_def)
  then show ?thesis
    by (auto simp: level_left_def points_def flagged_def address_def Let_def inet_ntoa_prefix of_bool_def simp del: inet_ntoa.simps)
qed

lemma guess_devs_complete:
  "\<forall>d \<in> set ds. complete d \<Longrightarrow>
    guess_devs level ds = Inr (map_option (\<lambda>d. inet_ntoa (address d)) (List.find (\<lambda>d. points d = level) ds))"
  by (induction ds) (auto simp: level_left_complete)

subsection \<open>All levels\<close>

definition best :: "ifreq list \<Rightarrow> ifreq option" where
  "best ds = List.find (\<lambda>d. \<forall>e \<in> set ds. points e \<le> points d) ds"

lemma find_level:
  assumes "ds \<noteq> []" "\<forall>e \<in> set ds. points e \<le> lvl"
  shows "(if \<exists>e \<in> set ds. points e = lvl then List.find (\<lambda>d. points d = lvl) ds = best ds
     else List.find (\<lambda>d. points d = lvl) ds = None \<and> (\<forall>e \<in> set ds. points e \<le> lvl - 1))"
proof (cases "\<exists>e \<in> set ds. points e = lvl")
  case True
  then have "points d = lvl \<longleftrightarrow> (\<forall>e \<in> set ds. points e \<le> points d)" if "d \<in> set ds" for d
    using assms(2) that by (auto intro: antisym)
  then have "List.find (\<lambda>d. points d = lvl) ds = List.find (\<lambda>d. \<forall>e \<in> set ds. points e \<le> points d) ds"
    by (intro find_cong) auto
  then show ?thesis using True by (simp add: best_def)
next
  case False
  have "points e \<le> lvl - 1" if "e \<in> set ds" for e
  proof -
    have "points e \<noteq> lvl" "points e \<le> lvl" using False assms(2) that by auto
    then show ?thesis by linarith
  qed
  then show ?thesis using False by (auto simp: find_None_iff)
qed

lemma best_exists: "ds \<noteq> [] \<Longrightarrow> \<exists>d \<in> set ds. best ds = Some d \<and> (\<forall>e \<in> set ds. points e \<le> points d)"
proof -
  assume "ds \<noteq> []"
  then have "Max (points ` set ds) \<in> points ` set ds" by simp
  then obtain d where d: "d \<in> set ds" "\<forall>e \<in> set ds. points e \<le> points d" by (metis (no_types, lifting) List.finite_set Max_ge finite_imageI imageE imageI)
  then have "best ds \<noteq> None" by (auto simp: best_def find_None_iff)
  then show ?thesis by (auto simp: best_def find_Some_iff)
qed

lemma guess_loop_best:
  assumes "ds \<noteq> []" "\<forall>d \<in> set ds. complete d" "length ds \<le> MAX_DEV" "best ds = Some d"
  shows "\<forall>e \<in> set ds. points e \<le> lvl \<Longrightarrow> guess_loop (Some ds) lvl = Some (Inr (inet_ntoa (address d)))"
proof (induction "nat (lvl + 1)" arbitrary: lvl)
  case 0
  obtain e where e: "e \<in> set ds" using assms(1) by (cases ds) auto
  then have "points e = lvl" using 0 points_range [of e] by auto
  then have "\<exists>e \<in> set ds. points e = lvl" using e by blast
  then have "List.find (\<lambda>d. points d = lvl) ds = best ds" using find_level [OF assms(1) 0(2)] by simp
  then show ?case using assms by (subst guess_loop.simps) (simp add: guess_level_def guess_devs_complete)
next
  case (Suc n)
  show ?case
  proof (cases "\<exists>e \<in> set ds. points e = lvl")
    case True
    then have "List.find (\<lambda>d. points d = lvl) ds = best ds" using find_level [OF assms(1) Suc(3)] by simp
    then show ?thesis using assms by (subst guess_loop.simps) (simp add: guess_level_def guess_devs_complete)
  next
    case False
    then have f: "List.find (\<lambda>d. points d = lvl) ds = None" "\<forall>e \<in> set ds. points e \<le> lvl - 1"
      using find_level [OF assms(1) Suc(3)] by simp_all
    have "guess_loop (Some ds) (lvl - 1) = Some (Inr (inet_ntoa (address d)))"
      by (rule Suc(1) [OF _ f(2)]) (use Suc(2) in simp)
    then show ?thesis using assms f(1) by (subst guess_loop.simps) (simp add: guess_level_def guess_devs_complete)
  qed
qed

text \<open>When the system reports interfaces, \<^verbatim>\<open>getIpAddr\<close> returns, within the bounds of its buffer, the address
  of an interface that has the most points: for a name with \<^verbatim>\<open>wlan\<close> in it, for being up, for broadcast
  and for a private network, less one for a loopback device; of several with the most points it takes
  the first.\<close>

theorem getIpAddr_picks_best:
  assumes "ds \<noteq> []" "length ds \<le> MAX_DEV" "\<forall>d \<in> set ds. complete d"
  shows "\<exists>i < length ds. getIpAddr inet_addr 0 (Some ds) = Some (Inr (inet_addr (inet_ntoa (address (ds ! i))))) \<and>
    (\<forall>j < length ds. points (ds ! j) \<le> points (ds ! i)) \<and> (\<forall>j < i. points (ds ! j) < points (ds ! i))"
proof -
  obtain d where d: "best ds = Some d" using best_exists [OF assms(1)] by blast
  then obtain i where i: "i < length ds" "d = ds ! i" "\<forall>e \<in> set ds. points e \<le> points d"
    "\<forall>j < i. \<not> (\<forall>e \<in> set ds. points e \<le> points (ds ! j))"
    by (auto simp: best_def find_Some_iff)
  have "points e \<le> 5" for e using points_range [of e] by simp
  then have "\<forall>e \<in> set ds. points e \<le> 5" by simp
  then have "guess_iface (Some ds) = Some (Inr (inet_ntoa (address d)))"
    unfolding guess_iface_def by (rule guess_loop_best [OF assms(1,3,2) d])
  then have g: "getIpAddr inet_addr 0 (Some ds) = Some (Inr (inet_addr (inet_ntoa (address (ds ! i)))))"
    using inet_ntoa_length [of "address d"] i(2) by (simp add: getIpAddr_def)
  have "points (ds ! j) < points (ds ! i)" if j: "j < i" for j
  proof -
    obtain e where "e \<in> set ds" "points (ds ! j) < points e" using i(4) j by (auto simp: not_le)
    then show ?thesis using i(2,3) by fastforce
  qed
  then show ?thesis using g i(1,2,3) by (intro exI [of _ i]) auto
qed

definition demo_ifaces :: "ifreq list" where
  "demo_ifaces =
    [\<lparr>ifr_name = ''lo'', ifr_flags = Some 0x9, ifr_addr = Some (127, 0, 0, 1)\<rparr>,
     \<lparr>ifr_name = ''wlan0'', ifr_flags = Some 0x3, ifr_addr = Some (10, 0, 0, 7)\<rparr>]"

lemma demo_points: "points (demo_ifaces ! 0) = 0" "points (demo_ifaces ! 1) = 4"
  by (simp_all add: demo_ifaces_def points_def flagged_def address_def IFF_UP_def IFF_BROADCAST_def IFF_LOOPBACK_def
      starts_with_def)

theorem getIpAddr_picks_best_witness:
  "getIpAddr (\<lambda>s. of_nat (length s)) 0 (Some demo_ifaces) = Some (Inr 8)"
proof -
  let ?f = "\<lambda>s. of_nat (length s) :: u32"
  obtain i where i: "i < length demo_ifaces" "getIpAddr ?f 0 (Some demo_ifaces) = Some (Inr (?f (inet_ntoa (address (demo_ifaces ! i)))))"
    "\<forall>j < length demo_ifaces. points (demo_ifaces ! j) \<le> points (demo_ifaces ! i)"
    using getIpAddr_picks_best [of demo_ifaces ?f] by (auto simp: demo_ifaces_def MAX_DEV_def complete_def)
  have "length demo_ifaces = 2" by (simp add: demo_ifaces_def)
  then have "i = 0 \<or> i = 1" "points (demo_ifaces ! 1) \<le> points (demo_ifaces ! i)" using i(1,3) by auto
  then have "i = 1" using demo_points by auto
  then show ?thesis using i(2) by (simp add: demo_ifaces_def address_def dec.simps)
qed

lemma guess_loop_returns: "guess_loop conf lvl = Some y \<Longrightarrow> conf \<noteq> Some []"
proof (rule guess_loop.raw_induct [where P = "\<lambda>conf lvl y. conf \<noteq> Some []"])
  fix loop :: "ifreq list option \<Rightarrow> int \<Rightarrow> string result option" and conf lvl y
  assume ih: "\<And>conf lvl y. loop conf lvl = Some y \<Longrightarrow> conf \<noteq> Some []"
    and body: "(case guess_level conf lvl of Inl e \<Rightarrow> Some (Inl e) | Inr None \<Rightarrow> loop conf (lvl - 1)
      | Inr (Some s) \<Rightarrow> Some (Inr s)) = Some y"
  show "conf \<noteq> Some []"
  proof
    assume "conf = Some []"
    then have "loop (Some []) (lvl - 1) = Some y" using body by (simp add: guess_level_def)
    then show False using ih by blast
  qed
qed

text \<open>With no interface, \<^verbatim>\<open>guess_iface\<close> never returns: no level can match and nothing ends the loop.\<close>

theorem guess_iface_hangs: "guess_iface (Some []) = None"
  unfolding guess_iface_def using guess_loop_returns [of "Some []" 5] by (cases "guess_loop (Some []) 5") auto

end
