(* ===== verification/Gea_Start.thy ===== *)
theory Gea_Start
  imports Gea_Prelude
begin

text \<open>
  The program that loads GEA modules (gea/src/utils/gea_start.cc): it reads commands from a file or a
  terminal, ten bytes at a time, splits them at newlines and semicolons, and calls the main function of
  the module that each command names.

  \<open>loader\<close> is the static state of \<^verbatim>\<open>new_input\<close>: the allocated block \<^verbatim>\<open>line\<close>, where \<open>None\<close> is a byte that
  was never written, and its \<^verbatim>\<open>length\<close>.  The dynamic linker and the modules are the record \<open>dl\<close>; they
  act on a world of any type.  The event loop that calls \<^verbatim>\<open>new_input\<close> is the sequence of its calls.

  The lemmas show that what is executed does not depend on how the input is cut into pieces, and that
  no access leaves its block; the properties at the end say where that fails.
\<close>

section \<open>C strings\<close>

definition NUL :: char where
  "NUL = CHR 0x00"

text \<open>The string at the beginning of a block.  Reading behind the block, or a byte that was never
  written, is an error.\<close>

fun cstr :: "char option list \<Rightarrow> string result" where
  "cstr [] = Inl BufferOverflow"
| "cstr (None # xs) = Inl BufferOverflow"
| "cstr (Some c # xs) = (if c = NUL then Inr [] else bindE (cstr xs) (\<lambda>s. Inr (c # s)))"

definition is_blank :: "char \<Rightarrow> bool" where
  "is_blank c \<longleftrightarrow> c = CHR '' '' \<or> c = CHR 0x09"

text \<open>The tokens that repeated calls of \<^verbatim>\<open>strtok(cmd, " \t")\<close> give: no token is empty.\<close>

function tokens :: "string \<Rightarrow> string list" where
  "tokens s =
    (let r = dropWhile is_blank s in
     if r = [] then [] else takeWhile (\<lambda>c. \<not> is_blank c) r # tokens (dropWhile (\<lambda>c. \<not> is_blank c) r))"
  by pat_completeness auto
termination
proof (relation "measure length", simp, goal_cases)
  case (1 s r)
  then have "r \<noteq> []" "\<not> is_blank (hd r)" using hd_dropWhile [of is_blank s] by auto
  then have "length (dropWhile (\<lambda>c. \<not> is_blank c) r) < length r"
    by (cases r) (auto intro: le_imp_less_Suc length_dropWhile_le)
  also have "\<dots> \<le> length s" using 1 length_dropWhile_le by simp
  finally show ?case by simp
qed

declare tokens.simps [simp del]

section \<open>Modules\<close>

record ('l, 'f, 'w) dl =
  dlopen :: "string \<Rightarrow> 'w \<Rightarrow> 'l option \<times> 'w"
  dlsym :: "'l \<Rightarrow> string \<Rightarrow> 'f option"
  call_main :: "'f \<Rightarrow> string list \<Rightarrow> 'w \<Rightarrow> int \<times> 'w"

definition run_gea_main :: "('l, 'f, 'w) dl \<Rightarrow> string list \<Rightarrow> 'w \<Rightarrow> int \<times> 'w" where
  "run_gea_main dl argv w =
    (case dlopen dl (hd argv) w of
       (None, w1) \<Rightarrow> (1, w1)
     | (Some l, w1) \<Rightarrow>
         (case (case dlsym dl l ''gea_main'' of None \<Rightarrow> dlsym dl l ''_Z8gea_mainiPKPKc'' | Some f \<Rightarrow> Some f) of
            None \<Rightarrow> (1, w1)
          | Some f \<Rightarrow> call_main dl f argv w1))"

text \<open>\<^verbatim>\<open>parse_cmd\<close>: the array \<^verbatim>\<open>argv\<close> has 100 elements, the one behind the last token is written too.\<close>

definition parse_cmd :: "('l, 'f, 'w) dl \<Rightarrow> string \<Rightarrow> 'w \<Rightarrow> 'w result" where
  "parse_cmd dl cmd w =
    (if cmd \<noteq> [] \<and> hd cmd = CHR ''#'' then Inr w
     else
       (let argv = tokens cmd in
        if length argv \<ge> 100 then Inl BufferOverflow
        else if length argv > 0 then Inr (snd (run_gea_main dl argv w)) else Inr w))"

section \<open>Reading commands\<close>

record loader =
  line :: "char option list"
  line_len :: nat

definition new_loader :: loader where
  "new_loader = \<lparr>line = [], line_len = 0\<rparr>"

definition is_delim :: "char \<Rightarrow> bool" where
  "is_delim c \<longleftrightarrow> c = CHR 0x0A \<or> c = CHR '';''"

definition append_input :: "string \<Rightarrow> loader \<Rightarrow> loader" where
  "append_input bs st =
    \<lparr>line = take (line_len st) (line st) @ map Some bs @ [Some NUL], line_len = line_len st + length bs\<rparr>"

text \<open>The block that \<^verbatim>\<open>malloc(length + 1)\<close> and \<^verbatim>\<open>strcpy\<close> make.\<close>

definition copy_string :: "nat \<Rightarrow> string \<Rightarrow> char option list" where
  "copy_string n s = map Some s @ [Some NUL] @ replicate (n - length s) None"

lemma bindE_cong [fundef_cong]:
  "r = r' \<Longrightarrow> (\<And>x. r' = Inr x \<Longrightarrow> f x = f' x) \<Longrightarrow> bindE r f = bindE r' f'"
  by (cases r') auto

lemma cstr_copy [simp]: "NUL \<notin> set s \<Longrightarrow> cstr (map Some s @ Some NUL # xs) = Inr s"
  by (induction s) auto

lemma cstr_result: "cstr xs = Inr s \<longleftrightarrow> NUL \<notin> set s \<and> (\<exists>ys. xs = map Some s @ Some NUL # ys)"
proof
  show "cstr xs = Inr s \<Longrightarrow> NUL \<notin> set s \<and> (\<exists>ys. xs = map Some s @ Some NUL # ys)"
    by (induction xs arbitrary: s rule: cstr.induct) (auto simp: resultE split: if_splits)
qed auto

lemma cstr_drop: "cstr xs = Inr s \<Longrightarrow> i < length s \<Longrightarrow> cstr (drop (Suc i) xs) = Inr (drop (Suc i) s)"
  by (auto simp: cstr_result drop_map dest: in_set_dropD)

text \<open>The loop that splits the line.  The lengths are natural numbers: \<open>i < line_len\<close> at every delimiter
  (\<open>line_wf\<close> below), so \<^verbatim>\<open>length\<close> does not wrap.\<close>

function split_line :: "('l, 'f, 'w) dl \<Rightarrow> loader \<Rightarrow> 'w \<Rightarrow> (loader \<times> 'w) result" where
  "split_line dl st w =
    bindE (cstr (line st)) (\<lambda>s.
    let i = length (takeWhile (\<lambda>c. \<not> is_delim c) s) in
    if i < length s then
      bindE (parse_cmd dl (take i s) w) (\<lambda>w1.
      bindE (cstr (drop (Suc i) (line st))) (\<lambda>r.
      let n = line_len st - (1 + i) in
      if length r > n then Inl BufferOverflow
      else split_line dl \<lparr>line = copy_string n r, line_len = n\<rparr> w1))
    else Inr (st, w))"
  by pat_completeness auto
termination
proof (relation "measure (\<lambda>(dl, st, w). case cstr (line st) of Inl e \<Rightarrow> 0 | Inr s \<Rightarrow> length s)", simp, goal_cases)
  case (1 dl st w s i w1 r n)
  then have r: "r = drop (Suc i) s" using cstr_drop [of "line st" s i] by simp
  have "NUL \<notin> set r" using 1 by (auto simp: cstr_result)
  then have "cstr (copy_string n r) = Inr r" by (simp add: copy_string_def)
  then show ?case using 1 r by simp
qed

declare split_line.simps [simp del]

text \<open>One call of \<^verbatim>\<open>new_input\<close>: the handle is not ready, or what \<^verbatim>\<open>read\<close> gave, or its end or error.  The
  first result says whether the handle is waited for again.\<close>

datatype input = NotReady | Data string | Eof

definition new_input :: "('l, 'f, 'w) dl \<Rightarrow> input \<Rightarrow> loader \<Rightarrow> 'w \<Rightarrow> (bool \<times> loader \<times> 'w) result" where
  "new_input dl inp st w = (case inp of
     NotReady \<Rightarrow> Inr (True, st, w)
   | Data bs \<Rightarrow> bindE (split_line dl (append_input bs st) w) (\<lambda>(st1, w1). Inr (True, st1, w1))
   | Eof \<Rightarrow> bindE (split_line dl (append_input [CHR 0x0A] st) w) (\<lambda>(st1, w1). Inr (False, st1, w1)))"

fun feed :: "('l, 'f, 'w) dl \<Rightarrow> input list \<Rightarrow> loader \<Rightarrow> 'w \<Rightarrow> (bool \<times> loader \<times> 'w) result" where
  "feed dl [] st w = Inr (True, st, w)"
| "feed dl (inp # inps) st w =
    bindE (new_input dl inp st w) (\<lambda>(again, st1, w1). if again then feed dl inps st1 w1 else Inr (False, st1, w1))"

text \<open>The command line: what \<^verbatim>\<open>main\<close> does with its arguments, the first of which is the program.  Opening
  the file, reading commands and running the event loop are parameters.\<close>

definition start_main ::
  "('l, 'f, 'w) dl \<Rightarrow> (string \<Rightarrow> 'w \<Rightarrow> bool \<times> 'w) \<Rightarrow> ('w \<Rightarrow> 'w) \<Rightarrow> ('w \<Rightarrow> 'w) \<Rightarrow> string list \<Rightarrow> 'w \<Rightarrow> int \<times> 'w" where
  "start_main dl open_conf interactive run_loop args w =
    (if length args = 2 \<and> args ! 1 = ''-i'' then (0, interactive w)
     else if length args = 3 \<and> args ! 1 = ''-c'' then
       (case open_conf (args ! 2) w of (ok, w1) \<Rightarrow> if ok then (0, interactive w1) else (1, w1))
     else if \<not> length args > 1 then (1, w)
     else (case run_gea_main dl (tl args) w of (ret, w1) \<Rightarrow> (ret, run_loop w1)))"

section \<open>Commands of a text\<close>

text \<open>The reference: a text cut at newlines and semicolons into commands and an unfinished rest.\<close>

fun pieces :: "string \<Rightarrow> string list \<times> string" where
  "pieces [] = ([], [])"
| "pieces (c # s) = (case pieces s of (ps, r) \<Rightarrow>
     if is_delim c then ([] # ps, r)
     else (case ps of [] \<Rightarrow> ([], c # r) | p # qs \<Rightarrow> ((c # p) # qs, r)))"

definition clean :: "string \<Rightarrow> bool" where
  "clean s \<longleftrightarrow> (\<forall>c \<in> set s. \<not> is_delim c \<and> c \<noteq> NUL)"

lemma pieces_clean: "\<forall>c \<in> set s. \<not> is_delim c \<Longrightarrow> pieces s = ([], s)"
  by (induction s) auto

lemma pieces_first:
  "\<forall>c \<in> set p. \<not> is_delim c \<Longrightarrow> is_delim d \<Longrightarrow> pieces (p @ d # s) = (p # fst (pieces s), snd (pieces s))"
  by (induction p) (auto split: prod.splits)

lemma pieces_rest: "\<forall>c \<in> set (snd (pieces s)). \<not> is_delim c"
  by (induction s) (auto split: prod.splits list.splits)

lemma pieces_rest_set: "set (snd (pieces s)) \<subseteq> set s"
  by (induction s) (auto split: prod.splits list.splits)

lemma pieces_append:
  "pieces (s @ t) = (fst (pieces s) @ fst (pieces (snd (pieces s) @ t)), snd (pieces (snd (pieces s) @ t)))"
  by (induction s) (auto split: prod.splits list.splits)

lemma split_first:
  assumes "i = length (takeWhile (\<lambda>c. \<not> is_delim c) s)" "i < length s"
  obtains d where "is_delim d" "s = take i s @ d # drop (Suc i) s" "\<forall>c \<in> set (take i s). \<not> is_delim c"
proof (rule that [of "s ! i"])
  have t: "take i s = takeWhile (\<lambda>c. \<not> is_delim c) s" using assms(1) takeWhile_eq_take [of "\<lambda>c. \<not> is_delim c" s] by simp
  show "\<forall>c \<in> set (take i s). \<not> is_delim c" unfolding t by (auto dest: set_takeWhileD)
  show "is_delim (s ! i)" using nth_length_takeWhile [of "\<lambda>c. \<not> is_delim c" s] assms by simp
  show "s = take i s @ s ! i # drop (Suc i) s" by (rule id_take_nth_drop [OF assms(2)])
qed

section \<open>The loader runs the commands of its input\<close>

text \<open>Between calls the block holds an unfinished command and nothing else.\<close>

definition holds :: "string \<Rightarrow> loader" where
  "holds r = \<lparr>line = map Some r @ [Some NUL], line_len = length r\<rparr>"

lemma split_line_pieces:
  "NUL \<notin> set s \<Longrightarrow> split_line dl (holds s) w =
    bindE (foldE (parse_cmd dl) (fst (pieces s)) w) (\<lambda>w1. Inr (holds (snd (pieces s)), w1))"
proof (induction "length s" arbitrary: s w rule: less_induct)
  case less
  let ?i = "length (takeWhile (\<lambda>c. \<not> is_delim c) s)"
  have c: "cstr (line (holds s)) = Inr s" using less.prems by (simp add: holds_def)
  show ?case
  proof (cases "?i < length s")
    case True
    obtain d where d: "is_delim d" "s = take ?i s @ d # drop (Suc ?i) s" "\<forall>c \<in> set (take ?i s). \<not> is_delim c"
      by (rule split_first [OF refl True])
    let ?r = "drop (Suc ?i) s"
    have n: "NUL \<notin> set ?r" using less.prems by (auto dest: in_set_dropD)
    have ih: "split_line dl (holds ?r) w1 = bindE (foldE (parse_cmd dl) (fst (pieces ?r)) w1) (\<lambda>w2. Inr (holds (snd (pieces ?r)), w2))" for w1
      by (rule less.hyps) (use True n in auto)
    have "split_line dl (holds s) w = bindE (parse_cmd dl (take ?i s) w) (\<lambda>w1. split_line dl (holds ?r) w1)"
      by (subst split_line.simps) (simp add: c True cstr_drop [OF c True] Let_def, simp add: holds_def copy_string_def)
    also have "\<dots> = bindE (foldE (parse_cmd dl) (take ?i s # fst (pieces ?r)) w) (\<lambda>w2. Inr (holds (snd (pieces ?r)), w2))"
      by (simp add: ih bindE_def split: sum.splits)
    finally show ?thesis using pieces_first [OF d(3,1), of ?r] d(2) by simp
  next
    case False
    then have "takeWhile (\<lambda>c. \<not> is_delim c) s = s"
      using takeWhile_eq_take [of "\<lambda>c. \<not> is_delim c" s] by simp
    then have "pieces s = ([], s)" by (intro pieces_clean) (simp add: takeWhile_eq_all_conv)
    then show ?thesis by (subst split_line.simps) (simp add: c False)
  qed
qed

primrec bytes :: "input \<Rightarrow> string" where
  "bytes NotReady = []"
| "bytes (Data bs) = bs"
| "bytes Eof = [CHR 0x0A]"

definition pending :: "loader \<Rightarrow> string \<Rightarrow> bool" where
  "pending st r \<longleftrightarrow> st = holds r \<or> st = new_loader \<and> r = []"

lemma append_pending: "pending st r \<Longrightarrow> append_input bs st = holds (r @ bs)"
  by (auto simp: pending_def append_input_def holds_def new_loader_def)

lemma pieces_newline: "fst (pieces (s @ [CHR 0x0A])) \<noteq> [] \<and> snd (pieces (s @ [CHR 0x0A])) = []"
  by (induction s) (auto simp: is_delim_def split: prod.splits list.splits)

lemma feed_pending:
  "Eof \<notin> set inps \<Longrightarrow> NUL \<notin> set (r @ concat (map bytes inps)) \<Longrightarrow> pending st r \<Longrightarrow>
    feed dl (inps @ [Eof]) st w =
      bindE (foldE (parse_cmd dl) (fst (pieces (r @ concat (map bytes inps) @ [CHR 0x0A]))) w) (\<lambda>w1. Inr (False, holds [], w1))"
proof (induction inps arbitrary: st r w)
  case Nil
  then have "NUL \<notin> set (r @ [CHR 0x0A])" by (simp add: NUL_def)
  then show ?case using Nil
    by (simp add: new_input_def append_pending split_line_pieces pieces_newline bindE_def split: sum.splits)
next
  case (Cons inp inps)
  show ?case
  proof (cases inp)
    case NotReady
    then show ?thesis using Cons by (simp add: new_input_def)
  next
    case (Data bs)
    let ?t = "concat (map bytes inps) @ [CHR 0x0A]" and ?r = "snd (pieces (r @ bs))"
    have n: "NUL \<notin> set (r @ bs)" "NUL \<notin> set (concat (map bytes inps))" "NUL \<notin> set ?r"
      using Cons.prems(2) Data pieces_rest_set [of "r @ bs"] by auto
    have ih: "feed dl (inps @ [Eof]) (holds ?r) w1 =
        bindE (foldE (parse_cmd dl) (fst (pieces (?r @ ?t))) w1) (\<lambda>w2. Inr (False, holds [], w2))" for w1
      by (rule Cons.IH) (use Cons.prems n in \<open>auto simp: pending_def\<close>)
    have "fst (pieces (r @ bs @ ?t)) = fst (pieces (r @ bs)) @ fst (pieces (?r @ ?t))"
      using pieces_append [of "r @ bs" ?t] by simp
    then show ?thesis
      using Data n(1) ih Cons.prems(3)
      by (simp add: new_input_def append_pending split_line_pieces foldE_append bindE_def split: sum.splits)
  next
    case Eof
    then show ?thesis using Cons.prems(1) by simp
  qed
qed

text \<open>The words of the commands of a text that are to be run: all but the comments and the empty ones.\<close>

definition is_comment :: "string \<Rightarrow> bool" where
  "is_comment cmd \<longleftrightarrow> cmd \<noteq> [] \<and> hd cmd = CHR ''#''"

definition commands :: "string \<Rightarrow> string list list" where
  "commands s = filter (\<lambda>argv. argv \<noteq> []) (map tokens (filter (\<lambda>cmd. \<not> is_comment cmd) (fst (pieces (s @ [CHR 0x0A])))))"

lemma parse_short_commands:
  "\<forall>cmd \<in> set cmds. is_comment cmd \<or> length (tokens cmd) < 100 \<Longrightarrow>
    foldE (parse_cmd dl) cmds w =
      Inr (foldl (\<lambda>w argv. snd (run_gea_main dl argv w)) w
        (filter (\<lambda>argv. argv \<noteq> []) (map tokens (filter (\<lambda>cmd. \<not> is_comment cmd) cmds))))"
  by (induction cmds arbitrary: w) (auto simp: parse_cmd_def is_comment_def Let_def)

text \<open>C30. On an input without zero bytes, however it is cut into the pieces that \<^verbatim>\<open>read\<close> gives and however often
  the handle is not ready in between, the calls made up to the end of the input are those of \<^verbatim>\<open>parse_cmd\<close> for the text
  cut at newlines and semicolons, with a newline added at the end. When every command that is no
  comment has fewer than 100 words, no access leaves its block, nothing is left over, and the main functions are
  called for exactly the commands that are neither empty nor comments, each with its words, in order. The theorems under
  Limits show what a longer command and a zero byte do.\<close>

theorem loader_runs_commands:
  assumes "Eof \<notin> set inps" "NUL \<notin> set (concat (map bytes inps))"
  shows "feed dl (inps @ [Eof]) new_loader w =
      bindE (foldE (parse_cmd dl) (fst (pieces (concat (map bytes inps) @ [CHR 0x0A]))) w) (\<lambda>w1. Inr (False, holds [], w1))
    \<and> ((\<forall>cmd \<in> set (fst (pieces (concat (map bytes inps) @ [CHR 0x0A]))). is_comment cmd \<or> length (tokens cmd) < 100) \<longrightarrow>
       feed dl (inps @ [Eof]) new_loader w =
         Inr (False, holds [], foldl (\<lambda>w argv. snd (run_gea_main dl argv w)) w (commands (concat (map bytes inps)))))"
  using feed_pending [OF assms(1), of "[]" new_loader dl w] assms(2)
    parse_short_commands [of "fst (pieces (concat (map bytes inps) @ [CHR 0x0A]))" dl w]
  by (simp add: pending_def commands_def)

text \<open>A linker that opens everything, with modules that record how they were called.\<close>

definition demo_dl :: "(unit, unit, string list list) dl" where
  "demo_dl = \<lparr>dlopen = (\<lambda>p w. (Some (), w)), dlsym = (\<lambda>l n. Some ()), call_main = (\<lambda>f argv w. (0, w @ [argv]))\<rparr>"

theorem loader_runs_commands_witness:
  "feed demo_dl [Data ''./a x;# '', NotReady, Data ''skip;./b'', Eof] new_loader [] =
    Inr (False, holds [], [[''./a'', ''x''], [''./b'']])"
proof -
  let ?inps = "[Data ''./a x;# '', NotReady, Data ''skip;./b'']"
  have t: "tokens ''./a x'' = [''./a'', ''x'']" "tokens ''./b'' = [''./b'']" "tokens ''# skip'' = [''#'', ''skip'']"
    by (simp_all add: tokens.simps is_blank_def)
  have p: "pieces (concat (map bytes ?inps) @ [CHR 0x0A]) = ([''./a x'', ''# skip'', ''./b''], [])"
    by (simp add: is_delim_def)
  then have c: "commands (concat (map bytes ?inps)) = [[''./a'', ''x''], [''./b'']]"
    unfolding commands_def by (simp add: is_comment_def t)
  have "\<forall>cmd \<in> set (fst (pieces (concat (map bytes ?inps) @ [CHR 0x0A]))). is_comment cmd \<or> length (tokens cmd) < 100"
    unfolding p by (simp add: t)
  moreover have "NUL \<notin> set (concat (map bytes ?inps))" "Eof \<notin> set ?inps" by (simp_all add: NUL_def)
  ultimately have "feed demo_dl (?inps @ [Eof]) new_loader [] =
      Inr (False, holds [], foldl (\<lambda>w argv. snd (run_gea_main demo_dl argv w)) [] (commands (concat (map bytes ?inps))))"
    using loader_runs_commands [of ?inps demo_dl "[]"] by blast
  then show ?thesis unfolding c by (simp add: run_gea_main_def demo_dl_def)
qed

section \<open>Limits\<close>

text \<open>\<^verbatim>\<open>parse_cmd\<close> collects at most 99 words: a command of 100 words or more that is no comment writes
  behind the array \<^verbatim>\<open>argv\<close>, every shorter one is run.\<close>

theorem long_command_overflows:
  "parse_cmd dl cmd w = Inl BufferOverflow \<longleftrightarrow> \<not> (cmd \<noteq> [] \<and> hd cmd = CHR ''#'') \<and> 100 \<le> length (tokens cmd)"
  by (simp add: parse_cmd_def Let_def)

text \<open>A line that holds a zero byte.\<close>

definition stuck :: "loader \<Rightarrow> bool" where
  "stuck st \<longleftrightarrow> (\<exists>r xs. clean r \<and> line st = map Some r @ Some NUL # xs \<and> length r < line_len st)"

lemma stuck_append: "stuck st \<Longrightarrow> stuck (append_input bs st)"
proof -
  assume "stuck st"
  then obtain r xs where r: "clean r" "line st = map Some r @ Some NUL # xs" "length r < line_len st"
    by (auto simp: stuck_def)
  then have "take (line_len st) (line st) = map Some r @ Some NUL # take (line_len st - Suc (length r)) xs"
    by (simp add: take_Cons')
  then show ?thesis using r(1,3) by (auto simp: stuck_def append_input_def)
qed

lemma stuck_split: "stuck st \<Longrightarrow> split_line dl st w = Inr (st, w)"
proof -
  assume "stuck st"
  then obtain r xs where r: "clean r" "line st = map Some r @ Some NUL # xs" by (auto simp: stuck_def)
  have c: "cstr (line st) = Inr r" using r by (auto simp: clean_def)
  have "takeWhile (\<lambda>c. \<not> is_delim c) r = r" using r(1) by (simp add: clean_def takeWhile_eq_all_conv)
  then have len: "length (takeWhile (\<lambda>c. \<not> is_delim c) r) = length r" by (rule arg_cong)
  show ?thesis by (subst split_line.simps) (simp add: c len Let_def)
qed

lemma stuck_feed: "stuck st \<Longrightarrow> \<exists>again st1. feed dl inps st w = Inr (again, st1, w)"
proof (induction inps arbitrary: st)
  case (Cons inp inps)
  show ?case
    by (cases inp) (use Cons in \<open>auto simp: new_input_def stuck_split stuck_append\<close>)
qed auto

text \<open>A zero byte in the input switches the loader off: \<^verbatim>\<open>strpbrk\<close> does not look behind it, so of
  everything that is read afterwards, up to the end of the input, no command is run and no error is
  reported.\<close>

theorem nul_byte_stops_loader:
  assumes "clean s"
  shows "\<exists>again st1. feed dl (Data (s @ [NUL] @ bs) # inps) new_loader w = Inr (again, st1, w)"
proof -
  have st: "stuck (append_input (s @ [NUL] @ bs) new_loader)"
    using assms by (auto simp: stuck_def append_input_def new_loader_def)
  then show ?thesis using stuck_feed [OF st, of dl inps w] by (simp add: new_input_def stuck_split)
qed

theorem nul_byte_stops_loader_witness:
  "\<exists>again st1. feed demo_dl [Data (''./a'' @ [NUL]), Data ''; ./b;'', Eof] new_loader [] = Inr (again, st1, [])"
  using nul_byte_stops_loader [of "''./a''" demo_dl "[]" "[Data ''; ./b;'', Eof]" "[]"]
  by (simp add: clean_def is_delim_def NUL_def)

end
