(* ===== verification/Ns_Scheduler.thy ===== *)
theory Ns_Scheduler
  imports Gea_Prelude
begin

text \<open>
  The event scheduler of the simulator, \<^verbatim>\<open>ns2-gea/ns-2/common/scheduler.h\<close> and
  \<^verbatim>\<open>scheduler.cc\<close>: the events, the operations of the base class \<^verbatim>\<open>Scheduler\<close>
  and \<^verbatim>\<open>ListScheduler\<close>.

  An event lives at an address of the store \<open>events\<close>; its links \<^verbatim>\<open>next_\<close> and
  \<^verbatim>\<open>prev_\<close> are used only by the queue it is in and are part of the queue's own
  representation. The pure virtual operations of \<^verbatim>\<open>Scheduler\<close> are the fields of the record
  \<open>ops\<close>, one value of which stands for each subclass; the operations of the base class take
  that value as an argument. A handler's \<^verbatim>\<open>handle\<close> is any function that, from the clock, the
  events and a state \<open>'w\<close> of its own, computes the scheduler operations it calls.

  The locale \<open>event_queue\<close> is the contract of the pure virtual operations, \<open>fifo_queue\<close> adds the
  order among events of the same time. The facts on \<open>schedule\<close>, \<open>dispatch\<close> and \<open>run\<close> are proved
  once in them and hold for every subclass interpreted.
\<close>

section \<open>Events and schedulers\<close>

type_synonym eaddr = nat
type_synonym uid = int

text \<open>Handler 0 is the null pointer. \<^verbatim>\<open>uid_\<close> is positive while the event is queued.\<close>

record Event =
  ehandler :: nat
  etime :: double
  euid :: uid

type_synonym events = "eaddr \<Rightarrow> Event"

text \<open>The virtual operations; the store is an argument because they read and write events.\<close>

record 'q ops =
  op_cancel :: "events \<Rightarrow> eaddr \<Rightarrow> 'q \<Rightarrow> (events \<times> 'q) result"
  op_insert :: "events \<Rightarrow> eaddr \<Rightarrow> 'q \<Rightarrow> 'q result"
  op_lookup :: "events \<Rightarrow> uid \<Rightarrow> 'q \<Rightarrow> (eaddr option \<times> 'q) result"
  op_deque :: "events \<Rightarrow> 'q \<Rightarrow> (eaddr option \<times> 'q) result"
  op_head :: "events \<Rightarrow> 'q \<Rightarrow> (eaddr option \<times> 'q) result"

text \<open>\<open>s_uid\<close> is the static \<^verbatim>\<open>Scheduler::uid_\<close>, a 64-bit integer; \<open>at_proc\<close> the member
  \<^verbatim>\<open>proc_\<close> of the events that are \<^verbatim>\<open>AtEvent\<close>s.\<close>

record 'q Scheduler =
  events :: events
  queue :: 'q
  clock :: double
  halted :: bool
  s_uid :: uid
  at_proc :: "eaddr \<Rightarrow> string"

definition SCHED_START :: double where
  "SCHED_START = 0"

definition new_Scheduler :: "events \<Rightarrow> 'q \<Rightarrow> 'q Scheduler" where
  "new_Scheduler ev q = \<lparr>events = ev, queue = q, clock = SCHED_START, halted = False, s_uid = 1,
     at_proc = \<lambda>_. []\<rparr>"

text \<open>The constructor of \<^verbatim>\<open>Event\<close> leaves \<^verbatim>\<open>handler_\<close> as the memory had it.\<close>

definition new_Event :: "eaddr \<Rightarrow> events \<Rightarrow> events" where
  "new_Event a ev = ev(a := (ev a)\<lparr>etime := 0, euid := 0\<rparr>)"

text \<open>\<^verbatim>\<open>e->uid_ = - e->uid_\<close>: the event leaves the queue.\<close>

definition negate_uid :: "eaddr \<Rightarrow> events \<Rightarrow> events" where
  "negate_uid e ev = ev(e := (ev e)\<lparr>euid := - euid (ev e)\<rparr>)"

text \<open>\<^verbatim>\<open>uid_++\<close> at 64 bits.\<close>

definition next_uid :: "uid \<Rightarrow> uid" where
  "next_uid u = (if u = 2 ^ 63 - 1 then - (2 ^ 63) else u + 1)"

definition uid_exhausted :: gea_error where
  "uid_exhausted = AssertFailed ''Scheduler: UID space exhausted!''"

definition schedule :: "'q ops \<Rightarrow> nat \<Rightarrow> eaddr \<Rightarrow> double \<Rightarrow> 'q Scheduler \<Rightarrow> 'q Scheduler result" where
  "schedule ops h e delay s =
     (if h = 0 then Inl (AssertFailed ''Scheduler: attempt to schedule an event with a NULL handler.'')
      else if euid (events s e) > 0 then Inl (AssertFailed ''Scheduler: Event UID not valid!'')
      else if s_uid s < 0 then Inl uid_exhausted
      else
        let t = clock s + delay;
            ev = (events s)(e := (events s e)\<lparr>euid := s_uid s, ehandler := h, etime := t\<rparr>)
        in bindE (op_insert ops ev e (queue s))
             (\<lambda>q. Inr (s\<lparr>events := ev, s_uid := next_uid (s_uid s), queue := q\<rparr>)))"

definition cancel :: "'q ops \<Rightarrow> eaddr \<Rightarrow> 'q Scheduler \<Rightarrow> 'q Scheduler result" where
  "cancel ops e s =
     bindE (op_cancel ops (events s) e (queue s)) (\<lambda>(ev, q). Inr (s\<lparr>events := ev, queue := q\<rparr>))"

definition deque :: "'q ops \<Rightarrow> 'q Scheduler \<Rightarrow> (eaddr option \<times> 'q Scheduler) result" where
  "deque ops s = bindE (op_deque ops (events s) (queue s)) (\<lambda>(p, q). Inr (p, s\<lparr>queue := q\<rparr>))"

definition lookup :: "'q ops \<Rightarrow> uid \<Rightarrow> 'q Scheduler \<Rightarrow> (eaddr option \<times> 'q Scheduler) result" where
  "lookup ops u s = bindE (op_lookup ops (events s) u (queue s)) (\<lambda>(p, q). Inr (p, s\<lparr>queue := q\<rparr>))"

definition reset :: "'q Scheduler \<Rightarrow> 'q Scheduler" where
  "reset s = s\<lparr>clock := SCHED_START\<rparr>"

section \<open>Dispatching\<close>

text \<open>What a handler can do to the scheduler: make an event at a free address, schedule or cancel
  one, or halt.\<close>

datatype sched_call =
    NewEvent eaddr
  | Schedule nat eaddr double
  | Cancel eaddr
  | Halt

primrec exec_call :: "'q ops \<Rightarrow> sched_call \<Rightarrow> 'q Scheduler \<Rightarrow> 'q Scheduler result" where
  "exec_call ops (NewEvent a) s = Inr (s\<lparr>events := new_Event a (events s)\<rparr>)"
| "exec_call ops (Schedule h a d) s = schedule ops h a d s"
| "exec_call ops (Cancel a) s = cancel ops a s"
| "exec_call ops Halt s = Inr (s\<lparr>halted := True\<rparr>)"

type_synonym 'w handler = "nat \<Rightarrow> eaddr \<Rightarrow> double \<Rightarrow> events \<Rightarrow> 'w \<Rightarrow> 'w \<times> sched_call list"

text \<open>A simulation: the scheduler, the handlers' own state, and the history of dispatches, each
  with the event, the clock and the event's number.\<close>

record ('q, 'w) sim =
  sched :: "'q Scheduler"
  world :: 'w
  trace :: "(eaddr \<times> double \<times> uid) list"

definition dispatch :: "'q ops \<Rightarrow> 'w handler \<Rightarrow> eaddr \<Rightarrow> double \<Rightarrow> ('q, 'w) sim \<Rightarrow> ('q, 'w) sim result" where
  "dispatch ops handle p t S =
     (let s = sched S; e = events s p in
      if t < clock s then Inl (AssertFailed ''ns: scheduler going backwards in time'')
      else if ehandler e = 0 then Inl NullPointer
      else
        let s1 = s\<lparr>clock := t, events := negate_uid p (events s)\<rparr>;
            (w, calls) = handle (ehandler e) p t (events s1) (world S)
        in bindE (foldE (exec_call ops) calls s1)
             (\<lambda>s2. Inr \<lparr>sched = s2, world = w, trace = trace S @ [(p, t, euid e)]\<rparr>))"

fun run :: "'q ops \<Rightarrow> 'w handler \<Rightarrow> nat \<Rightarrow> ('q, 'w) sim \<Rightarrow> ('q, 'w) sim result" where
  "run ops handle 0 S = Inl OutOfFuel"
| "run ops handle (Suc n) S =
     (if halted (sched S) then Inr S
      else bindE (deque ops (sched S))
        (\<lambda>(p, s). case p of
            None \<Rightarrow> Inr (S\<lparr>sched := s\<rparr>)
          | Some e \<Rightarrow> bindE (dispatch ops handle e (etime (events s e)) (S\<lparr>sched := s\<rparr>)) (run ops handle n)))"

text \<open>\<^verbatim>\<open>dumpq\<close> empties the queue and prints each event; the result is what it prints.\<close>

fun dumpq :: "'q ops \<Rightarrow> nat \<Rightarrow> 'q Scheduler \<Rightarrow> ((double \<times> uid \<times> nat) list \<times> 'q Scheduler) result" where
  "dumpq ops 0 s = Inl OutOfFuel"
| "dumpq ops (Suc n) s =
     bindE (deque ops s) (\<lambda>(p, s1). case p of
         None \<Rightarrow> Inr ([], s1)
       | Some e \<Rightarrow> bindE (dumpq ops n s1)
           (\<lambda>(out, s2). Inr ((etime (events s1 e), euid (events s1 e), ehandler (events s1 e)) # out, s2)))"

section \<open>The list scheduler\<close>

text \<open>The linked list \<^verbatim>\<open>queue_\<close> from its head.\<close>

type_synonym ListScheduler = "eaddr list"

fun ListScheduler_insert :: "events \<Rightarrow> eaddr \<Rightarrow> ListScheduler \<Rightarrow> ListScheduler" where
  "ListScheduler_insert ev e [] = [e]"
| "ListScheduler_insert ev e (p # ps) =
     (if etime (ev e) < etime (ev p) then e # p # ps else p # ListScheduler_insert ev e ps)"

fun ListScheduler_unlink :: "eaddr \<Rightarrow> ListScheduler \<Rightarrow> ListScheduler result" where
  "ListScheduler_unlink e [] = Inl (AssertFailed ''abort'')"
| "ListScheduler_unlink e (p # ps) =
     (if p = e then Inr ps else bindE (ListScheduler_unlink e ps) (\<lambda>qs. Inr (p # qs)))"

definition ListScheduler_cancel :: "events \<Rightarrow> eaddr \<Rightarrow> ListScheduler \<Rightarrow> (events \<times> ListScheduler) result" where
  "ListScheduler_cancel ev e q =
     (if euid (ev e) \<le> 0 then Inr (ev, q)
      else bindE (ListScheduler_unlink e q)
        (\<lambda>q'. Inr (negate_uid e ev, q')))"

fun ListScheduler_lookup :: "events \<Rightarrow> uid \<Rightarrow> ListScheduler \<Rightarrow> eaddr option" where
  "ListScheduler_lookup ev u [] = None"
| "ListScheduler_lookup ev u (e # es) = (if euid (ev e) = u then Some e else ListScheduler_lookup ev u es)"

fun ListScheduler_deque :: "ListScheduler \<Rightarrow> eaddr option \<times> ListScheduler" where
  "ListScheduler_deque [] = (None, [])"
| "ListScheduler_deque (e # es) = (Some e, es)"

fun ListScheduler_head :: "ListScheduler \<Rightarrow> eaddr option" where
  "ListScheduler_head [] = None"
| "ListScheduler_head (e # es) = Some e"

definition ListScheduler_ops :: "ListScheduler ops" where
  "ListScheduler_ops =
     \<lparr>op_cancel = ListScheduler_cancel,
      op_insert = \<lambda>ev e q. Inr (ListScheduler_insert ev e q),
      op_lookup = \<lambda>ev u q. Inr (ListScheduler_lookup ev u q, q),
      op_deque = \<lambda>ev q. Inr (ListScheduler_deque q),
      op_head = \<lambda>ev q. Inr (ListScheduler_head q, q)\<rparr>"

section \<open>The Tcl interface\<close>

text \<open>
  \<^verbatim>\<open>Scheduler::command\<close> on the words of a Tcl command, \<open>argv ! 0\<close> the name of the method
  table entry. What it leaves as the Tcl result is a \<open>tcl_value\<close>. The C conversions
  \<^verbatim>\<open>atof\<close> and \<^verbatim>\<open>STRTOUID\<close>, the address \<open>a\<close> that \<^verbatim>\<open>new AtEvent\<close> returns and the
  address \<open>at_h\<close> of \<^verbatim>\<open>at_handler\<close> are arguments, as is the fuel of \<open>run\<close> and \<open>dumpq\<close>.
\<close>

datatype tcl_value = TclNothing | TclTime double | TclUid uid | TclDump "(double \<times> uid \<times> nat) list"

datatype tcl_status = TCL_OK tcl_value | TCL_ERROR string | TCL_OBJECT_COMMAND

definition at_event :: "eaddr \<Rightarrow> string \<Rightarrow> 'q Scheduler \<Rightarrow> 'q Scheduler" where
  "at_event a proc s = s\<lparr>events := new_Event a (events s), at_proc := (at_proc s)(a := proc)\<rparr>"

definition schedule_at ::
    "'q ops \<Rightarrow> nat \<Rightarrow> eaddr \<Rightarrow> string \<Rightarrow> double \<Rightarrow> ('q, 'w) sim \<Rightarrow> (tcl_status \<times> ('q, 'w) sim) result" where
  "schedule_at ops at_h a proc delay S =
     bindE (schedule ops at_h a delay (at_event a proc (sched S)))
       (\<lambda>s. Inr (TCL_OK (TclUid (euid (events s a))), S\<lparr>sched := s\<rparr>))"

definition command2 ::
    "'q ops \<Rightarrow> 'w handler \<Rightarrow> nat \<Rightarrow> string \<Rightarrow> ('q, 'w) sim \<Rightarrow> (tcl_status \<times> ('q, 'w) sim) result" where
  "command2 ops handle n cmd S =
     (if cmd = ''run'' then
        bindE (run ops handle n (S\<lparr>sched := reset (sched S)\<rparr>)) (\<lambda>S'. Inr (TCL_OK TclNothing, S'))
      else if cmd = ''now'' then Inr (TCL_OK (TclTime (clock (sched S))), S)
      else if cmd = ''resume'' then
        bindE (run ops handle n (S\<lparr>sched := (sched S)\<lparr>halted := False\<rparr>\<rparr>)) (\<lambda>S'. Inr (TCL_OK TclNothing, S'))
      else if cmd = ''halt'' then Inr (TCL_OK TclNothing, S\<lparr>sched := (sched S)\<lparr>halted := True\<rparr>\<rparr>)
      else if cmd = ''clearMemTrace'' then Inr (TCL_OK TclNothing, S)
      else if cmd = ''is-running'' then Inr (TCL_OK TclNothing, S)
      else if cmd = ''dumpq'' then
        if \<not> halted (sched S) then Inr (TCL_ERROR ''0'', S)
        else bindE (dumpq ops n (sched S)) (\<lambda>(out, s). Inr (TCL_OK (TclDump out), S\<lparr>sched := s\<rparr>))
      else Inr (TCL_OBJECT_COMMAND, S))"

definition command3 ::
    "'q ops \<Rightarrow> (string \<Rightarrow> uid) \<Rightarrow> nat \<Rightarrow> eaddr \<Rightarrow> string \<Rightarrow> string \<Rightarrow> ('q, 'w) sim
      \<Rightarrow> (tcl_status \<times> ('q, 'w) sim) result" where
  "command3 ops strtouid at_h a cmd arg S =
     (if cmd = ''at'' \<or> cmd = ''cancel'' then
        bindE (lookup ops (strtouid arg) (sched S)) (\<lambda>(p, s). case p of
            None \<Rightarrow> Inr (TCL_OK TclNothing, S\<lparr>sched := s\<rparr>)
          | Some e \<Rightarrow> bindE (cancel ops e s) (\<lambda>s'. Inr (TCL_OK TclNothing, S\<lparr>sched := s'\<rparr>)))
      else if cmd = ''at-now'' then
        schedule_at ops at_h a arg 0 S
      else Inr (TCL_OK TclNothing, S))"

definition command4 ::
    "'q ops \<Rightarrow> (string \<Rightarrow> double) \<Rightarrow> nat \<Rightarrow> eaddr \<Rightarrow> string \<Rightarrow> string \<Rightarrow> string \<Rightarrow> ('q, 'w) sim
      \<Rightarrow> (tcl_status \<times> ('q, 'w) sim) result" where
  "command4 ops atof at_h a cmd time proc S =
     (if cmd = ''at'' then
        let t = atof time; delay = (if t < 0 then - t else t - clock (sched S)) in
        if delay < 0
        then Inr (TCL_ERROR ''can't schedule command in past'', S\<lparr>sched := at_event a proc (sched S)\<rparr>)
        else schedule_at ops at_h a proc delay S
      else Inr (TCL_OBJECT_COMMAND, S))"

definition command ::
    "'q ops \<Rightarrow> 'w handler \<Rightarrow> (string \<Rightarrow> double) \<Rightarrow> (string \<Rightarrow> uid) \<Rightarrow> nat \<Rightarrow> nat \<Rightarrow> eaddr \<Rightarrow> string list
      \<Rightarrow> ('q, 'w) sim \<Rightarrow> (tcl_status \<times> ('q, 'w) sim) result" where
  "command ops handle atof strtouid n at_h a argv S =
     (case argv of
        [_, cmd] \<Rightarrow> command2 ops handle n cmd S
      | [_, cmd, arg] \<Rightarrow> command3 ops strtouid at_h a cmd arg S
      | [_, cmd, time, proc] \<Rightarrow> command4 ops atof at_h a cmd time proc S
      | _ \<Rightarrow> Inr (TCL_OBJECT_COMMAND, S))"

section \<open>The contract of the virtual operations\<close>

text \<open>
  \<open>qinv\<close> is the queue's invariant on the store, \<open>members\<close> the events in it. The invariant reads only
  the times and numbers of the members. An insertion is promised for an event that is not in the
  queue, is not before the start time and has a number above those in the queue, which is what
  \<^verbatim>\<open>Scheduler::schedule\<close> hands over; a cancellation for an event of the queue.
\<close>

definition same_on :: "eaddr set \<Rightarrow> events \<Rightarrow> events \<Rightarrow> bool" where
  "same_on A ev ev' \<longleftrightarrow> (\<forall>a \<in> A. etime (ev' a) = etime (ev a) \<and> euid (ev' a) = euid (ev a))"

definition next_event :: "events \<Rightarrow> eaddr set \<Rightarrow> eaddr option \<Rightarrow> bool" where
  "next_event ev A r =
     (case r of None \<Rightarrow> A = {} | Some e \<Rightarrow> e \<in> A \<and> (\<forall>x \<in> A. etime (ev e) \<le> etime (ev x)))"

definition looked_up :: "events \<Rightarrow> uid \<Rightarrow> eaddr set \<Rightarrow> eaddr option \<Rightarrow> bool" where
  "looked_up ev u A r =
     (case r of None \<Rightarrow> \<forall>x \<in> A. euid (ev x) \<noteq> u | Some e \<Rightarrow> e \<in> A \<and> euid (ev e) = u)"

definition insertable :: "events \<Rightarrow> eaddr \<Rightarrow> eaddr set \<Rightarrow> bool" where
  "insertable ev e A \<longleftrightarrow> e \<notin> A \<and> 0 \<le> etime (ev e) \<and> (\<forall>x \<in> A. euid (ev x) < euid (ev e))"

locale event_queue =
  fixes ops :: "'q ops"
    and qinv :: "events \<Rightarrow> 'q \<Rightarrow> bool"
    and members :: "'q \<Rightarrow> eaddr set"
  assumes finite_members: "qinv ev q \<Longrightarrow> finite (members q)"
    and inv_cong: "qinv ev q \<Longrightarrow> same_on (members q) ev ev' \<Longrightarrow> qinv ev' q"
    and insert_law: "qinv ev q \<Longrightarrow> insertable ev e (members q) \<Longrightarrow>
      \<exists>q'. op_insert ops ev e q = Inr q' \<and> qinv ev q' \<and> members q' = insert e (members q)"
    and deque_law: "qinv ev q \<Longrightarrow>
      \<exists>r q'. op_deque ops ev q = Inr (r, q') \<and> qinv ev q' \<and> members q' = members q - set_option r
        \<and> next_event ev (members q) r"
    and cancel_idle: "qinv ev q \<Longrightarrow> \<forall>x \<in> members q. 0 < euid (ev x) \<Longrightarrow> euid (ev e) \<le> 0 \<Longrightarrow>
      op_cancel ops ev e q = Inr (ev, q)"
    and cancel_law: "qinv ev q \<Longrightarrow> e \<in> members q \<Longrightarrow> 0 < euid (ev e) \<Longrightarrow>
      \<exists>q'. op_cancel ops ev e q = Inr (negate_uid e ev, q') \<and> qinv ev q' \<and> members q' = members q - {e}"
    and lookup_law: "qinv ev q \<Longrightarrow>
      \<exists>r q'. op_lookup ops ev u q = Inr (r, q') \<and> qinv ev q' \<and> members q' = members q
        \<and> looked_up ev u (members q) r"

text \<open>\<^verbatim>\<open>head\<close> returns what \<^verbatim>\<open>deque\<close> would return, the null pointer if there is nothing.
  \<^verbatim>\<open>run\<close> does without it; the real time scheduler needs it.\<close>

locale peekable_queue = event_queue +
  assumes head_law: "qinv ev q \<Longrightarrow>
    \<exists>r q' q''. op_head ops ev q = Inr (r, q') \<and> qinv ev q' \<and> members q' = members q
      \<and> op_deque ops ev q = Inr (r, q'')"

text \<open>First in, first out among events of one time: the queue has an order, to which an insertion
  is the stable one and from which the first event is taken.\<close>

locale fifo_queue = event_queue +
  fixes order :: "events \<Rightarrow> 'q \<Rightarrow> eaddr list"
  assumes order_members: "qinv ev q \<Longrightarrow> set (order ev q) = members q"
    and order_distinct: "qinv ev q \<Longrightarrow> distinct (order ev q)"
    and order_cong: "qinv ev q \<Longrightarrow> same_on (members q) ev ev' \<Longrightarrow> order ev' q = order ev q"
    and order_insert: "qinv ev q \<Longrightarrow> insertable ev e (members q) \<Longrightarrow> op_insert ops ev e q = Inr q' \<Longrightarrow>
      order ev q' = insert_upper (\<lambda>a. etime (ev a)) e (order ev q)"
    and order_deque: "qinv ev q \<Longrightarrow> op_deque ops ev q = Inr (r, q') \<Longrightarrow>
      (case r of None \<Rightarrow> order ev q = [] | Some e \<Rightarrow> order ev q = e # order ev q')"
    and order_cancel: "qinv ev q \<Longrightarrow> e \<in> members q \<Longrightarrow> 0 < euid (ev e) \<Longrightarrow>
      op_cancel ops ev e q = Inr (ev', q') \<Longrightarrow> order ev q' = removeAll e (order ev q)"
    and order_lookup: "qinv ev q \<Longrightarrow> op_lookup ops ev u q = Inr (r, q') \<Longrightarrow> order ev q' = order ev q"

primrec scheduled :: "sched_call \<Rightarrow> eaddr set" where
  "scheduled (NewEvent a) = {}"
| "scheduled (Schedule h a d) = {a}"
| "scheduled (Cancel a) = {}"
| "scheduled Halt = {}"

primrec cancelled :: "sched_call \<Rightarrow> eaddr set" where
  "cancelled (NewEvent a) = {}"
| "cancelled (Schedule h a d) = {}"
| "cancelled (Cancel a) = {a}"
| "cancelled Halt = {}"

section \<open>The invariant of a scheduler\<close>

text \<open>The events with a positive number are those in the queue; none is due before the clock; the
  numbers are different and below the next one to be given.\<close>

definition sched_inv :: "(events \<Rightarrow> 'q \<Rightarrow> bool) \<Rightarrow> ('q \<Rightarrow> eaddr set) \<Rightarrow> 'q Scheduler \<Rightarrow> bool" where
  "sched_inv qinv members s \<longleftrightarrow>
     qinv (events s) (queue s) \<and> members (queue s) = {a. 0 < euid (events s a)}
     \<and> (\<forall>a \<in> members (queue s). clock s \<le> etime (events s a) \<and> ehandler (events s a) \<noteq> 0
         \<and> (0 < s_uid s \<longrightarrow> euid (events s a) < s_uid s))
     \<and> inj_on (\<lambda>a. euid (events s a)) (members (queue s))
     \<and> 0 \<le> clock s \<and> s_uid s \<noteq> 0"

text \<open>A call that a handler may make: an event is made or scheduled only while it is not queued,
  with a handler and not in the past.\<close>

primrec call_ok :: "sched_call \<Rightarrow> 'q Scheduler \<Rightarrow> bool" where
  "call_ok (NewEvent a) s = (euid (events s a) \<le> 0)"
| "call_ok (Schedule h a d) s = (h \<noteq> 0 \<and> euid (events s a) \<le> 0 \<and> 0 \<le> d)"
| "call_ok (Cancel a) s = True"
| "call_ok Halt s = True"

fun calls_ok :: "'q ops \<Rightarrow> sched_call list \<Rightarrow> 'q Scheduler \<Rightarrow> bool" where
  "calls_ok ops [] s = True"
| "calls_ok ops (c # cs) s =
     (call_ok c s \<and> (case exec_call ops c s of Inl _ \<Rightarrow> True | Inr s' \<Rightarrow> calls_ok ops cs s'))"

definition handler_ok :: "'q ops \<Rightarrow> 'w handler \<Rightarrow> bool" where
  "handler_ok ops handle \<longleftrightarrow>
     (\<forall>s w h p. euid (events s p) \<le> 0 \<longrightarrow> calls_ok ops (snd (handle h p (clock s) (events s) w)) s)"

lemma negate_uid_simps [simp]:
  "etime (negate_uid e ev a) = etime (ev a)"
  "ehandler (negate_uid e ev a) = ehandler (ev a)"
  "euid (negate_uid e ev a) = (if a = e then - euid (ev e) else euid (ev a))"
  by (simp_all add: negate_uid_def)

lemma new_Event_simps [simp]:
  "etime (new_Event e ev a) = (if a = e then 0 else etime (ev a))"
  "ehandler (new_Event e ev a) = ehandler (ev a)"
  "euid (new_Event e ev a) = (if a = e then 0 else euid (ev a))"
  by (simp_all add: new_Event_def)

lemma queue_update_inject [simp]: "s\<lparr>queue := p\<rparr> = s\<lparr>queue := q\<rparr> \<longleftrightarrow> p = q"
  by (cases s) simp

lemma looked_up_insert:
  "euid (ev e) \<noteq> u \<Longrightarrow> looked_up ev u (insert e A) r = looked_up ev u A r"
  "looked_up ev u (insert e A) (Some e) \<longleftrightarrow> euid (ev e) = u"
  "looked_up ev u {} r \<longleftrightarrow> r = None"
  by (auto simp: looked_up_def split: option.splits)

lemma next_uid_positive: "0 < u \<Longrightarrow> next_uid u \<noteq> 0 \<and> (0 < next_uid u \<longrightarrow> u < next_uid u)"
  by (auto simp: next_uid_def)

section \<open>What every scheduler does\<close>

context event_queue begin

abbreviation SI :: "'q Scheduler \<Rightarrow> bool" where
  "SI \<equiv> sched_inv qinv members"

lemma schedule_step:
  assumes si: "SI s" and h: "h \<noteq> 0" and e: "euid (events s e) \<le> 0" and d: "0 \<le> d"
  shows "(if s_uid s < 0 then schedule ops h e d s = Inl uid_exhausted
    else \<exists>s'. schedule ops h e d s = Inr s' \<and> SI s' \<and> clock s' = clock s \<and> halted s' = halted s
      \<and> members (queue s') = insert e (members (queue s)) \<and> etime (events s' e) = clock s + d
      \<and> euid (events s' e) = s_uid s \<and> (\<forall>a. a \<noteq> e \<longrightarrow> events s' a = events s a))"
proof (cases "s_uid s < 0")
  case False
  define ev where "ev = (events s)(e := (events s e)\<lparr>euid := s_uid s, ehandler := h, etime := clock s + d\<rparr>)"
  have uid: "0 < s_uid s" and mem: "members (queue s) = {a. 0 < euid (events s a)}"
    and out: "e \<notin> members (queue s)"
    using False si e by (auto simp: sched_inv_def)
  have "same_on (members (queue s)) (events s) ev"
    using out by (auto simp: same_on_def ev_def)
  then have inv: "qinv ev (queue s)" using si inv_cong by (auto simp: sched_inv_def)
  moreover have "insertable ev e (members (queue s))"
    using out si d uid by (auto simp: insertable_def ev_def sched_inv_def)
  ultimately obtain q' where q': "op_insert ops ev e (queue s) = Inr q'" "qinv ev q'"
    "members q' = insert e (members (queue s))"
    using insert_law by blast
  let ?s = "s\<lparr>events := ev, s_uid := next_uid (s_uid s), queue := q'\<rparr>"
  have run: "schedule ops h e d s = Inr ?s"
    using False h e q'(1) by (simp add: schedule_def Let_def ev_def)
  have old: "\<And>a. a \<in> members (queue s) \<Longrightarrow> clock s \<le> etime (ev a) \<and> ehandler (ev a) \<noteq> 0
      \<and> euid (ev a) < s_uid s" and inj: "inj_on (\<lambda>a. euid (ev a)) (members (queue s))"
    using si uid out by (auto simp: sched_inv_def ev_def inj_on_def)
  have same: "\<And>a. a \<noteq> e \<Longrightarrow> ev a = events s a" and new: "euid (ev e) = s_uid s" "ehandler (ev e) = h"
    "etime (ev e) = clock s + d" by (simp_all add: ev_def)
  have "SI ?s"
    unfolding sched_inv_def
  proof (intro conjI)
    show "members (queue ?s) = {a. 0 < euid (events ?s a)}"
      using q'(3) mem uid new same by auto metis
    show "\<forall>a \<in> members (queue ?s). clock ?s \<le> etime (events ?s a) \<and> ehandler (events ?s a) \<noteq> 0
        \<and> (0 < s_uid ?s \<longrightarrow> euid (events ?s a) < s_uid ?s)"
      using q'(3) old new d h next_uid_positive [OF uid] by (auto intro: less_trans)
    show "inj_on (\<lambda>a. euid (events ?s a)) (members (queue ?s))"
      using q'(3) inj new old [THEN conjunct2, THEN conjunct2] by (fastforce simp: inj_on_insert)
  qed (use si q'(2) next_uid_positive [OF uid] in \<open>auto simp: sched_inv_def\<close>)
  with run False q'(3) show ?thesis by (simp add: ev_def)
qed (use h e in \<open>simp add: schedule_def\<close>)

lemma cancel_step:
  assumes si: "SI s"
  shows "\<exists>s'. cancel ops e s = Inr s' \<and> SI s' \<and> clock s' = clock s \<and> halted s' = halted s
    \<and> members (queue s') = members (queue s) - {e} \<and> (\<forall>a. a \<noteq> e \<longrightarrow> events s' a = events s a)"
proof (cases "euid (events s e) \<le> 0")
  case True
  then have "cancel ops e s = Inr s" "e \<notin> members (queue s)"
    using cancel_idle [of "events s" "queue s" e] si by (auto simp: cancel_def sched_inv_def)
  with si show ?thesis by auto
next
  case False
  then have "e \<in> members (queue s)" using si by (auto simp: sched_inv_def)
  with False si obtain q' where q': "op_cancel ops (events s) e (queue s) = Inr (negate_uid e (events s), q')"
    "qinv (events s) q'" "members q' = members (queue s) - {e}"
    using cancel_law [of "events s" "queue s" e] by (auto simp: sched_inv_def)
  have "same_on (members q') (events s) (negate_uid e (events s))"
    using q'(3) by (auto simp: same_on_def)
  with q'(2) have "qinv (negate_uid e (events s)) q'" by (rule inv_cong)
  with si False q' have "SI (s\<lparr>events := negate_uid e (events s), queue := q'\<rparr>)"
    by (auto simp: sched_inv_def inj_on_def)
  with q' show ?thesis by (simp add: cancel_def negate_uid_def)
qed

lemma new_Event_step:
  assumes si: "SI s" and e: "euid (events s e) \<le> 0"
  shows "SI (s\<lparr>events := new_Event e (events s)\<rparr>)"
proof -
  have out: "e \<notin> members (queue s)" using si e by (auto simp: sched_inv_def)
  then have "same_on (members (queue s)) (events s) (new_Event e (events s))"
    by (auto simp: same_on_def)
  then have "qinv (new_Event e (events s)) (queue s)"
    using si inv_cong by (auto simp: sched_inv_def)
  with si out show ?thesis by (auto simp: sched_inv_def inj_on_def)
qed

lemma exec_call_step:
  assumes "SI s" "call_ok c s"
  shows "exec_call ops c s = Inl uid_exhausted
    \<or> (\<exists>s'. exec_call ops c s = Inr s' \<and> SI s' \<and> clock s' = clock s)"
proof (cases c)
  case (NewEvent a)
  with assms new_Event_step [of s a] show ?thesis by simp
next
  case (Schedule h a d)
  with assms schedule_step [of s h a d] show ?thesis by (auto split: if_splits)
next
  case (Cancel a)
  with assms cancel_step [of s a] show ?thesis by auto
next
  case Halt
  with assms show ?thesis by (auto simp: sched_inv_def)
qed

text \<open>What a call does to the queue: the events it can add and remove, and the rest unchanged.\<close>

lemma exec_call_effect:
  assumes si: "SI s" and ok: "call_ok c s" and ex: "exec_call ops c s = Inr s'"
  shows "members (queue s') \<subseteq> members (queue s) \<union> scheduled c
    \<and> members (queue s) - cancelled c \<subseteq> members (queue s')
    \<and> same_on (members (queue s) - cancelled c) (events s) (events s')"
proof (cases c)
  case (NewEvent a)
  with si ok ex show ?thesis by (auto simp: sched_inv_def same_on_def)
next
  case (Schedule h a d)
  then have a: "h \<noteq> 0" "euid (events s a) \<le> 0" "0 \<le> d" "a \<notin> members (queue s)"
    using ok si by (auto simp: sched_inv_def)
  have "\<exists>s'. schedule ops h a d s = Inr s' \<and> members (queue s') = insert a (members (queue s))
      \<and> (\<forall>b. b \<noteq> a \<longrightarrow> events s' b = events s b)"
    using schedule_step [OF si a(1-3)] ex Schedule by (auto split: if_splits)
  with Schedule ex a(4) show ?thesis by (auto simp: same_on_def)
next
  case (Cancel a)
  with cancel_step [OF si, of a] ex show ?thesis by (auto simp: same_on_def)
next
  case Halt
  with ex show ?thesis by (auto simp: same_on_def)
qed

lemma exec_calls_step:
  "SI s \<Longrightarrow> calls_ok ops cs s \<Longrightarrow> foldE (exec_call ops) cs s = Inl uid_exhausted
    \<or> (\<exists>s'. foldE (exec_call ops) cs s = Inr s' \<and> SI s' \<and> clock s' = clock s)"
proof (induction cs arbitrary: s)
  case (Cons c cs)
  from Cons.prems have "call_ok c s" by simp
  from exec_call_step [OF Cons.prems(1) this] show ?case
  proof (elim disjE exE conjE)
    fix s1 assume s1: "exec_call ops c s = Inr s1" "SI s1" "clock s1 = clock s"
    with Cons.prems have "calls_ok ops cs s1" by simp
    from Cons.IH [OF s1(2) this] s1 show ?thesis by auto
  qed simp
qed simp

lemma exec_calls_effect:
  "SI s \<Longrightarrow> calls_ok ops cs s \<Longrightarrow> foldE (exec_call ops) cs s = Inr s' \<Longrightarrow>
    members (queue s') \<subseteq> members (queue s) \<union> (\<Union>c \<in> set cs. scheduled c)
    \<and> members (queue s) - (\<Union>c \<in> set cs. cancelled c) \<subseteq> members (queue s')
    \<and> same_on (members (queue s) - (\<Union>c \<in> set cs. cancelled c)) (events s) (events s')"
proof (induction cs arbitrary: s)
  case (Cons c cs)
  from Cons.prems have ok: "call_ok c s" by simp
  from Cons.prems obtain s1 where s1: "exec_call ops c s = Inr s1" "foldE (exec_call ops) cs s1 = Inr s'"
    by (auto simp: bindE_eq_Inr)
  have "SI s1" using exec_call_step [OF Cons.prems(1) ok] s1 by auto
  from Cons.IH [OF this _ s1(2)] exec_call_effect [OF Cons.prems(1) ok s1(1)] Cons.prems(2) s1(1)
  show ?case by (fastforce simp: same_on_def)
qed (simp add: same_on_def)

text \<open>Taking the next event and dispatching it: the handler is called at the event's time, which
  is not before the clock, and the scheduler is in order again afterwards.\<close>

lemma deque_step:
  assumes si: "SI s" and d: "deque ops s = Inr (Some e, s1)"
  shows "\<exists>q'. s1 = s\<lparr>queue := q'\<rparr> \<and> e \<in> members (queue s) \<and> (\<forall>x \<in> members (queue s). etime (events s e) \<le> etime (events s x))
    \<and> SI (s\<lparr>queue := q', clock := etime (events s e), events := negate_uid e (events s)\<rparr>)"
proof -
  obtain q' where q': "op_deque ops (events s) (queue s) = Inr (Some e, q')" "s1 = s\<lparr>queue := q'\<rparr>"
    using d by (auto simp: deque_def bindE_eq_Inr)
  then have law: "qinv (events s) q'" "members q' = members (queue s) - {e}"
    "next_event (events s) (members (queue s)) (Some e)"
    using deque_law [of "events s" "queue s"] si by (auto simp: sched_inv_def)
  then have e: "e \<in> members (queue s)" "\<And>x. x \<in> members (queue s) \<Longrightarrow> etime (events s e) \<le> etime (events s x)"
    by (auto simp: next_event_def)
  have "same_on (members q') (events s) (negate_uid e (events s))"
    using law(2) by (auto simp: same_on_def)
  with law(1) have "qinv (negate_uid e (events s)) q'" by (rule inv_cong)
  moreover have "0 \<le> etime (events s e)" using si e(1) by (auto simp: sched_inv_def intro: order_trans)
  ultimately have "SI (s\<lparr>queue := q', clock := etime (events s e), events := negate_uid e (events s)\<rparr>)"
    using si law(2) e by (auto simp: sched_inv_def inj_on_def)
  with q'(2) e show ?thesis by blast
qed

lemma deque_empty: "SI s \<Longrightarrow> deque ops s = Inr (None, s1) \<Longrightarrow> SI s1 \<and> members (queue s1) = {} \<and> clock s1 = clock s"
  using deque_law [of "events s" "queue s"] by (auto simp: deque_def bindE_eq_Inr sched_inv_def next_event_def)

lemma deque_total: "SI s \<Longrightarrow> \<exists>r s1. deque ops s = Inr (r, s1)"
  using deque_law [of "events s" "queue s"] by (auto simp: deque_def sched_inv_def)

lemma dispatch_calls:
  assumes si: "SI (sched S)" and ok: "handler_ok ops handle" and d: "deque ops (sched S) = Inr (Some e, s1)"
  defines "t \<equiv> etime (events (sched S) e)"
  obtains s2 w h where "SI s2" "clock s2 = t" "clock (sched S) \<le> t"
    "calls_ok ops (snd (handle h e t (events s2) (world S))) s2"
    "dispatch ops handle e (etime (events s1 e)) (S\<lparr>sched := s1\<rparr>) =
      bindE (foldE (exec_call ops) (snd (handle h e t (events s2) (world S))) s2)
        (\<lambda>s. Inr \<lparr>sched = s, world = w, trace = trace S @ [(e, t, euid (events (sched S) e))]\<rparr>)"
    "members (queue s2) = members (queue (sched S)) - {e}" "e \<in> members (queue (sched S))"
    "same_on (members (queue s2)) (events (sched S)) (events s2)"
proof -
  from deque_step [OF si d] obtain q' where s1: "s1 = (sched S)\<lparr>queue := q'\<rparr>"
    and e: "e \<in> members (queue (sched S))"
    and si2: "SI ((sched S)\<lparr>queue := q', clock := t, events := negate_uid e (events (sched S))\<rparr>)"
    unfolding t_def by blast
  let ?s2 = "(sched S)\<lparr>queue := q', clock := t, events := negate_uid e (events (sched S))\<rparr>"
  let ?h = "ehandler (events (sched S) e)"
  let ?r = "handle ?h e t (events ?s2) (world S)"
  have facts: "clock (sched S) \<le> t" "?h \<noteq> 0" "0 < euid (events (sched S) e)"
    using si e by (auto simp: sched_inv_def t_def)
  have mem: "members (queue ?s2) = members (queue (sched S)) - {e}"
    using si si2 facts(3) by (auto simp: sched_inv_def split: if_splits)
  show thesis
  proof (rule that [of ?s2 ?h "fst ?r"])
    show "calls_ok ops (snd ?r) ?s2"
      using ok [unfolded handler_ok_def, rule_format, of ?s2 e ?h "world S"] facts(3) by simp
    show "dispatch ops handle e (etime (events s1 e)) (S\<lparr>sched := s1\<rparr>) =
      bindE (foldE (exec_call ops) (snd ?r) ?s2)
        (\<lambda>s. Inr \<lparr>sched = s, world = fst ?r, trace = trace S @ [(e, t, euid (events (sched S) e))]\<rparr>)"
      using s1 facts by (simp add: dispatch_def Let_def t_def not_less split_beta)
  qed (use si2 facts mem e in \<open>auto simp: same_on_def\<close>)
qed

lemma dispatch_step:
  assumes "SI (sched S)" and "handler_ok ops handle" and "deque ops (sched S) = Inr (Some e, s1)"
  defines "t \<equiv> etime (events (sched S) e)"
  shows "dispatch ops handle e (etime (events s1 e)) (S\<lparr>sched := s1\<rparr>) = Inl uid_exhausted
    \<or> (\<exists>S'. dispatch ops handle e (etime (events s1 e)) (S\<lparr>sched := s1\<rparr>) = Inr S' \<and> SI (sched S')
        \<and> clock (sched S') = t \<and> clock (sched S) \<le> t
        \<and> trace S' = trace S @ [(e, t, euid (events (sched S) e))])"
proof (rule dispatch_calls [OF assms(1-3)])
  fix s2 w h
  assume *: "SI s2" "clock s2 = etime (events (sched S) e)" "clock (sched S) \<le> etime (events (sched S) e)"
    "calls_ok ops (snd (handle h e (etime (events (sched S) e)) (events s2) (world S))) s2"
    "dispatch ops handle e (etime (events s1 e)) (S\<lparr>sched := s1\<rparr>) =
      bindE (foldE (exec_call ops) (snd (handle h e (etime (events (sched S) e)) (events s2) (world S))) s2)
        (\<lambda>s. Inr \<lparr>sched = s, world = w, trace = trace S @ [(e, etime (events (sched S) e), euid (events (sched S) e))]\<rparr>)"
  from exec_calls_step [OF *(1,4)] *(2,3,5) show ?thesis by (auto simp: t_def)
qed

lemma dispatch_effect:
  assumes "SI (sched S)" and "handler_ok ops handle" and "deque ops (sched S) = Inr (Some e, s1)"
    and ds: "dispatch ops handle e (etime (events s1 e)) (S\<lparr>sched := s1\<rparr>) = Inr S'"
  obtains h p t ev w where
    "members (queue (sched S')) \<subseteq> members (queue (sched S)) - {e} \<union> (\<Union>c \<in> set (snd (handle h p t ev w)). scheduled c)"
    "members (queue (sched S)) - {e} - (\<Union>c \<in> set (snd (handle h p t ev w)). cancelled c) \<subseteq> members (queue (sched S'))"
    "same_on (members (queue (sched S)) - {e} - (\<Union>c \<in> set (snd (handle h p t ev w)). cancelled c))
       (events (sched S)) (events (sched S'))" "e \<in> members (queue (sched S))"
proof -
  let ?t = "etime (events (sched S) e)"
  obtain s2 w h where *: "SI s2" "clock s2 = ?t" "clock (sched S) \<le> ?t"
    "calls_ok ops (snd (handle h e ?t (events s2) (world S))) s2"
    "dispatch ops handle e (etime (events s1 e)) (S\<lparr>sched := s1\<rparr>) =
      bindE (foldE (exec_call ops) (snd (handle h e ?t (events s2) (world S))) s2)
        (\<lambda>s. Inr \<lparr>sched = s, world = w, trace = trace S @ [(e, ?t, euid (events (sched S) e))]\<rparr>)"
    "members (queue s2) = members (queue (sched S)) - {e}" "e \<in> members (queue (sched S))"
    "same_on (members (queue s2)) (events (sched S)) (events s2)"
    by (rule dispatch_calls [OF assms(1-3)])
  have "foldE (exec_call ops) (snd (handle h e ?t (events s2) (world S))) s2 = Inr (sched S')"
    using ds [unfolded *(5)] by (auto simp: bindE_eq_Inr)
  from exec_calls_effect [OF *(1,4) this] *(6-8) show thesis
    by (intro that [of h e "etime (events (sched S) e)" "events s2" "world S"]) (auto simp: same_on_def)
qed

text \<open>The run never aborts but for the exhausted numbers, and the clock never goes back.\<close>

lemma run_safe:
  assumes ok: "handler_ok ops handle"
  shows "SI (sched S) \<Longrightarrow>
    (case run ops handle n S of
       Inl err \<Rightarrow> err = OutOfFuel \<or> err = uid_exhausted
     | Inr S' \<Rightarrow> SI (sched S') \<and> (halted (sched S') \<or> members (queue (sched S')) = {})
         \<and> (\<exists>new. trace S' = trace S @ new
             \<and> sorted (clock (sched S) # map (\<lambda>(e, t, u). t) new @ [clock (sched S')])))"
proof (induction n arbitrary: S)
  case (Suc n)
  show ?case
  proof (cases "halted (sched S)")
    case False
    obtain r s1 where d: "deque ops (sched S) = Inr (r, s1)" using deque_total [OF Suc.prems] by blast
    show ?thesis
    proof (cases r)
      case None
      with deque_empty [OF Suc.prems] d False show ?thesis by auto
    next
      case (Some e)
      note d = d [unfolded Some]
      from dispatch_step [OF Suc.prems ok d] show ?thesis
      proof (elim disjE exE conjE)
        fix S1
        assume S1: "dispatch ops handle e (etime (events s1 e)) (S\<lparr>sched := s1\<rparr>) = Inr S1" "SI (sched S1)"
          "clock (sched S1) = etime (events (sched S) e)" "clock (sched S) \<le> etime (events (sched S) e)"
          "trace S1 = trace S @ [(e, etime (events (sched S) e), euid (events (sched S) e))]"
        from d False S1(1) have "run ops handle (Suc n) S = run ops handle n S1" by simp
        with Suc.IH [OF S1(2)] S1(3-5) show ?thesis
          by (fastforce split: sum.splits)
      qed (use d False in simp)
    qed
  qed (use Suc.prems in auto)
qed simp

text \<open>The Tcl commands: what \<^verbatim>\<open>at\<close> schedules, \<^verbatim>\<open>cancel\<close> with the number it returned
  takes back.\<close>

lemma new_Scheduler_inv:
  "qinv ev q \<Longrightarrow> members q = {} \<Longrightarrow> \<forall>a. euid (ev a) \<le> 0 \<Longrightarrow> SI (new_Scheduler ev q)"
  by (simp add: sched_inv_def new_Scheduler_def SCHED_START_def not_less)

lemma sched_inv_at_proc: "SI (s\<lparr>at_proc := p\<rparr>) = SI s"
  unfolding sched_inv_def by simp

lemma at_event_step: "SI s \<Longrightarrow> euid (events s a) \<le> 0 \<Longrightarrow> SI (at_event a proc s)"
  using new_Event_step [of s a] sched_inv_at_proc [of "(at_proc s)(a := proc)" "s\<lparr>events := new_Event a (events s)\<rparr>"]
  by (simp add: at_event_def)

lemma schedule_at_step:
  assumes si: "SI (sched S)" and a: "euid (events (sched S) a) \<le> 0" and h: "at_h \<noteq> 0" and u: "0 < s_uid (sched S)"
    and d: "0 \<le> delay"
  obtains S' where "schedule_at ops at_h a proc delay S = Inr (TCL_OK (TclUid (s_uid (sched S))), S')" "SI (sched S')"
    "members (queue (sched S')) = insert a (members (queue (sched S)))"
    "etime (events (sched S') a) = clock (sched S) + delay" "euid (events (sched S') a) = s_uid (sched S)"
    "at_proc (sched S') a = proc" "world S' = world S" "clock (sched S') = clock (sched S)"
proof -
  let ?s = "at_event a proc (sched S)"
  have eqs: "clock ?s = clock (sched S)" "queue ?s = queue (sched S)" "s_uid ?s = s_uid (sched S)" "euid (events ?s a) \<le> 0"
    "at_proc ?s a = proc" by (simp_all add: at_event_def)
  obtain s' where s': "schedule ops at_h a delay ?s = Inr s'" "SI s'" "clock s' = clock ?s"
    "members (queue s') = insert a (members (queue ?s))" "etime (events s' a) = clock ?s + delay"
    "euid (events s' a) = s_uid ?s"
    using schedule_step [OF at_event_step [OF si a] h eqs(4) d] u eqs(3) by (auto split: if_splits)
  have "at_proc s' a = proc"
    using s'(1) eqs(5) by (auto simp: schedule_def Let_def bindE_eq_Inr split: if_splits)
  with s' eqs show thesis by (intro that [of "S\<lparr>sched := s'\<rparr>"]) (simp_all add: schedule_at_def)
qed

lemma lookup_step:
  assumes si: "SI s" and e: "e \<in> members (queue s)"
  obtains q' where "lookup ops (euid (events s e)) s = Inr (Some e, s\<lparr>queue := q'\<rparr>)" "SI (s\<lparr>queue := q'\<rparr>)"
    "members q' = members (queue s)"
proof -
  have inv: "qinv (events s) (queue s)" and inj: "inj_on (\<lambda>a. euid (events s a)) (members (queue s))"
    using si by (auto simp: sched_inv_def)
  obtain r q' where q': "op_lookup ops (events s) (euid (events s e)) (queue s) = Inr (r, q')" "qinv (events s) q'"
    "members q' = members (queue s)" "looked_up (events s) (euid (events s e)) (members (queue s)) r"
    using lookup_law [OF inv] by blast
  from q'(4) e inj have "r = Some e" by (auto simp: looked_up_def inj_on_def split: option.splits)
  moreover have "SI (s\<lparr>queue := q'\<rparr>)" using si q'(2,3) by (auto simp: sched_inv_def)
  ultimately show thesis using q' by (intro that [of q']) (simp_all add: lookup_def)
qed

lemma at_then_cancel:
  assumes si: "SI (sched S)" and a: "euid (events (sched S) a) \<le> 0" and h: "at_h \<noteq> 0" and u: "0 < s_uid (sched S)"
    and t: "clock (sched S) \<le> atof time \<or> atof time < 0"
  shows "\<exists>n S1. command4 ops atof at_h a ''at'' time proc S = Inr (TCL_OK (TclUid n), S1)
    \<and> a \<in> members (queue (sched S1)) \<and> at_proc (sched S1) a = proc
    \<and> etime (events (sched S1) a) = (if atof time < 0 then clock (sched S) - atof time else atof time)
    \<and> (\<forall>arg b. strtouid arg = n \<longrightarrow> (\<exists>S2. command3 ops strtouid at_h b ''cancel'' arg S1 = Inr (TCL_OK TclNothing, S2)
        \<and> SI (sched S2) \<and> members (queue (sched S2)) = members (queue (sched S))))"
proof -
  define delay where "delay = (if atof time < 0 then - atof time else atof time - clock (sched S))"
  have d: "0 \<le> delay" using t by (auto simp: delay_def)
  obtain S1 where S1: "schedule_at ops at_h a proc delay S = Inr (TCL_OK (TclUid (s_uid (sched S))), S1)" "SI (sched S1)"
    "members (queue (sched S1)) = insert a (members (queue (sched S)))"
    "etime (events (sched S1) a) = clock (sched S) + delay" "euid (events (sched S1) a) = s_uid (sched S)"
    "at_proc (sched S1) a = proc" "world S1 = world S" "clock (sched S1) = clock (sched S)"
    by (rule schedule_at_step [OF si a h u d])
  have at: "command4 ops atof at_h a ''at'' time proc S = Inr (TCL_OK (TclUid (s_uid (sched S))), S1)"
    using S1(1) d by (simp add: command4_def Let_def delay_def)
  have "a \<in> members (queue (sched S1))" using S1(3) by simp
  then obtain q' where q': "lookup ops (euid (events (sched S1) a)) (sched S1) = Inr (Some a, (sched S1)\<lparr>queue := q'\<rparr>)"
    "SI ((sched S1)\<lparr>queue := q'\<rparr>)" "members q' = members (queue (sched S1))"
    by (rule lookup_step [OF S1(2)])
  obtain s2 where s2: "cancel ops a ((sched S1)\<lparr>queue := q'\<rparr>) = Inr s2" "SI s2" "members (queue s2) = members q' - {a}"
    using cancel_step [OF q'(2), of a] by auto
  have "a \<notin> members (queue (sched S))" using si a by (auto simp: sched_inv_def)
  then have mem: "members (queue s2) = members (queue (sched S))" using s2(3) q'(3) S1(3) by auto
  have "command3 ops strtouid at_h b ''cancel'' arg S1 = Inr (TCL_OK TclNothing, S1\<lparr>sched := s2\<rparr>)"
    if "strtouid arg = s_uid (sched S)" for arg b
    using that q'(1) s2(1) S1(5) by (simp add: command3_def)
  with at S1 s2(2) mem show ?thesis by (auto simp: delay_def)
qed

text \<open>Handlers that schedule nothing: as many rounds as there are events, and one, are enough.\<close>

lemma run_terminates:
  assumes ok: "handler_ok ops handle"
    and quiet: "\<And>h p t ev w c. c \<in> set (snd (handle h p t ev w)) \<Longrightarrow> scheduled c = {}"
  shows "SI (sched S) \<Longrightarrow> card (members (queue (sched S))) < n \<Longrightarrow>
    (\<exists>S'. run ops handle n S = Inr S') \<or> run ops handle n S = Inl uid_exhausted"
proof (induction n arbitrary: S)
  case (Suc n)
  obtain r s1 where d: "deque ops (sched S) = Inr (r, s1)" using deque_total [OF Suc.prems(1)] by blast
  show ?case
  proof (cases r)
    case (Some e)
    note d = d [unfolded Some]
    from dispatch_step [OF Suc.prems(1) ok d] show ?thesis
    proof (elim disjE exE conjE)
      fix S1 assume S1: "dispatch ops handle e (etime (events s1 e)) (S\<lparr>sched := s1\<rparr>) = Inr S1" "SI (sched S1)"
      have "members (queue (sched S1)) \<subset> members (queue (sched S))"
      proof (rule dispatch_effect [OF Suc.prems(1) ok d S1(1)])
        fix h p t ev w
        assume "members (queue (sched S1)) \<subseteq> members (queue (sched S)) - {e} \<union> (\<Union>c \<in> set (snd (handle h p t ev w)). scheduled c)"
          "e \<in> members (queue (sched S))"
        moreover have "(\<Union>c \<in> set (snd (handle h p t ev w)). scheduled c) = {}" using quiet by simp
        ultimately show ?thesis by blast
      qed
      moreover have "finite (members (queue (sched S)))"
        using Suc.prems(1) finite_members unfolding sched_inv_def by blast
      ultimately have "card (members (queue (sched S1))) < card (members (queue (sched S)))"
        by (intro psubset_card_mono)
      with Suc.prems(2) have "card (members (queue (sched S1))) < n" by simp
      from Suc.IH [OF S1(2) this] d S1(1) show ?thesis by (auto split: option.splits)
    qed (use d in simp)
  qed (use d in simp)
qed simp

text \<open>Handlers that cancel nothing: every event that was in the queue has been dispatched, at its
  time, when the run ends with an empty queue.\<close>

lemma run_dispatches:
  assumes ok: "handler_ok ops handle"
    and quiet: "\<And>h p t ev w c. c \<in> set (snd (handle h p t ev w)) \<Longrightarrow> cancelled c = {}"
  shows "SI (sched S) \<Longrightarrow> run ops handle n S = Inr S' \<Longrightarrow> x \<in> members (queue (sched S)) \<Longrightarrow>
    members (queue (sched S')) = {} \<Longrightarrow>
    (x, etime (events (sched S) x), euid (events (sched S) x)) \<in> set (trace S')"
proof (induction n arbitrary: S)
  case (Suc n)
  show ?case
  proof (cases "halted (sched S)")
    case False
    obtain r s1 where d: "deque ops (sched S) = Inr (r, s1)" using deque_total [OF Suc.prems(1)] by blast
    have "r \<noteq> None"
      using deque_law [of "events (sched S)" "queue (sched S)"] d Suc.prems(1,3)
      by (auto simp: deque_def bindE_eq_Inr sched_inv_def next_event_def)
    then obtain e where d: "deque ops (sched S) = Inr (Some e, s1)" using d by auto
    obtain S1 where S1: "dispatch ops handle e (etime (events s1 e)) (S\<lparr>sched := s1\<rparr>) = Inr S1"
      "run ops handle n S1 = Inr S'"
      using Suc.prems(2) d False by (auto simp: bindE_eq_Inr)
    have S1': "SI (sched S1)" "trace S1 = trace S @ [(e, etime (events (sched S) e), euid (events (sched S) e))]"
      using dispatch_step [OF Suc.prems(1) ok d] S1(1) by auto
    have "\<exists>new. trace S' = trace S1 @ new"
      using run_safe [OF ok S1'(1), of n] S1(2) by auto
    moreover have "x = e \<or> x \<in> members (queue (sched S1)) \<and> etime (events (sched S1) x) = etime (events (sched S) x)
        \<and> euid (events (sched S1) x) = euid (events (sched S) x)"
    proof (rule dispatch_effect [OF Suc.prems(1) ok d S1(1)])
      fix h p t ev w
      assume *: "members (queue (sched S)) - {e} - (\<Union>c \<in> set (snd (handle h p t ev w)). cancelled c) \<subseteq> members (queue (sched S1))"
        "same_on (members (queue (sched S)) - {e} - (\<Union>c \<in> set (snd (handle h p t ev w)). cancelled c))
          (events (sched S)) (events (sched S1))"
      have "(\<Union>c \<in> set (snd (handle h p t ev w)). cancelled c) = {}" using quiet by simp
      with * Suc.prems(3) show ?thesis by (auto simp: same_on_def)
    qed
    ultimately show ?thesis
      using Suc.IH [OF S1'(1) S1(2) _ Suc.prems(4)] S1'(2) by auto
  qed (use Suc.prems in auto)
qed simp

end

section \<open>The list scheduler keeps the contract\<close>

definition list_inv :: "events \<Rightarrow> ListScheduler \<Rightarrow> bool" where
  "list_inv ev q \<longleftrightarrow> distinct q \<and> sorted_key (\<lambda>a. etime (ev a)) q"

definition list_order :: "events \<Rightarrow> ListScheduler \<Rightarrow> eaddr list" where
  "list_order ev q = q"

lemma ListScheduler_insert_upper: "ListScheduler_insert ev e q = insert_upper (\<lambda>a. etime (ev a)) e q"
  by (induction q) auto

lemma ListScheduler_unlink_remove1:
  "ListScheduler_unlink e q = (if e \<in> set q then Inr (remove1 e q) else Inl (AssertFailed ''abort''))"
  by (induction q) auto

lemma ListScheduler_lookup_find: "ListScheduler_lookup ev u q = find (\<lambda>a. euid (ev a) = u) q"
  by (induction q) auto

lemma distinct_insert_upper: "distinct (insert_upper f x xs) \<longleftrightarrow> x \<notin> set xs \<and> distinct xs"
  by (induction xs) auto

lemma sorted_key_removeAll: "sorted_key f xs \<Longrightarrow> sorted_key f (removeAll x xs)"
  by (simp add: removeAll_filter_not_eq)

lemma list_inv_next: "list_inv ev (e # q) \<Longrightarrow> next_event ev (set (e # q)) (Some e) \<and> list_inv ev q \<and> set q = set (e # q) - {e}"
  by (auto simp: list_inv_def next_event_def)

lemma list_inv_cong: "list_inv ev q \<Longrightarrow> same_on (set q) ev ev' \<Longrightarrow> list_inv ev' q"
  unfolding list_inv_def same_on_def by (metis (mono_tags, lifting) map_cong)

interpretation list: fifo_queue ListScheduler_ops list_inv set list_order
proof (unfold_locales, goal_cases)
  case (2 ev q ev') then show ?case by (rule list_inv_cong)
next
  case (4 ev q) then show ?case
    using list_inv_next [of ev "hd q" "tl q"]
    by (cases q) (auto simp: ListScheduler_ops_def next_event_def)
next
  case (6 ev q e)
  then show ?case
    by (auto simp: ListScheduler_ops_def ListScheduler_cancel_def ListScheduler_unlink_remove1 list_inv_def
      distinct_remove1_removeAll distinct_removeAll sorted_key_removeAll)
next
  case (7 ev q u) then show ?case
    by (auto simp: ListScheduler_ops_def looked_up_def ListScheduler_lookup_find find_None_iff find_Some_iff split: option.splits)
next
  case (12 ev q r q') then show ?case by (cases q) (auto simp: ListScheduler_ops_def list_order_def)
next
  case (13 ev q e ev' q') then show ?case
    by (auto simp: ListScheduler_ops_def ListScheduler_cancel_def ListScheduler_unlink_remove1 list_inv_def
      distinct_remove1_removeAll list_order_def)
qed (auto simp: list_inv_def ListScheduler_ops_def ListScheduler_cancel_def ListScheduler_insert_upper
  distinct_insert_upper insertable_def list_order_def)

interpretation list: peekable_queue ListScheduler_ops list_inv set
proof (unfold_locales, goal_cases)
  case (1 ev q) then show ?case by (cases q) (auto simp: ListScheduler_ops_def)
qed

section \<open>Two schedulers with the same order do the same\<close>

locale fifo_pair = l: fifo_queue ops1 qinv1 members1 order1 + r: fifo_queue ops2 qinv2 members2 order2
  for ops1 :: "'p ops" and qinv1 members1 order1 and ops2 :: "'q ops" and qinv2 members2 order2
begin

text \<open>Everything but the queues is the same, and the queues hold the same events in the same
  order.\<close>

definition agree :: "'p Scheduler \<Rightarrow> 'q Scheduler \<Rightarrow> bool" where
  "agree s s' \<longleftrightarrow> sched_inv qinv1 members1 s \<and> qinv2 (events s') (queue s')
     \<and> order1 (events s) (queue s) = order2 (events s') (queue s')
     \<and> events s' = events s \<and> clock s' = clock s \<and> halted s' = halted s \<and> s_uid s' = s_uid s"

definition agree_result :: "'p Scheduler result \<Rightarrow> 'q Scheduler result \<Rightarrow> bool" where
  "agree_result r r' \<longleftrightarrow> (\<exists>s s'. r = Inr s \<and> r' = Inr s' \<and> agree s s') \<or> (\<exists>e. r = Inl e \<and> r' = Inl e)"

lemma agree_inv:
  assumes "agree s s'"
  shows "sched_inv qinv1 members1 s" "qinv1 (events s) (queue s)" "qinv2 (events s) (queue s')"
    "order1 (events s) (queue s) = order2 (events s) (queue s')" "events s' = events s"
  using assms unfolding agree_def sched_inv_def by auto

lemma agree_members: "agree s s' \<Longrightarrow> members2 (queue s') = members1 (queue s)"
  using l.order_members [OF agree_inv(2), of s s'] r.order_members [OF agree_inv(3), of s s'] agree_inv(4)
  by simp

lemma agree_schedule:
  assumes ag: "agree s s'" and ok: "h \<noteq> 0" "euid (events s e) \<le> 0" "0 \<le> d"
  shows "agree_result (schedule ops1 h e d s) (schedule ops2 h e d s')"
proof (cases "s_uid s < 0")
  case True
  with ag ok show ?thesis by (auto simp: schedule_def agree_def agree_result_def)
next
  case False
  define ev where "ev = (events s)(e := (events s e)\<lparr>euid := s_uid s, ehandler := h, etime := clock s + d\<rparr>)"
  have si: "sched_inv qinv1 members1 s" using ag by (simp add: agree_def)
  from l.schedule_step [OF si ok] False obtain s1 where s1: "schedule ops1 h e d s = Inr s1" "sched_inv qinv1 members1 s1"
    by auto
  have out: "e \<notin> members1 (queue s)" using si ok by (auto simp: sched_inv_def)
  then have same: "same_on (members1 (queue s)) (events s) ev" by (auto simp: same_on_def ev_def)
  have q1: "qinv1 ev (queue s)" "order1 ev (queue s) = order1 (events s) (queue s)"
    using l.inv_cong [OF _ same] l.order_cong [OF _ same] si by (auto simp: sched_inv_def)
  have q2: "qinv2 ev (queue s')" "order2 ev (queue s') = order2 (events s) (queue s')"
    using r.inv_cong [of "events s" "queue s'" ev] r.order_cong [of "events s" "queue s'" ev] same
      agree_members [OF ag] ag by (auto simp: agree_def)
  have ins: "insertable ev e (members1 (queue s))"
    using out si False ok by (auto simp: insertable_def ev_def sched_inv_def)
  from s1(1) False ok obtain p' where p': "op_insert ops1 ev e (queue s) = Inr p'"
    "s1 = s\<lparr>events := ev, s_uid := next_uid (s_uid s), queue := p'\<rparr>"
    by (auto simp: schedule_def Let_def bindE_eq_Inr ev_def)
  have ins2: "insertable ev e (members2 (queue s'))" using ins agree_members [OF ag] by simp
  from r.insert_law [OF q2(1) this] obtain q' where q': "op_insert ops2 ev e (queue s') = Inr q'" "qinv2 ev q'" by blast
  have ag_eqs: "events s' = events s" "clock s' = clock s" "halted s' = halted s" "s_uid s' = s_uid s"
    "order1 (events s) (queue s) = order2 (events s) (queue s')"
    using ag by (auto simp: agree_def)
  have "schedule ops2 h e d s' = Inr (s'\<lparr>events := ev, s_uid := next_uid (s_uid s), queue := q'\<rparr>)"
    using False ok q'(1) ag_eqs(1-4) by (simp add: schedule_def Let_def ev_def)
  moreover have "order1 ev p' = order2 ev q'"
    using l.order_insert [OF q1(1) ins p'(1)] r.order_insert [OF q2(1) ins2 q'(1)] q1(2) q2(2) ag_eqs(5) by simp
  ultimately show ?thesis
    using s1 p'(2) q'(2) ag_eqs by (auto simp: agree_def agree_result_def)
qed

lemma agree_cancel:
  assumes ag: "agree s s'"
  shows "agree_result (cancel ops1 e s) (cancel ops2 e s')"
proof (cases "euid (events s e) \<le> 0")
  case True
  then have "cancel ops1 e s = Inr s" "cancel ops2 e s' = Inr s'"
    using l.cancel_idle [of "events s" "queue s" e] r.cancel_idle [of "events s" "queue s'" e] ag
      agree_inv [OF ag] agree_members [OF ag]
    by (auto simp: cancel_def agree_def sched_inv_def)
  with ag show ?thesis by (simp add: agree_result_def)
next
  case False
  then have pos: "0 < euid (events s e)" and mem: "e \<in> members1 (queue s)"
    using ag by (auto simp: agree_def sched_inv_def)
  note inv = agree_inv [OF ag]
  let ?ev = "negate_uid e (events s)"
  obtain p' where p': "op_cancel ops1 (events s) e (queue s) = Inr (?ev, p')" "qinv1 (events s) p'"
    "members1 p' = members1 (queue s) - {e}"
    using l.cancel_law [OF inv(2) mem pos] by blast
  obtain q' where q': "op_cancel ops2 (events s) e (queue s') = Inr (?ev, q')" "qinv2 (events s) q'"
    "members2 q' = members2 (queue s') - {e}"
    using r.cancel_law [OF inv(3) _ pos] mem agree_members [OF ag] by auto
  have same: "same_on (members1 p') (events s) ?ev" "same_on (members2 q') (events s) ?ev"
    using p'(3) q'(3) by (auto simp: same_on_def)
  obtain s1 where s1: "cancel ops1 e s = Inr s1" "sched_inv qinv1 members1 s1"
    using l.cancel_step [OF inv(1), of e] by blast
  have "order1 ?ev p' = order2 ?ev q'"
    using l.order_cong [OF p'(2) same(1)] r.order_cong [OF q'(2) same(2)]
      l.order_cancel [OF inv(2) mem pos p'(1)] r.order_cancel [OF inv(3) _ pos q'(1)] mem agree_members [OF ag] ag
    by (simp add: agree_def)
  moreover have "qinv2 ?ev q'" by (rule r.inv_cong [OF q'(2) same(2)])
  moreover have "cancel ops2 e s' = Inr (s'\<lparr>events := ?ev, queue := q'\<rparr>)" "s1 = s\<lparr>events := ?ev, queue := p'\<rparr>"
    using ag q'(1) p'(1) s1(1) by (auto simp: cancel_def agree_def)
  ultimately show ?thesis using s1 ag by (auto simp: agree_result_def agree_def)
qed

lemma agree_call:
  assumes ag: "agree s s'" and ok: "call_ok c s"
  shows "agree_result (exec_call ops1 c s) (exec_call ops2 c s')"
proof (cases c)
  case (NewEvent a)
  note inv = agree_inv [OF ag]
  let ?ev = "new_Event a (events s)"
  have out: "a \<notin> members1 (queue s)" using inv(1) ok NewEvent by (auto simp: sched_inv_def)
  then have same: "same_on (members1 (queue s)) (events s) ?ev" "same_on (members2 (queue s')) (events s) ?ev"
    using agree_members [OF ag] by (auto simp: same_on_def)
  have "sched_inv qinv1 members1 (s\<lparr>events := ?ev\<rparr>)"
    using l.new_Event_step [OF inv(1)] ok NewEvent by simp
  then have "agree (s\<lparr>events := ?ev\<rparr>) (s'\<lparr>events := new_Event a (events s')\<rparr>)"
    using ag r.inv_cong [OF inv(3) same(2)] l.order_cong [OF inv(2) same(1)] r.order_cong [OF inv(3) same(2)]
    by (simp add: agree_def)
  with NewEvent show ?thesis by (simp add: agree_result_def)
next
  case (Schedule h a d)
  with ok agree_schedule [OF ag] show ?thesis by simp
next
  case (Cancel a)
  with agree_cancel [OF ag] show ?thesis by simp
next
  case Halt
  with ag show ?thesis by (auto simp: agree_result_def agree_def sched_inv_def)
qed

lemma agree_calls:
  "agree s s' \<Longrightarrow> calls_ok ops1 cs s \<Longrightarrow>
    agree_result (foldE (exec_call ops1) cs s) (foldE (exec_call ops2) cs s')"
proof (induction cs arbitrary: s s')
  case (Cons c cs)
  from Cons.prems have "agree_result (exec_call ops1 c s) (exec_call ops2 c s')"
    by (intro agree_call) simp_all
  then consider s1 s1' where "exec_call ops1 c s = Inr s1" "exec_call ops2 c s' = Inr s1'" "agree s1 s1'"
    | e where "exec_call ops1 c s = Inl e" "exec_call ops2 c s' = Inl e"
    unfolding agree_result_def by blast
  then show ?case
  proof cases
    case 1
    with Cons.IH [OF 1(3)] Cons.prems(2) show ?thesis by simp
  qed (simp add: agree_result_def)
qed (simp add: agree_result_def)

text \<open>Taking the next event gives the same one on both sides.\<close>

lemma agree_deque:
  assumes ag: "agree s s'"
  obtains p' q' r where "deque ops1 s = Inr (r, s\<lparr>queue := p'\<rparr>)" "deque ops2 s' = Inr (r, s'\<lparr>queue := q'\<rparr>)"
    "qinv2 (events s) q'" "order1 (events s) p' = order2 (events s) q' \<or> r = None"
    "members2 q' = members2 (queue s') - set_option r"
proof -
  note inv = agree_inv [OF ag]
  obtain r p' where p': "op_deque ops1 (events s) (queue s) = Inr (r, p')"
    using l.deque_law [OF inv(2)] by blast
  obtain r' q' where q': "op_deque ops2 (events s) (queue s') = Inr (r', q')" "qinv2 (events s) q'"
    "members2 q' = members2 (queue s') - set_option r'"
    using r.deque_law [OF inv(3)] by blast
  have ord: "order1 (events s) (queue s) = order2 (events s) (queue s')" using ag by (simp add: agree_def)
  have "r = r' \<and> (order1 (events s) p' = order2 (events s) q' \<or> r = None)"
    using l.order_deque [OF inv(2) p'] r.order_deque [OF inv(3) q'(1)] ord by (auto split: option.splits)
  with p' q' ag show thesis by (intro that [of r p' q']) (auto simp: deque_def agree_def)
qed

definition sim_agree :: "('p, 'w) sim \<Rightarrow> ('q, 'w) sim \<Rightarrow> bool" where
  "sim_agree S S' \<longleftrightarrow> agree (sched S) (sched S') \<and> world S' = world S \<and> trace S' = trace S"

lemma agree_dispatch:
  assumes ag: "sim_agree S S'" and ok: "handler_ok ops1 handle"
    and d1: "deque ops1 (sched S) = Inr (Some e, s)" and d2: "deque ops2 (sched S') = Inr (Some e, s')"
    and ord: "qinv2 (events s') (queue s')" "order1 (events s) (queue s) = order2 (events s') (queue s')"
    and mem: "members2 (queue s') = members2 (queue (sched S')) - {e}"
    and ev: "events s' = events s" "clock s' = clock s" "halted s' = halted s" "s_uid s' = s_uid s"
      "events s = events (sched S)" "etime (events s e) = t"
  shows "(\<exists>S1 S1'. dispatch ops1 handle e t (S\<lparr>sched := s\<rparr>) = Inr S1 \<and> dispatch ops2 handle e t (S'\<lparr>sched := s'\<rparr>) = Inr S1'
      \<and> sim_agree S1 S1')
    \<or> (\<exists>err. dispatch ops1 handle e t (S\<lparr>sched := s\<rparr>) = Inl err \<and> dispatch ops2 handle e t (S'\<lparr>sched := s'\<rparr>) = Inl err)"
proof -
  note ags = ag [unfolded sim_agree_def, THEN conjunct1]
  note inv = agree_inv [OF ags]
  from l.deque_step [OF inv(1) d1] obtain p' where s: "s = (sched S)\<lparr>queue := p'\<rparr>"
    and e: "e \<in> members1 (queue (sched S))"
    and si: "sched_inv qinv1 members1 ((sched S)\<lparr>queue := p', clock := etime (events (sched S) e),
      events := negate_uid e (events (sched S))\<rparr>)"
    by blast
  let ?s = "s\<lparr>clock := t, events := negate_uid e (events s)\<rparr>" and ?s' = "s'\<lparr>clock := t, events := negate_uid e (events s')\<rparr>"
  have si: "sched_inv qinv1 members1 ?s" using si s ev by simp
  have "qinv1 (events s) p'" "members1 p' = members1 (queue (sched S)) - {e}"
    using l.deque_law [OF inv(2)] d1 s ev(5) by (auto simp: deque_def bindE_eq_Inr)
  then have same: "same_on (members1 (queue s)) (events s) (negate_uid e (events s))"
      "same_on (members2 (queue s')) (events s') (negate_uid e (events s'))" and q1: "qinv1 (events s) (queue s)"
    using s mem by (auto simp: same_on_def)
  have "agree ?s ?s'"
    using si r.inv_cong [OF ord(1) same(2)] l.order_cong [OF q1 same(1)] r.order_cong [OF ord(1) same(2)] ord(2) ev
    by (simp add: agree_def)
  moreover have "calls_ok ops1 (snd (handle (ehandler (events s e)) e t (events ?s) (world S))) ?s"
    using ok [unfolded handler_ok_def, rule_format, of ?s e "ehandler (events s e)" "world S"] e inv(1) ev(5)
    by (auto simp: sched_inv_def)
  ultimately have "agree_result (foldE (exec_call ops1) (snd (handle (ehandler (events s e)) e t (events ?s) (world S))) ?s)
      (foldE (exec_call ops2) (snd (handle (ehandler (events s e)) e t (events ?s) (world S))) ?s')"
    by (rule agree_calls)
  then show ?thesis
    using ag ev by (auto simp: dispatch_def Let_def split_beta agree_result_def sim_agree_def)
qed

text \<open>The whole run: the same events are dispatched at the same times in the same order, and the
  handlers end in the same state.\<close>

lemma run_agree:
  assumes ok: "handler_ok ops1 handle"
  shows "sim_agree S S' \<Longrightarrow>
    (\<exists>F F'. run ops1 handle n S = Inr F \<and> run ops2 handle n S' = Inr F' \<and> trace F' = trace F \<and> world F' = world F
      \<and> events (sched F') = events (sched F) \<and> clock (sched F') = clock (sched F))
    \<or> (\<exists>err. run ops1 handle n S = Inl err \<and> run ops2 handle n S' = Inl err)"
proof (induction n arbitrary: S S')
  case (Suc n)
  have ag: "agree (sched S) (sched S')" using Suc.prems by (simp add: sim_agree_def)
  show ?case
  proof (cases "halted (sched S)")
    case True
    with Suc.prems show ?thesis by (auto simp: sim_agree_def agree_def)
  next
    case False
    obtain p' q' r where d: "deque ops1 (sched S) = Inr (r, (sched S)\<lparr>queue := p'\<rparr>)"
      "deque ops2 (sched S') = Inr (r, (sched S')\<lparr>queue := q'\<rparr>)"
      "qinv2 (events (sched S)) q'" "order1 (events (sched S)) p' = order2 (events (sched S)) q' \<or> r = None"
      "members2 q' = members2 (queue (sched S')) - set_option r"
      by (rule agree_deque [OF ag])
    show ?thesis
    proof (cases r)
      case None
      with Suc.prems d False show ?thesis by (auto simp: sim_agree_def agree_def)
    next
      case (Some e)
      let ?t = "etime (events (sched S) e)"
      have eqs: "events (sched S') = events (sched S)" "clock (sched S') = clock (sched S)"
        "halted (sched S') = halted (sched S)" "s_uid (sched S') = s_uid (sched S)"
        using ag by (auto simp: agree_def)
      have "(\<exists>S1 S1'. dispatch ops1 handle e ?t (S\<lparr>sched := (sched S)\<lparr>queue := p'\<rparr>\<rparr>) = Inr S1
            \<and> dispatch ops2 handle e ?t (S'\<lparr>sched := (sched S')\<lparr>queue := q'\<rparr>\<rparr>) = Inr S1' \<and> sim_agree S1 S1')
          \<or> (\<exists>err. dispatch ops1 handle e ?t (S\<lparr>sched := (sched S)\<lparr>queue := p'\<rparr>\<rparr>) = Inl err
            \<and> dispatch ops2 handle e ?t (S'\<lparr>sched := (sched S')\<lparr>queue := q'\<rparr>\<rparr>) = Inl err)"
        by (rule agree_dispatch [OF Suc.prems ok]) (use d Some eqs in auto)
      then show ?thesis
      proof (elim disjE exE conjE)
        fix S1 S1'
        assume "dispatch ops1 handle e ?t (S\<lparr>sched := (sched S)\<lparr>queue := p'\<rparr>\<rparr>) = Inr S1"
          "dispatch ops2 handle e ?t (S'\<lparr>sched := (sched S')\<lparr>queue := q'\<rparr>\<rparr>) = Inr S1'" "sim_agree S1 S1'"
        with Suc.IH [of S1 S1'] d(1,2) False Some eqs show ?thesis by simp
      next
        fix err
        assume "dispatch ops1 handle e ?t (S\<lparr>sched := (sched S)\<lparr>queue := p'\<rparr>\<rparr>) = Inl err"
          "dispatch ops2 handle e ?t (S'\<lparr>sched := (sched S')\<lparr>queue := q'\<rparr>\<rparr>) = Inl err"
        with d(1,2) False Some eqs show ?thesis by simp
      qed
    qed
  qed
qed simp

text \<open>Two schedulers that start alike and are filled by the same calls.\<close>

lemma runs_alike:
  assumes "agree s0 s0'" and "handler_ok ops1 handle" and "calls_ok ops1 calls s0"
    and "foldE (exec_call ops1) calls s0 = Inr s"
  shows "\<exists>s'. foldE (exec_call ops2) calls s0' = Inr s'
    \<and> ((\<exists>F F'. run ops1 handle n \<lparr>sched = s, world = w, trace = []\<rparr> = Inr F
          \<and> run ops2 handle n \<lparr>sched = s', world = w, trace = []\<rparr> = Inr F'
          \<and> trace F' = trace F \<and> world F' = world F \<and> events (sched F') = events (sched F)
          \<and> clock (sched F') = clock (sched F))
       \<or> (\<exists>err. run ops1 handle n \<lparr>sched = s, world = w, trace = []\<rparr> = Inl err
          \<and> run ops2 handle n \<lparr>sched = s', world = w, trace = []\<rparr> = Inl err))"
proof -
  from agree_calls [OF assms(1,3)] assms(4) obtain s'
    where s': "foldE (exec_call ops2) calls s0' = Inr s'" "agree s s'"
    by (auto simp: agree_result_def)
  have "sim_agree \<lparr>sched = s, world = w, trace = []\<rparr> \<lparr>sched = s', world = w, trace = []\<rparr>"
    using s'(2) by (simp add: sim_agree_def)
  from run_agree [OF assms(2) this, of n] s'(1) show ?thesis by auto
qed

end

section \<open>A small simulation\<close>

text \<open>A handler that schedules its event again, 2 seconds later, as often as its state says.\<close>

definition demo_handler :: "nat handler" where
  "demo_handler h p t ev w = (w - 1, if 0 < w then [Schedule 7 p 2] else [])"

definition demo_events :: events where
  "demo_events a = \<lparr>ehandler = 0, etime = 0, euid = 0\<rparr>"

lemma demo_handler_ok: "handler_ok ops demo_handler"
  by (auto simp: handler_ok_def demo_handler_def split: sum.splits)

lemma demo_events_idle: "\<forall>a. euid (demo_events a) \<le> 0"
  by (simp add: demo_events_def)

definition demo_calls :: "sched_call list" where
  "demo_calls = [Schedule 7 2 1, Schedule 7 5 1]"

lemma demo_calls_ok: "calls_ok ops demo_calls (new_Scheduler demo_events q)"
  by (auto simp: demo_calls_def new_Scheduler_def demo_events_def schedule_def Let_def bindE_def next_uid_def split: sum.splits)

text \<open>Two events of one time in the order in which they were scheduled, and the first once more.\<close>

lemma demo_sim:
  obtains s F where "foldE (exec_call ListScheduler_ops) demo_calls (new_Scheduler demo_events []) = Inr s"
    "run ListScheduler_ops demo_handler 4 \<lparr>sched = s, world = 1, trace = []\<rparr> = Inr F" "trace F = [(2, 1, 1), (5, 1, 2), (2, 3, 3)]"
proof -
  define s where "s = (case foldE (exec_call ListScheduler_ops) demo_calls (new_Scheduler demo_events []) of Inr s \<Rightarrow> s)"
  define F where "F = (case run ListScheduler_ops demo_handler 4 \<lparr>sched = s, world = 1, trace = []\<rparr> of Inr F \<Rightarrow> F)"
  note defs = demo_calls_def new_Scheduler_def demo_events_def ListScheduler_ops_def schedule_def Let_def next_uid_def SCHED_START_def
  have s: "foldE (exec_call ListScheduler_ops) demo_calls (new_Scheduler demo_events []) = Inr s"
    by (simp add: s_def defs)
  have "run ListScheduler_ops demo_handler 4 \<lparr>sched = s, world = 1, trace = []\<rparr> = Inr F \<and> trace F = [(2, 1, 1), (5, 1, 2), (2, 3, 3)]"
    by (simp add: F_def s_def defs eval_nat_numeral deque_def dispatch_def demo_handler_def negate_uid_def)
  with s show thesis by (intro that [of s F]) simp_all
qed

lemma demo_schedule: "\<exists>s. foldE (exec_call ListScheduler_ops) demo_calls (new_Scheduler demo_events []) = Inr s"
  by (rule demo_sim) blast

end
