(* ===== verification/Ns_Splay.thy ===== *)
theory Ns_Splay
  imports Ns_Scheduler "HOL-Library.Tree"
begin

text \<open>
  The splay tree scheduler, \<^verbatim>\<open>ns2-gea/ns-2/common/splay-scheduler.cc\<close>. The links
  \<^verbatim>\<open>prev_\<close> and \<^verbatim>\<open>next_\<close> of the events are the left and right child of a binary tree.

  The top-down splaying of \<^verbatim>\<open>insert\<close> takes the tree apart into a left and a right one. The
  pointers \<^verbatim>\<open>l\<close> and \<^verbatim>\<open>r\<close> to the places where these grow are represented by the way to
  them, from the bottom up: a list of the nodes linked so far, each with its other subtree.

  The events are in the tree in the order of their times and, among equal times, of their numbers:
  with this invariant the scheduler is interpreted as a first in, first out queue, and runs like
  the list scheduler.
\<close>

section \<open>The scheduler\<close>

record SplayScheduler =
  root :: "eaddr tree"
  lookup_uid :: uid
  qsize :: int

definition new_SplayScheduler :: SplayScheduler where
  "new_SplayScheduler = \<lparr>root = Leaf, lookup_uid = 0, qsize = 0\<rparr>"

fun plug_left :: "(eaddr tree \<times> eaddr) list \<Rightarrow> eaddr tree \<Rightarrow> eaddr tree" where
  "plug_left [] t = t"
| "plug_left ((a, l) # ls) t = plug_left ls (Node a l t)"

fun plug_right :: "(eaddr \<times> eaddr tree) list \<Rightarrow> eaddr tree \<Rightarrow> eaddr tree" where
  "plug_right [] t = t"
| "plug_right ((r, b) # rs) t = plug_right rs (Node t r b)"

text \<open>The loop of \<^verbatim>\<open>insert\<close>, with the results of \<^verbatim>\<open>ROTATE_RIGHT\<close>, \<^verbatim>\<open>LINK_RIGHT\<close>,
  \<^verbatim>\<open>ROTATE_LEFT\<close> and \<^verbatim>\<open>LINK_LEFT\<close> written out.\<close>

fun splay_split ::
    "events \<Rightarrow> double \<Rightarrow> eaddr tree \<Rightarrow> (eaddr tree \<times> eaddr) list \<Rightarrow> (eaddr \<times> eaddr tree) list
      \<Rightarrow> eaddr tree \<times> eaddr tree" where
  "splay_split ev time Leaf ls rs = (plug_left ls Leaf, plug_right rs Leaf)"
| "splay_split ev time (Node a t b) ls rs =
     (if time < etime (ev t) then
        (case a of
           Leaf \<Rightarrow> (plug_left ls Leaf, plug_right rs (Node Leaf t b))
         | Node xa x xb \<Rightarrow>
             if time < etime (ev x) then splay_split ev time xa ls ((x, Node xb t b) # rs)
             else splay_split ev time (Node xa x xb) ls ((t, b) # rs))
      else
        (case b of
           Leaf \<Rightarrow> (plug_left ls (Node a t Leaf), plug_right rs Leaf)
         | Node xa x xb \<Rightarrow>
             if time \<ge> etime (ev x) then splay_split ev time xb ((Node a t xa, x) # ls) rs
             else splay_split ev time (Node xa x xb) ((a, t) # ls) rs))"

definition SplayScheduler_insert :: "events \<Rightarrow> eaddr \<Rightarrow> SplayScheduler \<Rightarrow> SplayScheduler" where
  "SplayScheduler_insert ev n s =
     (case root s of
        Leaf \<Rightarrow> s\<lparr>qsize := qsize s + 1, root := Node Leaf n Leaf\<rparr>
      | t \<Rightarrow> let (l, r) = splay_split ev (etime (ev n)) t [] [] in
             s\<lparr>qsize := qsize s + 1, root := Node l n r\<rparr>)"

fun splay_leftmost :: "eaddr tree \<Rightarrow> eaddr option" where
  "splay_leftmost Leaf = None"
| "splay_leftmost (Node l t r) = (case l of Leaf \<Rightarrow> Some t | _ \<Rightarrow> splay_leftmost l)"

definition SplayScheduler_head :: "SplayScheduler \<Rightarrow> eaddr option" where
  "SplayScheduler_head s = splay_leftmost (root s)"

text \<open>The loop of \<^verbatim>\<open>deque\<close> below \<^verbatim>\<open>LEFT(t)\<close>: the event taken and the new left subtree. The
  first argument is \<^verbatim>\<open>l\<close> with its children.\<close>

fun splay_deque_left :: "eaddr tree \<Rightarrow> eaddr \<Rightarrow> eaddr tree \<Rightarrow> eaddr \<times> eaddr tree" where
  "splay_deque_left Leaf l lr = (l, lr)"
| "splay_deque_left (Node Leaf ll llr) l lr = (ll, Node llr l lr)"
| "splay_deque_left (Node (Node a lll b) ll llr) l lr =
     (let (e, t) = splay_deque_left a lll b in (e, Node t ll (Node llr l lr)))"

definition SplayScheduler_deque :: "SplayScheduler \<Rightarrow> eaddr option \<times> SplayScheduler" where
  "SplayScheduler_deque s =
     (case root s of
        Leaf \<Rightarrow> (None, s)
      | Node Leaf t r \<Rightarrow> (Some t, s\<lparr>qsize := qsize s - 1, root := r\<rparr>)
      | Node (Node ll l lr) t r \<Rightarrow>
          let (e, l') = splay_deque_left ll l lr in
          (Some e, s\<lparr>qsize := qsize s - 1, root := Node l' t r\<rparr>))"

text \<open>The removal of the node \<^verbatim>\<open>e\<close> with children \<open>l\<close> and \<open>r\<close>: its successor takes its
  place.\<close>

fun splay_pop_successor :: "eaddr tree \<Rightarrow> eaddr \<Rightarrow> eaddr tree \<Rightarrow> eaddr \<times> eaddr tree" where
  "splay_pop_successor Leaf q qr = (q, qr)"
| "splay_pop_successor (Node a q b) p pr = (let (s, t) = splay_pop_successor a q b in (s, Node t p pr))"

fun splay_unlink :: "eaddr tree \<Rightarrow> eaddr tree \<Rightarrow> eaddr tree" where
  "splay_unlink l Leaf = l"
| "splay_unlink Leaf (Node a p b) = Node a p b"
| "splay_unlink l (Node a p b) = (let (q, r) = splay_pop_successor a p b in Node l q r)"

fun splay_search :: "events \<Rightarrow> eaddr \<Rightarrow> eaddr tree \<Rightarrow> eaddr tree result" where
  "splay_search ev e Leaf = Inl (AssertFailed ''did not find it'')"
| "splay_search ev e (Node l t r) =
     (if t = e then Inr (splay_unlink l r)
      else if etime (ev e) > etime (ev t) \<or> etime (ev e) = etime (ev t) \<and> euid (ev e) > euid (ev t)
      then bindE (splay_search ev e r) (\<lambda>r'. Inr (Node l t r'))
      else bindE (splay_search ev e l) (\<lambda>l'. Inr (Node l' t r)))"

definition SplayScheduler_cancel :: "events \<Rightarrow> eaddr \<Rightarrow> SplayScheduler \<Rightarrow> (events \<times> SplayScheduler) result" where
  "SplayScheduler_cancel ev e s =
     (if euid (ev e) \<le> 0 then Inr (ev, s)
      else bindE (splay_search ev e (root s))
        (\<lambda>t. Inr (negate_uid e ev, s\<lparr>qsize := qsize s - 1, root := t\<rparr>)))"

fun uid_lookup :: "events \<Rightarrow> uid \<Rightarrow> eaddr tree \<Rightarrow> eaddr option" where
  "uid_lookup ev u Leaf = None"
| "uid_lookup ev u (Node l t r) =
     (if euid (ev t) = u then Some t
      else case uid_lookup ev u l of Some e \<Rightarrow> Some e | None \<Rightarrow> uid_lookup ev u r)"

definition SplayScheduler_lookup :: "events \<Rightarrow> uid \<Rightarrow> SplayScheduler \<Rightarrow> eaddr option \<times> SplayScheduler" where
  "SplayScheduler_lookup ev u s = (uid_lookup ev u (root s), s\<lparr>lookup_uid := u\<rparr>)"

text \<open>The consistency check compares a node with its children and counts the nodes.\<close>

fun validate :: "events \<Rightarrow> eaddr tree \<Rightarrow> int result" where
  "validate ev Leaf = Inr 0"
| "validate ev (Node l t r) =
     (if (case l of Leaf \<Rightarrow> True | Node _ x _ \<Rightarrow> etime (ev t) \<ge> etime (ev x))
       \<and> (case r of Leaf \<Rightarrow> True | Node _ x _ \<Rightarrow> etime (ev t) \<le> etime (ev x))
      then bindE (validate ev l) (\<lambda>m. bindE (validate ev r) (\<lambda>n. Inr (1 + m + n)))
      else Inl (AssertFailed ''validate''))"

definition SplayScheduler_ops :: "SplayScheduler ops" where
  "SplayScheduler_ops =
     \<lparr>op_cancel = SplayScheduler_cancel,
      op_insert = \<lambda>ev e q. Inr (SplayScheduler_insert ev e q),
      op_lookup = \<lambda>ev u q. Inr (SplayScheduler_lookup ev u q),
      op_deque = \<lambda>ev q. Inr (SplayScheduler_deque q),
      op_head = \<lambda>ev q. Inr (SplayScheduler_head q, q)\<rparr>"

section \<open>What the operations do to the order of the events\<close>

text \<open>The order the tree is searched by.\<close>

definition before :: "events \<Rightarrow> eaddr \<Rightarrow> eaddr \<Rightarrow> bool" where
  "before ev a b \<longleftrightarrow> etime (ev a) < etime (ev b) \<or> etime (ev a) = etime (ev b) \<and> euid (ev a) < euid (ev b)"

definition splay_inv :: "events \<Rightarrow> SplayScheduler \<Rightarrow> bool" where
  "splay_inv ev s \<longleftrightarrow> sorted_wrt (before ev) (inorder (root s)) \<and> qsize s = int (size (root s))"

definition splay_members :: "SplayScheduler \<Rightarrow> eaddr set" where
  "splay_members s = set_tree (root s)"

definition splay_order :: "events \<Rightarrow> SplayScheduler \<Rightarrow> eaddr list" where
  "splay_order ev s = inorder (root s)"

fun inorder_left :: "(eaddr tree \<times> eaddr) list \<Rightarrow> eaddr list" where
  "inorder_left [] = []"
| "inorder_left ((a, l) # ls) = inorder_left ls @ inorder a @ [l]"

fun inorder_right :: "(eaddr \<times> eaddr tree) list \<Rightarrow> eaddr list" where
  "inorder_right [] = []"
| "inorder_right ((r, b) # rs) = r # inorder b @ inorder_right rs"

lemma inorder_plug_left: "inorder (plug_left ls t) = inorder_left ls @ inorder t"
  by (induction ls t rule: plug_left.induct) auto

lemma inorder_plug_right: "inorder (plug_right rs t) = inorder t @ inorder_right rs"
  by (induction rs t rule: plug_right.induct) auto

lemma before_sorted: "sorted_wrt (before ev) xs \<Longrightarrow> sorted_key (\<lambda>a. etime (ev a)) xs"
  by (induction xs) (auto simp: before_def)

lemma before_distinct: "sorted_wrt (before ev) xs \<Longrightarrow> distinct xs"
  by (induction xs) (auto simp: before_def)

text \<open>Splitting at a time: what is due up to the time goes left, the rest right, in order.\<close>

lemma filter_above:
  fixes f :: "'a \<Rightarrow> 'k::linorder"
  assumes "\<forall>x \<in> set xs. time < f x"
  shows "filter (\<lambda>x. f x \<le> time) xs = []" "filter (\<lambda>x. time < f x) xs = xs"
  using assms by (auto simp: filter_empty_conv filter_id_conv not_le)

lemma filter_upto:
  fixes f :: "'a \<Rightarrow> 'k::linorder"
  assumes "\<forall>x \<in> set xs. f x \<le> time"
  shows "filter (\<lambda>x. f x \<le> time) xs = xs" "filter (\<lambda>x. time < f x) xs = []"
  using assms by (auto simp: filter_empty_conv filter_id_conv not_less)

lemma inorder_splay_split:
  "sorted_key (\<lambda>a. etime (ev a)) (inorder t) \<Longrightarrow>
    inorder (fst (splay_split ev time t ls rs)) = inorder_left ls @ filter (\<lambda>a. etime (ev a) \<le> time) (inorder t)
    \<and> inorder (snd (splay_split ev time t ls rs)) = filter (\<lambda>a. time < etime (ev a)) (inorder t) @ inorder_right rs"
proof (induction ev time t ls rs rule: splay_split.induct)
  case (1 ev time ls rs)
  then show ?case by (simp add: inorder_plug_left inorder_plug_right)
next
  case (2 ev time a t b ls rs)
  let ?f = "\<lambda>a. etime (ev a)"
  show ?case
  proof (cases "time < etime (ev t)")
    case True
    with "2.prems" have b: "\<forall>x \<in> set (inorder b). time < ?f x"
      by (fastforce simp: sorted_append intro: less_le_trans)
    show ?thesis
    proof (cases a)
      case Leaf
      with True show ?thesis
        by (simp add: inorder_plug_left inorder_plug_right filter_above [where f = ?f, OF b] del: set_inorder)
    next
      case (Node xa x xb)
      show ?thesis
      proof (cases "time < ?f x")
        case x: True
        with "2.prems" Node have xb: "\<forall>x \<in> set (inorder xb). time < ?f x"
          by (fastforce simp: sorted_append intro: less_le_trans)
        from x "2.IH"(1) [OF True Node x] "2.prems" Node True show ?thesis
          by (simp add: filter_above [where f = ?f, OF b] filter_above [where f = ?f, OF xb] sorted_append)
      next
        case x: False
        from x "2.IH"(2) [OF True Node x] "2.prems" Node True show ?thesis
          by (simp add: filter_above [where f = ?f, OF b] sorted_append)
      qed
    qed
  next
    case False
    with "2.prems" have a: "\<forall>x \<in> set (inorder a). ?f x \<le> time"
      by (fastforce simp: sorted_append not_less intro: order_trans)
    show ?thesis
    proof (cases b)
      case Leaf
      with False show ?thesis
        by (simp add: inorder_plug_left inorder_plug_right filter_upto [where f = ?f, OF a] not_less)
    next
      case (Node xa x xb)
      show ?thesis
      proof (cases "time \<ge> ?f x")
        case x: True
        with "2.prems" Node have xa: "\<forall>x \<in> set (inorder xa). ?f x \<le> time"
          by (fastforce simp: sorted_append intro: order_trans)
        from x "2.IH"(3) [OF False Node x] "2.prems" Node False show ?thesis
          by (simp add: filter_upto [where f = ?f, OF a] filter_upto [where f = ?f, OF xa] sorted_append not_less)
      next
        case x: False
        from x "2.IH"(4) [OF False Node x] "2.prems" Node False show ?thesis
          by (simp add: filter_upto [where f = ?f, OF a] sorted_append not_less)
      qed
    qed
  qed
qed

lemma inorder_SplayScheduler_insert:
  "sorted_key (\<lambda>a. etime (ev a)) (inorder (root s)) \<Longrightarrow>
    inorder (root (SplayScheduler_insert ev n s)) = insert_upper (\<lambda>a. etime (ev a)) n (inorder (root s))"
  using inorder_splay_split [of ev "root s" "etime (ev n)" "[]" "[]"]
  by (cases "root s")
    (simp_all add: SplayScheduler_insert_def insert_upper_split split_beta Let_def
      del: splay_split.simps(2))

lemma inorder_splay_deque_left:
  "inorder l @ x # inorder r @ zs = fst (splay_deque_left l x r) # inorder (snd (splay_deque_left l x r)) @ zs"
  by (induction l x r arbitrary: zs rule: splay_deque_left.induct) (simp_all add: split_beta Let_def)

lemma SplayScheduler_deque_inorder:
  "case SplayScheduler_deque s of
     (None, s') \<Rightarrow> root s = Leaf \<and> s' = s
   | (Some e, s') \<Rightarrow> inorder (root s) = e # inorder (root s') \<and> qsize s' = qsize s - 1"
proof (cases "root s")
  case (Node l t r)
  then show ?thesis
    by (cases l) (simp_all add: SplayScheduler_deque_def split_beta Let_def inorder_splay_deque_left)
qed (simp add: SplayScheduler_deque_def)

lemma splay_leftmost_inorder: "t \<noteq> Leaf \<Longrightarrow> splay_leftmost t = Some (hd (inorder t))"
proof (induction t rule: splay_leftmost.induct)
  case (2 l t r)
  then show ?case by (cases l) (simp_all add: hd_append)
qed simp

lemma inorder_splay_pop_successor:
  "fst (splay_pop_successor l x r) # inorder (snd (splay_pop_successor l x r)) @ zs = inorder l @ x # inorder r @ zs"
  by (induction l x r arbitrary: zs rule: splay_pop_successor.induct) (simp_all add: split_beta Let_def)

lemma inorder_splay_unlink: "inorder (splay_unlink l r) = inorder l @ inorder r"
  using inorder_splay_pop_successor [where zs = "[]"]
  by (induction l r rule: splay_unlink.induct) (simp_all add: split_beta Let_def)

text \<open>The search by time and number reaches every event of the tree.\<close>

lemma inorder_splay_search:
  "sorted_wrt (before ev) (inorder t) \<Longrightarrow> e \<in> set (inorder t) \<Longrightarrow>
    \<exists>t'. splay_search ev e t = Inr t' \<and> inorder t' = removeAll e (inorder t)"
proof (induction t)
  case (Node l t r)
  have srt: "sorted_wrt (before ev) (inorder l)" "sorted_wrt (before ev) (inorder r)"
    "\<forall>x \<in> set (inorder l). before ev x t" "\<forall>x \<in> set (inorder r). before ev t x"
    using Node.prems(1) by (auto simp: sorted_wrt_append simp del: set_inorder)
  have dist: "distinct (inorder (Node l t r))" by (rule before_distinct [OF Node.prems(1)])
  consider "e = t" | "e \<in> set (inorder r)" "before ev t e" | "e \<in> set (inorder l)" "before ev e t"
    using Node.prems(2) srt(3,4) by auto
  then show ?case
  proof cases
    case 1
    with dist show ?thesis by (auto simp: inorder_splay_unlink)
  next
    case 2
    then have "splay_search ev e (Node l t r) = bindE (splay_search ev e r) (\<lambda>r'. Inr (Node l t r'))"
      by (auto simp: before_def)
    moreover have "e \<notin> set (inorder l)" "e \<noteq> t" using 2 dist by auto
    ultimately show ?thesis using Node.IH(2) [OF srt(2) 2(1)] by auto
  next
    case 3
    then have "splay_search ev e (Node l t r) = bindE (splay_search ev e l) (\<lambda>l'. Inr (Node l' t r))"
      by (auto simp: before_def)
    moreover have "e \<notin> set (inorder r)" "e \<noteq> t" using 3 dist by auto
    ultimately show ?thesis using Node.IH(1) [OF srt(1) 3(1)] by auto
  qed
qed simp

lemma uid_lookup_spec:
  "looked_up ev u (set_tree t) (uid_lookup ev u t)"
  by (induction t) (auto simp: looked_up_def split: option.splits)

lemma validate_sorted: "sorted_key (\<lambda>a. etime (ev a)) (inorder t) \<Longrightarrow> validate ev t = Inr (int (size t))"
  by (induction t) (auto simp: sorted_append split: tree.splits)

section \<open>The splay scheduler keeps the contract\<close>

lemma before_insert_upper:
  "sorted_wrt (before ev) xs \<Longrightarrow> \<forall>x \<in> set xs. euid (ev x) < euid (ev e) \<Longrightarrow>
    sorted_wrt (before ev) (insert_upper (\<lambda>a. etime (ev a)) e xs)"
  by (induction xs) (auto simp: before_def not_less)

lemma sorted_wrt_removeAll: "sorted_wrt P xs \<Longrightarrow> sorted_wrt P (removeAll x xs)"
  by (simp add: removeAll_filter_not_eq sorted_wrt_filter)

lemma length_removeAll_distinct: "distinct xs \<Longrightarrow> x \<in> set xs \<Longrightarrow> Suc (length (removeAll x xs)) = length xs"
  by (induction xs) auto

lemma before_cong:
  "sorted_wrt (before ev) xs \<Longrightarrow> same_on (set xs) ev ev' \<Longrightarrow> sorted_wrt (before ev') xs"
  by (induction xs) (auto simp: before_def same_on_def)

lemma size_inorder: "size t = length (inorder t)"
  by simp

lemma splay_insert_law:
  assumes inv: "splay_inv ev q" and ins: "insertable ev e (splay_members q)"
  shows "splay_inv ev (SplayScheduler_insert ev e q)
    \<and> inorder (root (SplayScheduler_insert ev e q)) = insert_upper (\<lambda>a. etime (ev a)) e (inorder (root q))"
proof -
  have srt: "sorted_key (\<lambda>a. etime (ev a)) (inorder (root q))"
    using inv before_sorted by (auto simp: splay_inv_def)
  note ord = inorder_SplayScheduler_insert [OF srt, of e]
  then have "size (root (SplayScheduler_insert ev e q)) = Suc (size (root q))"
    by (metis length_inorder length_insert_upper)
  moreover have "qsize (SplayScheduler_insert ev e q) = qsize q + 1"
    by (auto simp: SplayScheduler_insert_def split_beta Let_def split: tree.splits)
  ultimately show ?thesis
    using ord inv ins before_insert_upper [of ev "inorder (root q)" e]
    by (auto simp: splay_inv_def splay_members_def insertable_def)
qed

lemma splay_deque_law:
  assumes inv: "splay_inv ev q"
  shows "case SplayScheduler_deque q of
      (None, q') \<Rightarrow> root q = Leaf \<and> q' = q
    | (Some e, q') \<Rightarrow> splay_inv ev q' \<and> inorder (root q) = e # inorder (root q')
        \<and> e \<notin> splay_members q' \<and> (\<forall>x \<in> splay_members q'. etime (ev e) \<le> etime (ev x))"
proof (cases "SplayScheduler_deque q")
  case (Pair r q')
  show ?thesis
  proof (cases r)
    case (Some e)
    then have ord: "inorder (root q) = e # inorder (root q')" and sz: "qsize q' = qsize q - 1"
      using SplayScheduler_deque_inorder [of q] Pair by auto
    then have "size (root q) = Suc (size (root q'))" by (metis length_Cons length_inorder)
    with ord sz inv have "splay_inv ev q'" by (auto simp: splay_inv_def)
    moreover have "e \<notin> splay_members q'" "\<forall>x \<in> splay_members q'. etime (ev e) \<le> etime (ev x)"
      using inv ord before_distinct [of ev "inorder (root q)"] before_sorted [of ev "inorder (root q)"]
      by (auto simp: splay_inv_def splay_members_def)
    ultimately show ?thesis using Pair Some ord by simp
  qed (use SplayScheduler_deque_inorder [of q] Pair in simp)
qed

lemma splay_cancel_law:
  assumes inv: "splay_inv ev q" and e: "e \<in> splay_members q" and u: "0 < euid (ev e)"
  obtains q' where "SplayScheduler_cancel ev e q = Inr (negate_uid e ev, q')" "splay_inv ev q'"
    "inorder (root q') = removeAll e (inorder (root q))"
proof -
  have srt: "sorted_wrt (before ev) (inorder (root q))" using inv by (simp add: splay_inv_def)
  obtain t where t: "splay_search ev e (root q) = Inr t" "inorder t = removeAll e (inorder (root q))"
    using inorder_splay_search [OF srt, of e] e by (auto simp: splay_members_def)
  have "Suc (length (removeAll e (inorder (root q)))) = length (inorder (root q))"
    using before_distinct [OF srt] e by (intro length_removeAll_distinct) (simp_all add: splay_members_def)
  moreover have "size t = length (removeAll e (inorder (root q)))" using t(2) length_inorder [of t] by simp
  ultimately have "int (size t) = qsize q - 1" using inv by (simp add: splay_inv_def)
  then have "splay_inv ev (q\<lparr>qsize := qsize q - 1, root := t\<rparr>)"
    using srt t(2) sorted_wrt_removeAll by (auto simp: splay_inv_def)
  with t u show thesis by (intro that [of "q\<lparr>qsize := qsize q - 1, root := t\<rparr>"]) (simp_all add: SplayScheduler_cancel_def)
qed

lemma splay_inv_cong: "splay_inv ev q \<Longrightarrow> same_on (splay_members q) ev ev' \<Longrightarrow> splay_inv ev' q"
  using before_cong [of ev "inorder (root q)" ev'] by (simp add: splay_inv_def splay_members_def)

interpretation splay: fifo_queue SplayScheduler_ops splay_inv splay_members splay_order
proof (unfold_locales, goal_cases)
  case (2 ev q ev') then show ?case by (rule splay_inv_cong)
next
  case (3 ev q e)
  from splay_insert_law [OF this] show ?case
    by (auto simp: SplayScheduler_ops_def splay_members_def simp flip: set_inorder)
next
  case (4 ev q)
  with splay_deque_law [OF this] show ?case
    by (cases "SplayScheduler_deque q") (auto simp: SplayScheduler_ops_def splay_members_def next_event_def
      simp flip: set_inorder split: option.splits)
next
  case (6 ev q e)
  from splay_cancel_law [OF this] obtain q' where "SplayScheduler_cancel ev e q = Inr (negate_uid e ev, q')"
    "splay_inv ev q'" "inorder (root q') = removeAll e (inorder (root q))" by blast
  then show ?case by (auto simp: SplayScheduler_ops_def splay_members_def simp flip: set_inorder)
next
  case (7 ev q u)
  with uid_lookup_spec [where ev = ev and u = u and t = "root q"] show ?case
    by (auto simp: SplayScheduler_ops_def SplayScheduler_lookup_def splay_inv_def splay_members_def)
next
  case (9 ev q) then show ?case using before_distinct by (auto simp: splay_inv_def splay_order_def)
next
  case (11 ev q e q')
  from splay_insert_law [OF 11(1,2)] 11(3) show ?case by (auto simp: SplayScheduler_ops_def splay_order_def)
next
  case (12 ev q r q')
  with splay_deque_law [of ev q] show ?case
    by (auto simp: SplayScheduler_ops_def splay_order_def split: option.splits)
next
  case (13 ev q e ev' q')
  obtain q2 where "SplayScheduler_cancel ev e q = Inr (negate_uid e ev, q2)"
    "inorder (root q2) = removeAll e (inorder (root q))"
    using splay_cancel_law [OF 13(1-3)] by blast
  with 13(4) show ?case by (auto simp: SplayScheduler_ops_def splay_order_def)
qed (auto simp: splay_members_def SplayScheduler_ops_def SplayScheduler_cancel_def SplayScheduler_lookup_def splay_order_def)

interpretation splay: peekable_queue SplayScheduler_ops splay_inv splay_members
proof (unfold_locales, goal_cases)
  case (1 ev q)
  have "SplayScheduler_head q = fst (SplayScheduler_deque q)"
  proof (cases "root q = Leaf")
    case False
    with SplayScheduler_deque_inorder [of q] show ?thesis
      by (cases "SplayScheduler_deque q") (auto simp: SplayScheduler_head_def splay_leftmost_inorder split: option.splits)
  qed (simp add: SplayScheduler_head_def SplayScheduler_deque_def)
  with 1 show ?case by (auto simp: SplayScheduler_ops_def) (metis prod.collapse)
qed

interpretation list_splay: fifo_pair ListScheduler_ops list_inv set list_order
    SplayScheduler_ops splay_inv splay_members splay_order ..

section \<open>Properties\<close>

text \<open>Inserting an event keeps the tree sorted and puts the event behind every event of the
  same or an earlier time and in front of every later one.\<close>

theorem splay_insert_is_stable:
  assumes "splay_inv ev q" and "e \<notin> splay_members q" and "\<forall>x \<in> splay_members q. euid (ev x) < euid (ev e)"
    and "0 \<le> etime (ev e)"
  shows "splay_inv ev (SplayScheduler_insert ev e q)
    \<and> inorder (root (SplayScheduler_insert ev e q))
        = filter (\<lambda>a. etime (ev a) \<le> etime (ev e)) (inorder (root q)) @ e
          # filter (\<lambda>a. etime (ev e) < etime (ev a)) (inorder (root q))"
proof -
  have "sorted_key (\<lambda>a. etime (ev a)) (inorder (root q))"
    using assms(1) before_sorted by (auto simp: splay_inv_def)
  then show ?thesis
    using splay_insert_law [of ev q e] assms by (simp add: insertable_def insert_upper_split)
qed

definition demo_ev :: events where
  "demo_ev a = \<lparr>ehandler = 7, etime = (if a = 3 then 2 else 1), euid = int a\<rparr>"

lemma demo_ev_simps: "ehandler (demo_ev a) = 7" "etime (demo_ev a) = (if a = 3 then 2 else 1)" "euid (demo_ev a) = int a"
  by (simp_all add: demo_ev_def)

theorem splay_insert_is_stable_witness:
  "inorder (root (SplayScheduler_insert demo_ev 4 \<lparr>root = Node (Node Leaf 2 Leaf) 3 Leaf, lookup_uid = 0, qsize = 2\<rparr>))
    = [2, 4, 3]"
proof -
  let ?q = "\<lparr>root = Node (Node Leaf 2 Leaf) 3 Leaf, lookup_uid = 0, qsize = 2\<rparr>"
  have "splay_inv demo_ev ?q" "4 \<notin> splay_members ?q" "\<forall>x \<in> splay_members ?q. euid (demo_ev x) < euid (demo_ev 4)"
    "0 \<le> etime (demo_ev 4)"
    by (simp_all add: splay_inv_def splay_members_def demo_ev_simps before_def)
  from splay_insert_is_stable [OF this] show ?thesis by (simp add: demo_ev_simps)
qed

text \<open>C9. The list and the splay scheduler run simulations alike, whatever calls fill them and whatever the handlers do, as long as events are
  made and scheduled only while they are not queued, with a handler and with a delay that is not negative (\<open>calls_ok\<close>, \<open>handler_ok\<close>), so that all queued events
  are numbered in the order in which they were scheduled: from an empty queue of each
  filled by the same calls, they dispatch the same events at the same times in the same order, and
  the handlers and events end in the same state; or both stop with the same error. Events that bypass \<^verbatim>\<open>schedule\<close>, as those of
  GEA do, are excluded: they have no number, and \<open>splay_cancel_misses_event\<close> shows what they break.\<close>

theorem splay_runs_like_list:
  assumes "handler_ok ListScheduler_ops handle"
    and "calls_ok ListScheduler_ops calls (new_Scheduler ev [])" and "\<forall>a. euid (ev a) \<le> 0"
    and "foldE (exec_call ListScheduler_ops) calls (new_Scheduler ev []) = Inr s"
  shows "\<exists>s'. foldE (exec_call SplayScheduler_ops) calls (new_Scheduler ev new_SplayScheduler) = Inr s'
    \<and> ((\<exists>F F'. run ListScheduler_ops handle n \<lparr>sched = s, world = w, trace = []\<rparr> = Inr F
          \<and> run SplayScheduler_ops handle n \<lparr>sched = s', world = w, trace = []\<rparr> = Inr F'
          \<and> trace F' = trace F \<and> world F' = world F \<and> events (sched F') = events (sched F)
          \<and> clock (sched F') = clock (sched F))
       \<or> (\<exists>err. run ListScheduler_ops handle n \<lparr>sched = s, world = w, trace = []\<rparr> = Inl err
          \<and> run SplayScheduler_ops handle n \<lparr>sched = s', world = w, trace = []\<rparr> = Inl err))"
proof -
  have "list_splay.agree (new_Scheduler ev []) (new_Scheduler ev new_SplayScheduler)"
    using assms(3) by (auto simp: list_splay.agree_def sched_inv_def new_Scheduler_def new_SplayScheduler_def
      list_inv_def splay_inv_def list_order_def splay_order_def SCHED_START_def not_less)
  from list_splay.runs_alike [OF this assms(1,2,4)] show ?thesis .
qed

theorem splay_runs_like_list_witness:
  "\<exists>s F. foldE (exec_call SplayScheduler_ops) demo_calls (new_Scheduler demo_events new_SplayScheduler) = Inr s
    \<and> run SplayScheduler_ops demo_handler 4 \<lparr>sched = s, world = 1, trace = []\<rparr> = Inr F \<and> trace F = [(2, 1, 1), (5, 1, 2), (2, 3, 3)]"
proof -
  obtain s F where s: "foldE (exec_call ListScheduler_ops) demo_calls (new_Scheduler demo_events []) = Inr s"
    "run ListScheduler_ops demo_handler 4 \<lparr>sched = s, world = 1, trace = []\<rparr> = Inr F" "trace F = [(2, 1, 1), (5, 1, 2), (2, 3, 3)]"
    by (rule demo_sim)
  from splay_runs_like_list [OF demo_handler_ok demo_calls_ok demo_events_idle s(1), of 4 1] s(2,3) show ?thesis by auto
qed

text \<open>The search of \<^verbatim>\<open>cancel\<close> needs the numbers of events of one time to be in their order
  of insertion. An event put into the queue directly, with the number 0 that the constructor gives,
  hides an event of the same time inserted before it: cancelling that one aborts, although it is in
  the queue.\<close>

theorem splay_cancel_misses_event:
  assumes "a \<noteq> b" and "etime (ev b) = etime (ev a)" and "0 < euid (ev a)" and "euid (ev b) = 0"
  shows "let q = SplayScheduler_insert ev b (SplayScheduler_insert ev a new_SplayScheduler) in
    a \<in> splay_members q \<and> SplayScheduler_cancel ev a q = Inl (AssertFailed ''did not find it'')"
  using assms by (simp add: SplayScheduler_insert_def new_SplayScheduler_def splay_members_def SplayScheduler_cancel_def)

theorem splay_cancel_misses_event_witness:
  "SplayScheduler_cancel demo_ev 2 (SplayScheduler_insert demo_ev 0 (SplayScheduler_insert demo_ev 2 new_SplayScheduler))
    = Inl (AssertFailed ''did not find it'')"
  using splay_cancel_misses_event [of 2 0 demo_ev] by (simp add: demo_ev_simps Let_def)

text \<open>\<^verbatim>\<open>validate\<close> accepts every tree that satisfies the invariant and counts
  \<^verbatim>\<open>qsize_\<close> nodes.\<close>

theorem splay_validate_ok:
  assumes "splay_inv ev q"
  shows "validate ev (root q) = Inr (qsize q)"
  using assms validate_sorted [OF before_sorted] by (auto simp: splay_inv_def)

theorem splay_validate_ok_witness:
  "validate demo_ev (Node (Node Leaf 2 Leaf) 3 Leaf) = Inr 2"
  using splay_validate_ok [of demo_ev "\<lparr>root = Node (Node Leaf 2 Leaf) 3 Leaf, lookup_uid = 0, qsize = 2\<rparr>"]
  by (simp add: splay_inv_def demo_ev_simps before_def)

lemma new_SplayScheduler_inv: "splay_inv ev new_SplayScheduler" "splay_members new_SplayScheduler = {}"
  by (simp_all add: splay_inv_def splay_members_def new_SplayScheduler_def)

end
