(* ===== verification/Ns_Map.thy ===== *)
theory Ns_Map
  imports Ns_Scheduler
begin

text \<open>
  The scheduler on a set of the standard library, \<^verbatim>\<open>ns2-gea/ns-2/common/scheduler-map.cc\<close>.

  A \<^verbatim>\<open>std::set\<close> is its elements in the order in which iterators go through them, which is the
  order of its comparison \<^verbatim>\<open>event_less_adapter\<close>; two events of which neither is less than the
  other count as equal.

  \<^verbatim>\<open>deque\<close> reads the iterator after it has erased the element. What the freed node of the set
  then holds is not defined by the language: it is the parameter \<open>stale\<close> of the operations, from
  the event that was in the node to the pointer read, or the error that ends the program. As long as
  the freed node keeps its pointer the scheduler is a first in, first out queue and runs like the
  list scheduler.
\<close>

section \<open>The scheduler\<close>

type_synonym MapScheduler = "eaddr list"

definition new_MapScheduler :: MapScheduler where
  "new_MapScheduler = []"

definition event_less_adapter :: "events \<Rightarrow> eaddr \<Rightarrow> eaddr \<Rightarrow> bool" where
  "event_less_adapter ev e1 e2 \<longleftrightarrow>
     etime (ev e1) < etime (ev e2) \<or> (etime (ev e1) = etime (ev e2) \<and> euid (ev e1) < euid (ev e2))"

text \<open>\<^verbatim>\<open>insert\<close> of the set: nothing happens if an equal element is there. \<^verbatim>\<open>find\<close> of the set:
  the element equal to the argument.\<close>

fun set_insert :: "events \<Rightarrow> eaddr \<Rightarrow> eaddr list \<Rightarrow> eaddr list" where
  "set_insert ev e [] = [e]"
| "set_insert ev e (x # xs) =
     (if event_less_adapter ev e x then e # x # xs
      else if event_less_adapter ev x e then x # set_insert ev e xs
      else x # xs)"

fun set_find :: "events \<Rightarrow> eaddr \<Rightarrow> eaddr list \<Rightarrow> eaddr option" where
  "set_find ev e [] = None"
| "set_find ev e (x # xs) =
     (if \<not> event_less_adapter ev e x \<and> \<not> event_less_adapter ev x e then Some x else set_find ev e xs)"

definition MapScheduler_cancel :: "events \<Rightarrow> eaddr \<Rightarrow> MapScheduler \<Rightarrow> events \<times> MapScheduler" where
  "MapScheduler_cancel ev p q =
     (case set_find ev p q of None \<Rightarrow> (ev, q) | Some x \<Rightarrow> (negate_uid p ev, remove1 x q))"

definition MapScheduler_insert :: "events \<Rightarrow> eaddr \<Rightarrow> MapScheduler \<Rightarrow> MapScheduler" where
  "MapScheduler_insert ev p q = set_insert ev p q"

fun MapScheduler_lookup :: "events \<Rightarrow> uid \<Rightarrow> MapScheduler \<Rightarrow> eaddr option" where
  "MapScheduler_lookup ev u [] = None"
| "MapScheduler_lookup ev u (x # xs) = (if euid (ev x) = u then Some x else MapScheduler_lookup ev u xs)"

fun MapScheduler_deque ::
    "(eaddr \<Rightarrow> eaddr option result) \<Rightarrow> MapScheduler \<Rightarrow> (eaddr option \<times> MapScheduler) result" where
  "MapScheduler_deque stale [] = Inr (None, [])"
| "MapScheduler_deque stale (x # xs) = bindE (stale x) (\<lambda>p. Inr (p, xs))"

text \<open>\<^verbatim>\<open>head\<close> reads the first element without asking whether there is one.\<close>

fun MapScheduler_head :: "MapScheduler \<Rightarrow> eaddr option result" where
  "MapScheduler_head [] = Inl InvalidIterator"
| "MapScheduler_head (x # xs) = Inr (Some x)"

definition MapScheduler_ops :: "(eaddr \<Rightarrow> eaddr option result) \<Rightarrow> MapScheduler ops" where
  "MapScheduler_ops stale =
     \<lparr>op_cancel = \<lambda>ev e q. Inr (MapScheduler_cancel ev e q),
      op_insert = \<lambda>ev e q. Inr (MapScheduler_insert ev e q),
      op_lookup = \<lambda>ev u q. Inr (MapScheduler_lookup ev u q, q),
      op_deque = \<lambda>ev q. MapScheduler_deque stale q,
      op_head = \<lambda>ev q. bindE (MapScheduler_head q) (\<lambda>p. Inr (p, q))\<rparr>"

text \<open>The freed node still holds the pointer to its event.\<close>

definition node_kept :: "eaddr \<Rightarrow> eaddr option result" where
  "node_kept x = Inr (Some x)"

section \<open>The set as a queue\<close>

definition map_inv :: "events \<Rightarrow> MapScheduler \<Rightarrow> bool" where
  "map_inv ev q \<longleftrightarrow> sorted_wrt (event_less_adapter ev) q"

definition map_order :: "events \<Rightarrow> MapScheduler \<Rightarrow> eaddr list" where
  "map_order ev q = q"

lemma event_less_trans: "event_less_adapter ev a b \<Longrightarrow> event_less_adapter ev b c \<Longrightarrow> event_less_adapter ev a c"
  by (auto simp: event_less_adapter_def)

lemma event_less_irrefl [simp]: "\<not> event_less_adapter ev a a"
  by (simp add: event_less_adapter_def)

lemma map_inv_distinct: "map_inv ev q \<Longrightarrow> distinct q"
  unfolding map_inv_def by (induction q) auto

lemma map_inv_cong: "map_inv ev q \<Longrightarrow> same_on (set q) ev ev' \<Longrightarrow> map_inv ev' q"
  unfolding map_inv_def by (induction q) (auto simp: same_on_def event_less_adapter_def)

text \<open>An event with a number of its own goes behind the events of its time.\<close>

lemma set_insert_is_upper:
  assumes "\<forall>x \<in> set q. euid (ev x) < euid (ev e)"
  shows "set_insert ev e q = insert_upper (\<lambda>a. etime (ev a)) e q"
  using assms by (induction q) (auto simp: event_less_adapter_def)

lemma set_set_insert:
  assumes "\<forall>x \<in> set q. euid (ev x) < euid (ev e)"
  shows "set (set_insert ev e q) = insert e (set q)"
  using assms by (induction q) (auto simp: event_less_adapter_def)

lemma set_set_insert_subset: "set (set_insert ev e q) \<subseteq> insert e (set q)"
  by (induction q) auto

lemma map_inv_insert: "map_inv ev q \<Longrightarrow> map_inv ev (set_insert ev e q)"
proof (induction q)
  case (Cons x xs)
  show ?case
  proof (cases "event_less_adapter ev e x")
    case True
    with Cons.prems show ?thesis by (auto simp: map_inv_def intro: event_less_trans [OF True])
  next
    case False
    with Cons set_set_insert_subset [of ev e xs] show ?thesis by (auto simp: map_inv_def)
  qed
qed (simp add: map_inv_def)

lemma set_find_member:
  assumes "map_inv ev q" and "e \<in> set q"
  shows "set_find ev e q = Some e"
  using assms by (induction q) (auto simp: map_inv_def)

lemma set_find_none:
  assumes "\<forall>x \<in> set q. 0 < euid (ev x)" and "euid (ev e) \<le> 0"
  shows "set_find ev e q = None"
  using assms by (induction q) (auto simp: event_less_adapter_def)

lemma map_inv_remove1: "map_inv ev q \<Longrightarrow> map_inv ev (removeAll e q) \<and> remove1 e q = removeAll e q"
  using map_inv_distinct [of ev q]
  by (auto simp: map_inv_def distinct_remove1_removeAll removeAll_filter_not_eq sorted_wrt_filter)

lemma MapScheduler_lookup_find: "MapScheduler_lookup ev u q = find (\<lambda>x. euid (ev x) = u) q"
  by (induction q) auto

lemma map_next: "map_inv ev (x # q) \<Longrightarrow> next_event ev (set (x # q)) (Some x)"
  by (auto simp: map_inv_def next_event_def event_less_adapter_def)

lemmas map_ops_defs = MapScheduler_ops_def MapScheduler_cancel_def MapScheduler_insert_def node_kept_def map_order_def

interpretation stl: fifo_queue "MapScheduler_ops node_kept" map_inv set map_order
proof (unfold_locales, goal_cases)
  case (2 ev q ev') then show ?case by (rule map_inv_cong)
next
  case (3 ev q e) then show ?case
    by (simp add: map_ops_defs insertable_def map_inv_insert set_set_insert)
next
  case (4 ev q) then show ?case
    using map_next [of ev "hd q" "tl q"] map_inv_distinct [of ev q]
    by (cases q) (auto simp: map_ops_defs map_inv_def next_event_def)
next
  case (5 ev q e) then show ?case by (simp add: map_ops_defs set_find_none)
next
  case (6 ev q e) then show ?case using map_inv_remove1 [of ev q e] by (simp add: map_ops_defs set_find_member)
next
  case (7 ev q u) then show ?case
    by (auto simp: map_ops_defs looked_up_def MapScheduler_lookup_find find_None_iff find_Some_iff split: option.splits)
next
  case (9 ev q) then show ?case by (simp add: map_order_def map_inv_distinct)
next
  case (11 ev q e q') then show ?case by (auto simp: map_ops_defs insertable_def set_insert_is_upper)
next
  case (12 ev q r q') then show ?case by (cases q) (auto simp: map_ops_defs)
next
  case (13 ev q e ev' q') then show ?case using map_inv_remove1 [of ev q e] by (auto simp: map_ops_defs set_find_member)
qed (auto simp: map_ops_defs)

interpretation list_stl: fifo_pair ListScheduler_ops list_inv set list_order
    "MapScheduler_ops node_kept" map_inv set map_order ..

section \<open>Properties\<close>

text \<open>The list scheduler and the scheduler on \<^verbatim>\<open>std::set\<close> run simulations alike, whose handlers and initial calls keep the rules
  of \<open>Ns_Scheduler\<close> (\<open>handler_ok\<close>, \<open>calls_ok\<close>), as long
  as the memory of an erased node is not written before \<^verbatim>\<open>deque\<close> reads it: from an empty queue of
  each filled by the same calls, they dispatch the same events at the same times in the same order,
  and the handlers and events end in the same state; or both stop with the same error.\<close>

theorem map_runs_like_list:
  assumes "handler_ok ListScheduler_ops handle"
    and "calls_ok ListScheduler_ops calls (new_Scheduler ev [])" and "\<forall>a. euid (ev a) \<le> 0"
    and "foldE (exec_call ListScheduler_ops) calls (new_Scheduler ev []) = Inr s"
  shows "\<exists>s'. foldE (exec_call (MapScheduler_ops node_kept)) calls (new_Scheduler ev new_MapScheduler) = Inr s'
    \<and> ((\<exists>F F'. run ListScheduler_ops handle n \<lparr>sched = s, world = w, trace = []\<rparr> = Inr F
          \<and> run (MapScheduler_ops node_kept) handle n \<lparr>sched = s', world = w, trace = []\<rparr> = Inr F'
          \<and> trace F' = trace F \<and> world F' = world F \<and> events (sched F') = events (sched F)
          \<and> clock (sched F') = clock (sched F))
       \<or> (\<exists>err. run ListScheduler_ops handle n \<lparr>sched = s, world = w, trace = []\<rparr> = Inl err
          \<and> run (MapScheduler_ops node_kept) handle n \<lparr>sched = s', world = w, trace = []\<rparr> = Inl err))"
proof -
  have "list_stl.agree (new_Scheduler ev []) (new_Scheduler ev new_MapScheduler)"
    using assms(3) by (auto simp: list_stl.agree_def sched_inv_def new_Scheduler_def new_MapScheduler_def
      list_inv_def map_inv_def list_order_def map_order_def SCHED_START_def not_less)
  from list_stl.runs_alike [OF this assms(1,2,4)] show ?thesis .
qed

theorem map_runs_like_list_witness:
  "\<exists>s s'. foldE (exec_call ListScheduler_ops) demo_calls (new_Scheduler demo_events []) = Inr s
    \<and> foldE (exec_call (MapScheduler_ops node_kept)) demo_calls (new_Scheduler demo_events new_MapScheduler) = Inr s'"
proof -
  obtain s where s: "foldE (exec_call ListScheduler_ops) demo_calls (new_Scheduler demo_events []) = Inr s"
    using demo_schedule by blast
  from map_runs_like_list [OF demo_handler_ok demo_calls_ok demo_events_idle s, of 5 2] s show ?thesis by blast
qed

text \<open>What the freed node reads as decides what is dispatched. If the memory of the erased node has
  become null, a run that is not halted ends at once, with every event but the first still in the
  queue and the first lost: \<^verbatim>\<open>run\<close> takes the null pointer for an empty queue.\<close>

theorem map_stale_null_ends_run:
  assumes "\<not> halted (sched S)" and "queue (sched S) = x # q" and "stale x = Inr None"
  shows "run (MapScheduler_ops stale) handle (Suc n) S = Inr (S\<lparr>sched := (sched S)\<lparr>queue := q\<rparr>\<rparr>)"
  using assms by (simp add: deque_def MapScheduler_ops_def)

text \<open>An event that is put into the queue with the time and number of another is not queued at all,
  and cancelling it takes the other one out while the number of the first is negated.\<close>

theorem map_equal_event_lost:
  assumes "map_inv ev q" and "x \<in> set q" and "etime (ev e) = etime (ev x)" and "euid (ev e) = euid (ev x)"
  shows "MapScheduler_insert ev e q = q \<and> MapScheduler_cancel ev e q = (negate_uid e ev, remove1 x q)"
proof -
  have eq: "event_less_adapter ev e y = event_less_adapter ev x y"
    "event_less_adapter ev y e = event_less_adapter ev y x" for y
    using assms(3,4) by (simp_all add: event_less_adapter_def)
  have "set_insert ev e q = q" using assms(1,2)
    by (induction q) (auto simp: eq map_inv_def dest: event_less_trans)
  moreover have "set_find ev e q = set_find ev x q" by (induction q) (simp_all add: eq)
  ultimately show ?thesis
    using set_find_member [OF assms(1,2)] by (simp add: MapScheduler_insert_def MapScheduler_cancel_def)
qed

end
