(* ===== verification/Ns_Calendar.thy ===== *)
theory Ns_Calendar
  imports Ns_Scheduler
begin

text \<open>
  The calendar queue scheduler of \<^verbatim>\<open>ns2-gea/ns-2/common/scheduler.cc\<close>, the default
  scheduler of the simulator. The events are hashed by their time into buckets, days of a year; a
  bucket is a circular doubly linked list, kept here as the list of its events from
  \<^verbatim>\<open>list_\<close> on. The number of buckets doubles and halves with the number of different times
  in the queue, and the width of a day is then taken from the fullest bucket.

  The invariant: an event is in the bucket of its time, every bucket is sorted, the counters count
  the different times, and no event is before \<^verbatim>\<open>cal_clock_\<close>, whose bucket is
  \<^verbatim>\<open>lastbucket_\<close>. With it the search of \<^verbatim>\<open>head\<close>, which stops at the first event
  within the year, is shown to find the earliest event, and the queue is first in, first out.
\<close>

section \<open>The scheduler\<close>

record Bucket =
  list_of :: "eaddr list"
  b_count :: int

record CalendarScheduler =
  width :: double
  diff0 :: double
  diff1 :: double
  diff2 :: double
  stat_qsize :: int
  nbuckets :: nat
  lastbucket :: nat
  top_threshold :: int
  bot_threshold :: int
  buckets :: "Bucket list"
  cal_qsize :: int
  cal_clock :: double

text \<open>\<^verbatim>\<open>fmod\<close> of the C library, and \<^verbatim>\<open>CALENDAR_HASH\<close>. A negative hash is an access
  outside of the array.\<close>

definition fmod :: "double \<Rightarrow> double \<Rightarrow> double" where
  "fmod x y = x - y * of_int (trunc (x / y))"

definition CALENDAR_HASH :: "double \<Rightarrow> nat \<Rightarrow> double \<Rightarrow> int" where
  "CALENDAR_HASH w n t = trunc (fmod (t / w) (of_nat n))"

definition hash_index :: "CalendarScheduler \<Rightarrow> double \<Rightarrow> nat result" where
  "hash_index s t =
     (let i = CALENDAR_HASH (width s) (nbuckets s) t in
      if 0 \<le> i \<and> i < int (length (buckets s)) then Inr (nat i) else Inl BufferOverflow)"

text \<open>The neighbours in the circular list.\<close>

fun circ_next_from :: "eaddr \<Rightarrow> eaddr \<Rightarrow> eaddr list \<Rightarrow> eaddr" where
  "circ_next_from h0 e [] = h0"
| "circ_next_from h0 e (x # xs) = (if x = e then (case xs of [] \<Rightarrow> h0 | y # _ \<Rightarrow> y) else circ_next_from h0 e xs)"

definition circ_next :: "eaddr \<Rightarrow> eaddr list \<Rightarrow> eaddr" where
  "circ_next e es = circ_next_from (hd es) e es"

definition circ_prev :: "eaddr \<Rightarrow> eaddr list \<Rightarrow> eaddr" where
  "circ_prev e es = circ_next e (rev es)"

text \<open>The two insertions into a bucket: behind, and in front of, the events of the same time.\<close>

fun insert_after_equal :: "events \<Rightarrow> eaddr \<Rightarrow> eaddr list \<Rightarrow> eaddr list" where
  "insert_after_equal ev e [] = [e]"
| "insert_after_equal ev e (b # bs) =
     (if etime (ev e) \<ge> etime (ev b) then b # insert_after_equal ev e bs else e # b # bs)"

definition bucket_insert :: "events \<Rightarrow> eaddr \<Rightarrow> eaddr list \<Rightarrow> eaddr list" where
  "bucket_insert ev e es =
     (if es = [] then [e]
      else if etime (ev e) \<ge> etime (ev (last es)) then es @ [e]
      else insert_after_equal ev e es)"

fun insert_before_equal :: "events \<Rightarrow> eaddr \<Rightarrow> eaddr list \<Rightarrow> eaddr list" where
  "insert_before_equal ev e [] = [e]"
| "insert_before_equal ev e (b # bs) =
     (if etime (ev e) > etime (ev b) then b # insert_before_equal ev e bs else e # b # bs)"

definition bucket_insert2 :: "events \<Rightarrow> eaddr \<Rightarrow> eaddr list \<Rightarrow> eaddr list" where
  "bucket_insert2 ev e es =
     (if es = [] then [e]
      else if etime (ev e) > etime (ev (last es)) then es @ [e]
      else insert_before_equal ev e es)"

definition Calendar_insert2 :: "events \<Rightarrow> eaddr \<Rightarrow> CalendarScheduler \<Rightarrow> CalendarScheduler result" where
  "Calendar_insert2 ev e s =
     bindE (hash_index s (etime (ev e))) (\<lambda>i.
       let b = buckets s ! i;
           es = bucket_insert2 ev e (list_of b);
           new = (list_of b = [] \<or> (circ_next e es \<noteq> e \<and> etime (ev (circ_next e es)) \<noteq> etime (ev e)));
           b' = \<lparr>list_of = es, b_count = (if new then b_count b + 1 else b_count b)\<rparr>
       in Inr (s\<lparr>buckets := (buckets s)[i := b'],
                 stat_qsize := (if new then stat_qsize s + 1 else stat_qsize s),
                 cal_qsize := cal_qsize s + 1\<rparr>))"

definition reinit :: "nat \<Rightarrow> double \<Rightarrow> double \<Rightarrow> CalendarScheduler \<Rightarrow> CalendarScheduler result" where
  "reinit nbuck bwidth start s =
     (let s' = s\<lparr>buckets := replicate nbuck \<lparr>list_of = [], b_count = 0\<rparr>, width := bwidth, nbuckets := nbuck,
            cal_qsize := 0, stat_qsize := 0\<rparr> in
      bindE (hash_index s' start) (\<lambda>i.
        Inr (s'\<lparr>lastbucket := i, diff0 := bwidth * of_nat nbuck / 2, diff1 := bwidth * of_nat nbuck / 2 + bwidth,
                diff2 := bwidth * of_nat nbuck, bot_threshold := int nbuck div 2 - 2, top_threshold := int nbuck * 2\<rparr>)))"

text \<open>The first of the fullest buckets, as the loop of \<^verbatim>\<open>newwidth\<close> finds it.\<close>

fun max_bucket_from :: "Bucket list \<Rightarrow> nat \<Rightarrow> nat list \<Rightarrow> nat" where
  "max_bucket_from bs m [] = m"
| "max_bucket_from bs m (i # is) =
     max_bucket_from bs (if b_count (bs ! i) > b_count (bs ! m) then i else m) is"

definition max_bucket :: "CalendarScheduler \<Rightarrow> nat" where
  "max_bucket s = max_bucket_from (buckets s) 0 [1..<nbuckets s]"

definition newwidth :: "events \<Rightarrow> nat \<Rightarrow> CalendarScheduler \<Rightarrow> double result" where
  "newwidth ev newsize s =
     (let b = buckets s ! max_bucket s; nsamples = b_count b in
      if nsamples \<le> 4 then Inr (width s)
      else if list_of b = [] then Inl NullPointer
      else
        let nw = etime (ev (last (list_of b))) - etime (ev (hd (list_of b))) in
        bindE (assertE ''nw > 0'' (nw > 0)) (\<lambda>_.
          Inr (nw / of_int (if int newsize < nsamples then int newsize else nsamples) * 4)))"

definition resize :: "events \<Rightarrow> nat \<Rightarrow> double \<Rightarrow> CalendarScheduler \<Rightarrow> CalendarScheduler result" where
  "resize ev newsize start s =
     bindE (newwidth ev newsize s) (\<lambda>bwidth.
       bindE (reinit (if newsize < 4 then 4 else newsize) bwidth start s)
         (foldE (\<lambda>b. foldE (Calendar_insert2 ev) (rev (list_of b))) (buckets s)))"

definition new_CalendarScheduler :: "double \<Rightarrow> CalendarScheduler result" where
  "new_CalendarScheduler clk =
     reinit 4 1 clk \<lparr>width = 0, diff0 = 0, diff1 = 0, diff2 = 0, stat_qsize = 0, nbuckets = 0, lastbucket = 0,
       top_threshold = 0, bot_threshold = 0, buckets = [], cal_qsize = 0, cal_clock = clk\<rparr>"

definition Calendar_insert :: "events \<Rightarrow> eaddr \<Rightarrow> CalendarScheduler \<Rightarrow> CalendarScheduler result" where
  "Calendar_insert ev e s0 =
     bindE (hash_index s0 (etime (ev e))) (\<lambda>i.
       let s = (if cal_clock s0 > etime (ev e) then s0\<lparr>cal_clock := etime (ev e), lastbucket := i\<rparr> else s0);
           b = buckets s ! i;
           es = bucket_insert ev e (list_of b);
           new = (list_of b = [] \<or> etime (ev (circ_prev e es)) \<noteq> etime (ev e));
           b' = \<lparr>list_of = es, b_count = (if new then b_count b + 1 else b_count b)\<rparr>;
           s' = s\<lparr>buckets := (buckets s)[i := b'],
                  stat_qsize := (if new then stat_qsize s + 1 else stat_qsize s),
                  cal_qsize := cal_qsize s + 1\<rparr>
       in if stat_qsize s' > top_threshold s' then resize ev (nbuckets s' * 2) (cal_clock s') s' else Inr s')"

text \<open>
  The search of \<^verbatim>\<open>head\<close>. \<open>cal_scan\<close> is \<^verbatim>\<open>CAL_DEQUEUE\<close> applied to a list of buckets with
  their limits: either an event within the year is found, or the first of the earliest events seen
  is returned, each with its bucket.
\<close>

fun cal_scan ::
    "events \<Rightarrow> CalendarScheduler \<Rightarrow> (nat \<times> double) list \<Rightarrow> (eaddr \<times> nat) option \<Rightarrow> (eaddr \<times> nat) + (eaddr \<times> nat) option" where
  "cal_scan ev s [] m = Inr m"
| "cal_scan ev s ((i, limit) # is) m =
     (case list_of (buckets s ! i) of
        [] \<Rightarrow> cal_scan ev s is m
      | e # _ \<Rightarrow>
          if etime (ev e) - cal_clock s < limit then Inl (e, i)
          else cal_scan ev s is
            (case m of
               None \<Rightarrow> Some (e, i)
             | Some (f, j) \<Rightarrow> if etime (ev f) > etime (ev e) then Some (e, i) else m))"

text \<open>The buckets in the order \<^verbatim>\<open>i\<close> goes through them, all but the one before
  \<^verbatim>\<open>lastbucket_\<close>.\<close>

definition scan_list :: "CalendarScheduler \<Rightarrow> (nat \<times> double) list" where
  "scan_list s =
     (lastbucket s, diff0 s) # ((lastbucket s + 1) mod nbuckets s, diff1 s)
     # map (\<lambda>k. ((lastbucket s + k) mod nbuckets s, diff2 s)) [2..<nbuckets s - 1]"

definition lastbucket_dec :: "CalendarScheduler \<Rightarrow> nat" where
  "lastbucket_dec s = (if lastbucket s \<noteq> 0 then lastbucket s - 1 else nbuckets s - 1)"

definition Calendar_head :: "events \<Rightarrow> CalendarScheduler \<Rightarrow> (eaddr option \<times> CalendarScheduler) result" where
  "Calendar_head ev s =
     (if cal_qsize s = 0 then Inr (None, s)
      else
        let r = (case cal_scan ev s (scan_list s) None of
            Inl (e, l) \<Rightarrow> Inr (e, l)
          | Inr m \<Rightarrow>
              (case (m, list_of (buckets s ! lastbucket_dec s)) of
                 (None, []) \<Rightarrow> Inl NullPointer
               | (Some (f, j), []) \<Rightarrow> Inr (f, j)
               | (None, e # _) \<Rightarrow> Inr (e, lastbucket_dec s)
               | (Some (f, j), e # _) \<Rightarrow>
                   if etime (ev f) < etime (ev e) then Inr (f, j) else Inr (e, lastbucket_dec s)))
        in bindE r (\<lambda>(e, l). Inr (Some e, s\<lparr>lastbucket := l, cal_clock := etime (ev e)\<rparr>)))"

definition Calendar_deque :: "events \<Rightarrow> CalendarScheduler \<Rightarrow> (eaddr option \<times> CalendarScheduler) result" where
  "Calendar_deque ev s0 =
     bindE (Calendar_head ev s0) (\<lambda>(p, s). case p of
         None \<Rightarrow> Inr (None, s)
       | Some e \<Rightarrow>
           let b = buckets s ! lastbucket s;
               nx = circ_next e (list_of b);
               last_of_time = (nx = e \<or> etime (ev nx) \<noteq> etime (ev e));
               b' = \<lparr>list_of = tl (list_of b), b_count = (if last_of_time then b_count b - 1 else b_count b)\<rparr>;
               s' = s\<lparr>buckets := (buckets s)[lastbucket s := b'],
                      stat_qsize := (if last_of_time then stat_qsize s - 1 else stat_qsize s),
                      cal_qsize := cal_qsize s - 1\<rparr>
           in if stat_qsize s' < bot_threshold s'
              then bindE (resize ev (nbuckets s' div 2) (cal_clock s') s') (\<lambda>s''. Inr (Some e, s''))
              else Inr (Some e, s'))"

text \<open>The links of an event that is not in its bucket are null.\<close>

definition Calendar_cancel :: "events \<Rightarrow> eaddr \<Rightarrow> CalendarScheduler \<Rightarrow> (events \<times> CalendarScheduler) result" where
  "Calendar_cancel ev e s =
     (if euid (ev e) \<le> 0 then Inr (ev, s)
      else bindE (hash_index s (etime (ev e))) (\<lambda>i.
        let b = buckets s ! i; es = list_of b in
        if e \<notin> set es then Inl NullPointer
        else
          let nx = circ_next e es; pv = circ_prev e es;
              only = (nx = e \<or> (etime (ev nx) \<noteq> etime (ev e) \<and> etime (ev pv) \<noteq> etime (ev e)));
              b' = \<lparr>list_of = removeAll e es, b_count = (if only then b_count b - 1 else b_count b)\<rparr>;
              s' = s\<lparr>buckets := (buckets s)[i := b'],
                     stat_qsize := (if only then stat_qsize s - 1 else stat_qsize s),
                     cal_qsize := cal_qsize s - 1\<rparr>
          in bindE (assertE ''stat_qsize_ >= 0'' (0 \<le> stat_qsize s' \<or> \<not> only)) (\<lambda>_.
             bindE (assertE ''buckets_[i].count_ >= 0'' (0 \<le> b_count b' \<or> \<not> only)) (\<lambda>_.
             bindE (assertE ''buckets_[i].list_ == 0'' (b_count b' = 0 \<longrightarrow> list_of b' = [])) (\<lambda>_.
               Inr (negate_uid e ev, s'))))))"

fun bucket_lookup :: "events \<Rightarrow> uid \<Rightarrow> Bucket list \<Rightarrow> eaddr option" where
  "bucket_lookup ev u [] = None"
| "bucket_lookup ev u (b # bs) =
     (case find (\<lambda>p. euid (ev p) = u) (list_of b) of Some p \<Rightarrow> Some p | None \<Rightarrow> bucket_lookup ev u bs)"

definition Calendar_lookup :: "events \<Rightarrow> uid \<Rightarrow> CalendarScheduler \<Rightarrow> eaddr option" where
  "Calendar_lookup ev u s = bucket_lookup ev u (buckets s)"

definition CalendarScheduler_ops :: "CalendarScheduler ops" where
  "CalendarScheduler_ops =
     \<lparr>op_cancel = Calendar_cancel,
      op_insert = Calendar_insert,
      op_lookup = \<lambda>ev u q. Inr (Calendar_lookup ev u q, q),
      op_deque = Calendar_deque,
      op_head = Calendar_head\<rparr>"

section \<open>Days and buckets\<close>

text \<open>The number of the day a time is in; its bucket is the day of the year.\<close>

definition day :: "double \<Rightarrow> double \<Rightarrow> int" where
  "day w t = \<lfloor>t / w\<rfloor>"

lemma day_bounds: "0 < w \<Longrightarrow> of_int (day w t) * w \<le> t \<and> t < (of_int (day w t) + 1) * w"
  using floor_correct [of "t / w"]
  by (simp add: day_def pos_le_divide_eq pos_divide_less_eq del: of_int_floor_le)

lemma day_nonneg: "0 < w \<Longrightarrow> 0 \<le> t \<Longrightarrow> 0 \<le> day w t"
  by (simp add: day_def)

lemma day_mono: "0 < w \<Longrightarrow> s \<le> t \<Longrightarrow> day w s \<le> day w t"
  by (simp add: day_def floor_mono divide_right_mono)

lemma floor_div_nat:
  fixes x :: double
  assumes "0 < n"
  shows "\<lfloor>x / of_nat n\<rfloor> = \<lfloor>x\<rfloor> div int n"
proof (rule floor_unique)
  let ?q = "\<lfloor>x\<rfloor> div int n" and ?r = "\<lfloor>x\<rfloor> mod int n"
  have fl: "\<lfloor>x\<rfloor> = ?q * int n + ?r" by simp
  have r: "0 \<le> ?r" "?r \<le> int n - 1" using assms by auto
  have x: "of_int \<lfloor>x\<rfloor> \<le> x" "x < of_int \<lfloor>x\<rfloor> + 1" using floor_correct [of x] by auto
  have "of_int (?q * int n) \<le> (of_int \<lfloor>x\<rfloor> :: double)" using fl r(1) by (simp only: of_int_le_iff)
  then have "of_int ?q * of_nat n \<le> x" using x(1) by (metis of_int_mult of_int_of_nat_eq order_trans)
  then show "of_int ?q \<le> x / of_nat n" using assms by (simp add: pos_le_divide_eq)
  have "\<lfloor>x\<rfloor> + 1 \<le> (?q + 1) * int n" using fl r(2) by (simp only: distrib_right)
  then have "of_int (\<lfloor>x\<rfloor> + 1) \<le> (of_int ((?q + 1) * int n) :: double)" by (simp only: of_int_le_iff)
  with x(2) have "x < (of_int ?q + 1) * of_nat n" by simp
  then show "x / of_nat n < of_int ?q + 1" using assms by (simp add: pos_divide_less_eq)
qed

lemma trunc_fmod:
  assumes "0 \<le> x" "0 < n"
  shows "trunc (fmod x (of_nat n)) = \<lfloor>x\<rfloor> mod int n"
proof -
  have "0 \<le> x / of_nat n" using assms(1) by simp
  then have "trunc (x / of_nat n) = \<lfloor>x\<rfloor> div int n" using floor_div_nat [OF assms(2)] by (simp add: trunc_nonneg)
  then have "fmod x (of_nat n) = x - of_int (int n * (\<lfloor>x\<rfloor> div int n))" by (simp add: fmod_def)
  then have "\<lfloor>fmod x (of_nat n)\<rfloor> = \<lfloor>x\<rfloor> - int n * (\<lfloor>x\<rfloor> div int n)" by (simp only: floor_diff_of_int)
  also have "\<dots> = \<lfloor>x\<rfloor> mod int n" by (simp add: minus_mult_div_eq_mod)
  finally have fl: "\<lfloor>fmod x (of_nat n)\<rfloor> = \<lfloor>x\<rfloor> mod int n" .
  then have "0 \<le> \<lfloor>fmod x (of_nat n)\<rfloor>" using assms(2) by simp
  then have "0 \<le> fmod x (of_nat n)" by (simp only: zero_le_floor)
  then show ?thesis using fl by (simp add: trunc_nonneg)
qed

lemma CALENDAR_HASH_day:
  assumes "0 < w" "0 < n" "0 \<le> t"
  shows "CALENDAR_HASH w n t = day w t mod int n"
  using trunc_fmod [of "t / w" n] assms by (simp add: CALENDAR_HASH_def day_def)

definition bucket_of :: "double \<Rightarrow> nat \<Rightarrow> double \<Rightarrow> nat" where
  "bucket_of w n t = nat (day w t mod int n)"

lemma hash_index_day:
  assumes "0 < width s" "0 < nbuckets s" "length (buckets s) = nbuckets s" "0 \<le> t"
  shows "hash_index s t = Inr (bucket_of (width s) (nbuckets s) t)"
proof -
  have "0 \<le> day (width s) t mod int (nbuckets s)" "day (width s) t mod int (nbuckets s) < int (nbuckets s)"
    using assms(2) by auto
  with assms show ?thesis by (simp add: hash_index_def Let_def CALENDAR_HASH_day bucket_of_def)
qed

lemma int_bucket_of: "0 < n \<Longrightarrow> int (bucket_of w n t) = day w t mod int n"
  by (simp add: bucket_of_def)

lemma bucket_of_less: "0 < n \<Longrightarrow> bucket_of w n t < n"
  by (simp add: bucket_of_def nat_less_iff)

section \<open>Lists sorted by time\<close>

lemma sort_key_eqI:
  assumes "mset xs = mset ys" "\<And>k. filter (\<lambda>x. f x = k) xs = filter (\<lambda>x. f x = k) ys"
  shows "sort_key f xs = sort_key f ys"
proof (rule properties_for_sort_key)
  show "mset (sort_key f ys) = mset xs" using assms(1) by simp
  show "filter (\<lambda>x. f k = f x) (sort_key f ys) = filter (\<lambda>x. f k = f x) xs" for k
    using assms(2) [of "f k"] by (simp add: sort_key_stable eq_commute [of "f k"])
qed simp

lemma filter_insert_upper_eq:
  "sorted_key f xs \<Longrightarrow>
    filter (\<lambda>x. f x = k) (insert_upper f e xs) = filter (\<lambda>x. f x = k) xs @ (if f e = k then [e] else [])"
proof (induction xs)
  case (Cons y ys)
  show ?case
  proof (cases "f e < f y")
    case True
    with Cons.prems have "\<forall>z \<in> set (y # ys). f e < f z" by auto
    then have "filter (\<lambda>x. f x = f e) (y # ys) = []" by (auto simp: filter_empty_conv)
    with True show ?thesis by (cases "f e = k") auto
  qed (use Cons in auto)
qed simp

lemma filter_ne_Nil: "\<forall>x \<in> set xs. f x \<noteq> k \<Longrightarrow> filter (\<lambda>x. f x = k) xs = []"
  by (simp add: filter_empty_conv)

lemma sort_key_insert_middle:
  assumes B: "sorted_key f B" and AC: "\<forall>x \<in> set A \<union> set C. f x \<noteq> f e"
  shows "sort_key f (A @ insert_upper f e B @ C) = insert_upper f e (sort_key f (A @ B @ C))"
proof (rule properties_for_sort_key)
  have filt: "filter (\<lambda>x. f x = k) (insert_upper f e (sort_key f (A @ B @ C)))
      = filter (\<lambda>x. f x = k) (A @ insert_upper f e B @ C)" for k
    using AC filter_ne_Nil [of C f k]
    by (auto simp: filter_insert_upper_eq B sort_key_stable)
  show "filter (\<lambda>x. f k = f x) (insert_upper f e (sort_key f (A @ B @ C)))
      = filter (\<lambda>x. f k = f x) (A @ insert_upper f e B @ C)" for k
    using filt [of "f k"] by (simp add: eq_commute [of "f k"])
qed simp_all

lemma sort_key_min_middle:
  assumes AC: "\<forall>x \<in> set A \<union> set C. f x \<noteq> f e" and min: "\<forall>x \<in> set A \<union> set B \<union> set C. f e \<le> f x"
  shows "sort_key f (A @ (e # B) @ C) = e # sort_key f (A @ B @ C)"
proof (rule properties_for_sort_key)
  have filt: "filter (\<lambda>x. f x = k) (e # sort_key f (A @ B @ C)) = filter (\<lambda>x. f x = k) (A @ (e # B) @ C)" for k
    using AC filter_ne_Nil [of A f k] by (auto simp: sort_key_stable)
  show "filter (\<lambda>x. f k = f x) (e # sort_key f (A @ B @ C)) = filter (\<lambda>x. f k = f x) (A @ (e # B) @ C)" for k
    using filt [of "f k"] by (simp add: eq_commute [of "f k"])
qed (use min in auto)

section \<open>The buckets\<close>

abbreviation tm :: "events \<Rightarrow> eaddr \<Rightarrow> double" where
  "tm ev \<equiv> (\<lambda>a. etime (ev a))"

lemma insert_after_equal_upper: "insert_after_equal ev e es = insert_upper (tm ev) e es"
  by (induction es) auto

lemma sorted_key_ends: "sorted_key f xs \<Longrightarrow> x \<in> set xs \<Longrightarrow> f (hd xs) \<le> f x \<and> f x \<le> f (last xs)"
  by (induction xs) auto

lemma insert_upper_last:
  assumes "sorted_key f es" "es \<noteq> []" "f (last es) \<le> f e"
  shows "insert_upper f e es = es @ [e]"
proof -
  have "\<forall>x \<in> set es. f x \<le> f e" using sorted_key_ends [OF assms(1)] assms(3) order_trans by blast
  then show ?thesis by (induction es) (auto simp: not_less)
qed

lemma bucket_insert_upper: "sorted_key (tm ev) es \<Longrightarrow> bucket_insert ev e es = insert_upper (tm ev) e es"
  using insert_upper_last [of "tm ev" es e] by (auto simp: bucket_insert_def insert_after_equal_upper)

lemma insert_before_last: "sorted_key (tm ev) es \<Longrightarrow> es \<noteq> [] \<Longrightarrow> tm ev (last es) < tm ev e \<Longrightarrow> insert_before_equal ev e es = es @ [e]"
  by (induction es) (auto split: if_splits dest: le_less_trans)

lemma bucket_insert2_before: "sorted_key (tm ev) es \<Longrightarrow> bucket_insert2 ev e es = insert_before_equal ev e es"
  using insert_before_last [of ev es e] by (auto simp: bucket_insert2_def)

lemma insert_before_equal_split:
  "sorted_key (tm ev) es \<Longrightarrow>
    \<exists>P S. insert_before_equal ev e es = P @ e # S \<and> es = P @ S \<and> (\<forall>x \<in> set P. tm ev x < tm ev e) \<and> (\<forall>x \<in> set S. tm ev e \<le> tm ev x)"
proof (induction es)
  case (Cons b bs)
  show ?case
  proof (cases "tm ev e > tm ev b")
    case True
    with Cons obtain P S where "insert_before_equal ev e bs = P @ e # S" "bs = P @ S"
      "\<forall>x \<in> set P. tm ev x < tm ev e" "\<forall>x \<in> set S. tm ev e \<le> tm ev x" by auto
    with True show ?thesis by (intro exI [of _ "b # P"] exI [of _ S]) auto
  next
    case False
    with Cons.prems show ?thesis by (intro exI [of _ "[]"] exI [of _ "b # bs"]) auto
  qed
qed simp

lemma insert_upper_split_ex:
  assumes "sorted_key f es"
  shows "\<exists>P S. insert_upper f e es = P @ e # S \<and> es = P @ S \<and> (\<forall>x \<in> set P. f x \<le> f e) \<and> (\<forall>x \<in> set S. f e < f x)"
  using assms
proof (induction es)
  case (Cons b bs)
  show ?case
  proof (cases "f e < f b")
    case True
    with Cons.prems show ?thesis by (intro exI [of _ "[]"] exI [of _ "b # bs"]) auto
  next
    case False
    with Cons obtain P S where "insert_upper f e bs = P @ e # S" "bs = P @ S"
      "\<forall>x \<in> set P. f x \<le> f e" "\<forall>x \<in> set S. f e < f x" by auto
    with False show ?thesis by (intro exI [of _ "b # P"] exI [of _ S]) auto
  qed
qed simp

text \<open>The neighbours of an event between \<open>P\<close> and \<open>S\<close>.\<close>

lemma circ_next_from_middle:
  "e \<notin> set P \<Longrightarrow> circ_next_from h0 e (P @ e # S) = (case S of [] \<Rightarrow> h0 | y # _ \<Rightarrow> y)"
  by (induction P) auto

lemma circ_next_middle:
  "e \<notin> set P \<Longrightarrow> circ_next e (P @ e # S) = (case S of [] \<Rightarrow> hd (P @ [e]) | y # _ \<Rightarrow> y)"
  by (cases P) (auto simp: circ_next_def circ_next_from_middle split: list.splits)

lemma circ_prev_middle:
  "e \<notin> set S \<Longrightarrow> circ_prev e (P @ e # S) = (if P = [] then last (e # S) else last P)"
  using circ_next_middle [of e "rev S" "rev P"]
  by (auto simp: circ_prev_def hd_rev hd_append split: list.splits)

text \<open>The counters: an event brings a new time exactly when its neighbour has another one.\<close>

definition times :: "events \<Rightarrow> eaddr list \<Rightarrow> nat" where
  "times ev es = card (tm ev ` set es)"

lemma times_insert:
  assumes "set es' = insert e (set es)"
  shows "times ev es' = (if tm ev e \<in> tm ev ` set es then times ev es else Suc (times ev es))"
  using assms by (simp add: times_def card_insert_if)

lemma key_at_end:
  assumes "sorted_key f P" "P \<noteq> []" "\<forall>x \<in> set P. f x \<le> k"
  shows "k \<in> f ` set P \<longleftrightarrow> f (last P) = k"
proof
  assume "k \<in> f ` set P"
  then obtain x where "x \<in> set P" "k = f x" by blast
  with sorted_key_ends [OF assms(1)] assms(2,3) show "f (last P) = k" by (metis antisym last_in_set)
qed (use assms(2) in auto)

lemma key_at_front:
  assumes "sorted_key f S" "S \<noteq> []" "\<forall>x \<in> set S. k \<le> f x"
  shows "k \<in> f ` set S \<longleftrightarrow> f (hd S) = k"
proof
  assume "k \<in> f ` set S"
  then obtain x where "x \<in> set S" "k = f x" by blast
  with sorted_key_ends [OF assms(1)] assms(2,3) show "f (hd S) = k" by (metis antisym hd_in_set)
qed (use assms(2) in auto)

lemma new_time_upper:
  assumes srt: "sorted_key (tm ev) es" and e: "e \<notin> set es"
  shows "(es = [] \<or> tm ev (circ_prev e (insert_upper (tm ev) e es)) \<noteq> tm ev e) \<longleftrightarrow> tm ev e \<notin> tm ev ` set es"
proof -
  obtain P S where ps: "insert_upper (tm ev) e es = P @ e # S" "es = P @ S"
    "\<forall>x \<in> set P. tm ev x \<le> tm ev e" "\<forall>x \<in> set S. tm ev e < tm ev x"
    using insert_upper_split_ex [OF srt] by blast
  have S: "tm ev e \<notin> tm ev ` set S" using ps(4) by fastforce
  have pv: "circ_prev e (P @ e # S) = (if P = [] then last (e # S) else last P)"
    using e ps(2) by (intro circ_prev_middle) simp
  show ?thesis
  proof (cases "P = []")
    case True
    with S ps pv show ?thesis by (cases "S = []") (auto simp: image_iff, metis last_in_set)
  next
    case False
    have "sorted_key (tm ev) P" using srt ps(2) by (simp add: sorted_append)
    from key_at_end [OF this False ps(3)] False S ps pv show ?thesis by (auto simp: image_Un)
  qed
qed

lemma new_time_before:
  assumes srt: "sorted_key (tm ev) es" and e: "e \<notin> set es"
  shows "(es = [] \<or> (circ_next e (insert_before_equal ev e es) \<noteq> e
      \<and> tm ev (circ_next e (insert_before_equal ev e es)) \<noteq> tm ev e)) \<longleftrightarrow> tm ev e \<notin> tm ev ` set es"
proof -
  obtain P S where ps: "insert_before_equal ev e es = P @ e # S" "es = P @ S"
    "\<forall>x \<in> set P. tm ev x < tm ev e" "\<forall>x \<in> set S. tm ev e \<le> tm ev x"
    using insert_before_equal_split [OF srt] by blast
  have P: "tm ev e \<notin> tm ev ` set P" using ps(3) by fastforce
  have nx: "circ_next e (P @ e # S) = (if S = [] then hd (P @ [e]) else hd S)"
    using circ_next_middle [of e P S] e ps(2) by (cases S) auto
  show ?thesis
  proof (cases "S = []")
    case True
    with P ps e nx show ?thesis by (cases P) auto
  next
    case False
    have "sorted_key (tm ev) S" using srt ps(2) by (simp add: sorted_append)
    from key_at_front [OF this False ps(4)] False P ps e nx hd_in_set [OF False] show ?thesis
      by (auto simp: image_Un)
  qed
qed

lemma last_time_first:
  assumes "sorted_key (tm ev) (e # es)" "e \<notin> set es"
  shows "(circ_next e (e # es) = e \<or> tm ev (circ_next e (e # es)) \<noteq> tm ev e) \<longleftrightarrow> tm ev e \<notin> tm ev ` set es"
  using assms circ_next_middle [of e "[]" es] by (cases es) fastforce+

lemma only_time_middle:
  assumes srt: "sorted_key (tm ev) (P @ e # S)" and e: "e \<notin> set P" "e \<notin> set S"
  defines "es \<equiv> P @ e # S"
  shows "(circ_next e es = e \<or> tm ev (circ_next e es) \<noteq> tm ev e \<and> tm ev (circ_prev e es) \<noteq> tm ev e)
    \<longleftrightarrow> tm ev e \<notin> tm ev ` set (P @ S)"
proof -
  have srtP: "sorted_key (tm ev) P" "\<forall>x \<in> set P. tm ev x \<le> tm ev e"
    and srtS: "sorted_key (tm ev) S" "\<forall>x \<in> set S. tm ev e \<le> tm ev x"
    using srt by (auto simp: sorted_append)
  have nx: "circ_next e es = (if S = [] then hd (P @ [e]) else hd S)"
    using circ_next_middle [OF e(1), of S] by (cases S) (auto simp: es_def)
  have pv: "circ_prev e es = (if P = [] then last (e # S) else last P)"
    using circ_prev_middle [OF e(2)] by (simp add: es_def)
  have P: "tm ev e \<in> tm ev ` set P \<longleftrightarrow> tm ev (last P) = tm ev e" "tm ev (hd P) = tm ev e \<Longrightarrow> tm ev e \<in> tm ev ` set P"
    "hd P \<noteq> e" if "P \<noteq> []"
    using key_at_end [OF srtP(1) that srtP(2)] that e(1) hd_in_set [OF that] by (simp, metis imageI, metis)
  have S: "tm ev e \<in> tm ev ` set S \<longleftrightarrow> tm ev (hd S) = tm ev e" "tm ev (last S) = tm ev e \<Longrightarrow> tm ev e \<in> tm ev ` set S"
    "hd S \<noteq> e" if "S \<noteq> []"
    using key_at_front [OF srtS(1) that srtS(2)] that e(2) hd_in_set [OF that] last_in_set [OF that]
    by (simp, metis imageI, metis)
  show ?thesis
    using P S nx pv by (cases "P = []"; cases "S = []") (auto simp: image_Un)
qed

section \<open>The invariant\<close>

definition bucket_ok :: "events \<Rightarrow> double \<Rightarrow> nat \<Rightarrow> nat \<Rightarrow> Bucket \<Rightarrow> bool" where
  "bucket_ok ev w n i b \<longleftrightarrow> sorted_key (tm ev) (list_of b)
     \<and> (\<forall>e \<in> set (list_of b). 0 \<le> tm ev e \<and> bucket_of w n (tm ev e) = i)
     \<and> b_count b = int (times ev (list_of b))"

definition all_events :: "CalendarScheduler \<Rightarrow> eaddr list" where
  "all_events s = concat (map list_of (buckets s))"

definition cal_shape :: "CalendarScheduler \<Rightarrow> bool" where
  "cal_shape s \<longleftrightarrow> length (buckets s) = nbuckets s \<and> 4 \<le> nbuckets s \<and> 0 < width s
     \<and> diff0 s = width s * of_nat (nbuckets s) / 2 \<and> diff1 s = width s * of_nat (nbuckets s) / 2 + width s
     \<and> diff2 s = width s * of_nat (nbuckets s)"

definition cal_body :: "events \<Rightarrow> CalendarScheduler \<Rightarrow> bool" where
  "cal_body ev s \<longleftrightarrow> cal_shape s
     \<and> (\<forall>i < nbuckets s. bucket_ok ev (width s) (nbuckets s) i (buckets s ! i))
     \<and> distinct (all_events s) \<and> stat_qsize s = sum_list (map b_count (buckets s))
     \<and> cal_qsize s = int (length (all_events s))"

definition cal_inv :: "events \<Rightarrow> CalendarScheduler \<Rightarrow> bool" where
  "cal_inv ev s \<longleftrightarrow> cal_body ev s \<and> 0 \<le> cal_clock s \<and> (\<forall>e \<in> set (all_events s). cal_clock s \<le> tm ev e)
     \<and> lastbucket s = bucket_of (width s) (nbuckets s) (cal_clock s)"

definition cal_members :: "CalendarScheduler \<Rightarrow> eaddr set" where
  "cal_members s = set (all_events s)"

definition cal_order :: "events \<Rightarrow> CalendarScheduler \<Rightarrow> eaddr list" where
  "cal_order ev s = sort_key (tm ev) (all_events s)"

lemma in_all_events:
  assumes body: "cal_body ev s" and e: "e \<in> set (all_events s)"
  shows "0 \<le> tm ev e \<and> bucket_of (width s) (nbuckets s) (tm ev e) < nbuckets s
    \<and> e \<in> set (list_of (buckets s ! bucket_of (width s) (nbuckets s) (tm ev e)))"
proof -
  obtain b where "b \<in> set (buckets s)" "e \<in> set (list_of b)" using e by (auto simp: all_events_def)
  then obtain i where i: "i < nbuckets s" "e \<in> set (list_of (buckets s ! i))"
    using body by (auto simp: in_set_conv_nth cal_body_def cal_shape_def)
  with body have "0 \<le> tm ev e" "bucket_of (width s) (nbuckets s) (tm ev e) = i"
    by (auto simp: cal_body_def bucket_ok_def)
  with i show ?thesis by simp
qed

lemma in_take_drop:
  assumes "c \<in> set (take i xs) \<union> set (drop (Suc i) xs)" "i < length xs"
  shows "\<exists>j < length xs. j \<noteq> i \<and> c = xs ! j"
  using assms(1)
proof
  assume "c \<in> set (take i xs)"
  then obtain k where "k < i" "c = xs ! k" using assms(2) by (auto simp: in_set_conv_nth)
  with assms(2) show ?thesis by (intro exI [of _ k]) auto
next
  assume "c \<in> set (drop (Suc i) xs)"
  then obtain k where "k < length xs - Suc i" "c = xs ! (Suc i + k)" by (auto simp: in_set_conv_nth)
  then show ?thesis by (intro exI [of _ "Suc i + k"]) auto
qed

text \<open>The queue around one bucket.\<close>

lemma bucket_split:
  assumes body: "cal_body ev s" and i: "i < nbuckets s"
  obtains A C where "all_events s = A @ list_of (buckets s ! i) @ C"
    "\<And>b. concat (map list_of ((buckets s)[i := b])) = A @ list_of b @ C"
    "\<And>b. sum_list (map b_count ((buckets s)[i := b])) = stat_qsize s - b_count (buckets s ! i) + b_count b"
    "\<forall>x \<in> set A \<union> set C. bucket_of (width s) (nbuckets s) (tm ev x) \<noteq> i"
proof -
  let ?bs = "buckets s"
  have len: "i < length ?bs" using body i by (simp add: cal_body_def cal_shape_def)
  have bs: "?bs = take i ?bs @ ?bs ! i # drop (Suc i) ?bs" by (rule id_take_nth_drop [OF len])
  have upd: "?bs[i := b] = take i ?bs @ b # drop (Suc i) ?bs" for b by (rule upd_conv_take_nth_drop [OF len])
  let ?A = "concat (map list_of (take i ?bs))" and ?C = "concat (map list_of (drop (Suc i) ?bs))"
  have all: "all_events s = ?A @ list_of (?bs ! i) @ ?C"
    unfolding all_events_def by (subst bs) simp
  have "sum_list (map b_count ?bs) = sum_list (map b_count (take i ?bs)) + b_count (?bs ! i) + sum_list (map b_count (drop (Suc i) ?bs))"
    by (subst bs) simp
  then have sum: "sum_list (map b_count (?bs[i := b])) = stat_qsize s - b_count (?bs ! i) + b_count b" for b
    using body by (simp add: upd cal_body_def)
  have "bucket_of (width s) (nbuckets s) (tm ev x) \<noteq> i" if x: "x \<in> set ?A \<union> set ?C" for x
  proof -
    obtain b where "x \<in> set (list_of b)" "b \<in> set (take i ?bs) \<union> set (drop (Suc i) ?bs)" using x by auto
    with in_take_drop [of b i ?bs] len obtain j where "x \<in> set (list_of (?bs ! j))" "j < length ?bs" "j \<noteq> i" by auto
    with body show ?thesis by (auto simp: cal_body_def cal_shape_def bucket_ok_def)
  qed
  with all sum show thesis by (intro that [of ?A ?C]) (auto simp: upd)
qed

lemma body_update:
  assumes body: "cal_body ev s" and i: "i < nbuckets s" and b: "bucket_ok ev (width s) (nbuckets s) i b"
    and dist: "distinct (concat (map list_of ((buckets s)[i := b])))"
  shows "cal_body ev (s\<lparr>buckets := (buckets s)[i := b], stat_qsize := stat_qsize s - b_count (buckets s ! i) + b_count b,
    cal_qsize := cal_qsize s - int (length (list_of (buckets s ! i))) + int (length (list_of b))\<rparr>)"
proof -
  obtain A C where s: "all_events s = A @ list_of (buckets s ! i) @ C"
    "concat (map list_of ((buckets s)[i := b])) = A @ list_of b @ C"
    "sum_list (map b_count ((buckets s)[i := b])) = stat_qsize s - b_count (buckets s ! i) + b_count b"
    by (rule bucket_split [OF body i]) blast
  have "cal_qsize s - int (length (list_of (buckets s ! i))) + int (length (list_of b)) = int (length (A @ list_of b @ C))"
    using body s(1) by (simp add: cal_body_def)
  with s dist body b i show ?thesis
    by (auto simp: cal_body_def cal_shape_def all_events_def nth_list_update)
qed

lemma body_hash: "cal_body ev s \<Longrightarrow> 0 \<le> t \<Longrightarrow> hash_index s t = Inr (bucket_of (width s) (nbuckets s) t)"
  by (auto simp: cal_body_def cal_shape_def intro!: hash_index_day)

text \<open>Adding an event to its bucket, in either of the two ways.\<close>

lemma body_add:
  assumes body: "cal_body ev s" and e: "e \<notin> set (all_events s)" and t: "0 \<le> tm ev e"
  defines "i \<equiv> bucket_of (width s) (nbuckets s) (tm ev e)"
  assumes es: "mset es = add_mset e (mset (list_of (buckets s ! i)))" "sorted_key (tm ev) es"
    and new: "new \<longleftrightarrow> tm ev e \<notin> tm ev ` set (list_of (buckets s ! i))"
  shows "cal_body ev (s\<lparr>buckets := (buckets s)[i := \<lparr>list_of = es, b_count = (if new then b_count (buckets s ! i) + 1 else b_count (buckets s ! i))\<rparr>],
      stat_qsize := (if new then stat_qsize s + 1 else stat_qsize s), cal_qsize := cal_qsize s + 1\<rparr>)"
proof -
  let ?b = "buckets s ! i"
  let ?b' = "\<lparr>list_of = es, b_count = (if new then b_count ?b + 1 else b_count ?b)\<rparr>"
  have i: "i < nbuckets s" using body unfolding i_def by (intro bucket_of_less) (auto simp: cal_body_def cal_shape_def)
  have ok: "bucket_ok ev (width s) (nbuckets s) i ?b" using body i by (simp add: cal_body_def)
  have st: "set es = insert e (set (list_of ?b))" using es(1) by (metis set_mset_add_mset_insert set_mset_mset)
  have "bucket_ok ev (width s) (nbuckets s) i ?b'"
    using ok es(2) st t new times_insert [OF st, of ev] by (auto simp: bucket_ok_def i_def)
  moreover obtain A C where AC: "all_events s = A @ list_of ?b @ C"
    "concat (map list_of ((buckets s)[i := ?b'])) = A @ list_of ?b' @ C"
    by (rule bucket_split [OF body i]) blast
  have "mset (A @ es @ C) = mset (e # all_events s)" using AC(1) es(1) by simp
  then have "distinct (A @ es @ C) \<longleftrightarrow> distinct (e # all_events s)" by (rule mset_eq_imp_distinct_iff)
  then have "distinct (concat (map list_of ((buckets s)[i := ?b'])))"
    using AC(2) e body by (simp add: cal_body_def)
  ultimately have up: "cal_body ev (s\<lparr>buckets := (buckets s)[i := ?b'], stat_qsize := stat_qsize s - b_count ?b + b_count ?b',
    cal_qsize := cal_qsize s - int (length (list_of ?b)) + int (length (list_of ?b'))\<rparr>)"
    by (rule body_update [OF body i])
  moreover have "length es = Suc (length (list_of ?b))" using es(1) by (metis size_add_mset size_mset)
  ultimately show ?thesis by (simp split: if_splits)
qed

text \<open>\<^verbatim>\<open>insert2\<close>: the event comes before all events of its time.\<close>

lemma Calendar_insert2_law:
  assumes body: "cal_body ev s" and e: "e \<notin> set (all_events s)" and t: "0 \<le> tm ev e"
  shows "\<exists>s'. Calendar_insert2 ev e s = Inr s' \<and> cal_body ev s'
    \<and> mset (all_events s') = add_mset e (mset (all_events s))
    \<and> (\<forall>k. filter (\<lambda>x. tm ev x = k) (all_events s') = (if tm ev e = k then [e] else []) @ filter (\<lambda>x. tm ev x = k) (all_events s))
    \<and> width s' = width s \<and> nbuckets s' = nbuckets s \<and> cal_clock s' = cal_clock s \<and> lastbucket s' = lastbucket s"
proof -
  let ?i = "bucket_of (width s) (nbuckets s) (tm ev e)"
  let ?b = "buckets s ! ?i"
  let ?es = "bucket_insert2 ev e (list_of ?b)"
  have i: "?i < nbuckets s" using body by (intro bucket_of_less) (auto simp: cal_body_def cal_shape_def)
  have srt: "sorted_key (tm ev) (list_of ?b)" using body i by (simp add: cal_body_def bucket_ok_def)
  obtain A C where AC: "all_events s = A @ list_of ?b @ C"
    "\<And>b. concat (map list_of ((buckets s)[?i := b])) = A @ list_of b @ C"
    "\<forall>x \<in> set A \<union> set C. bucket_of (width s) (nbuckets s) (tm ev x) \<noteq> ?i"
    by (rule bucket_split [OF body i]) blast
  have out: "e \<notin> set (list_of ?b)" using e AC(1) by simp
  have es: "?es = insert_before_equal ev e (list_of ?b)" by (rule bucket_insert2_before [OF srt])
  obtain P S where ps: "?es = P @ e # S" "list_of ?b = P @ S" "\<forall>x \<in> set P. tm ev x < tm ev e" "\<forall>x \<in> set S. tm ev e \<le> tm ev x"
    using insert_before_equal_split [OF srt, of e] es by auto
  define new where "new = (list_of ?b = [] \<or> (circ_next e ?es \<noteq> e \<and> tm ev (circ_next e ?es) \<noteq> tm ev e))"
  let ?s = "s\<lparr>buckets := (buckets s)[?i := \<lparr>list_of = ?es, b_count = (if new then b_count ?b + 1 else b_count ?b)\<rparr>],
      stat_qsize := (if new then stat_qsize s + 1 else stat_qsize s), cal_qsize := cal_qsize s + 1\<rparr>"
  have run: "Calendar_insert2 ev e s = Inr ?s"
    using body_hash [OF body t] by (simp add: Calendar_insert2_def Let_def new_def)
  have "sorted_key (tm ev) ?es" using srt ps by (auto simp: sorted_append less_imp_le)
  moreover have "new \<longleftrightarrow> tm ev e \<notin> tm ev ` set (list_of ?b)"
    unfolding new_def es by (rule new_time_before [OF srt out])
  ultimately have bd: "cal_body ev ?s" using ps(1,2) by (intro body_add [OF body e t]) auto
  have all: "all_events ?s = A @ ?es @ C" by (simp add: all_events_def AC(2))
  have "\<forall>x \<in> set A \<union> set P. tm ev x \<noteq> tm ev e" using AC(3) ps(3) by (metis Un_iff less_irrefl)
  then have "filter (\<lambda>x. tm ev x = k) (A @ ?es @ C) = (if tm ev e = k then [e] else []) @ filter (\<lambda>x. tm ev x = k) (all_events s)" for k
    using filter_ne_Nil [of A "tm ev" k] filter_ne_Nil [of P "tm ev" k] unfolding ps(1) by (auto simp: AC(1) ps(2))
  moreover have "mset (A @ ?es @ C) = add_mset e (mset (all_events s))" unfolding ps(1) by (simp add: AC(1) ps(2))
  ultimately show ?thesis using run bd all by auto
qed

lemma insert2_all:
  "cal_body ev s \<Longrightarrow> distinct (all_events s @ zs) \<Longrightarrow> \<forall>e \<in> set zs. 0 \<le> tm ev e \<Longrightarrow>
    \<exists>s'. foldE (Calendar_insert2 ev) zs s = Inr s' \<and> cal_body ev s'
    \<and> mset (all_events s') = mset (zs @ all_events s)
    \<and> (\<forall>k. filter (\<lambda>x. tm ev x = k) (all_events s') = filter (\<lambda>x. tm ev x = k) (rev zs @ all_events s))
    \<and> width s' = width s \<and> nbuckets s' = nbuckets s \<and> cal_clock s' = cal_clock s \<and> lastbucket s' = lastbucket s"
proof (induction zs arbitrary: s)
  case (Cons z zs)
  then obtain s1 where s1: "Calendar_insert2 ev z s = Inr s1" "cal_body ev s1"
    "mset (all_events s1) = add_mset z (mset (all_events s))"
    "\<forall>k. filter (\<lambda>x. tm ev x = k) (all_events s1) = (if tm ev z = k then [z] else []) @ filter (\<lambda>x. tm ev x = k) (all_events s)"
    "width s1 = width s" "nbuckets s1 = nbuckets s" "cal_clock s1 = cal_clock s" "lastbucket s1 = lastbucket s"
    using Calendar_insert2_law [of ev s z] by auto
  have "mset (all_events s1 @ zs) = mset (all_events s @ z # zs)" using s1(3) by simp
  then have "distinct (all_events s1 @ zs)" using Cons.prems(2) mset_eq_imp_distinct_iff by blast
  with Cons.IH [OF s1(2)] Cons.prems(3) obtain s' where "foldE (Calendar_insert2 ev) zs s1 = Inr s'" "cal_body ev s'"
    "mset (all_events s') = mset (zs @ all_events s1)"
    "\<forall>k. filter (\<lambda>x. tm ev x = k) (all_events s') = filter (\<lambda>x. tm ev x = k) (rev zs @ all_events s1)"
    "width s' = width s1" "nbuckets s' = nbuckets s1" "cal_clock s' = cal_clock s1" "lastbucket s' = lastbucket s1"
    by auto
  with s1 show ?case by auto
qed auto

section \<open>Resizing keeps the order\<close>

lemma foldE_concat: "foldE (\<lambda>b. foldE f (g b)) bs s = foldE f (concat (map g bs)) s"
  by (induction bs arbitrary: s) (simp_all add: foldE_append bindE_def split: sum.splits)

lemma filter_concat_rev:
  assumes bs: "bs = xs @ b # ys" and o: "\<forall>c \<in> set xs \<union> set ys. \<forall>x \<in> set (g c). f x \<noteq> k"
  shows "filter (\<lambda>x. f x = k) (concat (map g (rev bs))) = filter (\<lambda>x. f x = k) (concat (map g bs))"
proof -
  have "filter (\<lambda>x. f x = k) (concat (map g zs)) = []" if "set zs \<subseteq> set xs \<union> set ys" for zs
    using that o by (auto simp: filter_empty_conv)
  then show ?thesis by (simp add: bs)
qed

lemma filter_rev_events:
  assumes body: "cal_body ev s"
  shows "filter (\<lambda>x. tm ev x = k) (concat (map list_of (rev (buckets s)))) = filter (\<lambda>x. tm ev x = k) (all_events s)"
proof (cases "\<exists>x \<in> set (all_events s). tm ev x = k")
  case False
  then show ?thesis by (auto simp: all_events_def filter_empty_conv)
next
  case True
  let ?bs = "buckets s" and ?i = "bucket_of (width s) (nbuckets s) k"
  have i: "?i < length ?bs"
    using True in_all_events [OF body] body by (auto simp: cal_body_def cal_shape_def)
  have ne: "tm ev x \<noteq> k" if "j < length ?bs" "j \<noteq> ?i" "x \<in> set (list_of (?bs ! j))" for j x
    using that body by (auto simp: cal_body_def cal_shape_def bucket_ok_def)
  show ?thesis
    unfolding all_events_def
  proof (rule filter_concat_rev [OF id_take_nth_drop [OF i]], intro ballI)
    fix c x assume c: "c \<in> set (take ?i ?bs) \<union> set (drop (Suc ?i) ?bs)" and x: "x \<in> set (list_of c)"
    from in_take_drop [OF c i] ne x show "tm ev x \<noteq> k" by blast
  qed
qed

lemma max_bucket_from_in: "max_bucket_from bs m is \<in> insert m (set is)"
  by (induction bs m "is" rule: max_bucket_from.induct) (auto split: if_splits)

lemma newwidth_law:
  assumes body: "cal_body ev s" and n: "0 < newsize"
  shows "\<exists>w. newwidth ev newsize s = Inr w \<and> 0 < w"
proof -
  let ?b = "buckets s ! max_bucket s"
  have "max_bucket s < nbuckets s"
    using max_bucket_from_in [of "buckets s" 0 "[1..<nbuckets s]"] body
    by (auto simp: max_bucket_def cal_body_def cal_shape_def)
  then have ok: "sorted_key (tm ev) (list_of ?b)" "b_count ?b = int (times ev (list_of ?b))"
    using body by (auto simp: cal_body_def bucket_ok_def)
  show ?thesis
  proof (cases "b_count ?b \<le> 4")
    case True
    with body show ?thesis by (simp add: newwidth_def Let_def cal_body_def cal_shape_def)
  next
    case False
    then have many: "4 < times ev (list_of ?b)" using ok(2) by simp
    then have ne: "list_of ?b \<noteq> []" by (auto simp: times_def)
    have "tm ev (hd (list_of ?b)) \<noteq> tm ev (last (list_of ?b))"
    proof
      assume "tm ev (hd (list_of ?b)) = tm ev (last (list_of ?b))"
      then have "tm ev ` set (list_of ?b) \<subseteq> {tm ev (hd (list_of ?b))}"
        using sorted_key_ends [OF ok(1)] by fastforce
      then have "times ev (list_of ?b) \<le> 1" unfolding times_def by (metis card.empty card.insert card_mono empty_iff finite.emptyI finite_insert One_nat_def)
      with many show False by simp
    qed
    moreover have "tm ev (hd (list_of ?b)) \<le> tm ev (last (list_of ?b))"
      using sorted_key_ends [OF ok(1) last_in_set [OF ne]] by simp
    ultimately have pos: "0 < tm ev (last (list_of ?b)) - tm ev (hd (list_of ?b))" by simp
    moreover have "0 < (of_int (if int newsize < b_count ?b then int newsize else b_count ?b) :: double)"
      using n False by simp
    ultimately show ?thesis using False ne by (simp add: newwidth_def Let_def)
  qed
qed

lemma reinit_law:
  assumes "0 < w" "4 \<le> n" "0 \<le> start"
  shows "\<exists>s'. reinit n w start s = Inr s' \<and> cal_body ev s' \<and> all_events s' = [] \<and> cal_clock s' = cal_clock s
    \<and> width s' = w \<and> nbuckets s' = n \<and> lastbucket s' = bucket_of w n start"
proof -
  let ?s = "s\<lparr>buckets := replicate n \<lparr>list_of = [], b_count = 0\<rparr>, width := w, nbuckets := n, cal_qsize := 0, stat_qsize := 0\<rparr>"
  have h: "hash_index ?s start = Inr (bucket_of w n start)"
    using hash_index_day [of ?s start] assms by simp
  have "concat (map list_of (replicate n \<lparr>list_of = [], b_count = 0\<rparr>)) = []" by simp
  moreover have "sum_list (map b_count (replicate n \<lparr>list_of = [], b_count = 0\<rparr>)) = 0" by (simp add: sum_list_replicate)
  ultimately show ?thesis
    using h assms by (auto simp: reinit_def Let_def cal_body_def cal_shape_def all_events_def bucket_ok_def times_def)
qed

lemma resize_law:
  assumes body: "cal_body ev s" and n: "0 < newsize" and clk: "0 \<le> cal_clock s"
  shows "\<exists>s'. resize ev newsize (cal_clock s) s = Inr s' \<and> cal_body ev s' \<and> mset (all_events s') = mset (all_events s)
    \<and> cal_order ev s' = cal_order ev s \<and> cal_clock s' = cal_clock s
    \<and> lastbucket s' = bucket_of (width s') (nbuckets s') (cal_clock s)"
proof -
  obtain w where w: "newwidth ev newsize s = Inr w" "0 < w" using newwidth_law [OF body n] by blast
  let ?n = "if newsize < 4 then 4 else newsize"
  obtain s1 where s1: "reinit ?n w (cal_clock s) s = Inr s1" "cal_body ev s1" "all_events s1 = []"
    "cal_clock s1 = cal_clock s" "width s1 = w" "nbuckets s1 = ?n" "lastbucket s1 = bucket_of w ?n (cal_clock s)"
    using reinit_law [OF w(2) _ clk, of ?n s ev] by (cases "newsize < 4") auto
  let ?zs = "concat (map (\<lambda>b. rev (list_of b)) (buckets s))"
  have rz: "rev ?zs = concat (map list_of (rev (buckets s)))" by (simp add: rev_concat rev_map comp_def)
  have mz: "mset ?zs = mset (all_events s)" by (simp add: all_events_def mset_concat comp_def)
  have "distinct (all_events s1 @ ?zs)"
    using mset_eq_imp_distinct_iff [OF mz] body s1(3) by (simp add: cal_body_def)
  moreover have "\<forall>e \<in> set ?zs. 0 \<le> tm ev e"
    using in_all_events [OF body] mset_eq_setD [OF mz] by simp
  ultimately obtain s' where s': "foldE (Calendar_insert2 ev) ?zs s1 = Inr s'" "cal_body ev s'"
    "mset (all_events s') = mset (?zs @ all_events s1)"
    "\<forall>k. filter (\<lambda>x. tm ev x = k) (all_events s') = filter (\<lambda>x. tm ev x = k) (rev ?zs @ all_events s1)"
    "width s' = width s1" "nbuckets s' = nbuckets s1" "cal_clock s' = cal_clock s1" "lastbucket s' = lastbucket s1"
    using insert2_all [OF s1(2)] by blast
  have "mset (all_events s') = mset (all_events s)" using s'(3) s1(3) mz by simp
  moreover have "filter (\<lambda>x. tm ev x = k) (all_events s') = filter (\<lambda>x. tm ev x = k) (all_events s)" for k
    using s'(4) s1(3) filter_rev_events [OF body, of k] by (simp add: rz)
  ultimately have "cal_order ev s' = cal_order ev s" unfolding cal_order_def by (intro sort_key_eqI)
  moreover have "resize ev newsize (cal_clock s) s = Inr s'"
    using w(1) s1(1) s'(1) by (simp add: resize_def foldE_concat)
  ultimately show ?thesis
    using s' s1 \<open>mset (all_events s') = mset (all_events s)\<close> by auto
qed

section \<open>Insertion\<close>

lemma Calendar_insert_law:
  assumes inv: "cal_inv ev s" and e: "e \<notin> set (all_events s)" and t: "0 \<le> tm ev e"
  shows "\<exists>s'. Calendar_insert ev e s = Inr s' \<and> cal_inv ev s' \<and> mset (all_events s') = add_mset e (mset (all_events s))
    \<and> cal_order ev s' = insert_upper (tm ev) e (cal_order ev s)"
proof -
  let ?i = "bucket_of (width s) (nbuckets s) (tm ev e)"
  define s0 where "s0 = (if cal_clock s > tm ev e then s\<lparr>cal_clock := tm ev e, lastbucket := ?i\<rparr> else s)"
  have eqs: "buckets s0 = buckets s" "width s0 = width s" "nbuckets s0 = nbuckets s" "all_events s0 = all_events s"
    by (simp_all add: s0_def all_events_def)
  have body: "cal_body ev s" "cal_body ev s0" using inv by (auto simp: cal_inv_def cal_body_def cal_shape_def s0_def all_events_def)
  have clk: "0 \<le> cal_clock s0" "cal_clock s0 \<le> tm ev e" "\<forall>x \<in> set (all_events s). cal_clock s0 \<le> tm ev x"
    "lastbucket s0 = bucket_of (width s) (nbuckets s) (cal_clock s0)"
    using inv t by (auto simp: cal_inv_def s0_def not_less)
  let ?b = "buckets s ! ?i"
  let ?es = "bucket_insert ev e (list_of ?b)"
  have i: "?i < nbuckets s" using body(1) by (intro bucket_of_less) (auto simp: cal_body_def cal_shape_def)
  have srt: "sorted_key (tm ev) (list_of ?b)" using body(1) i by (simp add: cal_body_def bucket_ok_def)
  have es: "?es = insert_upper (tm ev) e (list_of ?b)" by (rule bucket_insert_upper [OF srt])
  obtain A C where AC: "all_events s = A @ list_of ?b @ C"
    "\<And>b. concat (map list_of ((buckets s)[?i := b])) = A @ list_of b @ C"
    "\<forall>x \<in> set A \<union> set C. bucket_of (width s) (nbuckets s) (tm ev x) \<noteq> ?i"
    by (rule bucket_split [OF body(1) i]) blast
  have out: "e \<notin> set (list_of ?b)" using e AC(1) by simp
  define new where "new = (list_of ?b = [] \<or> tm ev (circ_prev e ?es) \<noteq> tm ev e)"
  define s1 where "s1 = s0\<lparr>buckets := (buckets s0)[?i := \<lparr>list_of = ?es, b_count = (if new then b_count ?b + 1 else b_count ?b)\<rparr>],
      stat_qsize := (if new then stat_qsize s0 + 1 else stat_qsize s0), cal_qsize := cal_qsize s0 + 1\<rparr>"
  have "new \<longleftrightarrow> tm ev e \<notin> tm ev ` set (list_of ?b)" unfolding new_def es by (rule new_time_upper [OF srt out])
  then have b1: "cal_body ev s1"
    using body_add [OF body(2), of e ?es new] e t srt unfolding s1_def eqs es by simp
  have all1: "all_events s1 = A @ ?es @ C" by (simp add: all_events_def s1_def eqs AC(2))
  have ord1: "cal_order ev s1 = insert_upper (tm ev) e (cal_order ev s)"
    unfolding cal_order_def all1 es AC(1) using AC(3) by (intro sort_key_insert_middle [OF srt]) metis
  have ms1: "mset (all_events s1) = add_mset e (mset (all_events s))" by (simp add: all1 es AC(1))
  have clk1: "cal_clock s1 = cal_clock s0" "lastbucket s1 = bucket_of (width s1) (nbuckets s1) (cal_clock s1)"
    using clk(4) by (simp_all add: s1_def eqs)
  have st1: "\<forall>x \<in> set (all_events s1). cal_clock s1 \<le> tm ev x"
    using clk ms1 clk1 by (metis insert_iff set_mset_add_mset_insert set_mset_mset)
  have run: "Calendar_insert ev e s = (if stat_qsize s1 > top_threshold s1 then resize ev (nbuckets s1 * 2) (cal_clock s1) s1 else Inr s1)"
    unfolding Calendar_insert_def body_hash [OF body(1) t] bindE_Inr Let_def s0_def [symmetric] eqs new_def [symmetric]
      s1_def [unfolded eqs, symmetric] ..
  show ?thesis
  proof (cases "stat_qsize s1 > top_threshold s1")
    case False
    with run b1 ms1 ord1 clk clk1 st1 show ?thesis by (auto simp: cal_inv_def)
  next
    case True
    have "0 < nbuckets s1 * 2" using b1 by (auto simp: cal_body_def cal_shape_def)
    from resize_law [OF b1 this] clk(1) clk1(1) obtain s2 where
      s2: "resize ev (nbuckets s1 * 2) (cal_clock s1) s1 = Inr s2" "cal_body ev s2" "mset (all_events s2) = mset (all_events s1)"
      "cal_order ev s2 = cal_order ev s1" "cal_clock s2 = cal_clock s1"
      "lastbucket s2 = bucket_of (width s2) (nbuckets s2) (cal_clock s1)" by auto
    have "\<forall>x \<in> set (all_events s2). cal_clock s2 \<le> tm ev x" using st1 s2(5) mset_eq_setD [OF s2(3)] by simp
    with True run s2 ms1 ord1 clk(1) clk1(1) show ?thesis by (auto simp: cal_inv_def)
  qed
qed

section \<open>The search for the earliest event\<close>

text \<open>\<open>first_of s i e\<close>: bucket \<open>i\<close> is not empty and \<open>e\<close> is its first event.\<close>

definition first_of :: "CalendarScheduler \<Rightarrow> nat \<Rightarrow> eaddr \<Rightarrow> bool" where
  "first_of s i e \<longleftrightarrow> (\<exists>es. list_of (buckets s ! i) = e # es)"

lemma first_of_unique: "first_of s i e \<Longrightarrow> first_of s i f \<Longrightarrow> f = e"
  by (auto simp: first_of_def)

lemma cal_scan_found:
  "cal_scan ev s is m = Inl (e, i) \<Longrightarrow>
    \<exists>pre limit post. is = pre @ (i, limit) # post \<and> first_of s i e \<and> tm ev e - cal_clock s < limit
      \<and> (\<forall>(j, l) \<in> set pre. \<forall>f. first_of s j f \<longrightarrow> \<not> tm ev f - cal_clock s < l)"
proof (induction ev s "is" m rule: cal_scan.induct)
  case (2 ev s j limit "is" m)
  show ?case
  proof (cases "list_of (buckets s ! j)")
    case Nil
    with 2 obtain pre l post where "is = pre @ (i, l) # post" "first_of s i e" "tm ev e - cal_clock s < l"
      "\<forall>(j, l) \<in> set pre. \<forall>f. first_of s j f \<longrightarrow> \<not> tm ev f - cal_clock s < l" by auto
    with Nil show ?thesis
      by (intro exI [of _ "(j, limit) # pre"] exI [of _ l] exI [of _ post]) (auto simp: first_of_def)
  next
    case (Cons g gs)
    show ?thesis
    proof (cases "tm ev g - cal_clock s < limit")
      case True
      with 2(3) Cons show ?thesis
        by (intro exI [of _ "[]"] exI [of _ limit] exI [of _ "is"]) (auto simp: first_of_def)
    next
      case False
      with "2.IH"(2) [OF Cons] "2.prems" Cons obtain pre l post where "is = pre @ (i, l) # post" "first_of s i e"
        "tm ev e - cal_clock s < l" "\<forall>(j, l) \<in> set pre. \<forall>f. first_of s j f \<longrightarrow> \<not> tm ev f - cal_clock s < l" by auto
      with Cons False show ?thesis
        by (intro exI [of _ "(j, limit) # pre"] exI [of _ l] exI [of _ post]) (auto simp: first_of_def)
    qed
  qed
qed simp

text \<open>When nothing is found within the year, the earliest of the first events is returned.\<close>

definition best :: "events \<Rightarrow> CalendarScheduler \<Rightarrow> nat set \<Rightarrow> (eaddr \<times> nat) option \<Rightarrow> bool" where
  "best ev s I r =
     (case r of
        None \<Rightarrow> \<forall>i \<in> I. list_of (buckets s ! i) = []
      | Some (f, j) \<Rightarrow> j \<in> I \<and> first_of s j f \<and> (\<forall>i \<in> I. \<forall>g. first_of s i g \<longrightarrow> tm ev f \<le> tm ev g))"

lemma best_add_empty: "list_of (buckets s ! j) = [] \<Longrightarrow> best ev s I m \<Longrightarrow> best ev s (insert j I) m"
  by (auto simp: best_def first_of_def split: option.splits)

lemma best_add:
  "first_of s j e \<Longrightarrow> best ev s I m \<Longrightarrow>
    best ev s (insert j I) (case m of None \<Rightarrow> Some (e, j) | Some (f, i) \<Rightarrow> if tm ev f > tm ev e then Some (e, j) else m)"
  by (auto simp: best_def first_of_def not_less split: option.splits intro: order_trans less_imp_le)

lemma cal_scan_best:
  "cal_scan ev s is m = Inr r \<Longrightarrow> best ev s I m \<Longrightarrow> best ev s (I \<union> fst ` set is) r"
proof (induction ev s "is" m arbitrary: I rule: cal_scan.induct)
  case (2 ev s j limit "is" m)
  show ?case
  proof (cases "list_of (buckets s ! j)")
    case Nil
    with "2.IH"(1) [OF Nil, of "insert j I"] 2(3,4) best_add_empty [OF Nil] show ?thesis by simp
  next
    case (Cons e es)
    then have "first_of s j e" by (simp add: first_of_def)
    from best_add [OF this 2(4)] "2.IH"(2) [OF Cons, of "insert j I"] 2(3) Cons show ?thesis
      by (auto split: if_splits)
  qed
qed simp

text \<open>The days of the events in the bucket \<open>k\<close> places behind the current one.\<close>

definition bucket_at :: "CalendarScheduler \<Rightarrow> nat \<Rightarrow> nat" where
  "bucket_at s k = (lastbucket s + k) mod nbuckets s"

definition limit_at :: "CalendarScheduler \<Rightarrow> nat \<Rightarrow> double" where
  "limit_at s k = (if k = 0 then diff0 s else if k = 1 then diff1 s else diff2 s)"

lemma bucket_all_events:
  assumes "cal_body ev s" "i < nbuckets s" "e \<in> set (list_of (buckets s ! i))"
  shows "e \<in> set (all_events s)"
proof -
  have "buckets s ! i \<in> set (buckets s)" using assms(1,2) by (simp add: cal_body_def cal_shape_def)
  with assms(3) show ?thesis by (auto simp: all_events_def)
qed

lemma bucket_at_day:
  assumes inv: "cal_inv ev s" and k: "k < nbuckets s" and e: "e \<in> set (list_of (buckets s ! bucket_at s k))"
  shows "\<exists>m \<ge> 0. day (width s) (tm ev e) = day (width s) (cal_clock s) + int k + m * int (nbuckets s)"
proof -
  let ?n = "int (nbuckets s)" and ?v = "day (width s) (cal_clock s)" and ?d = "day (width s) (tm ev e)"
  have n: "0 < nbuckets s" "bucket_at s k < nbuckets s" and w: "0 < width s" and body: "cal_body ev s"
    using inv by (auto simp: cal_inv_def cal_body_def cal_shape_def bucket_at_def)
  have "bucket_of (width s) (nbuckets s) (tm ev e) = bucket_at s k" using body n e by (auto simp: cal_body_def bucket_ok_def)
  then have "?d mod ?n = int (bucket_at s k)" using int_bucket_of [OF n(1), of "width s" "tm ev e"] by simp
  also have "\<dots> = (int (lastbucket s) + int k) mod ?n" by (simp add: bucket_at_def zmod_int)
  also have "int (lastbucket s) = ?v mod ?n" using inv n by (simp add: cal_inv_def bucket_of_def)
  finally have "?d mod ?n = (?v + int k) mod ?n" by (simp add: mod_simps)
  then have "(?d - ?v) mod ?n = int k mod ?n" by (metis add_diff_cancel_left' mod_diff_left_eq)
  then have md: "(?d - ?v) mod ?n = int k" using k by simp
  have "e \<in> set (all_events s)" by (rule bucket_all_events [OF body n(2) e])
  then have "?v \<le> ?d" using inv w by (intro day_mono) (auto simp: cal_inv_def)
  then have "0 \<le> (?d - ?v) div ?n" using n by (simp add: pos_imp_zdiv_nonneg_iff)
  moreover have "?d = ?v + int k + (?d - ?v) div ?n * ?n" using div_mult_mod_eq [of "?d - ?v" ?n] md by linarith
  ultimately show ?thesis by blast
qed

text \<open>The limits tell the events of the current year from the later ones.\<close>

lemma within_limit:
  assumes inv: "cal_inv ev s" and k: "k < nbuckets s - 1" and e: "e \<in> set (list_of (buckets s ! bucket_at s k))"
  shows "tm ev e - cal_clock s < limit_at s k \<longleftrightarrow> day (width s) (tm ev e) = day (width s) (cal_clock s) + int k"
proof -
  let ?n = "nbuckets s" and ?w = "width s" and ?v = "day (width s) (cal_clock s)" and ?d = "day (width s) (tm ev e)"
  have sh: "4 \<le> ?n" "0 < ?w" "diff0 s = ?w * of_nat ?n / 2" "diff1 s = ?w * of_nat ?n / 2 + ?w" "diff2 s = ?w * of_nat ?n"
    using inv by (auto simp: cal_inv_def cal_body_def cal_shape_def)
  obtain m where m: "0 \<le> m" "?d = ?v + int k + m * int ?n" using bucket_at_day [OF inv _ e] k less_imp_diff_less by (metis diff_le_self less_le_trans)
  have dv: "of_int ?d - of_int ?v = of_nat k + of_int m * (of_nat ?n :: double)" using m(2) by simp
  have te: "of_int ?d * ?w \<le> tm ev e" "tm ev e < (of_int ?d + 1) * ?w" using day_bounds [OF sh(2)] by auto
  have tc: "of_int ?v * ?w \<le> cal_clock s" "cal_clock s < (of_int ?v + 1) * ?w" using day_bounds [OF sh(2)] by auto
  have nn: "(4 :: double) \<le> of_nat ?n" using sh(1) by (metis of_nat_le_iff of_nat_numeral)
  have b4: "4 * ?w \<le> ?w * of_nat ?n" using mult_right_mono [OF nn, of ?w] sh(2) by (simp only: mult.commute less_imp_le)
  show ?thesis
  proof (cases "m = 0")
    case True
    have "tm ev e - cal_clock s < (of_int ?d + 1) * ?w - of_int ?v * ?w" using te tc by linarith
    also have "\<dots> = (of_nat k + 1) * ?w" using dv True by (simp add: algebra_simps flip: left_diff_distrib)
    also have "\<dots> \<le> limit_at s k"
    proof -
      have "(of_nat k + 1 :: double) \<le> of_nat ?n" using k by (metis of_nat_1 of_nat_add of_nat_le_iff Suc_eq_plus1 Suc_leI diff_le_self less_le_trans)
      from mult_right_mono [OF this, of ?w] sh(2) have bk: "(of_nat k + 1) * ?w \<le> ?w * of_nat ?n"
        by (simp only: mult.commute less_imp_le)
      consider "k = 0" | "k = 1" | "1 < k" by linarith
      then show ?thesis
      proof cases
        case 1
        then have "(of_nat k + 1) * ?w = ?w" "limit_at s k = diff0 s" by (simp_all add: limit_at_def)
        then show ?thesis using b4 sh(2,3) by linarith
      next
        case 2
        then have "(of_nat k + 1) * ?w = 2 * ?w" "limit_at s k = diff1 s" by (simp_all add: limit_at_def)
        then show ?thesis using b4 sh(2,4) by linarith
      next
        case 3 then show ?thesis using bk sh(5) by (simp add: limit_at_def)
      qed
    qed
    finally show ?thesis using True m(2) by simp
  next
    case False
    with m(1) have "1 \<le> m" by simp
    then have "of_nat ?n \<le> of_int m * (of_nat ?n :: double)" using nn by (simp add: mult_le_cancel_right1)
    then have "of_nat k + of_nat ?n \<le> (of_int ?d - of_int ?v :: double)" using dv by simp
    then have "(of_nat k + of_nat ?n) * ?w \<le> (of_int ?d - of_int ?v) * ?w" using sh(2) by (intro mult_right_mono) auto
    also have "\<dots> < tm ev e - cal_clock s + ?w" using te tc by (simp add: algebra_simps)
    finally have far: "(of_nat k + of_nat ?n) * ?w - ?w < tm ev e - cal_clock s" by simp
    moreover have "limit_at s k \<le> (of_nat k + of_nat ?n) * ?w - ?w"
    proof -
      have dist: "(of_nat k + of_nat ?n) * ?w = of_nat k * ?w + ?w * of_nat ?n" by (simp add: algebra_simps)
      consider "k = 0" | "k = 1" | "1 < k" by linarith
      then show ?thesis
      proof cases
        case 1
        then have "of_nat k * ?w = 0" "limit_at s k = diff0 s" by (simp_all add: limit_at_def)
        then show ?thesis using b4 dist sh(2,3) by linarith
      next
        case 2
        then have "of_nat k * ?w = ?w" "limit_at s k = diff1 s" by (simp_all add: limit_at_def)
        then show ?thesis using b4 dist sh(2,4) by linarith
      next
        case 3
        then have "?w \<le> of_nat k * ?w" "limit_at s k = diff2 s" using sh(2) by (simp_all add: limit_at_def mult_le_cancel_right1)
        then show ?thesis using dist sh(5) by linarith
      qed
    qed
    moreover have "?d \<noteq> ?v + int k" using m False sh(1) by auto
    ultimately show ?thesis by simp
  qed
qed

lemma scan_list_offsets:
  assumes "4 \<le> nbuckets s" "lastbucket s < nbuckets s"
  shows "scan_list s = map (\<lambda>k. (bucket_at s k, limit_at s k)) [0..<nbuckets s - 1]"
proof -
  have "[0..<nbuckets s - 1] = 0 # 1 # [2..<nbuckets s - 1]"
    using assms(1) by (simp add: upt_conv_Cons numeral_2_eq_2)
  then show ?thesis using assms by (simp add: scan_list_def bucket_at_def limit_at_def)
qed

lemma lastbucket_dec_offset:
  assumes "0 < nbuckets s" "lastbucket s < nbuckets s"
  shows "lastbucket_dec s = bucket_at s (nbuckets s - 1)"
  using assms by (cases "lastbucket s") (auto simp: lastbucket_dec_def bucket_at_def mod_if)

text \<open>Every bucket is at some distance from the current one.\<close>

lemma bucket_at_surj:
  assumes "i < nbuckets s" "lastbucket s < nbuckets s"
  shows "\<exists>k < nbuckets s. i = bucket_at s k"
proof (cases "lastbucket s \<le> i")
  case True
  with assms show ?thesis by (intro exI [of _ "i - lastbucket s"]) (auto simp: bucket_at_def)
next
  case False
  with assms show ?thesis
    by (intro exI [of _ "nbuckets s + i - lastbucket s"]) (auto simp: bucket_at_def mod_if)
qed

lemma bucket_first:
  assumes body: "cal_body ev s" and i: "i < nbuckets s" and x: "x \<in> set (list_of (buckets s ! i))"
  shows "\<exists>f. first_of s i f \<and> f \<in> set (list_of (buckets s ! i)) \<and> tm ev f \<le> tm ev x"
proof -
  have "sorted_key (tm ev) (list_of (buckets s ! i))" using body i by (simp add: cal_body_def bucket_ok_def)
  from sorted_key_ends [OF this x] x show ?thesis by (cases "list_of (buckets s ! i)") (auto simp: first_of_def)
qed

definition earliest :: "events \<Rightarrow> CalendarScheduler \<Rightarrow> eaddr \<Rightarrow> nat \<Rightarrow> bool" where
  "earliest ev s e l \<longleftrightarrow> l < nbuckets s \<and> first_of s l e \<and> (\<forall>x \<in> set (all_events s). tm ev e \<le> tm ev x)"

lemma earliestI:
  assumes body: "cal_body ev s" and "l < nbuckets s" "first_of s l e"
    and "\<And>i f. i < nbuckets s \<Longrightarrow> first_of s i f \<Longrightarrow> tm ev e \<le> tm ev f"
  shows "earliest ev s e l"
  using assms in_all_events [OF body] bucket_first [OF body] unfolding earliest_def by (meson order_trans)

lemma day_less: "0 < w \<Longrightarrow> day w s < day w t \<Longrightarrow> s \<le> t"
  using day_mono [of w t s] by linarith

lemma first_of_in: "first_of s i f \<Longrightarrow> f \<in> set (list_of (buckets s ! i))"
  by (auto simp: first_of_def)

lemma scan_found_earliest:
  assumes inv: "cal_inv ev s" and sc: "cal_scan ev s (scan_list s) None = Inl (e, i)"
  shows "earliest ev s e i"
proof -
  let ?v = "day (width s) (cal_clock s)" and ?D = "\<lambda>x. day (width s) (tm ev x)"
  have body: "cal_body ev s" and n: "4 \<le> nbuckets s" "0 < width s"
    using inv by (auto simp: cal_inv_def cal_body_def cal_shape_def)
  have lb: "lastbucket s < nbuckets s" using inv n bucket_of_less by (auto simp: cal_inv_def)
  note sl = scan_list_offsets [OF n(1) lb]
  obtain pre l post where pre: "scan_list s = pre @ (i, l) # post" and f: "first_of s i e" and near: "tm ev e - cal_clock s < l"
    and far: "\<And>j l f. (j, l) \<in> set pre \<Longrightarrow> first_of s j f \<Longrightarrow> \<not> tm ev f - cal_clock s < l"
    using cal_scan_found [OF sc] by fastforce
  let ?k = "length pre"
  have k: "?k < nbuckets s - 1" using arg_cong [OF pre, of length] by (simp add: sl)
  have at: "(i, l) = (bucket_at s ?k, limit_at s ?k)"
    using arg_cong [OF pre, of "\<lambda>xs. xs ! ?k"] k by (simp add: sl)
  have e_in: "e \<in> set (list_of (buckets s ! bucket_at s ?k))" using f at by (auto simp: first_of_def)
  have day_e: "?D e = ?v + int ?k" using within_limit [OF inv k e_in] near at by simp
  have pre_at: "(bucket_at s j, limit_at s j) \<in> set pre" if "j < ?k" for j
  proof -
    have "pre ! j = scan_list s ! j" using that pre by (simp add: nth_append)
    then have "pre ! j = (bucket_at s j, limit_at s j)" using that k by (simp add: sl)
    with that show ?thesis by (metis nth_mem)
  qed
  show ?thesis
  proof (rule earliestI [OF body _ f])
    show "i < nbuckets s" using at n by (simp add: bucket_at_def)
    fix j g assume j: "j < nbuckets s" and g: "first_of s j g"
    obtain k' where k': "k' < nbuckets s" "j = bucket_at s k'" using bucket_at_surj [OF j lb] by blast
    have g_in: "g \<in> set (list_of (buckets s ! bucket_at s k'))" using first_of_in g k'(2) by blast
    obtain m where m: "0 \<le> m" "?D g = ?v + int k' + m * int (nbuckets s)" using bucket_at_day [OF inv k'(1) g_in] by blast
    have "m * int (nbuckets s) \<ge> 0" using m(1) by simp
    consider "k' = ?k" | "k' < ?k" | "?k < k'" by linarith
    then show "tm ev e \<le> tm ev g"
    proof cases
      case 1
      with f g at k' first_of_unique [of s j g e] show ?thesis by simp
    next
      case 2
      have "\<not> tm ev g - cal_clock s < limit_at s k'" using far [OF pre_at [OF 2]] g k'(2) by simp
      then have "m \<noteq> 0" using within_limit [OF inv _ g_in] m(2) 2 k by auto
      then have "int (nbuckets s) \<le> m * int (nbuckets s)" using m(1) n(1) by (simp add: mult_le_cancel_right1)
      then have "?D e < ?D g" using day_e m(2) k by linarith
      then show ?thesis by (rule day_less [OF n(2)])
    next
      case 3
      then have "?D e < ?D g" using day_e m \<open>m * int (nbuckets s) \<ge> 0\<close> by linarith
      then show ?thesis by (rule day_less [OF n(2)])
    qed
  qed
qed

lemma offsets_cover:
  assumes "0 < nbuckets s" "lastbucket s < nbuckets s" "i < nbuckets s"
  shows "i = lastbucket_dec s \<or> i \<in> bucket_at s ` {0..<nbuckets s - 1}"
proof -
  obtain k where k: "k < nbuckets s" "i = bucket_at s k" using bucket_at_surj assms by blast
  then show ?thesis
    using lastbucket_dec_offset [OF assms(1,2)] by (cases "k = nbuckets s - 1") auto
qed

text \<open>What \<^verbatim>\<open>head\<close> does with the earliest event seen and the one bucket left.\<close>

definition pick_last ::
    "events \<Rightarrow> CalendarScheduler \<Rightarrow> (eaddr \<times> nat) option \<Rightarrow> (eaddr \<times> nat) result" where
  "pick_last ev s m =
     (case (m, list_of (buckets s ! lastbucket_dec s)) of
        (None, []) \<Rightarrow> Inl NullPointer
      | (Some (f, j), []) \<Rightarrow> Inr (f, j)
      | (None, e # _) \<Rightarrow> Inr (e, lastbucket_dec s)
      | (Some (f, j), e # _) \<Rightarrow> if tm ev f < tm ev e then Inr (f, j) else Inr (e, lastbucket_dec s))"

lemma pick_last_earliest:
  assumes body: "cal_body ev s" and ne: "all_events s \<noteq> []" and bst: "best ev s I m"
    and I: "\<And>i. i \<in> I \<Longrightarrow> i < nbuckets s" and all: "\<And>i. i < nbuckets s \<Longrightarrow> i \<in> I \<or> i = lastbucket_dec s"
    and d: "lastbucket_dec s < nbuckets s"
  obtains e l where "pick_last ev s m = Inr (e, l)" "earliest ev s e l"
proof (cases "list_of (buckets s ! lastbucket_dec s)")
  case Nil
  then have noth: "\<And>f. \<not> first_of s (lastbucket_dec s) f" by (simp add: first_of_def)
  have "m \<noteq> None"
  proof
    assume "m = None"
    with bst Nil all have "\<forall>i < nbuckets s. list_of (buckets s ! i) = []" by (auto simp: best_def)
    with ne body show False by (auto simp: all_events_def cal_body_def cal_shape_def in_set_conv_nth)
  qed
  then obtain f j where m: "m = Some (f, j)" by auto
  with bst have "j \<in> I" "first_of s j f" "\<And>i g. i \<in> I \<Longrightarrow> first_of s i g \<Longrightarrow> tm ev f \<le> tm ev g"
    by (auto simp: best_def)
  then have "earliest ev s f j" using all I noth by (intro earliestI [OF body]) blast+
  with m Nil show thesis by (intro that [of f j]) (auto simp: pick_last_def)
next
  case (Cons g gs)
  then have first: "first_of s (lastbucket_dec s) g" by (simp add: first_of_def)
  show thesis
  proof (cases m)
    case None
    with bst have "\<And>i f. i \<in> I \<Longrightarrow> \<not> first_of s i f" by (auto simp: best_def first_of_def)
    then have "earliest ev s g (lastbucket_dec s)"
      using all first d first_of_unique [OF first] by (intro earliestI [OF body]) blast+
    with None Cons show thesis by (intro that [of g "lastbucket_dec s"]) (auto simp: pick_last_def)
  next
    case (Some p)
    obtain f j where p: "p = (f, j)" by fastforce
    with bst Some have f: "j \<in> I" "first_of s j f" "\<And>i g. i \<in> I \<Longrightarrow> first_of s i g \<Longrightarrow> tm ev f \<le> tm ev g"
      by (auto simp: best_def)
    show thesis
    proof (cases "tm ev f < tm ev g")
      case True
      then have "earliest ev s f j"
        using all I f first_of_unique [OF first] by (intro earliestI [OF body]) (blast, blast, metis less_imp_le)
      with p Some Cons True show thesis by (intro that [of f j]) (auto simp: pick_last_def)
    next
      case False
      then have "earliest ev s g (lastbucket_dec s)"
        using all d f first first_of_unique [OF first]
        by (intro earliestI [OF body]) (blast, blast, metis not_less order_refl order_trans)
      with p Some Cons False show thesis by (intro that [of g "lastbucket_dec s"]) (auto simp: pick_last_def)
    qed
  qed
qed

lemma Calendar_head_law:
  assumes inv: "cal_inv ev s" and ne: "all_events s \<noteq> []"
  obtains e l where "Calendar_head ev s = Inr (Some e, s\<lparr>lastbucket := l, cal_clock := tm ev e\<rparr>)" "earliest ev s e l"
proof -
  have body: "cal_body ev s" and n: "4 \<le> nbuckets s"
    using inv by (auto simp: cal_inv_def cal_body_def cal_shape_def)
  have lb: "lastbucket s < nbuckets s" using inv n bucket_of_less by (auto simp: cal_inv_def)
  have q: "cal_qsize s \<noteq> 0" using body ne by (simp add: cal_body_def)
  have d: "lastbucket_dec s < nbuckets s"
    using n by (subst lastbucket_dec_offset) (use lb in \<open>auto simp: bucket_at_def\<close>)
  show thesis
  proof (cases "cal_scan ev s (scan_list s) None")
    case (Inl a)
    obtain e l where a: "a = (e, l)" by fastforce
    with Inl q scan_found_earliest [OF inv] show thesis by (intro that [of e l]) (auto simp: Calendar_head_def Let_def)
  next
    case (Inr m)
    let ?I = "bucket_at s ` {0..<nbuckets s - 1}"
    have "best ev s ({} \<union> fst ` set (scan_list s)) m" by (rule cal_scan_best [OF Inr]) (simp add: best_def)
    moreover have "fst ` set (scan_list s) = ?I" by (simp add: scan_list_offsets [OF n lb] image_image)
    ultimately have bst: "best ev s ?I m" by simp
    have all: "i \<in> ?I \<or> i = lastbucket_dec s" if "i < nbuckets s" for i using offsets_cover [OF _ lb that] n by auto
    have I: "i < nbuckets s" if "i \<in> ?I" for i using that n by (auto simp: bucket_at_def)
    obtain e l where el: "pick_last ev s m = Inr (e, l)" "earliest ev s e l"
      using pick_last_earliest [OF body ne bst I all d] by blast
    have "Calendar_head ev s = bindE (pick_last ev s m) (\<lambda>(e, l). Inr (Some e, s\<lparr>lastbucket := l, cal_clock := tm ev e\<rparr>))"
      using q Inr by (simp add: Calendar_head_def Let_def pick_last_def)
    with el show thesis by (intro that [of e l]) auto
  qed
qed

lemma Calendar_head_empty: "cal_body ev s \<Longrightarrow> all_events s = [] \<Longrightarrow> Calendar_head ev s = Inr (None, s)"
  by (simp add: Calendar_head_def cal_body_def)

section \<open>Removal\<close>

lemma body_remove:
  assumes body: "cal_body ev s" and i: "i < nbuckets s" and es: "list_of (buckets s ! i) = P @ e # S"
    and only: "only \<longleftrightarrow> tm ev e \<notin> tm ev ` set (P @ S)"
  shows "cal_body ev (s\<lparr>buckets := (buckets s)[i := \<lparr>list_of = P @ S, b_count = (if only then b_count (buckets s ! i) - 1 else b_count (buckets s ! i))\<rparr>],
      stat_qsize := (if only then stat_qsize s - 1 else stat_qsize s), cal_qsize := cal_qsize s - 1\<rparr>)"
proof -
  let ?b = "buckets s ! i"
  let ?b' = "\<lparr>list_of = P @ S, b_count = (if only then b_count ?b - 1 else b_count ?b)\<rparr>"
  have ok: "bucket_ok ev (width s) (nbuckets s) i ?b" using body i by (simp add: cal_body_def)
  have "set (list_of ?b) = insert e (set (P @ S))" by (simp add: es)
  from times_insert [OF this, of ev] only ok have "bucket_ok ev (width s) (nbuckets s) i ?b'"
    by (auto simp: bucket_ok_def es sorted_append)
  moreover obtain A C where "all_events s = A @ list_of ?b @ C"
    "concat (map list_of ((buckets s)[i := ?b'])) = A @ list_of ?b' @ C"
    by (rule bucket_split [OF body i]) blast
  then have "distinct (concat (map list_of ((buckets s)[i := ?b'])))"
    using body by (auto simp: cal_body_def es)
  ultimately have "cal_body ev (s\<lparr>buckets := (buckets s)[i := ?b'], stat_qsize := stat_qsize s - b_count ?b + b_count ?b',
    cal_qsize := cal_qsize s - int (length (list_of ?b)) + int (length (list_of ?b'))\<rparr>)"
    by (rule body_update [OF body i])
  then show ?thesis by (simp add: es split: if_splits)
qed

lemma Calendar_deque_law:
  assumes inv: "cal_inv ev s" and ne: "all_events s \<noteq> []"
  shows "\<exists>e s'. Calendar_deque ev s = Inr (Some e, s') \<and> cal_inv ev s' \<and> cal_order ev s = e # cal_order ev s'
    \<and> (\<forall>x \<in> set (all_events s). tm ev e \<le> tm ev x)"
proof -
  obtain e l where hd: "Calendar_head ev s = Inr (Some e, s\<lparr>lastbucket := l, cal_clock := tm ev e\<rparr>)" "earliest ev s e l"
    by (rule Calendar_head_law [OF inv ne])
  let ?s = "s\<lparr>lastbucket := l, cal_clock := tm ev e\<rparr>"
  have l: "l < nbuckets s" and min: "\<forall>x \<in> set (all_events s). tm ev e \<le> tm ev x" using hd(2) by (auto simp: earliest_def)
  obtain es where es: "list_of (buckets s ! l) = e # es" using hd(2) by (auto simp: earliest_def first_of_def)
  have body: "cal_body ev s" "cal_body ev ?s" using inv by (auto simp: cal_inv_def cal_body_def cal_shape_def all_events_def)
  have ok: "bucket_ok ev (width s) (nbuckets s) l (buckets s ! l)" using body(1) l by (simp add: cal_body_def)
  then have srt: "sorted_key (tm ev) (e # es)" "0 \<le> tm ev e" "bucket_of (width s) (nbuckets s) (tm ev e) = l"
    by (auto simp: bucket_ok_def es)
  obtain A C where AC: "all_events s = A @ list_of (buckets s ! l) @ C"
    "\<And>b. concat (map list_of ((buckets s)[l := b])) = A @ list_of b @ C"
    "\<forall>x \<in> set A \<union> set C. bucket_of (width s) (nbuckets s) (tm ev x) \<noteq> l"
    by (rule bucket_split [OF body(1) l]) blast
  have out: "e \<notin> set es" using body(1) AC(1) by (auto simp: cal_body_def es)
  define lt where "lt = (circ_next e (e # es) = e \<or> tm ev (circ_next e (e # es)) \<noteq> tm ev e)"
  have lt: "lt \<longleftrightarrow> tm ev e \<notin> tm ev ` set ([] @ es)" unfolding lt_def using last_time_first [OF srt(1) out] by simp
  define s1 where "s1 = ?s\<lparr>buckets := (buckets s)[l := \<lparr>list_of = es, b_count = (if lt then b_count (buckets s ! l) - 1 else b_count (buckets s ! l))\<rparr>],
      stat_qsize := (if lt then stat_qsize s - 1 else stat_qsize s), cal_qsize := cal_qsize s - 1\<rparr>"
  have "l < nbuckets ?s" "list_of (buckets ?s ! l) = [] @ e # es" using l es by simp_all
  from body_remove [OF body(2) this lt] have b1: "cal_body ev s1" by (cases lt) (simp_all add: s1_def)
  have all1: "all_events s1 = A @ es @ C" by (simp add: all_events_def s1_def AC(2))
  have ord: "cal_order ev s = e # cal_order ev s1"
    unfolding cal_order_def all1 AC(1) es using AC(3) srt(3) min AC(1) es
    by (intro sort_key_min_middle) (metis, auto)
  have clk: "cal_clock s1 = tm ev e" "lastbucket s1 = bucket_of (width s1) (nbuckets s1) (cal_clock s1)"
    "\<forall>x \<in> set (all_events s1). cal_clock s1 \<le> tm ev x"
    using srt(3) min AC(1) es all1 by (auto simp: s1_def)
  have run: "Calendar_deque ev s = (if stat_qsize s1 < bot_threshold s1
      then bindE (resize ev (nbuckets s1 div 2) (cal_clock s1) s1) (\<lambda>s''. Inr (Some e, s'')) else Inr (Some e, s1))"
    by (simp add: Calendar_deque_def hd(1) Let_def es s1_def lt_def)
  show ?thesis
  proof (cases "stat_qsize s1 < bot_threshold s1")
    case False
    with run b1 ord clk min srt(2) show ?thesis by (auto simp: cal_inv_def)
  next
    case True
    have "0 < nbuckets s1 div 2" using b1 by (auto simp: cal_body_def cal_shape_def)
    from resize_law [OF b1 this] clk(1) srt(2) obtain s2 where
      s2: "resize ev (nbuckets s1 div 2) (cal_clock s1) s1 = Inr s2" "cal_body ev s2" "mset (all_events s2) = mset (all_events s1)"
      "cal_order ev s2 = cal_order ev s1" "cal_clock s2 = cal_clock s1"
      "lastbucket s2 = bucket_of (width s2) (nbuckets s2) (cal_clock s1)" by auto
    have "\<forall>x \<in> set (all_events s2). cal_clock s2 \<le> tm ev x" using clk(3) s2(5) mset_eq_setD [OF s2(3)] by simp
    with True run s2 ord clk(1) min srt(2) show ?thesis by (auto simp: cal_inv_def)
  qed
qed

lemma Calendar_cancel_law:
  assumes inv: "cal_inv ev s" and e: "e \<in> set (all_events s)" and u: "0 < euid (ev e)"
  shows "\<exists>s'. Calendar_cancel ev e s = Inr (negate_uid e ev, s') \<and> cal_inv ev s'
    \<and> all_events s' = removeAll e (all_events s)"
proof -
  let ?i = "bucket_of (width s) (nbuckets s) (tm ev e)"
  let ?b = "buckets s ! ?i"
  have body: "cal_body ev s" using inv by (simp add: cal_inv_def)
  have i: "?i < nbuckets s" and t: "0 \<le> tm ev e" and "e \<in> set (list_of ?b)" using in_all_events [OF body e] by auto
  then obtain P S where ps: "list_of ?b = P @ e # S" by (meson split_list)
  obtain A C where AC: "all_events s = A @ list_of ?b @ C"
    "\<And>b. concat (map list_of ((buckets s)[?i := b])) = A @ list_of b @ C"
    "\<And>b. sum_list (map b_count ((buckets s)[?i := b])) = stat_qsize s - b_count ?b + b_count b"
    by (rule bucket_split [OF body i]) blast
  have dist: "distinct (A @ (P @ e # S) @ C)" using body AC(1) ps by (simp add: cal_body_def)
  then have out: "e \<notin> set P" "e \<notin> set S" "e \<notin> set A" "e \<notin> set C" by auto
  have "bucket_ok ev (width s) (nbuckets s) ?i ?b" using body i by (simp add: cal_body_def)
  then have ok: "sorted_key (tm ev) (P @ e # S)" unfolding bucket_ok_def ps by blast
  define only where "only = (circ_next e (P @ e # S) = e \<or> tm ev (circ_next e (P @ e # S)) \<noteq> tm ev e \<and> tm ev (circ_prev e (P @ e # S)) \<noteq> tm ev e)"
  have only: "only \<longleftrightarrow> tm ev e \<notin> tm ev ` set (P @ S)" unfolding only_def by (rule only_time_middle [OF ok out(1,2)])
  define b' where "b' = \<lparr>list_of = P @ S, b_count = (if only then b_count ?b - 1 else b_count ?b)\<rparr>"
  define s1 where "s1 = s\<lparr>buckets := (buckets s)[?i := b'], stat_qsize := (if only then stat_qsize s - 1 else stat_qsize s), cal_qsize := cal_qsize s - 1\<rparr>"
  have b1: "cal_body ev s1" using body_remove [OF body i ps only] unfolding s1_def b'_def .
  have rem: "removeAll e (P @ e # S) = P @ S" using out by simp
  have all1: "all_events s1 = removeAll e (all_events s)"
    using out AC(1,2) ps rem by (simp add: all_events_def s1_def b'_def)
  have "bucket_ok ev (width s1) (nbuckets s1) ?i b'"
  proof -
    have "?i < length (buckets s)" "?i < nbuckets s1" using i body by (simp_all add: cal_body_def cal_shape_def s1_def)
    moreover from this have "buckets s1 ! ?i = b'" by (simp add: s1_def)
    ultimately show ?thesis using b1 unfolding cal_body_def by metis
  qed
  then have cnt: "b_count b' = int (times ev (P @ S))" by (simp add: bucket_ok_def b'_def)
  then have asserts: "0 \<le> b_count b'" "b_count b' = 0 \<longrightarrow> P @ S = []"
    by (auto simp: times_def)
  have "0 \<le> b_count b" if "b \<in> set (buckets s1)" for b
    using that b1 by (auto simp: cal_body_def cal_shape_def bucket_ok_def in_set_conv_nth)
  then have "0 \<le> sum_list (map b_count (buckets s1))" by (intro sum_list_nonneg) auto
  then have "0 \<le> stat_qsize s1" using b1 by (simp add: cal_body_def)
  then have "Calendar_cancel ev e s = Inr (negate_uid e ev, s1)"
    using u asserts body_hash [OF body t] ps rem
    unfolding Calendar_cancel_def Let_def s1_def only_def [symmetric] b'_def
    by (simp add: only_def [symmetric])
  moreover have "cal_inv ev s1"
    using b1 all1 inv by (auto simp: cal_inv_def s1_def)
  ultimately show ?thesis using all1 by blast
qed

lemma bucket_lookup_spec: "looked_up ev u (set (concat (map list_of bs))) (bucket_lookup ev u bs)"
proof (induction bs)
  case (Cons b bs)
  then show ?case
    by (cases "find (\<lambda>p. euid (ev p) = u) (list_of b)")
      (auto simp: looked_up_def find_None_iff find_Some_iff split: option.splits)
qed (simp add: looked_up_def)

section \<open>The calendar scheduler keeps the contract\<close>

lemma bucket_ok_cong:
  assumes "bucket_ok ev w n i b" "\<forall>a \<in> set (list_of b). tm ev' a = tm ev a"
  shows "bucket_ok ev' w n i b"
proof -
  have "map (tm ev') (list_of b) = map (tm ev) (list_of b)" using assms(2) by simp
  then have "sorted_key (tm ev') (list_of b)" using assms(1) by (simp only: bucket_ok_def)
  moreover have "tm ev' ` set (list_of b) = tm ev ` set (list_of b)" using assms(2) by auto
  ultimately show ?thesis using assms unfolding bucket_ok_def times_def by simp
qed

lemma cal_inv_cong:
  assumes inv: "cal_inv ev s" and same: "same_on (cal_members s) ev ev'"
  shows "cal_inv ev' s"
proof -
  have tms: "\<And>a. a \<in> set (all_events s) \<Longrightarrow> tm ev' a = tm ev a" using same by (simp add: same_on_def cal_members_def)
  have body: "cal_body ev s" using inv by (simp add: cal_inv_def)
  have "bucket_ok ev' (width s) (nbuckets s) i (buckets s ! i)" if i: "i < nbuckets s" for i
  proof (rule bucket_ok_cong)
    show "bucket_ok ev (width s) (nbuckets s) i (buckets s ! i)" using body i by (simp add: cal_body_def)
    show "\<forall>a \<in> set (list_of (buckets s ! i)). tm ev' a = tm ev a" using tms bucket_all_events [OF body i] by blast
  qed
  with body have "cal_body ev' s" by (simp add: cal_body_def)
  with inv tms show ?thesis by (auto simp: cal_inv_def)
qed

lemma sort_key_cong_map:
  assumes "\<And>x. x \<in> set xs \<Longrightarrow> f x = g x"
  shows "sort_key f xs = sort_key g xs"
proof (rule properties_for_sort_key)
  have "map f (sort_key g xs) = map g (sort_key g xs)" using assms by simp
  then show "sorted_key f (sort_key g xs)" by (simp only: sorted_sort_key)
  show "filter (\<lambda>x. f k = f x) (sort_key g xs) = filter (\<lambda>x. f k = f x) xs" if "k \<in> set (sort_key g xs)" for k
  proof -
    have "filter (\<lambda>x. f k = f x) ys = filter (\<lambda>x. g x = g k) ys" if "set ys \<subseteq> set xs" for ys
      using that \<open>k \<in> set (sort_key g xs)\<close> assms by (intro filter_cong) (auto simp: eq_commute [of "g k"])
    then show ?thesis by (simp add: sort_key_stable)
  qed
qed simp

lemma cal_deque_cases:
  assumes inv: "cal_inv ev s"
  obtains (empty) "all_events s = []" "Calendar_deque ev s = Inr (None, s)"
  | (event) e s' where "Calendar_deque ev s = Inr (Some e, s')" "cal_inv ev s'" "cal_order ev s = e # cal_order ev s'"
      "next_event ev (cal_members s) (Some e)" "cal_members s' = cal_members s - {e}"
proof (cases "all_events s = []")
  case True
  with inv have "Calendar_deque ev s = Inr (None, s)"
    by (simp add: Calendar_deque_def Calendar_head_empty cal_inv_def)
  with True show thesis by (rule empty)
next
  case False
  from Calendar_deque_law [OF inv this] obtain e s' where *: "Calendar_deque ev s = Inr (Some e, s')" "cal_inv ev s'"
    "cal_order ev s = e # cal_order ev s'" "\<forall>x \<in> set (all_events s). tm ev e \<le> tm ev x" by blast
  have "set (cal_order ev s) = cal_members s" "set (cal_order ev s') = cal_members s'" "distinct (cal_order ev s)"
    using inv by (auto simp: cal_order_def cal_members_def cal_inv_def cal_body_def)
  with *(3) have "e \<in> cal_members s" "cal_members s' = cal_members s - {e}" by auto
  with * show thesis by (intro event) (auto simp: next_event_def cal_members_def)
qed

interpretation calendar: fifo_queue CalendarScheduler_ops cal_inv cal_members cal_order
proof (unfold_locales, goal_cases)
  case (1 ev q) then show ?case by (simp add: cal_members_def)
next
  case (2 ev q ev') then show ?case by (rule cal_inv_cong)
next
  case (3 ev q e)
  then obtain s' where "Calendar_insert ev e q = Inr s'" "cal_inv ev s'" "mset (all_events s') = add_mset e (mset (all_events q))"
    using Calendar_insert_law [of ev q e] by (auto simp: insertable_def cal_members_def)
  then show ?case
    by (auto simp: CalendarScheduler_ops_def cal_members_def) (metis insert_iff set_mset_add_mset_insert set_mset_mset)+
next
  case (4 ev q)
  from this show ?case
    by (cases rule: cal_deque_cases) (use 4 in \<open>auto simp: CalendarScheduler_ops_def cal_members_def next_event_def\<close>)
next
  case (5 ev q e) then show ?case by (simp add: CalendarScheduler_ops_def Calendar_cancel_def)
next
  case (6 ev q e)
  with Calendar_cancel_law [of ev q e] show ?case by (auto simp: CalendarScheduler_ops_def cal_members_def)
next
  case (7 ev q u)
  with bucket_lookup_spec [of ev u "buckets q"] show ?case
    by (simp add: CalendarScheduler_ops_def Calendar_lookup_def cal_members_def all_events_def)
next
  case (8 ev q) then show ?case by (simp add: cal_order_def cal_members_def)
next
  case (9 ev q) then show ?case by (simp add: cal_order_def cal_inv_def cal_body_def)
next
  case (10 ev q ev') then show ?case
    unfolding cal_order_def by (intro sort_key_cong_map) (simp add: same_on_def cal_members_def)
next
  case (11 ev q e q')
  then obtain s' where "Calendar_insert ev e q = Inr s'" "cal_order ev s' = insert_upper (tm ev) e (cal_order ev q)"
    using Calendar_insert_law [of ev q e] unfolding insertable_def cal_members_def by blast
  with 11(3) show ?case by (simp add: CalendarScheduler_ops_def)
next
  case (12 ev q r q')
  from 12(1) show ?case
  proof (cases rule: cal_deque_cases)
    case empty
    with 12(2) show ?thesis by (simp add: CalendarScheduler_ops_def cal_order_def)
  next
    case (event e s')
    from event(1) 12(2) have "r = Some e" "q' = s'" by (simp_all add: CalendarScheduler_ops_def)
    with event(3) show ?thesis by simp
  qed
next
  case (13 ev q e ev' q')
  then obtain s' where "Calendar_cancel ev e q = Inr (negate_uid e ev, s')" "all_events s' = removeAll e (all_events q)"
    using Calendar_cancel_law [of ev q e] by (auto simp: cal_members_def)
  with 13(4) show ?case by (auto simp: CalendarScheduler_ops_def cal_order_def removeAll_filter_not_eq filter_sort)
next
  case (14 ev q u r q') then show ?case by (simp add: CalendarScheduler_ops_def)
qed

interpretation calendar: peekable_queue CalendarScheduler_ops cal_inv cal_members
proof (unfold_locales, goal_cases)
  case (1 ev q)
  show ?case
  proof (cases "all_events q = []")
    case True
    with 1 show ?thesis
      by (auto simp: CalendarScheduler_ops_def Calendar_deque_def Calendar_head_empty cal_inv_def)
  next
    case False
    obtain e l where hd: "Calendar_head ev q = Inr (Some e, q\<lparr>lastbucket := l, cal_clock := tm ev e\<rparr>)" "earliest ev q e l"
      by (rule Calendar_head_law [OF 1 False])
    have body: "cal_body ev q" using 1 by (simp add: cal_inv_def)
    have l: "l < nbuckets q" "e \<in> set (list_of (buckets q ! l))" using hd(2) first_of_in by (auto simp: earliest_def)
    then have "0 \<le> tm ev e \<and> bucket_of (width q) (nbuckets q) (tm ev e) = l" using body by (auto simp: cal_body_def bucket_ok_def)
    then have "cal_inv ev (q\<lparr>lastbucket := l, cal_clock := tm ev e\<rparr>)"
      using body hd(2) by (auto simp: cal_inv_def cal_body_def cal_shape_def all_events_def earliest_def)
    moreover obtain f s' where "Calendar_deque ev q = Inr (Some f, s')" using Calendar_deque_law [OF 1 False] by blast
    moreover from this hd(1) have "f = e"
      by (auto simp: Calendar_deque_def Let_def bindE_eq_Inr split: if_splits)
    ultimately show ?thesis using hd(1) by (auto simp: CalendarScheduler_ops_def cal_members_def all_events_def)
  qed
qed

interpretation list_calendar: fifo_pair ListScheduler_ops list_inv set list_order
    CalendarScheduler_ops cal_inv cal_members cal_order ..

section \<open>Properties\<close>

text \<open>The search of \<^verbatim>\<open>head\<close> finds the earliest event of a queue that is not empty, the
  first inserted among those of its time, although it looks at the first event of each bucket only
  and stops within the year; and it leaves the calendar in order.\<close>

theorem calendar_head_finds_first:
  assumes "cal_inv ev s" and "all_events s \<noteq> []"
  shows "\<exists>s'. Calendar_head ev s = Inr (Some (hd (cal_order ev s)), s') \<and> cal_inv ev s'
    \<and> all_events s' = all_events s \<and> cal_order ev s' = cal_order ev s
    \<and> (\<forall>x \<in> cal_members s. etime (ev (hd (cal_order ev s))) \<le> etime (ev x))"
proof -
  obtain r s' s'' where h: "Calendar_head ev s = Inr (r, s')" "cal_inv ev s'" "Calendar_deque ev s = Inr (r, s'')"
    using calendar.head_law [OF assms(1)] by (auto simp: CalendarScheduler_ops_def)
  obtain e l where el: "Calendar_head ev s = Inr (Some e, s\<lparr>lastbucket := l, cal_clock := etime (ev e)\<rparr>)"
    by (rule Calendar_head_law [OF assms])
  obtain e' s3 where d: "Calendar_deque ev s = Inr (Some e', s3)" "cal_order ev s = e' # cal_order ev s3"
    "\<forall>x \<in> set (all_events s). etime (ev e') \<le> etime (ev x)"
    using Calendar_deque_law [OF assms] by blast
  have "r = Some e'" "s' = s\<lparr>lastbucket := l, cal_clock := etime (ev e)\<rparr>" using h el d(1) by auto
  with h(1,2) d(2,3) show ?thesis by (simp add: cal_members_def cal_order_def all_events_def)
qed

definition demo_cal_ev :: events where
  "demo_cal_ev a = \<lparr>ehandler = 7, etime = (if a = 3 then 9 else 2), euid = int a\<rparr>"

lemma demo_cal_ev_simps: "etime (demo_cal_ev a) = (if a = 3 then 9 else 2)" "euid (demo_cal_ev a) = int a"
  by (simp_all add: demo_cal_ev_def)

definition demo_cal :: CalendarScheduler where
  "demo_cal = \<lparr>width = 1, diff0 = 2, diff1 = 3, diff2 = 4, stat_qsize = 2, nbuckets = 4, lastbucket = 2,
     top_threshold = 8, bot_threshold = 0,
     buckets = [\<lparr>list_of = [], b_count = 0\<rparr>, \<lparr>list_of = [3], b_count = 1\<rparr>, \<lparr>list_of = [5, 4], b_count = 1\<rparr>, \<lparr>list_of = [], b_count = 0\<rparr>],
     cal_qsize = 3, cal_clock = 2\<rparr>"

lemma demo_cal_inv: "cal_inv demo_cal_ev demo_cal"
proof -
  have "bucket_ok demo_cal_ev 1 4 i (buckets demo_cal ! i)" if "i < 4" for i
  proof -
    have "i = 0 \<or> i = Suc 0 \<or> i = 2 \<or> i = 3" using that by linarith
    then show ?thesis
      by (elim disjE) (simp_all add: demo_cal_def bucket_ok_def demo_cal_ev_simps bucket_of_def day_def times_def)
  qed
  then show ?thesis
    by (simp add: cal_inv_def cal_body_def cal_shape_def all_events_def demo_cal_def demo_cal_ev_simps bucket_of_def day_def)
qed

theorem calendar_head_finds_first_witness:
  "\<exists>s'. Calendar_head demo_cal_ev demo_cal = Inr (Some 5, s')"
proof -
  have "all_events demo_cal \<noteq> []" by (simp add: all_events_def demo_cal_def)
  from calendar_head_finds_first [OF demo_cal_inv this]
  have "\<exists>s'. Calendar_head demo_cal_ev demo_cal = Inr (Some (hd (cal_order demo_cal_ev demo_cal)), s')" by blast
  moreover have "hd (cal_order demo_cal_ev demo_cal) = 5"
    by (simp add: cal_order_def all_events_def demo_cal_def demo_cal_ev_simps sort_key_def)
  ultimately show ?thesis by simp
qed

text \<open>C15. Resizing, to any number of buckets and with the width taken from the fullest one, neither
  aborts nor loses nor reorders an event, and leaves the invariant of the buckets.\<close>

theorem calendar_resize_keeps_order:
  assumes "cal_inv ev s" and "0 < newsize"
  shows "\<exists>s'. resize ev newsize (cal_clock s) s = Inr s' \<and> cal_inv ev s'
    \<and> mset (all_events s') = mset (all_events s) \<and> cal_order ev s' = cal_order ev s"
proof -
  have "cal_body ev s" "0 \<le> cal_clock s" using assms(1) by (auto simp: cal_inv_def)
  from resize_law [OF this(1) assms(2) this(2)] obtain s' where
    s': "resize ev newsize (cal_clock s) s = Inr s'" "cal_body ev s'" "mset (all_events s') = mset (all_events s)"
    "cal_order ev s' = cal_order ev s" "cal_clock s' = cal_clock s"
    "lastbucket s' = bucket_of (width s') (nbuckets s') (cal_clock s)" by blast
  then have "cal_inv ev s'" using assms(1) mset_eq_setD [OF s'(3)] by (auto simp: cal_inv_def)
  with s' show ?thesis by blast
qed

theorem calendar_resize_keeps_order_witness:
  "\<exists>s'. resize demo_cal_ev 8 2 demo_cal = Inr s' \<and> cal_inv demo_cal_ev s'"
proof -
  have "cal_clock demo_cal = 2" by (simp add: demo_cal_def)
  with calendar_resize_keeps_order [OF demo_cal_inv, of 8] show ?thesis by auto
qed

lemma new_CalendarScheduler_inv:
  obtains q where "new_CalendarScheduler SCHED_START = Inr q" "cal_inv ev q" "all_events q = []"
proof -
  obtain q where q: "new_CalendarScheduler SCHED_START = Inr q" "cal_body ev q" "all_events q = []" "cal_clock q = SCHED_START"
    "width q = 1" "nbuckets q = 4" "lastbucket q = bucket_of 1 4 SCHED_START"
    using reinit_law [of 1 4 SCHED_START _ ev] unfolding new_CalendarScheduler_def SCHED_START_def by fastforce
  then show thesis by (intro that [of q]) (simp_all add: cal_inv_def SCHED_START_def)
qed

text \<open>C8. The list and the calendar scheduler run simulations alike, whatever calls fill them and whatever the handlers do, as long as events are
  made and scheduled only while they are not queued, with a handler and with a delay that is not negative (\<open>calls_ok\<close>, \<open>handler_ok\<close>), and no event
  has a number at first: from an empty queue of
  each filled by the same calls, they dispatch the same events at the same times in the same order,
  and the handlers and events end in the same state; or both stop with the same error. The source accepts a
  negative delay with a warning; then the calendar can write before its buckets where the list does not.\<close>

theorem calendar_runs_like_list:
  assumes "handler_ok ListScheduler_ops handle"
    and "calls_ok ListScheduler_ops calls (new_Scheduler ev [])" and "\<forall>a. euid (ev a) \<le> 0"
    and "foldE (exec_call ListScheduler_ops) calls (new_Scheduler ev []) = Inr s"
  shows "\<exists>q s'. new_CalendarScheduler SCHED_START = Inr q
    \<and> foldE (exec_call CalendarScheduler_ops) calls (new_Scheduler ev q) = Inr s'
    \<and> ((\<exists>F F'. run ListScheduler_ops handle n \<lparr>sched = s, world = w, trace = []\<rparr> = Inr F
          \<and> run CalendarScheduler_ops handle n \<lparr>sched = s', world = w, trace = []\<rparr> = Inr F'
          \<and> trace F' = trace F \<and> world F' = world F \<and> events (sched F') = events (sched F)
          \<and> clock (sched F') = clock (sched F))
       \<or> (\<exists>err. run ListScheduler_ops handle n \<lparr>sched = s, world = w, trace = []\<rparr> = Inl err
          \<and> run CalendarScheduler_ops handle n \<lparr>sched = s', world = w, trace = []\<rparr> = Inl err))"
proof -
  obtain q where q: "new_CalendarScheduler SCHED_START = Inr q" "cal_inv ev q" "all_events q = []" by (rule new_CalendarScheduler_inv)
  have "list_calendar.agree (new_Scheduler ev []) (new_Scheduler ev q)"
    using assms(3) q by (auto simp: list_calendar.agree_def sched_inv_def new_Scheduler_def
      list_inv_def list_order_def cal_order_def SCHED_START_def not_less)
  from list_calendar.runs_alike [OF this assms(1,2,4), of n w] q(1) show ?thesis by blast
qed

theorem calendar_runs_like_list_witness:
  "\<exists>q s F. new_CalendarScheduler SCHED_START = Inr q
    \<and> foldE (exec_call CalendarScheduler_ops) demo_calls (new_Scheduler demo_events q) = Inr s
    \<and> run CalendarScheduler_ops demo_handler 4 \<lparr>sched = s, world = 1, trace = []\<rparr> = Inr F \<and> trace F = [(2, 1, 1), (5, 1, 2), (2, 3, 3)]"
proof -
  obtain s F where s: "foldE (exec_call ListScheduler_ops) demo_calls (new_Scheduler demo_events []) = Inr s"
    "run ListScheduler_ops demo_handler 4 \<lparr>sched = s, world = 1, trace = []\<rparr> = Inr F" "trace F = [(2, 1, 1), (5, 1, 2), (2, 3, 3)]"
    by (rule demo_sim)
  from calendar_runs_like_list [OF demo_handler_ok demo_calls_ok demo_events_idle s(1), of 4 1] s(2,3) show ?thesis by auto
qed

text \<open>\<^verbatim>\<open>schedule\<close> only warns of a negative delay, but the hash of a negative time is negative: an event
  scheduled into a new calendar between one and four seconds before the start is written before the array of buckets. The
  list takes it.\<close>

theorem negative_delay_leaves_buckets:
  assumes "new_CalendarScheduler SCHED_START = Inr q" and "h \<noteq> 0" and "euid (ev e) \<le> 0" and "-4 < d" and "d \<le> -1"
  shows "schedule CalendarScheduler_ops h e d (new_Scheduler ev q) = Inl BufferOverflow
    \<and> (\<exists>s. schedule ListScheduler_ops h e d (new_Scheduler ev []) = Inr s)"
proof -
  have q: "width q = 1" "nbuckets q = 4"
    using assms(1) by (auto simp: new_CalendarScheduler_def reinit_def Let_def bindE_eq_Inr)
  have "\<lfloor>- d / 4\<rfloor> = 0" "1 \<le> \<lfloor>- d\<rfloor>" using assms(4,5) by (simp_all add: floor_eq_iff le_floor_iff)
  then have "CALENDAR_HASH 1 4 d < 0" using assms(5) by (simp add: CALENDAR_HASH_def fmod_def trunc_def)
  with q assms show ?thesis
    by (simp add: schedule_def Let_def new_Scheduler_def SCHED_START_def CalendarScheduler_ops_def ListScheduler_ops_def
      Calendar_insert_def hash_index_def)
qed

theorem negative_delay_leaves_buckets_witness:
  "\<exists>q. new_CalendarScheduler SCHED_START = Inr q
    \<and> schedule CalendarScheduler_ops 7 2 (-3) (new_Scheduler demo_events q) = Inl BufferOverflow"
proof -
  obtain q where "new_CalendarScheduler SCHED_START = Inr q" by (rule new_CalendarScheduler_inv)
  with negative_delay_leaves_buckets [OF this, of 7 demo_events 2 "-3"] show ?thesis by (simp add: demo_events_def)
qed

end
