(* ===== verification/Ns_RealTime.thy ===== *)
theory Ns_RealTime
  imports Ns_Calendar
begin

text \<open>
  The real time scheduler, \<^verbatim>\<open>RealTimeScheduler\<close> of \<^verbatim>\<open>ns2-gea/ns-2/common/scheduler.cc\<close>: a
  calendar scheduler whose clock is the time of day since the start.

  The answers of \<^verbatim>\<open>gettimeofday\<close> are the sequence \<open>tv\<close> of seconds and microseconds, of which
  \<open>reads\<close> have been taken; what a pending event of the Tcl interpreter does in
  \<^verbatim>\<open>Tcl_DoOneEvent\<close> is the function \<open>tcl\<close>, which answers like a handler with the scheduler
  operations it calls. The warnings and the calls of \<^verbatim>\<open>Tcl_WaitForEvent\<close> are the history
  \<open>outputs\<close>; \<open>due\<close> is the history of the dispatched events with the time each was due and the
  clock at which it was dispatched.

  The clock runs ahead of the events here, so the invariant of the other schedulers, in which no event
  is due before the clock, does not hold. It does hold of the time at which the last dispatched event
  was due: the lemmas apply the facts on \<open>sched_inv\<close> to the scheduler with its clock set back to
  that time, for which the calls are made with delays that are longer by the difference.
\<close>

section \<open>The scheduler\<close>

datatype rt_output = SlopWarning double double double double | WaitForever | WaitFor int int

record ('q, 'w) rt =
  rsim :: "('q, 'w) sim"
  slop :: double
  start :: double
  reads :: nat
  outputs :: "rt_output list"
  due :: "(eaddr \<times> double \<times> double) list"

type_synonym timevals = "nat \<Rightarrow> int \<times> int"
type_synonym 'w tcl_events = "double \<Rightarrow> events \<Rightarrow> 'w \<Rightarrow> 'w \<times> sched_call list"

text \<open>\<^verbatim>\<open>maxslop_\<close> is bound to \<^verbatim>\<open>slop_\<close> by the Tcl library.\<close>

definition new_RealTimeScheduler :: "double \<Rightarrow> ('q, 'w) sim \<Rightarrow> ('q, 'w) rt" where
  "new_RealTimeScheduler maxslop S =
     \<lparr>rsim = S, slop = maxslop, start = 0, reads = 0, outputs = [], due = []\<rparr>"

abbreviation rsched :: "('q, 'w) rt \<Rightarrow> 'q Scheduler" where
  "rsched R \<equiv> sched (rsim R)"

definition set_rsched :: "'q Scheduler \<Rightarrow> ('q, 'w) rt \<Rightarrow> ('q, 'w) rt" where
  "set_rsched s R = R\<lparr>rsim := (rsim R)\<lparr>sched := s\<rparr>\<rparr>"

definition seconds :: "int \<times> int \<Rightarrow> double" where
  "seconds t = of_int (fst t) + 1 / 10 ^ 6 * of_int (snd t)"

definition tod :: "timevals \<Rightarrow> ('q, 'w) rt \<Rightarrow> double \<times> ('q, 'w) rt" where
  "tod tv R = (seconds (tv (reads R)) - start R, R\<lparr>reads := Suc (reads R)\<rparr>)"

text \<open>\<^verbatim>\<open>clock_ = tod()\<close>.\<close>

definition rt_sync :: "timevals \<Rightarrow> ('q, 'w) rt \<Rightarrow> ('q, 'w) rt" where
  "rt_sync tv R = (let (t, R1) = tod tv R in set_rsched ((rsched R1)\<lparr>clock := t\<rparr>) R1)"

definition rt_reset :: "timevals \<Rightarrow> ('q, 'w) rt \<Rightarrow> ('q, 'w) rt" where
  "rt_reset tv R =
     (let R1 = set_rsched ((rsched R)\<lparr>clock := SCHED_START\<rparr>) R; (t, R2) = tod tv R1
      in R2\<lparr>start := t\<rparr>)"

definition rt_head :: "'q ops \<Rightarrow> ('q, 'w) rt \<Rightarrow> (eaddr option \<times> ('q, 'w) rt) result" where
  "rt_head ops R =
     bindE (op_head ops (events (rsched R)) (queue (rsched R)))
       (\<lambda>(p, q). Inr (p, set_rsched ((rsched R)\<lparr>queue := q\<rparr>) R))"

text \<open>\<^verbatim>\<open>dispatch(deque(), clock_)\<close>.\<close>

definition rt_dispatch :: "'q ops \<Rightarrow> 'w handler \<Rightarrow> ('q, 'w) rt \<Rightarrow> ('q, 'w) rt result" where
  "rt_dispatch ops handle R =
     bindE (deque ops (rsched R)) (\<lambda>(p, s). case p of
         None \<Rightarrow> Inl NullPointer
       | Some e \<Rightarrow> bindE (dispatch ops handle e (clock s) ((rsim R)\<lparr>sched := s\<rparr>))
           (\<lambda>S. Inr (R\<lparr>rsim := S, due := due R @ [(e, etime (events s e), clock s)]\<rparr>)))"

text \<open>The loop over the old events. The result says whether \<^verbatim>\<open>run\<close> is to return, and is
  otherwise the event the loop stopped at.\<close>

fun old_events ::
    "'q ops \<Rightarrow> timevals \<Rightarrow> 'w handler \<Rightarrow> nat \<Rightarrow> eaddr option \<Rightarrow> ('q, 'w) rt
      \<Rightarrow> (bool \<times> eaddr option \<times> ('q, 'w) rt) result" where
  "old_events ops tv handle 0 p R = Inl OutOfFuel"
| "old_events ops tv handle (Suc n) p R =
     (case p of
        None \<Rightarrow> Inr (False, None, R)
      | Some e \<Rightarrow>
          if etime (events (rsched R) e) \<le> clock (rsched R) then
            bindE (rt_dispatch ops handle R) (\<lambda>R1.
              if halted (rsched R1) then Inr (True, None, R1)
              else bindE (rt_head ops R1) (\<lambda>(p', R2). old_events ops tv handle n p' (rt_sync tv R2)))
          else Inr (False, p, R))"

definition slop_check :: "eaddr option \<Rightarrow> ('q, 'w) rt \<Rightarrow> ('q, 'w) rt" where
  "slop_check p R =
     (case p of
        None \<Rightarrow> R
      | Some e \<Rightarrow> let t = etime (events (rsched R) e); c = clock (rsched R) in
          if c - t > slop R then R\<lparr>outputs := outputs R @ [SlopWarning (c - t) (slop R) c t]\<rparr> else R)"

definition RTSCHEDULER_MINWAIT :: double where
  "RTSCHEDULER_MINWAIT = 1 / 10 ^ 3"

text \<open>\<^verbatim>\<open>long(d)\<close> cuts the fraction off; it is taken of positive values only.\<close>

definition wait_time :: "double \<Rightarrow> int \<times> int" where
  "wait_time diff = (let sec = \<lfloor>diff\<rfloor> in (sec, \<lfloor>10 ^ 6 * (diff - of_int sec)\<rfloor>))"

definition rt_wait :: "timevals \<Rightarrow> eaddr option \<Rightarrow> ('q, 'w) rt \<Rightarrow> ('q, 'w) rt" where
  "rt_wait tv p R =
     (case p of
        None \<Rightarrow> rt_sync tv (R\<lparr>outputs := outputs R @ [WaitForever]\<rparr>)
      | Some e \<Rightarrow> let diff = etime (events (rsched R) e) - clock (rsched R) in
          if diff > RTSCHEDULER_MINWAIT
          then let (sec, usec) = wait_time diff in rt_sync tv (R\<lparr>outputs := outputs R @ [WaitFor sec usec]\<rparr>)
          else R)"

text \<open>\<^verbatim>\<open>Tcl_DoOneEvent(TCL_DONT_WAIT)\<close>.\<close>

definition do_one_event :: "'q ops \<Rightarrow> 'w tcl_events \<Rightarrow> ('q, 'w) rt \<Rightarrow> ('q, 'w) rt result" where
  "do_one_event ops tcl R =
     (let (w, calls) = tcl (clock (rsched R)) (events (rsched R)) (world (rsim R)) in
      bindE (foldE (exec_call ops) calls (rsched R))
        (\<lambda>s. Inr (R\<lparr>rsim := (rsim R)\<lparr>sched := s, world := w\<rparr>\<rparr>)))"

fun rt_run ::
    "'q ops \<Rightarrow> timevals \<Rightarrow> 'w handler \<Rightarrow> 'w tcl_events \<Rightarrow> nat \<Rightarrow> ('q, 'w) rt \<Rightarrow> ('q, 'w) rt result" where
  "rt_run ops tv handle tcl 0 R = Inl OutOfFuel"
| "rt_run ops tv handle tcl (Suc n) R =
     (if halted (rsched R) then Inr R
      else bindE (rt_head ops (rt_sync tv R)) (\<lambda>(p, R1).
        bindE (old_events ops tv handle n p (slop_check p R1)) (\<lambda>(ret, p', R2).
          if ret then Inr R2
          else bindE (do_one_event ops tcl (rt_wait tv p' R2)) (rt_run ops tv handle tcl n))))"

text \<open>The Tcl command \<^verbatim>\<open>run\<close>.\<close>

definition rt_command_run ::
    "'q ops \<Rightarrow> timevals \<Rightarrow> 'w handler \<Rightarrow> 'w tcl_events \<Rightarrow> nat \<Rightarrow> ('q, 'w) rt \<Rightarrow> ('q, 'w) rt result" where
  "rt_command_run ops tv handle tcl n R = rt_run ops tv handle tcl n (rt_reset tv R)"

section \<open>Calls made late\<close>

text \<open>A call at clock \<open>c\<close> does what the call with a delay longer by \<open>c - L\<close> does at clock \<open>L\<close>.\<close>

primrec later :: "double \<Rightarrow> sched_call \<Rightarrow> sched_call" where
  "later d (NewEvent a) = NewEvent a"
| "later d (Schedule h a x) = Schedule h a (d + x)"
| "later d (Cancel a) = Cancel a"
| "later d Halt = Halt"

lemma call_ok_later: "call_ok c s \<Longrightarrow> 0 \<le> d \<Longrightarrow> call_ok (later d c) (s\<lparr>clock := L\<rparr>)"
  by (cases c) auto

lemma exec_call_clock: "exec_call ops c s = Inr s' \<Longrightarrow> clock s' = clock s"
  by (cases c) (auto simp: schedule_def cancel_def Let_def bindE_eq_Inr split: if_splits)

lemma exec_call_later:
  "exec_call ops (later (clock s - L) c) (s\<lparr>clock := L\<rparr>) =
     bindE (exec_call ops c s) (\<lambda>s'. Inr (s'\<lparr>clock := L\<rparr>))"
proof (cases c)
  case (Schedule h a d)
  have "L + (clock s - L + d) = clock s + d" by simp
  then show ?thesis using Schedule
    by (cases "op_insert ops ((events s)(a := (events s a)\<lparr>euid := s_uid s, ehandler := h, etime := clock s + d\<rparr>)) a (queue s)")
      (simp_all add: schedule_def Let_def)
next
  case (Cancel a)
  then show ?thesis by (cases "op_cancel ops (events s) a (queue s)") (auto simp: cancel_def)
qed simp_all

lemma calls_ok_later:
  "calls_ok ops cs s \<Longrightarrow> L \<le> clock s \<Longrightarrow> calls_ok ops (map (later (clock s - L)) cs) (s\<lparr>clock := L\<rparr>)"
proof (induction cs arbitrary: s)
  case (Cons c cs)
  then have first: "call_ok (later (clock s - L) c) (s\<lparr>clock := L\<rparr>)" by (simp add: call_ok_later)
  show ?case
  proof (cases "exec_call ops c s")
    case (Inr s')
    with Cons.prems have "calls_ok ops cs s'" "clock s' = clock s" using exec_call_clock by auto
    with Cons.IH [of s'] first Inr Cons.prems(2) exec_call_later [of ops s L c] show ?thesis by simp
  qed (use first exec_call_later [of ops s L c] in simp)
qed simp

lemma foldE_later:
  "foldE (exec_call ops) (map (later (clock s - L)) cs) (s\<lparr>clock := L\<rparr>) =
     bindE (foldE (exec_call ops) cs s) (\<lambda>s'. Inr (s'\<lparr>clock := L\<rparr>))"
proof (induction cs arbitrary: s)
  case (Cons c cs)
  show ?case
  proof (cases "exec_call ops c s")
    case (Inr s')
    with Cons.IH [of s'] exec_call_later [of ops s L c] exec_call_clock [OF Inr] show ?thesis by simp
  qed (use exec_call_later [of ops s L c] in simp)
qed simp

lemma foldE_clock: "foldE (exec_call ops) cs s = Inr s' \<Longrightarrow> clock s' = clock s"
  by (induction cs arbitrary: s) (auto simp: bindE_eq_Inr dest: exec_call_clock)

section \<open>The invariant\<close>

text \<open>\<open>L\<close> is the time at which the last dispatched event was due: none in the queue is due earlier.
  The clock is between \<open>L\<close> and every later reading.\<close>

definition rt_inv ::
    "(events \<Rightarrow> 'q \<Rightarrow> bool) \<Rightarrow> ('q \<Rightarrow> eaddr set) \<Rightarrow> timevals \<Rightarrow> double \<Rightarrow> ('q, 'w) rt \<Rightarrow> bool" where
  "rt_inv qinv members tv L R \<longleftrightarrow>
     sched_inv qinv members ((rsched R)\<lparr>clock := L\<rparr>) \<and> L \<le> clock (rsched R)
     \<and> (\<forall>k \<ge> reads R. clock (rsched R) \<le> seconds (tv k) - start R)"

definition clock_forward :: "timevals \<Rightarrow> bool" where
  "clock_forward tv \<longleftrightarrow> (\<forall>j k. j \<le> k \<longrightarrow> seconds (tv j) \<le> seconds (tv k))"

definition tcl_ok :: "'q ops \<Rightarrow> 'w tcl_events \<Rightarrow> bool" where
  "tcl_ok ops tcl \<longleftrightarrow> (\<forall>s w. calls_ok ops (snd (tcl (clock s) (events s) w)) s)"

text \<open>The events of a history were due in this order, between \<open>L\<close> and \<open>L'\<close>, and none was dispatched
  before it was due.\<close>

definition dues_ok :: "double \<Rightarrow> (eaddr \<times> double \<times> double) list \<Rightarrow> double \<Rightarrow> bool" where
  "dues_ok L ds L' \<longleftrightarrow>
     sorted (L # map (\<lambda>(e, d, t). d) ds @ [L']) \<and> (\<forall>(e, d, t) \<in> set ds. d \<le> t)"

lemma dues_ok_Nil [simp]: "dues_ok L [] L' \<longleftrightarrow> L \<le> L'"
  by (simp add: dues_ok_def)

lemma dues_ok_Cons [simp]: "dues_ok L ((e, d, t) # ds) L' \<longleftrightarrow> L \<le> d \<and> d \<le> t \<and> dues_ok d ds L'"
  by (auto simp: dues_ok_def)

lemma dues_ok_le: "dues_ok L ds L' \<Longrightarrow> L \<le> L'"
  by (simp add: dues_ok_def)

lemma dues_ok_weaken: "dues_ok M es N \<Longrightarrow> L \<le> M \<Longrightarrow> dues_ok L es N"
  by (cases es) auto

lemma dues_ok_append: "dues_ok L ds M \<Longrightarrow> dues_ok M es N \<Longrightarrow> dues_ok L (ds @ es) N"
proof (induction ds arbitrary: L)
  case Nil
  then show ?case using dues_ok_weaken by simp
next
  case (Cons x ds)
  then show ?case by (cases x) simp
qed

lemma set_rsched_simps [simp]:
  "rsched (set_rsched s R) = s" "reads (set_rsched s R) = reads R" "start (set_rsched s R) = start R"
  "due (set_rsched s R) = due R" "world (rsim (set_rsched s R)) = world (rsim R)" "outputs (set_rsched s R) = outputs R"
  by (simp_all add: set_rsched_def)

lemma rt_sync_simps [simp]:
  "rsched (rt_sync tv R) = (rsched R)\<lparr>clock := seconds (tv (reads R)) - start R\<rparr>" "due (rt_sync tv R) = due R"
  "start (rt_sync tv R) = start R" "reads (rt_sync tv R) = Suc (reads R)"
  by (simp_all add: rt_sync_def tod_def set_rsched_def)

lemma slop_check_simps [simp]:
  "rsim (slop_check p R) = rsim R" "due (slop_check p R) = due R" "start (slop_check p R) = start R"
  "reads (slop_check p R) = reads R"
  by (simp_all add: slop_check_def Let_def split: option.split)

lemma rt_inv_sync:
  assumes "rt_inv qinv members tv L R" and "clock_forward tv"
  shows "rt_inv qinv members tv L (rt_sync tv R)"
proof -
  have "clock (rsched R) \<le> seconds (tv (reads R)) - start R" using assms(1) by (simp add: rt_inv_def)
  moreover have "seconds (tv (reads R)) \<le> seconds (tv k)" if "Suc (reads R) \<le> k" for k
    using assms(2) that by (simp add: clock_forward_def)
  ultimately show ?thesis using assms(1) by (auto simp: rt_inv_def)
qed

lemma rt_inv_slop: "rt_inv qinv members tv L (slop_check p R) = rt_inv qinv members tv L R"
  by (simp add: rt_inv_def)

lemma rt_inv_wait:
  assumes "rt_inv qinv members tv L R" and "clock_forward tv"
  shows "rt_inv qinv members tv L (rt_wait tv p R) \<and> due (rt_wait tv p R) = due R"
proof -
  have "rt_inv qinv members tv L (rt_sync tv (R\<lparr>outputs := x\<rparr>))" for x
    by (rule rt_inv_sync [OF _ assms(2)]) (use assms(1) in \<open>simp add: rt_inv_def\<close>)
  with assms(1) show ?thesis by (auto simp: rt_wait_def Let_def split_beta split: option.split)
qed

lemma rt_inv_reset:
  assumes "sched_inv qinv members (rsched R)" and "start R = 0" and "clock_forward tv"
  shows "rt_inv qinv members tv 0 (rt_reset tv R) \<and> due (rt_reset tv R) = due R"
proof -
  have "seconds (tv (reads R)) \<le> seconds (tv k)" if "Suc (reads R) \<le> k" for k
    using assms(3) that by (simp add: clock_forward_def)
  moreover have "sched_inv qinv members ((rsched R)\<lparr>clock := 0\<rparr>)"
    using assms(1) by (auto simp: sched_inv_def intro: order_trans)
  ultimately show ?thesis
    using assms(2) by (auto simp: rt_inv_def rt_reset_def tod_def SCHED_START_def set_rsched_def)
qed

context peekable_queue begin

abbreviation RI :: "timevals \<Rightarrow> double \<Rightarrow> ('a, 'w) rt \<Rightarrow> bool" where
  "RI \<equiv> rt_inv qinv members"

lemma late_calls:
  assumes "SI (s\<lparr>clock := L\<rparr>)" and "L \<le> clock s" and "calls_ok ops cs s"
  shows "foldE (exec_call ops) cs s = Inl uid_exhausted
    \<or> (\<exists>s'. foldE (exec_call ops) cs s = Inr s' \<and> SI (s'\<lparr>clock := L\<rparr>) \<and> clock s' = clock s)"
proof -
  have "calls_ok ops (map (later (clock s - L)) cs) (s\<lparr>clock := L\<rparr>)" by (rule calls_ok_later [OF assms(3,2)])
  from exec_calls_step [OF assms(1) this] show ?thesis
    using foldE_clock [of ops cs s] unfolding foldE_later
    by (cases "foldE (exec_call ops) cs s") auto
qed

lemma rt_head_step:
  assumes "RI tv L R"
  shows "\<exists>p R'. rt_head ops R = Inr (p, R') \<and> RI tv L R' \<and> due R' = due R
    \<and> next_event (events (rsched R')) (members (queue (rsched R'))) p"
proof -
  have q: "qinv (events (rsched R)) (queue (rsched R))" using assms by (simp add: rt_inv_def sched_inv_def)
  obtain r q' q'' where h: "op_head ops (events (rsched R)) (queue (rsched R)) = Inr (r, q')"
    "qinv (events (rsched R)) q'" "members q' = members (queue (rsched R))"
    "op_deque ops (events (rsched R)) (queue (rsched R)) = Inr (r, q'')"
    using head_law [OF q] by blast
  have "next_event (events (rsched R)) (members (queue (rsched R))) r" using deque_law [OF q] h(4) by auto
  with h assms show ?thesis by (auto simp: rt_head_def rt_inv_def sched_inv_def)
qed

lemma rt_dispatch_step:
  assumes ri: "RI tv L R" and ok: "handler_ok ops handle"
    and e: "e \<in> members (queue (rsched R))" "etime (events (rsched R) e) \<le> clock (rsched R)"
  shows "rt_dispatch ops handle R = Inl uid_exhausted
    \<or> (\<exists>R' x d. rt_dispatch ops handle R = Inr R' \<and> RI tv d R' \<and> due R' = due R @ [(x, d, clock (rsched R))]
        \<and> L \<le> d \<and> d \<le> clock (rsched R))"
proof -
  let ?s = "(rsched R)\<lparr>clock := L\<rparr>"
  have si: "SI ?s" and L: "L \<le> clock (rsched R)" using ri by (simp_all add: rt_inv_def)
  obtain r s1 where d: "deque ops ?s = Inr (r, s1)" using deque_total [OF si] by blast
  with deque_empty [OF si] e(1) obtain x where r: "r = Some x"
    by (cases r) (use deque_law [of "events ?s" "queue ?s"] si in
      \<open>auto simp: deque_def sched_inv_def bindE_eq_Inr next_event_def\<close>)
  from deque_step [OF si d [unfolded r]] obtain q' where s1: "s1 = ?s\<lparr>queue := q'\<rparr>" and x: "x \<in> members (queue ?s)"
    and le: "etime (events ?s x) \<le> etime (events ?s e)"
    and si2: "SI (?s\<lparr>queue := q', clock := etime (events ?s x), events := negate_uid x (events ?s)\<rparr>)"
    using e(1) by auto
  let ?d = "etime (events (rsched R) x)"
  let ?s2 = "(rsched R)\<lparr>queue := q', events := negate_uid x (events (rsched R))\<rparr>"
  let ?h = "ehandler (events (rsched R) x)"
  let ?r = "handle ?h x (clock (rsched R)) (events ?s2) (world (rsim R))"
  have x': "0 < euid (events (rsched R) x)" "?h \<noteq> 0" "L \<le> ?d" using si x by (auto simp: sched_inv_def)
  have dq: "deque ops (rsched R) = Inr (Some x, (rsched R)\<lparr>queue := q'\<rparr>)"
    using d r s1 by (auto simp: deque_def bindE_eq_Inr)
  have eq: "?s2\<lparr>clock := ?d\<rparr> = ?s\<lparr>queue := q', clock := ?d, events := negate_uid x (events (rsched R))\<rparr>" by simp
  have "calls_ok ops (snd ?r) ?s2"
    using ok [unfolded handler_ok_def, rule_format, of ?s2 x ?h "world (rsim R)"] x'(1) by simp
  moreover have "SI (?s2\<lparr>clock := ?d\<rparr>)" by (subst eq) (use si2 in simp)
  ultimately have "foldE (exec_call ops) (snd ?r) ?s2 = Inl uid_exhausted
    \<or> (\<exists>s'. foldE (exec_call ops) (snd ?r) ?s2 = Inr s' \<and> SI (s'\<lparr>clock := ?d\<rparr>) \<and> clock s' = clock (rsched R))"
    using late_calls [of ?d ?s2 "snd ?r"] le e(2) by simp
  then show ?thesis
    using dq x' le e(2) ri by (auto simp: rt_dispatch_def dispatch_def Let_def split_beta rt_inv_def)
qed

text \<open>The loop over the old events stops only when nothing in the queue is due.\<close>

lemma old_events_step:
  assumes ok: "handler_ok ops handle" and fw: "clock_forward tv"
  shows "RI tv L R \<Longrightarrow> next_event (events (rsched R)) (members (queue (rsched R))) p \<Longrightarrow>
    (case old_events ops tv handle n p R of
       Inl err \<Rightarrow> err = OutOfFuel \<or> err = uid_exhausted
     | Inr (ret, p', R') \<Rightarrow> \<exists>L' new. RI tv L' R' \<and> due R' = due R @ new \<and> dues_ok L new L' \<and> (ret \<longrightarrow> halted (rsched R'))
         \<and> (\<not> ret \<longrightarrow> next_event (events (rsched R')) (members (queue (rsched R'))) p'
             \<and> (\<forall>x \<in> members (queue (rsched R')). clock (rsched R') < etime (events (rsched R') x))))"
proof (induction n arbitrary: L R p)
  case (Suc n)
  show ?case
  proof (cases "\<exists>e. p = Some e \<and> etime (events (rsched R) e) \<le> clock (rsched R)")
    case False
    then show ?thesis using Suc.prems by (fastforce simp: next_event_def not_le split: option.splits)
  next
    case True
    then obtain e where e: "p = Some e" "etime (events (rsched R) e) \<le> clock (rsched R)" by blast
    then have "e \<in> members (queue (rsched R))" using Suc.prems(2) by (simp add: next_event_def)
    from rt_dispatch_step [OF Suc.prems(1) ok this e(2)] show ?thesis
    proof (elim disjE exE conjE)
      fix R1 x d
      assume R1: "rt_dispatch ops handle R = Inr R1" "RI tv d R1" "due R1 = due R @ [(x, d, clock (rsched R))]"
        "L \<le> d" "d \<le> clock (rsched R)"
      obtain p2 R2 where R2: "rt_head ops R1 = Inr (p2, R2)" "RI tv d R2" "due R2 = due R1"
        "next_event (events (rsched R2)) (members (queue (rsched R2))) p2"
        using rt_head_step [OF R1(2)] by blast
      note IH = Suc.IH [of d "rt_sync tv R2" p2, OF rt_inv_sync [OF R2(2) fw]]
      have longer: "due R' = due R2 @ new \<Longrightarrow> dues_ok d new L' \<Longrightarrow>
          \<exists>new'. due R' = due R @ new' \<and> dues_ok L new' L'" for R' :: "('a, 'b) rt" and new L'
        using R1(3-5) R2(3) by (intro exI [of _ "(x, d, clock (rsched R)) # new"]) simp
      show ?thesis
      proof (cases "halted (rsched R1)")
        case True
        with e R1 show ?thesis by auto
      next
        case False
        then have "old_events ops tv handle (Suc n) p R = old_events ops tv handle n p2 (rt_sync tv R2)"
          using e R1(1) R2(1) by simp
        with IH R2(4) show ?thesis using longer by (fastforce split: sum.splits)
      qed
    qed (use e in simp)
  qed
qed simp

lemma do_one_event_step:
  assumes "RI tv L R" and "tcl_ok ops tcl"
  shows "do_one_event ops tcl R = Inl uid_exhausted
    \<or> (\<exists>R'. do_one_event ops tcl R = Inr R' \<and> RI tv L R' \<and> due R' = due R)"
proof -
  have "calls_ok ops (snd (tcl (clock (rsched R)) (events (rsched R)) (world (rsim R)))) (rsched R)"
    using assms(2) by (simp add: tcl_ok_def)
  from late_calls [OF _ _ this, of L] assms(1) show ?thesis
    by (auto simp: do_one_event_def split_beta rt_inv_def)
qed

lemma rt_run_step:
  assumes ok: "handler_ok ops handle" "tcl_ok ops tcl" and fw: "clock_forward tv"
  shows "RI tv L R \<Longrightarrow>
    (case rt_run ops tv handle tcl n R of
       Inl err \<Rightarrow> err = OutOfFuel \<or> err = uid_exhausted
     | Inr R' \<Rightarrow> halted (rsched R') \<and> (\<exists>L' new. RI tv L' R' \<and> due R' = due R @ new \<and> dues_ok L new L'))"
proof (induction n arbitrary: L R)
  case (Suc n)
  show ?case
  proof (cases "halted (rsched R)")
    case True
    with Suc.prems show ?thesis by auto
  next
    case False
    obtain p R1 where R1: "rt_head ops (rt_sync tv R) = Inr (p, R1)" "RI tv L R1" "due R1 = due R"
      "next_event (events (rsched R1)) (members (queue (rsched R1))) p"
      using rt_head_step [OF rt_inv_sync [OF Suc.prems fw]] by auto
    note old = old_events_step [OF ok(1) fw, of L "slop_check p R1" p n]
    show ?thesis
    proof (cases "old_events ops tv handle n p (slop_check p R1)")
      case (Inl err)
      with old R1 False show ?thesis by (simp add: rt_inv_slop)
    next
      case (Inr r)
      then obtain ret p' R2 where r: "old_events ops tv handle n p (slop_check p R1) = Inr (ret, p', R2)"
        by (cases r) auto
      with old R1 obtain M new where R2: "RI tv M R2" "due R2 = due R @ new" "dues_ok L new M" "ret \<longrightarrow> halted (rsched R2)"
        by (auto simp: rt_inv_slop)
      show ?thesis
      proof (cases ret)
        case True
        with R1(1) r R2 False show ?thesis by auto
      next
        case ret: False
        note wait = rt_inv_wait [OF R2(1) fw, of p']
        from do_one_event_step [OF wait [THEN conjunct1] ok(2)] show ?thesis
        proof (elim disjE exE conjE)
          fix R3 assume R3: "do_one_event ops tcl (rt_wait tv p' R2) = Inr R3" "RI tv M R3"
            "due R3 = due (rt_wait tv p' R2)"
          then have "rt_run ops tv handle tcl (Suc n) R = rt_run ops tv handle tcl n R3"
            using R1(1) r ret False by simp
          moreover have "due R3 = due R @ new" using R3(3) wait R2(2) by simp
          ultimately show ?thesis
            using Suc.IH [OF R3(2)] dues_ok_append [OF R2(3)] by (fastforce split: sum.splits)
        qed (use R1(1) r ret False in simp)
      qed
    qed
  qed
qed simp

end

section \<open>Properties\<close>

text \<open>C14. While the time of day does not go back, the real time scheduler never dispatches an event
  before it is due, dispatches the events in the order in which they are due, although handlers and
  Tcl events go on scheduling and cancelling, and ends only halted, or because the numbers of events
  are used up. The handlers and the Tcl events make and schedule an event only while it is not queued, with a
  handler and with a delay that is not negative (\<open>handler_ok\<close>, \<open>tcl_ok\<close>); an event scheduled into the past,
  which the source only warns about, is dispatched out of this order.\<close>

theorem real_time_order:
  assumes "handler_ok CalendarScheduler_ops handle" and "tcl_ok CalendarScheduler_ops tcl" and "clock_forward tv"
    and "sched_inv cal_inv cal_members (rsched R)" and "start R = 0" and "due R = []"
  shows "case rt_command_run CalendarScheduler_ops tv handle tcl n R of
      Inl err \<Rightarrow> err = OutOfFuel \<or> err = uid_exhausted
    | Inr R' \<Rightarrow> halted (rsched R') \<and> sorted (map (\<lambda>(e, d, t). d) (due R')) \<and> (\<forall>(e, d, t) \<in> set (due R'). d \<le> t)"
proof -
  note r = rt_inv_reset [OF assms(4,5,3)]
  from calendar.rt_run_step [OF assms(1-3) r [THEN conjunct1], of n] r assms(6) show ?thesis
    by (auto simp: rt_command_run_def dues_ok_def sorted_append split: sum.splits)
qed

text \<open>The handler of the example halts at its second call.\<close>

definition demo_stop :: "nat handler" where
  "demo_stop h p t ev w = (Suc w, if w = 0 then [] else [Halt])"

lemma demo_stop_ok: "handler_ok ops demo_stop"
  by (simp add: handler_ok_def demo_stop_def)

lemma calendar_head_is:
  assumes "cal_inv ev q" "e \<in> cal_members q" "\<forall>x \<in> cal_members q - {e}. etime (ev e) < etime (ev x)"
  shows "\<exists>q'. Calendar_head ev q = Inr (Some e, q') \<and> cal_inv ev q' \<and> cal_members q' = cal_members q"
    and "\<exists>q'. Calendar_deque ev q = Inr (Some e, q') \<and> cal_inv ev q' \<and> cal_members q' = cal_members q - {e}"
proof -
  obtain r q1 where d: "Calendar_deque ev q = Inr (r, q1)" "cal_inv ev q1" "cal_members q1 = cal_members q - set_option r"
    "next_event ev (cal_members q) r"
    using calendar.deque_law [OF assms(1)] by (auto simp: CalendarScheduler_ops_def)
  have "r = Some e"
  proof (cases r)
    case (Some a)
    then have "a \<in> cal_members q" "\<not> etime (ev e) < etime (ev a)" using d(4) assms(2) by (auto simp: next_event_def not_less)
    with assms(3) Some show ?thesis by blast
  qed (use d(4) assms(2) in \<open>simp add: next_event_def\<close>)
  with d calendar.head_law [OF assms(1)]
  show "\<exists>q'. Calendar_deque ev q = Inr (Some e, q') \<and> cal_inv ev q' \<and> cal_members q' = cal_members q - {e}"
    "\<exists>q'. Calendar_head ev q = Inr (Some e, q') \<and> cal_inv ev q' \<and> cal_members q' = cal_members q"
    by (auto simp: CalendarScheduler_ops_def)
qed

definition demo_rt_events :: events where
  "demo_rt_events = demo_events(2 := \<lparr>ehandler = 7, etime = 1 / 2, euid = 1\<rparr>, 5 := \<lparr>ehandler = 7, etime = 1 / 4, euid = 2\<rparr>)"

lemma demo_rt_filled:
  obtains q s where "new_CalendarScheduler SCHED_START = Inr q"
    "foldE (exec_call CalendarScheduler_ops) [Schedule 7 2 (1 / 2), Schedule 7 5 (1 / 4)] (new_Scheduler demo_events q) = Inr s"
    "sched_inv cal_inv cal_members s" "cal_members (queue s) = {2, 5}" "events s = demo_rt_events" "clock s = 0" "\<not> halted s"
proof -
  obtain q where q: "new_CalendarScheduler SCHED_START = Inr q" "cal_inv demo_events q" "all_events q = []"
    by (rule new_CalendarScheduler_inv)
  let ?s = "new_Scheduler demo_events q"
  have si: "sched_inv cal_inv cal_members ?s" and m: "cal_members q = {}"
    using calendar.new_Scheduler_inv [OF q(2) _ demo_events_idle] q(3) by (simp_all add: cal_members_def)
  have u: "s_uid ?s = 1" "queue ?s = q" "events ?s = demo_events" "clock ?s = 0" "\<not> halted ?s"
    by (simp_all add: new_Scheduler_def SCHED_START_def)
  obtain t where t: "schedule CalendarScheduler_ops 7 2 (1 / 2) ?s = Inr t" "sched_inv cal_inv cal_members t"
    "cal_members (queue t) = {2}"
    using calendar.schedule_step [OF si, of 7 2 "1 / 2"] u m by (auto simp: demo_events_def)
  then have t': "events t = demo_events(2 := \<lparr>ehandler = 7, etime = 1 / 2, euid = 1\<rparr>)" "s_uid t = 2" "clock t = 0" "\<not> halted t"
    by (auto simp: schedule_def Let_def bindE_eq_Inr u demo_events_def next_uid_def split: if_splits)
  obtain s where s: "schedule CalendarScheduler_ops 7 5 (1 / 4) t = Inr s" "sched_inv cal_inv cal_members s"
    "cal_members (queue s) = {2, 5}"
    using calendar.schedule_step [OF t(2), of 7 5 "1 / 4"] t t' by (auto simp: demo_events_def)
  then have "events s = demo_rt_events" "clock s = 0" "\<not> halted s"
    by (auto simp: schedule_def Let_def bindE_eq_Inr t' demo_events_def next_uid_def demo_rt_events_def split: if_splits)
  with q(1) t(1) s show thesis by (intro that [of q s]) simp_all
qed
definition demo_rt :: "CalendarScheduler Scheduler \<Rightarrow> (CalendarScheduler, nat) rt" where
  "demo_rt s = new_RealTimeScheduler (1 / 100) \<lparr>sched = s, world = 0, trace = []\<rparr>"

definition demo_tcl :: "nat tcl_events" where
  "demo_tcl t ev w = (w, [Halt])"

definition demo_tv :: timevals where
  "demo_tv k = (1000 + int k, 0)"

lemma demo_tcl_ok: "tcl_ok ops demo_tcl"
  by (simp add: tcl_ok_def demo_tcl_def)

lemma demo_tv_forward: "clock_forward demo_tv"
  by (simp add: clock_forward_def demo_tv_def seconds_def)

theorem real_time_order_witness:
  "\<exists>q s R'. new_CalendarScheduler SCHED_START = Inr q
    \<and> foldE (exec_call CalendarScheduler_ops) [Schedule 7 2 (1 / 2), Schedule 7 5 (1 / 4)] (new_Scheduler demo_events q) = Inr s
    \<and> rt_command_run CalendarScheduler_ops demo_tv demo_stop demo_tcl 3 (demo_rt s) = Inr R'
    \<and> due R' = [(5, 1 / 4, 1), (2, 1 / 2, 2)] \<and> halted (rsched R') \<and> sorted (map (\<lambda>(e, d, t). d) (due R'))"
proof -
  obtain q s where s: "new_CalendarScheduler SCHED_START = Inr q"
    "foldE (exec_call CalendarScheduler_ops) [Schedule 7 2 (1 / 2), Schedule 7 5 (1 / 4)] (new_Scheduler demo_events q) = Inr s"
    "sched_inv cal_inv cal_members s" "cal_members (queue s) = {2, 5}" "events s = demo_rt_events" "clock s = 0" "\<not> halted s"
    by (rule demo_rt_filled)
  let ?ev = demo_rt_events and ?ev' = "negate_uid 5 demo_rt_events"
  have time: "etime (?ev 5) = 1 / 4" "etime (?ev 2) = 1 / 2" "ehandler (?ev 5) = 7" "ehandler (?ev 2) = 7"
    by (simp_all add: demo_rt_events_def)
  have "cal_inv ?ev (queue s)" using s(3,5) by (simp add: sched_inv_def)
  moreover have two: "{2, 5} - {5} = {2 :: eaddr}" by auto
  ultimately
  obtain q1 where q1: "Calendar_head ?ev (queue s) = Inr (Some 5, q1)" "cal_inv ?ev q1" "cal_members q1 = {2, 5}"
    using calendar_head_is(1) [of ?ev "queue s" 5] s(4) two time by auto
  from calendar_head_is(2) [OF q1(2), of 5] q1(3) two time
  obtain q2 where q2: "Calendar_deque ?ev q1 = Inr (Some 5, q2)" "cal_inv ?ev q2" "cal_members q2 = {2}" by auto
  have "same_on (cal_members q2) ?ev ?ev'" using q2(3) by (simp add: same_on_def)
  then have "cal_inv ?ev' q2" by (rule calendar.inv_cong [OF q2(2)])
  from calendar_head_is(1) [OF this, of 2] q2(3)
  obtain q3 where q3: "Calendar_head ?ev' q2 = Inr (Some 2, q3)" "cal_inv ?ev' q3" "cal_members q3 = {2}" by auto
  from calendar_head_is(2) [OF q3(2), of 2] q3(3)
  obtain q4 where q4: "Calendar_deque ?ev' q3 = Inr (Some 2, q4)" by auto
  have init: "start (demo_rt s) = 0" "due (demo_rt s) = []" "sched_inv cal_inv cal_members (rsched (demo_rt s))"
    using s(3) by (simp_all add: demo_rt_def new_RealTimeScheduler_def)
  have "\<exists>R'. rt_command_run CalendarScheduler_ops demo_tv demo_stop demo_tcl 3 (demo_rt s) = Inr R'
      \<and> due R' = [(5, 1 / 4, 1), (2, 1 / 2, 2)]"
    using s(5-7) q1(1) q2(1) q3(1) q4 time by (simp add: rt_command_run_def eval_nat_numeral rt_head_def CalendarScheduler_ops_def demo_rt_def
      new_RealTimeScheduler_def rt_reset_def tod_def rt_sync_def set_rsched_def slop_check_def rt_dispatch_def deque_def dispatch_def
      demo_stop_def demo_tv_def seconds_def Let_def)
  with real_time_order [OF demo_stop_ok demo_tcl_ok demo_tv_forward init(3,1,2), of 3] s(1,2) show ?thesis by auto
qed

text \<open>Before the real time scheduler waits it has caught up: when the loop over the old events
  ends without a halt, every event still in the queue is due later than the last reading of the
  clock, and the event the wait is measured by is the first of them.\<close>

theorem real_time_catches_up:
  assumes "handler_ok CalendarScheduler_ops handle" and "clock_forward tv" and "rt_inv cal_inv cal_members tv L R"
    and "next_event (events (rsched R)) (cal_members (queue (rsched R))) p"
    and "old_events CalendarScheduler_ops tv handle n p R = Inr (False, p', R')"
  shows "(\<forall>x \<in> cal_members (queue (rsched R')). clock (rsched R') < etime (events (rsched R') x))
    \<and> next_event (events (rsched R')) (cal_members (queue (rsched R'))) p'"
  using calendar.old_events_step [OF assms(1-4), of n] assms(5) by auto

text \<open>The wait for the next event ends at most a microsecond before it is due and never after, for
  any event more than a millisecond away.\<close>

theorem real_time_wait_bound:
  assumes "etime (events (rsched R) e) - clock (rsched R) > RTSCHEDULER_MINWAIT"
  shows "\<exists>sec usec. outputs (rt_wait tv (Some e) R) = outputs R @ [WaitFor sec usec] \<and> 0 \<le> sec \<and> 0 \<le> usec \<and> usec < 10 ^ 6
    \<and> clock (rsched R) + seconds (sec, usec) \<le> etime (events (rsched R) e)
    \<and> etime (events (rsched R) e) < clock (rsched R) + seconds (sec, usec) + 1 / 10 ^ 6"
proof -
  define d where "d = etime (events (rsched R) e) - clock (rsched R)"
  define sec usec where "sec = \<lfloor>d\<rfloor>" and "usec = \<lfloor>10 ^ 6 * (d - of_int sec)\<rfloor>"
  have "0 < d" using assms by (simp add: d_def RTSCHEDULER_MINWAIT_def)
  then have sec: "0 \<le> sec" "of_int sec \<le> d" "d < of_int sec + 1" by (simp_all add: sec_def) linarith+
  then have frac: "0 \<le> 10 ^ 6 * (d - of_int sec)" "10 ^ 6 * (d - of_int sec) < 10 ^ 6" by simp_all
  then have usec: "0 \<le> usec" "usec < 10 ^ 6" "of_int usec \<le> 10 ^ 6 * (d - of_int sec)"
    "10 ^ 6 * (d - of_int sec) < of_int usec + 1"
    unfolding usec_def by (simp_all add: floor_less_iff) linarith+
  have "outputs (rt_wait tv (Some e) R) = outputs R @ [WaitFor sec usec]"
    using assms by (simp add: rt_wait_def wait_time_def Let_def d_def sec_def usec_def rt_sync_def tod_def set_rsched_def)
  moreover have "of_int sec + of_int usec / 10 ^ 6 \<le> d" "d < of_int sec + of_int usec / 10 ^ 6 + 1 / 10 ^ 6"
    using usec(3,4) by (simp_all add: field_simps)
  ultimately show ?thesis using sec(1) usec(1,2)
    by (intro exI [of _ sec] exI [of _ usec]) (simp add: seconds_def d_def)
qed

definition demo_rt_list :: "(eaddr list, nat) rt" where
  "demo_rt_list = new_RealTimeScheduler 0
     \<lparr>sched = new_Scheduler (\<lambda>a. \<lparr>ehandler = 7, etime = 5 / 2, euid = 1\<rparr>) [3], world = 0, trace = []\<rparr>"

theorem real_time_wait_bound_witness:
  "\<exists>sec usec. outputs (rt_wait demo_tv (Some 3) demo_rt_list) = [WaitFor sec usec] \<and> 0 \<le> sec \<and> 0 \<le> usec \<and> usec < 10 ^ 6
    \<and> seconds (sec, usec) \<le> 5 / 2 \<and> 5 / 2 < seconds (sec, usec) + 1 / 10 ^ 6"
  using real_time_wait_bound [of demo_rt_list 3 demo_tv]
  by (simp add: demo_rt_list_def new_RealTimeScheduler_def new_Scheduler_def SCHED_START_def RTSCHEDULER_MINWAIT_def)

text \<open>\<^verbatim>\<open>reset\<close> takes the start from \<^verbatim>\<open>tod()\<close>, which is already relative to the previous
  start. The first reset makes the clock count from zero, but a second one, made by a second
  \<^verbatim>\<open>run\<close> command, makes it count from the time of day of the first.\<close>

theorem second_reset_adds_time_of_day:
  assumes "start R = 0"
  shows "clock (rsched (rt_sync tv (rt_reset tv R))) = seconds (tv (Suc (reads R))) - seconds (tv (reads R))
    \<and> clock (rsched (rt_sync tv (rt_reset tv (rt_reset tv R))))
      = (seconds (tv (reads R + 2)) - seconds (tv (reads R + 1))) + seconds (tv (reads R))"
  using assms by (simp add: rt_reset_def tod_def)

theorem second_reset_adds_time_of_day_witness:
  "clock (rsched (rt_sync demo_tv (rt_reset demo_tv (rt_reset demo_tv demo_rt_list)))) = 1001"
  using second_reset_adds_time_of_day [of demo_rt_list demo_tv]
  by (simp add: demo_rt_list_def new_RealTimeScheduler_def demo_tv_def seconds_def)

end
