(* ===== verification/Ns_Heap.thy ===== *)
theory Ns_Heap
  imports Ns_Scheduler "HOL-Library.Product_Lexorder"
begin

text \<open>
  The binary heap of \<^verbatim>\<open>ns2-gea/ns-2/common/heap.h\<close> and \<^verbatim>\<open>scheduler.cc\<close>, and
  \<^verbatim>\<open>HeapScheduler\<close>, which keeps its events in it.

  The array \<^verbatim>\<open>h_elems\<close> is a list of length \<^verbatim>\<open>h_maxsize\<close>; its first \<^verbatim>\<open>h_size\<close>
  entries are the heap. The counter \<^verbatim>\<open>h_s_key\<close> that numbers the insertions is kept at its 32
  bits; indices and sizes are natural numbers, since no array has \<open>2\<^sup>3\<^sup>2\<close> entries here.

  The heap order is on the pairs of key and insertion number. The scheduler is interpreted as an
  event queue; it is first in, first out as long as the counter has not wrapped, and not after.
\<close>

section \<open>The heap\<close>

record Heap_elem =
  he_key :: double
  he_s_key :: nat
  he_elem :: eaddr

record Heap =
  h_elems :: "Heap_elem list"
  h_s_key :: u32
  h_size :: nat
  h_maxsize :: nat
  h_iter :: nat

definition zero_elem :: Heap_elem where
  "zero_elem = \<lparr>he_key = 0, he_s_key = 0, he_elem = 0\<rparr>"

definition new_Heap :: "nat \<Rightarrow> Heap" where
  "new_Heap sz = \<lparr>h_elems = replicate sz zero_elem, h_s_key = 0, h_size = 0, h_maxsize = sz, h_iter = 0\<rparr>"

definition HEAP_DEFAULT_SIZE :: nat where
  "HEAP_DEFAULT_SIZE = 32"

definition parent :: "nat \<Rightarrow> nat" where
  "parent i = (i - 1) div 2"

definition left :: "nat \<Rightarrow> nat" where
  "left i = i * 2 + 1"

definition right :: "nat \<Rightarrow> nat" where
  "right i = (i + 1) * 2"

definition swap :: "nat \<Rightarrow> nat \<Rightarrow> Heap_elem list \<Rightarrow> Heap_elem list" where
  "swap i j es = es[i := es ! j, j := es ! i]"

definition KEY_LESS_THAN :: "double \<Rightarrow> nat \<Rightarrow> double \<Rightarrow> nat \<Rightarrow> bool" where
  "KEY_LESS_THAN k1 ks1 k2 ks2 \<longleftrightarrow> k1 < k2 \<or> k1 = k2 \<and> ks1 < ks2"

definition elem_less :: "Heap_elem \<Rightarrow> Heap_elem \<Rightarrow> bool" where
  "elem_less a b = KEY_LESS_THAN (he_key a) (he_s_key a) (he_key b) (he_s_key b)"

definition heap_min :: "Heap \<Rightarrow> eaddr option" where
  "heap_min h = (if h_size h > 0 then Some (he_elem (h_elems h ! 0)) else None)"

definition heap_iter_init :: "Heap \<Rightarrow> eaddr option \<times> Heap" where
  "heap_iter_init h = (heap_min h, h\<lparr>h_iter := 1\<rparr>)"

definition heap_iter :: "Heap \<Rightarrow> eaddr option \<times> Heap" where
  "heap_iter h =
     (if h_iter h \<ge> h_size h then (None, h\<lparr>h_iter := 0\<rparr>)
      else (Some (he_elem (h_elems h ! h_iter h)), h\<lparr>h_iter := h_iter h + 1\<rparr>))"

text \<open>\<^verbatim>\<open>heap_member\<close> returns the index plus one, or 0.\<close>

fun heap_member_from :: "eaddr \<Rightarrow> nat \<Rightarrow> Heap_elem list \<Rightarrow> nat" where
  "heap_member_from e i [] = 0"
| "heap_member_from e i (he # hes) = (if he_elem he = e then i + 1 else heap_member_from e (i + 1) hes)"

definition heap_member :: "eaddr \<Rightarrow> Heap \<Rightarrow> nat" where
  "heap_member e h = heap_member_from e 0 (take (h_size h) (h_elems h))"

text \<open>The loop of \<^verbatim>\<open>heap_insert\<close>: move the entries on the way up down until the place of the
  new key is found.\<close>

function sift_up :: "double \<Rightarrow> nat \<Rightarrow> nat \<Rightarrow> Heap_elem list \<Rightarrow> nat \<times> Heap_elem list" where
  "sift_up key s_key i es =
     (if 0 < i \<and> KEY_LESS_THAN key s_key (he_key (es ! parent i)) (he_s_key (es ! parent i))
      then sift_up key s_key (parent i) (es[i := es ! parent i])
      else (i, es))"
  by pat_completeness auto
termination by (relation "measure (\<lambda>(_, _, i, _). i)") (auto simp: parent_def)

declare sift_up.simps [simp del]

definition heap_insert :: "double \<Rightarrow> eaddr \<Rightarrow> Heap \<Rightarrow> Heap" where
  "heap_insert key elem h =
     (let es0 = (if h_maxsize h = h_size h then h_elems h @ replicate (h_maxsize h) zero_elem else h_elems h);
          maxsize = (if h_maxsize h = h_size h then h_maxsize h * 2 else h_maxsize h);
          (i, es) = sift_up key (unat (h_s_key h)) (h_size h) es0
      in h\<lparr>h_elems := es[i := \<lparr>he_key = key, he_s_key = unat (h_s_key h), he_elem = elem\<rparr>],
           h_s_key := h_s_key h + 1, h_size := h_size h + 1, h_maxsize := maxsize\<rparr>)"

text \<open>The loop of \<^verbatim>\<open>heap_extract_min\<close> labelled \<^verbatim>\<open>Heapify\<close>.\<close>

definition min_child :: "nat \<Rightarrow> nat \<Rightarrow> Heap_elem list \<Rightarrow> nat" where
  "min_child n i es =
     (if right i < n then if elem_less (es ! left i) (es ! right i) then left i else right i
      else if left i < n then left i else i)"

function heapify :: "nat \<Rightarrow> nat \<Rightarrow> Heap_elem list \<Rightarrow> Heap_elem list" where
  "heapify n i es =
     (if i < n then
        let x = min_child n i es in
        if x \<noteq> i \<and> elem_less (es ! x) (es ! i) then heapify n x (swap i x es) else es
      else es)"
  by pat_completeness auto
termination
  by (relation "measure (\<lambda>(n, i, _). n - i)")
    (auto simp: min_child_def left_def right_def split: if_splits)

declare heapify.simps [simp del]

definition heap_extract_min :: "Heap \<Rightarrow> eaddr option \<times> Heap" where
  "heap_extract_min h =
     (if h_size h = 0 then (None, h)
      else
        let n = h_size h - 1 in
        (Some (he_elem (h_elems h ! 0)),
         h\<lparr>h_size := n, h_elems := heapify n 0 ((h_elems h)[0 := h_elems h ! n])\<rparr>))"

text \<open>The loop of \<^verbatim>\<open>heap_delete\<close>: swap the entry up to the root.\<close>

function swap_to_root :: "nat \<Rightarrow> Heap_elem list \<Rightarrow> Heap_elem list" where
  "swap_to_root i es = (if i = 0 then es else swap_to_root (parent i) (swap i (parent i) es))"
  by pat_completeness auto
termination by (relation "measure fst") (auto simp: parent_def)

declare swap_to_root.simps [simp del]

definition heap_delete :: "eaddr \<Rightarrow> Heap \<Rightarrow> bool \<times> Heap" where
  "heap_delete e h =
     (let i = heap_member e h in
      if i = 0 then (False, h)
      else (True, snd (heap_extract_min (h\<lparr>h_elems := swap_to_root (i - 1) (h_elems h)\<rparr>))))"

section \<open>The heap scheduler\<close>

definition HeapScheduler_insert :: "events \<Rightarrow> eaddr \<Rightarrow> Heap \<Rightarrow> Heap" where
  "HeapScheduler_insert ev e hp = heap_insert (etime (ev e)) e hp"

definition HeapScheduler_cancel :: "events \<Rightarrow> eaddr \<Rightarrow> Heap \<Rightarrow> events \<times> Heap" where
  "HeapScheduler_cancel ev e hp =
     (if euid (ev e) \<le> 0 then (ev, hp) else (negate_uid e ev, snd (heap_delete e hp)))"

text \<open>The loop of \<^verbatim>\<open>lookup\<close> over \<^verbatim>\<open>heap_iter\<close> ends after at most \<^verbatim>\<open>h_size\<close> rounds.\<close>

function iter_lookup :: "events \<Rightarrow> uid \<Rightarrow> eaddr option \<times> Heap \<Rightarrow> eaddr option \<times> Heap" where
  "iter_lookup ev u (None, hp) = (None, hp)"
| "iter_lookup ev u (Some e, hp) =
     (if euid (ev e) = u then (Some e, hp) else iter_lookup ev u (heap_iter hp))"
  by pat_completeness auto
termination
  by (relation "measure (\<lambda>(_, _, e, hp). (case e of None \<Rightarrow> 0 | Some _ \<Rightarrow> Suc (h_size hp - h_iter hp)))")
    (auto simp: heap_iter_def split: option.splits)

definition HeapScheduler_lookup :: "events \<Rightarrow> uid \<Rightarrow> Heap \<Rightarrow> eaddr option \<times> Heap" where
  "HeapScheduler_lookup ev u hp = iter_lookup ev u (heap_iter_init hp)"

definition HeapScheduler_deque :: "Heap \<Rightarrow> eaddr option \<times> Heap" where
  "HeapScheduler_deque hp = heap_extract_min hp"

definition HeapScheduler_head :: "Heap \<Rightarrow> eaddr option" where
  "HeapScheduler_head hp = heap_min hp"

definition HeapScheduler_ops :: "Heap ops" where
  "HeapScheduler_ops =
     \<lparr>op_cancel = \<lambda>ev e q. Inr (HeapScheduler_cancel ev e q),
      op_insert = \<lambda>ev e q. Inr (HeapScheduler_insert ev e q),
      op_lookup = \<lambda>ev u q. Inr (HeapScheduler_lookup ev u q),
      op_deque = \<lambda>ev q. Inr (HeapScheduler_deque q),
      op_head = \<lambda>ev q. Inr (HeapScheduler_head q, q)\<rparr>"

section \<open>The heap order\<close>

definition hk :: "Heap_elem \<Rightarrow> double \<times> nat" where
  "hk e = (he_key e, he_s_key e)"

lemma elem_less_hk: "elem_less a b \<longleftrightarrow> hk a < hk b"
  by (auto simp: elem_less_def KEY_LESS_THAN_def hk_def less_prod_simp)

lemma KEY_LESS_THAN_hk: "KEY_LESS_THAN (he_key a) (he_s_key a) (he_key b) (he_s_key b) \<longleftrightarrow> hk a < hk b"
  using elem_less_hk by (simp add: elem_less_def)

definition heap_ord :: "nat \<Rightarrow> Heap_elem list \<Rightarrow> bool" where
  "heap_ord n es \<longleftrightarrow> (\<forall>j < n. 0 < j \<longrightarrow> hk (es ! parent j) \<le> hk (es ! j))"

text \<open>The order everywhere but between \<open>i\<close> and its children, between \<open>i\<close> and its parent, or on both
  sides of \<open>i\<close>; the children of \<open>i\<close> are in order with the parent of \<open>i\<close>.\<close>

definition over :: "nat \<Rightarrow> nat \<Rightarrow> Heap_elem list \<Rightarrow> bool" where
  "over i n es \<longleftrightarrow> (\<forall>j < n. 0 < j \<longrightarrow> parent j = i \<longrightarrow> 0 < i \<longrightarrow> hk (es ! parent i) \<le> hk (es ! j))"

definition ord_down :: "nat \<Rightarrow> nat \<Rightarrow> Heap_elem list \<Rightarrow> bool" where
  "ord_down i n es \<longleftrightarrow> over i n es \<and> (\<forall>j < n. 0 < j \<longrightarrow> parent j \<noteq> i \<longrightarrow> hk (es ! parent j) \<le> hk (es ! j))"

definition ord_up :: "nat \<Rightarrow> nat \<Rightarrow> Heap_elem list \<Rightarrow> bool" where
  "ord_up i n es \<longleftrightarrow> over i n es \<and> (\<forall>j < n. 0 < j \<longrightarrow> j \<noteq> i \<longrightarrow> hk (es ! parent j) \<le> hk (es ! j))"

definition ord_around :: "nat \<Rightarrow> nat \<Rightarrow> Heap_elem list \<Rightarrow> bool" where
  "ord_around i n es \<longleftrightarrow> over i n es
     \<and> (\<forall>j < n. 0 < j \<longrightarrow> j \<noteq> i \<longrightarrow> parent j \<noteq> i \<longrightarrow> hk (es ! parent j) \<le> hk (es ! j))"

lemma parent_less: "0 < i \<Longrightarrow> parent i < i"
  by (auto simp: parent_def)

lemma parent_children [simp]: "parent (left i) = i" "parent (right i) = i" "0 < left i" "0 < right i"
    "i < left i" "i < right i"
  by (auto simp: parent_def left_def right_def)

lemma child_cases: "0 < j \<Longrightarrow> parent j = i \<Longrightarrow> j = left i \<or> j = right i"
  by (auto simp: parent_def left_def right_def)

lemma nth_swap:
  "i < length es \<Longrightarrow> j < length es \<Longrightarrow>
    swap i j es ! k = (if k = j then es ! i else if k = i then es ! j else es ! k)"
  by (auto simp: swap_def nth_list_update)

lemma length_swap [simp]: "length (swap i j es) = length es"
  by (simp add: swap_def)

lemma mset_take_swap:
  assumes "i < n" "j < n" "n \<le> length es"
  shows "mset (take n (swap i j es)) = mset (take n es)"
  using mset_swap [of j "take n es" i] assms by (simp add: swap_def take_update_swap min_def)

lemma root_min: "heap_ord n es \<Longrightarrow> j < n \<Longrightarrow> hk (es ! 0) \<le> hk (es ! j)"
proof (induction j rule: less_induct)
  case (less j)
  show ?case
  proof (cases "j = 0")
    case False
    with less parent_less [of j] have "hk (es ! 0) \<le> hk (es ! parent j)" by simp
    also have "\<dots> \<le> hk (es ! j)" using less.prems False by (simp add: heap_ord_def)
    finally show ?thesis .
  qed simp
qed

lemma children_all:
  "(\<forall>j < n. 0 < j \<longrightarrow> parent j = i \<longrightarrow> P j) \<longleftrightarrow> (left i < n \<longrightarrow> P (left i)) \<and> (right i < n \<longrightarrow> P (right i))"
  using child_cases [of _ i] by (metis parent_children(1-4))

lemma min_child_cases:
  "min_child n i es = i \<and> (\<forall>j < n. 0 < j \<longrightarrow> parent j = i \<longrightarrow> False)
   \<or> min_child n i es \<noteq> i \<and> min_child n i es < n \<and> parent (min_child n i es) = i \<and> 0 < min_child n i es
     \<and> (\<forall>j < n. 0 < j \<longrightarrow> parent j = i \<longrightarrow> hk (es ! min_child n i es) \<le> hk (es ! j))"
proof -
  have "left i < right i" "left i \<noteq> i" "right i \<noteq> i" by (simp_all add: left_def right_def)
  then show ?thesis
    unfolding children_all by (auto simp: min_child_def elem_less_hk not_less)
qed

lemma heapify_step:
  assumes od: "ord_down i n es" and n: "n \<le> length es" "i < n"
    and x: "x < n" "parent x = i" "0 < x" "\<forall>j < n. 0 < j \<longrightarrow> parent j = i \<longrightarrow> hk (es ! x) \<le> hk (es ! j)"
    and less: "hk (es ! x) < hk (es ! i)"
  shows "ord_down x n (swap i x es)"
proof -
  have ne: "x \<noteq> i" "parent x \<noteq> x" using parent_less [of x] x by auto
  note sw = nth_swap [of i es x]
  have lens: "i < length es" "x < length es" using n x by auto
  have "hk (swap i x es ! parent j) \<le> hk (swap i x es ! j)" if j: "j < n" "0 < j" "parent j \<noteq> x" for j
  proof (cases "j = i")
    case True
    then have "hk (es ! parent i) \<le> hk (es ! x)" "parent i < i"
      using od x j parent_less [of i] by (auto simp: ord_down_def over_def)
    with True x ne j show ?thesis by (auto simp: sw lens)
  next
    case False
    show ?thesis
    proof (cases "parent j = i")
      case True
      with False x j less show ?thesis by (auto simp: sw lens)
    next
      case par: False
      then have "j \<noteq> x" using x by auto
      with False par j od show ?thesis by (auto simp: sw lens ord_down_def)
    qed
  qed
  moreover have "hk (swap i x es ! parent x) \<le> hk (swap i x es ! j)" if j: "j < n" "0 < j" "parent j = x" for j
  proof -
    have "j \<noteq> i" "j \<noteq> x" using parent_less [of j] parent_less [of x] j x by auto
    with j x ne od show ?thesis by (auto simp: sw lens ord_down_def)
  qed
  ultimately show ?thesis by (auto simp: ord_down_def over_def)
qed

lemma heapify_ord:
  "n \<le> length es \<Longrightarrow> ord_down i n es \<Longrightarrow> i < n \<or> n = 0 \<Longrightarrow>
    heap_ord n (heapify n i es) \<and> length (heapify n i es) = length es
    \<and> mset (take n (heapify n i es)) = mset (take n es)"
proof (induction n i es rule: heapify.induct)
  case (1 n i es)
  show ?case
  proof (cases "i < n")
    case True
    let ?x = "min_child n i es"
    show ?thesis
    proof (cases "?x \<noteq> i \<and> elem_less (es ! ?x) (es ! i)")
      case sw: True
      then have x: "?x < n" "parent ?x = i" "0 < ?x" "\<forall>j < n. 0 < j \<longrightarrow> parent j = i \<longrightarrow> hk (es ! ?x) \<le> hk (es ! j)"
        using min_child_cases [of n i es] by auto
      have "ord_down ?x n (swap i ?x es)"
        using heapify_step [OF "1.prems"(2,1) True x] sw by (simp add: elem_less_hk)
      with "1.IH" [OF True refl sw] "1.prems"(1) x(1) sw True show ?thesis
        by (subst (1 2 3) heapify.simps) (simp add: Let_def mset_take_swap)
    next
      case stop: False
      have "heap_ord n es"
        unfolding heap_ord_def
      proof (intro allI impI)
        fix j assume j: "j < n" "0 < j"
        show "hk (es ! parent j) \<le> hk (es ! j)"
        proof (cases "parent j = i")
          case par: True
          then have "?x \<noteq> i" "hk (es ! ?x) \<le> hk (es ! j)"
            using min_child_cases [of n i es] j parent_less [of j] by auto
          with stop par show ?thesis by (auto simp: elem_less_hk)
        qed (use "1.prems"(2) j in \<open>simp add: ord_down_def\<close>)
      qed
      with True stop show ?thesis by (subst (1 2 3) heapify.simps) (auto simp: Let_def)
    qed
  next
    case False
    with "1.prems" show ?thesis by (subst (1 2 3) heapify.simps) (simp add: heap_ord_def)
  qed
qed

lemma sift_up_step:
  assumes ou: "ord_up i n (es[i := e])" and n: "n \<le> length es" "i < n" and i: "0 < i"
    and less: "hk e < hk (es ! parent i)"
  shows "ord_up (parent i) n (es[i := es ! parent i, parent i := e])"
proof -
  let ?p = "parent i" and ?fs = "es[i := es ! parent i, parent i := e]"
  have p: "?p < i" "?p < n" using parent_less [OF i] n by auto
  have nth: "?fs ! k = (if k = ?p then e else if k = i then es ! ?p else es ! k)" for k
    using p n by (auto simp: nth_list_update)
  have old: "hk (es ! parent j) \<le> hk (es ! j)" if "j < n" "0 < j" "j \<noteq> i" "parent j \<noteq> i" for j
    using ou that by (auto simp: ord_up_def)
  have kids: "hk (es ! ?p) \<le> hk (es ! j)" if "j < n" "0 < j" "parent j = i" for j
    using ou that i p parent_less [of j] by (auto simp: ord_up_def over_def)
  have "hk (?fs ! parent j) \<le> hk (?fs ! j)" if j: "j < n" "0 < j" "j \<noteq> ?p" for j
  proof (cases "j = i")
    case True
    with less p show ?thesis by (auto simp: nth)
  next
    case False
    have "parent j \<noteq> j" using parent_less [of j] j by auto
    show ?thesis
    proof (cases "parent j = ?p")
      case True
      with old [of j] False j p less show ?thesis by (auto simp: nth)
    next
      case par: False
      with False j old [of j] kids [of j] show ?thesis by (auto simp: nth)
    qed
  qed
  moreover have "hk (?fs ! parent ?p) \<le> hk (?fs ! j)" if j: "j < n" "0 < j" "parent j = ?p" "0 < ?p" for j
  proof -
    have pp: "parent ?p < ?p" using parent_less j by simp
    then have "hk (es ! parent ?p) \<le> hk (es ! ?p)" using old [of ?p] p j by auto
    moreover have "j \<noteq> i \<Longrightarrow> hk (es ! ?p) \<le> hk (es ! j)" using old [of j] j p by auto
    ultimately show ?thesis using pp p j parent_less [of j] by (auto simp: nth intro: order_trans)
  qed
  ultimately show ?thesis by (auto simp: ord_up_def over_def)
qed

lemma sift_up_ord:
  "n \<le> length es \<Longrightarrow> i < n \<Longrightarrow> ord_up i n (es[i := e]) \<Longrightarrow> sift_up (he_key e) (he_s_key e) i es = (i', fs) \<Longrightarrow>
    heap_ord n (fs[i' := e]) \<and> length fs = length es \<and> mset (take n (fs[i' := e])) = mset (take n (es[i := e]))"
proof (induction "he_key e" "he_s_key e" i es arbitrary: i' fs rule: sift_up.induct)
  case (1 i es)
  let ?p = "parent i"
  show ?case
  proof (cases "0 < i \<and> hk e < hk (es ! ?p)")
    case True
    then have p: "?p < i" using parent_less by simp
    have up: "ord_up ?p n ((es[i := es ! ?p])[?p := e])"
      using sift_up_step [OF "1.prems"(3,1,2)] True by simp
    have "es[i := es ! ?p, ?p := e] = swap i ?p (es[i := e])"
      using p "1.prems" by (auto simp: swap_def)
    then have "mset (take n (es[i := es ! ?p, ?p := e])) = mset (take n (es[i := e]))"
      using p "1.prems" by (simp add: mset_take_swap)
    moreover have "sift_up (he_key e) (he_s_key e) ?p (es[i := es ! ?p]) = (i', fs)"
      using True "1.prems"(4) by (subst (asm) sift_up.simps) (simp add: KEY_LESS_THAN_hk)
    moreover have "0 < i \<and> KEY_LESS_THAN (he_key e) (he_s_key e) (he_key (es ! ?p)) (he_s_key (es ! ?p))"
      using True by (simp add: KEY_LESS_THAN_hk)
    ultimately show ?thesis
      using "1.hyps" [OF _ _ _ up] "1.prems" p by auto
  next
    case False
    with "1.prems"(4) have res: "i' = i" "fs = es"
      by (subst (asm) sift_up.simps, simp add: KEY_LESS_THAN_hk split: if_splits)+
    have "hk (es[i := e] ! parent j) \<le> hk (es[i := e] ! j)" if "j < n" "0 < j" for j
    proof (cases "j = i")
      case True
      with False that "1.prems"(1,2) parent_less [of i] show ?thesis by auto
    qed (use "1.prems"(3) that in \<open>auto simp: ord_up_def\<close>)
    with res show ?thesis by (auto simp: heap_ord_def)
  qed
qed

lemma swap_to_root_step:
  assumes oa: "ord_around i n es" and n: "n \<le> length es" "i < n" and i: "0 < i"
  shows "ord_around (parent i) n (swap i (parent i) es)"
proof -
  let ?p = "parent i" and ?fs = "swap i (parent i) es"
  have p: "?p < i" "?p < n" using parent_less [OF i] n by auto
  have nth: "?fs ! k = (if k = ?p then es ! i else if k = i then es ! ?p else es ! k)" for k
    using p n by (simp add: nth_swap)
  have old: "hk (es ! parent j) \<le> hk (es ! j)" if "j < n" "0 < j" "j \<noteq> i" "parent j \<noteq> i" for j
    using oa that by (auto simp: ord_around_def)
  have kids: "hk (es ! ?p) \<le> hk (es ! j)" if "j < n" "0 < j" "parent j = i" for j
    using oa that i by (auto simp: ord_around_def over_def)
  have "hk (?fs ! parent j) \<le> hk (?fs ! j)" if j: "j < n" "0 < j" "j \<noteq> ?p" "parent j \<noteq> ?p" for j
    using j old [of j] kids [of j] parent_less [of j] by (auto simp: nth)
  moreover have "hk (?fs ! parent ?p) \<le> hk (?fs ! j)" if j: "j < n" "0 < j" "parent j = ?p" "0 < ?p" for j
  proof -
    have pp: "parent ?p < ?p" using parent_less j by simp
    then have "hk (es ! parent ?p) \<le> hk (es ! ?p)" using old [of ?p] p j by auto
    moreover have "j \<noteq> i \<Longrightarrow> hk (es ! ?p) \<le> hk (es ! j)" using old [of j] j p by auto
    ultimately show ?thesis using pp p j parent_less [of j] by (auto simp: nth intro: order_trans)
  qed
  ultimately show ?thesis by (auto simp: ord_around_def over_def)
qed

lemma swap_to_root_ord:
  "n \<le> length es \<Longrightarrow> i < n \<Longrightarrow> ord_around i n es \<Longrightarrow>
    ord_down 0 n (swap_to_root i es) \<and> length (swap_to_root i es) = length es
    \<and> mset (take n (swap_to_root i es)) = mset (take n es) \<and> swap_to_root i es ! 0 = es ! i"
proof (induction i es rule: swap_to_root.induct)
  case (1 i es)
  show ?case
  proof (cases "i = 0")
    case True
    with 1 show ?thesis by (subst (1 2 3 4) swap_to_root.simps) (auto simp: ord_around_def ord_down_def parent_def)
  next
    case False
    then have p: "parent i < i" using parent_less by simp
    with 1 False show ?thesis
      using swap_to_root_step [of i n es]
      by (subst (1 2 3 4) swap_to_root.simps) (simp add: mset_take_swap nth_swap)
  qed
qed

lemma heap_ord_around: "heap_ord n es \<Longrightarrow> i < n \<Longrightarrow> ord_around i n es"
proof -
  assume ho: "heap_ord n es" "i < n"
  have "hk (es ! parent i) \<le> hk (es ! j)" if "j < n" "0 < j" "parent j = i" "0 < i" for j
  proof -
    have "hk (es ! parent i) \<le> hk (es ! i)" using ho that by (auto simp: heap_ord_def)
    also have "\<dots> \<le> hk (es ! j)" using ho that by (auto simp: heap_ord_def)
    finally show ?thesis .
  qed
  with ho show ?thesis by (auto simp: ord_around_def over_def heap_ord_def)
qed

section \<open>What the operations do to the contents\<close>

text \<open>The entries of the heap, the invariant of its representation, and the two together with the
  store for the scheduler.\<close>

definition entries :: "Heap \<Rightarrow> Heap_elem list" where
  "entries h = take (h_size h) (h_elems h)"

definition heap_shape :: "Heap \<Rightarrow> bool" where
  "heap_shape h \<longleftrightarrow> length (h_elems h) = h_maxsize h \<and> h_size h \<le> h_maxsize h \<and> 0 < h_maxsize h"

definition heap_wf :: "Heap \<Rightarrow> bool" where
  "heap_wf h \<longleftrightarrow> heap_shape h \<and> heap_ord (h_size h) (h_elems h)"

definition heap_inv :: "events \<Rightarrow> Heap \<Rightarrow> bool" where
  "heap_inv ev h \<longleftrightarrow> heap_wf h \<and> distinct (map he_elem (entries h))
     \<and> (\<forall>x \<in> set (entries h). he_key x = etime (ev (he_elem x)))"

definition heap_members :: "Heap \<Rightarrow> eaddr set" where
  "heap_members h = he_elem ` set (entries h)"

lemma heap_insert_wf:
  assumes wf: "heap_wf h"
  shows "heap_wf (heap_insert key e h)
    \<and> mset (entries (heap_insert key e h))
        = add_mset \<lparr>he_key = key, he_s_key = unat (h_s_key h), he_elem = e\<rparr> (mset (entries h))"
proof -
  let ?n = "h_size h"
  define x where "x = \<lparr>he_key = key, he_s_key = unat (h_s_key h), he_elem = e\<rparr>"
  define es where "es = (if h_maxsize h = h_size h then h_elems h @ replicate (h_maxsize h) zero_elem else h_elems h)"
  have len: "Suc ?n \<le> length es" "length es = (if h_maxsize h = h_size h then h_maxsize h * 2 else h_maxsize h)"
    and tk: "take ?n es = entries h"
    using wf by (auto simp: heap_wf_def heap_shape_def es_def entries_def)
  have same: "es ! j = h_elems h ! j" if "j < ?n" for j
    using that wf by (auto simp: es_def nth_append heap_wf_def heap_shape_def)
  have par: "parent j < ?n" if "j \<le> ?n" "0 < j" for j using that parent_less [of j] by simp
  have "hk (es[?n := x] ! parent j) \<le> hk (es[?n := x] ! j)" if "j < Suc ?n" "0 < j" "j \<noteq> ?n" for j
    using that par [of j] wf same [of j] same [of "parent j"] by (simp add: heap_wf_def heap_ord_def)
  moreover have "parent j \<noteq> ?n" if "j < Suc ?n" "0 < j" for j using that par [of j] by simp
  ultimately have up: "ord_up ?n (Suc ?n) (es[?n := x])" by (auto simp: ord_up_def over_def)
  obtain i fs where s: "sift_up (he_key x) (he_s_key x) ?n es = (i, fs)" by fastforce
  note r = sift_up_ord [OF len(1) _ up s, simplified]
  have "take (Suc ?n) (es[?n := x]) = entries h @ [x]"
    using len(1) tk take_Suc_conv_app_nth [of ?n "es[?n := x]"] by simp
  then have ms: "mset (take (Suc ?n) (fs[i := x])) = add_mset x (mset (entries h))"
    using r by simp
  have res: "heap_insert key e h = h\<lparr>h_elems := fs[i := x], h_s_key := h_s_key h + 1, h_size := Suc ?n, h_maxsize := length es\<rparr>"
    using s len(2) unfolding x_def es_def by (simp add: heap_insert_def Let_def)
  then have "heap_wf (heap_insert key e h)"
    using r len(1) by (auto simp: heap_wf_def heap_shape_def)
  with ms res show ?thesis by (simp add: entries_def x_def)
qed

text \<open>Taking the root away, whether it is the smallest entry or not.\<close>

lemma remove_root_mset:
  assumes "0 < n" "n \<le> length es"
  shows "add_mset (es ! 0) (mset (take (n - 1) (es[0 := es ! (n - 1)]))) = mset (take n es)"
proof -
  obtain m where n: "n = Suc m" using assms by (cases n) auto
  have tk: "take n es = take m es @ [es ! m]" using assms n by (simp add: take_Suc_conv_app_nth)
  show ?thesis
  proof (cases "m = 0")
    case False
    then have "take m es ! 0 = es ! 0" "0 < length (take m es)" using assms n by auto
    then have "es ! 0 \<in># mset (take m es)" by (metis nth_mem set_mset_mset)
    with False n tk assms show ?thesis by (simp add: take_update_swap mset_update)
  qed (use n tk in simp)
qed

lemma heap_extract_wf:
  assumes sh: "heap_shape h" and od: "ord_down 0 (h_size h) (h_elems h)" and n: "0 < h_size h"
  shows "heap_wf (snd (heap_extract_min h)) \<and> fst (heap_extract_min h) = Some (he_elem (h_elems h ! 0))
    \<and> add_mset (h_elems h ! 0) (mset (entries (snd (heap_extract_min h)))) = mset (entries h)
    \<and> h_s_key (snd (heap_extract_min h)) = h_s_key h"
proof -
  let ?n = "h_size h - 1" and ?es = "(h_elems h)[0 := h_elems h ! (h_size h - 1)]"
  have len: "?n \<le> length ?es" using sh by (auto simp: heap_shape_def)
  have "ord_down 0 ?n ?es"
    using od n unfolding ord_down_def over_def by (auto simp: nth_list_update)
  from heapify_ord [OF len this] neq0_conv have "heap_ord ?n (heapify ?n 0 ?es) \<and> length (heapify ?n 0 ?es) = length ?es
    \<and> mset (take ?n (heapify ?n 0 ?es)) = mset (take ?n ?es)" by blast
  with remove_root_mset [OF n, of "h_elems h"] sh n show ?thesis
    by (auto simp: heap_extract_min_def Let_def heap_wf_def heap_shape_def entries_def)
qed

lemma heap_ord_down: "heap_ord n es \<Longrightarrow> ord_down 0 n es"
  by (auto simp: heap_ord_def ord_down_def over_def)

lemma heap_member_from_spec:
  "e \<in> he_elem ` set xs \<Longrightarrow>
    \<exists>i < length xs. heap_member_from e k xs = Suc (k + i) \<and> he_elem (xs ! i) = e"
proof (induction xs arbitrary: k)
  case (Cons x xs)
  show ?case
  proof (cases "he_elem x = e")
    case False
    with Cons.prems Cons.IH [of "Suc k"] obtain i where "i < length xs"
      "heap_member_from e (Suc k) xs = Suc (Suc k + i)" "he_elem (xs ! i) = e" by auto
    with False show ?thesis by (intro exI [of _ "Suc i"]) simp
  qed auto
qed simp

lemma heap_member_from_none: "e \<notin> he_elem ` set xs \<Longrightarrow> heap_member_from e k xs = 0"
  by (induction xs arbitrary: k) auto

lemma heap_delete_wf:
  assumes wf: "heap_wf h" and e: "e \<in> heap_members h"
  obtains x where "heap_wf (snd (heap_delete e h))" "fst (heap_delete e h)" "he_elem x = e"
    "add_mset x (mset (entries (snd (heap_delete e h)))) = mset (entries h)"
    "h_s_key (snd (heap_delete e h)) = h_s_key h"
proof -
  let ?n = "h_size h"
  have sh: "heap_shape h" "heap_ord ?n (h_elems h)" and len: "?n \<le> length (h_elems h)"
    using wf by (auto simp: heap_wf_def heap_shape_def)
  obtain i where i: "i < ?n" "heap_member e h = Suc i" "he_elem (h_elems h ! i) = e"
    using heap_member_from_spec [of e "entries h" 0] e len
    by (auto simp: heap_members_def heap_member_def entries_def)
  let ?h = "h\<lparr>h_elems := swap_to_root i (h_elems h)\<rparr>"
  note sr = swap_to_root_ord [OF len i(1) heap_ord_around [OF sh(2) i(1)]]
  have "heap_shape ?h" "ord_down 0 (h_size ?h) (h_elems ?h)" "0 < h_size ?h"
    using sh(1) sr i(1) by (auto simp: heap_shape_def)
  note ex = heap_extract_wf [OF this]
  have "heap_delete e h = (True, snd (heap_extract_min ?h))"
    using i(2) by (simp add: heap_delete_def)
  with ex sr i(3) show thesis
    by (intro that [of "h_elems h ! i"]) (auto simp: entries_def)
qed

section \<open>The heap scheduler keeps the contract\<close>

lemma heap_inv_mset:
  assumes "heap_inv ev h" "heap_wf h'" "add_mset x (mset (entries h')) = mset (entries h)"
  shows "heap_inv ev h'" "heap_members h' = heap_members h - {he_elem x}" "he_elem x \<in> heap_members h"
    "he_key x = etime (ev (he_elem x))"
proof -
  have st: "set (entries h) = insert x (set (entries h'))"
    using assms(3) by (metis set_mset_add_mset_insert set_mset_mset)
  have "mset (map he_elem (entries h)) = mset (map he_elem (x # entries h'))"
    using assms(3) by (metis mset.simps(2) mset_map)
  then have "distinct (map he_elem (x # entries h'))"
    using assms(1) mset_eq_imp_distinct_iff unfolding heap_inv_def by blast
  with st assms(1,2) show "heap_inv ev h'" "heap_members h' = heap_members h - {he_elem x}"
    "he_elem x \<in> heap_members h" "he_key x = etime (ev (he_elem x))"
    by (auto simp: heap_inv_def heap_members_def)
qed

lemma heap_insert_law:
  assumes inv: "heap_inv ev h" and e: "e \<notin> heap_members h"
  shows "heap_inv ev (HeapScheduler_insert ev e h) \<and> heap_members (HeapScheduler_insert ev e h) = insert e (heap_members h)"
proof -
  let ?h = "heap_insert (etime (ev e)) e h" and ?x = "\<lparr>he_key = etime (ev e), he_s_key = unat (h_s_key h), he_elem = e\<rparr>"
  have wf: "heap_wf ?h" and ms: "mset (entries ?h) = mset (?x # entries h)"
    using heap_insert_wf [of h] inv by (auto simp: heap_inv_def)
  have st: "set (entries ?h) = insert ?x (set (entries h))" using mset_eq_setD [OF ms] by simp
  have "mset (map he_elem (entries ?h)) = mset (map he_elem (?x # entries h))" using ms by (metis mset_map)
  then have "distinct (map he_elem (entries ?h)) \<longleftrightarrow> distinct (map he_elem (?x # entries h))"
    by (rule mset_eq_imp_distinct_iff)
  with wf st inv e show ?thesis
    by (auto simp: heap_inv_def heap_members_def HeapScheduler_insert_def)
qed

lemma heap_deque_law:
  assumes inv: "heap_inv ev h"
  shows "\<exists>r h'. heap_extract_min h = (r, h') \<and> heap_inv ev h' \<and> heap_members h' = heap_members h - set_option r
    \<and> next_event ev (heap_members h) r \<and> heap_min h = r"
proof (cases "h_size h = 0")
  case True
  with inv show ?thesis
    by (auto simp: heap_extract_min_def heap_members_def entries_def next_event_def heap_min_def)
next
  case False
  let ?x = "h_elems h ! 0"
  have sh: "heap_shape h" "heap_ord (h_size h) (h_elems h)" using inv by (auto simp: heap_inv_def heap_wf_def)
  note ex = heap_extract_wf [OF sh(1) heap_ord_down [OF sh(2)]]
  then have "heap_wf (snd (heap_extract_min h))"
    "add_mset ?x (mset (entries (snd (heap_extract_min h)))) = mset (entries h)" using False by auto
  note law = heap_inv_mset [OF inv this]
  have "etime (ev (he_elem ?x)) \<le> etime (ev (he_elem y))" if "y \<in> set (entries h)" for y
  proof -
    obtain j where "j < h_size h" "y = h_elems h ! j"
      using \<open>y \<in> set (entries h)\<close> sh(1) by (auto simp: entries_def in_set_conv_nth)
    with root_min [OF sh(2)] have "hk ?x \<le> hk y" by blast
    then have "he_key ?x \<le> he_key y" by (auto simp: hk_def less_eq_prod_simp)
    with that inv law(4) show ?thesis by (auto simp: heap_inv_def)
  qed
  then have "next_event ev (heap_members h) (Some (he_elem ?x))"
    using law(3) by (auto simp: next_event_def heap_members_def)
  with law ex False show ?thesis
    by (intro exI [of _ "Some (he_elem ?x)"] exI [of _ "snd (heap_extract_min h)"]) (auto simp: heap_min_def prod_eq_iff)
qed

text \<open>The iterator visits the entries from the second on, after the first.\<close>

lemma iter_lookup_spec:
  assumes "h_iter h \<le> h_size h" "h_size h \<le> length (h_elems h)"
  shows "\<exists>r k. iter_lookup ev u (Some e, h) = (r, h\<lparr>h_iter := k\<rparr>)
    \<and> looked_up ev u (insert e (he_elem ` set (drop (h_iter h) (entries h)))) r"
  using assms
proof (induction "h_size h - h_iter h" arbitrary: e h)
  case 0
  then have "heap_iter h = (None, h\<lparr>h_iter := 0\<rparr>)" "drop (h_iter h) (entries h) = []"
    by (auto simp: heap_iter_def entries_def)
  moreover have "h = h\<lparr>h_iter := h_iter h\<rparr>" by simp
  ultimately show ?case by (cases "euid (ev e) = u") (auto simp: looked_up_insert intro: exI [of _ "h_iter h"])
next
  case (Suc m)
  let ?e = "he_elem (h_elems h ! h_iter h)" and ?h = "h\<lparr>h_iter := h_iter h + 1\<rparr>"
  have it: "heap_iter h = (Some ?e, ?h)" using Suc.hyps(2) by (auto simp: heap_iter_def)
  have "h_iter h < length (entries h)" using Suc.hyps(2) Suc.prems by (simp add: entries_def)
  then have dr: "drop (h_iter h) (entries h) = h_elems h ! h_iter h # drop (Suc (h_iter h)) (entries h)"
    using Suc.hyps(2) by (simp add: Cons_nth_drop_Suc [symmetric] entries_def)
  show ?case
  proof (cases "euid (ev e) = u")
    case True
    moreover have "h = h\<lparr>h_iter := h_iter h\<rparr>" by simp
    ultimately show ?thesis by (auto simp: looked_up_insert intro: exI [of _ "h_iter h"])
  next
    case False
    have "m = h_size ?h - h_iter ?h" "h_iter ?h \<le> h_size ?h" "h_size ?h \<le> length (h_elems ?h)"
      using Suc.hyps(2) Suc.prems by auto
    from Suc.hyps(1) [OF this, of ?e] obtain r k where rk: "iter_lookup ev u (Some ?e, ?h) = (r, ?h\<lparr>h_iter := k\<rparr>)"
      "looked_up ev u (insert ?e (he_elem ` set (drop (h_iter ?h) (entries ?h)))) r" by blast
    have "entries ?h = entries h" by (simp add: entries_def)
    with rk(2) dr False have "looked_up ev u (insert e (he_elem ` set (drop (h_iter h) (entries h)))) r"
      by (simp add: looked_up_insert)
    moreover have "iter_lookup ev u (Some e, h) = (r, h\<lparr>h_iter := k\<rparr>)"
      using False it rk(1) by (simp del: iter_lookup.simps add: iter_lookup.simps(2) [of ev u e])
    ultimately show ?thesis by blast
  qed
qed

lemma entries_first: "0 < h_size h \<Longrightarrow> h_size h \<le> length (h_elems h) \<Longrightarrow> entries h = h_elems h ! 0 # drop 1 (entries h)"
  by (cases "h_elems h"; cases "h_size h") (auto simp: entries_def)

lemma heap_lookup_law:
  assumes inv: "heap_inv ev h"
  shows "\<exists>r k. HeapScheduler_lookup ev u h = (r, h\<lparr>h_iter := k\<rparr>) \<and> looked_up ev u (heap_members h) r"
proof (cases "h_size h = 0")
  case True
  then show ?thesis
    by (auto simp: HeapScheduler_lookup_def heap_iter_init_def heap_min_def heap_members_def entries_def looked_up_insert)
next
  case False
  let ?h = "h\<lparr>h_iter := 1\<rparr>" and ?e = "he_elem (h_elems h ! 0)"
  have len: "h_iter ?h \<le> h_size ?h" "h_size ?h \<le> length (h_elems ?h)"
    using inv False by (auto simp: heap_inv_def heap_wf_def heap_shape_def)
  have ent: "entries h = h_elems h ! 0 # drop 1 (entries h)" using entries_first False len(2) by auto
  have "he_elem ` set (entries h) = insert ?e (he_elem ` set (drop 1 (entries h)))"
    by (subst ent) simp
  then have mem: "heap_members h = insert ?e (he_elem ` set (drop 1 (entries ?h)))"
    by (simp add: heap_members_def entries_def)
  obtain r k where "iter_lookup ev u (Some ?e, ?h) = (r, ?h\<lparr>h_iter := k\<rparr>)"
    "looked_up ev u (insert ?e (he_elem ` set (drop (h_iter ?h) (entries ?h)))) r"
    using iter_lookup_spec [OF len] by blast
  with mem False show ?thesis
    by (auto simp: HeapScheduler_lookup_def heap_iter_init_def heap_min_def)
qed

lemma heap_iter_irrelevant [simp]:
  "heap_inv ev (h\<lparr>h_iter := k\<rparr>) = heap_inv ev h" "heap_members (h\<lparr>h_iter := k\<rparr>) = heap_members h"
  by (auto simp: heap_inv_def heap_wf_def heap_shape_def heap_members_def entries_def)

interpretation heap: event_queue HeapScheduler_ops heap_inv heap_members
proof (unfold_locales, goal_cases)
  case (1 ev q) then show ?case by (simp add: heap_members_def)
next
  case (2 ev q ev') then show ?case by (auto simp: heap_inv_def same_on_def heap_members_def)
next
  case (3 ev q e) then show ?case
    using heap_insert_law by (auto simp: HeapScheduler_ops_def insertable_def)
next
  case (4 ev q)
  from heap_deque_law [OF this] show ?case by (auto simp: HeapScheduler_ops_def HeapScheduler_deque_def)
next
  case (5 ev q e) then show ?case by (simp add: HeapScheduler_ops_def HeapScheduler_cancel_def)
next
  case (6 ev q e)
  then have "heap_wf q" by (simp add: heap_inv_def)
  then obtain x where "heap_wf (snd (heap_delete e q))" "he_elem x = e"
    "add_mset x (mset (entries (snd (heap_delete e q)))) = mset (entries q)"
    using heap_delete_wf 6(2) by blast
  with heap_inv_mset [OF 6(1)] 6(3) show ?case
    by (auto simp: HeapScheduler_ops_def HeapScheduler_cancel_def)
next
  case (7 ev q u)
  with heap_lookup_law [OF this, of u] show ?case by (auto simp: HeapScheduler_ops_def)
qed

interpretation heap: peekable_queue HeapScheduler_ops heap_inv heap_members
proof (unfold_locales, goal_cases)
  case (1 ev q)
  with heap_deque_law [OF this] show ?case
    by (auto simp: HeapScheduler_ops_def HeapScheduler_deque_def HeapScheduler_head_def)
qed

section \<open>First in, first out, until the counter wraps\<close>

definition heap_fifo :: "Heap \<Rightarrow> bool" where
  "heap_fifo h \<longleftrightarrow> distinct (map he_s_key (entries h)) \<and> (\<forall>x \<in> set (entries h). he_s_key x < unat (h_s_key h))"

definition heap_order :: "Heap \<Rightarrow> eaddr list" where
  "heap_order h = map he_elem (sort_key hk (entries h))"

lemma heap_fifo_inj: "heap_fifo h \<Longrightarrow> distinct (map hk (entries h))"
  by (auto simp: heap_fifo_def distinct_map inj_on_def hk_def)

lemma sort_key_unique:
  assumes "distinct (map hk xs)" "mset ys = mset xs" "sorted_key hk ys"
  shows "sort_key hk xs = ys"
proof (rule map_sorted_distinct_set_unique [where f = hk])
  have "distinct (map hk ys)"
    using assms(1,2) mset_eq_imp_distinct_iff [of "map hk xs" "map hk ys"] by (metis mset_map)
  moreover have "distinct (map hk (sort_key hk xs))"
    using assms(1) mset_eq_imp_distinct_iff [of "map hk xs" "map hk (sort_key hk xs)"] by (metis mset_map mset_sort)
  ultimately show "distinct (map hk (sort_key hk xs))" "distinct (map hk ys)" by simp_all
  show "set (sort_key hk xs) = set ys" using mset_eq_setD [OF assms(2)] by simp
  show "inj_on hk (set (sort_key hk xs) \<union> set ys)"
    using assms(1) mset_eq_setD [OF assms(2)] by (simp add: distinct_map)
qed (use assms in simp_all)

lemma map_insert_upper:
  "\<forall>y \<in> set ys. f x < f y \<longleftrightarrow> g (k x) < g (k y) \<Longrightarrow>
    map k (insert_upper f x ys) = insert_upper g (k x) (map k ys)"
  by (induction ys) auto

lemma heap_insert_order:
  assumes inv: "heap_inv ev h" and ff: "heap_fifo h" and e: "e \<notin> heap_members h"
    and room: "unat (h_s_key h) < 2 ^ 32 - 1"
  shows "heap_fifo (HeapScheduler_insert ev e h)
    \<and> heap_order (HeapScheduler_insert ev e h) = insert_upper (\<lambda>a. etime (ev a)) e (heap_order h)"
proof -
  let ?h = "HeapScheduler_insert ev e h"
  let ?x = "\<lparr>he_key = etime (ev e), he_s_key = unat (h_s_key h), he_elem = e\<rparr>"
  have ms: "mset (entries ?h) = mset (?x # entries h)"
    using heap_insert_wf [of h "etime (ev e)" e] inv by (simp add: heap_inv_def HeapScheduler_insert_def)
  then have st: "set (entries ?h) = insert ?x (set (entries h))" by (metis mset_eq_setD list.simps(15))
  have "h_s_key ?h = h_s_key h + 1"
    by (simp add: HeapScheduler_insert_def heap_insert_def Let_def split_beta)
  then have cnt: "unat (h_s_key ?h) = Suc (unat (h_s_key h))"
    using room by (simp add: unat_word_ariths)
  have "mset (map he_s_key (entries ?h)) = mset (map he_s_key (?x # entries h))" using ms by (metis mset_map)
  then have "distinct (map he_s_key (entries ?h)) \<longleftrightarrow> distinct (map he_s_key (?x # entries h))"
    by (rule mset_eq_imp_distinct_iff)
  then have ff': "heap_fifo ?h" using ff st cnt by (auto simp: heap_fifo_def)
  let ?L = "sort_key hk (entries h)"
  have "sort_key hk (entries ?h) = insert_upper hk ?x ?L"
    using heap_fifo_inj [OF ff'] ms by (intro sort_key_unique) simp_all
  moreover have "\<forall>y \<in> set ?L. hk ?x < hk y \<longleftrightarrow> etime (ev (he_elem ?x)) < etime (ev (he_elem y))"
    using inv ff by (auto simp: heap_inv_def heap_fifo_def hk_def less_prod_simp)
  ultimately have "heap_order ?h = insert_upper (\<lambda>a. etime (ev a)) e (heap_order h)"
    using map_insert_upper [of ?L hk ?x "\<lambda>a. etime (ev a)" he_elem] by (simp add: heap_order_def)
  with ff' show ?thesis by blast
qed

lemma heap_remove_order:
  assumes ff: "heap_fifo h" and ms: "add_mset x (mset (entries h')) = mset (entries h)" and k: "h_s_key h' = h_s_key h"
  shows "heap_fifo h' \<and> sort_key hk (entries h') = removeAll x (sort_key hk (entries h))"
proof -
  have st: "set (entries h) = insert x (set (entries h'))" using ms by (metis set_mset_add_mset_insert set_mset_mset)
  have "mset (map he_s_key (entries h)) = mset (map he_s_key (x # entries h'))" using ms by (metis mset.simps(2) mset_map)
  then have "distinct (map he_s_key (x # entries h'))"
    using ff mset_eq_imp_distinct_iff unfolding heap_fifo_def by blast
  then have ff': "heap_fifo h'" using ff st k by (auto simp: heap_fifo_def)
  have x: "x \<notin> set (entries h')" using \<open>distinct (map he_s_key (x # entries h'))\<close> by auto
  have "mset (removeAll x (sort_key hk (entries h))) = mset (entries h')"
    using ms [symmetric] x by (auto simp: removeAll_filter_not_eq mset_filter filter_mset_eq_conv)
  moreover have "sorted_key hk (removeAll x (sort_key hk (entries h)))" by (simp add: sorted_key_removeAll)
  ultimately show ?thesis using sort_key_unique [OF heap_fifo_inj [OF ff']] ff' by simp
qed

lemma sort_key_min_first:
  assumes "distinct (map hk xs)" "x \<in> set xs" "\<forall>y \<in> set xs. hk x \<le> hk y"
  shows "sort_key hk xs = x # removeAll x (sort_key hk xs)"
proof -
  let ?ys = "x # removeAll x (sort_key hk xs)"
  have "mset ?ys = mset xs"
  proof -
    have "distinct (sort_key hk xs)" using assms(1) by (simp add: distinct_map)
    with assms(2) show ?thesis by (simp add: distinct_remove1_removeAll [symmetric])
  qed
  moreover have "sorted_key hk ?ys" using assms(3) by (auto simp: sorted_key_removeAll)
  ultimately show ?thesis using sort_key_unique [OF assms(1)] by blast
qed

lemma heap_deque_order:
  assumes inv: "heap_inv ev h" and ff: "heap_fifo h"
  shows "case HeapScheduler_deque h of
      (None, h') \<Rightarrow> heap_order h = [] \<and> h' = h
    | (Some e, h') \<Rightarrow> heap_order h = e # heap_order h' \<and> heap_fifo h'"
proof (cases "h_size h = 0")
  case True
  then show ?thesis by (simp add: HeapScheduler_deque_def heap_extract_min_def heap_order_def entries_def)
next
  case False
  let ?x = "h_elems h ! 0" and ?h = "snd (heap_extract_min h)"
  have sh: "heap_shape h" "heap_ord (h_size h) (h_elems h)" using inv by (auto simp: heap_inv_def heap_wf_def)
  have ex: "fst (heap_extract_min h) = Some (he_elem ?x)" "add_mset ?x (mset (entries ?h)) = mset (entries h)"
    "h_s_key ?h = h_s_key h"
    using heap_extract_wf [OF sh(1) heap_ord_down [OF sh(2)]] False by auto
  have "?x \<in> set (entries h)" using ex(2) by (metis set_mset_mset union_single_eq_member)
  moreover have "\<forall>y \<in> set (entries h). hk ?x \<le> hk y"
    using root_min [OF sh(2)] sh(1) by (auto simp: entries_def in_set_conv_nth)
  ultimately have "sort_key hk (entries h) = ?x # sort_key hk (entries ?h)"
    using sort_key_min_first [OF heap_fifo_inj [OF ff]] heap_remove_order [OF ff ex(2,3)] by metis
  then show ?thesis
    using ex(1) heap_remove_order [OF ff ex(2,3)]
    by (cases "heap_extract_min h") (simp add: HeapScheduler_deque_def heap_order_def)
qed

lemma new_Heap_inv: "heap_inv ev (new_Heap HEAP_DEFAULT_SIZE)" "heap_members (new_Heap HEAP_DEFAULT_SIZE) = {}"
  by (simp_all add: heap_inv_def heap_wf_def heap_shape_def heap_ord_def heap_members_def entries_def new_Heap_def
    HEAP_DEFAULT_SIZE_def)

text \<open>What is done with a scheduler: the calls of handlers, and \<open>Next\<close>, which is what \<^verbatim>\<open>run\<close> does to
  the scheduler for each event before its handler is called. The results are the events taken out.\<close>

datatype sched_use = Call sched_call | Next

primrec do_use :: "'q ops \<Rightarrow> sched_use \<Rightarrow> 'q Scheduler \<Rightarrow> (eaddr option \<times> 'q Scheduler) result" where
  "do_use ops (Call c) s = bindE (exec_call ops c s) (\<lambda>s'. Inr (None, s'))"
| "do_use ops Next s = bindE (deque ops s) (\<lambda>(p, s'). Inr (p, case p of
       None \<Rightarrow> s'
     | Some e \<Rightarrow> s'\<lparr>clock := etime (events s' e), events := negate_uid e (events s')\<rparr>))"

fun do_uses :: "'q ops \<Rightarrow> sched_use list \<Rightarrow> 'q Scheduler \<Rightarrow> (eaddr option list \<times> 'q Scheduler) result" where
  "do_uses ops [] s = Inr ([], s)"
| "do_uses ops (u # us) s =
     bindE (do_use ops u s) (\<lambda>(p, s'). bindE (do_uses ops us s') (\<lambda>(ps, s''). Inr (p # ps, s'')))"

text \<open>Every call among them is one that a handler may make.\<close>

fun uses_ok :: "'q ops \<Rightarrow> sched_use list \<Rightarrow> 'q Scheduler \<Rightarrow> bool" where
  "uses_ok ops [] s = True"
| "uses_ok ops (u # us) s =
     ((case u of Call c \<Rightarrow> call_ok c s | Next \<Rightarrow> True)
      \<and> (case do_use ops u s of Inl _ \<Rightarrow> True | Inr (_, s') \<Rightarrow> uses_ok ops us s'))"

text \<open>The heap scheduler \<open>s'\<close> and the list scheduler \<open>s\<close> hold the same events in the same order,
  and the counter of the heap has counted the insertions like the numbers of the events.\<close>

definition heap_agrees :: "ListScheduler Scheduler \<Rightarrow> Heap Scheduler \<Rightarrow> bool" where
  "heap_agrees s s' \<longleftrightarrow> sched_inv list_inv set s \<and> heap_inv (events s) (queue s') \<and> heap_fifo (queue s')
     \<and> heap_order (queue s') = queue s \<and> events s' = events s \<and> clock s' = clock s \<and> halted s' = halted s
     \<and> s_uid s' = s_uid s \<and> s_uid s = int (unat (h_s_key (queue s'))) + 1"

lemma set_heap_order: "set (heap_order h) = heap_members h"
  by (simp add: heap_order_def heap_members_def)

lemma heap_agrees_new:
  assumes "\<forall>a. euid (ev a) \<le> 0"
  shows "heap_agrees (new_Scheduler ev []) (new_Scheduler ev (new_Heap HEAP_DEFAULT_SIZE))"
  using assms list.new_Scheduler_inv [of ev "[]"] new_Heap_inv(1) [of ev]
  by (auto simp: heap_agrees_def list_inv_def new_Scheduler_def heap_fifo_def heap_order_def entries_def new_Heap_def)

lemma heap_agrees_schedule:
  assumes ag: "heap_agrees s s'" and ok: "h \<noteq> 0" "euid (events s e) \<le> 0" "0 \<le> d"
    and room: "unat (h_s_key (queue s')) < 2 ^ 32 - 1"
  shows "\<exists>t t'. schedule ListScheduler_ops h e d s = Inr t \<and> schedule HeapScheduler_ops h e d s' = Inr t' \<and> heap_agrees t t'
    \<and> unat (h_s_key (queue t')) = Suc (unat (h_s_key (queue s')))"
proof -
  define ev where "ev = (events s)(e := (events s e)\<lparr>euid := s_uid s, ehandler := h, etime := clock s + d\<rparr>)"
  let ?q = "HeapScheduler_insert ev e (queue s')"
  have si: "sched_inv list_inv set s" and key: "s_uid s = int (unat (h_s_key (queue s'))) + 1"
    and eqs: "events s' = events s" "clock s' = clock s" "halted s' = halted s" "s_uid s' = s_uid s"
    and ord: "heap_order (queue s') = queue s" and ff: "heap_fifo (queue s')"
    using ag by (simp_all add: heap_agrees_def)
  obtain n where n: "unat (h_s_key (queue s')) = n" by blast
  have uid: "0 < s_uid s" "s_uid s < 2 ^ 32" using key room unfolding n by simp_all
  have mem: "heap_members (queue s') = set (queue s)" using set_heap_order [of "queue s'"] ord by simp
  have out: "e \<notin> heap_members (queue s')" using si ok mem by (auto simp: sched_inv_def)
  then have "same_on (heap_members (queue s')) (events s) ev" by (auto simp: same_on_def ev_def)
  then have inv: "heap_inv ev (queue s')" using ag heap.inv_cong unfolding heap_agrees_def by blast
  note ins = heap_insert_order [OF inv ff out room]
  let ?u = "\<lambda>s. s\<lparr>events := ev, s_uid := next_uid (s_uid s), queue := HeapScheduler_insert ev e (queue s)\<rparr>"
  let ?t = "s\<lparr>events := ev, s_uid := next_uid (s_uid s), queue := ListScheduler_insert ev e (queue s)\<rparr>"
  have t: "schedule ListScheduler_ops h e d s = Inr ?t" "schedule HeapScheduler_ops h e d s' = Inr (?u s')"
    using ok uid eqs by (simp_all add: schedule_def Let_def ev_def ListScheduler_ops_def HeapScheduler_ops_def)
  have "sched_inv list_inv set ?t" using list.schedule_step [OF si ok] t(1) uid by simp
  moreover have "h_s_key ?q = h_s_key (queue s') + 1"
    by (simp add: HeapScheduler_insert_def heap_insert_def Let_def split_beta)
  then have "unat (h_s_key ?q) = Suc (unat (h_s_key (queue s')))" using room by (simp add: unat_word_ariths)
  ultimately have "heap_agrees ?t (?u s')"
    using ins heap_insert_law [OF inv out] eqs uid ord ag
    by (simp add: heap_agrees_def next_uid_def ListScheduler_insert_upper)
  with t \<open>unat (h_s_key ?q) = Suc (unat (h_s_key (queue s')))\<close> show ?thesis by auto
qed

lemma heap_agrees_cancel:
  assumes ag: "heap_agrees s s'"
  shows "\<exists>t t'. cancel ListScheduler_ops e s = Inr t \<and> cancel HeapScheduler_ops e s' = Inr t' \<and> heap_agrees t t'
    \<and> h_s_key (queue t') = h_s_key (queue s')"
proof (cases "euid (events s e) \<le> 0")
  case True
  with ag show ?thesis
    by (auto simp: cancel_def ListScheduler_ops_def HeapScheduler_ops_def ListScheduler_cancel_def
      HeapScheduler_cancel_def heap_agrees_def)
next
  case False
  let ?q = "snd (heap_delete e (queue s'))" and ?ev = "negate_uid e (events s)"
  have si: "sched_inv list_inv set s" and inv: "heap_inv (events s) (queue s')" "heap_wf (queue s')"
    and ord: "heap_order (queue s') = queue s" and ff: "heap_fifo (queue s')" and ev: "events s' = events s"
    using ag by (auto simp: heap_agrees_def heap_inv_def)
  have mem: "heap_members (queue s') = set (queue s)" using set_heap_order [of "queue s'"] ord by simp
  then have e: "e \<in> heap_members (queue s')" using si False by (auto simp: sched_inv_def)
  obtain x where x: "heap_wf ?q" "he_elem x = e" "add_mset x (mset (entries ?q)) = mset (entries (queue s'))"
    "h_s_key ?q = h_s_key (queue s')"
    by (rule heap_delete_wf [OF inv(2) e])
  note law = heap_inv_mset [OF inv(1) x(1,3)] and rm = heap_remove_order [OF ff x(3,4)]
  have "same_on (heap_members ?q) (events s) ?ev" using law(2) x(2) by (auto simp: same_on_def)
  then have inv': "heap_inv ?ev ?q" by (rule heap.inv_cong [OF law(1)])
  have "inj_on he_elem (set (entries (queue s')))" "x \<in> set (entries (queue s'))"
    using inv(1) x(3) by (auto simp: heap_inv_def distinct_map) (metis set_mset_mset union_single_eq_member)
  then have "map he_elem (removeAll x (sort_key hk (entries (queue s')))) = removeAll e (heap_order (queue s'))"
    using x(2) map_removeAll_inj_on [of he_elem x "sort_key hk (entries (queue s'))"]
    by (simp add: heap_order_def insert_absorb)
  then have ord': "heap_order ?q = removeAll e (queue s)" using rm ord by (simp add: heap_order_def)
  have "distinct (queue s)" "e \<in> set (queue s)" using si e mem by (auto simp: sched_inv_def list_inv_def)
  then have t: "cancel ListScheduler_ops e s = Inr (s\<lparr>events := ?ev, queue := removeAll e (queue s)\<rparr>)"
    "cancel HeapScheduler_ops e s' = Inr (s'\<lparr>events := ?ev, queue := ?q\<rparr>)"
    using False ev by (simp_all add: cancel_def ListScheduler_ops_def HeapScheduler_ops_def ListScheduler_cancel_def
      HeapScheduler_cancel_def ListScheduler_unlink_remove1 distinct_remove1_removeAll)
  have "sched_inv list_inv set (s\<lparr>events := ?ev, queue := removeAll e (queue s)\<rparr>)"
    using list.cancel_step [OF si, of e] t(1) by simp
  with t inv' rm ord' ag x(4) show ?thesis by (simp add: heap_agrees_def)
qed

lemma heap_agrees_next:
  assumes ag: "heap_agrees s s'"
  shows "\<exists>p t t'. do_use ListScheduler_ops Next s = Inr (p, t) \<and> do_use HeapScheduler_ops Next s' = Inr (p, t') \<and> heap_agrees t t'
    \<and> h_s_key (queue t') = h_s_key (queue s')"
proof -
  have si: "sched_inv list_inv set s" and inv: "heap_inv (events s) (queue s')"
    and ord: "heap_order (queue s') = queue s" and ff: "heap_fifo (queue s')"
    using ag by (auto simp: heap_agrees_def)
  obtain r q where r: "HeapScheduler_deque (queue s') = (r, q)" "heap_inv (events s) q" "heap_members q = heap_members (queue s') - set_option r"
    using heap_deque_law [OF inv] by (auto simp: HeapScheduler_deque_def)
  have key: "h_s_key q = h_s_key (queue s')" using r(1)
    by (auto simp: HeapScheduler_deque_def heap_extract_min_def Let_def split: if_splits)
  note od = heap_deque_order [OF inv ff, unfolded r(1)]
  show ?thesis
  proof (cases r)
    case None
    then have "queue s = []" "q = queue s'" using od ord by auto
    moreover from this have "s\<lparr>queue := []\<rparr> = s" by (cases s) simp
    then have "sched_inv list_inv set (s\<lparr>queue := []\<rparr>)" using si by simp
    ultimately show ?thesis using None  r(1) ag
      by (auto simp: deque_def ListScheduler_ops_def HeapScheduler_ops_def heap_agrees_def)
  next
    case (Some e)
    let ?ev = "negate_uid e (events s)"
    let ?t = "s\<lparr>queue := heap_order q, clock := etime (events s e), events := ?ev\<rparr>"
    have q: "queue s = e # heap_order q" "heap_fifo q" using od ord Some by auto
    then have d: "deque ListScheduler_ops s = Inr (Some e, s\<lparr>queue := heap_order q\<rparr>)"
      by (simp add: deque_def ListScheduler_ops_def)
    have "same_on (heap_members q) (events s) ?ev" using r(3) Some by (auto simp: same_on_def)
    then have "heap_inv ?ev q" by (rule heap.inv_cong [OF r(2)])
    moreover have "sched_inv list_inv set ?t" using list.deque_step [OF si d] by auto
    ultimately have "heap_agrees ?t (s'\<lparr>queue := q, clock := etime (events s e), events := ?ev\<rparr>)"
      using ag q(2) key by (simp add: heap_agrees_def)
    moreover have "do_use HeapScheduler_ops Next s' = Inr (Some e, s'\<lparr>queue := q, clock := etime (events s e), events := ?ev\<rparr>)"
      using r(1) Some ag by (simp add: deque_def HeapScheduler_ops_def heap_agrees_def)
    ultimately show ?thesis using d key by (intro exI [of _ "Some e"] exI) (auto simp: conj_ac)
  qed
qed

lemma heap_agrees_use:
  assumes ag: "heap_agrees s s'" and ok: "case u of Call c \<Rightarrow> call_ok c s | Next \<Rightarrow> True"
    and room: "unat (h_s_key (queue s')) < 2 ^ 32 - 1"
  shows "\<exists>p t t'. do_use ListScheduler_ops u s = Inr (p, t) \<and> do_use HeapScheduler_ops u s' = Inr (p, t') \<and> heap_agrees t t'
    \<and> unat (h_s_key (queue t')) \<le> Suc (unat (h_s_key (queue s')))"
proof (cases u)
  case Next
  with heap_agrees_next [OF ag] show ?thesis by fastforce
next
  case (Call c)
  show ?thesis
  proof (cases c)
    case (NewEvent a)
    have si: "sched_inv list_inv set s" and inv: "heap_inv (events s) (queue s')" using ag by (auto simp: heap_agrees_def)
    have "a \<notin> set (queue s)" using si Call NewEvent ok unfolding sched_inv_def by auto
    then have "a \<notin> heap_members (queue s')"
      using ag set_heap_order [of "queue s'"] by (auto simp: heap_agrees_def)
    then have "same_on (heap_members (queue s')) (events s) (new_Event a (events s))" by (auto simp: same_on_def)
    from heap.inv_cong [OF inv this] list.new_Event_step [OF si, of a] ag Call NewEvent ok show ?thesis
      by (simp add: heap_agrees_def)
  next
    case (Schedule h a d)
    with heap_agrees_schedule [OF ag _ _ _ room, of h a d] Call ok show ?thesis by auto
  next
    case (Cancel a)
    with heap_agrees_cancel [OF ag, of a] Call show ?thesis by auto
  next
    case Halt
    have si: "sched_inv list_inv set s" using ag by (simp add: heap_agrees_def)
    have "sched_inv list_inv set (s\<lparr>halted := True\<rparr>)" by (rule iffD1 [OF _ si]) (simp add: sched_inv_def)
    with ag Call Halt show ?thesis by (simp add: heap_agrees_def)
  qed
qed

lemma heap_agrees_uses:
  "heap_agrees s s' \<Longrightarrow> uses_ok ListScheduler_ops us s \<Longrightarrow> unat (h_s_key (queue s')) + length us < 2 ^ 32 \<Longrightarrow>
    \<exists>ps t t'. do_uses ListScheduler_ops us s = Inr (ps, t) \<and> do_uses HeapScheduler_ops us s' = Inr (ps, t') \<and> heap_agrees t t'"
proof (induction us arbitrary: s s')
  case (Cons u us)
  then obtain p t t' where t: "do_use ListScheduler_ops u s = Inr (p, t)" "do_use HeapScheduler_ops u s' = Inr (p, t')"
    "heap_agrees t t'" "unat (h_s_key (queue t')) \<le> Suc (unat (h_s_key (queue s')))"
    using heap_agrees_use [of s s' u] by auto
  with Cons.IH [of t t'] Cons.prems show ?case by fastforce
qed auto

section \<open>Properties\<close>

text \<open>C16. Deleting any element of a heap leaves a heap that holds exactly the other entries: the
  swaps to the root and the repair from there restore the heap order.\<close>

theorem heap_delete_correct:
  assumes "heap_wf h" and "e \<in> heap_members h"
  shows "fst (heap_delete e h) \<and> heap_wf (snd (heap_delete e h))
    \<and> (\<exists>x. he_elem x = e \<and> add_mset x (mset (entries (snd (heap_delete e h)))) = mset (entries h))"
  using heap_delete_wf [OF assms] by blast

definition demo_heap :: Heap where
  "demo_heap = \<lparr>h_elems = [\<lparr>he_key = 2, he_s_key = 5, he_elem = 3\<rparr>, \<lparr>he_key = 4, he_s_key = 6, he_elem = 8\<rparr>],
     h_s_key = 7, h_size = 2, h_maxsize = 2, h_iter = 0\<rparr>"

theorem heap_delete_correct_witness:
  "fst (heap_delete 8 demo_heap) \<and> heap_wf (snd (heap_delete 8 demo_heap))"
proof -
  have "heap_wf demo_heap" "8 \<in> heap_members demo_heap"
    by (auto simp: demo_heap_def heap_wf_def heap_shape_def heap_ord_def heap_members_def entries_def hk_def
      parent_def less_2_cases_iff)
  from heap_delete_correct [OF this] show ?thesis by blast
qed

text \<open>C17. In its first \<open>2\<^sup>3\<^sup>2 - 1\<close> uses the heap scheduler is first in, first out: whatever is scheduled,
  cancelled and taken out, in any order, it gives out the same events in the same order as the list scheduler,
  both stay in the same state, and the heap keeps its invariant and holds the events in the order of the list. As in
  the other theories an event is made or scheduled only while it is not queued, with a handler and with a
  delay that is not negative, and no event has a number at first.\<close>

theorem heap_fifo_until_wrap:
  assumes "uses_ok ListScheduler_ops us (new_Scheduler ev [])" and "\<forall>a. euid (ev a) \<le> 0" and "length us < 2 ^ 32"
  shows "\<exists>ps s s'. do_uses ListScheduler_ops us (new_Scheduler ev []) = Inr (ps, s)
    \<and> do_uses HeapScheduler_ops us (new_Scheduler ev (new_Heap HEAP_DEFAULT_SIZE)) = Inr (ps, s')
    \<and> events s' = events s \<and> clock s' = clock s \<and> halted s' = halted s \<and> s_uid s' = s_uid s
    \<and> heap_inv (events s') (queue s') \<and> heap_order (queue s') = queue s"
proof -
  have "unat (h_s_key (queue (new_Scheduler ev (new_Heap HEAP_DEFAULT_SIZE)))) + length us < 2 ^ 32"
    using assms(3) by (simp add: new_Scheduler_def new_Heap_def)
  from heap_agrees_uses [OF heap_agrees_new [OF assms(2)] assms(1) this] show ?thesis
    unfolding heap_agrees_def by metis
qed

definition demo_uses :: "sched_use list" where
  "demo_uses = [Call (Schedule 7 4 2), Call (Schedule 7 5 1), Call (Schedule 7 6 2), Call (Schedule 7 8 1), Next,
     Call (Cancel 8), Call (Schedule 7 5 1), Next, Next, Next]"

theorem heap_fifo_until_wrap_witness:
  "\<exists>s. do_uses HeapScheduler_ops demo_uses (new_Scheduler demo_events (new_Heap HEAP_DEFAULT_SIZE))
    = Inr ([None, None, None, None, Some 5, None, None, Some 4, Some 6, Some 5], s) \<and> heap_inv (events s) (queue s)"
proof -
  note defs = demo_uses_def new_Scheduler_def demo_events_def ListScheduler_ops_def schedule_def cancel_def
    ListScheduler_cancel_def Let_def next_uid_def SCHED_START_def deque_def negate_uid_def
  have ok: "uses_ok ListScheduler_ops demo_uses (new_Scheduler demo_events [])" by (simp add: defs)
  have "\<exists>s. do_uses ListScheduler_ops demo_uses (new_Scheduler demo_events [])
      = Inr ([None, None, None, None, Some 5, None, None, Some 4, Some 6, Some 5], s)"
    by (simp add: defs)
  moreover have "length demo_uses < 2 ^ 32" by (simp add: demo_uses_def)
  ultimately show ?thesis using heap_fifo_until_wrap [OF ok demo_events_idle] by fastforce
qed

definition demo_times :: events where
  "demo_times a = \<lparr>ehandler = 7, etime = (if a = 3 then 2 else 4), euid = int a\<rparr>"

lemma demo_times_simps: "etime (demo_times a) = (if a = 3 then 2 else 4)"
  by (simp add: demo_times_def)

text \<open>When the counter is at its last value, the event inserted then is overtaken by the next
  one of the same time.\<close>

theorem heap_fifo_broken_by_wrap:
  assumes "etime (ev a) = etime (ev b)"
  shows "fst (HeapScheduler_deque (HeapScheduler_insert ev b
    (HeapScheduler_insert ev a ((new_Heap HEAP_DEFAULT_SIZE)\<lparr>h_s_key := - 1\<rparr>)))) = Some b"
  using assms
  by (simp add: HeapScheduler_insert_def heap_insert_def new_Heap_def HEAP_DEFAULT_SIZE_def sift_up.simps
    KEY_LESS_THAN_def parent_def HeapScheduler_deque_def heap_extract_min_def Let_def
    unsigned_minus_1_eq_mask mask_eq_exp_minus_1)

theorem heap_fifo_broken_by_wrap_witness:
  "fst (HeapScheduler_deque (HeapScheduler_insert demo_times 5
    (HeapScheduler_insert demo_times 4 ((new_Heap HEAP_DEFAULT_SIZE)\<lparr>h_s_key := - 1\<rparr>)))) = Some 5"
  by (rule heap_fifo_broken_by_wrap) (simp add: demo_times_simps)

end
