(* ===== verification/Ns_Timer.thy ===== *)
theory Ns_Timer
  imports Ns_Scheduler Ns_Calendar
begin

text \<open>
  Timers of the simulator: \<^verbatim>\<open>src/ns2-gea/ns-2/common/timer-handler.cc\<close> and
  \<^verbatim>\<open>timer-handler.h\<close>.

  A timer is a handler that owns one event and a status. Its operations go to the scheduler; the
  model's state is the pair of the timer and the scheduler. What the client's \<^verbatim>\<open>expire\<close> does to
  the timer is the list of calls it makes. The step relation at the end interleaves the calls on one
  timer with the work of the rest of the simulation on the same scheduler.
\<close>

section \<open>The timer and its operations\<close>

datatype TimerStatus = TIMER_IDLE | TIMER_PENDING | TIMER_HANDLING

record TimerHandler =
  t_this :: nat
  t_event :: eaddr
  t_status :: TimerStatus

type_synonym 'q timed = "TimerHandler \<times> 'q Scheduler"

definition new_TimerHandler :: "nat \<Rightarrow> eaddr \<Rightarrow> TimerHandler" where
  "new_TimerHandler h e = \<lparr>t_this = h, t_event = e, t_status = TIMER_IDLE\<rparr>"

definition timer_raw_sched :: "'q ops \<Rightarrow> double \<Rightarrow> 'q timed \<Rightarrow> 'q timed result" where
  "timer_raw_sched ops delay = (\<lambda>(T, s). bindE (schedule ops (t_this T) (t_event T) delay s) (\<lambda>s'. Inr (T, s')))"

definition timer_raw_cancel :: "'q ops \<Rightarrow> 'q timed \<Rightarrow> 'q timed result" where
  "timer_raw_cancel ops = (\<lambda>(T, s). bindE (cancel ops (t_event T) s) (\<lambda>s'. Inr (T, s')))"

definition set_status :: "TimerStatus \<Rightarrow> 'q timed \<Rightarrow> 'q timed" where
  "set_status st = (\<lambda>(T, s). (T\<lparr>t_status := st\<rparr>, s))"

definition timer_cancel :: "'q ops \<Rightarrow> 'q timed \<Rightarrow> 'q timed result" where
  "timer_cancel ops ts =
     (if t_status (fst ts) \<noteq> TIMER_PENDING
      then Inl (AssertFailed ''Attempting to cancel timer which is not scheduled'')
      else bindE (timer_raw_cancel ops ts) (\<lambda>ts'. Inr (set_status TIMER_IDLE ts')))"

definition timer_sched :: "'q ops \<Rightarrow> double \<Rightarrow> 'q timed \<Rightarrow> 'q timed result" where
  "timer_sched ops delay ts =
     (if t_status (fst ts) \<noteq> TIMER_IDLE then Inl (AssertFailed ''Couldn't schedule timer'')
      else bindE (timer_raw_sched ops delay ts) (\<lambda>ts'. Inr (set_status TIMER_PENDING ts')))"

definition timer_resched :: "'q ops \<Rightarrow> double \<Rightarrow> 'q timed \<Rightarrow> 'q timed result" where
  "timer_resched ops delay ts =
     bindE (if t_status (fst ts) = TIMER_PENDING then timer_raw_cancel ops ts else Inr ts) (\<lambda>ts'.
       bindE (timer_raw_sched ops delay ts') (\<lambda>ts''. Inr (set_status TIMER_PENDING ts'')))"

definition timer_force_cancel :: "'q ops \<Rightarrow> 'q timed \<Rightarrow> 'q timed result" where
  "timer_force_cancel ops ts =
     (if t_status (fst ts) = TIMER_PENDING
      then bindE (timer_raw_cancel ops ts) (\<lambda>ts'. Inr (set_status TIMER_IDLE ts'))
      else Inr ts)"

datatype timer_call = TSched double | TResched double | TCancel | TForceCancel

primrec exec_timer_call :: "'q ops \<Rightarrow> timer_call \<Rightarrow> 'q timed \<Rightarrow> 'q timed result" where
  "exec_timer_call ops (TSched d) ts = timer_sched ops d ts"
| "exec_timer_call ops (TResched d) ts = timer_resched ops d ts"
| "exec_timer_call ops TCancel ts = timer_cancel ops ts"
| "exec_timer_call ops TForceCancel ts = timer_force_cancel ops ts"

definition timer_handle :: "'q ops \<Rightarrow> timer_call list \<Rightarrow> 'q timed \<Rightarrow> 'q timed result" where
  "timer_handle ops expire ts =
     (if t_status (fst ts) \<noteq> TIMER_PENDING then Inl (AssertFailed ''TimerHandler::handle'')
      else bindE (foldE (exec_timer_call ops) expire (set_status TIMER_HANDLING ts)) (\<lambda>ts'.
        Inr (if t_status (fst ts') = TIMER_HANDLING then set_status TIMER_IDLE ts' else ts')))"

section \<open>Steps of a simulation with a timer\<close>

text \<open>The calls the comments of the class allow: \<^verbatim>\<open>sched\<close> only while the timer is idle,
  \<^verbatim>\<open>cancel\<close> only while it is pending, no delay into the past.\<close>

primrec timer_call_ok :: "timer_call \<Rightarrow> TimerHandler \<Rightarrow> bool" where
  "timer_call_ok (TSched d) T = (t_status T = TIMER_IDLE \<and> 0 \<le> d)"
| "timer_call_ok (TResched d) T = (0 \<le> d)"
| "timer_call_ok TCancel T = (t_status T = TIMER_PENDING)"
| "timer_call_ok TForceCancel T = True"

fun timer_calls_ok :: "'q ops \<Rightarrow> timer_call list \<Rightarrow> 'q timed \<Rightarrow> bool" where
  "timer_calls_ok ops [] ts = True"
| "timer_calls_ok ops (c # cs) ts =
     (timer_call_ok c (fst ts) \<and> (case exec_timer_call ops c ts of Inl _ \<Rightarrow> True | Inr ts' \<Rightarrow> timer_calls_ok ops cs ts'))"

primrec touches :: "sched_call \<Rightarrow> eaddr set" where
  "touches (NewEvent a) = {a}"
| "touches (Schedule h a d) = {a}"
| "touches (Cancel a) = {a}"
| "touches Halt = {}"

text \<open>What \<^verbatim>\<open>Scheduler::dispatch\<close> does before it calls the handler.\<close>

definition advance :: "eaddr \<Rightarrow> 'q Scheduler \<Rightarrow> 'q Scheduler" where
  "advance e s = s\<lparr>clock := etime (events s e), events := negate_uid e (events s)\<rparr>"

inductive timer_step :: "'q ops \<Rightarrow> 'q timed \<Rightarrow> 'q timed \<Rightarrow> bool" for ops where
  client: "timer_call_ok c (fst ts) \<Longrightarrow> exec_timer_call ops c ts = Inr ts' \<Longrightarrow> timer_step ops ts ts'"
| other_call: "call_ok c s \<Longrightarrow> t_event T \<notin> touches c \<Longrightarrow> exec_call ops c s = Inr s' \<Longrightarrow> timer_step ops (T, s) (T, s')"
| other_event: "deque ops s = Inr (Some e, s1) \<Longrightarrow> e \<noteq> t_event T \<Longrightarrow> timer_step ops (T, s) (T, advance e s1)"
| fire: "deque ops s = Inr (Some (t_event T), s1) \<Longrightarrow>
    timer_calls_ok ops expire (T\<lparr>t_status := TIMER_HANDLING\<rparr>, advance (t_event T) s1) \<Longrightarrow>
    timer_handle ops expire (T, advance (t_event T) s1) = Inr ts' \<Longrightarrow> timer_step ops (T, s) ts'"

inductive_cases timer_stepE: "timer_step ops ts ts'"

section \<open>The invariant\<close>

text \<open>The timer is pending exactly while its event is in the queue, and then the event has the
  timer as its handler. During \<^verbatim>\<open>handle\<close> the status is \<^verbatim>\<open>TIMER_HANDLING\<close> and the event is out.\<close>

definition timer_inv :: "(events \<Rightarrow> 'q \<Rightarrow> bool) \<Rightarrow> ('q \<Rightarrow> eaddr set) \<Rightarrow> 'q timed \<Rightarrow> bool" where
  "timer_inv qinv members = (\<lambda>(T, s). sched_inv qinv members s \<and> t_this T \<noteq> 0
     \<and> (t_status T = TIMER_PENDING \<longleftrightarrow> t_event T \<in> members (queue s))
     \<and> (t_status T = TIMER_PENDING \<longrightarrow> ehandler (events s (t_event T)) = t_this T))"

lemma set_status_simps [simp]:
  "t_status (fst (set_status st ts)) = st" "t_event (fst (set_status st ts)) = t_event (fst ts)"
  "t_this (fst (set_status st ts)) = t_this (fst ts)" "snd (set_status st ts) = snd ts"
  by (simp_all add: set_status_def split: prod.splits)

lemma set_status_pair [simp]: "set_status st (T, s) = (T\<lparr>t_status := st\<rparr>, s)"
  by (simp add: set_status_def)

context event_queue begin

abbreviation TI :: "'q timed \<Rightarrow> bool" where
  "TI \<equiv> timer_inv qinv members"

lemma TI_pending_uid: "TI (T, s) \<Longrightarrow> t_status T = TIMER_PENDING \<longleftrightarrow> 0 < euid (events s (t_event T))"
  by (auto simp: timer_inv_def sched_inv_def)

lemma raw_sched_step:
  assumes si: "SI s" and h: "t_this T \<noteq> 0" and e: "euid (events s (t_event T)) \<le> 0" and d: "0 \<le> d"
  shows "timer_raw_sched ops d (T, s) = Inl uid_exhausted
    \<or> (\<exists>s'. timer_raw_sched ops d (T, s) = Inr (T, s') \<and> TI (T\<lparr>t_status := TIMER_PENDING\<rparr>, s')
        \<and> clock s' = clock s \<and> etime (events s' (t_event T)) = clock s + d
        \<and> members (queue s') = insert (t_event T) (members (queue s)))"
proof (cases "s_uid s < 0")
  case True
  then show ?thesis using schedule_step [OF si h e d] by (simp add: timer_raw_sched_def)
next
  case False
  then obtain s' where s': "schedule ops (t_this T) (t_event T) d s = Inr s'" "SI s'" "clock s' = clock s"
    "members (queue s') = insert (t_event T) (members (queue s))" "etime (events s' (t_event T)) = clock s + d"
    using schedule_step [OF si h e d] by auto
  from s'(1) have "ehandler (events s' (t_event T)) = t_this T"
    by (auto simp: schedule_def Let_def bindE_eq_Inr split: if_splits)
  with s' h show ?thesis by (auto simp: timer_raw_sched_def timer_inv_def)
qed

lemma raw_cancel_step:
  assumes "TI (T, s)"
  obtains s' where "timer_raw_cancel ops (T, s) = Inr (T, s')" "SI s'" "clock s' = clock s"
    "members (queue s') = members (queue s) - {t_event T}" "euid (events s' (t_event T)) \<le> 0"
proof -
  obtain s' where s': "cancel ops (t_event T) s = Inr s'" "SI s'" "clock s' = clock s"
    "members (queue s') = members (queue s) - {t_event T}"
    using cancel_step [of s "t_event T"] assms by (auto simp: timer_inv_def)
  then have "\<not> 0 < euid (events s' (t_event T))" unfolding sched_inv_def by auto
  with s' show thesis by (intro that [of s']) (simp_all add: timer_raw_cancel_def)
qed

text \<open>Every call that the comments allow returns, unless the event numbers are used up, and keeps
  the invariant; a timer that is set again expires that much later than now, whatever it was.\<close>

lemma timer_call_step:
  assumes ti: "TI (T, s)" and ok: "timer_call_ok c T"
  shows "exec_timer_call ops c (T, s) = Inl uid_exhausted
    \<or> (\<exists>T' s'. exec_timer_call ops c (T, s) = Inr (T', s') \<and> TI (T', s') \<and> t_event T' = t_event T \<and> t_this T' = t_this T
        \<and> clock s' = clock s
        \<and> (t_status T' = TIMER_HANDLING \<longrightarrow> t_status T = TIMER_HANDLING)
        \<and> (\<forall>d. c = TSched d \<or> c = TResched d \<longrightarrow> t_status T' = TIMER_PENDING \<and> etime (events s' (t_event T)) = clock s + d))"
proof -
  have si: "SI s" and h: "t_this T \<noteq> 0" using ti by (auto simp: timer_inv_def)
  show ?thesis
  proof (cases c)
    case (TSched d)
    have "euid (events s (t_event T)) \<le> 0" using TI_pending_uid [OF ti] ok TSched by auto
    from raw_sched_step [OF si h this, of d] ok TSched show ?thesis by (auto simp: timer_sched_def)
  next
    case (TResched d)
    show ?thesis
    proof (cases "t_status T = TIMER_PENDING")
      case True
      obtain s1 where s1: "timer_raw_cancel ops (T, s) = Inr (T, s1)" "SI s1" "clock s1 = clock s"
        "euid (events s1 (t_event T)) \<le> 0"
        by (rule raw_cancel_step [OF ti])
      from raw_sched_step [OF s1(2) h s1(4), of d] ok TResched True s1(1,3) show ?thesis
        by (auto simp: timer_resched_def)
    next
      case False
      then have "euid (events s (t_event T)) \<le> 0" using TI_pending_uid [OF ti] by auto
      from raw_sched_step [OF si h this, of d] ok TResched False show ?thesis by (auto simp: timer_resched_def)
    qed
  next
    case TCancel
    obtain s' where "timer_raw_cancel ops (T, s) = Inr (T, s')" "SI s'" "clock s' = clock s"
      "members (queue s') = members (queue s) - {t_event T}"
      by (rule raw_cancel_step [OF ti])
    with TCancel ok h show ?thesis by (auto simp: timer_cancel_def timer_inv_def)
  next
    case TForceCancel
    obtain s' where "timer_raw_cancel ops (T, s) = Inr (T, s')" "SI s'" "clock s' = clock s"
      "members (queue s') = members (queue s) - {t_event T}"
      by (rule raw_cancel_step [OF ti])
    with TForceCancel ti h show ?thesis by (auto simp: timer_force_cancel_def timer_inv_def)
  qed
qed

lemma timer_calls_step:
  "TI (T, s) \<Longrightarrow> timer_calls_ok ops cs (T, s) \<Longrightarrow> foldE (exec_timer_call ops) cs (T, s) = Inl uid_exhausted
    \<or> (\<exists>T' s'. foldE (exec_timer_call ops) cs (T, s) = Inr (T', s') \<and> TI (T', s') \<and> t_event T' = t_event T
        \<and> t_this T' = t_this T \<and> clock s' = clock s)"
proof (induction cs arbitrary: T s)
  case (Cons c cs)
  from Cons.prems have "timer_call_ok c T" by simp
  from timer_call_step [OF Cons.prems(1) this] show ?case
  proof (elim disjE exE conjE)
    fix T1 s1
    assume 1: "exec_timer_call ops c (T, s) = Inr (T1, s1)" "TI (T1, s1)" "t_event T1 = t_event T" "t_this T1 = t_this T"
      "clock s1 = clock s"
    from 1(1) Cons.prems(2) have "timer_calls_ok ops cs (T1, s1)" by simp
    from Cons.IH [OF 1(2) this] 1 show ?thesis by simp
  qed simp
qed auto

text \<open>The event is dispatched: \<^verbatim>\<open>handle\<close> does not abort, and afterwards the timer is idle or, when
  \<^verbatim>\<open>expire\<close> has set it again, pending.\<close>

lemma timer_fire_step:
  assumes ti: "TI (T, s)" and d: "deque ops s = Inr (Some (t_event T), s1)"
    and ok: "timer_calls_ok ops expire (T\<lparr>t_status := TIMER_HANDLING\<rparr>, advance (t_event T) s1)"
  shows "timer_handle ops expire (T, advance (t_event T) s1) = Inl uid_exhausted
    \<or> (\<exists>T' s'. timer_handle ops expire (T, advance (t_event T) s1) = Inr (T', s') \<and> TI (T', s') \<and> t_event T' = t_event T
        \<and> t_this T' = t_this T \<and> t_status T' \<noteq> TIMER_HANDLING \<and> clock s' = etime (events s (t_event T)))"
proof -
  from deque_step [OF _ d] ti obtain q' where s1: "s1 = s\<lparr>queue := q'\<rparr>" and e: "t_event T \<in> members (queue s)"
    and si: "SI (s\<lparr>queue := q', clock := etime (events s (t_event T)), events := negate_uid (t_event T) (events s)\<rparr>)"
    by (auto simp: timer_inv_def)
  have adv: "advance (t_event T) s1
      = s\<lparr>queue := q', clock := etime (events s (t_event T)), events := negate_uid (t_event T) (events s)\<rparr>"
    by (simp add: advance_def s1)
  have pos: "0 < euid (events s (t_event T))" using e ti by (auto simp: timer_inv_def sched_inv_def)
  then have pend: "t_status T = TIMER_PENDING" using TI_pending_uid [OF ti] by simp
  have "t_event T \<notin> members q'" using si pos unfolding sched_inv_def by auto
  then have ti': "TI (T\<lparr>t_status := TIMER_HANDLING\<rparr>, advance (t_event T) s1)"
    using si ti unfolding adv by (simp add: timer_inv_def)
  have clk: "clock (advance (t_event T) s1) = etime (events s (t_event T))" by (simp add: adv)
  from timer_calls_step [OF ti' ok] show ?thesis
  proof (elim disjE exE conjE)
    fix T' s'
    assume 1: "foldE (exec_timer_call ops) expire (T\<lparr>t_status := TIMER_HANDLING\<rparr>, advance (t_event T) s1) = Inr (T', s')"
      "TI (T', s')" "t_event T' = t_event (T\<lparr>t_status := TIMER_HANDLING\<rparr>)" "t_this T' = t_this (T\<lparr>t_status := TIMER_HANDLING\<rparr>)"
      "clock s' = clock (advance (t_event T) s1)"
    then show ?thesis using pend clk by (auto simp: timer_handle_def timer_inv_def)
  qed (simp add: timer_handle_def pend)
qed

lemma other_call_step:
  assumes ti: "TI (T, s)" and ok: "call_ok c s" and t: "t_event T \<notin> touches c" and ex: "exec_call ops c s = Inr s'"
  shows "TI (T, s')"
proof -
  have si: "SI s" using ti by (simp add: timer_inv_def)
  have si': "SI s'" using exec_call_step [OF si ok] ex by auto
  have "t_event T \<in> members (queue s') \<longleftrightarrow> t_event T \<in> members (queue s)"
    using exec_call_effect [OF si ok ex] t by (cases c) auto
  moreover have "ehandler (events s' (t_event T)) = ehandler (events s (t_event T))"
  proof (cases c)
    case (Schedule h a d)
    with ok t ex schedule_step [OF si, of h a d] show ?thesis by (auto split: if_splits)
  next
    case (Cancel a)
    with t ex cancel_step [OF si, of a] show ?thesis by auto
  qed (use ex t in auto)
  ultimately show ?thesis using ti si' by (simp add: timer_inv_def)
qed

lemma other_event_step:
  assumes ti: "TI (T, s)" and d: "deque ops s = Inr (Some e, s1)" and ne: "e \<noteq> t_event T"
  shows "TI (T, advance e s1)"
proof -
  from deque_step [OF _ d] ti obtain q' where s1: "s1 = s\<lparr>queue := q'\<rparr>"
    and si: "SI (s\<lparr>queue := q', clock := etime (events s e), events := negate_uid e (events s)\<rparr>)"
    by (auto simp: timer_inv_def)
  have adv: "advance e s1 = s\<lparr>queue := q', clock := etime (events s e), events := negate_uid e (events s)\<rparr>"
    by (simp add: advance_def s1)
  have "t_event T \<in> members q' \<longleftrightarrow> 0 < euid (events s (t_event T))" using si ne unfolding sched_inv_def by simp
  also have "\<dots> \<longleftrightarrow> t_status T = TIMER_PENDING" using TI_pending_uid [OF ti] by simp
  finally show ?thesis using si ti unfolding adv by (simp add: timer_inv_def)
qed

lemma timer_step_inv:
  "timer_step ops ts ts' \<Longrightarrow> TI ts \<Longrightarrow> TI ts' \<and> t_event (fst ts') = t_event (fst ts) \<and> t_this (fst ts') = t_this (fst ts)
    \<and> (t_status (fst ts) \<noteq> TIMER_HANDLING \<longrightarrow> t_status (fst ts') \<noteq> TIMER_HANDLING)"
proof (induction rule: timer_step.induct)
  case (client c ts ts')
  obtain T s where ts: "ts = (T, s)" by (cases ts)
  with client timer_call_step [of T s c] show ?case by auto
next
  case (other_call c s T s')
  then show ?case using other_call_step by auto
next
  case (other_event s e s1 T)
  then show ?case using other_event_step by auto
next
  case (fire s T s1 expire ts')
  from timer_fire_step [OF fire.prems fire.hyps(1,2)] fire.hyps(3) show ?case by auto
qed

lemma timer_reachable_inv:
  "(timer_step ops)\<^sup>*\<^sup>* ts ts' \<Longrightarrow> TI ts \<Longrightarrow> TI ts' \<and> t_event (fst ts') = t_event (fst ts) \<and> t_this (fst ts') = t_this (fst ts)
    \<and> (t_status (fst ts) \<noteq> TIMER_HANDLING \<longrightarrow> t_status (fst ts') \<noteq> TIMER_HANDLING)"
  by (induction rule: rtranclp_induct) (use timer_step_inv in auto)

lemma new_timer_inv: "SI s \<Longrightarrow> h \<noteq> 0 \<Longrightarrow> euid (events s e) \<le> 0 \<Longrightarrow> TI (new_TimerHandler h e, s)"
  by (auto simp: timer_inv_def new_TimerHandler_def sched_inv_def)

end

section \<open>Timers on the calendar scheduler\<close>

text \<open>C20. The state machine of a timer, whatever the rest of the simulation does: between two steps the
  timer is idle or pending, and pending exactly while its event is in the queue; every call the class
  allows in that state returns (unless the event numbers are used up); and when the scheduler takes
  the timer's event, \<^verbatim>\<open>handle\<close> does not abort, at the time the timer was set to.\<close>

theorem timer_state_machine:
  assumes "sched_inv cal_inv cal_members s0" and "h \<noteq> 0" and "euid (events s0 e) \<le> 0"
    and "(timer_step CalendarScheduler_ops)\<^sup>*\<^sup>* (new_TimerHandler h e, s0) (T, s)"
  shows "t_status T \<noteq> TIMER_HANDLING \<and> (t_status T = TIMER_PENDING \<longleftrightarrow> e \<in> cal_members (queue s))
    \<and> (\<forall>c. timer_call_ok c T \<longrightarrow> exec_timer_call CalendarScheduler_ops c (T, s) = Inl uid_exhausted
        \<or> (\<exists>ts. exec_timer_call CalendarScheduler_ops c (T, s) = Inr ts))
    \<and> (\<forall>s1 expire. deque CalendarScheduler_ops s = Inr (Some e, s1) \<longrightarrow>
        timer_calls_ok CalendarScheduler_ops expire (T\<lparr>t_status := TIMER_HANDLING\<rparr>, advance e s1) \<longrightarrow>
        timer_handle CalendarScheduler_ops expire (T, advance e s1) = Inl uid_exhausted
        \<or> (\<exists>T' s'. timer_handle CalendarScheduler_ops expire (T, advance e s1) = Inr (T', s')
            \<and> t_status T' \<noteq> TIMER_HANDLING \<and> clock s' = etime (events s e)))"
proof -
  have new: "timer_inv cal_inv cal_members (new_TimerHandler h e, s0)"
    by (rule calendar.new_timer_inv [OF assms(1-3)])
  have ti: "timer_inv cal_inv cal_members (T, s)" and e: "t_event T = e" and st: "t_status T \<noteq> TIMER_HANDLING"
    using calendar.timer_reachable_inv [OF assms(4) new] by (auto simp: new_TimerHandler_def)
  show ?thesis
  proof (intro conjI allI impI)
    show "t_status T = TIMER_PENDING \<longleftrightarrow> e \<in> cal_members (queue s)" using ti e by (auto simp: timer_inv_def)
  next
    fix c assume "timer_call_ok c T"
    from calendar.timer_call_step [OF ti this]
    show "exec_timer_call CalendarScheduler_ops c (T, s) = Inl uid_exhausted
        \<or> (\<exists>ts. exec_timer_call CalendarScheduler_ops c (T, s) = Inr ts)" by blast
  next
    fix s1 expire
    assume "deque CalendarScheduler_ops s = Inr (Some e, s1)"
      "timer_calls_ok CalendarScheduler_ops expire (T\<lparr>t_status := TIMER_HANDLING\<rparr>, advance e s1)"
    then show "timer_handle CalendarScheduler_ops expire (T, advance e s1) = Inl uid_exhausted
        \<or> (\<exists>T' s'. timer_handle CalendarScheduler_ops expire (T, advance e s1) = Inr (T', s')
            \<and> t_status T' \<noteq> TIMER_HANDLING \<and> clock s' = etime (events s e))"
      using calendar.timer_fire_step [OF ti, of s1 expire] e by auto
  qed (rule st)
qed

text \<open>Setting a timer that may be set already: whatever status it has, \<^verbatim>\<open>resched\<close> leaves it pending
  with its one event in the queue, that much after the clock, and every other event as it was.\<close>

theorem timer_resched_supersedes:
  assumes "timer_inv cal_inv cal_members (T, s)" and "0 \<le> d" and "0 < s_uid s"
  shows "\<exists>T' s'. timer_resched CalendarScheduler_ops d (T, s) = Inr (T', s') \<and> t_status T' = TIMER_PENDING
    \<and> timer_inv cal_inv cal_members (T', s')
    \<and> etime (events s' (t_event T)) = clock s + d
    \<and> cal_members (queue s') = insert (t_event T) (cal_members (queue s))"
proof -
  let ?r = "timer_resched CalendarScheduler_ops d (T, s)"
  have si: "sched_inv cal_inv cal_members s" and h: "t_this T \<noteq> 0" using assms(1) by (auto simp: timer_inv_def)
  obtain s1 where s1: "(if t_status T = TIMER_PENDING then timer_raw_cancel CalendarScheduler_ops (T, s) else Inr (T, s)) = Inr (T, s1)"
    "sched_inv cal_inv cal_members s1" "clock s1 = clock s" "euid (events s1 (t_event T)) \<le> 0" "s_uid s1 = s_uid s"
    "cal_members (queue s1) = cal_members (queue s) - {t_event T}"
  proof (cases "t_status T = TIMER_PENDING")
    case True
    obtain s1 where s1: "timer_raw_cancel CalendarScheduler_ops (T, s) = Inr (T, s1)" "sched_inv cal_inv cal_members s1"
      "clock s1 = clock s" "cal_members (queue s1) = cal_members (queue s) - {t_event T}" "euid (events s1 (t_event T)) \<le> 0"
      by (rule calendar.raw_cancel_step [OF assms(1)])
    moreover from s1(1) have "s_uid s1 = s_uid s"
      by (auto simp: timer_raw_cancel_def cancel_def bindE_eq_Inr)
    ultimately show thesis using True by (intro that [of s1]) simp_all
  next
    case False
    then have "t_event T \<notin> cal_members (queue s)" "euid (events s (t_event T)) \<le> 0"
      using assms(1) calendar.TI_pending_uid [OF assms(1)] by (auto simp: timer_inv_def)
    with False si show thesis by (intro that [of s]) auto
  qed
  have "timer_raw_sched CalendarScheduler_ops d (T, s1) \<noteq> Inl uid_exhausted"
    using calendar.schedule_step [OF s1(2) h s1(4) assms(2)] s1(5) assms(3) by (auto simp: timer_raw_sched_def)
  then obtain s' where s': "timer_raw_sched CalendarScheduler_ops d (T, s1) = Inr (T, s')"
    "timer_inv cal_inv cal_members (T\<lparr>t_status := TIMER_PENDING\<rparr>, s')" "etime (events s' (t_event T)) = clock s1 + d"
    "cal_members (queue s') = insert (t_event T) (cal_members (queue s1))"
    using calendar.raw_sched_step [OF s1(2) h s1(4) assms(2)] by blast
  then have "?r = Inr (T\<lparr>t_status := TIMER_PENDING\<rparr>, s')" using s1(1) by (simp add: timer_resched_def)
  with s' s1 show ?thesis by (intro exI conjI) auto
qed

lemma demo_timer:
  obtains c where "new_CalendarScheduler SCHED_START = Inr c" "sched_inv cal_inv cal_members (new_Scheduler demo_events c)"
    "timer_inv cal_inv cal_members (new_TimerHandler 7 2, new_Scheduler demo_events c)"
proof -
  obtain c where c: "new_CalendarScheduler SCHED_START = Inr c" "cal_inv demo_events c" "all_events c = []"
    by (rule new_CalendarScheduler_inv)
  then have "sched_inv cal_inv cal_members (new_Scheduler demo_events c)"
    using calendar.new_Scheduler_inv demo_events_idle by (simp add: cal_members_def)
  with c show thesis
    using calendar.new_timer_inv [of "new_Scheduler demo_events c" 7 2]
    by (intro that [of c]) (simp_all add: new_Scheduler_def demo_events_def)
qed

theorem timer_state_machine_witness:
  "\<exists>c. new_CalendarScheduler SCHED_START = Inr c
    \<and> timer_sched CalendarScheduler_ops 3 (new_TimerHandler 7 2, new_Scheduler demo_events c) \<noteq> Inl NullPointer"
proof -
  obtain c where c: "new_CalendarScheduler SCHED_START = Inr c" "sched_inv cal_inv cal_members (new_Scheduler demo_events c)"
    by (rule demo_timer)
  have "exec_timer_call CalendarScheduler_ops (TSched 3) (new_TimerHandler 7 2, new_Scheduler demo_events c) \<noteq> Inl NullPointer"
    using timer_state_machine [OF c(2), of 7 2 "new_TimerHandler 7 2" "new_Scheduler demo_events c"]
    by (auto simp: new_Scheduler_def demo_events_def new_TimerHandler_def uid_exhausted_def
      dest!: spec [where x = "TSched 3"])
  with c(1) show ?thesis by simp
qed

theorem timer_resched_supersedes_witness:
  "\<exists>c T' s'. new_CalendarScheduler SCHED_START = Inr c
    \<and> timer_resched CalendarScheduler_ops 3 (new_TimerHandler 7 2, new_Scheduler demo_events c) = Inr (T', s')
    \<and> etime (events s' 2) = 3"
proof -
  obtain c where c: "new_CalendarScheduler SCHED_START = Inr c"
    "timer_inv cal_inv cal_members (new_TimerHandler 7 2, new_Scheduler demo_events c)"
    by (rule demo_timer)
  from timer_resched_supersedes [OF c(2), of 3] c(1) show ?thesis
    by (auto simp: new_Scheduler_def new_TimerHandler_def SCHED_START_def)
qed

end
