(* ===== verification/Ns_RawEvents.thy ===== *)
theory Ns_RawEvents
  imports Ns_Timer Ns_Heap
begin

text \<open>
  Events that go past \<^verbatim>\<open>Scheduler::schedule\<close>: the GEA backend of ns-2 hands its events to
  \<^verbatim>\<open>Scheduler::insert\<close> itself, with \<^verbatim>\<open>uid_\<close> 0
  (\<^verbatim>\<open>src/ns2-gea/ns-2/gea/ShadowEventHandler.cc\<close>, \<^verbatim>\<open>waitFor\<close>).

  The contract \<open>event_queue\<close> does not promise anything of such an insertion; \<open>raw_queue\<close> adds the
  promise, and the list, heap and calendar schedulers keep it. The splay scheduler does not: its
  \<^verbatim>\<open>cancel\<close> can miss an event of the queue behind one with number 0.
\<close>

section \<open>The contract and the weaker invariant\<close>

locale raw_queue = event_queue ops qinv members
  for ops :: "'q ops" and qinv :: "events \<Rightarrow> 'q \<Rightarrow> bool" and members :: "'q \<Rightarrow> eaddr set" +
  assumes raw_insert_law: "qinv ev q \<Longrightarrow> e \<notin> members q \<Longrightarrow> 0 \<le> etime (ev e) \<Longrightarrow>
    \<exists>q'. op_insert ops ev e q = Inr q' \<and> qinv ev q' \<and> members q' = insert e (members q)"

text \<open>The numbered events are in the queue, beside others whose number is 0.\<close>

definition raw_inv :: "(events \<Rightarrow> 'q \<Rightarrow> bool) \<Rightarrow> ('q \<Rightarrow> eaddr set) \<Rightarrow> 'q Scheduler \<Rightarrow> bool" where
  "raw_inv qinv members s \<longleftrightarrow>
     qinv (events s) (queue s) \<and> {a. 0 < euid (events s a)} \<subseteq> members (queue s)
     \<and> (\<forall>a \<in> members (queue s). clock s \<le> etime (events s a) \<and> ehandler (events s a) \<noteq> 0
         \<and> 0 \<le> euid (events s a) \<and> (0 < s_uid s \<longrightarrow> euid (events s a) < s_uid s))
     \<and> 0 \<le> clock s \<and> s_uid s \<noteq> 0"

text \<open>\<^verbatim>\<open>Scheduler::instance().insert(e)\<close> of an event just made: handler and time set, number 0.\<close>

definition insert_raw :: "'q ops \<Rightarrow> eaddr \<Rightarrow> nat \<Rightarrow> double \<Rightarrow> 'q Scheduler \<Rightarrow> 'q Scheduler result" where
  "insert_raw ops a h t s =
     (let ev = (events s)(a := \<lparr>ehandler = h, etime = t, euid = 0\<rparr>) in
      bindE (op_insert ops ev a (queue s)) (\<lambda>q. Inr (s\<lparr>events := ev, queue := q\<rparr>)))"

lemma sched_inv_raw_inv: "sched_inv qinv members s \<Longrightarrow> raw_inv qinv members s"
  unfolding sched_inv_def raw_inv_def by (auto simp: less_imp_le)

context raw_queue begin

abbreviation RI :: "'q Scheduler \<Rightarrow> bool" where
  "RI \<equiv> raw_inv qinv members"

lemma insert_raw_step:
  assumes ri: "RI s" and a: "a \<notin> members (queue s)" and h: "h \<noteq> 0" and t: "clock s \<le> t"
  obtains s' where "insert_raw ops a h t s = Inr s'" "RI s'" "clock s' = clock s" "halted s' = halted s" "s_uid s' = s_uid s"
    "members (queue s') = insert a (members (queue s))" "events s' = (events s)(a := \<lparr>ehandler = h, etime = t, euid = 0\<rparr>)"
proof -
  define ev where "ev = (events s)(a := \<lparr>ehandler = h, etime = t, euid = 0\<rparr>)"
  have "same_on (members (queue s)) (events s) ev" using a by (auto simp: same_on_def ev_def)
  then have "qinv ev (queue s)" using ri inv_cong by (auto simp: raw_inv_def)
  moreover have "0 \<le> etime (ev a)" using ri t by (auto simp: raw_inv_def ev_def)
  ultimately obtain q' where q': "op_insert ops ev a (queue s) = Inr q'" "qinv ev q'"
    "members q' = insert a (members (queue s))" using raw_insert_law a by blast
  have uid: "\<not> 0 < euid (events s a)" using ri a by (auto simp: raw_inv_def)
  have "RI (s\<lparr>events := ev, queue := q'\<rparr>)"
    using ri q' a h t uid unfolding raw_inv_def by (auto simp: ev_def)
  with q' show thesis by (intro that [of "s\<lparr>events := ev, queue := q'\<rparr>"]) (simp_all add: insert_raw_def ev_def)
qed

lemma raw_schedule_step:
  assumes ri: "RI s" and h: "h \<noteq> 0" and e: "e \<notin> members (queue s)" and d: "0 \<le> d"
  shows "s_uid s < 0 \<and> schedule ops h e d s = Inl uid_exhausted
    \<or> (\<exists>s'. schedule ops h e d s = Inr s' \<and> RI s' \<and> clock s' = clock s \<and> halted s' = halted s
      \<and> members (queue s') = insert e (members (queue s)) \<and> 0 < euid (events s' e)
      \<and> ehandler (events s' e) = h \<and> etime (events s' e) = clock s + d \<and> (\<forall>a. a \<noteq> e \<longrightarrow> events s' a = events s a))"
proof (cases "s_uid s < 0")
  case True
  moreover have "\<not> 0 < euid (events s e)" using ri e by (auto simp: raw_inv_def)
  ultimately show ?thesis using h by (simp add: schedule_def)
next
  case False
  define ev where "ev = (events s)(e := (events s e)\<lparr>euid := s_uid s, ehandler := h, etime := clock s + d\<rparr>)"
  have uid: "0 < s_uid s" and e0: "\<not> 0 < euid (events s e)" using False ri e by (auto simp: raw_inv_def)
  have "same_on (members (queue s)) (events s) ev" using e by (auto simp: same_on_def ev_def)
  then have "qinv ev (queue s)" using ri inv_cong by (auto simp: raw_inv_def)
  moreover have "insertable ev e (members (queue s))"
    using e ri d uid by (auto simp: insertable_def ev_def raw_inv_def)
  ultimately obtain q' where q': "op_insert ops ev e (queue s) = Inr q'" "qinv ev q'"
    "members q' = insert e (members (queue s))" using insert_law by blast
  let ?s = "s\<lparr>events := ev, s_uid := next_uid (s_uid s), queue := q'\<rparr>"
  have "schedule ops h e d s = Inr ?s" using q'(1) h e0 False by (simp add: schedule_def Let_def ev_def)
  moreover have "RI ?s"
    using ri q' e h d uid next_uid_positive [OF uid] unfolding raw_inv_def by (force simp: ev_def)
  ultimately show ?thesis using q' uid by (simp add: ev_def)
qed

lemma raw_cancel_step:
  assumes ri: "RI s" and e: "0 < euid (events s e)"
  obtains s' where "cancel ops e s = Inr s'" "RI s'" "clock s' = clock s" "halted s' = halted s"
    "members (queue s') = members (queue s) - {e}" "euid (events s' e) < 0" "\<forall>a. a \<noteq> e \<longrightarrow> events s' a = events s a"
proof -
  have "e \<in> members (queue s)" using ri e by (auto simp: raw_inv_def)
  then obtain q' where q': "op_cancel ops (events s) e (queue s) = Inr (negate_uid e (events s), q')" "qinv (events s) q'"
    "members q' = members (queue s) - {e}" using cancel_law [of "events s" "queue s" e] e ri unfolding raw_inv_def by blast
  have "same_on (members q') (events s) (negate_uid e (events s))" using q'(3) by (auto simp: same_on_def)
  then have "qinv (negate_uid e (events s)) q'" using q'(2) inv_cong by blast
  then have "RI (s\<lparr>events := negate_uid e (events s), queue := q'\<rparr>)"
    using ri q'(3) e unfolding raw_inv_def by auto
  with q' e show thesis
    by (intro that [of "s\<lparr>events := negate_uid e (events s), queue := q'\<rparr>"]) (simp_all add: cancel_def negate_uid_def)
qed

lemma raw_deque_step:
  assumes ri: "RI s"
  obtains s1 where "deque ops s = Inr (None, s1)" "members (queue s1) = {}" "members (queue s) = {}" "RI s1" "clock s1 = clock s"
      "events s1 = events s"
  | e s1 where "deque ops s = Inr (Some e, s1)" "e \<in> members (queue s)" "events s1 = events s" "clock s1 = clock s"
      "halted s1 = halted s" "RI (advance e s1)"
      "members (queue s1) = members (queue s) - {e}" "clock s \<le> etime (events s e)"
proof -
  obtain r q' where q': "op_deque ops (events s) (queue s) = Inr (r, q')" "qinv (events s) q'"
    "members q' = members (queue s) - set_option r" "next_event (events s) (members (queue s)) r"
    using deque_law [of "events s" "queue s"] ri unfolding raw_inv_def by blast
  show thesis
  proof (cases r)
    case None
    with q' ri show thesis
      by (intro that(1) [of "s\<lparr>queue := q'\<rparr>"]) (auto simp: deque_def next_event_def raw_inv_def)
  next
    case (Some e)
    have e: "e \<in> members (queue s)" and min: "\<forall>x \<in> members (queue s). etime (events s e) \<le> etime (events s x)"
      using q'(4) Some by (auto simp: next_event_def)
    have ge: "clock s \<le> etime (events s e)" "0 \<le> clock s" "0 \<le> euid (events s e)" using ri e by (auto simp: raw_inv_def)
    have "same_on (members q') (events s) (negate_uid e (events s))" using q'(3) Some by (auto simp: same_on_def)
    then have "qinv (negate_uid e (events s)) q'" using q'(2) inv_cong by blast
    then have "RI (advance e (s\<lparr>queue := q'\<rparr>))"
      using ri q'(3) Some min ge unfolding raw_inv_def advance_def by auto
    with q' Some e ge show thesis
      by (intro that(2) [of e "s\<lparr>queue := q'\<rparr>"]) (auto simp: deque_def)
  qed
qed

end

section \<open>The schedulers that keep the contract\<close>

interpretation raw_list: raw_queue ListScheduler_ops list_inv set
  by unfold_locales (auto simp: ListScheduler_ops_def ListScheduler_insert_upper list_inv_def distinct_insert_upper)

interpretation raw_heap: raw_queue HeapScheduler_ops heap_inv heap_members
  by unfold_locales (use heap_insert_law in \<open>auto simp: HeapScheduler_ops_def\<close>)

interpretation raw_calendar: raw_queue CalendarScheduler_ops cal_inv cal_members
proof unfold_locales
  fix ev q e assume "cal_inv ev q" "e \<notin> cal_members q" "0 \<le> etime (ev e)"
  then obtain s' where s': "Calendar_insert ev e q = Inr s'" "cal_inv ev s'" "mset (all_events s') = add_mset e (mset (all_events q))"
    using Calendar_insert_law [of ev q e] by (auto simp: cal_members_def)
  then have "set (all_events s') = insert e (set (all_events q))"
    by (metis set_mset_add_mset_insert set_mset_mset)
  with s' show "\<exists>q'. op_insert CalendarScheduler_ops ev e q = Inr q' \<and> cal_inv ev q' \<and> cal_members q' = insert e (cal_members q)"
    by (auto simp: CalendarScheduler_ops_def cal_members_def)
qed

end
