(* ===== verification/Ns_Gea.thy ===== *)
theory Ns_Gea
  imports Gea_Time Gea_Handle Gea_Udp Ns_RawEvents
begin

text \<open>
  The ns-2 implementation of GEA: \<^verbatim>\<open>src/ns2-gea/ns-2/gea/\<close>.

  The event handler has no loop of its own; it is a handler of the simulator's scheduler. A blocker
  becomes an event \<^verbatim>\<open>GeaNsEvent\<close> of number 0 in the scheduler's queue, a dependency and a UDP
  handle in read mode own a timer, and a UDP handle in write mode is served at once. A dependency
  that is triggered goes into \<^verbatim>\<open>pendingList\<close> and its event is called by \<^verbatim>\<open>doPendingEvents\<close>.

  The state: the scheduler, the handles with their sub-objects, the events allocated for blockers,
  the pending list, the current node, the time of the last event, the packets handed to agents, and
  the log of the calls of event functions, from which the application's state can be read. Handle,
  node and event function addresses are numbers. The addresses of events are numbered apart: \<open>3 h\<close>
  for the timer of the dependency \<open>h\<close>, \<open>3 h + 1\<close> for the timer of the UDP handle \<open>h\<close>, \<open>3 k + 2\<close> for
  the \<open>k\<close>-th \<^verbatim>\<open>GeaNsEvent\<close>; the handler of a timer's event is the address plus 2 and the event
  handler itself is handler 1.

  What is not under \<^verbatim>\<open>src/\<close>: \<^verbatim>\<open>Duration::getSecondsD\<close> belongs to a later release of the
  library than the one in the tree, and the application's event functions; both are members of the
  environment, as are \<^verbatim>\<open>Address::get_nodeaddr\<close> and the virtual operations of the scheduler.

  The network between the agents is not part of this directory: \<open>ne_network\<close> says which packet it delivers
  next, when, and to which handle, from the state, in which \<open>n_sent\<close> are the packets handed to it. It may delay,
  lose, repeat and reorder them. A delivery calls \<^verbatim>\<open>process_data\<close> of the handle, as \<^verbatim>\<open>UdpAgent::recv\<close> does.

  Event functions can wait for a UDP handle in write mode, which calls an event function at once, and
  can trigger dependencies while \<^verbatim>\<open>doPendingEvents\<close> runs; both need not end and take fuel.
\<close>

section \<open>State\<close>

datatype NsHandleType = NsBlocker | NsDepend | NsUdp

record NsHandle =
  nh_status :: "Status option"
  nh_type :: NsHandleType
  nh_node :: nat

record NsShadowDepend =
  sd_timer :: TimerHandler
  sd_triggered :: bool
  sd_e :: nat
  sd_data :: nat

datatype Mode = Write | Read

record Agent =
  ag_daddr :: int
  ag_dport :: int
  ag_node :: nat
  ag_attach :: "int option"

record ShadowUdpHandle =
  su_timer :: TimerHandler
  su_agent :: "Agent option"
  su_e :: nat
  su_data :: nat
  su_timeout :: AbsTime
  su_curData :: "byte list option"
  su_mode :: Mode
  su_addr :: UdpAddress
  su_src :: UdpAddress

record GeaNsEvent =
  ge_h :: addr
  ge_timeout :: AbsTime
  ge_event :: nat
  ge_data :: nat

record PendingDescr =
  pd_h :: addr
  pd_data :: nat
  pd_e :: nat
  pd_t :: AbsTime

text \<open>An entry of the log: the event function, the handle, the time and data it got, the status of
  the handle and the current node during the call.\<close>

record call_log =
  cl_e :: nat
  cl_h :: addr
  cl_t :: AbsTime
  cl_data :: nat
  cl_status :: "Status option"
  cl_node :: nat

record 'q NsGea =
  n_sched :: "'q Scheduler"
  n_handles :: "addr \<rightharpoonup> NsHandle"
  n_deps :: "addr \<rightharpoonup> NsShadowDepend"
  n_udps :: "addr \<rightharpoonup> ShadowUdpHandle"
  n_events :: "nat \<rightharpoonup> GeaNsEvent"
  n_next :: nat
  pendingList :: "PendingDescr list"
  currentNode :: nat
  shadow_currentNode :: nat
  n_last :: AbsTime
  n_sent :: "(addr \<times> byte list) list"
  n_log :: "call_log list"

datatype ns_call =
    NsWaitFor addr AbsTime nat nat
  | NsComplied addr
  | NsWrite addr "byte list"
  | NsSetDest addr UdpAddress
  | NsNewBlocker addr
  | NsNewDepend addr
  | NsNewUdp addr bool UdpAddress
  | NsDelete addr

record 'q ns_env =
  ne_ops :: "'q ops"
  getSecondsD :: "Duration \<Rightarrow> double"
  get_nodeaddr :: "int \<Rightarrow> int"
  ne_callback :: "nat \<Rightarrow> addr \<Rightarrow> AbsTime \<Rightarrow> nat \<Rightarrow> 'q NsGea \<Rightarrow> ns_call list"
  ne_network :: "'q NsGea \<Rightarrow> (double \<times> addr \<times> int \<times> u16 \<times> byte list) option"

section \<open>Timers of handles\<close>

definition dep_event :: "addr \<Rightarrow> eaddr" where "dep_event h = 3 * h"
definition udp_event :: "addr \<Rightarrow> eaddr" where "udp_event h = 3 * h + 1"
definition gea_event :: "nat \<Rightarrow> eaddr" where "gea_event k = 3 * k + 2"

definition EVENT_HANDLER :: nat where "EVENT_HANDLER = 1"

definition new_timer :: "eaddr \<Rightarrow> TimerHandler" where
  "new_timer a = new_TimerHandler (a + 2) a"

definition dep_timer_op :: "('q timed \<Rightarrow> 'q timed result) \<Rightarrow> addr \<Rightarrow> 'q NsGea \<Rightarrow> 'q NsGea result" where
  "dep_timer_op f h s =
     bindE (derefE (n_deps s h)) (\<lambda>sd.
     bindE (f (sd_timer sd, n_sched s)) (\<lambda>(T, sc).
       Inr (s\<lparr>n_sched := sc, n_deps := (n_deps s)(h \<mapsto> sd\<lparr>sd_timer := T\<rparr>)\<rparr>)))"

definition udp_timer_op :: "('q timed \<Rightarrow> 'q timed result) \<Rightarrow> addr \<Rightarrow> 'q NsGea \<Rightarrow> 'q NsGea result" where
  "udp_timer_op f h s =
     bindE (derefE (n_udps s h)) (\<lambda>su.
     bindE (f (su_timer su, n_sched s)) (\<lambda>(T, sc).
       Inr (s\<lparr>n_sched := sc, n_udps := (n_udps s)(h \<mapsto> su\<lparr>su_timer := T\<rparr>)\<rparr>)))"

definition set_nh_status :: "Status \<Rightarrow> addr \<Rightarrow> 'q NsGea \<Rightarrow> 'q NsGea result" where
  "set_nh_status st h s =
     bindE (derefE (n_handles s h)) (\<lambda>x. Inr (s\<lparr>n_handles := (n_handles s)(h \<mapsto> x\<lparr>nh_status := Some st\<rparr>)\<rparr>))"

section \<open>Time\<close>

text \<open>\<^verbatim>\<open>Ns2ApiIface::getCurrentTime\<close>, as it is compiled for the library in the tree.\<close>

definition ns_getCurrentTime :: "double \<Rightarrow> AbsTime" where
  "ns_getCurrentTime time_now = AbsTime (word_of_int (trunc (time_now * of_int (sint FixNum_offset))))"

definition ns_now :: "'q NsGea \<Rightarrow> AbsTime" where
  "ns_now s = ns_getCurrentTime (clock (n_sched s))"

section \<open>Creating handles\<close>

definition ns_createShadowHandle :: "addr \<Rightarrow> 'q NsGea \<Rightarrow> 'q NsGea" where
  "ns_createShadowHandle h s =
     s\<lparr>n_handles := (n_handles s)(h \<mapsto> \<lparr>nh_status = None, nh_type = NsUdp, nh_node = currentNode s\<rparr>)\<rparr>"

definition ns_createSubBlocker :: "addr \<Rightarrow> 'q NsGea \<Rightarrow> 'q NsGea result" where
  "ns_createSubBlocker h s =
     bindE (derefE (n_handles s h)) (\<lambda>x. Inr (s\<lparr>n_handles := (n_handles s)(h \<mapsto> x\<lparr>nh_type := NsBlocker\<rparr>)\<rparr>))"

definition ns_createSubDepend :: "addr \<Rightarrow> 'q NsGea \<Rightarrow> 'q NsGea result" where
  "ns_createSubDepend h s =
     bindE (derefE (n_handles s h)) (\<lambda>x.
       Inr (s\<lparr>n_handles := (n_handles s)(h \<mapsto> x\<lparr>nh_type := NsDepend\<rparr>),
              n_deps := (n_deps s)(h \<mapsto> \<lparr>sd_timer = new_timer (dep_event h), sd_triggered = False, sd_e = 0, sd_data = 0\<rparr>)\<rparr>))"

definition makeShadowUdpHandle :: "Mode \<Rightarrow> UdpAddress \<Rightarrow> addr \<Rightarrow> 'q NsGea \<Rightarrow> ShadowUdpHandle" where
  "makeShadowUdpHandle m a h s =
     \<lparr>su_timer = new_timer (udp_event h), su_agent = None, su_e = 0, su_data = 0, su_timeout = ns_now s,
      su_curData = None, su_mode = m, su_addr = a, su_src = new_UdpAddress 0 0\<rparr>"

text \<open>\<^verbatim>\<open>init\<close>: a new agent, its destination set in write mode, attached to the current node at a
  port of the node's choice, in read mode at the port of the address. A signed 32-bit number is
  written for each.\<close>

definition udp_init :: "nat \<Rightarrow> ShadowUdpHandle \<Rightarrow> ShadowUdpHandle" where
  "udp_init node su =
     su\<lparr>su_agent := Some
       (if su_mode su = Write
        then \<lparr>ag_daddr = sint (ip (su_addr su)), ag_dport = uint (port (su_addr su)), ag_node = node, ag_attach = None\<rparr>
        else \<lparr>ag_daddr = 0, ag_dport = 0, ag_node = node, ag_attach = Some (uint (port (su_addr su)))\<rparr>)\<rparr>"

definition ns_createSubUdpHandle :: "addr \<Rightarrow> bool \<Rightarrow> UdpAddress \<Rightarrow> 'q NsGea \<Rightarrow> 'q NsGea" where
  "ns_createSubUdpHandle h receiveMode a s =
     s\<lparr>n_udps := (n_udps s)(h \<mapsto>
         udp_init (currentNode s) (makeShadowUdpHandle (if receiveMode then Read else Write) a h s))\<rparr>"

definition ns_destroyShadowHandle :: "addr \<Rightarrow> 'q NsGea \<Rightarrow> 'q NsGea result" where
  "ns_destroyShadowHandle h s =
     bindE (assertE ''h->shadowHandle'' (n_handles s h \<noteq> None)) (\<lambda>_. Inr (s\<lparr>n_handles := (n_handles s)(h := None)\<rparr>))"

definition ns_destroySubUdpHandle :: "addr \<Rightarrow> 'q NsGea \<Rightarrow> 'q NsGea result" where
  "ns_destroySubUdpHandle h s =
     bindE (assertE ''udpHandle->subUdpHandle'' (n_udps s h \<noteq> None)) (\<lambda>_. Inr (s\<lparr>n_udps := (n_udps s)(h := None)\<rparr>))"

text \<open>The constructors and destructors of the handle classes, which the library shares between its
  implementations: \<^verbatim>\<open>~DependHandle\<close> creates a sub-object where it should destroy one.\<close>

definition ns_new_Blocker :: "addr \<Rightarrow> 'q NsGea \<Rightarrow> 'q NsGea result" where
  "ns_new_Blocker h s = ns_createSubBlocker h (ns_createShadowHandle h s)"

definition ns_new_DependHandle :: "addr \<Rightarrow> 'q NsGea \<Rightarrow> 'q NsGea result" where
  "ns_new_DependHandle h s = ns_createSubDepend h (ns_createShadowHandle h s)"

definition ns_new_UdpHandle :: "addr \<Rightarrow> bool \<Rightarrow> UdpAddress \<Rightarrow> 'q NsGea \<Rightarrow> 'q NsGea result" where
  "ns_new_UdpHandle h receiveMode a s = Inr (ns_createSubUdpHandle h receiveMode a (ns_createShadowHandle h s))"

definition ns_delete :: "addr \<Rightarrow> 'q NsGea \<Rightarrow> 'q NsGea result" where
  "ns_delete h s =
     bindE (derefE (n_handles s h)) (\<lambda>x.
     bindE (case nh_type x of
              NsBlocker \<Rightarrow> Inr s
            | NsDepend \<Rightarrow> ns_createSubDepend h s
            | NsUdp \<Rightarrow> ns_destroySubUdpHandle h s)
       (ns_destroyShadowHandle h))"

section \<open>Registering and triggering\<close>

definition addPendingEvent :: "addr \<Rightarrow> nat \<Rightarrow> AbsTime \<Rightarrow> nat \<Rightarrow> 'q NsGea \<Rightarrow> 'q NsGea" where
  "addPendingEvent h e t d s = s\<lparr>pendingList := pendingList s @ [\<lparr>pd_h = h, pd_data = d, pd_e = e, pd_t = t\<rparr>]\<rparr>"

definition ns_complied :: "addr \<Rightarrow> 'q NsGea \<Rightarrow> 'q NsGea result" where
  "ns_complied h s =
     bindE (derefE (n_handles s h)) (\<lambda>x.
     bindE (derefE (n_deps s h)) (\<lambda>sd.
       if nh_status x \<noteq> Some Blocked then Inr s
       else
         let s1 = s\<lparr>n_deps := (n_deps s)(h \<mapsto> sd\<lparr>sd_triggered := True\<rparr>),
                    n_handles := (n_handles s)(h \<mapsto> x\<lparr>nh_status := Some Ready\<rparr>)\<rparr>
         in Inr (addPendingEvent h (sd_e sd) (n_last s1) (sd_data sd) s1)))"

definition activate :: "'q ns_env \<Rightarrow> addr \<Rightarrow> AbsTime \<Rightarrow> nat \<Rightarrow> nat \<Rightarrow> 'q NsGea \<Rightarrow> 'q NsGea result" where
  "activate env h t e d s =
     bindE (derefE (n_deps s h)) (\<lambda>sd.
     bindE (assertE ''this->status() != TIMER_PENDING'' (t_status (sd_timer sd) \<noteq> TIMER_PENDING)) (\<lambda>_.
     bindE (dep_timer_op (timer_resched (ne_ops env) (getSecondsD env (time_diff t (ns_now s)))) h
              (s\<lparr>n_deps := (n_deps s)(h \<mapsto> sd\<lparr>sd_e := e, sd_data := d\<rparr>)\<rparr>)) (\<lambda>s1.
     bindE (derefE (n_deps s1 h)) (\<lambda>sd1.
     bindE (assertE ''this->status() == TIMER_PENDING'' (t_status (sd_timer sd1) = TIMER_PENDING)) (\<lambda>_. Inr s1)))))"

definition setup_event :: "'q ns_env \<Rightarrow> addr \<Rightarrow> nat \<Rightarrow> nat \<Rightarrow> AbsTime \<Rightarrow> 'q NsGea \<Rightarrow> 'q NsGea result" where
  "setup_event env h e d timeout s =
     bindE (derefE (n_udps s h)) (\<lambda>su.
       udp_timer_op (timer_resched (ne_ops env) (getSecondsD env (time_diff timeout (ns_now s)))) h
         (s\<lparr>n_udps := (n_udps s)(h \<mapsto> su\<lparr>su_e := e, su_data := d, su_timeout := timeout\<rparr>)\<rparr>))"

definition insert_GeaNsEvent :: "'q ns_env \<Rightarrow> addr \<Rightarrow> AbsTime \<Rightarrow> nat \<Rightarrow> nat \<Rightarrow> 'q NsGea \<Rightarrow> 'q NsGea result" where
  "insert_GeaNsEvent env h timeout e d s =
     (let k = n_next s in
      bindE (insert_raw (ne_ops env) (gea_event k) EVENT_HANDLER (getSecondsD env (time_diff timeout AbsTime_t0)) (n_sched s)) (\<lambda>sc.
        Inr (s\<lparr>n_sched := sc, n_next := Suc k,
               n_events := (n_events s)(k \<mapsto> \<lparr>ge_h = h, ge_timeout = timeout, ge_event = e, ge_data = d\<rparr>)\<rparr>)))"

section \<open>Reading and writing\<close>

definition udp_write :: "addr \<Rightarrow> byte list \<Rightarrow> 'q NsGea \<Rightarrow> (int \<times> 'q NsGea) result" where
  "udp_write h buf s =
     bindE (derefE (n_handles s h)) (\<lambda>x.
     bindE (derefE (n_udps s h)) (\<lambda>su.
       if nh_status x \<noteq> Some Ready then Inr (-1, s)
       else bindE (derefE (su_agent su)) (\<lambda>_. Inr (int (length buf), s\<lparr>n_sent := n_sent s @ [(h, buf)]\<rparr>))))"

definition udp_read :: "addr \<Rightarrow> nat \<Rightarrow> 'q NsGea \<Rightarrow> (int \<times> byte list) result" where
  "udp_read h sz s =
     bindE (derefE (n_handles s h)) (\<lambda>x.
     bindE (derefE (n_udps s h)) (\<lambda>su.
       if nh_status x \<noteq> Some Ready then Inr (-1, [])
       else
         (case su_curData su of
            None \<Rightarrow> Inl (AssertFailed ''this->curData'')
          | Some cur \<Rightarrow> Inr (int (min sz (length cur)), take sz cur))))"

definition udp_setDest :: "addr \<Rightarrow> UdpAddress \<Rightarrow> 'q NsGea \<Rightarrow> 'q NsGea result" where
  "udp_setDest h a s =
     bindE (derefE (n_udps s h)) (\<lambda>su.
     bindE (derefE (su_agent su)) (\<lambda>ag.
       Inr (s\<lparr>n_udps := (n_udps s)(h \<mapsto>
         su\<lparr>su_addr := a, su_agent := Some (ag\<lparr>ag_daddr := sint (ip a), ag_dport := uint (port a)\<rparr>)\<rparr>)\<rparr>)))"

section \<open>Calling event functions\<close>

definition log_call :: "nat \<Rightarrow> addr \<Rightarrow> AbsTime \<Rightarrow> nat \<Rightarrow> 'q NsGea \<Rightarrow> 'q NsGea" where
  "log_call e h t d s =
     s\<lparr>n_log := n_log s @ [\<lparr>cl_e = e, cl_h = h, cl_t = t, cl_data = d,
        cl_status = Option.bind (n_handles s h) nh_status, cl_node = currentNode s\<rparr>]\<rparr>"

text \<open>\<open>callEvent\<close> is \<^verbatim>\<open>e(h, t, data)\<close>; \<open>callPending\<close> the body of the inner loop of
  \<^verbatim>\<open>doPendingEvents\<close>.\<close>

function exec_ns_call :: "'q ns_env \<Rightarrow> nat \<Rightarrow> ns_call \<Rightarrow> 'q NsGea \<Rightarrow> 'q NsGea result"
  and ns_waitFor :: "'q ns_env \<Rightarrow> nat \<Rightarrow> addr \<Rightarrow> AbsTime \<Rightarrow> nat \<Rightarrow> nat \<Rightarrow> 'q NsGea \<Rightarrow> 'q NsGea result"
  and callEvent :: "'q ns_env \<Rightarrow> nat \<Rightarrow> nat \<Rightarrow> addr \<Rightarrow> AbsTime \<Rightarrow> nat \<Rightarrow> 'q NsGea \<Rightarrow> 'q NsGea result"
  and callPending :: "'q ns_env \<Rightarrow> nat \<Rightarrow> AbsTime \<Rightarrow> PendingDescr \<Rightarrow> 'q NsGea \<Rightarrow> 'q NsGea result"
  and doPendingEvents :: "'q ns_env \<Rightarrow> nat \<Rightarrow> AbsTime \<Rightarrow> 'q NsGea \<Rightarrow> 'q NsGea result" where
  "exec_ns_call env n c s =
     (case c of
        NsWaitFor h t e d \<Rightarrow> ns_waitFor env n h t e d s
      | NsComplied h \<Rightarrow> ns_complied h s
      | NsWrite h buf \<Rightarrow> bindE (udp_write h buf s) (\<lambda>(r, s'). Inr s')
      | NsSetDest h a \<Rightarrow> udp_setDest h a s
      | NsNewBlocker h \<Rightarrow> ns_new_Blocker h s
      | NsNewDepend h \<Rightarrow> ns_new_DependHandle h s
      | NsNewUdp h r a \<Rightarrow> ns_new_UdpHandle h r a s
      | NsDelete h \<Rightarrow> ns_delete h s)"
| "ns_waitFor env n h timeout e d s =
     bindE (set_nh_status Blocked h s) (\<lambda>s1.
     bindE (derefE (n_handles s1 h)) (\<lambda>x.
       case nh_type x of
         NsBlocker \<Rightarrow> insert_GeaNsEvent env h timeout e d s1
       | NsDepend \<Rightarrow> activate env h timeout e d s1
       | NsUdp \<Rightarrow> bindE (derefE (n_udps s1 h)) (\<lambda>su.
           if su_mode su = Read then setup_event env h e d timeout s1
           else
             bindE (set_nh_status Ready h s1) (\<lambda>s2.
             bindE (callEvent env n e h (ns_now s2) d s2) (doPendingEvents env n timeout)))))"
| "callEvent env 0 e h t d s = Inl OutOfFuel"
| "callEvent env (Suc n) e h t d s =
     (if e = 0 then Inl NullPointer
      else foldE (exec_ns_call env n) (ne_callback env e h t d (log_call e h t d s)) (log_call e h t d s))"
| "callPending env n t i s =
     bindE (derefE (n_deps s (pd_h i))) (\<lambda>sd.
     bindE (assertE ''shadowDepend->status() == TIMER_PENDING'' (t_status (sd_timer sd) = TIMER_PENDING)) (\<lambda>_.
     bindE (dep_timer_op (timer_cancel (ne_ops env)) (pd_h i) s) (\<lambda>s1.
       callEvent env n (pd_e i) (pd_h i) t (pd_data i) (s1\<lparr>n_last := t\<rparr>))))"
| "doPendingEvents env 0 t s = Inl OutOfFuel"
| "doPendingEvents env (Suc n) t s =
     (if pendingList s = [] then Inr s
      else bindE (foldE (callPending env n t) (pendingList s) (s\<lparr>pendingList := []\<rparr>)) (doPendingEvents env n t))"
  by pat_completeness auto
termination
  by (relation "inv_image (less_than <*lex*> less_than) (\<lambda>x. case x of
      Inl (Inl (env, n, c, s)) \<Rightarrow> (n, 3)
    | Inl (Inr (env, n, h, t, e, d, s)) \<Rightarrow> (n, 2)
    | Inr (Inl (env, n, e, h, t, d, s)) \<Rightarrow> (n, 1)
    | Inr (Inr (Inl (env, n, t, i, s))) \<Rightarrow> (n, 2)
    | Inr (Inr (Inr (env, n, t, s))) \<Rightarrow> (n, 1 :: nat))") auto

declare exec_ns_call.simps [simp del] ns_waitFor.simps [simp del] callPending.simps [simp del]

section \<open>Handlers\<close>

definition setCurrentNode :: "nat \<Rightarrow> 'q NsGea \<Rightarrow> 'q NsGea" where
  "setCurrentNode nd s = s\<lparr>currentNode := nd, shadow_currentNode := nd\<rparr>"

text \<open>\<^verbatim>\<open>ShadowEventHandler::handle\<close>: the event of a blocker is due.\<close>

definition ns_handle :: "'q ns_env \<Rightarrow> nat \<Rightarrow> nat \<Rightarrow> 'q NsGea \<Rightarrow> 'q NsGea result" where
  "ns_handle env n k s =
     bindE (derefE (n_events s k)) (\<lambda>e.
     bindE (derefE (n_handles s (ge_h e))) (\<lambda>x.
     bindE (callEvent env n (ge_event e) (ge_h e) (ge_timeout e) (ge_data e)
              (s\<lparr>currentNode := nh_node x, n_last := ge_timeout e\<rparr>)) (\<lambda>s1.
     bindE (doPendingEvents env n (ge_timeout e) s1) (\<lambda>s2. Inr (s2\<lparr>n_events := (n_events s2)(k := None)\<rparr>)))))"

text \<open>\<^verbatim>\<open>ShadowDepend::expire\<close>, and \<^verbatim>\<open>TimerHandler::handle\<close> around it.\<close>

definition dep_expire :: "'q ns_env \<Rightarrow> nat \<Rightarrow> addr \<Rightarrow> 'q NsGea \<Rightarrow> 'q NsGea result" where
  "dep_expire env n h s =
     bindE (set_nh_status Timeout h s) (\<lambda>s1.
     bindE (derefE (n_deps s1 h)) (\<lambda>sd.
       callEvent env n (sd_e sd) h (ns_now s1) (sd_data sd) (s1\<lparr>n_last := ns_now s1\<rparr>)))"

definition timer_enter :: "'q timed \<Rightarrow> 'q timed result" where
  "timer_enter ts =
     (if t_status (fst ts) \<noteq> TIMER_PENDING then Inl (AssertFailed ''TimerHandler::handle'')
      else Inr (Ns_Timer.set_status TIMER_HANDLING ts))"

definition timer_leave :: "'q timed \<Rightarrow> 'q timed result" where
  "timer_leave ts = Inr (if t_status (fst ts) = TIMER_HANDLING then Ns_Timer.set_status TIMER_IDLE ts else ts)"

definition dep_handle :: "'q ns_env \<Rightarrow> nat \<Rightarrow> addr \<Rightarrow> 'q NsGea \<Rightarrow> 'q NsGea result" where
  "dep_handle env n h s =
     bindE (dep_timer_op timer_enter h s) (\<lambda>s1. bindE (dep_expire env n h s1) (dep_timer_op timer_leave h))"

definition do_timeout :: "'q ns_env \<Rightarrow> nat \<Rightarrow> addr \<Rightarrow> 'q NsGea \<Rightarrow> 'q NsGea result" where
  "do_timeout env n h s =
     bindE (derefE (n_udps s h)) (\<lambda>su.
     bindE (assertE ''this->e'' (su_e su \<noteq> 0)) (\<lambda>_.
     bindE (set_nh_status Timeout h (s\<lparr>n_udps := (n_udps s)(h \<mapsto> su\<lparr>su_e := 0, su_data := 0\<rparr>)\<rparr>)) (\<lambda>s1.
     bindE (derefE (n_handles s1 h)) (\<lambda>x.
     bindE (callEvent env n (su_e su) h (su_timeout su) (su_data su)
              ((setCurrentNode (nh_node x) s1)\<lparr>n_last := su_timeout su\<rparr>)) (\<lambda>s2.
       doPendingEvents env n (n_last s2) s2)))))"

definition udp_handle :: "'q ns_env \<Rightarrow> nat \<Rightarrow> addr \<Rightarrow> 'q NsGea \<Rightarrow> 'q NsGea result" where
  "udp_handle env n h s =
     bindE (udp_timer_op timer_enter h s) (\<lambda>s1. bindE (do_timeout env n h s1) (udp_timer_op timer_leave h))"

text \<open>A packet has come for a UDP handle, with its source address and port.\<close>

definition process_data :: "'q ns_env \<Rightarrow> nat \<Rightarrow> addr \<Rightarrow> int \<Rightarrow> u16 \<Rightarrow> byte list \<Rightarrow> 'q NsGea \<Rightarrow> 'q NsGea result" where
  "process_data env n h saddr sport bytes s =
     bindE (derefE (n_udps s h)) (\<lambda>su0.
     bindE (derefE (su_agent su0)) (\<lambda>_.
     bindE (derefE (n_handles s h)) (\<lambda>x.
       let su = su0\<lparr>su_src := new_UdpAddress (word_of_int (get_nodeaddr env saddr)) sport\<rparr>;
           s0 = s\<lparr>n_udps := (n_udps s)(h \<mapsto> su)\<rparr>
       in case nh_status x of
            Some Error \<Rightarrow> Inr s0
          | Some Timeout \<Rightarrow> Inr s0
          | Some Ready \<Rightarrow> Inr s0
          | Some Blocked \<Rightarrow>
              bindE (udp_timer_op (timer_cancel (ne_ops env)) h s0) (\<lambda>s1.
              bindE (set_nh_status Ready h s1) (\<lambda>s2.
              bindE (derefE (n_udps s2 h)) (\<lambda>su2.
              bindE (assertE ''we need an event handler'' (su_e su2 \<noteq> 0)) (\<lambda>_.
              let s3 = (setCurrentNode (nh_node x) s2)\<lparr>n_last := ns_now s2,
                         n_udps := (n_udps s2)(h \<mapsto> su2\<lparr>su_curData := Some bytes, su_e := 0, su_data := 0\<rparr>)\<rparr>
              in bindE (callEvent env n (su_e su2) h (n_last s3) (su_data su2) s3) (\<lambda>s4.
                 doPendingEvents env n (n_last s4) s4)))))
          | _ \<Rightarrow> Inl (AssertFailed ''insane handle state''))))"

section \<open>The simulation\<close>

text \<open>\<^verbatim>\<open>Scheduler::dispatch\<close>, with the handlers of this library as the virtual call.\<close>

definition ns_dispatch :: "'q ns_env \<Rightarrow> nat \<Rightarrow> eaddr \<Rightarrow> 'q NsGea \<Rightarrow> 'q NsGea result" where
  "ns_dispatch env n e s =
     (let sc = n_sched s; h = ehandler (events sc e); s1 = s\<lparr>n_sched := advance e sc\<rparr> in
      if etime (events sc e) < clock sc then Inl (AssertFailed ''ns: scheduler going backwards in time'')
      else if h < EVENT_HANDLER then Inl NullPointer
      else if h = EVENT_HANDLER then ns_handle env n (e div 3) s1
      else if (h - 2) mod 3 = 0 then dep_handle env n ((h - 2) div 3) s1
      else udp_handle env n ((h - 2) div 3) s1)"

text \<open>A delivery is an event of the network in the same scheduler: it can happen only between the clock and the
  time of the event \<open>p\<close> that this library has next in the queue.\<close>

definition ns_arrival :: "'q ns_env \<Rightarrow> eaddr option \<Rightarrow> 'q NsGea \<Rightarrow> (double \<times> addr \<times> int \<times> u16 \<times> byte list) option" where
  "ns_arrival env p s =
     (case ne_network env s of
        None \<Rightarrow> None
      | Some (t, x) \<Rightarrow>
          if clock (n_sched s) \<le> t \<and> (case p of None \<Rightarrow> True | Some e \<Rightarrow> t \<le> etime (events (n_sched s) e))
          then Some (t, x) else None)"

definition ns_receive :: "'q ns_env \<Rightarrow> nat \<Rightarrow> double \<times> addr \<times> int \<times> u16 \<times> byte list \<Rightarrow> 'q NsGea \<Rightarrow> 'q NsGea result" where
  "ns_receive env n x s =
     (case x of (t, h, saddr, sport, bytes) \<Rightarrow> process_data env n h saddr sport bytes (s\<lparr>n_sched := (n_sched s)\<lparr>clock := t\<rparr>\<rparr>))"

text \<open>When a packet comes first, nothing is taken from the queue: the result of \<open>deque\<close> is dropped.\<close>

fun ns_run :: "'q ns_env \<Rightarrow> nat \<Rightarrow> nat \<Rightarrow> 'q NsGea \<Rightarrow> 'q NsGea result" where
  "ns_run env n 0 s = Inl OutOfFuel"
| "ns_run env n (Suc m) s =
     (if halted (n_sched s) then Inr s
      else bindE (deque (ne_ops env) (n_sched s)) (\<lambda>(p, sc).
        case ns_arrival env p s of
          Some x \<Rightarrow> bindE (ns_receive env n x s) (ns_run env n m)
        | None \<Rightarrow>
            (case p of
               None \<Rightarrow> Inr (s\<lparr>n_sched := sc\<rparr>)
             | Some e \<Rightarrow> bindE (ns_dispatch env n e (s\<lparr>n_sched := sc\<rparr>)) (ns_run env n m))))"

text \<open>The state \<^verbatim>\<open>initNs2ApiIface\<close> leaves: the event handler with its empty list, no node yet.\<close>

definition initNs2ApiIface :: "'q Scheduler \<Rightarrow> 'q NsGea" where
  "initNs2ApiIface sc =
     \<lparr>n_sched = sc, n_handles = Map.empty, n_deps = Map.empty, n_udps = Map.empty, n_events = Map.empty, n_next = 0,
      pendingList = [], currentNode = 0, shadow_currentNode = 0, n_last = AbsTime_t0, n_sent = [], n_log = []\<rparr>"

text \<open>\<^verbatim>\<open>gea_start\<close>: the plugin's main function runs on the node. What \<^verbatim>\<open>dlopen\<close> and
  \<^verbatim>\<open>dlsym\<close> return is an argument: whether the library can be opened, and the function under its C
  or C++ name. The result is the number returned to Tcl.\<close>

type_synonym 'q gea_main = "string list \<Rightarrow> 'q NsGea \<Rightarrow> ns_call list \<times> int"

definition gea_start ::
    "'q ns_env \<Rightarrow> nat \<Rightarrow> (string \<Rightarrow> bool) \<Rightarrow> (string \<Rightarrow> string \<Rightarrow> 'q gea_main option) \<Rightarrow> nat \<Rightarrow> string list \<Rightarrow> 'q NsGea
      \<Rightarrow> (int \<times> 'q NsGea) result" where
  "gea_start env n dlopen dlsym node argv s =
     (if length argv < 2 then Inl BufferOverflow
      else if \<not> dlopen (argv ! 1) then Inr (-1, s)
      else
        (case (case dlsym (argv ! 1) ''gea_main'' of
                 None \<Rightarrow> dlsym (argv ! 1) ''_Z8gea_mainiPKPKc''
               | Some m \<Rightarrow> Some m) of
           None \<Rightarrow> Inr (-1, s)
         | Some gea_main \<Rightarrow>
             let s1 = (setCurrentNode node s)\<lparr>n_last := ns_now s\<rparr>;
                 (calls, ret) = gea_main (tl argv) s1
             in bindE (foldE (exec_ns_call env n) calls s1) (\<lambda>s2. Inr (ret, s2))))"

end
