(* ===== verification/Ns_GeaSafe.thy ===== *)
theory Ns_GeaSafe
  imports Ns_Gea "HOL-Library.Sublist"
begin

text \<open>
  The ns-2 implementation of GEA keeps its promises for an application that keeps the rules of the
  interface; the rules it needs beyond the documented ones are hypotheses here, and what happens
  without them is shown at the end.
\<close>

section \<open>The invariant\<close>

lemma event_numbers [simp]:
  "dep_event h \<noteq> udp_event h'" "udp_event h' \<noteq> dep_event h" "dep_event h \<noteq> gea_event k" "gea_event k \<noteq> dep_event h"
  "udp_event h \<noteq> gea_event k" "gea_event k \<noteq> udp_event h"
  "dep_event h = dep_event h' \<longleftrightarrow> h = h'" "udp_event h = udp_event h' \<longleftrightarrow> h = h'" "gea_event k = gea_event k' \<longleftrightarrow> k = k'"
  by (auto simp: dep_event_def udp_event_def gea_event_def) presburger+

lemma event_number_div [simp]:
  "gea_event k div 3 = k" "dep_event h div 3 = h" "dep_event h mod 3 = 0" "udp_event h div 3 = h" "udp_event h mod 3 = 1"
  unfolding gea_event_def dep_event_def udp_event_def by presburger+

lemma event_number_cases:
  obtains h where "e = dep_event h" | h where "e = udp_event h" | k where "e = gea_event k"
proof -
  have "e mod 3 = 0 \<or> e mod 3 = 1 \<or> e mod 3 = 2" by auto
  moreover have "e = 3 * (e div 3) + e mod 3" by simp
  ultimately show thesis using that by (metis add.right_neutral dep_event_def udp_event_def gea_event_def)
qed

text \<open>The timer with the event \<open>a\<close> is pending exactly while that event is in the queue.\<close>

definition timer_ok :: "('q \<Rightarrow> eaddr set) \<Rightarrow> 'q Scheduler \<Rightarrow> eaddr \<Rightarrow> TimerHandler \<Rightarrow> bool" where
  "timer_ok members s a T \<longleftrightarrow> t_event T = a \<and> t_this T = a + 2
     \<and> (t_status T = TIMER_PENDING \<longleftrightarrow> a \<in> members (queue s))
     \<and> (a \<in> members (queue s) \<longrightarrow> 0 < euid (events s a) \<and> ehandler (events s a) = a + 2)"

definition dep_ok :: "('q \<Rightarrow> eaddr set) \<Rightarrow> 'q NsGea \<Rightarrow> addr \<Rightarrow> bool" where
  "dep_ok members s h =
     (case n_deps s h of
        None \<Rightarrow> dep_event h \<notin> members (queue (n_sched s))
      | Some sd \<Rightarrow> timer_ok members (n_sched s) (dep_event h) (sd_timer sd)
          \<and> (t_status (sd_timer sd) = TIMER_PENDING \<longrightarrow> sd_e sd \<noteq> 0 \<and> (\<exists>x. n_handles s h = Some x \<and> nh_type x = NsDepend)))"

definition udp_ok :: "('q \<Rightarrow> eaddr set) \<Rightarrow> 'q NsGea \<Rightarrow> addr \<Rightarrow> bool" where
  "udp_ok members s h =
     (case n_udps s h of
        None \<Rightarrow> udp_event h \<notin> members (queue (n_sched s))
      | Some su \<Rightarrow> timer_ok members (n_sched s) (udp_event h) (su_timer su)
          \<and> (t_status (su_timer su) = TIMER_PENDING \<longrightarrow> su_e su \<noteq> 0)
          \<and> (t_status (su_timer su) \<noteq> TIMER_IDLE \<longrightarrow> (\<exists>x. n_handles s h = Some x \<and> nh_type x = NsUdp)))"

definition gea_event_ok :: "('q \<Rightarrow> eaddr set) \<Rightarrow> 'q NsGea \<Rightarrow> nat \<Rightarrow> bool" where
  "gea_event_ok members s k \<longleftrightarrow>
     (gea_event k \<in> members (queue (n_sched s)) \<longrightarrow> k < n_next s \<and> ehandler (events (n_sched s) (gea_event k)) = EVENT_HANDLER
       \<and> (\<exists>ge. n_events s k = Some ge \<and> ge_event ge \<noteq> 0 \<and> n_handles s (ge_h ge) \<noteq> None))"

text \<open>A handle has the sub-object of its type, and one that is blocked has its timer running.\<close>

definition handle_ok :: "'q NsGea \<Rightarrow> addr \<Rightarrow> bool" where
  "handle_ok s h =
     (case n_handles s h of
        None \<Rightarrow> True
      | Some x \<Rightarrow>
          (case nh_type x of
             NsBlocker \<Rightarrow> True
           | NsDepend \<Rightarrow> (\<exists>sd. n_deps s h = Some sd \<and> (nh_status x = Some Blocked \<longrightarrow> t_status (sd_timer sd) = TIMER_PENDING))
           | NsUdp \<Rightarrow> (\<exists>su. n_udps s h = Some su \<and> su_agent su \<noteq> None
               \<and> (nh_status x = Some Blocked \<longrightarrow> t_status (su_timer su) = TIMER_PENDING))))"

text \<open>An entry of the pending list: a dependency that is triggered, its timer still running.\<close>

definition pend_ok :: "'q NsGea \<Rightarrow> PendingDescr \<Rightarrow> bool" where
  "pend_ok s i \<longleftrightarrow> pd_e i \<noteq> 0 \<and>
     (\<exists>sd x. n_deps s (pd_h i) = Some sd \<and> t_status (sd_timer sd) = TIMER_PENDING
       \<and> n_handles s (pd_h i) = Some x \<and> nh_status x = Some Ready \<and> nh_type x = NsDepend)"

definition ns_inv :: "(events \<Rightarrow> 'q \<Rightarrow> bool) \<Rightarrow> ('q \<Rightarrow> eaddr set) \<Rightarrow> 'q NsGea \<Rightarrow> bool" where
  "ns_inv qinv members s \<longleftrightarrow> raw_inv qinv members (n_sched s)
     \<and> (\<forall>h. dep_ok members s h \<and> udp_ok members s h \<and> handle_ok s h) \<and> (\<forall>k. gea_event_ok members s k)
     \<and> distinct (map pd_h (pendingList s)) \<and> (\<forall>i \<in> set (pendingList s). pend_ok s i)"

lemmas ns_ok_defs = dep_ok_def udp_ok_def gea_event_ok_def handle_ok_def pend_ok_def timer_ok_def

section \<open>The rules of the interface\<close>

text \<open>Wait only with an event function, for a blocker not before the simulator's clock, for others not
  before the current time, and for a dependency not while it is still pending; make handles at free
  addresses; delete a handle only when it is not waiting.\<close>

definition ns_call_ok :: "('q \<Rightarrow> eaddr set) \<Rightarrow> 'q ns_env \<Rightarrow> ns_call \<Rightarrow> 'q NsGea \<Rightarrow> bool" where
  "ns_call_ok members env c s =
     (case c of
        NsWaitFor h t e d \<Rightarrow> e \<noteq> 0 \<and>
          (case n_handles s h of
             None \<Rightarrow> False
           | Some x \<Rightarrow>
               (case nh_type x of
                  NsBlocker \<Rightarrow> clock (n_sched s) \<le> getSecondsD env (time_diff t AbsTime_t0)
                | NsDepend \<Rightarrow> 0 \<le> getSecondsD env (time_diff t (ns_now s)) \<and>
                    (\<forall>sd. n_deps s h = Some sd \<longrightarrow> t_status (sd_timer sd) \<noteq> TIMER_PENDING)
                | NsUdp \<Rightarrow> (\<forall>su. n_udps s h = Some su \<longrightarrow> su_mode su = Read \<longrightarrow> 0 \<le> getSecondsD env (time_diff t (ns_now s)))))
      | NsComplied h \<Rightarrow> (\<exists>x. n_handles s h = Some x \<and> nh_type x = NsDepend)
      | NsWrite h buf \<Rightarrow> (\<exists>x. n_handles s h = Some x \<and> nh_type x = NsUdp)
      | NsSetDest h a \<Rightarrow> (\<exists>x. n_handles s h = Some x \<and> nh_type x = NsUdp)
      | NsNewBlocker h \<Rightarrow> n_handles s h = None \<and> n_deps s h = None \<and> n_udps s h = None
      | NsNewDepend h \<Rightarrow> n_handles s h = None \<and> n_deps s h = None \<and> n_udps s h = None
      | NsNewUdp h r a \<Rightarrow> n_handles s h = None \<and> n_deps s h = None \<and> n_udps s h = None
      | NsDelete h \<Rightarrow> n_handles s h \<noteq> None
          \<and> (\<forall>sd. n_deps s h = Some sd \<longrightarrow> t_status (sd_timer sd) = TIMER_IDLE)
          \<and> (\<forall>su. n_udps s h = Some su \<longrightarrow> t_status (su_timer su) = TIMER_IDLE)
          \<and> (\<forall>k ge. gea_event k \<in> members (queue (n_sched s)) \<longrightarrow> n_events s k = Some ge \<longrightarrow> ge_h ge \<noteq> h))"

fun ns_calls_ok :: "('q \<Rightarrow> eaddr set) \<Rightarrow> 'q ns_env \<Rightarrow> nat \<Rightarrow> ns_call list \<Rightarrow> 'q NsGea \<Rightarrow> bool" where
  "ns_calls_ok members env n [] s = True"
| "ns_calls_ok members env n (c # cs) s =
     (ns_call_ok members env c s
      \<and> (case exec_ns_call env n c s of Inl _ \<Rightarrow> True | Inr s' \<Rightarrow> ns_calls_ok members env n cs s'))"

text \<open>An application whose event functions keep the rules in every state of the invariant.\<close>

definition client_ok :: "(events \<Rightarrow> 'q \<Rightarrow> bool) \<Rightarrow> ('q \<Rightarrow> eaddr set) \<Rightarrow> 'q ns_env \<Rightarrow> bool" where
  "client_ok qinv members env \<longleftrightarrow>
     (\<forall>n e h t d s. ns_inv qinv members s \<longrightarrow> ns_calls_ok members env n (ne_callback env e h t d s) s)"

text \<open>The network delivers only to UDP handles that exist and that were waited for at least once.\<close>

definition network_ok :: "(events \<Rightarrow> 'q \<Rightarrow> bool) \<Rightarrow> ('q \<Rightarrow> eaddr set) \<Rightarrow> 'q ns_env \<Rightarrow> bool" where
  "network_ok qinv members env \<longleftrightarrow>
     (\<forall>s t h saddr sport bytes. ns_inv qinv members s \<longrightarrow> ne_network env s = Some (t, h, saddr, sport, bytes) \<longrightarrow>
        (\<exists>x. n_handles s h = Some x \<and> nh_type x = NsUdp
           \<and> nh_status x \<in> {Some Error, Some Blocked, Some Timeout, Some Ready}))"

text \<open>The event function of a dependency that has timed out triggers no dependency.\<close>

definition quiet_timeouts :: "'q ns_env \<Rightarrow> bool" where
  "quiet_timeouts env \<longleftrightarrow>
     (\<forall>n e h t d s s' x. callEvent env n e h t d s = Inr s' \<longrightarrow> pendingList s = [] \<longrightarrow> n_handles s h = Some x \<longrightarrow>
        nh_type x = NsDepend \<longrightarrow> nh_status x = Some Timeout \<longrightarrow> pendingList s' = [])"

section \<open>What a call leaves alone\<close>

text \<open>A triggered dependency that is not in the pending list (it is being called) stays as it is; a
  running timer's object stays; the clock stands still; the log grows; no number of an event is used
  twice.\<close>

definition keeps :: "('q \<Rightarrow> eaddr set) \<Rightarrow> addr set \<Rightarrow> 'q NsGea \<Rightarrow> 'q NsGea \<Rightarrow> bool" where
  "keeps members H s s' \<longleftrightarrow> clock (n_sched s') = clock (n_sched s)
     \<and> (\<forall>i. pend_ok s i \<and> pd_h i \<notin> H \<and> pd_h i \<notin> pd_h ` set (pendingList s) \<longrightarrow>
          pend_ok s' i \<and> pd_h i \<notin> pd_h ` set (pendingList s'))
     \<and> (\<forall>h. n_deps s h \<noteq> None \<longrightarrow> n_deps s' h \<noteq> None)
     \<and> (\<forall>h su. n_udps s h = Some su \<and> t_status (su_timer su) \<noteq> TIMER_IDLE \<longrightarrow>
          (\<exists>su'. n_udps s' h = Some su' \<and> t_status (su_timer su') \<noteq> TIMER_IDLE))
     \<and> prefix (n_log s) (n_log s') \<and> n_next s \<le> n_next s'
     \<and> (\<forall>k. k < n_next s \<and> gea_event k \<notin> members (queue (n_sched s)) \<longrightarrow> gea_event k \<notin> members (queue (n_sched s')))"

lemma keeps_refl: "keeps members H s s"
  by (simp add: keeps_def)

lemma keepsD:
  assumes "keeps members H s s'"
  shows "clock (n_sched s') = clock (n_sched s)"
    and "\<And>i. pend_ok s i \<Longrightarrow> pd_h i \<notin> H \<Longrightarrow> pd_h i \<notin> pd_h ` set (pendingList s) \<Longrightarrow>
      pend_ok s' i \<and> pd_h i \<notin> pd_h ` set (pendingList s')"
    and "\<And>h. n_deps s h \<noteq> None \<Longrightarrow> n_deps s' h \<noteq> None"
    and "\<And>h su. n_udps s h = Some su \<Longrightarrow> t_status (su_timer su) \<noteq> TIMER_IDLE \<Longrightarrow>
      \<exists>su'. n_udps s' h = Some su' \<and> t_status (su_timer su') \<noteq> TIMER_IDLE"
    and "prefix (n_log s) (n_log s')" and "n_next s \<le> n_next s'"
    and "\<And>k. k < n_next s \<Longrightarrow> gea_event k \<notin> members (queue (n_sched s)) \<Longrightarrow> gea_event k \<notin> members (queue (n_sched s'))"
  using assms unfolding keeps_def by blast+

lemma keeps_trans:
  assumes 1: "keeps members H s s1" and 2: "keeps members H s1 s2"
  shows "keeps members H s s2"
  unfolding keeps_def
proof (intro conjI allI impI)
  show "clock (n_sched s2) = clock (n_sched s)" using keepsD(1) [OF 1] keepsD(1) [OF 2] by simp
  show "prefix (n_log s) (n_log s2)" using keepsD(5) [OF 1] keepsD(5) [OF 2] by (rule prefix_order.order_trans)
  show le: "n_next s \<le> n_next s2" using keepsD(6) [OF 1] keepsD(6) [OF 2] by simp
  show "gea_event k \<notin> members (queue (n_sched s2))" if "k < n_next s \<and> gea_event k \<notin> members (queue (n_sched s))" for k
    using that keepsD(6) [OF 1] keepsD(7) [OF 1, of k] keepsD(7) [OF 2, of k] by simp
  show "n_deps s2 h \<noteq> None" if "n_deps s h \<noteq> None" for h
    using keepsD(3) [OF 2] keepsD(3) [OF 1] that by blast
  show "\<exists>su'. n_udps s2 h = Some su' \<and> t_status (su_timer su') \<noteq> TIMER_IDLE"
    if "n_udps s h = Some su \<and> t_status (su_timer su) \<noteq> TIMER_IDLE" for h su
    using keepsD(4) [OF 2] keepsD(4) [OF 1] that by blast
  show "pend_ok s2 i" if "pend_ok s i \<and> pd_h i \<notin> H \<and> pd_h i \<notin> pd_h ` set (pendingList s)" for i
    using keepsD(2) [OF 1, of i] keepsD(2) [OF 2, of i] that by blast
  show "pd_h i \<notin> pd_h ` set (pendingList s2)" if "pend_ok s i \<and> pd_h i \<notin> H \<and> pd_h i \<notin> pd_h ` set (pendingList s)" for i
    using keepsD(2) [OF 1, of i] keepsD(2) [OF 2, of i] that by blast
qed

lemma keeps_mono: "keeps members H s s' \<Longrightarrow> H \<subseteq> H' \<Longrightarrow> keeps members H' s s'"
  unfolding keeps_def by blast

text \<open>How a call may end: the model's fuel or the event numbers are used up, or it returns.\<close>

definition ends_well :: "('q NsGea \<Rightarrow> bool) \<Rightarrow> 'q NsGea result \<Rightarrow> bool" where
  "ends_well P r = (case r of Inl err \<Rightarrow> err = OutOfFuel \<or> err = uid_exhausted | Inr s' \<Rightarrow> P s')"

lemma ends_well_Inr [simp]: "ends_well P (Inr s) = P s"
  and ends_well_fuel [simp]: "ends_well P (Inl OutOfFuel)"
  and ends_well_uid [simp]: "ends_well P (Inl uid_exhausted)"
  by (simp_all add: ends_well_def)

lemma ends_well_bind:
  "ends_well P r \<Longrightarrow> (\<And>s. r = Inr s \<Longrightarrow> P s \<Longrightarrow> ends_well Q (f s)) \<Longrightarrow> ends_well Q (bindE r f)"
  by (cases r) (auto simp: ends_well_def)

lemma ends_well_mono: "ends_well P r \<Longrightarrow> (\<And>s. r = Inr s \<Longrightarrow> P s \<Longrightarrow> Q s) \<Longrightarrow> ends_well Q r"
  by (cases r) (auto simp: ends_well_def)

section \<open>Steps\<close>

definition same_at :: "('q \<Rightarrow> eaddr set) \<Rightarrow> eaddr \<Rightarrow> 'q Scheduler \<Rightarrow> 'q Scheduler \<Rightarrow> bool" where
  "same_at members a s s' \<longleftrightarrow>
     (\<forall>b. b \<noteq> a \<longrightarrow> (b \<in> members (queue s') \<longleftrightarrow> b \<in> members (queue s)) \<and> events s' b = events s b)"

definition same_off :: "('q \<Rightarrow> eaddr set) \<Rightarrow> eaddr \<Rightarrow> 'q Scheduler \<Rightarrow> 'q Scheduler \<Rightarrow> bool" where
  "same_off members a s s' \<longleftrightarrow> clock s' = clock s
     \<and> (\<forall>b. b \<noteq> a \<longrightarrow> (b \<in> members (queue s') \<longleftrightarrow> b \<in> members (queue s)) \<and> events s' b = events s b)"

lemma same_at_refl [simp]: "same_at members a s s"
  and same_off_refl [simp]: "same_off members a s s"
  by (simp_all add: same_at_def same_off_def)

lemma same_off_at: "same_off members a s s' \<Longrightarrow> same_at members a s s'"
  by (simp add: same_off_def same_at_def)

lemma timer_ok_off: "same_at members a s s' \<Longrightarrow> b \<noteq> a \<Longrightarrow> timer_ok members s' b T = timer_ok members s b T"
  by (simp add: same_at_def timer_ok_def)

lemma timer_ok_status:
  "timer_ok members s a T \<Longrightarrow> t_status T \<noteq> TIMER_PENDING \<Longrightarrow> st \<noteq> TIMER_PENDING \<Longrightarrow> timer_ok members s a (T\<lparr>t_status := st\<rparr>)"
  by (simp add: timer_ok_def)

lemma ok_cong:
  assumes "n_sched s' = n_sched s" "n_handles s' = n_handles s" "n_deps s' = n_deps s" "n_udps s' = n_udps s"
    "n_events s' = n_events s" "n_next s' = n_next s"
  shows "dep_ok members s' = dep_ok members s" "udp_ok members s' = udp_ok members s" "handle_ok s' = handle_ok s"
    "gea_event_ok members s' = gea_event_ok members s" "pend_ok s' = pend_ok s"
  unfolding fun_eq_iff ns_ok_defs assms by (rule allI, rule refl)+

lemma ns_inv_fields [simp]:
  "ns_inv qinv members (s\<lparr>n_last := t\<rparr>) = ns_inv qinv members s"
  "ns_inv qinv members (s\<lparr>n_log := l\<rparr>) = ns_inv qinv members s"
  "ns_inv qinv members (s\<lparr>n_sent := m\<rparr>) = ns_inv qinv members s"
  "ns_inv qinv members (s\<lparr>currentNode := nd\<rparr>) = ns_inv qinv members s"
  "ns_inv qinv members (s\<lparr>shadow_currentNode := nd\<rparr>) = ns_inv qinv members s"
  using ok_cong [of "s\<lparr>n_last := t\<rparr>" s] ok_cong [of "s\<lparr>n_log := l\<rparr>" s] ok_cong [of "s\<lparr>n_sent := m\<rparr>" s]
    ok_cong [of "s\<lparr>currentNode := nd\<rparr>" s] ok_cong [of "s\<lparr>shadow_currentNode := nd\<rparr>" s]
  by (simp_all add: ns_inv_def)

lemma ns_inv_log_call [simp]: "ns_inv qinv members (log_call e h t d s) = ns_inv qinv members s"
  by (simp add: log_call_def)

lemma ns_inv_pendingD:
  "ns_inv qinv members s \<Longrightarrow> i \<in> set (pendingList s) \<Longrightarrow> pend_ok s i"
  by (simp add: ns_inv_def)

lemma ok_pendingList [simp]:
  "dep_ok members (s\<lparr>pendingList := l\<rparr>) h = dep_ok members s h" "udp_ok members (s\<lparr>pendingList := l\<rparr>) h = udp_ok members s h"
  "handle_ok (s\<lparr>pendingList := l\<rparr>) h = handle_ok s h" "gea_event_ok members (s\<lparr>pendingList := l\<rparr>) k = gea_event_ok members s k"
  "pend_ok (s\<lparr>pendingList := l\<rparr>) i = pend_ok s i"
  using ok_cong [of "s\<lparr>pendingList := l\<rparr>" s] by simp_all

lemma ns_inv_drop_pending: "ns_inv qinv members s \<Longrightarrow> ns_inv qinv members (s\<lparr>pendingList := []\<rparr>)"
  by (simp add: ns_inv_def)

text \<open>The object of one dependency and its handle change, and with them the queue at its event only.\<close>

lemma ns_inv_dep_update:
  assumes ni: "ns_inv qinv members s" and ri: "raw_inv qinv members sc" and off: "same_at members (dep_event h) (n_sched s) sc"
    and T: "timer_ok members sc (dep_event h) (sd_timer sd)" and e: "t_status (sd_timer sd) = TIMER_PENDING \<longrightarrow> sd_e sd \<noteq> 0"
    and h: "n_handles s h = Some x" and x: "nh_type x = NsDepend" "nh_type y = NsDepend"
    and blk: "nh_status y = Some Blocked \<longrightarrow> t_status (sd_timer sd) = TIMER_PENDING"
    and pend: "h \<in> pd_h ` set (pendingList s) \<longrightarrow> t_status (sd_timer sd) = TIMER_PENDING \<and> nh_status y = Some Ready"
  shows "ns_inv qinv members (s\<lparr>n_sched := sc, n_deps := (n_deps s)(h \<mapsto> sd), n_handles := (n_handles s)(h \<mapsto> y)\<rparr>)"
    (is "ns_inv qinv members ?s")
proof -
  have old: "dep_ok members s g" "udp_ok members s g" "handle_ok s g" "gea_event_ok members s k" for g k
    using ni by (auto simp: ns_inv_def)
  have "dep_ok members ?s g" for g
  proof (cases "g = h")
    case True
    with T e x show ?thesis by (simp add: dep_ok_def)
  next
    case False
    with old(1) [of g] off timer_ok_off [OF off, of "dep_event g"] show ?thesis
      by (auto simp: dep_ok_def same_at_def split: option.splits)
  qed
  moreover have "udp_ok members ?s g" for g
    using old(2) [of g] off timer_ok_off [OF off, of "udp_event g"] h x
    by (auto simp: udp_ok_def same_at_def split: option.splits)
  moreover have "gea_event_ok members ?s k" for k
    using old(4) [of k] off by (auto simp: gea_event_ok_def same_at_def)
  moreover have "handle_ok ?s g" for g
    using old(3) [of g] x blk h by (auto simp: handle_ok_def split: option.splits NsHandleType.splits)
  moreover have "pend_ok ?s i" if "i \<in> set (pendingList s)" for i
    using ns_inv_pendingD [OF ni that] pend that x by (auto simp: pend_ok_def)
  ultimately show ?thesis using ni ri by (simp add: ns_inv_def)
qed

lemma ns_inv_udp_update:
  assumes ni: "ns_inv qinv members s" and ri: "raw_inv qinv members sc" and off: "same_at members (udp_event h) (n_sched s) sc"
    and T: "timer_ok members sc (udp_event h) (su_timer su)" and e: "t_status (su_timer su) = TIMER_PENDING \<longrightarrow> su_e su \<noteq> 0"
    and h: "n_handles s h = Some x" and x: "nh_type x = NsUdp" "nh_type y = NsUdp" and ag: "su_agent su \<noteq> None"
    and blk: "nh_status y = Some Blocked \<longrightarrow> t_status (su_timer su) = TIMER_PENDING"
  shows "ns_inv qinv members (s\<lparr>n_sched := sc, n_udps := (n_udps s)(h \<mapsto> su), n_handles := (n_handles s)(h \<mapsto> y)\<rparr>)"
    (is "ns_inv qinv members ?s")
proof -
  have old: "dep_ok members s g" "udp_ok members s g" "handle_ok s g" "gea_event_ok members s k" for g k
    using ni by (auto simp: ns_inv_def)
  have "udp_ok members ?s g" for g
  proof (cases "g = h")
    case True
    with T e x show ?thesis by (simp add: udp_ok_def)
  next
    case False
    with old(2) [of g] off timer_ok_off [OF off, of "udp_event g"] show ?thesis
      by (auto simp: udp_ok_def same_at_def split: option.splits)
  qed
  moreover have "dep_ok members ?s g" for g
    using old(1) [of g] off timer_ok_off [OF off, of "dep_event g"] h x
    by (auto simp: dep_ok_def same_at_def split: option.splits)
  moreover have "gea_event_ok members ?s k" for k
    using old(4) [of k] off by (auto simp: gea_event_ok_def same_at_def)
  moreover have "handle_ok ?s g" for g
    using old(3) [of g] x blk ag h by (auto simp: handle_ok_def split: option.splits NsHandleType.splits)
  moreover have "pend_ok ?s i" if "i \<in> set (pendingList s)" for i
    using ns_inv_pendingD [OF ni that] that x h by (auto simp: pend_ok_def)
  ultimately show ?thesis using ni ri by (simp add: ns_inv_def)
qed

context raw_queue begin

abbreviation NI :: "'q NsGea \<Rightarrow> bool" where
  "NI \<equiv> ns_inv qinv members"

lemma timer_cancel_raw:
  assumes ri: "RI sc" and T: "timer_ok members sc a T" "t_status T = TIMER_PENDING"
  obtains sc' where "timer_cancel ops (T, sc) = Inr (T\<lparr>t_status := TIMER_IDLE\<rparr>, sc')" "RI sc'" "same_off members a sc sc'"
    "timer_ok members sc' a (T\<lparr>t_status := TIMER_IDLE\<rparr>)" "a \<notin> members (queue sc')"
proof -
  have "0 < euid (events sc a)" using T by (auto simp: timer_ok_def)
  then obtain sc' where "cancel ops a sc = Inr sc'" "RI sc'" "clock sc' = clock sc"
    "members (queue sc') = members (queue sc) - {a}" "\<forall>b. b \<noteq> a \<longrightarrow> events sc' b = events sc b"
    by (rule raw_cancel_step [OF ri])
  with T show thesis
    by (intro that [of sc']) (auto simp: timer_cancel_def timer_raw_cancel_def timer_ok_def same_off_def)
qed

lemma timer_resched_raw:
  assumes ri: "RI sc" and T: "timer_ok members sc a T" and d: "0 \<le> d"
  shows "s_uid sc < 0 \<and> timer_resched ops d (T, sc) = Inl uid_exhausted
    \<or> (\<exists>sc'. timer_resched ops d (T, sc) = Inr (T\<lparr>t_status := TIMER_PENDING\<rparr>, sc') \<and> RI sc' \<and> same_off members a sc sc'
        \<and> timer_ok members sc' a (T\<lparr>t_status := TIMER_PENDING\<rparr>) \<and> etime (events sc' a) = clock sc + d)"
proof -
  have T': "t_event T = a" "t_this T = a + 2" using T by (auto simp: timer_ok_def)
  obtain sc1 where sc1: "(if t_status T = TIMER_PENDING then timer_raw_cancel ops (T, sc) else Inr (T, sc)) = Inr (T, sc1)"
    "RI sc1" "same_off members a sc sc1" "a \<notin> members (queue sc1)" "s_uid sc1 = s_uid sc"
  proof (cases "t_status T = TIMER_PENDING")
    case True
    obtain sc' where "timer_cancel ops (T, sc) = Inr (T\<lparr>t_status := TIMER_IDLE\<rparr>, sc')" "RI sc'" "same_off members a sc sc'"
      "a \<notin> members (queue sc')"
      by (rule timer_cancel_raw [OF ri T True])
    with True T' show thesis
      by (intro that [of sc']) (auto simp: timer_cancel_def timer_raw_cancel_def bindE_eq_Inr cancel_def)
  next
    case False
    with ri T show thesis by (intro that [of sc]) (auto simp: timer_ok_def)
  qed
  have clk: "clock sc1 = clock sc" using sc1(3) by (simp add: same_off_def)
  have h: "a + 2 \<noteq> (0 :: nat)" by simp
  from raw_schedule_step [OF sc1(2) h sc1(4) d] show ?thesis
  proof (elim disjE exE conjE)
    assume "s_uid sc1 < 0" "schedule ops (a + 2) a d sc1 = Inl uid_exhausted"
    with sc1(1,5) T' show ?thesis by (simp add: timer_resched_def timer_raw_sched_def)
  next
    fix sc' assume sc': "schedule ops (a + 2) a d sc1 = Inr sc'" "RI sc'" "clock sc' = clock sc1"
      "members (queue sc') = insert a (members (queue sc1))" "0 < euid (events sc' a)" "ehandler (events sc' a) = a + 2"
      "etime (events sc' a) = clock sc1 + d" "\<forall>b. b \<noteq> a \<longrightarrow> events sc' b = events sc1 b"
    then have "same_off members a sc sc'" using sc1(3) by (auto simp: same_off_def)
    moreover have "timer_resched ops d (T, sc) = Inr (T\<lparr>t_status := TIMER_PENDING\<rparr>, sc')"
      using sc1(1) sc'(1) T' by (simp add: timer_resched_def timer_raw_sched_def)
    ultimately show ?thesis using sc' T' clk by (simp add: timer_ok_def)
  qed
qed

text \<open>The parts of the invariant at one handle.\<close>

lemma NI_dep:
  assumes "NI s" "n_handles s h = Some x" "nh_type x = NsDepend"
  obtains sd where "n_deps s h = Some sd" "timer_ok members (n_sched s) (dep_event h) (sd_timer sd)"
    "t_status (sd_timer sd) = TIMER_PENDING \<longrightarrow> sd_e sd \<noteq> 0" "nh_status x = Some Blocked \<longrightarrow> t_status (sd_timer sd) = TIMER_PENDING"
  using assms unfolding ns_inv_def dep_ok_def handle_ok_def by (fastforce split: option.splits)

lemma NI_udp:
  assumes "NI s" "n_handles s h = Some x" "nh_type x = NsUdp"
  obtains su where "n_udps s h = Some su" "timer_ok members (n_sched s) (udp_event h) (su_timer su)" "su_agent su \<noteq> None"
    "t_status (su_timer su) = TIMER_PENDING \<longrightarrow> su_e su \<noteq> 0" "nh_status x = Some Blocked \<longrightarrow> t_status (su_timer su) = TIMER_PENDING"
  using assms unfolding ns_inv_def udp_ok_def handle_ok_def by (fastforce split: option.splits)

lemma NI_raw: "NI s \<Longrightarrow> RI (n_sched s)"
  by (simp add: ns_inv_def)

lemma complied_step:
  assumes ni: "NI s" and h: "n_handles s h = Some x" "nh_type x = NsDepend"
  obtains s' where "ns_complied h s = Inr s'" "NI s'" "keeps members {} s s'"
proof -
  obtain sd where sd: "n_deps s h = Some sd" "timer_ok members (n_sched s) (dep_event h) (sd_timer sd)"
    "t_status (sd_timer sd) = TIMER_PENDING \<longrightarrow> sd_e sd \<noteq> 0" "nh_status x = Some Blocked \<longrightarrow> t_status (sd_timer sd) = TIMER_PENDING"
    by (rule NI_dep [OF ni h])
  show thesis
  proof (cases "nh_status x = Some Blocked")
    case False
    with sd h ni show thesis by (intro that [of s]) (auto simp: ns_complied_def keeps_refl)
  next
    case True
    let ?sd = "sd\<lparr>sd_triggered := True\<rparr>" and ?x = "x\<lparr>nh_status := Some Ready\<rparr>"
    define s1 where "s1 = s\<lparr>n_sched := n_sched s, n_deps := (n_deps s)(h \<mapsto> ?sd), n_handles := (n_handles s)(h \<mapsto> ?x)\<rparr>"
    have fresh: "h \<notin> pd_h ` set (pendingList s)"
      using ni h True unfolding ns_inv_def pend_ok_def by force
    have "NI s1"
      unfolding s1_def
      by (rule ns_inv_dep_update [OF ni NI_raw [OF ni] same_at_refl]) (use sd h fresh in auto)
    moreover have "pend_ok s1 i" if "pd_h i = h" "pd_e i = sd_e sd" for i
      using that sd True h by (simp add: pend_ok_def s1_def)
    ultimately have ni': "NI (addPendingEvent h (sd_e sd) (n_last s1) (sd_data sd) s1)"
      using fresh by (auto simp: ns_inv_def addPendingEvent_def s1_def)
    have "keeps members {} s (addPendingEvent h (sd_e sd) (n_last s1) (sd_data sd) s1)"
      using True h by (auto simp: keeps_def addPendingEvent_def s1_def pend_ok_def)
    with ni' True h sd show thesis
      by (intro that) (auto simp: ns_complied_def s1_def Let_def)
  qed
qed

text \<open>Waiting: the handle is blocked and its timer runs, or its event is in the queue.\<close>

lemma activate_step:
  assumes ni: "NI s" and env: "ne_ops env = ops" and h: "n_handles s h = Some x" "nh_type x = NsDepend"
    and np: "\<forall>sd. n_deps s h = Some sd \<longrightarrow> t_status (sd_timer sd) \<noteq> TIMER_PENDING"
    and d: "0 \<le> getSecondsD env (time_diff t (ns_now s))" and e: "e \<noteq> 0"
  shows "ends_well (\<lambda>s'. NI s' \<and> keeps members {} s s')
    (activate env h t e dt (s\<lparr>n_handles := (n_handles s)(h \<mapsto> x\<lparr>nh_status := Some Blocked\<rparr>)\<rparr>))"
proof -
  obtain sd where sd: "n_deps s h = Some sd" "timer_ok members (n_sched s) (dep_event h) (sd_timer sd)"
    by (rule NI_dep [OF ni h])
  let ?d = "getSecondsD env (time_diff t (ns_now s))"
  from timer_resched_raw [OF NI_raw [OF ni] sd(2) d] show ?thesis
  proof (elim disjE exE conjE)
    assume "timer_resched ops ?d (sd_timer sd, n_sched s) = Inl uid_exhausted"
    then show ?thesis using sd np env by (simp add: activate_def dep_timer_op_def ns_now_def)
  next
    fix sc assume sc: "timer_resched ops ?d (sd_timer sd, n_sched s) = Inr ((sd_timer sd)\<lparr>t_status := TIMER_PENDING\<rparr>, sc)" "RI sc"
      "same_off members (dep_event h) (n_sched s) sc" "timer_ok members sc (dep_event h) ((sd_timer sd)\<lparr>t_status := TIMER_PENDING\<rparr>)"
    let ?sd = "sd\<lparr>sd_e := e, sd_data := dt, sd_timer := (sd_timer sd)\<lparr>t_status := TIMER_PENDING\<rparr>\<rparr>"
    let ?s = "s\<lparr>n_sched := sc, n_deps := (n_deps s)(h \<mapsto> ?sd), n_handles := (n_handles s)(h \<mapsto> x\<lparr>nh_status := Some Blocked\<rparr>)\<rparr>"
    have fresh: "h \<notin> pd_h ` set (pendingList s)"
      using ni np unfolding ns_inv_def pend_ok_def by force
    have "NI ?s"
      by (rule ns_inv_dep_update [OF ni sc(2) same_off_at [OF sc(3)]]) (use sc(4) e h fresh in auto)
    moreover have "keeps members {} s ?s"
      using sc(3) np sd by (auto simp: keeps_def same_off_def pend_ok_def)
    moreover have "activate env h t e dt (s\<lparr>n_handles := (n_handles s)(h \<mapsto> x\<lparr>nh_status := Some Blocked\<rparr>)\<rparr>) = Inr ?s"
      using sd np env sc(1) by (simp add: activate_def dep_timer_op_def ns_now_def)
    ultimately show ?thesis by simp
  qed
qed

lemma setup_event_step:
  assumes ni: "NI s" and env: "ne_ops env = ops" and h: "n_handles s h = Some x" "nh_type x = NsUdp"
    and d: "0 \<le> getSecondsD env (time_diff t (ns_now s))" and e: "e \<noteq> 0"
  shows "ends_well (\<lambda>s'. NI s' \<and> keeps members {} s s')
    (setup_event env h e dt t (s\<lparr>n_handles := (n_handles s)(h \<mapsto> x\<lparr>nh_status := Some Blocked\<rparr>)\<rparr>))"
proof -
  obtain su where su: "n_udps s h = Some su" "timer_ok members (n_sched s) (udp_event h) (su_timer su)" "su_agent su \<noteq> None"
    by (rule NI_udp [OF ni h])
  let ?d = "getSecondsD env (time_diff t (ns_now s))"
  from timer_resched_raw [OF NI_raw [OF ni] su(2) d] show ?thesis
  proof (elim disjE exE conjE)
    assume "timer_resched ops ?d (su_timer su, n_sched s) = Inl uid_exhausted"
    then show ?thesis using su env by (simp add: setup_event_def udp_timer_op_def ns_now_def)
  next
    fix sc assume sc: "timer_resched ops ?d (su_timer su, n_sched s) = Inr ((su_timer su)\<lparr>t_status := TIMER_PENDING\<rparr>, sc)" "RI sc"
      "same_off members (udp_event h) (n_sched s) sc" "timer_ok members sc (udp_event h) ((su_timer su)\<lparr>t_status := TIMER_PENDING\<rparr>)"
    let ?su = "su\<lparr>su_e := e, su_data := dt, su_timeout := t, su_timer := (su_timer su)\<lparr>t_status := TIMER_PENDING\<rparr>\<rparr>"
    let ?s = "s\<lparr>n_sched := sc, n_udps := (n_udps s)(h \<mapsto> ?su), n_handles := (n_handles s)(h \<mapsto> x\<lparr>nh_status := Some Blocked\<rparr>)\<rparr>"
    have "NI ?s"
      by (rule ns_inv_udp_update [OF ni sc(2) same_off_at [OF sc(3)]]) (use sc(4) e h su in auto)
    moreover have "keeps members {} s ?s"
      using sc(3) h by (auto simp: keeps_def same_off_def pend_ok_def)
    moreover have "setup_event env h e dt t (s\<lparr>n_handles := (n_handles s)(h \<mapsto> x\<lparr>nh_status := Some Blocked\<rparr>)\<rparr>) = Inr ?s"
      using su env sc(1) by (simp add: setup_event_def udp_timer_op_def ns_now_def)
    ultimately show ?thesis by simp
  qed
qed

lemma insert_GeaNsEvent_step:
  assumes ni: "NI s" and env: "ne_ops env = ops" and h: "n_handles s h = Some x" "nh_type x = NsBlocker"
    and d: "clock (n_sched s) \<le> getSecondsD env (time_diff t AbsTime_t0)" and e: "e \<noteq> 0"
  shows "ends_well (\<lambda>s'. NI s' \<and> keeps members {} s s')
    (insert_GeaNsEvent env h t e dt (s\<lparr>n_handles := (n_handles s)(h \<mapsto> x\<lparr>nh_status := Some Blocked\<rparr>)\<rparr>))"
proof -
  let ?k = "n_next s" and ?d = "getSecondsD env (time_diff t AbsTime_t0)"
  have eh: "EVENT_HANDLER \<noteq> 0" by (simp add: EVENT_HANDLER_def)
  have new: "gea_event ?k \<notin> members (queue (n_sched s))"
    using ni unfolding ns_inv_def gea_event_ok_def by blast
  obtain sc where sc: "insert_raw ops (gea_event ?k) EVENT_HANDLER ?d (n_sched s) = Inr sc" "RI sc" "clock sc = clock (n_sched s)"
    "members (queue sc) = insert (gea_event ?k) (members (queue (n_sched s)))"
    "events sc = (events (n_sched s))(gea_event ?k := \<lparr>ehandler = EVENT_HANDLER, etime = ?d, euid = 0\<rparr>)"
    by (rule insert_raw_step [OF NI_raw [OF ni] new eh d])
  let ?s = "s\<lparr>n_handles := (n_handles s)(h \<mapsto> x\<lparr>nh_status := Some Blocked\<rparr>), n_sched := sc, n_next := Suc ?k,
     n_events := (n_events s)(?k \<mapsto> \<lparr>ge_h = h, ge_timeout = t, ge_event = e, ge_data = dt\<rparr>)\<rparr>"
  have off: "same_at members (gea_event ?k) (n_sched s) sc" using sc by (simp add: same_at_def)
  have old: "dep_ok members s g" "udp_ok members s g" "handle_ok s g" "gea_event_ok members s k" for g k
    using ni by (auto simp: ns_inv_def)
  have "dep_ok members ?s g" "udp_ok members ?s g" for g
    using old(1,2) [of g] timer_ok_off [OF off] h sc(4) by (auto simp: dep_ok_def udp_ok_def split: option.splits)
  moreover have "handle_ok ?s g" for g
    using old(3) [of g] h by (auto simp: handle_ok_def split: option.splits NsHandleType.splits)
  moreover have "gea_event_ok members ?s k" for k
    using old(4) [of k] sc(4,5) e by (auto simp: gea_event_ok_def)
  moreover have "pend_ok ?s i" if "pend_ok s i" for i
    using that h by (auto simp: pend_ok_def)
  ultimately have "NI ?s" "keeps members {} s ?s"
    using ni sc(2-4) by (auto simp: ns_inv_def keeps_def)
  with sc(1) env show ?thesis by (simp add: insert_GeaNsEvent_def Let_def)
qed

text \<open>Making and deleting handles.\<close>

lemma new_handle_step:
  assumes ni: "NI s" and h: "n_handles s h = None" "n_deps s h = None" "n_udps s h = None"
  shows "\<exists>s'. ns_new_Blocker h s = Inr s' \<and> NI s' \<and> keeps members {} s s'"
    and "\<exists>s'. ns_new_DependHandle h s = Inr s' \<and> NI s' \<and> keeps members {} s s'"
    and "\<exists>s'. ns_new_UdpHandle h r a s = Inr s' \<and> NI s' \<and> keeps members {} s s'"
proof -
  have old: "dep_ok members s g" "udp_ok members s g" "handle_ok s g" "gea_event_ok members s k" for g k
    using ni by (auto simp: ns_inv_def)
  note defs = ns_new_Blocker_def ns_new_DependHandle_def ns_new_UdpHandle_def ns_createSubBlocker_def ns_createShadowHandle_def
    ns_createSubDepend_def ns_createSubUdpHandle_def makeShadowUdpHandle_def udp_init_def new_timer_def new_TimerHandler_def
  have out: "dep_event h \<notin> members (queue (n_sched s))" "udp_event h \<notin> members (queue (n_sched s))"
    using old(1,2) [of h] h by (auto simp: dep_ok_def udp_ok_def)
  let ?x = "\<lambda>ty. \<lparr>nh_status = None, nh_type = ty, nh_node = currentNode s\<rparr>"
  let ?sd = "\<lparr>sd_timer = new_timer (dep_event h), sd_triggered = False, sd_e = 0, sd_data = 0\<rparr>"
  let ?su = "udp_init (currentNode s) (makeShadowUdpHandle (if r then Read else Write) a h (ns_createShadowHandle h s))"
  let ?b = "s\<lparr>n_handles := (n_handles s)(h \<mapsto> ?x NsBlocker)\<rparr>"
    and ?d = "s\<lparr>n_handles := (n_handles s)(h \<mapsto> ?x NsDepend), n_deps := (n_deps s)(h \<mapsto> ?sd)\<rparr>"
    and ?u = "s\<lparr>n_handles := (n_handles s)(h \<mapsto> ?x NsUdp), n_udps := (n_udps s)(h \<mapsto> ?su)\<rparr>"
  have dep: "dep_ok members ?b g" "dep_ok members ?d g" "dep_ok members ?u g" for g
    using old(1) [of g] out h by (auto simp: dep_ok_def timer_ok_def new_timer_def new_TimerHandler_def split: option.splits)
  have udp: "udp_ok members ?b g" "udp_ok members ?d g" "udp_ok members ?u g" for g
    using old(2) [of g] out h by (auto simp: udp_ok_def timer_ok_def defs split: option.splits)
  have hdl: "handle_ok ?b g" "handle_ok ?d g" "handle_ok ?u g" for g
    using old(3) [of g] h by (auto simp: handle_ok_def defs split: option.splits NsHandleType.splits)
  have gea: "gea_event_ok members ?b k" "gea_event_ok members ?d k" "gea_event_ok members ?u k" for k
    using old(4) [of k] h by (auto simp: gea_event_ok_def)
  have pend: "pend_ok ?b i" "pend_ok ?d i" "pend_ok ?u i" if "pend_ok s i" for i
    using that h by (auto simp: pend_ok_def)
  have "NI ?b" "NI ?d" "NI ?u" "keeps members {} s ?b" "keeps members {} s ?d" "keeps members {} s ?u"
    using ni dep udp hdl gea pend h by (auto simp: ns_inv_def keeps_def)
  then show "\<exists>s'. ns_new_Blocker h s = Inr s' \<and> NI s' \<and> keeps members {} s s'"
    and "\<exists>s'. ns_new_DependHandle h s = Inr s' \<and> NI s' \<and> keeps members {} s s'"
    and "\<exists>s'. ns_new_UdpHandle h r a s = Inr s' \<and> NI s' \<and> keeps members {} s s'"
    by (auto simp: ns_new_Blocker_def ns_new_DependHandle_def ns_new_UdpHandle_def ns_createSubBlocker_def
      ns_createSubDepend_def ns_createSubUdpHandle_def ns_createShadowHandle_def)
qed

lemma delete_step:
  assumes ni: "NI s" and ok: "ns_call_ok members env (NsDelete h) s"
  shows "\<exists>s'. ns_delete h s = Inr s' \<and> NI s' \<and> keeps members {} s s'"
proof -
  have old: "dep_ok members s g" "udp_ok members s g" "handle_ok s g" "gea_event_ok members s k" for g k
    using ni by (auto simp: ns_inv_def)
  obtain x where x: "n_handles s h = Some x" using ok by (auto simp: ns_call_ok_def)
  have idle: "\<And>sd. n_deps s h = Some sd \<Longrightarrow> t_status (sd_timer sd) = TIMER_IDLE"
    "\<And>su. n_udps s h = Some su \<Longrightarrow> t_status (su_timer su) = TIMER_IDLE"
    "\<And>k ge. gea_event k \<in> members (queue (n_sched s)) \<Longrightarrow> n_events s k = Some ge \<Longrightarrow> ge_h ge \<noteq> h"
    using ok by (auto simp: ns_call_ok_def)
  have out: "dep_event h \<notin> members (queue (n_sched s))" "udp_event h \<notin> members (queue (n_sched s))"
    using old(1,2) [of h] idle(1,2) by (auto simp: dep_ok_def udp_ok_def timer_ok_def split: option.splits)
  let ?sd = "\<lparr>sd_timer = new_timer (dep_event h), sd_triggered = False, sd_e = 0, sd_data = 0\<rparr>"
  let ?b = "s\<lparr>n_handles := (n_handles s)(h := None)\<rparr>"
    and ?d = "s\<lparr>n_deps := (n_deps s)(h \<mapsto> ?sd), n_handles := (n_handles s)(h := None)\<rparr>"
    and ?u = "s\<lparr>n_udps := (n_udps s)(h := None), n_handles := (n_handles s)(h := None)\<rparr>"
  have dep: "dep_ok members ?b g" "dep_ok members ?d g" "dep_ok members ?u g" for g
    using old(1) [of g] out idle(1)
    by (auto simp: dep_ok_def timer_ok_def new_timer_def new_TimerHandler_def split: option.splits)
  have udp: "udp_ok members ?b g" "udp_ok members ?d g" "udp_ok members ?u g" for g
    using old(2) [of g] out idle(2) by (auto simp: udp_ok_def split: option.splits)
  have hdl: "handle_ok ?b g" "handle_ok ?d g" "handle_ok ?u g" for g
    using old(3) [of g] by (auto simp: handle_ok_def split: option.splits NsHandleType.splits)
  have gea: "gea_event_ok members ?b k" "gea_event_ok members ?d k" "gea_event_ok members ?u k" for k
    using old(4) [of k] idle(3) [of k] by (auto simp: gea_event_ok_def)
  have pend: "pend_ok ?b i" "pend_ok ?d i" "pend_ok ?u i" if "pend_ok s i" for i
    using that idle(1) by (auto simp: pend_ok_def)
  have "NI ?b" "NI ?d" "NI ?u" "keeps members {} s ?b" "keeps members {} s ?d" "keeps members {} s ?u"
    using ni dep udp hdl gea pend idle(2) by (auto simp: ns_inv_def keeps_def)
  then show ?thesis
    using x old(3) [of h]
    by (cases "nh_type x") (auto simp: ns_delete_def ns_createSubDepend_def ns_destroyShadowHandle_def ns_destroySubUdpHandle_def
      handle_ok_def assertE_def)
qed

lemma write_step:
  assumes ni: "NI s" and h: "n_handles s h = Some x" "nh_type x = NsUdp"
  shows "\<exists>r s'. udp_write h buf s = Inr (r, s') \<and> NI s' \<and> keeps members {} s s'"
proof -
  obtain su where "n_udps s h = Some su" "su_agent su \<noteq> None" by (rule NI_udp [OF ni h])
  with h ni show ?thesis by (auto simp: udp_write_def keeps_def pend_ok_def)
qed

lemma setDest_step:
  assumes ni: "NI s" and h: "n_handles s h = Some x" "nh_type x = NsUdp"
  shows "\<exists>s'. udp_setDest h a s = Inr s' \<and> NI s' \<and> keeps members {} s s'"
proof -
  obtain su where su: "n_udps s h = Some su" "timer_ok members (n_sched s) (udp_event h) (su_timer su)" "su_agent su \<noteq> None"
    "t_status (su_timer su) = TIMER_PENDING \<longrightarrow> su_e su \<noteq> 0" "nh_status x = Some Blocked \<longrightarrow> t_status (su_timer su) = TIMER_PENDING"
    by (rule NI_udp [OF ni h])
  then obtain ag where ag: "su_agent su = Some ag" by auto
  let ?su = "su\<lparr>su_addr := a, su_agent := Some (ag\<lparr>ag_daddr := sint (ip a), ag_dport := uint (port a)\<rparr>)\<rparr>"
  let ?s = "s\<lparr>n_udps := (n_udps s)(h \<mapsto> ?su)\<rparr>"
  have "NI (s\<lparr>n_sched := n_sched s, n_udps := (n_udps s)(h \<mapsto> ?su), n_handles := (n_handles s)(h \<mapsto> x)\<rparr>)"
    by (rule ns_inv_udp_update [OF ni NI_raw [OF ni] same_at_refl]) (use su h in auto)
  moreover have "s\<lparr>n_sched := n_sched s, n_udps := (n_udps s)(h \<mapsto> ?su), n_handles := (n_handles s)(h \<mapsto> x)\<rparr> = ?s"
    using h(1) by (simp add: map_upd_triv)
  ultimately have "NI ?s" by (simp only:)
  moreover have "keeps members {} s ?s" using su by (auto simp: keeps_def pend_ok_def)
  ultimately show ?thesis using su ag by (auto simp: udp_setDest_def)
qed

section \<open>Every call returns in order\<close>

abbreviation fine :: "addr set \<Rightarrow> 'q NsGea \<Rightarrow> 'q NsGea result \<Rightarrow> bool" where
  "fine H s r \<equiv> ends_well (\<lambda>s'. NI s' \<and> keeps members H s s') r"

lemma fine_bind:
  assumes "fine H s r" and "\<And>s1. NI s1 \<Longrightarrow> keeps members H s s1 \<Longrightarrow> fine H s1 (f s1)"
  shows "fine H s (bindE r f)"
proof (rule ends_well_bind [OF assms(1)])
  fix s1 assume "NI s1 \<and> keeps members H s s1"
  with assms(2) [of s1] show "fine H s (f s1)"
    by (auto intro: ends_well_mono keeps_trans)
qed

text \<open>A call of the interface, when the event functions called from it return in order.\<close>

lemma exec_step:
  assumes env: "ne_ops env = ops"
    and call: "\<And>e h t d s. NI s \<Longrightarrow> e \<noteq> 0 \<Longrightarrow> fine {} s (callEvent env n e h t d s)"
    and pend: "\<And>t s. NI s \<Longrightarrow> fine {} s (doPendingEvents env n t s)"
    and ni: "NI s" and ok: "ns_call_ok members env c s"
  shows "fine {} s (exec_ns_call env n c s)"
proof (cases c)
  case (NsWaitFor h t e d)
  obtain x where x: "n_handles s h = Some x" and e: "e \<noteq> 0"
    using ok NsWaitFor by (auto simp: ns_call_ok_def split: option.splits)
  show ?thesis
  proof (cases "nh_type x")
    case NsBlocker
    with ok x NsWaitFor insert_GeaNsEvent_step [OF ni env x NsBlocker _ e, of t d] show ?thesis
      by (simp add: exec_ns_call.simps ns_waitFor.simps set_nh_status_def ns_call_ok_def)
  next
    case NsDepend
    with ok x NsWaitFor activate_step [OF ni env x NsDepend _ _ e, of t d] show ?thesis
      by (simp add: exec_ns_call.simps ns_waitFor.simps set_nh_status_def ns_call_ok_def)
  next
    case NsUdp
    obtain su where su: "n_udps s h = Some su" "timer_ok members (n_sched s) (udp_event h) (su_timer su)" "su_agent su \<noteq> None"
      "t_status (su_timer su) = TIMER_PENDING \<longrightarrow> su_e su \<noteq> 0"
      by (rule NI_udp [OF ni x NsUdp])
    show ?thesis
    proof (cases "su_mode su")
      case Read
      with ok x NsWaitFor NsUdp su(1) setup_event_step [OF ni env x NsUdp _ e, of t d] show ?thesis
        by (simp add: exec_ns_call.simps ns_waitFor.simps set_nh_status_def ns_call_ok_def)
    next
      case Write
      let ?s = "s\<lparr>n_handles := (n_handles s)(h \<mapsto> x\<lparr>nh_status := Some Ready\<rparr>)\<rparr>"
      have "NI (s\<lparr>n_sched := n_sched s, n_udps := (n_udps s)(h \<mapsto> su), n_handles := (n_handles s)(h \<mapsto> x\<lparr>nh_status := Some Ready\<rparr>)\<rparr>)"
        by (rule ns_inv_udp_update [OF ni NI_raw [OF ni] same_at_refl]) (use su x NsUdp in auto)
      then have ni': "NI ?s" using su(1) by (simp add: map_upd_triv)
      have "keeps members {} s ?s" using x NsUdp by (auto simp: keeps_def pend_ok_def)
      moreover have "fine {} ?s (bindE (callEvent env n e h (ns_now ?s) d ?s) (doPendingEvents env n t))"
        by (rule fine_bind [OF call [OF ni' e]]) (rule pend)
      ultimately have "fine {} s (bindE (callEvent env n e h (ns_now ?s) d ?s) (doPendingEvents env n t))"
        by (auto intro: ends_well_mono keeps_trans)
      then show ?thesis using x NsWaitFor NsUdp su(1) Write
        by (simp add: exec_ns_call.simps ns_waitFor.simps set_nh_status_def)
    qed
  qed
next
  case (NsComplied h)
  with ok obtain x where x: "n_handles s h = Some x" "nh_type x = NsDepend" by (auto simp: ns_call_ok_def)
  obtain s' where "ns_complied h s = Inr s'" "NI s'" "keeps members {} s s'" by (rule complied_step [OF ni x])
  with NsComplied show ?thesis by (simp add: exec_ns_call.simps)
next
  case (NsWrite h buf)
  with ok obtain x where x: "n_handles s h = Some x" "nh_type x = NsUdp" by (auto simp: ns_call_ok_def)
  from write_step [OF ni x, of buf] NsWrite show ?thesis by (auto simp: exec_ns_call.simps)
next
  case (NsSetDest h a)
  with ok obtain x where x: "n_handles s h = Some x" "nh_type x = NsUdp" by (auto simp: ns_call_ok_def)
  from setDest_step [OF ni x, of a] NsSetDest show ?thesis by (auto simp: exec_ns_call.simps)
next
  case (NsDelete h)
  with ok delete_step [OF ni, of env h] show ?thesis by (auto simp: exec_ns_call.simps)
next
  case (NsNewBlocker h)
  with ok new_handle_step(1) [OF ni, of h] show ?thesis by (auto simp: exec_ns_call.simps ns_call_ok_def)
next
  case (NsNewDepend h)
  with ok new_handle_step(2) [OF ni, of h] show ?thesis by (auto simp: exec_ns_call.simps ns_call_ok_def)
next
  case (NsNewUdp h r a)
  with ok new_handle_step(3) [OF ni, of h r a] show ?thesis by (auto simp: exec_ns_call.simps ns_call_ok_def)
qed

lemma exec_list_step:
  assumes exec: "\<And>c s. NI s \<Longrightarrow> ns_call_ok members env c s \<Longrightarrow> fine {} s (exec_ns_call env n c s)"
  shows "NI s \<Longrightarrow> ns_calls_ok members env n cs s \<Longrightarrow> fine {} s (foldE (exec_ns_call env n) cs s)"
proof (induction cs arbitrary: s)
  case (Cons c cs)
  from Cons.prems have "fine {} s (exec_ns_call env n c s)" by (intro exec) auto
  then have "fine {} s (bindE (exec_ns_call env n c s) (foldE (exec_ns_call env n) cs))"
  proof (rule ends_well_bind)
    fix s1 assume "exec_ns_call env n c s = Inr s1" "NI s1 \<and> keeps members {} s s1"
    with Cons show "fine {} s (foldE (exec_ns_call env n) cs s1)" by (auto intro: ends_well_mono keeps_trans)
  qed
  then show ?case by simp
qed (simp add: keeps_refl)

text \<open>The event of a triggered dependency is called: its timer is stopped first.\<close>

lemma callPending_step:
  assumes env: "ne_ops env = ops"
    and call: "\<And>e h t d s. NI s \<Longrightarrow> e \<noteq> 0 \<Longrightarrow> fine {} s (callEvent env n e h t d s)"
    and ni: "NI s" and i: "pend_ok s i" "pd_h i \<notin> pd_h ` set (pendingList s)"
  shows "fine {pd_h i} s (callPending env n t i s)"
proof -
  let ?h = "pd_h i"
  obtain sd x where sd: "n_deps s ?h = Some sd" "t_status (sd_timer sd) = TIMER_PENDING" "n_handles s ?h = Some x"
    "nh_status x = Some Ready" "nh_type x = NsDepend" "pd_e i \<noteq> 0"
    using i(1) by (auto simp: pend_ok_def)
  have T: "timer_ok members (n_sched s) (dep_event ?h) (sd_timer sd)"
    using ni sd(1) unfolding ns_inv_def dep_ok_def by (auto split: option.splits)
  obtain sc where sc: "timer_cancel ops (sd_timer sd, n_sched s) = Inr ((sd_timer sd)\<lparr>t_status := TIMER_IDLE\<rparr>, sc)" "RI sc"
    "same_off members (dep_event ?h) (n_sched s) sc" "timer_ok members sc (dep_event ?h) ((sd_timer sd)\<lparr>t_status := TIMER_IDLE\<rparr>)"
    by (rule timer_cancel_raw [OF NI_raw [OF ni] T sd(2)])
  let ?sd = "sd\<lparr>sd_timer := (sd_timer sd)\<lparr>t_status := TIMER_IDLE\<rparr>\<rparr>"
  let ?s = "s\<lparr>n_sched := sc, n_deps := (n_deps s)(?h \<mapsto> ?sd), n_last := t\<rparr>"
  have "NI (s\<lparr>n_sched := sc, n_deps := (n_deps s)(?h \<mapsto> ?sd), n_handles := (n_handles s)(?h \<mapsto> x)\<rparr>)"
    by (rule ns_inv_dep_update [OF ni sc(2) same_off_at [OF sc(3)]]) (use sc(4) sd i(2) in auto)
  then have "NI ?s" using sd(3) by (simp add: map_upd_triv)
  from call [OF this sd(6), of "pd_h i" t "pd_data i"]
  have "fine {} ?s (callEvent env n (pd_e i) ?h t (pd_data i) ?s)" .
  moreover have "keeps members {?h} s ?s" using sc(3) by (auto simp: keeps_def same_off_def pend_ok_def)
  ultimately have "fine {?h} s (callEvent env n (pd_e i) ?h t (pd_data i) ?s)"
    by (auto intro: ends_well_mono keeps_trans keeps_mono)
  then show ?thesis using sd(1,2) sc(1) env by (simp add: callPending.simps dep_timer_op_def)
qed

lemma callPendings_step:
  assumes env: "ne_ops env = ops"
    and call: "\<And>e h t d s. NI s \<Longrightarrow> e \<noteq> 0 \<Longrightarrow> fine {} s (callEvent env n e h t d s)"
  shows "NI s \<Longrightarrow> distinct (map pd_h todo) \<Longrightarrow> \<forall>i \<in> set todo. pend_ok s i \<and> pd_h i \<notin> pd_h ` set (pendingList s) \<Longrightarrow>
    fine (pd_h ` set todo) s (foldE (callPending env n t) todo s)"
proof (induction todo arbitrary: s)
  case (Cons i todo)
  have "fine {pd_h i} s (callPending env n t i s)"
    by (rule callPending_step [OF env call Cons.prems(1)]) (use Cons.prems(3) in auto)
  then have "fine (pd_h ` set (i # todo)) s (bindE (callPending env n t i s) (foldE (callPending env n t) todo))"
  proof (rule ends_well_bind)
    fix s1 assume s1: "NI s1 \<and> keeps members {pd_h i} s s1"
    have "\<forall>j \<in> set todo. pend_ok s1 j \<and> pd_h j \<notin> pd_h ` set (pendingList s1)"
      using s1 Cons.prems(2,3) unfolding keeps_def by (auto simp del: image_iff) (metis image_eqI)+
    with Cons.IH [of s1] s1 Cons.prems(2) have "fine (pd_h ` set todo) s1 (foldE (callPending env n t) todo s1)" by simp
    moreover have "keeps members (pd_h ` set (i # todo)) s s1" using s1 by (auto intro: keeps_mono)
    ultimately show "fine (pd_h ` set (i # todo)) s (foldE (callPending env n t) todo s1)"
      by (auto intro: ends_well_mono keeps_trans keeps_mono)
  qed
  then show ?case by simp
qed (simp add: keeps_refl)

lemma keeps_pending:
  "keeps members (pd_h ` set (pendingList s)) (s\<lparr>pendingList := []\<rparr>) s' \<Longrightarrow> keeps members {} s s'"
  unfolding keeps_def by simp

text \<open>Event functions of an application that keeps the rules return in order, and afterwards
  \<^verbatim>\<open>doPendingEvents\<close> leaves no triggered dependency.\<close>

lemma calls_return:
  assumes env: "ne_ops env = ops" and client: "client_ok qinv members env"
  shows "(\<forall>e h t d s. NI s \<longrightarrow> e \<noteq> 0 \<longrightarrow> fine {} s (callEvent env n e h t d s))
    \<and> (\<forall>t s. NI s \<longrightarrow> ends_well (\<lambda>s'. NI s' \<and> keeps members {} s s' \<and> pendingList s' = []) (doPendingEvents env n t s))"
proof (induction n)
  case (Suc n)
  have call: "NI s \<Longrightarrow> e \<noteq> 0 \<Longrightarrow> fine {} s (callEvent env n e h t d s)" for e h t d s
    using Suc.IH by blast
  have pend: "NI s \<Longrightarrow> ends_well (\<lambda>s'. NI s' \<and> keeps members {} s s' \<and> pendingList s' = []) (doPendingEvents env n t s)" for t s
    using Suc.IH by blast
  have exec: "NI s \<Longrightarrow> ns_call_ok members env c s \<Longrightarrow> fine {} s (exec_ns_call env n c s)" for c s
    by (rule exec_step [OF env call]) (auto intro: ends_well_mono [OF pend])
  have "fine {} s (callEvent env (Suc n) e h t d s)" if ni: "NI s" and e: "e \<noteq> 0" for e h t d s
  proof -
    let ?s = "log_call e h t d s"
    have "fine {} ?s (foldE (exec_ns_call env n) (ne_callback env e h t d ?s) ?s)"
      by (rule exec_list_step [OF exec]) (use ni client in \<open>auto simp: client_ok_def\<close>)
    moreover have "keeps members {} s ?s" by (auto simp: keeps_def log_call_def pend_ok_def)
    ultimately show ?thesis using e by (auto intro: ends_well_mono keeps_trans)
  qed
  moreover have "ends_well (\<lambda>s'. NI s' \<and> keeps members {} s s' \<and> pendingList s' = []) (doPendingEvents env (Suc n) t s)"
    if ni: "NI s" for t s
  proof (cases "pendingList s = []")
    case False
    let ?s = "s\<lparr>pendingList := []\<rparr>"
    have "fine (pd_h ` set (pendingList s)) ?s (foldE (callPending env n t) (pendingList s) ?s)"
      by (rule callPendings_step [OF env call ns_inv_drop_pending [OF ni]]) (use ni in \<open>auto simp: ns_inv_def\<close>)
    then have "ends_well (\<lambda>s'. NI s' \<and> keeps members {} s s' \<and> pendingList s' = [])
        (bindE (foldE (callPending env n t) (pendingList s) ?s) (doPendingEvents env n t))"
    proof (rule ends_well_bind)
      fix s1 assume s1: "NI s1 \<and> keeps members (pd_h ` set (pendingList s)) ?s s1"
      then have "keeps members {} s s1" using keeps_pending by blast
      with pend [of s1 t] s1 show "ends_well (\<lambda>s'. NI s' \<and> keeps members {} s s' \<and> pendingList s' = []) (doPendingEvents env n t s1)"
        by (auto intro: ends_well_mono keeps_trans)
    qed
    with False show ?thesis by simp
  qed (use ni keeps_refl in simp)
  ultimately show ?case by blast
qed simp

section \<open>Dispatching\<close>

lemma NI_gea_update:
  assumes ni: "NI s" and ri: "RI sc" and off: "same_at members (gea_event k) (n_sched s) sc" and out: "gea_event k \<notin> members (queue sc)"
  shows "NI (s\<lparr>n_sched := sc\<rparr>)"
proof -
  have old: "dep_ok members s g" "udp_ok members s g" "handle_ok s g" "gea_event_ok members s j" for g j
    using ni by (auto simp: ns_inv_def)
  have "dep_ok members (s\<lparr>n_sched := sc\<rparr>) g" "udp_ok members (s\<lparr>n_sched := sc\<rparr>) g" for g
    using old(1,2) [of g] timer_ok_off [OF off] off by (auto simp: dep_ok_def udp_ok_def same_at_def split: option.splits)
  moreover have "handle_ok (s\<lparr>n_sched := sc\<rparr>) g" for g
    using old(3) [of g] by (auto simp: handle_ok_def split: option.splits NsHandleType.splits)
  moreover have "gea_event_ok members (s\<lparr>n_sched := sc\<rparr>) j" for j
    using old(4) [of j] off out by (cases "j = k") (auto simp: gea_event_ok_def same_at_def)
  moreover have "pend_ok (s\<lparr>n_sched := sc\<rparr>) i = pend_ok s i" for i by (simp add: pend_ok_def)
  ultimately show ?thesis using ni ri by (simp add: ns_inv_def)
qed

lemma NI_forget_event:
  assumes ni: "NI s" and out: "gea_event k \<notin> members (queue (n_sched s))"
  shows "NI (s\<lparr>n_events := (n_events s)(k := None)\<rparr>)" (is "NI ?s")
proof -
  have old: "dep_ok members s g" "udp_ok members s g" "handle_ok s g" "gea_event_ok members s j" for g j
    using ni by (auto simp: ns_inv_def)
  have "dep_ok members ?s g" "udp_ok members ?s g" "handle_ok ?s g" for g
    using old(1-3) [of g] by (auto simp: dep_ok_def udp_ok_def handle_ok_def split: option.splits NsHandleType.splits)
  moreover have "gea_event_ok members ?s j" for j using old(4) [of j] out by (cases "j = k") (auto simp: gea_event_ok_def)
  moreover have "pend_ok ?s i = pend_ok s i" for i by (simp add: pend_ok_def)
  ultimately show ?thesis using ni by (simp add: ns_inv_def)
qed

lemma dep_leave_step:
  assumes ni: "NI s" and sd: "n_deps s h \<noteq> None"
  shows "\<exists>s'. dep_timer_op timer_leave h s = Inr s' \<and> NI s' \<and> pendingList s' = pendingList s \<and> clock (n_sched s') = clock (n_sched s)
    \<and> n_log s' = n_log s"
proof -
  obtain d where d: "n_deps s h = Some d" using sd by auto
  show ?thesis
  proof (cases "t_status (sd_timer d) = TIMER_HANDLING")
    case False
    with d ni show ?thesis by (simp add: dep_timer_op_def timer_leave_def map_upd_triv)
  next
    case True
    have old: "dep_ok members s g" "udp_ok members s g" "handle_ok s g" "gea_event_ok members s j" for g j
      using ni by (auto simp: ns_inv_def)
    let ?s = "s\<lparr>n_deps := (n_deps s)(h \<mapsto> d\<lparr>sd_timer := (sd_timer d)\<lparr>t_status := TIMER_IDLE\<rparr>\<rparr>)\<rparr>"
    have "dep_ok members ?s g" "udp_ok members ?s g" "handle_ok ?s g" for g
      using old(1-3) [of g] d True
      by (auto simp: dep_ok_def udp_ok_def handle_ok_def timer_ok_def split: option.splits NsHandleType.splits)
    moreover have "gea_event_ok members ?s j" for j using old(4) [of j] by (auto simp: gea_event_ok_def)
    moreover have "pend_ok ?s i" if "pend_ok s i" for i using that d True by (auto simp: pend_ok_def)
    ultimately have "NI ?s" using ni by (simp add: ns_inv_def)
    with d True show ?thesis by (simp add: dep_timer_op_def timer_leave_def)
  qed
qed

lemma udp_leave_step:
  assumes ni: "NI s" and su: "n_udps s h \<noteq> None"
  shows "\<exists>s'. udp_timer_op timer_leave h s = Inr s' \<and> NI s' \<and> pendingList s' = pendingList s \<and> clock (n_sched s') = clock (n_sched s)
    \<and> n_log s' = n_log s"
proof -
  obtain u where u: "n_udps s h = Some u" using su by auto
  show ?thesis
  proof (cases "t_status (su_timer u) = TIMER_HANDLING")
    case False
    with u ni show ?thesis by (simp add: udp_timer_op_def timer_leave_def map_upd_triv)
  next
    case True
    have old: "dep_ok members s g" "udp_ok members s g" "handle_ok s g" "gea_event_ok members s j" for g j
      using ni by (auto simp: ns_inv_def)
    let ?s = "s\<lparr>n_udps := (n_udps s)(h \<mapsto> u\<lparr>su_timer := (su_timer u)\<lparr>t_status := TIMER_IDLE\<rparr>\<rparr>)\<rparr>"
    have "dep_ok members ?s g" "udp_ok members ?s g" "handle_ok ?s g" for g
      using old(1-3) [of g] u True
      by (auto simp: dep_ok_def udp_ok_def handle_ok_def timer_ok_def split: option.splits NsHandleType.splits)
    moreover have "gea_event_ok members ?s j" for j using old(4) [of j] by (auto simp: gea_event_ok_def)
    moreover have "pend_ok ?s i = pend_ok s i" for i by (auto simp: pend_ok_def)
    ultimately have "NI ?s" using ni by (simp add: ns_inv_def)
    with u True show ?thesis by (simp add: udp_timer_op_def timer_leave_def)
  qed
qed

abbreviation done_well :: "'q NsGea \<Rightarrow> 'q NsGea result \<Rightarrow> bool" where
  "done_well s r \<equiv> ends_well (\<lambda>s'. NI s' \<and> pendingList s' = [] \<and> clock (n_sched s') = clock (n_sched s)
     \<and> prefix (n_log s) (n_log s')) r"

text \<open>Each handler, on the state in which the scheduler has taken the event \<open>e\<close> from the queue.\<close>

lemma ns_handle_step:
  assumes env: "ne_ops env = ops" and client: "client_ok qinv members env"
    and ni: "NI s" and ri: "RI sc" and off: "same_at members (gea_event k) (n_sched s) sc"
    and k: "gea_event k \<in> members (queue (n_sched s))" "gea_event k \<notin> members (queue sc)"
  shows "done_well (s\<lparr>n_sched := sc\<rparr>) (ns_handle env n k (s\<lparr>n_sched := sc\<rparr>))"
proof -
  obtain ge x where ge: "n_events s k = Some ge" "ge_event ge \<noteq> 0" "n_handles s (ge_h ge) = Some x" "k < n_next s"
    using ni k(1) by (auto simp: ns_inv_def gea_event_ok_def)
  let ?s = "s\<lparr>n_sched := sc\<rparr>" and ?s1 = "s\<lparr>n_sched := sc, currentNode := nh_node x, n_last := ge_timeout ge\<rparr>"
  have "NI ?s" by (rule NI_gea_update [OF ni ri off k(2)])
  then have ni1: "NI ?s1" by simp
  have "fine {} ?s1 (callEvent env n (ge_event ge) (ge_h ge) (ge_timeout ge) (ge_data ge) ?s1)"
    using calls_return [OF env client] ni1 ge(2) by blast
  then have "done_well ?s (bindE (callEvent env n (ge_event ge) (ge_h ge) (ge_timeout ge) (ge_data ge) ?s1) (\<lambda>s1.
      bindE (doPendingEvents env n (ge_timeout ge) s1) (\<lambda>s2. Inr (s2\<lparr>n_events := (n_events s2)(k := None)\<rparr>))))"
  proof (rule ends_well_bind)
    fix s2 assume s2: "NI s2 \<and> keeps members {} ?s1 s2"
    have "ends_well (\<lambda>s'. NI s' \<and> keeps members {} s2 s' \<and> pendingList s' = []) (doPendingEvents env n (ge_timeout ge) s2)"
      using calls_return [OF env client] s2 by blast
    then show "done_well ?s (bindE (doPendingEvents env n (ge_timeout ge) s2) (\<lambda>s2. Inr (s2\<lparr>n_events := (n_events s2)(k := None)\<rparr>)))"
    proof (rule ends_well_bind)
      fix s3 assume s3: "NI s3 \<and> keeps members {} s2 s3 \<and> pendingList s3 = []"
      then have kp: "keeps members {} ?s1 s3" using s2 keeps_trans by blast
      then have "gea_event k \<notin> members (queue (n_sched s3))" using k(2) ge(4) by (simp add: keeps_def)
      with s3 kp show "done_well ?s (Inr (s3\<lparr>n_events := (n_events s3)(k := None)\<rparr>))"
        using NI_forget_event [of s3 k] by (auto simp: keeps_def)
    qed
  qed
  with ge show ?thesis by (simp add: ns_handle_def)
qed

lemma dep_handle_step:
  assumes env: "ne_ops env = ops" and client: "client_ok qinv members env" and quiet: "quiet_timeouts env"
    and ni: "NI s" and ri: "RI sc" and off: "same_at members (dep_event h) (n_sched s) sc" and pl: "pendingList s = []"
    and h: "dep_event h \<in> members (queue (n_sched s))" "dep_event h \<notin> members (queue sc)"
  shows "done_well (s\<lparr>n_sched := sc\<rparr>) (dep_handle env n h (s\<lparr>n_sched := sc\<rparr>))"
proof -
  obtain sd x where sd: "n_deps s h = Some sd" "timer_ok members (n_sched s) (dep_event h) (sd_timer sd)"
    "t_status (sd_timer sd) = TIMER_PENDING" "sd_e sd \<noteq> 0" "n_handles s h = Some x" "nh_type x = NsDepend"
    using ni h(1) unfolding ns_inv_def dep_ok_def timer_ok_def by (fastforce split: option.splits)
  let ?sd = "sd\<lparr>sd_timer := (sd_timer sd)\<lparr>t_status := TIMER_HANDLING\<rparr>\<rparr>" and ?x = "x\<lparr>nh_status := Some Timeout\<rparr>"
  let ?s1 = "s\<lparr>n_sched := sc, n_deps := (n_deps s)(h \<mapsto> ?sd), n_handles := (n_handles s)(h \<mapsto> ?x)\<rparr>"
  let ?s2 = "?s1\<lparr>n_last := ns_now ?s1\<rparr>"
  have "NI ?s1"
    by (rule ns_inv_dep_update [OF ni ri off]) (use sd h(2) pl in \<open>auto simp: timer_ok_def\<close>)
  then have ni2: "NI ?s2" by simp
  have "fine {} ?s2 (callEvent env n (sd_e sd) h (ns_now ?s1) (sd_data sd) ?s2)"
    using calls_return [OF env client] ni2 sd(4) by blast
  then have "done_well (s\<lparr>n_sched := sc\<rparr>)
      (bindE (callEvent env n (sd_e sd) h (ns_now ?s1) (sd_data sd) ?s2) (dep_timer_op timer_leave h))"
  proof (rule ends_well_bind)
    fix s3 assume s3: "callEvent env n (sd_e sd) h (ns_now ?s1) (sd_data sd) ?s2 = Inr s3" "NI s3 \<and> keeps members {} ?s2 s3"
    have "n_handles ?s2 h = Some ?x" "pendingList ?s2 = []" "nh_type ?x = NsDepend" "nh_status ?x = Some Timeout"
      using pl sd(6) by simp_all
    then have "pendingList s3 = []" using quiet s3(1) unfolding quiet_timeouts_def by blast
    moreover have "n_deps s3 h \<noteq> None" using s3(2) by (auto simp: keeps_def)
    ultimately show "done_well (s\<lparr>n_sched := sc\<rparr>) (dep_timer_op timer_leave h s3)"
      using dep_leave_step [of s3 h] s3(2) by (auto simp: keeps_def)
  qed
  with sd show ?thesis
    by (simp add: dep_handle_def dep_timer_op_def timer_enter_def dep_expire_def set_nh_status_def)
qed

lemma udp_handle_step:
  assumes env: "ne_ops env = ops" and client: "client_ok qinv members env"
    and ni: "NI s" and ri: "RI sc" and off: "same_at members (udp_event h) (n_sched s) sc"
    and h: "udp_event h \<in> members (queue (n_sched s))" "udp_event h \<notin> members (queue sc)"
  shows "done_well (s\<lparr>n_sched := sc\<rparr>) (udp_handle env n h (s\<lparr>n_sched := sc\<rparr>))"
proof -
  obtain su x where su: "n_udps s h = Some su" "timer_ok members (n_sched s) (udp_event h) (su_timer su)"
    "t_status (su_timer su) = TIMER_PENDING" "su_e su \<noteq> 0" "n_handles s h = Some x" "nh_type x = NsUdp"
    using ni h(1) unfolding ns_inv_def udp_ok_def timer_ok_def by (fastforce split: option.splits)
  have ag: "su_agent su \<noteq> None" using ni su(1,5,6) unfolding ns_inv_def handle_ok_def by (fastforce split: option.splits)
  let ?su = "su\<lparr>su_timer := (su_timer su)\<lparr>t_status := TIMER_HANDLING\<rparr>, su_e := 0, su_data := 0\<rparr>"
    and ?x = "x\<lparr>nh_status := Some Timeout\<rparr>"
  let ?s1 = "s\<lparr>n_sched := sc, n_udps := (n_udps s)(h \<mapsto> ?su), n_handles := (n_handles s)(h \<mapsto> ?x)\<rparr>"
  let ?s2 = "(setCurrentNode (nh_node ?x) ?s1)\<lparr>n_last := su_timeout su\<rparr>"
  have "NI ?s1"
    by (rule ns_inv_udp_update [OF ni ri off]) (use su h(2) ag in \<open>auto simp: timer_ok_def\<close>)
  then have ni2: "NI ?s2" by (simp add: setCurrentNode_def)
  have "fine {} ?s2 (callEvent env n (su_e su) h (su_timeout su) (su_data su) ?s2)"
    using calls_return [OF env client] ni2 su(4) by blast
  then have "ends_well (\<lambda>s'. NI s' \<and> keeps members {} ?s2 s' \<and> pendingList s' = [])
      (bindE (callEvent env n (su_e su) h (su_timeout su) (su_data su) ?s2) (\<lambda>s2. doPendingEvents env n (n_last s2) s2))"
  proof (rule ends_well_bind)
    fix s3 assume s3: "NI s3 \<and> keeps members {} ?s2 s3"
    have "ends_well (\<lambda>s'. NI s' \<and> keeps members {} s3 s' \<and> pendingList s' = []) (doPendingEvents env n (n_last s3) s3)"
      using calls_return [OF env client] s3 by blast
    then show "ends_well (\<lambda>s'. NI s' \<and> keeps members {} ?s2 s' \<and> pendingList s' = []) (doPendingEvents env n (n_last s3) s3)"
      by (rule ends_well_mono) (use s3 keeps_trans in blast)
  qed
  then have "done_well (s\<lparr>n_sched := sc\<rparr>)
      (bindE (bindE (callEvent env n (su_e su) h (su_timeout su) (su_data su) ?s2) (\<lambda>s2. doPendingEvents env n (n_last s2) s2))
        (udp_timer_op timer_leave h))"
  proof (rule ends_well_bind)
    fix s4 assume s4: "NI s4 \<and> keeps members {} ?s2 s4 \<and> pendingList s4 = []"
    have "n_udps ?s2 h = Some ?su" by (simp add: setCurrentNode_def)
    then have "n_udps s4 h \<noteq> None" using s4 unfolding keeps_def by fastforce
    then show "done_well (s\<lparr>n_sched := sc\<rparr>) (udp_timer_op timer_leave h s4)"
      using udp_leave_step [of s4 h] s4 by (auto simp: keeps_def setCurrentNode_def)
  qed
  with su show ?thesis
    by (simp add: udp_handle_def udp_timer_op_def timer_enter_def do_timeout_def set_nh_status_def)
qed

lemma ns_dispatch_step:
  assumes env: "ne_ops env = ops" and client: "client_ok qinv members env" and quiet: "quiet_timeouts env"
    and ni: "NI s" and pl: "pendingList s = []"
    and d: "deque ops (n_sched s) = Inr (Some e, sc)"
  shows "ends_well (\<lambda>s'. NI s' \<and> pendingList s' = [] \<and> clock (n_sched s') = etime (events (n_sched s) e)
      \<and> clock (n_sched s) \<le> clock (n_sched s') \<and> prefix (n_log s) (n_log s'))
    (ns_dispatch env n e (s\<lparr>n_sched := sc\<rparr>))"
proof -
  from NI_raw [OF ni] have e: "e \<in> members (queue (n_sched s))" "events sc = events (n_sched s)" "clock sc = clock (n_sched s)"
      "RI (advance e sc)" "members (queue sc) = members (queue (n_sched s)) - {e}" "clock (n_sched s) \<le> etime (events (n_sched s) e)"
    by (rule raw_deque_step; use d in auto)+
  let ?sc = "advance e sc" and ?t = "etime (events (n_sched s) e)"
  have off: "same_at members e (n_sched s) ?sc" and out: "e \<notin> members (queue ?sc)" and clk: "clock ?sc = ?t"
    using e by (auto simp: same_at_def advance_def negate_uid_def)
  have fin: "ends_well (\<lambda>s'. NI s' \<and> pendingList s' = [] \<and> clock (n_sched s') = ?t \<and> clock (n_sched s) \<le> clock (n_sched s')
      \<and> prefix (n_log s) (n_log s')) r" if "done_well (s\<lparr>n_sched := ?sc\<rparr>) r" for r
    using that by (rule ends_well_mono) (use clk e(6) in auto)
  have nb: "\<not> ?t < clock sc" using e by simp
  show ?thesis
  proof (cases rule: event_number_cases [of e])
    case (1 h)
    then have "ehandler (events (n_sched s) e) = e + 2"
      using ni e(1) unfolding ns_inv_def dep_ok_def timer_ok_def by (fastforce split: option.splits)
    then have "ns_dispatch env n e (s\<lparr>n_sched := sc\<rparr>) = dep_handle env n h (s\<lparr>n_sched := ?sc\<rparr>)"
      using nb e(2) 1 by (simp add: ns_dispatch_def Let_def EVENT_HANDLER_def)
    with fin dep_handle_step [OF env client quiet ni e(4), of h n] off out pl e(1) 1 show ?thesis by simp
  next
    case (2 h)
    then have "ehandler (events (n_sched s) e) = e + 2"
      using ni e(1) unfolding ns_inv_def udp_ok_def timer_ok_def by (fastforce split: option.splits)
    then have "ns_dispatch env n e (s\<lparr>n_sched := sc\<rparr>) = udp_handle env n h (s\<lparr>n_sched := ?sc\<rparr>)"
      using nb e(2) 2 by (simp add: ns_dispatch_def Let_def EVENT_HANDLER_def)
    with fin udp_handle_step [OF env client ni e(4), of h n] off out e(1) 2 show ?thesis by simp
  next
    case (3 k)
    then have "ehandler (events (n_sched s) e) = EVENT_HANDLER"
      using ni e(1) unfolding ns_inv_def gea_event_ok_def by blast
    then have "ns_dispatch env n e (s\<lparr>n_sched := sc\<rparr>) = ns_handle env n k (s\<lparr>n_sched := ?sc\<rparr>)"
      using nb e(2) 3 by (simp add: ns_dispatch_def Let_def EVENT_HANDLER_def)
    with fin ns_handle_step [OF env client ni e(4), of k n] off out e(1) 3 show ?thesis by simp
  qed
qed

text \<open>The log records a call before anything the event function does.\<close>

lemma callEvent_logs:
  assumes env: "ne_ops env = ops" and client: "client_ok qinv members env" and ni: "NI s" and e: "e \<noteq> 0"
  shows "ends_well (\<lambda>s'. NI s' \<and> prefix (n_log (log_call e h t d s)) (n_log s') \<and> clock (n_sched s') = clock (n_sched s))
    (callEvent env n e h t d s)"
proof (cases n)
  case (Suc m)
  let ?s = "log_call e h t d s"
  have exec: "NI s \<Longrightarrow> ns_call_ok members env c s \<Longrightarrow> fine {} s (exec_ns_call env m c s)" for c s
    by (rule exec_step [OF env]) (use calls_return [OF env client, of m] in \<open>blast intro: ends_well_mono\<close>)+
  have "fine {} ?s (foldE (exec_ns_call env m) (ne_callback env e h t d ?s) ?s)"
    by (rule exec_list_step [OF exec]) (use ni client in \<open>auto simp: client_ok_def\<close>)
  then have "ends_well (\<lambda>s'. NI s' \<and> prefix (n_log ?s) (n_log s') \<and> clock (n_sched s') = clock (n_sched s))
      (foldE (exec_ns_call env m) (ne_callback env e h t d ?s) ?s)"
    by (rule ends_well_mono) (auto dest: keepsD(1,5) simp: log_call_def)
  with e Suc show ?thesis by simp
qed simp

text \<open>A packet for a handle that waits for one.\<close>

lemma process_data_step:
  assumes env: "ne_ops env = ops" and client: "client_ok qinv members env"
    and ni: "NI s" and h: "n_handles s h = Some x" "nh_type x = NsUdp" "nh_status x = Some Blocked" and su: "n_udps s h = Some su"
  shows "su_e su \<noteq> 0 \<and> ends_well (\<lambda>s'. NI s' \<and> pendingList s' = [] \<and> clock (n_sched s') = clock (n_sched s)
      \<and> prefix (n_log s @ [\<lparr>cl_e = su_e su, cl_h = h, cl_t = ns_now s, cl_data = su_data su, cl_status = Some Ready, cl_node = nh_node x\<rparr>])
          (n_log s'))
    (process_data env n h saddr sport bytes s)"
proof -
  have su': "timer_ok members (n_sched s) (udp_event h) (su_timer su)" "su_agent su \<noteq> None"
    "su_e su \<noteq> 0" "t_status (su_timer su) = TIMER_PENDING"
    by (rule NI_udp [OF ni h(1,2)]; use su h(3) in auto)+
  obtain sc where sc: "timer_cancel ops (su_timer su, n_sched s) = Inr ((su_timer su)\<lparr>t_status := TIMER_IDLE\<rparr>, sc)" "RI sc"
    "same_off members (udp_event h) (n_sched s) sc" "timer_ok members sc (udp_event h) ((su_timer su)\<lparr>t_status := TIMER_IDLE\<rparr>)"
    by (rule timer_cancel_raw [OF NI_raw [OF ni] su'(1,4)])
  let ?src = "new_UdpAddress (word_of_int (get_nodeaddr env saddr)) sport"
  let ?su = "su\<lparr>su_src := ?src, su_timer := (su_timer su)\<lparr>t_status := TIMER_IDLE\<rparr>, su_curData := Some bytes, su_e := 0, su_data := 0\<rparr>"
  let ?s1 = "s\<lparr>n_sched := sc, n_udps := (n_udps s)(h \<mapsto> ?su), n_handles := (n_handles s)(h \<mapsto> x\<lparr>nh_status := Some Ready\<rparr>)\<rparr>"
  let ?s2 = "s\<lparr>n_sched := sc, n_handles := (n_handles s)(h \<mapsto> x\<lparr>nh_status := Some Ready\<rparr>), currentNode := nh_node x,
    shadow_currentNode := nh_node x, n_last := ns_now s, n_udps := (n_udps s)(h \<mapsto> ?su)\<rparr>"
  have clk: "clock sc = clock (n_sched s)" using sc(3) by (simp add: same_off_def)
  have "NI ?s1"
    by (rule ns_inv_udp_update [OF ni sc(2) same_off_at [OF sc(3)]]) (use sc(4) su' h in auto)
  then have "NI (?s1\<lparr>currentNode := nh_node x, shadow_currentNode := nh_node x, n_last := ns_now s\<rparr>)" by simp
  moreover have "?s1\<lparr>currentNode := nh_node x, shadow_currentNode := nh_node x, n_last := ns_now s\<rparr> = ?s2" by (cases s) simp
  ultimately have ni2: "NI ?s2" by (simp only:)
  have "ends_well (\<lambda>s'. NI s' \<and> prefix (n_log (log_call (su_e su) h (ns_now s) (su_data su) ?s2)) (n_log s')
      \<and> clock (n_sched s') = clock (n_sched ?s2)) (callEvent env n (su_e su) h (ns_now s) (su_data su) ?s2)"
    by (rule callEvent_logs [OF env client ni2 su'(3)])
  then have "ends_well (\<lambda>s'. NI s' \<and> pendingList s' = [] \<and> clock (n_sched s') = clock (n_sched s)
      \<and> prefix (n_log s @ [\<lparr>cl_e = su_e su, cl_h = h, cl_t = ns_now s, cl_data = su_data su, cl_status = Some Ready, cl_node = nh_node x\<rparr>])
          (n_log s'))
    (bindE (callEvent env n (su_e su) h (ns_now s) (su_data su) ?s2) (\<lambda>s4. doPendingEvents env n (n_last s4) s4))"
  proof (rule ends_well_bind)
    fix s4 assume s4: "NI s4 \<and> prefix (n_log (log_call (su_e su) h (ns_now s) (su_data su) ?s2)) (n_log s4)
      \<and> clock (n_sched s4) = clock (n_sched ?s2)"
    have "ends_well (\<lambda>s'. NI s' \<and> keeps members {} s4 s' \<and> pendingList s' = []) (doPendingEvents env n (n_last s4) s4)"
      using calls_return [OF env client] s4 by blast
    then show "ends_well (\<lambda>s'. NI s' \<and> pendingList s' = [] \<and> clock (n_sched s') = clock (n_sched s)
      \<and> prefix (n_log s @ [\<lparr>cl_e = su_e su, cl_h = h, cl_t = ns_now s, cl_data = su_data su, cl_status = Some Ready, cl_node = nh_node x\<rparr>])
          (n_log s')) (doPendingEvents env n (n_last s4) s4)"
    proof (rule ends_well_mono)
      fix s5 assume s5: "NI s5 \<and> keeps members {} s4 s5 \<and> pendingList s5 = []"
      then have "prefix (n_log (log_call (su_e su) h (ns_now s) (su_data su) ?s2)) (n_log s5)" "clock (n_sched s5) = clock (n_sched s)"
        using s4 keepsD(1,5) [of members "{}" s4 s5] clk prefix_order.order_trans by (auto simp: setCurrentNode_def)
      with s5 show "NI s5 \<and> pendingList s5 = [] \<and> clock (n_sched s5) = clock (n_sched s)
        \<and> prefix (n_log s @ [\<lparr>cl_e = su_e su, cl_h = h, cl_t = ns_now s, cl_data = su_data su, cl_status = Some Ready, cl_node = nh_node x\<rparr>])
            (n_log s5)"
        by (simp add: log_call_def setCurrentNode_def)
    qed
  qed
  moreover have "process_data env n h saddr sport bytes s
      = bindE (callEvent env n (su_e su) h (ns_now s) (su_data su) ?s2) (\<lambda>s4. doPendingEvents env n (n_last s4) s4)"
    using su su' h sc(1) env clk
    by (auto simp: process_data_def Let_def udp_timer_op_def timer_cancel_def timer_raw_cancel_def bindE_eq_Inr
      set_nh_status_def setCurrentNode_def ns_now_def)
  ultimately show ?thesis using su'(3) by simp
qed

text \<open>A packet for a handle that does not wait changes only the source address kept for it.\<close>

lemma process_data_ignored:
  assumes ni: "NI s" and h: "n_handles s h = Some x" "nh_type x = NsUdp" "nh_status x \<in> {Some Error, Some Timeout, Some Ready}"
  shows "\<exists>s'. process_data env n h saddr sport bytes s = Inr s' \<and> NI s' \<and> pendingList s' = pendingList s
    \<and> n_sched s' = n_sched s \<and> n_log s' = n_log s"
proof -
  obtain su where su: "n_udps s h = Some su" "timer_ok members (n_sched s) (udp_event h) (su_timer su)" "su_agent su \<noteq> None"
    "t_status (su_timer su) = TIMER_PENDING \<longrightarrow> su_e su \<noteq> 0" "nh_status x = Some Blocked \<longrightarrow> t_status (su_timer su) = TIMER_PENDING"
    by (rule NI_udp [OF ni h(1,2)])
  let ?su = "su\<lparr>su_src := new_UdpAddress (word_of_int (get_nodeaddr env saddr)) sport\<rparr>"
  let ?s = "s\<lparr>n_udps := (n_udps s)(h \<mapsto> ?su)\<rparr>"
  have "NI (s\<lparr>n_sched := n_sched s, n_udps := (n_udps s)(h \<mapsto> ?su), n_handles := (n_handles s)(h \<mapsto> x)\<rparr>)"
    by (rule ns_inv_udp_update [OF ni NI_raw [OF ni] same_at_refl]) (use su h in auto)
  moreover have "s\<lparr>n_sched := n_sched s, n_udps := (n_udps s)(h \<mapsto> ?su), n_handles := (n_handles s)(h \<mapsto> x)\<rparr> = ?s"
    using h(1) by (simp add: map_upd_triv)
  ultimately have "NI ?s" by (simp only:)
  moreover have "process_data env n h saddr sport bytes s = Inr ?s"
    using su(1,3) h by (auto simp: process_data_def Let_def)
  ultimately show ?thesis by (intro exI [of _ ?s]) simp
qed

lemma NI_clock:
  assumes ni: "NI s" and t: "clock (n_sched s) \<le> t" "\<And>a. a \<in> members (queue (n_sched s)) \<Longrightarrow> t \<le> etime (events (n_sched s) a)"
  shows "NI (s\<lparr>n_sched := (n_sched s)\<lparr>clock := t\<rparr>\<rparr>)"
proof (rule NI_gea_update [OF ni])
  show "RI ((n_sched s)\<lparr>clock := t\<rparr>)" using NI_raw [OF ni] t by (auto simp: raw_inv_def)
  show "same_at members (gea_event (n_next s)) (n_sched s) ((n_sched s)\<lparr>clock := t\<rparr>)" by (simp add: same_at_def)
  show "gea_event (n_next s) \<notin> members (queue ((n_sched s)\<lparr>clock := t\<rparr>))"
    using ni unfolding ns_inv_def gea_event_ok_def by force
qed

lemma ns_receive_step:
  assumes env: "ne_ops env = ops" and client: "client_ok qinv members env" and net: "network_ok qinv members env"
    and ni: "NI s" and pl: "pendingList s = []" and x: "ns_arrival env p s = Some x"
    and first: "\<And>a. a \<in> members (queue (n_sched s)) \<Longrightarrow> \<exists>e. p = Some e \<and> etime (events (n_sched s) e) \<le> etime (events (n_sched s) a)"
  shows "ends_well (\<lambda>s'. NI s' \<and> pendingList s' = [] \<and> clock (n_sched s) \<le> clock (n_sched s') \<and> prefix (n_log s) (n_log s'))
    (ns_receive env n x s)"
proof -
  obtain t h saddr sport bytes where x': "x = (t, h, saddr, sport, bytes)" by (metis prod_cases5)
  have arr: "ne_network env s = Some (t, h, saddr, sport, bytes)" "clock (n_sched s) \<le> t"
    "\<And>e. p = Some e \<Longrightarrow> t \<le> etime (events (n_sched s) e)"
    using x by (auto simp: ns_arrival_def x' split: option.splits if_splits)
  obtain y where y: "n_handles s h = Some y" "nh_type y = NsUdp" "nh_status y \<in> {Some Error, Some Blocked, Some Timeout, Some Ready}"
    using net ni arr(1) unfolding network_ok_def by blast
  let ?s = "s\<lparr>n_sched := (n_sched s)\<lparr>clock := t\<rparr>\<rparr>"
  have ni': "NI ?s"
  proof (rule NI_clock [OF ni arr(2)])
    fix a assume "a \<in> members (queue (n_sched s))"
    then obtain e where "p = Some e" "etime (events (n_sched s) e) \<le> etime (events (n_sched s) a)" using first by blast
    with arr(3) [of e] show "t \<le> etime (events (n_sched s) a)" by simp
  qed
  have y': "n_handles ?s h = Some y" using y(1) by simp
  show ?thesis
  proof (cases "nh_status y = Some Blocked")
    case True
    obtain su where su: "n_udps ?s h = Some su" by (rule NI_udp [OF ni' y' y(2)])
    from process_data_step [OF env client ni' y' y(2) True su, of n saddr sport bytes]
    have "ends_well (\<lambda>s'. NI s' \<and> pendingList s' = [] \<and> clock (n_sched s') = clock (n_sched ?s) \<and> prefix (n_log ?s) (n_log s'))
        (process_data env n h saddr sport bytes ?s)"
      by (elim conjE) (erule ends_well_mono, auto dest: append_prefixD)
    then show ?thesis unfolding ns_receive_def x' prod.case
      by (rule ends_well_mono) (use arr(2) in auto)
  next
    case False
    then have "nh_status y \<in> {Some Error, Some Timeout, Some Ready}" using y(3) by auto
    from process_data_ignored [OF ni' y' y(2) this, of env n saddr sport bytes] show ?thesis
      using arr(2) pl by (auto simp: ns_receive_def x')
  qed
qed

text \<open>Every run: what each step keeps, and where it ends.\<close>

lemma ns_run_step:
  assumes env: "ne_ops env = ops" and client: "client_ok qinv members env" and net: "network_ok qinv members env"
    and quiet: "quiet_timeouts env"
  shows "NI s \<Longrightarrow> pendingList s = [] \<Longrightarrow>
    ends_well (\<lambda>s'. NI s' \<and> pendingList s' = [] \<and> (halted (n_sched s') \<or> members (queue (n_sched s')) = {})
      \<and> clock (n_sched s) \<le> clock (n_sched s') \<and> prefix (n_log s) (n_log s')) (ns_run env n m s)"
proof (induction m arbitrary: s)
  case (Suc m)
  have go_on: "ends_well (\<lambda>s'. NI s' \<and> pendingList s' = [] \<and> (halted (n_sched s') \<or> members (queue (n_sched s')) = {})
      \<and> clock (n_sched s) \<le> clock (n_sched s') \<and> prefix (n_log s) (n_log s')) (bindE r (ns_run env n m))"
    if r: "ends_well (\<lambda>s'. NI s' \<and> pendingList s' = [] \<and> clock (n_sched s) \<le> clock (n_sched s') \<and> prefix (n_log s) (n_log s')) r" for r
  proof (rule ends_well_bind [OF r])
    fix s1 assume s1: "NI s1 \<and> pendingList s1 = [] \<and> clock (n_sched s) \<le> clock (n_sched s1) \<and> prefix (n_log s) (n_log s1)"
    then have "ends_well (\<lambda>s'. NI s' \<and> pendingList s' = [] \<and> (halted (n_sched s') \<or> members (queue (n_sched s')) = {})
        \<and> clock (n_sched s1) \<le> clock (n_sched s') \<and> prefix (n_log s1) (n_log s')) (ns_run env n m s1)"
      using Suc.IH [of s1] by blast
    then show "ends_well (\<lambda>s'. NI s' \<and> pendingList s' = [] \<and> (halted (n_sched s') \<or> members (queue (n_sched s')) = {})
        \<and> clock (n_sched s) \<le> clock (n_sched s') \<and> prefix (n_log s) (n_log s')) (ns_run env n m s1)"
      by (rule ends_well_mono) (use s1 prefix_order.order_trans in auto)
  qed
  show ?case
  proof (cases "halted (n_sched s)")
    case False
    from NI_raw [OF Suc.prems(1)] show ?thesis
    proof (cases rule: raw_deque_step)
      case (1 sc)
      have ni: "NI (s\<lparr>n_sched := sc\<rparr>)"
        by (rule NI_gea_update [OF Suc.prems(1) 1(4)]) (use 1 in \<open>auto simp: same_at_def\<close>)
      show ?thesis
      proof (cases "ns_arrival env None s")
        case None
        with 1 ni False env Suc.prems show ?thesis by simp
      next
        case (Some x)
        from ns_receive_step [OF env client net Suc.prems Some, of n] 1(3)
        have "ends_well (\<lambda>s'. NI s' \<and> pendingList s' = [] \<and> clock (n_sched s) \<le> clock (n_sched s') \<and> prefix (n_log s) (n_log s'))
            (ns_receive env n x s)" by simp
        from go_on [OF this] 1(1) False env Some show ?thesis by simp
      qed
    next
      case (2 e sc)
      have first: "etime (events (n_sched s) e) \<le> etime (events (n_sched s) a)" if a: "a \<in> members (queue (n_sched s))" for a
      proof (cases "a = e")
        case False
        then have "a \<in> members (queue (advance e sc))" using a 2(7) by (simp add: advance_def)
        then have "clock (advance e sc) \<le> etime (events (advance e sc) a)" using 2(6) by (simp add: raw_inv_def)
        then show ?thesis using 2(3) False by (simp add: advance_def negate_uid_def)
      qed simp
      show ?thesis
      proof (cases "ns_arrival env (Some e) s")
        case None
        have "ends_well (\<lambda>s'. NI s' \<and> pendingList s' = [] \<and> clock (n_sched s) \<le> clock (n_sched s') \<and> prefix (n_log s) (n_log s'))
            (ns_dispatch env n e (s\<lparr>n_sched := sc\<rparr>))"
          by (rule ends_well_mono [OF ns_dispatch_step [OF env client quiet Suc.prems 2(1)]]) simp
        from go_on [OF this] 2(1) False env None show ?thesis by simp
      next
        case (Some x)
        have "ends_well (\<lambda>s'. NI s' \<and> pendingList s' = [] \<and> clock (n_sched s) \<le> clock (n_sched s') \<and> prefix (n_log s) (n_log s'))
            (ns_receive env n x s)"
          by (rule ns_receive_step [OF env client net Suc.prems Some]) (use first in blast)
        from go_on [OF this] 2(1) False env Some show ?thesis by simp
      qed
    qed
  qed (use Suc.prems in simp)
qed simp

text \<open>An event put before the clock comes out next and stops the simulation.\<close>

lemma past_event_aborts:
  assumes env: "ne_ops env = ops" and ni: "NI s" and halt: "\<not> halted (n_sched s)"
    and h: "n_handles s h = Some x" "nh_type x = NsBlocker"
    and t: "0 \<le> getSecondsD env (time_diff t AbsTime_t0)" "getSecondsD env (time_diff t AbsTime_t0) < clock (n_sched s)"
  shows "\<exists>s'. ns_waitFor env n h t e d s = Inr s'
    \<and> ns_run env k (Suc m) s' = Inl (AssertFailed ''ns: scheduler going backwards in time'')"
proof -
  let ?k = "n_next s" and ?t = "getSecondsD env (time_diff t AbsTime_t0)" and ?sc = "n_sched s"
  define a where "a = gea_event ?k"
  define ev where "ev = (events ?sc)(a := \<lparr>ehandler = EVENT_HANDLER, etime = ?t, euid = 0\<rparr>)"
  have new: "a \<notin> members (queue ?sc)" using ni unfolding ns_inv_def gea_event_ok_def a_def by blast
  have "same_on (members (queue ?sc)) (events ?sc) ev" using new by (auto simp: same_on_def ev_def)
  then have "qinv ev (queue ?sc)" using NI_raw [OF ni] inv_cong by (auto simp: raw_inv_def)
  then obtain q where q: "op_insert ops ev a (queue ?sc) = Inr q" "qinv ev q" "members q = insert a (members (queue ?sc))"
    using raw_insert_law new t(1) by (fastforce simp: ev_def)
  obtain r q' where r: "op_deque ops ev q = Inr (r, q')" "next_event ev (members q) r"
    using deque_law [OF q(2)] by blast
  have late: "?t < etime (ev b)" if "b \<in> members (queue ?sc)" for b
    using that t(2) NI_raw [OF ni] new unfolding raw_inv_def by (fastforce simp: ev_def)
  have "r = Some a"
    using r(2) q(3) late by (force simp: next_event_def ev_def split: option.splits)
  with q(1) r(1) env h halt t(2) show ?thesis
    by (auto simp: ns_waitFor.simps set_nh_status_def insert_GeaNsEvent_def insert_raw_def Let_def a_def ev_def
      deque_def ns_dispatch_def ns_arrival_def split: option.splits)
qed

end

section \<open>Properties\<close>

lemma sint_offset: "sint FixNum_offset = 268435456"
  by (simp add: FixNum_offset_def)

lemma ns_now_floor:
  assumes "0 \<le> c" "c < 2 ^ 35"
  shows "sint (abs_v (ns_getCurrentTime c)) = \<lfloor>c * 268435456\<rfloor>"
proof -
  have "0 \<le> \<lfloor>c * 268435456\<rfloor>" "\<lfloor>c * 268435456\<rfloor> < 2 ^ 63" using assms by (auto simp: floor_less_iff)
  moreover have "trunc (c * 268435456) = \<lfloor>c * 268435456\<rfloor>" using assms by (simp add: trunc_nonneg)
  ultimately show ?thesis by (simp add: ns_getCurrentTime_def sint_offset sint_word_of_int_in_range)
qed

lemma seconds_diff:
  assumes "0 \<le> sint (abs_v a)" "0 \<le> sint (abs_v b)"
  shows "Duration_to_double (time_diff a b) = of_int (sint (abs_v a) - sint (abs_v b)) / 268435456"
proof -
  have "sint (abs_v a) < 2 ^ 63" "sint (abs_v b) < 2 ^ 63" using sint_lt [of "abs_v a"] sint_lt [of "abs_v b"] by simp_all
  with assms show ?thesis by (simp add: Duration_to_double_def time_diff_def sint_offset sint_sub_in_range)
qed

text \<open>C2. An application that keeps the rules (\<open>client_ok\<close>, and \<open>quiet_timeouts\<close>: the event function of a dependency that has
  timed out triggers no other) never stops the simulator, whatever packets the network delivers between the events,
  to handles that were waited for before: from a state of the invariant
  with no triggered dependency left, the simulation on the calendar scheduler ends halted or with no
  event left, with the invariant, no triggered dependency and the clock not before where it was; it
  fails no assertion and follows no dangling pointer, unless the event numbers are used up.\<close>

theorem ns_gea_safe:
  assumes "ne_ops env = CalendarScheduler_ops" and "client_ok cal_inv cal_members env"
    and "network_ok cal_inv cal_members env" and "quiet_timeouts env"
    and "ns_inv cal_inv cal_members s" and "pendingList s = []"
  shows "case ns_run env n m s of
      Inl err \<Rightarrow> err = OutOfFuel \<or> err = uid_exhausted
    | Inr s' \<Rightarrow> ns_inv cal_inv cal_members s' \<and> pendingList s' = [] \<and> clock (n_sched s) \<le> clock (n_sched s')
        \<and> (halted (n_sched s') \<or> cal_members (queue (n_sched s')) = {}) \<and> prefix (n_log s) (n_log s')"
  using raw_calendar.ns_run_step [OF assms, of n m] by (auto simp: ends_well_def split: sum.splits)

text \<open>Starting a plugin on a node: when the library and its main function are found, the function
  runs with the node as the current one and its calls, if they keep the rules, leave the invariant;
  otherwise -1 is returned and nothing changes.\<close>

theorem gea_start_ok:
  assumes "ne_ops env = CalendarScheduler_ops" and "client_ok cal_inv cal_members env"
    and "ns_inv cal_inv cal_members s" and "2 \<le> length argv" and "dlopen (argv ! 1)"
    and "dlsym (argv ! 1) ''gea_main'' = Some gea_main"
    and "gea_main (tl argv) ((setCurrentNode node s)\<lparr>n_last := ns_now s\<rparr>) = (calls, ret)"
    and "ns_calls_ok cal_members env n calls ((setCurrentNode node s)\<lparr>n_last := ns_now s\<rparr>)"
  shows "case gea_start env n dlopen dlsym node argv s of
      Inl err \<Rightarrow> err = OutOfFuel \<or> err = uid_exhausted
    | Inr (r, s') \<Rightarrow> r = ret \<and> ns_inv cal_inv cal_members s' \<and> clock (n_sched s') = clock (n_sched s)"
proof -
  let ?s = "(setCurrentNode node s)\<lparr>n_last := ns_now s\<rparr>"
  have "ns_inv cal_inv cal_members ?s" using assms(3) by (simp add: setCurrentNode_def)
  then have "raw_calendar.fine {} ?s (foldE (exec_ns_call env n) calls ?s)"
    by (intro raw_calendar.exec_list_step raw_calendar.exec_step [OF assms(1)] assms(8))
      (use raw_calendar.calls_return [OF assms(1,2), of n] in \<open>blast intro: ends_well_mono\<close>)+
  moreover have "gea_start env n dlopen dlsym node argv s
      = bindE (foldE (exec_ns_call env n) calls ?s) (\<lambda>s2. Inr (ret, s2))"
    using assms(4-7) by (simp add: gea_start_def Let_def)
  ultimately show ?thesis
    by (cases "foldE (exec_ns_call env n) calls ?s")
      (auto simp: ends_well_def setCurrentNode_def dest: keepsD(1))
qed

text \<open>A packet for a UDP handle that is waited for: its timer is stopped and its event function is
  called once, at the current time, with the handle ready and its node current; then the triggered
  dependencies are called, until none is left.\<close>

theorem packet_wakes_reader:
  assumes "ne_ops env = CalendarScheduler_ops" and "client_ok cal_inv cal_members env"
    and "ns_inv cal_inv cal_members s" and "n_handles s h = Some x" and "nh_type x = NsUdp" and "nh_status x = Some Blocked"
    and "n_udps s h = Some su"
  shows "case process_data env n h saddr sport bytes s of
      Inl err \<Rightarrow> err = OutOfFuel \<or> err = uid_exhausted
    | Inr s' \<Rightarrow> ns_inv cal_inv cal_members s' \<and> pendingList s' = [] \<and> clock (n_sched s') = clock (n_sched s)
        \<and> prefix (n_log s @ [\<lparr>cl_e = su_e su, cl_h = h, cl_t = ns_now s, cl_data = su_data su, cl_status = Some Ready,
             cl_node = nh_node x\<rparr>]) (n_log s')"
  using raw_calendar.process_data_step [OF assms, of n saddr sport bytes] by (auto simp: ends_well_def split: sum.splits)

text \<open>A packet that comes for a handle before it is waited for stops the simulator, although its agent is attached as
  soon as the handle is made: nothing has set its status yet.\<close>

theorem early_packet_aborts:
  assumes "ns_new_UdpHandle h r a s = Inr s'"
  shows "process_data env n h saddr sport bytes s' = Inl (AssertFailed ''insane handle state'')"
  using assms
  by (auto simp: ns_new_UdpHandle_def ns_createSubUdpHandle_def ns_createShadowHandle_def makeShadowUdpHandle_def udp_init_def
    process_data_def Let_def)

text \<open>The timer of a dependency is not early and at most one tick late: the simulator's clock is cut to
  a tick (\<open>2\<^sup>-\<^sup>2\<^sup>8\<close> seconds) by \<^verbatim>\<open>AbsTime::now\<close>, and the difference is put back on the uncut clock.\<close>

theorem dependency_timer_rounding:
  assumes "ne_ops env = CalendarScheduler_ops" and "getSecondsD env = Duration_to_double"
    and "ns_inv cal_inv cal_members s" and "n_handles s h = Some x" and "nh_type x = NsDepend"
    and "n_deps s h = Some sd" and "t_status (sd_timer sd) \<noteq> TIMER_PENDING" and "e \<noteq> 0"
    and "clock (n_sched s) < 2 ^ 35" and "ns_now s \<le> t"
  shows "ns_waitFor env n h t e d s = Inl uid_exhausted
    \<or> (\<exists>s'. ns_waitFor env n h t e d s = Inr s'
        \<and> of_int (sint (abs_v t)) / 268435456 \<le> etime (events (n_sched s') (dep_event h))
        \<and> etime (events (n_sched s') (dep_event h)) < (of_int (sint (abs_v t)) + 1) / 268435456)"
proof -
  let ?c = "clock (n_sched s)" and ?d = "getSecondsD env (time_diff t (ns_now s))"
  have ri: "raw_inv cal_inv cal_members (n_sched s)" using assms(3) by (simp add: ns_inv_def)
  then have c0: "0 \<le> ?c" by (simp add: raw_inv_def)
  have now: "sint (abs_v (ns_now s)) = \<lfloor>?c * 268435456\<rfloor>" using ns_now_floor [OF c0 assms(9)] by (simp add: ns_now_def)
  have le: "\<lfloor>?c * 268435456\<rfloor> \<le> sint (abs_v t)" using assms(10) now by (simp add: less_eq_AbsTime_def)
  have fl: "0 \<le> \<lfloor>?c * 268435456\<rfloor>" using c0 by simp
  have d: "?d = of_int (sint (abs_v t) - \<lfloor>?c * 268435456\<rfloor>) / 268435456"
    using seconds_diff [of t "ns_now s"] now le fl assms(2) by simp
  have "(0 :: rat) \<le> of_int (sint (abs_v t) - \<lfloor>?c * 268435456\<rfloor>)" using le by (simp only: of_int_0_le_iff)
  then have d0: "0 \<le> ?d" unfolding d by (rule divide_nonneg_pos) simp
  have T: "timer_ok cal_members (n_sched s) (dep_event h) (sd_timer sd)"
    using assms(3,6) unfolding ns_inv_def dep_ok_def by (auto split: option.splits)
  from raw_calendar.timer_resched_raw [OF ri T d0] show ?thesis
  proof (elim disjE exE conjE)
    assume "timer_resched CalendarScheduler_ops ?d (sd_timer sd, n_sched s) = Inl uid_exhausted"
    then show ?thesis using assms(1,4-8)
      by (simp add: ns_waitFor.simps set_nh_status_def activate_def dep_timer_op_def ns_now_def)
  next
    fix sc assume sc: "timer_resched CalendarScheduler_ops ?d (sd_timer sd, n_sched s) = Inr ((sd_timer sd)\<lparr>t_status := TIMER_PENDING\<rparr>, sc)"
      "etime (events sc (dep_event h)) = ?c + ?d"
    then obtain s' where s': "ns_waitFor env n h t e d s = Inr s'" "n_sched s' = sc"
      using assms(1,4-8) by (auto simp: ns_waitFor.simps set_nh_status_def activate_def dep_timer_op_def ns_now_def)
    let ?e = "etime (events sc (dep_event h))"
    have "of_int \<lfloor>?c * 268435456\<rfloor> \<le> ?c * 268435456" "?c * 268435456 < of_int \<lfloor>?c * 268435456\<rfloor> + 1" by linarith+
    moreover have "?e * 268435456 = of_int (sint (abs_v t)) + (?c * 268435456 - of_int \<lfloor>?c * 268435456\<rfloor>)"
      using sc(2) d by (simp add: field_simps)
    ultimately have "of_int (sint (abs_v t)) \<le> ?e * 268435456" "?e * 268435456 < of_int (sint (abs_v t)) + 1" by linarith+
    with s' show ?thesis by (auto simp: pos_divide_le_eq pos_less_divide_eq)
  qed
qed

text \<open>C25. Waiting for a blocker until \<^verbatim>\<open>AbsTime::now()\<close> stops the simulator whenever its clock is not
  a whole number of ticks: the event is put before the clock, comes out next, and the dispatcher
  aborts because it would go back in time.\<close>

theorem wait_until_now_aborts:
  assumes "ne_ops env = CalendarScheduler_ops" and "getSecondsD env = Duration_to_double"
    and "ns_inv cal_inv cal_members s" and "\<not> halted (n_sched s)" and "n_handles s h = Some x" and "nh_type x = NsBlocker"
    and "clock (n_sched s) < 2 ^ 35" and "of_int \<lfloor>clock (n_sched s) * 268435456\<rfloor> \<noteq> clock (n_sched s) * 268435456"
  shows "\<exists>s'. ns_waitFor env n h (ns_now s) e d s = Inr s'
    \<and> ns_run env k (Suc m) s' = Inl (AssertFailed ''ns: scheduler going backwards in time'')"
proof (rule raw_calendar.past_event_aborts [OF assms(1,3-6)])
  let ?c = "clock (n_sched s)"
  have c0: "0 \<le> ?c" using assms(3) by (simp add: ns_inv_def raw_inv_def)
  have now: "sint (abs_v (ns_now s)) = \<lfloor>?c * 268435456\<rfloor>" using ns_now_floor [OF c0 assms(7)] by (simp add: ns_now_def)
  have secs: "getSecondsD env (time_diff (ns_now s) AbsTime_t0) = of_int \<lfloor>?c * 268435456\<rfloor> / 268435456"
    using seconds_diff [of "ns_now s" AbsTime_t0] now c0 assms(2) by (simp add: AbsTime_t0_def)
  show "0 \<le> getSecondsD env (time_diff (ns_now s) AbsTime_t0)" unfolding secs using c0 by (intro divide_nonneg_pos) simp_all
  have "of_int \<lfloor>?c * 268435456\<rfloor> < ?c * 268435456" using assms(8) of_int_floor_le [of "?c * 268435456"] by linarith
  then show "getSecondsD env (time_diff (ns_now s) AbsTime_t0) < ?c" using secs by (simp add: field_simps)
qed

text \<open>The event function of a dependency that has timed out triggers another one: the handler returns
  without calling it. If that one's own timer then fires before another event of the library, its
  event function is called, and the next \<^verbatim>\<open>doPendingEvents\<close> finds it in the list with its timer
  stopped and aborts.\<close>

theorem trigger_in_timeout_aborts:
  assumes "n_deps s a = Some sda" and "t_status (sd_timer sda) = TIMER_PENDING" and "sd_e sda \<noteq> 0" and "n_handles s a = Some xa"
    and "n_deps s b = Some sdb" and "t_status (sd_timer sdb) = TIMER_PENDING" and "sd_e sdb \<noteq> 0" and "n_handles s b = Some xb"
    and "nh_status xb = Some Blocked" and "a \<noteq> b" and "pendingList s = []"
    and "\<forall>h t d s. ne_callback env (sd_e sda) h t d s = [NsComplied b]"
    and "\<forall>h t d s. ne_callback env (sd_e sdb) h t d s = []"
  shows "\<exists>s'. dep_handle env (Suc n) a s = Inr s' \<and> map pd_h (pendingList s') = [b]
    \<and> (\<forall>sc. \<exists>s''. dep_handle env (Suc n) b (s'\<lparr>n_sched := sc\<rparr>) = Inr s''
        \<and> (\<forall>k t. doPendingEvents env (Suc k) t s'' = Inl (AssertFailed ''shadowDepend->status() == TIMER_PENDING'')))"
  using assms
  by (simp add: dep_handle_def dep_timer_op_def timer_enter_def timer_leave_def dep_expire_def set_nh_status_def
    log_call_def exec_ns_call.simps ns_complied_def addPendingEvent_def callPending.simps Let_def)

section \<open>Witnesses\<close>

lemma initNs2ApiIface_inv:
  assumes "raw_inv qinv members sc" and "members (queue sc) = {}"
  shows "ns_inv qinv members (initNs2ApiIface sc)"
  using assms by (simp add: ns_inv_def initNs2ApiIface_def dep_ok_def udp_ok_def handle_ok_def gea_event_ok_def)

text \<open>An application that waits for a blocker again, a second later, as long as the rules allow, and a network
  that delivers two bytes at once whenever the UDP handle 4 waits.\<close>

definition demo_ns_env :: "CalendarScheduler ns_env" where
  "demo_ns_env = \<lparr>ne_ops = CalendarScheduler_ops, getSecondsD = Duration_to_double, get_nodeaddr = id,
     ne_callback = \<lambda>e h t d s.
       let c = NsWaitFor h (time_add (ns_now s) (Duration FixNum_offset)) e d in
       (case n_handles s h of
          Some x \<Rightarrow> if nh_type x = NsBlocker \<and> e \<noteq> 0 \<and> clock (n_sched s)
              \<le> Duration_to_double (time_diff (time_add (ns_now s) (Duration FixNum_offset)) AbsTime_t0) then [c] else []
        | None \<Rightarrow> []),
     ne_network = \<lambda>s. (case n_handles s 4 of
          Some x \<Rightarrow> if nh_type x = NsUdp \<and> nh_status x = Some Blocked then Some (clock (n_sched s), 4, 8, 9, [1, 2]) else None
        | None \<Rightarrow> None)\<rparr>"

lemma demo_ns_env_simps [simp]: "ne_ops demo_ns_env = CalendarScheduler_ops" "getSecondsD demo_ns_env = Duration_to_double"
  by (simp_all add: demo_ns_env_def)

lemma demo_ns_client: "client_ok cal_inv cal_members demo_ns_env"
  unfolding client_ok_def
  by (auto simp: demo_ns_env_def Let_def ns_call_ok_def split: option.splits sum.splits)

lemma demo_ns_network: "network_ok cal_inv cal_members demo_ns_env"
  unfolding network_ok_def by (auto simp: demo_ns_env_def split: option.splits if_splits)

lemma demo_ns_quiet: "quiet_timeouts demo_ns_env"
  unfolding quiet_timeouts_def
proof (intro allI impI)
  fix n e h t d s s' x
  assume "callEvent demo_ns_env n e h t d s = Inr s'" "pendingList s = []" "n_handles s h = Some x" "nh_type x = NsDepend"
  then show "pendingList s' = []"
    by (cases n) (auto simp: demo_ns_env_def Let_def log_call_def split: if_splits)
qed

lemma demo_ns_init:
  assumes "0 \<le> clk"
  obtains c where "new_CalendarScheduler SCHED_START = Inr c"
    "ns_inv cal_inv cal_members (initNs2ApiIface ((new_Scheduler demo_events c)\<lparr>clock := clk\<rparr>))"
proof -
  obtain c where c: "new_CalendarScheduler SCHED_START = Inr c" "cal_inv demo_events c" "all_events c = []"
    by (rule new_CalendarScheduler_inv)
  then have "raw_inv cal_inv cal_members ((new_Scheduler demo_events c)\<lparr>clock := clk\<rparr>)"
    using assms by (simp add: raw_inv_def new_Scheduler_def cal_members_def demo_events_def)
  moreover have "cal_members (queue ((new_Scheduler demo_events c)\<lparr>clock := clk\<rparr>)) = {}"
    using c(3) by (simp add: cal_members_def new_Scheduler_def)
  ultimately show thesis using c(1) by (intro that [of c] initNs2ApiIface_inv)
qed

text \<open>The states after a blocker, a dependency and a UDP handle were made at the address 4, and after the
  UDP handle was waited for.\<close>

abbreviation demo_ns0 :: "double \<Rightarrow> CalendarScheduler \<Rightarrow> CalendarScheduler NsGea" where
  "demo_ns0 clk c \<equiv> initNs2ApiIface ((new_Scheduler demo_events c)\<lparr>clock := clk\<rparr>)"

lemma demo_ns_handles:
  assumes "ns_inv cal_inv cal_members (demo_ns0 clk c)"
  shows "\<exists>s. ns_new_Blocker 4 (demo_ns0 clk c) = Inr s \<and> ns_inv cal_inv cal_members s"
    and "\<exists>s. ns_new_DependHandle 4 (demo_ns0 clk c) = Inr s \<and> ns_inv cal_inv cal_members s"
    and "\<exists>s. ns_new_UdpHandle 4 True (new_UdpAddress 7 9) (demo_ns0 clk c) = Inr s \<and> ns_inv cal_inv cal_members s"
proof -
  have "n_handles (demo_ns0 clk c) 4 = None" "n_deps (demo_ns0 clk c) 4 = None" "n_udps (demo_ns0 clk c) 4 = None"
    by (simp_all add: initNs2ApiIface_def)
  from raw_calendar.new_handle_step [OF assms this]
  show "\<exists>s. ns_new_Blocker 4 (demo_ns0 clk c) = Inr s \<and> ns_inv cal_inv cal_members s"
    and "\<exists>s. ns_new_DependHandle 4 (demo_ns0 clk c) = Inr s \<and> ns_inv cal_inv cal_members s"
    and "\<exists>s. ns_new_UdpHandle 4 True (new_UdpAddress 7 9) (demo_ns0 clk c) = Inr s \<and> ns_inv cal_inv cal_members s" by blast+
qed

lemma demo_ns_reader:
  obtains c s s1 x su where "new_CalendarScheduler SCHED_START = Inr c" "ns_new_UdpHandle 4 True (new_UdpAddress 7 9) (demo_ns0 0 c) = Inr s"
    "ns_waitFor demo_ns_env 3 4 (AbsTime FixNum_offset) 5 0 s = Inr s1" "ns_inv cal_inv cal_members s1" "pendingList s1 = []"
    "n_handles s1 4 = Some x" "nh_type x = NsUdp" "nh_status x = Some Blocked" "n_udps s1 4 = Some su"
proof -
  obtain c where c: "new_CalendarScheduler SCHED_START = Inr c" "ns_inv cal_inv cal_members (demo_ns0 0 c)"
    by (rule demo_ns_init [of 0]) simp
  obtain s where s: "ns_new_UdpHandle 4 True (new_UdpAddress 7 9) (demo_ns0 0 c) = Inr s" "ns_inv cal_inv cal_members s"
    using demo_ns_handles(3) [OF c(2)] by blast
  then obtain x su where x: "n_handles s 4 = Some x" "nh_type x = NsUdp" "n_udps s 4 = Some su" "su_mode su = Read"
    "clock (n_sched s) = 0" "s_uid (n_sched s) = 1"
    by (auto simp: ns_new_UdpHandle_def ns_createSubUdpHandle_def makeShadowUdpHandle_def udp_init_def
      ns_createShadowHandle_def initNs2ApiIface_def new_Scheduler_def)
  let ?t = "AbsTime FixNum_offset" and ?s = "s\<lparr>n_handles := (n_handles s)(4 \<mapsto> x\<lparr>nh_status := Some Blocked\<rparr>)\<rparr>"
  have now: "sint (abs_v (ns_now s)) = 0" using ns_now_floor [of 0] x(5) by (simp add: ns_now_def)
  have d: "0 \<le> getSecondsD demo_ns_env (time_diff ?t (ns_now s))"
    using seconds_diff [of ?t "ns_now s"] now by (simp add: sint_offset)
  have ri: "raw_inv cal_inv cal_members (n_sched s)" and T: "timer_ok cal_members (n_sched s) (udp_event 4) (su_timer su)"
    using s(2) x(3) unfolding ns_inv_def udp_ok_def by (auto split: option.splits)
  from raw_calendar.timer_resched_raw [OF ri T d] x(6) obtain T' sc where
    "timer_resched CalendarScheduler_ops (getSecondsD demo_ns_env (time_diff ?t (ns_now s))) (su_timer su, n_sched s) = Inr (T', sc)"
    by auto
  then obtain s1 where s1: "setup_event demo_ns_env 4 5 0 ?t ?s = Inr s1" "n_handles s1 = n_handles ?s" "n_udps s1 4 \<noteq> None" "pendingList s1 = pendingList s"
    using x(3) by (auto simp: setup_event_def udp_timer_op_def ns_now_def)
  have "ns_inv cal_inv cal_members s1"
    using raw_calendar.setup_event_step [OF s(2) _ x(1,2) d, of 5 0] s1(1) by simp
  moreover have "ns_waitFor demo_ns_env 3 4 ?t 5 0 s = Inr s1"
    using s1(1) x(1-4) by (simp add: ns_waitFor.simps set_nh_status_def)
  moreover obtain su1 where "n_udps s1 4 = Some su1" using s1(3) by auto
  moreover have "pendingList s1 = []"
    using s1(4) s(1) by (auto simp: ns_new_UdpHandle_def ns_createSubUdpHandle_def ns_createShadowHandle_def initNs2ApiIface_def)
  ultimately show thesis using c(1) s(1) s1(2) x(2) by (intro that [of c s s1 "x\<lparr>nh_status := Some Blocked\<rparr>" su1]) simp_all
qed

theorem ns_gea_safe_witness:
  "\<exists>c s s1. new_CalendarScheduler SCHED_START = Inr c \<and> ns_new_UdpHandle 4 True (new_UdpAddress 7 9) (demo_ns0 0 c) = Inr s
    \<and> ns_waitFor demo_ns_env 3 4 (AbsTime FixNum_offset) 5 0 s = Inr s1
    \<and> ne_network demo_ns_env s1 = Some (clock (n_sched s1), 4, 8, 9, [1, 2])
    \<and> (\<forall>n m. case ns_run demo_ns_env n m s1 of Inl err \<Rightarrow> err = OutOfFuel \<or> err = uid_exhausted
        | Inr s' \<Rightarrow> ns_inv cal_inv cal_members s' \<and> pendingList s' = [] \<and> clock (n_sched s1) \<le> clock (n_sched s'))"
proof -
  obtain c s s1 x su where d: "new_CalendarScheduler SCHED_START = Inr c" "ns_new_UdpHandle 4 True (new_UdpAddress 7 9) (demo_ns0 0 c) = Inr s"
    "ns_waitFor demo_ns_env 3 4 (AbsTime FixNum_offset) 5 0 s = Inr s1" "ns_inv cal_inv cal_members s1" "pendingList s1 = []"
    "n_handles s1 4 = Some x" "nh_type x = NsUdp" "nh_status x = Some Blocked" "n_udps s1 4 = Some su"
    by (rule demo_ns_reader)
  have net: "ne_network demo_ns_env s1 = Some (clock (n_sched s1), 4, 8, 9, [1, 2])" using d(6-8) by (simp add: demo_ns_env_def)
  have "case ns_run demo_ns_env n m s1 of Inl err \<Rightarrow> err = OutOfFuel \<or> err = uid_exhausted
        | Inr s' \<Rightarrow> ns_inv cal_inv cal_members s' \<and> pendingList s' = [] \<and> clock (n_sched s1) \<le> clock (n_sched s')" for n m
    using ns_gea_safe [OF _ demo_ns_client demo_ns_network demo_ns_quiet d(4,5), of n m] by (auto split: sum.splits)
  with d(1-3) net show ?thesis by blast
qed

theorem gea_start_ok_witness:
  "\<exists>c. new_CalendarScheduler SCHED_START = Inr c
    \<and> gea_start demo_ns_env 3 (\<lambda>_. True) (\<lambda>f g. if g = ''gea_main'' then Some (\<lambda>argv s. ([NsNewBlocker 4], 0)) else None) 2
        [''gea_start'', ''udpbasic.so''] (demo_ns0 0 c) \<noteq> Inl NullPointer"
proof -
  obtain c where c: "new_CalendarScheduler SCHED_START = Inr c" "ns_inv cal_inv cal_members (demo_ns0 0 c)"
    by (rule demo_ns_init [of 0]) simp
  let ?main = "\<lambda>argv s. ([NsNewBlocker 4], 0)"
  let ?dlsym = "\<lambda>f g. if g = ''gea_main'' then Some ?main else None"
  have "ns_calls_ok cal_members demo_ns_env 3 [NsNewBlocker 4] ((setCurrentNode 2 (demo_ns0 0 c))\<lparr>n_last := ns_now (demo_ns0 0 c)\<rparr>)"
    by (auto simp: ns_call_ok_def setCurrentNode_def initNs2ApiIface_def split: sum.splits)
  then have "gea_start demo_ns_env 3 (\<lambda>_. True) ?dlsym 2 [''gea_start'', ''udpbasic.so''] (demo_ns0 0 c) \<noteq> Inl NullPointer"
    using gea_start_ok [OF _ demo_ns_client c(2), of "[''gea_start'', ''udpbasic.so'']" "\<lambda>_. True" ?dlsym ?main 2 "[NsNewBlocker 4]" 0 3]
    by (auto simp: uid_exhausted_def)
  with c(1) show ?thesis by blast
qed

theorem dependency_timer_rounding_witness:
  "\<exists>c s s'. new_CalendarScheduler SCHED_START = Inr c \<and> ns_new_DependHandle 4 (demo_ns0 (1 / 10) c) = Inr s
    \<and> (ns_waitFor demo_ns_env 3 4 (AbsTime FixNum_offset) 5 0 s = Inl uid_exhausted
       \<or> ns_waitFor demo_ns_env 3 4 (AbsTime FixNum_offset) 5 0 s = Inr s' \<and> 1 \<le> etime (events (n_sched s') (dep_event 4)))"
proof -
  obtain c where c: "new_CalendarScheduler SCHED_START = Inr c" "ns_inv cal_inv cal_members (demo_ns0 (1 / 10) c)"
    by (rule demo_ns_init [of "1 / 10"]) simp
  obtain s where s: "ns_new_DependHandle 4 (demo_ns0 (1 / 10) c) = Inr s" "ns_inv cal_inv cal_members s"
    using demo_ns_handles(2) [OF c(2)] by blast
  then obtain x sd where x: "n_handles s 4 = Some x" "nh_type x = NsDepend" "n_deps s 4 = Some sd" "t_status (sd_timer sd) \<noteq> TIMER_PENDING"
    "clock (n_sched s) = 1 / 10"
    by (auto simp: ns_new_DependHandle_def ns_createSubDepend_def ns_createShadowHandle_def initNs2ApiIface_def
      new_timer_def new_TimerHandler_def)
  have "ns_now s \<le> AbsTime FixNum_offset"
    using ns_now_floor [of "1 / 10"] unfolding less_eq_AbsTime_def ns_now_def x(5) by (simp add: sint_offset floor_le_iff)
  with dependency_timer_rounding [OF _ _ s(2) x(1-4), of demo_ns_env 5 "AbsTime FixNum_offset" 3 0] x(5)
  have "ns_waitFor demo_ns_env 3 4 (AbsTime FixNum_offset) 5 0 s = Inl uid_exhausted
      \<or> (\<exists>s'. ns_waitFor demo_ns_env 3 4 (AbsTime FixNum_offset) 5 0 s = Inr s' \<and> 1 \<le> etime (events (n_sched s') (dep_event 4)))"
    by (auto simp: sint_offset)
  with c(1) s(1) show ?thesis by blast
qed

theorem wait_until_now_aborts_witness:
  "\<exists>c s s'. new_CalendarScheduler SCHED_START = Inr c \<and> ns_new_Blocker 4 (demo_ns0 (1 / 10) c) = Inr s
    \<and> ns_waitFor demo_ns_env 3 4 (ns_now s) 5 0 s = Inr s'
    \<and> ns_run demo_ns_env 3 1 s' = Inl (AssertFailed ''ns: scheduler going backwards in time'')"
proof -
  obtain c where c: "new_CalendarScheduler SCHED_START = Inr c" "ns_inv cal_inv cal_members (demo_ns0 (1 / 10) c)"
    by (rule demo_ns_init [of "1 / 10"]) simp
  obtain s where s: "ns_new_Blocker 4 (demo_ns0 (1 / 10) c) = Inr s" "ns_inv cal_inv cal_members s"
    using demo_ns_handles(1) [OF c(2)] by blast
  then obtain x where x: "n_handles s 4 = Some x" "nh_type x = NsBlocker" "clock (n_sched s) = 1 / 10" "\<not> halted (n_sched s)"
    by (auto simp: ns_new_Blocker_def ns_createSubBlocker_def ns_createShadowHandle_def initNs2ApiIface_def new_Scheduler_def)
  have "\<lfloor>(268435456 / 10 :: rat)\<rfloor> = 26843545" by (simp add: floor_eq_iff)
  then obtain s' where "ns_waitFor demo_ns_env 3 4 (ns_now s) 5 0 s = Inr s'"
    "ns_run demo_ns_env 3 1 s' = Inl (AssertFailed ''ns: scheduler going backwards in time'')"
    using wait_until_now_aborts [of demo_ns_env s 4 x 3 5 0 3 0] s(2) x by auto
  with c(1) s(1) show ?thesis by blast
qed

theorem packet_wakes_reader_witness:
  "\<exists>c s s1. new_CalendarScheduler SCHED_START = Inr c \<and> ns_new_UdpHandle 4 True (new_UdpAddress 7 9) (demo_ns0 0 c) = Inr s
    \<and> ns_waitFor demo_ns_env 3 4 (AbsTime FixNum_offset) 5 0 s = Inr s1
    \<and> process_data demo_ns_env 3 4 8 9 [1, 2] s1 \<noteq> Inl NullPointer"
proof -
  obtain c s s1 x su where d: "new_CalendarScheduler SCHED_START = Inr c" "ns_new_UdpHandle 4 True (new_UdpAddress 7 9) (demo_ns0 0 c) = Inr s"
    "ns_waitFor demo_ns_env 3 4 (AbsTime FixNum_offset) 5 0 s = Inr s1" "ns_inv cal_inv cal_members s1" "pendingList s1 = []"
    "n_handles s1 4 = Some x" "nh_type x = NsUdp" "nh_status x = Some Blocked" "n_udps s1 4 = Some su"
    by (rule demo_ns_reader)
  from packet_wakes_reader [OF _ demo_ns_client d(4,6-9), of 3 8 9 "[1, 2]"] have "process_data demo_ns_env 3 4 8 9 [1, 2] s1 \<noteq> Inl NullPointer"
    by (auto simp: uid_exhausted_def)
  with d(1-3) show ?thesis by blast
qed

definition demo_triggers :: "ListScheduler NsGea" where
  "demo_triggers = (initNs2ApiIface (new_Scheduler demo_events []))\<lparr>
     n_handles := (\<lambda>h. Some \<lparr>nh_status = Some Blocked, nh_type = NsDepend, nh_node = 2\<rparr>),
     n_deps := (\<lambda>h. Some \<lparr>sd_timer = \<lparr>t_this = dep_event h + 2, t_event = dep_event h, t_status = TIMER_PENDING\<rparr>,
       sd_triggered = False, sd_e = h, sd_data = 0\<rparr>)\<rparr>"

definition demo_trigger_env :: "ListScheduler ns_env" where
  "demo_trigger_env = \<lparr>ne_ops = ListScheduler_ops, getSecondsD = Duration_to_double, get_nodeaddr = id,
     ne_callback = \<lambda>e h t d s. if e = 4 then [NsComplied 5] else [], ne_network = \<lambda>s. None\<rparr>"

theorem trigger_in_timeout_aborts_witness:
  "\<exists>s'. dep_handle demo_trigger_env (Suc 1) 4 demo_triggers = Inr s' \<and> map pd_h (pendingList s') = [5]"
proof -
  let ?sd = "\<lambda>h. \<lparr>sd_timer = \<lparr>t_this = dep_event h + 2, t_event = dep_event h, t_status = TIMER_PENDING\<rparr>,
       sd_triggered = False, sd_e = h, sd_data = 0\<rparr>" and ?x = "\<lparr>nh_status = Some Blocked, nh_type = NsDepend, nh_node = 2\<rparr>"
  have "n_deps demo_triggers 4 = Some (?sd 4)" "n_deps demo_triggers 5 = Some (?sd 5)" "n_handles demo_triggers 4 = Some ?x"
    "n_handles demo_triggers 5 = Some ?x" "pendingList demo_triggers = []"
    by (simp_all add: demo_triggers_def initNs2ApiIface_def)
  then have "\<exists>s'. dep_handle demo_trigger_env (Suc 1) 4 demo_triggers = Inr s' \<and> map pd_h (pendingList s') = [5]
      \<and> (\<forall>sc. \<exists>s''. dep_handle demo_trigger_env (Suc 1) 5 (s'\<lparr>n_sched := sc\<rparr>) = Inr s''
        \<and> (\<forall>k t. doPendingEvents demo_trigger_env (Suc k) t s'' = Inl (AssertFailed ''shadowDepend->status() == TIMER_PENDING'')))"
    by (intro trigger_in_timeout_aborts [where sda = "?sd 4" and sdb = "?sd 5" and xa = ?x and xb = ?x])
      (simp_all add: demo_trigger_env_def)
  then show ?thesis by (elim exE conjE) (intro exI conjI)
qed

end
