(* ===== verification/Spec2Isabelle.thy ===== *)
theory Spec2Isabelle
  imports Ns_RouteProps Ns_Rng Tcp_Recv Tcp_ScoreBoard Aodv_Discovery Gea_Time Gea_ObjRepository Gea_Handle Gea_EventLoop Gea_PendList Gea_Socket Gea_Iface Gea_Start
    Ns_Scheduler Ns_Splay Ns_Map Ns_RealTime Ns_Heap Ns_Calendar Ns_Timer Ns_GeaSafe
begin

text \<open>
  A verification development for GEA, the ``generic event API'' of the repository, its two
  implementations, the parts of the network simulator ns-2 that carry the second one, and of the rest of ns-2
  its random numbers, the computation of static routes and the reassembly queue of its TCP agents.

  \<^bold>\<open>The program.\<close>  An application written for GEA makes handles (blockers, dependencies, file
  descriptors, UDP sockets) and calls \<^verbatim>\<open>waitFor(handle, deadline, event, data)\<close>; the library calls
  \<^verbatim>\<open>event\<close> when the handle is ready or the deadline is over.  The directory \<^verbatim>\<open>src/gea\<close> implements this
  with \<^verbatim>\<open>select\<close> on POSIX systems; \<^verbatim>\<open>src/ns2-gea/ns-2/gea\<close> implements it inside ns-2, where every node of
  a simulated network runs a copy of the application and time is the clock of the simulator's
  scheduler.  ns-2 has six interchangeable schedulers, timers on top of them, packets and routing
  agents such as AODV.

  \<^bold>\<open>The theories.\<close>  All definitions are executable and at the top level of their theory; the errors
  that end the program are values of \<open>gea_error\<close> (theory \<open>Gea_Prelude\<close>), so every assertion, abort,
  null pointer and buffer overflow of the source is a branch of the model.

  \<^item> \<open>Gea_Prelude\<close>: results with errors, stable insertion, casts and signed words.
  \<^item> \<open>Gea_Time\<close> (gea/include/gea/Time.h, gea/src/Time.cc): points in time and durations as 64-bit words,
    conversions to seconds, arrays and \<^verbatim>\<open>timeval\<close>, the clock.  Round trips, rounding, monotonicity.
  \<^item> \<open>Gea_ObjRepository\<close> (ObjRepository.h, .cc): objects registered by name and node; the locale
    \<open>named_store\<close> is its contract.
  \<^item> \<open>Gea_Handle\<close> (Handle.h, Blocker, DependHandle, UnixFdHandle and the shadows): handles on an explicit
    heap, constructors and destructors.
  \<^item> \<open>Gea_EventLoop\<close> (gea/src/ShadowEventHandler.cc): \<^verbatim>\<open>waitFor\<close> and \<^verbatim>\<open>run\<close> with the sets for \<^verbatim>\<open>select\<close>, the
    time-out, descriptor and dependency phases.  The application is an environment of callbacks; the
    locale \<open>event_test\<close> covers the two predicates of \<^verbatim>\<open>remove_if\<close>.  Safety, what is called when, and the
    events that are lost.
  \<^item> \<open>Gea_PendList\<close> (posix/ShadowDependHandle.h): the linked list of pending events as a queue.
  \<^item> \<open>Gea_Udp\<close>, \<open>Gea_Socket\<close> (UdpHandle.h, gea/src/ShadowUdpHandle.cc): addresses and sockets over a table of
    descriptors.
  \<^item> \<open>Gea_Iface\<close> (gea/src/guess_iface.cc): the choice of the interface, with a loop that may not end.
  \<^item> \<open>Gea_Start\<close> (gea/src/utils/gea_start.cc): the loader of modules and its command reader.
  \<^item> \<open>Ns_Scheduler\<close> (common/scheduler.h, .cc): the base class as a record of operations over a queue, the run
    loop, the Tcl commands, the list scheduler; the locales \<open>event_queue\<close> (what every queue of events
    promises), \<open>peekable_queue\<close> (one can look at the next event), \<open>fifo_queue\<close> (events of one time leave
    in the order they came) and \<open>fifo_pair\<close> (two such
    queues run simulations alike, if the handlers keep the rules).
  \<^item> \<open>Ns_Heap\<close>, \<open>Ns_Calendar\<close>, \<open>Ns_Splay\<close> (heap.h, scheduler.cc, splay-scheduler.cc): the other schedulers, each
    an interpretation of these locales; \<open>Ns_Map\<close> (scheduler-map.cc): the scheduler on \<^verbatim>\<open>std::set\<close>, which
    reads a freed node; \<open>Ns_RealTime\<close>: the calendar run against the time of day, over the locale
    \<open>peekable_queue\<close>; \<open>Ns_RawEvents\<close>: events inserted past \<^verbatim>\<open>schedule\<close>.
  \<^item> \<open>Ns_Timer\<close> (timer-handler.h, .cc): the state machine of a timer over any scheduler.
  \<^item> \<open>Ns_Gea\<close>, \<open>Ns_GeaSafe\<close> (ns-2/gea): the ns-2 implementation of GEA, mutually recursive where event
    functions call the interface and pending dependencies call event functions; the network, which is a parameter,
    delivers packets to the handles between the events; its invariant.
  \<^item> \<open>Aodv_Packet\<close>, \<open>Aodv_Table\<close>, \<open>Aodv_Queue\<close>, \<open>Aodv_Agent\<close> (common/packet.h, aodv/): packets with their free
    list, the routing table, the send buffer as a linked list in the packet pool, and the agent with
    all its handlers.  \<open>Aodv_Frame\<close> has the invariant and the locale \<open>frame_rel\<close> of relations between
    the states before and after, \<open>Aodv_Safe\<close> the handlers, \<open>Aodv_Props\<close> and \<open>Aodv_Discovery\<close> the properties.
  \<^item> \<open>Ns_RngMat\<close>, \<open>Ns_Rng\<close> (tools/rng.h, rng.cc): the random number generator, its matrices modulo two primes, streams,
    substreams, jumps and seeds. A matrix is known by what it does to vectors, so that \<open>2\<^sup>1\<^sup>2\<^sup>7\<close> steps can be computed.
  \<^item> \<open>Tcp_Rq\<close>, \<open>Tcp_RqProps\<close> (tcp/rq.h, rq.cc): the reassembly queue, with its two lists and the blocks in a store; what it
    promises is the locale \<open>byte_store\<close>.
  \<^item> \<open>Tcp_Recv\<close> (tcp/tcp-full.cc): data segments trimmed, given to the queue and passed on.
  \<^item> \<open>Tcp_ScoreBoard\<close> (tcp/scoreboard-rq.h, .cc): the score board of a SACK sender over the queue.
  \<^item> \<open>Ns_Route\<close>, \<open>Ns_RouteProps\<close> (routing/route.h, route.cc): the flat table of links and the next hops computed from it,
    first steps of cheapest walks.
  \<^item> This theory: what holds of the four schedulers that simulate with their own clock.

  \<^bold>\<open>What is shown.\<close>  No abort of the schedulers, the timers, the event loop, the ns-2 backend and the AODV
  agent under stated rules for the application or for the packets received; the calendar and the
  splay scheduler run simulations as the list does, the one on \<^verbatim>\<open>std::set\<close> while freed nodes keep
  their contents, and the heap gives events out as the list does until its 32-bit key wraps, all of them for calls and
  handlers that make and schedule events only while these are not queued, with a handler and with a delay that is
  not negative; the real time scheduler dispatches events
  in order and never early; the send buffer refines a bounded queue with time-outs; routes do not get worse by packets of
  well-behaved nodes; replies,
  errors and requests do what they are for; the loader runs the commands of an input without zero bytes, if
  none has 100 words.  The random numbers are
  those that their authors publish, jumps and streams are as far apart as documented, and integers kept in
  doubles stay exact.  The reassembly queue is a set of bytes with the first missing one, over every overlap of
  segments; a stream received in any order is passed on up to the first missing byte; the score
  board chooses packets that are missing.  Computed routes are cheapest and following them arrives.  The
  properties of kind error show where the code does not do what it means to, on its own model.

  \<^bold>\<open>Bounds.\<close>  Loops over linked lists of packets get as fuel the number of packets that exist, and the
  lemmas show it is enough.  \<open>Ns_Scheduler.run\<close>, \<open>rt_run\<close>, \<open>Gea_EventLoop.run\<close> and the mutual recursion of \<open>Ns_Gea\<close>
  take fuel because the program may run for ever; \<open>simulation_ends\<close> and \<open>depend_loop_terminates\<close> say when
  it does not.  \<open>again2\<close> takes the number of blocks and one, and \<open>again2_ok\<close> shows that it is enough; \<open>set_seed_long\<close>
  takes fuel because with a clock that gives seed 0 for ever it would not return.  \<open>guess_loop\<close> is a partial function.  A \<^verbatim>\<open>double\<close> is a rational number: the
  rounding of sums is not modelled.  Machine integers are words where they can wrap.

  \<^bold>\<open>Not modelled.\<close>  Output and debug streams; the Tcl interpreter, \<^verbatim>\<open>otcl\<close> and \<^verbatim>\<open>tclcl\<close>; the classes of \<^verbatim>\<open>gea/utils\<close> that only wrap \<^verbatim>\<open>waitFor\<close>; the Windows variants; the
  distributions over the uniform numbers that take logarithms; hierarchical routes and their addresses; of TCP all but the reassembly of data and the SACK score
  board; the other protocols, queues, channels and agents of ns-2, which GEA does not use; the topology
  viewer (Java) and the wireshark dissector (C).  \<^verbatim>\<open>Duration::getSecondsD\<close>, which the ns-2 backend calls,
  is not in the tree and is a parameter.
\<close>

section \<open>What holds of the four schedulers with a clock of their own\<close>

text \<open>C1. A simulation whose handlers behave (they make and schedule events only while these are not
  queued, with a handler and not in the past) never aborts, whichever scheduler it uses, but when
  the \<open>2\<^sup>6\<^sup>3 - 1\<close> event numbers are used up: every dispatch calls a handler, at a clock that never
  goes back, and the run ends halted or with an empty queue.\<close>

theorem simulation_safe:
  assumes "handler_ok ListScheduler_ops handle" "handler_ok HeapScheduler_ops handle"
    and "handler_ok CalendarScheduler_ops handle" "handler_ok SplayScheduler_ops handle"
  shows "(sched_inv list_inv set (sched L) \<longrightarrow> (case run ListScheduler_ops handle n L of
       Inl err \<Rightarrow> err = OutOfFuel \<or> err = uid_exhausted
     | Inr S \<Rightarrow> sched_inv list_inv set (sched S) \<and> (halted (sched S) \<or> queue (sched S) = [])
         \<and> (\<exists>new. trace S = trace L @ new \<and> sorted (clock (sched L) # map (\<lambda>(e, t, u). t) new @ [clock (sched S)]))))
   \<and> (sched_inv heap_inv heap_members (sched H) \<longrightarrow> (case run HeapScheduler_ops handle n H of
       Inl err \<Rightarrow> err = OutOfFuel \<or> err = uid_exhausted
     | Inr S \<Rightarrow> sched_inv heap_inv heap_members (sched S) \<and> (halted (sched S) \<or> heap_members (queue (sched S)) = {})
         \<and> (\<exists>new. trace S = trace H @ new \<and> sorted (clock (sched H) # map (\<lambda>(e, t, u). t) new @ [clock (sched S)]))))
   \<and> (sched_inv cal_inv cal_members (sched C) \<longrightarrow> (case run CalendarScheduler_ops handle n C of
       Inl err \<Rightarrow> err = OutOfFuel \<or> err = uid_exhausted
     | Inr S \<Rightarrow> sched_inv cal_inv cal_members (sched S) \<and> (halted (sched S) \<or> cal_members (queue (sched S)) = {})
         \<and> (\<exists>new. trace S = trace C @ new \<and> sorted (clock (sched C) # map (\<lambda>(e, t, u). t) new @ [clock (sched S)]))))
   \<and> (sched_inv splay_inv splay_members (sched P) \<longrightarrow> (case run SplayScheduler_ops handle n P of
       Inl err \<Rightarrow> err = OutOfFuel \<or> err = uid_exhausted
     | Inr S \<Rightarrow> sched_inv splay_inv splay_members (sched S) \<and> (halted (sched S) \<or> splay_members (queue (sched S)) = {})
         \<and> (\<exists>new. trace S = trace P @ new \<and> sorted (clock (sched P) # map (\<lambda>(e, t, u). t) new @ [clock (sched S)]))))"
  using list.run_safe [OF assms(1), of L n] heap.run_safe [OF assms(2), of H n]
    calendar.run_safe [OF assms(3), of C n] splay.run_safe [OF assms(4), of P n]
  by (simp only: set_empty) blast

lemma fresh_inv:
  assumes "\<forall>a. euid (ev a) \<le> 0"
  shows "sched_inv list_inv set (new_Scheduler ev [])"
    and "sched_inv heap_inv heap_members (new_Scheduler ev (new_Heap HEAP_DEFAULT_SIZE))"
    and "sched_inv splay_inv splay_members (new_Scheduler ev new_SplayScheduler)"
    and "\<exists>q. new_CalendarScheduler SCHED_START = Inr q \<and> sched_inv cal_inv cal_members (new_Scheduler ev q)"
proof -
  show "sched_inv list_inv set (new_Scheduler ev [])"
    by (rule list.new_Scheduler_inv) (use assms in \<open>simp_all add: list_inv_def\<close>)
  show "sched_inv heap_inv heap_members (new_Scheduler ev (new_Heap HEAP_DEFAULT_SIZE))"
    by (rule heap.new_Scheduler_inv [OF new_Heap_inv assms])
  show "sched_inv splay_inv splay_members (new_Scheduler ev new_SplayScheduler)"
    by (rule splay.new_Scheduler_inv [OF new_SplayScheduler_inv assms])
  obtain q where q: "new_CalendarScheduler SCHED_START = Inr q" "cal_inv ev q" "all_events q = []"
    by (rule new_CalendarScheduler_inv)
  with calendar.new_Scheduler_inv [OF q(2) _ assms]
  show "\<exists>q. new_CalendarScheduler SCHED_START = Inr q \<and> sched_inv cal_inv cal_members (new_Scheduler ev q)"
    by (simp add: cal_members_def)
qed

theorem simulation_safe_witness:
  "\<exists>c. new_CalendarScheduler SCHED_START = Inr c
   \<and> (\<forall>err. run CalendarScheduler_ops demo_handler 4 \<lparr>sched = new_Scheduler demo_events c, world = 2, trace = []\<rparr> = Inl err
        \<longrightarrow> err = OutOfFuel \<or> err = uid_exhausted)"
proof -
  obtain c where c: "new_CalendarScheduler SCHED_START = Inr c" "sched_inv cal_inv cal_members (new_Scheduler demo_events c)"
    using fresh_inv(4) [OF demo_events_idle] by blast
  let ?S = "\<lambda>q. \<lparr>sched = new_Scheduler demo_events q, world = 2, trace = []\<rparr>"
  show ?thesis
    using simulation_safe [OF demo_handler_ok demo_handler_ok demo_handler_ok demo_handler_ok,
        of "?S []" 4 "?S (new_Heap HEAP_DEFAULT_SIZE)" "?S c" "?S new_SplayScheduler"] c
      fresh_inv(1-3) [OF demo_events_idle] by auto
qed

text \<open>The calls that fill a scheduler before it runs: from a new scheduler of each kind, every
  sequence of calls that schedules an event only while it is not queued, with a handler and not in
  the past, leads to a state of the invariant from which a run may start, or to the end of the event
  numbers.\<close>

theorem calls_keep_invariant:
  assumes "\<forall>a. euid (ev a) \<le> 0"
  shows "(calls_ok ListScheduler_ops calls (new_Scheduler ev []) \<longrightarrow>
      (case foldE (exec_call ListScheduler_ops) calls (new_Scheduler ev []) of
         Inl err \<Rightarrow> err = uid_exhausted | Inr s \<Rightarrow> sched_inv list_inv set s))
   \<and> (calls_ok HeapScheduler_ops calls (new_Scheduler ev (new_Heap HEAP_DEFAULT_SIZE)) \<longrightarrow>
      (case foldE (exec_call HeapScheduler_ops) calls (new_Scheduler ev (new_Heap HEAP_DEFAULT_SIZE)) of
         Inl err \<Rightarrow> err = uid_exhausted | Inr s \<Rightarrow> sched_inv heap_inv heap_members s))
   \<and> (calls_ok SplayScheduler_ops calls (new_Scheduler ev new_SplayScheduler) \<longrightarrow>
      (case foldE (exec_call SplayScheduler_ops) calls (new_Scheduler ev new_SplayScheduler) of
         Inl err \<Rightarrow> err = uid_exhausted | Inr s \<Rightarrow> sched_inv splay_inv splay_members s))
   \<and> (\<exists>q. new_CalendarScheduler SCHED_START = Inr q \<and> (calls_ok CalendarScheduler_ops calls (new_Scheduler ev q) \<longrightarrow>
      (case foldE (exec_call CalendarScheduler_ops) calls (new_Scheduler ev q) of
         Inl err \<Rightarrow> err = uid_exhausted | Inr s \<Rightarrow> sched_inv cal_inv cal_members s)))"
proof (intro conjI impI)
  obtain q where q: "new_CalendarScheduler SCHED_START = Inr q" "sched_inv cal_inv cal_members (new_Scheduler ev q)"
    using fresh_inv(4) [OF assms] by blast
  with calendar.exec_calls_step [OF q(2), of calls]
  show "\<exists>q. new_CalendarScheduler SCHED_START = Inr q \<and> (calls_ok CalendarScheduler_ops calls (new_Scheduler ev q) \<longrightarrow>
      (case foldE (exec_call CalendarScheduler_ops) calls (new_Scheduler ev q) of
         Inl err \<Rightarrow> err = uid_exhausted | Inr s \<Rightarrow> sched_inv cal_inv cal_members s))" by auto
qed (use list.exec_calls_step [OF fresh_inv(1) [OF assms], of calls] heap.exec_calls_step [OF fresh_inv(2) [OF assms], of calls]
    splay.exec_calls_step [OF fresh_inv(3) [OF assms], of calls] in auto)

theorem calls_keep_invariant_witness:
  "\<exists>s. foldE (exec_call ListScheduler_ops) demo_calls (new_Scheduler demo_events []) = Inr s \<and> sched_inv list_inv set s"
  using calls_keep_invariant [OF demo_events_idle, of demo_calls] demo_calls_ok [of ListScheduler_ops "[]"] demo_schedule
  by auto

text \<open>C18. Handlers that schedule nothing and keep the rules (\<open>handler_ok\<close>): one dispatch for each queued event, and one more round to see
  the queue empty, end the run, with no handler or queue error.\<close>

theorem simulation_ends:
  assumes "\<forall>h p t ev w. \<forall>c \<in> set (snd (handle h p t ev w)). scheduled c = {}"
    and "handler_ok CalendarScheduler_ops handle" and "sched_inv cal_inv cal_members (sched C)"
    and "card (cal_members (queue (sched C))) < n"
    and "handler_ok HeapScheduler_ops handle" and "sched_inv heap_inv heap_members (sched H)"
    and "card (heap_members (queue (sched H))) < n"
  shows "((\<exists>S. run CalendarScheduler_ops handle n C = Inr S) \<or> run CalendarScheduler_ops handle n C = Inl uid_exhausted)
    \<and> ((\<exists>S. run HeapScheduler_ops handle n H = Inr S) \<or> run HeapScheduler_ops handle n H = Inl uid_exhausted)"
proof
  show "(\<exists>S. run CalendarScheduler_ops handle n C = Inr S) \<or> run CalendarScheduler_ops handle n C = Inl uid_exhausted"
    by (rule calendar.run_terminates [OF assms(2) _ assms(3,4)]) (use assms(1) in blast)
  show "(\<exists>S. run HeapScheduler_ops handle n H = Inr S) \<or> run HeapScheduler_ops handle n H = Inl uid_exhausted"
    by (rule heap.run_terminates [OF assms(5) _ assms(6,7)]) (use assms(1) in blast)
qed

lemma demo_calendar:
  obtains c s where "new_CalendarScheduler SCHED_START = Inr c"
    "schedule CalendarScheduler_ops 7 2 1 (new_Scheduler demo_events c) = Inr s"
    "sched_inv cal_inv cal_members s" "cal_members (queue s) = {2}" "etime (events s 2) = 1" "euid (events s 2) = 1"
proof -
  obtain c where c: "new_CalendarScheduler SCHED_START = Inr c" "cal_inv demo_events c" "all_events c = []"
    by (rule new_CalendarScheduler_inv)
  then have "sched_inv cal_inv cal_members (new_Scheduler demo_events c)"
    using calendar.new_Scheduler_inv demo_events_idle by (simp add: cal_members_def)
  then obtain s where "schedule CalendarScheduler_ops 7 2 1 (new_Scheduler demo_events c) = Inr s"
    "sched_inv cal_inv cal_members s" "cal_members (queue s) = {2}" "etime (events s 2) = 1" "euid (events s 2) = 1"
    using calendar.schedule_step [of "new_Scheduler demo_events c" 7 2 1] c(3)
    by (auto simp: new_Scheduler_def demo_events_def cal_members_def SCHED_START_def)
  with c(1) show thesis by (rule that)
qed

definition quiet_handler :: "nat handler" where
  "quiet_handler h p t ev w = (Suc w, [])"

lemma quiet_handler_ok [simp]: "handler_ok ops quiet_handler"
  by (simp add: handler_ok_def quiet_handler_def)

theorem simulation_ends_witness:
  "\<exists>c s. new_CalendarScheduler SCHED_START = Inr c
    \<and> schedule CalendarScheduler_ops 7 2 1 (new_Scheduler demo_events c) = Inr s
    \<and> run CalendarScheduler_ops quiet_handler 2 \<lparr>sched = s, world = 0, trace = []\<rparr> \<noteq> Inl OutOfFuel"
proof -
  obtain c s where s: "new_CalendarScheduler SCHED_START = Inr c"
    "schedule CalendarScheduler_ops 7 2 1 (new_Scheduler demo_events c) = Inr s"
    "sched_inv cal_inv cal_members s" "cal_members (queue s) = {2}" by (rule demo_calendar)
  let ?C = "\<lparr>sched = s, world = 0, trace = []\<rparr>"
  let ?H = "\<lparr>sched = new_Scheduler demo_events (new_Heap HEAP_DEFAULT_SIZE), world = 0, trace = []\<rparr>"
  have "(\<exists>S. run CalendarScheduler_ops quiet_handler 2 ?C = Inr S)
      \<or> run CalendarScheduler_ops quiet_handler 2 ?C = Inl uid_exhausted"
    using simulation_ends [of quiet_handler ?C 2 ?H] s(3,4) fresh_inv(2) [OF demo_events_idle] new_Heap_inv(2)
    by (simp add: quiet_handler_def new_Scheduler_def)
  with s show ?thesis by (auto simp: uid_exhausted_def)
qed

text \<open>C19. Handlers that cancel nothing and keep the rules (\<open>handler_ok\<close>): when the run has emptied the calendar, every event that was in
  it has been dispatched, at its own time and under its own number.\<close>

theorem every_event_dispatched:
  assumes "handler_ok CalendarScheduler_ops handle"
    and "\<forall>h p t ev w. \<forall>c \<in> set (snd (handle h p t ev w)). cancelled c = {}"
    and "sched_inv cal_inv cal_members (sched S)" and "run CalendarScheduler_ops handle n S = Inr S'"
    and "\<not> halted (sched S')" and "x \<in> cal_members (queue (sched S))"
  shows "(x, etime (events (sched S) x), euid (events (sched S) x)) \<in> set (trace S')"
proof (rule calendar.run_dispatches [OF assms(1) _ assms(3,4,6)])
  show "cal_members (queue (sched S')) = {}" using calendar.run_safe [OF assms(1,3), of n] assms(4,5) by auto
qed (use assms(2) in blast)

lemma demo_run:
  "case bindE (new_CalendarScheduler SCHED_START) (\<lambda>c.
      bindE (schedule CalendarScheduler_ops 7 2 1 (new_Scheduler demo_events c)) (\<lambda>s.
        run CalendarScheduler_ops quiet_handler 2 \<lparr>sched = s, world = 0, trace = []\<rparr>)) of
      Inl _ \<Rightarrow> False | Inr S \<Rightarrow> \<not> halted (sched S) \<and> length (trace S) = 1"
  by code_simp

theorem every_event_dispatched_witness:
  "\<exists>c s S. new_CalendarScheduler SCHED_START = Inr c
    \<and> schedule CalendarScheduler_ops 7 2 1 (new_Scheduler demo_events c) = Inr s
    \<and> run CalendarScheduler_ops quiet_handler 2 \<lparr>sched = s, world = 0, trace = []\<rparr> = Inr S \<and> (2, 1, 1) \<in> set (trace S)"
proof -
  obtain c s where s: "new_CalendarScheduler SCHED_START = Inr c"
    "schedule CalendarScheduler_ops 7 2 1 (new_Scheduler demo_events c) = Inr s"
    "sched_inv cal_inv cal_members s" "cal_members (queue s) = {2}" "etime (events s 2) = 1" "euid (events s 2) = 1"
    by (rule demo_calendar)
  let ?C = "\<lparr>sched = s, world = 0, trace = []\<rparr>"
  obtain S where S: "run CalendarScheduler_ops quiet_handler 2 ?C = Inr S" "\<not> halted (sched S)"
    using demo_run s(1,2) by (auto split: sum.splits)
  have "(2, 1, 1) \<in> set (trace S)"
    using every_event_dispatched [of quiet_handler ?C 2 S 2] s S by (simp add: quiet_handler_def)
  with s S show ?thesis by blast
qed

text \<open>The round trip of the Tcl interface: \<^verbatim>\<open>at time proc\<close> puts a new event for \<^verbatim>\<open>proc\<close> into the queue,
  at \<^verbatim>\<open>time\<close> or, when that is negative, that long after the clock, and returns its number; \<^verbatim>\<open>cancel\<close>
  with a string that reads as this number leaves the queue with the events it had before.\<close>

theorem at_cancel_roundtrip:
  assumes "euid (events (sched S) a) \<le> 0" and "at_h \<noteq> 0" and "0 < s_uid (sched S)"
    and "clock (sched S) \<le> atof time \<or> atof time < 0"
    and "sched_inv cal_inv cal_members (sched S)"
  shows "\<exists>n S1. command CalendarScheduler_ops handle atof strtouid fuel at_h a [ns, ''at'', time, proc] S
      = Inr (TCL_OK (TclUid n), S1)
    \<and> a \<in> cal_members (queue (sched S1)) \<and> at_proc (sched S1) a = proc
    \<and> etime (events (sched S1) a) = (if atof time < 0 then clock (sched S) - atof time else atof time)
    \<and> (\<forall>arg b. strtouid arg = n \<longrightarrow>
        (\<exists>S2. command CalendarScheduler_ops handle atof strtouid fuel at_h b [ns, ''cancel'', arg] S1
            = Inr (TCL_OK TclNothing, S2)
          \<and> sched_inv cal_inv cal_members (sched S2)
          \<and> cal_members (queue (sched S2)) = cal_members (queue (sched S))))"
  using calendar.at_then_cancel [where atof = atof and time = time, OF assms(5,1-4), of proc strtouid] by (simp add: command_def)

theorem at_cancel_roundtrip_witness:
  "\<exists>c n S1. new_CalendarScheduler SCHED_START = Inr c
    \<and> command CalendarScheduler_ops quiet_handler (\<lambda>_. 3) (\<lambda>_. 5) 2 9 4 [''ns'', ''at'', ''3'', ''finish'']
        \<lparr>sched = new_Scheduler demo_events c, world = 0, trace = []\<rparr> = Inr (TCL_OK (TclUid n), S1)
    \<and> etime (events (sched S1) 4) = 3"
proof -
  obtain c where c: "new_CalendarScheduler SCHED_START = Inr c" "sched_inv cal_inv cal_members (new_Scheduler demo_events c)"
    using fresh_inv(4) [OF demo_events_idle] by blast
  let ?S = "\<lparr>sched = new_Scheduler demo_events c, world = 0, trace = []\<rparr>"
  have "\<exists>n S1. command CalendarScheduler_ops quiet_handler (\<lambda>_. 3) (\<lambda>_. 5) 2 9 4 [''ns'', ''at'', ''3'', ''finish''] ?S
      = Inr (TCL_OK (TclUid n), S1) \<and> etime (events (sched S1) 4) = 3"
    using at_cancel_roundtrip [of ?S 4 9 "\<lambda>_. 3" "''3''" quiet_handler "\<lambda>_. 5" 2 "''ns''" "''finish''"] c(2)
    by (auto simp: new_Scheduler_def demo_events_def SCHED_START_def)
  with c(1) show ?thesis by blast
qed

end
